(* ===== verification/Prelude.thy ===== *)
theory Prelude
  imports Main "HOL-Library.Word"
begin

text \<open>
  Shared vocabulary of the development: the machine types of the C++ code, the value that
  stands for a failed assertion or an out-of-range access, and the generic facts on words
  and lists that several components use.

  Unsigned C++ integers keep their width: \<open>uint8_t\<close>, \<open>uint16_t\<close>, \<open>uint32_t\<close> are words of
  8, 16 and 32 bits whose arithmetic wraps around as the code's does. A \<open>byte_buffer\<close>, a
  \<open>byte_buffer_chain\<close>, a \<open>byte_buffer_slice\<close> or a \<open>span\<close> of bytes is the list of its bytes.
\<close>

unbundle bit_operations_syntax

type_synonym u8 = "8 word"
type_synonym u16 = "16 word"
type_synonym u32 = "32 word"
type_synonym bytes = "u8 list"

text \<open>
  What the code does when an \<open>ocudu_assert\<close> fails or an absent element is dereferenced: the
  program stops (or its behaviour is undefined in a build without assertions). Operations
  that can get there return \<open>Inl\<close> of the reason.
\<close>

datatype fault =
    Missing_element   \<comment> \<open>\<open>circular_map::operator[]\<close> on an absent key\<close>
  | Duplicate_element \<comment> \<open>\<open>sdu_window::add_sn\<close> on a present key\<close>
  | Trim_overrun      \<comment> \<open>\<open>byte_buffer::trim_head\<close> or \<open>trim_tail\<close> beyond the length\<close>
  | View_overrun      \<comment> \<open>a \<open>byte_buffer_view\<close> that starts before the buffer\<close>
  | Bad_argument      \<comment> \<open>any other failed assertion on an argument\<close>
  | Missing_tick      \<comment> \<open>an SDU without a tick point where the discard timer needs one\<close>

type_synonym 'a run = "fault + 'a"

definition seq_run :: "'a run \<Rightarrow> ('a \<Rightarrow> 'b run) \<Rightarrow> 'b run" where
  "seq_run m f = (case m of Inl e \<Rightarrow> Inl e | Inr a \<Rightarrow> f a)"

lemma seq_run_simps [simp]:
  "seq_run (Inl e) f = Inl e"
  "seq_run (Inr a) f = f a"
  by (simp_all add: seq_run_def)

lemma seq_run_Inr: "seq_run m f = Inr b \<longleftrightarrow> (\<exists>a. m = Inr a \<and> f a = Inr b)"
  by (cases m) auto

text \<open>\<open>byte_buffer::trim_head\<close> and \<open>trim_tail\<close>, with their assertion.\<close>

definition trim_head :: "nat \<Rightarrow> bytes \<Rightarrow> bytes run" where
  "trim_head n buf = (if n \<le> length buf then Inr (drop n buf) else Inl Trim_overrun)"

definition trim_tail :: "nat \<Rightarrow> bytes \<Rightarrow> bytes run" where
  "trim_tail n buf = (if n \<le> length buf then Inr (take (length buf - n) buf) else Inl Trim_overrun)"

named_theorems word_nat "bridges from word operations to natural numbers"
named_theorems pdcp_inv "facts that carry the PDCP invariants"

subsection \<open>Counters that are incremented below a bound\<close>

lemma unat_add_one [word_nat]:
  fixes a b :: u32
  assumes "a < b"
  shows "unat (a + 1) = unat a + 1"
  using assms by unat_arith

lemma word_le_add_one:
  fixes a b :: u32
  shows "a < b \<Longrightarrow> a + 1 \<le> b"
  by (simp add: inc_le)

lemma unat_diff_less:
  fixes a b :: u32
  assumes "a \<noteq> b"
  shows "unat (b - (a + 1)) < unat (b - a)"
proof -
  have "b - a \<noteq> 0" using assms by simp
  then have "unat (b - a - 1) < unat (b - a)"
    by (metis measure_unat)
  then show ?thesis by (simp add: diff_diff_eq)
qed

lemma unat_u32_less [simp]: "unat (c :: u32) < 4294967296"
  using unsigned_less [where 'a = nat, of c] by simp

lemma sn_bit_bound:
  fixes sn :: "'a::len word"
  assumes "unat sn < 2 ^ n" and "bit sn i"
  shows "i < n"
proof (rule ccontr)
  assume "\<not> i < n"
  have "take_bit n sn = sn"
    using assms(1) by (simp only: word_unat_eq_iff unsigned_take_bit_eq) (simp add: take_bit_eq_mod)
  then show False using assms(2) \<open>\<not> i < n\<close> by (metis bit_take_bit_iff)
qed

end
