(* ===== verification/Pdcp_Sn.thy ===== *)
theory Pdcp_Sn
  imports Prelude
begin

text \<open>
  COUNT, HFN and SN arithmetic of the PDCP entities (\<open>lib/pdcp/pdcp_sn.h\<close>), the size constants
  of \<open>lib/pdcp/pdcp_entity_tx_rx_base.h\<close> and \<open>include/ocudu/pdcp/pdcp_config.h\<close>, and the window
  arithmetic that estimates a full COUNT from a received SN, which the receiving and the
  transmitting entity share.
\<close>

section \<open>Enumerations of the configuration\<close>

datatype pdcp_sn_size = Size12bits | Size18bits | Sn_invalid
datatype pdcp_rb_type = Srb | Drb
datatype pdcp_rlc_mode = Um | Am
datatype pdcp_security_direction = Uplink | Downlink

definition pdcp_sn_size_to_uint :: "pdcp_sn_size \<Rightarrow> nat" where
  "pdcp_sn_size_to_uint sn_size =
     (case sn_size of Size12bits \<Rightarrow> 12 | Size18bits \<Rightarrow> 18 | Sn_invalid \<Rightarrow> 19)"

definition pdcp_sn_size_from_uint :: "nat \<Rightarrow> pdcp_sn_size option" where
  "pdcp_sn_size_from_uint num =
     (if num = 12 then Some Size12bits else if num = 18 then Some Size18bits else None)"

definition sn_size_ok :: "pdcp_sn_size \<Rightarrow> bool" where
  "sn_size_ok sn_size \<longleftrightarrow> sn_size \<noteq> Sn_invalid"

lemma pdcp_sn_size_roundtrip: "sn_size_ok z \<Longrightarrow> pdcp_sn_size_from_uint (pdcp_sn_size_to_uint z) = Some z"
  by (cases z) (auto simp: sn_size_ok_def pdcp_sn_size_from_uint_def pdcp_sn_size_to_uint_def)

section \<open>Header, trailer and window sizes\<close>

definition pdcp_data_pdu_header_size :: "pdcp_sn_size \<Rightarrow> nat" where
  "pdcp_data_pdu_header_size sn_size =
     (case sn_size of Size12bits \<Rightarrow> 2 | Size18bits \<Rightarrow> 3 | Sn_invalid \<Rightarrow> 2)"

definition pdcp_data_header_size :: "pdcp_sn_size \<Rightarrow> u32" where
  "pdcp_data_header_size sn_size = (if sn_size = Size12bits then 2 else 3)"

definition pdcp_data_trailer_size :: "pdcp_rb_type \<Rightarrow> bool \<Rightarrow> u32" where
  "pdcp_data_trailer_size rb_type integrity_enabled =
     (if rb_type = Srb then 4 else if integrity_enabled then 4 else 0)"

text \<open>The window size of the entity's base class, and that of the configuration header.\<close>

definition pdcp_window_size :: "pdcp_sn_size \<Rightarrow> u32" where
  "pdcp_window_size sn_size =
     (case sn_size of Size12bits \<Rightarrow> 2048 | Size18bits \<Rightarrow> 131072 | Sn_invalid \<Rightarrow> 2048)"

definition pcdp_sn_cardinality :: "nat \<Rightarrow> u32" where
  "pcdp_sn_cardinality sn_size = push_bit sn_size 1"

definition pdcp_window_size_of_bits :: "nat \<Rightarrow> u32" where
  "pdcp_window_size_of_bits sn_size = pcdp_sn_cardinality (sn_size - 1)"

lemma pdcp_window_sizes_agree:
  "sn_size_ok z \<Longrightarrow> pdcp_window_size_of_bits (pdcp_sn_size_to_uint z) = pdcp_window_size z"
  by (cases z) (simp_all add: sn_size_ok_def pdcp_window_size_of_bits_def pcdp_sn_cardinality_def
      pdcp_sn_size_to_uint_def pdcp_window_size_def push_bit_eq_mult)

section \<open>SN, HFN and COUNT\<close>

definition pdcp_compute_sn :: "u32 \<Rightarrow> pdcp_sn_size \<Rightarrow> u32" where
  "pdcp_compute_sn count sn_size =
     count AND (drop_bit (32 - pdcp_sn_size_to_uint sn_size) 0xffffffff)"

definition pdcp_compute_hfn :: "u32 \<Rightarrow> pdcp_sn_size \<Rightarrow> u32" where
  "pdcp_compute_hfn count sn_size = drop_bit (pdcp_sn_size_to_uint sn_size) count"

definition pdcp_compute_count :: "u32 \<Rightarrow> u32 \<Rightarrow> pdcp_sn_size \<Rightarrow> u32" where
  "pdcp_compute_count hfn sn sn_size = (push_bit (pdcp_sn_size_to_uint sn_size) hfn) OR sn"

definition pdcp_sn_cardinality :: "pdcp_sn_size \<Rightarrow> u32" where
  "pdcp_sn_cardinality sn_size = push_bit (pdcp_sn_size_to_uint sn_size) 1"

text \<open>
  The COUNT estimate of \<open>pdcp_entity_rx::handle_data_pdu\<close> (with \<open>lower = RX_DELIV\<close>) and of
  \<open>pdcp_entity_tx::notification_count_estimation\<close> (with the lower edge of the TX window). The
  first comparison is made in 64-bit signed arithmetic, the second in \<open>uint32_t\<close>.
\<close>

definition estimate_hfn :: "pdcp_sn_size \<Rightarrow> u32 \<Rightarrow> u32 \<Rightarrow> u32" where
  "estimate_hfn sn_size lower sn =
     (if uint sn < uint (pdcp_compute_sn lower sn_size) - uint (pdcp_window_size sn_size)
      then pdcp_compute_hfn lower sn_size + 1
      else if pdcp_compute_sn lower sn_size + pdcp_window_size sn_size \<le> sn
      then pdcp_compute_hfn lower sn_size - 1
      else pdcp_compute_hfn lower sn_size)"

definition estimate_count :: "pdcp_sn_size \<Rightarrow> u32 \<Rightarrow> u32 \<Rightarrow> u32" where
  "estimate_count sn_size lower sn =
     pdcp_compute_count (estimate_hfn sn_size lower sn) sn sn_size"

section \<open>Their meaning on natural numbers\<close>

abbreviation sn_bits :: "pdcp_sn_size \<Rightarrow> nat" where
  "sn_bits \<equiv> pdcp_sn_size_to_uint"

definition window_nat :: "pdcp_sn_size \<Rightarrow> nat" where
  "window_nat z = unat (pdcp_window_size z)"

lemma window_nat_bits: "sn_size_ok z \<Longrightarrow> 2 * window_nat z = 2 ^ sn_bits z"
  by (cases z) (simp_all add: sn_size_ok_def window_nat_def pdcp_window_size_def pdcp_sn_size_to_uint_def)

lemma window_nat_values: "window_nat Size12bits = 2048" "window_nat Size18bits = 131072"
  by (simp_all add: window_nat_def pdcp_window_size_def)

lemma window_nat_pow2: "\<exists>k. window_nat z = 2 ^ k"
  by (cases z) (auto simp: window_nat_def pdcp_window_size_def intro: exI [of _ 11] exI [of _ 17])

lemma sn_bits_le: "sn_bits z \<le> 19" "12 \<le> sn_bits z"
  by (cases z; simp add: pdcp_sn_size_to_uint_def)+

lemma unat_compute_sn [word_nat]: "unat (pdcp_compute_sn c z) = unat c mod 2 ^ sn_bits z"
proof -
  have "drop_bit (32 - sn_bits z) (0xffffffff :: u32) = mask (sn_bits z)"
    by (cases z; simp add: pdcp_sn_size_to_uint_def mask_eq_exp_minus_1 drop_bit_eq_div)
  then have "pdcp_compute_sn c z = take_bit (sn_bits z) c"
    by (simp add: pdcp_compute_sn_def take_bit_eq_mask)
  then have "unat (pdcp_compute_sn c z) = take_bit (sn_bits z) (unat c)"
    by (simp only: unsigned_take_bit_eq)
  then show ?thesis by (simp only: take_bit_eq_mod)
qed

lemma unat_compute_hfn [word_nat]: "unat (pdcp_compute_hfn c z) = unat c div 2 ^ sn_bits z"
proof -
  have "unat (pdcp_compute_hfn c z) = drop_bit (sn_bits z) (unat c)"
    by (simp only: pdcp_compute_hfn_def unat_drop_bit_eq)
  then show ?thesis by (simp only: drop_bit_eq_div)
qed

lemma compute_count_add:
  assumes "unat sn < 2 ^ sn_bits z"
  shows "pdcp_compute_count hfn sn z = push_bit (sn_bits z) hfn + sn"
proof -
  have "push_bit (sn_bits z) hfn + sn = push_bit (sn_bits z) hfn OR sn"
  proof (rule disjunctive_add)
    fix n
    have "\<not> bit sn n" if "sn_bits z \<le> n"
    proof -
      have "take_bit (sn_bits z) sn = sn"
        using assms by (simp only: word_unat_eq_iff unsigned_take_bit_eq) (simp add: take_bit_eq_mod)
      then show ?thesis using that by (metis bit_take_bit_iff not_less)
    qed
    then show "\<not> bit (push_bit (sn_bits z) hfn) n \<or> \<not> bit sn n"
      by (auto simp: bit_push_bit_iff)
  qed
  then show ?thesis by (simp add: pdcp_compute_count_def)
qed

lemma unat_compute_count [word_nat]:
  assumes "unat sn < 2 ^ sn_bits z"
  shows "unat (pdcp_compute_count hfn sn z) = (unat hfn * 2 ^ sn_bits z + unat sn) mod 2 ^ 32"
proof -
  have "push_bit (sn_bits z) hfn + sn = word_of_nat (unat hfn * 2 ^ sn_bits z + unat sn)"
    by (simp add: push_bit_eq_mult)
  then show ?thesis by (simp only: compute_count_add [OF assms] unat_of_nat) simp
qed

lemma unat_sn_cardinality [word_nat]: "unat (pdcp_sn_cardinality z) = 2 ^ sn_bits z"
  by (cases z; simp add: pdcp_sn_cardinality_def pdcp_sn_size_to_uint_def push_bit_eq_mult)

section \<open>Splitting and joining a COUNT\<close>

lemma count_split: "pdcp_compute_count (pdcp_compute_hfn c z) (pdcp_compute_sn c z) z = c"
proof -
  have lt: "unat (pdcp_compute_sn c z) < 2 ^ sn_bits z" by (simp add: word_nat)
  have "unat (pdcp_compute_count (pdcp_compute_hfn c z) (pdcp_compute_sn c z) z) = unat c"
    unfolding unat_compute_count [OF lt] unat_compute_hfn unat_compute_sn div_mult_mod_eq by simp
  then show ?thesis by (simp add: word_unat_eq_iff)
qed

lemma sn_of_count:
  assumes "unat sn < 2 ^ sn_bits z" and "unat hfn * 2 ^ sn_bits z + unat sn < 2 ^ 32"
  shows "pdcp_compute_sn (pdcp_compute_count hfn sn z) z = sn"
    and "pdcp_compute_hfn (pdcp_compute_count hfn sn z) z = hfn"
  using assms by (simp_all add: word_unat_eq_iff unat_compute_sn unat_compute_hfn unat_compute_count)

section \<open>The COUNT estimate\<close>

lemma window_nat_half: "sn_size_ok z \<Longrightarrow> 2 ^ sn_bits z = 2 * window_nat z"
  by (simp add: window_nat_bits)

lemma sn_plus_window:
  assumes "sn_size_ok z"
  shows "unat (pdcp_compute_sn c z + pdcp_window_size z) = unat c mod 2 ^ sn_bits z + window_nat z"
proof -
  have "unat c mod 2 ^ sn_bits z < 2 ^ sn_bits z" by simp
  then have "unat (pdcp_compute_sn c z) + unat (pdcp_window_size z) < 2 ^ 32"
    using assms by (cases z)
      (simp_all add: unat_compute_sn sn_size_ok_def pdcp_sn_size_to_uint_def pdcp_window_size_def)
  then show ?thesis by (simp add: unat_word_ariths unat_compute_sn window_nat_def)
qed

text \<open>The three cases of the estimate, on natural numbers.\<close>

lemma estimate_hfn_cases:
  assumes "sn_size_ok z"
  shows "estimate_hfn z lower sn =
    (if unat sn + window_nat z < unat lower mod 2 ^ sn_bits z then pdcp_compute_hfn lower z + 1
     else if unat lower mod 2 ^ sn_bits z + window_nat z \<le> unat sn then pdcp_compute_hfn lower z - 1
     else pdcp_compute_hfn lower z)"
proof -
  have "uint sn < uint (pdcp_compute_sn lower z) - uint (pdcp_window_size z) \<longleftrightarrow>
      unat sn + window_nat z < unat lower mod 2 ^ sn_bits z"
    unfolding window_nat_def unat_compute_sn [symmetric]
    using uint_nat [of sn] uint_nat [of "pdcp_compute_sn lower z"] uint_nat [of "pdcp_window_size z"]
    by linarith
  moreover have "pdcp_compute_sn lower z + pdcp_window_size z \<le> sn \<longleftrightarrow>
      unat lower mod 2 ^ sn_bits z + window_nat z \<le> unat sn"
    by (simp add: word_le_nat_alt sn_plus_window [OF assms])
  ultimately show ?thesis by (simp add: estimate_hfn_def)
qed

lemma hfn_bound:
  fixes lower :: u32
  shows "unat lower div 2 ^ sn_bits z < 2 ^ 20"
proof -
  have "unat lower < 4294967296" by (rule unat_u32_less)
  then have "unat lower < 2 ^ 20 * 2 ^ sn_bits z"
    by (rule less_le_trans) (cases z; simp add: pdcp_sn_size_to_uint_def)
  then show ?thesis by (simp add: div_less_iff_less_mult)
qed

text \<open>
  The COUNT of a PDU that lies less than one window ahead of, and at most one window behind,
  the lower edge is recovered from its SN.
\<close>

lemma estimate_count_recovers:
  assumes z: "sn_size_ok z"
    and behind: "unat lower \<le> unat c + window_nat z"
    and ahead: "unat c < unat lower + window_nat z"
  shows "estimate_count z lower (pdcp_compute_sn c z) = c"
proof -
  let ?m = "2 ^ sn_bits z :: nat" and ?L = "unat lower" and ?C = "unat c"
  have m: "?m = 2 * window_nat z" using z by (rule window_nat_half)
  have w: "0 < window_nat z" using m by (metis nat_0_less_mult_iff zero_less_numeral zero_less_power)
  have "estimate_hfn z lower (pdcp_compute_sn c z) = pdcp_compute_hfn c z"
  proof -
    have L: "?L = ?L div ?m * ?m + ?L mod ?m" "?L mod ?m < ?m"
      and C: "?C = ?C div ?m * ?m + ?C mod ?m" "?C mod ?m < ?m" by (simp_all only: div_mult_mod_eq) simp_all
    consider "?C div ?m = ?L div ?m" | "?C div ?m = ?L div ?m + 1" | "?C div ?m + 1 = ?L div ?m"
    proof -
      have "?C div ?m \<le> (?L + ?m) div ?m" "?L div ?m \<le> (?C + ?m) div ?m"
        using ahead behind m by (auto intro!: div_le_mono)
      moreover have "(x + ?m) div ?m = x div ?m + 1" for x :: nat by (rule div_add_self2) simp
      ultimately have "?C div ?m \<le> ?L div ?m + 1" "?L div ?m \<le> ?C div ?m + 1" by (simp_all only:)
      then show ?thesis using that by linarith
    qed
    then show ?thesis
    proof cases
      case 1
      then have "?C div ?m * ?m = ?L div ?m * ?m" by simp
      then have "\<not> ?C mod ?m + window_nat z < ?L mod ?m" "\<not> ?L mod ?m + window_nat z \<le> ?C mod ?m"
        using L(1) C(1) ahead behind by linarith+
      then show ?thesis using 1
        by (simp add: estimate_hfn_cases [OF z] unat_compute_sn word_unat_eq_iff unat_compute_hfn)
    next
      case 2
      then have "?C div ?m * ?m = ?L div ?m * ?m + ?m" by simp
      then have "?C mod ?m + window_nat z < ?L mod ?m" using L(1) C(1) ahead m by linarith
      moreover have "pdcp_compute_hfn lower z + 1 = pdcp_compute_hfn c z"
        using 2 hfn_bound [of lower z] by (simp add: word_unat_eq_iff unat_word_ariths unat_compute_hfn)
      ultimately show ?thesis by (simp add: estimate_hfn_cases [OF z] unat_compute_sn)
    next
      case 3
      then have "?L div ?m * ?m = ?C div ?m * ?m + ?m" by (metis add.commute mult.commute mult_Suc_right plus_1_eq_Suc)
      then have "?L mod ?m + window_nat z \<le> ?C mod ?m" using L(1) C(1) behind m by linarith
      moreover have "pdcp_compute_hfn c z + 1 = pdcp_compute_hfn lower z"
        using 3 hfn_bound [of c z] by (simp add: word_unat_eq_iff unat_word_ariths unat_compute_hfn)
      then have "pdcp_compute_hfn lower z - 1 = pdcp_compute_hfn c z" by (metis add_diff_cancel)
      ultimately show ?thesis by (auto simp: estimate_hfn_cases [OF z] unat_compute_sn)
    qed
  qed
  then show ?thesis by (simp add: estimate_count_def count_split)
qed

text \<open>
  Whatever the SN, an estimate below the hard limit is less than one window ahead of the lower
  edge; an HFN that underflows gives an estimate beyond the limit.
\<close>

lemma estimate_count_below:
  assumes z: "sn_size_ok z" and sn: "unat sn < 2 ^ sn_bits z"
    and hard: "hard + 2 ^ sn_bits z \<le> 2 ^ 32"
    and est: "unat (estimate_count z lower sn) < hard"
  shows "unat (estimate_count z lower sn) < unat lower + window_nat z"
proof -
  let ?m = "2 ^ sn_bits z :: nat" and ?L = "unat lower"
  let ?e = "unat (estimate_hfn z lower sn) * ?m + unat sn"
  have m: "?m = 2 * window_nat z" using z by (rule window_nat_half)
  have e: "unat (estimate_count z lower sn) = ?e mod 2 ^ 32"
    by (simp only: estimate_count_def unat_compute_count [OF sn])
  have L: "?L = ?L div ?m * ?m + ?L mod ?m" "?L mod ?m < ?m" by (simp_all only: div_mult_mod_eq) simp_all
  consider (up) "unat sn + window_nat z < ?L mod ?m"
    | (down) "\<not> unat sn + window_nat z < ?L mod ?m" "?L mod ?m + window_nat z \<le> unat sn"
    | (same) "\<not> unat sn + window_nat z < ?L mod ?m" "\<not> ?L mod ?m + window_nat z \<le> unat sn"
    by blast
  then show ?thesis
  proof cases
    case up
    then have "unat (estimate_hfn z lower sn) = ?L div ?m + 1"
      using hfn_bound [of lower z] by (simp add: estimate_hfn_cases [OF z] unat_word_ariths unat_compute_hfn)
    then have "?e = ?L div ?m * ?m + ?m + unat sn" by simp
    moreover have "?e mod 2 ^ 32 \<le> ?e" by simp
    ultimately show ?thesis using up L(1) m e by linarith
  next
    case same
    then have "unat (estimate_hfn z lower sn) = ?L div ?m"
      by (simp add: estimate_hfn_cases [OF z] unat_compute_hfn)
    moreover have "?e mod 2 ^ 32 \<le> ?e" by simp
    ultimately show ?thesis using same L(1) e by simp
  next
    case down
    then have h: "estimate_hfn z lower sn = pdcp_compute_hfn lower z - 1"
      by (simp add: estimate_hfn_cases [OF z])
    show ?thesis
    proof (cases "?L div ?m = 0")
      case True
      then have "pdcp_compute_hfn lower z = 0" by (simp only: word_unat_eq_iff unat_compute_hfn) simp
      then have h: "estimate_hfn z lower sn = - 1" using h by simp
      have "unat (- 1 :: u32) = 4294967295" by (simp add: unsigned_minus_1_eq_mask mask_eq_exp_minus_1)
      then have "unat (- 1 :: u32) * ?m + unat sn = (2 ^ 32 - ?m + unat sn) + (?m - 1) * 2 ^ 32"
        using z by (cases z) (simp_all add: sn_size_ok_def pdcp_sn_size_to_uint_def)
      then have "?e mod 2 ^ 32 = (2 ^ 32 - ?m + unat sn) mod 2 ^ 32"
        by (simp only: h mod_mult_self1)
      also have "\<dots> = 2 ^ 32 - ?m + unat sn" using sn hard by simp
      finally show ?thesis using est e hard by linarith
    next
      case False
      then have pos: "pdcp_compute_hfn lower z \<noteq> 0" by (metis unat_compute_hfn unat_0)
      then have "unat (pdcp_compute_hfn lower z) \<noteq> 0" by (simp add: unat_eq_0)
      then have "unat (estimate_hfn z lower sn) + 1 = unat (pdcp_compute_hfn lower z)"
        unfolding h unat_minus_one [OF pos] by linarith
      then have "unat (estimate_hfn z lower sn) + 1 = ?L div ?m" by (simp only: unat_compute_hfn)
      then have "?L div ?m * ?m = unat (estimate_hfn z lower sn) * ?m + ?m"
        by (metis add.commute mult.commute mult_Suc_right plus_1_eq_Suc)
      moreover have "?e mod 2 ^ 32 \<le> ?e" by simp
      ultimately show ?thesis using sn L(1) e by linarith
    qed
  qed
qed

end
