(* ===== verification/Bit_Coding.thy ===== *)
theory Bit_Coding
  imports Prelude
begin

text \<open>
  \<open>include/ocudu/support/bit_encoding.h\<close> and \<open>lib/support/bit_encoding.cpp\<close>: the encoder that
  appends bit fields to a byte buffer and the decoder that reads them back, most significant
  bit first. The encoder is shown to append, and the decoder to consume, exactly the bits of
  the field. Allocation failures of the byte buffer are not modelled here.
\<close>

section \<open>Model\<close>

record bit_encoder =
  enc_bytes :: bytes
  enc_offset :: nat

record bit_decoder =
  dec_rest :: bytes    \<comment> \<open>the bytes from the iterator to the end\<close>
  dec_offset :: nat

definition encoder_init :: "bytes \<Rightarrow> bit_encoder" where
  "encoder_init bs = \<lparr>enc_bytes = bs, enc_offset = 0\<rparr>"

definition decoder_init :: "bytes \<Rightarrow> bit_decoder" where
  "decoder_init bs = \<lparr>dec_rest = bs, dec_offset = 0\<rparr>"

text \<open>\<open>writer.back() += x\<close>\<close>

definition add_to_back :: "u8 \<Rightarrow> bytes \<Rightarrow> bytes" where
  "add_to_back x bs = butlast bs @ [last bs + x]"

function pack :: "bit_encoder \<Rightarrow> 64 word \<Rightarrow> nat \<Rightarrow> bit_encoder" where
  "pack e val n_bits =
     (if n_bits = 0 \<or> 8 \<le> enc_offset e then e
      else
        let offset = enc_offset e;
            bs = (if offset = 0 then enc_bytes e @ [0] else enc_bytes e);
            val = (if n_bits < 64 then val AND (push_bit n_bits 1 - 1) else val)
        in if n_bits < 8 - offset
           then e\<lparr>enc_bytes := add_to_back (ucast (push_bit (8 - offset - n_bits) val)) bs,
                  enc_offset := offset + n_bits\<rparr>
           else pack (e\<lparr>enc_bytes := add_to_back (ucast (drop_bit (n_bits + offset - 8) val)) bs,
                       enc_offset := 0\<rparr>)
                  val (n_bits - (8 - offset)))"
  by pat_completeness auto
termination by (relation "measure (\<lambda>(e, v, n). n)") auto

declare pack.simps [simp del]

function unpack_loop :: "bit_decoder \<Rightarrow> u32 \<Rightarrow> nat \<Rightarrow> bool \<times> u32 \<times> bit_decoder" where
  "unpack_loop d val n_bits =
     (if n_bits = 0 \<or> 8 \<le> dec_offset d then (True, val, d)
      else case dec_rest d of
        [] \<Rightarrow> (False, val, d)
      | b # rest \<Rightarrow>
          let offset = dec_offset d in
          if n_bits < 8 - offset
          then let msk = push_bit (8 - offset) 1 - push_bit (8 - offset - n_bits) 1 :: u8
               in (True, val + ucast (drop_bit (8 - offset - n_bits) (b AND msk)),
                   d\<lparr>dec_offset := offset + n_bits\<rparr>)
          else let msk = push_bit (8 - offset) 1 - 1 :: u8
               in unpack_loop \<lparr>dec_rest = rest, dec_offset = 0\<rparr>
                    (val + push_bit (n_bits + offset - 8) (ucast (b AND msk)))
                    (n_bits - (8 - offset)))"
  by pat_completeness auto
termination by (relation "measure (\<lambda>(d, v, n). n)") auto

declare unpack_loop.simps [simp del]

definition unpack :: "bit_decoder \<Rightarrow> nat \<Rightarrow> bool \<times> u32 \<times> bit_decoder" where
  "unpack d n_bits = unpack_loop d 0 n_bits"

section \<open>The bits of a buffer\<close>

text \<open>The low \<open>n\<close> bits of a word, most significant first, and the number a bit list denotes.\<close>

definition field_bits :: "nat \<Rightarrow> 'a::len word \<Rightarrow> bool list" where
  "field_bits n w = rev (map (bit w) [0 ..< n])"

definition bits_val :: "bool list \<Rightarrow> nat" where
  "bits_val bs = horner_sum of_bool 2 (rev bs)"

definition all_bits :: "bytes \<Rightarrow> bool list" where
  "all_bits bs = concat (map (field_bits 8) bs)"

definition enc_wf :: "bit_encoder \<Rightarrow> bool" where
  "enc_wf e \<longleftrightarrow> enc_offset e < 8 \<and>
     (enc_offset e \<noteq> 0 \<longrightarrow> enc_bytes e \<noteq> [] \<and> (\<forall>i < 8 - enc_offset e. \<not> bit (last (enc_bytes e)) i))"

definition enc_bits :: "bit_encoder \<Rightarrow> bool list" where
  "enc_bits e = (if enc_offset e = 0 then all_bits (enc_bytes e)
                 else all_bits (butlast (enc_bytes e)) @ take (enc_offset e) (field_bits 8 (last (enc_bytes e))))"

definition dec_bits :: "bit_decoder \<Rightarrow> bool list" where
  "dec_bits d = drop (dec_offset d) (all_bits (dec_rest d))"

lemma field_bits_length [simp]: "length (field_bits n w) = n"
  by (simp add: field_bits_def)

lemma field_bits_nth: "i < n \<Longrightarrow> field_bits n w ! i = bit w (n - Suc i)"
  by (simp add: field_bits_def rev_nth)

lemma field_bits_0 [simp]: "field_bits 0 w = []"
  by (simp add: field_bits_def)

lemma all_bits_simps [simp]:
  "all_bits [] = []" "all_bits (b # bs) = field_bits 8 b @ all_bits bs"
  "all_bits (xs @ ys) = all_bits xs @ all_bits ys"
  by (simp_all add: all_bits_def)

lemma all_bits_length [simp]: "length (all_bits bs) = 8 * length bs"
  by (induction bs) auto

lemma all_bits_snoc_butlast: "bs \<noteq> [] \<Longrightarrow> all_bits bs = all_bits (butlast bs) @ field_bits 8 (last bs)"
  by (metis all_bits_simps(1,2,3) append_butlast_last_id append_Nil2)

lemma bits_val_append: "bits_val (xs @ ys) = bits_val ys + 2 ^ length ys * bits_val xs"
  by (simp add: bits_val_def horner_sum_append)

lemma bits_val_field: "bits_val (field_bits n w) = take_bit n (unat w)"
proof -
  have "map (bit w) [0 ..< n] = map (bit (unat w)) [0 ..< n]"
    by (simp add: bit_unsigned_iff)
  then have "bits_val (field_bits n w) = horner_sum of_bool 2 (map (bit (unat w)) [0 ..< n])"
    by (simp only: bits_val_def field_bits_def rev_rev_ident)
  then show ?thesis by (simp only: horner_sum_bit_eq_take_bit)
qed

lemma bits_val_less: "bits_val bs < 2 ^ length bs"
  using horner_sum_of_bool_2_less [of "rev bs"] by (simp add: bits_val_def)

lemma bits_val_Nil [simp]: "bits_val [] = 0"
  by (simp add: bits_val_def)

section \<open>The encoder appends the bits of the field\<close>

text \<open>
  Adding a value to a byte whose low \<open>m\<close> bits are clear, when the value fits these bits, sets
  the low bits and leaves the others.
\<close>

lemma bit_add_low:
  fixes l x :: u8
  assumes low: "\<forall>i < m. \<not> bit l i" and x: "\<forall>i \<ge> m. \<not> bit x i"
  shows "bit (l + x) i \<longleftrightarrow> (if i < m then bit x i else bit l i)"
proof -
  have "l + x = l OR x"
    by (rule disjunctive_add) (metis low x not_less)
  then show ?thesis using low x by (auto simp: bit_or_iff)
qed

lemma field_bits_add:
  fixes l x :: u8 and v :: "64 word"
  assumes off: "off + n + k = 8"
    and low: "\<forall>i < n + k. \<not> bit l i"
    and x: "\<And>i. bit x i \<longleftrightarrow> k \<le> i \<and> i < n + k \<and> bit v (i - k)"
  shows "take (off + n) (field_bits 8 (l + x)) = take off (field_bits 8 l) @ field_bits n v"
    and "\<forall>i < k. \<not> bit (l + x) i"
proof -
  have b: "bit (l + x) i \<longleftrightarrow> (if i < n + k then bit x i else bit l i)" for i
    by (rule bit_add_low) (use low x in auto)
  show "\<forall>i < k. \<not> bit (l + x) i" by (simp add: b x)
  show "take (off + n) (field_bits 8 (l + x)) = take off (field_bits 8 l) @ field_bits n v"
  proof (rule nth_equalityI)
    show "length (take (off + n) (field_bits 8 (l + x))) = length (take off (field_bits 8 l) @ field_bits n v)"
      using off by simp
    fix i assume "i < length (take (off + n) (field_bits 8 (l + x)))"
    then have i: "i < off + n" by simp
    show "take (off + n) (field_bits 8 (l + x)) ! i = (take off (field_bits 8 l) @ field_bits n v) ! i"
    proof (cases "i < off")
      case True
      then have "\<not> 8 - Suc i < n + k" using off by simp
      with True i off show ?thesis by (simp add: nth_append field_bits_nth b)
    next
      case False
      then have "8 - Suc i < n + k" "k \<le> 8 - Suc i" "8 - Suc i - k = n - Suc (i - off)"
        using i off by auto
      with False i off show ?thesis by (simp add: nth_append field_bits_nth b x)
    qed
  qed
qed

text \<open>The state of the encoder as the byte in progress and the bits already complete.\<close>

lemma enc_bits_started:
  assumes "enc_wf e"
  defines "bs \<equiv> (if enc_offset e = 0 then enc_bytes e @ [0] else enc_bytes e)"
  shows "bs \<noteq> []" and "\<forall>i < 8 - enc_offset e. \<not> bit (last bs) i"
    and "enc_bits e = all_bits (butlast bs) @ take (enc_offset e) (field_bits 8 (last bs))"
  using assms by (auto simp: enc_wf_def enc_bits_def)

lemma last_add_to_back [simp]: "last (add_to_back x bs) = last bs + x"
  by (simp add: add_to_back_def)

lemma butlast_add_to_back [simp]: "butlast (add_to_back x bs) = butlast bs"
  by (simp add: add_to_back_def)

lemma field_bits_mask: "field_bits n (v AND (push_bit n 1 - 1)) = field_bits n (v :: 'a::len word)"
proof -
  have "push_bit n 1 - 1 = (mask n :: 'a word)" by (simp add: mask_eq_decr_exp push_bit_of_1)
  then show ?thesis by (auto simp: field_bits_def bit_and_iff bit_mask_iff not_less rev_map intro!: nth_equalityI
        dest: bit_imp_le_length)
qed

lemma field_bits_split:
  assumes "m \<le> n"
  shows "field_bits n v = field_bits m (drop_bit (n - m) v) @ field_bits (n - m) v"
proof (rule nth_equalityI)
  show "length (field_bits n v) = length (field_bits m (drop_bit (n - m) v) @ field_bits (n - m) v)"
    using assms by simp
  fix i assume "i < length (field_bits n v)"
  then have i: "i < n" by simp
  show "field_bits n v ! i = (field_bits m (drop_bit (n - m) v) @ field_bits (n - m) v) ! i"
    using i assms by (auto simp: nth_append field_bits_nth bit_drop_bit_eq not_less intro!: arg_cong [where f = "bit v"])
qed

lemma field_bits_8_ucast: "field_bits m (ucast v :: u8) = field_bits m (v :: 64 word)" if "m \<le> 8"
  using that by (intro nth_equalityI) (auto simp: field_bits_nth bit_ucast_iff)

lemma bit_masked:
  "bit (if n < 64 then v AND (push_bit n 1 - 1) else v) i \<longleftrightarrow> i < n \<and> bit (v :: 64 word) i" if "n \<le> 64"
proof -
  have "push_bit n 1 - 1 = (mask n :: 64 word)" by (simp add: mask_eq_decr_exp push_bit_of_1)
  moreover have "bit v i \<Longrightarrow> i < 64" using bit_imp_le_length [of v i] by simp
  ultimately show ?thesis using that by (auto simp: bit_and_iff bit_mask_iff)
qed

lemma pack_0 [simp]: "pack e v 0 = e"
  by (simp add: pack.simps)

lemma pack_appends:
  assumes "enc_wf e" and "n \<le> 64"
  shows "enc_wf (pack e v n) \<and> enc_bits (pack e v n) = enc_bits e @ field_bits n v"
  using assms
proof (induction e v n rule: pack.induct)
  case (1 e v n)
  show ?case
  proof (cases "n = 0")
    case True
    with "1.prems" show ?thesis by simp
  next
    case False
    define off where "off = enc_offset e"
    define bs where "bs = (if off = 0 then enc_bytes e @ [0] else enc_bytes e)"
    define w where "w = (if n < 64 then v AND (push_bit n 1 - 1) else v)"
    have off: "off < 8" using "1.prems" by (simp add: enc_wf_def off_def)
    have bw: "bit w i \<longleftrightarrow> i < n \<and> bit v i" for i
      unfolding w_def using bit_masked "1.prems"(2) by blast
    note started = enc_bits_started [OF "1.prems"(1), folded off_def, folded bs_def]
    show ?thesis
    proof (cases "n < 8 - off")
      case part: True
      define x :: u8 where "x = ucast (push_bit (8 - off - n) w)"
      have x: "bit x i \<longleftrightarrow> 8 - off - n \<le> i \<and> i < n + (8 - off - n) \<and> bit v (i - (8 - off - n))" for i
        using part by (auto simp: x_def bit_ucast_iff bit_push_bit_iff bw)
      note fb = field_bits_add [of off n "8 - off - n" "last bs" x v, OF _ _ x]
      have p: "pack e v n = e\<lparr>enc_bytes := add_to_back x bs, enc_offset := off + n\<rparr>"
        using False part off by (simp add: pack.simps [of e v n] Let_def off_def bs_def w_def x_def)
      show ?thesis using fb started part off False
        by (simp add: p enc_wf_def enc_bits_def add_to_back_def)
    next
      case full: False
      define x :: u8 where "x = ucast (drop_bit (n + off - 8) w)"
      define e' where "e' = e\<lparr>enc_bytes := add_to_back x bs, enc_offset := 0\<rparr>"
      have x: "bit x i \<longleftrightarrow> 0 \<le> i \<and> i < (8 - off) + 0 \<and> bit (drop_bit (n - (8 - off)) v) (i - 0)" for i
        using full off by (auto simp: x_def bit_ucast_iff bit_drop_bit_eq bw add.commute)
      note fb = field_bits_add [of off "8 - off" 0 "last bs" x "drop_bit (n - (8 - off)) v", OF _ _ x]
      have p: "pack e v n = pack e' w (n - (8 - off))"
        using False full off by (subst pack.simps) (simp add: Let_def off_def bs_def w_def x_def e'_def)
      have wf': "enc_wf e'" by (simp add: e'_def enc_wf_def)
      have bits': "enc_bits e' = enc_bits e @ field_bits (8 - off) (drop_bit (n - (8 - off)) v)"
        using fb(1) started off by (simp add: e'_def enc_bits_def add_to_back_def)
      have ih: "enc_wf (pack e' w (n - (8 - off))) \<and>
          enc_bits (pack e' w (n - (8 - off))) = enc_bits e' @ field_bits (n - (8 - off)) w"
        unfolding e'_def x_def w_def bs_def off_def
        by (rule "1.IH") (use False full off wf' "1.prems"(2) in \<open>simp_all add: off_def e'_def x_def w_def bs_def\<close>)
      have fw: "field_bits (n - (8 - off)) w = field_bits (n - (8 - off)) v"
        by (intro nth_equalityI) (auto simp: field_bits_nth bw)
      have "field_bits n v = field_bits (8 - off) (drop_bit (n - (8 - off)) v) @ field_bits (n - (8 - off)) v"
        by (rule field_bits_split) (use full in simp)
      then show ?thesis using ih p bits' fw by simp
    qed
  qed
qed

section \<open>The decoder consumes the bits of the field\<close>

definition dec_wf :: "bit_decoder \<Rightarrow> bool" where
  "dec_wf d \<longleftrightarrow> dec_offset d < 8 \<and> (dec_offset d \<noteq> 0 \<longrightarrow> dec_rest d \<noteq> [])"

lemma window_mask: "push_bit (k + n) 1 - push_bit k 1 = (push_bit k (mask n) :: u8)"
proof -
  have "push_bit (k + n) 1 = push_bit k (mask n + 1 :: u8)"
    by (simp add: mask_eq_decr_exp push_bit_of_1 push_bit_push_bit [symmetric])
      (simp add: push_bit_eq_mult power_add)
  then show ?thesis by (simp add: push_bit_add)
qed

lemma drop_and_window:
  fixes b :: u8
  shows "drop_bit k (b AND (push_bit (k + n) 1 - push_bit k 1)) = take_bit n (drop_bit k b)"
  unfolding window_mask
  by (rule bit_word_eqI)
    (auto simp: bit_drop_bit_eq bit_and_iff bit_push_bit_iff bit_mask_iff bit_take_bit_iff
      dest: bit_imp_le_length)

lemma take_drop_field:
  assumes "off + n + k = 8"
  shows "take n (drop off (field_bits 8 (b :: u8))) = field_bits n (drop_bit k b)"
  using assms by (intro nth_equalityI) (auto simp: field_bits_nth bit_drop_bit_eq intro!: arg_cong [where f = "bit b"])

lemma ucast_of_nat: "(ucast (b :: u8) :: u32) = word_of_nat (unat b)"
  by (simp add: unsigned_ucast_eq word_of_nat_eq_iff)

lemma bits_val_part:
  fixes b :: u8
  assumes "off + n + k = 8"
  shows "word_of_nat (bits_val (take n (drop off (field_bits 8 b)))) =
         (ucast (drop_bit k (b AND (push_bit (k + n) 1 - push_bit k 1))) :: u32)"
  by (simp only: take_drop_field [OF assms] bits_val_field drop_and_window ucast_of_nat unsigned_take_bit_eq)

lemma unpack_loop_0 [simp]: "unpack_loop d v 0 = (True, v, d)"
  by (simp add: unpack_loop.simps)

lemma unpack_loop_empty: "n \<noteq> 0 \<Longrightarrow> dec_rest d = [] \<Longrightarrow> dec_offset d < 8 \<Longrightarrow> unpack_loop d v n = (False, v, d)"
  by (subst unpack_loop.simps) simp

lemma unpack_loop_part:
  assumes "n \<noteq> 0" and "dec_rest d = b # rs" and "off + n + k = 8" and "dec_offset d = off" and "k \<noteq> 0"
  shows "unpack_loop d v n =
    (True, v + word_of_nat (bits_val (take n (drop off (field_bits 8 b)))), d\<lparr>dec_offset := off + n\<rparr>)"
proof -
  have e: "8 - off - n = k" "8 - off = k + n" using assms(3) by auto
  show ?thesis using assms
    by (subst unpack_loop.simps) (simp add: Let_def e bits_val_part [OF assms(3)])
qed

lemma unpack_loop_full:
  assumes "dec_rest d = b # rs" and "dec_offset d = off" and "off < 8" and "8 - off \<le> n"
  shows "unpack_loop d v n = unpack_loop \<lparr>dec_rest = rs, dec_offset = 0\<rparr>
    (v + word_of_nat (2 ^ (n - (8 - off)) * take_bit (8 - off) (unat b))) (n - (8 - off))"
proof -
  have "push_bit (8 - off) 1 - 1 = (mask (8 - off) :: u8)" by (simp add: mask_eq_decr_exp push_bit_of_1)
  then have "ucast (b AND (push_bit (8 - off) 1 - 1)) = (word_of_nat (take_bit (8 - off) (unat b)) :: u32)"
    by (simp only: ucast_of_nat take_bit_eq_mask [symmetric] unsigned_take_bit_eq)
  then have m: "push_bit (n - (8 - off)) (ucast (b AND (push_bit (8 - off) 1 - 1))) =
      (word_of_nat (2 ^ (n - (8 - off)) * take_bit (8 - off) (unat b)) :: u32)"
    by (simp only: push_bit_eq_mult of_nat_mult of_nat_power of_nat_numeral mult.commute)
  have e: "n + off - 8 = n - (8 - off)" using assms(3,4) by simp
  have g: "(n = 0 \<or> 8 \<le> off) = False" "(n < 8 - off) = False" using assms(3,4) by auto
  show ?thesis
    by (subst unpack_loop.simps) (simp only: assms(1,2) g if_False list.case Let_def e m)
qed

lemma unpack_loop_bits:
  assumes "dec_wf d"
  shows "if n \<le> length (dec_bits d)
         then \<exists>d'. unpack_loop d v n = (True, v + word_of_nat (bits_val (take n (dec_bits d))), d') \<and>
                   dec_bits d' = drop n (dec_bits d) \<and> dec_wf d'
         else \<not> fst (unpack_loop d v n)"
  using assms
proof (induction n arbitrary: d v rule: less_induct)
  case (less n)
  define off where "off = dec_offset d"
  have off: "off < 8" using less.prems by (simp add: dec_wf_def off_def)
  consider "n = 0" | "n \<noteq> 0" "dec_rest d = []" | b rs where "n \<noteq> 0" "dec_rest d = b # rs"
    by (cases "dec_rest d") auto
  then show ?case
  proof cases
    case 1
    then show ?thesis using less.prems by simp
  next
    case 2
    then show ?thesis using unpack_loop_empty off by (simp add: dec_bits_def off_def)
  next
    case (3 b rs)
    have bits: "dec_bits d = drop off (field_bits 8 b) @ all_bits rs"
      using 3 off by (simp add: dec_bits_def off_def)
    show ?thesis
    proof (cases "n < 8 - off")
      case part: True
      let ?d = "d\<lparr>dec_offset := off + n\<rparr>"
      have "unpack_loop d v n = (True, v + word_of_nat (bits_val (take n (dec_bits d))), ?d)"
      proof -
        have "take n (dec_bits d) = take n (drop off (field_bits 8 b))" using bits part by simp
        moreover have "off + n + (8 - off - n) = 8" "dec_offset d = off" "8 - off - n \<noteq> 0"
          using part by (simp_all add: off_def)
        ultimately show ?thesis using unpack_loop_part [OF 3, of off "8 - off - n" v] by metis
      qed
      moreover have "dec_bits ?d = drop n (dec_bits d)"
        using 3 part by (simp add: dec_bits_def off_def add.commute)
      moreover have "n \<le> length (dec_bits d)" using bits part by simp
      moreover have "dec_wf ?d" using 3 part by (simp add: dec_wf_def)
      ultimately show ?thesis by auto
    next
      case full: False
      let ?d = "\<lparr>dec_rest = rs, dec_offset = 0\<rparr>"
      let ?m = "8 - off"
      define v' :: u32 where "v' = v + word_of_nat (2 ^ (n - ?m) * take_bit ?m (unat b))"
      have step: "unpack_loop d v n = unpack_loop ?d v' (n - ?m)"
        unfolding v'_def
        by (rule unpack_loop_full [OF 3(2)]) (use off full in \<open>simp_all add: off_def\<close>)
      have db: "dec_bits ?d = all_bits rs" by (simp add: dec_bits_def)
      have "n - ?m < n" using 3(1) off by simp
      note ih = less.IH [OF this, of ?d v', unfolded db]
      have wf: "dec_wf ?d" by (simp add: dec_wf_def)
      have fb: "drop off (field_bits 8 b) = field_bits ?m b"
        using take_drop_field [of off ?m 0 b] off by simp
      have dn: "drop n (dec_bits d) = drop (n - ?m) (all_bits rs)" using full by (simp add: bits)
      show ?thesis
      proof (cases "n \<le> length (dec_bits d)")
        case enough: True
        then have len: "n - ?m \<le> length (all_bits rs)" using bits by simp
        have "take n (dec_bits d) = field_bits ?m b @ take (n - ?m) (all_bits rs)"
          using full by (simp add: bits fb)
        then have "bits_val (take n (dec_bits d)) =
            bits_val (take (n - ?m) (all_bits rs)) + 2 ^ (n - ?m) * take_bit ?m (unat b)"
          using len by (simp only: bits_val_append bits_val_field length_take min_absorb2)
        then have sum: "v' + word_of_nat (bits_val (take (n - ?m) (all_bits rs))) =
            v + word_of_nat (bits_val (take n (dec_bits d)))"
          by (simp only: v'_def of_nat_add ac_simps)
        obtain d' where "unpack_loop ?d v' (n - ?m) =
            (True, v' + word_of_nat (bits_val (take (n - ?m) (all_bits rs))), d')"
          "dec_bits d' = drop (n - ?m) (all_bits rs)" "dec_wf d'"
          using ih [OF wf] len by auto
        then show ?thesis unfolding step dn sum using enough by simp
      next
        case False
        then have "\<not> n - ?m \<le> length (all_bits rs)" using full bits by simp
        then show ?thesis using ih [OF wf] False unfolding step by simp
      qed
    qed
  qed
qed

lemma unpack_bits:
  assumes "dec_wf d" and "n \<le> length (dec_bits d)" and "n \<le> 32"
  shows "\<exists>v d'. unpack d n = (True, v, d') \<and> unat v = bits_val (take n (dec_bits d)) \<and>
           dec_bits d' = drop n (dec_bits d) \<and> dec_wf d'"
proof -
  have "bits_val (take n (dec_bits d)) < 2 ^ n"
    using bits_val_less [of "take n (dec_bits d)"] assms(2) by simp
  also have "(2 :: nat) ^ n \<le> 2 ^ 32" by (rule power_increasing) (use assms(3) in auto)
  finally have "unat (word_of_nat (bits_val (take n (dec_bits d))) :: u32) = bits_val (take n (dec_bits d))"
    by (simp add: unat_of_nat)
  then show ?thesis using unpack_loop_bits [OF assms(1), of n 0] assms(2) by (auto simp: unpack_def)
qed

lemma unpack_short:
  assumes "dec_wf d" and "length (dec_bits d) < n"
  shows "\<not> fst (unpack d n)"
  using unpack_loop_bits [OF assms(1), of n 0] assms(2) by (simp add: unpack_def)

lemma dec_bits_init [simp]: "dec_bits (decoder_init bs) = all_bits bs"
  by (simp add: decoder_init_def dec_bits_def)

lemma dec_wf_init [simp]: "dec_wf (decoder_init bs)"
  by (simp add: decoder_init_def dec_wf_def)

lemma enc_init [simp]: "enc_wf (encoder_init bs)" "enc_bits (encoder_init bs) = all_bits bs"
  by (simp_all add: encoder_init_def enc_wf_def enc_bits_def)

text \<open>The finished buffer holds the encoded bits followed by zero padding to a full byte.\<close>

lemma enc_bytes_bits:
  assumes "enc_wf e"
  shows "\<exists>k < 8. all_bits (enc_bytes e) = enc_bits e @ replicate k False"
proof (cases "enc_offset e = 0")
  case True
  then show ?thesis by (intro exI [of _ 0]) (simp add: enc_bits_def)
next
  case False
  let ?l = "last (enc_bytes e)" and ?o = "enc_offset e"
  have o: "?o < 8" and ne: "enc_bytes e \<noteq> []" and low: "\<forall>i < 8 - ?o. \<not> bit ?l i"
    using assms False by (auto simp: enc_wf_def)
  have "drop ?o (field_bits 8 ?l) = replicate (8 - ?o) False"
    using low by (intro nth_equalityI) (auto simp: field_bits_nth)
  then have "field_bits 8 ?l = take ?o (field_bits 8 ?l) @ replicate (8 - ?o) False"
    by (metis append_take_drop_id)
  then have "all_bits (enc_bytes e) = enc_bits e @ replicate (8 - ?o) False"
    using all_bits_snoc_butlast [OF ne] False by (simp add: enc_bits_def)
  then show ?thesis using False by (intro exI [of _ "8 - ?o"]) auto
qed

end
