(* ===== verification/Pdcp_Header.thy ===== *)
theory Pdcp_Header
  imports Pdcp_Sn Bit_Coding
begin

text \<open>
  The headers of PDCP PDUs: the D/C and CPT fields (\<open>lib/pdcp/pdcp_pdu.h\<close>), the data PDU header
  that \<open>pdcp_entity_tx::prepend_data_pdu_header\<close> writes and \<open>pdcp_entity_rx::read_data_pdu_header\<close>
  reads, the control PDU header, and the SN extraction \<open>get_pdcp_sn\<close> of
  \<open>include/ocudu/ran/pdcp/pdcp_sn_util.h\<close> that RLC uses on its SDUs. The lemmas are the round
  trips between the writer and the two readers.
\<close>

section \<open>The D/C and CPT fields\<close>

datatype pdcp_dc_field = Dc_control | Dc_data

fun dc_to_number :: "pdcp_dc_field \<Rightarrow> u32" where
  "dc_to_number Dc_control = 0"
| "dc_to_number Dc_data = 1"

definition pdcp_pdu_get_dc :: "u8 \<Rightarrow> pdcp_dc_field" where
  "pdcp_pdu_get_dc first_byte = (if drop_bit 7 first_byte AND 1 = 1 then Dc_data else Dc_control)"

text \<open>A cast to the enumeration may also give one of the values 4 to 7, which have no enumerator.\<close>

datatype pdcp_control_pdu_type =
    Status_report | Interspersed_rohc_feedback | Ehc_feedback | Udc_feedback | Cpt_reserved u8

fun cpt_to_number :: "pdcp_control_pdu_type \<Rightarrow> u16" where
  "cpt_to_number Status_report = 0"
| "cpt_to_number Interspersed_rohc_feedback = 1"
| "cpt_to_number Ehc_feedback = 2"
| "cpt_to_number Udc_feedback = 3"
| "cpt_to_number (Cpt_reserved v) = ucast v"

definition pdcp_control_pdu_get_cpt :: "u8 \<Rightarrow> pdcp_control_pdu_type" where
  "pdcp_control_pdu_get_cpt first_byte =
     (let v = drop_bit 4 first_byte AND 7 in
      if v = 0 then Status_report
      else if v = 1 then Interspersed_rohc_feedback
      else if v = 2 then Ehc_feedback
      else if v = 3 then Udc_feedback
      else Cpt_reserved v)"

section \<open>Reading and writing\<close>

definition read_data_pdu_header :: "pdcp_sn_size \<Rightarrow> bytes \<Rightarrow> u32 option" where
  "read_data_pdu_header sn_size buf =
     (if length buf \<le> pdcp_data_pdu_header_size sn_size then None
      else case sn_size of
        Size12bits \<Rightarrow>
          Some (push_bit 8 (ucast (buf ! 0) AND 0x0f) OR (ucast (buf ! 1) AND 0xff))
      | Size18bits \<Rightarrow>
          Some (push_bit 16 (ucast (buf ! 0) AND 0x03) OR push_bit 8 (ucast (buf ! 1) AND 0xff)
                OR (ucast (buf ! 2) AND 0xff))
      | Sn_invalid \<Rightarrow> None)"

text \<open>
  \<open>room\<close> says whether \<open>reserve_prepend\<close> finds the headroom; without it the function returns
  false. An 18-bit SN on an SRB fails the assertion.
\<close>

definition prepend_data_pdu_header ::
    "pdcp_sn_size \<Rightarrow> bool \<Rightarrow> bool \<Rightarrow> bytes \<Rightarrow> u32 \<Rightarrow> bytes option run" where
  "prepend_data_pdu_header sn_size is_srb room buf sn =
     (if is_srb \<and> sn_size = Size18bits then Inl Bad_argument
      else if \<not> room then Inr None
      else let dc = (if is_srb then 0x00 else 0x80) :: u8 in
        case sn_size of
          Size12bits \<Rightarrow> Inr (Some ([dc OR ucast (drop_bit 8 (sn AND 0x00000f00)),
                                   ucast (sn AND 0x000000ff)] @ buf))
        | Size18bits \<Rightarrow> Inr (Some ([dc OR ucast (drop_bit 16 (sn AND 0x00030000)),
                                   ucast (drop_bit 8 (sn AND 0x0000ff00)),
                                   ucast (sn AND 0x000000ff)] @ buf))
        | Sn_invalid \<Rightarrow> Inr None)"

definition prepend_control_pdu_header :: "bool \<Rightarrow> bytes \<Rightarrow> pdcp_control_pdu_type \<Rightarrow> bytes option" where
  "prepend_control_pdu_header room buf cpt =
     (if \<not> room then None
      else Some ((ucast (push_bit 7 (dc_to_number Dc_control AND 1)) OR
                  ucast (push_bit 4 (cpt_to_number cpt AND 3))) # buf))"

text \<open>\<open>get_pdcp_sn\<close>: one \<open>bit_decoder\<close> walks through the D/C bit, the reserved bits and the SN.\<close>

definition get_pdcp_sn :: "bytes \<Rightarrow> pdcp_sn_size \<Rightarrow> bool \<Rightarrow> u32 option" where
  "get_pdcp_sn pdcp_pdu pdcp_sn_len is_srb =
     (if pdcp_pdu = [] then None
      else if is_srb \<and> pdcp_sn_len \<noteq> Size12bits then None
      else
        let (read_ok, dc_field, decoder) = unpack (decoder_init pdcp_pdu) 1 in
        if \<not> read_ok then None
        else if \<not> is_srb \<and> dc_field = 0 then None
        else if is_srb \<and> dc_field = 1 then None
        else if pdcp_sn_len = Sn_invalid then None
        else
          let (ok1, reserved, decoder) = unpack decoder (if pdcp_sn_len = Size12bits then 3 else 5);
              (ok2, pdcp_sn, decoder) = unpack decoder (if pdcp_sn_len = Size12bits then 12 else 18) in
          if \<not> (read_ok \<and> ok1 \<and> ok2) then None
          else if reserved \<noteq> 0 then None
          else Some pdcp_sn)"

section \<open>Round trip of the data PDU header\<close>

lemma header_masks:
  "(0x0f :: u32) = mask 4" "(0x03 :: u32) = mask 2" "(0xff :: u32) = mask 8"
  "(0x00000f00 :: u32) = push_bit 8 (mask 4)" "(0x00030000 :: u32) = push_bit 16 (mask 2)"
  "(0x0000ff00 :: u32) = push_bit 8 (mask 8)" "(0x80 :: u8) = push_bit 7 1"
  by (simp_all add: mask_eq_exp_minus_1 push_bit_eq_mult)

definition sn_bytes :: "pdcp_sn_size \<Rightarrow> bool \<Rightarrow> u32 \<Rightarrow> bytes" where
  "sn_bytes z srb sn =
     (let dc = (if srb then 0 else push_bit 7 1) :: u8 in
      if z = Size12bits then [dc OR ucast (drop_bit 8 sn AND mask 4), ucast sn]
      else [dc OR ucast (drop_bit 16 sn AND mask 2), ucast (drop_bit 8 sn), ucast sn])"

lemma sn_bytes_length [simp]: "sn_size_ok z \<Longrightarrow> length (sn_bytes z srb sn) = pdcp_data_pdu_header_size z"
  by (cases z) (simp_all add: sn_bytes_def pdcp_data_pdu_header_size_def sn_size_ok_def)

lemma prepend_data_pdu_header_bytes:
  assumes "sn_size_ok z" and "\<not> (srb \<and> z = Size18bits)"
  shows "prepend_data_pdu_header z srb True buf sn = Inr (Some (sn_bytes z srb sn @ buf))"
proof -
  have 8: "ucast (sn AND mask 8) = (ucast sn :: u8)"
    by (rule bit_word_eqI) (auto simp: bit_simps)
  have 12: "ucast (drop_bit 8 (sn AND push_bit 8 (mask 4))) = (ucast (drop_bit 8 sn AND mask 4) :: u8)"
    by (rule bit_word_eqI) (auto simp: bit_simps)
  have 18: "ucast (drop_bit 16 (sn AND push_bit 16 (mask 2))) = (ucast (drop_bit 16 sn AND mask 2) :: u8)"
    "ucast (drop_bit 8 (sn AND push_bit 8 (mask 8))) = (ucast (drop_bit 8 sn) :: u8)"
    by (rule bit_word_eqI, auto simp: bit_simps)+
  show ?thesis using assms
    by (cases z) (simp_all only: prepend_data_pdu_header_def header_masks 8 12 18 sn_bytes_def Let_def
        sn_size_ok_def pdcp_sn_size.simps if_True if_False simp_thms append_Cons append_Nil)
qed

lemma bit_dc: "dc = 0 \<or> dc = (push_bit 7 1 :: u8) \<Longrightarrow> i < 7 \<Longrightarrow> \<not> bit dc i"
  by (auto simp: bit_push_bit_iff simp del: push_bit_of_1)

lemma high_part:
  fixes dc :: u8 and sn :: u32
  assumes dc: "dc = 0 \<or> dc = push_bit 7 1" and m: "m \<le> 7" and k: "k + m \<le> 32"
  shows "bit (push_bit k (ucast (dc OR ucast (drop_bit k sn AND mask m)) AND mask m) :: u32) n \<longleftrightarrow>
    k \<le> n \<and> n < k + m \<and> bit sn n"
proof (cases "k \<le> n \<and> n < k + m")
  case True
  then have "\<not> bit dc (n - k)" using bit_dc [OF dc, of "n - k"] m by linarith
  then show ?thesis using True m k by (auto simp: bit_simps)
qed (auto simp: bit_simps)

lemma low_part:
  "bit (push_bit k (ucast (ucast (drop_bit k sn) :: u8) AND mask 8) :: u32) n \<longleftrightarrow>
    k \<le> n \<and> n < k + 8 \<and> bit sn n" if "k + 8 \<le> 32" for sn :: u32
  using that by (auto simp: bit_simps)

lemma join_sn_12:
  fixes dc :: u8 and sn :: u32
  assumes "dc = 0 \<or> dc = push_bit 7 1" and "unat sn < 2 ^ 12"
  shows "push_bit 8 (ucast (dc OR ucast (drop_bit 8 sn AND mask 4)) AND mask 4) OR
      (ucast (ucast sn :: u8) AND mask 8) = sn"
proof (rule bit_word_eqI)
  fix n assume "n < LENGTH(32)"
  show "bit (push_bit 8 (ucast (dc OR ucast (drop_bit 8 sn AND mask 4)) AND mask 4) OR
      (ucast (ucast sn :: u8) AND mask 8) :: u32) n = bit sn n"
    using sn_bit_bound [OF assms(2), of n] low_part [of 0 sn n]
    by (auto simp: bit_or_iff high_part [OF assms(1)] simp del: push_bit_and)
qed

lemma join_sn_18:
  fixes dc :: u8 and sn :: u32
  assumes "dc = 0 \<or> dc = push_bit 7 1" and "unat sn < 2 ^ 18"
  shows "push_bit 16 (ucast (dc OR ucast (drop_bit 16 sn AND mask 2)) AND mask 2) OR
      push_bit 8 (ucast (ucast (drop_bit 8 sn) :: u8) AND mask 8) OR
      (ucast (ucast sn :: u8) AND mask 8) = sn"
proof (rule bit_word_eqI)
  fix n assume "n < LENGTH(32)"
  show "bit (push_bit 16 (ucast (dc OR ucast (drop_bit 16 sn AND mask 2)) AND mask 2) OR
      push_bit 8 (ucast (ucast (drop_bit 8 sn) :: u8) AND mask 8) OR
      (ucast (ucast sn :: u8) AND mask 8) :: u32) n = bit sn n"
    using sn_bit_bound [OF assms(2), of n] low_part [of 0 sn n]
    by (auto simp: bit_or_iff high_part [OF assms(1)] low_part simp del: push_bit_and)
qed

lemma read_sn_bytes:
  assumes "sn_size_ok z" and "unat sn < 2 ^ sn_bits z" and "buf \<noteq> []"
  shows "read_data_pdu_header z (sn_bytes z srb sn @ buf) = Some sn"
proof -
  have dc: "(if srb then 0 else push_bit 7 1 :: u8) = 0 \<or> (if srb then 0 else push_bit 7 1 :: u8) = push_bit 7 1"
    by simp
  show ?thesis using assms join_sn_12 [OF dc, of sn] join_sn_18 [OF dc, of sn]
    by (cases z) (simp_all add: read_data_pdu_header_def sn_bytes_def pdcp_data_pdu_header_size_def Let_def
        header_masks pdcp_sn_size_to_uint_def sn_size_ok_def del: push_bit_of_1)
qed

text \<open>What the reader returns always fits the configured SN size.\<close>

lemma read_data_pdu_header_bound:
  assumes "read_data_pdu_header z buf = Some sn"
  shows "unat sn < 2 ^ sn_bits z" and "sn_size_ok z" and "pdcp_data_pdu_header_size z < length buf"
proof -
  show "sn_size_ok z" "pdcp_data_pdu_header_size z < length buf"
    using assms by (auto simp: read_data_pdu_header_def sn_size_ok_def split: if_splits)
  have "take_bit (sn_bits z) sn = sn"
    using assms by (cases z)
      (auto simp: read_data_pdu_header_def header_masks pdcp_sn_size_to_uint_def bit_simps
        intro!: bit_word_eqI split: if_splits)
  then have "unat sn = take_bit (sn_bits z) (unat sn)" by (metis unsigned_take_bit_eq)
  then show "unat sn < 2 ^ sn_bits z" by (metis take_bit_nat_less_exp)
qed

section \<open>The SN extraction of the lower layer\<close>

lemma unpack_value:
  assumes "dec_wf d" and "n \<le> length (dec_bits d)" and "n \<le> 32"
  obtains d' where "unpack d n = (True, word_of_nat (bits_val (take n (dec_bits d))), d')"
    and "dec_wf d'" and "dec_bits d' = drop n (dec_bits d)"
  using unpack_bits [OF assms] by (metis of_nat_unat ucast_id)

definition header_fields :: "pdcp_sn_size \<Rightarrow> bytes \<Rightarrow> nat \<times> nat \<times> nat" where
  "header_fields z p =
     (let r = (if z = Size12bits then 3 else 5); B = all_bits p in
      (bits_val (take 1 B), bits_val (take r (drop 1 B)), bits_val (take (sn_bits z) (drop (1 + r) B))))"

lemma bits_val_take_less: "m \<le> k \<Longrightarrow> bits_val (take m bs) < 2 ^ k"
  using bits_val_less [of "take m bs"] by (rule less_le_trans) simp

lemma get_pdcp_sn_fields:
  assumes z: "sn_size_ok z" and len: "pdcp_data_pdu_header_size z \<le> length p" and hf: "header_fields z p = (D, R, S)"
  shows "get_pdcp_sn p z srb =
    (if srb \<and> z \<noteq> Size12bits \<or> D = of_bool srb \<or> R \<noteq> 0 then None else Some (word_of_nat S))"
proof -
  let ?r = "if z = Size12bits then 3 else 5 :: nat"
  have len8: "1 + ?r + sn_bits z \<le> 8 * length p"
    using z len by (cases z) (simp_all add: sn_size_ok_def pdcp_data_pdu_header_size_def pdcp_sn_size_to_uint_def)
  have k: "sn_bits z \<le> 32" using sn_bits_le [of z] by linarith
  obtain d1 where d1: "unpack (decoder_init p) 1 = (True, word_of_nat (bits_val (take 1 (all_bits p))), d1)"
    "dec_wf d1" "dec_bits d1 = drop 1 (all_bits p)"
    by (rule unpack_value [of "decoder_init p" 1]) (use len8 in simp_all)
  obtain d2 where d2: "unpack d1 ?r = (True, word_of_nat (bits_val (take ?r (drop 1 (all_bits p)))), d2)"
    "dec_wf d2" "dec_bits d2 = drop (1 + ?r) (all_bits p)"
    by (rule unpack_value [of d1 ?r]) (use len8 d1 in \<open>simp_all add: add.commute\<close>)
  obtain d3 where d3: "unpack d2 (sn_bits z) = (True, word_of_nat (bits_val (take (sn_bits z) (drop (1 + ?r) (all_bits p)))), d3)"
    by (rule unpack_value [of d2 "sn_bits z"]) (use len8 d2 k in simp_all)
  have DRS: "D = bits_val (take 1 (all_bits p))" "R = bits_val (take ?r (drop 1 (all_bits p)))"
    "S = bits_val (take (sn_bits z) (drop (1 + ?r) (all_bits p)))"
    using hf by (simp_all add: header_fields_def Let_def)
  have "D < 2 ^ 1" "R < 2 ^ 5" unfolding DRS by (rule bits_val_take_less; simp)+
  then have small: "D < 2" "unat (word_of_nat R :: u32) = R" by (simp_all add: unat_of_nat)
  have D: "D = 0 \<or> D = 1" using small by linarith
  have R0: "(word_of_nat R :: u32) = 0 \<longleftrightarrow> R = 0" by (simp only: unat_eq_0 [symmetric] small(2))
  have D01: "(word_of_nat D :: u32) = 0 \<longleftrightarrow> D = 0" "(word_of_nat D :: u32) = 1 \<longleftrightarrow> D = 1"
    using D by auto
  have p: "p \<noteq> []" using len8 by auto
  have kz: "(if z = Size12bits then 12 else 18) = sn_bits z" "z \<noteq> Sn_invalid"
    using z by (cases z; simp add: sn_size_ok_def pdcp_sn_size_to_uint_def)+
  show ?thesis
    unfolding get_pdcp_sn_def d1(1)[folded DRS] Let_def prod.case d2(1)[folded DRS] kz(1) d3(1)[folded DRS] D01 R0
    using D p kz(2) by (cases srb; simp)
qed

lemma field_bits_list: "field_bits 8 b = [bit b 7, bit b 6, bit b 5, bit b 4, bit b 3, bit b 2, bit b 1, bit b 0]"
  by (simp add: field_bits_def upt_rec eval_nat_numeral)

lemma field_bits_12: "field_bits 12 b = [bit b 11, bit b 10, bit b 9, bit b 8] @ field_bits 8 b"
  by (simp add: field_bits_def upt_rec eval_nat_numeral)

lemma field_bits_18:
  "field_bits 18 b = [bit b 17, bit b 16, bit b 15, bit b 14, bit b 13, bit b 12] @ field_bits 12 b"
  by (simp add: field_bits_def upt_rec eval_nat_numeral)

text \<open>The two readers agree on the SN field.\<close>

lemma read_data_pdu_header_fields:
  assumes z: "sn_size_ok z" and len: "pdcp_data_pdu_header_size z < length p" and hf: "header_fields z p = (D, R, S)"
  shows "read_data_pdu_header z p = Some (word_of_nat S)"
proof -
  obtain sn where sn: "read_data_pdu_header z p = Some sn"
    using z len by (cases z) (simp_all add: read_data_pdu_header_def sn_size_ok_def)
  have "field_bits (sn_bits z) sn = take (sn_bits z) (drop (1 + (if z = Size12bits then 3 else 5)) (all_bits p))"
  proof (cases z)
    case Size12bits
    then obtain b0 b1 b2 rs where "p = b0 # b1 # b2 # rs"
      using len by (auto simp: pdcp_data_pdu_header_size_def Suc_le_length_iff less_eq_Suc_le numeral_2_eq_2)
    then show ?thesis using Size12bits sn
      by (auto simp: read_data_pdu_header_def pdcp_data_pdu_header_size_def pdcp_sn_size_to_uint_def
          field_bits_12 field_bits_list header_masks bit_simps)
  next
    case Size18bits
    then obtain b0 b1 b2 rs where "p = b0 # b1 # b2 # rs"
      using len by (auto simp: pdcp_data_pdu_header_size_def Suc_le_length_iff less_eq_Suc_le numeral_3_eq_3)
    then show ?thesis using Size18bits sn
      by (auto split: if_splits simp: read_data_pdu_header_def pdcp_data_pdu_header_size_def pdcp_sn_size_to_uint_def
          field_bits_12 field_bits_18 field_bits_list header_masks bit_simps)
  qed (use z in \<open>simp add: sn_size_ok_def\<close>)
  then have "bits_val (field_bits (sn_bits z) sn) = S" using hf by (simp add: header_fields_def Let_def)
  moreover have "take_bit (sn_bits z) (unat sn) = unat sn"
    using read_data_pdu_header_bound (1) [OF sn] by (simp add: take_bit_eq_mod)
  ultimately have "word_of_nat S = sn" by (metis bits_val_field of_nat_unat ucast_id)
  then show ?thesis using sn by simp
qed

lemma get_pdcp_sn_agrees:
  assumes "get_pdcp_sn p z srb = Some sn" and "sn_size_ok z" and "pdcp_data_pdu_header_size z < length p"
  shows "read_data_pdu_header z p = Some sn"
proof -
  obtain D R S where hf: "header_fields z p = (D, R, S)" by (metis prod_cases3)
  show ?thesis using assms read_data_pdu_header_fields [OF assms(2,3) hf]
      get_pdcp_sn_fields [OF assms(2) less_imp_le [OF assms(3)] hf] by (auto split: if_splits)
qed

lemma header_fields_sn_bytes:
  assumes "sn_size_ok z"
  shows "\<exists>S. header_fields z (sn_bytes z srb sn @ buf) = (of_bool (\<not> srb), 0, S)"
  using assms
  by (cases z; cases srb) (auto simp: sn_size_ok_def header_fields_def sn_bytes_def field_bits_list bits_val_def bit_simps Let_def)

lemma get_pdcp_sn_sn_bytes:
  assumes z: "sn_size_ok z" "\<not> (srb \<and> z = Size18bits)" and "unat sn < 2 ^ sn_bits z" and "buf \<noteq> []"
  shows "get_pdcp_sn (sn_bytes z srb sn @ buf) z srb = Some sn"
proof -
  let ?p = "sn_bytes z srb sn @ buf"
  obtain S where hf: "header_fields z ?p = (of_bool (\<not> srb), 0, S)"
    using header_fields_sn_bytes [OF z(1)] by blast
  have len: "pdcp_data_pdu_header_size z < length ?p" using z assms(4) by simp
  have "word_of_nat S = sn"
    using read_data_pdu_header_fields [OF z(1) len hf] read_sn_bytes [OF z(1) assms(3,4)] by simp
  then show ?thesis
    using get_pdcp_sn_fields [OF z(1) less_imp_le [OF len] hf] z by (cases z; cases srb; simp add: sn_size_ok_def)
qed

section \<open>The control PDU header\<close>

lemma control_header_roundtrip:
  assumes "prepend_control_pdu_header room buf cpt = Some p"
    and "cpt \<in> {Status_report, Interspersed_rohc_feedback, Ehc_feedback, Udc_feedback}"
  shows "pdcp_pdu_get_dc (hd p) = Dc_control \<and> pdcp_control_pdu_get_cpt (hd p) = cpt \<and> tl p = buf"
  using assms by (auto simp: prepend_control_pdu_header_def pdcp_pdu_get_dc_def pdcp_control_pdu_get_cpt_def
      Let_def split: if_splits)

lemma sn_bytes_dc: "sn_size_ok z \<Longrightarrow> pdcp_pdu_get_dc (hd (sn_bytes z srb sn)) = (if srb then Dc_control else Dc_data)"
proof -
  assume z: "sn_size_ok z"
  have "drop_bit 7 (hd (sn_bytes z srb sn)) AND 1 = (if srb then 0 else 1)"
    by (rule bit_word_eqI) (auto simp: sn_bytes_def bit_simps Let_def)
  then show ?thesis by (simp add: pdcp_pdu_get_dc_def)
qed

end
