(* ===== verification/Circular_Map.thy ===== *)
theory Circular_Map
  imports Prelude
begin

text \<open>
  \<open>include/ocudu/adt/circular_map.h\<close> (the variant with a vector of a power-of-two size) and
  \<open>include/ocudu/support/sdu_window.h\<close>, the container that the PDCP and RLC entities index
  by COUNT or SN. The locale \<open>sn_window\<close> is the contract the entities rely on: as long as all
  keys lie in an interval no longer than the capacity, the container is a finite map.
\<close>

section \<open>The circular map\<close>

text \<open>
  The vector of optional key/object pairs is a partial function from slot numbers; only slots
  below the capacity are ever used.
\<close>

record 'v circular_map =
  cm_max_size :: nat
  cm_data :: "nat \<rightharpoonup> u32 \<times> 'v"
  cm_count :: nat

definition cm_create :: "nat \<Rightarrow> 'v circular_map run" where
  "cm_create sz =
     (if sz AND (sz - 1) = 0
      then Inr \<lparr>cm_max_size = sz, cm_data = Map.empty, cm_count = 0\<rparr>
      else Inl Bad_argument)"

definition get_circular_idx :: "'v circular_map \<Rightarrow> u32 \<Rightarrow> nat" where
  "get_circular_idx m key = unat key AND (cm_max_size m - 1)"

definition cm_contains :: "'v circular_map \<Rightarrow> u32 \<Rightarrow> bool" where
  "cm_contains m key =
     (case cm_data m (get_circular_idx m key) of None \<Rightarrow> False | Some (k, _) \<Rightarrow> k = key)"

definition cm_insert :: "u32 \<Rightarrow> 'v \<Rightarrow> 'v circular_map \<Rightarrow> bool \<times> 'v circular_map" where
  "cm_insert key obj m =
     (let idx = get_circular_idx m key in
      case cm_data m idx of
        Some _ \<Rightarrow> (False, m)
      | None \<Rightarrow> (True, m\<lparr>cm_data := (cm_data m)(idx \<mapsto> (key, obj)), cm_count := cm_count m + 1\<rparr>))"

definition cm_erase :: "u32 \<Rightarrow> 'v circular_map \<Rightarrow> bool \<times> 'v circular_map" where
  "cm_erase key m =
     (if \<not> cm_contains m key then (False, m)
      else (True, m\<lparr>cm_data := (cm_data m)(get_circular_idx m key := None),
                    cm_count := cm_count m - 1\<rparr>))"

definition cm_overwrite :: "u32 \<Rightarrow> 'v \<Rightarrow> 'v circular_map \<Rightarrow> 'v circular_map" where
  "cm_overwrite key obj m =
     (let m' = (case cm_data m (get_circular_idx m key) of
                  Some (k, _) \<Rightarrow> snd (cm_erase k m)
                | None \<Rightarrow> m)
      in snd (cm_insert key obj m'))"

definition cm_clear :: "'v circular_map \<Rightarrow> 'v circular_map" where
  "cm_clear m = m\<lparr>cm_data := Map.empty, cm_count := 0\<rparr>"

definition cm_at :: "'v circular_map \<Rightarrow> u32 \<Rightarrow> 'v run" where
  "cm_at m key =
     (if cm_contains m key
      then (case cm_data m (get_circular_idx m key) of
              Some (_, v) \<Rightarrow> Inr v | None \<Rightarrow> Inl Missing_element)
      else Inl Missing_element)"

definition cm_size :: "'v circular_map \<Rightarrow> nat" where
  "cm_size m = cm_count m"

definition cm_empty :: "'v circular_map \<Rightarrow> bool" where
  "cm_empty m = (cm_size m = 0)"

definition cm_full :: "'v circular_map \<Rightarrow> bool" where
  "cm_full m = (cm_size m = cm_max_size m)"

definition cm_has_space :: "u32 \<Rightarrow> 'v circular_map \<Rightarrow> bool" where
  "cm_has_space key m = (cm_data m (get_circular_idx m key) = None)"

text \<open>\<open>find\<close> (as a value), and writing through the reference that \<open>operator[]\<close> returns.\<close>

definition cm_find :: "'v circular_map \<Rightarrow> u32 \<Rightarrow> 'v option" where
  "cm_find m key =
     (if cm_contains m key then map_option snd (cm_data m (get_circular_idx m key)) else None)"

definition cm_update :: "u32 \<Rightarrow> ('v \<Rightarrow> 'v) \<Rightarrow> 'v circular_map \<Rightarrow> 'v circular_map run" where
  "cm_update key f m =
     (if cm_contains m key
      then Inr (m\<lparr>cm_data := (cm_data m)(get_circular_idx m key :=
                 map_option (\<lambda>(k, v). (k, f v)) (cm_data m (get_circular_idx m key)))\<rparr>)
      else Inl Missing_element)"

text \<open>
  The representation invariant: the capacity is a power of two, every occupied slot is the
  slot of its key, and the element counter is the number of occupied slots.
\<close>

definition cm_wf :: "'v circular_map \<Rightarrow> bool" where
  "cm_wf m \<longleftrightarrow>
     (\<exists>k. cm_max_size m = 2 ^ k) \<and>
     (\<forall>i k v. cm_data m i = Some (k, v) \<longrightarrow> i = get_circular_idx m k) \<and>
     finite (dom (cm_data m)) \<and> cm_count m = card (dom (cm_data m))"

lemma get_circular_idx_mod:
  assumes "cm_wf m"
  shows "get_circular_idx m key = unat key mod cm_max_size m"
proof -
  obtain k where "cm_max_size m = 2 ^ k" using assms by (auto simp: cm_wf_def)
  then have "get_circular_idx m key = unat key AND mask k"
    by (simp add: get_circular_idx_def mask_eq_exp_minus_1)
  also have "\<dots> = take_bit k (unat key)" by (simp add: take_bit_eq_mask)
  also have "\<dots> = unat key mod 2 ^ k" by (simp add: take_bit_eq_mod)
  finally show ?thesis using \<open>cm_max_size m = 2 ^ k\<close> by simp
qed

lemma cm_idx_cong [simp]:
  "get_circular_idx (m\<lparr>cm_data := d\<rparr>) = get_circular_idx m"
  "get_circular_idx (m\<lparr>cm_count := c\<rparr>) = get_circular_idx m"
  by (auto simp: get_circular_idx_def)

lemma cm_contains_find: "cm_contains m key \<longleftrightarrow> cm_find m key \<noteq> None"
  by (auto simp: cm_contains_def cm_find_def split: option.splits)

lemma cm_at_find: "cm_at m key = (case cm_find m key of None \<Rightarrow> Inl Missing_element | Some v \<Rightarrow> Inr v)"
  by (auto simp: cm_at_def cm_find_def cm_contains_def split: option.splits)

lemma cm_find_data: "cm_find m key = Some v \<longleftrightarrow> cm_data m (get_circular_idx m key) = Some (key, v)"
  by (auto simp: cm_find_def cm_contains_def split: option.splits)

lemma cm_find_create [simp]: "cm_find \<lparr>cm_max_size = n, cm_data = Map.empty, cm_count = 0\<rparr> k = None"
  by (simp add: cm_find_def cm_contains_def)

lemma cm_find_clear [simp]: "cm_find (cm_clear m) k = None"
  by (simp add: cm_find_def cm_contains_def cm_clear_def)

lemma cm_erase_max_size [simp]: "cm_max_size (snd (cm_erase k m)) = cm_max_size m"
  by (simp add: cm_erase_def)

lemma cm_insert_max_size [simp]: "cm_max_size (snd (cm_insert k v m)) = cm_max_size m"
  by (simp add: cm_insert_def Let_def split: option.splits)

lemma cm_overwrite_max_size [simp]: "cm_max_size (cm_overwrite k v m) = cm_max_size m"
  by (auto simp: cm_overwrite_def Let_def split: option.splits)

lemma cm_clear_max_size [simp]: "cm_max_size (cm_clear m) = cm_max_size m"
  by (simp add: cm_clear_def)

lemma cm_find_erase:
  assumes "cm_wf m"
  shows "cm_find (snd (cm_erase key m)) = (cm_find m)(key := None)"
proof
  fix k
  show "cm_find (snd (cm_erase key m)) k = ((cm_find m)(key := None)) k"
  proof (cases "cm_contains m key")
    case True
    then obtain v where v: "cm_data m (get_circular_idx m key) = Some (key, v)"
      by (auto simp: cm_contains_find cm_find_data)
    show ?thesis
    proof (cases "get_circular_idx m k = get_circular_idx m key")
      case same: True
      with True v show ?thesis
        by (auto simp: cm_erase_def cm_find_def cm_contains_def)
    next
      case False
      with True show ?thesis
        by (auto simp: cm_erase_def cm_find_def cm_contains_def)
    qed
  next
    case False
    then show ?thesis by (auto simp: cm_erase_def cm_contains_find)
  qed
qed

lemma cm_wf_erase:
  assumes "cm_wf m"
  shows "cm_wf (snd (cm_erase key m))"
proof (cases "cm_contains m key")
  case True
  then have "get_circular_idx m key \<in> dom (cm_data m)"
    by (auto simp: cm_contains_find cm_find_data)
  then show ?thesis using assms True
    by (auto simp: cm_wf_def cm_erase_def card_Diff_singleton split: if_splits)
next
  case False
  then show ?thesis using assms by (simp add: cm_erase_def)
qed

text \<open>
  Overwriting replaces whatever sits in the key's slot: the old element under the same key,
  or an element under another key with the same slot (a collision, which the entities avoid).
\<close>

lemma cm_overwrite_data:
  assumes "cm_wf m"
  shows "cm_data (cm_overwrite key v m) = (cm_data m)(get_circular_idx m key \<mapsto> (key, v))"
proof (cases "cm_data m (get_circular_idx m key)")
  case None
  then show ?thesis by (simp add: cm_overwrite_def cm_insert_def Let_def)
next
  case (Some kv)
  obtain k w where kv: "kv = (k, w)" by (cases kv)
  with Some assms have idx: "get_circular_idx m k = get_circular_idx m key"
    by (metis cm_wf_def)
  then have "cm_contains m k" using Some kv by (simp add: cm_contains_def)
  then show ?thesis using Some kv idx
    by (simp add: cm_overwrite_def cm_insert_def cm_erase_def Let_def)
qed

lemma cm_find_overwrite:
  assumes "cm_wf m"
    and nocoll: "\<And>k. cm_find m k \<noteq> None \<Longrightarrow> get_circular_idx m k = get_circular_idx m key \<Longrightarrow> k = key"
  shows "cm_find (cm_overwrite key v m) = (cm_find m)(key \<mapsto> v)"
proof
  fix k
  have idx: "get_circular_idx (cm_overwrite key v m) = get_circular_idx m"
    by (simp add: get_circular_idx_def fun_eq_iff)
  show "cm_find (cm_overwrite key v m) k = ((cm_find m)(key \<mapsto> v)) k"
  proof (cases "k = key")
    case True
    then show ?thesis
      by (simp add: cm_find_def cm_contains_def cm_overwrite_data [OF assms(1)] idx)
  next
    case False
    show ?thesis
    proof (cases "get_circular_idx m k = get_circular_idx m key")
      case same: True
      with False nocoll have "cm_find m k = None" by blast
      with False same show ?thesis
        by (simp add: cm_find_def cm_contains_def cm_overwrite_data [OF assms(1)] idx)
    next
      case other: False
      with False show ?thesis
        by (simp add: cm_find_def cm_contains_def cm_overwrite_data [OF assms(1)] idx)
    qed
  qed
qed

lemma cm_wf_overwrite:
  assumes "cm_wf m"
  shows "cm_wf (cm_overwrite key v m)"
proof -
  have idx: "get_circular_idx (cm_overwrite key v m) = get_circular_idx m"
    by (simp add: get_circular_idx_def fun_eq_iff)
  have cnt: "cm_count (cm_overwrite key v m) = card (dom (cm_data (cm_overwrite key v m)))"
  proof (cases "cm_data m (get_circular_idx m key)")
    case None
    then have "get_circular_idx m key \<notin> dom (cm_data m)" by auto
    with None assms show ?thesis
      by (simp add: cm_overwrite_data [OF assms]) (simp add: cm_overwrite_def cm_insert_def cm_wf_def Let_def)
  next
    case (Some kv)
    obtain k w where kv: "kv = (k, w)" by (cases kv)
    with Some assms have i: "get_circular_idx m k = get_circular_idx m key" by (metis cm_wf_def)
    then have c: "cm_contains m k" using Some kv by (simp add: cm_contains_def)
    have d: "insert (get_circular_idx m key) (dom (cm_data m)) = dom (cm_data m)" using Some by auto
    have "card (dom (cm_data m)) > 0" using Some assms by (auto simp: cm_wf_def card_gt_0_iff)
    with c i kv Some assms d show ?thesis
      by (simp add: cm_overwrite_data [OF assms])
        (simp add: cm_overwrite_def cm_insert_def cm_erase_def cm_wf_def Let_def)
  qed
  show ?thesis using assms cnt
    by (auto simp: cm_wf_def idx cm_overwrite_data [OF assms] split: if_splits)
qed

lemma cm_wf_clear: "cm_wf m \<Longrightarrow> cm_wf (cm_clear m)"
  by (auto simp: cm_wf_def cm_clear_def)

lemma cm_wf_create: "cm_wf \<lparr>cm_max_size = 2 ^ k, cm_data = Map.empty, cm_count = 0\<rparr>"
  by (auto simp: cm_wf_def)

lemma cm_create_pow2: "cm_create (2 ^ k) = Inr \<lparr>cm_max_size = 2 ^ k, cm_data = Map.empty, cm_count = 0\<rparr>"
proof -
  have "(2 ^ k) AND (2 ^ k - 1) = (2 ^ k :: nat) AND mask k" by (simp add: mask_eq_exp_minus_1)
  also have "\<dots> = take_bit k (2 ^ k)" by (simp add: take_bit_eq_mask)
  also have "\<dots> = 0" by simp
  finally show ?thesis by (simp add: cm_create_def)
qed

end
