(* ===== verification/Sdu_Window.thy ===== *)
theory Sdu_Window
  imports Circular_Map
begin

text \<open>
  \<open>include/ocudu/support/sdu_window.h\<close>: the window of SDUs indexed by COUNT or SN, a thin
  layer over \<open>circular_map\<close> that reports an insertion of a present key and a removal of an
  absent one. The locale \<open>sn_window\<close> states what its clients rely on.
\<close>

section \<open>The interface: a map while all keys are within one window length\<close>

locale sn_window =
  fixes look :: "'w \<Rightarrow> u32 \<Rightarrow> 'v option"
    and put :: "u32 \<Rightarrow> 'v \<Rightarrow> 'w \<Rightarrow> 'w"
    and del :: "u32 \<Rightarrow> 'w \<Rightarrow> 'w"
    and clr :: "'w \<Rightarrow> 'w"
    and width :: "'w \<Rightarrow> nat"
    and wf :: "'w \<Rightarrow> bool"
  assumes look_put_free: "wf w \<Longrightarrow>
      (\<And>k. look w k \<noteq> None \<Longrightarrow> unat k mod width w = unat key mod width w \<Longrightarrow> k = key) \<Longrightarrow>
      look (put key v w) = (look w)(key \<mapsto> v)"
    and look_del: "wf w \<Longrightarrow> look (del key w) = (look w)(key := None)"
    and look_clr: "wf w \<Longrightarrow> look (clr w) = Map.empty"
    and wf_put: "wf w \<Longrightarrow> wf (put key v w)"
    and wf_del: "wf w \<Longrightarrow> wf (del key w)"
    and wf_clr: "wf w \<Longrightarrow> wf (clr w)"
    and width_put: "width (put key v w) = width w"
    and width_del: "width (del key w) = width w"
    and width_clr: "width (clr w) = width w"
begin

text \<open>All keys lie in the window of one length that starts at \<open>lo\<close>.\<close>

definition within :: "nat \<Rightarrow> 'w \<Rightarrow> bool" where
  "within lo w \<longleftrightarrow> (\<forall>k. look w k \<noteq> None \<longrightarrow> lo \<le> unat k \<and> unat k < lo + width w)"

lemma no_collision:
  assumes "within lo w" and "lo \<le> unat key" and "unat key < lo + width w"
    and "look w k \<noteq> None" and "unat k mod width w = unat key mod width w"
  shows "k = key"
proof -
  have k: "lo \<le> unat k" "unat k < lo + width w" using assms(1,4) by (auto simp: within_def)
  have "unat k = unat key"
  proof (rule ccontr)
    assume ne: "unat k \<noteq> unat key"
    define d where "d = (if unat k < unat key then unat key - unat k else unat k - unat key)"
    have d: "0 < d" "d < width w" using ne k assms(2,3) by (auto simp: d_def)
    have "width w dvd d" using assms(5) ne
      mod_eq_dvd_iff_nat [of "unat key" "unat k" "width w"]
      mod_eq_dvd_iff_nat [of "unat k" "unat key" "width w"]
      by (simp add: d_def)
    with d show False by (simp add: nat_dvd_not_less)
  qed
  then show ?thesis by (simp add: word_unat_eq_iff)
qed

lemma look_put:
  assumes "wf w" and "within lo w" and "lo \<le> unat key" and "unat key < lo + width w"
  shows "look (put key v w) = (look w)(key \<mapsto> v)"
  using assms by (intro look_put_free) (auto dest: no_collision)

lemma within_put:
  assumes "wf w" and "within lo w" and "lo \<le> unat key" and "unat key < lo + width w"
  shows "within lo (put key v w)"
  using assms by (auto simp: within_def look_put [OF assms] width_put)

lemma within_del: "wf w \<Longrightarrow> within lo w \<Longrightarrow> within lo (del key w)"
  by (auto simp: within_def look_del width_del split: if_splits)

lemma within_clr: "wf w \<Longrightarrow> within lo (clr w)"
  by (simp add: within_def look_clr)

text \<open>The lower edge may advance past keys that are gone.\<close>

lemma within_raise:
  assumes "within lo w" and "lo \<le> lo'" and "\<And>k. look w k \<noteq> None \<Longrightarrow> lo' \<le> unat k"
  shows "within lo' w"
  using assms by (fastforce simp: within_def)

lemmas keeps = wf_put wf_del wf_clr width_put width_del width_clr within_del within_clr

end

section \<open>The implementation: sdu\_window\<close>

record 'v sdu_window =
  win_map :: "'v circular_map"

definition win_create :: "nat \<Rightarrow> 'v sdu_window run" where
  "win_create sz = seq_run (cm_create sz) (\<lambda>m. Inr \<lparr>win_map = m\<rparr>)"

definition has_sn :: "'v sdu_window \<Rightarrow> u32 \<Rightarrow> bool" where
  "has_sn w sn = cm_contains (win_map w) sn"

definition add_sn :: "u32 \<Rightarrow> 'v \<Rightarrow> 'v sdu_window \<Rightarrow> 'v sdu_window run" where
  "add_sn sn v w =
     (if has_sn w sn then Inl Duplicate_element
      else Inr (w\<lparr>win_map := cm_overwrite sn v (win_map w)\<rparr>))"

definition remove_sn :: "u32 \<Rightarrow> 'v sdu_window \<Rightarrow> 'v sdu_window run" where
  "remove_sn sn w =
     (if \<not> has_sn w sn then Inl Missing_element
      else Inr (w\<lparr>win_map := snd (cm_erase sn (win_map w))\<rparr>))"

definition win_at :: "'v sdu_window \<Rightarrow> u32 \<Rightarrow> 'v run" where
  "win_at w sn = cm_at (win_map w) sn"

definition win_update :: "u32 \<Rightarrow> ('v \<Rightarrow> 'v) \<Rightarrow> 'v sdu_window \<Rightarrow> 'v sdu_window run" where
  "win_update sn f w = seq_run (cm_update sn f (win_map w)) (\<lambda>m. Inr (w\<lparr>win_map := m\<rparr>))"

definition win_size :: "'v sdu_window \<Rightarrow> nat" where
  "win_size w = cm_size (win_map w)"

definition win_full :: "'v sdu_window \<Rightarrow> bool" where
  "win_full w = cm_full (win_map w)"

definition win_empty :: "'v sdu_window \<Rightarrow> bool" where
  "win_empty w = cm_empty (win_map w)"

definition win_clear :: "'v sdu_window \<Rightarrow> 'v sdu_window" where
  "win_clear w = w\<lparr>win_map := cm_clear (win_map w)\<rparr>"

text \<open>
  Looking up an element after a successful \<open>has_sn\<close>; and the successful outcomes of adding
  and removing as total functions, on which the interface is interpreted.
\<close>

definition win_find :: "'v sdu_window \<Rightarrow> u32 \<Rightarrow> 'v option" where
  "win_find w sn = cm_find (win_map w) sn"

definition win_put :: "u32 \<Rightarrow> 'v \<Rightarrow> 'v sdu_window \<Rightarrow> 'v sdu_window" where
  "win_put sn v w = w\<lparr>win_map := cm_overwrite sn v (win_map w)\<rparr>"

definition win_del :: "u32 \<Rightarrow> 'v sdu_window \<Rightarrow> 'v sdu_window" where
  "win_del sn w = w\<lparr>win_map := snd (cm_erase sn (win_map w))\<rparr>"

definition win_width :: "'v sdu_window \<Rightarrow> nat" where
  "win_width w = cm_max_size (win_map w)"

definition win_wf :: "'v sdu_window \<Rightarrow> bool" where
  "win_wf w \<longleftrightarrow> cm_wf (win_map w)"

lemma has_sn_find: "has_sn w sn \<longleftrightarrow> win_find w sn \<noteq> None"
  by (simp add: has_sn_def win_find_def cm_contains_find)

lemma add_sn_put: "add_sn sn v w = (if has_sn w sn then Inl Duplicate_element else Inr (win_put sn v w))"
  by (simp add: add_sn_def win_put_def)

lemma remove_sn_del: "remove_sn sn w = (if has_sn w sn then Inr (win_del sn w) else Inl Missing_element)"
  by (simp add: remove_sn_def win_del_def)

lemma win_at_find: "win_at w sn = (case win_find w sn of None \<Rightarrow> Inl Missing_element | Some v \<Rightarrow> Inr v)"
  by (simp add: win_at_def win_find_def cm_at_find)

interpretation win: sn_window win_find win_put win_del win_clear win_width win_wf
proof (unfold_locales, goal_cases)
  case (1 w key v)
  have wf: "cm_wf (win_map w)" using 1 by (simp add: win_wf_def)
  have "cm_find (cm_overwrite key v (win_map w)) = (cm_find (win_map w))(key \<mapsto> v)"
    using wf 1(2)
    by (intro cm_find_overwrite) (auto simp: win_find_def win_width_def get_circular_idx_mod)
  then show ?case by (simp add: win_find_def win_put_def fun_eq_iff)
next
  case (2 w key)
  then show ?case by (simp add: win_find_def win_del_def win_wf_def cm_find_erase fun_eq_iff)
qed (auto simp: win_find_def win_put_def win_del_def win_clear_def win_wf_def win_width_def
      cm_wf_overwrite cm_wf_erase cm_wf_clear fun_eq_iff)

lemma win_create_pow2:
  "win_create (2 ^ k) = Inr \<lparr>win_map = \<lparr>cm_max_size = 2 ^ k, cm_data = Map.empty, cm_count = 0\<rparr>\<rparr>"
  by (simp add: win_create_def cm_create_pow2)

lemma win_wf_fresh: "win_wf \<lparr>win_map = \<lparr>cm_max_size = 2 ^ k, cm_data = Map.empty, cm_count = 0\<rparr>\<rparr>"
  by (simp add: win_wf_def cm_wf_create)

lemma win_find_fresh [simp]:
  "win_find \<lparr>win_map = \<lparr>cm_max_size = n, cm_data = Map.empty, cm_count = 0\<rparr>\<rparr> = Map.empty"
  by (simp add: win_find_def fun_eq_iff)

lemma win_update_find:
  assumes "win_wf w"
  shows "win_update sn f w =
    (case win_find w sn of None \<Rightarrow> Inl Missing_element | Some v \<Rightarrow> Inr (win_put sn (f v) w))"
proof (cases "win_find w sn")
  case None
  then show ?thesis by (simp add: win_update_def cm_update_def win_find_def cm_contains_find)
next
  case (Some v)
  then have d: "cm_data (win_map w) (get_circular_idx (win_map w) sn) = Some (sn, v)"
    by (simp add: win_find_def cm_find_data)
  have wf: "cm_wf (win_map w)" using assms by (simp add: win_wf_def)
  have fin: "finite (dom (cm_data (win_map w)))" and cnt: "cm_count (win_map w) = card (dom (cm_data (win_map w)))"
    using wf by (auto simp: cm_wf_def)
  have ins: "insert (get_circular_idx (win_map w) sn) (dom (cm_data (win_map w))) = dom (cm_data (win_map w))"
    using d by auto
  have "cm_count (cm_overwrite sn (f v) (win_map w)) = cm_count (win_map w)"
    using cm_wf_overwrite [OF wf, of sn "f v"] cnt ins
    by (simp add: cm_wf_def cm_overwrite_data [OF wf])
  then have "cm_overwrite sn (f v) (win_map w) =
      (win_map w)\<lparr>cm_data := (cm_data (win_map w))(get_circular_idx (win_map w) sn \<mapsto> (sn, f v))\<rparr>"
    using cm_overwrite_data [OF wf, of sn "f v"] cm_overwrite_max_size [of sn "f v" "win_map w"]
    by (intro circular_map.equality) simp_all
  then show ?thesis using Some d
    by (simp add: win_update_def cm_update_def win_put_def win_find_def cm_contains_find)
qed

end
