(* ===== verification/Ring_Buffer.thy ===== *)
theory Ring_Buffer
  imports Prelude
begin

text \<open>
  \<open>include/ocudu/adt/ring_buffer.h\<close>, the variant with a vector whose size is a power of two
  (\<open>ring_buffer<T>\<close>), which the PDCP entities use to hold PDUs or SDUs while buffering. The
  locale \<open>bounded_queue\<close> is the FIFO contract; it is interpreted on the model below.
\<close>

section \<open>The interface: a bounded first-in first-out queue\<close>

locale bounded_queue =
  fixes items :: "'q \<Rightarrow> 'a list"
    and bound :: "'q \<Rightarrow> nat"
    and offer :: "'a \<Rightarrow> 'q \<Rightarrow> bool \<times> 'q"
    and front :: "'q \<Rightarrow> 'a run"
    and drop_front :: "'q \<Rightarrow> 'q run"
    and qwf :: "'q \<Rightarrow> bool"
  assumes offer_room: "qwf q \<Longrightarrow> length (items q) < bound q \<Longrightarrow>
      fst (offer a q) \<and> items (snd (offer a q)) = items q @ [a]"
    and offer_full: "qwf q \<Longrightarrow> length (items q) = bound q \<Longrightarrow> offer a q = (False, q)"
    and front_Cons: "qwf q \<Longrightarrow> items q = a # as \<Longrightarrow> front q = Inr a"
    and drop_Cons: "qwf q \<Longrightarrow> items q = a # as \<Longrightarrow> \<exists>q'. drop_front q = Inr q' \<and> items q' = as \<and> qwf q' \<and> bound q' = bound q"
    and offer_wf: "qwf q \<Longrightarrow> qwf (snd (offer a q)) \<and> bound (snd (offer a q)) = bound q"
    and items_bound: "qwf q \<Longrightarrow> length (items q) \<le> bound q"
begin

lemma offer_items:
  "qwf q \<Longrightarrow> items (snd (offer a q)) = (if fst (offer a q) then items q @ [a] else items q)"
  using offer_room [of q a] offer_full [of q a] items_bound [of q] by (cases "length (items q) < bound q") auto

lemma offer_accepts_iff: "qwf q \<Longrightarrow> fst (offer a q) \<longleftrightarrow> length (items q) < bound q"
  using offer_room [of q a] offer_full [of q a] items_bound [of q] by (cases "length (items q) < bound q") auto

text \<open>Offering a sequence keeps the longest prefix that fits, in order.\<close>

fun offer_all :: "'a list \<Rightarrow> 'q \<Rightarrow> 'q" where
  "offer_all [] q = q"
| "offer_all (a # as) q = offer_all as (snd (offer a q))"

lemma offer_all_items:
  assumes "qwf q"
  shows "items (offer_all as q) = items q @ take (bound q - length (items q)) as"
  using assms
proof (induction as arbitrary: q)
  case Nil
  then show ?case by simp
next
  case (Cons a as)
  have wf: "qwf (snd (offer a q))" and b: "bound (snd (offer a q)) = bound q"
    using offer_wf [OF Cons.prems] by auto
  show ?case
  proof (cases "length (items q) < bound q")
    case True
    then obtain m where m: "bound q - length (items q) = Suc m" by (metis Suc_diff_Suc)
    then have "bound q - Suc (length (items q)) = m" by simp
    with True m show ?thesis using Cons.IH [OF wf] offer_room [OF Cons.prems True, of a] b by simp
  next
    case False
    then have "length (items q) = bound q" using items_bound [OF Cons.prems] by simp
    then show ?thesis using Cons.IH [OF wf] offer_full [OF Cons.prems, of a] by simp
  qed
qed

end

section \<open>The implementation\<close>

record 'a ring_buffer =
  rb_max_size :: nat
  rb_rpos :: nat
  rb_count :: nat
  rb_data :: "nat \<rightharpoonup> 'a"

definition rb_create :: "nat \<Rightarrow> 'a ring_buffer" where
  "rb_create n = \<lparr>rb_max_size = n, rb_rpos = 0, rb_count = 0, rb_data = Map.empty\<rparr>"

definition advance_pos :: "'a ring_buffer \<Rightarrow> nat \<Rightarrow> nat \<Rightarrow> nat" where
  "advance_pos b pos n = (pos + n) AND (rb_max_size b - 1)"

definition rb_full :: "'a ring_buffer \<Rightarrow> bool" where
  "rb_full b = (rb_count b = rb_max_size b)"

definition rb_empty :: "'a ring_buffer \<Rightarrow> bool" where
  "rb_empty b = (rb_count b = 0)"

definition get_wpos :: "'a ring_buffer \<Rightarrow> nat" where
  "get_wpos b = advance_pos b (rb_rpos b) (rb_count b)"

definition rb_push :: "'a \<Rightarrow> 'a ring_buffer \<Rightarrow> 'a ring_buffer run" where
  "rb_push u b =
     (if rb_full b then Inl Bad_argument
      else Inr (b\<lparr>rb_data := (rb_data b)(get_wpos b \<mapsto> u), rb_count := rb_count b + 1\<rparr>))"

definition try_push :: "'a \<Rightarrow> 'a ring_buffer \<Rightarrow> bool \<times> 'a ring_buffer" where
  "try_push u b =
     (if rb_full b then (False, b)
      else (case rb_push u b of Inr b' \<Rightarrow> (True, b') | Inl _ \<Rightarrow> (False, b)))"

definition rb_pop :: "'a ring_buffer \<Rightarrow> 'a ring_buffer run" where
  "rb_pop b =
     (if rb_empty b then Inl Bad_argument
      else Inr (b\<lparr>rb_data := (rb_data b)(rb_rpos b := None),
                  rb_rpos := advance_pos b (rb_rpos b) 1,
                  rb_count := rb_count b - 1\<rparr>))"

definition rb_top :: "'a ring_buffer \<Rightarrow> 'a run" where
  "rb_top b =
     (if rb_empty b then Inl Bad_argument
      else (case rb_data b (rb_rpos b) of Some a \<Rightarrow> Inr a | None \<Rightarrow> Inl Missing_element))"

definition rb_clear :: "'a ring_buffer \<Rightarrow> 'a ring_buffer" where
  "rb_clear b = b\<lparr>rb_data := (\<lambda>i. if \<exists>j < rb_count b. i = advance_pos b (rb_rpos b) j
                                  then None else rb_data b i),
                 rb_rpos := 0, rb_count := 0\<rparr>"

text \<open>The stored elements, oldest first.\<close>

definition rb_items :: "'a ring_buffer \<Rightarrow> 'a list" where
  "rb_items b = map (\<lambda>i. the (rb_data b (advance_pos b (rb_rpos b) i))) [0 ..< rb_count b]"

definition rb_wf :: "'a ring_buffer \<Rightarrow> bool" where
  "rb_wf b \<longleftrightarrow>
     (\<exists>k. rb_max_size b = 2 ^ k) \<and> rb_count b \<le> rb_max_size b \<and> rb_rpos b < rb_max_size b \<and>
     (\<forall>i < rb_count b. rb_data b (advance_pos b (rb_rpos b) i) \<noteq> None)"

lemma advance_pos_mod:
  assumes "rb_wf b"
  shows "advance_pos b pos n = (pos + n) mod rb_max_size b"
proof -
  obtain k where k: "rb_max_size b = 2 ^ k" using assms by (auto simp: rb_wf_def)
  then have "advance_pos b pos n = take_bit k (pos + n)"
    by (simp add: advance_pos_def take_bit_eq_mask mask_eq_exp_minus_1)
  then show ?thesis by (simp add: k take_bit_eq_mod)
qed

lemma advance_pos_cong [simp]:
  "advance_pos (b\<lparr>rb_data := d\<rparr>) = advance_pos b"
  "advance_pos (b\<lparr>rb_rpos := r\<rparr>) = advance_pos b"
  "advance_pos (b\<lparr>rb_count := c\<rparr>) = advance_pos b"
  by (auto simp: advance_pos_def fun_eq_iff)

text \<open>Distinct offsets below the capacity are distinct slots.\<close>

lemma advance_pos_inj:
  assumes "rb_wf b" and "i < rb_max_size b" and "j < rb_max_size b"
    and "advance_pos b p i = advance_pos b p j"
  shows "i = j"
proof -
  have eq: "(p + i) mod rb_max_size b = (p + j) mod rb_max_size b"
    using assms(1,4) by (simp add: advance_pos_mod)
  have "rb_max_size b dvd j - i" if "i \<le> j"
    using mod_eq_dvd_iff_nat [of "p + i" "p + j" "rb_max_size b"] eq that by simp
  moreover have "rb_max_size b dvd i - j" if "j \<le> i"
    using mod_eq_dvd_iff_nat [of "p + j" "p + i" "rb_max_size b"] eq that by simp
  ultimately show ?thesis using assms(2,3) by (metis diff_is_0_eq diff_le_self dvd_imp_le
      le_antisym le_less_trans linorder_le_cases not_le not_gr_zero)
qed

lemma rb_length_items [simp]: "length (rb_items b) = rb_count b"
  by (simp add: rb_items_def)

lemma rb_items_nth: "i < rb_count b \<Longrightarrow> rb_items b ! i = the (rb_data b (advance_pos b (rb_rpos b) i))"
  by (simp add: rb_items_def)

lemma rb_items_push:
  assumes "rb_wf b" and "\<not> rb_full b"
  shows "rb_items (b\<lparr>rb_data := (rb_data b)(get_wpos b \<mapsto> u), rb_count := rb_count b + 1\<rparr>) = rb_items b @ [u]"
proof -
  have lt: "rb_count b < rb_max_size b" using assms by (auto simp: rb_wf_def rb_full_def)
  have "\<And>i. i < rb_count b \<Longrightarrow> advance_pos b (rb_rpos b) i \<noteq> get_wpos b"
    using advance_pos_inj [OF assms(1)] lt unfolding get_wpos_def by (metis less_trans less_irrefl)
  then show ?thesis by (auto simp: rb_items_def get_wpos_def)
qed

lemma rb_wf_push:
  assumes "rb_wf b" and "\<not> rb_full b"
  shows "rb_wf (b\<lparr>rb_data := (rb_data b)(get_wpos b \<mapsto> u), rb_count := rb_count b + 1\<rparr>)"
  using assms by (auto simp: rb_wf_def rb_full_def get_wpos_def less_Suc_eq)

lemma rb_pop_items:
  assumes "rb_wf b" and "rb_items b = a # as"
  shows "\<exists>b'. rb_pop b = Inr b' \<and> rb_items b' = as \<and> rb_wf b' \<and> rb_max_size b' = rb_max_size b"
proof -
  have cnt: "rb_count b = Suc (length as)" using assms(2) rb_length_items [of b] by simp
  have lt: "rb_count b \<le> rb_max_size b" "rb_rpos b < rb_max_size b" using assms(1) by (auto simp: rb_wf_def)
  let ?b = "b\<lparr>rb_data := (rb_data b)(rb_rpos b := None), rb_rpos := advance_pos b (rb_rpos b) 1, rb_count := rb_count b - 1\<rparr>"
  have r0: "advance_pos b (rb_rpos b) 0 = rb_rpos b" using lt by (simp add: advance_pos_mod [OF assms(1)])
  have step: "advance_pos b (advance_pos b (rb_rpos b) 1) i = advance_pos b (rb_rpos b) (Suc i)" for i
    by (simp add: advance_pos_mod [OF assms(1)] mod_simps)
  have ne: "advance_pos b (rb_rpos b) (Suc i) \<noteq> rb_rpos b" if "i < length as" for i
    using advance_pos_inj [OF assms(1), of "Suc i" 0 "rb_rpos b"] that cnt lt r0 by fastforce
  have items: "rb_items ?b = as"
  proof (rule nth_equalityI)
    show "length (rb_items ?b) = length as" by (simp add: cnt)
    fix i assume i: "i < length (rb_items ?b)"
    then have "rb_items ?b ! i = rb_items b ! Suc i"
      using cnt ne by (simp add: rb_items_nth step [simplified])
    also have "\<dots> = as ! i" by (simp add: assms(2))
    finally show "rb_items ?b ! i = as ! i" .
  qed
  have present: "rb_data b (advance_pos b (rb_rpos b) (Suc i)) \<noteq> None" if "i < length as" for i
    using assms(1) cnt that by (simp add: rb_wf_def)
  have "advance_pos b (rb_rpos b) 1 < rb_max_size b"
    using lt by (simp add: advance_pos_mod [OF assms(1)])
  then have "rb_wf ?b" using assms(1) cnt ne present lt
    unfolding rb_wf_def by (simp add: step [simplified])
  then show ?thesis using items cnt by (auto simp: rb_pop_def rb_empty_def)
qed

interpretation rb: bounded_queue rb_items rb_max_size try_push rb_top rb_pop rb_wf
proof (unfold_locales, goal_cases)
  case (1 q a)
  then show ?case using rb_items_push [of q a]
    by (simp add: try_push_def rb_push_def rb_full_def)
next
  case (2 q a)
  then show ?case by (simp add: try_push_def rb_full_def)
next
  case (3 q a as)
  then have c: "0 < rb_count q" using rb_length_items [of q] by simp
  then have "rb_items q ! 0 = the (rb_data q (advance_pos q (rb_rpos q) 0))"
    by (simp add: rb_items_def)
  moreover have "advance_pos q (rb_rpos q) 0 = rb_rpos q"
    using 3(1) by (simp add: advance_pos_mod) (simp add: rb_wf_def)
  moreover have "rb_data q (advance_pos q (rb_rpos q) 0) \<noteq> None" using 3(1) c by (simp add: rb_wf_def)
  ultimately show ?case using 3(2) c by (auto simp: rb_top_def rb_empty_def)
next
  case (4 q a as)
  then show ?case by (rule rb_pop_items)
next
  case (5 q a)
  then show ?case using rb_wf_push [of q a] by (simp add: try_push_def rb_push_def rb_full_def)
next
  case (6 q)
  then show ?case by (simp add: rb_wf_def)
qed

lemma rb_wf_create: "rb_wf (rb_create (2 ^ k))"
  by (auto simp: rb_wf_def rb_create_def)

lemma rb_items_create [simp]: "rb_items (rb_create n) = []"
  by (simp add: rb_items_def rb_create_def)

lemma rb_empty_items: "rb_empty b \<longleftrightarrow> rb_items b = []"
  by (simp add: rb_empty_def flip: length_0_conv)

lemma rb_clear_items [simp]: "rb_items (rb_clear b) = []"
  by (simp add: rb_items_def rb_clear_def)

lemma rb_pop_count: "rb_pop b = Inr b' \<Longrightarrow> rb_count b' < rb_count b"
  by (auto simp: rb_pop_def rb_empty_def split: if_splits)

end
