(* ===== verification/Security_Engine.thy ===== *)
theory Security_Engine
  imports Prelude
begin

text \<open>
  The security engine that the PDCP entities call for each PDU
  (\<open>lib/security/security_engine_impl.cpp\<close>) and the integrity engines below it
  (\<open>integrity_engine_generic.cpp\<close>, \<open>integrity_engine_nia2_cmac.cpp\<close>). The MAC and keystream
  algorithms themselves (SNOW 3G, AES through mbedTLS, ZUC) are the parameter \<open>sec_prims\<close>;
  \<open>prims_ok\<close> states what the engines rely on: a MAC has four bytes, and a cipher is a length
  preserving involution for a given key, bearer, direction and COUNT.
\<close>

section \<open>Enumerations and configuration\<close>

datatype security_status =
  Success | Success_unprotected | Buffer_failure | Engine_failure | Integrity_failure | Ciphering_failure

definition is_success :: "security_status \<Rightarrow> bool" where
  "is_success status \<longleftrightarrow> status = Success \<or> status = Success_unprotected"

datatype integrity_enabled = Integ_off | Integ_on | Smc_transition
datatype ciphering_enabled = Cipher_off | Cipher_on
datatype integrity_algorithm = Nia0 | Nia1 | Nia2 | Nia3
datatype ciphering_algorithm = Nea0 | Nea1 | Nea2 | Nea3
datatype security_direction = Sec_uplink | Sec_downlink
datatype sec_domain = Rrc | Up

definition sec_mac_len :: nat where
  "sec_mac_len = 4"

definition zero_mac :: bytes where
  "zero_mac = replicate sec_mac_len 0"

record sec_128_as_config =
  sec_domain :: sec_domain
  k_128_int :: "bytes option"
  k_128_enc :: bytes
  integ_algo :: "integrity_algorithm option"
  cipher_algo :: ciphering_algorithm

record sec_prims =
  security_nia :: "integrity_algorithm \<Rightarrow> bytes \<Rightarrow> u32 \<Rightarrow> u8 \<Rightarrow> security_direction \<Rightarrow> bytes \<Rightarrow> bytes"
  compute_mac :: "bytes \<Rightarrow> u8 \<Rightarrow> security_direction \<Rightarrow> bytes \<Rightarrow> u32 \<Rightarrow> bytes option"
  apply_nea :: "ciphering_algorithm \<Rightarrow> bytes \<Rightarrow> u8 \<Rightarrow> security_direction \<Rightarrow> u32 \<Rightarrow> bytes \<Rightarrow> bytes option"

record integrity_engine =
  ie_key :: bytes
  ie_bearer_id :: u8
  ie_direction :: security_direction
  ie_algo :: integrity_algorithm

record ciphering_engine =
  ce_key :: bytes
  ce_bearer_id :: u8
  ce_direction :: security_direction
  ce_algo :: ciphering_algorithm

record security_engine =
  integ_eng :: "integrity_engine option"
  cipher_eng :: "ciphering_engine option"
  allow_unprotected :: bool

section \<open>The integrity engines\<close>

text \<open>\<open>room\<close> says whether \<open>byte_buffer::append\<close> finds the memory for the MAC.\<close>

definition generic_mac :: "sec_prims \<Rightarrow> integrity_engine \<Rightarrow> u32 \<Rightarrow> bytes \<Rightarrow> bytes" where
  "generic_mac P e count v =
     (if ie_algo e = Nia0 then zero_mac
      else security_nia P (ie_algo e) (ie_key e) count (ie_bearer_id e) (ie_direction e) v)"

definition generic_protect_integrity ::
    "sec_prims \<Rightarrow> integrity_engine \<Rightarrow> bool \<Rightarrow> bytes \<Rightarrow> u32 \<Rightarrow> security_status \<times> bytes" where
  "generic_protect_integrity P e room buf count =
     (let mac = generic_mac P e count buf in
      if \<not> room then (Buffer_failure, buf) else (Success, buf @ mac))"

definition generic_verify_integrity ::
    "sec_prims \<Rightarrow> integrity_engine \<Rightarrow> bytes \<Rightarrow> u32 \<Rightarrow> security_status \<times> bytes" where
  "generic_verify_integrity P e buf count =
     (if length buf \<le> sec_mac_len then (Integrity_failure, buf)
      else let v = take (length buf - sec_mac_len) buf; m = drop (length buf - sec_mac_len) buf in
        if generic_mac P e count v \<noteq> m then (Integrity_failure, buf)
        else (Success, v))"

definition nia2_protect_integrity ::
    "sec_prims \<Rightarrow> integrity_engine \<Rightarrow> bool \<Rightarrow> bytes \<Rightarrow> u32 \<Rightarrow> security_status \<times> bytes" where
  "nia2_protect_integrity P e room buf count =
     (case compute_mac P (ie_key e) (ie_bearer_id e) (ie_direction e) buf count of
        None \<Rightarrow> (Integrity_failure, buf)
      | Some mac \<Rightarrow> if \<not> room then (Buffer_failure, buf) else (Success, buf @ mac))"

definition nia2_verify_integrity ::
    "sec_prims \<Rightarrow> integrity_engine \<Rightarrow> bytes \<Rightarrow> u32 \<Rightarrow> security_status \<times> bytes" where
  "nia2_verify_integrity P e buf count =
     (if length buf \<le> sec_mac_len then (Integrity_failure, buf)
      else let v = take (length buf - sec_mac_len) buf; m = drop (length buf - sec_mac_len) buf in
        case compute_mac P (ie_key e) (ie_bearer_id e) (ie_direction e) v count of
          None \<Rightarrow> (Integrity_failure, buf)
        | Some mac \<Rightarrow> if mac \<noteq> m then (Integrity_failure, buf) else (Success, v))"

text \<open>The engine the constructor picks: the mbedTLS one for NIA2, the generic one otherwise.\<close>

definition protect_integrity ::
    "sec_prims \<Rightarrow> integrity_engine \<Rightarrow> bool \<Rightarrow> bytes \<Rightarrow> u32 \<Rightarrow> security_status \<times> bytes" where
  "protect_integrity P e room buf count =
     (if ie_algo e = Nia2 then nia2_protect_integrity P e room buf count
      else generic_protect_integrity P e room buf count)"

definition verify_integrity ::
    "sec_prims \<Rightarrow> integrity_engine \<Rightarrow> bytes \<Rightarrow> u32 \<Rightarrow> security_status \<times> bytes" where
  "verify_integrity P e buf count =
     (if ie_algo e = Nia2 then nia2_verify_integrity P e buf count
      else generic_verify_integrity P e buf count)"

text \<open>The ciphering engines work on the bytes from \<open>offset\<close> on.\<close>

definition apply_ciphering ::
    "sec_prims \<Rightarrow> ciphering_engine \<Rightarrow> bytes \<Rightarrow> nat \<Rightarrow> u32 \<Rightarrow> security_status \<times> bytes" where
  "apply_ciphering P e buf offset count =
     (case apply_nea P (ce_algo e) (ce_key e) (ce_bearer_id e) (ce_direction e) count (drop offset buf) of
        None \<Rightarrow> (Ciphering_failure, buf)
      | Some msg \<Rightarrow> (Success, take offset buf @ msg))"

section \<open>The security engine\<close>

definition security_engine_impl ::
    "sec_128_as_config \<Rightarrow> u8 \<Rightarrow> security_direction \<Rightarrow> integrity_enabled \<Rightarrow> ciphering_enabled \<Rightarrow>
     security_engine run" where
  "security_engine_impl sec_cfg bearer_id direction integrity_enabled ciphering_enabled =
     (let c = (if ciphering_enabled = Cipher_on \<and> cipher_algo sec_cfg \<noteq> Nea0
               then Some \<lparr>ce_key = k_128_enc sec_cfg, ce_bearer_id = bearer_id, ce_direction = direction,
                          ce_algo = cipher_algo sec_cfg\<rparr>
               else None);
          au = (integrity_enabled = Smc_transition) in
      if integrity_enabled \<noteq> Integ_off then
        case (integ_algo sec_cfg, k_128_int sec_cfg) of
          (Some algo, Some key) \<Rightarrow>
            Inr \<lparr>integ_eng = Some \<lparr>ie_key = key, ie_bearer_id = bearer_id, ie_direction = direction,
                                  ie_algo = algo\<rparr>,
                 cipher_eng = c, allow_unprotected = au\<rparr>
        | _ \<Rightarrow> Inl Bad_argument
      else Inr \<lparr>integ_eng = None, cipher_eng = c, allow_unprotected = au\<rparr>)"

definition encrypt_and_protect_integrity ::
    "sec_prims \<Rightarrow> security_engine \<Rightarrow> bool \<Rightarrow> bytes \<Rightarrow> nat \<Rightarrow> u32 \<Rightarrow> security_status \<times> bytes" where
  "encrypt_and_protect_integrity P eng room buf offset count =
     (let (integ_status, buf) =
        (case integ_eng eng of
           None \<Rightarrow> (Success_unprotected, buf)
         | Some e \<Rightarrow> protect_integrity P e room buf count) in
      if \<not> is_success integ_status then (integ_status, buf)
      else case cipher_eng eng of
        None \<Rightarrow> (integ_status, buf)
      | Some c \<Rightarrow>
          (let (cipher_status, buf) = apply_ciphering P c buf offset count in
           if \<not> is_success cipher_status then (cipher_status, buf) else (integ_status, buf)))"

definition check_unprotected :: "bytes \<Rightarrow> (security_status \<times> bytes) run" where
  "check_unprotected buf =
     (if length buf < sec_mac_len then Inl View_overrun
      else if drop (length buf - sec_mac_len) buf = zero_mac
      then seq_run (trim_tail sec_mac_len buf) (\<lambda>b. Inr (Success_unprotected, b))
      else Inr (Integrity_failure, buf))"

definition decrypt_and_verify_integrity ::
    "sec_prims \<Rightarrow> security_engine \<Rightarrow> bytes \<Rightarrow> nat \<Rightarrow> u32 \<Rightarrow> (security_status \<times> bytes) run" where
  "decrypt_and_verify_integrity P eng buf offset count =
     (let (cipher_status, buf) =
        (case cipher_eng eng of
           None \<Rightarrow> (Success, buf)
         | Some c \<Rightarrow> apply_ciphering P c buf offset count) in
      if \<not> is_success cipher_status then Inr (cipher_status, buf)
      else case integ_eng eng of
        None \<Rightarrow> Inr (Success_unprotected, buf)
      | Some e \<Rightarrow>
          (let (integ_status, buf) = verify_integrity P e buf count in
           if allow_unprotected eng \<and> integ_status = Integrity_failure
           then check_unprotected buf
           else Inr (integ_status, buf)))"

section \<open>What the algorithms must provide\<close>

definition prims_ok :: "sec_prims \<Rightarrow> bool" where
  "prims_ok P \<longleftrightarrow>
     (\<forall>a k c b d v. length (security_nia P a k c b d v) = sec_mac_len) \<and>
     (\<forall>k b d v c mac. compute_mac P k b d v c = Some mac \<longrightarrow> length mac = sec_mac_len) \<and>
     (\<forall>a k b d c v w. apply_nea P a k b d c v = Some w \<longrightarrow>
        length w = length v \<and> apply_nea P a k b d c w = Some v)"

lemma prims_ok_nia: "prims_ok P \<Longrightarrow> length (security_nia P a k c b d v) = sec_mac_len"
  unfolding prims_ok_def by blast

lemma prims_ok_cmac: "prims_ok P \<Longrightarrow> compute_mac P k b d v c = Some mac \<Longrightarrow> length mac = sec_mac_len"
  unfolding prims_ok_def by blast

lemma prims_ok_mac: "prims_ok P \<Longrightarrow> length (generic_mac P e c v) = sec_mac_len"
  by (simp add: prims_ok_nia generic_mac_def zero_mac_def)

lemma prims_ok_nea: "prims_ok P \<Longrightarrow> apply_nea P a k b d c v = Some w \<Longrightarrow>
    length w = length v \<and> apply_nea P a k b d c w = Some v"
  unfolding prims_ok_def by blast

text \<open>An instance: the MAC sums the bytes with COUNT, the cipher flips every bit.\<close>

definition demo_prims :: sec_prims where
  "demo_prims = \<lparr>
     security_nia = (\<lambda>a k c b d v. [sum_list v, ucast c, b, 7]),
     compute_mac = (\<lambda>k b d v c. Some [sum_list v, ucast c, b, 9]),
     apply_nea = (\<lambda>a k b d c v. Some (map (\<lambda>x. NOT x) v))\<rparr>"

lemma demo_prims_ok: "prims_ok demo_prims"
  by (auto simp: prims_ok_def demo_prims_def sec_mac_len_def o_def)

section \<open>Integrity engines: what verification accepts\<close>

definition mac_of :: "sec_prims \<Rightarrow> integrity_engine \<Rightarrow> u32 \<Rightarrow> bytes \<Rightarrow> bytes option" where
  "mac_of P e count v =
     (if ie_algo e = Nia2 then compute_mac P (ie_key e) (ie_bearer_id e) (ie_direction e) v count
      else Some (generic_mac P e count v))"

lemma verify_integrity_cases:
  "verify_integrity P e buf count =
     (if sec_mac_len < length buf \<and>
         mac_of P e count (take (length buf - sec_mac_len) buf) = Some (drop (length buf - sec_mac_len) buf)
      then (Success, take (length buf - sec_mac_len) buf)
      else (Integrity_failure, buf))"
  by (auto simp: verify_integrity_def generic_verify_integrity_def nia2_verify_integrity_def mac_of_def
      Let_def split: option.splits)

lemma protect_integrity_cases:
  "protect_integrity P e room buf count =
     (case mac_of P e count buf of
        None \<Rightarrow> (Integrity_failure, buf)
      | Some mac \<Rightarrow> if room then (Success, buf @ mac) else (Buffer_failure, buf))"
  by (auto simp: protect_integrity_def generic_protect_integrity_def nia2_protect_integrity_def mac_of_def
      Let_def split: option.splits)

lemma mac_of_length: "prims_ok P \<Longrightarrow> mac_of P e c v = Some m \<Longrightarrow> length m = sec_mac_len"
  by (auto simp: mac_of_def prims_ok_mac prims_ok_cmac split: if_splits)

lemma verify_protect:
  assumes P: "prims_ok P" and "protect_integrity P e room buf count = (Success, out)" and "buf \<noteq> []"
  shows "verify_integrity P e out count = (Success, buf)"
proof -
  obtain mac where "mac_of P e count buf = Some mac" "out = buf @ mac"
    using assms(2) by (auto simp: protect_integrity_cases split: option.splits if_splits)
  then show ?thesis using mac_of_length [OF P] assms(3) by (simp add: verify_integrity_cases)
qed

section \<open>The engine\<close>

text \<open>Deciphering what ciphering gave restores the buffer, header included.\<close>

lemma apply_ciphering_involution:
  assumes "prims_ok P" and "apply_ciphering P c buf offset count = (Success, out)" and "offset \<le> length buf"
  shows "apply_ciphering P c out offset count = (Success, buf) \<and> length out = length buf"
proof -
  obtain msg where msg: "apply_nea P (ce_algo c) (ce_key c) (ce_bearer_id c) (ce_direction c) count (drop offset buf) = Some msg"
    "out = take offset buf @ msg"
    using assms(2) by (auto simp: apply_ciphering_def split: option.splits)
  then show ?thesis using prims_ok_nea [OF assms(1) msg(1)] assms(3) by (simp add: apply_ciphering_def)
qed

lemma apply_ciphering_status:
  "apply_ciphering P c buf offset count = (s, out) \<Longrightarrow> s = Success \<or> s = Ciphering_failure"
  by (auto simp: apply_ciphering_def split: option.splits)

lemma engine_roundtrip:
  assumes P: "prims_ok P" and enc: "encrypt_and_protect_integrity P eng room buf offset count = (s, out)"
    and s: "is_success s" and buf: "offset \<le> length buf" "buf \<noteq> []"
  shows "decrypt_and_verify_integrity P eng out offset count = Inr (s, buf)"
proof -
  obtain s1 mid where mid: "(case integ_eng eng of None \<Rightarrow> (Success_unprotected, buf)
      | Some e \<Rightarrow> protect_integrity P e room buf count) = (s1, mid)" by fastforce
  have s1: "is_success s1" using enc s mid
    by (auto simp: encrypt_and_protect_integrity_def split: option.splits prod.splits if_splits)
  have "length buf \<le> length mid" using mid s1
    by (auto simp: protect_integrity_cases is_success_def split: option.splits if_splits)
  then have off: "offset \<le> length mid" using buf by simp
  have fin: "s = s1 \<and> (case cipher_eng eng of None \<Rightarrow> out = mid
      | Some c \<Rightarrow> apply_ciphering P c mid offset count = (Success, out))"
    using enc s mid s1
    by (auto dest: apply_ciphering_status simp: encrypt_and_protect_integrity_def is_success_def split: option.splits prod.splits if_splits)
  have dec: "(case cipher_eng eng of None \<Rightarrow> (Success, out) | Some c \<Rightarrow> apply_ciphering P c out offset count)
      = (Success, mid)"
    using fin apply_ciphering_involution [OF P _ off] by (auto split: option.splits)
  show ?thesis
  proof (cases "integ_eng eng")
    case None
    then show ?thesis using mid fin dec by (simp add: decrypt_and_verify_integrity_def is_success_def)
  next
    case (Some e)
    then have "protect_integrity P e room buf count = (Success, mid)" "s1 = Success"
      using mid s1 by (auto simp: protect_integrity_cases is_success_def split: option.splits if_splits)
    then show ?thesis using Some fin dec verify_protect [OF P _ buf(2)]
      by (simp add: decrypt_and_verify_integrity_def is_success_def)
  qed
qed

text \<open>
  What the receiver may conclude from the status: \<open>Success\<close> means that the deciphered buffer
  ends in its MAC; \<open>Success_unprotected\<close> that integrity is off, or that unprotected PDUs are
  allowed and the MAC is zero.
\<close>

definition deciphered :: "sec_prims \<Rightarrow> security_engine \<Rightarrow> bytes \<Rightarrow> nat \<Rightarrow> u32 \<Rightarrow> security_status \<times> bytes" where
  "deciphered P eng buf offset count =
     (case cipher_eng eng of None \<Rightarrow> (Success, buf) | Some c \<Rightarrow> apply_ciphering P c buf offset count)"

lemma deciphered_status: "deciphered P eng buf offset count = (s, d) \<Longrightarrow> s = Success \<or> s = Ciphering_failure"
  by (auto simp: deciphered_def dest: apply_ciphering_status split: option.splits)

lemma decrypt_cases:
  assumes "deciphered P eng buf offset count = (s, d)"
  shows "decrypt_and_verify_integrity P eng buf offset count =
    (if s = Ciphering_failure then Inr (s, d)
     else case integ_eng eng of
       None \<Rightarrow> Inr (Success_unprotected, d)
     | Some e \<Rightarrow>
         if sec_mac_len < length d \<and>
            mac_of P e count (take (length d - sec_mac_len) d) = Some (drop (length d - sec_mac_len) d)
         then Inr (Success, take (length d - sec_mac_len) d)
         else if allow_unprotected eng then check_unprotected d
         else Inr (Integrity_failure, d))"
  using deciphered_status [OF assms] assms
  by (cases "integ_eng eng") (auto simp: decrypt_and_verify_integrity_def deciphered_def verify_integrity_cases is_success_def)

lemma check_unprotected_Inr:
  "check_unprotected d = Inr (s, out) \<Longrightarrow>
     (s = Success_unprotected \<and> d = out @ zero_mac) \<or> (s = Integrity_failure \<and> d = out)"
  by (auto simp: check_unprotected_def trim_tail_def split: if_splits) (metis append_take_drop_id)

lemma check_unprotected_Inl: "check_unprotected d = Inl e \<longleftrightarrow> length d < sec_mac_len \<and> e = View_overrun"
  by (auto simp: check_unprotected_def trim_tail_def)

lemma engine_accepts:
  assumes "decrypt_and_verify_integrity P eng buf offset count = Inr (s, out)"
    and "deciphered P eng buf offset count = (s0, d)"
  shows "(s = Success \<longrightarrow>
            (\<exists>e m. integ_eng eng = Some e \<and> mac_of P e count out = Some m \<and> out \<noteq> [] \<and> d = out @ m)) \<and>
         (s = Success_unprotected \<longrightarrow>
            (integ_eng eng = None \<and> out = d) \<or> (allow_unprotected eng \<and> d = out @ zero_mac))"
proof -
  have d: "take (length d - n) d @ drop (length d - n) d = d" for n by simp
  have out: "sec_mac_len < length d \<Longrightarrow> take (length d - sec_mac_len) d \<noteq> []" by auto
  show ?thesis using assms(1) d out unfolding decrypt_cases [OF assms(2)]
    by (auto dest!: check_unprotected_Inr split: if_splits option.splits)
qed

text \<open>
  The engine stops the program in one case only: unprotected PDUs are allowed, and the PDU is
  shorter than a MAC.
\<close>

lemma engine_fault:
  assumes "decrypt_and_verify_integrity P eng buf offset count = Inl e"
    and "deciphered P eng buf offset count = (s, d)"
  shows "allow_unprotected eng \<and> length d < sec_mac_len \<and> e = View_overrun"
  using assms(1) unfolding decrypt_cases [OF assms(2)]
  by (auto simp: check_unprotected_Inl split: if_splits option.splits)

lemma engine_length:
  assumes "decrypt_and_verify_integrity P eng buf offset count = Inr (s, out)"
    and "deciphered P eng buf offset count = (s0, d)" and "is_success s"
  shows "length d \<le> length out + sec_mac_len"
  using assms(1) assms(3) unfolding decrypt_cases [OF assms(2)]
  by (auto simp: is_success_def zero_mac_def dest!: check_unprotected_Inr split: if_splits option.splits)

end
