(* ===== verification/Pdcp_Crypto_Token.thy ===== *)
theory Pdcp_Crypto_Token
  imports Prelude
begin

text \<open>
  \<open>lib/pdcp/pdcp_crypto_token.h\<close>: the counter of outstanding crypto tasks and the event that
  says that processing was stopped and the last task has ended. A token is taken when a PDU is
  handed to the crypto executor and returned when the task that holds it is destroyed.
\<close>

record pdcp_crypto_token_manager =
  tokens :: u32
  pending_crypto :: bool

definition tm_init :: pdcp_crypto_token_manager where
  "tm_init = \<lparr>tokens = 0, pending_crypto = False\<rparr>"

definition increment_token :: "pdcp_crypto_token_manager \<Rightarrow> pdcp_crypto_token_manager" where
  "increment_token m = m\<lparr>tokens := tokens m + 1\<rparr>"

definition set_once :: "pdcp_crypto_token_manager \<Rightarrow> pdcp_crypto_token_manager" where
  "set_once m = m\<lparr>pending_crypto := True\<rparr>"

definition return_token :: "pdcp_crypto_token_manager \<Rightarrow> pdcp_crypto_token_manager run" where
  "return_token m =
     (let prev_token = tokens m; m = m\<lparr>tokens := tokens m - 1\<rparr> in
      if prev_token = 0xffffffff then Inl Bad_argument
      else Inr (if prev_token = 0 then set_once m else m))"

definition tm_start :: "pdcp_crypto_token_manager \<Rightarrow> pdcp_crypto_token_manager" where
  "tm_start m = increment_token (m\<lparr>pending_crypto := False\<rparr>)"

definition tm_stop :: "pdcp_crypto_token_manager \<Rightarrow> pdcp_crypto_token_manager run" where
  "tm_stop m = return_token m"

text \<open>
  The state the protocol of the counter allows: \<open>n\<close> tasks hold a token, and processing is
  running or has been stopped once. While it is stopped the counter is one less than the number
  of tasks, and the event is set exactly when none is left.
\<close>

definition tm_state :: "nat \<Rightarrow> bool \<Rightarrow> pdcp_crypto_token_manager \<Rightarrow> bool" where
  "tm_state n halted m \<longleftrightarrow> n < 4294967295 \<and>
     unat (tokens m) = (if \<not> halted then n else if n = 0 then 4294967295 else n - 1) \<and>
     pending_crypto m = (halted \<and> n = 0)"

lemma unat_dec: "unat ((w :: u32) - 1) = (if unat w = 0 then 4294967295 else unat w - 1)"
proof (cases "w = 0")
  case True
  then show ?thesis by (simp add: unsigned_minus_1_eq_mask mask_eq_exp_minus_1)
next
  case False
  then show ?thesis by (simp add: unat_minus_one unat_eq_0)
qed

lemma unat_inc: "unat ((w :: u32) + 1) = (if unat w = 4294967295 then 0 else unat w + 1)"
proof -
  have "unat (w + 1) = (unat w + 1) mod 4294967296" by (simp add: unat_word_ariths)
  moreover have "unat w < 4294967296" by (rule unat_u32_less)
  ultimately show ?thesis by (cases "unat w = 4294967295") simp_all
qed

lemma token_all_ones: "(w :: u32) = 0xffffffff \<longleftrightarrow> unat w = 4294967295"
  by (simp add: word_unat_eq_iff)

lemma tm_state_init: "tm_state 0 False tm_init"
  by (simp add: tm_state_def tm_init_def)

lemma tm_state_increment:
  "tm_state n h m \<Longrightarrow> n + 1 < 4294967295 \<Longrightarrow> \<not> (h \<and> n = 0) \<Longrightarrow> tm_state (n + 1) h (increment_token m)"
  by (auto simp: tm_state_def increment_token_def unat_inc)

lemma tm_state_return:
  "tm_state (n + 1) h m \<Longrightarrow> \<exists>m'. return_token m = Inr m' \<and> tm_state n h m'"
  by (cases m) (auto simp: tm_state_def return_token_def set_once_def unat_dec token_all_ones Let_def
      unat_eq_0 [symmetric] simp del: unat_eq_zero)

lemma tm_state_stop: "tm_state n False m \<Longrightarrow> \<exists>m'. tm_stop m = Inr m' \<and> tm_state n True m'"
  by (cases m) (auto simp: tm_state_def tm_stop_def return_token_def set_once_def unat_dec token_all_ones Let_def
      unat_eq_0 [symmetric] simp del: unat_eq_zero)

lemma tm_state_start: "tm_state n True m \<Longrightarrow> tm_state n False (tm_start m)"
  by (auto simp: tm_state_def tm_start_def increment_token_def unat_inc)

text \<open>Stopping again when the event is already set fails the assertion.\<close>

lemma tm_state_stop_again: "tm_state 0 True m \<Longrightarrow> tm_stop m = Inl Bad_argument"
  by (simp add: tm_state_def tm_stop_def return_token_def token_all_ones Let_def)

lemma tm_state_event: "tm_state n h m \<Longrightarrow> pending_crypto m \<longleftrightarrow> h \<and> n = 0"
  by (simp add: tm_state_def)

end
