(* ===== verification/Pdcp_Rx_Metrics.thy ===== *)
theory Pdcp_Rx_Metrics
  imports Prelude
begin

text \<open>
  The counters of \<open>lib/pdcp/pdcp_rx_metrics_impl.h\<close>, which count only while metrics are enabled.
  Durations (reordering delay, crypto and SDU latency, the latency histogram) depend on the
  clock and are left out; the number of measured delays is kept.
\<close>

record pdcp_rx_metrics =
  rxm_enabled :: bool
  rxm_num_pdus :: u32
  rxm_num_pdu_bytes :: u32
  rxm_num_data_pdus :: u32
  rxm_num_data_pdu_bytes :: u32
  rxm_num_dropped_pdus :: u32
  rxm_num_sdus :: u32
  rxm_num_sdu_bytes :: u32
  rxm_num_integrity_verified_pdus :: u32
  rxm_num_integrity_unverified_pdus :: u32
  rxm_num_integrity_failed_pdus :: u32
  rxm_num_t_reordering_timeouts :: u32
  rxm_reordering_counter :: u32
  rxm_counter :: u32

definition rx_metrics_init :: "bool \<Rightarrow> pdcp_rx_metrics" where
  "rx_metrics_init en = \<lparr>rxm_enabled = en, rxm_num_pdus = 0, rxm_num_pdu_bytes = 0,
     rxm_num_data_pdus = 0, rxm_num_data_pdu_bytes = 0, rxm_num_dropped_pdus = 0, rxm_num_sdus = 0,
     rxm_num_sdu_bytes = 0, rxm_num_integrity_verified_pdus = 0, rxm_num_integrity_unverified_pdus = 0,
     rxm_num_integrity_failed_pdus = 0, rxm_num_t_reordering_timeouts = 0, rxm_reordering_counter = 0,
     rxm_counter = 0\<rparr>"

definition rxm_add_sdus :: "u32 \<Rightarrow> nat \<Rightarrow> pdcp_rx_metrics \<Rightarrow> pdcp_rx_metrics" where
  "rxm_add_sdus n len m =
     (if \<not> rxm_enabled m then m
      else m\<lparr>rxm_num_sdus := rxm_num_sdus m + n, rxm_num_sdu_bytes := rxm_num_sdu_bytes m + of_nat len\<rparr>)"

definition rxm_add_pdus :: "u32 \<Rightarrow> nat \<Rightarrow> pdcp_rx_metrics \<Rightarrow> pdcp_rx_metrics" where
  "rxm_add_pdus n len m =
     (if \<not> rxm_enabled m then m
      else m\<lparr>rxm_num_pdus := rxm_num_pdus m + n, rxm_num_pdu_bytes := rxm_num_pdu_bytes m + of_nat len\<rparr>)"

definition rxm_add_data_pdus :: "u32 \<Rightarrow> nat \<Rightarrow> pdcp_rx_metrics \<Rightarrow> pdcp_rx_metrics" where
  "rxm_add_data_pdus n len m =
     (if \<not> rxm_enabled m then m
      else m\<lparr>rxm_num_data_pdus := rxm_num_data_pdus m + n,
             rxm_num_data_pdu_bytes := rxm_num_data_pdu_bytes m + of_nat len\<rparr>)"

definition rxm_add_lost_pdus :: "u32 \<Rightarrow> pdcp_rx_metrics \<Rightarrow> pdcp_rx_metrics" where
  "rxm_add_lost_pdus n m =
     (if \<not> rxm_enabled m then m else m\<lparr>rxm_num_dropped_pdus := rxm_num_dropped_pdus m + n\<rparr>)"

definition rxm_add_dropped_pdus :: "u32 \<Rightarrow> pdcp_rx_metrics \<Rightarrow> pdcp_rx_metrics" where
  "rxm_add_dropped_pdus n m =
     (if \<not> rxm_enabled m then m else m\<lparr>rxm_num_dropped_pdus := rxm_num_dropped_pdus m + n\<rparr>)"

definition rxm_add_integrity_verified_pdus :: "u32 \<Rightarrow> pdcp_rx_metrics \<Rightarrow> pdcp_rx_metrics" where
  "rxm_add_integrity_verified_pdus n m =
     (if \<not> rxm_enabled m then m
      else m\<lparr>rxm_num_integrity_verified_pdus := rxm_num_integrity_verified_pdus m + n\<rparr>)"

definition rxm_add_integrity_unverified_pdus :: "u32 \<Rightarrow> pdcp_rx_metrics \<Rightarrow> pdcp_rx_metrics" where
  "rxm_add_integrity_unverified_pdus n m =
     (if \<not> rxm_enabled m then m
      else m\<lparr>rxm_num_integrity_unverified_pdus := rxm_num_integrity_unverified_pdus m + n\<rparr>)"

definition rxm_add_integrity_failed_pdus :: "u32 \<Rightarrow> pdcp_rx_metrics \<Rightarrow> pdcp_rx_metrics" where
  "rxm_add_integrity_failed_pdus n m =
     (if \<not> rxm_enabled m then m
      else m\<lparr>rxm_num_integrity_failed_pdus := rxm_num_integrity_failed_pdus m + n\<rparr>)"

definition rxm_add_t_reordering_timeouts :: "u32 \<Rightarrow> pdcp_rx_metrics \<Rightarrow> pdcp_rx_metrics" where
  "rxm_add_t_reordering_timeouts n m =
     (if \<not> rxm_enabled m then m
      else m\<lparr>rxm_num_t_reordering_timeouts := rxm_num_t_reordering_timeouts m + n\<rparr>)"

definition rxm_add_reordering_delay :: "pdcp_rx_metrics \<Rightarrow> pdcp_rx_metrics" where
  "rxm_add_reordering_delay m =
     (if \<not> rxm_enabled m then m
      else m\<lparr>rxm_reordering_counter := rxm_reordering_counter m + 1\<rparr>)"

end
