(* ===== verification/Pdcp_Rx.thy ===== *)
theory Pdcp_Rx
  imports Pdcp_Header Sdu_Window Ring_Buffer Security_Engine Pdcp_Crypto_Token Pdcp_Rx_Metrics
begin

text \<open>
  The receiving PDCP entity, \<open>lib/pdcp/pdcp_entity_rx.h\<close> and \<open>pdcp_entity_rx.cpp\<close>: one
  definition per member function, over a record of the entity's state. Calls to the upper
  layers and to the transmitting side are appended to the list \<open>rx_outbox\<close>; the two executors
  are the lists of tasks they hold. Where the entity asks its environment (memory for a copy, a
  place in an executor's queue, the worker that runs a task, header decompression) the answer is
  an argument. Logging and the measurement of durations are left out.
\<close>

section \<open>Configuration and state\<close>

text \<open>\<open>Ms 0\<close> is the enumerator \<open>ms0\<close>.\<close>

datatype pdcp_t_reordering = Ms nat | Infinity

definition pdcp_t_reordering_from_int :: "int \<Rightarrow> pdcp_t_reordering option" where
  "pdcp_t_reordering_from_int num =
     (if num \<in> set [0, 1, 2, 4, 5, 8, 10, 15, 20, 30, 40, 50, 60, 80, 100, 120, 140, 160, 180, 200,
         220, 240, 260, 280, 300, 500, 750, 1000, 1250, 1500, 1750, 2000, 2250, 2500, 2750, 3000]
      then Some (Ms (nat num)) else if num = -1 then Some Infinity else None)"

definition pdcp_t_reordering_to_int :: "pdcp_t_reordering \<Rightarrow> int" where
  "pdcp_t_reordering_to_int t = (case t of Ms n \<Rightarrow> int n | Infinity \<Rightarrow> -1)"

record pdcp_max_count =
  mc_notify :: u32
  mc_hard :: u32

record pdcp_rx_config =
  rxc_rb_type :: pdcp_rb_type
  rxc_rlc_mode :: pdcp_rlc_mode
  rxc_sn_size :: pdcp_sn_size
  rxc_direction :: pdcp_security_direction
  rxc_t_reordering :: pdcp_t_reordering
  rxc_header_compression :: bool
  rxc_max_count :: pdcp_max_count

record pdcp_rx_state =
  rx_next :: u32
  rx_deliv :: u32
  rx_reord :: u32

record pdcp_rx_pdu_info =
  pdu_buf :: bytes
  pdu_count :: u32
  pdu_integrity_verified :: bool

record pdcp_rx_sdu_info =
  sdu_buf :: bytes
  sdu_count :: u32
  sdu_integrity_verified :: bool

text \<open>The notifications, in the order they are sent. \<open>On_new_sdu\<close> also keeps the SDU's COUNT.\<close>

datatype pdcp_rx_event =
    On_resume_required
  | On_max_count_reached
  | On_protocol_failure
  | On_integrity_failure
  | On_new_sdu u32 bytes bool
  | On_status_report bytes
  | On_rohc_feedback_received bytes
  | On_rohc_feedback_produced bytes

text \<open>The tasks that \<open>apply_security\<close> posts to the UE executor.\<close>

datatype pdcp_rx_task = Handle_failure security_status u32 | Reorder pdcp_rx_pdu_info

text \<open>What the entity uses of its environment; \<open>'r\<close> is the state of a ROHC decompressor.\<close>

record 'r pdcp_rx_env =
  env_prims :: sec_prims
  env_nof_workers :: nat
  env_create_rohc :: "'r option"
  env_rohc_decompress :: "'r \<Rightarrow> bytes \<Rightarrow> bytes \<times> bytes \<times> 'r"

record 'r pdcp_rx =
  rx_cfg :: pdcp_rx_config
  rx_bearer_id :: u8
  rx_stopped :: bool
  rx_rohc :: "'r option"
  rx_sec_engines :: "security_engine option list"
  rx_integrity_enabled :: integrity_enabled
  rx_ciphering_enabled :: ciphering_enabled
  rx_st :: pdcp_rx_state
  rx_window :: "pdcp_rx_sdu_info sdu_window"
  rx_timer_running :: bool
  rx_token_mngr :: pdcp_crypto_token_manager
  rx_buffering :: bool
  rx_suspended :: bool
  rx_resume_requested :: bool
  rx_pdu_buffer :: "bytes ring_buffer"
  rx_max_count_notified :: bool
  rx_max_count_overflow :: bool
  rx_metrics :: pdcp_rx_metrics
  rx_crypto_tasks :: "pdcp_rx_pdu_info list"
  rx_ue_tasks :: "pdcp_rx_task list"
  rx_outbox :: "pdcp_rx_event list"

definition rx_is_srb :: "'r pdcp_rx \<Rightarrow> bool" where
  "rx_is_srb s \<longleftrightarrow> rxc_rb_type (rx_cfg s) = Srb"

definition rx_is_um :: "'r pdcp_rx \<Rightarrow> bool" where
  "rx_is_um s \<longleftrightarrow> rxc_rlc_mode (rx_cfg s) = Um"

definition rx_hdr_len :: "'r pdcp_rx \<Rightarrow> nat" where
  "rx_hdr_len s = pdcp_data_pdu_header_size (rxc_sn_size (rx_cfg s))"

definition rx_emit :: "pdcp_rx_event \<Rightarrow> 'r pdcp_rx \<Rightarrow> 'r pdcp_rx" where
  "rx_emit e s = s\<lparr>rx_outbox := rx_outbox s @ [e]\<rparr>"

definition rx_count :: "(pdcp_rx_metrics \<Rightarrow> pdcp_rx_metrics) \<Rightarrow> 'r pdcp_rx \<Rightarrow> 'r pdcp_rx" where
  "rx_count f s = s\<lparr>rx_metrics := f (rx_metrics s)\<rparr>"

definition zero_st :: pdcp_rx_state where
  "zero_st = \<lparr>rx_next = 0, rx_deliv = 0, rx_reord = 0\<rparr>"

section \<open>Header decompression\<close>

definition init_header_decompression :: "'r pdcp_rx_env \<Rightarrow> 'r pdcp_rx \<Rightarrow> 'r pdcp_rx" where
  "init_header_decompression env s =
     (if rxc_header_compression (rx_cfg s) then s\<lparr>rx_rohc := env_create_rohc env\<rparr> else s)"

definition apply_header_decompression ::
    "'r pdcp_rx_env \<Rightarrow> bytes \<Rightarrow> 'r pdcp_rx \<Rightarrow> bool \<times> bytes \<times> 'r pdcp_rx" where
  "apply_header_decompression env buf s =
     (case rx_rohc s of
        None \<Rightarrow> (True, buf, s)
      | Some r \<Rightarrow>
          (let (decomp_packet, feedback_packet, r') = env_rohc_decompress env r buf;
               s = s\<lparr>rx_rohc := Some r'\<rparr> in
           if decomp_packet = [] \<and> feedback_packet = [] then
             (False, buf, rx_count (rxm_add_dropped_pdus 1) s)
           else
             let s = (if feedback_packet \<noteq> [] then rx_emit (On_rohc_feedback_produced feedback_packet) s else s) in
             if decomp_packet = [] then (False, buf, s) else (True, decomp_packet, s)))"

section \<open>Delivery\<close>

definition deliver_sdu :: "'r pdcp_rx_env \<Rightarrow> pdcp_rx_sdu_info \<Rightarrow> 'r pdcp_rx \<Rightarrow> 'r pdcp_rx" where
  "deliver_sdu env sdu_info s =
     (let (ok, buf, s) = apply_header_decompression env (sdu_buf sdu_info) s in
      if ok then
        rx_emit (On_new_sdu (sdu_count sdu_info) buf (sdu_integrity_verified sdu_info))
          (rx_count (rxm_add_reordering_delay o rxm_add_sdus 1 (length buf)) s)
      else s)"

text \<open>Deliver the stored SDU of one COUNT and remove it from the window.\<close>

definition deliver_at :: "'r pdcp_rx_env \<Rightarrow> u32 \<Rightarrow> 'r pdcp_rx \<Rightarrow> 'r pdcp_rx run" where
  "deliver_at env count s =
     seq_run (win_at (rx_window s) count) (\<lambda>info.
     let s = deliver_sdu env info s in
     seq_run (remove_sn count (rx_window s)) (\<lambda>w. Inr (s\<lparr>rx_window := w\<rparr>)))"

definition advance_deliv :: "'r pdcp_rx \<Rightarrow> 'r pdcp_rx" where
  "advance_deliv s = s\<lparr>rx_st := (rx_st s)\<lparr>rx_deliv := rx_deliv (rx_st s) + 1\<rparr>\<rparr>"

lemma deliver_sdu_st [simp]: "rx_st (deliver_sdu env i s) = rx_st s"
  by (simp add: deliver_sdu_def apply_header_decompression_def rx_emit_def rx_count_def Let_def
      split: option.splits prod.splits)

lemma deliver_at_st: "deliver_at env c s = Inr s' \<Longrightarrow> rx_st s' = rx_st s"
  by (auto simp: deliver_at_def seq_run_Inr Let_def)

function deliver_all_consecutive_counts :: "'r pdcp_rx_env \<Rightarrow> 'r pdcp_rx \<Rightarrow> 'r pdcp_rx run" where
  "deliver_all_consecutive_counts env s =
     (if rx_deliv (rx_st s) \<noteq> rx_next (rx_st s) \<and> has_sn (rx_window s) (rx_deliv (rx_st s)) then
        (case deliver_at env (rx_deliv (rx_st s)) s of
           Inl e \<Rightarrow> Inl e
         | Inr s' \<Rightarrow> deliver_all_consecutive_counts env (advance_deliv s'))
      else Inr s)"
  by auto
termination
  by (relation "measure (\<lambda>(env, s). unat (rx_next (rx_st s) - rx_deliv (rx_st s)))")
     (auto simp: advance_deliv_def deliver_at_st unat_diff_less)

function deliver_all_sdus_from :: "'r pdcp_rx_env \<Rightarrow> u32 \<Rightarrow> 'r pdcp_rx \<Rightarrow> 'r pdcp_rx run" where
  "deliver_all_sdus_from env count s =
     (if count < rx_next (rx_st s) then
        (case (if has_sn (rx_window s) count then deliver_at env count s else Inr s) of
           Inl e \<Rightarrow> Inl e
         | Inr s' \<Rightarrow> deliver_all_sdus_from env (count + 1) s')
      else Inr s)"
  by auto
termination
  by (relation "measure (\<lambda>(env, c, s). unat (rx_next (rx_st s) - c))")
     (auto simp: deliver_at_st unat_diff_less split: if_splits)

definition deliver_all_sdus :: "'r pdcp_rx_env \<Rightarrow> 'r pdcp_rx \<Rightarrow> 'r pdcp_rx run" where
  "deliver_all_sdus env s = deliver_all_sdus_from env (rx_deliv (rx_st s)) s"

function discard_all_sdus :: "'r pdcp_rx \<Rightarrow> 'r pdcp_rx run" where
  "discard_all_sdus s =
     (if rx_deliv (rx_st s) \<noteq> rx_next (rx_st s) then
        (case (if has_sn (rx_window s) (rx_deliv (rx_st s))
               then seq_run (remove_sn (rx_deliv (rx_st s)) (rx_window s)) (\<lambda>w. Inr (s\<lparr>rx_window := w\<rparr>))
               else Inr s) of
           Inl e \<Rightarrow> Inl e
         | Inr s' \<Rightarrow> discard_all_sdus (advance_deliv s'))
      else Inr s)"
  by auto
termination
  by (relation "measure (\<lambda>s. unat (rx_next (rx_st s) - rx_deliv (rx_st s)))")
     (auto simp: advance_deliv_def seq_run_Inr unat_diff_less split: if_splits)

declare deliver_all_consecutive_counts.simps [simp del] deliver_all_sdus_from.simps [simp del]
  discard_all_sdus.simps [simp del]

section \<open>The reordering timer\<close>

text \<open>The first loop of \<open>handle_t_reordering_expire\<close>.\<close>

function deliver_until_reord :: "'r pdcp_rx_env \<Rightarrow> 'r pdcp_rx \<Rightarrow> 'r pdcp_rx run" where
  "deliver_until_reord env s =
     (if rx_deliv (rx_st s) \<noteq> rx_reord (rx_st s) then
        (case (if has_sn (rx_window s) (rx_deliv (rx_st s))
               then deliver_at env (rx_deliv (rx_st s)) s else Inr s) of
           Inl e \<Rightarrow> Inl e
         | Inr s' \<Rightarrow> deliver_until_reord env (advance_deliv s'))
      else Inr s)"
  by auto
termination
  by (relation "measure (\<lambda>(env, s). unat (rx_reord (rx_st s) - rx_deliv (rx_st s)))")
     (auto simp: advance_deliv_def deliver_at_st unat_diff_less split: if_splits)

declare deliver_until_reord.simps [simp del]

definition rx_run_timer :: "'r pdcp_rx \<Rightarrow> 'r pdcp_rx" where
  "rx_run_timer s = s\<lparr>rx_timer_running := True\<rparr>"

definition rx_stop_timer :: "'r pdcp_rx \<Rightarrow> 'r pdcp_rx" where
  "rx_stop_timer s = s\<lparr>rx_timer_running := False\<rparr>"

definition reord_to_next :: "'r pdcp_rx \<Rightarrow> 'r pdcp_rx" where
  "reord_to_next s = s\<lparr>rx_st := (rx_st s)\<lparr>rx_reord := rx_next (rx_st s)\<rparr>\<rparr>"

definition handle_t_reordering_expire :: "'r pdcp_rx_env \<Rightarrow> 'r pdcp_rx \<Rightarrow> 'r pdcp_rx run" where
  "handle_t_reordering_expire env s =
     seq_run (deliver_until_reord env (rx_count (rxm_add_t_reordering_timeouts 1) s)) (\<lambda>s.
     seq_run (deliver_all_consecutive_counts env s) (\<lambda>s.
       if rx_deliv (rx_st s) < rx_next (rx_st s) then
         if rxc_t_reordering (rx_cfg s) = Ms 0 then Inr s
         else Inr (rx_run_timer (reord_to_next s))
       else Inr s))"

text \<open>The callback of the timer, which no longer runs when it is called.\<close>

definition reordering_callback :: "'r pdcp_rx_env \<Rightarrow> 'r pdcp_rx \<Rightarrow> 'r pdcp_rx run" where
  "reordering_callback env s =
     (if rx_stopped s then Inr s else handle_t_reordering_expire env s)"

section \<open>Reordering\<close>

text \<open>
  \<open>apply_reordering\<close> in its four parts: the checks that drop a PDU, the insertion, the update of
  RX\_NEXT with the delivery, and the timer.
\<close>

definition store_pdu :: "pdcp_rx_pdu_info \<Rightarrow> 'r pdcp_rx \<Rightarrow> 'r pdcp_rx run" where
  "store_pdu pdu_info s =
     seq_run (add_sn (pdu_count pdu_info)
       \<lparr>sdu_buf = pdu_buf pdu_info, sdu_count = pdu_count pdu_info,
        sdu_integrity_verified = pdu_integrity_verified pdu_info\<rparr> (rx_window s))
     (\<lambda>w. Inr (let s = s\<lparr>rx_window := w\<rparr> in
        if rx_next (rx_st s) \<le> pdu_count pdu_info
        then s\<lparr>rx_st := (rx_st s)\<lparr>rx_next := pdu_count pdu_info + 1\<rparr>\<rparr>
        else s))"

definition update_reordering_timer :: "'r pdcp_rx_env \<Rightarrow> 'r pdcp_rx \<Rightarrow> 'r pdcp_rx run" where
  "update_reordering_timer env s =
     (let s = (if rx_timer_running s \<and> rx_reord (rx_st s) \<le> rx_deliv (rx_st s) then rx_stop_timer s else s) in
      if rxc_t_reordering (rx_cfg s) \<noteq> Infinity then
        if rxc_t_reordering (rx_cfg s) = Ms 0 then handle_t_reordering_expire env (reord_to_next s)
        else if \<not> rx_timer_running s \<and> rx_deliv (rx_st s) < rx_next (rx_st s)
        then Inr (rx_run_timer (reord_to_next s))
        else Inr s
      else Inr s)"

definition apply_reordering :: "'r pdcp_rx_env \<Rightarrow> pdcp_rx_pdu_info \<Rightarrow> 'r pdcp_rx \<Rightarrow> 'r pdcp_rx run" where
  "apply_reordering env pdu_info s =
     (let rcvd_count = pdu_count pdu_info in
      if rcvd_count < rx_deliv (rx_st s) then Inr (rx_count (rxm_add_dropped_pdus 1) s)
      else
        seq_run
          (if has_sn (rx_window s) rcvd_count then
             seq_run (win_at (rx_window s) rcvd_count) (\<lambda>sdu_info.
               if sdu_count sdu_info = rcvd_count then Inr None
               else seq_run (remove_sn rcvd_count (rx_window s)) (\<lambda>w. Inr (Some (s\<lparr>rx_window := w\<rparr>))))
           else Inr (Some s))
          (\<lambda>r. case r of
             None \<Rightarrow> Inr (rx_count (rxm_add_dropped_pdus 1) s)
           | Some s \<Rightarrow>
               seq_run (store_pdu pdu_info s) (\<lambda>s.
               seq_run (if rcvd_count = rx_deliv (rx_st s) then deliver_all_consecutive_counts env s else Inr s)
                 (update_reordering_timer env))))"

section \<open>Security\<close>

definition rx_return_token :: "'r pdcp_rx \<Rightarrow> 'r pdcp_rx run" where
  "rx_return_token s = seq_run (return_token (rx_token_mngr s)) (\<lambda>m. Inr (s\<lparr>rx_token_mngr := m\<rparr>))"

definition apply_deciphering_and_integrity_check ::
    "'r pdcp_rx_env \<Rightarrow> nat \<Rightarrow> bytes \<Rightarrow> u32 \<Rightarrow> 'r pdcp_rx \<Rightarrow> (security_status \<times> bytes) run" where
  "apply_deciphering_and_integrity_check env worker_idx buf count s =
     (if env_nof_workers env \<le> worker_idx then Inl Bad_argument
      else case rx_sec_engines s ! worker_idx of
        None \<Rightarrow>
          if rx_is_srb s then
            if length buf \<le> sec_mac_len then Inr (Buffer_failure, buf)
            else if drop (length buf - sec_mac_len) buf \<noteq> zero_mac then Inr (Integrity_failure, buf)
            else seq_run (trim_tail sec_mac_len buf) (\<lambda>b. Inr (Success_unprotected, b))
          else Inr (Success_unprotected, buf)
      | Some sec_engine \<Rightarrow>
          decrypt_and_verify_integrity (env_prims env) sec_engine buf
            (if rxc_sn_size (rx_cfg s) = Size12bits then 2 else 3) count)"

text \<open>\<open>ue_ok\<close> says whether the UE executor accepts the task; if not, the token is returned.\<close>

definition post_ue_task :: "bool \<Rightarrow> pdcp_rx_task \<Rightarrow> 'r pdcp_rx \<Rightarrow> 'r pdcp_rx run" where
  "post_ue_task ue_ok t s =
     (if ue_ok then Inr (s\<lparr>rx_ue_tasks := rx_ue_tasks s @ [t]\<rparr>) else rx_return_token s)"

definition apply_security ::
    "'r pdcp_rx_env \<Rightarrow> nat \<Rightarrow> bool \<Rightarrow> pdcp_rx_pdu_info \<Rightarrow> 'r pdcp_rx \<Rightarrow> 'r pdcp_rx run" where
  "apply_security env worker_idx ue_ok pdu_info s =
     seq_run (apply_deciphering_and_integrity_check env worker_idx (pdu_buf pdu_info) (pdu_count pdu_info) s)
     (\<lambda>(status, buf).
       if \<not> is_success status then post_ue_task ue_ok (Handle_failure status (pdu_count pdu_info)) s
       else
         seq_run (trim_head (if rxc_sn_size (rx_cfg s) = Size12bits then 2 else 3) buf) (\<lambda>buf.
         post_ue_task ue_ok (Reorder (pdu_info\<lparr>pdu_buf := buf, pdu_integrity_verified := (status = Success)\<rparr>)) s))"

definition handle_failure :: "security_status \<Rightarrow> 'r pdcp_rx \<Rightarrow> 'r pdcp_rx" where
  "handle_failure status s =
     (case status of
        Integrity_failure \<Rightarrow> rx_emit On_integrity_failure (rx_count (rxm_add_integrity_failed_pdus 1) s)
      | Ciphering_failure \<Rightarrow> rx_emit On_protocol_failure (rx_count (rxm_add_lost_pdus 1) s)
      | Buffer_failure \<Rightarrow> rx_emit On_protocol_failure (rx_count (rxm_add_lost_pdus 1) s)
      | Engine_failure \<Rightarrow> rx_emit On_protocol_failure (rx_count (rxm_add_lost_pdus 1) s)
      | Success \<Rightarrow> rx_emit On_protocol_failure (rx_count (rxm_add_lost_pdus 1) s)
      | Success_unprotected \<Rightarrow> rx_emit On_protocol_failure (rx_count (rxm_add_lost_pdus 1) s))"

text \<open>The two executors run a task: any one of the crypto tasks, and the first UE task.\<close>

definition run_crypto_task :: "'r pdcp_rx_env \<Rightarrow> nat \<Rightarrow> bool \<Rightarrow> nat \<Rightarrow> 'r pdcp_rx \<Rightarrow> 'r pdcp_rx run" where
  "run_crypto_task env worker_idx ue_ok i s =
     (if i < length (rx_crypto_tasks s) then
        apply_security env worker_idx ue_ok (rx_crypto_tasks s ! i)
          (s\<lparr>rx_crypto_tasks := take i (rx_crypto_tasks s) @ drop (Suc i) (rx_crypto_tasks s)\<rparr>)
      else Inr s)"

definition run_task :: "'r pdcp_rx_env \<Rightarrow> pdcp_rx_task \<Rightarrow> 'r pdcp_rx \<Rightarrow> 'r pdcp_rx run" where
  "run_task env t s =
     (case t of
        Handle_failure status count \<Rightarrow> Inr (handle_failure status s)
      | Reorder pdu_info \<Rightarrow>
          apply_reordering env pdu_info
            (if pdu_integrity_verified pdu_info
             then rx_count (rxm_add_integrity_verified_pdus 1) s
             else rx_count (rxm_add_integrity_unverified_pdus 1) s))"

definition run_ue_task :: "'r pdcp_rx_env \<Rightarrow> 'r pdcp_rx \<Rightarrow> 'r pdcp_rx run" where
  "run_ue_task env s =
     (case rx_ue_tasks s of
        [] \<Rightarrow> Inr s
      | t # ts \<Rightarrow> seq_run (run_task env t (s\<lparr>rx_ue_tasks := ts\<rparr>)) rx_return_token)"

section \<open>Reception\<close>

text \<open>The two limits on the COUNT: the notification to the RRC, and the hard limit.\<close>

definition check_max_count :: "u32 \<Rightarrow> 'r pdcp_rx \<Rightarrow> 'r pdcp_rx" where
  "check_max_count rcvd_count s =
     (let s = (if mc_notify (rxc_max_count (rx_cfg s)) < rcvd_count \<and> \<not> rx_max_count_notified s
               then (rx_emit On_max_count_reached s)\<lparr>rx_max_count_notified := True\<rparr> else s) in
      if mc_hard (rxc_max_count (rx_cfg s)) \<le> rcvd_count \<and> \<not> rx_max_count_overflow s
      then (rx_emit On_protocol_failure s)\<lparr>rx_max_count_overflow := True\<rparr> else s)"

text \<open>\<open>crypto_ok\<close> says whether the crypto executor accepts the task.\<close>

definition handle_data_pdu :: "bool \<Rightarrow> bytes \<Rightarrow> 'r pdcp_rx \<Rightarrow> 'r pdcp_rx run" where
  "handle_data_pdu crypto_ok pdu s =
     (let s = rx_count (rxm_add_data_pdus 1 (length pdu)) s in
      if length pdu \<le> rx_hdr_len s then Inr (rx_count (rxm_add_dropped_pdus 1) s)
      else case read_data_pdu_header (rxc_sn_size (rx_cfg s)) pdu of
        None \<Rightarrow> Inr (rx_count (rxm_add_dropped_pdus 1) s)
      | Some sn \<Rightarrow>
          (let rcvd_count = estimate_count (rxc_sn_size (rx_cfg s)) (rx_deliv (rx_st s)) sn;
               s = check_max_count rcvd_count s in
           if mc_hard (rxc_max_count (rx_cfg s)) \<le> rcvd_count then Inr s
           else
             let pdu_info = \<lparr>pdu_buf = pdu, pdu_count = rcvd_count, pdu_integrity_verified = False\<rparr>;
                 s = s\<lparr>rx_token_mngr := increment_token (rx_token_mngr s)\<rparr> in
             if crypto_ok then Inr (s\<lparr>rx_crypto_tasks := rx_crypto_tasks s @ [pdu_info]\<rparr>)
             else rx_return_token s))"

definition handle_control_pdu :: "bytes \<Rightarrow> 'r pdcp_rx \<Rightarrow> 'r pdcp_rx run" where
  "handle_control_pdu pdu s =
     (if pdcp_pdu_get_dc (hd pdu) \<noteq> Dc_control then Inl Bad_argument
      else case pdcp_control_pdu_get_cpt (hd pdu) of
        Status_report \<Rightarrow> Inr (rx_emit (On_status_report pdu) s)
      | Interspersed_rohc_feedback \<Rightarrow> Inr (rx_emit (On_rohc_feedback_received pdu) s)
      | _ \<Rightarrow> Inr (rx_count (rxm_add_dropped_pdus 1) s))"

record rx_choice =
  copy_ok :: bool
  crypto_ok :: bool

definition request_resume :: "'r pdcp_rx \<Rightarrow> 'r pdcp_rx" where
  "request_resume s =
     (if rx_suspended s \<and> \<not> rx_resume_requested s
      then rx_emit On_resume_required (s\<lparr>rx_resume_requested := True\<rparr>) else s)"

definition handle_pdu :: "rx_choice \<Rightarrow> bytes \<Rightarrow> 'r pdcp_rx \<Rightarrow> 'r pdcp_rx run" where
  "handle_pdu ch buf s =
     (if rx_stopped s then Inr (rx_count (rxm_add_dropped_pdus 1) s)
      else
        let s = request_resume s in
        if rx_buffering s then
          (let (pushed, b) = try_push buf (rx_pdu_buffer s) in
           if \<not> pushed then Inr (rx_count (rxm_add_dropped_pdus 1) s)
           else Inr (s\<lparr>rx_pdu_buffer := b\<rparr>))
        else
          let s = rx_count (rxm_add_pdus 1 (length buf)) s in
          if buf = [] then Inr (rx_count (rxm_add_dropped_pdus 1) s)
          else if \<not> copy_ok ch then Inr (rx_count (rxm_add_dropped_pdus 1) s)
          else if rx_is_srb s \<or> pdcp_pdu_get_dc (hd buf) = Dc_data then handle_data_pdu (crypto_ok ch) buf s
          else handle_control_pdu buf s)"

section \<open>Buffering, suspension and re-establishment\<close>

definition begin_buffering :: "'r pdcp_rx \<Rightarrow> 'r pdcp_rx" where
  "begin_buffering s = s\<lparr>rx_buffering := True\<rparr>"

text \<open>The loop of \<open>end_buffering\<close>; one round for each of the \<open>n\<close> buffered PDUs is enough.\<close>

fun flush_pdu_buffer :: "(nat \<Rightarrow> rx_choice) \<Rightarrow> nat \<Rightarrow> 'r pdcp_rx \<Rightarrow> 'r pdcp_rx run" where
  "flush_pdu_buffer ch 0 s = Inr s"
| "flush_pdu_buffer ch (Suc n) s =
     (if rb_empty (rx_pdu_buffer s) then Inr s
      else
        seq_run (rb_top (rx_pdu_buffer s)) (\<lambda>buf.
        seq_run (rb_pop (rx_pdu_buffer s)) (\<lambda>b.
        seq_run (handle_pdu (ch n) buf (s\<lparr>rx_pdu_buffer := b\<rparr>)) (flush_pdu_buffer ch n))))"

definition end_buffering :: "(nat \<Rightarrow> rx_choice) \<Rightarrow> 'r pdcp_rx \<Rightarrow> 'r pdcp_rx run" where
  "end_buffering ch s = flush_pdu_buffer ch (rb_count (rx_pdu_buffer s)) (s\<lparr>rx_buffering := False\<rparr>)"

definition rx_suspend :: "'r pdcp_rx_env \<Rightarrow> 'r pdcp_rx \<Rightarrow> (bool \<times> 'r pdcp_rx) run" where
  "rx_suspend env s =
     (if rx_suspended s then Inr (False, s)
      else if \<not> rx_buffering s then Inr (False, s)
      else seq_run (deliver_all_sdus env (rx_stop_timer s)) (\<lambda>s.
             Inr (True, s\<lparr>rx_st := zero_st, rx_suspended := True\<rparr>)))"

definition rx_resume :: "'r pdcp_rx \<Rightarrow> bool \<times> 'r pdcp_rx" where
  "rx_resume s =
     (if \<not> rx_suspended s then (False, s)
      else if \<not> rx_buffering s then (False, s)
      else (True, s\<lparr>rx_suspended := False, rx_resume_requested := False\<rparr>))"

definition sec_direction_of :: "pdcp_security_direction \<Rightarrow> security_direction" where
  "sec_direction_of d = (if d = Uplink then Sec_uplink else Sec_downlink)"

definition rx_configure_security ::
    "'r pdcp_rx_env \<Rightarrow> sec_128_as_config \<Rightarrow> integrity_enabled \<Rightarrow> ciphering_enabled \<Rightarrow> 'r pdcp_rx \<Rightarrow>
     'r pdcp_rx run" where
  "rx_configure_security env sec_cfg ie ce s =
     (if \<not> ((rx_is_srb s \<and> sec_domain sec_cfg = Rrc) \<or> (\<not> rx_is_srb s \<and> sec_domain sec_cfg = Up))
      then Inl Bad_argument
      else if \<not> (rx_is_srb s \<or> ie \<noteq> Smc_transition) then Inl Bad_argument
      else if ie \<noteq> Integ_off \<and> (k_128_int sec_cfg = None \<or> integ_algo sec_cfg = None) then Inr s
      else if ie = Integ_off \<and> rx_is_srb s then Inl Bad_argument
      else
        seq_run (security_engine_impl sec_cfg (rx_bearer_id s) (sec_direction_of (rxc_direction (rx_cfg s))) ie ce)
          (\<lambda>eng. Inr (s\<lparr>rx_integrity_enabled := ie, rx_ciphering_enabled := ce,
                     rx_sec_engines := replicate (env_nof_workers env) (Some eng)\<rparr>)))"

definition rx_reestablish :: "'r pdcp_rx_env \<Rightarrow> sec_128_as_config \<Rightarrow> 'r pdcp_rx \<Rightarrow> 'r pdcp_rx run" where
  "rx_reestablish env sec_cfg s =
     seq_run (if rx_is_srb s then discard_all_sdus s else Inr s) (\<lambda>s.
     seq_run
       (if rx_is_srb s \<or> rx_is_um s then
          (let s = (if rx_timer_running s then rx_stop_timer s else s) in
           if rx_is_um s then deliver_all_sdus env s else Inr s)
        else Inr s)
     (\<lambda>s.
       let s = init_header_decompression env s;
           s = (if rx_is_srb s \<or> rx_is_um s then s\<lparr>rx_st := zero_st\<rparr> else s) in
       rx_configure_security env sec_cfg (rx_integrity_enabled s) (rx_ciphering_enabled s) s))"

section \<open>Status report, COUNT transfer, start and stop\<close>

function pack_bitmap :: "pdcp_rx_sdu_info sdu_window \<Rightarrow> u32 \<Rightarrow> u32 \<Rightarrow> bit_encoder \<Rightarrow> bit_encoder" where
  "pack_bitmap w i bitmap_end enc =
     (if i < bitmap_end
      then pack_bitmap w (i + 1) bitmap_end (pack enc (if has_sn w i then 1 else 0) 1)
      else enc)"
  by auto
termination
  by (relation "measure (\<lambda>(w, i, e, enc). unat (e - i))") (auto simp: unat_diff_less)

declare pack_bitmap.simps [simp del]

definition bitmap_end_of :: "pdcp_rx_state \<Rightarrow> u32" where
  "bitmap_end_of st =
     (let max_bits = (9000 - 5) * 8; bitmap_begin = rx_deliv st + 1; bitmap_end = rx_next st in
      if bitmap_begin < bitmap_end \<and> max_bits < bitmap_end - bitmap_begin
      then bitmap_begin + max_bits else bitmap_end)"

definition compile_status_report :: "'r pdcp_rx \<Rightarrow> bytes" where
  "compile_status_report s =
     (let enc = encoder_init [];
          enc = pack enc (ucast (dc_to_number Dc_control)) 1;
          enc = pack enc (ucast (cpt_to_number Status_report)) 3;
          enc = pack enc 0 4;
          enc = pack enc (ucast (rx_deliv (rx_st s))) 32 in
      enc_bytes (pack_bitmap (rx_window s) (rx_deliv (rx_st s) + 1) (bitmap_end_of (rx_st s)) enc))"

record pdcp_count_info =
  ci_sn :: u32
  ci_hfn :: u32

definition rx_get_count :: "'r pdcp_rx \<Rightarrow> pdcp_count_info" where
  "rx_get_count s =
     (let count = rx_deliv (rx_st s); z = rxc_sn_size (rx_cfg s) in
      \<lparr>ci_sn = pdcp_compute_sn count z, ci_hfn = pdcp_compute_hfn count z\<rparr>)"

definition rx_set_count :: "pdcp_count_info \<Rightarrow> 'r pdcp_rx \<Rightarrow> 'r pdcp_rx" where
  "rx_set_count ci s =
     (let count = pdcp_compute_count (ci_hfn ci) (ci_sn ci) (rxc_sn_size (rx_cfg s)) in
      s\<lparr>rx_st := \<lparr>rx_next = count, rx_deliv = count, rx_reord = count\<rparr>\<rparr>)"

definition rx_stop :: "'r pdcp_rx \<Rightarrow> 'r pdcp_rx run" where
  "rx_stop s =
     (if \<not> rx_stopped s then
        (let s = rx_stop_timer (s\<lparr>rx_stopped := True\<rparr>) in
         seq_run (tm_stop (rx_token_mngr s)) (\<lambda>m. Inr (s\<lparr>rx_token_mngr := m\<rparr>)))
      else Inr s)"

definition rx_notify_pdu_processing_stopped :: "'r pdcp_rx \<Rightarrow> 'r pdcp_rx run" where
  "rx_notify_pdu_processing_stopped s =
     (if \<not> rx_stopped s
      then seq_run (tm_stop (rx_token_mngr s)) (\<lambda>m. Inr (s\<lparr>rx_token_mngr := m\<rparr>))
      else Inr s)"

definition rx_restart_pdu_processing :: "'r pdcp_rx \<Rightarrow> 'r pdcp_rx" where
  "rx_restart_pdu_processing s =
     (if \<not> rx_stopped s then s\<lparr>rx_token_mngr := tm_start (rx_token_mngr s)\<rparr> else s)"

text \<open>The constructor; ROHC on an SRB is reported as an error.\<close>

definition pdcp_entity_rx :: "'r pdcp_rx_env \<Rightarrow> pdcp_rx_config \<Rightarrow> u8 \<Rightarrow> bool \<Rightarrow> 'r pdcp_rx run" where
  "pdcp_entity_rx env cfg bearer_id metrics_enabled =
     seq_run (win_create (unat (pdcp_window_size_of_bits (pdcp_sn_size_to_uint (rxc_sn_size cfg))))) (\<lambda>w.
     if rxc_rb_type cfg = Srb \<and> rxc_header_compression cfg then Inl Bad_argument
     else Inr (init_header_decompression env
       \<lparr>rx_cfg = cfg, rx_bearer_id = bearer_id, rx_stopped = False, rx_rohc = None,
        rx_sec_engines = replicate (env_nof_workers env) None,
        rx_integrity_enabled = Integ_off, rx_ciphering_enabled = Cipher_off,
        rx_st = zero_st, rx_window = w, rx_timer_running = False, rx_token_mngr = tm_init,
        rx_buffering = False, rx_suspended = False, rx_resume_requested = False,
        rx_pdu_buffer = rb_create 2048, rx_max_count_notified = False, rx_max_count_overflow = False,
        rx_metrics = rx_metrics_init metrics_enabled, rx_crypto_tasks = [], rx_ue_tasks = [],
        rx_outbox = []\<rparr>))"

end
