(* ===== verification/Pdcp_Rx_Delivery.thy ===== *)
theory Pdcp_Rx_Delivery
  imports Pdcp_Rx "HOL-Library.Sublist"
begin

text \<open>
  What the delivery loops of the receiving entity do: a relation \<open>rx_gave lo hi s s'\<close> says that
  exactly the SDUs stored for the COUNTs from \<open>lo\<close> up to \<open>hi\<close> have left the window, that they
  went to the upper layers in ascending order (all of them when no ROHC decompressor is in the
  way, a subsequence otherwise), and that nothing else changed. Each loop establishes it.
\<close>

section \<open>Deliveries\<close>

definition stored :: "'r pdcp_rx \<Rightarrow> u32 \<Rightarrow> pdcp_rx_sdu_info option" where
  "stored s c = win_find (rx_window s) c"

definition win_ok :: "'r pdcp_rx \<Rightarrow> bool" where
  "win_ok s \<longleftrightarrow> win_wf (rx_window s) \<and> (\<forall>c i. stored s c = Some i \<longrightarrow> sdu_count i = c)"

text \<open>The COUNTs of the SDUs a list of events passes up.\<close>

fun delivered :: "pdcp_rx_event list \<Rightarrow> nat list" where
  "delivered [] = []"
| "delivered (On_new_sdu c buf iv # es) = unat c # delivered es"
| "delivered (_ # es) = delivered es"

lemma delivered_append [simp]: "delivered (es @ fs) = delivered es @ delivered fs"
  by (induction es rule: delivered.induct) simp_all

definition sdu_event :: "pdcp_rx_sdu_info \<Rightarrow> pdcp_rx_event" where
  "sdu_event i = On_new_sdu (sdu_count i) (sdu_buf i) (sdu_integrity_verified i)"

definition stored_counts :: "'r pdcp_rx \<Rightarrow> nat \<Rightarrow> nat \<Rightarrow> nat list" where
  "stored_counts s lo hi = filter (\<lambda>n. stored s (word_of_nat n) \<noteq> None) [lo ..< hi]"

definition stored_events :: "'r pdcp_rx \<Rightarrow> nat \<Rightarrow> nat \<Rightarrow> pdcp_rx_event list" where
  "stored_events s lo hi = map (\<lambda>n. sdu_event (the (stored s (word_of_nat n)))) (stored_counts s lo hi)"

text \<open>The part of the state that delivery does not touch.\<close>

definition rx_core :: "'r pdcp_rx \<Rightarrow> 'r pdcp_rx" where
  "rx_core s = s\<lparr>rx_rohc := None, rx_st := zero_st, rx_metrics := rx_metrics_init False, rx_outbox := [],
     rx_window := \<lparr>win_map = \<lparr>cm_max_size = 0, cm_data = Map.empty, cm_count = 0\<rparr>\<rparr>\<rparr>"

lemma rx_core_fields:
  assumes "rx_core s' = rx_core s"
  shows "rx_cfg s' = rx_cfg s" "rx_bearer_id s' = rx_bearer_id s" "rx_stopped s' = rx_stopped s"
    "rx_sec_engines s' = rx_sec_engines s" "rx_integrity_enabled s' = rx_integrity_enabled s"
    "rx_ciphering_enabled s' = rx_ciphering_enabled s" "rx_timer_running s' = rx_timer_running s"
    "rx_token_mngr s' = rx_token_mngr s" "rx_buffering s' = rx_buffering s" "rx_suspended s' = rx_suspended s"
    "rx_resume_requested s' = rx_resume_requested s" "rx_pdu_buffer s' = rx_pdu_buffer s"
    "rx_max_count_notified s' = rx_max_count_notified s" "rx_max_count_overflow s' = rx_max_count_overflow s"
    "rx_crypto_tasks s' = rx_crypto_tasks s" "rx_ue_tasks s' = rx_ue_tasks s"
  using assms by (cases s; cases s'; simp add: rx_core_def)+

definition rx_gave :: "nat \<Rightarrow> nat \<Rightarrow> 'r pdcp_rx \<Rightarrow> 'r pdcp_rx \<Rightarrow> bool" where
  "rx_gave lo hi s s' \<longleftrightarrow>
     rx_core s' = rx_core s \<and> win_ok s' \<and> win_width (rx_window s') = win_width (rx_window s) \<and>
     (\<forall>c. stored s' c = (if lo \<le> unat c \<and> unat c < hi then None else stored s c)) \<and>
     (\<exists>evs. rx_outbox s' = rx_outbox s @ evs \<and> subseq (delivered evs) (stored_counts s lo hi) \<and>
        (rx_rohc s = None \<longrightarrow> rx_rohc s' = None \<and> evs = stored_events s lo hi))"

lemma rx_gave_refl: "win_ok s \<Longrightarrow> rx_gave n n s s"
  by (auto simp: rx_gave_def stored_counts_def stored_events_def)

lemma stored_counts_split:
  assumes "a \<le> b" "b \<le> c"
  shows "stored_counts s a c = stored_counts s a b @ stored_counts s b c"
  using upt_add_eq_append [OF assms(1), of "c - b"] assms(2) by (simp add: stored_counts_def)

lemma unat_of_nat_bound: "n < 4294967296 \<Longrightarrow> unat (word_of_nat n :: u32) = n"
  by (simp add: unat_of_nat)

lemma stored_counts_later:
  assumes "\<And>c. b \<le> unat c \<Longrightarrow> stored t c = stored s c" and "hi \<le> 4294967296"
  shows "stored_counts t b hi = stored_counts s b hi"
  unfolding stored_counts_def by (rule filter_cong) (use assms in \<open>auto simp: unat_of_nat_bound\<close>)

lemma stored_events_later:
  assumes eq: "\<And>c. b \<le> unat c \<Longrightarrow> stored t c = stored s c" and hi: "hi \<le> 4294967296"
  shows "stored_events t b hi = stored_events s b hi"
proof -
  have "stored t (word_of_nat n) = stored s (word_of_nat n)" if "n \<in> set (stored_counts s b hi)" for n
    using that eq hi by (auto simp: stored_counts_def unat_of_nat_bound)
  then show ?thesis by (simp add: stored_events_def stored_counts_later [OF assms])
qed

lemma rx_gave_trans:
  assumes st: "rx_gave a b s t" and tu: "rx_gave b c t u" and le: "a \<le> b" "b \<le> c" "c \<le> 4294967296"
  shows "rx_gave a c s u"
proof -
  obtain e1 where e1: "rx_outbox t = rx_outbox s @ e1" "subseq (delivered e1) (stored_counts s a b)"
    "rx_rohc s = None \<longrightarrow> rx_rohc t = None \<and> e1 = stored_events s a b"
    using st by (auto simp: rx_gave_def)
  obtain e2 where e2: "rx_outbox u = rx_outbox t @ e2" "subseq (delivered e2) (stored_counts t b c)"
    "rx_rohc t = None \<longrightarrow> rx_rohc u = None \<and> e2 = stored_events t b c"
    using tu by (auto simp: rx_gave_def)
  have later: "b \<le> unat k \<Longrightarrow> stored t k = stored s k" for k using st by (auto simp: rx_gave_def)
  have "rx_outbox u = rx_outbox s @ e1 @ e2" using e1 e2 by simp
  moreover have "subseq (delivered (e1 @ e2)) (stored_counts s a c)"
    unfolding stored_counts_split [OF le(1,2)] delivered_append
    using e1(2) e2(2) stored_counts_later [of b t s, OF later le(3)] by (simp add: list_emb_append_mono)
  moreover have "rx_rohc s = None \<longrightarrow> rx_rohc u = None \<and> e1 @ e2 = stored_events s a c"
    using e1(3) e2(3) stored_events_later [of b t s, OF later le(3)]
    by (simp add: stored_events_def stored_counts_split [OF le(1,2)])
  moreover have "stored u k = (if a \<le> unat k \<and> unat k < c then None else stored s k)" for k
    using st tu le by (auto simp: rx_gave_def)
  ultimately show ?thesis using st tu unfolding rx_gave_def by auto
qed

section \<open>One SDU\<close>

lemma apply_header_decompression_core:
  assumes "apply_header_decompression env buf s = (ok, buf', s')"
  shows "rx_core s' = rx_core s \<and> rx_st s' = rx_st s \<and> rx_window s' = rx_window s \<and>
    (\<exists>evs. rx_outbox s' = rx_outbox s @ evs \<and> delivered evs = []) \<and>
    (rx_rohc s = None \<longrightarrow> ok \<and> buf' = buf \<and> s' = s)"
  using assms
  by (auto simp: apply_header_decompression_def rx_core_def rx_count_def rx_emit_def Let_def
      split: option.splits prod.splits if_splits)

lemma deliver_sdu_effect:
  "rx_core (deliver_sdu env i s) = rx_core s \<and> rx_window (deliver_sdu env i s) = rx_window s \<and>
   (\<exists>evs. rx_outbox (deliver_sdu env i s) = rx_outbox s @ evs \<and>
      (delivered evs = [] \<or> delivered evs = [unat (sdu_count i)]) \<and>
      (rx_rohc s = None \<longrightarrow> rx_rohc (deliver_sdu env i s) = None \<and> evs = [sdu_event i]))"
proof -
  obtain ok buf t where h: "apply_header_decompression env (sdu_buf i) s = (ok, buf, t)" by (metis prod_cases3)
  note c = apply_header_decompression_core [OF h]
  have core: "rx_core (rx_emit e (rx_count f t)) = rx_core t" for e f
    by (simp add: rx_core_def rx_emit_def rx_count_def)
  show ?thesis
  proof (cases ok)
    case False
    then show ?thesis using c by (auto simp: deliver_sdu_def h)
  next
    case True
    then have d: "deliver_sdu env i s = rx_emit (On_new_sdu (sdu_count i) buf (sdu_integrity_verified i))
        (rx_count (rxm_add_reordering_delay o rxm_add_sdus 1 (length buf)) t)"
      by (simp add: deliver_sdu_def h)
    obtain evs where evs: "rx_outbox t = rx_outbox s @ evs" "delivered evs = []" using c by blast
    have "rx_outbox (deliver_sdu env i s) = rx_outbox s @ (evs @ [On_new_sdu (sdu_count i) buf (sdu_integrity_verified i)])"
      by (simp add: d evs rx_emit_def rx_count_def)
    moreover have "rx_rohc s = None \<longrightarrow> evs = [] \<and> buf = sdu_buf i \<and> rx_rohc (deliver_sdu env i s) = None"
      using c evs by (auto simp: d rx_emit_def rx_count_def)
    moreover have "rx_window (deliver_sdu env i s) = rx_window s"
      using c by (simp add: d rx_emit_def rx_count_def)
    moreover have "rx_core (deliver_sdu env i s) = rx_core s" using c by (simp only: d core)
    ultimately show ?thesis using evs(2)
      by (intro conjI exI [of _ "evs @ [On_new_sdu (sdu_count i) buf (sdu_integrity_verified i)]"])
         (auto simp: sdu_event_def)
  qed
qed

lemma stored_counts_one:
  "stored_counts s (unat c) (unat c + 1) = (if stored s c = None then [] else [unat c])"
  by (simp add: stored_counts_def)

lemma deliver_at_gave:
  assumes ok: "win_ok s" and has: "has_sn (rx_window s) c"
  shows "\<exists>s'. deliver_at env c s = Inr s' \<and> rx_gave (unat c) (unat c + 1) s s' \<and> rx_st s' = rx_st s"
proof -
  obtain i where i: "win_find (rx_window s) c = Some i" using has by (auto simp: has_sn_find)
  have ic: "sdu_count i = c" using ok i by (simp add: win_ok_def stored_def)
  let ?t = "deliver_sdu env i s"
  let ?s' = "?t\<lparr>rx_window := win_del c (rx_window s)\<rparr>"
  obtain evs where evs: "rx_outbox ?t = rx_outbox s @ evs" "delivered evs = [] \<or> delivered evs = [unat (sdu_count i)]"
    "rx_rohc s = None \<longrightarrow> rx_rohc ?t = None \<and> evs = [sdu_event i]"
    using deliver_sdu_effect [of env i s] by (elim conjE exE) (rule that)
  have core: "rx_core ?t = rx_core s" and w: "rx_window ?t = rx_window s"
    using deliver_sdu_effect [of env i s] by simp_all
  have wf: "win_wf (rx_window s)" using ok by (simp add: win_ok_def)
  have "deliver_at env c s = Inr ?s'"
    using has by (simp add: deliver_at_def win_at_find i remove_sn_del w Let_def)
  moreover have find: "stored ?s' k = (if k = c then None else stored s k)" for k
    by (simp add: stored_def win.look_del [OF wf])
  have "rx_gave (unat c) (unat c + 1) s ?s'"
    unfolding rx_gave_def
  proof (intro conjI allI exI [of _ evs] impI)
    show "rx_core ?s' = rx_core s" using core by (simp add: rx_core_def)
    show "win_ok ?s'" using ok find win.wf_del [OF wf] by (auto simp: win_ok_def)
    show "win_width (rx_window ?s') = win_width (rx_window s)" by (simp add: win.width_del)
    show "stored ?s' k = (if unat c \<le> unat k \<and> unat k < unat c + 1 then None else stored s k)" for k
      by (auto simp: find word_unat_eq_iff)
    show "rx_outbox ?s' = rx_outbox s @ evs" using evs(1) by simp
    show "subseq (delivered evs) (stored_counts s (unat c) (unat c + 1))"
      using evs(2) by (auto simp: stored_counts_one stored_def i ic simp del: One_nat_def add_Suc_right)
    assume "rx_rohc s = None"
    then show "rx_rohc ?s' = None" "evs = stored_events s (unat c) (unat c + 1)"
      using evs(3) by (simp_all add: stored_events_def stored_counts_one stored_def i del: One_nat_def)
  qed
  ultimately show ?thesis by auto
qed

lemma skip_gave:
  assumes "win_ok s" and "\<not> has_sn (rx_window s) c"
  shows "rx_gave (unat c) (unat c + 1) s s"
proof -
  have "unat c \<le> unat k \<and> unat k < unat c + 1 \<longleftrightarrow> k = c" for k by (auto simp: word_unat_eq_iff)
  then show ?thesis using assms
    by (simp add: rx_gave_def stored_def has_sn_find stored_counts_one stored_events_def del: One_nat_def add_Suc_right)
qed

section \<open>The loops\<close>

lemma rx_gave_advance [simp]: "rx_gave a b s (advance_deliv t) = rx_gave a b s t"
  by (simp add: rx_gave_def advance_deliv_def rx_core_def stored_def win_ok_def)

lemma advance_simps [simp]:
  "rx_window (advance_deliv s) = rx_window s" "stored (advance_deliv s) = stored s" "win_ok (advance_deliv s) = win_ok s"
  "rx_next (rx_st (advance_deliv s)) = rx_next (rx_st s)" "rx_reord (rx_st (advance_deliv s)) = rx_reord (rx_st s)"
  "rx_deliv (rx_st (advance_deliv s)) = rx_deliv (rx_st s) + 1"
  by (simp_all add: advance_deliv_def stored_def win_ok_def fun_eq_iff)

lemma rx_gave_ok: "rx_gave a b s t \<Longrightarrow> win_ok t"
  by (simp add: rx_gave_def)

abbreviation dlv :: "'r pdcp_rx \<Rightarrow> nat" where
  "dlv s \<equiv> unat (rx_deliv (rx_st s))"

abbreviation nxt :: "'r pdcp_rx \<Rightarrow> nat" where
  "nxt s \<equiv> unat (rx_next (rx_st s))"

abbreviation reord :: "'r pdcp_rx \<Rightarrow> nat" where
  "reord s \<equiv> unat (rx_reord (rx_st s))"

text \<open>One round of a loop: deliver what is stored at RX\_DELIV, if anything, and advance.\<close>

lemma loop_round:
  fixes limit :: u32
  assumes ok: "win_ok s" and lt: "dlv s < unat limit"
  shows "\<exists>t. (if has_sn (rx_window s) (rx_deliv (rx_st s)) then deliver_at env (rx_deliv (rx_st s)) s else Inr s) = Inr t \<and>
    rx_gave (dlv s) (dlv s + 1) s (advance_deliv t) \<and> dlv (advance_deliv t) = dlv s + 1 \<and>
    rx_next (rx_st t) = rx_next (rx_st s) \<and> rx_reord (rx_st t) = rx_reord (rx_st s)"
proof -
  have u: "unat (rx_deliv (rx_st s) + 1) = dlv s + 1" by (rule unat_add_one [where b = limit]) (use lt in \<open>simp add: word_less_nat_alt\<close>)
  show ?thesis
  proof (cases "has_sn (rx_window s) (rx_deliv (rx_st s))")
    case True
    with deliver_at_gave [OF ok True, of env] u show ?thesis by auto
  next
    case False
    with skip_gave [OF ok False] u show ?thesis by auto
  qed
qed

lemma unat_less_bound: "unat (w :: u32) \<le> 4294967296"
  using unat_u32_less [of w] by linarith

lemma deliver_all_consecutive_counts_gave:
  assumes "win_ok s" and "dlv s \<le> nxt s"
  shows "\<exists>s'. deliver_all_consecutive_counts env s = Inr s' \<and> rx_gave (dlv s) (dlv s') s s' \<and>
    rx_next (rx_st s') = rx_next (rx_st s) \<and> rx_reord (rx_st s') = rx_reord (rx_st s) \<and>
    dlv s \<le> dlv s' \<and> dlv s' \<le> nxt s \<and>
    (\<forall>c. dlv s \<le> unat c \<longrightarrow> unat c < dlv s' \<longrightarrow> stored s c \<noteq> None) \<and>
    (dlv s' = nxt s \<or> stored s' (rx_deliv (rx_st s')) = None)"
  using assms
proof (induction env s rule: deliver_all_consecutive_counts.induct)
  case (1 env s)
  show ?case
  proof (cases "rx_deliv (rx_st s) \<noteq> rx_next (rx_st s) \<and> has_sn (rx_window s) (rx_deliv (rx_st s))")
    case False
    then show ?thesis using 1(2,3) rx_gave_refl [OF 1(2)]
      by (subst deliver_all_consecutive_counts.simps) (auto simp: has_sn_find stored_def)
  next
    case True
    then have lt: "dlv s < nxt s" using 1(3) by (simp add: word_unat_eq_iff)
    obtain t where t: "deliver_at env (rx_deliv (rx_st s)) s = Inr t"
      "rx_gave (dlv s) (dlv s + 1) s (advance_deliv t)" "dlv (advance_deliv t) = dlv s + 1"
      "rx_next (rx_st t) = rx_next (rx_st s)" "rx_reord (rx_st t) = rx_reord (rx_st s)"
      using loop_round [OF 1(2) lt, of env] True by auto
    have "win_ok (advance_deliv t)" using t(2) rx_gave_ok by blast
    then obtain s' where s': "deliver_all_consecutive_counts env (advance_deliv t) = Inr s'"
      "rx_gave (dlv s + 1) (dlv s') (advance_deliv t) s'"
      "rx_next (rx_st s') = rx_next (rx_st s)" "rx_reord (rx_st s') = rx_reord (rx_st s)"
      "dlv s + 1 \<le> dlv s'" "dlv s' \<le> nxt s"
      "\<forall>c. dlv s + 1 \<le> unat c \<longrightarrow> unat c < dlv s' \<longrightarrow> stored (advance_deliv t) c \<noteq> None"
      "dlv s' = nxt s \<or> stored s' (rx_deliv (rx_st s')) = None"
      using 1(1) [OF True t(1)] t(3,4,5) lt by auto
    have "rx_gave (dlv s) (dlv s') s s'"
      using rx_gave_trans [OF t(2) s'(2)] s'(5) unat_less_bound by simp
    moreover have "stored s c \<noteq> None" if "dlv s \<le> unat c" "unat c < dlv s'" for c
    proof (cases "unat c = dlv s")
      case True': True
      then show ?thesis using True by (simp add: has_sn_find stored_def word_unat_eq_iff [symmetric])
    next
      case False
      then have "stored (advance_deliv t) c \<noteq> None" using s'(7) that by auto
      then show ?thesis using t(2) by (auto simp: rx_gave_def split: if_splits)
    qed
    ultimately show ?thesis using s' True t(1)
      by (subst deliver_all_consecutive_counts.simps) auto
  qed
qed

lemma deliver_until_reord_gave:
  assumes "win_ok s" and "dlv s \<le> reord s"
  shows "\<exists>s'. deliver_until_reord env s = Inr s' \<and> rx_gave (dlv s) (reord s) s s' \<and>
    rx_next (rx_st s') = rx_next (rx_st s) \<and> rx_reord (rx_st s') = rx_reord (rx_st s) \<and>
    rx_deliv (rx_st s') = rx_reord (rx_st s)"
  using assms
proof (induction env s rule: deliver_until_reord.induct)
  case (1 env s)
  show ?case
  proof (cases "rx_deliv (rx_st s) \<noteq> rx_reord (rx_st s)")
    case False
    then show ?thesis using rx_gave_refl [OF 1(2)] by (subst deliver_until_reord.simps) auto
  next
    case True
    then have lt: "dlv s < reord s" using 1(3) by (simp add: word_unat_eq_iff)
    obtain t where t: "(if has_sn (rx_window s) (rx_deliv (rx_st s)) then deliver_at env (rx_deliv (rx_st s)) s else Inr s) = Inr t"
      "rx_gave (dlv s) (dlv s + 1) s (advance_deliv t)" "dlv (advance_deliv t) = dlv s + 1"
      "rx_next (rx_st t) = rx_next (rx_st s)" "rx_reord (rx_st t) = rx_reord (rx_st s)"
      using loop_round [OF 1(2) lt, of env] by blast
    have "win_ok (advance_deliv t)" using t(2) rx_gave_ok by blast
    then obtain s' where s': "deliver_until_reord env (advance_deliv t) = Inr s'"
      "rx_gave (dlv s + 1) (reord s) (advance_deliv t) s'"
      "rx_next (rx_st s') = rx_next (rx_st s)" "rx_reord (rx_st s') = rx_reord (rx_st s)"
      "rx_deliv (rx_st s') = rx_reord (rx_st s)"
      using 1(1) [OF True t(1)] t(3,4,5) lt by auto
    have "rx_gave (dlv s) (reord s) s s'"
      using rx_gave_trans [OF t(2) s'(2)] lt unat_less_bound by simp
    then show ?thesis using s' True t(1) by (subst deliver_until_reord.simps) auto
  qed
qed

end
