(* ===== verification/Pdcp_Rx_Inv.thy ===== *)
theory Pdcp_Rx_Inv
  imports Pdcp_Rx_Delivery
begin

text \<open>
  The invariant of the receiving entity and its preservation by every operation, the effect of
  one received PDU and of one expiry of t-Reordering, and the step relation in which the crypto
  workers finish their tasks in any order.
\<close>

section \<open>The invariant\<close>

text \<open>
  The hard limit on the COUNT leaves at least one SN period below \<open>2\<^sup>3\<^sup>2\<close>, as the default
  (\<open>0xd0000000\<close>) does.
\<close>

definition rx_cfg_ok :: "pdcp_rx_config \<Rightarrow> bool" where
  "rx_cfg_ok cfg \<longleftrightarrow> sn_size_ok (rxc_sn_size cfg) \<and>
     unat (mc_hard (rxc_max_count cfg)) + 2 ^ sn_bits (rxc_sn_size cfg) \<le> 2 ^ 32"

abbreviation rx_hard :: "'r pdcp_rx \<Rightarrow> nat" where
  "rx_hard s \<equiv> unat (mc_hard (rxc_max_count (rx_cfg s)))"

abbreviation rx_win_nat :: "'r pdcp_rx \<Rightarrow> nat" where
  "rx_win_nat s \<equiv> window_nat (rxc_sn_size (rx_cfg s))"

fun task_counts :: "pdcp_rx_task list \<Rightarrow> u32 list" where
  "task_counts [] = []"
| "task_counts (Reorder i # ts) = pdu_count i # task_counts ts"
| "task_counts (Handle_failure st c # ts) = task_counts ts"

lemma task_counts_append [simp]: "task_counts (ts @ us) = task_counts ts @ task_counts us"
  by (induction ts rule: task_counts.induct) simp_all

text \<open>The COUNTs of the PDUs that have passed the COUNT checks and wait in an executor.\<close>

definition pending_counts :: "'r pdcp_rx \<Rightarrow> u32 list" where
  "pending_counts s = map pdu_count (rx_crypto_tasks s) @ task_counts (rx_ue_tasks s)"

definition count_ok :: "'r pdcp_rx \<Rightarrow> u32 \<Rightarrow> bool" where
  "count_ok s c \<longleftrightarrow> unat c < rx_hard s \<and> unat c < dlv s + rx_win_nat s"

definition rx_bounds :: "'r pdcp_rx \<Rightarrow> bool" where
  "rx_bounds s \<longleftrightarrow> rx_cfg_ok (rx_cfg s) \<and> win_ok s \<and> win_width (rx_window s) = rx_win_nat s \<and>
     dlv s \<le> nxt s \<and> nxt s \<le> rx_hard s \<and>
     (\<forall>c. stored s c \<noteq> None \<longrightarrow> dlv s \<le> unat c \<and> unat c < nxt s \<and> unat c < dlv s + rx_win_nat s) \<and>
     (\<forall>c \<in> set (pending_counts s). count_ok s c)"

text \<open>
  A running timer has its target within the window; with a finite non-zero t-Reordering, it runs
  whenever a PDU is missing; with 0 ms nothing is ever held back.
\<close>

definition rx_timer_ok :: "'r pdcp_rx \<Rightarrow> bool" where
  "rx_timer_ok s \<longleftrightarrow>
     (rx_timer_running s \<longrightarrow> dlv s < reord s \<and> reord s \<le> nxt s \<and> (\<exists>n > 0. rxc_t_reordering (rx_cfg s) = Ms n)) \<and>
     (rxc_t_reordering (rx_cfg s) = Ms 0 \<longrightarrow> dlv s = nxt s) \<and>
     (\<forall>n > 0. rxc_t_reordering (rx_cfg s) = Ms n \<longrightarrow> dlv s < nxt s \<longrightarrow> rx_timer_running s \<or> rx_stopped s)"

definition rx_inv :: "'r pdcp_rx \<Rightarrow> bool" where
  "rx_inv s \<longleftrightarrow> rx_bounds s \<and> stored s (rx_deliv (rx_st s)) = None \<and> rx_timer_ok s"

lemma rx_invD:
  assumes "rx_inv s"
  shows "rx_bounds s" "stored s (rx_deliv (rx_st s)) = None" "rx_timer_ok s" "win_ok s" "dlv s \<le> nxt s"
  using assms by (auto simp: rx_inv_def rx_bounds_def)

section \<open>Delivery keeps the bounds\<close>

lemma rx_gave_count [simp]:
  "rx_gave a b (rx_count f s) u = rx_gave a b s u" "rx_gave a b s (rx_count f u) = rx_gave a b s u"
  by (simp_all add: rx_gave_def rx_count_def rx_core_def stored_def win_ok_def stored_counts_def stored_events_def)

lemma rx_count_simps [simp]:
  "rx_st (rx_count f s) = rx_st s" "rx_window (rx_count f s) = rx_window s" "rx_cfg (rx_count f s) = rx_cfg s"
  "rx_outbox (rx_count f s) = rx_outbox s" "rx_rohc (rx_count f s) = rx_rohc s"
  "rx_timer_running (rx_count f s) = rx_timer_running s" "rx_stopped (rx_count f s) = rx_stopped s"
  "rx_crypto_tasks (rx_count f s) = rx_crypto_tasks s" "rx_ue_tasks (rx_count f s) = rx_ue_tasks s"
  "rx_token_mngr (rx_count f s) = rx_token_mngr s" "stored (rx_count f s) = stored s" "win_ok (rx_count f s) = win_ok s"
  by (simp_all add: rx_count_def stored_def win_ok_def fun_eq_iff)

lemma rx_bounds_count [simp]: "rx_bounds (rx_count f s) = rx_bounds s"
  by (simp add: rx_bounds_def pending_counts_def count_ok_def)

lemma rx_inv_count [simp]: "rx_inv (rx_count f s) = rx_inv s"
  by (simp add: rx_inv_def rx_timer_ok_def)

text \<open>
  \<open>moved s u\<close>: RX\_DELIV went from its value in \<open>s\<close> to that in \<open>u\<close>, and the SDUs in between left.
\<close>

definition moved :: "'r pdcp_rx \<Rightarrow> 'r pdcp_rx \<Rightarrow> bool" where
  "moved s u \<longleftrightarrow> rx_gave (dlv s) (dlv u) s u \<and> rx_next (rx_st u) = rx_next (rx_st s) \<and>
     dlv s \<le> dlv u \<and> dlv u \<le> nxt s"

lemma moved_core: "moved s u \<Longrightarrow> rx_core u = rx_core s"
  by (simp add: moved_def rx_gave_def)

lemma moved_stored:
  "moved s u \<Longrightarrow> stored u c = (if dlv s \<le> unat c \<and> unat c < dlv u then None else stored s c)"
  by (simp add: moved_def rx_gave_def)

lemma moved_trans: "moved s t \<Longrightarrow> moved t u \<Longrightarrow> moved s u"
  using rx_gave_trans [of "dlv s" "dlv t" s t "dlv u" u] unat_less_bound by (simp add: moved_def)

lemma rx_bounds_moved:
  assumes "rx_bounds s" and "moved s u"
  shows "rx_bounds u"
proof -
  note f = rx_core_fields [OF moved_core [OF assms(2)]]
  have w: "win_ok u" "win_width (rx_window u) = win_width (rx_window s)" "dlv s \<le> dlv u" "nxt u = nxt s" "dlv u \<le> nxt s"
    using assms(2) by (simp_all add: moved_def rx_gave_def)
  show ?thesis unfolding rx_bounds_def
  proof (intro conjI allI impI ballI)
    fix c assume "stored u c \<noteq> None"
    then have "stored s c \<noteq> None" "\<not> (dlv s \<le> unat c \<and> unat c < dlv u)"
      by (auto simp: moved_stored [OF assms(2)] split: if_splits)
    moreover then have "dlv s \<le> unat c \<and> unat c < nxt s \<and> unat c < dlv s + rx_win_nat s"
      using assms(1) by (simp add: rx_bounds_def)
    ultimately show "dlv u \<le> unat c" "unat c < nxt u" "unat c < dlv u + rx_win_nat u" using w f by auto
  next
    fix c assume "c \<in> set (pending_counts u)"
    then have "count_ok s c" using assms(1) f by (auto simp: rx_bounds_def pending_counts_def)
    then show "count_ok u c" using w f by (auto simp: count_ok_def)
  qed (use assms(1) w f in \<open>auto simp: rx_bounds_def\<close>)
qed

lemma consecutive_moved:
  assumes "rx_bounds s"
  shows "\<exists>u. deliver_all_consecutive_counts env s = Inr u \<and> moved s u \<and> rx_reord (rx_st u) = rx_reord (rx_st s) \<and>
    stored u (rx_deliv (rx_st u)) = None \<and>
    (\<forall>c. dlv s \<le> unat c \<longrightarrow> unat c < dlv u \<longrightarrow> stored s c \<noteq> None)"
proof -
  have s: "win_ok s" "dlv s \<le> nxt s" using assms by (simp_all add: rx_bounds_def)
  obtain u where u: "deliver_all_consecutive_counts env s = Inr u" "rx_gave (dlv s) (dlv u) s u"
    "rx_next (rx_st u) = rx_next (rx_st s)" "rx_reord (rx_st u) = rx_reord (rx_st s)" "dlv s \<le> dlv u" "dlv u \<le> nxt s"
    "\<forall>c. dlv s \<le> unat c \<longrightarrow> unat c < dlv u \<longrightarrow> stored s c \<noteq> None"
    "dlv u = nxt s \<or> stored u (rx_deliv (rx_st u)) = None"
    using deliver_all_consecutive_counts_gave [OF s, of env] by blast
  have m: "moved s u" using u by (simp add: moved_def)
  have "stored u (rx_deliv (rx_st u)) = None" if "dlv u = nxt s"
  proof (rule ccontr)
    assume "stored u (rx_deliv (rx_st u)) \<noteq> None"
    then have "dlv u < nxt u" using rx_bounds_moved [OF assms m] unfolding rx_bounds_def by blast
    then show False using that u(3) by simp
  qed
  then show ?thesis using u m by auto
qed

lemma until_reord_moved:
  assumes "rx_bounds s" and "dlv s \<le> reord s" and "reord s \<le> nxt s"
  shows "\<exists>u. deliver_until_reord env s = Inr u \<and> moved s u \<and> rx_deliv (rx_st u) = rx_reord (rx_st s)"
proof -
  have "win_ok s" using assms(1) by (simp add: rx_bounds_def)
  then show ?thesis using deliver_until_reord_gave [of s env] assms(2,3) by (fastforce simp: moved_def)
qed

section \<open>The expiry of t-Reordering\<close>

lemma expire_moved:
  assumes b: "rx_bounds s" and r: "dlv s \<le> reord s" "reord s \<le> nxt s"
  shows "\<exists>u. handle_t_reordering_expire env s =
      Inr (if dlv u < nxt u \<and> rxc_t_reordering (rx_cfg s) \<noteq> Ms 0 then rx_run_timer (reord_to_next u) else u) \<and>
    moved s u \<and> rx_bounds u \<and> reord s \<le> dlv u \<and> stored u (rx_deliv (rx_st u)) = None \<and>
    (\<forall>c. reord s \<le> unat c \<longrightarrow> unat c < dlv u \<longrightarrow> stored s c \<noteq> None)"
proof -
  let ?s = "rx_count (rxm_add_t_reordering_timeouts 1) s"
  obtain t where t: "deliver_until_reord env ?s = Inr t" "moved ?s t" "rx_deliv (rx_st t) = rx_reord (rx_st s)"
    using until_reord_moved [of ?s env] b r by auto
  have bt: "rx_bounds t" using rx_bounds_moved [OF _ t(2)] b by simp
  obtain u where u: "deliver_all_consecutive_counts env t = Inr u" "moved t u" "stored u (rx_deliv (rx_st u)) = None"
    "\<forall>c. dlv t \<le> unat c \<longrightarrow> unat c < dlv u \<longrightarrow> stored t c \<noteq> None"
    using consecutive_moved [OF bt, of env] by blast
  have m: "moved ?s u" using t(2) u(2) by (rule moved_trans)
  then have m': "moved s u" by (simp add: moved_def)
  have cfg: "rx_cfg u = rx_cfg s" using rx_core_fields(1) [OF moved_core [OF m']] .
  have "stored s c \<noteq> None" if "reord s \<le> unat c" "unat c < dlv u" for c
  proof -
    have "stored t c \<noteq> None" using u(4) that t(3) by simp
    then show ?thesis using moved_stored [OF t(2), of c] by (auto split: if_splits)
  qed
  moreover have "reord s \<le> dlv u" using u(2) t(3) by (simp add: moved_def)
  moreover have "rx_bounds u" using rx_bounds_moved [OF b m'] .
  ultimately show ?thesis using t(1) u(1,3) m' cfg
    by (intro exI [of _ u]) (auto simp: handle_t_reordering_expire_def word_less_nat_alt)
qed

lemma timer_simps [simp]:
  "rx_st (rx_run_timer s) = rx_st s" "rx_window (rx_run_timer s) = rx_window s" "rx_cfg (rx_run_timer s) = rx_cfg s"
  "rx_timer_running (rx_run_timer s)" "rx_outbox (rx_run_timer s) = rx_outbox s" "stored (rx_run_timer s) = stored s"
  "rx_st (rx_stop_timer s) = rx_st s" "rx_window (rx_stop_timer s) = rx_window s" "rx_cfg (rx_stop_timer s) = rx_cfg s"
  "\<not> rx_timer_running (rx_stop_timer s)" "rx_outbox (rx_stop_timer s) = rx_outbox s" "stored (rx_stop_timer s) = stored s"
  "rx_deliv (rx_st (reord_to_next s)) = rx_deliv (rx_st s)" "rx_next (rx_st (reord_to_next s)) = rx_next (rx_st s)"
  "rx_reord (rx_st (reord_to_next s)) = rx_next (rx_st s)" "rx_timer_running (reord_to_next s) = rx_timer_running s"
  "rx_cfg (reord_to_next s) = rx_cfg s" "rx_outbox (reord_to_next s) = rx_outbox s" "stored (reord_to_next s) = stored s"
  "rx_stopped (reord_to_next s) = rx_stopped s" "rx_stopped (rx_run_timer s) = rx_stopped s"
  "rx_stopped (rx_stop_timer s) = rx_stopped s"
  by (simp_all add: rx_run_timer_def rx_stop_timer_def reord_to_next_def stored_def fun_eq_iff)

lemma rx_bounds_timer [simp]:
  "rx_bounds (rx_run_timer s) = rx_bounds s" "rx_bounds (rx_stop_timer s) = rx_bounds s"
  "rx_bounds (reord_to_next s) = rx_bounds s"
  by (simp_all add: rx_bounds_def pending_counts_def count_ok_def win_ok_def)
     (simp_all add: rx_run_timer_def rx_stop_timer_def reord_to_next_def)

section \<open>One received PDU\<close>

text \<open>
  The state after the insertion of a PDU and the delivery it may cause, before the timer is
  looked at.
\<close>

definition sdu_of :: "pdcp_rx_pdu_info \<Rightarrow> pdcp_rx_sdu_info" where
  "sdu_of i = \<lparr>sdu_buf = pdu_buf i, sdu_count = pdu_count i, sdu_integrity_verified = pdu_integrity_verified i\<rparr>"

definition inserted :: "pdcp_rx_pdu_info \<Rightarrow> 'r pdcp_rx \<Rightarrow> 'r pdcp_rx" where
  "inserted i s =
     (let s = s\<lparr>rx_window := win_put (pdu_count i) (sdu_of i) (rx_window s)\<rparr> in
      if rx_next (rx_st s) \<le> pdu_count i
      then s\<lparr>rx_st := (rx_st s)\<lparr>rx_next := pdu_count i + 1\<rparr>\<rparr> else s)"

lemma inserted_simps [simp]:
  "rx_window (inserted i s) = win_put (pdu_count i) (sdu_of i) (rx_window s)"
  "rx_next (rx_st (inserted i s)) = (if rx_next (rx_st s) \<le> pdu_count i then pdu_count i + 1 else rx_next (rx_st s))"
  "rx_deliv (rx_st (inserted i s)) = rx_deliv (rx_st s)" "rx_reord (rx_st (inserted i s)) = rx_reord (rx_st s)"
  "rx_cfg (inserted i s) = rx_cfg s" "rx_outbox (inserted i s) = rx_outbox s" "rx_rohc (inserted i s) = rx_rohc s"
  "rx_timer_running (inserted i s) = rx_timer_running s" "rx_stopped (inserted i s) = rx_stopped s"
  "rx_crypto_tasks (inserted i s) = rx_crypto_tasks s" "rx_ue_tasks (inserted i s) = rx_ue_tasks s"
  "rx_token_mngr (inserted i s) = rx_token_mngr s"
  by (simp_all add: inserted_def Let_def)

lemma count_incr:
  fixes c h :: u32
  shows "unat c < unat h \<Longrightarrow> unat (c + 1) = unat c + 1"
  by (rule unat_add_one [of c h]) (simp add: word_less_nat_alt)

lemma store_pdu_inserted:
  assumes "\<not> has_sn (rx_window s) (pdu_count i)" and "unat (pdu_count i) < rx_hard s"
  shows "store_pdu i s = Inr (inserted i s)"
  using assms by (simp add: store_pdu_def add_sn_put inserted_def sdu_of_def Let_def)

lemma inserted_bounds:
  assumes b: "rx_bounds s" and c: "count_ok s (pdu_count i)" "dlv s \<le> unat (pdu_count i)"
  shows "rx_bounds (inserted i s)"
    and "stored (inserted i s) = (stored s)(pdu_count i \<mapsto> sdu_of i)"
    and "nxt (inserted i s) = max (nxt s) (unat (pdu_count i) + 1)"
proof -
  have wf: "win_wf (rx_window s)" and width: "win_width (rx_window s) = rx_win_nat s"
    using b by (auto simp: rx_bounds_def win_ok_def)
  have "win.within (dlv s) (rx_window s)"
    using b width by (auto simp: win.within_def rx_bounds_def stored_def)
  then show st: "stored (inserted i s) = (stored s)(pdu_count i \<mapsto> sdu_of i)"
    using win.look_put [OF wf, of "dlv s" "pdu_count i"] c width
    by (simp add: fun_eq_iff stored_def count_ok_def)
  have inc: "unat (pdu_count i + 1) = unat (pdu_count i) + 1"
    by (rule count_incr [where h = "mc_hard (rxc_max_count (rx_cfg s))"]) (use c in \<open>simp add: count_ok_def\<close>)
  then show nx: "nxt (inserted i s) = max (nxt s) (unat (pdu_count i) + 1)"
    by (auto simp: max_def word_le_nat_alt)
  have ws: "win_ok (inserted i s)" "win_width (rx_window (inserted i s)) = rx_win_nat s"
    using b win.wf_put [OF wf] width
    by (auto simp: win_ok_def st sdu_of_def rx_bounds_def win.width_put)
  have d: "dlv (inserted i s) = dlv s" "rx_cfg (inserted i s) = rx_cfg s"
    "pending_counts (inserted i s) = pending_counts s"
    by (simp_all add: pending_counts_def)
  show "rx_bounds (inserted i s)"
    unfolding rx_bounds_def
  proof (intro conjI allI impI ballI)
    fix k assume "stored (inserted i s) k \<noteq> None"
    then have "k = pdu_count i \<or> stored s k \<noteq> None" by (auto simp: st split: if_splits)
    then have "dlv s \<le> unat k \<and> unat k < max (nxt s) (unat (pdu_count i) + 1) \<and> unat k < dlv s + rx_win_nat s"
    proof
      assume "k = pdu_count i"
      then show ?thesis using c by (auto simp: count_ok_def)
    next
      assume "stored s k \<noteq> None"
      then show ?thesis using b unfolding rx_bounds_def by fastforce
    qed
    then show "dlv (inserted i s) \<le> unat k" "unat k < nxt (inserted i s)"
      "unat k < dlv (inserted i s) + rx_win_nat (inserted i s)" by (simp_all only: d nx)
  next
    fix k assume "k \<in> set (pending_counts (inserted i s))"
    then show "count_ok (inserted i s) k" using b by (simp add: d rx_bounds_def count_ok_def)
  next
    show "dlv (inserted i s) \<le> nxt (inserted i s)" "nxt (inserted i s) \<le> rx_hard (inserted i s)"
      unfolding nx d using b c by (auto simp: rx_bounds_def count_ok_def)
  qed (use b ws in \<open>auto simp: d rx_bounds_def\<close>)
qed

text \<open>What is left to do after the insertion.\<close>

definition settle :: "'r pdcp_rx_env \<Rightarrow> bool \<Rightarrow> 'r pdcp_rx \<Rightarrow> 'r pdcp_rx run" where
  "settle env run_now s =
     seq_run (if run_now then deliver_all_consecutive_counts env s else Inr s) (update_reordering_timer env)"

lemma apply_reordering_cases:
  assumes "rx_bounds s" and "count_ok s (pdu_count i)"
  shows "apply_reordering env i s =
    (if unat (pdu_count i) < dlv s \<or> stored s (pdu_count i) \<noteq> None
     then Inr (rx_count (rxm_add_dropped_pdus 1) s)
     else settle env (unat (pdu_count i) = dlv s) (inserted i s))"
proof (cases "stored s (pdu_count i)")
  case None
  then have "\<not> has_sn (rx_window s) (pdu_count i)" by (simp add: has_sn_find stored_def)
  then show ?thesis using assms(2) None
    by (simp add: apply_reordering_def store_pdu_inserted count_ok_def settle_def word_less_nat_alt word_unat_eq_iff)
next
  case (Some x)
  then have "has_sn (rx_window s) (pdu_count i)" "win_at (rx_window s) (pdu_count i) = Inr x" "sdu_count x = pdu_count i"
    using assms(1) by (auto simp: has_sn_find stored_def win_at_find rx_bounds_def win_ok_def)
  then show ?thesis using Some by (simp add: apply_reordering_def Let_def)
qed

text \<open>The timer, after the delivery.\<close>

definition timer_pre :: "'r pdcp_rx \<Rightarrow> bool" where
  "timer_pre s \<longleftrightarrow> rx_bounds s \<and> stored s (rx_deliv (rx_st s)) = None \<and>
     (rx_timer_running s \<longrightarrow> reord s \<le> nxt s \<and> (\<exists>n > 0. rxc_t_reordering (rx_cfg s) = Ms n))"

lemma update_timer_finite:
  assumes "timer_pre s" and "rxc_t_reordering (rx_cfg s) \<noteq> Ms 0"
  shows "\<exists>u. update_reordering_timer env s = Inr u \<and> rx_inv u \<and> rx_bounds u \<and>
    rx_outbox u = rx_outbox s \<and> stored u = stored s \<and> rx_rohc u = rx_rohc s \<and>
    rx_deliv (rx_st u) = rx_deliv (rx_st s) \<and> rx_next (rx_st u) = rx_next (rx_st s) \<and>
    rx_cfg u = rx_cfg s \<and> rx_crypto_tasks u = rx_crypto_tasks s \<and> rx_ue_tasks u = rx_ue_tasks s \<and>
    rx_token_mngr u = rx_token_mngr s \<and> rx_stopped u = rx_stopped s"
proof -
  let ?s1 = "if rx_timer_running s \<and> rx_reord (rx_st s) \<le> rx_deliv (rx_st s) then rx_stop_timer s else s"
  let ?u = "if rxc_t_reordering (rx_cfg s) \<noteq> Infinity \<and> \<not> rx_timer_running ?s1 \<and> rx_deliv (rx_st s) < rx_next (rx_st s)
    then rx_run_timer (reord_to_next ?s1) else ?s1"
  have up: "update_reordering_timer env s = Inr ?u"
    using assms(2) by (simp add: update_reordering_timer_def Let_def)
  have b: "rx_bounds ?u" using assms(1) by (simp add: timer_pre_def)
  have "\<exists>n>0. rxc_t_reordering (rx_cfg s) = Ms n" if "rxc_t_reordering (rx_cfg s) \<noteq> Infinity"
    using that assms(2) by (cases "rxc_t_reordering (rx_cfg s)") auto
  then have t: "rx_timer_ok ?u"
    using assms unfolding timer_pre_def rx_timer_ok_def
    by (auto simp: word_le_nat_alt word_less_nat_alt rx_bounds_def)
  have "rx_outbox ?u = rx_outbox s" "stored ?u = stored s" "rx_rohc ?u = rx_rohc s"
    "rx_deliv (rx_st ?u) = rx_deliv (rx_st s)" "rx_next (rx_st ?u) = rx_next (rx_st s)"
    "rx_cfg ?u = rx_cfg s" "rx_crypto_tasks ?u = rx_crypto_tasks s" "rx_ue_tasks ?u = rx_ue_tasks s"
    "rx_token_mngr ?u = rx_token_mngr s" "rx_stopped ?u = rx_stopped s"
    by (simp_all add: rx_run_timer_def rx_stop_timer_def reord_to_next_def stored_def fun_eq_iff)
  then show ?thesis using up b t assms(1)
    by (intro exI [of _ ?u]) (simp only: rx_inv_def timer_pre_def simp_thms)
qed

lemma update_timer_zero:
  assumes "timer_pre s" and z: "rxc_t_reordering (rx_cfg s) = Ms 0"
  shows "\<exists>u. update_reordering_timer env s = Inr u \<and> rx_inv u \<and> rx_gave (dlv s) (nxt s) s u \<and>
    rx_deliv (rx_st u) = rx_next (rx_st s) \<and> rx_next (rx_st u) = rx_next (rx_st s)"
proof -
  have run: "\<not> rx_timer_running s" using assms by (auto simp: timer_pre_def)
  have "rx_bounds s" using assms(1) by (simp add: timer_pre_def)
  then have b: "rx_bounds (reord_to_next s)" "dlv s \<le> nxt s" by simp (use \<open>rx_bounds s\<close> in \<open>simp add: rx_bounds_def\<close>)
  obtain u where u: "handle_t_reordering_expire env (reord_to_next s) =
      Inr (if dlv u < nxt u \<and> rxc_t_reordering (rx_cfg s) \<noteq> Ms 0 then rx_run_timer (reord_to_next u) else u)"
    "moved (reord_to_next s) u" "rx_bounds u" "nxt s \<le> dlv u" "stored u (rx_deliv (rx_st u)) = None"
    using expire_moved [of "reord_to_next s" env] b by auto
  have m: "rx_gave (dlv s) (dlv u) s u" "rx_next (rx_st u) = rx_next (rx_st s)" "dlv u \<le> nxt s"
    using u(2) by (simp_all add: moved_def rx_gave_def reord_to_next_def rx_core_def stored_def
        stored_counts_def stored_events_def)
  then have d: "rx_deliv (rx_st u) = rx_next (rx_st s)" using u(4) by (simp add: word_unat_eq_iff)
  have f: "rx_timer_running u = rx_timer_running s" "rx_cfg u = rx_cfg s"
    using rx_core_fields [of u s] m(1) by (simp_all add: rx_gave_def)
  have "rx_timer_ok u" using run f z m(2) d by (simp add: rx_timer_ok_def)
  then show ?thesis using u(1,3,5) m d z run
    by (intro exI [of _ u]) (simp add: update_reordering_timer_def rx_inv_def)
qed

section \<open>Effects: in order, without duplicates\<close>

text \<open>
  Whatever a step passes up has ascending COUNTs, none below the old and all below the new
  RX\_DELIV. Two such steps compose, so a whole run delivers in order and never twice.
\<close>

definition rx_effect :: "'r pdcp_rx \<Rightarrow> 'r pdcp_rx \<Rightarrow> bool" where
  "rx_effect s u \<longleftrightarrow> rx_cfg u = rx_cfg s \<and> dlv s \<le> dlv u \<and> nxt s \<le> nxt u \<and>
     (\<exists>evs. rx_outbox u = rx_outbox s @ evs \<and> sorted_wrt (<) (delivered evs) \<and>
        (\<forall>n \<in> set (delivered evs). dlv s \<le> n \<and> n < dlv u))"

lemma rx_effect_refl [simp]: "rx_effect s s"
  by (simp add: rx_effect_def)

lemma rx_effect_trans:
  assumes "rx_effect s t" and "rx_effect t u"
  shows "rx_effect s u"
proof -
  obtain e1 where e1: "rx_outbox t = rx_outbox s @ e1" "sorted_wrt (<) (delivered e1)"
    "\<forall>n \<in> set (delivered e1). dlv s \<le> n \<and> n < dlv t" using assms(1) by (auto simp: rx_effect_def)
  obtain e2 where e2: "rx_outbox u = rx_outbox t @ e2" "sorted_wrt (<) (delivered e2)"
    "\<forall>n \<in> set (delivered e2). dlv t \<le> n \<and> n < dlv u" using assms(2) by (auto simp: rx_effect_def)
  have le: "dlv s \<le> dlv t" "dlv t \<le> dlv u" using assms by (auto simp: rx_effect_def)
  have "rx_outbox u = rx_outbox s @ (e1 @ e2)" using e1 e2 by simp
  moreover have "sorted_wrt (<) (delivered (e1 @ e2))"
    using e1 e2 by (fastforce simp: sorted_wrt_append)
  moreover have "\<forall>n \<in> set (delivered (e1 @ e2)). dlv s \<le> n \<and> n < dlv u"
    using e1(3) e2(3) le by fastforce
  ultimately show ?thesis using assms by (auto simp: rx_effect_def)
qed

lemma stored_counts_sorted: "sorted_wrt (<) (stored_counts s lo hi)"
  by (simp add: stored_counts_def sorted_wrt_filter)

lemma sorted_wrt_subseq: "subseq xs ys \<Longrightarrow> sorted_wrt P ys \<Longrightarrow> sorted_wrt P xs"
  by (induction rule: list_emb.induct) (auto dest: list_emb_set)

lemma rx_gave_effect:
  assumes "rx_gave (dlv s) (dlv u) s u" and "dlv s \<le> dlv u" and "nxt s \<le> nxt u"
  shows "rx_effect s u"
proof -
  obtain evs where evs: "rx_outbox u = rx_outbox s @ evs" "subseq (delivered evs) (stored_counts s (dlv s) (dlv u))"
    using assms(1) by (auto simp: rx_gave_def)
  have "sorted_wrt (<) (delivered evs)"
    using evs(2) stored_counts_sorted by (rule sorted_wrt_subseq)
  moreover have "dlv s \<le> n \<and> n < dlv u" if "n \<in> set (delivered evs)" for n
    using list_emb_set [OF evs(2) that] by (auto simp: stored_counts_def)
  moreover have "rx_cfg u = rx_cfg s" using assms(1) rx_core_fields by (auto simp: rx_gave_def)
  ultimately show ?thesis using evs(1) assms by (auto simp: rx_effect_def)
qed

lemma moved_effect: "moved s u \<Longrightarrow> rx_effect s u"
  using rx_gave_effect [of s u] by (simp add: moved_def)

lemma rx_effect_simps [simp]:
  "rx_effect (rx_count f s) u = rx_effect s u" "rx_effect s (rx_count f u) = rx_effect s u"
  "rx_effect s (rx_run_timer (reord_to_next u)) = rx_effect s u"
  by (simp_all add: rx_effect_def)

lemma rx_effect_inserted:
  assumes "rx_bounds s" "count_ok s (pdu_count i)" "dlv s \<le> unat (pdu_count i)"
  shows "rx_effect s (inserted i s)"
  using inserted_bounds(3) [OF assms] by (simp add: rx_effect_def del: inserted_simps(2))

text \<open>The tasks that wait are untouched by the processing of one PDU.\<close>

definition same_tasks :: "'r pdcp_rx \<Rightarrow> 'r pdcp_rx \<Rightarrow> bool" where
  "same_tasks s u \<longleftrightarrow> rx_crypto_tasks u = rx_crypto_tasks s \<and> rx_ue_tasks u = rx_ue_tasks s \<and>
     rx_token_mngr u = rx_token_mngr s \<and> rx_stopped u = rx_stopped s"

lemma same_tasks_trans: "same_tasks s t \<Longrightarrow> same_tasks t u \<Longrightarrow> same_tasks s u"
  by (simp add: same_tasks_def)

lemma same_tasks_core: "rx_core u = rx_core s \<Longrightarrow> same_tasks s u"
  using rx_core_fields [of u s] by (simp add: same_tasks_def)

lemma same_tasks_simps [simp]:
  "same_tasks s s" "same_tasks s (rx_count f u) = same_tasks s u" "same_tasks (rx_count f s) u = same_tasks s u"
  "same_tasks s (rx_run_timer u) = same_tasks s u" "same_tasks s (reord_to_next u) = same_tasks s u"
  "same_tasks s (rx_stop_timer u) = same_tasks s u" "same_tasks s (inserted i u) = same_tasks s u"
  by (simp_all add: same_tasks_def) (simp_all add: rx_run_timer_def reord_to_next_def rx_stop_timer_def)

section \<open>The reordering function against its specification\<close>

text \<open>
  The specification, on natural numbers: a buffer of out-of-order SDUs, a first missing and a
  next expected COUNT. Receiving drops what is late or known, and releases the longest run when
  the missing one arrives.
\<close>

record reorder_spec =
  sp_next :: nat
  sp_deliv :: nat
  sp_buf :: "nat \<Rightarrow> pdcp_rx_sdu_info option"

definition first_gap :: "(nat \<Rightarrow> 'v option) \<Rightarrow> nat \<Rightarrow> nat" where
  "first_gap buf n = (LEAST m. n \<le> m \<and> buf m = None)"

definition sp_drain :: "nat \<Rightarrow> reorder_spec \<Rightarrow> pdcp_rx_sdu_info list \<times> reorder_spec" where
  "sp_drain d a = (List.map_filter (sp_buf a) [sp_deliv a ..< d],
     a\<lparr>sp_deliv := d, sp_buf := (\<lambda>n. if sp_deliv a \<le> n \<and> n < d then None else sp_buf a n)\<rparr>)"

definition sp_receive :: "nat \<Rightarrow> pdcp_rx_sdu_info \<Rightarrow> reorder_spec \<Rightarrow> pdcp_rx_sdu_info list \<times> reorder_spec" where
  "sp_receive c x a =
     (if c < sp_deliv a \<or> sp_buf a c \<noteq> None then ([], a)
      else let a = a\<lparr>sp_next := max (sp_next a) (c + 1), sp_buf := (sp_buf a)(c \<mapsto> x)\<rparr> in
        if c = sp_deliv a then sp_drain (first_gap (sp_buf a) c) a else ([], a))"

text \<open>At the expiry everything below the target goes up, then the run that starts there.\<close>

definition sp_expire :: "nat \<Rightarrow> reorder_spec \<Rightarrow> pdcp_rx_sdu_info list \<times> reorder_spec" where
  "sp_expire r a = sp_drain (first_gap (sp_buf a) r) a"

definition rx_abs :: "'r pdcp_rx \<Rightarrow> reorder_spec" where
  "rx_abs s = \<lparr>sp_next = nxt s, sp_deliv = dlv s,
     sp_buf = (\<lambda>n. if n < 4294967296 then stored s (word_of_nat n) else None)\<rparr>"

lemma rx_abs_count [simp]: "rx_abs (rx_count f s) = rx_abs s"
  by (simp add: rx_abs_def cong: if_cong)

lemma rx_abs_buf: "sp_buf (rx_abs s) (unat c) = stored s c"
  by (simp add: rx_abs_def)

lemma first_gap_eq:
  assumes "n \<le> d" and "\<And>m. n \<le> m \<Longrightarrow> m < d \<Longrightarrow> buf m \<noteq> None" and "buf d = None"
  shows "first_gap buf n = d"
  unfolding first_gap_def
proof (rule Least_equality)
  fix y assume "n \<le> y \<and> buf y = None"
  then show "d \<le> y" using assms(2) by (metis not_less)
qed (use assms in simp)

lemma first_gap_abs:
  assumes "n \<le> dlv u" and "stored s (rx_deliv (rx_st u)) = None"
    and "\<forall>c. n \<le> unat c \<longrightarrow> unat c < dlv u \<longrightarrow> stored s c \<noteq> None"
  shows "first_gap (sp_buf (rx_abs s)) n = dlv u"
proof (rule first_gap_eq)
  fix m assume m: "n \<le> m" "m < dlv u"
  then have "m < 4294967296" using unat_less_bound [of "rx_deliv (rx_st u)"] by linarith
  then show "sp_buf (rx_abs s) m \<noteq> None" using assms(3) m by (simp add: rx_abs_def unat_of_nat_bound)
qed (use assms in \<open>simp_all add: rx_abs_buf\<close>)

lemma moved_refines:
  assumes "moved s u" and "rx_rohc s = None"
  shows "rx_abs u = snd (sp_drain (dlv u) (rx_abs s))"
    and "rx_outbox u = rx_outbox s @ map sdu_event (fst (sp_drain (dlv u) (rx_abs s)))"
proof -
  have st: "stored u c = (if dlv s \<le> unat c \<and> unat c < dlv u then None else stored s c)" for c
    by (rule moved_stored [OF assms(1)])
  have "(if n < 4294967296 then stored u (word_of_nat n) else None) =
    (if dlv s \<le> n \<and> n < dlv u then None else if n < 4294967296 then stored s (word_of_nat n) else None)" for n
    by (simp add: st unat_of_nat_bound)
  then show "rx_abs u = snd (sp_drain (dlv u) (rx_abs s))"
    using assms(1) by (simp add: rx_abs_def sp_drain_def moved_def cong: if_cong)
  have "List.map_filter (sp_buf (rx_abs s)) [dlv s ..< dlv u] = List.map_filter (\<lambda>n. stored s (word_of_nat n)) [dlv s ..< dlv u]"
    unfolding List.map_filter_def
    by (rule map_cong [OF filter_cong]) (use unat_less_bound [of "rx_deliv (rx_st u)"] in \<open>auto simp: rx_abs_def\<close>)
  then show "rx_outbox u = rx_outbox s @ map sdu_event (fst (sp_drain (dlv u) (rx_abs s)))"
    using assms by (auto simp: moved_def rx_gave_def sp_drain_def stored_events_def stored_counts_def
        List.map_filter_def rx_abs_def comp_def)
qed

lemma rx_abs_inserted:
  assumes "rx_bounds s" "count_ok s (pdu_count i)" "dlv s \<le> unat (pdu_count i)"
  shows "rx_abs (inserted i s) = (rx_abs s)\<lparr>sp_next := max (nxt s) (unat (pdu_count i) + 1),
    sp_buf := (sp_buf (rx_abs s))(unat (pdu_count i) \<mapsto> sdu_of i)\<rparr>"
proof -
  have "(if n < 4294967296 then stored (inserted i s) (word_of_nat n) else None) =
    ((\<lambda>n. if n < 4294967296 then stored s (word_of_nat n) else None)(unat (pdu_count i) \<mapsto> sdu_of i)) n" for n
    by (auto simp: inserted_bounds(2) [OF assms] word_unat_eq_iff unat_of_nat_bound)
  then show ?thesis using inserted_bounds(3) [OF assms]
    by (simp add: rx_abs_def fun_eq_iff del: inserted_simps(2))
qed

text \<open>
  Everything about one received PDU: no fault, the invariant, the effect, and agreement with the
  specification (with a timer of 0 ms, the specification then drains up to its next COUNT).
\<close>

definition sp_step :: "pdcp_t_reordering \<Rightarrow> nat \<Rightarrow> pdcp_rx_sdu_info \<Rightarrow> reorder_spec \<Rightarrow> pdcp_rx_sdu_info list \<times> reorder_spec" where
  "sp_step t c x a =
     (let (ds, a1) = sp_receive c x a in
      if t = Ms 0 \<and> \<not> (c < sp_deliv a \<or> sp_buf a c \<noteq> None)
      then (let (es, a2) = sp_drain (sp_next a1) a1 in (ds @ es, a2)) else (ds, a1))"

lemma settle_deliver:
  assumes b: "rx_bounds s" and inv: "rx_inv s" and c: "count_ok s (pdu_count i)" "dlv s \<le> unat (pdu_count i)"
    and free: "stored s (pdu_count i) = None"
  shows "\<exists>t. (if unat (pdu_count i) = dlv s then deliver_all_consecutive_counts env (inserted i s) else Inr (inserted i s)) = Inr t \<and>
    timer_pre t \<and> moved (inserted i s) t \<and>
    (rx_rohc s = None \<longrightarrow> rx_abs t = snd (sp_receive (unat (pdu_count i)) (sdu_of i) (rx_abs s)) \<and>
       rx_outbox t = rx_outbox s @ map sdu_event (fst (sp_receive (unat (pdu_count i)) (sdu_of i) (rx_abs s))))"
proof -
  let ?s = "inserted i s"
  note ib = inserted_bounds [OF b c]
  have free_abs: "\<not> (unat (pdu_count i) < sp_deliv (rx_abs s) \<or> sp_buf (rx_abs s) (unat (pdu_count i)) \<noteq> None)"
    using c(2) free by (simp add: rx_abs_def)
  have run: "rx_timer_running s \<Longrightarrow> reord s \<le> nxt ?s \<and> (\<exists>n>0. rxc_t_reordering (rx_cfg s) = Ms n)"
    using rx_invD(3) [OF inv] unfolding ib(3) rx_timer_ok_def by auto
  show ?thesis
  proof (cases "unat (pdu_count i) = dlv s")
    case True
    obtain t where t: "deliver_all_consecutive_counts env ?s = Inr t" "moved ?s t" "rx_reord (rx_st t) = rx_reord (rx_st s)"
      "stored t (rx_deliv (rx_st t)) = None" "\<forall>c. dlv s \<le> unat c \<longrightarrow> unat c < dlv t \<longrightarrow> stored ?s c \<noteq> None"
      using consecutive_moved [OF ib(1), of env] by auto
    note f = rx_core_fields [OF moved_core [OF t(2)]]
    have nx: "nxt t = nxt ?s" using t(2) by (simp add: moved_def del: inserted_simps(2))
    have "timer_pre t"
      using rx_bounds_moved [OF ib(1) t(2)] t(3,4) f run nx by (simp add: timer_pre_def)
    moreover have "stored ?s (rx_deliv (rx_st t)) = None"
      using t(4) moved_stored [OF t(2)] by (simp split: if_splits)
    then have gap: "first_gap (sp_buf (rx_abs ?s)) (dlv s) = dlv t"
      by (intro first_gap_abs) (use t(2,5) in \<open>auto simp: moved_def\<close>)
    have "sp_receive (unat (pdu_count i)) (sdu_of i) (rx_abs s) = sp_drain (dlv t) (rx_abs ?s)"
      using True gap free_abs unfolding sp_receive_def rx_abs_inserted [OF b c]
      by (simp add: rx_abs_def Let_def)
    ultimately show ?thesis using t(1,2) True moved_refines [OF t(2)] by simp
  next
    case False
    then have "dlv s < unat (pdu_count i)" using c(2) by simp
    then have "stored ?s (rx_deliv (rx_st s)) = None"
      using rx_invD(2) [OF inv] by (simp add: ib(2) word_unat_eq_iff)
    then have "timer_pre ?s" using ib(1) run by (simp add: timer_pre_def del: inserted_simps(2))
    moreover have "moved ?s ?s"
      using rx_gave_refl [of ?s] ib(1) by (simp add: moved_def rx_bounds_def)
    moreover have "sp_receive (unat (pdu_count i)) (sdu_of i) (rx_abs s) = ([], rx_abs ?s)"
      using False free_abs unfolding sp_receive_def rx_abs_inserted [OF b c] by (simp add: rx_abs_def Let_def)
    ultimately show ?thesis using False by simp
  qed
qed

lemma update_timer_finite':
  assumes "timer_pre s" and "rxc_t_reordering (rx_cfg s) \<noteq> Ms 0"
  obtains u where "update_reordering_timer env s = Inr u" "rx_inv u" "rx_outbox u = rx_outbox s" "stored u = stored s"
    "rx_deliv (rx_st u) = rx_deliv (rx_st s)" "rx_next (rx_st u) = rx_next (rx_st s)" "rx_cfg u = rx_cfg s" "same_tasks s u"
proof -
  obtain u where "update_reordering_timer env s = Inr u" "rx_inv u" "rx_outbox u = rx_outbox s" "stored u = stored s"
    "rx_deliv (rx_st u) = rx_deliv (rx_st s)" "rx_next (rx_st u) = rx_next (rx_st s)" "rx_cfg u = rx_cfg s"
    "same_tasks s u"
    using update_timer_finite [OF assms, of env] by (auto simp: same_tasks_def)
  then show thesis by (rule that)
qed

lemma apply_reordering_correct:
  assumes inv: "rx_inv s" and c: "count_ok s (pdu_count i)"
  shows "\<exists>u. apply_reordering env i s = Inr u \<and> rx_inv u \<and> rx_effect s u \<and> same_tasks s u \<and>
    (rx_rohc s = None \<longrightarrow>
       rx_abs u = snd (sp_step (rxc_t_reordering (rx_cfg s)) (unat (pdu_count i)) (sdu_of i) (rx_abs s)) \<and>
       rx_outbox u = rx_outbox s @ map sdu_event
         (fst (sp_step (rxc_t_reordering (rx_cfg s)) (unat (pdu_count i)) (sdu_of i) (rx_abs s))))"
proof (cases "unat (pdu_count i) < dlv s \<or> stored s (pdu_count i) \<noteq> None")
  case True
  then have "unat (pdu_count i) < sp_deliv (rx_abs s) \<or> sp_buf (rx_abs s) (unat (pdu_count i)) \<noteq> None"
    by (simp add: rx_abs_def)
  then have "sp_step t (unat (pdu_count i)) x (rx_abs s) = ([], rx_abs s)" for t x
    by (simp add: sp_step_def sp_receive_def)
  then show ?thesis using True apply_reordering_cases [OF rx_invD(1) [OF inv] c, of env] inv by simp
next
  case False
  note b = rx_invD(1) [OF inv]
  have c': "dlv s \<le> unat (pdu_count i)" using False by simp
  have free: "\<not> (unat (pdu_count i) < sp_deliv (rx_abs s) \<or> sp_buf (rx_abs s) (unat (pdu_count i)) \<noteq> None)"
    using False by (simp add: rx_abs_def)
  obtain t where t: "(if unat (pdu_count i) = dlv s then deliver_all_consecutive_counts env (inserted i s) else Inr (inserted i s)) = Inr t"
    "timer_pre t" "moved (inserted i s) t"
    "rx_rohc s = None \<longrightarrow> rx_abs t = snd (sp_receive (unat (pdu_count i)) (sdu_of i) (rx_abs s)) \<and>
       rx_outbox t = rx_outbox s @ map sdu_event (fst (sp_receive (unat (pdu_count i)) (sdu_of i) (rx_abs s)))"
    using settle_deliver [OF b inv c c', of env] False by auto
  have app: "apply_reordering env i s = update_reordering_timer env t"
    using apply_reordering_cases [OF b c, of env] False t(1) by (simp add: settle_def)
  have cfg: "rx_cfg t = rx_cfg s" using rx_core_fields(1) [OF moved_core [OF t(3)]] by simp
  have eff: "rx_effect s t"
    using rx_effect_inserted [OF b c c'] moved_effect [OF t(3)] by (rule rx_effect_trans)
  have tsk: "same_tasks s t" using same_tasks_core [OF moved_core [OF t(3)]] same_tasks_simps(7) [of s i s]
    by (simp add: same_tasks_def)
  show ?thesis
  proof (cases "rxc_t_reordering (rx_cfg s) = Ms 0")
    case nz: False
    obtain u where u: "update_reordering_timer env t = Inr u" "rx_inv u" "rx_outbox u = rx_outbox t" "stored u = stored t"
      "rx_deliv (rx_st u) = rx_deliv (rx_st t)" "rx_next (rx_st u) = rx_next (rx_st t)" "rx_cfg u = rx_cfg t" "same_tasks t u"
      by (rule update_timer_finite' [OF t(2), of env]) (use nz cfg in simp_all)
    have "rx_abs u = rx_abs t" using u(4-6) by (simp add: rx_abs_def cong: if_cong)
    moreover have "rx_effect t u" using u by (simp add: rx_effect_def)
    ultimately show ?thesis using u app t(4) nz rx_effect_trans [OF eff] same_tasks_trans [OF tsk u(8)]
      by (simp add: sp_step_def split: prod.splits)
  next
    case z: True
    obtain u where u: "update_reordering_timer env t = Inr u" "rx_inv u" "rx_gave (dlv t) (nxt t) t u"
      "rx_deliv (rx_st u) = rx_next (rx_st t)" "rx_next (rx_st u) = rx_next (rx_st t)"
      using update_timer_zero [OF t(2), of env] z cfg by auto
    have m: "moved t u" using u t(2) by (simp add: moved_def timer_pre_def rx_bounds_def)
    have "rx_rohc s = None \<longrightarrow> rx_rohc t = None"
      using t(3) by (auto simp: moved_def rx_gave_def)
    moreover have "dlv u = sp_next (rx_abs t)" using u(4) by (simp add: rx_abs_def)
    ultimately show ?thesis
      using u(1,2) app t(4) z free moved_refines [OF m] rx_effect_trans [OF eff moved_effect [OF m]]
        same_tasks_trans [OF tsk same_tasks_core [OF moved_core [OF m]]]
      by (auto simp: sp_step_def split: prod.splits)
  qed
qed

section \<open>The expiry callback\<close>

lemma reordering_callback_correct:
  assumes inv: "rx_inv s" and run: "rx_timer_running s" and live: "\<not> rx_stopped s"
  shows "\<exists>u. reordering_callback env (rx_stop_timer s) = Inr u \<and> rx_inv u \<and> rx_effect s u \<and> same_tasks s u \<and>
    reord s \<le> dlv u \<and> (dlv u < nxt u \<longrightarrow> rx_timer_running u \<and> reord u = nxt u) \<and>
    (rx_rohc s = None \<longrightarrow> rx_abs u = snd (sp_expire (reord s) (rx_abs s)) \<and>
       rx_outbox u = rx_outbox s @ map sdu_event (fst (sp_expire (reord s) (rx_abs s))))"
proof -
  let ?s = "rx_stop_timer s"
  have t: "dlv s < reord s" "reord s \<le> nxt s" and fin: "\<exists>n>0. rxc_t_reordering (rx_cfg s) = Ms n"
    using rx_invD(3) [OF inv] run by (auto simp: rx_timer_ok_def)
  obtain v where v: "handle_t_reordering_expire env ?s =
      Inr (if dlv v < nxt v \<and> rxc_t_reordering (rx_cfg s) \<noteq> Ms 0 then rx_run_timer (reord_to_next v) else v)"
    "moved ?s v" "rx_bounds v" "reord s \<le> dlv v" "stored v (rx_deliv (rx_st v)) = None"
    "\<forall>c. reord s \<le> unat c \<longrightarrow> unat c < dlv v \<longrightarrow> stored s c \<noteq> None"
    using expire_moved [of ?s env] rx_invD(1) [OF inv] t by auto
  let ?u = "if dlv v < nxt v \<and> rxc_t_reordering (rx_cfg s) \<noteq> Ms 0 then rx_run_timer (reord_to_next v) else v"
  note f = rx_core_fields [OF moved_core [OF v(2)]]
  have "rx_timer_ok ?u" using f fin v(3) by (auto simp: rx_timer_ok_def)
  then have "rx_inv ?u" using v(3,5) by (simp add: rx_inv_def)
  moreover have "rx_effect s ?u"
    using moved_effect [OF v(2)] by (simp add: rx_effect_def)
  moreover have "same_tasks s ?u" using f by (simp add: same_tasks_def) (simp add: rx_run_timer_def reord_to_next_def rx_stop_timer_def)
  moreover have "dlv ?u < nxt ?u \<longrightarrow> rx_timer_running ?u \<and> reord ?u = nxt ?u" using fin by auto
  moreover have "reordering_callback env ?s = Inr ?u"
    using v(1) live by (simp add: reordering_callback_def)
  moreover have "rx_abs ?u = rx_abs v" "rx_outbox ?u = rx_outbox v" "dlv ?u = dlv v"
    by (simp_all add: rx_abs_def cong: if_cong)
  moreover have "rx_abs ?s = rx_abs s" "rx_rohc ?s = rx_rohc s"
    by (simp add: rx_abs_def cong: if_cong) (simp add: rx_stop_timer_def)
  moreover have "first_gap (sp_buf (rx_abs s)) (reord s) = dlv v"
    by (rule first_gap_abs) (use v(4-6) moved_stored [OF v(2)] in \<open>auto split: if_splits\<close>)
  ultimately show ?thesis using v(4) moved_refines [OF v(2)]
    by (intro exI [of _ ?u]) (simp add: sp_expire_def del: if_split)
qed

end
