(* ===== verification/Pdcp_Rx_Steps.thy ===== *)
theory Pdcp_Rx_Steps
  imports Pdcp_Rx_Inv
begin

text \<open>
  The receiving entity as a transition system: PDUs arrive, crypto workers finish their tasks in
  any order, the UE executor runs its tasks in order, t-Reordering expires, buffering and stop
  are switched. Every step keeps the invariant and delivers in order. The procedures that reset
  the state (re-establishment, suspension, COUNT transfer) are shown to keep the invariant when
  no task is pending, which is what the crypto token's event tells the caller.
\<close>

section \<open>Steps that leave the window alone\<close>

lemma rx_inv_transfer:
  assumes "rx_inv s" and "rx_cfg u = rx_cfg s" "rx_st u = rx_st s" "rx_window u = rx_window s"
    "rx_timer_running u = rx_timer_running s" "rx_stopped u = rx_stopped s"
    and "\<And>c. c \<in> set (pending_counts u) \<Longrightarrow> count_ok s c"
  shows "rx_inv u"
proof -
  have "stored u = stored s" using assms(4) by (simp add: stored_def fun_eq_iff)
  moreover have "count_ok u = count_ok s" using assms(2,3) by (simp add: count_ok_def fun_eq_iff)
  ultimately show ?thesis using assms
    by (simp add: rx_inv_def rx_bounds_def rx_timer_ok_def win_ok_def)
qed

lemma rx_effect_transfer:
  assumes "rx_cfg u = rx_cfg s" "rx_st u = rx_st s" "rx_outbox u = rx_outbox s @ evs" "delivered evs = []"
  shows "rx_effect s u"
  using assms by (auto simp: rx_effect_def)

lemma rx_inv_pending: "rx_inv s \<Longrightarrow> c \<in> set (pending_counts s) \<Longrightarrow> count_ok s c"
  by (simp add: rx_inv_def rx_bounds_def)

text \<open>A quiet step: nothing is delivered, the window, the counters and the timer stay.\<close>

definition quiet :: "'r pdcp_rx \<Rightarrow> 'r pdcp_rx \<Rightarrow> bool" where
  "quiet s u \<longleftrightarrow> rx_cfg u = rx_cfg s \<and> rx_st u = rx_st s \<and> rx_window u = rx_window s \<and>
     rx_timer_running u = rx_timer_running s \<and> rx_stopped u = rx_stopped s \<and> rx_rohc u = rx_rohc s \<and>
     rx_sec_engines u = rx_sec_engines s \<and>
     (\<exists>evs. rx_outbox u = rx_outbox s @ evs \<and> delivered evs = [])"

lemma quiet_refl [simp]: "quiet s s"
  by (simp add: quiet_def)

lemma quiet_trans: "quiet s t \<Longrightarrow> quiet t u \<Longrightarrow> quiet s u"
  by (fastforce simp: quiet_def)

lemma quiet_count [simp]: "quiet s (rx_count f u) = quiet s u" "quiet (rx_count f s) u = quiet s u"
  by (simp_all add: quiet_def rx_count_def)

lemma quiet_emit: "delivered [e] = [] \<Longrightarrow> quiet s u \<Longrightarrow> quiet s (rx_emit e u)"
  by (fastforce simp: quiet_def rx_emit_def)

lemma quiet_fields [simp]:
  "quiet s (u\<lparr>rx_token_mngr := m\<rparr>) = quiet s u" "quiet s (u\<lparr>rx_max_count_notified := b\<rparr>) = quiet s u"
  "quiet s (u\<lparr>rx_max_count_overflow := b\<rparr>) = quiet s u" "quiet s (u\<lparr>rx_crypto_tasks := ts\<rparr>) = quiet s u"
  "quiet s (u\<lparr>rx_ue_tasks := us\<rparr>) = quiet s u" "quiet s (u\<lparr>rx_resume_requested := b\<rparr>) = quiet s u"
  "quiet s (u\<lparr>rx_pdu_buffer := q\<rparr>) = quiet s u" "quiet s (u\<lparr>rx_buffering := b\<rparr>) = quiet s u"
  by (simp_all add: quiet_def)

lemma quiet_inv:
  assumes "rx_inv s" "quiet s u" and "\<And>c. c \<in> set (pending_counts u) \<Longrightarrow> count_ok s c"
  shows "rx_inv u \<and> rx_effect s u"
  using assms rx_inv_transfer [of s u] rx_effect_transfer [of u s] by (auto simp: quiet_def)

lemma quiet_return_token: "rx_return_token s = Inr u \<Longrightarrow> quiet s u \<and> pending_counts u = pending_counts s \<and>
    rx_crypto_tasks u = rx_crypto_tasks s \<and> rx_ue_tasks u = rx_ue_tasks s"
  by (auto simp: rx_return_token_def seq_run_Inr pending_counts_def)

section \<open>Reception\<close>

lemma check_max_count_quiet:
  "quiet s (check_max_count c s)" "rx_crypto_tasks (check_max_count c s) = rx_crypto_tasks s"
  "rx_ue_tasks (check_max_count c s) = rx_ue_tasks s" "rx_token_mngr (check_max_count c s) = rx_token_mngr s"
  "rx_cfg (check_max_count c s) = rx_cfg s" "rx_st (check_max_count c s) = rx_st s"
proof -
  show "quiet s (check_max_count c s)"
    by (auto simp: check_max_count_def Let_def intro!: quiet_emit)
qed (simp_all add: check_max_count_def Let_def rx_emit_def)

text \<open>A COUNT that passes the check is within the window that starts at RX\_DELIV.\<close>

lemma rcvd_count_ok:
  assumes "rx_inv s" and "read_data_pdu_header (rxc_sn_size (rx_cfg s)) pdu = Some sn"
    and "unat (estimate_count (rxc_sn_size (rx_cfg s)) (rx_deliv (rx_st s)) sn) < rx_hard s"
  shows "count_ok s (estimate_count (rxc_sn_size (rx_cfg s)) (rx_deliv (rx_st s)) sn)"
proof -
  have "rx_cfg_ok (rx_cfg s)" using assms(1) by (simp add: rx_inv_def rx_bounds_def)
  then have "unat (estimate_count (rxc_sn_size (rx_cfg s)) (rx_deliv (rx_st s)) sn) < dlv s + rx_win_nat s"
    by (intro estimate_count_below) (use assms read_data_pdu_header_bound [OF assms(2)] in \<open>auto simp: rx_cfg_ok_def\<close>)
  then show ?thesis using assms(3) by (simp add: count_ok_def)
qed

lemma handle_data_pdu_quiet:
  assumes inv: "rx_inv s" and run: "handle_data_pdu ok pdu s = Inr u"
  shows "quiet s u \<and> (\<forall>c \<in> set (pending_counts u). count_ok s c) \<and> rx_ue_tasks u = rx_ue_tasks s"
proof -
  let ?s = "rx_count (rxm_add_data_pdus 1 (length pdu)) s"
  have pend: "c \<in> set (pending_counts s) \<Longrightarrow> count_ok s c" for c using rx_inv_pending [OF inv] .
  show ?thesis
  proof (cases "length pdu \<le> rx_hdr_len ?s \<or> read_data_pdu_header (rxc_sn_size (rx_cfg s)) pdu = None")
    case True
    then have "u = rx_count (rxm_add_dropped_pdus 1) ?s"
      using run by (auto simp: handle_data_pdu_def Let_def rx_hdr_len_def split: if_splits)
    then show ?thesis using pend by (simp add: pending_counts_def)
  next
    case False
    then obtain sn where sn: "read_data_pdu_header (rxc_sn_size (rx_cfg s)) pdu = Some sn" by auto
    define c where "c = estimate_count (rxc_sn_size (rx_cfg s)) (rx_deliv (rx_st s)) sn"
    define t where "t = check_max_count c ?s"
    have t: "quiet s t" "rx_crypto_tasks t = rx_crypto_tasks s" "rx_ue_tasks t = rx_ue_tasks s" "rx_cfg t = rx_cfg s"
      using check_max_count_quiet [where s = ?s and c = c] by (simp_all add: t_def)
    let ?i = "\<lparr>pdu_buf = pdu, pdu_count = c, pdu_integrity_verified = False\<rparr>"
    let ?v = "t\<lparr>rx_token_mngr := increment_token (rx_token_mngr t)\<rparr>"
    have run': "(if mc_hard (rxc_max_count (rx_cfg s)) \<le> c then Inr t
        else if ok then Inr (?v\<lparr>rx_crypto_tasks := rx_crypto_tasks ?v @ [?i]\<rparr>) else rx_return_token ?v) = Inr u"
      using run False sn t(4) by (simp add: handle_data_pdu_def Let_def c_def [symmetric] t_def [symmetric] cong: if_cong)
    show ?thesis
    proof (cases "mc_hard (rxc_max_count (rx_cfg s)) \<le> c")
      case True
      then show ?thesis using run' t pend by (auto simp: pending_counts_def)
    next
      case lt: False
      then have "count_ok s c"
        using rcvd_count_ok [OF inv sn] by (simp add: c_def word_le_nat_alt)
      then show ?thesis using run' lt t pend quiet_return_token [of ?v u] quiet_trans [of s ?v u]
        by (cases ok) (auto simp: pending_counts_def)
    qed
  qed
qed

lemma handle_control_pdu_quiet:
  "handle_control_pdu pdu s = Inr u \<Longrightarrow> quiet s u \<and> rx_crypto_tasks u = rx_crypto_tasks s \<and> rx_ue_tasks u = rx_ue_tasks s"
  by (auto simp: handle_control_pdu_def quiet_emit split: if_splits pdcp_control_pdu_type.splits)
     (simp_all add: rx_emit_def)

lemma handle_pdu_quiet:
  assumes inv: "rx_inv s" and run: "handle_pdu ch buf s = Inr u"
  shows "quiet s u \<and> (\<forall>c \<in> set (pending_counts u). count_ok s c) \<and> rx_ue_tasks u = rx_ue_tasks s"
proof -
  define r where "r = request_resume s"
  have r: "quiet s r" "pending_counts r = pending_counts s" "rx_ue_tasks r = rx_ue_tasks s" "rx_crypto_tasks r = rx_crypto_tasks s"
    "rx_cfg r = rx_cfg s" "rx_st r = rx_st s"
    by (auto simp: r_def request_resume_def intro!: quiet_emit) (simp_all add: rx_emit_def pending_counts_def)
  have pend: "c \<in> set (pending_counts s) \<Longrightarrow> count_ok s c" for c using rx_inv_pending [OF inv] .
  have invr: "rx_inv (rx_count f r)" for f
    using quiet_inv [OF inv r(1)] r(2) pend by simp
  have ok_eq: "count_ok (rx_count f r) = count_ok s" for f
    by (simp add: count_ok_def fun_eq_iff r)
  have noop: "quiet s (rx_count f (rx_count g r)) \<and> (\<forall>c \<in> set (pending_counts (rx_count f (rx_count g r))). count_ok s c) \<and>
      rx_ue_tasks (rx_count f (rx_count g r)) = rx_ue_tasks s" for f g
    using r pend by (simp add: pending_counts_def)
  consider (stopped) "rx_stopped s" | (buf) "\<not> rx_stopped s" "rx_buffering r"
    | (go) "\<not> rx_stopped s" "\<not> rx_buffering r" by blast
  then show ?thesis
  proof cases
    case stopped
    then show ?thesis using run pend by (auto simp: handle_pdu_def pending_counts_def)
  next
    case buf
    then have "u = rx_count (rxm_add_dropped_pdus 1) r \<or> (\<exists>b. u = r\<lparr>rx_pdu_buffer := b\<rparr>)"
      using run by (auto simp: handle_pdu_def Let_def r_def [symmetric] split: prod.splits if_splits)
    then show ?thesis using r pend by (auto simp: pending_counts_def)
  next
    case go
    let ?c = "rx_count (rxm_add_pdus 1 (length buf)) r"
    have "u = rx_count (rxm_add_dropped_pdus 1) ?c \<or> handle_data_pdu (crypto_ok ch) buf ?c = Inr u \<or> handle_control_pdu buf ?c = Inr u"
      using run go by (simp add: handle_pdu_def Let_def r_def [symmetric] split: if_splits)
    then show ?thesis
    proof (elim disjE)
      assume "u = rx_count (rxm_add_dropped_pdus 1) ?c"
      then show ?thesis using noop by blast
    next
      assume "handle_data_pdu (crypto_ok ch) buf ?c = Inr u"
      from handle_data_pdu_quiet [OF invr this] show ?thesis
        using quiet_trans [OF r(1), of u] r(3) by (simp add: ok_eq)
    next
      assume "handle_control_pdu buf ?c = Inr u"
      from handle_control_pdu_quiet [OF this] show ?thesis
        using quiet_trans [OF r(1), of u] r pend by (simp add: pending_counts_def)
    qed
  qed
qed

section \<open>Buffering\<close>

lemma flush_quiet:
  assumes "rx_inv s" and "flush_pdu_buffer ch n s = Inr u"
  shows "quiet s u \<and> (\<forall>c \<in> set (pending_counts u). count_ok s c) \<and> rx_ue_tasks u = rx_ue_tasks s"
  using assms
proof (induction n arbitrary: s)
  case 0
  then show ?case using rx_inv_pending by auto
next
  case (Suc n)
  show ?case
  proof (cases "rb_empty (rx_pdu_buffer s)")
    case True
    then show ?thesis using Suc.prems rx_inv_pending by auto
  next
    case False
    then obtain buf b t where h: "handle_pdu (ch n) buf (s\<lparr>rx_pdu_buffer := b\<rparr>) = Inr t" "flush_pdu_buffer ch n t = Inr u"
      using Suc.prems(2) by (auto simp: seq_run_Inr)
    let ?s = "s\<lparr>rx_pdu_buffer := b\<rparr>"
    have inv: "rx_inv ?s"
      by (rule quiet_inv [OF Suc.prems(1), THEN conjunct1])
         (use rx_inv_pending [OF Suc.prems(1)] in \<open>simp_all add: pending_counts_def\<close>)
    note q = handle_pdu_quiet [OF inv h(1)]
    then have "rx_inv t" using quiet_inv [OF inv, of t] by blast
    from Suc.IH [OF this h(2)] show ?thesis
      using q quiet_trans [of s ?s t] quiet_trans [of s t u] by (auto simp: count_ok_def quiet_def)
  qed
qed

text \<open>Enough rounds: the buffer is empty afterwards, and the entity no longer buffers.\<close>

lemma handle_pdu_buffer:
  assumes "handle_pdu ch buf s = Inr u" and "\<not> rx_buffering s"
  shows "rx_pdu_buffer u = rx_pdu_buffer s \<and> \<not> rx_buffering u"
proof -
  have ret: "rx_pdu_buffer v = rx_pdu_buffer t \<and> rx_buffering v = rx_buffering t" if "rx_return_token t = Inr v" for t v :: "'a pdcp_rx"
    using that by (auto simp: rx_return_token_def seq_run_Inr)
  have cnt: "rx_pdu_buffer (rx_count f t) = rx_pdu_buffer t" "rx_buffering (rx_count f t) = rx_buffering t" for f and t :: "'a pdcp_rx"
    by (simp_all add: rx_count_def)
  have mx: "rx_pdu_buffer (check_max_count c t) = rx_pdu_buffer t \<and> rx_buffering (check_max_count c t) = rx_buffering t" for c and t :: "'a pdcp_rx"
    by (simp add: check_max_count_def rx_emit_def Let_def)
  have data: "rx_pdu_buffer v = rx_pdu_buffer t \<and> rx_buffering v = rx_buffering t" if "handle_data_pdu ok p t = Inr v" for ok p and t v :: "'a pdcp_rx"
    using that by (auto simp: handle_data_pdu_def Let_def cnt mx split: if_splits option.splits dest!: ret)
  have ctl: "rx_pdu_buffer v = rx_pdu_buffer t \<and> rx_buffering v = rx_buffering t" if "handle_control_pdu p t = Inr v" for p and t v :: "'a pdcp_rx"
    using that by (auto simp: handle_control_pdu_def cnt rx_emit_def split: if_splits pdcp_control_pdu_type.splits)
  have rr: "rx_pdu_buffer (request_resume s) = rx_pdu_buffer s" "rx_buffering (request_resume s) = rx_buffering s"
    by (simp_all add: request_resume_def rx_emit_def)
  show ?thesis using assms
    by (auto simp: handle_pdu_def Let_def cnt rr split: if_splits dest!: data ctl)
qed

lemma flush_empties:
  assumes "flush_pdu_buffer ch n s = Inr u" and "\<not> rx_buffering s" and "length (rb_items (rx_pdu_buffer s)) \<le> n"
    and "rb_wf (rx_pdu_buffer s)"
  shows "rb_items (rx_pdu_buffer u) = [] \<and> \<not> rx_buffering u"
  using assms
proof (induction n arbitrary: s)
  case (Suc n)
  show ?case
  proof (cases "rb_empty (rx_pdu_buffer s)")
    case True
    then show ?thesis using Suc.prems by (simp add: rb_empty_items)
  next
    case False
    then obtain buf b t where h: "rb_pop (rx_pdu_buffer s) = Inr b"
      "handle_pdu (ch n) buf (s\<lparr>rx_pdu_buffer := b\<rparr>) = Inr t" "flush_pdu_buffer ch n t = Inr u"
      using Suc.prems(1) by (auto simp: seq_run_Inr)
    have b: "rx_pdu_buffer t = b" "\<not> rx_buffering t"
      using handle_pdu_buffer [OF h(2)] Suc.prems(2) by auto
    obtain a as where "rb_items (rx_pdu_buffer s) = a # as" using False by (cases "rb_items (rx_pdu_buffer s)") (auto simp: rb_empty_items)
    then have "rb_wf b" "length (rb_items b) < length (rb_items (rx_pdu_buffer s))"
      using rb_pop_items [OF Suc.prems(4)] h(1) by fastforce+
    then show ?thesis using Suc.IH [OF h(3)] b Suc.prems(3) by auto
  qed
qed (simp add: rb_items_def)

section \<open>Tasks\<close>

lemma pending_remove:
  assumes "rx_inv s" and "i < length (rx_crypto_tasks s)"
  shows "rx_inv (s\<lparr>rx_crypto_tasks := take i (rx_crypto_tasks s) @ drop (Suc i) (rx_crypto_tasks s)\<rparr>)"
    and "count_ok s (pdu_count (rx_crypto_tasks s ! i))"
proof -
  show "count_ok s (pdu_count (rx_crypto_tasks s ! i))"
    using rx_inv_pending [OF assms(1)] assms(2) by (auto simp: pending_counts_def)
  show "rx_inv (s\<lparr>rx_crypto_tasks := take i (rx_crypto_tasks s) @ drop (Suc i) (rx_crypto_tasks s)\<rparr>)"
    by (rule quiet_inv [OF assms(1), THEN conjunct1])
       (use rx_inv_pending [OF assms(1)] in \<open>auto simp: pending_counts_def dest: in_set_takeD in_set_dropD\<close>)
qed

lemma post_ue_task_quiet:
  "post_ue_task ok t s = Inr u \<Longrightarrow> quiet s u \<and> set (pending_counts u) \<subseteq> set (pending_counts s) \<union> set (task_counts [t])"
  by (auto simp: post_ue_task_def pending_counts_def split: if_splits dest!: quiet_return_token)

lemma apply_security_quiet:
  assumes "apply_security env w ok i s = Inr u"
  shows "quiet s u \<and> set (pending_counts u) \<subseteq> set (pending_counts s) \<union> {pdu_count i}"
  using assms by (fastforce simp: apply_security_def seq_run_Inr split: if_splits prod.splits dest!: post_ue_task_quiet)

lemma run_crypto_task_correct:
  assumes inv: "rx_inv s" and run: "run_crypto_task env w ok i s = Inr u"
  shows "rx_inv u \<and> rx_effect s u"
proof (cases "i < length (rx_crypto_tasks s)")
  case False
  then show ?thesis using assms by (simp add: run_crypto_task_def)
next
  case True
  let ?t = "s\<lparr>rx_crypto_tasks := take i (rx_crypto_tasks s) @ drop (Suc i) (rx_crypto_tasks s)\<rparr>"
  have t: "rx_inv ?t" "count_ok ?t (pdu_count (rx_crypto_tasks s ! i))"
    using pending_remove [OF inv True] by (simp_all add: count_ok_def)
  have q: "quiet ?t u" "set (pending_counts u) \<subseteq> set (pending_counts ?t) \<union> {pdu_count (rx_crypto_tasks s ! i)}"
    using apply_security_quiet [of env w ok "rx_crypto_tasks s ! i" ?t u] run True by (simp_all add: run_crypto_task_def)
  have "rx_inv u \<and> rx_effect ?t u"
    by (rule quiet_inv [OF t(1) q(1)]) (use q(2) rx_inv_pending [OF t(1)] t(2) in blast)
  then show ?thesis by (simp add: rx_effect_def)
qed

lemma run_task_correct:
  assumes inv: "rx_inv s" and c: "\<And>c. c \<in> set (task_counts [t]) \<Longrightarrow> count_ok s c"
  shows "\<exists>u. run_task env t s = Inr u \<and> rx_inv u \<and> rx_effect s u \<and> same_tasks s u"
proof (cases t)
  case (Handle_failure st k)
  have q: "quiet s (handle_failure st s) \<and> same_tasks s (handle_failure st s)"
    by (cases st) (auto simp: handle_failure_def intro!: quiet_emit, simp_all add: same_tasks_def rx_emit_def)
  have "pending_counts (handle_failure st s) = pending_counts s"
    using q by (simp add: same_tasks_def pending_counts_def)
  then have "rx_inv (handle_failure st s) \<and> rx_effect s (handle_failure st s)"
    by (intro quiet_inv [OF inv]) (use q rx_inv_pending [OF inv] in auto)
  then show ?thesis using q Handle_failure by (simp add: run_task_def)
next
  case (Reorder i)
  let ?s = "if pdu_integrity_verified i then rx_count (rxm_add_integrity_verified_pdus 1) s
            else rx_count (rxm_add_integrity_unverified_pdus 1) s"
  have "rx_inv ?s" "count_ok ?s (pdu_count i)" using inv c Reorder by (simp_all add: count_ok_def)
  from apply_reordering_correct [OF this, of env] show ?thesis
    using Reorder by (auto simp: run_task_def split: if_splits)
qed

text \<open>
  The counter of tokens: one for each task in an executor. With it, the first UE task always
  runs to its end.
\<close>

definition rx_tokens :: "bool \<Rightarrow> 'r pdcp_rx \<Rightarrow> bool" where
  "rx_tokens halted s \<longleftrightarrow> tm_state (length (rx_crypto_tasks s) + length (rx_ue_tasks s)) halted (rx_token_mngr s)"

lemma run_ue_task_correct:
  assumes inv: "rx_inv s" and run: "run_ue_task env s = Inr u"
  shows "rx_inv u \<and> rx_effect s u"
proof (cases "rx_ue_tasks s")
  case Nil
  then show ?thesis using assms by (simp add: run_ue_task_def)
next
  case (Cons t ts)
  let ?s = "s\<lparr>rx_ue_tasks := ts\<rparr>"
  have c: "count_ok s c" if "c \<in> set (task_counts [t]) \<union> set (task_counts ts)" for c
    using rx_inv_pending [OF inv, of c] that Cons task_counts_append [of "[t]" ts] by (simp add: pending_counts_def)
  have invs: "rx_inv ?s"
    by (rule quiet_inv [OF inv, THEN conjunct1])
       (use rx_inv_pending [OF inv] c in \<open>auto simp: pending_counts_def\<close>)
  obtain v where v: "run_task env t ?s = Inr v" "rx_return_token v = Inr u" "rx_inv v" "rx_effect ?s v" "same_tasks ?s v"
    using run Cons run_task_correct [OF invs, of t env] c by (auto simp: run_ue_task_def count_ok_def seq_run_Inr)
  have "rx_inv u \<and> rx_effect v u"
    by (intro quiet_inv [OF v(3)]) (use quiet_return_token [OF v(2)] rx_inv_pending [OF v(3)] in auto)
  moreover have "rx_effect s v" using v(4) by (simp add: rx_effect_def)
  ultimately show ?thesis using rx_effect_trans by blast
qed

lemma run_ue_task_no_fault:
  assumes inv: "rx_inv s" and tok: "rx_tokens h s"
  shows "\<exists>u. run_ue_task env s = Inr u \<and> rx_tokens h u"
proof (cases "rx_ue_tasks s")
  case Nil
  then show ?thesis using tok by (simp add: run_ue_task_def)
next
  case (Cons t ts)
  let ?s = "s\<lparr>rx_ue_tasks := ts\<rparr>"
  have c: "count_ok s c" if "c \<in> set (task_counts [t]) \<union> set (task_counts ts)" for c
    using rx_inv_pending [OF inv, of c] that Cons task_counts_append [of "[t]" ts] by (simp add: pending_counts_def)
  have invs: "rx_inv ?s"
    by (rule quiet_inv [OF inv, THEN conjunct1])
       (use rx_inv_pending [OF inv] c in \<open>auto simp: pending_counts_def\<close>)
  obtain v where v: "run_task env t ?s = Inr v" "same_tasks ?s v"
    using run_task_correct [OF invs, of t env] c by (auto simp: count_ok_def)
  have "tm_state (length (rx_crypto_tasks s) + length ts + 1) h (rx_token_mngr v)"
    using tok v(2) Cons by (simp add: rx_tokens_def same_tasks_def)
  then obtain m where "return_token (rx_token_mngr v) = Inr m" "tm_state (length (rx_crypto_tasks s) + length ts) h m"
    using tm_state_return by blast
  then show ?thesis using Cons v by (simp add: run_ue_task_def rx_return_token_def rx_tokens_def same_tasks_def)
qed

section \<open>Procedures that reset the state\<close>

definition rx_idle :: "'r pdcp_rx \<Rightarrow> bool" where
  "rx_idle s \<longleftrightarrow> rx_crypto_tasks s = [] \<and> rx_ue_tasks s = []"

text \<open>Once the event of the token manager is set, no task is left.\<close>

lemma crypto_event_idle: "rx_tokens h s \<Longrightarrow> pending_crypto (rx_token_mngr s) \<Longrightarrow> rx_idle s"
  using tm_state_event by (fastforce simp: rx_tokens_def rx_idle_def)

lemma deliver_all_sdus_from_gave:
  assumes "win_ok s" and "unat c \<le> nxt s"
  shows "\<exists>u. deliver_all_sdus_from env c s = Inr u \<and> rx_gave (unat c) (nxt s) s u \<and> rx_st u = rx_st s"
  using assms
proof (induction env c s rule: deliver_all_sdus_from.induct)
  case (1 env c s)
  show ?case
  proof (cases "c < rx_next (rx_st s)")
    case False
    then have "unat c = nxt s" using 1(3) by (simp add: word_less_nat_alt)
    then show ?thesis using False rx_gave_refl [OF 1(2)] by (subst deliver_all_sdus_from.simps) auto
  next
    case True
    have c1: "unat (c + 1) = unat c + 1" by (rule unat_add_one [OF True])
    have lt: "unat c < nxt s" using True by (simp add: word_less_nat_alt)
    obtain t where t: "(if has_sn (rx_window s) c then deliver_at env c s else Inr s) = Inr t"
      "rx_gave (unat c) (unat c + 1) s t" "rx_st t = rx_st s"
      using deliver_at_gave [OF 1(2), of c env] skip_gave [OF 1(2), of c] by (cases "has_sn (rx_window s) c") auto
    obtain u where u: "deliver_all_sdus_from env (c + 1) t = Inr u" "rx_gave (unat c + 1) (nxt s) t u" "rx_st u = rx_st t"
      using 1(1) [OF True t(1)] t(2,3) lt c1 rx_gave_ok [OF t(2)] by auto
    have "rx_gave (unat c) (nxt s) s u" using rx_gave_trans [OF t(2) u(2)] lt unat_less_bound by simp
    then show ?thesis using True t(1,3) u by (subst deliver_all_sdus_from.simps) auto
  qed
qed

lemma discard_all_sdus_effect:
  assumes "win_ok s" and "dlv s \<le> nxt s"
  shows "\<exists>u. discard_all_sdus s = Inr u \<and> rx_core u = rx_core s \<and> rx_outbox u = rx_outbox s \<and> win_ok u \<and>
    win_width (rx_window u) = win_width (rx_window s) \<and>
    (\<forall>c. stored u c = (if dlv s \<le> unat c \<and> unat c < nxt s then None else stored s c))"
  using assms
proof (induction s rule: discard_all_sdus.induct)
  case (1 s)
  show ?case
  proof (cases "rx_deliv (rx_st s) \<noteq> rx_next (rx_st s)")
    case False
    then show ?thesis using 1(2) by (subst discard_all_sdus.simps) auto
  next
    case True
    let ?d = "rx_deliv (rx_st s)"
    have lt: "dlv s < nxt s" using True 1(3) by (simp add: word_unat_eq_iff)
    have wf: "win_wf (rx_window s)" using 1(2) by (simp add: win_ok_def)
    define t where "t = (if has_sn (rx_window s) ?d then s\<lparr>rx_window := win_del ?d (rx_window s)\<rparr> else s)"
    have t: "(if has_sn (rx_window s) ?d then seq_run (remove_sn ?d (rx_window s)) (\<lambda>w. Inr (s\<lparr>rx_window := w\<rparr>)) else Inr s) = Inr t"
      by (simp add: t_def remove_sn_del)
    have st: "stored t c = (if c = ?d then None else stored s c)" for c
      by (auto simp: t_def stored_def win.look_del [OF wf] has_sn_find)
    have ts: "win_ok t" "rx_st t = rx_st s" "rx_core t = rx_core s" "rx_outbox t = rx_outbox s"
      "win_width (rx_window t) = win_width (rx_window s)"
      using 1(2) st by (auto simp: win_ok_def t_def win.wf_del [OF wf] rx_core_def win.width_del)
    have d1: "unat (?d + 1) = dlv s + 1" by (rule unat_add_one [where b = "rx_next (rx_st s)"]) (use lt in \<open>simp add: word_less_nat_alt\<close>)
    obtain u where u: "discard_all_sdus (advance_deliv t) = Inr u" "rx_core u = rx_core (advance_deliv t)"
      "rx_outbox u = rx_outbox (advance_deliv t)" "win_ok u" "win_width (rx_window u) = win_width (rx_window t)"
      "\<forall>c. stored u c = (if dlv s + 1 \<le> unat c \<and> unat c < nxt s then None else stored t c)"
      using 1(1) [OF True t] ts d1 lt by auto
    have "stored u c = (if dlv s \<le> unat c \<and> unat c < nxt s then None else stored s c)" for c
      using u(6) st lt by (auto simp: word_unat_eq_iff)
    moreover have "rx_core (advance_deliv t) = rx_core t" "rx_outbox (advance_deliv t) = rx_outbox t"
      by (simp_all add: advance_deliv_def rx_core_def)
    ultimately show ?thesis using u ts True t by (subst discard_all_sdus.simps) auto
  qed
qed

text \<open>An empty window with all three counters equal satisfies the invariant.\<close>

lemma reset_inv:
  assumes "rx_cfg_ok (rx_cfg u)" "win_ok u" "win_width (rx_window u) = rx_win_nat u" "\<And>c. stored u c = None"
    and "rx_st u = \<lparr>rx_next = k, rx_deliv = k, rx_reord = k\<rparr>" "unat k \<le> rx_hard u" "\<not> rx_timer_running u" "rx_idle u"
  shows "rx_inv u"
  using assms by (simp add: rx_inv_def rx_bounds_def rx_timer_ok_def rx_idle_def pending_counts_def)

lemma rx_bounds_empty_above:
  "rx_bounds s \<Longrightarrow> \<forall>c. stored u c = (if dlv s \<le> unat c \<and> unat c < nxt s then None else stored s c) \<Longrightarrow> stored u c = None"
  unfolding rx_bounds_def by (metis (full_types))

lemma rx_suspend_correct:
  assumes inv: "rx_inv s" and idle: "rx_idle s"
  shows "\<exists>ok u. rx_suspend env s = Inr (ok, u) \<and> rx_inv u \<and> ok = (\<not> rx_suspended s \<and> rx_buffering s) \<and>
    (ok \<longrightarrow> rx_suspended u \<and> rx_st u = zero_st \<and> (\<forall>c. stored u c = None) \<and>
       (rx_rohc s = None \<longrightarrow> rx_outbox u = rx_outbox s @ stored_events s (dlv s) (nxt s))) \<and>
    (\<not> ok \<longrightarrow> u = s)"
proof (cases "\<not> rx_suspended s \<and> rx_buffering s")
  case False
  then show ?thesis using inv by (auto simp: rx_suspend_def)
next
  case True
  let ?t = "rx_stop_timer s"
  note b = rx_invD(1) [OF inv]
  have bt: "win_ok ?t" "unat (rx_deliv (rx_st ?t)) \<le> nxt ?t"
    using rx_invD(4,5) [OF inv] by (simp_all add: win_ok_def)
  obtain u where u: "deliver_all_sdus env ?t = Inr u" "rx_gave (dlv s) (nxt s) ?t u"
    using deliver_all_sdus_from_gave [OF bt, of env] by (auto simp: deliver_all_sdus_def)
  have core: "rx_core u = rx_core ?t" using u(2) by (simp add: rx_gave_def)
  note f = rx_core_fields [OF core]
  let ?u = "u\<lparr>rx_st := zero_st, rx_suspended := True\<rparr>"
  have "\<forall>c. stored u c = (if dlv s \<le> unat c \<and> unat c < nxt s then None else stored s c)"
    using u(2) by (simp add: rx_gave_def cong: if_cong)
  then have none: "stored ?u c = None" for c
    using rx_bounds_empty_above [OF b, of u c] by (simp add: stored_def)
  have "rx_inv ?u"
    by (rule reset_inv [where k = 0])
       (use f b u(2) idle none in \<open>auto simp: rx_gave_def rx_bounds_def win_ok_def stored_def zero_st_def rx_idle_def rx_stop_timer_def\<close>)
  moreover have "rx_rohc s = None \<longrightarrow> rx_outbox ?u = rx_outbox s @ stored_events s (dlv s) (nxt s)"
    using u(2) by (auto simp: rx_gave_def rx_stop_timer_def stored_events_def stored_counts_def stored_def)
  ultimately show ?thesis using True u(1) none by (intro exI [of _ True] exI [of _ ?u]) (simp add: rx_suspend_def)
qed

text \<open>Re-establishment: security and header decompression do not touch the window.\<close>

lemma rx_configure_security_frame:
  assumes "rx_configure_security env cfg ie ce s = Inr u"
  shows "rx_cfg u = rx_cfg s \<and> rx_st u = rx_st s \<and> rx_window u = rx_window s \<and> rx_timer_running u = rx_timer_running s \<and>
    rx_stopped u = rx_stopped s \<and> rx_outbox u = rx_outbox s \<and> rx_crypto_tasks u = rx_crypto_tasks s \<and>
    rx_ue_tasks u = rx_ue_tasks s \<and> rx_token_mngr u = rx_token_mngr s \<and>
    rx_max_count_notified u = rx_max_count_notified s \<and> rx_max_count_overflow u = rx_max_count_overflow s"
  using assms by (auto simp: rx_configure_security_def seq_run_Inr split: if_splits)

text \<open>What happens to the SDUs, before security is configured anew.\<close>

definition reestablish_flush :: "'r pdcp_rx_env \<Rightarrow> 'r pdcp_rx \<Rightarrow> 'r pdcp_rx run" where
  "reestablish_flush env s =
     seq_run (if rx_is_srb s then discard_all_sdus s else Inr s) (\<lambda>s.
       (if rx_is_srb s \<or> rx_is_um s then
          (let s = (if rx_timer_running s then rx_stop_timer s else s) in
           if rx_is_um s then deliver_all_sdus env s else Inr s)
        else Inr s))"

definition reestablish_reset :: "'r pdcp_rx_env \<Rightarrow> 'r pdcp_rx \<Rightarrow> 'r pdcp_rx" where
  "reestablish_reset env s =
     (let s = init_header_decompression env s in
      if rx_is_srb s \<or> rx_is_um s then s\<lparr>rx_st := zero_st\<rparr> else s)"

lemma rx_reestablish_split:
  "rx_reestablish env cfg s = seq_run (reestablish_flush env s) (\<lambda>s.
     let s = reestablish_reset env s in
     rx_configure_security env cfg (rx_integrity_enabled s) (rx_ciphering_enabled s) s)"
  by (cases "if rx_is_srb s then discard_all_sdus s else Inr s")
     (simp_all add: rx_reestablish_def reestablish_flush_def reestablish_reset_def Let_def)

definition flush_done :: "'r pdcp_rx \<Rightarrow> 'r pdcp_rx \<Rightarrow> bool" where
  "flush_done s u \<longleftrightarrow> rx_cfg u = rx_cfg s \<and> win_ok u \<and> win_width (rx_window u) = win_width (rx_window s) \<and>
     (\<forall>c. stored u c = None) \<and> \<not> rx_timer_running u \<and> same_tasks s u \<and>
     rx_max_count_notified u = rx_max_count_notified s \<and> rx_max_count_overflow u = rx_max_count_overflow s \<and>
     (rx_is_srb s \<longrightarrow> rx_outbox u = rx_outbox s) \<and>
     (\<not> rx_is_srb s \<longrightarrow> rx_rohc s = None \<longrightarrow> rx_outbox u = rx_outbox s @ stored_events s (dlv s) (nxt s))"

lemma if_stop_timer: "(if rx_timer_running s then rx_stop_timer s else s) = rx_stop_timer s"
  by (simp add: rx_stop_timer_def)

lemma deliver_all_sdus_empty:
  assumes "rx_bounds s"
  shows "\<exists>u. deliver_all_sdus env (rx_stop_timer s) = Inr u \<and> rx_core u = rx_core (rx_stop_timer s) \<and> win_ok u \<and>
    win_width (rx_window u) = win_width (rx_window s) \<and> (\<forall>c. stored u c = None) \<and>
    (rx_rohc s = None \<longrightarrow> rx_outbox u = rx_outbox s @ stored_events s (dlv s) (nxt s))"
proof -
  let ?t = "rx_stop_timer s"
  have bt: "win_ok ?t" "unat (rx_deliv (rx_st ?t)) \<le> nxt ?t"
    using assms by (simp_all add: win_ok_def rx_bounds_def)
  obtain u where u: "deliver_all_sdus env ?t = Inr u" "rx_gave (dlv s) (nxt s) ?t u"
    using deliver_all_sdus_from_gave [OF bt, of env] by (auto simp: deliver_all_sdus_def)
  have "\<forall>c. stored u c = (if dlv s \<le> unat c \<and> unat c < nxt s then None else stored s c)"
    using u(2) by (simp add: rx_gave_def cong: if_cong)
  then have "stored u c = None" for c using rx_bounds_empty_above [OF assms, of u c] by simp
  then show ?thesis using u
    by (auto simp: rx_gave_def rx_stop_timer_def stored_events_def stored_counts_def stored_def)
qed

lemma reestablish_flush_srb:
  assumes inv: "rx_inv s" and srb: "rx_is_srb s" and am: "\<not> rx_is_um s"
  shows "\<exists>u. reestablish_flush env s = Inr u \<and> flush_done s u"
proof -
  obtain t where t: "discard_all_sdus s = Inr t" "rx_core t = rx_core s" "rx_outbox t = rx_outbox s" "win_ok t"
    "win_width (rx_window t) = win_width (rx_window s)"
    "\<forall>c. stored t c = (if dlv s \<le> unat c \<and> unat c < nxt s then None else stored s c)"
    using discard_all_sdus_effect rx_invD(4,5) [OF inv] by blast
  note f = rx_core_fields [OF t(2)]
  have none: "stored t c = None" for c using rx_bounds_empty_above [OF rx_invD(1) [OF inv], of t c] t(6) by blast
  have "reestablish_flush env s = Inr (rx_stop_timer t)"
    using t(1) srb am f(1) by (simp add: reestablish_flush_def if_stop_timer rx_is_srb_def rx_is_um_def)
  moreover have "flush_done s (rx_stop_timer t)"
    using t(3-5) f none srb by (simp add: flush_done_def win_ok_def same_tasks_def) (simp add: rx_stop_timer_def)
  ultimately show ?thesis by blast
qed

lemma reestablish_flush_um:
  assumes inv: "rx_inv s" and drb: "\<not> rx_is_srb s" and um: "rx_is_um s"
  shows "\<exists>u. reestablish_flush env s = Inr u \<and> flush_done s u"
proof -
  obtain u where u: "deliver_all_sdus env (rx_stop_timer s) = Inr u" "rx_core u = rx_core (rx_stop_timer s)" "win_ok u"
    "win_width (rx_window u) = win_width (rx_window s)" "\<forall>c. stored u c = None"
    "rx_rohc s = None \<longrightarrow> rx_outbox u = rx_outbox s @ stored_events s (dlv s) (nxt s)"
    using deliver_all_sdus_empty [OF rx_invD(1) [OF inv], of env] by auto
  note f = rx_core_fields [OF u(2)]
  have "rx_is_um (rx_stop_timer s)" using um by (simp add: rx_is_um_def)
  then have "reestablish_flush env s = Inr u" using u(1) drb um by (simp add: reestablish_flush_def if_stop_timer)
  moreover have "flush_done s u"
    using u(3-6) f drb by (simp add: flush_done_def same_tasks_def) (simp add: rx_stop_timer_def)
  ultimately show ?thesis by blast
qed

lemma rx_reestablish_correct:
  assumes inv: "rx_inv s" and idle: "rx_idle s" and run: "rx_reestablish env cfg s = Inr u"
    and kind: "rx_is_srb s \<longrightarrow> \<not> rx_is_um s"
  shows "rx_inv u \<and> rx_idle u \<and>
    (rx_is_srb s \<longrightarrow> rx_outbox u = rx_outbox s) \<and>
    (\<not> rx_is_srb s \<longrightarrow> rx_is_um s \<longrightarrow> rx_rohc s = None \<longrightarrow> rx_outbox u = rx_outbox s @ stored_events s (dlv s) (nxt s)) \<and>
    (rx_is_srb s \<or> rx_is_um s \<longrightarrow> rx_st u = zero_st \<and> (\<forall>c. stored u c = None)) \<and>
    (\<not> rx_is_srb s \<longrightarrow> \<not> rx_is_um s \<longrightarrow> rx_st u = rx_st s \<and> stored u = stored s \<and> rx_outbox u = rx_outbox s)"
proof -
  obtain t where t: "reestablish_flush env s = Inr t"
    "rx_configure_security env cfg (rx_integrity_enabled (reestablish_reset env t))
       (rx_ciphering_enabled (reestablish_reset env t)) (reestablish_reset env t) = Inr u"
    using run by (auto simp: rx_reestablish_split seq_run_Inr Let_def)
  note f = rx_configure_security_frame [OF t(2)]
  have ihd: "rx_cfg (init_header_decompression env t) = rx_cfg t" "rx_st (init_header_decompression env t) = rx_st t"
    "rx_window (init_header_decompression env t) = rx_window t" "rx_outbox (init_header_decompression env t) = rx_outbox t"
    "rx_timer_running (init_header_decompression env t) = rx_timer_running t"
    "rx_stopped (init_header_decompression env t) = rx_stopped t"
    "rx_crypto_tasks (init_header_decompression env t) = rx_crypto_tasks t"
    "rx_ue_tasks (init_header_decompression env t) = rx_ue_tasks t"
    by (simp_all add: init_header_decompression_def)
  show ?thesis
  proof (cases "rx_is_srb s \<or> rx_is_um s")
    case True
    then have d: "flush_done s t"
      using reestablish_flush_srb [OF inv, of env] reestablish_flush_um [OF inv, of env] kind t(1)
      by (cases "rx_is_srb s") auto
    have "rx_is_srb t \<or> rx_is_um t" using True d by (simp add: flush_done_def rx_is_srb_def rx_is_um_def)
    then have r: "rx_st (reestablish_reset env t) = zero_st" "rx_window (reestablish_reset env t) = rx_window t"
      "rx_cfg (reestablish_reset env t) = rx_cfg t" "rx_timer_running (reestablish_reset env t) = rx_timer_running t"
      "rx_outbox (reestablish_reset env t) = rx_outbox t" "rx_idle (reestablish_reset env t) = rx_idle t"
      using ihd by (auto simp: reestablish_reset_def rx_is_srb_def rx_is_um_def Let_def rx_idle_def)
    have none: "stored u c = None" for c using d f r by (simp add: flush_done_def stored_def)
    have id: "rx_idle u" using d idle f r by (simp add: flush_done_def same_tasks_def rx_idle_def)
    have "rx_inv u"
      by (rule reset_inv [where k = 0])
         (use f r d none id rx_invD(1) [OF inv] in \<open>auto simp: flush_done_def rx_bounds_def win_ok_def stored_def zero_st_def\<close>)
    then show ?thesis using True d f r none id by (auto simp: flush_done_def)
  next
    case False
    then have ts: "t = s" using t(1) by (simp add: reestablish_flush_def)
    have e: "reestablish_reset env s = init_header_decompression env s"
      using False ihd ts by (simp add: reestablish_reset_def rx_is_srb_def rx_is_um_def)
    have "rx_inv u"
      by (rule rx_inv_transfer [OF inv])
         (use f ihd ts e idle in \<open>simp_all add: pending_counts_def rx_idle_def\<close>)
    then show ?thesis using False f ihd ts e idle by (auto simp: rx_idle_def stored_def fun_eq_iff)
  qed
qed

section \<open>The transition system\<close>

inductive rx_step :: "'r pdcp_rx_env \<Rightarrow> 'r pdcp_rx \<Rightarrow> 'r pdcp_rx \<Rightarrow> bool" for env where
  Step_pdu: "handle_pdu ch buf s = Inr u \<Longrightarrow> rx_step env s u"
| Step_crypto: "run_crypto_task env worker ue_ok i s = Inr u \<Longrightarrow> rx_step env s u"
| Step_ue: "run_ue_task env s = Inr u \<Longrightarrow> rx_step env s u"
| Step_expire: "rx_timer_running s \<Longrightarrow> reordering_callback env (rx_stop_timer s) = Inr u \<Longrightarrow> rx_step env s u"
| Step_begin: "rx_step env s (begin_buffering s)"
| Step_end: "end_buffering choices s = Inr u \<Longrightarrow> rx_step env s u"
| Step_stop: "rx_stop s = Inr u \<Longrightarrow> rx_step env s u"
| Step_notify: "rx_notify_pdu_processing_stopped s = Inr u \<Longrightarrow> rx_step env s u"
| Step_restart: "rx_step env s (rx_restart_pdu_processing s)"

lemma rx_inv_stop: "rx_inv s \<Longrightarrow> rx_stopped s \<Longrightarrow> rx_inv (rx_stop_timer s)"
  by (simp add: rx_inv_def rx_timer_ok_def)

lemma rx_effect_stop [simp]: "rx_effect s (rx_stop_timer u) = rx_effect s u"
  by (simp add: rx_effect_def)

lemma stopped_inv:
  assumes "rx_inv s"
  shows "rx_inv (rx_stop_timer (s\<lparr>rx_stopped := True\<rparr>)) \<and> rx_effect s (rx_stop_timer (s\<lparr>rx_stopped := True\<rparr>))"
proof -
  have "rx_bounds (s\<lparr>rx_stopped := True\<rparr>) = rx_bounds s" "stored (s\<lparr>rx_stopped := True\<rparr>) = stored s"
    by (simp_all add: rx_bounds_def pending_counts_def count_ok_def win_ok_def stored_def fun_eq_iff)
  then show ?thesis using assms by (simp add: rx_inv_def rx_timer_ok_def rx_effect_def)
qed

lemma quiet_field_inv:
  assumes "rx_inv s" "quiet s u" "pending_counts u = pending_counts s"
  shows "rx_inv u \<and> rx_effect s u"
  by (rule quiet_inv [OF assms(1,2)]) (use assms(3) rx_inv_pending [OF assms(1)] in simp)

lemma rx_step_correct:
  assumes "rx_step env s u" and inv: "rx_inv s"
  shows "rx_inv u \<and> rx_effect s u"
  using assms(1)
proof cases
  case (Step_pdu ch buf)
  then show ?thesis using handle_pdu_quiet [OF inv Step_pdu] quiet_inv [OF inv] by blast
next
  case (Step_crypto worker ue_ok i)
  then show ?thesis using run_crypto_task_correct [OF inv] by blast
next
  case Step_ue
  then show ?thesis using run_ue_task_correct [OF inv] by blast
next
  case Step_expire
  show ?thesis
  proof (cases "rx_stopped s")
    case True
    then show ?thesis using Step_expire rx_inv_stop [OF inv True] by (auto simp: reordering_callback_def rx_stop_timer_def rx_effect_def)
  next
    case False
    then show ?thesis using reordering_callback_correct [OF inv Step_expire(1) False, of env] Step_expire(2) by auto
  qed
next
  case Step_begin
  then show ?thesis by (simp only:) (rule quiet_field_inv [OF inv], simp_all add: begin_buffering_def pending_counts_def)
next
  case (Step_end choices)
  let ?s = "s\<lparr>rx_buffering := False\<rparr>"
  have "rx_inv ?s" by (rule quiet_field_inv [OF inv, THEN conjunct1]) (simp_all add: pending_counts_def)
  from flush_quiet [OF this] Step_end have "rx_inv u \<and> rx_effect ?s u"
    using quiet_inv [OF \<open>rx_inv ?s\<close>] unfolding end_buffering_def by blast
  then show ?thesis by (simp add: rx_effect_def)
next
  case Step_stop
  show ?thesis
  proof (cases "rx_stopped s")
    case True
    then show ?thesis using Step_stop inv by (simp add: rx_stop_def)
  next
    case False
    let ?t = "rx_stop_timer (s\<lparr>rx_stopped := True\<rparr>)"
    obtain m where u: "u = ?t\<lparr>rx_token_mngr := m\<rparr>"
      using Step_stop False by (auto simp: rx_stop_def seq_run_Inr Let_def)
    have "rx_inv ?t" "rx_effect s ?t" using stopped_inv [OF inv] by auto
    moreover from this have "rx_inv u \<and> rx_effect ?t u"
      by (intro quiet_field_inv) (simp_all add: u pending_counts_def)
    ultimately show ?thesis using rx_effect_trans by blast
  qed
next
  case Step_notify
  then show ?thesis
    by (intro quiet_field_inv [OF inv])
       (auto simp: rx_notify_pdu_processing_stopped_def seq_run_Inr pending_counts_def split: if_splits)
next
  case Step_restart
  then show ?thesis
    by (simp only:) (rule quiet_field_inv [OF inv], simp_all add: rx_restart_pdu_processing_def pending_counts_def)
qed

lemma rx_steps_correct:
  assumes "(rx_step env)\<^sup>*\<^sup>* s u" and inv: "rx_inv s"
  shows "rx_inv u \<and> rx_effect s u"
  using assms(1)
proof (induction rule: rtranclp_induct)
  case (step t u)
  then show ?case using rx_step_correct [OF step(2)] rx_effect_trans by blast
qed (simp add: inv)

text \<open>A newly built entity.\<close>

lemma window_size_pow2: "sn_size_ok z \<Longrightarrow> \<exists>k. unat (pdcp_window_size_of_bits (pdcp_sn_size_to_uint z)) = 2 ^ k \<and> 2 ^ k = window_nat z"
  using window_nat_pow2 [of z] pdcp_window_sizes_agree [of z] by (auto simp: window_nat_def)

lemma pdcp_entity_rx_inv:
  assumes "rx_cfg_ok cfg" and "pdcp_entity_rx env cfg bid m = Inr s"
  shows "rx_inv s \<and> rx_idle s \<and> rx_outbox s = [] \<and> rx_tokens False s \<and> rx_st s = zero_st"
proof -
  obtain k where k: "unat (pdcp_window_size_of_bits (pdcp_sn_size_to_uint (rxc_sn_size cfg))) = 2 ^ k"
    "2 ^ k = window_nat (rxc_sn_size cfg)"
    using window_size_pow2 [of "rxc_sn_size cfg"] assms(1) unfolding rx_cfg_ok_def by blast
  let ?w = "\<lparr>win_map = \<lparr>cm_max_size = 2 ^ k, cm_data = Map.empty, cm_count = 0\<rparr>\<rparr> :: pdcp_rx_sdu_info sdu_window"
  have s: "rx_cfg s = cfg" "rx_st s = zero_st" "rx_window s = ?w" "\<not> rx_timer_running s" "rx_crypto_tasks s = []"
    "rx_ue_tasks s = []" "rx_outbox s = []" "rx_token_mngr s = tm_init"
    using assms(2) k(1) by (auto simp: pdcp_entity_rx_def win_create_pow2 init_header_decompression_def split: if_splits)
  have none: "stored s c = None" for c by (simp add: stored_def s(3))
  have "win_ok s" using none win_wf_fresh [of k] by (simp add: win_ok_def s(3))
  moreover have "win_width (rx_window s) = rx_win_nat s" by (simp add: s k(2) [symmetric] win_width_def)
  ultimately have "rx_inv s"
    by (intro reset_inv [where k = 0]) (use assms(1) s none in \<open>simp_all add: zero_st_def rx_idle_def\<close>)
  then show ?thesis using s tm_state_init by (simp add: rx_idle_def rx_tokens_def)
qed

section \<open>When a crypto task cannot fail\<close>

lemma deciphered_length:
  assumes "prims_ok P" and "deciphered P eng buf offset count = (s0, d)" and "offset \<le> length buf"
  shows "length d = length buf"
proof (cases "cipher_eng eng")
  case None
  then show ?thesis using assms(2) by (simp add: deciphered_def)
next
  case (Some c)
  then have a: "apply_ciphering P c buf offset count = (s0, d)" using assms(2) by (simp add: deciphered_def)
  show ?thesis
  proof (cases "s0 = Success")
    case True
    then show ?thesis using apply_ciphering_involution [OF assms(1) _ assms(3)] a by simp
  next
    case False
    then show ?thesis using a by (auto simp: apply_ciphering_def split: option.splits)
  qed
qed

text \<open>
  A PDU that holds a header, a MAC and at least one more byte never stops the program, whatever
  its content.
\<close>

lemma apply_security_long_pdu:
  assumes P: "prims_ok (env_prims env)" and w: "w < env_nof_workers env"
    and len: "(if rxc_sn_size (rx_cfg s) = Size12bits then 2 else 3) + sec_mac_len < length (pdu_buf i)"
  shows "\<exists>r. apply_security env w True i s = Inr r"
proof -
  let ?h = "if rxc_sn_size (rx_cfg s) = Size12bits then 2 else 3 :: nat"
  have h: "?h \<le> length (pdu_buf i)" using len by linarith
  have "\<exists>st b. apply_deciphering_and_integrity_check env w (pdu_buf i) (pdu_count i) s = Inr (st, b) \<and>
      (is_success st \<longrightarrow> ?h \<le> length b)"
  proof (cases "rx_sec_engines s ! w")
    case None
    then show ?thesis using w len h
      by (auto simp: apply_deciphering_and_integrity_check_def trim_tail_def is_success_def)
  next
    case (Some eng)
    obtain s0 d where d: "deciphered (env_prims env) eng (pdu_buf i) ?h (pdu_count i) = (s0, d)" by fastforce
    have ld: "length d = length (pdu_buf i)" by (rule deciphered_length [OF P d h])
    have chk: "apply_deciphering_and_integrity_check env w (pdu_buf i) (pdu_count i) s =
        decrypt_and_verify_integrity (env_prims env) eng (pdu_buf i) ?h (pdu_count i)"
      using Some w by (simp add: apply_deciphering_and_integrity_check_def)
    show ?thesis
    proof (cases "decrypt_and_verify_integrity (env_prims env) eng (pdu_buf i) ?h (pdu_count i)")
      case (Inl e)
      then show ?thesis using engine_fault [OF Inl d] ld len by linarith
    next
      case (Inr r)
      obtain st b where r: "r = (st, b)" by fastforce
      have "?h \<le> length b" if "is_success st"
        using engine_length [OF Inr [unfolded r] d that] ld len by linarith
      then show ?thesis using Inr r chk by auto
    qed
  qed
  then show ?thesis by (auto simp: apply_security_def trim_head_def post_ue_task_def)
qed

section \<open>The status report\<close>

lemma pack_bitmap_bits:
  assumes "enc_wf e"
  shows "enc_wf (pack_bitmap w i b e) \<and>
    enc_bits (pack_bitmap w i b e) = enc_bits e @ map (\<lambda>n. has_sn w (word_of_nat n)) [unat i ..< unat b]"
  using assms
proof (induction w i b e rule: pack_bitmap.induct)
  case (1 w i b e)
  show ?case
  proof (cases "i < b")
    case False
    then show ?thesis using 1(2) by (subst (1 2) pack_bitmap.simps) (simp add: word_less_nat_alt)
  next
    case True
    let ?e = "pack e (if has_sn w i then 1 else 0) 1"
    have e: "enc_wf ?e" "enc_bits ?e = enc_bits e @ [has_sn w i]"
      using pack_appends [OF 1(2), of 1 "if has_sn w i then 1 else 0"] by (auto simp: field_bits_def)
    have i1: "unat (i + 1) = unat i + 1" by (rule unat_add_one [OF True])
    have lt: "unat i < unat b" using True by (simp add: word_less_nat_alt)
    have "[unat i ..< unat b] = unat i # [unat i + 1 ..< unat b]" using lt by (simp add: upt_conv_Cons)
    then show ?thesis using 1(1) [OF True e(1)] e(2) i1 True by (subst (1 2) pack_bitmap.simps) simp
  qed
qed

lemma unat_add_small:
  fixes a c :: u32
  shows "unat a + unat c < 4294967296 \<Longrightarrow> unat (a + c) = unat a + unat c"
  by (simp add: unat_word_ariths)

lemma bitmap_end_nat:
  assumes "rx_deliv st < rx_next st"
  shows "unat (bitmap_end_of st) = min (unat (rx_next st)) (unat (rx_deliv st) + 1 + 71960)"
proof -
  let ?b = "rx_deliv st + 1"
  have b: "unat ?b = unat (rx_deliv st) + 1" by (rule unat_add_one [OF assms])
  have le: "?b \<le> rx_next st" using assms by (rule word_le_add_one)
  then have d: "unat (rx_next st - ?b) = unat (rx_next st) - unat ?b" by (simp add: unat_sub)
  have m: "(71960 < rx_next st - ?b) = (71960 < unat (rx_next st) - unat ?b)" by (simp add: word_less_nat_alt d)
  show ?thesis
  proof (cases "71960 < rx_next st - ?b")
    case True
    then have "?b < rx_next st" using m le by (auto simp: word_less_nat_alt)
    moreover have "71960 < unat (rx_next st) - unat ?b" using True m by blast
    then have "unat ?b + 71960 < 4294967296" using unat_u32_less [of "rx_next st"] by linarith
    then have "unat ?b + unat (71960 :: u32) < 4294967296" by simp
    then have "unat (?b + 71960) = unat ?b + 71960" by (simp only: unat_add_small) simp
    ultimately show ?thesis using True m b by (simp add: bitmap_end_of_def Let_def)
  next
    case False
    then show ?thesis using m b le by (simp add: bitmap_end_of_def Let_def)
  qed
qed

text \<open>
  The report: a control PDU header, the first missing COUNT, and one bit for each following
  COUNT below RX\_NEXT, as long as the PDU stays within 9000 bytes.
\<close>

lemma status_report_bits:
  assumes "rx_inv s"
  shows "\<exists>k < 8. all_bits (compile_status_report s) =
      replicate 8 False @ field_bits 32 (rx_deliv (rx_st s)) @
      map (\<lambda>n. stored s (word_of_nat n) \<noteq> None) [dlv s + 1 ..< min (nxt s) (dlv s + 1 + 71960)] @ replicate k False"
proof -
  define e1 where "e1 = pack (encoder_init []) (ucast (dc_to_number Dc_control)) 1"
  define e2 where "e2 = pack e1 (ucast (cpt_to_number Status_report)) 3"
  define e3 where "e3 = pack e2 0 4"
  define e4 where "e4 = pack e3 (ucast (rx_deliv (rx_st s))) 32"
  have e1: "enc_wf e1" "enc_bits e1 = [False]"
    using pack_appends [of "encoder_init []" 1 0] by (simp_all add: e1_def field_bits_def)
  have e2: "enc_wf e2" "enc_bits e2 = replicate 4 False"
    using pack_appends [OF e1(1), of 3 0] e1(2) by (simp_all add: e2_def field_bits_def eval_nat_numeral)
  have e3: "enc_wf e3" "enc_bits e3 = replicate 8 False"
    using pack_appends [OF e2(1), of 4 0] e2(2) by (simp_all add: e3_def field_bits_def eval_nat_numeral)
  have fb: "field_bits 32 (ucast (rx_deliv (rx_st s)) :: 64 word) = field_bits 32 (rx_deliv (rx_st s))"
    by (rule nth_equalityI) (auto simp: field_bits_nth bit_simps)
  have e4: "enc_wf e4" "enc_bits e4 = replicate 8 False @ field_bits 32 (rx_deliv (rx_st s))"
    using pack_appends [OF e3(1), of 32 "ucast (rx_deliv (rx_st s))"] e3(2) by (simp_all add: e4_def fb)
  let ?e = "pack_bitmap (rx_window s) (rx_deliv (rx_st s) + 1) (bitmap_end_of (rx_st s)) e4"
  have r: "compile_status_report s = enc_bytes ?e"
    by (simp add: compile_status_report_def Let_def e1_def e2_def e3_def e4_def)
  have "[unat (rx_deliv (rx_st s) + 1) ..< unat (bitmap_end_of (rx_st s))] =
      [dlv s + 1 ..< min (nxt s) (dlv s + 1 + 71960)]"
  proof (cases "rx_deliv (rx_st s) < rx_next (rx_st s)")
    case True
    then show ?thesis using unat_add_one [OF True] bitmap_end_nat [OF True] by simp
  next
    case False
    then have eq: "rx_next (rx_st s) = rx_deliv (rx_st s)"
      using rx_invD(5) [OF assms] by (simp add: word_less_nat_alt word_unat_eq_iff)
    have cfg: "nxt s \<le> rx_hard s" "rx_hard s + 2 ^ sn_bits (rxc_sn_size (rx_cfg s)) \<le> 2 ^ 32"
      using rx_invD(1) [OF assms] by (simp_all add: rx_bounds_def rx_cfg_ok_def)
    have "(2 :: nat) ^ 1 \<le> 2 ^ sn_bits (rxc_sn_size (rx_cfg s))"
      by (rule power_increasing) (use sn_bits_le(2) [of "rxc_sn_size (rx_cfg s)"] in simp_all)
    then have "(2 :: nat) \<le> 2 ^ sn_bits (rxc_sn_size (rx_cfg s))" by simp
    moreover have "rx_hard s + 2 ^ sn_bits (rxc_sn_size (rx_cfg s)) \<le> 4294967296" "dlv s \<le> rx_hard s"
      using cfg eq by simp_all
    ultimately have "dlv s < 4294967295" by linarith
    then have "dlv s < unat (- 1 :: u32)" by (simp add: unsigned_minus_1_eq_mask mask_eq_exp_minus_1)
    then have "unat (rx_deliv (rx_st s) + 1) = dlv s + 1"
      by (intro unat_add_one [where b = "- 1"]) (simp add: word_less_nat_alt)
    then have nb: "\<not> rx_deliv (rx_st s) + 1 < rx_deliv (rx_st s)" by (simp add: word_less_nat_alt)
    then have "bitmap_end_of (rx_st s) = rx_deliv (rx_st s)" by (simp add: bitmap_end_of_def Let_def eq)
    then show ?thesis using eq nb by (simp add: word_less_nat_alt)
  qed
  then have "enc_wf ?e \<and> enc_bits ?e = replicate 8 False @ field_bits 32 (rx_deliv (rx_st s)) @
      map (\<lambda>n. stored s (word_of_nat n) \<noteq> None) [dlv s + 1 ..< min (nxt s) (dlv s + 1 + 71960)]"
    using pack_bitmap_bits [OF e4(1), of "rx_window s" "rx_deliv (rx_st s) + 1" "bitmap_end_of (rx_st s)"] e4(2)
    by (simp add: has_sn_find stored_def)
  then show ?thesis using enc_bytes_bits [of ?e] unfolding r by auto
qed

lemma status_report_length: "rx_inv s \<Longrightarrow> length (compile_status_report s) \<le> 9000"
proof -
  assume "rx_inv s"
  then obtain k where "k < 8" "all_bits (compile_status_report s) =
      replicate 8 False @ field_bits 32 (rx_deliv (rx_st s)) @
      map (\<lambda>n. stored s (word_of_nat n) \<noteq> None) [dlv s + 1 ..< min (nxt s) (dlv s + 1 + 71960)] @ replicate k False"
    using status_report_bits by blast
  then have "8 * length (compile_status_report s) = 40 + (min (nxt s) (dlv s + 1 + 71960) - (dlv s + 1)) + k"
    by (simp add: all_bits_length [symmetric] del: all_bits_length)
  then show ?thesis using \<open>k < 8\<close> by linarith
qed

end
