(* ===== verification/Pdcp_Rx_Examples.thy ===== *)
theory Pdcp_Rx_Examples
  imports Pdcp_Rx_Steps
begin

text \<open>
  Concrete receiving entities, on which the properties are instantiated: a 12-bit AM DRB and a
  12-bit SRB with the default limits, the DRB after it received COUNT 1 before COUNT 0, and the
  PDUs and engines used with them. There is no ROHC decompressor; the algorithms are those of
  \<open>demo_prims\<close>.
\<close>

definition demo_env :: "unit pdcp_rx_env" where
  "demo_env = \<lparr>env_prims = demo_prims, env_nof_workers = 1, env_create_rohc = None,
     env_rohc_decompress = (\<lambda>r b. (b, [], r))\<rparr>"

definition demo_cfg :: "pdcp_rb_type \<Rightarrow> pdcp_rlc_mode \<Rightarrow> pdcp_rx_config" where
  "demo_cfg rb mode = \<lparr>rxc_rb_type = rb, rxc_rlc_mode = mode, rxc_sn_size = Size12bits, rxc_direction = Uplink,
     rxc_t_reordering = Ms 10, rxc_header_compression = False,
     rxc_max_count = \<lparr>mc_notify = 0xc0000000, mc_hard = 0xd0000000\<rparr>\<rparr>"

definition demo_window :: "pdcp_rx_sdu_info sdu_window" where
  "demo_window = \<lparr>win_map = \<lparr>cm_max_size = 2 ^ 11, cm_data = Map.empty, cm_count = 0\<rparr>\<rparr>"

definition demo_rx :: "pdcp_rb_type \<Rightarrow> pdcp_rlc_mode \<Rightarrow> unit pdcp_rx" where
  "demo_rx rb mode = \<lparr>rx_cfg = demo_cfg rb mode, rx_bearer_id = 0, rx_stopped = False, rx_rohc = None,
     rx_sec_engines = [None], rx_integrity_enabled = Integ_off, rx_ciphering_enabled = Cipher_off,
     rx_st = zero_st, rx_window = demo_window, rx_timer_running = False, rx_token_mngr = tm_init,
     rx_buffering = False, rx_suspended = False, rx_resume_requested = False,
     rx_pdu_buffer = rb_create 2048, rx_max_count_notified = False, rx_max_count_overflow = False,
     rx_metrics = rx_metrics_init True, rx_crypto_tasks = [], rx_ue_tasks = [], rx_outbox = []\<rparr>"

lemma demo_cfg_ok: "rx_cfg_ok (demo_cfg rb mode)"
  by (simp add: rx_cfg_ok_def demo_cfg_def sn_size_ok_def pdcp_sn_size_to_uint_def)

lemma demo_rx_built: "pdcp_entity_rx demo_env (demo_cfg rb mode) 0 True = Inr (demo_rx rb mode)"
proof -
  have "unat (pdcp_window_size_of_bits 12) = 2 ^ 11"
    by (simp add: pdcp_window_size_of_bits_def pcdp_sn_cardinality_def push_bit_eq_mult)
  then show ?thesis
    by (simp only: pdcp_entity_rx_def demo_cfg_def pdcp_sn_size_to_uint_def pdcp_rx_config.simps
        pdcp_sn_size.simps win_create_pow2 seq_run_simps)
       (simp add: init_header_decompression_def demo_rx_def demo_cfg_def demo_window_def demo_env_def)
qed

lemma demo_rx_ok: "rx_inv (demo_rx rb mode)" "rx_idle (demo_rx rb mode)" "rx_tokens False (demo_rx rb mode)"
  using pdcp_entity_rx_inv [OF demo_cfg_ok demo_rx_built] by simp_all

lemma demo_rx_simps [simp]:
  "rx_cfg (demo_rx rb mode) = demo_cfg rb mode" "rx_st (demo_rx rb mode) = zero_st" "rx_rohc (demo_rx rb mode) = None"
  "rx_outbox (demo_rx rb mode) = []" "rx_stopped (demo_rx rb mode) = False" "rx_crypto_tasks (demo_rx rb mode) = []"
  "rx_ue_tasks (demo_rx rb mode) = []" "rx_sec_engines (demo_rx rb mode) = [None]" "rx_buffering (demo_rx rb mode) = False"
  "rx_suspended (demo_rx rb mode) = False" "rx_token_mngr (demo_rx rb mode) = tm_init"
  by (simp_all add: demo_rx_def)

lemma demo_hard: "rx_hard (demo_rx rb mode) = 0xd0000000" "rx_win_nat (demo_rx rb mode) = 2048"
  by (simp_all add: demo_cfg_def window_nat_values)

text \<open>A PDU of COUNT 1 arrives first, then one of COUNT 0.\<close>

definition demo_pdu :: "u32 \<Rightarrow> pdcp_rx_pdu_info" where
  "demo_pdu c = \<lparr>pdu_buf = [0xaa, 0xbb, ucast c], pdu_count = c, pdu_integrity_verified = False\<rparr>"

lemma demo_pdu_ok: "unat c < 2048 \<Longrightarrow> count_ok (demo_rx rb mode) (pdu_count (demo_pdu c))"
  by (simp add: count_ok_def demo_pdu_def demo_cfg_def window_nat_values zero_st_def)

definition demo_gap :: "unit pdcp_rx" where
  "demo_gap = rx_run_timer (reord_to_next (inserted (demo_pdu 1) (demo_rx Drb Am)))"

lemma demo_rx_stored [simp]: "stored (demo_rx rb mode) c = None"
  by (simp add: stored_def demo_rx_def demo_window_def)

lemma demo_gap_run: "apply_reordering demo_env (demo_pdu 1) (demo_rx Drb Am) = Inr demo_gap"
proof -
  have c: "count_ok (demo_rx Drb Am) (pdu_count (demo_pdu 1))" by (rule demo_pdu_ok) simp
  show ?thesis
    unfolding apply_reordering_cases [OF rx_invD(1) [OF demo_rx_ok(1)] c] settle_def
    by (simp add: demo_pdu_def zero_st_def update_reordering_timer_def demo_gap_def demo_cfg_def Let_def)
       (simp add: demo_rx_def)
qed

lemma demo_gap_ok: "rx_inv demo_gap" "rx_idle demo_gap"
  using apply_reordering_correct [OF demo_rx_ok(1) demo_pdu_ok [of 1 Drb Am], of demo_env] demo_gap_run demo_rx_ok(2)
  by (auto simp: same_tasks_def rx_idle_def)

lemma demo_gap_simps [simp]:
  "rx_timer_running demo_gap" "rx_cfg demo_gap = demo_cfg Drb Am" "rx_stopped demo_gap = False"
  "rx_rohc demo_gap = None" "rx_next (rx_st demo_gap) = 2" "rx_deliv (rx_st demo_gap) = 0" "rx_reord (rx_st demo_gap) = 2"
  by (simp_all add: demo_gap_def demo_pdu_def zero_st_def) (simp add: rx_run_timer_def reord_to_next_def)

lemma demo_gap_contents: "stored demo_gap = [1 \<mapsto> sdu_of (demo_pdu 1)]"
proof -
  have b: "rx_bounds (demo_rx Drb Am)" using rx_invD(1) [OF demo_rx_ok(1)] by simp
  have e: "stored (demo_rx Drb Am) = Map.empty" by (simp add: fun_eq_iff)
  show ?thesis
    using inserted_bounds(2) [OF b demo_pdu_ok [of 1]] e by (simp add: demo_gap_def) (simp add: demo_pdu_def zero_st_def)
qed

lemma demo_gap_stored: "stored demo_gap 1 \<noteq> None" "stored demo_gap 0 = None"
  by (simp_all add: demo_gap_contents)

text \<open>Its status report: COUNT 0 is the FMC, COUNT 1 has been received.\<close>

lemma demo_report_length: "length (compile_status_report demo_gap) = 6"
proof -
  obtain k where k: "k < 8" "all_bits (compile_status_report demo_gap) =
      replicate 8 False @ field_bits 32 (rx_deliv (rx_st demo_gap)) @
      map (\<lambda>n. stored demo_gap (word_of_nat n) \<noteq> None) [dlv demo_gap + 1 ..< min (nxt demo_gap) (dlv demo_gap + 1 + 71960)] @
      replicate k False"
    using status_report_bits [OF demo_gap_ok(1)] by blast
  have "8 * length (compile_status_report demo_gap) = 41 + k"
    using arg_cong [OF k(2), of length] by simp
  then show ?thesis using k(1) by presburger
qed

text \<open>A data PDU with SN 5 on the DRB.\<close>

lemma demo_handle_pdu:
  "\<exists>u. handle_pdu \<lparr>copy_ok = True, crypto_ok = True\<rparr> [0x80, 5, 7] (demo_rx Drb Am) = Inr u \<and>
     rx_crypto_tasks u = [\<lparr>pdu_buf = [0x80, 5, 7], pdu_count = 5, pdu_integrity_verified = False\<rparr>]"
proof -
  have s: "rx_stopped (request_resume (demo_rx Drb Am)) = False" "rx_buffering (request_resume (demo_rx Drb Am)) = False"
    "request_resume (demo_rx Drb Am) = demo_rx Drb Am" by (simp_all add: request_resume_def)
  have r: "read_data_pdu_header Size12bits [0x80, 5, 7] = Some 5"
    by (simp add: read_data_pdu_header_def pdcp_data_pdu_header_size_def)
  have e: "estimate_count Size12bits 0 5 = 5" by code_simp
  show ?thesis
    by (simp add: handle_pdu_def s handle_data_pdu_def rx_is_srb_def demo_cfg_def pdcp_pdu_get_dc_def r e zero_st_def
        rx_hdr_len_def pdcp_data_pdu_header_size_def check_max_count_def Let_def)
qed

text \<open>The DRB with two PDUs, COUNT 1 and then 0, waiting for the UE executor.\<close>

definition demo_two_tasks :: "unit pdcp_rx" where
  "demo_two_tasks = (demo_rx Drb Am)\<lparr>rx_ue_tasks := [Reorder (demo_pdu 1), Reorder (demo_pdu 0)],
     rx_token_mngr := \<lparr>tokens = 2, pending_crypto = False\<rparr>\<rparr>"

lemma demo_two_tasks_ok: "rx_inv demo_two_tasks" "rx_tokens False demo_two_tasks" "rx_outbox demo_two_tasks = []"
proof -
  have "rx_inv demo_two_tasks \<and> rx_effect (demo_rx Drb Am) demo_two_tasks"
    by (rule quiet_inv [OF demo_rx_ok(1)])
       (use demo_pdu_ok [of 0] demo_pdu_ok [of 1] in \<open>auto simp: demo_two_tasks_def pending_counts_def demo_pdu_def\<close>)
  then show "rx_inv demo_two_tasks" ..
qed (simp_all add: demo_two_tasks_def rx_tokens_def tm_state_def)

end
