(* ===== verification/Pdcp_Rx_Limits.thy ===== *)
theory Pdcp_Rx_Limits
  imports Pdcp_Rx_Steps
begin

text \<open>
  Reception from end to end up to the crypto executor, and three behaviours at the limits: a
  COUNT that underflows in the first HFN, an SRB PDU that is shorter than a header and a MAC,
  and the COUNT notifications after a change of keys.
\<close>

section \<open>A PDU of the peer is given its COUNT\<close>

lemma handle_data_pdu_enqueues:
  assumes inv: "rx_inv s"
    and pdu: "read_data_pdu_header (rxc_sn_size (rx_cfg s)) pdu = Some (pdcp_compute_sn c (rxc_sn_size (rx_cfg s)))"
    and near: "dlv s \<le> unat c + rx_win_nat s" "unat c < dlv s + rx_win_nat s"
    and below: "unat c < rx_hard s"
  shows "\<exists>u. handle_data_pdu True pdu s = Inr u \<and>
    rx_crypto_tasks u = rx_crypto_tasks s @ [\<lparr>pdu_buf = pdu, pdu_count = c, pdu_integrity_verified = False\<rparr>] \<and>
    rx_token_mngr u = increment_token (rx_token_mngr s)"
proof -
  have z: "sn_size_ok (rxc_sn_size (rx_cfg s))" using inv by (simp add: rx_inv_def rx_bounds_def rx_cfg_ok_def)
  have est: "estimate_count (rxc_sn_size (rx_cfg s)) (rx_deliv (rx_st s)) (pdcp_compute_sn c (rxc_sn_size (rx_cfg s))) = c"
    by (rule estimate_count_recovers [OF z near])
  have len: "\<not> length pdu \<le> rx_hdr_len (rx_count f s)" for f
    using read_data_pdu_header_bound(3) [OF pdu] by (simp add: rx_hdr_len_def)
  have nh: "\<not> mc_hard (rxc_max_count (rx_cfg s)) \<le> c" using below by (simp add: word_le_nat_alt)
  show ?thesis
    using len pdu est nh by (simp add: handle_data_pdu_def check_max_count_quiet cong: if_cong)
qed

section \<open>A COUNT that underflows\<close>

text \<open>
  In the first HFN, an SN at least one window above RX\_DELIV gets the HFN \<open>2\<^sup>3\<^sup>2\<^sup>-\<^sup>b - 1\<close>: a COUNT
  beyond the hard limit. Nothing has authenticated the PDU at that point.
\<close>

lemma estimate_underflow:
  assumes z: "sn_size_ok z" and hfn: "unat lower < 2 ^ sn_bits z" and sn: "unat sn < 2 ^ sn_bits z"
    and far: "unat lower + window_nat z \<le> unat sn"
  shows "2 ^ 32 - 2 ^ sn_bits z \<le> unat (estimate_count z lower sn)"
proof -
  have L: "unat lower mod 2 ^ sn_bits z = unat lower" using hfn by simp
  have h0: "pdcp_compute_hfn lower z = 0" using hfn by (simp add: word_unat_eq_iff unat_compute_hfn)
  have "estimate_hfn z lower sn = - 1" using far by (simp add: estimate_hfn_cases [OF z] L h0)
  then have "unat (estimate_count z lower sn) = (4294967295 * 2 ^ sn_bits z + unat sn) mod 2 ^ 32"
    by (simp add: estimate_count_def unat_compute_count [OF sn] unsigned_minus_1_eq_mask mask_eq_exp_minus_1)
  also have "4294967295 * 2 ^ sn_bits z + unat sn = (2 ^ 32 - 2 ^ sn_bits z + unat sn) + (2 ^ sn_bits z - 1) * 2 ^ 32"
    using z by (cases z) (simp_all add: sn_size_ok_def pdcp_sn_size_to_uint_def)
  also have "\<dots> mod 2 ^ 32 = (2 ^ 32 - 2 ^ sn_bits z + unat sn) mod 2 ^ 32" by (rule mod_mult_self1)
  also have "\<dots> = 2 ^ 32 - 2 ^ sn_bits z + unat sn"
    by (rule mod_less) (use z sn in \<open>cases z; simp add: sn_size_ok_def pdcp_sn_size_to_uint_def\<close>)
  finally show ?thesis by linarith
qed

lemma underflow_reports_failure:
  assumes inv: "rx_inv s" and hfn: "dlv s < 2 ^ sn_bits (rxc_sn_size (rx_cfg s))"
    and pdu: "read_data_pdu_header (rxc_sn_size (rx_cfg s)) pdu = Some sn"
    and far: "dlv s + rx_win_nat s \<le> unat sn"
    and fresh: "\<not> rx_max_count_notified s" "\<not> rx_max_count_overflow s"
    and lim: "mc_notify (rxc_max_count (rx_cfg s)) < mc_hard (rxc_max_count (rx_cfg s))"
  shows "\<exists>u. handle_data_pdu ok pdu s = Inr u \<and>
    rx_outbox u = rx_outbox s @ [On_max_count_reached, On_protocol_failure] \<and> rx_crypto_tasks u = rx_crypto_tasks s"
proof -
  let ?c = "estimate_count (rxc_sn_size (rx_cfg s)) (rx_deliv (rx_st s)) sn"
  have cfg: "rx_cfg_ok (rx_cfg s)" using inv by (simp add: rx_inv_def rx_bounds_def)
  have "2 ^ 32 - 2 ^ sn_bits (rxc_sn_size (rx_cfg s)) \<le> unat ?c"
    by (rule estimate_underflow) (use cfg hfn far read_data_pdu_header_bound [OF pdu] in \<open>auto simp: rx_cfg_ok_def\<close>)
  then have "4294967296 - 2 ^ sn_bits (rxc_sn_size (rx_cfg s)) \<le> unat ?c" by simp
  moreover have "rx_hard s + 2 ^ sn_bits (rxc_sn_size (rx_cfg s)) \<le> 4294967296" using cfg by (simp add: rx_cfg_ok_def)
  ultimately have hard: "rx_hard s \<le> unat ?c" by linarith
  then have c: "mc_hard (rxc_max_count (rx_cfg s)) \<le> ?c" "mc_notify (rxc_max_count (rx_cfg s)) < ?c"
    using lim by (simp_all add: word_le_nat_alt word_less_nat_alt)
  have len: "\<not> length pdu \<le> rx_hdr_len (rx_count f s)" for f
    using read_data_pdu_header_bound(3) [OF pdu] by (simp add: rx_hdr_len_def)
  have "rx_max_count_notified (rx_count f s) = rx_max_count_notified s" "rx_max_count_overflow (rx_count f s) = rx_max_count_overflow s" for f
    by (simp_all add: rx_count_def)
  then show ?thesis using len pdu c fresh
    by (simp add: handle_data_pdu_def check_max_count_quiet cong: if_cong)
       (simp add: check_max_count_def Let_def rx_emit_def rx_count_def)
qed

section \<open>A short SRB PDU\<close>

text \<open>
  Without security, an SRB PDU of five bytes whose last four are zero passes the length checks
  and the MAC check; one byte is left when the two bytes of the header are removed.
\<close>

lemma short_srb_pdu_overruns:
  assumes "rx_is_srb s" and "rxc_sn_size (rx_cfg s) = Size12bits" and "w < env_nof_workers env"
    and "rx_sec_engines s ! w = None" and "pdu_buf i = h # zero_mac"
  shows "apply_security env w ok i s = Inl Trim_overrun"
  using assms
  by (simp add: apply_security_def apply_deciphering_and_integrity_check_def sec_mac_len_def zero_mac_def
      trim_tail_def trim_head_def is_success_def eval_nat_numeral)

section \<open>COUNT notifications after a change of keys\<close>

text \<open>\<open>max_count_notified\<close> is never cleared: after a re-establishment the RRC is not told again.\<close>

lemma check_max_count_silent:
  "rx_max_count_notified s \<Longrightarrow> On_max_count_reached \<notin> set (drop (length (rx_outbox s)) (rx_outbox (check_max_count c s)))"
  by (auto simp: check_max_count_def Let_def rx_emit_def)

lemma reestablish_keeps_flags:
  assumes inv: "rx_inv s" and kind: "rx_is_srb s \<longrightarrow> \<not> rx_is_um s" and run: "rx_reestablish env cfg s = Inr u"
  shows "rx_max_count_notified u = rx_max_count_notified s" "rx_max_count_overflow u = rx_max_count_overflow s"
proof -
  obtain t where t: "reestablish_flush env s = Inr t"
    "rx_configure_security env cfg (rx_integrity_enabled (reestablish_reset env t))
       (rx_ciphering_enabled (reestablish_reset env t)) (reestablish_reset env t) = Inr u"
    using run by (auto simp: rx_reestablish_split seq_run_Inr Let_def)
  have "rx_max_count_notified t = rx_max_count_notified s \<and> rx_max_count_overflow t = rx_max_count_overflow s"
  proof (cases "rx_is_srb s \<or> rx_is_um s")
    case True
    then have "flush_done s t"
      using reestablish_flush_srb [OF inv, of env] reestablish_flush_um [OF inv, of env] kind t(1)
      by (cases "rx_is_srb s") auto
    then show ?thesis by (simp add: flush_done_def)
  next
    case False
    then show ?thesis using t(1) by (simp add: reestablish_flush_def)
  qed
  moreover have "rx_max_count_notified (reestablish_reset env t) = rx_max_count_notified t"
    "rx_max_count_overflow (reestablish_reset env t) = rx_max_count_overflow t"
    by (simp_all add: reestablish_reset_def init_header_decompression_def Let_def)
  ultimately show "rx_max_count_notified u = rx_max_count_notified s" "rx_max_count_overflow u = rx_max_count_overflow s"
    using rx_configure_security_frame [OF t(2)] by simp_all
qed

end
