(* ===== verification/Pdcp_Rx_Properties.thy ===== *)
theory Pdcp_Rx_Properties
  imports Pdcp_Rx_Examples Pdcp_Rx_Limits
begin

text \<open>
  Properties of the headers, of the security engine and of single operations of the receiving
  entity, each with a concrete instance. The properties of its runs are in the root theory.
\<close>

section \<open>Buffered PDUs\<close>

definition rx_load :: "'r pdcp_rx \<Rightarrow> nat" where
  "rx_load s = length (rx_crypto_tasks s) + length (rx_ue_tasks s)"

lemma return_after_increment:
  assumes "tm_state n False m" and "n + 1 < 4294967295"
  shows "\<exists>m'. return_token (increment_token m) = Inr m' \<and> tm_state n False m'"
  using tm_state_return [OF tm_state_increment [OF assms]] by simp

lemma handle_data_pdu_total:
  assumes "rx_tokens False s" and "rx_load s + 1 < 4294967295"
  shows "\<exists>u. handle_data_pdu ok pdu s = Inr u \<and> rx_tokens False u \<and> rx_load u \<le> rx_load s + 1"
proof -
  have t: "tm_state (rx_load s) False (rx_token_mngr s)" using assms(1) by (simp add: rx_tokens_def rx_load_def)
  note inc = tm_state_increment [OF t assms(2)]
  obtain m where m: "return_token (increment_token (rx_token_mngr s)) = Inr m" "tm_state (rx_load s) False m"
    using return_after_increment [OF t assms(2)] by blast
  show ?thesis
    using t inc m
    by (auto simp: handle_data_pdu_def Let_def rx_count_def rx_tokens_def rx_load_def rx_return_token_def
        check_max_count_quiet split: option.splits)
qed

lemma load_frame [simp]:
  "rx_tokens h (rx_count f s) = rx_tokens h s" "rx_load (rx_count f s) = rx_load s"
  "rx_tokens h (rx_emit e s) = rx_tokens h s" "rx_load (rx_emit e s) = rx_load s"
  "rx_tokens h (s\<lparr>rx_pdu_buffer := q\<rparr>) = rx_tokens h s" "rx_load (s\<lparr>rx_pdu_buffer := q\<rparr>) = rx_load s"
  "rx_tokens h (s\<lparr>rx_buffering := b\<rparr>) = rx_tokens h s" "rx_load (s\<lparr>rx_buffering := b\<rparr>) = rx_load s"
  "rx_tokens h (request_resume s) = rx_tokens h s" "rx_load (request_resume s) = rx_load s"
  by (simp_all add: rx_tokens_def rx_load_def rx_count_def rx_emit_def request_resume_def)

lemma handle_control_pdu_total:
  assumes "pdcp_pdu_get_dc (hd pdu) \<noteq> Dc_data"
  shows "\<exists>u. handle_control_pdu pdu s = Inr u \<and> rx_tokens h u = rx_tokens h s \<and> rx_load u = rx_load s"
  using assms by (cases "pdcp_pdu_get_dc (hd pdu)"; cases "pdcp_control_pdu_get_cpt (hd pdu)")
    (simp_all add: handle_control_pdu_def)

lemma handle_pdu_total:
  assumes "rx_tokens False s" and "rx_load s + 1 < 4294967295"
  shows "\<exists>u. handle_pdu ch buf s = Inr u \<and> rx_tokens False u \<and> rx_load u \<le> rx_load s + 1"
proof -
  let ?s = "request_resume s"
  let ?t = "rx_count (rxm_add_pdus 1 (length buf)) ?s"
  obtain pushed b where b: "try_push buf (rx_pdu_buffer ?s) = (pushed, b)" by fastforce
  obtain u where u: "handle_data_pdu (crypto_ok ch) buf ?t = Inr u" "rx_tokens False u" "rx_load u \<le> rx_load s + 1"
    using handle_data_pdu_total [of ?t "crypto_ok ch" buf] assms by auto
  consider "rx_stopped s" | "\<not> rx_stopped s" "rx_buffering ?s" | "\<not> rx_stopped s" "\<not> rx_buffering ?s" "buf = [] \<or> \<not> copy_ok ch"
    | "\<not> rx_stopped s" "\<not> rx_buffering ?s" "buf \<noteq> []" "copy_ok ch" "rx_is_srb ?t \<or> pdcp_pdu_get_dc (hd buf) = Dc_data"
    | "\<not> rx_stopped s" "\<not> rx_buffering ?s" "buf \<noteq> []" "copy_ok ch" "\<not> rx_is_srb ?t" "pdcp_pdu_get_dc (hd buf) \<noteq> Dc_data"
    by blast
  then show ?thesis
  proof cases
    case 5
    then show ?thesis using handle_control_pdu_total [of buf ?t False] assms(1) by (auto simp: handle_pdu_def Let_def)
  next
    case 4
    then have "handle_pdu ch buf s = handle_data_pdu (crypto_ok ch) buf ?t" by (simp add: handle_pdu_def Let_def)
    then show ?thesis using u by auto
  qed (use assms(1) b in \<open>auto simp: handle_pdu_def Let_def\<close>)
qed

lemma flush_total:
  assumes "rx_tokens False s" and "rx_load s + n < 4294967295" and "rb_wf (rx_pdu_buffer s)" and "\<not> rx_buffering s"
  shows "\<exists>u. flush_pdu_buffer ch n s = Inr u"
  using assms
proof (induction n arbitrary: s)
  case (Suc n)
  show ?case
  proof (cases "rb_items (rx_pdu_buffer s)")
    case Nil
    then show ?thesis by (simp add: rb_empty_items)
  next
    case (Cons a as)
    obtain b where b: "rb_pop (rx_pdu_buffer s) = Inr b" "rb_wf b" using rb_pop_items [OF Suc.prems(3) Cons] by blast
    have top: "rb_top (rx_pdu_buffer s) = Inr a" by (rule rb.front_Cons [OF Suc.prems(3) Cons])
    let ?s = "s\<lparr>rx_pdu_buffer := b\<rparr>"
    have "rx_tokens False ?s" "rx_load ?s + 1 < 4294967295" using Suc.prems by simp_all
    then obtain t where t: "handle_pdu (ch n) a ?s = Inr t" "rx_tokens False t" "rx_load t \<le> rx_load ?s + 1"
      using handle_pdu_total by blast
    have "rx_pdu_buffer t = b" "\<not> rx_buffering t" using handle_pdu_buffer [OF t(1)] Suc.prems(4) by auto
    then have "\<exists>u. flush_pdu_buffer ch n t = Inr u"
      using Suc.IH [OF t(2)] t(3) Suc.prems(2) b(2) by (simp add: rx_load_def)
    then show ?thesis using top b(1) t(1) Cons by (auto simp: rb_empty_items)
  qed
qed simp

text \<open>
  C30: \<open>end_buffering\<close> always returns, and afterwards the buffer is empty and the entity no longer
  buffers: every PDU that came in during the suspension has been passed to \<open>handle_pdu\<close>.
\<close>

theorem end_buffering_drains:
  assumes "rx_tokens False s" and "rx_load s + rb_count (rx_pdu_buffer s) < 4294967295" and "rb_wf (rx_pdu_buffer s)"
  shows "\<exists>u. end_buffering ch s = Inr u \<and> rb_items (rx_pdu_buffer u) = [] \<and> \<not> rx_buffering u"
proof -
  let ?s = "s\<lparr>rx_buffering := False\<rparr>"
  have "rx_tokens False ?s" "rx_load ?s + rb_count (rx_pdu_buffer s) < 4294967295"
    using assms(1,2) by simp_all
  then obtain u where u: "flush_pdu_buffer ch (rb_count (rx_pdu_buffer s)) ?s = Inr u"
    using flush_total [of ?s] assms(3) by auto
  then show ?thesis using flush_empties [OF u] assms(3) by (simp add: end_buffering_def)
qed

theorem end_buffering_drains_witness:
  "\<exists>u. end_buffering (\<lambda>_. \<lparr>copy_ok = True, crypto_ok = True\<rparr>)
      ((demo_rx Drb Am)\<lparr>rx_buffering := True, rx_pdu_buffer := snd (try_push [0x80, 0, 7] (rb_create 2048))\<rparr>) = Inr u \<and>
    rb_items (rx_pdu_buffer u) = []"
proof -
  have w: "rb_wf (rb_create 2048 :: bytes ring_buffer)" using rb_wf_create [of 11] by simp
  let ?q = "snd (try_push [0x80, 0, 7] (rb_create 2048)) :: bytes ring_buffer"
  let ?s = "(demo_rx Drb Am)\<lparr>rx_buffering := True, rx_pdu_buffer := ?q\<rparr>"
  have mx: "rb_max_size (rb_create 2048 :: bytes ring_buffer) = 2048" by (simp add: rb_create_def)
  have q: "rb_wf ?q" "rb_items ?q = [[0x80, 0, 7]]"
    using rb.offer_wf [OF w, of "[0x80, 0, 7]"] rb.offer_room [OF w, of "[0x80, 0, 7]"] by (simp_all add: mx)
  have c: "rb_count ?q = 1" using q(2) by (metis length_Cons list.size(3) One_nat_def rb_length_items)
  have "rx_tokens False ?s" using tm_state_init by (simp add: rx_tokens_def)
  then show ?thesis using end_buffering_drains [of ?s] q(1) c by (fastforce simp: rx_load_def)
qed

section \<open>From the PDU to the COUNT and the UE task\<close>

text \<open>
  A data PDU whose COUNT lies within the window and below the hard limit goes to the crypto
  executor with exactly this COUNT, although the header carries its SN only.
\<close>

theorem pdu_gets_its_count:
  assumes "rx_inv s"
    and "read_data_pdu_header (rxc_sn_size (rx_cfg s)) pdu = Some (pdcp_compute_sn c (rxc_sn_size (rx_cfg s)))"
    and "dlv s \<le> unat c + rx_win_nat s" and "unat c < dlv s + rx_win_nat s" and "unat c < rx_hard s"
  shows "\<exists>u. handle_data_pdu True pdu s = Inr u \<and>
    rx_crypto_tasks u = rx_crypto_tasks s @ [\<lparr>pdu_buf = pdu, pdu_count = c, pdu_integrity_verified = False\<rparr>]"
  using handle_data_pdu_enqueues [OF assms] by blast

theorem pdu_gets_its_count_witness:
  "\<exists>u. handle_data_pdu True [0x80, 5, 7] (demo_rx Drb Am) = Inr u \<and>
     rx_crypto_tasks u = [\<lparr>pdu_buf = [0x80, 5, 7], pdu_count = 5, pdu_integrity_verified = False\<rparr>]"
proof -
  have r: "read_data_pdu_header Size12bits [0x80, 5, 7] = Some (pdcp_compute_sn 5 Size12bits)" by code_simp
  show ?thesis
    using pdu_gets_its_count [OF demo_rx_ok(1) [of Drb Am], of "[0x80, 5, 7]" 5] r demo_hard(2) [of Drb Am]
    by (simp add: demo_cfg_def zero_st_def window_nat_values)
qed

text \<open>
  C29: in a consistent state the next UE task always runs to its end (no assertion fails, no loop
  runs on), and gives its token back.
\<close>

theorem ue_task_completes:
  assumes "rx_inv s" and "rx_tokens h s"
  shows "\<exists>u. run_ue_task env s = Inr u \<and> rx_inv u \<and> rx_tokens h u"
  using run_ue_task_no_fault [OF assms, of env] run_ue_task_correct [OF assms(1)] by blast

theorem ue_task_completes_witness: "\<exists>u. run_ue_task demo_env demo_two_tasks = Inr u \<and> rx_inv u"
  using ue_task_completes [OF demo_two_tasks_ok(1,2), where env = demo_env] by blast

section \<open>Re-establishment and status reports\<close>

text \<open>
  Re-establishment of an idle entity discards what an SRB has stored, delivers what a UM DRB
  has stored in COUNT order, and in both cases starts again from COUNT 0 with an empty window; an
  AM DRB keeps its window and its state variables.
\<close>

theorem reestablish_by_bearer:
  assumes "rx_inv s" and "rx_idle s" and "rx_reestablish env cfg s = Inr u" and "rx_is_srb s \<longrightarrow> \<not> rx_is_um s"
  shows "rx_inv u \<and> rx_idle u \<and>
    (rx_is_srb s \<longrightarrow> rx_outbox u = rx_outbox s) \<and>
    (\<not> rx_is_srb s \<longrightarrow> rx_is_um s \<longrightarrow> rx_rohc s = None \<longrightarrow> rx_outbox u = rx_outbox s @ stored_events s (dlv s) (nxt s)) \<and>
    (rx_is_srb s \<or> rx_is_um s \<longrightarrow> rx_st u = zero_st \<and> (\<forall>c. stored u c = None)) \<and>
    (\<not> rx_is_srb s \<longrightarrow> \<not> rx_is_um s \<longrightarrow> rx_st u = rx_st s \<and> stored u = stored s \<and> rx_outbox u = rx_outbox s)"
  using rx_reestablish_correct [OF assms] .

definition demo_sec :: sec_128_as_config where
  "demo_sec = \<lparr>sec_domain = Up, k_128_int = None, k_128_enc = replicate 16 0, integ_algo = None, cipher_algo = Nea0\<rparr>"

theorem reestablish_by_bearer_witness:
  "\<exists>u. rx_reestablish demo_env demo_sec demo_gap = Inr u \<and> rx_inv u \<and> stored u = stored demo_gap"
proof -
  have e: "rx_integrity_enabled demo_gap = Integ_off" "rx_ciphering_enabled demo_gap = Cipher_off"
    by (simp_all add: demo_gap_def demo_rx_def rx_run_timer_def reord_to_next_def inserted_def Let_def)
  have k: "\<not> rx_is_srb demo_gap" "\<not> rx_is_um demo_gap"
    by (simp_all add: rx_is_srb_def rx_is_um_def demo_cfg_def)
  obtain u where u: "rx_reestablish demo_env demo_sec demo_gap = Inr u"
    using e k by (auto simp: rx_reestablish_split reestablish_flush_def reestablish_reset_def init_header_decompression_def
        rx_is_srb_def rx_is_um_def demo_cfg_def rx_configure_security_def demo_sec_def security_engine_impl_def Let_def)
  then show ?thesis using reestablish_by_bearer [OF demo_gap_ok u] k by auto
qed

text \<open>
  C31: the status report of a consistent entity is a control header, RX\_DELIV as FMC, and one bit
  for each COUNT after it up to RX\_NEXT, set when the SDU is there, with zero padding to a full
  byte; the code's bound on the bitmap keeps it within 9000 bytes.
\<close>

theorem status_report_contents:
  assumes "rx_inv s"
  shows "length (compile_status_report s) \<le> 9000 \<and>
    (\<exists>k < 8. all_bits (compile_status_report s) =
      replicate 8 False @ field_bits 32 (rx_deliv (rx_st s)) @
      map (\<lambda>n. stored s (word_of_nat n) \<noteq> None) [dlv s + 1 ..< min (nxt s) (dlv s + 1 + 71960)] @ replicate k False)"
  using status_report_bits [OF assms] status_report_length [OF assms] by blast

theorem status_report_contents_witness:
  "length (compile_status_report demo_gap) \<le> 9000 \<and>
   (\<exists>k < 8. all_bits (compile_status_report demo_gap) = replicate 8 False @ replicate 32 False @ [True] @ replicate k False)"
proof -
  have st: "stored demo_gap (word_of_nat (Suc 0)) \<noteq> None" using demo_gap_stored by simp
  have f: "field_bits 32 (0 :: u32) = replicate 32 False" by (rule nth_equalityI) (simp_all add: field_bits_nth)
  show ?thesis using status_report_contents [OF demo_gap_ok(1)] st by (simp add: f upt_rec)
qed

section \<open>COUNTs and lengths that the entity does not expect\<close>

text \<open>
  With HFN 0, an SN of a window or more above RX\_DELIV makes the COUNT estimate wrap around;
  the PDU is taken for one beyond the hard limit, and a single such PDU, before any integrity
  check, makes the entity report the maximum COUNT and a protocol failure.
\<close>

theorem count_underflow_reports:
  assumes "rx_inv s" and "dlv s < 2 ^ sn_bits (rxc_sn_size (rx_cfg s))"
    and "read_data_pdu_header (rxc_sn_size (rx_cfg s)) pdu = Some sn" and "dlv s + rx_win_nat s \<le> unat sn"
    and "\<not> rx_max_count_notified s" and "\<not> rx_max_count_overflow s"
    and "mc_notify (rxc_max_count (rx_cfg s)) < mc_hard (rxc_max_count (rx_cfg s))"
  shows "\<exists>u. handle_data_pdu ok pdu s = Inr u \<and>
    rx_outbox u = rx_outbox s @ [On_max_count_reached, On_protocol_failure] \<and> rx_crypto_tasks u = rx_crypto_tasks s"
  using underflow_reports_failure [OF assms] .

theorem count_underflow_reports_witness:
  "\<exists>u. handle_data_pdu True [0x88, 0, 7] (demo_rx Drb Am) = Inr u \<and>
     rx_outbox u = [On_max_count_reached, On_protocol_failure]"
proof -
  have r: "read_data_pdu_header Size12bits [0x88, 0, 7] = Some 2048" by code_simp
  have f: "\<not> rx_max_count_notified (demo_rx Drb Am)" "\<not> rx_max_count_overflow (demo_rx Drb Am)"
    by (simp_all add: demo_rx_def)
  show ?thesis
    using count_underflow_reports [OF demo_rx_ok(1) [of Drb Am], of "[0x88, 0, 7]" 2048 True] r f demo_hard [of Drb Am]
    by (fastforce simp: demo_cfg_def zero_st_def pdcp_sn_size_to_uint_def window_nat_values)
qed

text \<open>
  On an SRB without security, a PDU of one header byte and a zero MAC passes the checks and
  trims a longer header than the buffer holds (an assertion of the code fails).
\<close>

theorem short_srb_pdu_faults:
  assumes "rx_is_srb s" and "rxc_sn_size (rx_cfg s) = Size12bits" and "w < env_nof_workers env"
    and "rx_sec_engines s ! w = None" and "pdu_buf i = h # zero_mac"
  shows "apply_security env w ok i s = Inl Trim_overrun"
  using short_srb_pdu_overruns [OF assms] .

theorem short_srb_pdu_faults_witness:
  "apply_security demo_env 0 True \<lparr>pdu_buf = 5 # zero_mac, pdu_count = 0, pdu_integrity_verified = False\<rparr> (demo_rx Srb Am) =
   Inl Trim_overrun"
  by (rule short_srb_pdu_faults) (simp_all add: rx_is_srb_def demo_cfg_def demo_env_def)

section \<open>Headers\<close>

text \<open>
  The header that the transmitting entity writes is read back: the receiving entity and the
  RLC both find the SN, for 12 and 18 bits, data and signalling bearers.
\<close>

theorem header_roundtrip:
  assumes "sn_size_ok z" and "\<not> (srb \<and> z = Size18bits)" and "unat sn < 2 ^ sn_bits z" and "buf \<noteq> []"
  shows "\<exists>pdu. prepend_data_pdu_header z srb True buf sn = Inr (Some pdu) \<and>
    read_data_pdu_header z pdu = Some sn \<and> get_pdcp_sn pdu z srb = Some sn \<and>
    drop (pdcp_data_pdu_header_size z) pdu = buf"
  using prepend_data_pdu_header_bytes [OF assms(1,2)] read_sn_bytes [OF assms(1,3,4)] get_pdcp_sn_sn_bytes [OF assms]
    sn_bytes_length [OF assms(1)] by simp

theorem header_roundtrip_witness:
  "\<exists>pdu. prepend_data_pdu_header Size18bits False True [7] 0x2abcd = Inr (Some pdu) \<and>
     read_data_pdu_header Size18bits pdu = Some 0x2abcd"
  using header_roundtrip [of Size18bits False "0x2abcd" "[7]"] by (auto simp: sn_size_ok_def pdcp_sn_size_to_uint_def)

text \<open>
  The two routines that read the SN of a data PDU, the one of the PDCP entity with masks and
  the one of the RLC with the bit decoder, agree on every PDU that the second accepts.
\<close>

theorem sn_readers_agree:
  assumes "get_pdcp_sn p z srb = Some sn" and "sn_size_ok z" and "pdcp_data_pdu_header_size z < length p"
  shows "read_data_pdu_header z p = Some sn"
  using get_pdcp_sn_agrees [OF assms] .

theorem sn_readers_agree_witness: "read_data_pdu_header Size12bits [0x85, 0x39, 1] = Some 0x539"
proof -
  have "get_pdcp_sn [0x85, 0x39, 1] Size12bits False = Some 0x539" by code_simp
  then show ?thesis by (rule sn_readers_agree) (simp_all add: sn_size_ok_def pdcp_data_pdu_header_size_def)
qed

text \<open>
  What the bit encoder packs is what the bit decoder unpacks, at any bit offset and for fields
  of up to 32 bits.
\<close>

theorem bit_coding_roundtrip:
  assumes "dec_wf d" and "n \<le> 32" and "dec_bits d = field_bits n v @ rest"
  shows "\<exists>d'. unpack d n = (True, take_bit n (ucast (v :: 64 word)), d') \<and> dec_bits d' = rest \<and> dec_wf d'"
proof -
  obtain w d' where u: "unpack d n = (True, w, d')" "unat w = bits_val (take n (dec_bits d))"
    "dec_bits d' = drop n (dec_bits d)" "dec_wf d'"
    using unpack_bits [OF assms(1) _ assms(2)] assms(3) by auto
  have "unat (take_bit n (ucast v :: u32)) = take_bit n (take_bit 32 (unat v))"
    by (simp add: unsigned_take_bit_eq unsigned_ucast_eq)
  then have "unat w = unat (take_bit n (ucast v :: u32))"
    using u(2) assms(2,3) by (simp add: bits_val_field min_def)
  then show ?thesis using u assms(3) by (auto simp: word_unat_eq_iff)
qed

theorem bit_coding_roundtrip_witness:
  "\<exists>d'. unpack (decoder_init (enc_bytes (pack (encoder_init []) 0x1a5 12))) 12 = (True, 0x1a5, d')"
proof -
  have e: "enc_wf (pack (encoder_init []) 0x1a5 12)" "enc_bits (pack (encoder_init []) 0x1a5 12) = field_bits 12 (0x1a5 :: 64 word)"
    using pack_appends [of "encoder_init []" 12] by simp_all
  obtain k where "all_bits (enc_bytes (pack (encoder_init []) 0x1a5 12)) = field_bits 12 (0x1a5 :: 64 word) @ replicate k False"
    using enc_bytes_bits [OF e(1)] e(2) by auto
  then show ?thesis
    using bit_coding_roundtrip [of "decoder_init (enc_bytes (pack (encoder_init []) 0x1a5 12))" 12 "0x1a5"] by auto
qed

section \<open>The security engine\<close>

text \<open>
  C27: what one engine protects, the engine with the same keys accepts, with the same status and the
  original bytes.
\<close>

theorem protection_roundtrip:
  assumes "prims_ok P" and "encrypt_and_protect_integrity P eng room buf offset count = (s, out)"
    and "is_success s" and "offset \<le> length buf" and "buf \<noteq> []"
  shows "decrypt_and_verify_integrity P eng out offset count = Inr (s, buf)"
  using engine_roundtrip [OF assms] .

definition demo_engine :: security_engine where
  "demo_engine = \<lparr>integ_eng = Some \<lparr>ie_key = [1], ie_bearer_id = 2, ie_direction = Sec_uplink, ie_algo = Nia2\<rparr>,
     cipher_eng = Some \<lparr>ce_key = [3], ce_bearer_id = 2, ce_direction = Sec_uplink, ce_algo = Nea2\<rparr>, allow_unprotected = False\<rparr>"

theorem protection_roundtrip_witness:
  "\<exists>out. encrypt_and_protect_integrity demo_prims demo_engine True [0x80, 5, 7] 2 9 = (Success, out) \<and>
     decrypt_and_verify_integrity demo_prims demo_engine out 2 9 = Inr (Success, [0x80, 5, 7])"
proof -
  obtain out where o: "encrypt_and_protect_integrity demo_prims demo_engine True [0x80, 5, 7] 2 9 = (Success, out)"
    by (simp add: encrypt_and_protect_integrity_def demo_engine_def protect_integrity_cases mac_of_def demo_prims_def
        apply_ciphering_def is_success_def)
  then show ?thesis using protection_roundtrip [OF demo_prims_ok o] by (simp add: is_success_def)
qed

text \<open>
  C28: an engine accepts a PDU as verified only if it ends with the MAC of the accepted bytes under
  the engine's key, COUNT, bearer and direction; it accepts one as unprotected only if it has no
  integrity engine, or allows it and the PDU ends with a zero MAC.
\<close>

theorem acceptance_is_authenticated:
  assumes "decrypt_and_verify_integrity P eng buf offset count = Inr (s, out)"
    and "deciphered P eng buf offset count = (s0, d)"
  shows "(s = Success \<longrightarrow>
            (\<exists>e m. integ_eng eng = Some e \<and> mac_of P e count out = Some m \<and> out \<noteq> [] \<and> d = out @ m)) \<and>
         (s = Success_unprotected \<longrightarrow>
            (integ_eng eng = None \<and> out = d) \<or> (allow_unprotected eng \<and> d = out @ zero_mac))"
  using engine_accepts [OF assms] .

theorem acceptance_is_authenticated_witness:
  "\<exists>out d e m. decrypt_and_verify_integrity demo_prims demo_engine out 2 9 = Inr (Success, [0x80, 5, 7]) \<and>
     mac_of demo_prims e 9 [0x80, 5, 7] = Some m \<and> d = [0x80, 5, 7] @ m"
proof -
  obtain out where o: "encrypt_and_protect_integrity demo_prims demo_engine True [0x80, 5, 7] 2 9 = (Success, out)"
    by (simp add: encrypt_and_protect_integrity_def demo_engine_def protect_integrity_cases mac_of_def demo_prims_def
        apply_ciphering_def is_success_def)
  have a: "decrypt_and_verify_integrity demo_prims demo_engine out 2 9 = Inr (Success, [0x80, 5, 7])"
    using engine_roundtrip [OF demo_prims_ok o] by (simp add: is_success_def)
  obtain s0 d where d: "deciphered demo_prims demo_engine out 2 9 = (s0, d)" by fastforce
  show ?thesis using acceptance_is_authenticated [OF a d] a by blast
qed

end
