(* ===== verification/Pdcp_Tx_Window.thy ===== *)
theory Pdcp_Tx_Window
  imports Sdu_Window Pdcp_Sn Security_Engine
begin

text \<open>
  \<open>lib/pdcp/pdcp_tx_window.h\<close> and \<open>.cpp\<close>: the transmit window, a window of SDUs that also counts
  the SDUs and bytes it holds, in \<open>uint32_t\<close>. \<open>txw_ok\<close> states that the two counters agree with the
  contents; every operation keeps it.
\<close>

record pdcp_tx_window_sdu_info =
  tsi_sdu :: bytes
  tsi_count :: u32
  tsi_tick :: "u32 option"

record pdcp_tx_window_element =
  twe_sdu_info :: pdcp_tx_window_sdu_info
  twe_pdu :: bytes
  twe_sdu_length :: u32

record pdcp_tx_window =
  txw_win :: "pdcp_tx_window_element sdu_window"
  txw_rb_type :: pdcp_rb_type
  txw_rlc_mode :: pdcp_rlc_mode
  txw_sn_size :: pdcp_sn_size
  txw_sdu_bytes :: u32
  txw_nof_sdus :: u32

definition txw_create :: "pdcp_rb_type \<Rightarrow> pdcp_rlc_mode \<Rightarrow> pdcp_sn_size \<Rightarrow> pdcp_tx_window run" where
  "txw_create rb_type rlc_mode sn_size =
     seq_run (win_create (unat (pdcp_window_size_of_bits (pdcp_sn_size_to_uint sn_size)))) (\<lambda>w.
     Inr \<lparr>txw_win = w, txw_rb_type = rb_type, txw_rlc_mode = rlc_mode, txw_sn_size = sn_size,
          txw_sdu_bytes = 0, txw_nof_sdus = 0\<rparr>)"

definition txw_has_sn :: "pdcp_tx_window \<Rightarrow> u32 \<Rightarrow> bool" where
  "txw_has_sn w count = has_sn (txw_win w) count"

definition txw_at :: "pdcp_tx_window \<Rightarrow> u32 \<Rightarrow> pdcp_tx_window_element run" where
  "txw_at w count = win_at (txw_win w) count"

definition add_sdu :: "pdcp_tx_window_sdu_info \<Rightarrow> u32 \<Rightarrow> pdcp_tx_window \<Rightarrow> pdcp_tx_window run" where
  "add_sdu sdu_info sdu_length w =
     seq_run (add_sn (tsi_count sdu_info)
                \<lparr>twe_sdu_info = sdu_info, twe_pdu = [], twe_sdu_length = sdu_length\<rparr> (txw_win w)) (\<lambda>v.
     Inr (w\<lparr>txw_win := v, txw_sdu_bytes := txw_sdu_bytes w + sdu_length, txw_nof_sdus := txw_nof_sdus w + 1\<rparr>))"

definition remove_sdu :: "u32 \<Rightarrow> pdcp_tx_window \<Rightarrow> pdcp_tx_window run" where
  "remove_sdu count w =
     (if has_sn (txw_win w) count then
        seq_run (win_at (txw_win w) count) (\<lambda>elem.
        seq_run (remove_sn count (txw_win w)) (\<lambda>v.
        Inr (w\<lparr>txw_win := v, txw_sdu_bytes := txw_sdu_bytes w - twe_sdu_length elem,
               txw_nof_sdus := txw_nof_sdus w - 1\<rparr>)))
      else Inr w)"

definition txw_clear :: "pdcp_tx_window \<Rightarrow> pdcp_tx_window" where
  "txw_clear w = w\<lparr>txw_sdu_bytes := 0, txw_nof_sdus := 0, txw_win := win_clear (txw_win w)\<rparr>"

definition get_nof_sdus :: "pdcp_tx_window \<Rightarrow> u32" where
  "get_nof_sdus w = txw_nof_sdus w"

definition get_sdu_bytes :: "pdcp_tx_window \<Rightarrow> u32" where
  "get_sdu_bytes w = txw_sdu_bytes w"

definition get_pdu_bytes :: "integrity_enabled \<Rightarrow> pdcp_tx_window \<Rightarrow> u32" where
  "get_pdu_bytes integrity w =
     txw_sdu_bytes w + txw_nof_sdus w *
       (pdcp_data_header_size (txw_sn_size w) + pdcp_data_trailer_size (txw_rb_type w) (integrity \<noteq> Integ_off))"

text \<open>
  Writing through \<open>operator[]\<close>: \<open>tx_window[count].pdu = buf\<close>, and \<open>std::move(tx_window[count].pdu)\<close>,
  which leaves an empty PDU behind.
\<close>

definition put_pdu :: "u32 \<Rightarrow> bytes \<Rightarrow> pdcp_tx_window \<Rightarrow> pdcp_tx_window run" where
  "put_pdu count buf w =
     seq_run (win_update count (\<lambda>e. e\<lparr>twe_pdu := buf\<rparr>) (txw_win w)) (\<lambda>v. Inr (w\<lparr>txw_win := v\<rparr>))"

definition take_pdu :: "u32 \<Rightarrow> pdcp_tx_window \<Rightarrow> (bytes \<times> pdcp_tx_window) run" where
  "take_pdu count w =
     seq_run (txw_at w count) (\<lambda>e. seq_run (put_pdu count [] w) (\<lambda>w. Inr (twe_pdu e, w)))"

section \<open>The contents as a map\<close>

definition txw_map :: "pdcp_tx_window \<Rightarrow> u32 \<Rightarrow> pdcp_tx_window_element option" where
  "txw_map w = win_find (txw_win w)"

definition txw_width :: "pdcp_tx_window \<Rightarrow> nat" where
  "txw_width w = win_width (txw_win w)"

text \<open>All keys lie in one window length that starts at \<open>lo\<close>, and the counters agree.\<close>

definition txw_ok :: "nat \<Rightarrow> pdcp_tx_window \<Rightarrow> bool" where
  "txw_ok lo w \<longleftrightarrow> win_wf (txw_win w) \<and> win.within lo (txw_win w) \<and>
     txw_sdu_bytes w = (\<Sum>k \<in> dom (txw_map w). twe_sdu_length (the (txw_map w k))) \<and>
     txw_nof_sdus w = of_nat (card (dom (txw_map w)))"

text \<open>What stays fixed.\<close>

definition txw_same :: "pdcp_tx_window \<Rightarrow> pdcp_tx_window \<Rightarrow> bool" where
  "txw_same w v \<longleftrightarrow> txw_width v = txw_width w \<and> txw_rb_type v = txw_rb_type w \<and>
     txw_rlc_mode v = txw_rlc_mode w \<and> txw_sn_size v = txw_sn_size w"

lemma txw_same_refl [simp]: "txw_same w w"
  by (simp add: txw_same_def)

lemma txw_same_trans: "txw_same u v \<Longrightarrow> txw_same v w \<Longrightarrow> txw_same u w"
  by (simp add: txw_same_def)

lemma txw_map_counters [simp]:
  "txw_map (w\<lparr>txw_sdu_bytes := b\<rparr>) = txw_map w"
  "txw_map (w\<lparr>txw_nof_sdus := n\<rparr>) = txw_map w"
  by (simp_all add: txw_map_def)

lemma txw_has_sn_map: "txw_has_sn w k \<longleftrightarrow> txw_map w k \<noteq> None"
  by (simp add: txw_has_sn_def txw_map_def has_sn_find)

lemma txw_at_map: "txw_at w k = (case txw_map w k of None \<Rightarrow> Inl Missing_element | Some e \<Rightarrow> Inr e)"
  by (simp add: txw_at_def txw_map_def win_at_find)

lemma txw_at_Inr: "txw_at w k = Inr e \<longleftrightarrow> txw_map w k = Some e"
  by (simp add: txw_at_map split: option.splits)

lemma finite_u32 [simp]: "finite (A :: u32 set)"
  by simp

lemma txw_within: "txw_ok lo w \<Longrightarrow> txw_map w k \<noteq> None \<Longrightarrow> lo \<le> unat k \<and> unat k < lo + txw_width w"
  by (auto simp: txw_ok_def win.within_def txw_map_def txw_width_def)

lemma txw_raise:
  assumes "txw_ok lo w" and "lo \<le> lo'" and "\<And>k. txw_map w k \<noteq> None \<Longrightarrow> lo' \<le> unat k"
  shows "txw_ok lo' w"
  using assms win.within_raise [of lo "txw_win w" lo'] by (auto simp: txw_ok_def txw_map_def)

subsection \<open>Adding, removing, clearing\<close>

lemma add_sdu_spec:
  assumes "txw_ok lo w" and "txw_map w (tsi_count i) = None"
    and "lo \<le> unat (tsi_count i)" and "unat (tsi_count i) < lo + txw_width w"
  shows "\<exists>v. add_sdu i n w = Inr v \<and> txw_ok lo v \<and> txw_same w v \<and>
    txw_map v = (txw_map w)(tsi_count i \<mapsto> \<lparr>twe_sdu_info = i, twe_pdu = [], twe_sdu_length = n\<rparr>)"
proof -
  let ?e = "\<lparr>twe_sdu_info = i, twe_pdu = [], twe_sdu_length = n\<rparr>"
  let ?c = "tsi_count i"
  let ?v = "w\<lparr>txw_win := win_put ?c ?e (txw_win w), txw_sdu_bytes := txw_sdu_bytes w + n, txw_nof_sdus := txw_nof_sdus w + 1\<rparr>"
  have wf: "win_wf (txw_win w)" and wi: "win.within lo (txw_win w)" using assms(1) by (auto simp: txw_ok_def)
  have m: "txw_map ?v = (txw_map w)(?c \<mapsto> ?e)"
    using win.look_put [OF wf wi assms(3)] assms(4) by (simp add: txw_map_def txw_width_def)
  have run: "add_sdu i n w = Inr ?v"
    using assms(2) by (simp add: add_sdu_def add_sn_put has_sn_find txw_map_def)
  have notin: "?c \<notin> dom (txw_map w)" using assms(2) by (simp add: domIff)
  have s: "(\<Sum>k \<in> dom (txw_map ?v). twe_sdu_length (the (txw_map ?v k))) =
      n + (\<Sum>k \<in> dom (txw_map w). twe_sdu_length (the (txw_map w k)))"
  proof -
    show ?thesis
      unfolding m using notin by (simp add: sum.insert) (rule sum.cong, auto)
  qed
  have c: "card (dom (txw_map ?v)) = Suc (card (dom (txw_map w)))"
    unfolding m using notin by simp
  have "txw_ok lo ?v"
    using assms(1) win.within_put [OF wf wi assms(3)] assms(4) s c
    by (simp add: txw_ok_def txw_width_def win.wf_put add.commute)
  then show ?thesis using run m by (auto simp: txw_same_def txw_width_def win.width_put)
qed

lemma remove_sdu_spec:
  assumes "txw_ok lo w"
  shows "\<exists>v. remove_sdu c w = Inr v \<and> txw_ok lo v \<and> txw_same w v \<and> txw_map v = (txw_map w)(c := None)"
proof (cases "txw_map w c")
  case None
  then have "(txw_map w)(c := None) = txw_map w" by (simp add: fun_eq_iff)
  then show ?thesis using None assms by (simp add: remove_sdu_def has_sn_find txw_map_def)
next
  case (Some e)
  let ?v = "w\<lparr>txw_win := win_del c (txw_win w), txw_sdu_bytes := txw_sdu_bytes w - twe_sdu_length e,
              txw_nof_sdus := txw_nof_sdus w - 1\<rparr>"
  have wf: "win_wf (txw_win w)" and wi: "win.within lo (txw_win w)" using assms by (auto simp: txw_ok_def)
  have m: "txw_map ?v = (txw_map w)(c := None)"
    using win.look_del [OF wf] by (simp add: txw_map_def)
  have run: "remove_sdu c w = Inr ?v"
    using Some by (simp add: remove_sdu_def remove_sn_del win_at_find has_sn_find txw_map_def)
  have c: "c \<in> dom (txw_map w)" using Some by auto
  have "(\<Sum>k \<in> dom (txw_map w). twe_sdu_length (the (txw_map w k))) =
      twe_sdu_length e + (\<Sum>k \<in> dom (txw_map w) - {c}. twe_sdu_length (the (txw_map w k)))"
    using sum.remove [OF finite_u32 c, of "\<lambda>k. twe_sdu_length (the (txw_map w k))"] Some by simp
  moreover have "(\<Sum>k \<in> dom (txw_map ?v). twe_sdu_length (the (txw_map ?v k))) =
      (\<Sum>k \<in> dom (txw_map w) - {c}. twe_sdu_length (the (txw_map w k)))"
    unfolding m by (rule sum.cong) auto
  ultimately have bytes: "txw_sdu_bytes ?v = (\<Sum>k \<in> dom (txw_map ?v). twe_sdu_length (the (txw_map ?v k)))"
    using assms by (simp add: txw_ok_def)
  have "card (dom (txw_map w)) = Suc (card (dom (txw_map ?v)))"
    unfolding m using card.remove [OF finite_u32 c] by simp
  then have "txw_nof_sdus ?v = of_nat (card (dom (txw_map ?v)))"
    using assms by (simp add: txw_ok_def)
  with bytes have "txw_ok lo ?v"
    using win.within_del [OF wf wi] win.wf_del [OF wf] by (simp add: txw_ok_def)
  then show ?thesis using run m by (auto simp: txw_same_def txw_width_def win.width_del)
qed

lemma remove_sdu_map:
  "win_wf (txw_win w) \<Longrightarrow> remove_sdu c w = Inr v \<Longrightarrow> txw_map v = (txw_map w)(c := None)"
  by (auto simp: remove_sdu_def remove_sn_del txw_map_def win_at_find has_sn_find win.look_del fun_eq_iff
      split: if_splits option.splits)

lemma txw_clear_spec:
  assumes "txw_ok lo w"
  shows "txw_ok lo' (txw_clear w)" and "txw_map (txw_clear w) = Map.empty" and "txw_same w (txw_clear w)"
proof -
  have wf: "win_wf (txw_win w)" using assms by (simp add: txw_ok_def)
  show m: "txw_map (txw_clear w) = Map.empty" using win.look_clr [OF wf] by (simp add: txw_map_def txw_clear_def)
  then show "txw_ok lo' (txw_clear w)"
    using win.within_clr [OF wf] win.wf_clr [OF wf] by (simp add: txw_ok_def) (simp add: txw_clear_def)
  show "txw_same w (txw_clear w)" by (simp add: txw_same_def txw_clear_def txw_width_def win.width_clr)
qed

subsection \<open>Writing the PDU of an element\<close>

lemma put_pdu_spec:
  assumes "txw_ok lo w" and "txw_map w c = Some e"
  shows "\<exists>v. put_pdu c b w = Inr v \<and> txw_ok lo v \<and> txw_same w v \<and>
    txw_map v = (txw_map w)(c \<mapsto> e\<lparr>twe_pdu := b\<rparr>)"
proof -
  let ?v = "w\<lparr>txw_win := win_put c (e\<lparr>twe_pdu := b\<rparr>) (txw_win w)\<rparr>"
  have wf: "win_wf (txw_win w)" and wi: "win.within lo (txw_win w)" using assms by (auto simp: txw_ok_def)
  have c: "lo \<le> unat c" "unat c < lo + win_width (txw_win w)"
    using txw_within [OF assms(1), of c] assms(2) by (auto simp: txw_width_def)
  have run: "put_pdu c b w = Inr ?v"
    using assms(2) by (simp add: put_pdu_def win_update_find [OF wf] txw_map_def)
  have m: "txw_map ?v = (txw_map w)(c \<mapsto> e\<lparr>twe_pdu := b\<rparr>)"
    using win.look_put [OF wf wi c] by (simp add: txw_map_def)
  have d: "dom (txw_map ?v) = dom (txw_map w)" unfolding m using assms(2) by auto
  have "(\<Sum>k \<in> dom (txw_map w). twe_sdu_length (the (txw_map ?v k))) =
      (\<Sum>k \<in> dom (txw_map w). twe_sdu_length (the (txw_map w k)))"
    unfolding m using assms(2) by (intro sum.cong) auto
  then have "txw_ok lo ?v"
    using assms(1) win.within_put [OF wf wi c] win.wf_put [OF wf] by (simp add: txw_ok_def d)
  then show ?thesis using run m by (auto simp: txw_same_def txw_width_def win.width_put)
qed

lemma take_pdu_spec:
  assumes "txw_ok lo w" and "txw_map w c = Some e"
  shows "\<exists>v. take_pdu c w = Inr (twe_pdu e, v) \<and> txw_ok lo v \<and> txw_same w v \<and>
    txw_map v = (txw_map w)(c \<mapsto> e\<lparr>twe_pdu := []\<rparr>)"
  using put_pdu_spec [OF assms, of "[]"] assms(2) by (auto simp: take_pdu_def txw_at_map)

lemma take_pdu_missing: "txw_map w c = None \<Longrightarrow> take_pdu c w = Inl Missing_element"
  by (simp add: take_pdu_def txw_at_map)

lemma txw_create_spec:
  assumes "sn_size_ok z"
  shows "\<exists>w. txw_create t m z = Inr w \<and> txw_ok 0 w \<and> txw_map w = Map.empty \<and>
    txw_width w = window_nat z \<and> txw_rb_type w = t \<and> txw_rlc_mode w = m \<and> txw_sn_size w = z"
proof -
  obtain k where k: "window_nat z = 2 ^ k" using window_nat_pow2 by blast
  have n: "unat (pdcp_window_size_of_bits (pdcp_sn_size_to_uint z)) = 2 ^ k"
    using k pdcp_window_sizes_agree [OF assms] by (simp add: window_nat_def)
  show ?thesis
    unfolding txw_create_def n win_create_pow2
    using win_wf_fresh k
    by (simp add: txw_ok_def txw_map_def txw_width_def win_width_def win.within_def)
qed

text \<open>A read after the bounds are known, and the totals on numbers.\<close>

lemma get_nof_sdus_card: "txw_ok lo w \<Longrightarrow> get_nof_sdus w = of_nat (card (dom (txw_map w)))"
  by (simp add: txw_ok_def get_nof_sdus_def)

lemma get_pdu_bytes_sum:
  assumes "txw_ok lo w"
  shows "get_pdu_bytes ie w =
    (\<Sum>k \<in> dom (txw_map w). twe_sdu_length (the (txw_map w k)) +
       (pdcp_data_header_size (txw_sn_size w) + pdcp_data_trailer_size (txw_rb_type w) (ie \<noteq> Integ_off)))"
  using assms by (simp add: txw_ok_def get_pdu_bytes_def sum.distrib)

end
