(* ===== verification/Pdcp_Tx_Metrics.thy ===== *)
theory Pdcp_Tx_Metrics
  imports Prelude
begin

text \<open>
  The counters of \<open>lib/pdcp/pdcp_tx_metrics_impl.h\<close>, which count only while metrics are enabled.
  Latencies depend on the clock and are left out.
\<close>

record pdcp_tx_metrics =
  txm_enabled :: bool
  txm_num_sdus :: u32
  txm_num_sdu_bytes :: u32
  txm_num_dropped_sdus :: u32
  txm_num_pdus :: u32
  txm_num_pdu_bytes :: u32
  txm_num_discard_timeouts :: u32
  txm_counter :: u32

definition tx_metrics_init :: "bool \<Rightarrow> pdcp_tx_metrics" where
  "tx_metrics_init en = \<lparr>txm_enabled = en, txm_num_sdus = 0, txm_num_sdu_bytes = 0,
     txm_num_dropped_sdus = 0, txm_num_pdus = 0, txm_num_pdu_bytes = 0, txm_num_discard_timeouts = 0,
     txm_counter = 0\<rparr>"

definition txm_add_sdus :: "u32 \<Rightarrow> nat \<Rightarrow> pdcp_tx_metrics \<Rightarrow> pdcp_tx_metrics" where
  "txm_add_sdus n len m =
     (if \<not> txm_enabled m then m
      else m\<lparr>txm_num_sdus := txm_num_sdus m + n, txm_num_sdu_bytes := txm_num_sdu_bytes m + of_nat len\<rparr>)"

definition txm_add_lost_sdus :: "u32 \<Rightarrow> pdcp_tx_metrics \<Rightarrow> pdcp_tx_metrics" where
  "txm_add_lost_sdus n m =
     (if \<not> txm_enabled m then m else m\<lparr>txm_num_dropped_sdus := txm_num_dropped_sdus m + n\<rparr>)"

definition txm_add_pdus :: "u32 \<Rightarrow> nat \<Rightarrow> pdcp_tx_metrics \<Rightarrow> pdcp_tx_metrics" where
  "txm_add_pdus n len m =
     (if \<not> txm_enabled m then m
      else m\<lparr>txm_num_pdus := txm_num_pdus m + n, txm_num_pdu_bytes := txm_num_pdu_bytes m + of_nat len\<rparr>)"

definition txm_add_discard_timouts :: "u32 \<Rightarrow> pdcp_tx_metrics \<Rightarrow> pdcp_tx_metrics" where
  "txm_add_discard_timouts n m =
     (if \<not> txm_enabled m then m else m\<lparr>txm_num_discard_timeouts := txm_num_discard_timeouts m + n\<rparr>)"

text \<open>\<open>reset_metrics\<close> keeps the container's counter; reading the metrics increments it.\<close>

definition txm_reset_metrics :: "pdcp_tx_metrics \<Rightarrow> pdcp_tx_metrics run" where
  "txm_reset_metrics m =
     (if \<not> txm_enabled m then Inl Bad_argument
      else Inr ((tx_metrics_init True)\<lparr>txm_counter := txm_counter m\<rparr>))"

definition txm_get_metrics_and_reset :: "pdcp_tx_metrics \<Rightarrow> (pdcp_tx_metrics \<times> pdcp_tx_metrics) run" where
  "txm_get_metrics_and_reset m =
     (if \<not> txm_enabled m then Inl Bad_argument
      else seq_run (txm_reset_metrics (m\<lparr>txm_counter := txm_counter m + 1\<rparr>)) (\<lambda>m'. Inr (m, m')))"

end
