(* ===== verification/Pdcp_Tx.thy ===== *)
theory Pdcp_Tx
  imports Pdcp_Tx_Window Pdcp_Tx_Metrics Pdcp_Rx
begin

text \<open>
  The transmitting PDCP entity, \<open>lib/pdcp/pdcp_entity_tx.h\<close> and \<open>pdcp_entity_tx.cpp\<close>: one
  definition per member function, over a record of the entity's state. As in the receiving
  entity, calls to the lower layers and to the RRC are appended to \<open>tx_outbox\<close>, the executors are
  lists of tasks, and the answers of the environment are arguments. The timer manager's clock is
  the field \<open>tx_now\<close>; the discard timer holds the tick at which it was started and its duration.
\<close>

section \<open>Configuration and state\<close>

datatype pdcp_discard_timer = Discard_ms nat | Discard_infinity

definition pdcp_discard_timer_from_int :: "int \<Rightarrow> pdcp_discard_timer option" where
  "pdcp_discard_timer_from_int num =
     (if num \<in> set [10, 20, 30, 40, 50, 60, 75, 100, 150, 200, 250, 300, 500, 750, 1500]
      then Some (Discard_ms (nat num)) else if num = -1 then Some Discard_infinity else None)"

definition pdcp_discard_timer_to_int :: "pdcp_discard_timer \<Rightarrow> int" where
  "pdcp_discard_timer_to_int t = (case t of Discard_ms n \<Rightarrow> int n | Discard_infinity \<Rightarrow> -1)"

datatype rohc_type_t = Rohc | Uplink_only_rohc

record pdcp_tx_config =
  txc_rb_type :: pdcp_rb_type
  txc_rlc_mode :: pdcp_rlc_mode
  txc_sn_size :: pdcp_sn_size
  txc_direction :: pdcp_security_direction
  txc_header_compression :: "rohc_type_t option"
  txc_discard_timer :: "pdcp_discard_timer option"
  txc_status_report_required :: bool
  txc_max_count :: pdcp_max_count
  txc_test_mode :: bool

record pdcp_tx_state =
  tx_next :: u32
  tx_trans_crypto :: u32
  tx_reord_crypto :: u32
  tx_trans :: u32
  tx_next_ack :: u32

record pdcp_tx_buffer_info =
  tbi_is_retx :: bool
  tbi_retx_id :: u16
  tbi_count :: u32
  tbi_buf :: bytes

text \<open>The notifications, in the order they are sent. \<open>On_new_data_pdu\<close> also keeps the PDU's COUNT.\<close>

datatype pdcp_tx_event =
    On_new_data_pdu u32 bytes bool
  | On_new_control_pdu bytes
  | On_discard_pdu u32
  | Tx_on_protocol_failure
  | Tx_on_max_count_reached
  | Tx_on_resume_required

datatype pdcp_tx_task = Tx_handle_failure security_status u32 | Tx_reorder pdcp_tx_buffer_info

record 'r pdcp_tx_env =
  txe_prims :: sec_prims
  txe_nof_workers :: nat
  txe_create_rohc :: "'r option"
  txe_rohc_compress :: "'r \<Rightarrow> bytes \<Rightarrow> bytes \<times> 'r"
  txe_rohc_handle_feedback :: "'r \<Rightarrow> bytes \<Rightarrow> 'r"

record 'r pdcp_tx =
  tx_cfg :: pdcp_tx_config
  tx_bearer_id :: u8
  tx_stopped :: bool
  tx_rohc :: "'r option"
  tx_sec_engines :: "security_engine option list"
  tx_integrity_enabled :: integrity_enabled
  tx_ciphering_enabled :: ciphering_enabled
  tx_st :: pdcp_tx_state
  tx_window :: pdcp_tx_window
  tx_desired_buffer_size :: u32
  tx_retransmit_id :: u16
  tx_warn_on_drop_count :: u32
  tx_discard_timer :: "(u32 \<times> u32) option"
  tx_crypto_timer_running :: bool
  tx_token_mngr :: pdcp_crypto_token_manager
  tx_buffering :: bool
  tx_suspended :: bool
  tx_resume_requested :: bool
  tx_sdu_buffer :: "bytes ring_buffer"
  tx_max_count_notified :: bool
  tx_max_count_overflow :: bool
  tx_metrics :: pdcp_tx_metrics
  tx_crypto_tasks :: "pdcp_tx_buffer_info list"
  tx_ue_tasks :: "pdcp_tx_task list"
  tx_outbox :: "pdcp_tx_event list"
  tx_now :: u32

definition tx_is_srb :: "'r pdcp_tx \<Rightarrow> bool" where
  "tx_is_srb s \<longleftrightarrow> txc_rb_type (tx_cfg s) = Srb"

definition tx_is_um :: "'r pdcp_tx \<Rightarrow> bool" where
  "tx_is_um s \<longleftrightarrow> txc_rlc_mode (tx_cfg s) = Um"

definition tx_is_am :: "'r pdcp_tx \<Rightarrow> bool" where
  "tx_is_am s \<longleftrightarrow> txc_rlc_mode (tx_cfg s) = Am"

definition tx_sn :: "'r pdcp_tx \<Rightarrow> u32 \<Rightarrow> u32" where
  "tx_sn s count = pdcp_compute_sn count (txc_sn_size (tx_cfg s))"

definition tx_emit :: "pdcp_tx_event \<Rightarrow> 'r pdcp_tx \<Rightarrow> 'r pdcp_tx" where
  "tx_emit e s = s\<lparr>tx_outbox := tx_outbox s @ [e]\<rparr>"

definition tx_count :: "(pdcp_tx_metrics \<Rightarrow> pdcp_tx_metrics) \<Rightarrow> 'r pdcp_tx \<Rightarrow> 'r pdcp_tx" where
  "tx_count f s = s\<lparr>tx_metrics := f (tx_metrics s)\<rparr>"

definition tx_lost :: "'r pdcp_tx \<Rightarrow> 'r pdcp_tx" where
  "tx_lost s = tx_count (txm_add_lost_sdus 1) s"

definition tx_zero_st :: pdcp_tx_state where
  "tx_zero_st = \<lparr>tx_next = 0, tx_trans_crypto = 0, tx_reord_crypto = 0, tx_trans = 0, tx_next_ack = 0\<rparr>"

text \<open>The destructor of a token returns it.\<close>

definition tx_return_token :: "'r pdcp_tx \<Rightarrow> 'r pdcp_tx run" where
  "tx_return_token s = seq_run (return_token (tx_token_mngr s)) (\<lambda>m. Inr (s\<lparr>tx_token_mngr := m\<rparr>))"

section \<open>Submission to the lower layers\<close>

definition write_data_pdu_to_lower_layers :: "u32 \<Rightarrow> bytes \<Rightarrow> bool \<Rightarrow> 'r pdcp_tx \<Rightarrow> 'r pdcp_tx" where
  "write_data_pdu_to_lower_layers count pdu is_retx s =
     tx_emit (On_new_data_pdu count pdu is_retx) (tx_count (txm_add_pdus 1 (length pdu)) s)"

definition write_control_pdu_to_lower_layers :: "bytes \<Rightarrow> 'r pdcp_tx \<Rightarrow> 'r pdcp_tx" where
  "write_control_pdu_to_lower_layers buf s =
     tx_emit (On_new_control_pdu buf) (tx_count (txm_add_pdus 1 (length buf)) s)"

section \<open>The discard timer\<close>

definition tx_stop_discard :: "'r pdcp_tx \<Rightarrow> 'r pdcp_tx" where
  "tx_stop_discard s = s\<lparr>tx_discard_timer := None\<rparr>"

definition tx_run_discard :: "u32 \<Rightarrow> 'r pdcp_tx \<Rightarrow> 'r pdcp_tx" where
  "tx_run_discard timeout s = s\<lparr>tx_discard_timer := Some (tx_now s, timeout)\<rparr>"

definition tx_set_ack :: "u32 \<Rightarrow> 'r pdcp_tx \<Rightarrow> 'r pdcp_tx" where
  "tx_set_ack c s = s\<lparr>tx_st := (tx_st s)\<lparr>tx_next_ack := c\<rparr>\<rparr>"

definition tx_raise_trans :: "'r pdcp_tx \<Rightarrow> 'r pdcp_tx" where
  "tx_raise_trans s =
     s\<lparr>tx_st := (tx_st s)\<lparr>tx_trans := max (tx_trans (tx_st s)) (tx_next_ack (tx_st s))\<rparr>\<rparr>"

text \<open>
  The loop of \<open>stop_discard_timer\<close>. It ends after \<open>highest_count - TX_NEXT_ACK + 1\<close> rounds, the
  first argument, as the caller has checked that \<open>highest_count < TX_NEXT\<close>.
\<close>

fun remove_up_to :: "nat \<Rightarrow> u32 \<Rightarrow> 'r pdcp_tx \<Rightarrow> 'r pdcp_tx run" where
  "remove_up_to 0 highest_count s = Inr s"
| "remove_up_to (Suc n) highest_count s =
     (if tx_next_ack (tx_st s) \<le> highest_count then
        seq_run (if txw_has_sn (tx_window s) (tx_next_ack (tx_st s))
                 then seq_run (remove_sdu (tx_next_ack (tx_st s)) (tx_window s)) (\<lambda>w. Inr (s\<lparr>tx_window := w\<rparr>))
                 else Inr s) (\<lambda>s.
        remove_up_to n highest_count (tx_set_ack (tx_next_ack (tx_st s) + 1) s))
      else Inr s)"

definition tick_of :: "pdcp_tx_window_element \<Rightarrow> u32 run" where
  "tick_of e = (case tsi_tick (twe_sdu_info e) of None \<Rightarrow> Inl Missing_tick | Some t \<Rightarrow> Inr t)"

definition restart_discard_timer :: "pdcp_discard_timer \<Rightarrow> 'r pdcp_tx \<Rightarrow> 'r pdcp_tx run" where
  "restart_discard_timer duration s =
     (case duration of
        Discard_infinity \<Rightarrow> Inr s
      | Discard_ms ms \<Rightarrow>
          if tx_next_ack (tx_st s) \<noteq> tx_next (tx_st s) then
            seq_run (txw_at (tx_window s) (tx_next_ack (tx_st s))) (\<lambda>e.
            seq_run (tick_of e) (\<lambda>t.
            Inr (tx_run_discard (t + of_nat ms - tx_now s) s)))
          else Inr s)"

definition stop_discard_timer :: "u32 \<Rightarrow> 'r pdcp_tx \<Rightarrow> 'r pdcp_tx run" where
  "stop_discard_timer highest_count s =
     (case txc_discard_timer (tx_cfg s) of
        None \<Rightarrow> Inr s
      | Some duration \<Rightarrow>
          if highest_count < tx_next_ack (tx_st s) \<or> tx_next (tx_st s) \<le> highest_count then Inr s
          else if \<not> txw_has_sn (tx_window s) (tx_next_ack (tx_st s)) then Inr s
          else
            seq_run (remove_up_to (unat highest_count + 1 - unat (tx_next_ack (tx_st s))) highest_count
                       (tx_stop_discard s)) (\<lambda>s.
            restart_discard_timer duration (tx_raise_trans s)))"

function skip_removed :: "'r pdcp_tx \<Rightarrow> 'r pdcp_tx" where
  "skip_removed s =
     (if tx_next_ack (tx_st s) < tx_next (tx_st s) \<and> \<not> txw_has_sn (tx_window s) (tx_next_ack (tx_st s))
      then skip_removed (tx_set_ack (tx_next_ack (tx_st s) + 1) s)
      else s)"
  by auto
termination
  by (relation "measure (\<lambda>s. unat (tx_next (tx_st s) - tx_next_ack (tx_st s)))")
     (auto simp: tx_set_ack_def unat_diff_less)

declare skip_removed.simps [simp del]

definition discard_pdu :: "u32 \<Rightarrow> 'r pdcp_tx \<Rightarrow> 'r pdcp_tx run" where
  "discard_pdu count s =
     (if txc_discard_timer (tx_cfg s) = None then Inr s
      else if count < tx_next_ack (tx_st s) \<or> tx_next (tx_st s) \<le> count then Inr s
      else if \<not> txw_has_sn (tx_window s) count then Inr s
      else
        let s = tx_emit (On_discard_pdu (tx_sn s count)) s in
        seq_run (remove_sdu count (tx_window s)) (\<lambda>w.
        Inr (tx_raise_trans (skip_removed (s\<lparr>tx_window := w\<rparr>)))))"

text \<open>
  The loop of \<open>discard_callback\<close>. TX\_NEXT\_ACK rises in every round, so the distance to TX\_NEXT
  bounds the number of rounds.
\<close>

fun discard_expired :: "nat \<Rightarrow> u32 \<Rightarrow> 'r pdcp_tx \<Rightarrow> 'r pdcp_tx run" where
  "discard_expired 0 oldest_timepoint s = Inr s"
| "discard_expired (Suc n) oldest_timepoint s =
     seq_run (discard_pdu (tx_next_ack (tx_st s)) s) (\<lambda>s.
     if \<not> txw_has_sn (tx_window s) (tx_next_ack (tx_st s)) then Inr s
     else
       seq_run (txw_at (tx_window s) (tx_next_ack (tx_st s))) (\<lambda>e.
       seq_run (tick_of e) (\<lambda>t.
       if t \<noteq> oldest_timepoint then Inr (tx_run_discard (t - oldest_timepoint) s)
       else if tx_next_ack (tx_st s) \<noteq> tx_next (tx_st s) then discard_expired n oldest_timepoint s
       else Inr s)))"

text \<open>The callback of the timer, which no longer runs when it is called.\<close>

definition discard_callback :: "'r pdcp_tx \<Rightarrow> 'r pdcp_tx run" where
  "discard_callback s =
     (if tx_stopped s then Inr s
      else
        let s = tx_count (txm_add_discard_timouts 1) s in
        if \<not> txw_has_sn (tx_window s) (tx_next_ack (tx_st s)) then Inr s
        else
          seq_run (txw_at (tx_window s) (tx_next_ack (tx_st s))) (\<lambda>e.
          seq_run (tick_of e) (\<lambda>t.
          discard_expired (unat (tx_next (tx_st s) - tx_next_ack (tx_st s)) + 1) t s)))"

section \<open>Notifications from the lower layers\<close>

definition notification_count_estimation :: "u32 \<Rightarrow> 'r pdcp_tx \<Rightarrow> u32" where
  "notification_count_estimation notification_sn s =
     estimate_count (txc_sn_size (tx_cfg s))
       (if txc_discard_timer (tx_cfg s) \<noteq> None then tx_next_ack (tx_st s) else tx_trans (tx_st s))
       notification_sn"

definition handle_transmit_notification_impl :: "u32 \<Rightarrow> bool \<Rightarrow> 'r pdcp_tx \<Rightarrow> 'r pdcp_tx run" where
  "handle_transmit_notification_impl notif_sn is_retx s =
     (if pdcp_sn_cardinality (txc_sn_size (tx_cfg s)) \<le> notif_sn then Inr s
      else
        let notif_count = notification_count_estimation notif_sn s in
        if tx_trans_crypto (tx_st s) \<le> notif_count then Inr s
        else if notif_count < tx_trans (tx_st s) then Inr s
        else if tx_next (tx_st s) \<le> notif_count then Inr s
        else
          let s = s\<lparr>tx_st := (tx_st s)\<lparr>tx_trans := notif_count + 1\<rparr>\<rparr> in
          if txc_discard_timer (tx_cfg s) = None then Inr s
          else if tx_is_um s then stop_discard_timer notif_count s else Inr s)"

definition handle_transmit_notification :: "u32 \<Rightarrow> 'r pdcp_tx \<Rightarrow> 'r pdcp_tx run" where
  "handle_transmit_notification notif_sn s =
     (if tx_stopped s then Inr s else handle_transmit_notification_impl notif_sn False s)"

definition handle_delivery_notification_impl :: "u32 \<Rightarrow> bool \<Rightarrow> 'r pdcp_tx \<Rightarrow> 'r pdcp_tx run" where
  "handle_delivery_notification_impl notif_sn is_retx s =
     (if pdcp_sn_cardinality (txc_sn_size (tx_cfg s)) \<le> notif_sn then Inr s
      else
        let notif_count = notification_count_estimation notif_sn s in
        if tx_next (tx_st s) \<le> notif_count then Inr s
        else if txc_discard_timer (tx_cfg s) = None then Inr s
        else if tx_is_am s then stop_discard_timer notif_count s else Inr s)"

definition handle_delivery_notification :: "u32 \<Rightarrow> 'r pdcp_tx \<Rightarrow> 'r pdcp_tx run" where
  "handle_delivery_notification notif_sn s =
     (if tx_stopped s then Inr s else handle_delivery_notification_impl notif_sn False s)"

definition handle_retransmit_notification :: "u32 \<Rightarrow> 'r pdcp_tx \<Rightarrow> 'r pdcp_tx run" where
  "handle_retransmit_notification notif_sn s =
     (if tx_stopped s then Inr s
      else if tx_is_srb s then Inr s
      else if tx_is_um s then Inr s
      else handle_transmit_notification_impl notif_sn True s)"

definition handle_delivery_retransmitted_notification :: "u32 \<Rightarrow> 'r pdcp_tx \<Rightarrow> 'r pdcp_tx run" where
  "handle_delivery_retransmitted_notification notif_sn s =
     (if tx_stopped s then Inr s
      else if tx_is_srb s then Inr s
      else if tx_is_um s then Inr s
      else handle_delivery_notification_impl notif_sn True s)"

definition handle_desired_buffer_size_notification :: "u32 \<Rightarrow> 'r pdcp_tx \<Rightarrow> 'r pdcp_tx" where
  "handle_desired_buffer_size_notification desired_bs s =
     (if tx_stopped s then s else s\<lparr>tx_desired_buffer_size := desired_bs\<rparr>)"

subsection \<open>What these operations leave alone\<close>

text \<open>They change TX\_TRANS, TX\_NEXT\_ACK, the window, the discard timer and the outbox only.\<close>

definition ack_frame :: "'r pdcp_tx \<Rightarrow> 'r pdcp_tx \<Rightarrow> bool" where
  "ack_frame s u \<longleftrightarrow> (\<exists>a b w d evs. u = s\<lparr>tx_st := (tx_st s)\<lparr>tx_trans := a, tx_next_ack := b\<rparr>,
     tx_window := w, tx_discard_timer := d, tx_outbox := evs\<rparr>)"

lemma ack_frame_refl [simp]: "ack_frame s s"
  unfolding ack_frame_def
  by (rule exI [of _ "tx_trans (tx_st s)"], rule exI [of _ "tx_next_ack (tx_st s)"], rule exI [of _ "tx_window s"],
      rule exI [of _ "tx_discard_timer s"], rule exI [of _ "tx_outbox s"]) simp

lemma ack_frame_trans: "ack_frame s t \<Longrightarrow> ack_frame t u \<Longrightarrow> ack_frame s u"
  unfolding ack_frame_def by (elim exE) (simp, blast)

lemma ack_frame_emit: "ack_frame s (tx_emit e s)"
  unfolding ack_frame_def tx_emit_def
  by (rule exI [of _ "tx_trans (tx_st s)"], rule exI [of _ "tx_next_ack (tx_st s)"], rule exI [of _ "tx_window s"],
      rule exI [of _ "tx_discard_timer s"], rule exI [of _ "tx_outbox s @ [e]"]) simp

lemma ack_frame_window: "ack_frame s (s\<lparr>tx_window := w\<rparr>)"
  unfolding ack_frame_def
  by (rule exI [of _ "tx_trans (tx_st s)"], rule exI [of _ "tx_next_ack (tx_st s)"], rule exI [of _ w],
      rule exI [of _ "tx_discard_timer s"], rule exI [of _ "tx_outbox s"]) simp

lemma ack_frame_discard: "ack_frame s (s\<lparr>tx_discard_timer := d\<rparr>)"
  unfolding ack_frame_def
  by (rule exI [of _ "tx_trans (tx_st s)"], rule exI [of _ "tx_next_ack (tx_st s)"], rule exI [of _ "tx_window s"],
      rule exI [of _ d], rule exI [of _ "tx_outbox s"]) simp

lemma ack_frame_st: "ack_frame s (s\<lparr>tx_st := (tx_st s)\<lparr>tx_trans := a\<rparr>\<rparr>)" "ack_frame s (s\<lparr>tx_st := (tx_st s)\<lparr>tx_next_ack := b\<rparr>\<rparr>)"
  unfolding ack_frame_def
  by (rule exI [of _ a], rule exI [of _ "tx_next_ack (tx_st s)"], rule exI [of _ "tx_window s"],
      rule exI [of _ "tx_discard_timer s"], rule exI [of _ "tx_outbox s"], simp)
     (rule exI [of _ "tx_trans (tx_st s)"], rule exI [of _ b], rule exI [of _ "tx_window s"],
      rule exI [of _ "tx_discard_timer s"], rule exI [of _ "tx_outbox s"], simp)

lemmas ack_frame_steps = ack_frame_emit ack_frame_window ack_frame_discard
  ack_frame_st(2) [folded tx_set_ack_def]
  ack_frame_discard [where d = None, folded tx_stop_discard_def]

lemma ack_frame_raise: "ack_frame s (tx_raise_trans s)" "ack_frame s (tx_run_discard t s)"
  by (simp_all add: tx_raise_trans_def ack_frame_st tx_run_discard_def ack_frame_discard)

lemma ack_frame_skip: "ack_frame s (skip_removed s)"
proof (induction s rule: skip_removed.induct)
  case (1 s)
  show ?case
    using 1 ack_frame_trans [OF ack_frame_steps(4)]
    by (subst skip_removed.simps) auto
qed

lemma ack_frame_discard_pdu: "discard_pdu c s = Inr u \<Longrightarrow> ack_frame s u"
  unfolding discard_pdu_def Let_def
  by (auto simp: seq_run_Inr split: if_splits intro!: ack_frame_trans [OF _ ack_frame_raise(1)]
      ack_frame_trans [OF _ ack_frame_skip] ack_frame_trans [OF ack_frame_emit ack_frame_window])

lemma ack_frame_remove_up_to: "remove_up_to n h s = Inr u \<Longrightarrow> ack_frame s u"
proof (induction n h s rule: remove_up_to.induct)
  case (2 n h s)
  show ?case
  proof (cases "tx_next_ack (tx_st s) \<le> h")
    case True
    then obtain t where t: "(if txw_has_sn (tx_window s) (tx_next_ack (tx_st s))
                 then seq_run (remove_sdu (tx_next_ack (tx_st s)) (tx_window s)) (\<lambda>w. Inr (s\<lparr>tx_window := w\<rparr>))
                 else Inr s) = Inr t" "remove_up_to n h (tx_set_ack (tx_next_ack (tx_st t) + 1) t) = Inr u"
      using 2(2) by (auto simp: seq_run_Inr split: if_splits)
    have "ack_frame s t" using t(1) by (auto simp: seq_run_Inr ack_frame_window split: if_splits)
    then show ?thesis using 2(1) [OF True t(2)] ack_frame_steps(4) by (blast intro: ack_frame_trans)
  qed (use 2(2) in auto)
qed auto

lemma ack_frame_restart: "restart_discard_timer d s = Inr u \<Longrightarrow> ack_frame s u"
  by (cases d) (auto simp: restart_discard_timer_def seq_run_Inr ack_frame_raise split: if_splits)

lemma ack_frame_stop_discard_timer:
  assumes "stop_discard_timer c s = Inr u"
  shows "ack_frame s u"
proof -
  have "ack_frame s u" if "remove_up_to n c (tx_stop_discard s) = Inr v"
    "restart_discard_timer d (tx_raise_trans v) = Inr u" for n v d
    using ack_frame_remove_up_to [OF that(1)] ack_frame_restart [OF that(2)]
      ack_frame_steps(5) ack_frame_raise(1) by (blast intro: ack_frame_trans)
  then show ?thesis
    using assms unfolding stop_discard_timer_def by (auto simp: seq_run_Inr split: option.splits if_splits)
qed

lemma ack_frame_transmit_notification: "handle_transmit_notification sn s = Inr u \<Longrightarrow> ack_frame s u"
  by (auto simp: handle_transmit_notification_def handle_transmit_notification_impl_def Let_def ack_frame_st
      split: if_splits dest!: ack_frame_stop_discard_timer intro: ack_frame_trans [OF ack_frame_st(1)])

lemma ack_frame_same:
  assumes "ack_frame s u"
  shows "tx_next (tx_st u) = tx_next (tx_st s)" "tx_trans_crypto (tx_st u) = tx_trans_crypto (tx_st s)"
    "tx_reord_crypto (tx_st u) = tx_reord_crypto (tx_st s)" "tx_cfg u = tx_cfg s" "tx_stopped u = tx_stopped s"
    "tx_crypto_tasks u = tx_crypto_tasks s" "tx_ue_tasks u = tx_ue_tasks s" "tx_rohc u = tx_rohc s"
    "tx_retransmit_id u = tx_retransmit_id s" "tx_crypto_timer_running u = tx_crypto_timer_running s"
    "tx_token_mngr u = tx_token_mngr s" "tx_sec_engines u = tx_sec_engines s" "tx_now u = tx_now s"
    "tx_bearer_id u = tx_bearer_id s" "tx_buffering u = tx_buffering s" "tx_suspended u = tx_suspended s"
    "tx_sdu_buffer u = tx_sdu_buffer s" "tx_metrics u = tx_metrics s"
    "tx_desired_buffer_size u = tx_desired_buffer_size s" "tx_integrity_enabled u = tx_integrity_enabled s"
    "tx_max_count_overflow u = tx_max_count_overflow s"
  using assms by (auto simp: ack_frame_def)

end
