(* ===== verification/Pdcp_Tx_Entity.thy ===== *)
theory Pdcp_Tx_Entity
  imports Pdcp_Tx
begin

text \<open>
  The data path and the control operations of the transmitting entity (\<open>pdcp_entity_tx.cpp\<close>):
  SDU admission, security, reordering of the PDUs that the crypto workers return, status reports,
  retransmission, suspension and re-establishment.
\<close>

section \<open>In-order submission\<close>

text \<open>Hand the PDU that waits in the window to the lower layers.\<close>

definition submit_pdu :: "u32 \<Rightarrow> bool \<Rightarrow> 'r pdcp_tx \<Rightarrow> 'r pdcp_tx run" where
  "submit_pdu count is_retx s =
     seq_run (take_pdu count (tx_window s)) (\<lambda>(pdu, w).
     Inr (write_data_pdu_to_lower_layers count pdu is_retx (s\<lparr>tx_window := w\<rparr>)))"

definition tx_set_trans_crypto :: "u32 \<Rightarrow> 'r pdcp_tx \<Rightarrow> 'r pdcp_tx" where
  "tx_set_trans_crypto c s = s\<lparr>tx_st := (tx_st s)\<lparr>tx_trans_crypto := c\<rparr>\<rparr>"

text \<open>One round of the submission loop for a PDU that is there.\<close>

definition submit_next :: "bool \<Rightarrow> u32 \<Rightarrow> 'r pdcp_tx \<Rightarrow> 'r pdcp_tx run" where
  "submit_next is_retx count s =
     seq_run (submit_pdu count is_retx s) (\<lambda>s.
     let s = tx_set_trans_crypto (count + 1) s in
     if txc_test_mode (tx_cfg s) then handle_transmit_notification (tx_sn s count) s else Inr s)"

lemma submit_next_tx_next:
  assumes "submit_next r c s = Inr u"
  shows "tx_next (tx_st u) = tx_next (tx_st s)"
  using assms
  by (auto simp: submit_next_def submit_pdu_def seq_run_Inr Let_def tx_set_trans_crypto_def
      write_data_pdu_to_lower_layers_def tx_emit_def tx_count_def split: if_splits
      dest!: ack_frame_transmit_notification ack_frame_same(1))

function submit_in_order :: "bool \<Rightarrow> u32 \<Rightarrow> 'r pdcp_tx \<Rightarrow> 'r pdcp_tx run" where
  "submit_in_order is_retx count s =
     (if count < tx_next (tx_st s) then
        (case txw_at (tx_window s) count of
           Inl e \<Rightarrow> Inl e
         | Inr elem \<Rightarrow>
             if twe_pdu elem = [] then Inr s
             else (case submit_next is_retx count s of
               Inl e \<Rightarrow> Inl e
             | Inr s' \<Rightarrow> submit_in_order is_retx (count + 1) s'))
      else Inr s)"
  by auto
termination
  by (relation "measure (\<lambda>(r, c, s). unat (tx_next (tx_st s) - c))")
     (auto simp: submit_next_tx_next unat_diff_less)

declare submit_in_order.simps [simp del]

section \<open>The crypto reordering timer\<close>

definition tx_run_crypto_timer :: "'r pdcp_tx \<Rightarrow> 'r pdcp_tx" where
  "tx_run_crypto_timer s = s\<lparr>tx_crypto_timer_running := True\<rparr>"

definition tx_stop_crypto_timer :: "'r pdcp_tx \<Rightarrow> 'r pdcp_tx" where
  "tx_stop_crypto_timer s = s\<lparr>tx_crypto_timer_running := False\<rparr>"

definition tx_reord_to_next :: "'r pdcp_tx \<Rightarrow> 'r pdcp_tx" where
  "tx_reord_to_next s = s\<lparr>tx_st := (tx_st s)\<lparr>tx_reord_crypto := tx_next (tx_st s)\<rparr>\<rparr>"

text \<open>The end of \<open>apply_reordering\<close>.\<close>

definition update_crypto_timer :: "'r pdcp_tx \<Rightarrow> 'r pdcp_tx" where
  "update_crypto_timer s =
     (let s = (if tx_crypto_timer_running s \<and> tx_reord_crypto (tx_st s) \<le> tx_trans_crypto (tx_st s)
               then tx_stop_crypto_timer s else s) in
      if \<not> tx_crypto_timer_running s \<and> tx_trans_crypto (tx_st s) < tx_next (tx_st s)
      then tx_run_crypto_timer (tx_reord_to_next s) else s)"

definition tx_apply_reordering :: "pdcp_tx_buffer_info \<Rightarrow> 'r pdcp_tx \<Rightarrow> 'r pdcp_tx run" where
  "tx_apply_reordering buf_info s =
     (if tx_stopped s then Inr s
      else if tbi_retx_id buf_info \<noteq> tx_retransmit_id s then Inr s
      else if tbi_count buf_info < tx_next_ack (tx_st s) then Inr s
      else if tbi_count buf_info < tx_trans (tx_st s) then Inr s
      else if \<not> txw_has_sn (tx_window s) (tbi_count buf_info) then Inr s
      else
        seq_run (put_pdu (tbi_count buf_info) (tbi_buf buf_info) (tx_window s)) (\<lambda>w.
        seq_run (submit_in_order (tbi_is_retx buf_info) (tx_trans_crypto (tx_st s)) (s\<lparr>tx_window := w\<rparr>)) (\<lambda>s.
        Inr (update_crypto_timer s))))"

text \<open>The first loop of \<open>crypto_reordering_timeout\<close>.\<close>

definition submit_or_skip :: "'r pdcp_tx \<Rightarrow> 'r pdcp_tx run" where
  "submit_or_skip s =
     seq_run
       (if txw_has_sn (tx_window s) (tx_trans_crypto (tx_st s)) then
          seq_run (txw_at (tx_window s) (tx_trans_crypto (tx_st s))) (\<lambda>elem.
          if twe_pdu elem \<noteq> [] then submit_pdu (tx_trans_crypto (tx_st s)) False s else Inr s)
        else Inr s) (\<lambda>s.
     Inr (tx_set_trans_crypto (tx_trans_crypto (tx_st s) + 1) s))"

lemma submit_or_skip_st:
  assumes "submit_or_skip s = Inr u"
  shows "tx_st u = (tx_st s)\<lparr>tx_trans_crypto := tx_trans_crypto (tx_st s) + 1\<rparr>"
  using assms
  by (auto simp: submit_or_skip_def submit_pdu_def seq_run_Inr tx_set_trans_crypto_def
      write_data_pdu_to_lower_layers_def tx_emit_def tx_count_def split: if_splits)

function submit_until_reord :: "'r pdcp_tx \<Rightarrow> 'r pdcp_tx run" where
  "submit_until_reord s =
     (if tx_trans_crypto (tx_st s) \<noteq> tx_reord_crypto (tx_st s) then
        (case submit_or_skip s of
           Inl e \<Rightarrow> Inl e
         | Inr s' \<Rightarrow> submit_until_reord s')
      else Inr s)"
  by auto
termination
  by (relation "measure (\<lambda>s. unat (tx_reord_crypto (tx_st s) - tx_trans_crypto (tx_st s)))")
     (auto simp: submit_or_skip_st unat_diff_less)

declare submit_until_reord.simps [simp del]

text \<open>The callback of the timer, which no longer runs when it is called.\<close>

definition crypto_reordering_timeout :: "'r pdcp_tx \<Rightarrow> 'r pdcp_tx run" where
  "crypto_reordering_timeout s =
     (if tx_stopped s then Inr s
      else
        seq_run (submit_until_reord s) (\<lambda>s.
        seq_run (submit_in_order False (tx_trans_crypto (tx_st s)) s) (\<lambda>s.
        Inr (if tx_trans_crypto (tx_st s) < tx_next (tx_st s)
             then tx_run_crypto_timer (tx_reord_to_next s) else s))))"

section \<open>Security\<close>

text \<open>\<open>room\<close> says whether memory is found for the MAC-I.\<close>

definition apply_ciphering_and_integrity_protection ::
    "'r pdcp_tx_env \<Rightarrow> nat \<Rightarrow> bool \<Rightarrow> bytes \<Rightarrow> u32 \<Rightarrow> 'r pdcp_tx \<Rightarrow> (security_status \<times> bytes) run" where
  "apply_ciphering_and_integrity_protection env worker_idx room buf count s =
     (if txe_nof_workers env \<le> worker_idx then Inl Bad_argument
      else case tx_sec_engines s ! worker_idx of
        None \<Rightarrow>
          if tx_is_srb s then
            if \<not> room then Inr (Buffer_failure, buf) else Inr (Success_unprotected, buf @ zero_mac)
          else Inr (Engine_failure, buf)
      | Some sec_engine \<Rightarrow>
          Inr (encrypt_and_protect_integrity (txe_prims env) sec_engine room buf
                 (if txc_sn_size (tx_cfg s) = Size12bits then 2 else 3) count))"

definition tx_post_ue_task :: "bool \<Rightarrow> pdcp_tx_task \<Rightarrow> 'r pdcp_tx \<Rightarrow> 'r pdcp_tx run" where
  "tx_post_ue_task ue_ok t s =
     (if ue_ok then Inr (s\<lparr>tx_ue_tasks := tx_ue_tasks s @ [t]\<rparr>) else tx_return_token s)"

definition tx_apply_security ::
    "'r pdcp_tx_env \<Rightarrow> nat \<Rightarrow> bool \<Rightarrow> bool \<Rightarrow> pdcp_tx_buffer_info \<Rightarrow> 'r pdcp_tx \<Rightarrow> 'r pdcp_tx run" where
  "tx_apply_security env worker_idx room ue_ok buf_info s =
     seq_run (apply_ciphering_and_integrity_protection env worker_idx room (tbi_buf buf_info) (tbi_count buf_info) s)
     (\<lambda>(status, buf).
       if \<not> is_success status then tx_post_ue_task ue_ok (Tx_handle_failure status (tbi_count buf_info)) s
       else tx_post_ue_task ue_ok (Tx_reorder (buf_info\<lparr>tbi_buf := buf\<rparr>)) s)"

definition tx_handle_failure :: "security_status \<Rightarrow> 'r pdcp_tx \<Rightarrow> 'r pdcp_tx" where
  "tx_handle_failure status s =
     (case status of
        Integrity_failure \<Rightarrow> tx_emit Tx_on_protocol_failure s
      | Ciphering_failure \<Rightarrow> tx_emit Tx_on_protocol_failure s
      | Buffer_failure \<Rightarrow> tx_emit Tx_on_protocol_failure s
      | Engine_failure \<Rightarrow> tx_emit Tx_on_protocol_failure s
      | Success \<Rightarrow> tx_emit Tx_on_protocol_failure s
      | Success_unprotected \<Rightarrow> tx_emit Tx_on_protocol_failure s)"

text \<open>The two executors run a task: any one of the crypto tasks, and the first UE task.\<close>

definition tx_run_crypto_task ::
    "'r pdcp_tx_env \<Rightarrow> nat \<Rightarrow> bool \<Rightarrow> bool \<Rightarrow> nat \<Rightarrow> 'r pdcp_tx \<Rightarrow> 'r pdcp_tx run" where
  "tx_run_crypto_task env worker_idx room ue_ok i s =
     (if i < length (tx_crypto_tasks s) then
        tx_apply_security env worker_idx room ue_ok (tx_crypto_tasks s ! i)
          (s\<lparr>tx_crypto_tasks := take i (tx_crypto_tasks s) @ drop (Suc i) (tx_crypto_tasks s)\<rparr>)
      else Inr s)"

definition tx_run_task :: "pdcp_tx_task \<Rightarrow> 'r pdcp_tx \<Rightarrow> 'r pdcp_tx run" where
  "tx_run_task t s =
     (case t of
        Tx_handle_failure status count \<Rightarrow> Inr (tx_handle_failure status s)
      | Tx_reorder buf_info \<Rightarrow> tx_apply_reordering buf_info s)"

definition tx_run_ue_task :: "'r pdcp_tx \<Rightarrow> 'r pdcp_tx run" where
  "tx_run_ue_task s =
     (case tx_ue_tasks s of
        [] \<Rightarrow> Inr s
      | t # ts \<Rightarrow> seq_run (tx_run_task t (s\<lparr>tx_ue_tasks := ts\<rparr>)) tx_return_token)"

section \<open>Header compression\<close>

definition init_header_compression :: "'r pdcp_tx_env \<Rightarrow> 'r pdcp_tx \<Rightarrow> 'r pdcp_tx" where
  "init_header_compression env s =
     (if txc_header_compression (tx_cfg s) = Some Rohc then s\<lparr>tx_rohc := txe_create_rohc env\<rparr> else s)"

definition apply_header_compression ::
    "'r pdcp_tx_env \<Rightarrow> bytes \<Rightarrow> 'r pdcp_tx \<Rightarrow> bool \<times> bytes \<times> 'r pdcp_tx" where
  "apply_header_compression env buf s =
     (case tx_rohc s of
        None \<Rightarrow> (True, buf, s)
      | Some r \<Rightarrow>
          (let (buf, r') = txe_rohc_compress env r buf; s = s\<lparr>tx_rohc := Some r'\<rparr> in
           if buf = [] then (False, buf, tx_emit Tx_on_protocol_failure (tx_lost s)) else (True, buf, s)))"

section \<open>Transmission\<close>

datatype early_drop_reason = Zero_dbs | Full_rlc_queue | Full_window | No_drop

definition get_pdu_size :: "'r pdcp_tx \<Rightarrow> bytes \<Rightarrow> u32" where
  "get_pdu_size s sdu =
     pdcp_data_header_size (txc_sn_size (tx_cfg s)) + of_nat (length sdu) +
     (if tx_integrity_enabled s = Integ_off then 0 else 4)"

definition check_early_drop :: "'r pdcp_tx \<Rightarrow> bytes \<Rightarrow> early_drop_reason" where
  "check_early_drop s buf =
     (if tx_desired_buffer_size s = 0 then Zero_dbs
      else if tx_desired_buffer_size s <
          get_pdu_bytes (tx_integrity_enabled s) (tx_window s) + get_pdu_size s buf
      then Full_rlc_queue
      else if pdcp_window_size (txc_sn_size (tx_cfg s)) - 1 \<le> tx_next (tx_st s) - tx_next_ack (tx_st s)
      then Full_window
      else No_drop)"

text \<open>The check of \<open>handle_sdu\<close> for DRBs; the result says whether to go on.\<close>

definition admit_sdu :: "bytes \<Rightarrow> 'r pdcp_tx \<Rightarrow> bool \<times> 'r pdcp_tx" where
  "admit_sdu buf s =
     (if \<not> tx_is_srb s then
        if check_early_drop s buf \<noteq> No_drop then
          (False, tx_lost (s\<lparr>tx_warn_on_drop_count := tx_warn_on_drop_count s + 1\<rparr>))
        else if tx_warn_on_drop_count s \<noteq> 0 then (True, s\<lparr>tx_warn_on_drop_count := 0\<rparr>)
        else (True, s)
      else (True, s))"

definition tx_check_max_count :: "'r pdcp_tx \<Rightarrow> bool \<times> 'r pdcp_tx" where
  "tx_check_max_count s =
     (if mc_hard (txc_max_count (tx_cfg s)) \<le> tx_next (tx_st s) then
        (False, if \<not> tx_max_count_overflow s
                then (tx_emit Tx_on_protocol_failure (tx_lost s))\<lparr>tx_max_count_overflow := True\<rparr> else s)
      else
        (True, if mc_notify (txc_max_count (tx_cfg s)) \<le> tx_next (tx_st s) \<and> \<not> tx_max_count_notified s
               then (tx_emit Tx_on_max_count_reached s)\<lparr>tx_max_count_notified := True\<rparr> else s))"

definition tx_start_discard_timer :: "'r pdcp_tx \<Rightarrow> u32 option \<times> 'r pdcp_tx" where
  "tx_start_discard_timer s =
     (case txc_discard_timer (tx_cfg s) of
        Some (Discard_ms ms) \<Rightarrow>
          (Some (tx_now s), if tx_discard_timer s = None then tx_run_discard (of_nat ms) s else s)
      | _ \<Rightarrow> (None, s))"

text \<open>
  What the environment answers: whether the SDU can be copied, whether there is room for a header,
  and whether the crypto executor accepts the task.
\<close>

record tx_choice =
  tx_copy_ok :: bool
  tx_room :: bool
  tx_crypto_ok :: bool

text \<open>Pass an SDU with its header to the crypto executor, with a token.\<close>

definition post_crypto_task :: "bool \<Rightarrow> pdcp_tx_buffer_info \<Rightarrow> 'r pdcp_tx \<Rightarrow> 'r pdcp_tx run" where
  "post_crypto_task accepted buf_info s =
     (if accepted then Inr (s\<lparr>tx_crypto_tasks := tx_crypto_tasks s @ [buf_info]\<rparr>)
      else tx_return_token (tx_lost s))"

definition tx_take_token :: "'r pdcp_tx \<Rightarrow> 'r pdcp_tx" where
  "tx_take_token s = s\<lparr>tx_token_mngr := increment_token (tx_token_mngr s)\<rparr>"

definition tx_advance_next :: "'r pdcp_tx \<Rightarrow> 'r pdcp_tx" where
  "tx_advance_next s = s\<lparr>tx_st := (tx_st s)\<lparr>tx_next := tx_next (tx_st s) + 1\<rparr>\<rparr>"

text \<open>From header compression to the crypto executor.\<close>

definition send_sdu :: "'r pdcp_tx_env \<Rightarrow> tx_choice \<Rightarrow> bytes \<Rightarrow> 'r pdcp_tx \<Rightarrow> 'r pdcp_tx run" where
  "send_sdu env ch buf s =
     (let (ok, buf, s) = apply_header_compression env buf s in
      if \<not> ok then Inr s
      else
        seq_run (prepend_data_pdu_header (txc_sn_size (tx_cfg s)) (tx_is_srb s) (tx_room ch) buf
                   (tx_sn s (tx_next (tx_st s)))) (\<lambda>r.
        case r of
          None \<Rightarrow> Inr (tx_emit Tx_on_protocol_failure (tx_lost s))
        | Some pdu \<Rightarrow>
            post_crypto_task (tx_crypto_ok ch)
              \<lparr>tbi_is_retx = False, tbi_retx_id = tx_retransmit_id s, tbi_count = tx_next (tx_st s), tbi_buf = pdu\<rparr>
              (tx_advance_next (tx_take_token s))))"

text \<open>From the limits on the COUNT to the window.\<close>

definition transmit_sdu :: "'r pdcp_tx_env \<Rightarrow> tx_choice \<Rightarrow> bytes \<Rightarrow> 'r pdcp_tx \<Rightarrow> 'r pdcp_tx run" where
  "transmit_sdu env ch buf s =
     (let (tick, s) = tx_start_discard_timer s;
          keep_sdu = (txc_discard_timer (tx_cfg s) \<noteq> None \<and> tx_is_am s) in
      if keep_sdu \<and> \<not> tx_copy_ok ch then Inr (tx_emit Tx_on_protocol_failure (tx_lost s))
      else
        seq_run (add_sdu \<lparr>tsi_sdu = (if keep_sdu then buf else []), tsi_count = tx_next (tx_st s), tsi_tick = tick\<rparr>
                   (of_nat (length buf)) (tx_window s)) (\<lambda>w.
        send_sdu env ch buf (s\<lparr>tx_window := w\<rparr>)))"

definition tx_request_resume :: "'r pdcp_tx \<Rightarrow> 'r pdcp_tx" where
  "tx_request_resume s =
     (if tx_suspended s \<and> \<not> tx_resume_requested s
      then tx_emit Tx_on_resume_required (s\<lparr>tx_resume_requested := True\<rparr>) else s)"

definition handle_sdu :: "'r pdcp_tx_env \<Rightarrow> tx_choice \<Rightarrow> bytes \<Rightarrow> 'r pdcp_tx \<Rightarrow> 'r pdcp_tx run" where
  "handle_sdu env ch buf s =
     (let s = tx_count (txm_add_sdus 1 (length buf)) s in
      if tx_stopped s then Inr (tx_lost s)
      else
        let s = tx_request_resume s in
        if tx_buffering s then
          (let (pushed, b) = try_push buf (tx_sdu_buffer s) in
           if \<not> pushed then Inr (tx_lost s) else Inr (s\<lparr>tx_sdu_buffer := b\<rparr>))
        else
          let (admitted, s) = admit_sdu buf s in
          if \<not> admitted then Inr s
          else
            let (below_limit, s) = tx_check_max_count s in
            if \<not> below_limit then Inr s else transmit_sdu env ch buf s)"

section \<open>Retransmission\<close>

text \<open>The loop of \<open>retransmit_all_pdus\<close>; \<open>ch count\<close> are the answers for that COUNT.\<close>

definition retransmit_one ::
    "'r pdcp_tx_env \<Rightarrow> tx_choice \<Rightarrow> u32 \<Rightarrow> pdcp_tx_window_element \<Rightarrow> 'r pdcp_tx \<Rightarrow> (bool \<times> 'r pdcp_tx) run" where
  "retransmit_one env ch count window_elem s =
     (if \<not> tx_copy_ok ch then Inr (False, tx_emit Tx_on_protocol_failure (tx_lost s))
      else
        let (ok, buf, s) = apply_header_compression env (tsi_sdu (twe_sdu_info window_elem)) s in
        if \<not> ok then Inr (False, s)
        else
          seq_run (prepend_data_pdu_header (txc_sn_size (tx_cfg s)) (tx_is_srb s) (tx_room ch) buf (tx_sn s count)) (\<lambda>r.
          case r of
            None \<Rightarrow> Inr (False, tx_emit Tx_on_protocol_failure (tx_lost s))
          | Some pdu \<Rightarrow>
              seq_run (post_crypto_task (tx_crypto_ok ch)
                 \<lparr>tbi_is_retx = True, tbi_retx_id = tx_retransmit_id s, tbi_count = count, tbi_buf = pdu\<rparr>
                 (tx_take_token s)) (\<lambda>s. Inr (True, s))))"

definition tx_core :: "'r pdcp_tx \<Rightarrow> pdcp_tx_state \<times> pdcp_tx_window \<times> pdcp_tx_config \<times> u16 \<times> bool" where
  "tx_core s = (tx_st s, tx_window s, tx_cfg s, tx_retransmit_id s, tx_stopped s)"

lemma post_crypto_task_core: "post_crypto_task b i s = Inr u \<Longrightarrow> tx_core u = tx_core s"
  by (auto simp: post_crypto_task_def tx_return_token_def tx_lost_def tx_count_def tx_core_def seq_run_Inr split: if_splits)

lemma tx_core_simps [simp]:
  "tx_core (tx_take_token s) = tx_core s" "tx_core (tx_emit e s) = tx_core s" "tx_core (tx_count f s) = tx_core s"
  "tx_core (tx_lost s) = tx_core s" "tx_core (s\<lparr>tx_rohc := r\<rparr>) = tx_core s"
  by (simp_all add: tx_core_def tx_take_token_def tx_emit_def tx_count_def tx_lost_def)

lemma apply_header_compression_core:
  "apply_header_compression env buf s = (ok, b, u) \<Longrightarrow> tx_core u = tx_core s"
  by (auto simp: apply_header_compression_def Let_def split: option.splits prod.splits if_splits)

lemma retransmit_one_core: "retransmit_one env ch c e s = Inr (b, u) \<Longrightarrow> tx_core u = tx_core s"
  by (auto simp: retransmit_one_def seq_run_Inr split: if_splits prod.splits option.splits
      dest!: apply_header_compression_core post_crypto_task_core)

function retransmit_from :: "'r pdcp_tx_env \<Rightarrow> (u32 \<Rightarrow> tx_choice) \<Rightarrow> u32 \<Rightarrow> 'r pdcp_tx \<Rightarrow> 'r pdcp_tx run" where
  "retransmit_from env ch count s =
     (if count < tx_next (tx_st s) then
        (if txw_has_sn (tx_window s) count then
           (case txw_at (tx_window s) count of
              Inl e \<Rightarrow> Inl e
            | Inr window_elem \<Rightarrow>
                (case retransmit_one env (ch count) count window_elem s of
                   Inl e \<Rightarrow> Inl e
                 | Inr (go_on, s') \<Rightarrow> if go_on then retransmit_from env ch (count + 1) s' else Inr s'))
         else retransmit_from env ch (count + 1) s)
      else Inr s)"
  by pat_completeness auto
termination
proof (relation "measure (\<lambda>(env, ch, c, s). unat (tx_next (tx_st s) - c))", goal_cases)
  case (2 env ch c s e p b u)
  then have "tx_core u = tx_core s" using retransmit_one_core [of env "ch c" c e s b u] by simp
  then show ?case using 2(1) by (simp add: tx_core_def unat_diff_less)
qed (auto simp: unat_diff_less)

declare retransmit_from.simps [simp del]

definition rewind_to_ack :: "'r pdcp_tx \<Rightarrow> 'r pdcp_tx" where
  "rewind_to_ack s =
     s\<lparr>tx_st := (tx_st s)\<lparr>tx_trans := tx_next_ack (tx_st s), tx_trans_crypto := tx_next_ack (tx_st s)\<rparr>,
       tx_retransmit_id := tx_retransmit_id s + 1\<rparr>"

definition retransmit_all_pdus :: "'r pdcp_tx_env \<Rightarrow> (u32 \<Rightarrow> tx_choice) \<Rightarrow> 'r pdcp_tx \<Rightarrow> 'r pdcp_tx run" where
  "retransmit_all_pdus env ch s =
     (if txc_discard_timer (tx_cfg s) = None then Inr s
      else if \<not> tx_is_am s then Inr s
      else retransmit_from env ch (tx_next_ack (tx_st s)) (rewind_to_ack s))"

section \<open>Status reports\<close>

text \<open>\<open>report\<close> is what the receiving side's \<open>compile_status_report\<close> returns.\<close>

definition send_status_report :: "bytes \<Rightarrow> 'r pdcp_tx \<Rightarrow> 'r pdcp_tx" where
  "send_status_report report s =
     (if txc_status_report_required (tx_cfg s) then write_control_pdu_to_lower_layers report s else s)"

definition data_recovery :: "'r pdcp_tx_env \<Rightarrow> (u32 \<Rightarrow> tx_choice) \<Rightarrow> bytes \<Rightarrow> 'r pdcp_tx \<Rightarrow> 'r pdcp_tx run" where
  "data_recovery env ch report s =
     (if \<not> (\<not> tx_is_srb s \<and> tx_is_am s) then Inl Bad_argument
      else
        retransmit_all_pdus env ch
          (if txc_status_report_required (tx_cfg s) then send_status_report report s else s))"

text \<open>The two loops of \<open>handle_status_report\<close>. The bitmap has at most \<open>n\<close> bits.\<close>

lemma discard_pdu_tx_next: "discard_pdu c s = Inr u \<Longrightarrow> tx_next (tx_st u) = tx_next (tx_st s)"
  by (drule ack_frame_discard_pdu) (simp add: ack_frame_same)

function discard_below :: "u32 \<Rightarrow> u32 \<Rightarrow> 'r pdcp_tx \<Rightarrow> 'r pdcp_tx run" where
  "discard_below count fmc s =
     (if count < fmc then
        (case discard_pdu count s of Inl e \<Rightarrow> Inl e | Inr s' \<Rightarrow> discard_below (count + 1) fmc s')
      else Inr s)"
  by auto
termination
  by (relation "measure (\<lambda>(c, f, s). unat (f - c))") (auto simp: unat_diff_less)

declare discard_below.simps [simp del]

fun discard_by_bitmap :: "nat \<Rightarrow> bit_decoder \<Rightarrow> u32 \<Rightarrow> 'r pdcp_tx \<Rightarrow> 'r pdcp_tx run" where
  "discard_by_bitmap 0 dec fmc s = Inr s"
| "discard_by_bitmap (Suc n) dec fmc s =
     (let (ok, bit, dec) = unpack dec 1 in
      if \<not> ok then Inr s
      else seq_run (if bit = 1 then discard_pdu (fmc + 1) s else Inr s) (discard_by_bitmap n dec (fmc + 1)))"

text \<open>
  The checks on the FMC, the length of the bitmap and its last byte. The result says whether to go
  on; \<open>uint8_t res = tail << delta % 8\<close> keeps eight bits.
\<close>

definition bitmap_limit :: "u32 \<Rightarrow> u32 \<Rightarrow> u32" where
  "bitmap_limit nxt fmc = (nxt - fmc - 1 + 7) div 8"

definition bitmap_tail_bad :: "u32 \<Rightarrow> u32 \<Rightarrow> u8 \<Rightarrow> bool" where
  "bitmap_tail_bad nxt fmc tail = (push_bit (unat ((nxt - fmc - 1) mod 8)) tail \<noteq> (0 :: u8))"

definition check_status_report :: "u32 \<Rightarrow> bytes \<Rightarrow> 'r pdcp_tx \<Rightarrow> bool \<times> 'r pdcp_tx" where
  "check_status_report fmc buf s =
     (if tx_next (tx_st s) < fmc then (False, tx_emit Tx_on_protocol_failure s)
      else
        let bitmap_length = of_nat (length buf) - 5 :: u32;
            s = (if fmc = tx_next (tx_st s) \<and> bitmap_length \<noteq> 0 then tx_emit Tx_on_protocol_failure s else s) in
        if bitmap_limit (tx_next (tx_st s)) fmc < bitmap_length then (False, tx_emit Tx_on_protocol_failure s)
        else if bitmap_length \<noteq> 0 \<and> bitmap_tail_bad (tx_next (tx_st s)) fmc (last buf)
        then (False, tx_emit Tx_on_protocol_failure s)
        else (True, s))"

definition handle_status_report :: "bool \<Rightarrow> bytes \<Rightarrow> 'r pdcp_tx \<Rightarrow> 'r pdcp_tx run" where
  "handle_status_report alloc_ok buf s =
     (if \<not> alloc_ok then Inr s
      else
        let (_, dc, dec) = unpack (decoder_init buf) 1 in
        if dc \<noteq> dc_to_number Dc_control then Inr s
        else let (_, cpt, dec) = unpack dec 3 in
        if cpt \<noteq> ucast (cpt_to_number Status_report) then Inr s
        else let (_, reserved, dec) = unpack dec 4 in
        if reserved \<noteq> 0 then Inr s
        else let (_, fmc, dec) = unpack dec 32; (valid, s) = check_status_report fmc buf s in
        if \<not> valid then Inr s
        else
          seq_run (discard_below (tx_next_ack (tx_st s)) fmc s) (\<lambda>s.
          discard_by_bitmap (8 * length buf) dec fmc s))"

section \<open>ROHC feedback\<close>

text \<open>The header checks are those of a control PDU; the header byte is then removed.\<close>

definition consume_rohc_feedback :: "'r pdcp_tx_env \<Rightarrow> bool \<Rightarrow> bytes \<Rightarrow> 'r pdcp_tx \<Rightarrow> 'r pdcp_tx run" where
  "consume_rohc_feedback env alloc_ok buf s =
     (case tx_rohc s of
        None \<Rightarrow> Inr s
      | Some r \<Rightarrow>
          if \<not> alloc_ok then Inr s
          else
            let (_, dc, dec) = unpack (decoder_init buf) 1 in
            if dc \<noteq> dc_to_number Dc_control then Inr s
            else let (_, cpt, dec) = unpack dec 3 in
            if cpt \<noteq> ucast (cpt_to_number Interspersed_rohc_feedback) then Inr s
            else let (_, reserved, dec) = unpack dec 4 in
            if reserved \<noteq> 0 then Inr s
            else seq_run (trim_head 1 buf) (\<lambda>buf. Inr (s\<lparr>tx_rohc := Some (txe_rohc_handle_feedback env r buf)\<rparr>)))"

definition forward_rohc_feedback :: "bool \<Rightarrow> bytes \<Rightarrow> 'r pdcp_tx \<Rightarrow> 'r pdcp_tx" where
  "forward_rohc_feedback room rohc_feedback s =
     (case prepend_control_pdu_header room rohc_feedback Interspersed_rohc_feedback of
        None \<Rightarrow> tx_emit Tx_on_protocol_failure s
      | Some buf \<Rightarrow> write_control_pdu_to_lower_layers buf s)"

section \<open>Security configuration, buffering, suspension and re-establishment\<close>

definition tx_configure_security ::
    "'r pdcp_tx_env \<Rightarrow> sec_128_as_config \<Rightarrow> integrity_enabled \<Rightarrow> ciphering_enabled \<Rightarrow> 'r pdcp_tx \<Rightarrow>
     'r pdcp_tx run" where
  "tx_configure_security env sec_cfg ie ce s =
     (if \<not> ((tx_is_srb s \<and> sec_domain sec_cfg = Rrc) \<or> (\<not> tx_is_srb s \<and> sec_domain sec_cfg = Up))
      then Inl Bad_argument
      else if ie = Smc_transition then Inl Bad_argument
      else if ie \<noteq> Integ_off \<and> (k_128_int sec_cfg = None \<or> integ_algo sec_cfg = None) then Inr s
      else if ie = Integ_off \<and> tx_is_srb s then Inl Bad_argument
      else
        seq_run (security_engine_impl sec_cfg (tx_bearer_id s) (sec_direction_of (txc_direction (tx_cfg s))) ie ce)
          (\<lambda>eng. Inr (s\<lparr>tx_integrity_enabled := ie, tx_ciphering_enabled := ce,
                     tx_sec_engines := replicate (txe_nof_workers env) (Some eng)\<rparr>)))"

definition tx_reset :: "'r pdcp_tx \<Rightarrow> 'r pdcp_tx" where
  "tx_reset s = s\<lparr>tx_st := tx_zero_st, tx_window := txw_clear (tx_window s)\<rparr>"

definition tx_begin_buffering :: "'r pdcp_tx \<Rightarrow> 'r pdcp_tx" where
  "tx_begin_buffering s = s\<lparr>tx_buffering := True\<rparr>"

text \<open>The loop of \<open>end_buffering\<close>; one round for each of the \<open>n\<close> buffered SDUs is enough.\<close>

fun flush_sdu_buffer :: "'r pdcp_tx_env \<Rightarrow> (nat \<Rightarrow> tx_choice) \<Rightarrow> nat \<Rightarrow> 'r pdcp_tx \<Rightarrow> 'r pdcp_tx run" where
  "flush_sdu_buffer env ch 0 s = Inr s"
| "flush_sdu_buffer env ch (Suc n) s =
     (if rb_empty (tx_sdu_buffer s) then Inr s
      else
        seq_run (rb_top (tx_sdu_buffer s)) (\<lambda>buf.
        seq_run (rb_pop (tx_sdu_buffer s)) (\<lambda>b.
        seq_run (handle_sdu env (ch n) buf (s\<lparr>tx_sdu_buffer := b\<rparr>)) (flush_sdu_buffer env ch n))))"

definition tx_end_buffering :: "'r pdcp_tx_env \<Rightarrow> (nat \<Rightarrow> tx_choice) \<Rightarrow> 'r pdcp_tx \<Rightarrow> 'r pdcp_tx run" where
  "tx_end_buffering env ch s =
     flush_sdu_buffer env ch (rb_count (tx_sdu_buffer s)) (s\<lparr>tx_buffering := False\<rparr>)"

definition tx_suspend :: "'r pdcp_tx \<Rightarrow> bool \<times> 'r pdcp_tx" where
  "tx_suspend s =
     (if tx_suspended s then (False, s)
      else if \<not> tx_buffering s then (False, s)
      else
        let s = s\<lparr>tx_st := tx_zero_st, tx_window := txw_clear (tx_window s)\<rparr>;
            s = (if txc_discard_timer (tx_cfg s) \<noteq> None then tx_stop_discard s else s) in
        (True, s\<lparr>tx_suspended := True\<rparr>))"

definition tx_resume :: "'r pdcp_tx \<Rightarrow> bool \<times> 'r pdcp_tx" where
  "tx_resume s =
     (if \<not> tx_suspended s then (False, s)
      else if \<not> tx_buffering s then (False, s)
      else (True, s\<lparr>tx_suspended := False, tx_resume_requested := False\<rparr>))"

definition tx_reestablish ::
    "'r pdcp_tx_env \<Rightarrow> (u32 \<Rightarrow> tx_choice) \<Rightarrow> sec_128_as_config \<Rightarrow> 'r pdcp_tx \<Rightarrow> 'r pdcp_tx run" where
  "tx_reestablish env ch sec_cfg s =
     (let s = init_header_compression env s;
          s = (if tx_is_srb s \<or> tx_is_um s then tx_reset s else s) in
      seq_run (tx_configure_security env sec_cfg (tx_integrity_enabled s) (tx_ciphering_enabled s) s) (\<lambda>s.
      if tx_is_am s then retransmit_all_pdus env ch s else Inr s))"

section \<open>COUNT transfer, start and stop\<close>

definition tx_get_count :: "'r pdcp_tx \<Rightarrow> pdcp_count_info" where
  "tx_get_count s =
     (let count = tx_next (tx_st s); z = txc_sn_size (tx_cfg s) in
      \<lparr>ci_sn = pdcp_compute_sn count z, ci_hfn = pdcp_compute_hfn count z\<rparr>)"

definition tx_set_count :: "pdcp_count_info \<Rightarrow> 'r pdcp_tx \<Rightarrow> 'r pdcp_tx" where
  "tx_set_count ci s =
     (let count = pdcp_compute_count (ci_hfn ci) (ci_sn ci) (txc_sn_size (tx_cfg s)) in
      s\<lparr>tx_st := \<lparr>tx_next = count, tx_trans_crypto = count, tx_reord_crypto = count, tx_trans = count,
                  tx_next_ack = count\<rparr>\<rparr>)"

definition nof_pdus_in_window :: "'r pdcp_tx \<Rightarrow> u32" where
  "nof_pdus_in_window s = tx_next (tx_st s) - tx_next_ack (tx_st s)"

definition tx_stop :: "'r pdcp_tx \<Rightarrow> 'r pdcp_tx run" where
  "tx_stop s =
     (if \<not> tx_stopped s then
        (let s = s\<lparr>tx_stopped := True, tx_window := txw_clear (tx_window s)\<rparr>;
             s = (if txc_discard_timer (tx_cfg s) \<noteq> None then tx_stop_discard s else s);
             s = tx_stop_crypto_timer s in
         seq_run (tm_stop (tx_token_mngr s)) (\<lambda>m. Inr (s\<lparr>tx_token_mngr := m\<rparr>)))
      else Inr s)"

definition tx_notify_pdu_processing_stopped :: "'r pdcp_tx \<Rightarrow> 'r pdcp_tx run" where
  "tx_notify_pdu_processing_stopped s =
     (if \<not> tx_stopped s
      then seq_run (tm_stop (tx_token_mngr s)) (\<lambda>m. Inr (s\<lparr>tx_token_mngr := m\<rparr>))
      else Inr s)"

definition tx_restart_pdu_processing :: "'r pdcp_tx \<Rightarrow> 'r pdcp_tx" where
  "tx_restart_pdu_processing s =
     (if \<not> tx_stopped s then s\<lparr>tx_token_mngr := tm_start (tx_token_mngr s)\<rparr> else s)"

text \<open>The constructor; three configurations of an SRB are reported as errors.\<close>

definition pdcp_entity_tx :: "'r pdcp_tx_env \<Rightarrow> pdcp_tx_config \<Rightarrow> u8 \<Rightarrow> bool \<Rightarrow> 'r pdcp_tx run" where
  "pdcp_entity_tx env cfg bearer_id metrics_enabled =
     seq_run (txw_create (txc_rb_type cfg) (txc_rlc_mode cfg) (txc_sn_size cfg)) (\<lambda>w.
     if txc_rb_type cfg = Srb \<and>
        (txc_sn_size cfg \<noteq> Size12bits \<or> txc_rlc_mode cfg = Um \<or> txc_header_compression cfg \<noteq> None)
     then Inl Bad_argument
     else Inr (init_header_compression env
       \<lparr>tx_cfg = cfg, tx_bearer_id = bearer_id, tx_stopped = False, tx_rohc = None,
        tx_sec_engines = replicate (txe_nof_workers env) None,
        tx_integrity_enabled = Integ_off, tx_ciphering_enabled = Cipher_off,
        tx_st = tx_zero_st, tx_window = w, tx_desired_buffer_size = 0, tx_retransmit_id = 0,
        tx_warn_on_drop_count = 0, tx_discard_timer = None, tx_crypto_timer_running = False,
        tx_token_mngr = tm_init, tx_buffering = False, tx_suspended = False, tx_resume_requested = False,
        tx_sdu_buffer = rb_create 2048, tx_max_count_notified = False, tx_max_count_overflow = False,
        tx_metrics = tx_metrics_init metrics_enabled, tx_crypto_tasks = [], tx_ue_tasks = [],
        tx_outbox = [], tx_now = 0\<rparr>))"

end
