(* ===== verification/Pdcp_Tx_Inv.thy ===== *)
theory Pdcp_Tx_Inv
  imports Pdcp_Tx_Entity
begin

text \<open>
  The invariant of the transmitting entity and how the operations that move the lower edge of the
  window act: discarding, delivery and transmission notifications, expiry of the discard timer.
\<close>

section \<open>The invariant\<close>

definition tx_cfg_ok :: "pdcp_tx_config \<Rightarrow> bool" where
  "tx_cfg_ok cfg \<longleftrightarrow> sn_size_ok (txc_sn_size cfg) \<and>
     (txc_rb_type cfg = Srb \<longrightarrow>
        txc_sn_size cfg = Size12bits \<and> txc_rlc_mode cfg = Am \<and> txc_header_compression cfg = None)"

definition finite_discard :: "pdcp_tx_config \<Rightarrow> bool" where
  "finite_discard cfg \<longleftrightarrow> (\<exists>ms. txc_discard_timer cfg = Some (Discard_ms ms))"

text \<open>Each element of the window belongs to a COUNT below TX\_NEXT and knows it.\<close>

definition elem_ok :: "pdcp_tx_config \<Rightarrow> u32 \<Rightarrow> u32 \<Rightarrow> pdcp_tx_window_element \<Rightarrow> bool" where
  "elem_ok cfg nxt k e \<longleftrightarrow> k < nxt \<and> tsi_count (twe_sdu_info e) = k \<and>
     (tsi_tick (twe_sdu_info e) \<noteq> None \<longleftrightarrow> finite_discard cfg)"

definition tx_wf :: "pdcp_tx_config \<Rightarrow> pdcp_tx_state \<Rightarrow> pdcp_tx_window \<Rightarrow> bool" where
  "tx_wf cfg st w \<longleftrightarrow> tx_cfg_ok cfg \<and> txw_ok (unat (tx_next_ack st)) w \<and>
     txw_width w = window_nat (txc_sn_size cfg) \<and> txw_sn_size w = txc_sn_size cfg \<and>
     txw_rb_type w = txc_rb_type cfg \<and>
     (\<forall>k e. txw_map w k = Some e \<longrightarrow> elem_ok cfg (tx_next st) k e) \<and>
     tx_next_ack st \<le> tx_trans st \<and> tx_trans st \<le> tx_next st \<and> tx_trans_crypto st \<le> tx_next st \<and>
     tx_reord_crypto st \<le> tx_next st"

definition tx_inv :: "'r pdcp_tx \<Rightarrow> bool" where
  "tx_inv s \<longleftrightarrow> tx_wf (tx_cfg s) (tx_st s) (tx_window s)"

abbreviation ack :: "'r pdcp_tx \<Rightarrow> u32" where
  "ack s \<equiv> tx_next_ack (tx_st s)"

abbreviation txnext :: "'r pdcp_tx \<Rightarrow> u32" where
  "txnext s \<equiv> tx_next (tx_st s)"

abbreviation wmap :: "'r pdcp_tx \<Rightarrow> u32 \<Rightarrow> pdcp_tx_window_element option" where
  "wmap s \<equiv> txw_map (tx_window s)"

lemma tx_inv_core: "tx_core u = tx_core s \<Longrightarrow> tx_inv u = tx_inv s"
  by (simp add: tx_core_def tx_inv_def)

lemma tx_inv_parts:
  assumes "tx_inv s"
  shows "txw_ok (unat (ack s)) (tx_window s)" and "ack s \<le> txnext s" and "ack s \<le> tx_trans (tx_st s)"
    and "wmap s k = Some e \<Longrightarrow> elem_ok (tx_cfg s) (txnext s) k e"
    and "wmap s k \<noteq> None \<Longrightarrow> ack s \<le> k \<and> k < txnext s"
    and "tx_trans (tx_st s) \<le> txnext s" and "tx_trans_crypto (tx_st s) \<le> txnext s"
    and "tx_reord_crypto (tx_st s) \<le> txnext s" and "tx_cfg_ok (tx_cfg s)"
proof -
  show k: "txw_ok (unat (ack s)) (tx_window s)" using assms by (simp add: tx_inv_def tx_wf_def)
  show e: "wmap s k = Some e \<Longrightarrow> elem_ok (tx_cfg s) (txnext s) k e" for k e
    using assms by (simp add: tx_inv_def tx_wf_def)
  show "wmap s k \<noteq> None \<Longrightarrow> ack s \<le> k \<and> k < txnext s" for k
    using txw_within [OF k, of k] e [of k] by (auto simp: elem_ok_def word_le_nat_alt)
qed (use assms in \<open>auto simp: tx_inv_def tx_wf_def\<close>)

text \<open>How the invariant is established again when the lower edge and the window change.\<close>

lemma tx_inv_shrink:
  assumes "tx_inv s" and "tx_cfg u = tx_cfg s" and "txnext u = txnext s"
    and "tx_trans_crypto (tx_st u) \<le> txnext s" and "tx_reord_crypto (tx_st u) \<le> txnext s"
    and "txw_ok (unat (ack u)) (tx_window u)" and "txw_same (tx_window s) (tx_window u)"
    and "\<And>k e. wmap u k = Some e \<Longrightarrow> \<exists>d. wmap s k = Some d \<and> twe_sdu_info e = twe_sdu_info d"
    and "ack u \<le> tx_trans (tx_st u)" and "tx_trans (tx_st u) \<le> txnext s"
  shows "tx_inv u"
proof -
  have "elem_ok (tx_cfg s) (txnext s) k e" if "wmap u k = Some e" for k e
    using assms(8) [OF that] tx_inv_parts(4) [OF assms(1)] by (fastforce simp: elem_ok_def)
  then show ?thesis using assms by (auto simp: tx_inv_def tx_wf_def txw_same_def)
qed

section \<open>Skipping removed elements and discarding\<close>

lemma skip_removed_st:
  "\<exists>b. skip_removed s = tx_set_ack b s"
proof (induction s rule: skip_removed.induct)
  case (1 s)
  show ?case
  proof (cases "ack s < txnext s \<and> \<not> txw_has_sn (tx_window s) (ack s)")
    case True
    then show ?thesis using 1 by (subst skip_removed.simps) (auto simp: tx_set_ack_def)
  next
    case False
    then have "skip_removed s = tx_set_ack (ack s) s" by (subst skip_removed.simps) (auto simp: tx_set_ack_def)
    then show ?thesis by blast
  qed
qed

lemma skip_removed_spec:
  assumes "ack s \<le> txnext s"
  defines "u \<equiv> skip_removed s"
  shows "ack s \<le> ack u" and "ack u \<le> txnext s" and "ack u < txnext s \<Longrightarrow> wmap s (ack u) \<noteq> None"
    and "ack s \<le> k \<Longrightarrow> k < ack u \<Longrightarrow> wmap s k = None"
proof -
  have "ack s \<le> ack (skip_removed s) \<and> ack (skip_removed s) \<le> txnext s \<and>
    (ack (skip_removed s) < txnext s \<longrightarrow> wmap s (ack (skip_removed s)) \<noteq> None) \<and>
    (\<forall>k. ack s \<le> k \<and> k < ack (skip_removed s) \<longrightarrow> wmap s k = None)"
    using assms(1)
  proof (induction s rule: skip_removed.induct)
    case (1 s)
    show ?case
    proof (cases "ack s < txnext s \<and> \<not> txw_has_sn (tx_window s) (ack s)")
      case True
      let ?v = "tx_set_ack (ack s + 1) s"
      have v: "ack ?v = ack s + 1" "txnext ?v = txnext s" "tx_window ?v = tx_window s"
        by (simp_all add: tx_set_ack_def)
      have le: "ack s + 1 \<le> txnext s" using True by (intro word_le_add_one) simp
      have up: "ack s \<le> ack s + 1" and dis: "ack s \<le> k \<Longrightarrow> k = ack s \<or> ack s + 1 \<le> k" for k
        using True by (unat_arith+)
      have eq: "skip_removed s = skip_removed ?v" using True by (subst skip_removed.simps) simp
      have IH: "ack s + 1 \<le> ack (skip_removed ?v) \<and> ack (skip_removed ?v) \<le> txnext s \<and>
        (ack (skip_removed ?v) < txnext s \<longrightarrow> wmap s (ack (skip_removed ?v)) \<noteq> None) \<and>
        (\<forall>k. ack s + 1 \<le> k \<and> k < ack (skip_removed ?v) \<longrightarrow> wmap s k = None)"
        using 1(1) [OF True] le unfolding v by blast
      have "wmap s (ack s) = None" using True by (simp add: txw_has_sn_map)
      then have "wmap s k = None" if "ack s \<le> k" "k < ack (skip_removed ?v)" for k
        using IH dis [OF that(1)] that(2) by blast
      then show ?thesis unfolding eq using IH up by (auto intro: order_trans)
    next
      case False
      then have "skip_removed s = s" by (subst skip_removed.simps) auto
      then show ?thesis using False 1(2) by (auto simp: txw_has_sn_map)
    qed
  qed
  then show "ack s \<le> ack u" "ack u \<le> txnext s" "ack u < txnext s \<Longrightarrow> wmap s (ack u) \<noteq> None"
    "ack s \<le> k \<Longrightarrow> k < ack u \<Longrightarrow> wmap s k = None" by (auto simp: u_def)
qed

text \<open>
  \<open>discard_pdu\<close> of a COUNT in the window tells the lower layers, removes the element and raises
  TX\_NEXT\_ACK to the oldest element that is left, or to TX\_NEXT.
\<close>

definition discards :: "'r pdcp_tx \<Rightarrow> u32 \<Rightarrow> bool" where
  "discards s c \<longleftrightarrow> txc_discard_timer (tx_cfg s) \<noteq> None \<and> wmap s c \<noteq> None"

lemma discard_pdu_spec:
  assumes "tx_inv s"
  shows "\<exists>u. discard_pdu c s = Inr u \<and> tx_inv u \<and> ack_frame s u \<and> tx_discard_timer u = tx_discard_timer s \<and>
    (if discards s c
     then wmap u = (wmap s)(c := None) \<and> tx_outbox u = tx_outbox s @ [On_discard_pdu (tx_sn s c)] \<and>
       ack s \<le> ack u \<and> (ack u < txnext s \<longrightarrow> wmap u (ack u) \<noteq> None) \<and>
       tx_trans (tx_st u) = max (tx_trans (tx_st s)) (ack u)
     else u = s)"
proof (cases "discards s c")
  case False
  then show ?thesis using assms by (auto simp: discard_pdu_def discards_def txw_has_sn_map)
next
  case True
  then obtain d where t: "txc_discard_timer (tx_cfg s) = Some d" and c: "wmap s c \<noteq> None" by (auto simp: discards_def)
  have rng: "ack s \<le> c" "c < txnext s" using tx_inv_parts(5) [OF assms c] by auto
  obtain w where w: "remove_sdu c (tx_window s) = Inr w" "txw_ok (unat (ack s)) w" "txw_same (tx_window s) w"
    "txw_map w = (wmap s)(c := None)" using remove_sdu_spec [OF tx_inv_parts(1) [OF assms]] by blast
  let ?t = "(tx_emit (On_discard_pdu (tx_sn s c)) s)\<lparr>tx_window := w\<rparr>"
  let ?u = "tx_raise_trans (skip_removed ?t)"
  have t3: "ack ?t = ack s" "txnext ?t = txnext s" "tx_window ?t = w"
    by (simp_all add: tx_emit_def)
  have run: "discard_pdu c s = Inr ?u"
    using t c rng w(1) by (simp add: discard_pdu_def txw_has_sn_map tx_emit_def Let_def not_less not_le)
  obtain b where b: "skip_removed ?t = tx_set_ack b ?t" using skip_removed_st by blast
  have ub: "ack ?u = b" "tx_window ?u = w" "txnext ?u = txnext s" "tx_trans (tx_st ?u) = max (tx_trans (tx_st s)) b"
    "tx_trans_crypto (tx_st ?u) = tx_trans_crypto (tx_st s)" "tx_reord_crypto (tx_st ?u) = tx_reord_crypto (tx_st s)"
    "tx_cfg ?u = tx_cfg s" "tx_outbox ?u = tx_outbox s @ [On_discard_pdu (tx_sn s c)]"
    "tx_discard_timer ?u = tx_discard_timer s"
    unfolding b by (simp_all add: tx_set_ack_def tx_raise_trans_def tx_emit_def)
  have bt: "ack (skip_removed ?t) = b" unfolding b by (simp add: tx_set_ack_def)
  have le: "ack ?t \<le> txnext ?t" unfolding t3 by (rule tx_inv_parts(2) [OF assms])
  note sk = skip_removed_spec [OF le, unfolded bt t3]
  have low: "b \<le> k" if "txw_map w k \<noteq> None" for k
  proof -
    have "ack s \<le> k" using that w(4) tx_inv_parts(5) [OF assms, of k] by (auto split: if_splits)
    then show ?thesis using sk(4) [of k] that by (meson not_le)
  qed
  have "txw_ok (unat b) w"
    using txw_raise [OF w(2)] sk(1) low by (simp add: word_le_nat_alt)
  then have "tx_inv ?u"
    using tx_inv_parts [OF assms] w(3,4) sk(2) ub
    by (intro tx_inv_shrink [OF assms]) (auto split: if_splits)
  moreover have "ack_frame s ?u" by (rule ack_frame_discard_pdu [OF run])
  ultimately show ?thesis using run ub w(4) sk(1,3) True by auto
qed

section \<open>Stopping the discard timer\<close>

lemma unat_succ: "(h :: u32) < n \<Longrightarrow> unat (h + 1) = unat h + 1"
  by (rule unat_add_one)

lemma remove_up_to_spec:
  assumes "txw_ok (unat (ack s)) (tx_window s)" and "unat (ack s) \<le> unat h + 1" and "h < nxt"
    and "n = unat h + 1 - unat (ack s)"
  shows "\<exists>w. remove_up_to n h s = Inr (s\<lparr>tx_window := w, tx_st := (tx_st s)\<lparr>tx_next_ack := h + 1\<rparr>\<rparr>) \<and>
    txw_ok (unat h + 1) w \<and> txw_same (tx_window s) w \<and> txw_map w = (\<lambda>k. if h < k then wmap s k else None)"
  using assms
proof (induction n arbitrary: s)
  case 0
  then have e: "unat (ack s) = unat h + 1" by simp
  then have a: "ack s = h + 1" using unat_succ [OF 0(3)] by (simp add: word_unat_eq_iff)
  have "wmap s k = None" if "\<not> h < k" for k
    using txw_within [OF 0(1), of k] e that by (cases "wmap s k") (auto simp: word_less_nat_alt)
  then have "wmap s = (\<lambda>k. if h < k then wmap s k else None)" by (auto simp: fun_eq_iff)
  then show ?case using 0 a e by (intro exI [of _ "tx_window s"]) simp
next
  case (Suc n)
  have le: "unat (ack s) \<le> unat h" and n: "n = unat h - unat (ack s)" using Suc(5) by auto
  then have leh: "ack s \<le> h" by (simp add: word_le_nat_alt)
  obtain w where w: "remove_sdu (ack s) (tx_window s) = Inr w" "txw_ok (unat (ack s)) w"
    "txw_same (tx_window s) w" "txw_map w = (wmap s)(ack s := None)"
    using remove_sdu_spec [OF Suc(2)] by blast
  let ?t = "tx_set_ack (ack s + 1) (s\<lparr>tx_window := w\<rparr>)"
  have step: "remove_up_to (Suc n) h s = remove_up_to n h ?t"
  proof (cases "txw_has_sn (tx_window s) (ack s)")
    case True
    then show ?thesis using leh w(1) by (simp add: tx_set_ack_def)
  next
    case False
    then have "w = tx_window s" using w(1) by (simp add: remove_sdu_def txw_has_sn_def)
    then show ?thesis using leh False by (simp add: tx_set_ack_def)
  qed
  have lt: "ack s < nxt" using leh Suc(4) by simp
  have a1: "unat (ack ?t) = unat (ack s) + 1" using unat_succ [OF lt] by (simp add: tx_set_ack_def)
  have "unat (ack s) + 1 \<le> unat k" if "txw_map w k \<noteq> None" for k
  proof -
    have "k \<noteq> ack s" "wmap s k \<noteq> None" using that w(4) by (auto split: if_splits)
    then have "unat (ack s) \<le> unat k" "unat (ack s) \<noteq> unat k"
      using txw_within [OF Suc(2), of k] by (auto simp: word_unat_eq_iff)
    then show ?thesis by simp
  qed
  then have ok: "txw_ok (unat (ack ?t)) (tx_window ?t)"
    unfolding a1 using txw_raise [OF w(2)] by (simp add: tx_set_ack_def)
  obtain v where v: "remove_up_to n h ?t = Inr (?t\<lparr>tx_window := v, tx_st := (tx_st ?t)\<lparr>tx_next_ack := h + 1\<rparr>\<rparr>)"
    "txw_ok (unat h + 1) v" "txw_same (tx_window ?t) v" "txw_map v = (\<lambda>k. if h < k then wmap ?t k else None)"
    using Suc.IH [OF ok] a1 le n Suc(4) by auto
  have "txw_map v = (\<lambda>k. if h < k then wmap s k else None)"
    using v(4) w(4) leh by (auto simp: tx_set_ack_def fun_eq_iff)
  then show ?case
    unfolding step v(1) using v(2,3) w(3)
    by (intro exI [of _ v]) (auto simp: tx_set_ack_def intro: txw_same_trans)
qed

text \<open>
  The notified COUNT and all below it leave the window. With a finite discard timer the timer is
  started again for the next element, which the code expects to be there.
\<close>

definition stops :: "'r pdcp_tx \<Rightarrow> u32 \<Rightarrow> bool" where
  "stops s h \<longleftrightarrow> txc_discard_timer (tx_cfg s) \<noteq> None \<and> ack s \<le> h \<and> h < txnext s \<and> wmap s (ack s) \<noteq> None"

definition removed_to :: "u32 \<Rightarrow> 'r pdcp_tx \<Rightarrow> 'r pdcp_tx \<Rightarrow> bool" where
  "removed_to h s u \<longleftrightarrow> ack u = h + 1 \<and> wmap u = (\<lambda>k. if h < k then wmap s k else None) \<and>
     tx_trans (tx_st u) = max (tx_trans (tx_st s)) (h + 1) \<and> tx_outbox u = tx_outbox s"

lemma stop_discard_timer_spec:
  assumes "tx_inv s"
  shows "if stops s h
    then \<exists>t. removed_to h s t \<and> tx_inv t \<and> ack_frame s t \<and> tx_discard_timer t = None \<and>
      stop_discard_timer h s = restart_discard_timer (the (txc_discard_timer (tx_cfg s))) t
    else stop_discard_timer h s = Inr s"
proof (cases "stops s h")
  case False
  then show ?thesis
    by (cases "txc_discard_timer (tx_cfg s)") (auto simp: stop_discard_timer_def stops_def txw_has_sn_map not_less not_le)
next
  case True
  then obtain d where d: "txc_discard_timer (tx_cfg s) = Some d" and r: "ack s \<le> h" "h < txnext s"
    and has: "wmap s (ack s) \<noteq> None" by (auto simp: stops_def)
  note P = tx_inv_parts [OF assms]
  let ?s = "tx_stop_discard s"
  have eq: "ack ?s = ack s" "tx_window ?s = tx_window s" by (simp_all add: tx_stop_discard_def)
  have le: "unat (ack s) \<le> unat h + 1" using r(1) by (simp add: word_le_nat_alt)
  obtain w where w: "remove_up_to (unat h + 1 - unat (ack s)) h ?s =
      Inr (?s\<lparr>tx_window := w, tx_st := (tx_st ?s)\<lparr>tx_next_ack := h + 1\<rparr>\<rparr>)"
    "txw_ok (unat h + 1) w" "txw_same (tx_window s) w" "txw_map w = (\<lambda>k. if h < k then wmap s k else None)"
    using remove_up_to_spec [of ?s h "txnext s"] P(1) le r(2) unfolding eq by blast
  let ?t = "tx_raise_trans (?s\<lparr>tx_window := w, tx_st := (tx_st ?s)\<lparr>tx_next_ack := h + 1\<rparr>\<rparr>)"
  have run: "stop_discard_timer h s = restart_discard_timer d ?t"
    using d leD [OF r(1)] r(2) has w(1) by (simp add: stop_discard_timer_def txw_has_sn_map linorder_not_le [symmetric])
  have t: "ack ?t = h + 1" "tx_window ?t = w" "txnext ?t = txnext s" "tx_cfg ?t = tx_cfg s"
    "tx_trans (tx_st ?t) = max (tx_trans (tx_st s)) (h + 1)" "tx_outbox ?t = tx_outbox s"
    "tx_trans_crypto (tx_st ?t) = tx_trans_crypto (tx_st s)" "tx_reord_crypto (tx_st ?t) = tx_reord_crypto (tx_st s)"
    "tx_discard_timer ?t = None"
    by (simp_all add: tx_raise_trans_def tx_stop_discard_def)
  have h1: "h + 1 \<le> txnext s" using r(2) by (rule word_le_add_one)
  have "tx_inv ?t"
    using P t w(2-4) h1 unat_succ [OF r(2)]
    by (intro tx_inv_shrink [OF assms]) (auto split: if_splits)
  moreover have "ack_frame s ?t"
    using ack_frame_remove_up_to [OF w(1)] ack_frame_steps(5) ack_frame_raise(1) by (blast intro: ack_frame_trans)
  ultimately show ?thesis using True run t w(4) d by (auto simp: removed_to_def)
qed

lemma run_discard_core: "tx_core (tx_run_discard t s) = tx_core s" "tx_core (tx_stop_discard s) = tx_core s"
  by (simp_all add: tx_core_def tx_run_discard_def tx_stop_discard_def)

lemma restart_discard_timer_core: "restart_discard_timer d s = Inr u \<Longrightarrow> tx_core u = tx_core s"
  by (cases d) (auto simp: restart_discard_timer_def seq_run_Inr run_discard_core split: if_splits)

lemma stop_discard_timer_inv:
  assumes "tx_inv s" and "stop_discard_timer h s = Inr u"
  shows "tx_inv u"
proof (cases "stops s h")
  case True
  then obtain t d where "tx_inv t" "restart_discard_timer d t = Inr u"
    using stop_discard_timer_spec [OF assms(1), of h] assms(2) by auto
  then show ?thesis using restart_discard_timer_core tx_inv_core by blast
next
  case False
  then show ?thesis using stop_discard_timer_spec [OF assms(1), of h] assms by simp
qed

end
