(* ===== verification/Pdcp_Tx_Submit.thy ===== *)
theory Pdcp_Tx_Submit
  imports Pdcp_Tx_Inv
begin

text \<open>
  Notifications, submission in COUNT order, and the crypto reordering timer of the transmitting
  entity: what each operation does to the window and the state variables, that the invariant is
  kept, and which PDUs go to the lower layers.
\<close>

section \<open>Notifications\<close>

lemma tx_sn_valid: "\<not> pdcp_sn_cardinality (txc_sn_size (tx_cfg s)) \<le> tx_sn s c"
  by (simp add: tx_sn_def word_le_nat_alt unat_compute_sn unat_sn_cardinality not_le)

definition tx_lower :: "'r pdcp_tx \<Rightarrow> u32" where
  "tx_lower s = (if txc_discard_timer (tx_cfg s) \<noteq> None then ack s else tx_trans (tx_st s))"

lemma notification_recovers:
  assumes "tx_inv s" and "tx_lower s \<le> c" and "unat c < unat (tx_lower s) + window_nat (txc_sn_size (tx_cfg s))"
  shows "notification_count_estimation (tx_sn s c) s = c"
proof -
  have z: "sn_size_ok (txc_sn_size (tx_cfg s))" using tx_inv_parts(9) [OF assms(1)] by (simp add: tx_cfg_ok_def)
  show ?thesis
    unfolding notification_count_estimation_def tx_sn_def tx_lower_def [symmetric]
    using assms(2,3) by (intro estimate_count_recovers [OF z]) (auto simp: word_le_nat_alt)
qed

lemma set_trans_inv:
  assumes "tx_inv s" and "\<not> c < tx_trans (tx_st s)" and "\<not> tx_next (tx_st s) \<le> c"
  shows "tx_inv (s\<lparr>tx_st := (tx_st s)\<lparr>tx_trans := c + 1\<rparr>\<rparr>)"
proof -
  have "c + 1 \<le> txnext s" using assms(3) by (intro word_le_add_one) simp
  moreover have "ack s \<le> c + 1"
    using tx_inv_parts(3) [OF assms(1)] assms(2,3) by unat_arith
  ultimately show ?thesis using assms(1) by (simp add: tx_inv_def tx_wf_def)
qed

lemma transmit_notification_impl_inv:
  assumes "tx_inv s" and "handle_transmit_notification_impl sn r s = Inr u"
  shows "tx_inv u"
  using assms set_trans_inv [OF assms(1)] stop_discard_timer_inv
  by (auto simp: handle_transmit_notification_impl_def Let_def split: if_splits)

lemma transmit_notification_inv:
  assumes "tx_inv s" and "handle_transmit_notification sn s = Inr u"
  shows "tx_inv u"
  using assms transmit_notification_impl_inv by (auto simp: handle_transmit_notification_def split: if_splits)

lemma delivery_notification_impl_inv:
  assumes "tx_inv s" and "handle_delivery_notification_impl sn r s = Inr u"
  shows "tx_inv u"
  using assms stop_discard_timer_inv
  by (auto simp: handle_delivery_notification_impl_def Let_def split: if_splits)

text \<open>The counts a list of events submits.\<close>

fun submitted :: "pdcp_tx_event list \<Rightarrow> nat list" where
  "submitted [] = []"
| "submitted (On_new_data_pdu c pdu r # es) = unat c # submitted es"
| "submitted (_ # es) = submitted es"

lemma submitted_append [simp]: "submitted (xs @ ys) = submitted xs @ submitted ys"
  by (induction xs rule: submitted.induct) auto

text \<open>Notifications only raise the lower edge, and submit nothing.\<close>

lemma restart_discard_timer_keeps:
  "restart_discard_timer d s = Inr u \<Longrightarrow> tx_st u = tx_st s \<and> tx_outbox u = tx_outbox s \<and> tx_window u = tx_window s"
  by (cases d) (auto simp: restart_discard_timer_def seq_run_Inr tx_run_discard_def split: if_splits)

lemma stop_discard_timer_moves:
  assumes "tx_inv s" and "stop_discard_timer h s = Inr u"
  shows "ack s \<le> ack u" and "tx_outbox u = tx_outbox s"
proof -
  have "ack s \<le> ack u \<and> tx_outbox u = tx_outbox s"
  proof (cases "stops s h")
    case True
    then obtain t d where t: "removed_to h s t" "restart_discard_timer d t = Inr u"
      using stop_discard_timer_spec [OF assms(1), of h] assms(2) by auto
    have "ack s \<le> h + 1" using True unat_succ [of h "txnext s"] by (auto simp: stops_def word_le_nat_alt)
    then show ?thesis using t(1) restart_discard_timer_keeps [OF t(2)] by (simp add: removed_to_def)
  next
    case False
    then show ?thesis using stop_discard_timer_spec [OF assms(1), of h] assms(2) by simp
  qed
  then show "ack s \<le> ack u" "tx_outbox u = tx_outbox s" by auto
qed

lemma transmit_notification_impl_moves:
  assumes "tx_inv s" and "handle_transmit_notification_impl sn r s = Inr u"
  shows "ack s \<le> ack u \<and> tx_outbox u = tx_outbox s"
proof -
  have "ack s \<le> ack u \<and> tx_outbox u = tx_outbox s"
    if "stop_discard_timer h (s\<lparr>tx_st := (tx_st s)\<lparr>tx_trans := h + 1\<rparr>\<rparr>) = Inr u"
      "\<not> h < tx_trans (tx_st s)" "\<not> txnext s \<le> h" for h
    using stop_discard_timer_moves [OF set_trans_inv [OF assms(1) that(2,3)] that(1)] by simp
  then show ?thesis
    using assms(2) by (auto simp: handle_transmit_notification_impl_def Let_def split: if_splits)
qed

lemma transmit_notification_moves:
  assumes "tx_inv s" and "handle_transmit_notification sn s = Inr u"
  shows "ack s \<le> ack u \<and> (\<exists>evs. tx_outbox u = tx_outbox s @ evs \<and> submitted evs = [])"
proof -
  have "ack s \<le> ack u \<and> tx_outbox u = tx_outbox s"
    using assms transmit_notification_impl_moves
    by (auto simp: handle_transmit_notification_def split: if_splits)
  then show ?thesis by auto
qed

lemma delivery_notification_impl_moves:
  assumes "tx_inv s" and "handle_delivery_notification_impl sn r s = Inr u"
  shows "ack s \<le> ack u \<and> tx_outbox u = tx_outbox s"
  using assms stop_discard_timer_moves
  by (auto simp: handle_delivery_notification_impl_def Let_def split: if_splits)

text \<open>A transmission notification for the SN of a submitted COUNT moves TX\_TRANS past it.\<close>

lemma transmit_notification_spec:
  assumes "tx_inv s" and "\<not> tx_stopped s" and "tx_trans (tx_st s) \<le> c" and "c < tx_trans_crypto (tx_st s)"
    and "unat c < unat (tx_lower s) + window_nat (txc_sn_size (tx_cfg s))"
  shows "handle_transmit_notification (tx_sn s c) s =
    (let t = s\<lparr>tx_st := (tx_st s)\<lparr>tx_trans := c + 1\<rparr>\<rparr> in
     if txc_discard_timer (tx_cfg s) \<noteq> None \<and> tx_is_um s then stop_discard_timer c t else Inr t)"
proof -
  have lo: "tx_lower s \<le> c" using assms(3) tx_inv_parts(3) [OF assms(1)] by (auto simp: tx_lower_def)
  have n: "notification_count_estimation (tx_sn s c) s = c" by (rule notification_recovers [OF assms(1) lo assms(5)])
  have "c < txnext s" using assms(4) tx_inv_parts(7) [OF assms(1)] by simp
  then show ?thesis
    using assms(2-4) n tx_sn_valid [of s c]
    by (auto simp: handle_transmit_notification_def handle_transmit_notification_impl_def tx_is_um_def Let_def)
qed

lemma delivery_notification_spec:
  assumes "tx_inv s" and "\<not> tx_stopped s" and "tx_is_am s" and "txc_discard_timer (tx_cfg s) \<noteq> None"
    and "ack s \<le> c" and "c < txnext s" and "unat c < unat (ack s) + window_nat (txc_sn_size (tx_cfg s))"
  shows "handle_delivery_notification (tx_sn s c) s = stop_discard_timer c s"
proof -
  have "notification_count_estimation (tx_sn s c) s = c"
    using assms by (intro notification_recovers) (auto simp: tx_lower_def)
  then show ?thesis
    using assms(2-4,6) tx_sn_valid [of s c]
    by (auto simp: handle_delivery_notification_def handle_delivery_notification_impl_def Let_def)
qed

section \<open>Submitting one PDU\<close>

definition pdu_at :: "'r pdcp_tx \<Rightarrow> u32 \<Rightarrow> bytes" where
  "pdu_at s c = (case wmap s c of None \<Rightarrow> [] | Some e \<Rightarrow> twe_pdu e)"

lemma submit_pdu_spec:
  assumes "tx_inv s" and "wmap s c = Some e"
  shows "\<exists>u. submit_pdu c r s = Inr u \<and> tx_inv u \<and> tx_st u = tx_st s \<and> tx_cfg u = tx_cfg s \<and>
    tx_outbox u = tx_outbox s @ [On_new_data_pdu c (twe_pdu e) r] \<and>
    wmap u = (wmap s)(c \<mapsto> e\<lparr>twe_pdu := []\<rparr>) \<and> tx_stopped u = tx_stopped s \<and>
    tx_crypto_timer_running u = tx_crypto_timer_running s \<and> tx_retransmit_id u = tx_retransmit_id s"
proof -
  note P = tx_inv_parts [OF assms(1)]
  obtain w where w: "take_pdu c (tx_window s) = Inr (twe_pdu e, w)" "txw_ok (unat (ack s)) w"
    "txw_same (tx_window s) w" "txw_map w = (wmap s)(c \<mapsto> e\<lparr>twe_pdu := []\<rparr>)"
    using take_pdu_spec [OF P(1) assms(2)] by blast
  let ?u = "write_data_pdu_to_lower_layers c (twe_pdu e) r (s\<lparr>tx_window := w\<rparr>)"
  have u: "tx_st ?u = tx_st s" "tx_cfg ?u = tx_cfg s" "tx_window ?u = w"
    "tx_outbox ?u = tx_outbox s @ [On_new_data_pdu c (twe_pdu e) r]" "tx_stopped ?u = tx_stopped s"
    "tx_crypto_timer_running ?u = tx_crypto_timer_running s" "tx_retransmit_id ?u = tx_retransmit_id s"
    by (simp_all add: write_data_pdu_to_lower_layers_def tx_emit_def tx_count_def)
  have "\<exists>d. wmap s k = Some d \<and> twe_sdu_info e' = twe_sdu_info d" if "txw_map w k = Some e'" for k e'
    using that w(4) assms(2) by (cases "k = c") auto
  then have "tx_inv ?u" using P w(2,3) u by (intro tx_inv_shrink [OF assms(1)]) auto
  then show ?thesis using w(1,4) u by (auto simp: submit_pdu_def)
qed

lemma set_trans_crypto_inv:
  "tx_inv s \<Longrightarrow> c \<le> txnext s \<Longrightarrow> tx_inv (tx_set_trans_crypto c s)"
  by (simp add: tx_inv_def tx_wf_def tx_set_trans_crypto_def)

lemma set_trans_crypto_same [simp]:
  "tx_window (tx_set_trans_crypto c s) = tx_window s" "tx_cfg (tx_set_trans_crypto c s) = tx_cfg s"
  "tx_outbox (tx_set_trans_crypto c s) = tx_outbox s" "txnext (tx_set_trans_crypto c s) = txnext s"
  "ack (tx_set_trans_crypto c s) = ack s" "tx_trans_crypto (tx_st (tx_set_trans_crypto c s)) = c"
  "tx_reord_crypto (tx_st (tx_set_trans_crypto c s)) = tx_reord_crypto (tx_st s)"
  "tx_trans (tx_st (tx_set_trans_crypto c s)) = tx_trans (tx_st s)"
  "tx_stopped (tx_set_trans_crypto c s) = tx_stopped s" "tx_retransmit_id (tx_set_trans_crypto c s) = tx_retransmit_id s"
  "tx_crypto_timer_running (tx_set_trans_crypto c s) = tx_crypto_timer_running s"
  by (simp_all add: tx_set_trans_crypto_def)

section \<open>The submission loop\<close>

lemma submit_next_spec:
  assumes "tx_inv s" and "wmap s c = Some e" and "c < txnext s" and "submit_next r c s = Inr u"
  shows "tx_inv u \<and> txnext u = txnext s \<and> tx_trans_crypto (tx_st u) = c + 1 \<and> tx_cfg u = tx_cfg s \<and>
    tx_stopped u = tx_stopped s \<and> tx_crypto_timer_running u = tx_crypto_timer_running s \<and>
    tx_reord_crypto (tx_st u) = tx_reord_crypto (tx_st s) \<and> ack s \<le> ack u \<and>
    tx_retransmit_id u = tx_retransmit_id s \<and>
    (\<exists>evs. tx_outbox u = tx_outbox s @ On_new_data_pdu c (twe_pdu e) r # evs \<and> submitted evs = [])"
proof -
  obtain t where t: "submit_pdu c r s = Inr t" "tx_inv t" "tx_st t = tx_st s" "tx_cfg t = tx_cfg s"
    "tx_outbox t = tx_outbox s @ [On_new_data_pdu c (twe_pdu e) r]" "tx_stopped t = tx_stopped s"
    "tx_crypto_timer_running t = tx_crypto_timer_running s" "tx_retransmit_id t = tx_retransmit_id s"
    using submit_pdu_spec [OF assms(1,2), of r] by blast
  let ?v = "tx_set_trans_crypto (c + 1) t"
  have iv: "tx_inv ?v" using t assms(3) by (intro set_trans_crypto_inv) (auto intro: word_le_add_one)
  have run: "(if txc_test_mode (tx_cfg ?v) then handle_transmit_notification (tx_sn ?v c) ?v else Inr ?v) = Inr u"
    using assms(4) t(1) by (simp add: submit_next_def Let_def)
  have v: "tx_outbox ?v = tx_outbox s @ [On_new_data_pdu c (twe_pdu e) r]" "txnext ?v = txnext s" "ack ?v = ack s"
    "tx_reord_crypto (tx_st ?v) = tx_reord_crypto (tx_st s)" "tx_trans_crypto (tx_st ?v) = c + 1"
    using t by simp_all
  show ?thesis
  proof (cases "txc_test_mode (tx_cfg ?v)")
    case False
    then have "u = ?v" using run by simp
    then show ?thesis using iv t v by simp
  next
    case True
    then have run: "handle_transmit_notification (tx_sn ?v c) ?v = Inr u" using run by simp
    note fr = ack_frame_same [OF ack_frame_transmit_notification [OF run]]
    have "ack s \<le> ack u \<and> (\<exists>evs. tx_outbox u = tx_outbox ?v @ evs \<and> submitted evs = [])"
      using transmit_notification_moves [OF iv run] v(3) by simp
    then show ?thesis using transmit_notification_inv [OF iv run] fr v t by auto
  qed
qed

text \<open>
  Whatever happens on the way, the loop submits consecutive COUNTs from TX\_TRANS\_CRYPTO on and
  stops at TX\_NEXT or at an element whose PDU is not there yet.
\<close>

definition tx_kept :: "'r pdcp_tx \<Rightarrow> 'r pdcp_tx \<Rightarrow> bool" where
  "tx_kept s u \<longleftrightarrow> tx_inv u \<and> txnext u = txnext s \<and> tx_cfg u = tx_cfg s \<and> tx_stopped u = tx_stopped s \<and>
     tx_crypto_timer_running u = tx_crypto_timer_running s \<and> tx_reord_crypto (tx_st u) = tx_reord_crypto (tx_st s) \<and>
     tx_retransmit_id u = tx_retransmit_id s \<and> ack s \<le> ack u"

lemma tx_kept_trans: "tx_kept s t \<Longrightarrow> tx_kept t u \<Longrightarrow> tx_kept s u"
  by (auto simp: tx_kept_def)

lemma tx_kept_refl: "tx_inv s \<Longrightarrow> tx_kept s s"
  by (simp add: tx_kept_def)

lemma upt_cons: "a < b \<Longrightarrow> [a..<b] = a # [a + 1..<b]"
  by (simp add: upt_conv_Cons)

lemma submit_in_order_run:
  assumes "tx_inv s" and "tx_trans_crypto (tx_st s) = c" and "submit_in_order r c s = Inr u"
  shows "tx_kept s u \<and> c \<le> tx_trans_crypto (tx_st u) \<and>
    (tx_trans_crypto (tx_st u) < txnext s \<longrightarrow> pdu_at u (tx_trans_crypto (tx_st u)) = []) \<and>
    (\<exists>evs. tx_outbox u = tx_outbox s @ evs \<and> submitted evs = [unat c..<unat (tx_trans_crypto (tx_st u))])"
  using assms
proof (induction r c s rule: submit_in_order.induct)
  case (1 r c s)
  show ?case
  proof (cases "c < txnext s \<and> (\<exists>e. wmap s c = Some e \<and> twe_pdu e \<noteq> [])")
    case True
    then obtain e where lt: "c < txnext s" and e: "wmap s c = Some e" "twe_pdu e \<noteq> []" by blast
    obtain t where t: "submit_next r c s = Inr t" "submit_in_order r (c + 1) t = Inr u"
      using 1(4) lt e by (subst (asm) submit_in_order.simps) (auto simp: txw_at_map split: sum.splits)
    have n: "tx_inv t" "txnext t = txnext s" "tx_trans_crypto (tx_st t) = c + 1" "tx_kept s t"
      "\<exists>evs. tx_outbox t = tx_outbox s @ On_new_data_pdu c (twe_pdu e) r # evs \<and> submitted evs = []"
      using submit_next_spec [OF 1(2) e(1) lt t(1)] by (auto simp: tx_kept_def)
    note IH = 1(1) [OF lt _ e(2) t(1) n(1) n(3) t(2)]
    have a: "txw_at (tx_window s) c = Inr e" using e by (simp add: txw_at_map)
    obtain evs where evs: "tx_outbox u = tx_outbox t @ evs" "submitted evs = [unat (c + 1)..<unat (tx_trans_crypto (tx_st u))]"
      using IH [OF a] by blast
    have le: "c + 1 \<le> tx_trans_crypto (tx_st u)" using IH [OF a] by blast
    have c1: "unat (c + 1) = unat c + 1" using unat_succ [OF lt] .
    then have "unat c < unat (tx_trans_crypto (tx_st u))" using le by (simp add: word_le_nat_alt)
    then have sub: "unat c # submitted evs = [unat c..<unat (tx_trans_crypto (tx_st u))]"
      using evs(2) c1 by (simp only: upt_cons)
    obtain evs' where evs': "tx_outbox t = tx_outbox s @ On_new_data_pdu c (twe_pdu e) r # evs'" "submitted evs' = []"
      using n(5) by blast
    have "tx_outbox u = tx_outbox s @ (On_new_data_pdu c (twe_pdu e) r # evs' @ evs)"
      "submitted (On_new_data_pdu c (twe_pdu e) r # evs' @ evs) = [unat c..<unat (tx_trans_crypto (tx_st u))]"
      using evs(1) evs' sub by simp_all
    then show ?thesis
      using IH [OF a] n(2,4) tx_kept_trans [of s t u] \<open>unat c < unat (tx_trans_crypto (tx_st u))\<close>
      by (auto simp: word_le_nat_alt)
  next
    case False
    then have "u = s \<and> (c < txnext s \<longrightarrow> pdu_at s c = [])"
      using 1(4) by (subst (asm) submit_in_order.simps) (auto simp: txw_at_map pdu_at_def split: option.splits if_splits)
    then show ?thesis using 1(2,3) tx_kept_refl by auto
  qed
qed

text \<open>No fault while the elements from TX\_TRANS\_CRYPTO on are all in the window.\<close>

definition in_flight_present :: "'r pdcp_tx \<Rightarrow> bool" where
  "in_flight_present s \<longleftrightarrow> (\<forall>k. tx_trans_crypto (tx_st s) \<le> k \<and> k < txnext s \<longrightarrow> wmap s k \<noteq> None)"

lemma submit_next_plain:
  assumes "tx_inv s" and "wmap s c = Some e" and "\<not> txc_test_mode (tx_cfg s)" and "c < txnext s"
  shows "\<exists>u. submit_next r c s = Inr u \<and> tx_inv u \<and> tx_st u = (tx_st s)\<lparr>tx_trans_crypto := c + 1\<rparr> \<and>
    tx_cfg u = tx_cfg s \<and> wmap u = (wmap s)(c \<mapsto> e\<lparr>twe_pdu := []\<rparr>) \<and>
    tx_outbox u = tx_outbox s @ [On_new_data_pdu c (twe_pdu e) r]"
proof -
  obtain t where t: "submit_pdu c r s = Inr t" "tx_inv t" "tx_st t = tx_st s" "tx_cfg t = tx_cfg s"
    "tx_outbox t = tx_outbox s @ [On_new_data_pdu c (twe_pdu e) r]" "wmap t = (wmap s)(c \<mapsto> e\<lparr>twe_pdu := []\<rparr>)"
    using submit_pdu_spec [OF assms(1,2), of r] by blast
  have "tx_inv (tx_set_trans_crypto (c + 1) t)"
    using t assms(4) by (intro set_trans_crypto_inv) (auto intro: word_le_add_one)
  then show ?thesis using t assms(3) by (auto simp: submit_next_def tx_set_trans_crypto_def)
qed

lemma submit_in_order_exact:
  assumes "tx_inv s" and "tx_trans_crypto (tx_st s) = c" and "\<not> txc_test_mode (tx_cfg s)" and "in_flight_present s"
  shows "\<exists>u. submit_in_order r c s = Inr u \<and> c \<le> tx_trans_crypto (tx_st u) \<and>
    tx_st u = (tx_st s)\<lparr>tx_trans_crypto := tx_trans_crypto (tx_st u)\<rparr> \<and> in_flight_present u \<and>
    tx_outbox u = tx_outbox s @
      map (\<lambda>n. On_new_data_pdu (of_nat n) (pdu_at s (of_nat n)) r) [unat c..<unat (tx_trans_crypto (tx_st u))] \<and>
    (\<forall>k. c \<le> k \<and> k < tx_trans_crypto (tx_st u) \<longrightarrow> pdu_at s k \<noteq> []) \<and>
    (tx_trans_crypto (tx_st u) < txnext s \<longrightarrow> pdu_at s (tx_trans_crypto (tx_st u)) = [])"
  using assms
proof (induction r c s rule: submit_in_order.induct)
  case (1 r c s)
  show ?case
  proof (cases "c < txnext s \<and> pdu_at s c \<noteq> []")
    case True
    then obtain e where lt: "c < txnext s" and e: "wmap s c = Some e" "twe_pdu e \<noteq> []"
      by (auto simp: pdu_at_def split: option.splits)
    have a: "txw_at (tx_window s) c = Inr e" using e by (simp add: txw_at_map)
    obtain t where t: "submit_next r c s = Inr t" "tx_inv t" "tx_st t = (tx_st s)\<lparr>tx_trans_crypto := c + 1\<rparr>"
      "tx_cfg t = tx_cfg s" "wmap t = (wmap s)(c \<mapsto> e\<lparr>twe_pdu := []\<rparr>)"
      "tx_outbox t = tx_outbox s @ [On_new_data_pdu c (twe_pdu e) r]"
      using submit_next_plain [OF 1(2) e(1) 1(4) lt, of r] by blast
    have step: "submit_in_order r c s = submit_in_order r (c + 1) t"
      using lt a e(2) t(1) by (subst submit_in_order.simps) simp
    have c1: "unat (c + 1) = unat c + 1" using unat_succ [OF lt] .
    have up: "k = c \<or> c + 1 \<le> k" if "c \<le> k" for k using that c1 by (auto simp: word_le_nat_alt word_unat_eq_iff)
    have dn: "c + 1 \<le> k \<Longrightarrow> c \<le> k \<and> k \<noteq> c" for k using c1 by (auto simp: word_le_nat_alt)
    have ifp: "in_flight_present t" using 1(5) t(3,5) 1(3) dn by (auto simp: in_flight_present_def)
    have p: "pdu_at t k = pdu_at s k" if "k \<noteq> c" for k using t(5) that by (simp add: pdu_at_def)
    obtain u where u: "submit_in_order r (c + 1) t = Inr u" "c + 1 \<le> tx_trans_crypto (tx_st u)"
      "tx_st u = (tx_st t)\<lparr>tx_trans_crypto := tx_trans_crypto (tx_st u)\<rparr>" "in_flight_present u"
      "tx_outbox u = tx_outbox t @
         map (\<lambda>n. On_new_data_pdu (of_nat n) (pdu_at t (of_nat n)) r) [unat (c + 1)..<unat (tx_trans_crypto (tx_st u))]"
      "\<forall>k. c + 1 \<le> k \<and> k < tx_trans_crypto (tx_st u) \<longrightarrow> pdu_at t k \<noteq> []"
      "tx_trans_crypto (tx_st u) < txnext t \<longrightarrow> pdu_at t (tx_trans_crypto (tx_st u)) = []"
      using 1(1) [OF lt a e(2) t(1) t(2) _ _ ifp] t(3,4) 1(4) by auto
    have lt2: "unat c < unat (tx_trans_crypto (tx_st u))" using u(2) c1 by (simp add: word_le_nat_alt)
    have evs: "map (\<lambda>n. On_new_data_pdu (of_nat n) (pdu_at t (of_nat n)) r) [unat c + 1..<unat (tx_trans_crypto (tx_st u))] =
        map (\<lambda>n. On_new_data_pdu (of_nat n) (pdu_at s (of_nat n)) r) [unat c + 1..<unat (tx_trans_crypto (tx_st u))]"
    proof (rule map_cong [OF refl])
      fix n
      assume n: "n \<in> set [unat c + 1..<unat (tx_trans_crypto (tx_st u))]"
      have "n < unat (tx_trans_crypto (tx_st u))" using n by simp
      then have "n < 4294967296" by (rule less_trans) (rule unat_u32_less)
      then have "unat (of_nat n :: u32) = n" by (simp add: unat_of_nat)
      then have "(of_nat n :: u32) \<noteq> c" using n by auto
      then show "On_new_data_pdu (of_nat n) (pdu_at t (of_nat n)) r = On_new_data_pdu (of_nat n) (pdu_at s (of_nat n)) r"
        by (simp add: p)
    qed
    have pc: "pdu_at s c = twe_pdu e" using e by (simp add: pdu_at_def)
    have "tx_outbox u = tx_outbox s @
        map (\<lambda>n. On_new_data_pdu (of_nat n) (pdu_at s (of_nat n)) r) [unat c..<unat (tx_trans_crypto (tx_st u))]"
      unfolding upt_cons [OF lt2] using u(5) t(6) evs c1 pc by simp
    moreover have "c \<le> tx_trans_crypto (tx_st u)" using lt2 by (simp add: word_le_nat_alt)
    moreover have "pdu_at s k \<noteq> []" if "c \<le> k" "k < tx_trans_crypto (tx_st u)" for k
      using up [OF that(1)] that(2) u(6) p [of k] True by (cases "k = c") auto
    moreover have "tx_trans_crypto (tx_st u) < txnext s \<longrightarrow> pdu_at s (tx_trans_crypto (tx_st u)) = []"
      using u(7) t(3) dn [OF u(2)] p by auto
    ultimately show ?thesis unfolding step using u(1,3,4) t(3) by auto
  next
    case False
    have "submit_in_order r c s = Inr s"
    proof (cases "c < txnext s")
      case True
      then obtain e where "wmap s c = Some e" using 1(3,5) by (auto simp: in_flight_present_def)
      then show ?thesis using True False
        by (subst submit_in_order.simps) (auto simp: txw_at_map pdu_at_def)
    qed (subst submit_in_order.simps, simp)
    then show ?thesis using 1(3,5) False by auto
  qed
qed

section \<open>Reordering of the PDUs that the crypto workers return\<close>

definition reorders :: "pdcp_tx_buffer_info \<Rightarrow> 'r pdcp_tx \<Rightarrow> bool" where
  "reorders i s \<longleftrightarrow> \<not> tx_stopped s \<and> tbi_retx_id i = tx_retransmit_id s \<and>
     tx_trans (tx_st s) \<le> tbi_count i \<and> wmap s (tbi_count i) \<noteq> None"

lemma apply_reordering_drops:
  assumes "tx_inv s" and "\<not> reorders i s"
  shows "tx_apply_reordering i s = Inr s"
  using assms(2) tx_inv_parts(3) [OF assms(1)]
  by (auto simp: tx_apply_reordering_def reorders_def txw_has_sn_map)

lemma stored_pdu:
  assumes "tx_inv s" and "wmap s c \<noteq> None"
  shows "\<exists>w. put_pdu c b (tx_window s) = Inr w \<and> tx_inv (s\<lparr>tx_window := w\<rparr>) \<and>
    (\<forall>k. pdu_at (s\<lparr>tx_window := w\<rparr>) k = (if k = c then b else pdu_at s k)) \<and>
    (\<forall>k. txw_map w k = None \<longleftrightarrow> wmap s k = None)"
proof -
  note P = tx_inv_parts [OF assms(1)]
  obtain e where e: "wmap s c = Some e" using assms(2) by blast
  obtain w where w: "put_pdu c b (tx_window s) = Inr w" "txw_ok (unat (ack s)) w" "txw_same (tx_window s) w"
    "txw_map w = (wmap s)(c \<mapsto> e\<lparr>twe_pdu := b\<rparr>)" using put_pdu_spec [OF P(1) e] by blast
  have "\<exists>d. wmap s k = Some d \<and> twe_sdu_info e' = twe_sdu_info d" if "txw_map w k = Some e'" for k e'
    using that w(4) e by (cases "k = c") auto
  then have "tx_inv (s\<lparr>tx_window := w\<rparr>)" using P w(2,3) by (intro tx_inv_shrink [OF assms(1)]) auto
  then show ?thesis using w(1,4) e by (auto simp: pdu_at_def)
qed

lemma update_crypto_timer_st:
  "tx_st (update_crypto_timer s) = (tx_st s)\<lparr>tx_reord_crypto :=
     (if \<not> (tx_crypto_timer_running s \<and> \<not> tx_reord_crypto (tx_st s) \<le> tx_trans_crypto (tx_st s)) \<and>
         tx_trans_crypto (tx_st s) < txnext s then txnext s else tx_reord_crypto (tx_st s))\<rparr>"
  by (auto simp: update_crypto_timer_def tx_reord_to_next_def tx_run_crypto_timer_def tx_stop_crypto_timer_def Let_def)

lemma update_crypto_timer_same [simp]:
  "tx_window (update_crypto_timer s) = tx_window s" "tx_cfg (update_crypto_timer s) = tx_cfg s"
  "tx_outbox (update_crypto_timer s) = tx_outbox s" "tx_stopped (update_crypto_timer s) = tx_stopped s"
  "tx_retransmit_id (update_crypto_timer s) = tx_retransmit_id s"
  by (auto simp: update_crypto_timer_def tx_reord_to_next_def tx_run_crypto_timer_def tx_stop_crypto_timer_def Let_def)

lemma update_crypto_timer_running:
  assumes "tx_trans_crypto (tx_st s) \<le> txnext s"
  defines "u \<equiv> update_crypto_timer s"
  shows "tx_crypto_timer_running u \<longleftrightarrow> tx_trans_crypto (tx_st u) < tx_reord_crypto (tx_st u) \<and>
    (tx_crypto_timer_running s \<or> tx_trans_crypto (tx_st s) < txnext s)"
  using assms(1) unfolding u_def
  by (auto simp: update_crypto_timer_def tx_reord_to_next_def tx_run_crypto_timer_def tx_stop_crypto_timer_def Let_def not_le)

lemma update_crypto_timer_inv: "tx_inv s \<Longrightarrow> tx_inv (update_crypto_timer s)"
  by (auto simp: tx_inv_def tx_wf_def update_crypto_timer_st)

end
