(* ===== verification/Pdcp_Tx_Steps.thy ===== *)
theory Pdcp_Tx_Steps
  imports Pdcp_Tx_Submit
begin

text \<open>
  The transmitting entity as a step relation: SDUs from above, crypto and UE tasks in any order,
  notifications and status reports from below, and the two timers. Each step keeps the invariant,
  and PDUs are submitted in strictly ascending COUNT order as long as nothing rewinds the
  submission (retransmission, suspension and re-establishment do, by design).
\<close>

section \<open>Effects\<close>

text \<open>While the crypto reordering timer runs, TX\_TRANS\_CRYPTO has not passed its target.\<close>

definition tx_timer_ok :: "'r pdcp_tx \<Rightarrow> bool" where
  "tx_timer_ok s \<longleftrightarrow> (tx_crypto_timer_running s \<longrightarrow> tx_trans_crypto (tx_st s) \<le> tx_reord_crypto (tx_st s))"

definition tx_effect :: "'r pdcp_tx \<Rightarrow> 'r pdcp_tx \<Rightarrow> bool" where
  "tx_effect s u \<longleftrightarrow> tx_inv u \<and> tx_timer_ok u \<and> tx_cfg u = tx_cfg s \<and>
     tx_trans_crypto (tx_st s) \<le> tx_trans_crypto (tx_st u) \<and>
     (\<exists>evs. tx_outbox u = tx_outbox s @ evs \<and> sorted_wrt (<) (submitted evs) \<and>
        (\<forall>n \<in> set (submitted evs). unat (tx_trans_crypto (tx_st s)) \<le> n \<and> n < unat (tx_trans_crypto (tx_st u))))"

lemma tx_effect_trans:
  assumes "tx_effect s t" and "tx_effect t u"
  shows "tx_effect s u"
proof -
  obtain a b where a: "tx_outbox t = tx_outbox s @ a" "sorted_wrt (<) (submitted a)"
      "\<forall>n \<in> set (submitted a). unat (tx_trans_crypto (tx_st s)) \<le> n \<and> n < unat (tx_trans_crypto (tx_st t))"
    and b: "tx_outbox u = tx_outbox t @ b" "sorted_wrt (<) (submitted b)"
      "\<forall>n \<in> set (submitted b). unat (tx_trans_crypto (tx_st t)) \<le> n \<and> n < unat (tx_trans_crypto (tx_st u))"
    using assms by (auto simp: tx_effect_def)
  have le: "unat (tx_trans_crypto (tx_st s)) \<le> unat (tx_trans_crypto (tx_st t))"
    "unat (tx_trans_crypto (tx_st t)) \<le> unat (tx_trans_crypto (tx_st u))"
    using assms by (auto simp: tx_effect_def word_le_nat_alt)
  have "sorted_wrt (<) (submitted (a @ b))" using a b by (fastforce simp: sorted_wrt_append)
  moreover have "\<forall>n \<in> set (submitted (a @ b)). unat (tx_trans_crypto (tx_st s)) \<le> n \<and> n < unat (tx_trans_crypto (tx_st u))"
    using a(3) b(3) le by (fastforce)
  ultimately show ?thesis using assms a(1) b(1) unfolding tx_effect_def
    by (auto intro: order_trans)
qed

lemma tx_effect_plain:
  assumes "tx_inv u" and "tx_timer_ok s" and "tx_cfg u = tx_cfg s"
    and "tx_trans_crypto (tx_st u) = tx_trans_crypto (tx_st s)"
    and "tx_crypto_timer_running u = tx_crypto_timer_running s" and "tx_reord_crypto (tx_st u) = tx_reord_crypto (tx_st s)"
    and "tx_outbox u = tx_outbox s @ evs" and "submitted evs = []"
  shows "tx_effect s u"
  using assms by (auto simp: tx_effect_def tx_timer_ok_def)

lemma tx_effect_refl: "tx_inv s \<Longrightarrow> tx_timer_ok s \<Longrightarrow> tx_effect s s"
  by (rule tx_effect_plain [where evs = "[]"]) auto

text \<open>Operations that submit nothing and move the lower edge only.\<close>

definition ack_move :: "'r pdcp_tx \<Rightarrow> 'r pdcp_tx \<Rightarrow> bool" where
  "ack_move s u \<longleftrightarrow> tx_inv u \<and> ack_frame s u \<and> ack s \<le> ack u \<and>
     (\<exists>evs. tx_outbox u = tx_outbox s @ evs \<and> submitted evs = [])"

lemma ack_move_refl: "tx_inv s \<Longrightarrow> ack_move s s"
  by (simp add: ack_move_def)

lemma ack_move_trans:
  assumes "ack_move s t" and "ack_move t u"
  shows "ack_move s u"
proof -
  obtain a b where "tx_outbox t = tx_outbox s @ a" "submitted a = []" "tx_outbox u = tx_outbox t @ b" "submitted b = []"
    using assms by (auto simp: ack_move_def)
  then have "tx_outbox u = tx_outbox s @ (a @ b) \<and> submitted (a @ b) = []" by simp
  then show ?thesis using assms ack_frame_trans unfolding ack_move_def by (blast intro: order_trans)
qed

lemma ack_move_effect:
  assumes "ack_move s u" and "tx_timer_ok s"
  shows "tx_effect s u"
proof -
  obtain evs where "tx_outbox u = tx_outbox s @ evs" "submitted evs = []" using assms(1) by (auto simp: ack_move_def)
  then show ?thesis using assms ack_frame_same [of s u] by (intro tx_effect_plain) (auto simp: ack_move_def)
qed

lemma discard_pdu_move: "tx_inv s \<Longrightarrow> discard_pdu c s = Inr u \<Longrightarrow> ack_move s u"
  using discard_pdu_spec [of s c] by (auto simp: ack_move_def split: if_splits)

lemma stop_discard_timer_move: "tx_inv s \<Longrightarrow> stop_discard_timer h s = Inr u \<Longrightarrow> ack_move s u"
  using stop_discard_timer_moves [of s h u] stop_discard_timer_inv ack_frame_stop_discard_timer
  by (fastforce simp: ack_move_def)

lemma ack_frame_transmit_impl: "handle_transmit_notification_impl sn r s = Inr u \<Longrightarrow> ack_frame s u"
  by (auto simp: handle_transmit_notification_impl_def Let_def ack_frame_st
      split: if_splits dest!: ack_frame_stop_discard_timer intro: ack_frame_trans [OF ack_frame_st(1)])

lemma transmit_impl_move: "tx_inv s \<Longrightarrow> handle_transmit_notification_impl sn r s = Inr u \<Longrightarrow> ack_move s u"
  using transmit_notification_impl_moves [of s sn r u] transmit_notification_impl_inv [of s sn r u]
    ack_frame_transmit_impl [of sn r s u] by (auto simp: ack_move_def)

lemma delivery_impl_move: "tx_inv s \<Longrightarrow> handle_delivery_notification_impl sn r s = Inr u \<Longrightarrow> ack_move s u"
  by (auto simp: handle_delivery_notification_impl_def Let_def ack_move_refl split: if_splits
      dest: stop_discard_timer_move)

lemma notification_moves:
  assumes "tx_inv s"
  shows "handle_transmit_notification sn s = Inr u \<Longrightarrow> ack_move s u"
    and "handle_retransmit_notification sn s = Inr u \<Longrightarrow> ack_move s u"
    and "handle_delivery_notification sn s = Inr u \<Longrightarrow> ack_move s u"
    and "handle_delivery_retransmitted_notification sn s = Inr u \<Longrightarrow> ack_move s u"
  using assms transmit_impl_move delivery_impl_move
  by (auto simp: handle_transmit_notification_def handle_retransmit_notification_def handle_delivery_notification_def
      handle_delivery_retransmitted_notification_def ack_move_refl split: if_splits)

subsection \<open>Status reports and the expiry of the discard timer\<close>

lemma discard_below_move: "tx_inv s \<Longrightarrow> discard_below c f s = Inr u \<Longrightarrow> ack_move s u"
proof (induction c f s rule: discard_below.induct)
  case (1 c f s)
  show ?case
  proof (cases "c < f")
    case True
    then obtain t where t: "discard_pdu c s = Inr t" "discard_below (c + 1) f t = Inr u"
      using 1(3) by (subst (asm) discard_below.simps) (auto split: sum.splits)
    have m: "ack_move s t" by (rule discard_pdu_move [OF 1(2) t(1)])
    then have "tx_inv t" by (simp add: ack_move_def)
    then show ?thesis using ack_move_trans [OF m] 1(1) [OF True t(1) _ t(2)] by blast
  next
    case False
    then show ?thesis using 1(2,3) by (subst (asm) discard_below.simps) (auto simp: ack_move_refl)
  qed
qed

lemma discard_by_bitmap_move: "tx_inv s \<Longrightarrow> discard_by_bitmap n d f s = Inr u \<Longrightarrow> ack_move s u"
proof (induction n arbitrary: d f s)
  case (Suc n)
  obtain ok bit d' where d: "unpack d 1 = (ok, bit, d')" by (metis prod_cases3)
  show ?case
  proof (cases ok)
    case True
    then obtain t where t: "(if bit = 1 then discard_pdu (f + 1) s else Inr s) = Inr t"
      "discard_by_bitmap n d' (f + 1) t = Inr u"
      using Suc(3) d by (auto simp: seq_run_Inr)
    have m: "ack_move s t" using t(1) Suc(2) discard_pdu_move ack_move_refl by (auto split: if_splits)
    then have "tx_inv t" by (simp add: ack_move_def)
    then show ?thesis using Suc(1) [OF _ t(2)] m ack_move_trans by blast
  next
    case False
    then show ?thesis using Suc(2,3) d by (auto simp: ack_move_refl)
  qed
qed (auto simp: ack_move_refl)

lemma emit_move: "tx_inv s \<Longrightarrow> submitted [e] = [] \<Longrightarrow> ack_move s (tx_emit e s)"
  using ack_frame_emit [of s e] tx_inv_core [OF tx_core_simps(2)]
  by (auto simp: ack_move_def tx_emit_def)

lemma check_status_report_move: "tx_inv s \<Longrightarrow> check_status_report f b s = (ok, u) \<Longrightarrow> ack_move s u"
  by (auto simp: check_status_report_def Let_def emit_move ack_move_refl split: if_splits
      intro!: emit_move ack_move_trans [OF emit_move [of s Tx_on_protocol_failure] emit_move]
        tx_inv_core [OF tx_core_simps(2), THEN iffD2])

lemma status_report_move:
  assumes "tx_inv s" and "handle_status_report a buf s = Inr u"
  shows "ack_move s u"
proof -
  obtain o1 dc d1 where d1: "unpack (decoder_init buf) 1 = (o1, dc, d1)" by (metis prod_cases3)
  obtain o2 cpt d2 where d2: "unpack d1 3 = (o2, cpt, d2)" by (metis prod_cases3)
  obtain o3 res d3 where d3: "unpack d2 4 = (o3, res, d3)" by (metis prod_cases3)
  obtain o4 fmc d4 where d4: "unpack d3 32 = (o4, fmc, d4)" by (metis prod_cases3)
  obtain ok t where ct: "check_status_report fmc buf s = (ok, t)" by (metis prod.exhaust)
  have m: "ack_move s t" by (rule check_status_report_move [OF assms(1) ct])
  then have it: "tx_inv t" by (simp add: ack_move_def)
  have "u = s \<or> u = t \<or> (\<exists>v. discard_below (ack t) fmc t = Inr v \<and> discard_by_bitmap (8 * length buf) d4 fmc v = Inr u)"
    using assms(2)
    by (auto simp: handle_status_report_def d1 d2 d3 d4 ct seq_run_Inr simp del: One_nat_def split: if_splits)
  moreover have "ack_move s u" if v: "discard_below (ack t) fmc t = Inr v" "discard_by_bitmap (8 * length buf) d4 fmc v = Inr u" for v
  proof -
    have "ack_move t v" by (rule discard_below_move [OF it v(1)])
    moreover then have "tx_inv v" by (simp add: ack_move_def)
    ultimately show ?thesis using discard_by_bitmap_move [OF _ v(2)] m ack_move_trans by blast
  qed
  ultimately show ?thesis using m ack_move_refl [OF assms(1)] by blast
qed

lemma run_discard_move: "tx_inv s \<Longrightarrow> ack_move s (tx_run_discard t s)" "tx_inv s \<Longrightarrow> ack_move s (tx_stop_discard s)"
  using ack_frame_discard [of s] tx_inv_core [OF run_discard_core(1)] tx_inv_core [OF run_discard_core(2)]
  by (auto simp: ack_move_def tx_run_discard_def tx_stop_discard_def)

lemma discard_expired_move: "tx_inv s \<Longrightarrow> discard_expired n t s = Inr u \<Longrightarrow> ack_move s u"
proof (induction n arbitrary: s)
  case (Suc n)
  obtain v where v: "discard_pdu (ack s) s = Inr v" using Suc(3) by (auto simp: seq_run_Inr)
  have m: "ack_move s v" by (rule discard_pdu_move [OF Suc(2) v])
  then have iv: "tx_inv v" by (simp add: ack_move_def)
  have "u = v \<or> (\<exists>x. u = tx_run_discard x v) \<or> discard_expired n t v = Inr u"
    using Suc(3) v by (auto simp: seq_run_Inr split: if_splits)
  then show ?case using m run_discard_move [OF iv] Suc(1) [OF iv] ack_move_trans by blast
qed (auto simp: ack_move_refl)

lemma discard_callback_effect:
  assumes "tx_inv s" and "tx_timer_ok s" and "discard_callback s = Inr u"
  shows "tx_effect s u"
proof -
  let ?t = "tx_count (txm_add_discard_timouts 1) s"
  have it: "tx_inv ?t" "tx_timer_ok ?t"
    using assms(1,2) tx_inv_core [OF tx_core_simps(3)] by (auto simp: tx_count_def tx_timer_ok_def)
  have "tx_effect s ?t"
    by (rule tx_effect_plain [OF it(1) assms(2), where evs = "[]"]) (simp_all add: tx_count_def)
  note t = it(1) this it(2)
  have "u = s \<or> u = ?t \<or> (\<exists>n k. discard_expired n k ?t = Inr u)"
    using assms(3) by (auto simp: discard_callback_def Let_def seq_run_Inr simp del: discard_expired.simps Suc_eq_plus1 split: if_splits)
  then show ?thesis
    using tx_effect_refl [OF assms(1,2)] t discard_expired_move [OF t(1)] ack_move_effect tx_effect_trans by blast
qed

section \<open>Reordering and its timer\<close>

lemma submit_in_order_effect:
  assumes "tx_inv s" and "tx_timer_ok s \<or> tx_timer_ok u" and "submit_in_order r (tx_trans_crypto (tx_st s)) s = Inr u"
  shows "tx_inv u \<and> tx_cfg u = tx_cfg s \<and> tx_kept s u \<and>
     tx_trans_crypto (tx_st s) \<le> tx_trans_crypto (tx_st u) \<and>
     (\<exists>evs. tx_outbox u = tx_outbox s @ evs \<and> sorted_wrt (<) (submitted evs) \<and>
        (\<forall>n \<in> set (submitted evs). unat (tx_trans_crypto (tx_st s)) \<le> n \<and> n < unat (tx_trans_crypto (tx_st u))))"
proof -
  obtain evs where e: "tx_outbox u = tx_outbox s @ evs"
    "submitted evs = [unat (tx_trans_crypto (tx_st s))..<unat (tx_trans_crypto (tx_st u))]"
    and k: "tx_kept s u" "tx_trans_crypto (tx_st s) \<le> tx_trans_crypto (tx_st u)"
    using submit_in_order_run [OF assms(1) refl assms(3)] by blast
  have "sorted_wrt (<) (submitted evs)" unfolding e(2) by simp
  moreover have "\<forall>n \<in> set (submitted evs). unat (tx_trans_crypto (tx_st s)) \<le> n \<and> n < unat (tx_trans_crypto (tx_st u))"
    unfolding e(2) by simp
  ultimately show ?thesis using k e(1) by (auto simp: tx_kept_def)
qed

lemma update_crypto_timer_ok: "tx_timer_ok (update_crypto_timer s)"
  by (auto simp: tx_timer_ok_def update_crypto_timer_def tx_reord_to_next_def tx_run_crypto_timer_def
      tx_stop_crypto_timer_def Let_def)

lemma apply_reordering_effect:
  assumes "tx_inv s" and "tx_timer_ok s" and "tx_apply_reordering i s = Inr u"
  shows "tx_effect s u"
proof (cases "reorders i s")
  case False
  then show ?thesis using apply_reordering_drops [OF assms(1)] assms tx_effect_refl by fastforce
next
  case True
  obtain w where w: "put_pdu (tbi_count i) (tbi_buf i) (tx_window s) = Inr w" "tx_inv (s\<lparr>tx_window := w\<rparr>)"
    using stored_pdu [OF assms(1)] True by (fastforce simp: reorders_def)
  let ?s = "s\<lparr>tx_window := w\<rparr>"
  have "\<exists>t. submit_in_order (tbi_is_retx i) (tx_trans_crypto (tx_st ?s)) ?s = Inr t \<and> u = update_crypto_timer t"
    using assms(3) True w(1) tx_inv_parts(3) [OF assms(1)]
    by (auto simp: tx_apply_reordering_def reorders_def txw_has_sn_map seq_run_Inr split: if_splits)
  then obtain t where t: "submit_in_order (tbi_is_retx i) (tx_trans_crypto (tx_st ?s)) ?s = Inr t" "u = update_crypto_timer t"
    by blast
  have ok: "tx_timer_ok ?s" using assms(2) by (simp add: tx_timer_ok_def)
  show ?thesis
    using submit_in_order_effect [OF w(2) disjI1 [OF ok] t(1)] update_crypto_timer_inv [of t] update_crypto_timer_ok [of t]
    unfolding t(2) tx_effect_def by (auto simp: update_crypto_timer_st)
qed

lemma submit_or_skip_effect:
  assumes "tx_inv s" and "tx_trans_crypto (tx_st s) < txnext s" and "submit_or_skip s = Inr u"
  shows "tx_kept s u \<and> tx_trans_crypto (tx_st u) = tx_trans_crypto (tx_st s) + 1 \<and>
    (\<exists>evs. tx_outbox u = tx_outbox s @ evs \<and>
       (submitted evs = [] \<or> submitted evs = [unat (tx_trans_crypto (tx_st s))]))"
proof -
  let ?c = "tx_trans_crypto (tx_st s)"
  obtain t where t: "u = tx_set_trans_crypto (tx_trans_crypto (tx_st t) + 1) t" and
    "t = s \<or> (\<exists>e. wmap s ?c = Some e \<and> submit_pdu ?c False s = Inr t)"
    using assms(3) by (auto simp: submit_or_skip_def seq_run_Inr txw_at_Inr split: if_splits)
  then consider "t = s" | e where "wmap s ?c = Some e" "submit_pdu ?c False s = Inr t" by blast
  then have r: "tx_kept s t \<and> tx_st t = tx_st s \<and> (\<exists>evs. tx_outbox t = tx_outbox s @ evs \<and>
       (submitted evs = [] \<or> submitted evs = [unat ?c]))"
  proof cases
    case 1
    have "submitted [] = []" by simp
    then show ?thesis using 1 tx_kept_refl [OF assms(1)] by auto
  next
    case 2
    have "submitted [On_new_data_pdu ?c (twe_pdu e) False] = [unat ?c]" by simp
    then show ?thesis using submit_pdu_spec [OF assms(1) 2(1), of False] 2(2) by (auto simp: tx_kept_def)
  qed
  have "?c + 1 \<le> txnext t" using assms(2) r by (auto intro: word_le_add_one)
  then have "tx_inv u" using r t set_trans_crypto_inv [of t "?c + 1"] by (simp add: tx_kept_def)
  then show ?thesis using r t by (auto simp: tx_kept_def)
qed

lemma submit_until_reord_effect:
  assumes "tx_inv s" and "tx_trans_crypto (tx_st s) \<le> tx_reord_crypto (tx_st s)" and "submit_until_reord s = Inr u"
  shows "tx_kept s u \<and> tx_trans_crypto (tx_st u) = tx_reord_crypto (tx_st s) \<and>
    (\<exists>evs. tx_outbox u = tx_outbox s @ evs \<and> sorted_wrt (<) (submitted evs) \<and>
        (\<forall>n \<in> set (submitted evs). unat (tx_trans_crypto (tx_st s)) \<le> n \<and> n < unat (tx_trans_crypto (tx_st u))))"
  using assms
proof (induction s rule: submit_until_reord.induct)
  case (1 s)
  let ?c = "tx_trans_crypto (tx_st s)"
  show ?case
  proof (cases "?c = tx_reord_crypto (tx_st s)")
    case True
    then have "u = s" using 1(4) by (subst (asm) submit_until_reord.simps) simp
    then show ?thesis using True tx_kept_refl [OF 1(2)] by (auto intro: exI [of _ "[]"])
  next
    case False
    then obtain t where t: "submit_or_skip s = Inr t" "submit_until_reord t = Inr u"
      using 1(4) by (subst (asm) submit_until_reord.simps) (auto split: sum.splits)
    have lt: "?c < tx_reord_crypto (tx_st s)" using False 1(3) by simp
    then have ltn: "?c < txnext s" using tx_inv_parts(8) [OF 1(2)] by simp
    obtain e1 where e1: "tx_outbox t = tx_outbox s @ e1" "submitted e1 = [] \<or> submitted e1 = [unat ?c]"
      and k: "tx_kept s t" "tx_trans_crypto (tx_st t) = ?c + 1"
      using submit_or_skip_effect [OF 1(2) ltn t(1)] by blast
    have le: "tx_trans_crypto (tx_st t) \<le> tx_reord_crypto (tx_st t)"
      using k lt by (simp add: tx_kept_def word_le_add_one)
    have it: "tx_inv t" using k(1) by (simp add: tx_kept_def)
    note IH = 1(1) [OF False t(1) it le t(2)]
    obtain e2 where e2: "tx_outbox u = tx_outbox t @ e2" "sorted_wrt (<) (submitted e2)"
      "\<forall>n \<in> set (submitted e2). unat (tx_trans_crypto (tx_st t)) \<le> n \<and> n < unat (tx_trans_crypto (tx_st u))"
      using IH by blast
    have c1: "unat (tx_trans_crypto (tx_st t)) = unat ?c + 1" using k(2) unat_succ [OF ltn] by simp
    have ru: "tx_trans_crypto (tx_st u) = tx_reord_crypto (tx_st s)" using IH k(1) by (simp add: tx_kept_def)
    have "sorted_wrt (<) (submitted (e1 @ e2)) \<and>
      (\<forall>n \<in> set (submitted (e1 @ e2)). unat ?c \<le> n \<and> n < unat (tx_trans_crypto (tx_st u)))"
      using e1(2) e2(2,3) c1 lt unfolding ru by (fastforce simp: word_less_nat_alt)
    then show ?thesis using IH k(1) ru e1(1) e2(1) tx_kept_trans by (auto intro!: exI [of _ "e1 @ e2"])
  qed
qed

lemma crypto_timeout_effect:
  assumes "tx_inv s" and "tx_timer_ok s" and "tx_crypto_timer_running s"
    and "crypto_reordering_timeout (tx_stop_crypto_timer s) = Inr u"
  shows "tx_effect s u"
proof -
  let ?s = "tx_stop_crypto_timer s"
  have s: "tx_inv ?s" "tx_st ?s = tx_st s" "tx_cfg ?s = tx_cfg s" "tx_outbox ?s = tx_outbox s" "\<not> tx_crypto_timer_running ?s"
    using assms(1) by (simp_all add: tx_stop_crypto_timer_def tx_inv_def)
  have e0: "tx_effect s ?s" using s by (auto simp: tx_effect_def tx_timer_ok_def intro: exI [of _ "[]"])
  have le: "tx_trans_crypto (tx_st ?s) \<le> tx_reord_crypto (tx_st ?s)" using assms(2,3) s by (simp add: tx_timer_ok_def)
  show ?thesis
  proof (cases "tx_stopped ?s")
    case True
    then show ?thesis using assms(4) e0 by (simp add: crypto_reordering_timeout_def)
  next
    case False
    then obtain t v where t: "submit_until_reord ?s = Inr t"
      and v: "submit_in_order False (tx_trans_crypto (tx_st t)) t = Inr v"
      and u: "u = (if tx_trans_crypto (tx_st v) < txnext v then tx_run_crypto_timer (tx_reord_to_next v) else v)"
      using assms(4) by (auto simp: crypto_reordering_timeout_def seq_run_Inr)
    note e1 = submit_until_reord_effect [OF s(1) le t]
    have "tx_inv t" "tx_timer_ok t" using e1 s(5) by (auto simp: tx_kept_def tx_timer_ok_def)
    note e2 = submit_in_order_effect [OF this(1) disjI1 [OF this(2)] v]
    have ok: "tx_timer_ok t" "tx_timer_ok v" using e1 e2 s(5) by (auto simp: tx_kept_def tx_timer_ok_def)
    have f1: "tx_effect ?s t" using e1 ok le unfolding tx_effect_def by (auto simp: tx_kept_def s(2))
    have f2: "tx_effect t v" using e2 ok unfolding tx_effect_def by auto
    have "tx_effect v u" using e2 ok(2) unfolding u
      by (auto simp: tx_effect_def tx_timer_ok_def tx_run_crypto_timer_def tx_reord_to_next_def tx_inv_def tx_wf_def
          intro: exI [of _ "[]"])
    then show ?thesis using e0 f1 f2 tx_effect_trans by blast
  qed
qed

section \<open>SDUs from the upper layers\<close>

text \<open>Changes outside the core that submit nothing.\<close>

definition side :: "'r pdcp_tx \<Rightarrow> 'r pdcp_tx \<Rightarrow> bool" where
  "side s u \<longleftrightarrow> tx_core u = tx_core s \<and> tx_crypto_timer_running u = tx_crypto_timer_running s \<and>
     tx_rohc u = tx_rohc s \<and> tx_crypto_tasks u = tx_crypto_tasks s \<and>
     (\<exists>evs. tx_outbox u = tx_outbox s @ evs \<and> submitted evs = [])"

lemma side_refl [simp]: "side s s"
  by (simp add: side_def)

lemma side_trans: "side s t \<Longrightarrow> side t u \<Longrightarrow> side s u"
  by (auto simp: side_def)

lemma side_effect:
  assumes "side s u" and "tx_inv s" and "tx_timer_ok s"
  shows "tx_effect s u"
proof -
  obtain evs where e: "tx_outbox u = tx_outbox s @ evs" "submitted evs = []" using assms(1) by (auto simp: side_def)
  have c: "tx_core u = tx_core s" using assms(1) by (simp add: side_def)
  show ?thesis
    using tx_inv_core [OF c] assms c e by (intro tx_effect_plain [where evs = evs]) (auto simp: side_def tx_core_def)
qed

lemma side_steps:
  "side s (tx_count f s)" "side s (tx_lost s)" "side s (tx_request_resume s)"
  "submitted [e] = [] \<Longrightarrow> side s (tx_emit e s)" "side s (s\<lparr>tx_warn_on_drop_count := n\<rparr>)"
  "side s (s\<lparr>tx_sdu_buffer := b\<rparr>)"
  by (simp_all add: side_def tx_core_def tx_count_def tx_lost_def tx_request_resume_def tx_emit_def)

lemma admit_sdu_side: "admit_sdu buf s = (ok, u) \<Longrightarrow> side s u"
  by (auto simp: admit_sdu_def split: if_splits intro: side_trans [OF side_steps(5) side_steps(2)] side_steps(5))

lemma tx_check_max_count_side: "tx_check_max_count s = (ok, u) \<Longrightarrow> side s u"
  by (auto simp: tx_check_max_count_def side_def tx_core_def tx_emit_def tx_lost_def tx_count_def split: if_splits)

lemma tx_check_max_count_below:
  "tx_check_max_count s = (True, u) \<Longrightarrow> txnext s < mc_hard (txc_max_count (tx_cfg s))"
  by (auto simp: tx_check_max_count_def not_le split: if_splits)

lemma start_discard_timer_side:
  "tx_start_discard_timer s = (t, u) \<Longrightarrow> side s u \<and> (t \<noteq> None \<longleftrightarrow> finite_discard (tx_cfg s))"
  by (auto simp: tx_start_discard_timer_def side_def tx_core_def tx_run_discard_def finite_discard_def
      split: option.splits pdcp_discard_timer.splits if_splits)

text \<open>
  An SDU that passes the checks gets the COUNT TX\_NEXT: it is stored, TX\_NEXT is incremented and
  a task with the header for this COUNT is passed on. \<open>window_room\<close> is what the early-drop check
  ensures for DRBs.
\<close>

definition window_room :: "'r pdcp_tx \<Rightarrow> bool" where
  "window_room s \<longleftrightarrow> unat (txnext s) < unat (ack s) + window_nat (txc_sn_size (tx_cfg s))"

definition sdu_sent :: "bytes \<Rightarrow> 'r pdcp_tx \<Rightarrow> 'r pdcp_tx \<Rightarrow> bool" where
  "sdu_sent buf s u \<longleftrightarrow> tx_inv u \<and> tx_st u = (tx_st s)\<lparr>tx_next := txnext s + 1\<rparr> \<and> tx_cfg u = tx_cfg s \<and>
     (\<exists>e. wmap u = (wmap s)(txnext s \<mapsto> e) \<and> twe_pdu e = [] \<and> tsi_count (twe_sdu_info e) = txnext s \<and>
        twe_sdu_length e = of_nat (length buf) \<and>
        tsi_sdu (twe_sdu_info e) = (if txc_discard_timer (tx_cfg s) \<noteq> None \<and> tx_is_am s then buf else [])) \<and>
     (\<exists>q. tx_crypto_tasks u = tx_crypto_tasks s @ q \<and>
        set q \<subseteq> {\<lparr>tbi_is_retx = False, tbi_retx_id = tx_retransmit_id s, tbi_count = txnext s,
          tbi_buf = sn_bytes (txc_sn_size (tx_cfg s)) (tx_is_srb s) (tx_sn s (txnext s)) @ buf\<rparr>}) \<and>
     tx_crypto_timer_running u = tx_crypto_timer_running s \<and> tx_retransmit_id u = tx_retransmit_id s \<and>
     tx_outbox u = tx_outbox s"

lemma sdu_sent_effect: "sdu_sent buf s u \<Longrightarrow> tx_timer_ok s \<Longrightarrow> tx_effect s u"
  by (rule tx_effect_plain [where evs = "[]"]) (auto simp: sdu_sent_def)

lemma tx_return_token_same:
  "tx_return_token s = Inr u \<Longrightarrow> tx_core u = tx_core s \<and> tx_crypto_tasks u = tx_crypto_tasks s \<and>
    tx_crypto_timer_running u = tx_crypto_timer_running s \<and> tx_outbox u = tx_outbox s \<and> tx_rohc u = tx_rohc s"
  by (auto simp: tx_return_token_def seq_run_Inr tx_core_def)

lemma post_crypto_task_same:
  "post_crypto_task b i s = Inr u \<Longrightarrow> tx_core u = tx_core s \<and>
    tx_crypto_tasks u = tx_crypto_tasks s @ (if b then [i] else []) \<and>
    tx_crypto_timer_running u = tx_crypto_timer_running s \<and> tx_outbox u = tx_outbox s \<and> tx_rohc u = tx_rohc s"
  by (cases b) (auto simp: post_crypto_task_def tx_core_def tx_lost_def tx_count_def dest!: tx_return_token_same)

lemma send_sdu_same:
  assumes "tx_rohc s = None" and "tx_room ch" and "tx_cfg_ok (tx_cfg s)" and "send_sdu env ch buf s = Inr u"
  shows "tx_core u = tx_core (tx_advance_next s) \<and>
    tx_crypto_tasks u = tx_crypto_tasks s @ (if tx_crypto_ok ch then
      [\<lparr>tbi_is_retx = False, tbi_retx_id = tx_retransmit_id s, tbi_count = txnext s,
        tbi_buf = sn_bytes (txc_sn_size (tx_cfg s)) (tx_is_srb s) (tx_sn s (txnext s)) @ buf\<rparr>] else []) \<and>
    tx_crypto_timer_running u = tx_crypto_timer_running s \<and> tx_outbox u = tx_outbox s"
proof -
  have z: "sn_size_ok (txc_sn_size (tx_cfg s))" "\<not> (tx_is_srb s \<and> txc_sn_size (tx_cfg s) = Size18bits)"
    using assms(3) by (auto simp: tx_cfg_ok_def tx_is_srb_def)
  show ?thesis
    using assms(4) prepend_data_pdu_header_bytes [OF z] assms(1,2)
    by (auto simp: send_sdu_def apply_header_compression_def tx_advance_next_def tx_take_token_def tx_core_def
        dest!: post_crypto_task_same)
qed

lemma transmit_sdu_sent:
  assumes "tx_inv s" and "tx_rohc s = None" and "tx_room ch" and "window_room s"
    and "txnext s < mc_hard (txc_max_count (tx_cfg s))" and "transmit_sdu env ch buf s = Inr u"
  shows "side s u \<or> sdu_sent buf s u"
proof -
  obtain tick t where t: "tx_start_discard_timer s = (tick, t)" by (metis prod.exhaust)
  have st: "side s t" and tk: "tick \<noteq> None \<longleftrightarrow> finite_discard (tx_cfg s)"
    using start_discard_timer_side [OF t] by auto
  have core: "tx_st t = tx_st s" "tx_window t = tx_window s" "tx_cfg t = tx_cfg s" "tx_retransmit_id t = tx_retransmit_id s"
    "tx_rohc t = None" "tx_crypto_tasks t = tx_crypto_tasks s" "tx_crypto_timer_running t = tx_crypto_timer_running s"
    using st assms(2) by (auto simp: side_def tx_core_def)
  have ob: "tx_outbox t = tx_outbox s"
    using t by (auto simp: tx_start_discard_timer_def tx_run_discard_def
        split: option.splits pdcp_discard_timer.splits if_splits)
  have same: "tx_is_am t = tx_is_am s" "tx_is_srb t = tx_is_srb s" "tx_sn t = tx_sn s"
    using core(3) by (simp_all add: tx_is_am_def tx_is_srb_def tx_sn_def fun_eq_iff)
  let ?keep = "txc_discard_timer (tx_cfg s) \<noteq> None \<and> tx_is_am s"
  show ?thesis
  proof (cases "?keep \<and> \<not> tx_copy_ok ch")
    case True
    then have "u = tx_emit Tx_on_protocol_failure (tx_lost t)"
      using assms(6) t core(3) same by (simp add: transmit_sdu_def)
    then have "side s u" using st side_steps(2,4) side_trans
      by (metis submitted.simps(1) submitted.simps(5))
    then show ?thesis by simp
  next
    case False
    note P = tx_inv_parts [OF assms(1)]
    let ?i = "\<lparr>tsi_sdu = (if ?keep then buf else []), tsi_count = txnext s, tsi_tick = tick\<rparr>"
    have fresh: "wmap s (txnext s) = None" using P(5) [of "txnext s"] by (cases "wmap s (txnext s)") auto
    have lo: "unat (ack s) \<le> unat (txnext s)" using P(2) by (simp add: word_le_nat_alt)
    have wd: "txw_width (tx_window s) = window_nat (txc_sn_size (tx_cfg s))"
      using assms(1) by (simp add: tx_inv_def tx_wf_def)
    obtain w where w: "add_sdu ?i (of_nat (length buf)) (tx_window s) = Inr w" "txw_ok (unat (ack s)) w"
      "txw_same (tx_window s) w"
      "txw_map w = (wmap s)(txnext s \<mapsto> \<lparr>twe_sdu_info = ?i, twe_pdu = [], twe_sdu_length = of_nat (length buf)\<rparr>)"
      using add_sdu_spec [OF P(1), of ?i] fresh lo assms(4) wd by (auto simp: window_room_def)
    have run: "send_sdu env ch buf (t\<lparr>tx_window := w\<rparr>) = Inr u"
      using assms(6) t w(1) False core same by (auto simp: transmit_sdu_def)
    have u: "tx_core u = tx_core (tx_advance_next (t\<lparr>tx_window := w\<rparr>))" "tx_outbox u = tx_outbox s"
      "tx_crypto_timer_running u = tx_crypto_timer_running s"
      "tx_crypto_tasks u = tx_crypto_tasks s @ (if tx_crypto_ok ch then
         [\<lparr>tbi_is_retx = False, tbi_retx_id = tx_retransmit_id s, tbi_count = txnext s,
           tbi_buf = sn_bytes (txc_sn_size (tx_cfg s)) (tx_is_srb s) (tx_sn s (txnext s)) @ buf\<rparr>] else [])"
      using send_sdu_same [OF _ assms(3) _ run] P(9) core ob
      by (auto simp: tx_sn_def tx_is_srb_def)
    have st': "tx_st u = (tx_st s)\<lparr>tx_next := txnext s + 1\<rparr>" "tx_window u = w" "tx_cfg u = tx_cfg s"
      "tx_retransmit_id u = tx_retransmit_id s"
      using u(1) core by (auto simp: tx_core_def tx_advance_next_def)
    have up: "unat (txnext s + 1) = unat (txnext s) + 1" using unat_succ [OF assms(5)] .
    have "elem_ok (tx_cfg s) (txnext s + 1) k e" if "txw_map w k = Some e" for k e
      using that w(4) P(4) [of k e] tk up by (auto simp: elem_ok_def word_less_nat_alt split: if_splits)
    then have "tx_inv u"
      using assms(1) w(2,3) st' up
      by (auto simp: tx_inv_def tx_wf_def txw_same_def word_le_nat_alt)
    then have "sdu_sent buf s u" using st' u w(4) by (auto simp: sdu_sent_def)
    then show ?thesis by simp
  qed
qed

lemma early_drop_room:
  assumes "tx_inv s" and "check_early_drop s buf = No_drop"
  shows "window_room s" and "tx_desired_buffer_size s \<noteq> 0"
    and "get_pdu_bytes (tx_integrity_enabled s) (tx_window s) + get_pdu_size s buf \<le> tx_desired_buffer_size s"
    and "unat (txnext s) - unat (ack s) + 1 < window_nat (txc_sn_size (tx_cfg s))"
proof -
  have d: "tx_desired_buffer_size s \<noteq> 0"
    "\<not> tx_desired_buffer_size s < get_pdu_bytes (tx_integrity_enabled s) (tx_window s) + get_pdu_size s buf"
    "\<not> pdcp_window_size (txc_sn_size (tx_cfg s)) - 1 \<le> txnext s - ack s"
    using assms(2) by (auto simp: check_early_drop_def split: if_splits)
  show "tx_desired_buffer_size s \<noteq> 0" by (rule d(1))
  show "get_pdu_bytes (tx_integrity_enabled s) (tx_window s) + get_pdu_size s buf \<le> tx_desired_buffer_size s"
    using d(2) by simp
  have "ack s \<le> txnext s" by (rule tx_inv_parts(2) [OF assms(1)])
  then have "unat (txnext s - ack s) = unat (txnext s) - unat (ack s)" by (rule unat_sub)
  moreover have "unat (pdcp_window_size (txc_sn_size (tx_cfg s)) - 1) = window_nat (txc_sn_size (tx_cfg s)) - 1"
    by (cases "txc_sn_size (tx_cfg s)") (simp_all add: pdcp_window_size_def window_nat_def)
  ultimately have "unat (txnext s) - unat (ack s) < window_nat (txc_sn_size (tx_cfg s)) - 1"
    using d(3) by (simp add: word_le_nat_alt not_le)
  then show "unat (txnext s) - unat (ack s) + 1 < window_nat (txc_sn_size (tx_cfg s))" "window_room s"
    by (auto simp: window_room_def)
qed

lemma core_preds:
  assumes "tx_core t = tx_core s"
  shows "tx_st t = tx_st s" "tx_window t = tx_window s" "tx_cfg t = tx_cfg s" "tx_stopped t = tx_stopped s"
    "tx_retransmit_id t = tx_retransmit_id s" "tx_is_srb t = tx_is_srb s" "tx_is_am t = tx_is_am s"
    "window_room t = window_room s" "tx_sn t = tx_sn s"
  using assms by (auto simp: tx_core_def tx_is_srb_def tx_is_am_def window_room_def tx_sn_def fun_eq_iff)

lemma handle_sdu_cases:
  assumes "tx_inv s" and "tx_rohc s = None" and "tx_room ch" and "tx_is_srb s \<longrightarrow> window_room s"
    and "handle_sdu env ch buf s = Inr u"
  shows "side s u \<or> (\<exists>t. side s t \<and> sdu_sent buf t u \<and> txnext s < mc_hard (txc_max_count (tx_cfg s)) \<and>
    \<not> tx_stopped s \<and> \<not> tx_buffering s)"
proof -
  let ?s = "tx_request_resume (tx_count (txm_add_sdus 1 (length buf)) s)"
  have s0: "side s ?s" using side_steps(1,3) side_trans by blast
  show ?thesis
  proof (cases "tx_stopped s \<or> tx_buffering s")
    case True
    then show ?thesis
      using assms(5) s0 side_steps(1,2,6) side_trans
      by (auto simp: handle_sdu_def Let_def tx_count_def tx_request_resume_def tx_emit_def
          split: if_splits prod.splits) (auto simp: side_def tx_core_def tx_lost_def tx_count_def)
  next
    case False
    obtain ok t where t: "admit_sdu buf ?s = (ok, t)" by (metis prod.exhaust)
    obtain ok' v where v: "tx_check_max_count t = (ok', v)" by (metis prod.exhaust)
    have st: "side s t" using side_trans [OF s0 admit_sdu_side [OF t]] .
    have sv: "side s v" using side_trans [OF st tx_check_max_count_side [OF v]] .
    have nb: "\<not> tx_stopped (tx_count (txm_add_sdus 1 (length buf)) s)" "\<not> tx_buffering ?s"
      using False by (auto simp: tx_count_def tx_request_resume_def tx_emit_def)
    have run: "(if \<not> ok then Inr t else if \<not> ok' then Inr v else transmit_sdu env ch buf v) = Inr u"
      using assms(5) nb t v by (simp add: handle_sdu_def Let_def split: if_splits)
    show ?thesis
    proof (cases "ok \<and> ok'")
      case False
      then show ?thesis using run st sv by (auto split: if_splits)
    next
      case True
      have cs: "tx_core ?s = tx_core s" and cv: "tx_core v = tx_core s" and ct: "tx_core t = tx_core s"
        using s0 sv st by (auto simp: side_def)
      have "window_room ?s"
      proof (cases "tx_is_srb ?s")
        case True
        then show ?thesis using assms(4) core_preds [OF cs] by simp
      next
        case False
        then have "check_early_drop ?s buf = No_drop" using t True by (auto simp: admit_sdu_def split: if_splits)
        then show ?thesis using early_drop_room(1) tx_inv_core [OF cs] assms(1) by blast
      qed
      then have room: "window_room v" using core_preds [OF cs] core_preds [OF cv] by simp
      have lim: "txnext t < mc_hard (txc_max_count (tx_cfg t))" using tx_check_max_count_below [of t v] v True by simp
      then have lim': "txnext v < mc_hard (txc_max_count (tx_cfg v))" "txnext s < mc_hard (txc_max_count (tx_cfg s))"
        using core_preds [OF cv] core_preds [OF ct] by auto
      have "tx_rohc v = None" using sv assms(2) by (simp add: side_def)
      then have "side v u \<or> sdu_sent buf v u"
        using transmit_sdu_sent [OF _ _ assms(3) room lim'(1)] tx_inv_core [OF cv] assms(1) run True by auto
      then show ?thesis using sv side_trans lim'(2) False by blast
    qed
  qed
qed

lemma handle_sdu_effect:
  assumes "tx_inv s" and "tx_timer_ok s" and "tx_rohc s = None" and "tx_room ch" and "tx_is_srb s \<longrightarrow> window_room s"
    and "handle_sdu env ch buf s = Inr u"
  shows "tx_effect s u"
  using handle_sdu_cases [OF assms(1,3-6)]
proof (elim disjE exE conjE)
  assume "side s u"
  then show ?thesis using side_effect assms(1,2) by blast
next
  fix t
  assume t: "side s t" "sdu_sent buf t u"
  have e: "tx_effect s t" using side_effect t(1) assms(1,2) by blast
  then have "tx_timer_ok t" by (simp add: tx_effect_def)
  then show ?thesis using sdu_sent_effect [OF t(2)] tx_effect_trans [OF e] by blast
qed

section \<open>The step relation\<close>

text \<open>
  What may happen to the entity while nothing rewinds it. Header room and memory for headers are
  assumed (\<open>tx_room\<close>) and there is no header compression; an SRB, which has no early-drop check,
  must not fill its window. Timers fire only while they run, and are stopped when they do.
\<close>

inductive tx_step :: "'r pdcp_tx_env \<Rightarrow> 'r pdcp_tx \<Rightarrow> 'r pdcp_tx \<Rightarrow> bool" for env where
  Txs_sdu: "handle_sdu env ch buf s = Inr u \<Longrightarrow> tx_room ch \<Longrightarrow> tx_rohc s = None \<Longrightarrow>
      (tx_is_srb s \<longrightarrow> window_room s) \<Longrightarrow> tx_step env s u"
| Txs_crypto: "tx_run_crypto_task env worker_idx room ue_ok i s = Inr u \<Longrightarrow> tx_step env s u"
| Txs_ue: "tx_run_ue_task s = Inr u \<Longrightarrow> tx_step env s u"
| Txs_transmit: "handle_transmit_notification sn s = Inr u \<Longrightarrow> tx_step env s u"
| Txs_deliver: "handle_delivery_notification sn s = Inr u \<Longrightarrow> tx_step env s u"
| Txs_retransmit: "handle_retransmit_notification sn s = Inr u \<Longrightarrow> tx_step env s u"
| Txs_deliver_retx: "handle_delivery_retransmitted_notification sn s = Inr u \<Longrightarrow> tx_step env s u"
| Txs_buffer_size: "tx_step env s (handle_desired_buffer_size_notification bs s)"
| Txs_status: "handle_status_report alloc_ok buf s = Inr u \<Longrightarrow> tx_step env s u"
| Txs_discard: "tx_discard_timer s \<noteq> None \<Longrightarrow> discard_callback (tx_stop_discard s) = Inr u \<Longrightarrow> tx_step env s u"
| Txs_crypto_timer: "tx_crypto_timer_running s \<Longrightarrow>
      crypto_reordering_timeout (tx_stop_crypto_timer s) = Inr u \<Longrightarrow> tx_step env s u"
| Txs_tick: "tx_step env s (s\<lparr>tx_now := tx_now s + 1\<rparr>)"
| Txs_begin: "tx_step env s (tx_begin_buffering s)"
| Txs_resume: "tx_step env s (snd (tx_resume s))"
| Txs_report: "tx_step env s (send_status_report report s)"
| Txs_feedback: "tx_step env s (forward_rohc_feedback room fb s)"
| Txs_pause: "tx_notify_pdu_processing_stopped s = Inr u \<Longrightarrow> tx_step env s u"
| Txs_restart: "tx_step env s (tx_restart_pdu_processing s)"
| Txs_security: "tx_configure_security env sec_cfg ie ce s = Inr u \<Longrightarrow> tx_step env s u"
| Txs_stop: "tx_stop s = Inr u \<Longrightarrow> tx_step env s u"

lemma plain_effect:
  assumes "tx_inv s" and "tx_timer_ok s" and "tx_core u = tx_core s"
    and "tx_crypto_timer_running u = tx_crypto_timer_running s" and "tx_outbox u = tx_outbox s @ evs" "submitted evs = []"
  shows "tx_effect s u"
  using tx_inv_core [OF assms(3)] assms by (intro tx_effect_plain [where evs = evs]) (auto simp: tx_core_def)

lemma post_ue_task_same:
  "tx_post_ue_task b t v = Inr u \<Longrightarrow> tx_core u = tx_core v \<and>
    tx_crypto_timer_running u = tx_crypto_timer_running v \<and> tx_outbox u = tx_outbox v"
  by (auto simp: tx_post_ue_task_def tx_core_def split: if_splits dest!: tx_return_token_same)

lemma run_crypto_task_same:
  assumes "tx_run_crypto_task env k room ue i s = Inr u"
  shows "tx_core u = tx_core s \<and> tx_crypto_timer_running u = tx_crypto_timer_running s \<and> tx_outbox u = tx_outbox s"
proof (cases "i < length (tx_crypto_tasks s)")
  case True
  let ?s = "s\<lparr>tx_crypto_tasks := take i (tx_crypto_tasks s) @ drop (Suc i) (tx_crypto_tasks s)\<rparr>"
  have "\<exists>b t. tx_post_ue_task b t ?s = Inr u"
    using assms True by (auto simp: tx_run_crypto_task_def tx_apply_security_def seq_run_Inr split: if_splits)
  then show ?thesis using post_ue_task_same by (fastforce simp: tx_core_def)
qed (use assms in \<open>simp add: tx_run_crypto_task_def\<close>)

lemma run_ue_task_effect:
  assumes "tx_inv s" and "tx_timer_ok s" and "tx_run_ue_task s = Inr u"
  shows "tx_effect s u"
proof (cases "tx_ue_tasks s")
  case Nil
  then show ?thesis using assms tx_effect_refl by (auto simp: tx_run_ue_task_def)
next
  case (Cons t ts)
  let ?s = "s\<lparr>tx_ue_tasks := ts\<rparr>"
  have s: "tx_inv ?s" "tx_timer_ok ?s" "tx_effect s ?s"
    using assms(1,2) plain_effect [of s ?s "[]"] by (auto simp: tx_inv_def tx_timer_ok_def tx_core_def)
  obtain v where v: "tx_run_task t ?s = Inr v" "tx_return_token v = Inr u"
    using assms(3) Cons by (auto simp: tx_run_ue_task_def seq_run_Inr)
  have e: "tx_effect ?s v"
  proof (cases t)
    case (Tx_handle_failure st c)
    have v: "v = tx_emit Tx_on_protocol_failure ?s"
      using v(1) Tx_handle_failure by (auto simp: tx_run_task_def tx_handle_failure_def split: security_status.splits)
    show ?thesis unfolding v
      by (rule plain_effect [OF s(1,2), where evs = "[Tx_on_protocol_failure]"]) (simp_all add: tx_emit_def tx_core_def)
  next
    case (Tx_reorder i)
    then show ?thesis using v(1) s apply_reordering_effect by (auto simp: tx_run_task_def)
  qed
  then have "tx_inv v" "tx_timer_ok v" by (auto simp: tx_effect_def)
  then have "tx_effect v u" using tx_return_token_same [OF v(2)] plain_effect [of v u "[]"] by auto
  then show ?thesis using s(3) e tx_effect_trans by blast
qed

lemma stop_effect:
  assumes "tx_inv s" and "tx_timer_ok s" and "tx_stop s = Inr u"
  shows "tx_effect s u"
proof (cases "tx_stopped s")
  case True
  then show ?thesis using assms tx_effect_refl by (auto simp: tx_stop_def)
next
  case False
  note C = txw_clear_spec(1) [OF tx_inv_parts(1) [OF assms(1)], of "unat (ack s)"]
    txw_clear_spec(2,3) [OF tx_inv_parts(1) [OF assms(1)]]
  have u: "tx_st u = tx_st s" "tx_cfg u = tx_cfg s" "tx_window u = txw_clear (tx_window s)" "tx_outbox u = tx_outbox s"
    "\<not> tx_crypto_timer_running u"
    using assms(3) False by (auto simp: tx_stop_def Let_def seq_run_Inr tx_stop_crypto_timer_def tx_stop_discard_def split: if_splits)
  then have "tx_inv u"
    using C tx_inv_parts [OF assms(1)] by (intro tx_inv_shrink [OF assms(1)]) auto
  then show ?thesis using u by (auto simp: tx_effect_def tx_timer_ok_def intro: exI [of _ "[]"])
qed

lemma configure_security_same:
  "tx_configure_security env c ie ce s = Inr u \<Longrightarrow> tx_core u = tx_core s \<and>
    tx_crypto_timer_running u = tx_crypto_timer_running s \<and> tx_outbox u = tx_outbox s"
  by (auto simp: tx_configure_security_def seq_run_Inr tx_core_def split: if_splits)

theorem tx_step_effect:
  assumes "tx_step env s u" and "tx_inv s" and "tx_timer_ok s"
  shows "tx_effect s u"
  using assms
proof (induction rule: tx_step.induct)
  case (Txs_crypto k room ue i s u)
  then show ?case using run_crypto_task_same plain_effect [of s u "[]"] by fastforce
next
  case (Txs_status a buf s u)
  then show ?case using status_report_move ack_move_effect by blast
next
  case (Txs_discard s u)
  have "tx_effect s (tx_stop_discard s)" using run_discard_move(2) Txs_discard ack_move_effect by blast
  moreover then have "tx_inv (tx_stop_discard s)" "tx_timer_ok (tx_stop_discard s)" by (auto simp: tx_effect_def)
  ultimately show ?case using Txs_discard discard_callback_effect tx_effect_trans by blast
next
  case (Txs_report s report)
  have "submitted [On_new_control_pdu report] = []" by simp
  then show ?case using Txs_report tx_effect_refl plain_effect [of s _ "[On_new_control_pdu report]"]
    by (auto simp: send_status_report_def write_control_pdu_to_lower_layers_def tx_emit_def tx_count_def tx_core_def)
next
  case (Txs_feedback s room fb)
  then show ?case
    using plain_effect [of s "tx_emit Tx_on_protocol_failure s" "[Tx_on_protocol_failure]"]
      plain_effect [of s "write_control_pdu_to_lower_layers b s" "[On_new_control_pdu b]" for b]
    by (auto simp: forward_rohc_feedback_def write_control_pdu_to_lower_layers_def tx_emit_def tx_count_def tx_core_def
        split: option.splits)
next
  case (Txs_pause s u)
  then show ?case using plain_effect [of s u "[]"] tx_effect_refl
    by (auto simp: tx_notify_pdu_processing_stopped_def seq_run_Inr tx_core_def split: if_splits)
next
  case (Txs_restart s)
  then show ?case using plain_effect [of s _ "[]"] by (auto simp: tx_restart_pdu_processing_def tx_core_def)
next
  case (Txs_security c ie ce s u)
  then show ?case using configure_security_same plain_effect [of s u "[]"] by fastforce
next
  case (Txs_buffer_size s bs)
  then show ?case using plain_effect [of s _ "[]"] by (auto simp: handle_desired_buffer_size_notification_def tx_core_def)
next
  case (Txs_tick s)
  then show ?case using plain_effect [of s _ "[]"] by (auto simp: tx_core_def)
next
  case (Txs_begin s)
  then show ?case using plain_effect [of s _ "[]"] by (auto simp: tx_core_def tx_begin_buffering_def)
next
  case (Txs_resume s)
  then show ?case using plain_effect [of s _ "[]"] by (auto simp: tx_core_def tx_resume_def)
qed (blast intro: handle_sdu_effect run_ue_task_effect crypto_timeout_effect stop_effect ack_move_effect notification_moves)+

lemma tx_steps_effect:
  assumes "(tx_step env)\<^sup>*\<^sup>* s u" and "tx_inv s" and "tx_timer_ok s"
  shows "tx_effect s u"
  using assms
proof (induction rule: rtranclp_induct)
  case base
  then show ?case by (rule tx_effect_refl)
next
  case (step t u)
  then have e: "tx_effect s t" by blast
  then have "tx_effect t u" using tx_step_effect step(2) by (auto simp: tx_effect_def)
  then show ?case using tx_effect_trans [OF e] by blast
qed

end
