(* ===== verification/Pdcp_Tx_Props.thy ===== *)
theory Pdcp_Tx_Props
  imports Pdcp_Tx_Steps
begin

text \<open>
  What single operations of the transmitting entity achieve: construction, retransmission, the
  expiry of the discard timer, the crypto reordering of PDUs, and the states in which an operation
  reads an element of the window that is not there.
\<close>

section \<open>Construction, reset and suspension\<close>

lemma pdcp_entity_tx_inv:
  assumes "sn_size_ok (txc_sn_size cfg)" and "pdcp_entity_tx env cfg b m = Inr s"
  shows "tx_inv s" and "tx_timer_ok s" and "tx_cfg s = cfg" and "tx_st s = tx_zero_st" and "tx_outbox s = []"
    and "wmap s = Map.empty"
proof -
  obtain w where w: "txw_create (txc_rb_type cfg) (txc_rlc_mode cfg) (txc_sn_size cfg) = Inr w" "txw_ok 0 w"
    "txw_map w = Map.empty" "txw_width w = window_nat (txc_sn_size cfg)" "txw_rb_type w = txc_rb_type cfg"
    "txw_sn_size w = txc_sn_size cfg" using txw_create_spec [OF assms(1)] by blast
  have c: "\<not> (txc_rb_type cfg = Srb \<and> (txc_sn_size cfg \<noteq> Size12bits \<or> txc_rlc_mode cfg = Um \<or> txc_header_compression cfg \<noteq> None))"
    using assms(2) w(1) by (auto simp: pdcp_entity_tx_def split: if_splits)
  then have cfg: "tx_cfg_ok cfg" using assms(1) by (cases "txc_rlc_mode cfg") (auto simp: tx_cfg_ok_def)
  have s: "tx_cfg s = cfg" "tx_st s = tx_zero_st" "tx_window s = w" "\<not> tx_crypto_timer_running s" "tx_outbox s = []"
    using assms(2) w(1) c by (auto simp: pdcp_entity_tx_def init_header_compression_def split: if_splits)
  show "tx_inv s" using s w cfg by (auto simp: tx_inv_def tx_wf_def tx_zero_st_def)
  show "tx_timer_ok s" "tx_cfg s = cfg" "tx_st s = tx_zero_st" "tx_outbox s = []" "wmap s = Map.empty"
    using s w(3) by (auto simp: tx_timer_ok_def)
qed

lemma tx_cleared_inv:
  assumes "tx_inv s" and "tx_cfg u = tx_cfg s" and "tx_st u = tx_zero_st" and "tx_window u = txw_clear (tx_window s)"
  shows "tx_inv u" and "wmap u = Map.empty" and "tx_timer_ok u"
proof -
  note C = txw_clear_spec(1) [OF tx_inv_parts(1) [OF assms(1)], of 0] txw_clear_spec(2,3) [OF tx_inv_parts(1) [OF assms(1)]]
  show "wmap u = Map.empty" using C assms(4) by simp
  show "tx_inv u" using assms C by (auto simp: tx_inv_def tx_wf_def tx_zero_st_def txw_same_def)
  show "tx_timer_ok u" using assms(3) by (simp add: tx_timer_ok_def tx_zero_st_def)
qed

lemma tx_suspend_correct:
  assumes "tx_inv s" and "\<not> tx_suspended s" and "tx_buffering s"
  shows "\<exists>u. tx_suspend s = (True, u) \<and> tx_inv u \<and> tx_timer_ok u \<and> tx_suspended u \<and> wmap u = Map.empty \<and>
    tx_st u = tx_zero_st \<and> tx_outbox u = tx_outbox s \<and> (txc_discard_timer (tx_cfg s) \<noteq> None \<longrightarrow> tx_discard_timer u = None)"
proof -
  obtain u where u: "tx_suspend s = (True, u)" "tx_cfg u = tx_cfg s" "tx_st u = tx_zero_st"
    "tx_window u = txw_clear (tx_window s)" "tx_suspended u" "tx_outbox u = tx_outbox s"
    "txc_discard_timer (tx_cfg s) \<noteq> None \<longrightarrow> tx_discard_timer u = None"
    using assms(2,3) by (simp add: tx_suspend_def Let_def tx_stop_discard_def)
  then show ?thesis using tx_cleared_inv [OF assms(1) u(2-4)] by blast
qed

section \<open>Retransmission\<close>

definition retx_task :: "'r pdcp_tx \<Rightarrow> nat \<Rightarrow> pdcp_tx_buffer_info" where
  "retx_task s n = \<lparr>tbi_is_retx = True, tbi_retx_id = tx_retransmit_id s, tbi_count = of_nat n,
     tbi_buf = sn_bytes (txc_sn_size (tx_cfg s)) (tx_is_srb s) (tx_sn s (of_nat n)) @
       tsi_sdu (twe_sdu_info (the (wmap s (of_nat n))))\<rparr>"

definition all_granted :: "(u32 \<Rightarrow> tx_choice) \<Rightarrow> bool" where
  "all_granted ch \<longleftrightarrow> (\<forall>c. tx_copy_ok (ch c) \<and> tx_room (ch c) \<and> tx_crypto_ok (ch c))"

lemma retransmit_one_task:
  assumes "tx_cfg_ok (tx_cfg s)" and "tx_rohc s = None" and "all_granted ch" and "wmap s c = Some e"
  shows "\<exists>u. retransmit_one env (ch c) c e s = Inr (True, u) \<and> tx_core u = tx_core s \<and> tx_rohc u = None \<and>
    tx_crypto_tasks u = tx_crypto_tasks s @ [retx_task s (unat c)] \<and> tx_outbox u = tx_outbox s \<and>
    tx_crypto_timer_running u = tx_crypto_timer_running s"
proof -
  have z: "sn_size_ok (txc_sn_size (tx_cfg s))" "\<not> (tx_is_srb s \<and> txc_sn_size (tx_cfg s) = Size18bits)"
    using assms(1) by (auto simp: tx_cfg_ok_def tx_is_srb_def)
  show ?thesis
    using assms(2-4) prepend_data_pdu_header_bytes [OF z]
    by (simp add: retransmit_one_def all_granted_def apply_header_compression_def post_crypto_task_def
        tx_take_token_def tx_core_def retx_task_def)
qed

lemma retx_task_core: "tx_core u = tx_core s \<Longrightarrow> retx_task u = retx_task s"
  using core_preds [of u s] by (auto simp: retx_task_def fun_eq_iff)

lemma retransmit_from_tasks:
  assumes "tx_cfg_ok (tx_cfg s)" and "tx_rohc s = None" and "all_granted ch"
  shows "\<exists>u. retransmit_from env ch c s = Inr u \<and> tx_core u = tx_core s \<and> tx_outbox u = tx_outbox s \<and>
    tx_crypto_timer_running u = tx_crypto_timer_running s \<and>
    tx_crypto_tasks u = tx_crypto_tasks s @
      map (retx_task s) (filter (\<lambda>n. wmap s (of_nat n) \<noteq> None) [unat c..<unat (txnext s)])"
  using assms
proof (induction env ch c s rule: retransmit_from.induct)
  case (1 env ch c s)
  show ?case
  proof (cases "c < txnext s")
    case False
    then show ?thesis by (subst retransmit_from.simps) (simp add: word_less_nat_alt not_less)
  next
    case lt: True
    have l: "[unat c..<unat (txnext s)] = unat c # [unat (c + 1)..<unat (txnext s)]"
      using lt unat_succ [OF lt] by (simp add: upt_conv_Cons word_less_nat_alt)
    show ?thesis
    proof (cases "wmap s c")
      case None
      then have "retransmit_from env ch c s = retransmit_from env ch (c + 1) s"
        using lt by (subst retransmit_from.simps) (simp add: txw_has_sn_map)
      then show ?thesis using 1(2) [OF lt] None 1(3-5) l by (auto simp: txw_has_sn_map)
    next
      case (Some e)
      obtain t where t: "retransmit_one env (ch c) c e s = Inr (True, t)" "tx_core t = tx_core s" "tx_rohc t = None"
        "tx_crypto_tasks t = tx_crypto_tasks s @ [retx_task s (unat c)]" "tx_outbox t = tx_outbox s"
        "tx_crypto_timer_running t = tx_crypto_timer_running s"
        using retransmit_one_task [OF 1(3-5) Some] by blast
      have a: "txw_has_sn (tx_window s) c" "txw_at (tx_window s) c = Inr e"
        using Some by (simp_all add: txw_has_sn_map txw_at_map)
      have step: "retransmit_from env ch c s = retransmit_from env ch (c + 1) t"
        using lt a t(1) by (subst retransmit_from.simps) simp
      note cp = core_preds [OF t(2)]
      obtain u where "retransmit_from env ch (c + 1) t = Inr u" "tx_core u = tx_core t" "tx_outbox u = tx_outbox t"
        "tx_crypto_timer_running u = tx_crypto_timer_running t"
        "tx_crypto_tasks u = tx_crypto_tasks t @
          map (retx_task t) (filter (\<lambda>n. wmap t (of_nat n) \<noteq> None) [unat (c + 1)..<unat (txnext t)])"
        using 1(1) [OF lt a t(1)] 1(3,5) t(3) cp(3) by auto
      then show ?thesis using step t(2,4-6) l Some cp retx_task_core [OF t(2)] by simp
    qed
  qed
qed

text \<open>
  For an AM bearer all SDUs that are still in the window are passed on again, in ascending order,
  each with the header for its own COUNT; submission starts over at TX\_NEXT\_ACK, and PDUs that were
  secured before are dropped when they come back.
\<close>

lemma retransmit_all_pdus_correct:
  assumes "tx_inv s" and "tx_is_am s" and "txc_discard_timer (tx_cfg s) \<noteq> None" and "tx_rohc s = None" and "all_granted ch"
  shows "\<exists>u. retransmit_all_pdus env ch s = Inr u \<and> tx_inv u \<and> wmap u = wmap s \<and>
    tx_st u = (tx_st s)\<lparr>tx_trans := ack s, tx_trans_crypto := ack s\<rparr> \<and>
    tx_retransmit_id u = tx_retransmit_id s + 1 \<and> tx_outbox u = tx_outbox s \<and>
    tx_crypto_timer_running u = tx_crypto_timer_running s \<and>
    tx_crypto_tasks u = tx_crypto_tasks s @
      map (retx_task u) (filter (\<lambda>n. wmap s (of_nat n) \<noteq> None) [unat (ack s)..<unat (txnext s)])"
proof -
  let ?t = "rewind_to_ack s"
  have t: "tx_st ?t = (tx_st s)\<lparr>tx_trans := ack s, tx_trans_crypto := ack s\<rparr>" "tx_window ?t = tx_window s"
    "tx_cfg ?t = tx_cfg s" "tx_rohc ?t = None" "tx_retransmit_id ?t = tx_retransmit_id s + 1"
    "tx_outbox ?t = tx_outbox s" "tx_crypto_tasks ?t = tx_crypto_tasks s"
    "tx_crypto_timer_running ?t = tx_crypto_timer_running s"
    using assms(4) by (simp_all add: rewind_to_ack_def)
  have "tx_inv ?t"
    using tx_inv_parts [OF assms(1)] t txw_same_refl
    by (intro tx_inv_shrink [OF assms(1)]) auto
  moreover obtain u where u: "retransmit_from env ch (ack s) ?t = Inr u" "tx_core u = tx_core ?t"
    "tx_outbox u = tx_outbox s" "tx_crypto_timer_running u = tx_crypto_timer_running s"
    "tx_crypto_tasks u = tx_crypto_tasks s @
      map (retx_task ?t) (filter (\<lambda>n. wmap s (of_nat n) \<noteq> None) [unat (ack s)..<unat (txnext s)])"
    using retransmit_from_tasks [of ?t ch env "ack s"] tx_inv_parts(9) [OF assms(1)] assms(5) t by auto
  ultimately have "tx_inv u" using tx_inv_core by blast
  moreover have "retransmit_all_pdus env ch s = Inr u"
    using assms(2,3) u(1) by (cases "txc_discard_timer (tx_cfg s)") (simp_all add: retransmit_all_pdus_def)
  ultimately show ?thesis using u core_preds [OF u(2)] retx_task_core [OF u(2)] t by auto
qed

lemma old_pdus_dropped:
  assumes "tx_inv u" and "tbi_retx_id i \<noteq> tx_retransmit_id u"
  shows "tx_apply_reordering i u = Inr u"
  using apply_reordering_drops [OF assms(1)] assms(2) by (simp add: reorders_def)

section \<open>Expiry of the discard timer\<close>

definition tick_at :: "'r pdcp_tx \<Rightarrow> u32 \<Rightarrow> u32 option" where
  "tick_at s k = (case wmap s k of None \<Rightarrow> None | Some e \<Rightarrow> tsi_tick (twe_sdu_info e))"

lemma tick_at_Some:
  assumes "tx_inv s" and "finite_discard (tx_cfg s)" and "wmap s k = Some e"
  shows "\<exists>t. tick_of e = Inr t \<and> tick_at s k = Some t"
  using tx_inv_parts(4) [OF assms(1,3)] assms(2,3) by (auto simp: elem_ok_def tick_of_def tick_at_def split: option.splits)

text \<open>
  What is left after the timer expired for the elements that arrived at tick \<open>t\<close>: only elements of
  that tick are gone, and if anything is left, the oldest element arrived later and the timer runs
  for the difference.
\<close>

definition expired :: "u32 \<Rightarrow> 'r pdcp_tx \<Rightarrow> 'r pdcp_tx \<Rightarrow> bool" where
  "expired t s u \<longleftrightarrow> tx_inv u \<and> ack_frame s u \<and>
     (\<forall>k. wmap u k = wmap s k \<or> (wmap u k = None \<and> tick_at s k = Some t)) \<and>
     (if wmap u (ack u) = None then wmap u = Map.empty \<and> tx_discard_timer u = tx_discard_timer s
      else \<exists>t'. tick_at u (ack u) = Some t' \<and> t' \<noteq> t \<and> tx_discard_timer u = Some (tx_now s, t' - t))"

lemma empty_window:
  assumes "tx_inv u" and "ack u < txnext u \<longrightarrow> wmap u (ack u) \<noteq> None" and "wmap u (ack u) = None"
  shows "wmap u = Map.empty"
proof
  fix k
  have "\<not> ack u < txnext u" using assms(2,3) by auto
  then show "wmap u k = None" using tx_inv_parts(5) [OF assms(1), of k] by (cases "wmap u k") auto
qed

lemma discard_expired_spec:
  assumes "tx_inv s" and "finite_discard (tx_cfg s)" and "tick_at s (ack s) = Some t"
    and "unat (txnext s) - unat (ack s) < n"
  shows "\<exists>u. discard_expired n t s = Inr u \<and> expired t s u"
  using assms
proof (induction n arbitrary: s)
  case (Suc n)
  have dt: "txc_discard_timer (tx_cfg s) \<noteq> None" using Suc(3) by (auto simp: finite_discard_def)
  have has: "wmap s (ack s) \<noteq> None" using Suc(4) by (auto simp: tick_at_def split: option.splits)
  obtain v where v: "discard_pdu (ack s) s = Inr v" "tx_inv v" "ack_frame s v" "tx_discard_timer v = tx_discard_timer s"
    "wmap v = (wmap s)(ack s := None)" "ack s \<le> ack v" "ack v < txnext s \<longrightarrow> wmap v (ack v) \<noteq> None"
    using discard_pdu_spec [OF Suc(2), of "ack s"] has dt by (auto simp: discards_def)
  have cfg: "tx_cfg v = tx_cfg s" "txnext v = txnext s" "tx_now v = tx_now s" using ack_frame_same [OF v(3)] by auto
  have keep: "wmap v k = wmap s k \<or> (wmap v k = None \<and> tick_at s k = Some t)" for k using v(5) Suc(4) by auto
  show ?case
  proof (cases "wmap v (ack v)")
    case None
    then have "wmap v = Map.empty" using empty_window [OF v(2)] v(7) cfg by simp
    moreover have "discard_expired (Suc n) t s = Inr v" using v(1) None by (simp add: txw_has_sn_map)
    ultimately show ?thesis using v(2-4) keep None by (auto simp: expired_def)
  next
    case (Some e)
    obtain t' where t': "tick_of e = Inr t'" "tick_at v (ack v) = Some t'"
      using tick_at_Some [OF v(2) _ Some] Suc(3) cfg by auto
    have rng: "ack v < txnext v" using tx_inv_parts(5) [OF v(2), of "ack v"] Some by simp
    show ?thesis
    proof (cases "t' = t")
      case False
      let ?u = "tx_run_discard (t' - t) v"
      have "discard_expired (Suc n) t s = Inr ?u"
        using v(1) Some t'(1) False by (simp add: txw_has_sn_map txw_at_map)
      moreover have iu: "tx_inv ?u" using v(2) tx_inv_core [OF run_discard_core(1)] by blast
      have "expired t s ?u"
        using iu v(3) keep Some t'(2) False cfg ack_frame_trans [OF v(3) ack_frame_raise(2)]
        by (auto simp: expired_def tx_run_discard_def tick_at_def)
      ultimately show ?thesis by blast
    next
      case True
      have "ack v \<noteq> ack s" using Some v(5) by (auto split: if_splits)
      then have "unat (ack s) < unat (ack v)" using v(6) by (simp add: word_le_nat_alt word_unat_eq_iff)
      then have "unat (txnext v) - unat (ack v) < n" using Suc(5) rng cfg by (simp add: word_less_nat_alt)
      then obtain u where u: "discard_expired n t v = Inr u" "expired t v u"
        using Suc(1) [OF v(2) _ _ ] Suc(3) cfg t'(2) True by auto
      have run: "discard_expired (Suc n) t s = Inr u"
        using v(1) Some t'(1) True rng u(1) by (simp add: txw_has_sn_map txw_at_map)
      have tv: "tick_at v k = Some t \<Longrightarrow> tick_at s k = Some t" for k
        using v(5) by (auto simp: tick_at_def split: if_splits)
      have "\<forall>k. wmap u k = wmap s k \<or> (wmap u k = None \<and> tick_at s k = Some t)"
      proof
        fix k
        show "wmap u k = wmap s k \<or> (wmap u k = None \<and> tick_at s k = Some t)"
          using u(2) keep [of k] tv [of k] unfolding expired_def by metis
      qed
      then have "expired t s u"
        using u(2) ack_frame_trans [OF v(3)] unfolding expired_def cfg(3) v(4) by blast
      then show ?thesis using run by blast
    qed
  qed
qed simp

lemma discard_callback_correct:
  assumes "tx_inv s" and "\<not> tx_stopped s" and "tick_at s (ack s) = Some t" and "tx_discard_timer s = None"
  shows "\<exists>u. discard_callback s = Inr u \<and> expired t (tx_count (txm_add_discard_timouts 1) s) u"
proof -
  let ?s = "tx_count (txm_add_discard_timouts 1) s"
  have same: "tx_st ?s = tx_st s" "tx_window ?s = tx_window s" "tx_cfg ?s = tx_cfg s" by (simp_all add: tx_count_def)
  obtain e where e: "wmap s (ack s) = Some e" "tsi_tick (twe_sdu_info e) = Some t"
    using assms(3) by (auto simp: tick_at_def split: option.splits)
  then have fd: "finite_discard (tx_cfg s)" using tx_inv_parts(4) [OF assms(1) e(1)] by (auto simp: elem_ok_def)
  have inv: "tx_inv ?s" using assms(1) tx_inv_core [OF tx_core_simps(3)] by blast
  have "unat (txnext s - ack s) = unat (txnext s) - unat (ack s)" by (rule unat_sub [OF tx_inv_parts(2) [OF assms(1)]])
  then obtain u where u: "discard_expired (unat (txnext s - ack s) + 1) t ?s = Inr u" "expired t ?s u"
    using discard_expired_spec [OF inv, of t "unat (txnext s - ack s) + 1"] fd assms(3) same by (auto simp: tick_at_def)
  have "discard_callback s = Inr u"
    using assms(2) e u(1) same
    by (simp add: discard_callback_def txw_has_sn_map txw_at_map tick_of_def del: discard_expired.simps Suc_eq_plus1 add_Suc_right)
  then show ?thesis using u(2) by blast
qed

section \<open>Delivery notifications\<close>

text \<open>
  A notification for COUNT \<open>c\<close> empties the window up to \<open>c\<close>; with a finite discard timer, the timer
  then runs until the deadline of the next element, its arrival plus the configured duration.
\<close>

lemma delivery_notification_correct:
  assumes "tx_inv s" and "\<not> tx_stopped s" and "tx_is_am s" and "txc_discard_timer (tx_cfg s) = Some d"
    and "wmap s (ack s) \<noteq> None" and "ack s \<le> c" and "c < txnext s"
    and "unat c < unat (ack s) + window_nat (txc_sn_size (tx_cfg s))"
    and "c + 1 < txnext s \<longrightarrow> wmap s (c + 1) \<noteq> None"
  shows "\<exists>u. handle_delivery_notification (tx_sn s c) s = Inr u \<and> tx_inv u \<and> removed_to c s u \<and>
    tx_discard_timer u =
      (case d of Discard_infinity \<Rightarrow> None
       | Discard_ms ms \<Rightarrow> map_option (\<lambda>t. (tx_now s, t + of_nat ms - tx_now s)) (tick_at s (c + 1)))"
proof -
  have n: "handle_delivery_notification (tx_sn s c) s = stop_discard_timer c s"
    by (rule delivery_notification_spec) (use assms in auto)
  have st: "stops s c" using assms by (simp add: stops_def)
  obtain t where t: "removed_to c s t" "tx_inv t" "ack_frame s t" "tx_discard_timer t = None"
    "stop_discard_timer c s = restart_discard_timer d t"
    using stop_discard_timer_spec [OF assms(1), of c] st assms(4) by auto
  note fr = ack_frame_same [OF t(3)]
  have at: "ack t = c + 1" "wmap t (c + 1) = wmap s (c + 1)"
    using t(1) unat_succ [OF assms(7)] by (auto simp: removed_to_def word_less_nat_alt)
  show ?thesis
  proof (cases d)
    case Discard_infinity
    then show ?thesis using n t by (simp add: restart_discard_timer_def)
  next
    case (Discard_ms ms)
    show ?thesis
    proof (cases "c + 1 = txnext s")
      case True
      have "wmap s (c + 1) = None" using tx_inv_parts(5) [OF assms(1), of "c + 1"] True by (cases "wmap s (c + 1)") auto
      then show ?thesis using n t Discard_ms at fr True by (simp add: restart_discard_timer_def tick_at_def)
    next
      case False
      then have "c + 1 < txnext s" using word_le_add_one [OF assms(7)] by simp
      then obtain e where e: "wmap s (c + 1) = Some e" using assms(9) by auto
      obtain k where k: "tick_of e = Inr k" "tick_at s (c + 1) = Some k"
        using tick_at_Some [OF assms(1) _ e] Discard_ms assms(4) by (auto simp: finite_discard_def)
      let ?u = "tx_run_discard (k + of_nat ms - tx_now s) t"
      have "restart_discard_timer d t = Inr ?u"
        using Discard_ms at fr False e k(1) by (simp add: restart_discard_timer_def txw_at_map)
      moreover have "tx_inv ?u" using t(2) tx_inv_core [OF run_discard_core(1)] by blast
      moreover have "removed_to c s ?u" using t(1) by (simp add: removed_to_def tx_run_discard_def)
      ultimately show ?thesis using n t(5) k(2) fr Discard_ms by (simp add: tx_run_discard_def)
    qed
  qed
qed

section \<open>The crypto reordering of one PDU\<close>

text \<open>
  A PDU that comes back from the crypto workers is kept until all COUNTs before it are submitted;
  then the run of PDUs that are ready goes down, in order and unchanged.
\<close>

definition ready_run :: "(u32 \<Rightarrow> bytes) \<Rightarrow> u32 \<Rightarrow> u32 \<Rightarrow> u32 \<Rightarrow> bool" where
  "ready_run p a b n \<longleftrightarrow> a \<le> b \<and> b \<le> n \<and> (\<forall>k. a \<le> k \<and> k < b \<longrightarrow> p k \<noteq> []) \<and> (b < n \<longrightarrow> p b = [])"

definition submissions :: "(u32 \<Rightarrow> bytes) \<Rightarrow> bool \<Rightarrow> u32 \<Rightarrow> u32 \<Rightarrow> pdcp_tx_event list" where
  "submissions p r a b = map (\<lambda>n. On_new_data_pdu (of_nat n) (p (of_nat n)) r) [unat a..<unat b]"

lemma apply_reordering_correct_tx:
  assumes "tx_inv s" and "reorders i s" and "in_flight_present s" and "\<not> txc_test_mode (tx_cfg s)"
  defines "p \<equiv> (pdu_at s)(tbi_count i := tbi_buf i)"
  shows "\<exists>u. tx_apply_reordering i s = Inr u \<and>
    ready_run p (tx_trans_crypto (tx_st s)) (tx_trans_crypto (tx_st u)) (txnext s) \<and>
    tx_outbox u = tx_outbox s @ submissions p (tbi_is_retx i) (tx_trans_crypto (tx_st s)) (tx_trans_crypto (tx_st u)) \<and>
    (tx_crypto_timer_running u \<longrightarrow> tx_trans_crypto (tx_st u) < tx_reord_crypto (tx_st u)) \<and>
    (tx_trans_crypto (tx_st u) < txnext s \<longrightarrow> tx_crypto_timer_running u)"
proof -
  obtain w where w: "put_pdu (tbi_count i) (tbi_buf i) (tx_window s) = Inr w" "tx_inv (s\<lparr>tx_window := w\<rparr>)"
    "pdu_at (s\<lparr>tx_window := w\<rparr>) = p" "\<forall>k. txw_map w k = None \<longleftrightarrow> wmap s k = None"
    using stored_pdu [OF assms(1), of "tbi_count i" "tbi_buf i"] assms(2) by (auto simp: reorders_def p_def fun_eq_iff)
  let ?s = "s\<lparr>tx_window := w\<rparr>"
  have ifp: "in_flight_present ?s" using assms(3) w(4) by (simp add: in_flight_present_def)
  obtain t where t: "submit_in_order (tbi_is_retx i) (tx_trans_crypto (tx_st s)) ?s = Inr t"
    "tx_trans_crypto (tx_st s) \<le> tx_trans_crypto (tx_st t)"
    "tx_st t = (tx_st s)\<lparr>tx_trans_crypto := tx_trans_crypto (tx_st t)\<rparr>"
    "tx_outbox t = tx_outbox s @ submissions p (tbi_is_retx i) (tx_trans_crypto (tx_st s)) (tx_trans_crypto (tx_st t))"
    "\<forall>k. tx_trans_crypto (tx_st s) \<le> k \<and> k < tx_trans_crypto (tx_st t) \<longrightarrow> p k \<noteq> []"
    "tx_trans_crypto (tx_st t) < txnext s \<longrightarrow> p (tx_trans_crypto (tx_st t)) = []"
    using submit_in_order_exact [OF w(2) _ _ ifp, of "tx_trans_crypto (tx_st s)" "tbi_is_retx i"] assms(4)
    unfolding w(3) submissions_def by auto
  have kept: "tx_kept ?s t" using submit_in_order_run [OF w(2) _ t(1)] by simp
  let ?u = "update_crypto_timer t"
  have tn: "txnext t = txnext s" "tx_trans_crypto (tx_st t) \<le> txnext s" "tx_reord_crypto (tx_st t) = tx_reord_crypto (tx_st s)"
    using kept tx_inv_parts(7) [of t] by (auto simp: tx_kept_def)
  have run: "tx_apply_reordering i s = Inr ?u"
    using assms(2) w(1) t(1) leD [OF tx_inv_parts(3) [OF assms(1)]] tx_inv_parts(3) [OF assms(1)]
    by (auto simp: tx_apply_reordering_def reorders_def txw_has_sn_map)
  have tc: "tx_trans_crypto (tx_st ?u) = tx_trans_crypto (tx_st t)" by (simp add: update_crypto_timer_st)
  have timer: "tx_trans_crypto (tx_st ?u) < txnext s \<longrightarrow> tx_crypto_timer_running ?u"
    "tx_crypto_timer_running ?u \<longrightarrow> tx_trans_crypto (tx_st ?u) < tx_reord_crypto (tx_st ?u)"
    using tn by (auto simp: update_crypto_timer_def tx_reord_to_next_def tx_run_crypto_timer_def
        tx_stop_crypto_timer_def Let_def)
  show ?thesis
    unfolding run
    by (rule exI [of _ ?u]) (use t(2,4,5,6) tn timer tc in \<open>auto simp: ready_run_def\<close>)
qed

end
