(* ===== verification/Pdcp_Tx_Sdu.thy ===== *)
theory Pdcp_Tx_Sdu
  imports Pdcp_Tx_Props
begin

text \<open>
  What \<open>handle_sdu\<close> does with an SDU: an admitted SDU gets the COUNT TX\_NEXT, is kept in the
  window and goes to the crypto executor with its header; a refused one leaves no trace.
\<close>

section \<open>Admitted SDUs\<close>

definition granted :: "tx_choice \<Rightarrow> bool" where
  "granted ch \<longleftrightarrow> tx_copy_ok ch \<and> tx_room ch \<and> tx_crypto_ok ch"

definition sdu_task :: "bytes \<Rightarrow> 'r pdcp_tx \<Rightarrow> pdcp_tx_buffer_info" where
  "sdu_task buf s = \<lparr>tbi_is_retx = False, tbi_retx_id = tx_retransmit_id s, tbi_count = txnext s,
     tbi_buf = sn_bytes (txc_sn_size (tx_cfg s)) (tx_is_srb s) (tx_sn s (txnext s)) @ buf\<rparr>"

definition admitted :: "bytes \<Rightarrow> 'r pdcp_tx \<Rightarrow> bool" where
  "admitted buf s \<longleftrightarrow> \<not> tx_stopped s \<and> \<not> tx_buffering s \<and> \<not> tx_suspended s \<and>
     (if tx_is_srb s then window_room s else check_early_drop s buf = No_drop) \<and>
     txnext s < mc_hard (txc_max_count (tx_cfg s))"

lemma send_sdu_granted:
  assumes "tx_rohc s = None" and "granted ch" and "tx_cfg_ok (tx_cfg s)"
  shows "\<exists>u. send_sdu env ch buf s = Inr u \<and> tx_crypto_tasks u = tx_crypto_tasks s @ [sdu_task buf s]"
proof -
  have z: "sn_size_ok (txc_sn_size (tx_cfg s))" "\<not> (tx_is_srb s \<and> txc_sn_size (tx_cfg s) = Size18bits)"
    using assms(3) by (auto simp: tx_cfg_ok_def tx_is_srb_def)
  show ?thesis
    using prepend_data_pdu_header_bytes [OF z] assms(1,2)
    by (simp add: send_sdu_def apply_header_compression_def granted_def post_crypto_task_def
        tx_advance_next_def tx_take_token_def sdu_task_def)
qed

lemma sdu_task_core:
  assumes "tx_cfg t = tx_cfg s" and "tx_st t = tx_st s" and "tx_retransmit_id t = tx_retransmit_id s"
  shows "sdu_task buf t = sdu_task buf s"
  using assms by (simp add: sdu_task_def tx_is_srb_def tx_sn_def)

lemma transmit_sdu_granted:
  assumes "tx_inv s" and "tx_rohc s = None" and "granted ch" and "window_room s"
    and "txnext s < mc_hard (txc_max_count (tx_cfg s))"
  shows "\<exists>u. transmit_sdu env ch buf s = Inr u \<and> sdu_sent buf s u \<and>
    tx_crypto_tasks u = tx_crypto_tasks s @ [sdu_task buf s]"
proof -
  obtain tick t where t: "tx_start_discard_timer s = (tick, t)" by (metis prod.exhaust)
  have st: "side s t" using start_discard_timer_side [OF t] by simp
  have core: "tx_core t = tx_core s" "tx_rohc t = None" "tx_crypto_tasks t = tx_crypto_tasks s"
    using st assms(2) by (auto simp: side_def)
  note c = core_preds [OF core(1)]
  note P = tx_inv_parts [OF assms(1)]
  let ?keep = "txc_discard_timer (tx_cfg s) \<noteq> None \<and> tx_is_am s"
  let ?i = "\<lparr>tsi_sdu = (if ?keep then buf else []), tsi_count = txnext s, tsi_tick = tick\<rparr>"
  have fresh: "wmap s (txnext s) = None" using P(5) [of "txnext s"] by (cases "wmap s (txnext s)") auto
  have lo: "unat (ack s) \<le> unat (txnext s)" using P(2) by (simp add: word_le_nat_alt)
  have wd: "txw_width (tx_window s) = window_nat (txc_sn_size (tx_cfg s))"
    using assms(1) by (simp add: tx_inv_def tx_wf_def)
  obtain w where w: "add_sdu ?i (of_nat (length buf)) (tx_window s) = Inr w"
    using add_sdu_spec [OF P(1), of ?i] fresh lo assms(4) wd by (auto simp: window_room_def)
  obtain u where u: "send_sdu env ch buf (t\<lparr>tx_window := w\<rparr>) = Inr u"
    "tx_crypto_tasks u = tx_crypto_tasks s @ [sdu_task buf (t\<lparr>tx_window := w\<rparr>)]"
    using send_sdu_granted [OF _ assms(3), of "t\<lparr>tx_window := w\<rparr>" env buf] core(2,3) c(3) P(9) by auto
  have run: "transmit_sdu env ch buf s = Inr u"
    using t w u(1) c assms(3) by (simp add: transmit_sdu_def granted_def)
  have task: "sdu_task buf (t\<lparr>tx_window := w\<rparr>) = sdu_task buf s" by (rule sdu_task_core) (simp_all add: c)
  have "side s u \<or> sdu_sent buf s u"
    using transmit_sdu_sent [OF assms(1,2) _ assms(4,5) run] assms(3) by (simp add: granted_def)
  moreover have "\<not> side s u" using u(2) by (simp add: side_def)
  ultimately show ?thesis using run u(2) task by auto
qed

lemma tx_count_preds [simp]:
  "tx_inv (tx_count f s) = tx_inv s" "check_early_drop (tx_count f s) buf = check_early_drop s buf"
  "window_room (tx_count f s) = window_room s" "tx_is_srb (tx_count f s) = tx_is_srb s"
  by (simp_all add: tx_count_def tx_inv_def check_early_drop_def get_pdu_size_def window_room_def tx_is_srb_def)

lemma handle_sdu_granted:
  assumes "tx_inv s" and "tx_rohc s = None" and "granted ch" and "admitted buf s"
  shows "\<exists>u t. handle_sdu env ch buf s = Inr u \<and> side s t \<and> sdu_sent buf t u \<and>
    tx_crypto_tasks u = tx_crypto_tasks s @ [sdu_task buf s]"
proof -
  let ?s = "tx_count (txm_add_sdus 1 (length buf)) s"
  have a: "\<not> tx_stopped s" "\<not> tx_buffering s" "\<not> tx_suspended s" "txnext s < mc_hard (txc_max_count (tx_cfg s))"
    "if tx_is_srb s then window_room s else check_early_drop s buf = No_drop"
    using assms(4) by (auto simp: admitted_def)
  have flags: "\<not> tx_stopped ?s" "tx_request_resume ?s = ?s" "\<not> tx_buffering ?s"
    using a by (simp_all add: tx_count_def tx_request_resume_def)
  obtain ok t where t: "admit_sdu buf ?s = (ok, t)" by (metis prod.exhaust)
  obtain ok' v where v: "tx_check_max_count t = (ok', v)" by (metis prod.exhaust)
  have st: "side s t" using side_trans [OF side_steps(1) admit_sdu_side [OF t]] .
  have sv: "side s v" using side_trans [OF st tx_check_max_count_side [OF v]] .
  have ok: "ok" using t a(5) by (auto simp: admit_sdu_def split: if_splits)
  have ct: "tx_core t = tx_core s" and cv: "tx_core v = tx_core s" and rv: "tx_rohc v = None"
    and tv: "tx_crypto_tasks v = tx_crypto_tasks s"
    using st sv assms(2) by (auto simp: side_def)
  have ok': "ok'" using v a(4) core_preds(1,3) [OF ct] by (auto simp: tx_check_max_count_def split: if_splits)
  have "window_room s" using a(5) early_drop_room(1) [OF assms(1)] by (auto split: if_splits)
  then have wr: "window_room v" using core_preds(8) [OF cv] by simp
  have task: "sdu_task buf v = sdu_task buf s" by (rule sdu_task_core) (simp_all add: core_preds [OF cv])
  obtain u where u: "transmit_sdu env ch buf v = Inr u" "sdu_sent buf v u"
    "tx_crypto_tasks u = tx_crypto_tasks v @ [sdu_task buf v]"
    using transmit_sdu_granted [OF _ rv assms(3) wr] tx_inv_core [OF cv] assms(1) a(4) core_preds(1,3) [OF cv] by auto
  have "handle_sdu env ch buf s = Inr u"
    using flags t v u(1) ok ok' by (simp add: handle_sdu_def Let_def)
  then show ?thesis using sv u(2,3) tv task by auto
qed

section \<open>Refused SDUs\<close>

lemma handle_sdu_refused:
  assumes "\<not> tx_is_srb s" and "\<not> tx_stopped s" and "\<not> tx_buffering s"
    and "check_early_drop s buf \<noteq> No_drop \<or> mc_hard (txc_max_count (tx_cfg s)) \<le> txnext s"
  shows "\<exists>u. handle_sdu env ch buf s = Inr u \<and> side s u"
proof -
  let ?s = "tx_request_resume (tx_count (txm_add_sdus 1 (length buf)) s)"
  have flags: "\<not> tx_stopped (tx_count (txm_add_sdus 1 (length buf)) s)" "\<not> tx_buffering ?s"
    using assms(2,3) by (simp_all add: tx_count_def tx_request_resume_def tx_emit_def)
  have s0: "side s ?s" using side_steps(1,3) side_trans by blast
  obtain ok t where t: "admit_sdu buf ?s = (ok, t)" by (metis prod.exhaust)
  obtain ok' v where v: "tx_check_max_count t = (ok', v)" by (metis prod.exhaust)
  have st: "side s t" using side_trans [OF s0 admit_sdu_side [OF t]] .
  have sv: "side s v" using side_trans [OF st tx_check_max_count_side [OF v]] .
  have early: "check_early_drop ?s buf = check_early_drop s buf" "tx_is_srb ?s = tx_is_srb s"
    by (simp_all add: tx_request_resume_def tx_emit_def check_early_drop_def get_pdu_size_def tx_is_srb_def tx_count_def)
  have "\<not> ok \<or> \<not> ok'"
    using assms(1,4) t tx_check_max_count_below [of t v] v early core_preds(1,3) [of t s] st
    by (auto simp: admit_sdu_def side_def not_le [symmetric] split: if_splits)
  then have "handle_sdu env ch buf s = Inr (if ok then v else t)"
    using flags t v by (auto simp: handle_sdu_def Let_def)
  then show ?thesis using st sv by auto
qed

end
