(* ===== verification/Pdcp_Tx_Limits.thy ===== *)
theory Pdcp_Tx_Limits
  imports Pdcp_Tx_Props
begin

text \<open>
  The states in which an operation of the transmitting entity reads an element of its window that
  is not there, and how the entity gets into them; and the difference between the limits for SRBs
  and DRBs.
\<close>

section \<open>An in-flight COUNT that was discarded\<close>

text \<open>
  The submission loops read \<open>tx_window[count]\<close> for every COUNT from TX\_TRANS\_CRYPTO on without asking
  whether it is there.
\<close>

lemma submission_gap_faults:
  assumes "tx_inv s" and "reorders i s" and "tx_trans_crypto (tx_st s) < txnext s"
    and "wmap s (tx_trans_crypto (tx_st s)) = None"
  shows "tx_apply_reordering i s = Inl Missing_element"
proof -
  obtain w where w: "put_pdu (tbi_count i) (tbi_buf i) (tx_window s) = Inr w" "\<forall>k. txw_map w k = None \<longleftrightarrow> wmap s k = None"
    using stored_pdu [OF assms(1), of "tbi_count i" "tbi_buf i"] assms(2) by (auto simp: reorders_def)
  then have "txw_map w (tx_trans_crypto (tx_st s)) = None" using assms(4) by blast
  then have a: "txw_at w (tx_trans_crypto (tx_st s)) = Inl Missing_element"
    by (simp add: txw_at_map)
  have "submit_in_order (tbi_is_retx i) (tx_trans_crypto (tx_st s)) (s\<lparr>tx_window := w\<rparr>) = Inl Missing_element"
    using assms(3) a by (subst submit_in_order.simps) simp
  then show ?thesis
    using assms(2) w(1) tx_inv_parts(3) [OF assms(1)]
    by (auto simp: tx_apply_reordering_def reorders_def txw_has_sn_map)
qed

text \<open>
  Discarding the PDU that is next in line for submission, while it is with the crypto workers,
  leads to such a state: the next PDU that comes back stops the program.
\<close>

lemma discard_in_flight_faults:
  assumes "tx_inv s" and "txc_discard_timer (tx_cfg s) \<noteq> None" and "\<not> tx_stopped s"
    and "wmap s c \<noteq> None" and "tx_trans_crypto (tx_st s) = c"
    and "c < tbi_count i" and "wmap s (tbi_count i) \<noteq> None" and "tbi_retx_id i = tx_retransmit_id s"
    and "tx_trans (tx_st s) \<le> c"
  shows "\<exists>u. discard_pdu c s = Inr u \<and> tx_apply_reordering i u = Inl Missing_element"
proof -
  have d: "discards s c" using assms(2,4) by (simp add: discards_def)
  obtain u where u: "discard_pdu c s = Inr u" "tx_inv u" "ack_frame s u" "wmap u = (wmap s)(c := None)"
    "ack u < txnext s \<longrightarrow> wmap u (ack u) \<noteq> None" "tx_trans (tx_st u) = max (tx_trans (tx_st s)) (ack u)"
    using discard_pdu_spec [OF assms(1), of c] d by auto
  note fr = ack_frame_same [OF u(3)]
  have i: "wmap u (tbi_count i) \<noteq> None" using u(4) assms(6,7) by auto
  have "ack u \<le> tbi_count i" using tx_inv_parts(5) [OF u(2) i] by simp
  moreover have "tx_trans (tx_st s) \<le> tbi_count i" using assms(6,9) by simp
  ultimately have "reorders i u" using i assms(3,8) fr u(6) by (simp add: reorders_def)
  moreover have "c < txnext s" using tx_inv_parts(5) [OF assms(1,4)] by simp
  ultimately have "tx_apply_reordering i u = Inl Missing_element"
    using submission_gap_faults [OF u(2)] u(4) fr assms(5) by simp
  then show ?thesis using u(1) by blast
qed

section \<open>A COUNT that a status report acknowledged before\<close>

text \<open>
  \<open>stop_discard_timer\<close> leaves TX\_NEXT\_ACK right above the notified COUNT. If the element there was
  removed by a status report, a finite discard timer makes the function read it; with an infinite
  one, TX\_NEXT\_ACK stays where it is and later notifications free nothing.
\<close>

lemma stop_discard_timer_hole_faults:
  assumes "tx_inv s" and "txc_discard_timer (tx_cfg s) = Some (Discard_ms ms)" and "wmap s (ack s) \<noteq> None"
    and "ack s \<le> c" and "c + 1 < txnext s" and "c < txnext s" and "wmap s (c + 1) = None"
  shows "stop_discard_timer c s = Inl Missing_element"
proof -
  have st: "stops s c" using assms by (simp add: stops_def)
  obtain t where t: "removed_to c s t" "ack_frame s t"
    "stop_discard_timer c s = restart_discard_timer (Discard_ms ms) t"
    using stop_discard_timer_spec [OF assms(1), of c] st assms(2) by auto
  have "ack t = c + 1" "wmap t (c + 1) = None" using t(1) assms(7) by (auto simp: removed_to_def)
  then show ?thesis
    using t(3) ack_frame_same(1) [OF t(2)] assms(5) by (auto simp: restart_discard_timer_def txw_at_map)
qed

lemma stop_discard_timer_hole_stalls:
  assumes "tx_inv s" and "txc_discard_timer (tx_cfg s) = Some Discard_infinity" and "wmap s (ack s) \<noteq> None"
    and "ack s \<le> c" and "c < txnext s" and "wmap s (c + 1) = None"
  shows "\<exists>u. stop_discard_timer c s = Inr u \<and> tx_inv u \<and> ack u = c + 1 \<and>
    (\<forall>h. stop_discard_timer h u = Inr u)"
proof -
  have st: "stops s c" using assms by (simp add: stops_def)
  obtain t where t: "removed_to c s t" "tx_inv t" "ack_frame s t"
    "stop_discard_timer c s = restart_discard_timer Discard_infinity t"
    using stop_discard_timer_spec [OF assms(1), of c] st assms(2) by auto
  have a: "ack t = c + 1" "wmap t (ack t) = None" using t(1) assms(6) by (auto simp: removed_to_def)
  have "stop_discard_timer h t = Inr t" for h
    using stop_discard_timer_spec [OF t(2), of h] a(2) by (simp add: stops_def)
  then show ?thesis using t a by (simp add: restart_discard_timer_def)
qed

section \<open>An SDU whose header could not be written\<close>

text \<open>The SDU stays in the window under TX\_NEXT, which is not incremented: the next SDU collides.\<close>

lemma no_header_room_faults:
  assumes "tx_inv s" and "tx_rohc s = None" and "tx_copy_ok ch" and "\<not> tx_room ch" and "window_room s"
    and "tx_copy_ok ch'" and "txc_discard_timer (tx_cfg s) = None"
  shows "\<exists>u. transmit_sdu env ch buf s = Inr u \<and> txnext u = txnext s \<and>
    transmit_sdu env ch' buf' u = Inl Duplicate_element"
proof -
  note P = tx_inv_parts [OF assms(1)]
  let ?i = "\<lparr>tsi_sdu = [], tsi_count = txnext s, tsi_tick = None\<rparr>"
  have fresh: "wmap s (txnext s) = None" using P(5) [of "txnext s"] by (cases "wmap s (txnext s)") auto
  have lo: "unat (ack s) \<le> unat (txnext s)" using P(2) by (simp add: word_le_nat_alt)
  have wd: "txw_width (tx_window s) = window_nat (txc_sn_size (tx_cfg s))"
    using assms(1) by (simp add: tx_inv_def tx_wf_def)
  obtain w where w: "add_sdu ?i (of_nat (length buf)) (tx_window s) = Inr w"
    "txw_map w = (wmap s)(txnext s \<mapsto> \<lparr>twe_sdu_info = ?i, twe_pdu = [], twe_sdu_length = of_nat (length buf)\<rparr>)"
    using add_sdu_spec [OF P(1), of ?i] fresh lo assms(5) wd by (auto simp: window_room_def)
  have ns: "\<not> (tx_is_srb s \<and> txc_sn_size (tx_cfg s) = Size18bits)"
    using P(9) by (auto simp: tx_cfg_ok_def tx_is_srb_def)
  let ?u = "tx_emit Tx_on_protocol_failure (tx_lost (s\<lparr>tx_window := w\<rparr>))"
  have dup: "add_sdu j n w = Inl Duplicate_element" if "tsi_count j = txnext s" for j n
    using that w(2) by (simp add: add_sdu_def add_sn_def has_sn_find txw_map_def [symmetric])
  have srb: "tx_is_srb (s\<lparr>tx_window := w\<rparr>) = tx_is_srb s" by (simp add: tx_is_srb_def)
  have "transmit_sdu env ch buf s = Inr ?u"
    using assms(2-4,7) w(1) ns srb
    by (simp add: transmit_sdu_def tx_start_discard_timer_def send_sdu_def apply_header_compression_def
        prepend_data_pdu_header_def cong: if_cong)
  moreover have "transmit_sdu env ch' buf' ?u = Inl Duplicate_element"
    using assms(6,7) dup
    by (simp add: transmit_sdu_def tx_start_discard_timer_def tx_emit_def tx_lost_def tx_count_def)
  moreover have "txnext ?u = txnext s" by (simp add: tx_emit_def tx_lost_def tx_count_def)
  ultimately show ?thesis by blast
qed

section \<open>A retransmission that passes the target of the crypto reordering timer\<close>

text \<open>
  \<open>retransmit_all_pdus\<close> sets TX\_TRANS\_CRYPTO to TX\_NEXT\_ACK and leaves the crypto reordering timer and
  its target alone. If the elements up to the target were discarded in the meantime,
  TX\_TRANS\_CRYPTO is then beyond the target, and the loop of the timeout, which stops only when the
  two are equal, would run through the whole range of COUNTs.
\<close>

lemma retransmit_passes_target:
  assumes "tx_inv s" and "tx_is_am s" and "txc_discard_timer (tx_cfg s) \<noteq> None" and "tx_rohc s = None" and "all_granted ch"
    and "tx_crypto_timer_running s" and "tx_reord_crypto (tx_st s) < ack s"
  shows "\<exists>u. retransmit_all_pdus env ch s = Inr u \<and> tx_crypto_timer_running u \<and> \<not> tx_timer_ok u \<and>
    2 ^ 32 - unat (ack s) \<le> unat (tx_reord_crypto (tx_st u) - tx_trans_crypto (tx_st u))"
proof -
  obtain u where u: "retransmit_all_pdus env ch s = Inr u" "tx_inv u"
    "tx_st u = (tx_st s)\<lparr>tx_trans := ack s, tx_trans_crypto := ack s\<rparr>"
    "tx_crypto_timer_running u = tx_crypto_timer_running s"
    using retransmit_all_pdus_correct [OF assms(1-5)] by blast
  have "unat (tx_reord_crypto (tx_st s) - ack s) = 2 ^ 32 + unat (tx_reord_crypto (tx_st s)) - unat (ack s)"
    using assms(7) by (simp add: unat_sub_if' word_less_nat_alt)
  then have "2 ^ 32 - unat (ack s) \<le> unat (tx_reord_crypto (tx_st u) - tx_trans_crypto (tx_st u))"
    using u(3) by simp
  then show ?thesis using u assms(6,7) by (auto simp: tx_timer_ok_def not_le)
qed

end
