(* ===== verification/Pdcp_Tx_Examples.thy ===== *)
theory Pdcp_Tx_Examples
  imports Pdcp_Tx_Sdu Pdcp_Tx_Limits
begin

text \<open>
  Concrete transmitting entities, on which the properties are instantiated: 12-bit bearers with
  the default limits, any discard timer and no ROHC compressor, as the constructor builds them and
  with the first SDUs in flight.
\<close>

definition demo_tx_env :: "unit pdcp_tx_env" where
  "demo_tx_env = \<lparr>txe_prims = demo_prims, txe_nof_workers = 1, txe_create_rohc = None,
     txe_rohc_compress = (\<lambda>r b. (b, r)), txe_rohc_handle_feedback = (\<lambda>r b. r)\<rparr>"

definition demo_tx_cfg :: "pdcp_rb_type \<Rightarrow> pdcp_discard_timer option \<Rightarrow> pdcp_tx_config" where
  "demo_tx_cfg rb dt = \<lparr>txc_rb_type = rb, txc_rlc_mode = Am, txc_sn_size = Size12bits, txc_direction = Downlink,
     txc_header_compression = None, txc_discard_timer = dt, txc_status_report_required = True,
     txc_max_count = \<lparr>mc_notify = 0xc0000000, mc_hard = 0xd0000000\<rparr>, txc_test_mode = False\<rparr>"

lemma demo_tx_cfg_simps [simp]:
  "txc_sn_size (demo_tx_cfg rb dt) = Size12bits" "txc_rb_type (demo_tx_cfg rb dt) = rb"
  "txc_rlc_mode (demo_tx_cfg rb dt) = Am" "txc_discard_timer (demo_tx_cfg rb dt) = dt"
  "txc_max_count (demo_tx_cfg rb dt) = \<lparr>mc_notify = 0xc0000000, mc_hard = 0xd0000000\<rparr>"
  "txc_header_compression (demo_tx_cfg rb dt) = None" "txc_test_mode (demo_tx_cfg rb dt) = False"
  by (simp_all add: demo_tx_cfg_def)

text \<open>The entity with the window \<open>w\<close> and TX\_NEXT \<open>n\<close>; nothing has been submitted yet.\<close>

definition demo_tx :: "pdcp_rb_type \<Rightarrow> pdcp_discard_timer option \<Rightarrow> pdcp_tx_window \<Rightarrow> u32 \<Rightarrow> unit pdcp_tx" where
  "demo_tx rb dt w n = \<lparr>tx_cfg = demo_tx_cfg rb dt, tx_bearer_id = 0, tx_stopped = False, tx_rohc = None,
     tx_sec_engines = [None], tx_integrity_enabled = Integ_off, tx_ciphering_enabled = Cipher_off,
     tx_st = tx_zero_st\<lparr>tx_next := n\<rparr>, tx_window = w, tx_desired_buffer_size = 0, tx_retransmit_id = 0,
     tx_warn_on_drop_count = 0, tx_discard_timer = None, tx_crypto_timer_running = False,
     tx_token_mngr = tm_init, tx_buffering = False, tx_suspended = False, tx_resume_requested = False,
     tx_sdu_buffer = rb_create 2048, tx_max_count_notified = False, tx_max_count_overflow = False,
     tx_metrics = tx_metrics_init True, tx_crypto_tasks = [], tx_ue_tasks = [], tx_outbox = [], tx_now = 0\<rparr>"

lemma demo_tx_simps [simp]:
  "tx_cfg (demo_tx rb dt w n) = demo_tx_cfg rb dt" "tx_st (demo_tx rb dt w n) = tx_zero_st\<lparr>tx_next := n\<rparr>"
  "tx_window (demo_tx rb dt w n) = w" "tx_stopped (demo_tx rb dt w n) = False" "tx_rohc (demo_tx rb dt w n) = None"
  "tx_buffering (demo_tx rb dt w n) = False" "tx_suspended (demo_tx rb dt w n) = False"
  "tx_retransmit_id (demo_tx rb dt w n) = 0" "tx_outbox (demo_tx rb dt w n) = []"
  "tx_crypto_tasks (demo_tx rb dt w n) = []" "tx_discard_timer (demo_tx rb dt w n) = None"
  "tx_crypto_timer_running (demo_tx rb dt w n) = False" "tx_integrity_enabled (demo_tx rb dt w n) = Integ_off"
  "tx_sec_engines (demo_tx rb dt w n) = [None]" "tx_ue_tasks (demo_tx rb dt w n) = []" "tx_now (demo_tx rb dt w n) = 0"
  by (simp_all add: demo_tx_def)

lemma demo_tx_kind [simp]: "tx_is_am (demo_tx rb dt w n)" "tx_is_srb (demo_tx rb dt w n) \<longleftrightarrow> rb = Srb"
  by (simp_all add: tx_is_am_def tx_is_srb_def)

text \<open>What an element looks like after \<open>handle_sdu\<close>: one byte, started at tick 0.\<close>

definition demo_elem :: "pdcp_discard_timer option \<Rightarrow> u32 \<Rightarrow> pdcp_tx_window_element" where
  "demo_elem dt c = \<lparr>twe_sdu_info = \<lparr>tsi_sdu = [7], tsi_count = c,
     tsi_tick = (case dt of Some (Discard_ms ms) \<Rightarrow> Some 0 | _ \<Rightarrow> None)\<rparr>, twe_pdu = [], twe_sdu_length = 1\<rparr>"

definition demo_map :: "pdcp_discard_timer option \<Rightarrow> nat \<Rightarrow> u32 \<Rightarrow> pdcp_tx_window_element option" where
  "demo_map dt n = (\<lambda>k. if unat k < n then Some (demo_elem dt k) else None)"

lemma demo_window_filled:
  assumes "n \<le> 2048"
  shows "\<exists>w. txw_ok 0 w \<and> txw_width w = 2048 \<and> txw_rb_type w = rb \<and> txw_sn_size w = Size12bits \<and>
    txw_map w = demo_map dt n"
  using assms
proof (induction n)
  case 0
  then show ?case
    using txw_create_spec [of Size12bits rb Am] by (auto simp: sn_size_ok_def window_nat_values demo_map_def)
next
  case (Suc n)
  then obtain w where w: "txw_ok 0 w" "txw_width w = 2048" "txw_rb_type w = rb" "txw_sn_size w = Size12bits"
    "txw_map w = demo_map dt n" by auto
  have n: "unat (of_nat n :: u32) = n" using Suc.prems by (simp add: unat_of_nat)
  let ?i = "twe_sdu_info (demo_elem dt (of_nat n))"
  have "txw_map w (tsi_count ?i) = None" using w(5) n by (simp add: demo_elem_def demo_map_def)
  then obtain v where v: "txw_ok 0 v" "txw_same w v"
    "txw_map v = (txw_map w)(tsi_count ?i \<mapsto> \<lparr>twe_sdu_info = ?i, twe_pdu = [], twe_sdu_length = 1\<rparr>)"
    using add_sdu_spec [OF w(1), of ?i 1] n Suc.prems w(2) by (auto simp: demo_elem_def)
  have "(unat k < Suc n) = (unat k < n \<or> k = of_nat n)" for k :: u32
    using n by (auto simp: less_Suc_eq word_unat_eq_iff)
  then have "txw_map v = demo_map dt (Suc n)"
    using v(3) w(5) n by (auto simp: demo_map_def demo_elem_def fun_eq_iff)
  then show ?case using v w by (auto simp: txw_same_def)
qed

lemma demo_filled:
  assumes "n \<le> 2048"
  shows "\<exists>w. tx_inv (demo_tx rb dt w (of_nat n)) \<and> txw_map w = demo_map dt n"
proof -
  obtain w where w: "txw_ok 0 w" "txw_width w = 2048" "txw_rb_type w = rb" "txw_sn_size w = Size12bits"
    "txw_map w = demo_map dt n" using demo_window_filled [OF assms] by blast
  have n: "unat (of_nat n :: u32) = n" using assms by (simp add: unat_of_nat)
  have "elem_ok (demo_tx_cfg rb dt) (of_nat n) k e" if "txw_map w k = Some e" for k e
    using that w(5) n
    by (auto simp: demo_map_def elem_ok_def demo_elem_def word_less_nat_alt finite_discard_def
        split: if_splits option.splits pdcp_discard_timer.splits)
  then have "tx_inv (demo_tx rb dt w (of_nat n))"
    using w by (simp add: tx_inv_def tx_wf_def tx_zero_st_def tx_cfg_ok_def sn_size_ok_def window_nat_values)
  then show ?thesis using w(5) by blast
qed

lemma demo_built:
  "\<exists>w. pdcp_entity_tx demo_tx_env (demo_tx_cfg rb dt) 0 True = Inr (demo_tx rb dt w 0) \<and>
     tx_inv (demo_tx rb dt w 0) \<and> txw_map w = Map.empty"
proof -
  obtain w where w: "txw_create rb Am Size12bits = Inr w"
    using txw_create_spec [of Size12bits rb Am] by (auto simp: sn_size_ok_def)
  have e: "pdcp_entity_tx demo_tx_env (demo_tx_cfg rb dt) 0 True = Inr (demo_tx rb dt w 0)"
    using w by (simp add: pdcp_entity_tx_def demo_tx_def init_header_compression_def demo_tx_env_def tx_zero_st_def)
  show ?thesis using e pdcp_entity_tx_inv(1,6) [OF _ e] by (auto simp: sn_size_ok_def)
qed

end
