(* ===== verification/Pdcp_Tx_Properties.thy ===== *)
theory Pdcp_Tx_Properties
  imports Pdcp_Tx_Examples
begin

text \<open>
  The properties of the transmitting PDCP entity, each with a concrete entity on which its
  hypotheses hold.
\<close>

section \<open>All runs\<close>



section \<open>SDUs\<close>

text \<open>
  C21: an SDU that passes the checks, when memory and the crypto executor are available, gets the
  COUNT TX\_NEXT: TX\_NEXT is incremented, the window holds the SDU under its COUNT (with a copy
  when it may have to be sent again), and exactly one task, the header for that COUNT followed by
  the SDU, is passed to the crypto executor.
\<close>

theorem sdu_accepted:
  assumes "tx_inv s" and "tx_rohc s = None" and "granted ch" and "admitted buf s"
  shows "\<exists>u e. handle_sdu env ch buf s = Inr u \<and> tx_inv u \<and>
    tx_st u = (tx_st s)\<lparr>tx_next := txnext s + 1\<rparr> \<and>
    tx_crypto_tasks u = tx_crypto_tasks s @ [sdu_task buf s] \<and>
    wmap u = (wmap s)(txnext s \<mapsto> e) \<and> tsi_count (twe_sdu_info e) = txnext s \<and> twe_pdu e = [] \<and>
    tsi_sdu (twe_sdu_info e) = (if txc_discard_timer (tx_cfg s) \<noteq> None \<and> tx_is_am s then buf else [])"
proof -
  obtain u t where u: "handle_sdu env ch buf s = Inr u" "side s t" "sdu_sent buf t u"
    "tx_crypto_tasks u = tx_crypto_tasks s @ [sdu_task buf s]" using handle_sdu_granted [OF assms] by blast
  have "tx_core t = tx_core s" using u(2) by (simp add: side_def)
  then show ?thesis using u(1,3,4) core_preds [of t s] unfolding sdu_sent_def by auto
qed

theorem sdu_accepted_witness:
  "\<exists>w u. handle_sdu demo_tx_env \<lparr>tx_copy_ok = True, tx_room = True, tx_crypto_ok = True\<rparr> [7]
      (demo_tx Srb None w 2) = Inr u \<and> txnext u = 3 \<and> tx_crypto_tasks u = [sdu_task [7] (demo_tx Srb None w 2)]"
proof -
  let ?ch = "\<lparr>tx_copy_ok = True, tx_room = True, tx_crypto_ok = True\<rparr>"
  obtain w where w: "tx_inv (demo_tx Srb None w 2)" using demo_filled [of 2 Srb None] by auto
  have "admitted [7] (demo_tx Srb None w 2)"
    by (simp add: admitted_def window_room_def window_nat_values tx_zero_st_def)
  then obtain u e where u: "handle_sdu demo_tx_env ?ch [7] (demo_tx Srb None w 2) = Inr u"
    "tx_st u = (tx_zero_st\<lparr>tx_next := 2\<rparr>)\<lparr>tx_next := 2 + 1\<rparr>" "tx_crypto_tasks u = [sdu_task [7] (demo_tx Srb None w 2)]"
    using sdu_accepted [OF w, where env = demo_tx_env and ch = ?ch and buf = "[7]"] by (auto simp: granted_def)
  then show ?thesis by (intro exI [of _ w] exI [of _ u]) simp
qed

text \<open>
  An SDU that the early-drop check refuses, or that comes after the hard COUNT limit, leaves
  the window, the state variables and the crypto tasks as they are.
\<close>

theorem sdu_refused:
  assumes "\<not> tx_is_srb s" and "\<not> tx_stopped s" and "\<not> tx_buffering s"
    and "check_early_drop s buf \<noteq> No_drop \<or> mc_hard (txc_max_count (tx_cfg s)) \<le> txnext s"
  shows "\<exists>u. handle_sdu env ch buf s = Inr u \<and> tx_st u = tx_st s \<and> tx_window u = tx_window s \<and>
    tx_crypto_tasks u = tx_crypto_tasks s"
  using handle_sdu_refused [OF assms, of env ch] by (auto simp: side_def tx_core_def)

theorem sdu_refused_witness:
  "\<exists>w u. handle_sdu demo_tx_env \<lparr>tx_copy_ok = True, tx_room = True, tx_crypto_ok = True\<rparr> [7]
      (demo_tx Drb None w 0) = Inr u \<and> tx_window u = w \<and> tx_crypto_tasks u = []"
proof -
  obtain w where "tx_inv (demo_tx Drb None w 0)" using demo_built by blast
  have "check_early_drop (demo_tx Drb None w 0) [7] = Zero_dbs" by (simp add: check_early_drop_def demo_tx_def)
  then show ?thesis using sdu_refused [of "demo_tx Drb None w 0" "[7]" demo_tx_env] by fastforce
qed

section \<open>The window\<close>

text \<open>
  The counters of the transmit window are the number of its elements and their size with
  header and MAC; and an SDU that the early-drop check lets pass fits the buffer that the lower
  layer asked for and leaves more than one COUNT of the window free.
\<close>

theorem tx_window_accounting:
  assumes "tx_inv s"
  shows "get_nof_sdus (tx_window s) = of_nat (card (dom (wmap s))) \<and>
    get_pdu_bytes ie (tx_window s) = (\<Sum>k \<in> dom (wmap s). twe_sdu_length (the (wmap s k)) +
      (pdcp_data_header_size (txw_sn_size (tx_window s)) + pdcp_data_trailer_size (txw_rb_type (tx_window s)) (ie \<noteq> Integ_off))) \<and>
    (check_early_drop s buf = No_drop \<longrightarrow>
      get_pdu_bytes (tx_integrity_enabled s) (tx_window s) + get_pdu_size s buf \<le> tx_desired_buffer_size s \<and>
      unat (txnext s) - unat (ack s) + 1 < window_nat (txc_sn_size (tx_cfg s)))"
  using get_nof_sdus_card get_pdu_bytes_sum tx_inv_parts(1) [OF assms] early_drop_room(3,4) [OF assms] by blast

theorem tx_window_accounting_witness:
  "\<exists>w. get_nof_sdus w = of_nat (card (dom (demo_map None 5)))"
  using demo_filled [of 5 Drb None] tx_window_accounting by fastforce

section \<open>Submission to the lower layers\<close>

text \<open>
  C22: a protected PDU of the current retransmission round is stored, and the longest run of PDUs
  that are ready from TX\_TRANS\_CRYPTO on goes to the lower layers, in COUNT order and unchanged;
  the crypto reordering timer runs when something is still awaited.
\<close>

theorem reordering_submits_runs:
  assumes "tx_inv s" and "reorders i s" and "in_flight_present s" and "\<not> txc_test_mode (tx_cfg s)"
  shows "\<exists>u. tx_apply_reordering i s = Inr u \<and>
    ready_run ((pdu_at s)(tbi_count i := tbi_buf i)) (tx_trans_crypto (tx_st s)) (tx_trans_crypto (tx_st u)) (txnext s) \<and>
    tx_outbox u = tx_outbox s @ submissions ((pdu_at s)(tbi_count i := tbi_buf i)) (tbi_is_retx i)
      (tx_trans_crypto (tx_st s)) (tx_trans_crypto (tx_st u)) \<and>
    (tx_crypto_timer_running u \<longrightarrow> tx_trans_crypto (tx_st u) < tx_reord_crypto (tx_st u)) \<and>
    (tx_trans_crypto (tx_st u) < txnext s \<longrightarrow> tx_crypto_timer_running u)"
  using apply_reordering_correct_tx [OF assms] .

definition demo_task :: "u32 \<Rightarrow> pdcp_tx_buffer_info" where
  "demo_task c = \<lparr>tbi_is_retx = False, tbi_retx_id = 0, tbi_count = c, tbi_buf = [0x80, ucast c, 7]\<rparr>"

theorem reordering_submits_runs_witness:
  "\<exists>w u. tx_apply_reordering (demo_task 0) (demo_tx Drb None w 2) = Inr u \<and>
     tx_outbox u = [On_new_data_pdu 0 [0x80, 0, 7] False] \<and> tx_crypto_timer_running u"
proof -
  obtain w where w: "tx_inv (demo_tx Drb None w 2)" "txw_map w = demo_map None 2"
    using demo_filled [of 2 Drb None] by auto
  let ?s = "demo_tx Drb None w 2"
  have pre: "reorders (demo_task 0) ?s" "in_flight_present ?s" "\<not> txc_test_mode (tx_cfg ?s)"
    by (simp_all add: reorders_def demo_task_def w demo_map_def tx_zero_st_def in_flight_present_def word_less_nat_alt)
  let ?p = "(pdu_at ?s)(0 := [0x80, 0, 7])"
  obtain u where u: "tx_apply_reordering (demo_task 0) ?s = Inr u"
    "ready_run ?p 0 (tx_trans_crypto (tx_st u)) 2"
    "tx_outbox u = submissions ?p False 0 (tx_trans_crypto (tx_st u))"
    "tx_trans_crypto (tx_st u) < 2 \<longrightarrow> tx_crypto_timer_running u"
    using reordering_submits_runs [OF w(1) pre] by (auto simp: demo_task_def tx_zero_st_def)
  let ?b = "tx_trans_crypto (tx_st u)"
  have p: "?p 0 = [0x80, 0, 7]" "?p 1 = []" by (simp_all add: pdu_at_def w demo_map_def demo_elem_def)
  have "?b \<noteq> 0" using u(2) p(1) by (auto simp: ready_run_def)
  moreover have "\<not> 1 < ?b" using u(2) p(2) by (auto simp: ready_run_def)
  ultimately have b: "?b = 1" by (metis linorder_neqE word_less_1)
  show ?thesis using u(1,3,4) p(1) unfolding b by (auto simp: submissions_def)
qed

section \<open>Delivery, discard and retransmission\<close>

text \<open>
  When the lower layer confirms the delivery of a COUNT in the window, every SDU up to it is
  forgotten and none after it, TX\_NEXT\_ACK moves behind it, and the discard timer is restarted
  for what is left of the time of the next SDU.
\<close>

theorem delivery_confirms:
  assumes "tx_inv s" and "\<not> tx_stopped s" and "tx_is_am s" and "txc_discard_timer (tx_cfg s) = Some d"
    and "wmap s (ack s) \<noteq> None" and "ack s \<le> c" and "c < txnext s"
    and "unat c < unat (ack s) + window_nat (txc_sn_size (tx_cfg s))"
    and "c + 1 < txnext s \<longrightarrow> wmap s (c + 1) \<noteq> None"
  shows "\<exists>u. handle_delivery_notification (tx_sn s c) s = Inr u \<and> tx_inv u \<and> ack u = c + 1 \<and>
    wmap u = (\<lambda>k. if c < k then wmap s k else None) \<and>
    tx_discard_timer u =
      (case d of Discard_infinity \<Rightarrow> None
       | Discard_ms ms \<Rightarrow> map_option (\<lambda>t. (tx_now s, t + of_nat ms - tx_now s)) (tick_at s (c + 1)))"
  using delivery_notification_correct [OF assms] by (auto simp: removed_to_def)

theorem delivery_confirms_witness:
  "\<exists>w u. handle_delivery_notification 3 (demo_tx Drb (Some (Discard_ms 50)) w 5) = Inr u \<and> ack u = 4 \<and>
     wmap u 3 = None \<and> wmap u 4 \<noteq> None \<and> tx_discard_timer u = Some (0, 50)"
proof -
  let ?dt = "Some (Discard_ms 50)"
  obtain w where w: "tx_inv (demo_tx Drb ?dt w 5)" "txw_map w = demo_map ?dt 5"
    using demo_filled [of 5 Drb ?dt] by auto
  let ?s = "demo_tx Drb ?dt w 5"
  have sn: "tx_sn ?s 3 = 3" by (simp add: tx_sn_def pdcp_compute_sn_def, code_simp)
  have t: "tick_at ?s (3 + 1) = Some 0" by (simp add: tick_at_def w demo_map_def demo_elem_def)
  have "\<exists>u. handle_delivery_notification (tx_sn ?s 3) ?s = Inr u \<and> tx_inv u \<and> ack u = 3 + 1 \<and>
    wmap u = (\<lambda>k. if 3 < k then wmap ?s k else None) \<and>
    tx_discard_timer u = map_option (\<lambda>t. (tx_now ?s, t + of_nat 50 - tx_now ?s)) (tick_at ?s (3 + 1))"
    using delivery_confirms [OF w(1), of "Discard_ms 50" 3] by (simp add: w demo_map_def tx_zero_st_def window_nat_values)
  then obtain u where u: "handle_delivery_notification 3 ?s = Inr u" "ack u = 4"
    "wmap u = (\<lambda>k. if 3 < k then wmap ?s k else None)" "tx_discard_timer u = Some (0, 50)"
    unfolding sn t by auto
  then have "wmap u 3 = None" "wmap u 4 \<noteq> None" by (simp_all add: w demo_map_def)
  then show ?thesis using u by blast
qed

text \<open>
  When the discard timer expires, the SDUs that started it are discarded, from TX\_NEXT\_ACK up
  to the first one with a later start; only SDUs with that start are removed, and the timer runs
  on for the rest of the time of the oldest SDU that is left.
\<close>

theorem discard_timer_expires:
  assumes "tx_inv s" and "\<not> tx_stopped s" and "tick_at s (ack s) = Some t" and "tx_discard_timer s = None"
  shows "\<exists>u. discard_callback s = Inr u \<and> tx_inv u \<and> txnext u = txnext s \<and>
    (\<forall>k. wmap u k = wmap s k \<or> (wmap u k = None \<and> tick_at s k = Some t)) \<and>
    (if wmap u (ack u) = None then wmap u = Map.empty \<and> tx_discard_timer u = None
     else \<exists>t'. tick_at u (ack u) = Some t' \<and> t' \<noteq> t \<and> tx_discard_timer u = Some (tx_now s, t' - t))"
proof -
  obtain u where u: "discard_callback s = Inr u" "expired t (tx_count (txm_add_discard_timouts 1) s) u"
    using discard_callback_correct [OF assms] by blast
  have c: "wmap (tx_count f s) = wmap s" "tick_at (tx_count f s) = tick_at s" "tx_now (tx_count f s) = tx_now s"
    "tx_discard_timer (tx_count f s) = tx_discard_timer s" "txnext (tx_count f s) = txnext s" for f
    by (simp_all add: tx_count_def tick_at_def fun_eq_iff)
  have "txnext u = txnext (tx_count (txm_add_discard_timouts 1) s)" using u(2) by (auto simp: expired_def ack_frame_def)
  then have "txnext u = txnext s" unfolding c .
  then show ?thesis using u assms(4) unfolding expired_def c by (intro exI [of _ u]) simp
qed

theorem discard_timer_expires_witness:
  "\<exists>w u. discard_callback (demo_tx Drb (Some (Discard_ms 50)) w 5) = Inr u \<and> tx_inv u \<and> txnext u = 5 \<and>
     wmap u = Map.empty"
proof -
  let ?dt = "Some (Discard_ms 50)"
  obtain w where w: "tx_inv (demo_tx Drb ?dt w 5)" "txw_map w = demo_map ?dt 5"
    using demo_filled [of 5 Drb ?dt] by auto
  let ?s = "demo_tx Drb ?dt w 5"
  have t: "tick_at ?s k = Some 0 \<or> wmap ?s k = None" for k
    by (simp add: tick_at_def w demo_map_def demo_elem_def)
  have "tick_at ?s (ack ?s) = Some 0" by (simp add: tick_at_def w demo_map_def demo_elem_def tx_zero_st_def)
  then obtain u where u: "discard_callback ?s = Inr u" "tx_inv u" "txnext u = txnext ?s"
    "\<forall>k. wmap u k = wmap ?s k \<or> (wmap u k = None \<and> tick_at ?s k = Some 0)"
    "if wmap u (ack u) = None then wmap u = Map.empty \<and> tx_discard_timer u = None
     else \<exists>t'. tick_at u (ack u) = Some t' \<and> t' \<noteq> 0 \<and> tx_discard_timer u = Some (tx_now ?s, t' - 0)"
    using discard_timer_expires [OF w(1), of 0] by auto
  have "wmap u (ack u) = None"
    using spec [OF u(4), of "ack u"] u(5) t [of "ack u"] by (auto simp: tick_at_def split: if_splits option.splits)
  then show ?thesis using u by auto
qed

text \<open>
  C24: after a change of path, every SDU that is still in the window is protected again under its
  old COUNT, in COUNT order; the new retransmission id makes the entity drop the PDUs that are
  still with the crypto workers, and TX\_TRANS\_CRYPTO starts again from TX\_NEXT\_ACK.
\<close>

theorem retransmission_complete:
  assumes "tx_inv s" and "tx_is_am s" and "txc_discard_timer (tx_cfg s) \<noteq> None" and "tx_rohc s = None" and "all_granted ch"
  shows "\<exists>u. retransmit_all_pdus env ch s = Inr u \<and> tx_inv u \<and> wmap u = wmap s \<and>
    tx_st u = (tx_st s)\<lparr>tx_trans := ack s, tx_trans_crypto := ack s\<rparr> \<and>
    tx_crypto_tasks u = tx_crypto_tasks s @
      map (retx_task u) (filter (\<lambda>n. wmap s (of_nat n) \<noteq> None) [unat (ack s)..<unat (txnext s)]) \<and>
    (\<forall>i. tbi_retx_id i = tx_retransmit_id s \<longrightarrow> tx_apply_reordering i u = Inr u)"
proof -
  obtain u where u: "retransmit_all_pdus env ch s = Inr u" "tx_inv u" "wmap u = wmap s"
    "tx_st u = (tx_st s)\<lparr>tx_trans := ack s, tx_trans_crypto := ack s\<rparr>" "tx_retransmit_id u = tx_retransmit_id s + 1"
    "tx_crypto_tasks u = tx_crypto_tasks s @
      map (retx_task u) (filter (\<lambda>n. wmap s (of_nat n) \<noteq> None) [unat (ack s)..<unat (txnext s)])"
    using retransmit_all_pdus_correct [OF assms] by blast
  then show ?thesis using old_pdus_dropped [OF u(2)] by auto
qed

theorem retransmission_complete_witness:
  "\<exists>w u. retransmit_all_pdus demo_tx_env (\<lambda>_. \<lparr>tx_copy_ok = True, tx_room = True, tx_crypto_ok = True\<rparr>)
      (demo_tx Drb (Some Discard_infinity) w 2) = Inr u \<and> tx_crypto_tasks u = [retx_task u 0, retx_task u 1]"
proof -
  let ?dt = "Some Discard_infinity"
  obtain w where w: "tx_inv (demo_tx Drb ?dt w 2)" "txw_map w = demo_map ?dt 2"
    using demo_filled [of 2 Drb ?dt] by auto
  have l: "[0..<2] = [0, Suc 0]" by (simp add: upt_rec)
  show ?thesis
    using retransmission_complete [OF w(1), of "\<lambda>_. \<lparr>tx_copy_ok = True, tx_room = True, tx_crypto_ok = True\<rparr>" demo_tx_env]
    by (auto simp: w demo_map_def tx_zero_st_def all_granted_def l)
qed

section \<open>States in which an element is missing\<close>

text \<open>
  C37: if the discard timer or a status report removes the SDU that TX\_TRANS\_CRYPTO points to while
  its PDU is still with a crypto worker, the next PDU that comes back makes the submission loop
  read the missing element of the window (an assertion of the code fails).
\<close>

theorem discard_in_flight_faults_run:
  assumes "tx_inv s" and "txc_discard_timer (tx_cfg s) \<noteq> None" and "\<not> tx_stopped s"
    and "wmap s c \<noteq> None" and "tx_trans_crypto (tx_st s) = c"
    and "c < tbi_count i" and "wmap s (tbi_count i) \<noteq> None" and "tbi_retx_id i = tx_retransmit_id s"
    and "tx_trans (tx_st s) \<le> c"
  shows "\<exists>u. discard_pdu c s = Inr u \<and> tx_apply_reordering i u = Inl Missing_element"
  using discard_in_flight_faults [OF assms] .

theorem discard_in_flight_faults_run_witness:
  "\<exists>w u. discard_pdu 0 (demo_tx Drb (Some Discard_infinity) w 2) = Inr u \<and>
     tx_apply_reordering (demo_task 1) u = Inl Missing_element"
proof -
  obtain w where w: "tx_inv (demo_tx Drb (Some Discard_infinity) w 2)" "txw_map w = demo_map (Some Discard_infinity) 2"
    using demo_filled [of 2 Drb "Some Discard_infinity"] by auto
  then show ?thesis
    using discard_in_flight_faults_run [OF w(1), of 0 "demo_task 1"]
    by (auto simp: demo_map_def demo_task_def tx_zero_st_def)
qed

text \<open>
  If a status report removed COUNT c + 1 before the delivery of COUNT c is notified, a finite
  discard timer makes the notification read the missing element; without an expiry time
  TX\_NEXT\_ACK stays on the hole, and no later notification frees anything.
\<close>

theorem delivery_before_hole:
  assumes "tx_inv s" and "\<not> tx_stopped s" and "tx_is_am s" and "txc_discard_timer (tx_cfg s) = Some d"
    and "wmap s (ack s) \<noteq> None" and "ack s \<le> c" and "c < txnext s" and "c + 1 < txnext s"
    and "unat c < unat (ack s) + window_nat (txc_sn_size (tx_cfg s))" and "wmap s (c + 1) = None"
  shows "case d of
      Discard_ms ms \<Rightarrow> handle_delivery_notification (tx_sn s c) s = Inl Missing_element
    | Discard_infinity \<Rightarrow> \<exists>u. handle_delivery_notification (tx_sn s c) s = Inr u \<and> ack u = c + 1 \<and>
        (\<forall>h. stop_discard_timer h u = Inr u)"
proof -
  have run: "handle_delivery_notification (tx_sn s c) s = stop_discard_timer c s"
    using delivery_notification_spec [OF assms(1,2,3) _ assms(6) assms(7) assms(9)] assms(4) by simp
  show ?thesis
  proof (cases d)
    case (Discard_ms ms)
    then show ?thesis using stop_discard_timer_hole_faults [OF assms(1) _ assms(5,6,8,7,10), of ms] assms(4) run by simp
  next
    case Discard_infinity
    then show ?thesis using stop_discard_timer_hole_stalls [OF assms(1) _ assms(5,6,7,10)] assms(4) run by auto
  qed
qed

theorem delivery_before_hole_witness:
  "\<exists>w u. discard_pdu 1 (demo_tx Drb (Some (Discard_ms 50)) w 3) = Inr u \<and>
     handle_delivery_notification 0 u = Inl Missing_element"
proof -
  let ?dt = "Some (Discard_ms 50)"
  obtain w where w: "tx_inv (demo_tx Drb ?dt w 3)" "txw_map w = demo_map ?dt 3"
    using demo_filled [of 3 Drb ?dt] by auto
  let ?s = "demo_tx Drb ?dt w 3"
  have d: "discards ?s 1" using w(2) by (simp add: discards_def demo_map_def)
  obtain u where u: "discard_pdu 1 ?s = Inr u" "tx_inv u" "ack_frame ?s u" "wmap u = (wmap ?s)(1 := None)" "ack ?s \<le> ack u"
    using discard_pdu_spec [OF w(1), of 1] d by auto
  note fr = ack_frame_same [OF u(3)]
  have m: "wmap u 0 \<noteq> None" "wmap u 1 = None" using u(4) w(2) by (simp_all add: demo_map_def)
  have a: "ack u = 0" using tx_inv_parts(5) [OF u(2) m(1)] by simp
  have sn: "tx_sn u 0 = 0" by (simp add: tx_sn_def pdcp_compute_sn_def)
  have "handle_delivery_notification (tx_sn u 0) u = Inl Missing_element"
    using delivery_before_hole [OF u(2), of "Discard_ms 50" 0] fr m a
    by (simp add: tx_zero_st_def window_nat_values tx_is_am_def)
  then show ?thesis using u(1) sn by auto
qed

text \<open>
  An SDU whose header cannot be written stays in the window under TX\_NEXT, which is not
  incremented; the next SDU then collides with it (an assertion of the code fails).
\<close>

theorem header_failure_faults:
  assumes "tx_inv s" and "tx_rohc s = None" and "tx_copy_ok ch" and "\<not> tx_room ch" and "window_room s"
    and "tx_copy_ok ch'" and "txc_discard_timer (tx_cfg s) = None"
  shows "\<exists>u. transmit_sdu env ch buf s = Inr u \<and> txnext u = txnext s \<and>
    transmit_sdu env ch' buf' u = Inl Duplicate_element"
  using no_header_room_faults [OF assms] .

theorem header_failure_faults_witness:
  "\<exists>w u. transmit_sdu demo_tx_env \<lparr>tx_copy_ok = True, tx_room = False, tx_crypto_ok = True\<rparr> [7] (demo_tx Drb None w 0) = Inr u \<and>
     transmit_sdu demo_tx_env \<lparr>tx_copy_ok = True, tx_room = True, tx_crypto_ok = True\<rparr> [8] u = Inl Duplicate_element"
proof -
  obtain w where w: "tx_inv (demo_tx Drb None w 0)" using demo_built by blast
  have room: "window_room (demo_tx Drb None w 0)" by (simp add: window_room_def window_nat_values tx_zero_st_def)
  show ?thesis
    using header_failure_faults [OF w, of "\<lparr>tx_copy_ok = True, tx_room = False, tx_crypto_ok = True\<rparr>"
        "\<lparr>tx_copy_ok = True, tx_room = True, tx_crypto_ok = True\<rparr>" demo_tx_env "[7]" "[8]"] room
    by auto
qed

end
