(* ===== verification/Pdcp_Status_Report.thy ===== *)
theory Pdcp_Status_Report
  imports Pdcp_Tx_Steps Pdcp_Rx_Steps
begin

text \<open>
  Status reports from end to end: \<open>compile_status_report\<close> of the receiving entity on one side,
  \<open>handle_status_report\<close> of the transmitting entity on the other. An accepted report removes from
  the transmit window exactly the COUNTs that the peer reports as received. The check of the last
  byte accepts fewer reports than the format allows; the lemmas say which.
\<close>

section \<open>The two loops remove what they are told to\<close>

lemma discard_pdu_map:
  assumes "tx_inv s" and "txc_discard_timer (tx_cfg s) \<noteq> None"
  shows "\<exists>u. discard_pdu c s = Inr u \<and> tx_inv u \<and> tx_cfg u = tx_cfg s \<and> txnext u = txnext s \<and>
    wmap u = (wmap s)(c := None)"
proof -
  obtain u where u: "discard_pdu c s = Inr u" "tx_inv u" "ack_frame s u"
    "if discards s c then wmap u = (wmap s)(c := None) else u = s"
    using discard_pdu_spec [OF assms(1), of c] by (auto split: if_splits)
  have "wmap u = (wmap s)(c := None)"
    using u(4) assms(2) by (cases "discards s c") (auto simp: discards_def fun_eq_iff)
  then show ?thesis using u(1-3) ack_frame_same [OF u(3)] by auto
qed

lemma discard_below_map:
  assumes "tx_inv s" and "txc_discard_timer (tx_cfg s) \<noteq> None"
  shows "\<exists>u. discard_below c f s = Inr u \<and> tx_inv u \<and> tx_cfg u = tx_cfg s \<and> txnext u = txnext s \<and>
    wmap u = (\<lambda>k. if c \<le> k \<and> k < f then None else wmap s k)"
  using assms
proof (induction c f s rule: discard_below.induct)
  case (1 c f s)
  show ?case
  proof (cases "c < f")
    case True
    obtain t where t: "discard_pdu c s = Inr t" "tx_inv t" "tx_cfg t = tx_cfg s" "txnext t = txnext s"
      "wmap t = (wmap s)(c := None)" using discard_pdu_map [OF 1(2,3)] by blast
    have step: "discard_below c f s = discard_below (c + 1) f t"
      using True t(1) by (subst discard_below.simps) simp
    obtain u where u: "discard_below (c + 1) f t = Inr u" "tx_inv u" "tx_cfg u = tx_cfg s" "txnext u = txnext s"
      "wmap u = (\<lambda>k. if c + 1 \<le> k \<and> k < f then None else wmap t k)"
      using 1(1) [OF True t(1) t(2)] 1(3) t(3,4) by auto
    have c1: "unat (c + 1) = unat c + 1" using unat_succ [OF True] .
    then have "c \<le> k \<longleftrightarrow> k = c \<or> c + 1 \<le> k" for k by (auto simp: word_le_nat_alt word_unat_eq_iff)
    then have "wmap u = (\<lambda>k. if c \<le> k \<and> k < f then None else wmap s k)"
      using u(5) t(5) True by (auto simp: fun_eq_iff)
    then show ?thesis using u step by simp
  next
    case False
    then have "discard_below c f s = Inr s" by (subst discard_below.simps) simp
    moreover have "wmap s = (\<lambda>k. if c \<le> k \<and> k < f then None else wmap s k)" using False by (auto simp: fun_eq_iff)
    ultimately show ?thesis using 1(2) by simp
  qed
qed

text \<open>Bit \<open>i\<close> of the bitmap stands for COUNT FMC + 1 + \<open>i\<close>.\<close>

definition reported :: "u32 \<Rightarrow> bool list \<Rightarrow> u32 \<Rightarrow> bool" where
  "reported f bs k \<longleftrightarrow> (\<exists>i < length bs. bs ! i \<and> k = f + 1 + of_nat i)"

lemma reported_Nil [simp]: "\<not> reported f [] k"
  by (simp add: reported_def)

lemma reported_Cons: "reported f (b # bs) k \<longleftrightarrow> (b \<and> k = f + 1) \<or> reported (f + 1) bs k"
proof
  assume "reported f (b # bs) k"
  then obtain i where i: "i < Suc (length bs)" "(b # bs) ! i" "k = f + 1 + of_nat i" by (auto simp: reported_def)
  then show "(b \<and> k = f + 1) \<or> reported (f + 1) bs k"
    by (cases i) (auto simp: reported_def add.assoc)
next
  assume "(b \<and> k = f + 1) \<or> reported (f + 1) bs k"
  then show "reported f (b # bs) k"
  proof
    assume "b \<and> k = f + 1"
    then show ?thesis by (auto simp: reported_def intro: exI [of _ 0])
  next
    assume "reported (f + 1) bs k"
    then obtain i where "i < length bs" "bs ! i" "k = f + 1 + 1 + of_nat i" by (auto simp: reported_def)
    then show ?thesis by (auto simp: reported_def add.assoc intro!: exI [of _ "Suc i"])
  qed
qed

lemma discard_by_bitmap_map:
  assumes "tx_inv s" and "txc_discard_timer (tx_cfg s) \<noteq> None" and "dec_wf d" and "length (dec_bits d) \<le> n"
  shows "\<exists>u. discard_by_bitmap n d f s = Inr u \<and> tx_inv u \<and> tx_cfg u = tx_cfg s \<and> txnext u = txnext s \<and>
    wmap u = (\<lambda>k. if reported f (dec_bits d) k then None else wmap s k)"
  using assms
proof (induction n arbitrary: d f s)
  case 0
  then have "dec_bits d = []" by simp
  then show ?case using 0(1) by simp
next
  case (Suc n)
  show ?case
  proof (cases "dec_bits d")
    case Nil
    then have "\<not> fst (unpack d 1)" using unpack_short [OF Suc(4), of 1] by simp
    then have "discard_by_bitmap (Suc n) d f s = Inr s" by (cases "unpack d 1") auto
    then show ?thesis using Nil Suc(2) by simp
  next
    case (Cons b bs)
    obtain v d' where v: "unpack d 1 = (True, v, d')" "unat v = bits_val [b]" "dec_bits d' = bs" "dec_wf d'"
      using unpack_bits [OF Suc(4), of 1] Cons by auto
    have b: "v = 1 \<longleftrightarrow> b" using v(2) by (cases b) (auto simp: bits_val_def word_unat_eq_iff)
    obtain t where t: "(if v = 1 then discard_pdu (f + 1) s else Inr s) = Inr t" "tx_inv t" "tx_cfg t = tx_cfg s"
      "txnext t = txnext s" "wmap t = (if b then (wmap s)(f + 1 := None) else wmap s)"
      using discard_pdu_map [OF Suc(2,3), of "f + 1"] b Suc(2) by (cases b) auto
    obtain u where u: "discard_by_bitmap n d' (f + 1) t = Inr u" "tx_inv u" "tx_cfg u = tx_cfg s" "txnext u = txnext s"
      "wmap u = (\<lambda>k. if reported (f + 1) bs k then None else wmap t k)"
      using Suc(1) [OF t(2) _ v(4), of "f + 1"] Suc(3,5) t(3,4) v(3) Cons by auto
    have run: "discard_by_bitmap (Suc n) d f s = Inr u"
      using v(1) t(1) u(1) by simp
    have "wmap u = (\<lambda>k. if reported f (dec_bits d) k then None else wmap s k)"
      using u(5) t(5) Cons by (auto simp: reported_Cons fun_eq_iff)
    then show ?thesis using run u(2-4) by blast
  qed
qed

section \<open>An accepted report\<close>

text \<open>The header of a status report: eight zero bits and the FMC, then the bitmap.\<close>

definition report_bits :: "bytes \<Rightarrow> u32 \<Rightarrow> bool list \<Rightarrow> bool" where
  "report_bits buf fmc bs \<longleftrightarrow> all_bits buf = replicate 8 False @ field_bits 32 fmc @ bs"

lemma bits_val_zeros [simp]: "bits_val (replicate n False) = 0"
proof (induction n)
  case (Suc n)
  then show ?case using bits_val_append [of "[False]" "replicate n False"] by (simp add: bits_val_def)
qed simp

lemma handle_status_report_parsed:
  assumes "report_bits buf fmc bs"
  shows "\<exists>d. dec_wf d \<and> dec_bits d = bs \<and> handle_status_report True buf s =
    (let (valid, t) = check_status_report fmc buf s in
     if \<not> valid then Inr t
     else seq_run (discard_below (ack t) fmc t) (discard_by_bitmap (8 * length buf) d fmc))"
proof -
  have all: "all_bits buf = replicate 1 False @ replicate 3 False @ replicate 4 False @ field_bits 32 fmc @ bs"
    using assms by (simp add: report_bits_def eval_nat_numeral)
  obtain v1 d1 where 1: "unpack (decoder_init buf) 1 = (True, v1, d1)" "unat v1 = 0"
    "dec_bits d1 = replicate 3 False @ replicate 4 False @ field_bits 32 fmc @ bs" "dec_wf d1"
    using unpack_bits [of "decoder_init buf" 1] unfolding dec_bits_init all by (auto simp: bits_val_def)
  obtain v2 d2 where 2: "unpack d1 3 = (True, v2, d2)" "unat v2 = 0"
    "dec_bits d2 = replicate 4 False @ field_bits 32 fmc @ bs" "dec_wf d2"
    using unpack_bits [OF 1(4), of 3] unfolding 1(3) by auto
  obtain v3 d3 where 3: "unpack d2 4 = (True, v3, d3)" "unat v3 = 0"
    "dec_bits d3 = field_bits 32 fmc @ bs" "dec_wf d3"
    using unpack_bits [OF 2(4), of 4] unfolding 2(3) by auto
  obtain v4 d4 where 4: "unpack d3 32 = (True, v4, d4)" "unat v4 = bits_val (field_bits 32 fmc)"
    "dec_bits d4 = bs" "dec_wf d4"
    using unpack_bits [OF 3(4), of 32] unfolding 3(3) by auto
  have z: "v1 = 0" "v2 = 0" "v3 = 0" using 1(2) 2(2) 3(2) by (simp_all add: unat_eq_0)
  have "take_bit 32 (unat fmc) = unat fmc" by (simp add: take_bit_eq_mod)
  then have "unat v4 = unat fmc" using 4(2) by (simp only: bits_val_field)
  then have f: "v4 = fmc" by (simp only: word_unat_eq_iff)
  have "handle_status_report True buf s = (let (valid, t) = check_status_report fmc buf s in
     if \<not> valid then Inr t
     else seq_run (discard_below (ack t) fmc t) (discard_by_bitmap (8 * length buf) d4 fmc))"
    unfolding handle_status_report_def by (simp only: 1(1) 2(1) 3(1) 4(1) z f Let_def split_conv) simp
  then show ?thesis using 4(3,4) by blast
qed

theorem accepted_report:
  assumes "tx_inv s" and "txc_discard_timer (tx_cfg s) \<noteq> None" and "report_bits buf fmc bs"
    and "check_status_report fmc buf s = (True, s)"
  shows "\<exists>u. handle_status_report True buf s = Inr u \<and> tx_inv u \<and> txnext u = txnext s \<and>
    wmap u = (\<lambda>k. if k < fmc \<or> reported fmc bs k then None else wmap s k)"
proof -
  obtain d where d: "dec_wf d" "dec_bits d = bs" "handle_status_report True buf s =
      seq_run (discard_below (ack s) fmc s) (discard_by_bitmap (8 * length buf) d fmc)"
    using handle_status_report_parsed [OF assms(3), of s] assms(4) by auto
  obtain t where t: "discard_below (ack s) fmc s = Inr t" "tx_inv t" "tx_cfg t = tx_cfg s" "txnext t = txnext s"
    "wmap t = (\<lambda>k. if ack s \<le> k \<and> k < fmc then None else wmap s k)"
    using discard_below_map [OF assms(1,2)] by blast
  have "length bs \<le> 8 * length buf"
    using assms(3) by (simp add: report_bits_def all_bits_length [symmetric] del: all_bits_length)
  then obtain u where u: "discard_by_bitmap (8 * length buf) d fmc t = Inr u" "tx_inv u" "txnext u = txnext s"
    "wmap u = (\<lambda>k. if reported fmc bs k then None else wmap t k)"
    using discard_by_bitmap_map [OF t(2) _ d(1), of "8 * length buf" fmc] t(3,4) assms(2) d(2) by auto
  have "wmap s k = None" if "\<not> ack s \<le> k" for k
    using tx_inv_parts(5) [OF assms(1), of k] that by (cases "wmap s k") auto
  then have "wmap u = (\<lambda>k. if k < fmc \<or> reported fmc bs k then None else wmap s k)"
    using u(4) t(5) by (auto simp: fun_eq_iff)
  then show ?thesis using u(1-3) d(3) t(1) by simp
qed

section \<open>The report of a peer\<close>

text \<open>The last COUNT that one report of at most 9000 bytes can cover.\<close>

definition report_end :: "'r pdcp_rx \<Rightarrow> nat" where
  "report_end r = min (nxt r) (dlv r + 1 + 71960)"

definition reports_received :: "'r pdcp_rx \<Rightarrow> u32 \<Rightarrow> bool" where
  "reports_received r k \<longleftrightarrow> k < rx_deliv (rx_st r) \<or> (unat k < report_end r \<and> stored r k \<noteq> None)"

lemma rx_inv_low:
  assumes "rx_inv r" and "\<not> rx_deliv (rx_st r) < k"
  shows "stored r k = None"
proof (rule ccontr)
  assume st: "stored r k \<noteq> None"
  then have "dlv r \<le> unat k" using assms(1) by (auto simp: rx_inv_def rx_bounds_def)
  then have "k = rx_deliv (rx_st r)" using assms(2) by (simp add: word_less_nat_alt word_unat_eq_iff)
  then show False using st assms(1) by (simp add: rx_inv_def)
qed

lemma reported_by_peer:
  assumes "rx_inv r"
  shows "\<exists>bs. report_bits (compile_status_report r) (rx_deliv (rx_st r)) bs \<and>
    (\<forall>k. k < rx_deliv (rx_st r) \<or> reported (rx_deliv (rx_st r)) bs k \<longleftrightarrow> reports_received r k)"
proof -
  let ?f = "rx_deliv (rx_st r)"
  let ?g = "\<lambda>n. stored r (word_of_nat n) \<noteq> None"
  obtain j where j: "all_bits (compile_status_report r) = replicate 8 False @ field_bits 32 ?f @
      map ?g [dlv r + 1 ..< report_end r] @ replicate j False"
    using status_report_bits [OF assms] by (auto simp: report_end_def)
  let ?bs = "map ?g [dlv r + 1 ..< report_end r] @ replicate j False"
  have small: "report_end r < 4294967296"
    by (rule le_less_trans [OF _ unat_u32_less [of "rx_next (rx_st r)"]]) (simp add: report_end_def)
  have low: "stored r k = None" if "\<not> ?f < k" for k
    by (rule rx_inv_low [OF assms that])
  have rep: "reported ?f ?bs k \<longleftrightarrow> ?f < k \<and> unat k < report_end r \<and> stored r k \<noteq> None" for k
  proof
    assume "reported ?f ?bs k"
    then obtain i where i: "i < length ?bs" "?bs ! i" "k = ?f + 1 + of_nat i" unfolding reported_def by blast
    have lt: "i < report_end r - (dlv r + 1)" using i(1,2) by (auto simp: nth_append split: if_splits)
    then have g: "?g (dlv r + 1 + i)" using i(2) by (simp add: nth_append)
    have k: "k = word_of_nat (dlv r + 1 + i)" using i(3) by simp
    have "dlv r + 1 + i < 4294967296" using lt small by linarith
    then have "unat k = dlv r + 1 + i" unfolding k unat_of_nat by simp
    then show "?f < k \<and> unat k < report_end r \<and> stored r k \<noteq> None"
      using g k lt by (simp add: word_less_nat_alt)
  next
    assume k: "?f < k \<and> unat k < report_end r \<and> stored r k \<noteq> None"
    let ?i = "unat k - (dlv r + 1)"
    have lt: "dlv r + 1 \<le> unat k" using k by (simp add: word_less_nat_alt)
    then have n: "dlv r + 1 + ?i = unat k" by simp
    have i: "?i < report_end r - (dlv r + 1)" using k lt by linarith
    have bi: "?bs ! ?i" using i n k by (simp add: nth_append)
    have e: "k = ?f + 1 + of_nat ?i"
    proof -
      have "?f + 1 + of_nat ?i = (of_nat (dlv r + 1 + ?i) :: u32)" by simp
      then show ?thesis unfolding n by simp
    qed
    show "reported ?f ?bs k" unfolding reported_def
      by (rule exI [of _ ?i]) (use i bi e in simp)
  qed
  have "k < ?f \<or> reported ?f ?bs k \<longleftrightarrow> reports_received r k" for k
    unfolding rep reports_received_def using low [of k] by fastforce
  then show ?thesis using j unfolding report_bits_def by blast
qed

theorem report_roundtrip:
  assumes "rx_inv r" and "tx_inv s" and "txc_discard_timer (tx_cfg s) \<noteq> None"
    and "check_status_report (rx_deliv (rx_st r)) (compile_status_report r) s = (True, s)"
  shows "\<exists>u. handle_status_report True (compile_status_report r) s = Inr u \<and> tx_inv u \<and> txnext u = txnext s \<and>
    wmap u = (\<lambda>k. if reports_received r k then None else wmap s k)"
  using reported_by_peer [OF assms(1)] accepted_report [OF assms(2,3) _ assms(4)] by fastforce

section \<open>What the check of the last byte accepts\<close>

text \<open>
  The last byte of a report with a non-empty bitmap holds its last \<open>m\<close> bits; the check shifts out
  the top \<open>(TX\_NEXT - FMC - 1) mod 8\<close> of them, so that a report whose last bit is set passes exactly
  when \<open>m\<close> is at most that number. In particular no report passes whose bitmap ends at TX\_NEXT - 1
  and fills its last byte, as the remainder is 0 then.
\<close>

lemma last_byte_bits:
  assumes "all_bits buf = xs @ ys" and "length ys = 8"
  shows "field_bits 8 (last buf) = ys"
proof -
  have "buf \<noteq> []" using assms by auto
  then have "all_bits (butlast buf) @ field_bits 8 (last buf) = xs @ ys"
    using assms(1) all_bits_snoc_butlast by metis
  then show ?thesis using assms(2) by (simp add: append_eq_append_conv)
qed

lemma tail_shift:
  assumes "field_bits 8 (tail :: u8) = zs @ [True] @ replicate (8 - m) False" and "length zs = m - 1" and "0 < m" and "m \<le> 8"
  shows "push_bit r tail \<noteq> 0 \<longleftrightarrow> r < m"
proof -
  have nth: "bit tail (7 - i) = (zs @ [True] @ replicate (8 - m) False) ! i" if "i < 8" for i
    using that assms(1) field_bits_nth [of i 8 tail] by simp
  have low: "\<not> bit tail j" if "j < 8 - m" for j
    using nth [of "7 - j"] that assms(2-4) by (auto simp: nth_append nth_Cons' split: if_splits)
  have top: "bit tail (8 - m)"
    using nth [of "m - 1"] assms(2-4) by (simp add: nth_append)
  show ?thesis
  proof
    assume "push_bit r tail \<noteq> 0"
    then obtain j where "bit (push_bit r tail) j" by (auto simp: bit_eq_iff)
    then have "r \<le> j" "j < 8" "bit tail (j - r)" by (auto simp: bit_push_bit_iff)
    then show "r < m" using low [of "j - r"] by linarith
  next
    assume "r < m"
    then have "8 - m + r < 8" using assms(4) by linarith
    then have "bit (push_bit r tail) (8 - m + r)" using top by (simp only: bit_push_bit_iff) simp
    then show "push_bit r tail \<noteq> 0" by auto
  qed
qed

lemma split_last:
  assumes "l \<noteq> []" and "last l = True" and "0 < m" and "m \<le> length l"
  shows "\<exists>xs zs. l = xs @ zs @ [True] \<and> length zs = m - 1"
proof -
  have "l = butlast l @ [True]" using assms(1,2) append_butlast_last_id [of l] by simp
  moreover have "butlast l = take (length l - m) (butlast l) @ drop (length l - m) (butlast l)" by simp
  ultimately have "l = take (length l - m) (butlast l) @ drop (length l - m) (butlast l) @ [True]"
    by (metis append.assoc)
  moreover have "length (drop (length l - m) (butlast l)) = m - 1" using assms(3,4) by simp
  ultimately show ?thesis by blast
qed

definition report_len :: "'r pdcp_rx \<Rightarrow> nat" where
  "report_len r = report_end r - (dlv r + 1)"

lemma report_tail_check:
  assumes "rx_inv r" and "0 < report_len r" and "stored r (of_nat (report_end r - 1)) \<noteq> None"
  shows "bitmap_tail_bad n (rx_deliv (rx_st r)) (last (compile_status_report r)) \<longleftrightarrow>
    unat ((n - rx_deliv (rx_st r) - 1) mod 8) < (report_len r - 1) mod 8 + 1"
proof -
  let ?g = "\<lambda>n. stored r (word_of_nat n) \<noteq> None"
  let ?l = "map ?g [dlv r + 1 ..< report_end r]"
  obtain j where j: "j < 8" "all_bits (compile_status_report r) =
      (replicate 8 False @ field_bits 32 (rx_deliv (rx_st r))) @ ?l @ replicate j False"
    using status_report_bits [OF assms(1)] by (auto simp: report_end_def)
  have len: "length ?l = report_len r" by (simp add: report_len_def)
  define m where "m = 8 - j"
  have m: "0 < m" "m \<le> 8" "j = 8 - m" using j(1) by (auto simp: m_def)
  have tot: "8 * length (compile_status_report r) = 40 + report_len r + j"
    using arg_cong [OF j(2), of length] len by simp
  define q where "q = length (compile_status_report r) - 6"
  have "6 \<le> length (compile_status_report r)" using tot m assms(2) by linarith
  then have q: "report_len r = 8 * q + m" using tot m by (simp add: q_def)
  then have "report_len r - 1 = m - 1 + 8 * q" using m(1) by simp
  then have "(report_len r - 1) mod 8 = m - 1" using m(2) by simp
  then have mod: "(report_len r - 1) mod 8 + 1 = m" using m(1) by simp
  have le: "m \<le> report_len r" using q by simp
  have "?l \<noteq> []" using len assms(2) by auto
  moreover have "last ?l = True"
    using assms(2,3) by (simp add: last_map report_len_def)
  ultimately obtain xs zs where split: "?l = xs @ zs @ [True]" "length zs = m - 1"
    using split_last [of ?l m] m(1) le len by (simp only:) blast
  have "field_bits 8 (last (compile_status_report r)) = zs @ [True] @ replicate (8 - m) False"
    by (rule last_byte_bits [where xs = "(replicate 8 False @ field_bits 32 (rx_deliv (rx_st r))) @ xs"])
      (use j(2) split m in \<open>simp_all only: append.assoc, simp_all\<close>)
  then show ?thesis
    unfolding bitmap_tail_bad_def mod using tail_shift [OF _ split(2) m(1,2)] by simp
qed

end
