(* ===== verification/Pdcp_Link.thy ===== *)
theory Pdcp_Link
  imports Pdcp_Tx_Props Pdcp_Rx_Limits
begin

text \<open>
  The transmitting and the receiving entity together: what one secures and frames, the other
  reads, deciphers and hands to its reordering, with the same COUNT and the same bytes.
\<close>

section \<open>Security leaves the header alone\<close>

lemma encrypt_keeps_header:
  assumes "encrypt_and_protect_integrity P eng room buf off c = (s, out)" and "off \<le> length buf"
  shows "take off out = take off buf"
proof -
  obtain s1 mid where mid: "(case integ_eng eng of None \<Rightarrow> (Success_unprotected, buf)
      | Some e \<Rightarrow> protect_integrity P e room buf c) = (s1, mid)" by fastforce
  have m: "take off mid = take off buf" "off \<le> length mid"
    using mid assms(2) by (auto simp: protect_integrity_cases split: option.splits if_splits)
  then show ?thesis
    using assms(1) mid
    by (auto simp: encrypt_and_protect_integrity_def apply_ciphering_def min_def split: option.splits if_splits)
qed

lemma encrypt_not_shorter:
  assumes P: "prims_ok P" and "encrypt_and_protect_integrity P eng room buf off c = (s, out)" and "off \<le> length buf"
  shows "length buf \<le> length out"
proof -
  obtain s1 mid where mid: "(case integ_eng eng of None \<Rightarrow> (Success_unprotected, buf)
      | Some e \<Rightarrow> protect_integrity P e room buf c) = (s1, mid)" by fastforce
  have m: "length buf \<le> length mid" "off \<le> length mid"
    using mid assms(3) by (auto simp: protect_integrity_cases split: option.splits if_splits)
  show ?thesis
  proof (cases "is_success s1 \<and> cipher_eng eng \<noteq> None")
    case False
    then show ?thesis using assms(2) mid m by (auto simp: encrypt_and_protect_integrity_def split: if_splits)
  next
    case True
    then obtain e where e: "cipher_eng eng = Some e" by blast
    obtain s2 b where b: "apply_ciphering P e mid off c = (s2, b)" by fastforce
    have "length mid = length b"
    proof (cases "s2 = Success")
      case True
      then show ?thesis using b apply_ciphering_involution [OF P _ m(2), of e c b] by simp
    next
      case False
      then show ?thesis using b by (simp add: apply_ciphering_def split: option.splits)
    qed
    then show ?thesis using assms(2) mid m True e b
      by (auto simp: encrypt_and_protect_integrity_def split: if_splits)
  qed
qed

section \<open>From the crypto task of one side to the UE task of the other\<close>

text \<open>The two entities use the same keys (or none, on an SRB) and SN size.\<close>

definition linked :: "sec_prims \<Rightarrow> 'a pdcp_tx_env \<Rightarrow> 'b pdcp_rx_env \<Rightarrow> nat \<Rightarrow> nat \<Rightarrow> 'a pdcp_tx \<Rightarrow> 'b pdcp_rx \<Rightarrow> bool" where
  "linked P te re w v t r \<longleftrightarrow> prims_ok P \<and> txe_prims te = P \<and> env_prims re = P \<and>
     w < txe_nof_workers te \<and> v < env_nof_workers re \<and> tx_sec_engines t ! w = rx_sec_engines r ! v \<and>
     (tx_sec_engines t ! w = None \<longrightarrow> tx_is_srb t) \<and> tx_is_srb t = rx_is_srb r \<and> tx_cfg_ok (tx_cfg t) \<and>
     txc_sn_size (tx_cfg t) = rxc_sn_size (rx_cfg r)"

definition verified_by :: "security_engine option \<Rightarrow> bool" where
  "verified_by e \<longleftrightarrow> (\<exists>eng. e = Some eng \<and> integ_eng eng \<noteq> None)"

lemma secured_pdu:
  assumes L: "linked P te re w v t r" and i: "tbi_buf i = sn_bytes (txc_sn_size (tx_cfg t)) (tx_is_srb t) sn @ sdu" and "sdu \<noteq> []"
    and sec: "apply_ciphering_and_integrity_protection te w room (tbi_buf i) c t = Inr (st, pdu)" and ok: "is_success st"
  shows "take (pdcp_data_pdu_header_size (txc_sn_size (tx_cfg t))) pdu = sn_bytes (txc_sn_size (tx_cfg t)) (tx_is_srb t) sn"
    and "pdcp_data_pdu_header_size (txc_sn_size (tx_cfg t)) < length pdu"
    and "apply_deciphering_and_integrity_check re v pdu c r = Inr (st, tbi_buf i)"
    and "st = Success \<longleftrightarrow> verified_by (tx_sec_engines t ! w)"
proof -
  let ?z = "txc_sn_size (tx_cfg t)" and ?h = "pdcp_data_pdu_header_size (txc_sn_size (tx_cfg t))"
  have z: "sn_size_ok ?z" using L unfolding linked_def tx_cfg_ok_def by blast
  have hl: "(if ?z = Size12bits then 2 else 3) = ?h"
    using z by (cases ?z) (simp_all add: sn_size_ok_def pdcp_data_pdu_header_size_def)
  have len: "length (tbi_buf i) = ?h + length sdu" using i z by simp
  have P: "prims_ok P" and zz: "rxc_sn_size (rx_cfg r) = ?z" and ws: "w < txe_nof_workers te" "v < env_nof_workers re"
    and ps: "txe_prims te = P" "env_prims re = P" and eng: "rx_sec_engines r ! v = tx_sec_engines t ! w"
    and srb: "rx_is_srb r = tx_is_srb t"
    using L by (auto simp: linked_def)
  have ls: "0 < length sdu" using assms(3) by simp
  have t1: "take ?h (tbi_buf i) = sn_bytes ?z (tx_is_srb t) sn" using i z by simp
  have "take ?h pdu = sn_bytes ?z (tx_is_srb t) sn \<and> ?h < length pdu \<and>
    apply_deciphering_and_integrity_check re v pdu c r = Inr (st, tbi_buf i) \<and>
    (st = Success \<longleftrightarrow> verified_by (tx_sec_engines t ! w))"
  proof (cases "tx_sec_engines t ! w")
    case None
    then have s: "tx_is_srb t" using L by (simp add: linked_def)
    then have o: "st = Success_unprotected" "pdu = tbi_buf i @ zero_mac"
      using sec ok None ws by (auto simp: apply_ciphering_and_integrity_protection_def is_success_def split: if_splits)
    have zl: "length zero_mac = sec_mac_len" by (simp add: zero_mac_def)
    have "apply_deciphering_and_integrity_check re v pdu c r = Inr (st, tbi_buf i)"
      using None eng ws(2) srb s o len zl assms(3)
      by (simp add: apply_deciphering_and_integrity_check_def trim_tail_def)
    then show ?thesis using o len t1 None assms(3) by (simp add: verified_by_def)
  next
    case (Some e)
    then have enc: "encrypt_and_protect_integrity P e room (tbi_buf i) ?h c = (st, pdu)"
      using sec ws(1) ps hl by (simp add: apply_ciphering_and_integrity_protection_def)
    have le: "?h \<le> length (tbi_buf i)" and ne: "tbi_buf i \<noteq> []" using len assms(3) by auto
    have "decrypt_and_verify_integrity P e pdu ?h c = Inr (st, tbi_buf i)"
      by (rule engine_roundtrip [OF P enc ok le ne])
    then have "apply_deciphering_and_integrity_check re v pdu c r = Inr (st, tbi_buf i)"
      using Some eng ws(2) ps hl zz by (simp add: apply_deciphering_and_integrity_check_def)
    moreover have "st = Success \<longleftrightarrow> verified_by (Some e)"
      using enc ok by (auto simp: verified_by_def encrypt_and_protect_integrity_def protect_integrity_cases is_success_def
          split: option.splits if_splits prod.splits dest: apply_ciphering_status)
    moreover have "?h < length pdu"
      using encrypt_not_shorter [OF P enc le] unfolding len using ls by linarith
    ultimately show ?thesis
      using encrypt_keeps_header [OF enc le] t1 Some by auto
  qed
  then show "take ?h pdu = sn_bytes ?z (tx_is_srb t) sn" "?h < length pdu"
    "apply_deciphering_and_integrity_check re v pdu c r = Inr (st, tbi_buf i)"
    "st = Success \<longleftrightarrow> verified_by (tx_sec_engines t ! w)" by auto
qed

lemma integrity_check_cong:
  assumes "rx_cfg u = rx_cfg r" and "rx_sec_engines u = rx_sec_engines r"
  shows "apply_deciphering_and_integrity_check env v buf c u = apply_deciphering_and_integrity_check env v buf c r"
  by (simp only: apply_deciphering_and_integrity_check_def rx_is_srb_def assms)

lemma set_buf_inject: "(i\<lparr>tbi_buf := a\<rparr> = i\<lparr>tbi_buf := b\<rparr>) = (a = b)" for i :: pdcp_tx_buffer_info
  by (cases i) simp

lemma handle_data_pdu_keeps_engines:
  "handle_data_pdu ok pdu r = Inr u \<Longrightarrow> rx_cfg u = rx_cfg r \<and> rx_sec_engines u = rx_sec_engines r"
  by (auto simp: handle_data_pdu_def Let_def rx_return_token_def seq_run_Inr check_max_count_def rx_emit_def rx_count_def
      split: if_splits option.splits)

text \<open>
  A PDU that the transmitting side secured, received by a peer whose window is near its COUNT: the
  SN is read, the COUNT is recovered, and the peer's reordering is given the SDU itself.
\<close>

lemma link_delivers:
  assumes L: "linked P te re w v t r" and "rx_inv r"
    and i: "tbi_buf i = sn_bytes (txc_sn_size (tx_cfg t)) (tx_is_srb t) (tx_sn t (tbi_count i)) @ sdu" and "sdu \<noteq> []"
    and sec: "tx_apply_security te w room True i t = Inr t'" and "tx_ue_tasks t' = tx_ue_tasks t @ [Tx_reorder (i\<lparr>tbi_buf := pdu\<rparr>)]"
    and near: "dlv r \<le> unat (tbi_count i) + rx_win_nat r" "unat (tbi_count i) < dlv r + rx_win_nat r"
      "unat (tbi_count i) < rx_hard r"
  shows "\<exists>r1 r2. handle_data_pdu True pdu r = Inr r1 \<and>
    rx_crypto_tasks r1 = rx_crypto_tasks r @ [\<lparr>pdu_buf = pdu, pdu_count = tbi_count i, pdu_integrity_verified = False\<rparr>] \<and>
    apply_security re v True \<lparr>pdu_buf = pdu, pdu_count = tbi_count i, pdu_integrity_verified = False\<rparr> r1 = Inr r2 \<and>
    rx_ue_tasks r2 = rx_ue_tasks r1 @ [Reorder \<lparr>pdu_buf = sdu, pdu_count = tbi_count i,
      pdu_integrity_verified = verified_by (tx_sec_engines t ! w)\<rparr>]"
proof -
  let ?z = "txc_sn_size (tx_cfg t)" and ?c = "tbi_count i"
  have z: "sn_size_ok ?z" using L unfolding linked_def tx_cfg_ok_def by blast
  have zz: "rxc_sn_size (rx_cfg r) = ?z" using L by (simp add: linked_def)
  obtain st where st: "apply_ciphering_and_integrity_protection te w room (tbi_buf i) ?c t = Inr (st, pdu)" "is_success st"
    using sec assms(6) by (auto simp: tx_apply_security_def tx_post_ue_task_def seq_run_Inr set_buf_inject split: if_splits)
  note S = secured_pdu [OF L i assms(4) st]
  let ?h = "pdcp_data_pdu_header_size ?z"
  have "pdu = sn_bytes ?z (tx_is_srb t) (tx_sn t ?c) @ drop ?h pdu" using S(1) by (metis append_take_drop_id)
  moreover have "unat (tx_sn t ?c) < 2 ^ sn_bits ?z" by (simp add: tx_sn_def unat_compute_sn)
  moreover have "drop ?h pdu \<noteq> []" using S(2) by simp
  ultimately have "read_data_pdu_header ?z pdu = Some (tx_sn t ?c)"
    using read_sn_bytes [OF z, of "tx_sn t ?c" "drop ?h pdu" "tx_is_srb t"] by metis
  then have rd: "read_data_pdu_header ?z pdu = Some (pdcp_compute_sn ?c ?z)" by (simp add: tx_sn_def)
  obtain r1 where r1: "handle_data_pdu True pdu r = Inr r1"
    "rx_crypto_tasks r1 = rx_crypto_tasks r @ [\<lparr>pdu_buf = pdu, pdu_count = ?c, pdu_integrity_verified = False\<rparr>]"
    using handle_data_pdu_enqueues [OF assms(2) _ near, of pdu] rd zz by auto
  have same: "rx_cfg r1 = rx_cfg r" "rx_sec_engines r1 = rx_sec_engines r"
    using handle_data_pdu_keeps_engines [OF r1(1)] by auto
  have hl: "(if ?z = Size12bits then 2 else 3) = ?h"
    using z by (cases ?z) (simp_all add: sn_size_ok_def pdcp_data_pdu_header_size_def)
  have "apply_deciphering_and_integrity_check re v pdu ?c r1 = Inr (st, tbi_buf i)"
    using S(3) integrity_check_cong [OF same] by simp
  moreover have "trim_head ?h (tbi_buf i) = Inr sdu" using i z by (simp add: trim_head_def)
  ultimately have "apply_security re v True \<lparr>pdu_buf = pdu, pdu_count = ?c, pdu_integrity_verified = False\<rparr> r1 =
      Inr (r1\<lparr>rx_ue_tasks := rx_ue_tasks r1 @ [Reorder \<lparr>pdu_buf = sdu, pdu_count = ?c,
        pdu_integrity_verified = verified_by (tx_sec_engines t ! w)\<rparr>]\<rparr>)"
    using st(2) S(4) same zz hl by (simp add: apply_security_def post_ue_task_def)
  then show ?thesis using r1 by auto
qed

end
