(* ===== verification/Rlc_Config.thy ===== *)
theory Rlc_Config
  imports Sdu_Window
begin

text \<open>
  What the RLC entities use of \<open>include/ocudu/rlc/rlc_config.h\<close>: SN sizes, cardinalities and
  window sizes, the codes of header fields and the configuration of the AM entities; and the
  arithmetic of SNs relative to the lower edge of a window, modulo the number of SNs.
\<close>

section \<open>Sizes and field codes\<close>

datatype rlc_am_sn_size = Am12 | Am18

definition am_sn_size_to_number :: "rlc_am_sn_size \<Rightarrow> nat" where
  "am_sn_size_to_number z = (case z of Am12 \<Rightarrow> 12 | Am18 \<Rightarrow> 18)"

definition am_sn_size_from_number :: "nat \<Rightarrow> rlc_am_sn_size option" where
  "am_sn_size_from_number num = (if num = 12 then Some Am12 else if num = 18 then Some Am18 else None)"

datatype rlc_um_sn_size = Um6 | Um12

definition um_sn_size_to_number :: "rlc_um_sn_size \<Rightarrow> nat" where
  "um_sn_size_to_number z = (case z of Um6 \<Rightarrow> 6 | Um12 \<Rightarrow> 12)"

definition um_sn_size_from_number :: "nat \<Rightarrow> rlc_um_sn_size option" where
  "um_sn_size_from_number num = (if num = 6 then Some Um6 else if num = 12 then Some Um12 else None)"

definition cardinality :: "nat \<Rightarrow> u32" where
  "cardinality sn_size = push_bit sn_size 1"

definition window_size :: "nat \<Rightarrow> u32" where
  "window_size sn_size = cardinality (sn_size - 1)"

datatype rlc_dc_field = Rlc_control | Rlc_data

definition rlc_dc_to_number :: "rlc_dc_field \<Rightarrow> u8" where
  "rlc_dc_to_number dc = (case dc of Rlc_control \<Rightarrow> 0 | Rlc_data \<Rightarrow> 1)"

definition rlc_dc_of_number :: "u8 \<Rightarrow> rlc_dc_field" where
  "rlc_dc_of_number n = (if n = 0 then Rlc_control else Rlc_data)"

datatype rlc_si_field = Full_sdu | First_segment | Last_segment | Middle_segment

definition si_to_number :: "rlc_si_field \<Rightarrow> u8" where
  "si_to_number si = (case si of Full_sdu \<Rightarrow> 0 | First_segment \<Rightarrow> 1 | Last_segment \<Rightarrow> 2 | Middle_segment \<Rightarrow> 3)"

definition si_of_number :: "u8 \<Rightarrow> rlc_si_field" where
  "si_of_number n = (if n = 0 then Full_sdu else if n = 1 then First_segment else if n = 2 then Last_segment else Middle_segment)"

record rlc_rx_am_config =
  rac_sn_field_length :: rlc_am_sn_size
  rac_t_reassembly :: int
  rac_t_status_prohibit :: int
  rac_max_sn_per_status :: "u32 option"

lemma si_roundtrip [simp]: "si_of_number (si_to_number si) = si"
  by (cases si) (simp_all add: si_of_number_def si_to_number_def)

lemma rlc_dc_roundtrip [simp]: "rlc_dc_of_number (rlc_dc_to_number dc) = dc"
  by (cases dc) (simp_all add: rlc_dc_of_number_def rlc_dc_to_number_def)

lemma am_sn_size_roundtrip: "am_sn_size_from_number (am_sn_size_to_number z) = Some z"
  by (cases z) (simp_all add: am_sn_size_from_number_def am_sn_size_to_number_def)

lemma um_sn_size_roundtrip: "um_sn_size_from_number (um_sn_size_to_number z) = Some z"
  by (cases z) (simp_all add: um_sn_size_from_number_def um_sn_size_to_number_def)

abbreviation am_bits :: "rlc_am_sn_size \<Rightarrow> nat" where
  "am_bits \<equiv> am_sn_size_to_number"

lemma am_bits_values [simp]: "am_bits Am12 = 12" "am_bits Am18 = 18"
  by (simp_all add: am_sn_size_to_number_def)

lemma cardinality_values [simp]: "cardinality 6 = 64" "cardinality 12 = 4096" "cardinality 18 = 262144"
  by (simp_all add: cardinality_def push_bit_eq_mult)

lemma window_size_values [simp]: "window_size 6 = 32" "window_size 12 = 2048" "window_size 18 = 131072"
  by (simp_all add: cardinality_def window_size_def push_bit_eq_mult)

section \<open>SNs relative to the lower edge of a window\<close>

text \<open>
  \<open>(sn - base) % mod\<close> in \<open>uint32_t\<close>. With a power of two as modulus and SNs below it, this is the
  distance of \<open>sn\<close> from \<open>base\<close> on the ring of SNs.
\<close>

definition mod_base :: "u32 \<Rightarrow> u32 \<Rightarrow> u32 \<Rightarrow> u32" where
  "mod_base m b sn = (sn - b) mod m"

definition ring_size :: "u32 \<Rightarrow> bool" where
  "ring_size m \<longleftrightarrow> (\<exists>k. k < 32 \<and> 0 < k \<and> unat m = 2 ^ k)"

lemma ring_size_am: "ring_size (cardinality (am_bits z))"
proof (cases z)
  case Am12
  then show ?thesis unfolding ring_size_def by (intro exI [of _ 12]) simp
next
  case Am18
  then show ?thesis unfolding ring_size_def by (intro exI [of _ 18]) simp
qed

lemma ring_size_pos: "ring_size m \<Longrightarrow> 0 < unat m"
  by (auto simp: ring_size_def)

lemma ring_size_uint: "ring_size m \<Longrightarrow> 0 < uint m \<and> uint m dvd 2 ^ 32"
proof -
  assume "ring_size m"
  then obtain k where k: "k < 32" "unat m = 2 ^ k" by (auto simp: ring_size_def)
  have "uint m = 2 ^ k" using k(2) by (simp add: uint_nat)
  then show ?thesis using k(1) le_imp_power_dvd [of k 32 "2 :: int"] by simp
qed

lemma uint_mod_base:
  assumes "ring_size m"
  shows "uint (mod_base m b sn) = (uint sn - uint b) mod uint m"
proof -
  have d: "uint m dvd 2 ^ 32" using ring_size_uint [OF assms] by simp
  have "uint (sn - b) = (uint sn - uint b) mod 2 ^ 32" using uint_word_ariths(2) [of sn b] by simp
  then show ?thesis using mod_mod_cancel [OF d] by (simp add: mod_base_def uint_mod)
qed

lemma mod_base_less:
  assumes "ring_size m"
  shows "unat (mod_base m b sn) < unat m"
  using ring_size_pos [OF assms] by (simp add: mod_base_def unat_mod)

lemma mod_base_self [simp]: "mod_base m b b = 0"
  by (simp add: mod_base_def)

text \<open>The SN at a distance from the base.\<close>

definition ring_add :: "u32 \<Rightarrow> u32 \<Rightarrow> nat \<Rightarrow> u32" where
  "ring_add m b n = (b + of_nat n) mod m"

lemma uint_ring_add:
  assumes "ring_size m"
  shows "uint (ring_add m b n) = (uint b + int n) mod uint m"
proof -
  have d: "uint m dvd 2 ^ 32" using ring_size_uint [OF assms] by simp
  have "uint (b + of_nat n) = (uint b + int n) mod 2 ^ 32"
    by (simp add: uint_word_ariths(1) unsigned_of_nat take_bit_eq_mod zmod_int mod_simps)
  then show ?thesis using mod_mod_cancel [OF d] by (simp add: ring_add_def uint_mod)
qed

lemma unat_ring_add:
  assumes "ring_size m"
  shows "unat (ring_add m b n) = (unat b + n) mod unat m"
  using uint_ring_add [OF assms, of b n] unfolding uint_nat of_nat_add [symmetric] zmod_int [symmetric] of_nat_eq_iff .

lemma small_mod: "unat sn < unat m \<Longrightarrow> uint sn mod uint m = uint sn"
  by (simp only: uint_nat zmod_int [symmetric] mod_less)

lemma mod_base_ring_add:
  assumes "ring_size m" and "n < unat m"
  shows "unat (mod_base m b (ring_add m b n)) = n"
proof -
  have "uint (mod_base m b (ring_add m b n)) = int n mod uint m"
    by (simp add: uint_mod_base [OF assms(1)] uint_ring_add [OF assms(1)] mod_simps)
  also have "\<dots> = int n" using assms(2) by (simp only: uint_nat zmod_int [symmetric] mod_less)
  finally show ?thesis by (simp only: uint_nat of_nat_eq_iff)
qed

lemma ring_add_mod_base:
  assumes "ring_size m" and "unat sn < unat m"
  shows "ring_add m b (unat (mod_base m b sn)) = sn"
proof -
  have "uint (ring_add m b (unat (mod_base m b sn))) = (uint b + (uint sn - uint b) mod uint m) mod uint m"
    by (simp add: uint_ring_add [OF assms(1)] uint_mod_base [OF assms(1), symmetric])
  also have "\<dots> = uint sn" using small_mod [OF assms(2)] by (simp add: mod_simps)
  finally show ?thesis by (simp add: word_uint_eq_iff)
qed

lemma mod_base_eq_iff:
  assumes "ring_size m" and "unat a < unat m" and "unat b < unat m"
  shows "mod_base m c a = mod_base m c b \<longleftrightarrow> a = b"
  using ring_add_mod_base [OF assms(1,2), of c] ring_add_mod_base [OF assms(1,3), of c] by metis

lemma ring_add_less: "ring_size m \<Longrightarrow> unat (ring_add m b n) < unat m"
  using ring_size_pos by (simp add: unat_ring_add)

lemma ring_add_0 [simp]: "unat b < unat m \<Longrightarrow> ring_add m b 0 = b"
  by (simp add: ring_add_def word_less_nat_alt mod_word_less)

lemma ring_add_Suc: "ring_size m \<Longrightarrow> (ring_add m b n + 1) mod m = ring_add m b (Suc n)"
proof -
  assume m: "ring_size m"
  have "(ring_add m b n + 1) mod m = ring_add m (ring_add m b n) 1" by (simp add: ring_add_def)
  moreover have "unat (ring_add m (ring_add m b n) 1) = unat (ring_add m b (Suc n))"
    using m by (simp add: unat_ring_add mod_simps)
  ultimately show ?thesis by (simp add: word_unat_eq_iff)
qed

lemma ring_add_add: "ring_size m \<Longrightarrow> ring_add m (ring_add m b i) j = ring_add m b (i + j)"
  by (simp add: word_unat_eq_iff unat_ring_add mod_simps add.assoc)

lemma mod_base_step:
  assumes "ring_size m"
  shows "unat (mod_base m b ((sn + 1) mod m)) = (unat (mod_base m b sn) + 1) mod unat m"
proof -
  have "uint (mod_base m b (ring_add m sn 1)) = ((uint sn + 1) mod uint m - uint b) mod uint m"
    by (simp add: uint_mod_base [OF assms(1)] uint_ring_add [OF assms(1)])
  also have "\<dots> = ((uint sn - uint b) + 1) mod uint m"
    by (simp only: mod_diff_left_eq) (simp add: algebra_simps)
  also have "\<dots> = (uint (mod_base m b sn) + 1) mod uint m"
    by (simp only: uint_mod_base [OF assms(1)] mod_add_left_eq)
  finally have "int (unat (mod_base m b (ring_add m sn 1))) = int ((unat (mod_base m b sn) + 1) mod unat m)"
    by (simp only: uint_nat zmod_int of_nat_add of_nat_1)
  then have "unat (mod_base m b (ring_add m sn 1)) = (unat (mod_base m b sn) + 1) mod unat m"
    by (simp only: of_nat_eq_iff)
  then show ?thesis by (simp add: ring_add_def)
qed

lemma mod_base_Suc:
  assumes "ring_size m" and "unat (mod_base m b sn) + 1 < unat m"
  shows "unat (mod_base m b ((sn + 1) mod m)) = unat (mod_base m b sn) + 1"
  using assms by (simp add: mod_base_step)

lemma mod_base_wrap:
  assumes "ring_size m" and "unat (mod_base m b sn) + 1 = unat m"
  shows "mod_base m b ((sn + 1) mod m) = 0"
  using assms mod_base_step [OF assms(1), of b sn] by (simp add: word_unat_eq_iff)

text \<open>A base that moves by \<open>d\<close>.\<close>

lemma mod_base_shift:
  assumes "ring_size m" and "d \<le> unat (mod_base m b sn)"
  shows "unat (mod_base m (ring_add m b d) sn) = unat (mod_base m b sn) - d"
proof -
  note u = uint_nat [of "mod_base m b sn"] uint_nat [of m]
  have "uint (mod_base m (ring_add m b d) sn) = (uint sn - (uint b + int d) mod uint m) mod uint m"
    by (simp add: uint_mod_base [OF assms(1)] uint_ring_add [OF assms(1)])
  also have "\<dots> = ((uint sn - uint b) - int d) mod uint m"
    by (simp only: mod_diff_right_eq) (simp add: algebra_simps)
  also have "\<dots> = (uint (mod_base m b sn) - int d) mod uint m"
    by (simp only: uint_mod_base [OF assms(1)] mod_diff_left_eq)
  also have "\<dots> = uint (mod_base m b sn) - int d"
    using assms(2) mod_base_less [OF assms(1), of b sn] u by (intro mod_pos_pos_trivial; linarith)
  finally show ?thesis using assms(2) u uint_nat [of "mod_base m (ring_add m b d) sn"] by linarith
qed

lemma mod_base_shift_past:
  assumes "ring_size m" and "unat (mod_base m b sn) < d" and "d < unat m"
  shows "unat (mod_base m (ring_add m b d) sn) = unat m + unat (mod_base m b sn) - d"
proof -
  note u = uint_nat [of "mod_base m b sn"] uint_nat [of m]
  have "uint (mod_base m (ring_add m b d) sn) = (uint sn - (uint b + int d) mod uint m) mod uint m"
    by (simp add: uint_mod_base [OF assms(1)] uint_ring_add [OF assms(1)])
  also have "\<dots> = ((uint sn - uint b) - int d) mod uint m"
    by (simp only: mod_diff_right_eq) (simp add: algebra_simps)
  also have "\<dots> = (uint (mod_base m b sn) - int d) mod uint m"
    by (simp only: uint_mod_base [OF assms(1)] mod_diff_left_eq)
  also have "\<dots> = (uint (mod_base m b sn) - int d + uint m) mod uint m" by simp
  also have "\<dots> = uint (mod_base m b sn) - int d + uint m"
    using assms(2,3) u by (intro mod_pos_pos_trivial; linarith)
  finally show ?thesis using assms(2,3) u uint_nat [of "mod_base m (ring_add m b d) sn"] by linarith
qed

end
