(* ===== verification/Rlc_Am_Pdu.thy ===== *)
theory Rlc_Am_Pdu
  imports Rlc_Config
begin

text \<open>
  The PDU formats of the acknowledged mode, \<open>lib/rlc/rlc_am_pdu.h\<close> and \<open>rlc_am_pdu.cpp\<close>: the header
  of data PDUs and the status PDU with its list of NACKs. A reader over a buffer is the list of
  the bytes that are left; a packing function returns the bytes it writes.
\<close>

section \<open>Data PDU headers\<close>

definition rlc_am_pdu_header_min_size :: "rlc_am_sn_size \<Rightarrow> nat" where
  "rlc_am_pdu_header_min_size z = (case z of Am12 \<Rightarrow> 2 | Am18 \<Rightarrow> 3)"

definition rlc_am_pdu_header_max_size :: "rlc_am_sn_size \<Rightarrow> nat" where
  "rlc_am_pdu_header_max_size z = rlc_am_pdu_header_min_size z + 2"

record rlc_am_pdu_header =
  ah_dc :: rlc_dc_field
  ah_p :: u8
  ah_si :: rlc_si_field
  ah_sn_size :: rlc_am_sn_size
  ah_sn :: u32
  ah_so :: u16

definition ah_packed_size :: "rlc_am_pdu_header \<Rightarrow> nat" where
  "ah_packed_size h =
     (if ah_si h = Last_segment \<or> ah_si h = Middle_segment
      then rlc_am_pdu_header_max_size (ah_sn_size h) else rlc_am_pdu_header_min_size (ah_sn_size h))"

text \<open>The SN fields; the reader is returned behind them.\<close>

definition read_am_sn :: "rlc_am_sn_size \<Rightarrow> bytes \<Rightarrow> (u32 \<times> bytes) option" where
  "read_am_sn z rd =
     (case z of
        Am12 \<Rightarrow>
          (case rd of
             b0 # b1 # rd \<Rightarrow> Some (push_bit 8 (ucast b0 AND 0x0f) OR (ucast b1 AND 0xff), rd)
           | _ \<Rightarrow> None)
      | Am18 \<Rightarrow>
          (case rd of
             b0 # b1 # b2 # rd \<Rightarrow>
               if b0 AND 0x0c \<noteq> 0 then None
               else Some (push_bit 16 (ucast b0 AND 0x03) OR push_bit 8 (ucast b1 AND 0xff) OR (ucast b2 AND 0xff), rd)
           | _ \<Rightarrow> None))"

definition read_so :: "bytes \<Rightarrow> u16 option" where
  "read_so rd = (case rd of b0 # b1 # _ \<Rightarrow> Some (push_bit 8 (ucast b0 AND 0xff) OR (ucast b1 AND 0xff)) | _ \<Rightarrow> None)"

definition rlc_am_read_data_pdu_header :: "bytes \<Rightarrow> rlc_am_sn_size \<Rightarrow> rlc_am_pdu_header option" where
  "rlc_am_read_data_pdu_header pdu sn_size =
     (if length pdu \<le> rlc_am_pdu_header_min_size sn_size then None
      else
        let dc = rlc_dc_of_number (drop_bit 7 (hd pdu) AND 0x01);
            p = drop_bit 6 (hd pdu) AND 0x01;
            si = si_of_number (drop_bit 4 (hd pdu) AND 0x03) in
        case read_am_sn sn_size pdu of
          None \<Rightarrow> None
        | Some (sn, rd) \<Rightarrow>
            if si = Last_segment \<or> si = Middle_segment then
              (case read_so rd of
                 None \<Rightarrow> None
               | Some so \<Rightarrow> Some \<lparr>ah_dc = dc, ah_p = p, ah_si = si, ah_sn_size = sn_size, ah_sn = sn, ah_so = so\<rparr>)
            else Some \<lparr>ah_dc = dc, ah_p = p, ah_si = si, ah_sn_size = sn_size, ah_sn = sn, ah_so = 0\<rparr>)"

definition rlc_am_write_data_pdu_header :: "rlc_am_pdu_header \<Rightarrow> bytes" where
  "rlc_am_write_data_pdu_header h =
     (let b0 = push_bit 7 (rlc_dc_to_number (ah_dc h) AND 0x01) OR push_bit 6 (ah_p h AND 0x01)
               OR push_bit 4 (si_to_number (ah_si h) AND 0x03) in
      (if ah_sn_size h = Am12
       then [b0 OR ucast (drop_bit 8 (ah_sn h) AND 0x0f), ucast (ah_sn h AND 0xff)]
       else [b0 OR ucast (drop_bit 16 (ah_sn h) AND 0x3), ucast (drop_bit 8 (ah_sn h)), ucast (ah_sn h AND 0xff)]) @
      (if ah_so h \<noteq> 0 then [ucast (drop_bit 8 (ah_so h)), ucast (ah_so h AND 0xff)] else []))"

section \<open>Status PDUs\<close>

record rlc_am_status_nack =
  nack_sn :: u32
  has_so :: bool
  so_start :: u16
  so_end :: u16
  has_nack_range :: bool
  nack_range :: u8

definition so_end_of_sdu :: u16 where
  "so_end_of_sdu = 0xffff"

definition nack_init :: rlc_am_status_nack where
  "nack_init = \<lparr>nack_sn = 0, has_so = False, so_start = 0, so_end = so_end_of_sdu, has_nack_range = False, nack_range = 0\<rparr>"

record rlc_am_status_pdu =
  sp_sn_size :: rlc_am_sn_size
  sp_mod_nr :: u32
  sp_nacks :: "rlc_am_status_nack list"
  sp_packed_size :: u32
  sp_cpt :: u8
  sp_ack_sn :: u32

definition invalid_rlc_sn :: u32 where
  "invalid_rlc_sn = 0xffffffff"

definition status_header_size :: u32 where
  "status_header_size = 3"

definition status_create :: "rlc_am_sn_size \<Rightarrow> rlc_am_status_pdu" where
  "status_create z = \<lparr>sp_sn_size = z, sp_mod_nr = cardinality (am_sn_size_to_number z), sp_nacks = [],
     sp_packed_size = status_header_size, sp_cpt = 0, sp_ack_sn = invalid_rlc_sn\<rparr>"

definition status_reset :: "rlc_am_status_pdu \<Rightarrow> rlc_am_status_pdu" where
  "status_reset s = s\<lparr>sp_cpt := 0, sp_ack_sn := invalid_rlc_sn, sp_nacks := [], sp_packed_size := status_header_size\<rparr>"

definition nack_size :: "rlc_am_sn_size \<Rightarrow> rlc_am_status_nack \<Rightarrow> u32" where
  "nack_size z nack = (if z = Am12 then 2 else 3) + (if has_so nack then 4 else 0) + (if has_nack_range nack then 1 else 0)"

definition can_be_merged :: "u32 \<Rightarrow> rlc_am_status_nack \<Rightarrow> rlc_am_status_nack \<Rightarrow> bool" where
  "can_be_merged mod_nr left right =
     (if nack_sn right \<noteq> (if has_nack_range left then nack_sn left + ucast (nack_range left) else nack_sn left + 1) mod mod_nr
      then False
      else if has_so left \<and> so_end left \<noteq> so_end_of_sdu then False
      else if has_so right \<and> so_start right \<noteq> 0 then False
      else (if has_nack_range left then unat (nack_range left) else 1) +
           (if has_nack_range right then unat (nack_range right) else 1) \<le> 255)"

text \<open>\<open>push_nack\<close> expands the previous NACK when the two form a continuous range.\<close>

definition expand_range :: "rlc_am_status_nack \<Rightarrow> rlc_am_status_nack \<Rightarrow> rlc_am_status_nack" where
  "expand_range nack prev =
     (if has_nack_range nack then
        if has_nack_range prev then prev\<lparr>nack_range := nack_range prev + nack_range nack\<rparr>
        else prev\<lparr>nack_range := nack_range nack + 1, has_nack_range := True\<rparr>
      else
        if has_nack_range prev then prev\<lparr>nack_range := nack_range prev + 1\<rparr>
        else prev\<lparr>nack_range := 2, has_nack_range := True\<rparr>)"

definition expand_so :: "rlc_am_status_nack \<Rightarrow> rlc_am_status_nack \<Rightarrow> rlc_am_status_nack" where
  "expand_so nack prev =
     (if has_so nack then
        (if \<not> has_so prev then prev\<lparr>has_so := True, so_start := 0\<rparr> else prev)\<lparr>so_end := so_end nack\<rparr>
      else if has_so prev then prev\<lparr>so_end := so_end_of_sdu\<rparr> else prev)"

definition push_nack :: "rlc_am_status_nack \<Rightarrow> rlc_am_status_pdu \<Rightarrow> rlc_am_status_pdu" where
  "push_nack nack s =
     (if sp_nacks s = [] \<or> \<not> can_be_merged (sp_mod_nr s) (last (sp_nacks s)) nack
      then s\<lparr>sp_nacks := sp_nacks s @ [nack], sp_packed_size := sp_packed_size s + nack_size (sp_sn_size s) nack\<rparr>
      else
        let prev = last (sp_nacks s); new = expand_so nack (expand_range nack prev) in
        s\<lparr>sp_nacks := butlast (sp_nacks s) @ [new],
          sp_packed_size := sp_packed_size s - nack_size (sp_sn_size s) prev + nack_size (sp_sn_size s) new\<rparr>)"

text \<open>The loop of \<open>trim\<close>, and \<open>trim\<close>.\<close>

function trim_nacks :: "u32 \<Rightarrow> rlc_am_status_pdu \<Rightarrow> rlc_am_status_pdu" where
  "trim_nacks max_packed_size s =
     (if sp_nacks s \<noteq> [] \<and> (max_packed_size < sp_packed_size s \<or> nack_sn (last (sp_nacks s)) = sp_ack_sn s)
      then trim_nacks max_packed_size
             (s\<lparr>sp_packed_size := sp_packed_size s - nack_size (sp_sn_size s) (last (sp_nacks s)),
                sp_ack_sn := nack_sn (last (sp_nacks s)), sp_nacks := butlast (sp_nacks s)\<rparr>)
      else s)"
  by auto
termination
  by (relation "measure (\<lambda>(n, s). length (sp_nacks s))") (auto simp: length_greater_0_conv [symmetric] simp del: length_greater_0_conv)

declare trim_nacks.simps [simp del]

definition status_trim :: "u32 \<Rightarrow> rlc_am_status_pdu \<Rightarrow> bool \<times> rlc_am_status_pdu" where
  "status_trim max_packed_size s =
     (if sp_packed_size s \<le> max_packed_size then (True, s)
      else if max_packed_size < status_header_size then (False, s)
      else (True, trim_nacks max_packed_size s))"

definition refresh_packed_size :: "rlc_am_status_pdu \<Rightarrow> rlc_am_status_pdu" where
  "refresh_packed_size s =
     s\<lparr>sp_packed_size := foldl (\<lambda>n nack. n + nack_size (sp_sn_size s) nack) status_header_size (sp_nacks s)\<rparr>"

definition is_control_pdu :: "bytes \<Rightarrow> bool" where
  "is_control_pdu pdu = (drop_bit 7 (hd pdu) AND 0x01 = rlc_dc_to_number Rlc_control)"

subsection \<open>Unpacking\<close>

text \<open>The optional fields of a NACK: segment offsets and range.\<close>

definition read_nack_so :: "bool \<Rightarrow> bytes \<Rightarrow> rlc_am_status_nack \<Rightarrow> (rlc_am_status_nack \<times> bytes) option" where
  "read_nack_so e2 rd nack =
     (if \<not> e2 then Some (nack, rd)
      else case rd of
        b0 # b1 # b2 # b3 # rd \<Rightarrow>
          Some (nack\<lparr>has_so := True, so_start := push_bit 8 (ucast b0) OR ucast b1,
                     so_end := push_bit 8 (ucast b2) OR ucast b3\<rparr>, rd)
      | _ \<Rightarrow> None)"

definition read_nack_range :: "bool \<Rightarrow> bytes \<Rightarrow> rlc_am_status_nack \<Rightarrow> (rlc_am_status_nack \<times> bytes) option" where
  "read_nack_range e3 rd nack =
     (if \<not> e3 then Some (nack, rd)
      else case rd of
        b0 # rd \<Rightarrow> Some (nack\<lparr>has_nack_range := True, nack_range := b0\<rparr>, rd)
      | _ \<Rightarrow> None)"

definition read_nack_fields :: "bool \<Rightarrow> bool \<Rightarrow> bytes \<Rightarrow> rlc_am_status_nack \<Rightarrow> (rlc_am_status_nack \<times> bytes) option" where
  "read_nack_fields e2 e3 rd nack =
     (case read_nack_so e2 rd nack of None \<Rightarrow> None | Some (nack, rd) \<Rightarrow> read_nack_range e3 rd nack)"

text \<open>One NACK: whether another one follows, the NACK, and the rest of the reader.\<close>

definition read_nack_12bit :: "bytes \<Rightarrow> (bool \<times> rlc_am_status_nack \<times> bytes) option" where
  "read_nack_12bit rd =
     (case rd of
        b0 # b1 # rd \<Rightarrow>
          if b1 AND 0x01 \<noteq> 0 then None
          else map_option (\<lambda>(nack, rd). (b1 AND 0x08 \<noteq> 0, nack, rd))
            (read_nack_fields (b1 AND 0x04 \<noteq> 0) (b1 AND 0x02 \<noteq> 0) rd
              (nack_init\<lparr>nack_sn := push_bit 4 (ucast b0 AND 0xff) OR drop_bit 4 (ucast b1 AND 0xf0)\<rparr>))
      | _ \<Rightarrow> None)"

definition read_nack_18bit :: "bytes \<Rightarrow> (bool \<times> rlc_am_status_nack \<times> bytes) option" where
  "read_nack_18bit rd =
     (case rd of
        b0 # b1 # b2 # rd \<Rightarrow>
          if b2 AND 0x07 \<noteq> 0 then None
          else map_option (\<lambda>(nack, rd). (b2 AND 0x20 \<noteq> 0, nack, rd))
            (read_nack_fields (b2 AND 0x10 \<noteq> 0) (b2 AND 0x08 \<noteq> 0) rd
              (nack_init\<lparr>nack_sn := push_bit 10 (ucast b0 AND 0xff) OR push_bit 2 (ucast b1 AND 0xff)
                           OR drop_bit 6 (ucast b2 AND 0xc0)\<rparr>))
      | _ \<Rightarrow> None)"

lemma read_nack_fields_length:
  "read_nack_fields e2 e3 rd n = Some (nack, rd') \<Longrightarrow> length rd' \<le> length rd"
  by (auto simp: read_nack_fields_def read_nack_so_def read_nack_range_def split: if_splits list.splits option.splits)

lemma read_nack_12bit_length: "read_nack_12bit rd = Some (e1, nack, rd') \<Longrightarrow> length rd' < length rd"
  by (auto simp: read_nack_12bit_def split: if_splits list.splits dest!: read_nack_fields_length)

lemma read_nack_18bit_length: "read_nack_18bit rd = Some (e1, nack, rd') \<Longrightarrow> length rd' < length rd"
  by (auto simp: read_nack_18bit_def split: if_splits list.splits dest!: read_nack_fields_length)

text \<open>The loops over the NACKs.\<close>

function unpack_nacks_12bit :: "bool \<Rightarrow> bytes \<Rightarrow> rlc_am_status_pdu \<Rightarrow> bool \<times> rlc_am_status_pdu" where
  "unpack_nacks_12bit e1 rd s =
     (if \<not> e1 then (True, s)
      else case read_nack_12bit rd of
        None \<Rightarrow> (False, s)
      | Some (e1', nack, rd') \<Rightarrow> unpack_nacks_12bit e1' rd' (push_nack nack s))"
  by auto
termination
  by (relation "measure (\<lambda>(e, rd, s). length rd)") (auto dest: read_nack_12bit_length)

function unpack_nacks_18bit :: "bool \<Rightarrow> bytes \<Rightarrow> rlc_am_status_pdu \<Rightarrow> bool \<times> rlc_am_status_pdu" where
  "unpack_nacks_18bit e1 rd s =
     (if \<not> e1 then (True, s)
      else case read_nack_18bit rd of
        None \<Rightarrow> (False, s)
      | Some (e1', nack, rd') \<Rightarrow> unpack_nacks_18bit e1' rd' (push_nack nack s))"
  by auto
termination
  by (relation "measure (\<lambda>(e, rd, s). length rd)") (auto dest: read_nack_18bit_length)

declare unpack_nacks_12bit.simps [simp del] unpack_nacks_18bit.simps [simp del]

definition unpack_12bit :: "bytes \<Rightarrow> rlc_am_status_pdu \<Rightarrow> bool \<times> rlc_am_status_pdu" where
  "unpack_12bit pdu s =
     (case pdu of
        b0 # b1 # b2 # rd \<Rightarrow>
          if \<not> is_control_pdu pdu then (False, s)
          else
            let s = (status_reset s)\<lparr>sp_cpt := drop_bit 4 b0 AND 0x07\<rparr> in
            if sp_cpt s \<noteq> 0 then (False, s)
            else
              let s = s\<lparr>sp_ack_sn := push_bit 8 (ucast b0 AND 0x0f) OR (ucast b1 AND 0xff)\<rparr> in
              if b2 AND 0x7f \<noteq> 0 then (False, s)
              else unpack_nacks_12bit (b2 AND 0x80 \<noteq> 0) rd s
      | _ \<Rightarrow> (False, s))"

definition unpack_18bit :: "bytes \<Rightarrow> rlc_am_status_pdu \<Rightarrow> bool \<times> rlc_am_status_pdu" where
  "unpack_18bit pdu s =
     (case pdu of
        b0 # b1 # b2 # rd \<Rightarrow>
          if \<not> is_control_pdu pdu then (False, s)
          else
            let s = (status_reset s)\<lparr>sp_cpt := drop_bit 4 b0 AND 0x07\<rparr> in
            if sp_cpt s \<noteq> 0 then (False, s)
            else
              let s = s\<lparr>sp_ack_sn := push_bit 14 (ucast b0 AND 0x0f) OR push_bit 6 (ucast b1 AND 0xff)
                         OR drop_bit 2 (ucast b2 AND 0xfc)\<rparr> in
              if b2 AND 0x01 \<noteq> 0 then (False, s)
              else unpack_nacks_18bit (b2 AND 0x02 \<noteq> 0) rd s
      | _ \<Rightarrow> (False, s))"

definition status_unpack :: "bytes \<Rightarrow> rlc_am_status_pdu \<Rightarrow> bool \<times> rlc_am_status_pdu" where
  "status_unpack pdu s = (case sp_sn_size s of Am12 \<Rightarrow> unpack_12bit pdu s | Am18 \<Rightarrow> unpack_18bit pdu s)"

subsection \<open>Packing\<close>

definition pack_nack_fields :: "rlc_am_status_nack \<Rightarrow> bytes" where
  "pack_nack_fields nack =
     (if has_so nack
      then [ucast (drop_bit 8 (so_start nack)), ucast (so_start nack), ucast (drop_bit 8 (so_end nack)), ucast (so_end nack)]
      else []) @
     (if has_nack_range nack then [nack_range nack] else [])"

text \<open>One NACK; \<open>follows\<close> says that another one follows.\<close>

definition pack_nack_12bit :: "bool \<Rightarrow> rlc_am_status_nack \<Rightarrow> bytes" where
  "pack_nack_12bit follows nack =
     [ucast (drop_bit 4 (nack_sn nack) AND 0xff),
      ucast (push_bit 4 (nack_sn nack AND 0x0f)) OR (if follows then 0x08 else 0) OR
        (if has_so nack then 0x04 else 0) OR (if has_nack_range nack then 0x02 else 0)] @
     pack_nack_fields nack"

definition pack_nack_18bit :: "bool \<Rightarrow> rlc_am_status_nack \<Rightarrow> bytes" where
  "pack_nack_18bit follows nack =
     [ucast (drop_bit 10 (nack_sn nack) AND 0xff), ucast (drop_bit 2 (nack_sn nack) AND 0xff),
      ucast (push_bit 6 (nack_sn nack) AND 0xc0) OR (if follows then 0x20 else 0) OR
        (if has_so nack then 0x10 else 0) OR (if has_nack_range nack then 0x08 else 0)] @
     pack_nack_fields nack"

fun pack_nacks :: "(bool \<Rightarrow> rlc_am_status_nack \<Rightarrow> bytes) \<Rightarrow> rlc_am_status_nack list \<Rightarrow> bytes" where
  "pack_nacks pack_nack [] = []"
| "pack_nacks pack_nack (nack # ns) = pack_nack (ns \<noteq> []) nack @ pack_nacks pack_nack ns"

definition pack_12bit :: "rlc_am_status_pdu \<Rightarrow> bytes" where
  "pack_12bit s =
     [ucast (drop_bit 8 (sp_ack_sn s) AND 0x0f), ucast (sp_ack_sn s AND 0xff), if sp_nacks s \<noteq> [] then 0x80 else 0x00] @
     pack_nacks pack_nack_12bit (sp_nacks s)"

definition pack_18bit :: "rlc_am_status_pdu \<Rightarrow> bytes" where
  "pack_18bit s =
     [ucast (drop_bit 14 (sp_ack_sn s) AND 0x0f), ucast (drop_bit 6 (sp_ack_sn s) AND 0xff),
      ucast (push_bit 2 (sp_ack_sn s) AND 0xfc) OR (if sp_nacks s \<noteq> [] then 0x02 else 0)] @
     pack_nacks pack_nack_18bit (sp_nacks s)"

definition status_pack :: "rlc_am_status_pdu \<Rightarrow> bytes" where
  "status_pack s = (case sp_sn_size s of Am12 \<Rightarrow> pack_12bit s | Am18 \<Rightarrow> pack_18bit s)"

end
