(* ===== verification/Rlc_Am_Segments.thy ===== *)
theory Rlc_Am_Segments
  imports Rlc_Config
begin

text \<open>
  The segments of an SDU that is being received, as the RX side of the acknowledged mode stores
  them (\<open>rlc_rx_am_entity.h\<close> and \<open>store_segment\<close>, \<open>update_segment_inventory\<close> and
  \<open>reassemble_sdu\<close> of \<open>rlc_rx_am_entity.cpp\<close>). The ordered \<open>std::set\<close> of segments is the list of
  its elements in increasing order of their segment offset (SO); a \<open>byte_buffer_slice\<close> is the list
  of its bytes, \<open>advance\<close> drops a prefix.
\<close>

section \<open>Segments and SDU information\<close>

record rlc_rx_am_sdu_segment =
  seg_si :: rlc_si_field
  seg_so :: u16
  seg_payload :: bytes

datatype sdu_data =
    Sdu_slice bytes
  | Sdu_segment_set "rlc_rx_am_sdu_segment list"

record rlc_rx_am_sdu_info =
  fully_received :: bool
  has_gap :: bool
  sdu_data :: sdu_data

definition sdu_info_init :: rlc_rx_am_sdu_info where
  "sdu_info_init = \<lparr>fully_received = False, has_gap = False, sdu_data = Sdu_slice []\<rparr>"

text \<open>\<open>std::set::insert\<close> with the order by SO: an element with a present key is not inserted.\<close>

definition segment_less :: "rlc_rx_am_sdu_segment \<Rightarrow> rlc_rx_am_sdu_segment \<Rightarrow> bool" where
  "segment_less a b \<longleftrightarrow> seg_so a < seg_so b"

fun set_insert :: "rlc_rx_am_sdu_segment \<Rightarrow> rlc_rx_am_sdu_segment list \<Rightarrow> rlc_rx_am_sdu_segment list" where
  "set_insert x [] = [x]"
| "set_insert x (y # ys) =
     (if segment_less x y then x # y # ys else if segment_less y x then y # set_insert x ys else y # ys)"

section \<open>Operations\<close>

definition last_byte :: "rlc_rx_am_sdu_segment \<Rightarrow> u32" where
  "last_byte s = ucast (seg_so s) + of_nat (length (seg_payload s)) - 1"

definition advance_to :: "u32 \<Rightarrow> rlc_rx_am_sdu_segment \<Rightarrow> rlc_rx_am_sdu_segment" where
  "advance_to next s =
     s\<lparr>seg_payload := drop (unat (next - ucast (seg_so s))) (seg_payload s), seg_so := ucast next\<rparr>"

text \<open>
  The loop of \<open>store_segment\<close>: the segments before and from the current position, and the new
  segment, which may have been trimmed.
\<close>

fun store_loop :: "rlc_rx_am_sdu_segment list \<Rightarrow> rlc_rx_am_sdu_segment list \<Rightarrow> rlc_rx_am_sdu_segment \<Rightarrow>
    bool \<times> rlc_rx_am_sdu_segment list" where
  "store_loop front [] new = (True, set_insert new front)"
| "store_loop front (cur # rest) new =
     (if last_byte cur < ucast (seg_so new) then store_loop (front @ [cur]) rest new
      else if seg_so cur \<le> seg_so new then
        if last_byte new \<le> last_byte cur then (False, front @ cur # rest)
        else store_loop (front @ [cur]) rest (advance_to (last_byte cur + 1) new)
      else if last_byte new < ucast (seg_so cur) then (True, set_insert new (front @ cur # rest))
      else if last_byte new < last_byte cur then
        (True, set_insert new (set_insert (advance_to (last_byte new + 1) cur) (front @ rest)))
      else store_loop front rest new)"

definition store_segment :: "rlc_rx_am_sdu_info \<Rightarrow> rlc_rx_am_sdu_segment \<Rightarrow> bool \<times> rlc_rx_am_sdu_info" where
  "store_segment info new =
     (let segments = (case sdu_data info of Sdu_segment_set segs \<Rightarrow> segs | Sdu_slice _ \<Rightarrow> []);
          (stored, segments') = store_loop [] segments new in
      (stored, info\<lparr>sdu_data := Sdu_segment_set segments'\<rparr>))"

fun inventory :: "u32 \<Rightarrow> rlc_rx_am_sdu_segment list \<Rightarrow> bool \<times> bool" where
  "inventory next [] = (False, False)"
| "inventory next (s # ss) =
     (if ucast (seg_so s) \<noteq> next then (False, True)
      else if seg_si s = Last_segment then (True, False)
      else inventory (next + of_nat (length (seg_payload s))) ss)"

definition update_segment_inventory :: "rlc_rx_am_sdu_info \<Rightarrow> rlc_rx_am_sdu_info run" where
  "update_segment_inventory info =
     (case sdu_data info of
        Sdu_slice _ \<Rightarrow> Inl Bad_argument
      | Sdu_segment_set segs \<Rightarrow>
          (let (full, gap) = inventory 0 segs in Inr (info\<lparr>fully_received := full, has_gap := gap\<rparr>)))"

text \<open>\<open>chain_ok\<close>: the buffer pool has the chunks for the chain and for what is appended to it.\<close>

definition reassemble_sdu :: "bool \<Rightarrow> rlc_rx_am_sdu_info \<Rightarrow> bytes option" where
  "reassemble_sdu chain_ok info =
     (if \<not> fully_received info then None
      else if \<not> chain_ok then None
      else case sdu_data info of
        Sdu_slice payload \<Rightarrow> Some payload
      | Sdu_segment_set segs \<Rightarrow> Some (concat (map seg_payload segs)))"

section \<open>Well-formed segment sets\<close>

definition seg_end :: "rlc_rx_am_sdu_segment \<Rightarrow> nat" where
  "seg_end s = unat (seg_so s) + length (seg_payload s)"

definition seg_wf :: "rlc_rx_am_sdu_segment \<Rightarrow> bool" where
  "seg_wf s \<longleftrightarrow> seg_payload s \<noteq> [] \<and> seg_end s \<le> 2 ^ 16"

definition segs_ok :: "rlc_rx_am_sdu_segment list \<Rightarrow> bool" where
  "segs_ok ss \<longleftrightarrow> (\<forall>s \<in> set ss. seg_wf s) \<and> sorted_wrt (\<lambda>a b. seg_end a \<le> unat (seg_so b)) ss"

text \<open>The offsets that a segment and a set of segments hold.\<close>

definition seg_offsets :: "rlc_rx_am_sdu_segment \<Rightarrow> nat set" where
  "seg_offsets s = {unat (seg_so s) ..< seg_end s}"

definition segs_offsets :: "rlc_rx_am_sdu_segment list \<Rightarrow> nat set" where
  "segs_offsets ss = (\<Union>s \<in> set ss. seg_offsets s)"

lemma segs_offsets_simps [simp]:
  "segs_offsets [] = {}" "segs_offsets (s # ss) = seg_offsets s \<union> segs_offsets ss"
  "segs_offsets (ss @ ts) = segs_offsets ss \<union> segs_offsets ts"
  by (auto simp: segs_offsets_def)

text \<open>What trimming leaves of a segment.\<close>

definition tail_of :: "rlc_rx_am_sdu_segment \<Rightarrow> rlc_rx_am_sdu_segment \<Rightarrow> bool" where
  "tail_of t s \<longleftrightarrow> seg_si t = seg_si s \<and> seg_so s \<le> seg_so t \<and> seg_end t = seg_end s \<and>
     seg_payload t = drop (unat (seg_so t) - unat (seg_so s)) (seg_payload s)"

lemma tail_of_refl [simp]: "tail_of s s"
  by (simp add: tail_of_def)

lemma tail_of_trans:
  assumes "tail_of t s" and "tail_of s r"
  shows "tail_of t r"
proof -
  have "unat (seg_so r) \<le> unat (seg_so s)" "unat (seg_so s) \<le> unat (seg_so t)"
    using assms by (simp_all add: tail_of_def word_le_nat_alt)
  then show ?thesis using assms by (auto simp: tail_of_def word_le_nat_alt)
qed

lemma seg_wf_so: "seg_wf s \<Longrightarrow> unat (seg_so s) < seg_end s"
  by (simp add: seg_wf_def seg_end_def)

lemma unat_so_u32: "unat (ucast (so :: u16) :: u32) = unat so"
  using unsigned_less [where 'a = nat, of so] by (simp add: unsigned_ucast_eq take_bit_eq_mod)

lemma unat_last_byte:
  assumes "seg_wf s"
  shows "unat (last_byte s) = seg_end s - 1"
proof -
  have "last_byte s = of_nat (seg_end s - 1)"
    using assms unat_so_u32 [of "seg_so s"]
    by (cases "seg_payload s") (simp_all add: last_byte_def seg_end_def seg_wf_def word_unat_eq_iff unsigned_of_nat take_bit_eq_mod unat_word_ariths)
  moreover have "seg_end s - 1 < 2 ^ 32" using assms by (auto simp: seg_wf_def)
  ultimately show ?thesis by (simp add: unsigned_of_nat take_bit_eq_mod)
qed

lemma advance_to_tail:
  assumes "seg_wf s" and "unat (seg_so s) \<le> unat next" and "unat next < seg_end s"
  shows "tail_of (advance_to next s) s" and "unat (seg_so (advance_to next s)) = unat next"
    and "seg_wf (advance_to next s)" and "seg_end (advance_to next s) = seg_end s"
proof -
  have n: "unat next < 2 ^ 16" using assms by (simp add: seg_wf_def)
  show so: "unat (seg_so (advance_to next s)) = unat next"
    using n by (simp add: advance_to_def unsigned_ucast_eq take_bit_eq_mod)
  have d: "unat (next - ucast (seg_so s)) = unat next - unat (seg_so s)"
    using assms(2) by (simp add: unat_sub word_le_nat_alt unat_so_u32)
  have p: "seg_payload (advance_to next s) = drop (unat next - unat (seg_so s)) (seg_payload s)"
    by (simp add: advance_to_def d)
  show e: "seg_end (advance_to next s) = seg_end s"
    using assms(2,3) unfolding seg_end_def so p by simp
  show "tail_of (advance_to next s) s"
    using assms(2) by (simp add: tail_of_def so p e word_le_nat_alt) (simp add: advance_to_def)
  show "seg_wf (advance_to next s)"
    using assms unfolding seg_wf_def e by (auto simp: p seg_end_def)
qed

section \<open>Storing a segment\<close>

lemma set_insert_between:
  assumes "\<forall>t \<in> set before. seg_so t < seg_so x" and "\<forall>t \<in> set rest. seg_so x < seg_so t"
  shows "set_insert x (before @ rest) = before @ x # rest"
  using assms
proof (induction before)
  case Nil
  then show ?case by (cases rest) (simp_all add: segment_less_def)
next
  case (Cons b bs)
  then have "seg_so b < seg_so x" by simp
  then show ?case using Cons by (auto simp: segment_less_def)
qed

lemma segs_ok_append:
  "segs_ok (as @ bs) \<longleftrightarrow> segs_ok as \<and> segs_ok bs \<and> (\<forall>a \<in> set as. \<forall>b \<in> set bs. seg_end a \<le> unat (seg_so b))"
  by (auto simp: segs_ok_def sorted_wrt_append)

lemma segs_ok_Cons:
  "segs_ok (a # bs) \<longleftrightarrow> seg_wf a \<and> segs_ok bs \<and> (\<forall>b \<in> set bs. seg_end a \<le> unat (seg_so b))"
  by (auto simp: segs_ok_def)

lemma segs_ok_Nil [simp]: "segs_ok []"
  by (simp add: segs_ok_def)

lemma segs_ok_wf: "segs_ok ss \<Longrightarrow> s \<in> set ss \<Longrightarrow> seg_wf s"
  by (simp add: segs_ok_def)

lemma insert_between_ok:
  assumes "segs_ok (before @ rest)" and "seg_wf x"
    and "\<forall>t \<in> set before. seg_end t \<le> unat (seg_so x)" and "\<forall>t \<in> set rest. seg_end x \<le> unat (seg_so t)"
  shows "set_insert x (before @ rest) = before @ x # rest" and "segs_ok (before @ x # rest)"
proof -
  have "seg_so t < seg_so x" if "t \<in> set before" for t
    using assms(3) that seg_wf_so [of t] segs_ok_wf [OF assms(1), of t]
    by (fastforce simp: word_less_nat_alt)
  moreover have "seg_so x < seg_so t" if "t \<in> set rest" for t
    using assms(4) that seg_wf_so [OF assms(2)] by (fastforce simp: word_less_nat_alt)
  ultimately show "set_insert x (before @ rest) = before @ x # rest" by (intro set_insert_between) blast+
  show "segs_ok (before @ x # rest)" using assms by (auto simp: segs_ok_append segs_ok_Cons)
qed

definition tails :: "rlc_rx_am_sdu_segment list \<Rightarrow> rlc_rx_am_sdu_segment list \<Rightarrow> bool" where
  "tails ts ss \<longleftrightarrow> (\<forall>t \<in> set ts. \<exists>s \<in> set ss. tail_of t s)"

lemma tails_subset: "set ts \<subseteq> set ss \<Longrightarrow> tails ts ss"
  unfolding tails_def using tail_of_refl by blast

lemma tails_mono: "tails ts ss \<Longrightarrow> set ss \<subseteq> set rs \<Longrightarrow> tails ts rs"
  unfolding tails_def by blast

lemma tails_Nil [simp]: "tails [] ss"
  by (simp add: tails_def)

lemma tails_append [simp]: "tails (ts @ us) ss \<longleftrightarrow> tails ts ss \<and> tails us ss"
  by (auto simp: tails_def)

lemma tails_Cons [simp]: "tails (t # us) ss \<longleftrightarrow> (\<exists>s \<in> set ss. tail_of t s) \<and> tails us ss"
  by (auto simp: tails_def)

lemma tails_new: "tails ts (n # ss) \<Longrightarrow> tail_of n m \<Longrightarrow> tails ts (m # ss)"
  unfolding tails_def using tail_of_trans by (metis set_ConsD list.set_intros(1,2))

text \<open>
  What a call of the loop achieves: the segments stay sorted and disjoint, they hold the offsets
  held before and those of the new segment, all of them are (tails of) former segments or of the new
  one, and the result says whether a byte was missing before.
\<close>

definition stores :: "rlc_rx_am_sdu_segment list \<Rightarrow> rlc_rx_am_sdu_segment \<Rightarrow> bool \<times> rlc_rx_am_sdu_segment list \<Rightarrow> bool" where
  "stores ss new r \<longleftrightarrow> segs_ok (snd r) \<and> segs_offsets (snd r) = segs_offsets ss \<union> seg_offsets new \<and>
     tails (snd r) (new # ss) \<and>
     (fst r \<longleftrightarrow> \<not> seg_offsets new \<subseteq> segs_offsets ss) \<and> (\<not> fst r \<longrightarrow> snd r = ss)"

lemma offsets_bound: "segs_ok ss \<Longrightarrow> \<forall>s \<in> set ss. k \<le> unat (seg_so s) \<Longrightarrow> n \<in> segs_offsets ss \<Longrightarrow> k \<le> n"
  by (auto simp: segs_offsets_def seg_offsets_def)

lemma offsets_bound': "\<forall>s \<in> set ss. seg_end s \<le> k \<Longrightarrow> n \<in> segs_offsets ss \<Longrightarrow> n < k"
  by (auto simp: segs_offsets_def seg_offsets_def)

lemma stores_trimmed:
  assumes "stores ss new' r" and "tail_of new' new" and "seg_offsets new \<subseteq> seg_offsets new' \<union> segs_offsets ss"
  shows "stores ss new r"
proof -
  have "seg_offsets new' \<subseteq> seg_offsets new"
    using assms(2) by (auto simp: tail_of_def seg_offsets_def word_le_nat_alt)
  moreover have "tails (snd r) (new # ss)"
    using assms(1,2) unfolding stores_def by (blast intro: tails_new)
  ultimately show ?thesis using assms(1,3) unfolding stores_def by blast
qed

lemma store_loop_stores:
  assumes "segs_ok (before @ todo)" and "seg_wf new" and "\<forall>s \<in> set before. seg_end s \<le> unat (seg_so new)"
  shows "stores (before @ todo) new (store_loop before todo new)"
  using assms
proof (induction before todo new rule: store_loop.induct)
  case (1 before new)
  have "unat (seg_so new) \<in> seg_offsets new" using seg_wf_so [OF 1(2)] by (simp add: seg_offsets_def)
  moreover have "unat (seg_so new) \<notin> segs_offsets before" using 1(3) offsets_bound' by blast
  ultimately show ?case
    using insert_between_ok [of before "[]" new] 1 tails_subset [of before "new # before"] by (auto simp: stores_def)
next
  case (2 before cur rest new)
  have wf: "seg_wf cur" and ok: "segs_ok before" "segs_ok rest" and le: "\<forall>s \<in> set before. seg_end s \<le> unat (seg_so cur)"
    and ge: "\<forall>s \<in> set rest. seg_end cur \<le> unat (seg_so s)"
    and br: "\<forall>a \<in> set before. \<forall>b \<in> set rest. seg_end a \<le> unat (seg_so b)"
    using "2.prems"(1) by (auto simp: segs_ok_append segs_ok_Cons)
  note lb = unat_last_byte [OF wf] unat_last_byte [OF "2.prems"(2)]
  note so = seg_wf_so [OF wf] seg_wf_so [OF "2.prems"(2)]
  consider (after) "seg_end cur \<le> unat (seg_so new)"
    | (inside) "unat (seg_so new) < seg_end cur" "unat (seg_so cur) \<le> unat (seg_so new)" "seg_end new \<le> seg_end cur"
    | (overlap) "unat (seg_so new) < seg_end cur" "unat (seg_so cur) \<le> unat (seg_so new)" "seg_end cur < seg_end new"
    | (before) "unat (seg_so new) < unat (seg_so cur)" "seg_end new \<le> unat (seg_so cur)"
    | (cut) "unat (seg_so new) < unat (seg_so cur)" "unat (seg_so cur) < seg_end new" "seg_end new < seg_end cur"
    | (covers) "unat (seg_so new) < unat (seg_so cur)" "unat (seg_so cur) < seg_end new" "seg_end cur \<le> seg_end new"
    by linarith
  then show ?case
  proof cases
    case after
    have c: "last_byte cur < ucast (seg_so new)" using after so by (simp add: word_less_nat_alt lb unat_so_u32)
    then show ?thesis using "2.IH"(1) [OF c] "2.prems" after by auto
  next
    case inside
    have c: "\<not> last_byte cur < ucast (seg_so new)" "seg_so cur \<le> seg_so new" "last_byte new \<le> last_byte cur"
      using inside so by (simp_all add: word_less_nat_alt word_le_nat_alt lb unat_so_u32)
    have "seg_offsets new \<subseteq> seg_offsets cur" using inside by (auto simp: seg_offsets_def)
    then show ?thesis using c "2.prems"(1) tails_subset [of "before @ cur # rest" "new # before @ cur # rest"]
      by (auto simp: stores_def)
  next
    case overlap
    have c: "\<not> last_byte cur < ucast (seg_so new)" "seg_so cur \<le> seg_so new" "\<not> last_byte new \<le> last_byte cur"
      using overlap so by (simp_all add: word_less_nat_alt word_le_nat_alt lb unat_so_u32)
    have n: "unat (last_byte cur + 1) = seg_end cur"
      using unat_add_one [of "last_byte cur" "last_byte new"] c(3) lb so by (simp add: not_le)
    let ?new = "advance_to (last_byte cur + 1) new"
    have t: "tail_of ?new new" "unat (seg_so ?new) = seg_end cur" "seg_wf ?new" "seg_end ?new = seg_end new"
      using advance_to_tail [OF "2.prems"(2), of "last_byte cur + 1"] n overlap by simp_all
    have "stores (before @ cur # rest) ?new (store_loop (before @ [cur]) rest ?new)"
      using "2.IH"(2) [OF c(1,2,3)] "2.prems"(1) t le so by fastforce
    moreover have "seg_offsets new \<subseteq> seg_offsets ?new \<union> segs_offsets (before @ cur # rest)"
      using overlap t by (auto simp: seg_offsets_def)
    ultimately show ?thesis using stores_trimmed [OF _ t(1)] c by simp
  next
    case before
    have c: "\<not> last_byte cur < ucast (seg_so new)" "\<not> seg_so cur \<le> seg_so new" "last_byte new < ucast (seg_so cur)"
      using before so by (simp_all add: word_less_nat_alt word_le_nat_alt lb unat_so_u32)
    have i: "set_insert new (before @ cur # rest) = before @ new # cur # rest" "segs_ok (before @ new # cur # rest)"
      using before ge so by (intro insert_between_ok [OF "2.prems"(1,2,3)]; fastforce)+
    have "unat (seg_so new) \<notin> segs_offsets (before @ cur # rest)"
      using before ge so "2.prems"(3) by (fastforce simp: segs_offsets_def seg_offsets_def)
    moreover have "unat (seg_so new) \<in> seg_offsets new" using so by (simp add: seg_offsets_def)
    ultimately show ?thesis using c i tails_subset [of "before @ new # cur # rest" "new # before @ cur # rest"]
      by (auto simp: stores_def)
  next
    case cut
    have c: "\<not> last_byte cur < ucast (seg_so new)" "\<not> seg_so cur \<le> seg_so new" "\<not> last_byte new < ucast (seg_so cur)"
        "last_byte new < last_byte cur"
      using cut so by (simp_all add: word_less_nat_alt word_le_nat_alt lb unat_so_u32)
    have n: "unat (last_byte new + 1) = seg_end new"
      using unat_add_one [OF c(4)] lb so by simp
    let ?cur = "advance_to (last_byte new + 1) cur"
    have t: "tail_of ?cur cur" "unat (seg_so ?cur) = seg_end new" "seg_wf ?cur" "seg_end ?cur = seg_end cur"
      using advance_to_tail [OF wf, of "last_byte new + 1"] n cut by simp_all
    have ok': "segs_ok (before @ rest)" using "2.prems"(1) by (simp add: segs_ok_append segs_ok_Cons)
    have i1: "set_insert ?cur (before @ rest) = before @ ?cur # rest" "segs_ok (before @ ?cur # rest)"
      using t ge le cut by (intro insert_between_ok [OF ok' t(3)]; fastforce)+
    have i2: "set_insert new (before @ ?cur # rest) = before @ new # ?cur # rest" "segs_ok (before @ new # ?cur # rest)"
      using t ge cut by (intro insert_between_ok [OF i1(2) "2.prems"(2,3)]; fastforce)+
    have "unat (seg_so new) \<notin> segs_offsets (before @ cur # rest)"
      using cut ge so "2.prems"(3) by (fastforce simp: segs_offsets_def seg_offsets_def)
    moreover have "unat (seg_so new) \<in> seg_offsets new" using so by (simp add: seg_offsets_def)
    moreover have "seg_offsets new \<union> seg_offsets ?cur = seg_offsets new \<union> seg_offsets cur"
      using cut t by (auto simp: seg_offsets_def)
    moreover have "tails (before @ new # ?cur # rest) (new # before @ cur # rest)"
      using t(1) tails_subset [of before "new # before @ cur # rest"] tails_subset [of rest "new # before @ cur # rest"] by auto
    ultimately show ?thesis using c i1 i2 unfolding stores_def by auto
  next
    case covers
    have c: "\<not> last_byte cur < ucast (seg_so new)" "\<not> seg_so cur \<le> seg_so new" "\<not> last_byte new < ucast (seg_so cur)"
        "\<not> last_byte new < last_byte cur"
      using covers so by (simp_all add: word_less_nat_alt word_le_nat_alt lb unat_so_u32)
    have "segs_ok (before @ rest)" using "2.prems"(1) by (simp add: segs_ok_append segs_ok_Cons)
    then have ih: "stores (before @ rest) new (store_loop before rest new)"
      using "2.IH"(3) [OF c] "2.prems" by blast
    have cov: "seg_offsets cur \<subseteq> seg_offsets new" using covers by (auto simp: seg_offsets_def)
    have "unat (seg_so new) \<notin> segs_offsets (before @ cur # rest)"
      using covers ge so "2.prems"(3) by (fastforce simp: segs_offsets_def seg_offsets_def)
    moreover have "unat (seg_so new) \<in> seg_offsets new" using so by (simp add: seg_offsets_def)
    ultimately have new: "\<not> seg_offsets new \<subseteq> segs_offsets (before @ cur # rest)" by blast
    then have "\<not> seg_offsets new \<subseteq> segs_offsets (before @ rest)" by auto
    moreover have "tails ts (new # before @ rest) \<Longrightarrow> tails ts (new # before @ cur # rest)" for ts
      by (erule tails_mono) auto
    ultimately show ?thesis using ih new cov c unfolding stores_def by auto
  qed
qed

section \<open>Segments of one SDU\<close>

text \<open>
  What a peer that follows the protocol sends: bytes of one SDU, where the segment that ends the SDU,
  and no other, carries the SI of a last segment.
\<close>

definition segment_of :: "bytes \<Rightarrow> rlc_rx_am_sdu_segment \<Rightarrow> bool" where
  "segment_of sdu s \<longleftrightarrow> seg_payload s \<noteq> [] \<and> seg_end s \<le> length sdu \<and>
     seg_payload s = take (length (seg_payload s)) (drop (unat (seg_so s)) sdu) \<and>
     (seg_si s = Last_segment \<longleftrightarrow> seg_end s = length sdu)"

lemma segment_of_wf: "segment_of sdu s \<Longrightarrow> length sdu \<le> 2 ^ 16 \<Longrightarrow> seg_wf s"
  by (simp add: segment_of_def seg_wf_def)

lemma segment_of_tail:
  assumes "segment_of sdu s" and "tail_of t s" and "seg_payload t \<noteq> []"
  shows "segment_of sdu t"
proof -
  let ?k = "unat (seg_so t) - unat (seg_so s)"
  have so: "unat (seg_so s) \<le> unat (seg_so t)" using assms(2) by (simp add: tail_of_def word_le_nat_alt)
  have p: "seg_payload t = drop ?k (seg_payload s)" and e: "seg_end t = seg_end s" and si: "seg_si t = seg_si s"
    using assms(2) by (simp_all add: tail_of_def)
  have "seg_payload t = drop ?k (take (length (seg_payload s)) (drop (unat (seg_so s)) sdu))"
    using p assms(1) by (simp add: segment_of_def)
  also have "\<dots> = take (length (seg_payload t)) (drop (unat (seg_so t)) sdu)"
    using so by (simp add: drop_take p)
  finally show ?thesis using assms e si by (simp add: segment_of_def)
qed

lemma store_segments_of:
  assumes "segs_ok ss" and "\<forall>s \<in> set ss. segment_of sdu s" and "segment_of sdu new" and "length sdu \<le> 2 ^ 16"
  shows "stores ss new (store_loop [] ss new)" and "\<forall>s \<in> set (snd (store_loop [] ss new)). segment_of sdu s"
proof -
  show st: "stores ss new (store_loop [] ss new)"
    using store_loop_stores [of "[]" ss new] assms segment_of_wf by simp
  show "\<forall>s \<in> set (snd (store_loop [] ss new)). segment_of sdu s"
  proof
    fix t assume t: "t \<in> set (snd (store_loop [] ss new))"
    moreover have "tails (snd (store_loop [] ss new)) (new # ss)" using st unfolding stores_def by blast
    ultimately obtain s where "s \<in> set (new # ss)" "tail_of t s" unfolding tails_def by blast
    moreover have "seg_payload t \<noteq> []" using st t segs_ok_wf by (fastforce simp: stores_def seg_wf_def)
    ultimately show "segment_of sdu t" using assms(2,3) segment_of_tail by auto
  qed
qed

text \<open>
  The inventory from offset \<open>next\<close> on, with segments that start there or later: full when all offsets
  to the end of the SDU are held; a gap when a held byte has a missing byte before it.
\<close>

lemma segs_offsets_less: "\<forall>s \<in> set ss. segment_of sdu s \<Longrightarrow> n \<in> segs_offsets ss \<Longrightarrow> n < length sdu"
  by (auto simp: segs_offsets_def seg_offsets_def segment_of_def)

lemma unat_next:
  assumes "unat (next :: u32) + n \<le> 2 ^ 16"
  shows "unat (next + of_nat n) = unat next + n"
  using assms by (simp add: unat_word_ariths unsigned_of_nat take_bit_eq_mod)

lemma inventory_spec:
  assumes "segs_ok ss" and "\<forall>s \<in> set ss. segment_of sdu s" and "length sdu \<le> 2 ^ 16"
    and "\<forall>s \<in> set ss. unat next \<le> unat (seg_so s)" and "unat next < length sdu"
  shows "fst (inventory next ss) \<longleftrightarrow> segs_offsets ss = {unat next ..< length sdu}"
    and "snd (inventory next ss) \<longleftrightarrow> (\<exists>n k. n \<in> segs_offsets ss \<and> unat next \<le> k \<and> k < n \<and> k \<notin> segs_offsets ss)"
    and "fst (inventory next ss) \<longrightarrow> concat (map seg_payload ss) = drop (unat next) sdu"
proof -
  have "(fst (inventory next ss) \<longleftrightarrow> segs_offsets ss = {unat next ..< length sdu}) \<and>
    (snd (inventory next ss) \<longleftrightarrow> (\<exists>n k. n \<in> segs_offsets ss \<and> unat next \<le> k \<and> k < n \<and> k \<notin> segs_offsets ss)) \<and>
    (fst (inventory next ss) \<longrightarrow> concat (map seg_payload ss) = drop (unat next) sdu)"
    using assms
  proof (induction ss arbitrary: "next")
    case Nil
    then show ?case by auto
  next
    case (Cons s ss)
    have s: "segment_of sdu s" "seg_wf s" and ok: "segs_ok ss" and later: "\<forall>t \<in> set ss. seg_end s \<le> unat (seg_so t)"
      using Cons.prems by (auto simp: segs_ok_Cons)
    have low: "seg_end s \<le> n" if "n \<in> segs_offsets ss" for n using offsets_bound [OF ok later that] .
    have so: "unat next \<le> unat (seg_so s)" "unat (seg_so s) < seg_end s" using Cons.prems seg_wf_so [OF s(2)] by auto
    show ?case
    proof (cases "ucast (seg_so s) = next")
      case False
      then have g: "unat next < unat (seg_so s)" using so(1) unat_so_u32 [of "seg_so s"] by (auto simp: word_unat_eq_iff)
      have m: "unat next \<notin> segs_offsets (s # ss)" using g low so by (fastforce simp: seg_offsets_def)
      moreover have "unat (seg_so s) \<in> segs_offsets (s # ss)" using so by (simp add: seg_offsets_def)
      ultimately show ?thesis using False g Cons.prems(5) by (auto simp del: segs_offsets_simps)
    next
      case True
      then have n: "unat next = unat (seg_so s)" using unat_so_u32 [of "seg_so s"] by simp
      have p: "seg_payload s = take (length (seg_payload s)) (drop (unat next) sdu)"
        using s(1) n by (simp add: segment_of_def)
      have e: "seg_end s = unat next + length (seg_payload s)" using n by (simp add: seg_end_def)
      show ?thesis
      proof (cases "seg_si s = Last_segment")
        case last: True
        then have le: "seg_end s = length sdu" using s(1) by (simp add: segment_of_def)
        then have "ss = []"
          using later Cons.prems(2) segs_ok_wf [OF ok] seg_wf_so by (cases ss) (fastforce simp: segment_of_def)+
        then show ?thesis using True last n le p e by (auto simp: seg_offsets_def)
      next
        case nl: False
        then have lt: "seg_end s < length sdu" using s(1) by (auto simp: segment_of_def)
        let ?next = "next + of_nat (length (seg_payload s))"
        have un: "unat ?next = seg_end s" using e lt Cons.prems(3) by (simp add: unat_next)
        note ih = Cons.IH [OF ok _ Cons.prems(3), of ?next, unfolded un]
        have ih: "fst (inventory ?next ss) \<longleftrightarrow> segs_offsets ss = {seg_end s ..< length sdu}"
          "snd (inventory ?next ss) \<longleftrightarrow> (\<exists>n k. n \<in> segs_offsets ss \<and> seg_end s \<le> k \<and> k < n \<and> k \<notin> segs_offsets ss)"
          "fst (inventory ?next ss) \<longrightarrow> concat (map seg_payload ss) = drop (seg_end s) sdu"
          using ih later lt Cons.prems(2) by auto
        have off: "seg_offsets s = {unat next ..< seg_end s}" using n by (simp add: seg_offsets_def)
        have "segs_offsets ss = {seg_end s ..< length sdu} \<longleftrightarrow> segs_offsets (s # ss) = {unat next ..< length sdu}"
        proof
          assume "segs_offsets ss = {seg_end s ..< length sdu}"
          then show "segs_offsets (s # ss) = {unat next ..< length sdu}" using off lt so n by auto
        next
          assume "segs_offsets (s # ss) = {unat next ..< length sdu}"
          moreover have "segs_offsets (s # ss) - {unat next ..< seg_end s} = segs_offsets ss" using off low by (fastforce simp: not_less [symmetric])
          ultimately show "segs_offsets ss = {seg_end s ..< length sdu}" using so n by auto
        qed
        moreover have "(\<exists>m k. m \<in> segs_offsets ss \<and> seg_end s \<le> k \<and> k < m \<and> k \<notin> segs_offsets ss) \<longleftrightarrow>
            (\<exists>m k. m \<in> segs_offsets (s # ss) \<and> unat next \<le> k \<and> k < m \<and> k \<notin> segs_offsets (s # ss))"
          using low off so n by (auto, (metis atLeastLessThan_iff leD le_less_trans less_imp_le not_le)+)
        moreover have "concat (map seg_payload ss) = drop (seg_end s) sdu \<longrightarrow>
            concat (map seg_payload (s # ss)) = drop (unat next) sdu"
          using p e by (metis append_take_drop_id concat.simps(2) drop_drop add.commute list.simps(9))
        ultimately show ?thesis using ih True nl by simp
      qed
    qed
  qed
  then show "fst (inventory next ss) \<longleftrightarrow> segs_offsets ss = {unat next ..< length sdu}"
    and "snd (inventory next ss) \<longleftrightarrow> (\<exists>n k. n \<in> segs_offsets ss \<and> unat next \<le> k \<and> k < n \<and> k \<notin> segs_offsets ss)"
    and "fst (inventory next ss) \<longrightarrow> concat (map seg_payload ss) = drop (unat next) sdu"
    by blast+
qed

end
