(* ===== verification/Rlc_Rx_Metrics.thy ===== *)
theory Rlc_Rx_Metrics
  imports Prelude
begin

text \<open>
  The counters of RLC RX entities, \<open>lib/rlc/rlc_rx_metrics_container.h\<close> and
  \<open>include/ocudu/rlc/rlc_rx_metrics.h\<close>, which count only while metrics are enabled. The sum of the
  SDU latencies depends on the clock and is left out. Byte counts of type \<open>size_t\<close> are naturals.
\<close>

datatype rlc_rx_mode_metrics =
    Tm_rx_metrics
  | Um_rx_metrics u32 u32
  | Am_rx_metrics u32 u32 u32 u32

record rlc_rx_metrics =
  rrm_enabled :: bool
  rrm_num_sdus :: u32
  rrm_num_sdu_bytes :: nat
  rrm_num_pdus :: u32
  rrm_num_pdu_bytes :: nat
  rrm_num_lost_pdus :: u32
  rrm_num_malformed_pdus :: u32
  rrm_mode_specific :: rlc_rx_mode_metrics
  rrm_counter :: u32

datatype rlc_mode = Mode_tm | Mode_um_bidir | Mode_um_unidir_ul | Mode_um_unidir_dl | Mode_am

definition rrm_create :: "bool \<Rightarrow> rlc_rx_metrics" where
  "rrm_create enabled = \<lparr>rrm_enabled = enabled, rrm_num_sdus = 0, rrm_num_sdu_bytes = 0, rrm_num_pdus = 0,
     rrm_num_pdu_bytes = 0, rrm_num_lost_pdus = 0, rrm_num_malformed_pdus = 0, rrm_mode_specific = Tm_rx_metrics,
     rrm_counter = 0\<rparr>"

definition rrm_set_mode :: "rlc_mode \<Rightarrow> rlc_rx_metrics \<Rightarrow> rlc_rx_metrics" where
  "rrm_set_mode mode m =
     (if \<not> rrm_enabled m then m
      else m\<lparr>rrm_mode_specific :=
        (case mode of Mode_tm \<Rightarrow> Tm_rx_metrics | Mode_am \<Rightarrow> Am_rx_metrics 0 0 0 0 | _ \<Rightarrow> Um_rx_metrics 0 0)\<rparr>)"

definition rrm_add_sdus :: "u32 \<Rightarrow> nat \<Rightarrow> rlc_rx_metrics \<Rightarrow> rlc_rx_metrics" where
  "rrm_add_sdus n len m =
     (if \<not> rrm_enabled m then m
      else m\<lparr>rrm_num_sdus := rrm_num_sdus m + n, rrm_num_sdu_bytes := rrm_num_sdu_bytes m + len\<rparr>)"

definition rrm_add_pdus :: "u32 \<Rightarrow> nat \<Rightarrow> rlc_rx_metrics \<Rightarrow> rlc_rx_metrics" where
  "rrm_add_pdus n len m =
     (if \<not> rrm_enabled m then m
      else m\<lparr>rrm_num_pdus := rrm_num_pdus m + n, rrm_num_pdu_bytes := rrm_num_pdu_bytes m + len\<rparr>)"

definition rrm_add_lost_pdus :: "u32 \<Rightarrow> rlc_rx_metrics \<Rightarrow> rlc_rx_metrics" where
  "rrm_add_lost_pdus n m =
     (if \<not> rrm_enabled m then m else m\<lparr>rrm_num_lost_pdus := rrm_num_lost_pdus m + n\<rparr>)"

definition rrm_add_malformed_pdus :: "u32 \<Rightarrow> rlc_rx_metrics \<Rightarrow> rlc_rx_metrics" where
  "rrm_add_malformed_pdus n m =
     (if \<not> rrm_enabled m then m else m\<lparr>rrm_num_malformed_pdus := rrm_num_malformed_pdus m + n\<rparr>)"

definition rrm_add_ctrl_pdus :: "u32 \<Rightarrow> nat \<Rightarrow> rlc_rx_metrics \<Rightarrow> rlc_rx_metrics run" where
  "rrm_add_ctrl_pdus n len m =
     (if \<not> rrm_enabled m then Inr m
      else case rrm_mode_specific m of
        Am_rx_metrics segs seg_bytes ctrl ctrl_bytes \<Rightarrow>
          Inr (m\<lparr>rrm_mode_specific := Am_rx_metrics segs seg_bytes (ctrl + n) (ctrl_bytes + of_nat len)\<rparr>)
      | _ \<Rightarrow> Inl Bad_argument)"

definition rrm_get_metrics :: "rlc_rx_metrics \<Rightarrow> (rlc_rx_metrics \<times> rlc_rx_metrics) run" where
  "rrm_get_metrics m =
     (if \<not> rrm_enabled m then Inl Bad_argument else Inr (m, m\<lparr>rrm_counter := rrm_counter m + 1\<rparr>))"

definition rrm_reset_metrics :: "rlc_rx_metrics \<Rightarrow> rlc_rx_metrics run" where
  "rrm_reset_metrics m =
     (if \<not> rrm_enabled m then Inl Bad_argument
      else Inr (m\<lparr>rrm_num_sdus := 0, rrm_num_sdu_bytes := 0, rrm_num_pdus := 0, rrm_num_pdu_bytes := 0,
             rrm_num_lost_pdus := 0, rrm_num_malformed_pdus := 0,
             rrm_mode_specific :=
               (case rrm_mode_specific m of
                  Tm_rx_metrics \<Rightarrow> Tm_rx_metrics
                | Um_rx_metrics _ _ \<Rightarrow> Um_rx_metrics 0 0
                | Am_rx_metrics _ _ _ _ \<Rightarrow> Am_rx_metrics 0 0 0 0)\<rparr>))"

definition rrm_get_and_reset_metrics :: "rlc_rx_metrics \<Rightarrow> (rlc_rx_metrics \<times> rlc_rx_metrics) run" where
  "rrm_get_and_reset_metrics m =
     seq_run (rrm_get_metrics m) (\<lambda>(ret, m). seq_run (rrm_reset_metrics m) (\<lambda>m. Inr (ret, m)))"

text \<open>While metrics are enabled, the mode of an entity is the one that was set.\<close>

definition am_metrics_ok :: "rlc_rx_metrics \<Rightarrow> bool" where
  "am_metrics_ok m \<longleftrightarrow> (rrm_enabled m \<longrightarrow> (\<exists>a b c d. rrm_mode_specific m = Am_rx_metrics a b c d))"

lemma am_metrics_ok_add [simp]:
  "am_metrics_ok (rrm_add_sdus n len m) = am_metrics_ok m" "am_metrics_ok (rrm_add_pdus n len m) = am_metrics_ok m"
  "am_metrics_ok (rrm_add_lost_pdus n m) = am_metrics_ok m" "am_metrics_ok (rrm_add_malformed_pdus n m) = am_metrics_ok m"
  by (simp_all add: am_metrics_ok_def rrm_add_sdus_def rrm_add_pdus_def rrm_add_lost_pdus_def rrm_add_malformed_pdus_def)

lemma am_metrics_ok_create: "am_metrics_ok (rrm_set_mode Mode_am (rrm_create en))"
  by (simp add: am_metrics_ok_def rrm_set_mode_def rrm_create_def)

lemma rrm_add_ctrl_pdus_ok: "am_metrics_ok m \<Longrightarrow> \<exists>m'. rrm_add_ctrl_pdus n len m = Inr m' \<and> am_metrics_ok m'"
  by (auto simp: am_metrics_ok_def rrm_add_ctrl_pdus_def split: rlc_rx_mode_metrics.splits)

lemma rrm_get_and_reset_ok:
  "am_metrics_ok m \<Longrightarrow> rrm_enabled m \<Longrightarrow> \<exists>m'. rrm_get_and_reset_metrics m = Inr (m, m') \<and> am_metrics_ok m' \<and> rrm_num_sdus m' = 0"
  by (auto simp: am_metrics_ok_def rrm_get_and_reset_metrics_def rrm_get_metrics_def rrm_reset_metrics_def)

end
