(* ===== verification/Rlc_Rx_Am.thy ===== *)
theory Rlc_Rx_Am
  imports Rlc_Am_Pdu Rlc_Am_Segments Rlc_Rx_Metrics
begin

text \<open>
  The receiving entity of the acknowledged mode, \<open>lib/rlc/rlc_rx_am_entity.h\<close> and
  \<open>rlc_rx_am_entity.cpp\<close>: the state with its window, the handling of PDUs, status reports and timers.

  A timer is the fact that it is running; running a timer that was never set is a failed assertion.
  The three buffers of status reports, of which writer, exchange and reader own one each, are the
  three values; an exchange of two pointers exchanges the values. What the entity calls in other
  entities is returned as a list of events. Clocks, logging and packet capture are left out.
\<close>

section \<open>State\<close>

record rlc_rx_am_state =
  st_next :: u32
  st_next_status_trigger :: u32
  st_highest_status :: u32
  st_next_highest :: u32

record rlc_rx_am_entity =
  am_cfg :: rlc_rx_am_config
  am_st :: rlc_rx_am_state
  max_nof_sn_per_status_report :: u32
  do_status :: bool
  am_window :: "rlc_rx_am_sdu_info sdu_window"
  status_writer :: rlc_am_status_pdu
  status_exchange :: rlc_am_status_pdu
  status_reader :: rlc_am_status_pdu
  status_report_size :: u32
  status_prohibit_flag :: bool   \<comment> \<open>\<open>status_prohibit_timer_is_running\<close>\<close>
  status_prohibit_timer :: bool
  prohibit_deferred :: nat       \<comment> \<open>tasks deferred to the UE executor that will run the timer\<close>
  reassembly_timer :: bool
  am_is_drb :: bool
  dropped_sns :: "u32 list"      \<comment> \<open>the static set of the test hook\<close>
  am_metrics :: rlc_rx_metrics
  am_stopped :: bool

datatype rlc_am_event =
    New_sdu bytes
  | Status_pdu_received rlc_am_status_pdu
  | Status_report_changed

text \<open>The constants that the constructor takes from the configuration.\<close>

abbreviation am_size :: "rlc_rx_am_entity \<Rightarrow> rlc_am_sn_size" where
  "am_size s \<equiv> rac_sn_field_length (am_cfg s)"

definition am_mod_of :: "rlc_am_sn_size \<Rightarrow> u32" where
  "am_mod_of z = cardinality (am_sn_size_to_number z)"

definition am_window_size_of :: "rlc_am_sn_size \<Rightarrow> u32" where
  "am_window_size_of z = window_size (am_sn_size_to_number z)"

abbreviation am_mod :: "rlc_rx_am_entity \<Rightarrow> u32" where
  "am_mod s \<equiv> am_mod_of (am_size s)"

abbreviation am_window_size :: "rlc_rx_am_entity \<Rightarrow> u32" where
  "am_window_size s \<equiv> am_window_size_of (am_size s)"

definition rlc_rx_am_create :: "rlc_rx_am_config \<Rightarrow> bool \<Rightarrow> bool \<Rightarrow> rlc_rx_am_entity run" where
  "rlc_rx_am_create cfg is_drb metrics_enabled =
     (let z = rac_sn_field_length cfg in
      seq_run (win_create (unat (am_window_size_of z))) (\<lambda>w.
      seq_run (case rac_max_sn_per_status cfg of
          None \<Rightarrow> Inr (am_window_size_of z)
        | Some max_sn \<Rightarrow> if am_window_size_of z < max_sn \<or> max_sn = 0 then Inl Bad_argument else Inr max_sn) (\<lambda>max_sn.
        Inr \<lparr>am_cfg = cfg,
             am_st = \<lparr>st_next = 0, st_next_status_trigger = 0, st_highest_status = 0, st_next_highest = 0\<rparr>,
             max_nof_sn_per_status_report = max_sn, do_status = False, am_window = w,
             status_writer = status_create z, status_exchange = (status_create z)\<lparr>sp_ack_sn := 0\<rparr>,
             status_reader = status_create z, status_report_size = sp_packed_size (status_create z),
             status_prohibit_flag = False, status_prohibit_timer = False, prohibit_deferred = 0,
             reassembly_timer = False, am_is_drb = is_drb, dropped_sns = [],
             am_metrics = rrm_set_mode Mode_am (rrm_create metrics_enabled), am_stopped = False\<rparr>)))"

definition am_stop :: "rlc_rx_am_entity \<Rightarrow> rlc_rx_am_entity" where
  "am_stop s =
     (if am_stopped s then s else s\<lparr>status_prohibit_timer := False, reassembly_timer := False, am_stopped := True\<rparr>)"

section \<open>Window helpers\<close>

definition rx_mod_base :: "rlc_rx_am_entity \<Rightarrow> u32 \<Rightarrow> u32" where
  "rx_mod_base s sn = mod_base (am_mod s) (st_next (am_st s)) sn"

definition inside_rx_window :: "rlc_rx_am_entity \<Rightarrow> u32 \<Rightarrow> bool" where
  "inside_rx_window s sn \<longleftrightarrow> rx_mod_base s sn < am_window_size s"

definition valid_ack_sn :: "rlc_rx_am_entity \<Rightarrow> u32 \<Rightarrow> bool" where
  "valid_ack_sn s sn \<longleftrightarrow> 0 < rx_mod_base s sn \<and> rx_mod_base s sn \<le> am_window_size s"

text \<open>\<open>rx_window.has_sn(sn) && rx_window[sn].fully_received\<close>\<close>

definition sdu_received :: "rlc_rx_am_sdu_info sdu_window \<Rightarrow> u32 \<Rightarrow> bool" where
  "sdu_received w sn = (case win_find w sn of None \<Rightarrow> False | Some info \<Rightarrow> fully_received info)"

text \<open>
  The loops that look for the first SN, from \<open>sn\<close> to before \<open>limit\<close>, whose SDU is not fully
  received; \<open>drop_received\<close> removes the SDUs it passes.
\<close>

lemma scan_measure:
  assumes "mod_base (am_mod_of z) b sn < mod_base (am_mod_of z) b limit"
  shows "unat (mod_base (am_mod_of z) b limit) - unat (mod_base (am_mod_of z) b ((sn + 1) mod am_mod_of z)) <
    unat (mod_base (am_mod_of z) b limit) - unat (mod_base (am_mod_of z) b sn)"
proof -
  let ?m = "am_mod_of z"
  have m: "ring_size ?m" by (simp add: am_mod_of_def ring_size_am)
  have l: "unat (mod_base ?m b sn) < unat (mod_base ?m b limit)" "unat (mod_base ?m b limit) < unat ?m"
    using assms mod_base_less [OF m] by (simp_all add: word_less_nat_alt)
  have "unat (mod_base ?m b ((sn + 1) mod ?m)) = unat (mod_base ?m b sn) + 1"
    using l by (intro mod_base_Suc [OF m]) simp
  then show ?thesis using l by simp
qed

function first_incomplete :: "rlc_am_sn_size \<Rightarrow> rlc_rx_am_sdu_info sdu_window \<Rightarrow> u32 \<Rightarrow> u32 \<Rightarrow> u32 \<Rightarrow> u32" where
  "first_incomplete z w b limit sn =
     (if mod_base (am_mod_of z) b sn < mod_base (am_mod_of z) b limit \<and> sdu_received w sn
      then first_incomplete z w b limit ((sn + 1) mod am_mod_of z) else sn)"
  by auto
termination
  by (relation "measure (\<lambda>(z, w, b, limit, sn). unat (mod_base (am_mod_of z) b limit) - unat (mod_base (am_mod_of z) b sn))")
    (auto intro: scan_measure)

function drop_received :: "rlc_am_sn_size \<Rightarrow> u32 \<Rightarrow> u32 \<Rightarrow> u32 \<Rightarrow> rlc_rx_am_sdu_info sdu_window \<Rightarrow> u32 \<times> rlc_rx_am_sdu_info sdu_window" where
  "drop_received z b limit sn w =
     (if mod_base (am_mod_of z) b sn < mod_base (am_mod_of z) b limit \<and> sdu_received w sn
      then drop_received z b limit ((sn + 1) mod am_mod_of z) (win_del sn w) else (sn, w))"
  by auto
termination
  by (relation "measure (\<lambda>(z, b, limit, sn, w). unat (mod_base (am_mod_of z) b limit) - unat (mod_base (am_mod_of z) b sn))")
    (auto intro: scan_measure)

declare first_incomplete.simps [simp del] drop_received.simps [simp del]

section \<open>Status reports\<close>

text \<open>The segment loop of \<open>refresh_status_report\<close>: \<open>last_so\<close>, whether a last segment was seen, the report.\<close>

fun push_gaps :: "u32 \<Rightarrow> rlc_rx_am_sdu_segment list \<Rightarrow> u32 \<Rightarrow> bool \<Rightarrow> rlc_am_status_pdu \<Rightarrow> (u32 \<times> bool \<times> rlc_am_status_pdu) run" where
  "push_gaps sn [] last_so have_last s = Inr (last_so, have_last, s)"
| "push_gaps sn (segm # segs) last_so have_last s =
     (let have_last' = (have_last \<or> seg_si segm = Last_segment);
          last_so' = ucast (seg_so segm) + of_nat (length (seg_payload segm)) in
      if ucast (seg_so segm) \<noteq> last_so then
        let nack = nack_init\<lparr>nack_sn := sn, has_so := True, so_start := ucast last_so, so_end := seg_so segm - 1\<rparr> in
        if so_end nack < so_start nack then Inl Bad_argument
        else push_gaps sn segs last_so' have_last' (push_nack nack s)
      else push_gaps sn segs last_so' have_last' s)"

text \<open>What the NACK loop does for one SN.\<close>

definition report_sn :: "rlc_rx_am_sdu_info sdu_window \<Rightarrow> u32 \<Rightarrow> rlc_am_status_pdu \<Rightarrow> rlc_am_status_pdu run" where
  "report_sn w sn s =
     (case win_find w sn of
        None \<Rightarrow> Inr (push_nack (nack_init\<lparr>nack_sn := sn, has_so := False\<rparr>) s)
      | Some info \<Rightarrow>
          if fully_received info then Inr s
          else (case sdu_data info of
            Sdu_slice _ \<Rightarrow> Inl Bad_argument
          | Sdu_segment_set segs \<Rightarrow>
              seq_run (push_gaps sn segs 0 False s) (\<lambda>(last_so, have_last, s).
                if have_last then Inr s
                else
                  let nack = nack_init\<lparr>nack_sn := sn, has_so := True, so_start := ucast last_so, so_end := so_end_of_sdu\<rparr> in
                  if so_end nack < so_start nack then Inl Bad_argument else Inr (push_nack nack s))))"

function report_loop :: "rlc_am_sn_size \<Rightarrow> rlc_rx_am_sdu_info sdu_window \<Rightarrow> u32 \<Rightarrow> u32 \<Rightarrow> u32 \<Rightarrow> rlc_am_status_pdu \<Rightarrow> rlc_am_status_pdu run" where
  "report_loop z w b stop_sn i s =
     (if mod_base (am_mod_of z) b i < mod_base (am_mod_of z) b stop_sn
      then case report_sn w i s of
             Inl e \<Rightarrow> Inl e
           | Inr s' \<Rightarrow> report_loop z w b stop_sn ((i + 1) mod am_mod_of z) s'
      else Inr s)"
  by auto
termination
  by (relation "measure (\<lambda>(z, w, b, limit, sn, s). unat (mod_base (am_mod_of z) b limit) - unat (mod_base (am_mod_of z) b sn))")
    (auto intro: scan_measure)

declare report_loop.simps [simp del]

definition report_stop_sn :: "rlc_rx_am_entity \<Rightarrow> u32" where
  "report_stop_sn s =
     (let bound = (st_next (am_st s) + max_nof_sn_per_status_report s) mod am_mod s in
      if rx_mod_base s bound < rx_mod_base s (st_highest_status (am_st s)) then bound else st_highest_status (am_st s))"

definition store_status_report :: "rlc_rx_am_entity \<Rightarrow> rlc_rx_am_entity" where
  "store_status_report s =
     s\<lparr>status_writer := status_exchange s, status_exchange := status_writer s,
       status_report_size := sp_packed_size (status_writer s)\<rparr>"

definition refresh_status_report :: "rlc_rx_am_entity \<Rightarrow> rlc_rx_am_entity run" where
  "refresh_status_report s =
     (let stop_sn = report_stop_sn s in
      seq_run (report_loop (am_size s) (am_window s) (st_next (am_st s)) stop_sn (st_next (am_st s)) (status_reset (status_writer s)))
        (\<lambda>report. Inr (store_status_report (s\<lparr>status_writer := report\<lparr>sp_ack_sn := stop_sn\<rparr>\<rparr>))))"

text \<open>
  What the TX entity calls. \<open>defer_ok\<close>: the UE executor accepted the task that runs the prohibit
  timer. The result is the report, which the reader owns until its next call.
\<close>

definition get_status_pdu :: "bool \<Rightarrow> rlc_rx_am_entity \<Rightarrow> rlc_am_status_pdu \<times> rlc_rx_am_entity" where
  "get_status_pdu defer_ok s =
     (let s = s\<lparr>do_status := False\<rparr>;
          s = (if 0 < rac_t_status_prohibit (am_cfg s)
               then (if defer_ok then s\<lparr>prohibit_deferred := prohibit_deferred s + 1\<rparr> else s)\<lparr>status_prohibit_flag := True\<rparr>
               else s);
          s = s\<lparr>status_reader := status_exchange s, status_exchange := status_reader s\<rparr> in
      (status_reader s, s))"

definition get_status_pdu_length :: "rlc_rx_am_entity \<Rightarrow> u32" where
  "get_status_pdu_length s = status_report_size s"

definition status_report_required :: "rlc_rx_am_entity \<Rightarrow> bool" where
  "status_report_required s \<longleftrightarrow> do_status s \<and> \<not> status_prohibit_flag s"

definition notify_status_report_changed :: "rlc_rx_am_entity \<Rightarrow> rlc_am_event list" where
  "notify_status_report_changed s = (if status_report_required s then [Status_report_changed] else [])"

text \<open>The deferred task.\<close>

definition run_prohibit_timer :: "rlc_rx_am_entity \<Rightarrow> rlc_rx_am_entity" where
  "run_prohibit_timer s = s\<lparr>prohibit_deferred := prohibit_deferred s - 1, status_prohibit_timer := True\<rparr>"

definition on_expired_status_prohibit_timer :: "rlc_rx_am_entity \<Rightarrow> rlc_am_event list \<times> rlc_rx_am_entity" where
  "on_expired_status_prohibit_timer s =
     (let s = s\<lparr>status_prohibit_flag := False\<rparr> in (notify_status_report_changed s, s))"

section \<open>Reception of data\<close>

text \<open>The element of an SN, which is added when it is absent, and its replacement.\<close>

definition get_or_add :: "u32 \<Rightarrow> rlc_rx_am_sdu_info sdu_window \<Rightarrow> (rlc_rx_am_sdu_info \<times> rlc_rx_am_sdu_info sdu_window) run" where
  "get_or_add sn w =
     (if has_sn w sn then seq_run (win_at w sn) (\<lambda>info. Inr (info, w))
      else seq_run (add_sn sn sdu_info_init w) (\<lambda>w. Inr (sdu_info_init, w)))"

definition handle_full_data_sdu :: "rlc_am_pdu_header \<Rightarrow> bytes \<Rightarrow> rlc_rx_am_entity \<Rightarrow> (bool \<times> rlc_rx_am_entity) run" where
  "handle_full_data_sdu header payload s =
     (if ah_si header \<noteq> Full_sdu then Inr (False, s)
      else
        seq_run (get_or_add (ah_sn header) (am_window s)) (\<lambda>(info, w).
        seq_run (win_update (ah_sn header)
            (\<lambda>_. info\<lparr>sdu_data := Sdu_slice payload, fully_received := True, has_gap := False\<rparr>) w) (\<lambda>w.
        Inr (True, s\<lparr>am_window := w\<rparr>))))"

definition handle_segment_data_sdu :: "rlc_am_pdu_header \<Rightarrow> bytes \<Rightarrow> rlc_rx_am_entity \<Rightarrow> (bool \<times> rlc_rx_am_entity) run" where
  "handle_segment_data_sdu header payload s =
     (if ah_si header = Full_sdu then Inr (False, s)
      else
        seq_run (get_or_add (ah_sn header) (am_window s)) (\<lambda>(info, w).
        (let (stored, info) = store_segment info \<lparr>seg_si = ah_si header, seg_so = ah_so header, seg_payload = payload\<rparr> in
         seq_run (update_segment_inventory info) (\<lambda>info.
         seq_run (win_update (ah_sn header) (\<lambda>_. info) w) (\<lambda>w.
         Inr (stored, s\<lparr>am_window := w\<rparr>))))))"

definition update_next_highest :: "u32 \<Rightarrow> rlc_rx_am_entity \<Rightarrow> rlc_rx_am_entity" where
  "update_next_highest sn s =
     (if rx_mod_base s (st_next_highest (am_st s)) \<le> rx_mod_base s sn
      then s\<lparr>am_st := (am_st s)\<lparr>st_next_highest := (sn + 1) mod am_mod s\<rparr>\<rparr> else s)"

text \<open>All bytes of an SDU are received: it is delivered, and its data released.\<close>

definition deliver_received :: "bool \<Rightarrow> u32 \<Rightarrow> rlc_rx_am_entity \<Rightarrow> (rlc_am_event list \<times> rlc_rx_am_entity) run" where
  "deliver_received chain_ok sn s =
     seq_run (win_at (am_window s) sn) (\<lambda>info.
     (let (events, metrics) =
        (case reassemble_sdu chain_ok info of
           None \<Rightarrow> ([], rrm_add_lost_pdus 1 (am_metrics s))
         | Some sdu \<Rightarrow> ([New_sdu sdu], rrm_add_sdus 1 (length sdu) (am_metrics s))) in
      seq_run (win_update sn (\<lambda>info. info\<lparr>sdu_data := Sdu_slice []\<rparr>) (am_window s)) (\<lambda>w.
      Inr (events, s\<lparr>am_window := w, am_metrics := metrics\<rparr>))))"

definition update_highest_status :: "u32 \<Rightarrow> rlc_rx_am_entity \<Rightarrow> rlc_rx_am_entity" where
  "update_highest_status sn s =
     (let st = am_st s in
      if rx_mod_base s sn = rx_mod_base s (st_highest_status st)
      then s\<lparr>am_st := st\<lparr>st_highest_status := first_incomplete (am_size s) (am_window s) (st_next st) (st_next_highest st)
                            ((st_highest_status st + 1) mod am_mod s)\<rparr>\<rparr>
      else s)"

definition update_rx_next :: "u32 \<Rightarrow> rlc_rx_am_entity \<Rightarrow> rlc_rx_am_entity" where
  "update_rx_next sn s =
     (let st = am_st s in
      if rx_mod_base s sn = rx_mod_base s (st_next st)
      then let (sn_upd, w) = drop_received (am_size s) (st_next st) (st_next_highest st) (st_next st mod am_mod s) (am_window s) in
           s\<lparr>am_st := st\<lparr>st_next := sn_upd\<rparr>, am_window := w\<rparr>
      else s)"

definition complete_sdu :: "bool \<Rightarrow> u32 \<Rightarrow> rlc_rx_am_entity \<Rightarrow> (rlc_am_event list \<times> rlc_rx_am_entity) run" where
  "complete_sdu chain_ok sn s =
     (if sdu_received (am_window s) sn
      then seq_run (deliver_received chain_ok sn s) (\<lambda>(events, s).
           Inr (events, update_rx_next sn (update_highest_status sn s)))
      else Inr ([], s))"

subsection \<open>t-Reassembly\<close>

definition run_reassembly_timer :: "rlc_rx_am_entity \<Rightarrow> rlc_rx_am_entity run" where
  "run_reassembly_timer s =
     (if rac_t_reassembly (am_cfg s) \<le> 0 then Inl Bad_argument else Inr (s\<lparr>reassembly_timer := True\<rparr>))"

definition stop_reassembly :: "rlc_rx_am_entity \<Rightarrow> rlc_rx_am_entity run" where
  "stop_reassembly s =
     (if \<not> reassembly_timer s then Inr s
      else
        let st = am_st s; trigger = st_next_status_trigger st in
        seq_run (if rx_mod_base s trigger = rx_mod_base s (st_next st + 1)
                 then seq_run (win_at (am_window s) (st_next st)) (\<lambda>info. Inr (\<not> has_gap info)) else Inr False) (\<lambda>no_gap.
        Inr (if trigger = st_next st \<or> no_gap \<or> \<not> inside_rx_window s trigger
             then s\<lparr>reassembly_timer := False\<rparr> else s)))"

definition start_reassembly :: "rlc_rx_am_entity \<Rightarrow> rlc_rx_am_entity run" where
  "start_reassembly s =
     (if reassembly_timer s then Inr s
      else
        let st = am_st s in
        seq_run (if rx_mod_base s (st_next_highest st) = rx_mod_base s (st_next st + 1) \<and> has_sn (am_window s) (st_next st)
                 then seq_run (win_at (am_window s) (st_next st)) (\<lambda>info. Inr (has_gap info)) else Inr False) (\<lambda>gap.
        if rx_mod_base s (st_next st + 1) < rx_mod_base s (st_next_highest st) \<or> gap
        then seq_run (run_reassembly_timer s) (\<lambda>s. Inr (s\<lparr>am_st := st\<lparr>st_next_status_trigger := st_next_highest st\<rparr>\<rparr>))
        else Inr s))"

section \<open>Handling PDUs\<close>

text \<open>
  What the handling of one PDU takes from its environment: whether buffers are available for the
  reassembled SDU, and the value of \<open>RLC_TEST_SCENARIO\<close>, as \<open>atoi\<close> reads it, if it is set.
\<close>

record rlc_am_env =
  env_chain_ok :: bool
  env_test_scenario :: "int option"

definition am_env_init :: rlc_am_env where
  "am_env_init = \<lparr>env_chain_ok = True, env_test_scenario = None\<rparr>"

text \<open>The test hook: whether the PDU is dropped on its first arrival.\<close>

definition test_hook :: "rlc_am_env \<Rightarrow> u32 \<Rightarrow> rlc_rx_am_entity \<Rightarrow> bool \<times> rlc_rx_am_entity" where
  "test_hook env sn s =
     (if am_is_drb s \<and> sn \<notin> set (dropped_sns s) \<and>
         (env_test_scenario env = Some 1 \<and> (sn = 5 \<or> sn = 19) \<or> env_test_scenario env = Some 2 \<and> sn = 5)
      then (True, s\<lparr>dropped_sns := sn # dropped_sns s\<rparr>) else (False, s))"

text \<open>A PDU inside the window that is no duplicate: placing it in the window, and the actions after that.\<close>

definition place_pdu :: "rlc_am_env \<Rightarrow> rlc_am_pdu_header \<Rightarrow> bytes \<Rightarrow> rlc_rx_am_entity \<Rightarrow>
    (rlc_am_event list \<times> bool \<times> rlc_rx_am_entity) run" where
  "place_pdu env header payload s =
     seq_run (if ah_si header = Full_sdu then handle_full_data_sdu header payload s
              else handle_segment_data_sdu header payload s) (\<lambda>(changed, s).
     seq_run (complete_sdu (env_chain_ok env) (ah_sn header) (update_next_highest (ah_sn header) s)) (\<lambda>(events, s).
     seq_run (stop_reassembly s) (\<lambda>s.
     seq_run (start_reassembly s) (\<lambda>s.
     Inr (events, changed, s)))))"

text \<open>The body of \<open>handle_data_pdu\<close>: events, \<open>status_changed\<close>, \<open>status_requested\<close>, state.\<close>

definition am_data_pdu_body :: "rlc_am_env \<Rightarrow> bytes \<Rightarrow> rlc_rx_am_entity \<Rightarrow>
    (rlc_am_event list \<times> bool \<times> bool \<times> rlc_rx_am_entity) run" where
  "am_data_pdu_body env buf s =
     (case rlc_am_read_data_pdu_header buf (am_size s) of
        None \<Rightarrow> Inr ([], False, False, s\<lparr>am_metrics := rrm_add_malformed_pdus 1 (am_metrics s)\<rparr>)
      | Some header \<Rightarrow>
          (let (dropped, s) = test_hook env (ah_sn header) s in
           if dropped then Inr ([], False, False, s)
           else if length buf \<le> ah_packed_size header then Inr ([], False, False, s)
           else
             let payload = drop (ah_packed_size header) buf; requested = (ah_p header \<noteq> 0) in
             if \<not> inside_rx_window s (ah_sn header) then Inr ([], False, requested, s)
             else if sdu_received (am_window s) (ah_sn header) then Inr ([], False, requested, s)
             else seq_run (place_pdu env header payload s) (\<lambda>(events, changed, s). Inr (events, changed, requested, s))))"

text \<open>The actions on exit.\<close>

definition am_on_exit :: "bool \<Rightarrow> bool \<Rightarrow> rlc_rx_am_entity \<Rightarrow> (rlc_am_event list \<times> rlc_rx_am_entity) run" where
  "am_on_exit changed requested s =
     seq_run (if changed \<or> requested then refresh_status_report s else Inr s) (\<lambda>s.
     (let s = (if requested then s\<lparr>do_status := True\<rparr> else s) in
      Inr (if changed \<or> requested then notify_status_report_changed s else [], s)))"

definition am_handle_data_pdu :: "rlc_am_env \<Rightarrow> bytes \<Rightarrow> rlc_rx_am_entity \<Rightarrow> (rlc_am_event list \<times> rlc_rx_am_entity) run" where
  "am_handle_data_pdu env buf s =
     seq_run (am_data_pdu_body env buf s) (\<lambda>(events, changed, requested, s).
     seq_run (am_on_exit changed requested s) (\<lambda>(events', s). Inr (events @ events', s)))"

definition am_handle_control_pdu :: "bytes \<Rightarrow> rlc_rx_am_entity \<Rightarrow> rlc_am_event list" where
  "am_handle_control_pdu buf s =
     (let (ok, status) = status_unpack buf (status_create (am_size s)) in
      if ok then [Status_pdu_received status] else [])"

definition am_handle_pdu :: "rlc_am_env \<Rightarrow> bytes \<Rightarrow> rlc_rx_am_entity \<Rightarrow> (rlc_am_event list \<times> rlc_rx_am_entity) run" where
  "am_handle_pdu env buf s =
     (let s = s\<lparr>am_metrics := rrm_add_pdus 1 (length buf) (am_metrics s)\<rparr> in
      if buf = [] then Inr ([], s)
      else if is_control_pdu buf then
        seq_run (rrm_add_ctrl_pdus 1 (length buf) (am_metrics s)) (\<lambda>metrics.
        (let s = s\<lparr>am_metrics := metrics\<rparr> in Inr (am_handle_control_pdu buf s, s)))
      else am_handle_data_pdu env buf s)"

section \<open>Expiry of t-Reassembly\<close>

text \<open>The decision whether the timer goes on.\<close>

definition restart_reassembly :: "rlc_rx_am_entity \<Rightarrow> rlc_rx_am_entity run" where
  "restart_reassembly s =
     (let st = am_st s in
      seq_run (if rx_mod_base s (st_next_highest st) = rx_mod_base s (st_highest_status st + 1) \<and> has_sn (am_window s) (st_highest_status st)
               then seq_run (win_at (am_window s) (st_highest_status st)) (\<lambda>info. Inr (has_gap info)) else Inr False) (\<lambda>gap.
      if rx_mod_base s (st_highest_status st + 1) < rx_mod_base s (st_next_highest st) \<or> gap
      then seq_run (run_reassembly_timer s) (\<lambda>s. Inr (s\<lparr>am_st := st\<lparr>st_next_status_trigger := st_next_highest st\<rparr>\<rparr>))
      else Inr s))"

definition on_expired_reassembly_timer :: "rlc_rx_am_entity \<Rightarrow> (rlc_am_event list \<times> rlc_rx_am_entity) run" where
  "on_expired_reassembly_timer s =
     (let st = am_st s in
      if reassembly_timer s then Inr ([], s)
      else if \<not> valid_ack_sn s (st_next_status_trigger st) then Inr ([], s)
      else
        let sn_upd = first_incomplete (am_size s) (am_window s) (st_next st) (st_next_highest st) (st_next_status_trigger st) in
        if \<not> valid_ack_sn s sn_upd then Inl Bad_argument
        else
          seq_run (restart_reassembly (s\<lparr>am_st := st\<lparr>st_highest_status := sn_upd\<rparr>\<rparr>)) (\<lambda>s.
          seq_run (refresh_status_report s) (\<lambda>s.
          (let s = s\<lparr>do_status := True\<rparr> in Inr (notify_status_report_changed s, s)))))"

end
