(* ===== verification/Rlc_Ring_Window.thy ===== *)
theory Rlc_Ring_Window
  imports Rlc_Config
begin

text \<open>
  A window whose keys are SNs on a ring: while all keys lie within one window length from a lower
  edge, modulo the number of SNs, no two of them share a slot, and the window is a map.
\<close>

lemma ring_slot:
  assumes "ring_size m" and "unat m = 2 * w" and "0 < w" and "unat k < unat m"
  shows "unat k mod w = (unat b + unat (mod_base m b k)) mod w"
proof -
  have "unat k = unat (ring_add m b (unat (mod_base m b k)))" using ring_add_mod_base [OF assms(1,4)] by simp
  also have "\<dots> = (unat b + unat (mod_base m b k)) mod (2 * w)" by (simp add: unat_ring_add [OF assms(1)] assms(2))
  finally show ?thesis by (simp add: mod_mod_cancel)
qed

lemma mod_shift_inj:
  fixes b :: nat
  assumes "(b + i) mod w = (b + j) mod w" and "i < w" and "j < w"
  shows "i = j"
proof -
  have "i mod w = j mod w" if "i \<le> j" "(b + j) mod w = (b + i) mod w" "j < w" for i j
    using that mod_eq_dvd_iff_nat [of "b + i" "b + j" w] by (auto dest: dvd_imp_le)
  then have "i mod w = j mod w" using assms by (metis nat_le_linear)
  then show ?thesis using assms(2,3) by simp
qed

context sn_window
begin

definition on_ring :: "u32 \<Rightarrow> u32 \<Rightarrow> 'w \<Rightarrow> bool" where
  "on_ring m b w \<longleftrightarrow> ring_size m \<and> unat m = 2 * width w \<and>
     (\<forall>k. look w k \<noteq> None \<longrightarrow> unat k < unat m \<and> unat (mod_base m b k) < width w)"

lemma ring_no_collision:
  assumes "on_ring m b w" and "unat key < unat m" and "unat (mod_base m b key) < width w"
    and "look w k \<noteq> None" and "unat k mod width w = unat key mod width w"
  shows "k = key"
proof -
  have m: "ring_size m" "unat m = 2 * width w" and k: "unat k < unat m" "unat (mod_base m b k) < width w"
    using assms(1,4) by (auto simp: on_ring_def)
  have w: "0 < width w" using assms(3) by simp
  have "(unat b + unat (mod_base m b k)) mod width w = (unat b + unat (mod_base m b key)) mod width w"
    using assms(5) ring_slot [OF m w k(1)] ring_slot [OF m w assms(2)] by simp
  then have "unat (mod_base m b k) = unat (mod_base m b key)" using k(2) assms(3) by (rule mod_shift_inj)
  then have "mod_base m b k = mod_base m b key" by (simp add: word_unat_eq_iff)
  then show ?thesis using mod_base_eq_iff [OF m(1) k(1) assms(2)] by simp
qed

lemma look_ring_put:
  assumes "wf w" and "on_ring m b w" and "unat key < unat m" and "unat (mod_base m b key) < width w"
  shows "look (put key v w) = (look w)(key \<mapsto> v)"
  using assms by (intro look_put_free) (auto dest: ring_no_collision)

lemma on_ring_put:
  assumes "wf w" and "on_ring m b w" and "unat key < unat m" and "unat (mod_base m b key) < width w"
  shows "on_ring m b (put key v w)"
  using assms by (auto simp: on_ring_def look_ring_put [OF assms] width_put)

lemma on_ring_del: "wf w \<Longrightarrow> on_ring m b w \<Longrightarrow> on_ring m b (del key w)"
  by (auto simp: on_ring_def look_del width_del split: if_splits)

text \<open>The lower edge advances past keys that are gone.\<close>

lemma on_ring_advance:
  assumes "on_ring m b w" and "\<And>k. look w k \<noteq> None \<Longrightarrow> d \<le> unat (mod_base m b k)"
  shows "on_ring m (ring_add m b d) w"
  using assms mod_base_shift by (fastforce simp: on_ring_def)

end

end
