(* ===== verification/Rlc_Rx_Am_Window.thy ===== *)
theory Rlc_Rx_Am_Window
  imports Rlc_Rx_Am Rlc_Ring_Window
begin

text \<open>
  The receiving window of the acknowledged mode and its state variables: what the loops over the
  window compute, the invariant of the window between two PDUs, and that placing a PDU keeps it.
\<close>

section \<open>Distances from the lower edge\<close>

lemma am_ring [simp]: "ring_size (am_mod_of z)"
  by (simp add: am_mod_of_def ring_size_am)

lemma am_mod_window: "unat (am_mod_of z) = 2 * unat (am_window_size_of z)" "2048 \<le> unat (am_window_size_of z)"
  by (cases z; simp add: am_mod_of_def am_window_size_of_def)+

text \<open>The distance of an SN from the base on the ring, and the SN at a distance.\<close>

definition away :: "rlc_am_sn_size \<Rightarrow> u32 \<Rightarrow> u32 \<Rightarrow> nat" where
  "away z b sn = unat (mod_base (am_mod_of z) b sn)"

definition at_dist :: "rlc_am_sn_size \<Rightarrow> u32 \<Rightarrow> nat \<Rightarrow> u32" where
  "at_dist z b n = ring_add (am_mod_of z) b n"

definition is_sn :: "rlc_am_sn_size \<Rightarrow> u32 \<Rightarrow> bool" where
  "is_sn z sn \<longleftrightarrow> unat sn < unat (am_mod_of z)"

lemma away_less: "away z b sn < unat (am_mod_of z)"
  by (simp add: away_def mod_base_less)

lemma away_at [simp]: "n < unat (am_mod_of z) \<Longrightarrow> away z b (at_dist z b n) = n"
  by (simp add: away_def at_dist_def mod_base_ring_add)

lemma at_away [simp]: "is_sn z sn \<Longrightarrow> at_dist z b (away z b sn) = sn"
  by (simp add: away_def at_dist_def is_sn_def ring_add_mod_base)

lemma is_sn_at [simp]: "is_sn z (at_dist z b n)"
  by (simp add: is_sn_def at_dist_def ring_add_less)

lemma away_inj: "is_sn z sn \<Longrightarrow> is_sn z sn' \<Longrightarrow> away z b sn = away z b sn' \<longleftrightarrow> sn = sn'"
  by (metis at_away)

lemma away_self [simp]: "away z b b = 0"
  by (simp add: away_def)

lemma is_sn_Suc [simp]: "is_sn z ((sn + 1) mod am_mod_of z)"
  using ring_size_pos [of "am_mod_of z"] by (simp add: is_sn_def unat_mod)

lemma away_Suc: "away z b sn + 1 < unat (am_mod_of z) \<Longrightarrow> away z b ((sn + 1) mod am_mod_of z) = away z b sn + 1"
  by (simp add: away_def mod_base_Suc)

lemma away_shift: "d \<le> away z b sn \<Longrightarrow> away z (at_dist z b d) sn = away z b sn - d"
  by (simp add: away_def at_dist_def mod_base_shift)

lemma away_shift_past:
  "away z b sn < d \<Longrightarrow> d < unat (am_mod_of z) \<Longrightarrow> away z (at_dist z b d) sn = unat (am_mod_of z) + away z b sn - d"
  by (simp add: away_def at_dist_def mod_base_shift_past)

lemma at_at: "at_dist z (at_dist z b i) j = at_dist z b (i + j)"
  by (simp add: at_dist_def ring_add_add)

lemma at_0 [simp]: "is_sn z b \<Longrightarrow> at_dist z b 0 = b"
  by (simp add: at_dist_def is_sn_def)

lemma away_less_iff: "mod_base (am_mod_of z) b x < mod_base (am_mod_of z) b y \<longleftrightarrow> away z b x < away z b y"
  by (simp add: away_def word_less_nat_alt)

lemma away_eq_iff: "mod_base (am_mod_of z) b x = mod_base (am_mod_of z) b y \<longleftrightarrow> away z b x = away z b y"
  by (simp add: away_def word_unat_eq_iff)

lemma away_le_iff: "mod_base (am_mod_of z) b x \<le> mod_base (am_mod_of z) b y \<longleftrightarrow> away z b x \<le> away z b y"
  by (simp add: away_def word_le_nat_alt)

lemmas away_iffs = away_less_iff away_eq_iff away_le_iff

text \<open>\<open>sn + 1\<close> without the reduction, as some comparisons have it.\<close>

lemma away_plus_1: "away z b (sn + 1) = away z b ((sn + 1) mod am_mod_of z)"
proof -
  have "uint (mod_base (am_mod_of z) b (sn + 1)) = uint (mod_base (am_mod_of z) b ((sn + 1) mod am_mod_of z))"
    by (simp add: uint_mod_base uint_mod mod_diff_left_eq)
  then have "mod_base (am_mod_of z) b (sn + 1) = mod_base (am_mod_of z) b ((sn + 1) mod am_mod_of z)"
    by (simp only: word_uint_eq_iff)
  then show ?thesis by (simp add: away_def)
qed

section \<open>The loops\<close>

lemma first_incomplete_spec:
  assumes "is_sn z sn" and "away z b sn \<le> away z b limit"
  shows "is_sn z (first_incomplete z w b limit sn)"
    and "away z b sn \<le> away z b (first_incomplete z w b limit sn)"
    and "away z b (first_incomplete z w b limit sn) \<le> away z b limit"
    and "away z b (first_incomplete z w b limit sn) < away z b limit \<longrightarrow> \<not> sdu_received w (first_incomplete z w b limit sn)"
    and "\<And>n. away z b sn \<le> n \<Longrightarrow> n < away z b (first_incomplete z w b limit sn) \<Longrightarrow> sdu_received w (at_dist z b n)"
proof -
  let ?r = "first_incomplete z w b limit sn"
  have "is_sn z ?r \<and> away z b sn \<le> away z b ?r \<and> away z b ?r \<le> away z b limit \<and>
      (away z b ?r < away z b limit \<longrightarrow> \<not> sdu_received w ?r) \<and>
      (\<forall>n. away z b sn \<le> n \<and> n < away z b ?r \<longrightarrow> sdu_received w (at_dist z b n))"
    using assms
  proof (induction z w b limit sn rule: first_incomplete.induct)
    case (1 z w b limit sn)
    let ?sn = "(sn + 1) mod am_mod_of z"
    let ?go = "away z b sn < away z b limit \<and> sdu_received w sn"
    show ?case
    proof (cases ?go)
      case False
      then show ?thesis
        using 1(2,3) by (subst (1 2 3 4 5 6) first_incomplete.simps) (auto simp: away_iffs)
    next
      case True
      have e: "first_incomplete z w b limit sn = first_incomplete z w b limit ?sn"
        using True by (subst first_incomplete.simps) (simp add: away_iffs)
      have a: "away z b ?sn = away z b sn + 1" using True away_less [of z b limit] by (simp add: away_Suc)
      have r: "sdu_received w (at_dist z b (away z b sn))" using True 1(2) by simp
      let ?q = "first_incomplete z w b limit ?sn"
      have ih: "is_sn z ?q \<and> away z b ?sn \<le> away z b ?q \<and> away z b ?q \<le> away z b limit \<and>
          (away z b ?q < away z b limit \<longrightarrow> \<not> sdu_received w ?q) \<and>
          (\<forall>n. away z b ?sn \<le> n \<and> n < away z b ?q \<longrightarrow> sdu_received w (at_dist z b n))"
        using True a by (intro 1(1)) (simp_all add: away_iffs)
      have "sdu_received w (at_dist z b n)" if "away z b sn \<le> n" "n < away z b ?q" for n
        using that ih a r by (cases "n = away z b sn") auto
      then show ?thesis unfolding e using ih a by auto
    qed
  qed
  then show "is_sn z ?r" "away z b sn \<le> away z b ?r" "away z b ?r \<le> away z b limit"
      "away z b ?r < away z b limit \<longrightarrow> \<not> sdu_received w ?r"
      "\<And>n. away z b sn \<le> n \<Longrightarrow> n < away z b ?r \<Longrightarrow> sdu_received w (at_dist z b n)"
    by blast+
qed

text \<open>Dropping passes the same SNs and removes exactly those.\<close>

lemma sdu_received_cong: "win_find w sn = win_find w' sn \<Longrightarrow> sdu_received w sn = sdu_received w' sn"
  by (simp add: sdu_received_def)

lemma drop_received_spec:
  assumes "win_wf w" and "is_sn z sn" and "away z b sn \<le> away z b limit" and "drop_received z b limit sn w = (r, w')"
  shows "is_sn z r" "away z b sn \<le> away z b r" "away z b r \<le> away z b limit"
    and "away z b r < away z b limit \<longrightarrow> \<not> sdu_received w r"
    and "\<And>n. away z b sn \<le> n \<Longrightarrow> n < away z b r \<Longrightarrow> sdu_received w (at_dist z b n)"
    and "win_wf w'" "win_width w' = win_width w"
    and "\<And>k. is_sn z k \<Longrightarrow> win_find w' k = (if away z b sn \<le> away z b k \<and> away z b k < away z b r then None else win_find w k)"
    and "\<And>k. \<not> is_sn z k \<Longrightarrow> win_find w' k = win_find w k"
proof -
  have "is_sn z r \<and> away z b sn \<le> away z b r \<and> away z b r \<le> away z b limit \<and>
      (away z b r < away z b limit \<longrightarrow> \<not> sdu_received w r) \<and>
      (\<forall>n. away z b sn \<le> n \<and> n < away z b r \<longrightarrow> sdu_received w (at_dist z b n)) \<and> win_wf w' \<and> win_width w' = win_width w \<and>
      (\<forall>k. win_find w' k = (if is_sn z k \<and> away z b sn \<le> away z b k \<and> away z b k < away z b r then None else win_find w k))"
    using assms
  proof (induction z b limit sn w rule: drop_received.induct)
    case (1 z b limit sn w)
    let ?sn = "(sn + 1) mod am_mod_of z"
    let ?go = "away z b sn < away z b limit \<and> sdu_received w sn"
    show ?case
    proof (cases ?go)
      case False
      then have "(r, w') = (sn, w)"
        using 1(5) by (subst (asm) drop_received.simps) (auto simp: away_iffs split: if_splits)
      then show ?thesis using False 1(2,3,4) by auto
    next
      case True
      have e: "drop_received z b limit ?sn (win_del sn w) = (r, w')"
        using True 1(5) by (subst (asm) drop_received.simps) (simp add: away_iffs)
      have a: "away z b ?sn = away z b sn + 1" using True away_less [of z b limit] by (simp add: away_Suc)
      have wf: "win_wf (win_del sn w)" "win_width (win_del sn w) = win_width w"
        using 1(2) by (simp_all add: win.wf_del win.width_del)
      have f: "win_find (win_del sn w) = (win_find w)(sn := None)" using 1(2) by (rule win.look_del)
      have ih: "is_sn z r \<and> away z b ?sn \<le> away z b r \<and> away z b r \<le> away z b limit \<and>
        (away z b r < away z b limit \<longrightarrow> \<not> sdu_received (win_del sn w) r) \<and>
        (\<forall>n. away z b ?sn \<le> n \<and> n < away z b r \<longrightarrow> sdu_received (win_del sn w) (at_dist z b n)) \<and>
        win_wf w' \<and> win_width w' = win_width (win_del sn w) \<and>
        (\<forall>k. win_find w' k = (if is_sn z k \<and> away z b ?sn \<le> away z b k \<and> away z b k < away z b r then None else win_find (win_del sn w) k))"
        using 1(1) [OF _ wf(1) _ _ e] True a by (auto simp: away_iffs)
      have rn: "r \<noteq> sn" using ih a by auto
      have rest: "sdu_received w (at_dist z b n)" if "away z b sn \<le> n" "n < away z b r" for n
      proof (cases "n = away z b sn")
        case True
        then show ?thesis using \<open>?go\<close> 1(3) by simp
      next
        case False
        then have "sdu_received (win_del sn w) (at_dist z b n)" using that ih a by auto
        then show ?thesis by (auto simp: sdu_received_def f split: if_splits)
      qed
      have "win_find w' k = (if is_sn z k \<and> away z b sn \<le> away z b k \<and> away z b k < away z b r then None else win_find w k)" for k
      proof (cases "k = sn")
        case True
        then show ?thesis using ih a 1(3) f by auto
      next
        case False
        then have "is_sn z k \<Longrightarrow> away z b k \<noteq> away z b sn" using away_inj [of z k sn b] 1(3) by auto
        then show ?thesis using ih a f False by (auto simp: Suc_le_eq le_less)
      qed
      moreover have "sdu_received (win_del sn w) r = sdu_received w r" using rn by (intro sdu_received_cong) (simp add: f)
      ultimately show ?thesis using ih a rest wf by auto
    qed
  qed
  then show "is_sn z r" "away z b sn \<le> away z b r" "away z b r \<le> away z b limit"
    "away z b r < away z b limit \<longrightarrow> \<not> sdu_received w r"
    "\<And>n. away z b sn \<le> n \<Longrightarrow> n < away z b r \<Longrightarrow> sdu_received w (at_dist z b n)"
    "win_wf w'" "win_width w' = win_width w"
    "\<And>k. is_sn z k \<Longrightarrow> win_find w' k = (if away z b sn \<le> away z b k \<and> away z b k < away z b r then None else win_find w k)"
    "\<And>k. \<not> is_sn z k \<Longrightarrow> win_find w' k = win_find w k"
    by auto
qed

section \<open>The window between two PDUs\<close>

text \<open>
  The keys are SNs in \<open>RX_Next \<le> SN < RX_Next_Highest\<close>, at most one window length apart, and the
  last of them is present.
\<close>

definition win_frame :: "rlc_am_sn_size \<Rightarrow> rlc_rx_am_sdu_info sdu_window \<Rightarrow> u32 \<Rightarrow> u32 \<Rightarrow> bool" where
  "win_frame z w b nh \<longleftrightarrow> win_wf w \<and> win_width w = unat (am_window_size_of z) \<and> is_sn z b \<and> is_sn z nh \<and>
     away z b nh \<le> unat (am_window_size_of z) \<and>
     (\<forall>k. win_find w k \<noteq> None \<longrightarrow> is_sn z k \<and> away z b k < away z b nh) \<and>
     (0 < away z b nh \<longrightarrow> win_find w (at_dist z b (away z b nh - 1)) \<noteq> None)"

lemma win_frame_ring: "win_frame z w b nh \<Longrightarrow> win.on_ring (am_mod_of z) b w"
  unfolding win_frame_def win.on_ring_def
  by (auto simp: am_mod_window is_sn_def away_def [symmetric] dest: less_le_trans)

lemma win_frame_wf: "win_frame z w b nh \<Longrightarrow> win_wf w"
  by (simp add: win_frame_def)

definition info_at :: "rlc_rx_am_sdu_info sdu_window \<Rightarrow> u32 \<Rightarrow> rlc_rx_am_sdu_info" where
  "info_at w sn = (case win_find w sn of None \<Rightarrow> sdu_info_init | Some info \<Rightarrow> info)"

definition placed :: "rlc_rx_am_sdu_info sdu_window \<Rightarrow> u32 \<Rightarrow> rlc_rx_am_sdu_info \<Rightarrow> rlc_rx_am_sdu_info sdu_window \<Rightarrow> bool" where
  "placed w sn info w' \<longleftrightarrow> win_wf w' \<and> win_width w' = win_width w \<and> win_find w' = (win_find w)(sn \<mapsto> info)"

lemma placed_placed: "placed w sn i w' \<Longrightarrow> placed w' sn j w'' \<Longrightarrow> placed w sn j w''"
  by (simp add: placed_def)

lemma put_placed:
  assumes "win_frame z w b nh" and "is_sn z sn" and "away z b sn < unat (am_window_size_of z)"
  shows "placed w sn info (win_put sn info w)"
  using win.look_ring_put [OF win_frame_wf [OF assms(1)] win_frame_ring [OF assms(1)], of sn info] assms
  by (simp add: placed_def win.wf_put win.width_put win_frame_def is_sn_def away_def)

text \<open>Placing an element keeps the frame, with the new \<open>RX_Next_Highest\<close>.\<close>

definition next_highest_of :: "rlc_am_sn_size \<Rightarrow> u32 \<Rightarrow> u32 \<Rightarrow> u32 \<Rightarrow> u32" where
  "next_highest_of z b nh sn = (if away z b nh \<le> away z b sn then (sn + 1) mod am_mod_of z else nh)"

lemma away_next_highest:
  assumes "away z b sn < unat (am_window_size_of z)"
  shows "away z b (next_highest_of z b nh sn) = max (away z b nh) (away z b sn + 1)"
  using assms am_mod_window [of z] by (auto simp: next_highest_of_def away_Suc)

lemma win_frame_placed:
  assumes "win_frame z w b nh" and "is_sn z sn" and "away z b sn < unat (am_window_size_of z)" and "placed w sn info w'"
  shows "win_frame z w' b (next_highest_of z b nh sn)"
proof -
  note n = away_next_highest [OF assms(3), of nh]
  have f: "win_find w' = (win_find w)(sn \<mapsto> info)" using assms(4) by (simp add: placed_def)
  have keys: "is_sn z k \<and> away z b k < away z b (next_highest_of z b nh sn)" if "win_find w' k \<noteq> None" for k
    using that assms(1,2) unfolding f n by (auto simp: win_frame_def less_max_iff_disj split: if_splits)
  have last: "win_find w' (at_dist z b (away z b (next_highest_of z b nh sn) - 1)) \<noteq> None"
  proof (cases "away z b nh \<le> away z b sn")
    case True
    then show ?thesis unfolding n f using assms(2) by (simp add: max_def)
  next
    case False
    then have "max (away z b nh) (away z b sn + 1) = away z b nh" "0 < away z b nh" by simp_all
    then show ?thesis unfolding n f using assms(1) by (simp add: win_frame_def)
  qed
  have "is_sn z (next_highest_of z b nh sn)" using assms(1) by (simp add: next_highest_of_def win_frame_def)
  then show ?thesis
    using assms(1,3,4) keys last unfolding win_frame_def placed_def n by auto
qed

text \<open>The window forgets received SDUs at its lower edge.\<close>

lemma win_frame_advance:
  assumes "win_frame z w b nh" and "drop_received z b nh b w = (r, w')"
  shows "win_frame z w' r nh" and "\<not> sdu_received w' r" and "away z b r \<le> away z b nh"
    and "r = at_dist z b (away z b r)"
    and "\<And>k. is_sn z k \<Longrightarrow> away z b r \<le> away z b k \<Longrightarrow> win_find w' k = win_find w k"
    and "\<And>k info. win_find w' k = Some info \<Longrightarrow> win_find w k = Some info \<and> away z b r \<le> away z b k"
    and "\<And>n. n < away z b r \<Longrightarrow> sdu_received w (at_dist z b n)"
proof -
  have b: "is_sn z b" using assms(1) by (simp add: win_frame_def)
  note d = drop_received_spec [OF win_frame_wf [OF assms(1)] b _ assms(2), simplified]
  show r: "away z b r \<le> away z b nh" and rb: "r = at_dist z b (away z b r)" using d(1,3) by simp_all
  show keep: "is_sn z k \<Longrightarrow> away z b r \<le> away z b k \<Longrightarrow> win_find w' k = win_find w k" for k
    using d(8) [of k] by simp
  show "n < away z b r \<Longrightarrow> sdu_received w (at_dist z b n)" for n using d(5) by simp
  have keys: "win_find w' k \<noteq> None \<Longrightarrow> is_sn z k \<and> away z b r \<le> away z b k \<and> away z b k < away z b nh \<and> win_find w' k = win_find w k" for k
    using d(8,9) [of k] assms(1) by (cases "is_sn z k") (auto simp: win_frame_def not_le split: if_splits)
  then show "win_find w' k = Some info \<Longrightarrow> win_find w k = Some info \<and> away z b r \<le> away z b k" for k info by force
  have shift: "away z r k = away z b k - away z b r" if "away z b r \<le> away z b k" for k
    using away_shift [OF that] rb by simp
  have "0 < away z r nh \<longrightarrow> win_find w' (at_dist z r (away z r nh - 1)) \<noteq> None"
  proof
    assume p: "0 < away z r nh"
    then have "away z b r < away z b nh" using shift [OF r] by simp
    moreover have "at_dist z r (away z r nh - 1) = at_dist z b (away z b nh - 1)"
      using at_at [of z b "away z b r" "away z r nh - 1"] rb shift [OF r] calculation by simp
    moreover have "away z b (at_dist z b (away z b nh - 1)) = away z b nh - 1"
      using away_less [of z b nh] by (intro away_at) simp
    ultimately show "win_find w' (at_dist z r (away z r nh - 1)) \<noteq> None"
      using keep [of "at_dist z b (away z b nh - 1)"] assms(1) by (simp add: win_frame_def)
  qed
  moreover have "win_find w' k \<noteq> None \<Longrightarrow> is_sn z k \<and> away z r k < away z r nh" for k
    using keys [of k] shift [of k] shift [OF r] by auto
  ultimately show "win_frame z w' r nh"
    using assms(1) d(1,6,7) shift [OF r] unfolding win_frame_def by auto
  show "\<not> sdu_received w' r"
  proof (cases "away z b r < away z b nh")
    case True
    then show ?thesis using d(4) keep [of r] d(1) sdu_received_cong [of w' r w] by simp
  next
    case False
    then show ?thesis using keys [of r] r by (auto simp: sdu_received_def split: option.splits)
  qed
qed

section \<open>What is known of the SDUs in the window\<close>

text \<open>
  Between two PDUs, the data of a received SDU are released; the segments of another one are
  sorted and disjoint, and the flags are what the inventory of the segments gives.
\<close>

definition sdu_info_ok :: "rlc_rx_am_sdu_info \<Rightarrow> bool" where
  "sdu_info_ok info \<longleftrightarrow>
     (if fully_received info then sdu_data info = Sdu_slice [] \<and> \<not> has_gap info
      else (\<exists>segs. sdu_data info = Sdu_segment_set segs \<and> segs_ok segs \<and> (False, has_gap info) = inventory 0 segs))"

definition infos_ok :: "rlc_rx_am_sdu_info sdu_window \<Rightarrow> bool" where
  "infos_ok w \<longleftrightarrow> (\<forall>k info. win_find w k = Some info \<longrightarrow> sdu_info_ok info)"

text \<open>The segments held for an SN that is not received, none if nothing has arrived.\<close>

definition segments_of :: "rlc_rx_am_sdu_info \<Rightarrow> rlc_rx_am_sdu_segment list" where
  "segments_of info = (case sdu_data info of Sdu_segment_set segs \<Rightarrow> segs | Sdu_slice _ \<Rightarrow> [])"

lemma segments_of_ok: "infos_ok w \<Longrightarrow> segs_ok (segments_of (info_at w sn))"
  by (fastforce simp: infos_ok_def info_at_def segments_of_def sdu_info_ok_def sdu_info_init_def split: option.splits sdu_data.splits if_splits)

lemma infos_ok_placed: "infos_ok w \<Longrightarrow> placed w sn info w' \<Longrightarrow> sdu_info_ok info \<Longrightarrow> infos_ok w'"
  by (auto simp: infos_ok_def placed_def)

definition full_info :: "bytes \<Rightarrow> rlc_rx_am_sdu_info" where
  "full_info payload = \<lparr>fully_received = True, has_gap = False, sdu_data = Sdu_slice payload\<rparr>"

lemma full_info_update: "info\<lparr>sdu_data := Sdu_slice p, fully_received := True, has_gap := False\<rparr> = full_info p"
  by (cases info) (simp add: full_info_def)

definition segment_of_header :: "rlc_am_pdu_header \<Rightarrow> bytes \<Rightarrow> rlc_rx_am_sdu_segment" where
  "segment_of_header h payload = \<lparr>seg_si = ah_si h, seg_so = ah_so h, seg_payload = payload\<rparr>"

text \<open>What storing a segment makes of the information on its SDU.\<close>

definition segs_info :: "rlc_rx_am_sdu_segment list \<Rightarrow> rlc_rx_am_sdu_info" where
  "segs_info segs = \<lparr>fully_received = fst (inventory 0 segs), has_gap = snd (inventory 0 segs), sdu_data = Sdu_segment_set segs\<rparr>"

definition with_segment :: "rlc_rx_am_sdu_segment \<Rightarrow> rlc_rx_am_sdu_info \<Rightarrow> bool \<times> rlc_rx_am_sdu_info" where
  "with_segment seg info = (let (stored, segs) = store_loop [] (segments_of info) seg in (stored, segs_info segs))"

lemma inventory_not_both: "\<not> (fst (inventory next segs) \<and> snd (inventory next segs))"
  by (induction segs arbitrary: "next") simp_all

lemma store_then_inventory:
  "store_segment info seg = (stored, info') \<Longrightarrow>
    update_segment_inventory info' = Inr (snd (with_segment seg info)) \<and> stored = fst (with_segment seg info)"
  by (cases "sdu_data info")
    (auto simp: store_segment_def update_segment_inventory_def with_segment_def segments_of_def segs_info_def Let_def split: prod.splits)

lemma get_or_add_placed:
  assumes "win_frame z w b nh" and "is_sn z sn" and "away z b sn < unat (am_window_size_of z)"
  obtains wa where "get_or_add sn w = Inr (info_at w sn, wa)"
    "\<And>x. \<exists>w'. win_update sn (\<lambda>_. x) wa = Inr w' \<and> placed w sn x w'"
proof (cases "win_find w sn")
  case None
  let ?wa = "win_put sn sdu_info_init w"
  have p: "placed w sn sdu_info_init ?wa" by (rule put_placed [OF assms])
  have fr: "win_frame z ?wa b (next_highest_of z b nh sn)" by (rule win_frame_placed [OF assms p])
  have "\<exists>w'. win_update sn (\<lambda>_. x) ?wa = Inr w' \<and> placed w sn x w'" for x
  proof -
    have "win_find ?wa sn = Some sdu_info_init" using p by (simp add: placed_def)
    then have "win_update sn (\<lambda>_. x) ?wa = Inr (win_put sn x ?wa)"
      by (simp only: win_update_find [OF win_frame_wf [OF fr]] option.case)
    moreover have "placed w sn x (win_put sn x ?wa)"
      using placed_placed [OF p put_placed [OF fr assms(2,3)]] .
    ultimately show ?thesis by blast
  qed
  then show ?thesis
    using that [of ?wa] None by (simp add: get_or_add_def add_sn_put has_sn_find info_at_def)
next
  case (Some i)
  have "\<exists>w'. win_update sn (\<lambda>_. x) w = Inr w' \<and> placed w sn x w'" for x
    using put_placed [OF assms, of x] win_update_find [OF win_frame_wf [OF assms(1)], of sn "\<lambda>_. x"] Some by simp
  then show ?thesis
    using that [of w] Some by (simp add: get_or_add_def has_sn_find win_at_find info_at_def)
qed

text \<open>The two ways of placing a PDU.\<close>

definition new_info :: "rlc_am_pdu_header \<Rightarrow> bytes \<Rightarrow> rlc_rx_am_sdu_info \<Rightarrow> bool \<times> rlc_rx_am_sdu_info" where
  "new_info h payload info =
     (if ah_si h = Full_sdu then (True, full_info payload) else with_segment (segment_of_header h payload) info)"

lemma place_in_window:
  assumes "win_frame (am_size s) (am_window s) b nh" and "is_sn (am_size s) (ah_sn h)"
    and "away (am_size s) b (ah_sn h) < unat (am_window_size s)"
  obtains w' where "(if ah_si h = Full_sdu then handle_full_data_sdu h payload s else handle_segment_data_sdu h payload s) =
      Inr (fst (new_info h payload (info_at (am_window s) (ah_sn h))), s\<lparr>am_window := w'\<rparr>)"
    and "placed (am_window s) (ah_sn h) (snd (new_info h payload (info_at (am_window s) (ah_sn h)))) w'"
proof -
  let ?i = "info_at (am_window s) (ah_sn h)"
  obtain wa where g: "get_or_add (ah_sn h) (am_window s) = Inr (?i, wa)"
    and u: "\<And>x. \<exists>w'. win_update (ah_sn h) (\<lambda>_. x) wa = Inr w' \<and> placed (am_window s) (ah_sn h) x w'"
    using get_or_add_placed [OF assms] by metis
  obtain w' where w': "win_update (ah_sn h) (\<lambda>_. snd (new_info h payload ?i)) wa = Inr w'"
    "placed (am_window s) (ah_sn h) (snd (new_info h payload ?i)) w'" using u by blast
  show ?thesis
  proof (rule that [OF _ w'(2)], cases "ah_si h = Full_sdu")
    case True
    then show "(if ah_si h = Full_sdu then handle_full_data_sdu h payload s else handle_segment_data_sdu h payload s) =
      Inr (fst (new_info h payload ?i), s\<lparr>am_window := w'\<rparr>)"
      using w'(1) by (simp add: handle_full_data_sdu_def g new_info_def full_info_update)
  next
    case False
    obtain stored info' where st: "store_segment ?i (segment_of_header h payload) = (stored, info')" by fastforce
    then show "(if ah_si h = Full_sdu then handle_full_data_sdu h payload s else handle_segment_data_sdu h payload s) =
      Inr (fst (new_info h payload ?i), s\<lparr>am_window := w'\<rparr>)"
      using w'(1) False store_then_inventory [OF st]
      by (simp add: handle_segment_data_sdu_def g new_info_def segment_of_header_def)
  qed
qed

end
