(* ===== verification/Rlc_Am_Codec.thy ===== *)
theory Rlc_Am_Codec
  imports Rlc_Am_Pdu
begin

text \<open>
  What the packing and unpacking of AM PDUs achieve: packed sizes, and round trips for headers and
  for status PDUs as \<open>push_nack\<close> builds them.
\<close>

section \<open>Masks as bits\<close>

lemma byte_masks:
  "(0x0f :: 'a::len word) = mask 4" "(0xff :: 'a::len word) = mask 8" "(0x7f :: 'a::len word) = mask 7"
  "(0x07 :: 'a::len word) = mask 3" "(0x03 :: 'a::len word) = mask 2" "(0x01 :: 'a::len word) = mask 1"
  "(0xf0 :: 'a::len word) = push_bit 4 (mask 4)" "(0xc0 :: 'a::len word) = push_bit 6 (mask 2)"
  "(0xfc :: 'a::len word) = push_bit 2 (mask 6)" "(0x0c :: 'a::len word) = push_bit 2 (mask 2)"
  by (simp_all add: mask_eq_exp_minus_1 push_bit_eq_mult)

lemma bit_test:
  fixes w :: u8
  shows "w AND 0x80 \<noteq> 0 \<longleftrightarrow> bit w 7" "w AND 0x20 \<noteq> 0 \<longleftrightarrow> bit w 5" "w AND 0x10 \<noteq> 0 \<longleftrightarrow> bit w 4"
    "w AND 0x08 \<noteq> 0 \<longleftrightarrow> bit w 3" "w AND 0x04 \<noteq> 0 \<longleftrightarrow> bit w 2" "w AND 0x02 \<noteq> 0 \<longleftrightarrow> bit w 1"
  using and_exp_eq_0_iff_not_bit [of w 7] and_exp_eq_0_iff_not_bit [of w 5] and_exp_eq_0_iff_not_bit [of w 4]
    and_exp_eq_0_iff_not_bit [of w 3] and_exp_eq_0_iff_not_bit [of w 2] and_exp_eq_0_iff_not_bit [of w 1]
  by simp_all

lemma flag_bits:
  "(0x80 :: u8) = push_bit 7 1" "(0x20 :: u8) = push_bit 5 1" "(0x10 :: u8) = push_bit 4 1"
  "(0x08 :: u8) = push_bit 3 1" "(0x04 :: u8) = push_bit 2 1" "(0x02 :: u8) = push_bit 1 1"
  by (simp_all add: push_bit_eq_mult)

lemma bit_flag [simp]: "k < 8 \<Longrightarrow> bit (push_bit k 1 :: u8) n \<longleftrightarrow> n = k"
  unfolding bit_push_bit_iff bit_1_iff by auto

text \<open>A field of an SN that goes through a byte, and the lowest field, which shares its byte with flags.\<close>

lemma bit_field:
  fixes sn :: u32
  assumes "m \<le> 8" and "k + m \<le> 32"
  shows "bit (push_bit k (ucast (ucast (drop_bit k sn AND mask m) :: u8) AND mask m) :: u32) n \<longleftrightarrow>
    k \<le> n \<and> n < k + m \<and> bit sn n"
proof (cases "k \<le> n")
  case True
  then obtain j where "n = k + j" using le_Suc_ex by blast
  then show ?thesis using assms by (auto simp: bit_simps)
qed (simp add: bit_simps)

lemma bit_low_field:
  fixes sn :: u32
  assumes "k + m = 8" and "\<forall>n \<ge> k. \<not> bit (f :: u8) n"
  shows "bit (drop_bit k (ucast ((ucast (push_bit k (sn AND mask m)) :: u8) OR f) AND push_bit k (mask m)) :: u32) n \<longleftrightarrow>
    n < m \<and> bit sn n"
  using assms by (auto simp: bit_simps)

lemma bit_low_field':
  fixes sn :: u32
  assumes "k + m = 8" and "\<forall>n \<ge> k. \<not> bit (f :: u8) n"
  shows "bit (drop_bit k (ucast ((ucast (push_bit k sn AND push_bit k (mask m)) :: u8) OR f) AND push_bit k (mask m)) :: u32) n \<longleftrightarrow>
    n < m \<and> bit sn n"
  using assms by (auto simp: bit_simps)

text \<open>An SN cut into the bytes of a NACK, with flags below it, is put together again.\<close>

lemma nack_sn_12:
  fixes sn :: u32
  assumes "unat sn < 2 ^ 12" and "\<forall>n \<ge> 4. \<not> bit (f :: u8) n"
  shows "push_bit 4 (ucast (ucast (drop_bit 4 sn AND mask 8) :: u8) AND mask 8) OR
    drop_bit 4 (ucast ((ucast (push_bit 4 (sn AND mask 4)) :: u8) OR f) AND push_bit 4 (mask 4)) = sn" (is "?a OR ?b = sn")
proof (rule bit_word_eqI)
  fix n
  have a: "bit ?a n \<longleftrightarrow> 4 \<le> n \<and> n < 4 + 8 \<and> bit sn n" by (rule bit_field) simp_all
  have b: "bit ?b n \<longleftrightarrow> n < 4 \<and> bit sn n" using assms(2) by (intro bit_low_field) simp_all
  show "bit (?a OR ?b) n \<longleftrightarrow> bit sn n"
    unfolding bit_or_iff a b using sn_bit_bound [OF assms(1), of n] by auto
qed

lemma nack_sn_18:
  fixes sn :: u32
  assumes "unat sn < 2 ^ 18" and "\<forall>n \<ge> 6. \<not> bit (f :: u8) n"
  shows "push_bit 10 (ucast (ucast (drop_bit 10 sn AND mask 8) :: u8) AND mask 8) OR
    push_bit 2 (ucast (ucast (drop_bit 2 sn AND mask 8) :: u8) AND mask 8) OR
    drop_bit 6 (ucast ((ucast (push_bit 6 sn AND push_bit 6 (mask 2)) :: u8) OR f) AND push_bit 6 (mask 2)) = sn"
    (is "?a OR ?b OR ?c = sn")
proof (rule bit_word_eqI)
  fix n
  have a: "bit ?a n \<longleftrightarrow> 10 \<le> n \<and> n < 10 + 8 \<and> bit sn n" by (rule bit_field) simp_all
  have b: "bit ?b n \<longleftrightarrow> 2 \<le> n \<and> n < 2 + 8 \<and> bit sn n" by (rule bit_field) simp_all
  have c: "bit ?c n \<longleftrightarrow> n < 2 \<and> bit sn n" using assms(2) by (intro bit_low_field') simp_all
  show "bit (?a OR ?b OR ?c) n \<longleftrightarrow> bit sn n"
    unfolding bit_or_iff a b c using sn_bit_bound [OF assms(1), of n] by auto
qed

lemma u16_bytes: "push_bit 8 (ucast (ucast (drop_bit 8 x) :: u8) :: u16) OR ucast (ucast x :: u8) = (x :: u16)" (is "?a OR ?b = x")
proof (rule bit_word_eqI)
  fix n
  have a: "bit ?a n \<longleftrightarrow> 8 \<le> n \<and> bit x n"
  proof (cases "8 \<le> n")
    case True
    then obtain j where "n = 8 + j" using le_Suc_ex by blast
    then show ?thesis using bit_imp_le_length [of x n] by (auto simp: bit_simps)
  qed (simp add: bit_simps)
  have b: "bit ?b n \<longleftrightarrow> n < 8 \<and> bit x n" by (auto simp: bit_simps)
  show "bit (?a OR ?b) n \<longleftrightarrow> bit x n" unfolding bit_or_iff a b by auto
qed

text \<open>The flags of a NACK.\<close>

definition flags12 :: "bool \<Rightarrow> bool \<Rightarrow> bool \<Rightarrow> u8" where
  "flags12 e1 e2 e3 = (if e1 then 0x08 else 0) OR (if e2 then 0x04 else 0) OR (if e3 then 0x02 else 0)"

definition flags18 :: "bool \<Rightarrow> bool \<Rightarrow> bool \<Rightarrow> u8" where
  "flags18 e1 e2 e3 = (if e1 then 0x20 else 0) OR (if e2 then 0x10 else 0) OR (if e3 then 0x08 else 0)"

lemma bit_if_flag: "bit (if e then push_bit k 1 else 0 :: u8) n \<longleftrightarrow> e \<and> bit (push_bit k 1 :: u8) n"
  by simp

lemma bit_flags12: "bit (flags12 e1 e2 e3) n \<longleftrightarrow> (n = 3 \<and> e1) \<or> (n = 2 \<and> e2) \<or> (n = 1 \<and> e3)"
  unfolding flags12_def flag_bits bit_or_iff bit_if_flag
  using bit_flag [of 3 n] bit_flag [of 2 n] bit_flag [of 1 n] by auto

lemma bit_flags18: "bit (flags18 e1 e2 e3) n \<longleftrightarrow> (n = 5 \<and> e1) \<or> (n = 4 \<and> e2) \<or> (n = 3 \<and> e3)"
  unfolding flags18_def flag_bits bit_or_iff bit_if_flag
  using bit_flag [of 5 n] bit_flag [of 4 n] bit_flag [of 3 n] by auto

lemma byte_with_flags12:
  fixes x :: u8
  assumes "\<forall>n < 4. \<not> bit x n"
  shows "(x OR flags12 e1 e2 e3) AND 0x01 = 0" "(x OR flags12 e1 e2 e3) AND 0x08 \<noteq> 0 \<longleftrightarrow> e1"
    "(x OR flags12 e1 e2 e3) AND 0x04 \<noteq> 0 \<longleftrightarrow> e2" "(x OR flags12 e1 e2 e3) AND 0x02 \<noteq> 0 \<longleftrightarrow> e3"
proof -
  show "(x OR flags12 e1 e2 e3) AND 0x01 = 0"
    using assms by (intro bit_word_eqI) (auto simp: bit_and_iff bit_or_iff bit_flags12 bit_1_iff)
qed (use assms in \<open>simp_all add: bit_test bit_or_iff bit_flags12\<close>)

lemma byte_with_flags18:
  fixes x :: u8
  assumes "\<forall>n < 6. \<not> bit x n"
  shows "(x OR flags18 e1 e2 e3) AND 0x07 = 0" "(x OR flags18 e1 e2 e3) AND 0x20 \<noteq> 0 \<longleftrightarrow> e1"
    "(x OR flags18 e1 e2 e3) AND 0x10 \<noteq> 0 \<longleftrightarrow> e2" "(x OR flags18 e1 e2 e3) AND 0x08 \<noteq> 0 \<longleftrightarrow> e3"
proof -
  show "(x OR flags18 e1 e2 e3) AND 0x07 = 0"
    unfolding byte_masks using assms
    by (intro bit_word_eqI) (auto simp: bit_and_iff bit_or_iff bit_flags18 bit_mask_iff)
qed (use assms in \<open>simp_all add: bit_test bit_or_iff bit_flags18\<close>)

section \<open>NACKs\<close>

definition nack_ok :: "rlc_am_sn_size \<Rightarrow> rlc_am_status_nack \<Rightarrow> bool" where
  "nack_ok z n \<longleftrightarrow> unat (nack_sn n) < 2 ^ am_bits z \<and> (\<not> has_so n \<longrightarrow> so_start n = 0 \<and> so_end n = so_end_of_sdu) \<and>
     (\<not> has_nack_range n \<longrightarrow> nack_range n = 0)"

lemma read_pack_fields:
  assumes "nack_ok z n"
  shows "read_nack_fields (has_so n) (has_nack_range n) (pack_nack_fields n @ rest) (nack_init\<lparr>nack_sn := nack_sn n\<rparr>) = Some (n, rest)"
  using assms
  by (cases n) (auto simp: read_nack_fields_def read_nack_so_def read_nack_range_def pack_nack_fields_def nack_ok_def
      nack_init_def u16_bytes)

lemma read_pack_nack_12bit:
  assumes "nack_ok Am12 n"
  shows "read_nack_12bit (pack_nack_12bit follows n @ rest) = Some (follows, n, rest)"
proof -
  let ?x = "ucast (push_bit 4 (nack_sn n AND 0x0f)) :: u8" and ?f = "flags12 follows (has_so n) (has_nack_range n)"
  have x: "\<forall>k < 4. \<not> bit ?x k" by (simp add: bit_simps)
  have f: "\<forall>k \<ge> 4. \<not> bit ?f k" by (simp add: bit_flags12)
  have sn: "push_bit 4 (ucast (ucast (drop_bit 4 (nack_sn n) AND 0xff) :: u8) AND 0xff) OR drop_bit 4 (ucast (?x OR ?f) AND 0xf0) = nack_sn n"
    using nack_sn_12 [OF _ f, of "nack_sn n"] assms unfolding byte_masks by (simp add: nack_ok_def)
  have p: "pack_nack_12bit follows n @ rest =
      ucast (drop_bit 4 (nack_sn n) AND 0xff) # (?x OR ?f) # pack_nack_fields n @ rest"
    by (simp only: pack_nack_12bit_def flags12_def append.simps)
  show ?thesis
    unfolding p read_nack_12bit_def
    by (simp only: list.case if_False byte_with_flags12 [OF x] not_True_eq_False sn read_pack_fields [OF assms]
        simp_thms option.map prod.case)
qed

lemma read_pack_nack_18bit:
  assumes "nack_ok Am18 n"
  shows "read_nack_18bit (pack_nack_18bit follows n @ rest) = Some (follows, n, rest)"
proof -
  let ?x = "ucast (push_bit 6 (nack_sn n) AND 0xc0) :: u8" and ?f = "flags18 follows (has_so n) (has_nack_range n)"
  have x: "\<forall>k < 6. \<not> bit ?x k" unfolding byte_masks by (simp add: bit_simps)
  have f: "\<forall>k \<ge> 6. \<not> bit ?f k" by (simp add: bit_flags18)
  have sn: "push_bit 10 (ucast (ucast (drop_bit 10 (nack_sn n) AND 0xff) :: u8) AND 0xff) OR
      push_bit 2 (ucast (ucast (drop_bit 2 (nack_sn n) AND 0xff) :: u8) AND 0xff) OR
      drop_bit 6 (ucast (?x OR ?f) AND 0xc0) = nack_sn n"
    using nack_sn_18 [OF _ f, of "nack_sn n"] assms unfolding byte_masks by (simp add: nack_ok_def)
  have p: "pack_nack_18bit follows n @ rest =
      ucast (drop_bit 10 (nack_sn n) AND 0xff) # ucast (drop_bit 2 (nack_sn n) AND 0xff) # (?x OR ?f) # pack_nack_fields n @ rest"
    by (simp only: pack_nack_18bit_def flags18_def append.simps)
  show ?thesis
    unfolding p read_nack_18bit_def
    by (simp only: list.case if_False byte_with_flags18 [OF x] not_True_eq_False sn read_pack_fields [OF assms]
        simp_thms option.map prod.case)
qed

section \<open>Data PDU headers\<close>

text \<open>The headers the entities build: an SO exactly in the segments that are not the first.\<close>

definition header_ok :: "rlc_am_pdu_header \<Rightarrow> bool" where
  "header_ok h \<longleftrightarrow> unat (ah_sn h) < 2 ^ am_bits (ah_sn_size h) \<and> ah_p h AND 0x01 = ah_p h \<and>
     (ah_so h \<noteq> 0 \<longleftrightarrow> ah_si h = Last_segment \<or> ah_si h = Middle_segment)"

lemma write_header_length: "header_ok h \<Longrightarrow> length (rlc_am_write_data_pdu_header h) = ah_packed_size h"
  by (cases "ah_sn_size h")
    (auto simp: rlc_am_write_data_pdu_header_def ah_packed_size_def header_ok_def Let_def
      rlc_am_pdu_header_max_size_def rlc_am_pdu_header_min_size_def)

lemma bit_byte_field: "k + m \<le> 8 \<Longrightarrow> bit (push_bit k (v AND mask m) :: u8) n \<longleftrightarrow> k \<le> n \<and> n < k + m \<and> bit v (n - k)"
  by (auto simp: bit_simps)

lemma bit_mask_extract: "bit ((v :: 'a::len word) AND mask m) n \<longleftrightarrow> n < m \<and> bit v n"
  by (auto simp: bit_simps dest: bit_imp_le_length)

text \<open>The first byte: D/C, P and SI above the first bits \<open>x\<close> of the SN.\<close>

definition first_byte :: "u8 \<Rightarrow> u8 \<Rightarrow> u8 \<Rightarrow> u8 \<Rightarrow> u8" where
  "first_byte d p s x = push_bit 7 (d AND mask 1) OR push_bit 6 (p AND mask 1) OR push_bit 4 (s AND mask 2) OR x"

lemma bit_first_byte:
  assumes "\<forall>n \<ge> 4. \<not> bit x n"
  shows "bit (first_byte d p s x) n \<longleftrightarrow>
    n = 7 \<and> bit d 0 \<or> n = 6 \<and> bit p 0 \<or> 4 \<le> n \<and> n < 6 \<and> bit s (n - 4) \<or> n < 4 \<and> bit x n"
proof -
  have d: "bit (push_bit 7 (d AND mask 1) :: u8) n \<longleftrightarrow> 7 \<le> n \<and> n < 7 + 1 \<and> bit d (n - 7)"
    and p: "bit (push_bit 6 (p AND mask 1) :: u8) n \<longleftrightarrow> 6 \<le> n \<and> n < 6 + 1 \<and> bit p (n - 6)"
    and s: "bit (push_bit 4 (s AND mask 2) :: u8) n \<longleftrightarrow> 4 \<le> n \<and> n < 4 + 2 \<and> bit s (n - 4)"
    by (rule bit_byte_field, simp)+
  have n: "7 \<le> n \<and> n < 7 + 1 \<longleftrightarrow> n = 7" "6 \<le> n \<and> n < 6 + 1 \<longleftrightarrow> n = 6" by auto
  have x: "bit x n \<longleftrightarrow> n < 4 \<and> bit x n" using assms not_le by blast
  show ?thesis unfolding first_byte_def bit_or_iff d p s using n x by auto
qed

lemma first_byte_fields:
  assumes "\<forall>n \<ge> 4. \<not> bit x n"
  shows "drop_bit 7 (first_byte d p s x) AND mask 1 = d AND mask 1"
    "drop_bit 6 (first_byte d p s x) AND mask 1 = p AND mask 1"
    "drop_bit 4 (first_byte d p s x) AND mask 2 = s AND mask 2"
  by (intro bit_word_eqI; unfold bit_mask_extract bit_drop_bit_eq comp_apply bit_first_byte [OF assms]; auto)+

lemma si_field: "si_of_number (si_to_number si AND mask 2) = si"
  by (cases si) (simp_all add: si_to_number_def si_of_number_def mask_eq_exp_minus_1)

lemma dc_field: "rlc_dc_of_number (rlc_dc_to_number dc AND mask 1) = dc"
  by (cases dc) (simp_all add: rlc_dc_to_number_def rlc_dc_of_number_def mask_eq_exp_minus_1)

text \<open>The SN behind the first byte.\<close>

lemma bit_u32_byte: "bit (push_bit k (ucast (b :: u8) AND mask m) :: u32) n \<longleftrightarrow> k \<le> n \<and> n < 32 \<and> n - k < m \<and> bit b (n - k)"
  by (auto simp: bit_simps dest: bit_imp_le_length)

lemma bit_u8_field: "bit (ucast (drop_bit k (sn :: u32) AND mask m) :: u8) n \<longleftrightarrow> n < 8 \<and> n < m \<and> bit sn (k + n)"
  by (auto simp: bit_simps dest: bit_imp_le_length)

lemma drop_bit_word_0: "drop_bit 0 (x :: 'a::len word) = x" "push_bit 0 (x :: 'a::len word) = x"
  by simp_all

lemma read_sn_12:
  fixes sn :: u32
  assumes "unat sn < 2 ^ 12"
  defines "x \<equiv> ucast (drop_bit 8 sn AND mask 4) :: u8"
  shows "push_bit 8 (ucast (first_byte d p s x) AND mask 4) OR (ucast (ucast (sn AND mask 8) :: u8) AND mask 8) = sn"
    (is "?a OR ?b = sn")
proof (rule bit_word_eqI)
  fix n assume "n < LENGTH(32)"
  have x: "bit x i \<longleftrightarrow> i < 8 \<and> i < 4 \<and> bit sn (8 + i)" for i unfolding x_def by (rule bit_u8_field)
  then have "\<forall>n \<ge> 4. \<not> bit x n" by auto
  note fb = bit_first_byte [OF this]
  have a: "bit ?a n \<longleftrightarrow> 8 \<le> n \<and> n < 12 \<and> bit sn n"
    unfolding bit_u32_byte fb x using sn_bit_bound [OF assms(1), of n] \<open>n < LENGTH(32)\<close> by auto
  have b: "bit ?b n \<longleftrightarrow> n < 8 \<and> bit sn n"
    using bit_u32_byte [of 0 "ucast (sn AND mask 8)" 8 n] bit_u8_field [of 0 sn 8 n] unfolding drop_bit_word_0 by auto
  show "bit (?a OR ?b) n \<longleftrightarrow> bit sn n" unfolding bit_or_iff a b using sn_bit_bound [OF assms(1), of n] by auto
qed

lemma read_sn_18:
  fixes sn :: u32
  assumes "unat sn < 2 ^ 18"
  defines "x \<equiv> ucast (drop_bit 16 sn AND mask 2) :: u8"
  shows "push_bit 16 (ucast (first_byte d p s x) AND mask 2) OR
    push_bit 8 (ucast (ucast (drop_bit 8 sn) :: u8) AND mask 8) OR (ucast (ucast (sn AND mask 8) :: u8) AND mask 8) = sn"
    (is "?a OR ?b OR ?c = sn")
    and "first_byte d p s x AND push_bit 2 (mask 2) = 0"
proof -
  have x: "bit x i \<longleftrightarrow> i < 8 \<and> i < 2 \<and> bit sn (16 + i)" for i unfolding x_def by (rule bit_u8_field)
  then have "\<forall>n \<ge> 4. \<not> bit x n" by auto
  note fb = bit_first_byte [OF this]
  have m: "bit (push_bit 2 (mask 2) :: u8) n \<longleftrightarrow> n = 2 \<or> n = 3" for n
    by (auto simp: bit_simps)
  show "first_byte d p s x AND push_bit 2 (mask 2) = 0"
    by (rule bit_word_eqI, unfold bit_and_iff fb m x) auto
  show "?a OR ?b OR ?c = sn"
  proof (rule bit_word_eqI)
    fix n assume "n < LENGTH(32)"
    have a: "bit ?a n \<longleftrightarrow> 16 \<le> n \<and> n < 18 \<and> bit sn n"
      unfolding bit_u32_byte fb x using sn_bit_bound [OF assms(1), of n] \<open>n < LENGTH(32)\<close> by auto
    have b: "bit ?b n \<longleftrightarrow> 8 \<le> n \<and> n < 16 \<and> bit sn n"
      unfolding bit_u32_byte using \<open>n < LENGTH(32)\<close> by (auto simp: bit_simps)
    have c: "bit ?c n \<longleftrightarrow> n < 8 \<and> bit sn n"
      using bit_u32_byte [of 0 "ucast (sn AND mask 8)" 8 n] bit_u8_field [of 0 sn 8 n] unfolding drop_bit_word_0 by auto
    show "bit (?a OR ?b OR ?c) n \<longleftrightarrow> bit sn n"
      unfolding bit_or_iff a b c using sn_bit_bound [OF assms(1), of n] by auto
  qed
qed

lemma read_so_bytes:
  "push_bit 8 (ucast (ucast (drop_bit 8 so) :: u8) AND mask 8) OR (ucast (ucast (so AND mask 8) :: u8) AND mask 8) = (so :: u16)"
    (is "?a OR ?b = so")
proof (rule bit_word_eqI)
  fix n assume "n < LENGTH(16)"
  then have a: "bit ?a n \<longleftrightarrow> 8 \<le> n \<and> bit so n" by (auto simp: bit_simps)
  have b: "bit ?b n \<longleftrightarrow> n < 8 \<and> bit so n" by (auto simp: bit_simps)
  show "bit (?a OR ?b) n \<longleftrightarrow> bit so n" unfolding bit_or_iff a b by auto
qed

theorem am_header_roundtrip:
  assumes "header_ok h" and "payload \<noteq> []"
  shows "rlc_am_read_data_pdu_header (rlc_am_write_data_pdu_header h @ payload) (ah_sn_size h) = Some h"
proof -
  define fb where "fb = first_byte (rlc_dc_to_number (ah_dc h)) (ah_p h) (si_to_number (ah_si h))"
  define so where "so = (if ah_so h \<noteq> 0 then [ucast (drop_bit 8 (ah_so h)), ucast (ah_so h AND mask 8)] else [] :: bytes)"
  have p: "ah_p h AND mask 1 = ah_p h" using assms(1) unfolding header_ok_def byte_masks by blast
  have so_ok: "(ah_si h = Last_segment \<or> ah_si h = Middle_segment) \<longleftrightarrow> ah_so h \<noteq> 0" using assms(1) by (auto simp: header_ok_def)
  have read_so: "ah_so h \<noteq> 0 \<Longrightarrow> read_so (so @ payload) = Some (ah_so h)"
    unfolding so_def read_so_def byte_masks by (simp only: if_True append.simps list.case read_so_bytes not_False_eq_True)
  have fields: "rlc_dc_of_number (drop_bit 7 (fb x) AND mask 1) = ah_dc h" "drop_bit 6 (fb x) AND mask 1 = ah_p h"
      "si_of_number (drop_bit 4 (fb x) AND mask 2) = ah_si h" if "\<forall>n \<ge> 4. \<not> bit x n" for x
    unfolding fb_def first_byte_fields [OF that] dc_field p si_field by (rule refl)+
  have eq: "\<lparr>ah_dc = ah_dc h, ah_p = ah_p h, ah_si = ah_si h, ah_sn_size = z, ah_sn = ah_sn h, ah_so = so\<rparr> = h"
    if "ah_sn_size h = z" "so = ah_so h" for z so using that by simp
  show ?thesis
  proof (cases "ah_sn_size h")
    case Am12
    define x :: u8 where "x = ucast (drop_bit 8 (ah_sn h) AND mask 4)"
    have x: "\<forall>n \<ge> 4. \<not> bit x n" unfolding x_def bit_u8_field by auto
    have w: "rlc_am_write_data_pdu_header h = [fb x, ucast (ah_sn h AND mask 8)] @ so"
      by (simp only: rlc_am_write_data_pdu_header_def Am12 Let_def byte_masks fb_def first_byte_def x_def so_def or.assoc if_True simp_thms)
    have sn: "push_bit 8 (ucast (fb x) AND mask 4) OR (ucast (ucast (ah_sn h AND mask 8) :: u8) AND mask 8) = ah_sn h"
      unfolding fb_def x_def using assms(1) Am12 by (intro read_sn_12) (simp add: header_ok_def)
    have "read_am_sn Am12 (rlc_am_write_data_pdu_header h @ payload) = Some (ah_sn h, so @ payload)"
      unfolding w read_am_sn_def byte_masks by (simp only: append.simps list.case rlc_am_sn_size.case sn)
    then show ?thesis
      using assms(2) read_so so_ok
      unfolding rlc_am_read_data_pdu_header_def Am12 byte_masks w append.simps list.sel fields [OF x]
      by (auto simp: rlc_am_pdu_header_min_size_def Let_def eq [OF Am12])
  next
    case Am18
    define x :: u8 where "x = ucast (drop_bit 16 (ah_sn h) AND mask 2)"
    have x: "\<forall>n \<ge> 4. \<not> bit x n" unfolding x_def bit_u8_field by auto
    have w: "rlc_am_write_data_pdu_header h = [fb x, ucast (drop_bit 8 (ah_sn h)), ucast (ah_sn h AND mask 8)] @ so"
      by (simp only: rlc_am_write_data_pdu_header_def Am18 Let_def byte_masks fb_def first_byte_def x_def so_def or.assoc if_False simp_thms rlc_am_sn_size.distinct)
    have b: "unat (ah_sn h) < 2 ^ 18" using assms(1) Am18 by (simp add: header_ok_def)
    have sn: "push_bit 16 (ucast (fb x) AND mask 2) OR push_bit 8 (ucast (ucast (drop_bit 8 (ah_sn h)) :: u8) AND mask 8) OR
        (ucast (ucast (ah_sn h AND mask 8) :: u8) AND mask 8) = ah_sn h"
      and r: "fb x AND push_bit 2 (mask 2) = 0"
      unfolding fb_def x_def using read_sn_18 [OF b] by blast+
    have "read_am_sn Am18 (rlc_am_write_data_pdu_header h @ payload) = Some (ah_sn h, so @ payload)"
      unfolding w read_am_sn_def byte_masks by (simp only: append.simps list.case rlc_am_sn_size.case sn r simp_thms if_False)
    then show ?thesis
      using assms(2) read_so so_ok
      unfolding rlc_am_read_data_pdu_header_def Am18 byte_masks w append.simps list.sel fields [OF x]
      by (auto simp: rlc_am_pdu_header_min_size_def Let_def eq [OF Am18])
  qed
qed

end
