(* ===== verification/Rlc_Am_Status.thy ===== *)
theory Rlc_Am_Status
  imports Rlc_Am_Codec
begin

text \<open>
  What a status PDU says: its NACKs denote a list of missing byte ranges of SDUs. \<open>push_nack\<close>
  appends to this list whatever it merges, keeps the packed size and keeps NACKs unmergeable, so
  that packing and unpacking such a PDU is the identity.
\<close>

section \<open>The loops over packed NACKs\<close>

text \<open>
  A format of NACKs: a packing function, a reader that inverts it on well-formed NACKs, and the
  loop of \<open>unpack\<close> on top of the reader.
\<close>

locale nack_format =
  fixes pack :: "bool \<Rightarrow> rlc_am_status_nack \<Rightarrow> bytes"
    and read :: "bytes \<Rightarrow> (bool \<times> rlc_am_status_nack \<times> bytes) option"
    and unpack :: "bool \<Rightarrow> bytes \<Rightarrow> rlc_am_status_pdu \<Rightarrow> bool \<times> rlc_am_status_pdu"
    and ok :: "rlc_am_status_nack \<Rightarrow> bool"
  assumes read_pack: "ok n \<Longrightarrow> read (pack follows n @ rest) = Some (follows, n, rest)"
    and unpack_stop: "unpack False rd s = (True, s)"
    and unpack_step: "unpack True rd s =
      (case read rd of None \<Rightarrow> (False, s) | Some (e, n, rd') \<Rightarrow> unpack e rd' (push_nack n s))"
begin

lemma unpack_pack:
  "\<forall>n \<in> set ns. ok n \<Longrightarrow> unpack (ns \<noteq> []) (pack_nacks pack ns) s = (True, fold push_nack ns s)"
  by (induction ns arbitrary: s) (simp_all add: unpack_stop unpack_step read_pack)

lemma unpack_truncated: "read rd = None \<Longrightarrow> unpack True rd s = (False, s)"
  by (simp add: unpack_step)

end

interpretation nack12: nack_format pack_nack_12bit read_nack_12bit unpack_nacks_12bit "nack_ok Am12"
proof
  show "unpack_nacks_12bit True rd s =
      (case read_nack_12bit rd of None \<Rightarrow> (False, s) | Some (e, n, rd') \<Rightarrow> unpack_nacks_12bit e rd' (push_nack n s))" for rd s
    by (subst unpack_nacks_12bit.simps) simp
qed (simp_all add: read_pack_nack_12bit unpack_nacks_12bit.simps)

interpretation nack18: nack_format pack_nack_18bit read_nack_18bit unpack_nacks_18bit "nack_ok Am18"
proof
  show "unpack_nacks_18bit True rd s =
      (case read_nack_18bit rd of None \<Rightarrow> (False, s) | Some (e, n, rd') \<Rightarrow> unpack_nacks_18bit e rd' (push_nack n s))" for rd s
    by (subst unpack_nacks_18bit.simps) simp
qed (simp_all add: read_pack_nack_18bit unpack_nacks_18bit.simps)

section \<open>Well-formed status PDUs\<close>

definition nacks_size :: "rlc_am_sn_size \<Rightarrow> rlc_am_status_nack list \<Rightarrow> u32" where
  "nacks_size z ns = status_header_size + sum_list (map (nack_size z) ns)"

definition unmergeable :: "u32 \<Rightarrow> rlc_am_status_nack list \<Rightarrow> bool" where
  "unmergeable m = successively (\<lambda>a b. \<not> can_be_merged m a b)"

lemma unmergeable_snoc: "unmergeable m (ns @ [n]) \<longleftrightarrow> unmergeable m ns \<and> (ns \<noteq> [] \<longrightarrow> \<not> can_be_merged m (last ns) n)"
  by (auto simp: unmergeable_def successively_append_iff)

lemma unmergeable_Nil [simp]: "unmergeable m []"
  by (simp add: unmergeable_def)

definition status_wf :: "rlc_am_status_pdu \<Rightarrow> bool" where
  "status_wf s \<longleftrightarrow> sp_mod_nr s = cardinality (am_bits (sp_sn_size s)) \<and> sp_cpt s = 0 \<and>
     (\<forall>n \<in> set (sp_nacks s). nack_ok (sp_sn_size s) n) \<and>
     unmergeable (sp_mod_nr s) (sp_nacks s) \<and>
     sp_packed_size s = nacks_size (sp_sn_size s) (sp_nacks s)"

lemma status_wf_create: "status_wf (status_create z)"
  by (simp add: status_wf_def status_create_def nacks_size_def)

lemma status_wf_reset: "status_wf s \<Longrightarrow> status_wf (status_reset s)"
  by (simp add: status_wf_def status_reset_def nacks_size_def)

lemma status_wf_ack: "status_wf s \<Longrightarrow> status_wf (s\<lparr>sp_ack_sn := sn\<rparr>)"
  by (auto simp: status_wf_def)

lemma push_nack_sizes [simp]:
  "sp_sn_size (push_nack n s) = sp_sn_size s" "sp_mod_nr (push_nack n s) = sp_mod_nr s"
  "sp_cpt (push_nack n s) = sp_cpt s" "sp_ack_sn (push_nack n s) = sp_ack_sn s"
  by (simp_all add: push_nack_def Let_def)

lemma nacks_size_snoc: "nacks_size z (ns @ [n]) = nacks_size z ns + nack_size z n"
  by (simp add: nacks_size_def)

text \<open>The effect of merging on the previous NACK.\<close>

definition merged :: "rlc_am_status_nack \<Rightarrow> rlc_am_status_nack \<Rightarrow> rlc_am_status_nack" where
  "merged prev nack = expand_so nack (expand_range nack prev)"

definition nack_count :: "rlc_am_status_nack \<Rightarrow> nat" where
  "nack_count n = (if has_nack_range n then unat (nack_range n) else 1)"

lemma merged_fields:
  "nack_sn (merged p n) = nack_sn p" "has_nack_range (merged p n)"
  "has_so (merged p n) \<longleftrightarrow> has_so p \<or> has_so n"
  "so_start (merged p n) = (if has_so n \<and> \<not> has_so p then 0 else so_start p)"
  "so_end (merged p n) = (if has_so n then so_end n else if has_so p then so_end_of_sdu else so_end p)"
  by (simp_all add: merged_def expand_so_def expand_range_def)

lemma unat_u8_add:
  fixes a b :: u8
  assumes "unat a + unat b \<le> 255"
  shows "unat (a + b) = unat a + unat b"
  using assms by (simp add: unat_word_ariths)

lemma merged_count:
  assumes "can_be_merged m p n"
  shows "nack_count (merged p n) = nack_count p + nack_count n"
proof -
  have s: "nack_count p + nack_count n \<le> 255"
    using assms by (auto simp: can_be_merged_def nack_count_def split: if_splits)
  have r: "nack_range (merged p n) =
      (if has_nack_range p then nack_range p else 1) + (if has_nack_range n then nack_range n else 1)"
    by (simp add: merged_def expand_so_def expand_range_def)
  show ?thesis
    using s unat_u8_add [of "if has_nack_range p then nack_range p else 1" "if has_nack_range n then nack_range n else 1"]
    by (cases "has_nack_range p"; cases "has_nack_range n") (simp_all add: nack_count_def merged_fields r)
qed

lemma push_nack_cases:
  obtains (append) "push_nack n s = s\<lparr>sp_nacks := sp_nacks s @ [n], sp_packed_size := sp_packed_size s + nack_size (sp_sn_size s) n\<rparr>"
      "sp_nacks s = [] \<or> \<not> can_be_merged (sp_mod_nr s) (last (sp_nacks s)) n"
  | (merge) ns p where "sp_nacks s = ns @ [p]" "can_be_merged (sp_mod_nr s) p n"
      "push_nack n s = s\<lparr>sp_nacks := ns @ [merged p n],
         sp_packed_size := sp_packed_size s - nack_size (sp_sn_size s) p + nack_size (sp_sn_size s) (merged p n)\<rparr>"
proof (cases "sp_nacks s = [] \<or> \<not> can_be_merged (sp_mod_nr s) (last (sp_nacks s)) n")
  case True
  then show ?thesis using append by (auto simp: push_nack_def)
next
  case False
  then obtain ns p where "sp_nacks s = ns @ [p]" by (metis rev_exhaust)
  then show ?thesis using merge [of ns p] False by (simp add: push_nack_def merged_def Let_def)
qed

lemma can_be_merged_head:
  assumes "\<not> can_be_merged m a p" and "can_be_merged m' p n"
  shows "\<not> can_be_merged m a (merged p n)"
proof -
  have "nack_count p \<le> nack_count (merged p n)" by (simp add: merged_count [OF assms(2)])
  then show ?thesis
    using assms(1) unfolding can_be_merged_def nack_count_def [symmetric]
    by (auto simp: merged_fields split: if_splits)
qed

lemma status_wf_push:
  assumes "status_wf s" and "nack_ok (sp_sn_size s) n"
  shows "status_wf (push_nack n s)"
proof (cases rule: push_nack_cases [of n s])
  case append
  then show ?thesis using assms by (auto simp: status_wf_def nacks_size_snoc unmergeable_snoc)
next
  case (merge ns p)
  have p: "nack_ok (sp_sn_size s) p" and ns: "\<forall>x \<in> set ns. nack_ok (sp_sn_size s) x"
    using assms(1) merge(1) by (simp_all add: status_wf_def)
  have ok: "nack_ok (sp_sn_size s) (merged p n)" using p assms(2) by (simp add: nack_ok_def merged_fields)
  have size: "sp_packed_size s = nacks_size (sp_sn_size s) ns + nack_size (sp_sn_size s) p"
    using assms(1) merge(1) by (simp add: status_wf_def nacks_size_snoc)
  have succ: "unmergeable (sp_mod_nr s) (ns @ [merged p n])"
    using assms(1) merge(1) can_be_merged_head [OF _ merge(2)] unfolding status_wf_def by (auto simp: unmergeable_snoc)
  have new: "sp_packed_size s - nack_size (sp_sn_size s) p + nack_size (sp_sn_size s) (merged p n) =
      nacks_size (sp_sn_size s) (ns @ [merged p n])"
    by (simp add: nacks_size_snoc size)
  have c: "sp_mod_nr s = cardinality (am_bits (sp_sn_size s))" "sp_cpt s = 0" using assms(1) by (simp_all add: status_wf_def)
  show ?thesis unfolding merge(3) status_wf_def using c ok ns succ new by simp
qed

section \<open>What NACKs denote\<close>

text \<open>
  A missing byte range: the SN, the first and the last missing offset, where \<open>so_end_of_sdu\<close>
  is the end of the SDU. A NACK with a range of \<open>c\<close> SNs denotes \<open>c\<close> of them.
\<close>

type_synonym missing = "u32 \<times> u16 \<times> u16"

definition nack_missing :: "u32 \<Rightarrow> rlc_am_status_nack \<Rightarrow> missing list" where
  "nack_missing m n = map (\<lambda>i. (ring_add m (nack_sn n) i,
       if i = 0 \<and> has_so n then so_start n else 0,
       if Suc i = nack_count n \<and> has_so n then so_end n else so_end_of_sdu)) [0..<nack_count n]"

definition nacks_missing :: "u32 \<Rightarrow> rlc_am_status_nack list \<Rightarrow> missing list" where
  "nacks_missing m ns = concat (map (nack_missing m) ns)"

definition sn_nack_ok :: "u32 \<Rightarrow> rlc_am_status_nack \<Rightarrow> bool" where
  "sn_nack_ok m n \<longleftrightarrow> unat (nack_sn n) < unat m \<and> 0 < nack_count n"

lemma merge_next_sn:
  assumes "ring_size m" and "can_be_merged m p n"
  shows "nack_sn n = ring_add m (nack_sn p) (nack_count p)"
proof -
  have "nack_sn n = (if has_nack_range p then nack_sn p + ucast (nack_range p) else nack_sn p + 1) mod m"
    using assms(2) by (auto simp: can_be_merged_def split: if_splits)
  moreover have "(ucast (nack_range p) :: u32) = of_nat (unat (nack_range p))" by (simp add: word_unat_eq_iff unsigned_ucast_eq unsigned_of_nat take_bit_eq_mod)
  ultimately show ?thesis by (simp add: ring_add_def nack_count_def)
qed

lemma merged_missing:
  assumes "ring_size m" and "can_be_merged m p n" and "sn_nack_ok m p" and "sn_nack_ok m n"
  shows "nack_missing m (merged p n) = nack_missing m p @ nack_missing m n"
proof (rule nth_equalityI)
  show "length (nack_missing m (merged p n)) = length (nack_missing m p @ nack_missing m n)"
    by (simp add: nack_missing_def merged_count [OF assms(2)])
next
  fix i assume "i < length (nack_missing m (merged p n))"
  then have i: "i < nack_count p + nack_count n" by (simp add: nack_missing_def merged_count [OF assms(2)])
  have p0: "0 < nack_count p" and n0: "0 < nack_count n" using assms(3,4) by (simp_all add: sn_nack_ok_def)
  have e: "has_so p \<Longrightarrow> so_end p = so_end_of_sdu" and b: "has_so n \<Longrightarrow> so_start n = 0"
    using assms(2) by (auto simp: can_be_merged_def split: if_splits)
  show "nack_missing m (merged p n) ! i = (nack_missing m p @ nack_missing m n) ! i"
  proof (cases "i < nack_count p")
    case True
    then show ?thesis
      using i p0 n0 e by (auto simp: nack_missing_def nth_append merged_count [OF assms(2)] merged_fields)
  next
    case False
    then obtain j where j: "i = nack_count p + j" "j < nack_count n" using i le_Suc_ex [of "nack_count p" i] by auto
    have sn: "ring_add m (nack_sn p) (nack_count p + j) = ring_add m (nack_sn n) j"
      by (simp add: merge_next_sn [OF assms(1,2)] ring_add_add [OF assms(1)])
    show ?thesis
      using j p0 b e by (auto simp: nack_missing_def nth_append merged_count [OF assms(2)] merged_fields sn)
  qed
qed

lemma push_nack_missing:
  assumes "ring_size (sp_mod_nr s)" and "\<forall>x \<in> set (sp_nacks s). sn_nack_ok (sp_mod_nr s) x"
    and "sn_nack_ok (sp_mod_nr s) n"
  shows "nacks_missing (sp_mod_nr s) (sp_nacks (push_nack n s)) =
      nacks_missing (sp_mod_nr s) (sp_nacks s) @ nack_missing (sp_mod_nr s) n"
    and "\<forall>x \<in> set (sp_nacks (push_nack n s)). sn_nack_ok (sp_mod_nr s) x"
proof (cases rule: push_nack_cases [of n s])
  case append
  then show "nacks_missing (sp_mod_nr s) (sp_nacks (push_nack n s)) =
      nacks_missing (sp_mod_nr s) (sp_nacks s) @ nack_missing (sp_mod_nr s) n"
    by (simp add: nacks_missing_def)
next
  case (merge ns p)
  then show "nacks_missing (sp_mod_nr s) (sp_nacks (push_nack n s)) =
      nacks_missing (sp_mod_nr s) (sp_nacks s) @ nack_missing (sp_mod_nr s) n"
    using merged_missing [OF assms(1) merge(2) _ assms(3)] assms(2) by (simp add: nacks_missing_def)
next
  show "\<forall>x \<in> set (sp_nacks (push_nack n s)). sn_nack_ok (sp_mod_nr s) x"
  proof (cases rule: push_nack_cases [of n s])
    case append
    then show ?thesis using assms(2,3) by simp
  next
    case (merge ns p)
    then show ?thesis
      using assms(2,3) by (auto simp: sn_nack_ok_def merged_fields merged_count [OF merge(2)])
  qed
qed

section \<open>Packing and unpacking\<close>

lemma pack_nacks_length:
  "of_nat (length (pack_nacks pack_nack_12bit ns)) = sum_list (map (nack_size Am12) ns)"
  "of_nat (length (pack_nacks pack_nack_18bit ns)) = sum_list (map (nack_size Am18) ns)"
  by (induction ns) (simp_all add: pack_nack_12bit_def pack_nack_18bit_def pack_nack_fields_def nack_size_def)

theorem status_pack_length:
  assumes "status_wf s"
  shows "of_nat (length (status_pack s)) = sp_packed_size s"
  using assms
  by (cases "sp_sn_size s")
    (simp_all add: status_pack_def pack_12bit_def pack_18bit_def pack_nacks_length status_wf_def nacks_size_def status_header_size_def)

text \<open>Pushing unmergeable NACKs just collects them.\<close>

lemma fold_push_nack:
  assumes "unmergeable (sp_mod_nr s) (sp_nacks s @ ns)"
  shows "fold push_nack ns s = s\<lparr>sp_nacks := sp_nacks s @ ns,
    sp_packed_size := sp_packed_size s + sum_list (map (nack_size (sp_sn_size s)) ns)\<rparr>"
  using assms
proof (induction ns arbitrary: s)
  case (Cons n ns)
  have "sp_nacks s = [] \<or> \<not> can_be_merged (sp_mod_nr s) (last (sp_nacks s)) n"
    using Cons.prems by (auto simp: unmergeable_def successively_append_iff)
  then have p: "push_nack n s = s\<lparr>sp_nacks := sp_nacks s @ [n], sp_packed_size := sp_packed_size s + nack_size (sp_sn_size s) n\<rparr>"
    by (simp add: push_nack_def)
  then show ?case using Cons.IH [of "push_nack n s"] Cons.prems by (simp add: add.assoc)
qed simp

lemma ack_sn_12:
  fixes sn :: u32
  assumes "unat sn < 2 ^ 12"
  shows "push_bit 8 (ucast (ucast (drop_bit 8 sn AND mask 4) :: u8) AND mask 4) OR (ucast (ucast (sn AND mask 8) :: u8) AND mask 8) = sn"
    (is "?a OR ?b = sn")
proof (rule bit_word_eqI)
  fix n assume "n < LENGTH(32)"
  have a: "bit ?a n \<longleftrightarrow> 8 \<le> n \<and> n < 8 + 4 \<and> bit sn n" by (rule bit_field) simp_all
  have b: "bit ?b n \<longleftrightarrow> n < 8 \<and> bit sn n" by (auto simp: bit_simps)
  show "bit (?a OR ?b) n \<longleftrightarrow> bit sn n" unfolding bit_or_iff a b using sn_bit_bound [OF assms, of n] by auto
qed

lemma ack_sn_18:
  fixes sn :: u32
  assumes "unat sn < 2 ^ 18" and "\<forall>n \<ge> 2. \<not> bit (f :: u8) n"
  shows "push_bit 14 (ucast (ucast (drop_bit 14 sn AND mask 4) :: u8) AND mask 4) OR
    push_bit 6 (ucast (ucast (drop_bit 6 sn AND mask 8) :: u8) AND mask 8) OR
    drop_bit 2 (ucast ((ucast (push_bit 2 sn AND push_bit 2 (mask 6)) :: u8) OR f) AND push_bit 2 (mask 6)) = sn"
    (is "?a OR ?b OR ?c = sn")
proof (rule bit_word_eqI)
  fix n
  have a: "bit ?a n \<longleftrightarrow> 14 \<le> n \<and> n < 14 + 4 \<and> bit sn n" by (rule bit_field) simp_all
  have b: "bit ?b n \<longleftrightarrow> 6 \<le> n \<and> n < 6 + 8 \<and> bit sn n" by (rule bit_field) simp_all
  have c: "bit ?c n \<longleftrightarrow> n < 6 \<and> bit sn n" using assms(2) by (intro bit_low_field') simp_all
  show "bit (?a OR ?b OR ?c) n \<longleftrightarrow> bit sn n"
    unfolding bit_or_iff a b c using sn_bit_bound [OF assms(1), of n] by auto
qed

text \<open>The first byte of a status PDU holds D/C and CPT, both 0, above the first bits of the ACK SN.\<close>

lemma control_byte:
  fixes x :: u8
  assumes "\<forall>n \<ge> 4. \<not> bit x n"
  shows "is_control_pdu (x # rd)" and "drop_bit 4 x AND 0x07 = 0"
proof -
  have "drop_bit 7 x AND mask 1 = 0" "drop_bit 4 x AND mask 3 = 0"
    using assms by (intro bit_word_eqI; unfold bit_mask_extract bit_drop_bit_eq comp_apply; auto)+
  then show "is_control_pdu (x # rd)" "drop_bit 4 x AND 0x07 = 0"
    unfolding is_control_pdu_def byte_masks by (simp_all only: list.sel rlc_dc_to_number_def rlc_dc_field.case)
qed

lemma unpack_12bit_eq:
  assumes "is_control_pdu (b0 # b1 # b2 # rd)" and "drop_bit 4 b0 AND 0x07 = 0"
    and "push_bit 8 (ucast b0 AND 0x0f) OR (ucast b1 AND 0xff) = sn" and "b2 AND 0x7f = 0"
  shows "unpack_12bit (b0 # b1 # b2 # rd) s =
    unpack_nacks_12bit (b2 AND 0x80 \<noteq> 0) rd ((status_reset s)\<lparr>sp_cpt := 0, sp_ack_sn := sn\<rparr>)"
  unfolding unpack_12bit_def Let_def list.case assms(2-) using assms(1) by simp

lemma unpack_18bit_eq:
  assumes "is_control_pdu (b0 # b1 # b2 # rd)" and "drop_bit 4 b0 AND 0x07 = 0"
    and "push_bit 14 (ucast b0 AND 0x0f) OR push_bit 6 (ucast b1 AND 0xff) OR drop_bit 2 (ucast b2 AND 0xfc) = sn"
    and "b2 AND 0x01 = 0"
  shows "unpack_18bit (b0 # b1 # b2 # rd) s =
    unpack_nacks_18bit (b2 AND 0x02 \<noteq> 0) rd ((status_reset s)\<lparr>sp_cpt := 0, sp_ack_sn := sn\<rparr>)"
  unfolding unpack_18bit_def Let_def list.case assms(2-) using assms(1) by simp

definition flag_e1 :: "bool \<Rightarrow> u8" where
  "flag_e1 e = (if e then 0x02 else 0)"

lemma bit_flag_e1: "bit (flag_e1 e) n \<longleftrightarrow> e \<and> n = 1"
  unfolding flag_e1_def flag_bits bit_if_flag using bit_flag [of 1 n] by auto

lemma e1_byte_18:
  fixes x :: u8
  assumes "\<forall>n < 2. \<not> bit x n"
  shows "(x OR flag_e1 e) AND 0x01 = 0" and "(x OR flag_e1 e) AND 0x02 \<noteq> 0 \<longleftrightarrow> e"
proof -
  show "(x OR flag_e1 e) AND 0x01 = 0"
    unfolding byte_masks using assms by (intro bit_word_eqI; unfold bit_mask_extract bit_or_iff bit_flag_e1; auto)
  show "(x OR flag_e1 e) AND 0x02 \<noteq> 0 \<longleftrightarrow> e"
    using assms unfolding bit_test bit_or_iff bit_flag_e1 by auto
qed

lemma status_unpack_pack:
  assumes wf: "status_wf s" and sn: "unat (sp_ack_sn s) < 2 ^ am_bits (sp_sn_size s)"
    and z: "sp_sn_size s0 = sp_sn_size s" "sp_mod_nr s0 = sp_mod_nr s"
  shows "status_unpack (status_pack s) s0 = (True, s)"
proof -
  let ?s1 = "(status_reset s0)\<lparr>sp_cpt := 0, sp_ack_sn := sp_ack_sn s\<rparr>"
  have ok: "\<forall>n \<in> set (sp_nacks s). nack_ok (sp_sn_size s) n" using wf by (auto simp: status_wf_def)
  have "unmergeable (sp_mod_nr ?s1) (sp_nacks ?s1 @ sp_nacks s)" using wf z by (auto simp: status_wf_def status_reset_def)
  from fold_push_nack [OF this] have f: "fold push_nack (sp_nacks s) ?s1 = s"
    using wf z by (cases s; cases s0) (auto simp: status_wf_def status_reset_def nacks_size_def)
  show ?thesis
  proof (cases "sp_sn_size s")
    case Am12
    let ?b0 = "ucast (drop_bit 8 (sp_ack_sn s) AND 0x0f) :: u8" and ?e = "if sp_nacks s \<noteq> [] then 0x80 else 0x00 :: u8"
    have x: "\<forall>n \<ge> 4. \<not> bit ?b0 n" unfolding byte_masks bit_u8_field by auto
    have sn': "push_bit 8 (ucast ?b0 AND 0x0f) OR (ucast (ucast (sp_ack_sn s AND 0xff) :: u8) AND 0xff) = sp_ack_sn s"
      unfolding byte_masks using sn Am12 by (intro ack_sn_12) simp
    have e: "?e AND 0x7f = 0" "?e AND 0x80 \<noteq> 0 \<longleftrightarrow> sp_nacks s \<noteq> []" by simp_all
    have "status_unpack (status_pack s) s0 =
        unpack_12bit (?b0 # ucast (sp_ack_sn s AND 0xff) # ?e # pack_nacks pack_nack_12bit (sp_nacks s)) s0"
      by (simp only: status_unpack_def status_pack_def z Am12 rlc_am_sn_size.case pack_12bit_def append.simps)
    also have "\<dots> = unpack_nacks_12bit (sp_nacks s \<noteq> []) (pack_nacks pack_nack_12bit (sp_nacks s)) ?s1"
      unfolding unpack_12bit_eq [OF control_byte [OF x] sn' e(1)] e(2) ..
    also have "\<dots> = (True, s)" using nack12.unpack_pack [of "sp_nacks s" ?s1] ok Am12 f by simp
    finally show ?thesis .
  next
    case Am18
    let ?b0 = "ucast (drop_bit 14 (sp_ack_sn s) AND 0x0f) :: u8" and ?b1 = "ucast (drop_bit 6 (sp_ack_sn s) AND 0xff) :: u8"
    let ?c = "ucast (push_bit 2 (sp_ack_sn s) AND 0xfc) :: u8" and ?e = "flag_e1 (sp_nacks s \<noteq> [])"
    have x: "\<forall>n \<ge> 4. \<not> bit ?b0 n" unfolding byte_masks bit_u8_field by auto
    have c: "\<forall>n < 2. \<not> bit ?c n" unfolding byte_masks by (auto simp: bit_simps)
    have sn': "push_bit 14 (ucast ?b0 AND 0x0f) OR push_bit 6 (ucast ?b1 AND 0xff) OR drop_bit 2 (ucast (?c OR ?e) AND 0xfc) = sp_ack_sn s"
      unfolding byte_masks using sn Am18 by (intro ack_sn_18) (simp_all add: bit_flag_e1)
    have "status_unpack (status_pack s) s0 =
        unpack_18bit (?b0 # ?b1 # (?c OR ?e) # pack_nacks pack_nack_18bit (sp_nacks s)) s0"
      by (simp only: status_unpack_def status_pack_def z Am18 rlc_am_sn_size.case pack_18bit_def append.simps flag_e1_def)
    also have "\<dots> = unpack_nacks_18bit (sp_nacks s \<noteq> []) (pack_nacks pack_nack_18bit (sp_nacks s)) ?s1"
      unfolding unpack_18bit_eq [OF control_byte [OF x] sn' e1_byte_18(1) [OF c]] e1_byte_18(2) [OF c] ..
    also have "\<dots> = (True, s)" using nack18.unpack_pack [of "sp_nacks s" ?s1] ok Am18 f by simp
    finally show ?thesis .
  qed
qed

section \<open>Trimming\<close>

text \<open>
  What \<open>trim\<close> leaves is a prefix of the NACKs whose last SN differs from the ACK SN, which is the
  SN of the first dropped NACK; it is packed in the size that was asked for.
\<close>

lemma trim_nacks_spec:
  assumes "sp_packed_size s = nacks_size (sp_sn_size s) (sp_nacks s)" and "status_header_size \<le> limit"
  shows "\<exists>ns dropped. sp_nacks s = ns @ dropped \<and>
      trim_nacks limit s = s\<lparr>sp_nacks := ns, sp_packed_size := nacks_size (sp_sn_size s) ns,
        sp_ack_sn := (case dropped of [] \<Rightarrow> sp_ack_sn s | d # _ \<Rightarrow> nack_sn d)\<rparr> \<and>
      nacks_size (sp_sn_size s) ns \<le> limit \<and>
      (ns \<noteq> [] \<longrightarrow> nack_sn (last ns) \<noteq> sp_ack_sn (trim_nacks limit s))"
  using assms
proof (induction limit s rule: trim_nacks.induct)
  case (1 limit s)
  let ?go = "sp_nacks s \<noteq> [] \<and> (limit < sp_packed_size s \<or> nack_sn (last (sp_nacks s)) = sp_ack_sn s)"
  show ?case
  proof (cases ?go)
    case False
    have "sp_nacks s = [] \<Longrightarrow> nacks_size (sp_sn_size s) (sp_nacks s) \<le> limit"
      using 1(3) by (simp add: nacks_size_def)
    then have "trim_nacks limit s = s" "nacks_size (sp_sn_size s) (sp_nacks s) \<le> limit"
      using False 1(2) by (auto simp: trim_nacks.simps [of limit s] not_less)
    then show ?thesis using False 1(2) by (intro exI [of _ "sp_nacks s"] exI [of _ "[]"]) auto
  next
    case True
    obtain ns0 d0 where n: "sp_nacks s = ns0 @ [d0]" using True by (metis rev_exhaust)
    let ?s = "s\<lparr>sp_packed_size := sp_packed_size s - nack_size (sp_sn_size s) d0, sp_ack_sn := nack_sn d0, sp_nacks := ns0\<rparr>"
    have e: "trim_nacks limit s = trim_nacks limit ?s" using True n by (simp add: trim_nacks.simps [of limit s])
    have l: "last (sp_nacks s) = d0" "butlast (sp_nacks s) = ns0" using n by simp_all
    have "sp_packed_size ?s = nacks_size (sp_sn_size ?s) (sp_nacks ?s)" using 1(2) n by (simp add: nacks_size_snoc)
    note ex = 1(1) [OF True, unfolded l, OF this 1(3)]
    obtain ns dr where ih: "sp_nacks ?s = ns @ dr \<and> trim_nacks limit ?s = ?s\<lparr>sp_nacks := ns,
        sp_packed_size := nacks_size (sp_sn_size ?s) ns,
        sp_ack_sn := (case dr of [] \<Rightarrow> sp_ack_sn ?s | d # _ \<Rightarrow> nack_sn d)\<rparr> \<and>
        nacks_size (sp_sn_size ?s) ns \<le> limit \<and> (ns \<noteq> [] \<longrightarrow> nack_sn (last ns) \<noteq> sp_ack_sn (trim_nacks limit ?s))"
      using ex by (elim exE) (rule that)
    show ?thesis
      unfolding e using ih n by (intro exI [of _ ns] exI [of _ "dr @ [d0]"]) (auto split: list.splits)
  qed
qed

end
