(* ===== verification/Rlc_Rx_Am_Inv.thy ===== *)
theory Rlc_Rx_Am_Inv
  imports Rlc_Rx_Am_Window Rlc_Am_Status
begin

text \<open>
  The invariant of the receiving entity of the acknowledged mode, and its preservation by every
  operation: PDUs, status reports and timers.
\<close>

section \<open>Completing an SDU\<close>

abbreviation rx_next_of :: "rlc_rx_am_entity \<Rightarrow> u32" where "rx_next_of s \<equiv> st_next (am_st s)"
abbreviation next_highest_at :: "rlc_rx_am_entity \<Rightarrow> u32" where "next_highest_at s \<equiv> st_next_highest (am_st s)"
abbreviation highest_status_of :: "rlc_rx_am_entity \<Rightarrow> u32" where "highest_status_of s \<equiv> st_highest_status (am_st s)"
abbreviation trigger_of :: "rlc_rx_am_entity \<Rightarrow> u32" where "trigger_of s \<equiv> st_next_status_trigger (am_st s)"

text \<open>The distance of an SN from \<open>RX_Next\<close>.\<close>

abbreviation dist :: "rlc_rx_am_entity \<Rightarrow> u32 \<Rightarrow> nat" where
  "dist s sn \<equiv> away (am_size s) (rx_next_of s) sn"

lemma rx_mod_base_iffs:
  "rx_mod_base s x < rx_mod_base s y \<longleftrightarrow> dist s x < dist s y"
  "rx_mod_base s x \<le> rx_mod_base s y \<longleftrightarrow> dist s x \<le> dist s y"
  "rx_mod_base s x = rx_mod_base s y \<longleftrightarrow> dist s x = dist s y"
  by (simp_all add: rx_mod_base_def away_iffs)

lemma inside_rx_window_iff: "inside_rx_window s sn \<longleftrightarrow> dist s sn < unat (am_window_size s)"
  by (simp add: inside_rx_window_def rx_mod_base_def away_def word_less_nat_alt)

lemma valid_ack_sn_iff: "valid_ack_sn s sn \<longleftrightarrow> 0 < dist s sn \<and> dist s sn \<le> unat (am_window_size s)"
  by (simp add: valid_ack_sn_def rx_mod_base_def away_def word_less_nat_alt word_le_nat_alt)

definition info_bytes :: "rlc_rx_am_sdu_info \<Rightarrow> bytes" where
  "info_bytes info = (case sdu_data info of Sdu_slice p \<Rightarrow> p | Sdu_segment_set segs \<Rightarrow> concat (map seg_payload segs))"

definition delivered_sdu :: "bool \<Rightarrow> rlc_rx_am_sdu_info \<Rightarrow> rlc_am_event list" where
  "delivered_sdu chain_ok info = (if chain_ok then [New_sdu (info_bytes info)] else [])"

abbreviation frame :: "rlc_rx_am_entity \<Rightarrow> bool" where
  "frame s \<equiv> win_frame (am_size s) (am_window s) (rx_next_of s) (next_highest_at s)"

lemma frame_key: "frame s \<Longrightarrow> win_find (am_window s) k = Some i \<Longrightarrow>
    is_sn (am_size s) k \<and> dist s k < dist s (next_highest_at s) \<and> dist s k < unat (am_window_size s)"
  by (fastforce simp: win_frame_def)

lemma next_highest_absent: "frame s \<Longrightarrow> dist s (next_highest_at s) \<le> dist s sn \<Longrightarrow> \<not> sdu_received (am_window s) sn"
  by (auto simp: sdu_received_def split: option.splits dest: frame_key)

lemma next_highest_ge:
  assumes "frame s" and "is_sn (am_size s) x" and "dist s (next_highest_at s) \<le> dist s x"
  shows "win_find (am_window s) x = None"
  using assms frame_key [OF assms(1), of x] by (cases "win_find (am_window s) x") auto

lemma deliver_received_ok:
  assumes "frame s" and "win_find (am_window s) sn = Some info" and "fully_received info"
  obtains w met where "deliver_received ok sn s = Inr (delivered_sdu ok info, s\<lparr>am_window := w, am_metrics := met\<rparr>)"
    and "placed (am_window s) sn (info\<lparr>sdu_data := Sdu_slice []\<rparr>) w" and "am_metrics_ok met = am_metrics_ok (am_metrics s)"
proof -
  let ?w = "win_put sn (info\<lparr>sdu_data := Sdu_slice []\<rparr>) (am_window s)"
  have k: "is_sn (am_size s) sn" "dist s sn < unat (am_window_size s)" using frame_key [OF assms(1,2)] by auto
  have p: "placed (am_window s) sn (info\<lparr>sdu_data := Sdu_slice []\<rparr>) ?w" by (rule put_placed [OF assms(1) k])
  have u: "win_update sn (\<lambda>info. info\<lparr>sdu_data := Sdu_slice []\<rparr>) (am_window s) = Inr ?w"
    using win_update_find [OF win_frame_wf [OF assms(1)]] assms(2) by simp
  have r: "reassemble_sdu ok info = (if ok then Some (info_bytes info) else None)"
    using assms(3) by (simp add: reassemble_sdu_def info_bytes_def split: sdu_data.splits)
  show ?thesis
    by (rule that [OF _ p, of "if ok then rrm_add_sdus 1 (length (info_bytes info)) (am_metrics s) else rrm_add_lost_pdus 1 (am_metrics s)"])
      (simp_all add: deliver_received_def win_at_find assms(2) r u delivered_sdu_def)
qed

text \<open>\<open>RX_Highest_Status\<close> is the SN of an SDU that is not received, not beyond \<open>RX_Next_Highest\<close>.\<close>

definition status_ok :: "rlc_rx_am_entity \<Rightarrow> bool" where
  "status_ok s \<longleftrightarrow> is_sn (am_size s) (highest_status_of s) \<and> dist s (highest_status_of s) \<le> dist s (next_highest_at s) \<and>
     \<not> sdu_received (am_window s) (highest_status_of s)"

lemma update_highest_status_ok:
  assumes "frame s" and "is_sn (am_size s) sn" and "sdu_received (am_window s) sn"
    and "is_sn (am_size s) (highest_status_of s)" and "dist s (highest_status_of s) \<le> dist s (next_highest_at s)"
    and "highest_status_of s \<noteq> sn \<Longrightarrow> \<not> sdu_received (am_window s) (highest_status_of s)"
  obtains hs where "update_highest_status sn s = s\<lparr>am_st := (am_st s)\<lparr>st_highest_status := hs\<rparr>\<rparr>"
    and "status_ok (s\<lparr>am_st := (am_st s)\<lparr>st_highest_status := hs\<rparr>\<rparr>)" and "hs \<noteq> sn"
proof (cases "sn = highest_status_of s")
  case False
  then show ?thesis
    using that [of "highest_status_of s"] assms away_inj [OF assms(2,4)]
    by (simp add: update_highest_status_def rx_mod_base_iffs status_ok_def Let_def)
next
  case True
  let ?z = "am_size s" and ?b = "rx_next_of s" and ?nh = "next_highest_at s"
  let ?r = "first_incomplete ?z (am_window s) ?b ?nh ((sn + 1) mod am_mod s)"
  obtain i where i: "win_find (am_window s) sn = Some i" using assms(3) by (auto simp: sdu_received_def split: option.splits)
  have lt: "dist s sn < dist s ?nh" using frame_key [OF assms(1) i] by simp
  then have a: "dist s ((sn + 1) mod am_mod s) = dist s sn + 1"
    using away_less [of ?z ?b ?nh] by (intro away_Suc) simp
  have le: "dist s ((sn + 1) mod am_mod s) \<le> dist s ?nh" using lt a by simp
  note f = first_incomplete_spec [OF is_sn_Suc le, where w = "am_window s"]
  have "\<not> sdu_received (am_window s) ?r"
    using f(4) next_highest_absent [OF assms(1), of ?r] by fastforce
  moreover have "?r \<noteq> sn" using f(2) a by auto
  ultimately show ?thesis
    using that [of ?r] f True by (simp add: update_highest_status_def status_ok_def Let_def rx_mod_base_iffs)
qed

definition settled :: "rlc_rx_am_entity \<Rightarrow> bool" where
  "settled s \<longleftrightarrow> frame s \<and> status_ok s \<and> \<not> sdu_received (am_window s) (rx_next_of s)"

lemma update_rx_next_ok:
  assumes "frame s" and "status_ok s" and "sn \<noteq> rx_next_of s \<longrightarrow> \<not> sdu_received (am_window s) (rx_next_of s)"
    and "is_sn (am_size s) sn"
  obtains d w where "update_rx_next sn s = s\<lparr>am_st := (am_st s)\<lparr>st_next := at_dist (am_size s) (rx_next_of s) d\<rparr>, am_window := w\<rparr>"
    and "settled (update_rx_next sn s)"
    and "d \<le> dist s (next_highest_at s)"
    and "\<And>k. is_sn (am_size s) k \<Longrightarrow> d \<le> dist s k \<Longrightarrow> win_find w k = win_find (am_window s) k"
    and "\<And>k info. win_find w k = Some info \<Longrightarrow> win_find (am_window s) k = Some info"
    and "\<And>n. n < d \<Longrightarrow> sdu_received (am_window s) (at_dist (am_size s) (rx_next_of s) n)"
proof (cases "sn = rx_next_of s")
  case False
  have b: "is_sn (am_size s) (rx_next_of s)" using assms(1) by (simp add: win_frame_def)
  have "update_rx_next sn s = s"
    using False away_inj [OF assms(4) b, of "rx_next_of s"] by (simp add: update_rx_next_def rx_mod_base_iffs Let_def)
  then show ?thesis using that [where d = 0 and w = "am_window s"] assms False b by (simp add: settled_def)
next
  case True
  let ?z = "am_size s" and ?b = "rx_next_of s" and ?nh = "next_highest_at s"
  have b: "is_sn ?z ?b" and le: "dist s ?nh \<le> unat (am_window_size s)" using assms(1) by (simp_all add: win_frame_def)
  obtain r w where d: "drop_received ?z ?b ?nh ?b (am_window s) = (r, w)" by fastforce
  note f = win_frame_advance [OF assms(1) d]
  have "?b mod am_mod s = ?b" using b by (simp add: is_sn_def mod_word_less word_less_nat_alt)
  then have u: "update_rx_next sn s = s\<lparr>am_st := (am_st s)\<lparr>st_next := at_dist ?z ?b (dist s r)\<rparr>, am_window := w\<rparr>"
    using True d f(4) by (simp add: update_rx_next_def rx_mod_base_iffs Let_def)
  have hr: "dist s r \<le> dist s (highest_status_of s)"
  proof (rule ccontr)
    assume "\<not> ?thesis"
    then have "sdu_received (am_window s) (at_dist ?z ?b (dist s (highest_status_of s)))" using f(7) by simp
    then show False using assms(2) by (simp add: status_ok_def)
  qed
  have sh: "away ?z r x = dist s x - dist s r" if "dist s r \<le> dist s x" for x
    using away_shift [OF that] f(4) by simp
  have "\<not> sdu_received w (highest_status_of s)"
    using f(5) [of "highest_status_of s"] assms(2) hr sdu_received_cong [of w "highest_status_of s" "am_window s"] by (simp add: status_ok_def)
  then have "status_ok (update_rx_next sn s)"
    using assms(2) sh [OF hr] sh [OF f(3)] f(4) unfolding u by (simp add: status_ok_def diff_le_mono)
  moreover have "frame (update_rx_next sn s)" "\<not> sdu_received (am_window (update_rx_next sn s)) (rx_next_of (update_rx_next sn s))"
    using f(1,2,4) unfolding u by simp_all
  ultimately have "settled (update_rx_next sn s)" by (simp add: settled_def)
  then show ?thesis using that [OF u] f(3,5,6,7) by blast
qed

text \<open>
  The state after a PDU was placed: the SDU at \<open>sn\<close> may be received now, in which case the
  state variables that point at it are not yet updated.
\<close>

definition placed_state :: "u32 \<Rightarrow> rlc_rx_am_sdu_info \<Rightarrow> rlc_rx_am_entity \<Rightarrow> bool" where
  "placed_state sn info s \<longleftrightarrow> frame s \<and> win_find (am_window s) sn = Some info \<and>
     is_sn (am_size s) (highest_status_of s) \<and> dist s (highest_status_of s) \<le> dist s (next_highest_at s) \<and>
     (highest_status_of s \<noteq> sn \<longrightarrow> \<not> sdu_received (am_window s) (highest_status_of s)) \<and>
     (rx_next_of s \<noteq> sn \<longrightarrow> \<not> sdu_received (am_window s) (rx_next_of s))"

definition released :: "rlc_rx_am_sdu_info \<Rightarrow> rlc_rx_am_sdu_info" where
  "released info = (if fully_received info then info\<lparr>sdu_data := Sdu_slice []\<rparr> else info)"

lemma complete_sdu_ok:
  assumes "placed_state sn info s"
  obtains d w met hs where "complete_sdu ok sn s = Inr (if fully_received info then delivered_sdu ok info else [],
      s\<lparr>am_st := (am_st s)\<lparr>st_highest_status := hs, st_next := at_dist (am_size s) (rx_next_of s) d\<rparr>,
        am_window := w, am_metrics := met\<rparr>)"
    and "settled (s\<lparr>am_st := (am_st s)\<lparr>st_highest_status := hs, st_next := at_dist (am_size s) (rx_next_of s) d\<rparr>,
        am_window := w, am_metrics := met\<rparr>)"
    and "d \<le> dist s (next_highest_at s)" and "am_metrics_ok met = am_metrics_ok (am_metrics s)"
    and "fully_received info \<or> hs = highest_status_of s"
    and "\<And>k. is_sn (am_size s) k \<Longrightarrow> d \<le> dist s k \<Longrightarrow> win_find w k = (if k = sn then Some (released info) else win_find (am_window s) k)"
    and "\<And>k i. win_find w k = Some i \<Longrightarrow> i = (if k = sn then released info else the (win_find (am_window s) k)) \<and> win_find (am_window s) k \<noteq> None"
    and "\<And>n. n < d \<Longrightarrow> sdu_received (am_window s) (at_dist (am_size s) (rx_next_of s) n)"
proof (cases "fully_received info")
  case False
  have nr: "\<not> sdu_received (am_window s) sn" using assms False by (simp add: placed_state_def sdu_received_def)
  then have st: "settled s" using assms by (auto simp: settled_def placed_state_def status_ok_def)
  have b: "at_dist (am_size s) (rx_next_of s) 0 = rx_next_of s" using assms by (simp add: placed_state_def win_frame_def)
  have e: "s\<lparr>am_st := (am_st s)\<lparr>st_highest_status := highest_status_of s, st_next := at_dist (am_size s) (rx_next_of s) 0\<rparr>,
        am_window := am_window s, am_metrics := am_metrics s\<rparr> = s"
    unfolding b by simp
  have f: "win_find (am_window s) sn = Some info" using assms by (simp add: placed_state_def)
  show ?thesis
    by (rule that [where d = 0 and w = "am_window s" and met = "am_metrics s" and hs = "highest_status_of s"])
      (use st nr False f in \<open>auto simp: b complete_sdu_def released_def\<close>)
next
  case True
  have fr: "frame s" and fi: "win_find (am_window s) sn = Some info" using assms by (simp_all add: placed_state_def)
  have k: "is_sn (am_size s) sn" "dist s sn < dist s (next_highest_at s)" "dist s sn < unat (am_window_size s)"
    using frame_key [OF fr fi] by auto
  obtain w met where del: "deliver_received ok sn s = Inr (delivered_sdu ok info, s\<lparr>am_window := w, am_metrics := met\<rparr>)"
    and pl: "placed (am_window s) sn (released info) w" and met: "am_metrics_ok met = am_metrics_ok (am_metrics s)"
    using deliver_received_ok [OF fr fi True, of ok] True by (metis released_def)
  let ?s1 = "s\<lparr>am_window := w, am_metrics := met\<rparr>"
  have nh: "next_highest_of (am_size s) (rx_next_of s) (next_highest_at s) sn = next_highest_at s"
    using k(2) by (simp add: next_highest_of_def)
  have fr1: "frame ?s1" using win_frame_placed [OF fr k(1,3) pl] nh by simp
  have wf: "win_find w = (win_find (am_window s))(sn \<mapsto> released info)" using pl by (simp add: placed_def)
  have rec: "sdu_received w x \<longleftrightarrow> sdu_received (am_window s) x" for x
    using fi by (simp add: sdu_received_def wf released_def)
  have recsn: "sdu_received (am_window s) sn" using fi True by (simp add: sdu_received_def)
  have p: "sdu_received (am_window ?s1) sn" "is_sn (am_size ?s1) sn" "is_sn (am_size ?s1) (highest_status_of ?s1)"
    "dist ?s1 (highest_status_of ?s1) \<le> dist ?s1 (next_highest_at ?s1)"
    "highest_status_of ?s1 \<noteq> sn \<Longrightarrow> \<not> sdu_received (am_window ?s1) (highest_status_of ?s1)"
    using assms k(1) recsn by (simp_all add: placed_state_def rec)
  obtain hs where uh: "update_highest_status sn ?s1 = ?s1\<lparr>am_st := (am_st ?s1)\<lparr>st_highest_status := hs\<rparr>\<rparr>"
    and so: "status_ok (?s1\<lparr>am_st := (am_st ?s1)\<lparr>st_highest_status := hs\<rparr>\<rparr>)"
    using update_highest_status_ok [OF fr1 p(2,1,3,4,5)] by blast
  let ?s2 = "?s1\<lparr>am_st := (am_st ?s1)\<lparr>st_highest_status := hs\<rparr>\<rparr>"
  have fr2: "frame ?s2" using fr1 by simp
  have nb: "sn \<noteq> rx_next_of ?s2 \<longrightarrow> \<not> sdu_received (am_window ?s2) (rx_next_of ?s2)"
    using assms by (auto simp: placed_state_def rec)
  have sn2: "is_sn (am_size ?s2) sn" using k(1) by simp
  obtain d w2 where un: "update_rx_next sn ?s2 = ?s2\<lparr>am_st := (am_st ?s2)\<lparr>st_next := at_dist (am_size ?s2) (rx_next_of ?s2) d\<rparr>, am_window := w2\<rparr>"
    and st: "settled (update_rx_next sn ?s2)" and d: "d \<le> dist ?s2 (next_highest_at ?s2)"
    and keep: "\<And>k. is_sn (am_size ?s2) k \<Longrightarrow> d \<le> dist ?s2 k \<Longrightarrow> win_find w2 k = win_find (am_window ?s2) k"
    and sub: "\<And>k info. win_find w2 k = Some info \<Longrightarrow> win_find (am_window ?s2) k = Some info"
    and past: "\<And>n. n < d \<Longrightarrow> sdu_received (am_window ?s2) (at_dist (am_size ?s2) (rx_next_of ?s2) n)"
    by (rule update_rx_next_ok [OF fr2 so nb sn2]) (rule that)
  have e: "update_rx_next sn ?s2 = s\<lparr>am_st := (am_st s)\<lparr>st_highest_status := hs, st_next := at_dist (am_size s) (rx_next_of s) d\<rparr>,
        am_window := w2, am_metrics := met\<rparr>"
    unfolding un by simp
  show ?thesis
  proof (rule that [where d = d and w = w2 and met = met and hs = hs])
    show "complete_sdu ok sn s = Inr (if fully_received info then delivered_sdu ok info else [],
      s\<lparr>am_st := (am_st s)\<lparr>st_highest_status := hs, st_next := at_dist (am_size s) (rx_next_of s) d\<rparr>, am_window := w2, am_metrics := met\<rparr>)"
      using True recsn by (simp add: complete_sdu_def del uh e [simplified])
    show "settled (s\<lparr>am_st := (am_st s)\<lparr>st_highest_status := hs, st_next := at_dist (am_size s) (rx_next_of s) d\<rparr>, am_window := w2, am_metrics := met\<rparr>)"
      using st unfolding e .
  next
    fix k i assume "win_find w2 k = Some i"
    then have "win_find w k = Some i" using sub by simp
    then show "i = (if k = sn then released info else the (win_find (am_window s) k)) \<and> win_find (am_window s) k \<noteq> None"
      using fi by (auto simp: wf split: if_splits)
  qed (use True d met keep wf past rec in auto)
qed

section \<open>t-Reassembly\<close>

text \<open>
  While the timer runs, \<open>RX_Next_Status_Trigger\<close> is beyond \<open>RX_Next\<close>, not beyond
  \<open>RX_Next_Highest\<close>, and something of the SDU before it has arrived.
\<close>

definition trigger_ok :: "rlc_rx_am_entity \<Rightarrow> bool" where
  "trigger_ok s \<longleftrightarrow> 0 < dist s (trigger_of s) \<and> dist s (trigger_of s) \<le> dist s (next_highest_at s) \<and>
     win_find (am_window s) (at_dist (am_size s) (rx_next_of s) (dist s (trigger_of s) - 1)) \<noteq> None"

definition timer_ok :: "rlc_rx_am_entity \<Rightarrow> bool" where
  "timer_ok s \<longleftrightarrow> is_sn (am_size s) (trigger_of s) \<and> (reassembly_timer s \<longrightarrow> trigger_ok s)"

text \<open>After \<open>RX_Next\<close> moved, it may have reached or passed the trigger.\<close>

definition timer_moved :: "rlc_rx_am_entity \<Rightarrow> bool" where
  "timer_moved s \<longleftrightarrow> is_sn (am_size s) (trigger_of s) \<and>
     (reassembly_timer s \<longrightarrow> trigger_of s = rx_next_of s \<or> unat (am_window_size s) \<le> dist s (trigger_of s) \<or> trigger_ok s)"

definition with_timer :: "bool \<Rightarrow> u32 \<Rightarrow> rlc_rx_am_entity \<Rightarrow> rlc_rx_am_entity" where
  "with_timer x t s = s\<lparr>reassembly_timer := x, am_st := (am_st s)\<lparr>st_next_status_trigger := t\<rparr>\<rparr>"

lemma with_timer_fields [simp]:
  "am_cfg (with_timer x t s) = am_cfg s" "am_window (with_timer x t s) = am_window s"
  "rx_next_of (with_timer x t s) = rx_next_of s" "next_highest_at (with_timer x t s) = next_highest_at s"
  "highest_status_of (with_timer x t s) = highest_status_of s" "trigger_of (with_timer x t s) = t"
  "reassembly_timer (with_timer x t s) = x"
  by (simp_all add: with_timer_def)

lemma with_timer_same: "with_timer (reassembly_timer s) (trigger_of s) s = s"
  by (simp add: with_timer_def)

lemma settled_with_timer [simp]: "settled (with_timer x t s) \<longleftrightarrow> settled s"
  by (simp add: settled_def status_ok_def)

lemma dist_plus_1: "is_sn (am_size s) (rx_next_of s) \<Longrightarrow> dist s (rx_next_of s + 1) = 1"
  using am_mod_window [of "am_size s"] by (simp add: away_plus_1 away_Suc)

lemma settled_sn: "settled s \<Longrightarrow> is_sn (am_size s) (rx_next_of s) \<and> is_sn (am_size s) (next_highest_at s) \<and>
    is_sn (am_size s) (highest_status_of s)"
  by (simp add: settled_def win_frame_def status_ok_def)

lemma stop_reassembly_ok:
  assumes "settled s" and "timer_moved s"
  obtains x where "stop_reassembly s = Inr (with_timer x (trigger_of s) s)" and "timer_ok (with_timer x (trigger_of s) s)"
proof (cases "reassembly_timer s")
  case False
  then show ?thesis
    using that [of False] assms(2) with_timer_same [of s] by (simp add: stop_reassembly_def timer_ok_def timer_moved_def)
next
  case True
  let ?t = "trigger_of s"
  let ?one = "rx_mod_base s ?t = rx_mod_base s (rx_next_of s + 1)"
  have one: "?one \<longleftrightarrow> dist s ?t = 1" using dist_plus_1 [of s] settled_sn [OF assms(1)] by (simp add: rx_mod_base_iffs)
  have pres: "win_find (am_window s) (rx_next_of s) \<noteq> None" if "?one"
  proof -
    have "dist s ?t = 1" using that one by simp
    then have "trigger_ok s" using assms(2) True am_mod_window [of "am_size s"] by (auto simp: timer_moved_def)
    then show ?thesis using \<open>dist s ?t = 1\<close> settled_sn [OF assms(1)] by (simp add: trigger_ok_def)
  qed
  obtain g where g: "(if ?one then seq_run (win_at (am_window s) (rx_next_of s)) (\<lambda>info. Inr (\<not> has_gap info)) else Inr False) = Inr g"
    using pres by (cases ?one) (auto simp: win_at_find split: option.splits)
  let ?stop = "?t = rx_next_of s \<or> g \<or> \<not> inside_rx_window s ?t"
  have "stop_reassembly s = Inr (with_timer (\<not> ?stop) ?t s)"
    using True with_timer_same [of s] by (simp add: stop_reassembly_def g Let_def) (simp add: with_timer_def)
  moreover have "timer_ok (with_timer (\<not> ?stop) ?t s)"
    using assms(2) True by (auto simp: timer_ok_def timer_moved_def trigger_ok_def inside_rx_window_iff)
  ultimately show ?thesis by (rule that)
qed

lemma next_highest_pred_present:
  assumes "frame s" and "0 < dist s (next_highest_at s)"
  shows "win_find (am_window s) (at_dist (am_size s) (rx_next_of s) (dist s (next_highest_at s) - 1)) \<noteq> None"
  using assms by (simp add: win_frame_def)

lemma start_reassembly_ok:
  assumes "settled s" and "timer_ok s" and "0 < rac_t_reassembly (am_cfg s)"
  obtains x t where "start_reassembly s = Inr (with_timer x t s)" and "timer_ok (with_timer x t s)"
proof (cases "reassembly_timer s")
  case True
  then show ?thesis using that [of True "trigger_of s"] assms with_timer_same [of s] by (simp add: start_reassembly_def)
next
  case False
  let ?nh = "next_highest_at s"
  let ?look = "rx_mod_base s ?nh = rx_mod_base s (rx_next_of s + 1) \<and> has_sn (am_window s) (rx_next_of s)"
  have one: "dist s (rx_next_of s + 1) = 1" using dist_plus_1 [of s] settled_sn [OF assms(1)] by simp
  define g where "g \<longleftrightarrow> ?look \<and> has_gap (the (win_find (am_window s) (rx_next_of s)))"
  have g: "(if ?look then seq_run (win_at (am_window s) (rx_next_of s)) (\<lambda>info. Inr (has_gap info)) else Inr False) = Inr g"
    and gl: "g \<longrightarrow> ?look"
    by (auto simp: win_at_find has_sn_find g_def)
  let ?go = "rx_mod_base s (rx_next_of s + 1) < rx_mod_base s ?nh \<or> g"
  show ?thesis
  proof (cases ?go)
    case True
    then have "0 < dist s ?nh" using gl one by (auto simp: rx_mod_base_iffs)
    then have "timer_ok (with_timer True ?nh s)"
      using assms(1) settled_sn [OF assms(1)] next_highest_pred_present [of s]
      by (simp add: timer_ok_def trigger_ok_def settled_def)
    moreover have "start_reassembly s = Inr (with_timer True ?nh s)"
      using True False assms(3) by (simp add: start_reassembly_def g Let_def run_reassembly_timer_def with_timer_def)
    ultimately show ?thesis using that by blast
  next
    case stop: False
    have "start_reassembly s = Inr (with_timer False (trigger_of s) s)"
      using stop False with_timer_same [of s] by (simp add: start_reassembly_def g Let_def)
    moreover have "timer_ok (with_timer False (trigger_of s) s)" using assms(2) by (simp add: timer_ok_def)
    ultimately show ?thesis using that by blast
  qed
qed

text \<open>When \<open>RX_Next\<close> moves by \<open>d\<close>, the trigger is reached, passed, or still as it should be.\<close>

lemma timer_moved_by:
  assumes "frame s" and "timer_ok s" and "d \<le> dist s (next_highest_at s)"
    and "am_cfg s' = am_cfg s" "rx_next_of s' = at_dist (am_size s) (rx_next_of s) d" "next_highest_at s' = next_highest_at s"
      "trigger_of s' = trigger_of s" "reassembly_timer s' = reassembly_timer s"
    and "\<And>k. is_sn (am_size s) k \<Longrightarrow> d \<le> dist s k \<Longrightarrow> win_find (am_window s) k \<noteq> None \<Longrightarrow> win_find (am_window s') k \<noteq> None"
  shows "timer_moved s'"
proof (cases "reassembly_timer s")
  case False
  then show ?thesis using assms(2,4,7,8) by (simp add: timer_moved_def timer_ok_def)
next
  case True
  let ?z = "am_size s" and ?T = "dist s (trigger_of s)" and ?N = "dist s (next_highest_at s)"
  have T: "0 < ?T" "?T \<le> ?N" and p: "win_find (am_window s) (at_dist ?z (rx_next_of s) (?T - 1)) \<noteq> None" and sn: "is_sn ?z (trigger_of s)"
    using assms(2) True by (simp_all add: timer_ok_def trigger_ok_def)
  have N: "?N \<le> unat (am_window_size s)" using assms(1) by (simp add: win_frame_def)
  consider "?T = d" | "?T < d" | "d < ?T" by linarith
  then have "trigger_of s' = rx_next_of s' \<or> unat (am_window_size s') \<le> dist s' (trigger_of s') \<or> trigger_ok s'"
  proof cases
    case 1
    then have "trigger_of s = at_dist ?z (rx_next_of s) d" using sn at_away [of ?z "trigger_of s" "rx_next_of s"] by simp
    then show ?thesis using assms(5,7) by simp
  next
    case 2
    then have "dist s' (trigger_of s') = unat (am_mod s) + ?T - d"
      using assms(3,4,5,7) N am_mod_window [of ?z] by (simp add: away_shift_past)
    then have "unat (am_window_size s) \<le> dist s' (trigger_of s')"
      using assms(3) N am_mod_window(1) [of ?z] by linarith
    then show ?thesis using assms(4) by simp
  next
    case 3
    have t: "dist s' (trigger_of s') = ?T - d" using 3 assms(4,5,7) by (simp add: away_shift)
    have n: "dist s' (next_highest_at s') = ?N - d" using assms(3,4,5,6) by (simp add: away_shift)
    have k: "at_dist ?z (rx_next_of s') (?T - d - 1) = at_dist ?z (rx_next_of s) (?T - 1)" using 3 assms(5) by (simp add: at_at)
    have "?T - 1 < unat (am_mod s)" using T N am_mod_window [of ?z] by simp
    then have "win_find (am_window s') (at_dist ?z (rx_next_of s) (?T - 1)) \<noteq> None"
      using p 3 by (intro assms(9)) simp_all
    then have "trigger_ok s'" using 3 T t n k assms(4) by (simp add: trigger_ok_def)
    then show ?thesis by simp
  qed
  then show ?thesis using sn assms(4,7) by (simp add: timer_moved_def)
qed

section \<open>Placing a PDU\<close>

definition pdu_fits :: "rlc_am_pdu_header \<Rightarrow> bytes \<Rightarrow> bool" where
  "pdu_fits h payload \<longleftrightarrow> payload \<noteq> [] \<and> (ah_si h = Full_sdu \<or> unat (ah_so h) + length payload \<le> 2 ^ 16)"

lemma pdu_fits_seg: "pdu_fits h payload \<Longrightarrow> ah_si h \<noteq> Full_sdu \<Longrightarrow> seg_wf (segment_of_header h payload)"
  by (simp add: pdu_fits_def seg_wf_def seg_end_def segment_of_header_def)

lemma with_segment_stores:
  assumes "infos_ok w" and "seg_wf seg"
  obtains stored segs where "with_segment seg (info_at w sn) = (stored, segs_info segs)"
    and "stores (segments_of (info_at w sn)) seg (stored, segs)"
proof -
  obtain stored segs where e: "store_loop [] (segments_of (info_at w sn)) seg = (stored, segs)" by fastforce
  have "stores (segments_of (info_at w sn)) seg (store_loop [] (segments_of (info_at w sn)) seg)"
    using store_loop_stores [of "[]"] segments_of_ok [OF assms(1)] assms(2) by simp
  then show ?thesis using that [of stored segs] e by (simp add: with_segment_def)
qed

text \<open>After release, new information is well-formed; and what is not stored changes nothing.\<close>

lemma new_info_ok:
  assumes "infos_ok w" and "pdu_fits h payload"
  shows "sdu_info_ok (released (snd (new_info h payload (info_at w sn))))"
proof (cases "ah_si h = Full_sdu")
  case True
  then show ?thesis by (simp add: new_info_def full_info_def released_def sdu_info_ok_def)
next
  case False
  obtain stored segs where "with_segment (segment_of_header h payload) (info_at w sn) = (stored, segs_info segs)"
    and "stores (segments_of (info_at w sn)) (segment_of_header h payload) (stored, segs)"
    using with_segment_stores [OF assms(1) pdu_fits_seg [OF assms(2) False]] .
  then have "segs_ok segs" "snd (new_info h payload (info_at w sn)) = segs_info segs"
    using False by (simp_all add: stores_def new_info_def)
  then show ?thesis
    using inventory_not_both [of 0 segs]
    by (cases "inventory 0 segs") (auto simp: released_def sdu_info_ok_def segs_info_def)
qed

lemma new_info_unchanged:
  assumes "infos_ok w" and "pdu_fits h payload" and "\<not> sdu_received w sn"
    and "\<not> fst (new_info h payload (info_at w sn))"
  shows "win_find w sn = Some (snd (new_info h payload (info_at w sn)))"
proof -
  have ns: "ah_si h \<noteq> Full_sdu" using assms(4) by (auto simp: new_info_def)
  let ?seg = "segment_of_header h payload"
  obtain stored segs where ws: "with_segment ?seg (info_at w sn) = (stored, segs_info segs)"
    and st: "stores (segments_of (info_at w sn)) ?seg (stored, segs)"
    using with_segment_stores [OF assms(1) pdu_fits_seg [OF assms(2) ns]] .
  have nst: "\<not> stored" and ni: "snd (new_info h payload (info_at w sn)) = segs_info segs"
    using assms(4) ns ws by (simp_all add: new_info_def)
  have segs: "segs = segments_of (info_at w sn)" and sub: "seg_offsets ?seg \<subseteq> segs_offsets segs"
    using st nst by (auto simp: stores_def)
  have "unat (seg_so ?seg) \<in> seg_offsets ?seg"
    using seg_wf_so [OF pdu_fits_seg [OF assms(2) ns]] by (simp add: seg_offsets_def)
  then have "segs \<noteq> []" using sub by auto
  then obtain i where i: "win_find w sn = Some i"
    using segs by (cases "win_find w sn") (auto simp: info_at_def segments_of_def sdu_info_init_def)
  then have "sdu_info_ok i" "\<not> fully_received i" using assms(1,3) by (auto simp: infos_ok_def sdu_received_def)
  then have "i = segs_info (segments_of i)"
    by (cases i) (auto simp: sdu_info_ok_def segs_info_def segments_of_def prod_eq_iff)
  then show ?thesis using i segs ni by (simp add: info_at_def)
qed

text \<open>
  The effect on the window: \<open>RX_Next\<close> moves by some \<open>d\<close> past received SDUs, which are forgotten;
  the SDU of the PDU has its new information; everything else is as before.
\<close>

definition window_step :: "u32 \<Rightarrow> rlc_rx_am_sdu_info \<Rightarrow> rlc_rx_am_entity \<Rightarrow> rlc_rx_am_entity \<Rightarrow> bool" where
  "window_step sn info s s' \<longleftrightarrow>
     next_highest_at s' = next_highest_of (am_size s) (rx_next_of s) (next_highest_at s) sn \<and>
     (\<exists>d. rx_next_of s' = at_dist (am_size s) (rx_next_of s) d \<and> d \<le> dist s (next_highest_at s') \<and>
        (\<forall>n < d. let k = at_dist (am_size s) (rx_next_of s) n in
           if k = sn then fully_received info else sdu_received (am_window s) k) \<and>
        (\<forall>k. is_sn (am_size s) k \<longrightarrow> win_find (am_window s') k =
           (if dist s k < d then None else if k = sn then Some (released info) else win_find (am_window s) k)))"

definition rx_only :: "rlc_rx_am_entity \<Rightarrow> rlc_rx_am_entity \<Rightarrow> bool" where
  "rx_only s s' \<longleftrightarrow> s' = s\<lparr>am_st := am_st s', am_window := am_window s', am_metrics := am_metrics s',
     reassembly_timer := reassembly_timer s'\<rparr>"

lemma settled_below:
  assumes "win_frame z w' b' nh" and "b' = at_dist z b d" and "d < unat (am_mod_of z)"
    and "d + away z b' nh \<le> unat (am_mod_of z)" and "is_sn z k" and "away z b k < d"
  shows "win_find w' k = None"
proof (rule ccontr)
  assume "\<not> ?thesis"
  then have "away z b' k < away z b' nh" using assms(1) by (auto simp: win_frame_def)
  moreover have "away z b' k = unat (am_mod_of z) + away z b k - d" using assms(2,3,6) by (simp add: away_shift_past)
  ultimately show False using assms(4,6) by linarith
qed

text \<open>Placing a PDU, up to the decisions about t-Reassembly.\<close>

lemma placed_and_completed:
  fixes h payload s
  defines "info \<equiv> snd (new_info h payload (info_at (am_window s) (ah_sn h)))"
    and "changed \<equiv> fst (new_info h payload (info_at (am_window s) (ah_sn h)))"
  assumes set: "settled s" and inf: "infos_ok (am_window s)" and tim: "timer_ok s"
    and sn: "is_sn (am_size s) (ah_sn h)" "dist s (ah_sn h) < unat (am_window_size s)"
    and new: "\<not> sdu_received (am_window s) (ah_sn h)" and fits: "pdu_fits h payload"
  obtains s1 s2 where "(if ah_si h = Full_sdu then handle_full_data_sdu h payload s else handle_segment_data_sdu h payload s) = Inr (changed, s1)"
    and "complete_sdu (env_chain_ok env) (ah_sn h) (update_next_highest (ah_sn h) s1) =
      Inr (if fully_received info then delivered_sdu (env_chain_ok env) info else [], s2)"
    and "settled s2" and "infos_ok (am_window s2)" and "timer_moved s2" and "rx_only s s2"
    and "am_metrics_ok (am_metrics s2) = am_metrics_ok (am_metrics s)"
    and "window_step (ah_sn h) info s s2" and "reassembly_timer s2 = reassembly_timer s"
    and "fully_received info \<or> highest_status_of s2 = highest_status_of s"
proof -
  let ?z = "am_size s" and ?b = "rx_next_of s" and ?nh = "next_highest_at s" and ?sn = "ah_sn h"
  have fr: "frame s" and st: "status_ok s" and nb: "\<not> sdu_received (am_window s) ?b" using set by (simp_all add: settled_def)
  obtain w1 where h1: "(if ah_si h = Full_sdu then handle_full_data_sdu h payload s else handle_segment_data_sdu h payload s) =
      Inr (changed, s\<lparr>am_window := w1\<rparr>)" and pl: "placed (am_window s) ?sn info w1"
    using place_in_window [OF fr sn, of payload] unfolding info_def changed_def .
  define s1 where "s1 = update_next_highest ?sn (s\<lparr>am_window := w1\<rparr>)"
  have s1: "s1 = s\<lparr>am_window := w1, am_st := (am_st s)\<lparr>st_next_highest := next_highest_of ?z ?b ?nh ?sn\<rparr>\<rparr>"
    by (simp add: s1_def update_next_highest_def next_highest_of_def rx_mod_base_iffs)
  have f1: "win_find w1 = (win_find (am_window s))(?sn \<mapsto> info)" using pl by (simp add: placed_def)
  have fr1: "frame s1" using win_frame_placed [OF fr sn pl] by (simp add: s1)
  have n1: "dist s1 (next_highest_at s1) = max (dist s ?nh) (dist s ?sn + 1)"
    using away_next_highest [OF sn(2), of ?nh] by (simp add: s1)
  have rec1: "x \<noteq> ?sn \<Longrightarrow> sdu_received w1 x = sdu_received (am_window s) x" for x by (intro sdu_received_cong) (simp add: f1)
  have "placed_state ?sn info s1"
    using fr1 st nb n1 unfolding placed_state_def by (auto simp: s1 f1 status_ok_def rec1)
  then obtain d w met hs where c: "complete_sdu (env_chain_ok env) ?sn s1 = Inr (if fully_received info then delivered_sdu (env_chain_ok env) info else [],
      s1\<lparr>am_st := (am_st s1)\<lparr>st_highest_status := hs, st_next := at_dist (am_size s1) (rx_next_of s1) d\<rparr>, am_window := w, am_metrics := met\<rparr>)"
    and set2: "settled (s1\<lparr>am_st := (am_st s1)\<lparr>st_highest_status := hs, st_next := at_dist (am_size s1) (rx_next_of s1) d\<rparr>, am_window := w, am_metrics := met\<rparr>)"
    and d: "d \<le> dist s1 (next_highest_at s1)" and met: "am_metrics_ok met = am_metrics_ok (am_metrics s1)"
    and hs: "fully_received info \<or> hs = highest_status_of s1"
    and keep: "\<And>k. is_sn (am_size s1) k \<Longrightarrow> d \<le> dist s1 k \<Longrightarrow> win_find w k = (if k = ?sn then Some (released info) else win_find (am_window s1) k)"
    and sub: "\<And>k i. win_find w k = Some i \<Longrightarrow> i = (if k = ?sn then released info else the (win_find (am_window s1) k)) \<and> win_find (am_window s1) k \<noteq> None"
    and past: "\<And>n. n < d \<Longrightarrow> sdu_received (am_window s1) (at_dist (am_size s1) (rx_next_of s1) n)"
    by (rule complete_sdu_ok) (rule that)
  define s2 where "s2 = s1\<lparr>am_st := (am_st s1)\<lparr>st_highest_status := hs, st_next := at_dist (am_size s1) (rx_next_of s1) d\<rparr>, am_window := w, am_metrics := met\<rparr>"
  have inf2: "infos_ok w"
    unfolding infos_ok_def
  proof (intro allI impI)
    fix k i assume "win_find w k = Some i"
    note i = sub [OF this]
    show "sdu_info_ok i"
    proof (cases "k = ?sn")
      case True
      then show ?thesis using i new_info_ok [OF inf fits, of ?sn] by (simp add: info_def)
    next
      case False
      then show ?thesis using i inf by (auto simp: s1 f1 infos_ok_def)
    qed
  qed
  have tim1: "timer_ok s1"
    using tim n1 f1 by (auto simp: timer_ok_def trigger_ok_def s1)
  have mov: "timer_moved s2"
    by (rule timer_moved_by [OF fr1 tim1 d]) (auto simp: s2_def s1 keep f1)
  have set2': "settled s2" using set2 unfolding s2_def .
  have ws: "window_step ?sn info s s2"
    unfolding window_step_def
  proof (intro conjI exI [of _ d] allI impI)
    show "next_highest_at s2 = next_highest_of ?z ?b ?nh ?sn" "rx_next_of s2 = at_dist ?z ?b d" by (simp_all add: s2_def s1)
    show "d \<le> dist s (next_highest_at s2)" using d by (simp add: s2_def s1)
  next
    fix n assume "n < d"
    then show "let k = at_dist ?z ?b n in if k = ?sn then fully_received info else sdu_received (am_window s) k"
      using past [of n] by (auto simp: Let_def s1 f1 sdu_received_def)
  next
    fix k assume k: "is_sn ?z k"
    have fr4: "win_frame ?z w (at_dist ?z ?b d) (next_highest_at s1)" using set2' by (simp add: settled_def s2_def s1)
    have N1: "dist s1 (next_highest_at s1) \<le> unat (am_window_size s)" using fr1 by (simp add: win_frame_def s1)
    have "dist s k < d \<Longrightarrow> win_find w k = None"
      using d N1 am_mod_window [of ?z] away_shift [of d ?z ?b "next_highest_at s1"]
      by (intro settled_below [OF fr4 refl _ _ k]) (simp_all add: s1)
    then show "win_find (am_window s2) k = (if dist s k < d then None else if k = ?sn then Some (released info) else win_find (am_window s) k)"
      using keep [of k] k by (simp add: s2_def s1 f1)
  qed
  show ?thesis
    by (rule that [OF h1 c [folded s2_def, unfolded s1_def] set2' _ mov _ _ ws])
      (use inf2 met hs in \<open>simp_all add: s2_def s1 rx_only_def\<close>)
qed

lemma window_step_timer: "window_step sn info s (with_timer x t s') \<longleftrightarrow> window_step sn info s s'"
  by (simp add: window_step_def)

lemma place_pdu_ok:
  fixes h payload s
  defines "info \<equiv> snd (new_info h payload (info_at (am_window s) (ah_sn h)))"
    and "changed \<equiv> fst (new_info h payload (info_at (am_window s) (ah_sn h)))"
  assumes set: "settled s" and inf: "infos_ok (am_window s)" and tim: "timer_ok s" and cfg: "0 < rac_t_reassembly (am_cfg s)"
    and sn: "is_sn (am_size s) (ah_sn h)" "dist s (ah_sn h) < unat (am_window_size s)"
    and new: "\<not> sdu_received (am_window s) (ah_sn h)" and fits: "pdu_fits h payload"
  obtains s' where "place_pdu env h payload s =
      Inr (if fully_received info then delivered_sdu (env_chain_ok env) info else [], changed, s')"
    and "settled s'" and "infos_ok (am_window s')" and "timer_ok s'" and "rx_only s s'"
    and "am_metrics_ok (am_metrics s') = am_metrics_ok (am_metrics s)"
    and "window_step (ah_sn h) info s s'"
    and "fully_received info \<or> highest_status_of s' = highest_status_of s"
proof -
  obtain s1 s2 where h1: "(if ah_si h = Full_sdu then handle_full_data_sdu h payload s else handle_segment_data_sdu h payload s) = Inr (changed, s1)"
    and c: "complete_sdu (env_chain_ok env) (ah_sn h) (update_next_highest (ah_sn h) s1) =
      Inr (if fully_received info then delivered_sdu (env_chain_ok env) info else [], s2)"
    and s2: "settled s2" "infos_ok (am_window s2)" "timer_moved s2" "rx_only s s2"
      "am_metrics_ok (am_metrics s2) = am_metrics_ok (am_metrics s)" "window_step (ah_sn h) info s s2"
      "fully_received info \<or> highest_status_of s2 = highest_status_of s"
    unfolding info_def changed_def by (rule placed_and_completed [OF set inf tim sn new fits]) (rule that [unfolded info_def changed_def])
  obtain x where sr: "stop_reassembly s2 = Inr (with_timer x (trigger_of s2) s2)" and t3: "timer_ok (with_timer x (trigger_of s2) s2)"
    using stop_reassembly_ok [OF s2(1,3)] .
  let ?s3 = "with_timer x (trigger_of s2) s2"
  have cfg2: "am_cfg s2 = am_cfg s" using s2(4) by (cases s; cases s2) (simp add: rx_only_def)
  have set3: "settled ?s3" and cfg3: "0 < rac_t_reassembly (am_cfg ?s3)" using s2(1) cfg cfg2 by simp_all
  obtain y t where sta: "start_reassembly ?s3 = Inr (with_timer y t ?s3)" and t4: "timer_ok (with_timer y t ?s3)"
    using start_reassembly_ok [OF set3 t3 cfg3] .
  let ?s4 = "with_timer y t ?s3"
  have e: "place_pdu env h payload s = Inr (if fully_received info then delivered_sdu (env_chain_ok env) info else [], changed, ?s4)"
    using c sr sta by (simp add: place_pdu_def h1)
  have only: "rx_only s ?s4" using s2(4) by (cases s; cases s2) (simp add: rx_only_def with_timer_def)
  have set4: "settled ?s4" using set3 unfolding settled_with_timer .
  have met: "am_metrics_ok (am_metrics ?s4) = am_metrics_ok (am_metrics s)" using s2(5) by (simp add: with_timer_def)
  show ?thesis
    by (rule that [OF e set4 _ t4 only met]) (use s2 in \<open>simp_all add: window_step_timer\<close>)
qed

end
