(* ===== verification/Rlc_Rx_Am_Report.thy ===== *)
theory Rlc_Rx_Am_Report
  imports Rlc_Rx_Am_Inv
begin

text \<open>
  The status report that the receiving entity of the acknowledged mode builds: building it cannot
  fail in a consistent state, and its NACKs denote exactly the missing byte ranges of the SDUs from
  \<open>RX_Next\<close> up to ACK\_SN.
\<close>

section \<open>What is missing\<close>

text \<open>The missing ranges before the segments of a list, from offset \<open>next\<close> on.\<close>

fun missing_gaps :: "nat \<Rightarrow> rlc_rx_am_sdu_segment list \<Rightarrow> (nat \<times> nat) list" where
  "missing_gaps next [] = []"
| "missing_gaps next (s # ss) =
     (if unat (seg_so s) \<noteq> next then [(next, unat (seg_so s) - 1)] else []) @ missing_gaps (seg_end s) ss"

fun segs_end :: "nat \<Rightarrow> rlc_rx_am_sdu_segment list \<Rightarrow> nat" where
  "segs_end next [] = next"
| "segs_end next (s # ss) = segs_end (seg_end s) ss"

definition range_of :: "u32 \<Rightarrow> nat \<times> nat \<Rightarrow> missing" where
  "range_of sn r = (sn, of_nat (fst r), of_nat (snd r))"

definition missing_of :: "rlc_rx_am_sdu_info sdu_window \<Rightarrow> u32 \<Rightarrow> missing list" where
  "missing_of w sn =
     (case win_find w sn of
        None \<Rightarrow> [(sn, 0, so_end_of_sdu)]
      | Some info \<Rightarrow>
          if fully_received info then []
          else let segs = segments_of info in
            map (range_of sn) (missing_gaps 0 segs) @
            (if \<exists>s \<in> set segs. seg_si s = Last_segment then [] else [(sn, of_nat (segs_end 0 segs), so_end_of_sdu)]))"

text \<open>An offset before the end of the segments is missing when it lies in one of the ranges.\<close>

lemma missing_gaps_spec:
  assumes "segs_ok ss" and "\<forall>s \<in> set ss. next \<le> unat (seg_so s)"
  shows "(\<exists>(lo, hi) \<in> set (missing_gaps next ss). lo \<le> n \<and> n \<le> hi) \<longleftrightarrow> next \<le> n \<and> n < segs_end next ss \<and> n \<notin> segs_offsets ss"
    and "next \<le> segs_end next ss" and "n \<in> segs_offsets ss \<Longrightarrow> n < segs_end next ss"
proof -
  have "((\<exists>(lo, hi) \<in> set (missing_gaps next ss). lo \<le> n \<and> n \<le> hi) \<longleftrightarrow> next \<le> n \<and> n < segs_end next ss \<and> n \<notin> segs_offsets ss) \<and>
    next \<le> segs_end next ss \<and> (n \<in> segs_offsets ss \<longrightarrow> n < segs_end next ss)"
    using assms
  proof (induction ss arbitrary: "next")
    case (Cons s ss)
    have ok: "segs_ok ss" and later: "\<forall>t \<in> set ss. seg_end s \<le> unat (seg_so t)" and wf: "seg_wf s"
      using Cons.prems(1) by (auto simp: segs_ok_Cons)
    note ih = Cons.IH [OF ok later]
    have so: "next \<le> unat (seg_so s)" "unat (seg_so s) < seg_end s" using Cons.prems(2) seg_wf_so [OF wf] by auto
    have low: "m \<in> segs_offsets ss \<Longrightarrow> seg_end s \<le> m" for m using offsets_bound [OF ok later] .
    have gap: "(\<exists>(lo, hi) \<in> set (if unat (seg_so s) \<noteq> next then [(next, unat (seg_so s) - 1)] else []). lo \<le> n \<and> n \<le> hi) \<longleftrightarrow>
        next \<le> n \<and> n < unat (seg_so s)"
      using so(1) by auto
    have off: "n \<in> seg_offsets s \<longleftrightarrow> unat (seg_so s) \<le> n \<and> n < seg_end s" by (simp add: seg_offsets_def)
    have "(\<exists>(lo, hi) \<in> set (missing_gaps next (s # ss)). lo \<le> n \<and> n \<le> hi) \<longleftrightarrow>
        (next \<le> n \<and> n < unat (seg_so s)) \<or> (seg_end s \<le> n \<and> n < segs_end (seg_end s) ss \<and> n \<notin> segs_offsets ss)"
      unfolding missing_gaps.simps set_append bex_Un gap using ih by blast
    then show ?case using ih so low [of n] off by auto
  qed auto
  then show "(\<exists>(lo, hi) \<in> set (missing_gaps next ss). lo \<le> n \<and> n \<le> hi) \<longleftrightarrow> next \<le> n \<and> n < segs_end next ss \<and> n \<notin> segs_offsets ss"
    and "next \<le> segs_end next ss" and "n \<in> segs_offsets ss \<Longrightarrow> n < segs_end next ss"
    by blast+
qed

section \<open>Building the report\<close>

definition report_ok :: "rlc_am_sn_size \<Rightarrow> rlc_am_status_pdu \<Rightarrow> bool" where
  "report_ok z p \<longleftrightarrow> sp_sn_size p = z \<and> status_wf p \<and> (\<forall>n \<in> set (sp_nacks p). sn_nack_ok (am_mod_of z) n)"

definition report_missing :: "rlc_am_status_pdu \<Rightarrow> missing list" where
  "report_missing p = nacks_missing (sp_mod_nr p) (sp_nacks p)"

lemma report_ok_create: "report_ok z (status_create z)"
  by (simp add: report_ok_def status_wf_create) (simp add: status_create_def)

lemma report_missing_create [simp]: "report_missing (status_create z) = []"
  by (simp add: report_missing_def nacks_missing_def status_create_def)

lemma is_sn_bits: "is_sn z sn \<longleftrightarrow> unat sn < 2 ^ am_bits z"
  by (cases z) (simp_all add: is_sn_def am_mod_of_def)

text \<open>Pushing a NACK for one SN.\<close>

lemma push_one:
  assumes "report_ok z p" and "is_sn z sn"
    and "nack = nack_init\<lparr>nack_sn := sn, has_so := e, so_start := lo, so_end := hi\<rparr>" and "\<not> e \<longrightarrow> lo = 0 \<and> hi = so_end_of_sdu"
  shows "report_ok z (push_nack nack p)" and "report_missing (push_nack nack p) = report_missing p @ [(sn, lo, hi)]"
proof -
  have m: "sp_mod_nr p = am_mod_of z" using assms(1) by (simp add: report_ok_def status_wf_def am_mod_of_def)
  have r: "ring_size (sp_mod_nr p)" using m by simp
  have ok: "nack_ok (sp_sn_size p) nack" using assms by (auto simp: nack_ok_def nack_init_def report_ok_def is_sn_bits)
  have sn: "sn_nack_ok (sp_mod_nr p) nack" using assms(2,3) m by (simp add: sn_nack_ok_def nack_init_def nack_count_def is_sn_def)
  have "nack_missing (sp_mod_nr p) nack = [(sn, lo, hi)]"
    using assms(2-4) m by (simp add: nack_missing_def nack_init_def nack_count_def is_sn_def)
  then show "report_missing (push_nack nack p) = report_missing p @ [(sn, lo, hi)]"
    using push_nack_missing(1) [OF r _ sn] assms(1) m by (simp add: report_missing_def report_ok_def)
  show "report_ok z (push_nack nack p)"
    using status_wf_push [OF _ ok] push_nack_missing(2) [OF r _ sn] assms(1) m by (simp add: report_ok_def)
qed

lemma push_gaps_ok:
  assumes "report_ok z p" and "is_sn z sn" and "segs_ok segs" and "\<forall>s \<in> set segs. unat last_so \<le> unat (seg_so s)"
  shows "\<exists>p' last'. push_gaps sn segs last_so have_last p = Inr (last', have_last \<or> (\<exists>s \<in> set segs. seg_si s = Last_segment), p') \<and>
    report_ok z p' \<and> report_missing p' = report_missing p @ map (range_of sn) (missing_gaps (unat last_so) segs) \<and>
    unat last' = segs_end (unat last_so) segs"
  using assms
proof (induction segs arbitrary: last_so have_last p)
  case Nil
  then show ?case by simp
next
  case (Cons s ss)
  let ?last = "ucast (seg_so s) + of_nat (length (seg_payload s)) :: u32"
  have wf: "seg_wf s" and ok: "segs_ok ss" and later: "\<forall>t \<in> set ss. seg_end s \<le> unat (seg_so t)"
    using Cons.prems(3) by (auto simp: segs_ok_Cons)
  have l: "unat ?last = seg_end s"
    using wf unat_next [of "ucast (seg_so s)" "length (seg_payload s)"] by (simp add: unat_so_u32 seg_end_def seg_wf_def)
  have le: "unat last_so \<le> unat (seg_so s)" using Cons.prems(4) by simp
  have eq: "ucast (seg_so s) = last_so \<longleftrightarrow> unat (seg_so s) = unat last_so" by (simp add: word_unat_eq_iff unat_so_u32)
  show ?case
  proof (cases "ucast (seg_so s) = last_so")
    case True
    then show ?thesis
      using Cons.IH [OF Cons.prems(1,2) ok, of ?last "have_last \<or> seg_si s = Last_segment"] later l eq by (simp add: Let_def disj_assoc)
  next
    case False
    let ?lo = "ucast last_so :: u16" and ?hi = "seg_so s - 1"
    have lt: "unat last_so < unat (seg_so s)" using le False eq by simp
    have lo: "unat ?lo = unat last_so"
      using lt unsigned_less [where 'a = nat, of "seg_so s"] by (simp add: unsigned_ucast_eq take_bit_eq_mod)
    have "seg_so s \<noteq> 0" using lt by auto
    then have hi: "unat ?hi = unat (seg_so s) - 1" by (rule unat_minus_one)
    have nlt: "\<not> ?hi < ?lo" using lo hi lt by (simp add: word_less_nat_alt)
    let ?n = "nack_init\<lparr>nack_sn := sn, has_so := True, so_start := ?lo, so_end := ?hi\<rparr>"
    have p: "report_ok z (push_nack ?n p)" "report_missing (push_nack ?n p) = report_missing p @ [(sn, ?lo, ?hi)]"
      using push_one [OF Cons.prems(1,2), where nack = ?n and e = True and lo = ?lo and hi = ?hi] by simp_all
    have r: "(sn, ?lo, ?hi) = range_of sn (unat last_so, unat (seg_so s) - 1)"
      using lo hi unsigned_less [where 'a = nat, of "seg_so s"] lt
      by (simp add: range_of_def word_unat_eq_iff unsigned_of_nat take_bit_eq_mod)
    show ?thesis
      using Cons.IH [OF p(1) Cons.prems(2) ok, of ?last "have_last \<or> seg_si s = Last_segment"] later l eq False nlt p(2) r
      by (simp add: Let_def disj_assoc)
  qed
qed

lemma report_sn_ok:
  assumes "report_ok z p" and "is_sn z sn" and "infos_ok w"
  obtains p' where "report_sn w sn p = Inr p'" and "report_ok z p'" and "report_missing p' = report_missing p @ missing_of w sn"
proof (cases "win_find w sn")
  case None
  let ?n = "nack_init\<lparr>nack_sn := sn, has_so := False\<rparr>"
  have "?n = nack_init\<lparr>nack_sn := sn, has_so := False, so_start := 0, so_end := so_end_of_sdu\<rparr>" by (simp add: nack_init_def)
  from push_one [OF assms(1,2) this] show ?thesis
    using that [of "push_nack ?n p"] None by (simp add: report_sn_def missing_of_def)
next
  case (Some info)
  show ?thesis
  proof (cases "fully_received info")
    case True
    then show ?thesis using that [of p] Some assms(1) by (simp add: report_sn_def missing_of_def)
  next
    case False
    obtain segs where d: "sdu_data info = Sdu_segment_set segs" and ok: "segs_ok segs"
      using assms(3) Some False by (fastforce simp: infos_ok_def sdu_info_ok_def)
    have s: "segments_of info = segs" by (simp add: segments_of_def d)
    let ?has = "\<exists>s \<in> set segs. seg_si s = Last_segment"
    obtain p1 last where g: "push_gaps sn segs 0 False p = Inr (last, ?has, p1)" and p1: "report_ok z p1"
      and m1: "report_missing p1 = report_missing p @ map (range_of sn) (missing_gaps 0 segs)" and l: "unat last = segs_end 0 segs"
      using push_gaps_ok [OF assms(1,2) ok, of 0 False] by auto
    show ?thesis
    proof (cases ?has)
      case True
      then show ?thesis
        using that [of p1] Some False d g p1 m1 by (simp add: report_sn_def missing_of_def s)
    next
      case no: False
      let ?lo = "ucast last :: u16"
      let ?n = "nack_init\<lparr>nack_sn := sn, has_so := True, so_start := ?lo, so_end := so_end_of_sdu\<rparr>"
      have p2: "report_ok z (push_nack ?n p1)" "report_missing (push_nack ?n p1) = report_missing p1 @ [(sn, ?lo, so_end_of_sdu)]"
        using push_one [OF p1 assms(2), where nack = ?n and e = True and lo = ?lo and hi = so_end_of_sdu] by simp_all
      have lo: "?lo = of_nat (segs_end 0 segs)"
        by (simp add: l [symmetric] word_unat_eq_iff unsigned_ucast_eq unsigned_of_nat take_bit_eq_mod)
      have "unat so_end_of_sdu = 65535" by (simp add: so_end_of_sdu_def)
      then have "\<not> so_end_of_sdu < ?lo"
        using unsigned_less [where 'a = nat, of ?lo] by (simp add: word_less_nat_alt)
      then show ?thesis
        using that [of "push_nack ?n p1"] Some False d g no p2 m1 lo by (simp add: report_sn_def missing_of_def s Let_def)
    qed
  qed
qed

text \<open>The missing ranges of the SDUs at the distances \<open>i\<close> to before \<open>j\<close>.\<close>

definition missing_between :: "rlc_am_sn_size \<Rightarrow> rlc_rx_am_sdu_info sdu_window \<Rightarrow> u32 \<Rightarrow> nat \<Rightarrow> nat \<Rightarrow> missing list" where
  "missing_between z w b i j = concat (map (\<lambda>n. missing_of w (at_dist z b n)) [i..<j])"

lemma report_loop_ok:
  assumes "report_ok z p" and "is_sn z i" and "infos_ok w"
  shows "\<exists>p'. report_loop z w b stop_sn i p = Inr p' \<and> report_ok z p' \<and>
    report_missing p' = report_missing p @ missing_between z w b (away z b i) (away z b stop_sn)"
  using assms
proof (induction z w b stop_sn i p rule: report_loop.induct)
  case (1 z w b stop_sn i p)
  show ?case
  proof (cases "away z b i < away z b stop_sn")
    case False
    then show ?thesis
      using 1(2) by (subst report_loop.simps) (simp add: away_iffs missing_between_def)
  next
    case True
    obtain p1 where p1: "report_sn w i p = Inr p1" "report_ok z p1" "report_missing p1 = report_missing p @ missing_of w i"
      using report_sn_ok [OF 1(2,3,4)] .
    have a: "away z b ((i + 1) mod am_mod_of z) = away z b i + 1"
      using True away_less [of z b stop_sn] by (simp add: away_Suc)
    have "missing_between z w b (away z b i) (away z b stop_sn) = missing_of w i @ missing_between z w b (away z b i + 1) (away z b stop_sn)"
      using True 1(3) by (simp add: missing_between_def upt_conv_Cons)
    then show ?thesis
      using 1(1) [OF _ p1(1,2) is_sn_Suc 1(4)] True p1 a by (subst report_loop.simps) (simp add: away_iffs)
  qed
qed

section \<open>The bytes that a report asks for\<close>

definition byte_missing :: "rlc_rx_am_sdu_info sdu_window \<Rightarrow> u32 \<Rightarrow> nat \<Rightarrow> bool" where
  "byte_missing w sn k =
     (case win_find w sn of
        None \<Rightarrow> True
      | Some info \<Rightarrow> \<not> fully_received info \<and> k \<notin> segs_offsets (segments_of info) \<and>
          ((\<exists>s \<in> set (segments_of info). seg_si s = Last_segment) \<longrightarrow> k < segs_end 0 (segments_of info)))"

definition asks_for :: "missing list \<Rightarrow> u32 \<Rightarrow> nat \<Rightarrow> bool" where
  "asks_for ms sn k \<longleftrightarrow> (\<exists>(sn', lo, hi) \<in> set ms. sn' = sn \<and> unat lo \<le> k \<and> k \<le> unat hi)"

lemma asks_for_append [simp]: "asks_for (xs @ ys) sn k \<longleftrightarrow> asks_for xs sn k \<or> asks_for ys sn k"
  by (auto simp: asks_for_def)

lemma asks_for_Nil [simp]: "\<not> asks_for [] sn k"
  by (simp add: asks_for_def)

lemma missing_gaps_less: "segs_ok ss \<Longrightarrow> (lo, hi) \<in> set (missing_gaps next ss) \<Longrightarrow> hi < 2 ^ 16 \<and> (next < 2 ^ 16 \<longrightarrow> lo < 2 ^ 16)"
proof (induction ss arbitrary: "next")
  case (Cons s ss)
  have "unat (seg_so s) < 2 ^ 16" using unsigned_less [where 'a = nat, of "seg_so s"] by simp
  moreover have "seg_end s \<le> 2 ^ 16" "segs_ok ss" using Cons.prems(1) by (auto simp: segs_ok_Cons seg_wf_def)
  moreover have "ss \<noteq> [] \<Longrightarrow> seg_end s < 2 ^ 16"
    using Cons.prems(1) unsigned_less [where 'a = nat, of "seg_so (hd ss)"] by (cases ss) (auto simp: segs_ok_Cons)
  ultimately show ?case using Cons.IH [of "seg_end s"] Cons.prems(2) by (cases ss) (auto split: if_splits)
qed simp

lemma asks_for_ranges:
  assumes "\<forall>(lo, hi) \<in> set rs. lo < 2 ^ 16 \<and> hi < 2 ^ 16"
  shows "asks_for (map (range_of sn) rs) sn k \<longleftrightarrow> (\<exists>(lo, hi) \<in> set rs. lo \<le> k \<and> k \<le> hi)"
  using assms by (induction rs) (auto simp: asks_for_def range_of_def unsigned_of_nat take_bit_eq_mod)

lemma missing_of_bytes:
  assumes "infos_ok w" and "k < 2 ^ 16"
    and "\<forall>info. win_find w sn = Some info \<longrightarrow> segs_end 0 (segments_of info) < 2 ^ 16"
  shows "asks_for (missing_of w sn) sn k \<longleftrightarrow> byte_missing w sn k"
proof (cases "win_find w sn")
  case None
  then show ?thesis using assms(2) by (simp add: missing_of_def byte_missing_def asks_for_def so_end_of_sdu_def)
next
  case (Some info)
  let ?ss = "segments_of info"
  have ok: "segs_ok ?ss" using segments_of_ok [OF assms(1), of sn] Some by (simp add: info_at_def)
  have e: "segs_end 0 ?ss < 2 ^ 16" using assms(3) Some by simp
  have g: "asks_for (map (range_of sn) (missing_gaps 0 ?ss)) sn k \<longleftrightarrow> k < segs_end 0 ?ss \<and> k \<notin> segs_offsets ?ss"
    using missing_gaps_spec(1) [OF ok, of 0 k] missing_gaps_less [OF ok, of _ _ 0] by (subst asks_for_ranges) auto
  have l: "asks_for [(sn, of_nat (segs_end 0 ?ss), so_end_of_sdu)] sn k \<longleftrightarrow> segs_end 0 ?ss \<le> k"
    using e assms(2) by (simp add: asks_for_def so_end_of_sdu_def unsigned_of_nat take_bit_eq_mod)
  have "k \<in> segs_offsets ?ss \<Longrightarrow> k < segs_end 0 ?ss" using missing_gaps_spec(3) [OF ok, of 0 k] by simp
  then show ?thesis using Some g l by (auto simp: missing_of_def byte_missing_def Let_def)
qed

lemma missing_of_sn: "asks_for (missing_of w sn') sn k \<Longrightarrow> sn' = sn"
  by (auto simp: missing_of_def asks_for_def range_of_def Let_def split: option.splits if_splits)

lemma asks_for_between:
  assumes "is_sn z sn" and "m \<le> unat (am_mod_of z)"
  shows "asks_for (missing_between z w b 0 m) sn k \<longleftrightarrow> away z b sn < m \<and> asks_for (missing_of w sn) sn k"
proof -
  have "asks_for (missing_between z w b 0 m) sn k \<longleftrightarrow> (\<exists>n < m. asks_for (missing_of w (at_dist z b n)) sn k)"
    unfolding missing_between_def asks_for_def by force
  also have "\<dots> \<longleftrightarrow> (\<exists>n < m. at_dist z b n = sn) \<and> asks_for (missing_of w sn) sn k" using missing_of_sn by blast
  also have "(\<exists>n < m. at_dist z b n = sn) \<longleftrightarrow> away z b sn < m"
    using assms by (metis at_away away_at less_le_trans)
  finally show ?thesis .
qed

text \<open>The report of a state: what \<open>refresh_status_report\<close> puts into the exchange buffer.\<close>

definition report_for :: "rlc_rx_am_entity \<Rightarrow> rlc_am_status_pdu run" where
  "report_for s =
     seq_run (report_loop (am_size s) (am_window s) (rx_next_of s) (report_stop_sn s) (rx_next_of s) (status_create (am_size s)))
       (\<lambda>p. Inr (p\<lparr>sp_ack_sn := report_stop_sn s\<rparr>))"

definition status_sized :: "rlc_am_sn_size \<Rightarrow> rlc_am_status_pdu \<Rightarrow> bool" where
  "status_sized z p \<longleftrightarrow> sp_sn_size p = z \<and> sp_mod_nr p = am_mod_of z"

lemma status_reset_create: "status_sized z p \<Longrightarrow> status_reset p = status_create z"
  by (cases p) (simp add: status_sized_def status_reset_def status_create_def am_mod_of_def)

definition limits_ok :: "rlc_rx_am_entity \<Rightarrow> bool" where
  "limits_ok s \<longleftrightarrow> 0 < max_nof_sn_per_status_report s \<and> max_nof_sn_per_status_report s \<le> am_window_size s"

text \<open>The report stops at \<open>RX_Highest_Status\<close>, or after the configured number of SNs.\<close>

lemma report_stop:
  assumes "settled s" and "limits_ok s"
  shows "dist s (report_stop_sn s) = min (dist s (highest_status_of s)) (unat (max_nof_sn_per_status_report s))"
    and "is_sn (am_size s) (report_stop_sn s)"
proof -
  let ?m = "unat (max_nof_sn_per_status_report s)"
  have m: "?m < unat (am_mod s)" using assms(2) am_mod_window [of "am_size s"] by (simp add: limits_ok_def word_le_nat_alt)
  have "(rx_next_of s + max_nof_sn_per_status_report s) mod am_mod s = at_dist (am_size s) (rx_next_of s) ?m"
    by (simp add: at_dist_def ring_add_def)
  then show "dist s (report_stop_sn s) = min (dist s (highest_status_of s)) ?m" "is_sn (am_size s) (report_stop_sn s)"
    using m settled_sn [OF assms(1)] by (auto simp: report_stop_sn_def Let_def rx_mod_base_iffs)
qed

lemma report_for_ok:
  assumes "settled s" and "infos_ok (am_window s)" and "limits_ok s"
  obtains p where "report_for s = Inr p" and "report_ok (am_size s) p" and "sp_ack_sn p = report_stop_sn s"
    and "report_missing p = missing_between (am_size s) (am_window s) (rx_next_of s) 0 (dist s (report_stop_sn s))"
proof -
  have b: "is_sn (am_size s) (rx_next_of s)" using settled_sn [OF assms(1)] by simp
  obtain p where p: "report_loop (am_size s) (am_window s) (rx_next_of s) (report_stop_sn s) (rx_next_of s) (status_create (am_size s)) = Inr p"
    "report_ok (am_size s) p" "report_missing p = missing_between (am_size s) (am_window s) (rx_next_of s) 0 (dist s (report_stop_sn s))"
    using report_loop_ok [OF report_ok_create b assms(2), of "rx_next_of s" "report_stop_sn s"] by auto
  show ?thesis
    by (rule that [of "p\<lparr>sp_ack_sn := report_stop_sn s\<rparr>"])
      (use p in \<open>simp_all add: report_for_def report_ok_def report_missing_def status_wf_ack\<close>)
qed

lemma refresh_report_for:
  assumes "status_sized (am_size s) (status_writer s)"
  shows "refresh_status_report s = seq_run (report_for s) (\<lambda>p. Inr (s\<lparr>status_writer := status_exchange s, status_exchange := p,
    status_report_size := sp_packed_size p\<rparr>))"
  by (simp add: refresh_status_report_def report_for_def status_reset_create [OF assms] Let_def store_status_report_def seq_run_def
      split: sum.splits)

text \<open>The report depends on the window, \<open>RX_Next\<close> and \<open>RX_Highest_Status\<close> only.\<close>

lemma report_sn_cong: "win_find w = win_find w' \<Longrightarrow> report_sn w = report_sn w'"
  by (simp add: report_sn_def fun_eq_iff)

lemma report_loop_cong:
  assumes "win_find w = win_find w'"
  shows "report_loop z w b stop_sn i p = report_loop z w' b stop_sn i p"
  using assms
proof (induction z w b stop_sn i p rule: report_loop.induct)
  case (1 z w b stop_sn i p)
  then show ?case
    by (subst (1 2) report_loop.simps) (auto simp: report_sn_cong [OF 1(2)] split: sum.split)
qed

lemma report_for_cong:
  assumes "am_cfg s' = am_cfg s" "rx_next_of s' = rx_next_of s" "highest_status_of s' = highest_status_of s"
    "max_nof_sn_per_status_report s' = max_nof_sn_per_status_report s" "win_find (am_window s') = win_find (am_window s)"
  shows "report_for s' = report_for s"
  using assms report_loop_cong [OF assms(5)]
  by (simp add: report_for_def report_stop_sn_def rx_mod_base_def Let_def)

end
