(* ===== verification/Rlc_Rx_Am_Steps.thy ===== *)
theory Rlc_Rx_Am_Steps
  imports Rlc_Rx_Am_Report
begin

text \<open>
  The invariant of the whole receiving entity of the acknowledged mode, that every operation
  keeps it without a failed assertion, and the states that can be reached.
\<close>

section \<open>The invariant\<close>

definition report_current :: "rlc_rx_am_entity \<Rightarrow> bool" where
  "report_current s \<longleftrightarrow> report_for s = Inr (status_exchange s) \<and> status_report_size s = sp_packed_size (status_exchange s)"

definition rx_ok :: "rlc_rx_am_entity \<Rightarrow> bool" where
  "rx_ok s \<longleftrightarrow> settled s \<and> infos_ok (am_window s) \<and> timer_ok s \<and> limits_ok s \<and> 0 < rac_t_reassembly (am_cfg s) \<and>
     am_metrics_ok (am_metrics s) \<and> status_sized (am_size s) (status_writer s) \<and>
     status_sized (am_size s) (status_exchange s) \<and> status_sized (am_size s) (status_reader s)"

definition am_inv :: "rlc_rx_am_entity \<Rightarrow> bool" where
  "am_inv s \<longleftrightarrow> rx_ok s \<and> (do_status s \<longrightarrow> report_current s)"

lemma report_sized: "report_ok z p \<Longrightarrow> status_sized z p"
  by (simp add: report_ok_def status_sized_def status_wf_def am_mod_of_def)

lemma refresh_ok:
  assumes "rx_ok s"
  obtains p where "refresh_status_report s = Inr (s\<lparr>status_writer := status_exchange s, status_exchange := p, status_report_size := sp_packed_size p\<rparr>)"
    and "report_for s = Inr p" and "status_sized (am_size s) p"
proof -
  have "settled s" "infos_ok (am_window s)" "limits_ok s" using assms by (simp_all add: rx_ok_def)
  then obtain p where "report_for s = Inr p" "report_ok (am_size s) p" by (rule report_for_ok)
  then show ?thesis
    using that [of p] refresh_report_for [of s] assms report_sized by (simp add: rx_ok_def)
qed

text \<open>The fields on which the invariant depends.\<close>

lemma settled_cong:
  "am_cfg s' = am_cfg s \<Longrightarrow> am_window s' = am_window s \<Longrightarrow> am_st s' = am_st s \<Longrightarrow> settled s' = settled s"
  by (simp add: settled_def status_ok_def)

lemma timer_ok_cong:
  "am_cfg s' = am_cfg s \<Longrightarrow> am_window s' = am_window s \<Longrightarrow> am_st s' = am_st s \<Longrightarrow> reassembly_timer s' \<longrightarrow> reassembly_timer s \<Longrightarrow>
    timer_ok s \<Longrightarrow> timer_ok s'"
  by (simp add: timer_ok_def trigger_ok_def)

lemma limits_ok_cong:
  "am_cfg s' = am_cfg s \<Longrightarrow> max_nof_sn_per_status_report s' = max_nof_sn_per_status_report s \<Longrightarrow> limits_ok s' = limits_ok s"
  by (simp add: limits_ok_def)

lemma rx_ok_cong:
  assumes "rx_ok s" and "am_cfg s' = am_cfg s" "am_window s' = am_window s" "am_st s' = am_st s"
    "reassembly_timer s' \<longrightarrow> reassembly_timer s" "max_nof_sn_per_status_report s' = max_nof_sn_per_status_report s"
    "am_metrics_ok (am_metrics s')"
    "status_sized (am_size s) (status_writer s')" "status_sized (am_size s) (status_exchange s')"
    "status_sized (am_size s) (status_reader s')"
  shows "rx_ok s'"
  using assms settled_cong [OF assms(2,3,4)] timer_ok_cong [OF assms(2,3,4,5)] limits_ok_cong [OF assms(2,6)]
  unfolding rx_ok_def by simp

lemma report_for_same:
  "am_cfg s' = am_cfg s \<Longrightarrow> am_window s' = am_window s \<Longrightarrow> am_st s' = am_st s \<Longrightarrow>
    max_nof_sn_per_status_report s' = max_nof_sn_per_status_report s \<Longrightarrow> report_for s' = report_for s"
  by (rule report_for_cong) simp_all

lemma rx_ok_sized:
  "rx_ok s \<Longrightarrow> status_sized (am_size s) (status_writer s) \<and> status_sized (am_size s) (status_exchange s) \<and>
    status_sized (am_size s) (status_reader s) \<and> am_metrics_ok (am_metrics s)"
  by (simp add: rx_ok_def)

section \<open>The actions on exit\<close>

lemma am_on_exit_ok:
  assumes "rx_ok s" and "do_status s \<and> \<not> changed \<longrightarrow> report_current s"
  obtains ev s' where "am_on_exit changed requested s = Inr (ev, s')" and "am_inv s'"
    and "set ev \<subseteq> {Status_report_changed}" and "am_cfg s' = am_cfg s" "am_window s' = am_window s" "am_st s' = am_st s"
    and "do_status s' \<longleftrightarrow> do_status s \<or> requested" and "changed \<or> requested \<Longrightarrow> report_current s'"
proof (cases "changed \<or> requested")
  case False
  then show ?thesis using that [of "[]" s] assms by (simp add: am_on_exit_def am_inv_def)
next
  case True
  obtain p where r: "refresh_status_report s = Inr (s\<lparr>status_writer := status_exchange s, status_exchange := p, status_report_size := sp_packed_size p\<rparr>)"
    and p: "report_for s = Inr p" "status_sized (am_size s) p" using refresh_ok [OF assms(1)] .
  let ?s1 = "s\<lparr>status_writer := status_exchange s, status_exchange := p, status_report_size := sp_packed_size p\<rparr>"
  let ?s2 = "if requested then ?s1\<lparr>do_status := True\<rparr> else ?s1"
  have ok: "rx_ok ?s2"
    using p(2) rx_ok_sized [OF assms(1)] by (intro rx_ok_cong [OF assms(1)]) simp_all
  have "report_for ?s2 = report_for s" by (intro report_for_same) simp_all
  then have cur: "report_current ?s2" using p(1) by (simp add: report_current_def)
  show ?thesis
    by (rule that [of "notify_status_report_changed ?s2" ?s2])
      (use True r ok cur in \<open>auto simp: am_on_exit_def am_inv_def notify_status_report_changed_def\<close>)
qed

section \<open>Handling PDUs\<close>

text \<open>SNs that are read have as many bits as the SN field.\<close>

lemma bits_bound:
  fixes w :: u32
  assumes "\<And>n. bit w n \<Longrightarrow> n < k"
  shows "unat w < 2 ^ k"
proof -
  have "take_bit k w = w"
    by (rule bit_word_eqI) (use assms in \<open>auto simp: bit_take_bit_iff\<close>)
  then have "unat w = take_bit k (unat w)" by (metis unsigned_take_bit_eq)
  then show ?thesis by (metis take_bit_nat_less_exp)
qed

lemma read_header_sn:
  assumes "rlc_am_read_data_pdu_header buf z = Some h"
  shows "is_sn z (ah_sn h)" and "ah_sn_size h = z"
proof -
  obtain rd where sn: "read_am_sn z buf = Some (ah_sn h, rd)" and z: "ah_sn_size h = z"
    using assms by (auto simp: rlc_am_read_data_pdu_header_def Let_def split: if_splits option.splits)
  show "ah_sn_size h = z" by (rule z)
  show "is_sn z (ah_sn h)"
  proof (cases z)
    case Am12
    then obtain b0 b1 r where "buf = b0 # b1 # r" using sn by (auto simp: read_am_sn_def split: list.splits)
    moreover have "read_am_sn Am12 (b0 # b1 # r) = Some (push_bit 8 (ucast b0 AND mask 4) OR (ucast b1 AND mask 8), r)"
      unfolding read_am_sn_def byte_masks by (simp only: list.case rlc_am_sn_size.case)
    ultimately have e: "ah_sn h = push_bit 8 (ucast b0 AND mask 4) OR (ucast b1 AND mask 8)"
      using sn Am12 by (metis option.inject prod.inject)
    have "bit (ah_sn h) n \<Longrightarrow> n < 12" for n
      unfolding e bit_or_iff using bit_u32_byte [of 8 b0 4 n] bit_u32_byte [of 0 b1 8 n] by auto
    then show ?thesis unfolding Am12 is_sn_bits using bits_bound [of "ah_sn h" 12] by simp
  next
    case Am18
    then obtain b0 b1 b2 r where "buf = b0 # b1 # b2 # r" and "b0 AND 0x0c = 0"
      using sn by (auto simp: read_am_sn_def split: list.splits if_splits)
    moreover have "b0 AND 0x0c = 0 \<Longrightarrow> read_am_sn Am18 (b0 # b1 # b2 # r) =
        Some (push_bit 16 (ucast b0 AND mask 2) OR push_bit 8 (ucast b1 AND mask 8) OR (ucast b2 AND mask 8), r)"
      unfolding read_am_sn_def byte_masks by (simp only: list.case rlc_am_sn_size.case simp_thms if_False)
    ultimately have e: "ah_sn h = push_bit 16 (ucast b0 AND mask 2) OR push_bit 8 (ucast b1 AND mask 8) OR (ucast b2 AND mask 8)"
      using sn Am18 by (metis option.inject prod.inject)
    have "bit (ah_sn h) n \<Longrightarrow> n < 18" for n
      unfolding e bit_or_iff using bit_u32_byte [of 16 b0 2 n] bit_u32_byte [of 8 b1 8 n] bit_u32_byte [of 0 b2 8 n] by auto
    then show ?thesis unfolding Am18 is_sn_bits using bits_bound [of "ah_sn h" 18] by simp
  qed
qed

text \<open>A PDU of an SDU of at most 65536 bytes: the offsets of its bytes fit into an SO.\<close>

definition buf_fits :: "rlc_am_sn_size \<Rightarrow> bytes \<Rightarrow> bool" where
  "buf_fits z buf = (case rlc_am_read_data_pdu_header buf z of
      None \<Rightarrow> True
    | Some h \<Rightarrow> ah_si h = Full_sdu \<or> unat (ah_so h) + (length buf - ah_packed_size h) \<le> 2 ^ 16)"

lemma test_hook_fields [simp]:
  "am_cfg (snd (test_hook env sn s)) = am_cfg s" "am_window (snd (test_hook env sn s)) = am_window s"
  "am_st (snd (test_hook env sn s)) = am_st s" "am_metrics (snd (test_hook env sn s)) = am_metrics s"
  "reassembly_timer (snd (test_hook env sn s)) = reassembly_timer s" "do_status (snd (test_hook env sn s)) = do_status s"
  "status_writer (snd (test_hook env sn s)) = status_writer s" "status_exchange (snd (test_hook env sn s)) = status_exchange s"
  "status_reader (snd (test_hook env sn s)) = status_reader s" "status_report_size (snd (test_hook env sn s)) = status_report_size s"
  "max_nof_sn_per_status_report (snd (test_hook env sn s)) = max_nof_sn_per_status_report s"
  by (simp_all add: test_hook_def)

lemma test_hook_none [simp]: "env_test_scenario env = None \<Longrightarrow> test_hook env sn s = (False, s)"
  by (simp add: test_hook_def)

lemma rx_ok_test_hook: "rx_ok s \<Longrightarrow> rx_ok (snd (test_hook env sn s))"
  by (rule rx_ok_cong [of s]) (use rx_ok_sized [of s] in simp_all)

lemma frame_not_sn: "frame s \<Longrightarrow> \<not> is_sn (am_size s) k \<Longrightarrow> win_find (am_window s) k = None"
  by (cases "win_find (am_window s) k") (auto dest: frame_key)

lemma report_current_cong:
  assumes "report_current s" and "report_for s' = report_for s" "status_exchange s' = status_exchange s" "status_report_size s' = status_report_size s"
  shows "report_current s'"
  using assms by (simp add: report_current_def)

lemma am_inv_keep:
  assumes "am_inv s" and "rx_ok s'" and "report_for s' = report_for s" "status_exchange s' = status_exchange s"
    "status_report_size s' = status_report_size s" "do_status s' \<longrightarrow> do_status s"
  shows "am_inv s'"
  using assms report_current_cong [OF _ assms(3,4,5)] by (auto simp: am_inv_def)

text \<open>The cases of \<open>handle_data_pdu\<close> before the window is touched.\<close>

definition pdu_accepted :: "rlc_am_env \<Rightarrow> bytes \<Rightarrow> rlc_rx_am_entity \<Rightarrow> rlc_am_pdu_header \<Rightarrow> bool" where
  "pdu_accepted env buf s h \<longleftrightarrow> rlc_am_read_data_pdu_header buf (am_size s) = Some h \<and> \<not> fst (test_hook env (ah_sn h) s) \<and>
     ah_packed_size h < length buf \<and> inside_rx_window s (ah_sn h) \<and> \<not> sdu_received (am_window s) (ah_sn h)"

lemma am_data_pdu_body_dropped:
  assumes "\<nexists>h. pdu_accepted env buf s h" and "am_inv s"
  obtains requested s' where "am_data_pdu_body env buf s = Inr ([], False, requested, s')" and "am_inv s'"
    and "am_cfg s' = am_cfg s" "am_window s' = am_window s" "am_st s' = am_st s" "do_status s' = do_status s"
proof (cases "rlc_am_read_data_pdu_header buf (am_size s)")
  case None
  let ?s = "s\<lparr>am_metrics := rrm_add_malformed_pdus 1 (am_metrics s)\<rparr>"
  have "rx_ok s" using assms(2) by (simp add: am_inv_def)
  then have ok: "rx_ok ?s" by (rule rx_ok_cong) (use rx_ok_sized [of s] \<open>rx_ok s\<close> in simp_all)
  have "am_inv ?s" by (rule am_inv_keep [OF assms(2) ok]; (rule report_for_same)?; simp)
  then show ?thesis using that [of False ?s] None by (simp add: am_data_pdu_body_def)
next
  case (Some h)
  let ?s = "snd (test_hook env (ah_sn h) s)"
  have ok: "rx_ok ?s" using assms(2) rx_ok_test_hook by (simp add: am_inv_def)
  have i: "am_inv ?s" by (rule am_inv_keep [OF assms(2) ok]; (rule report_for_same)?; simp)
  have win: "inside_rx_window ?s (ah_sn h) = inside_rx_window s (ah_sn h)" by (simp add: inside_rx_window_def rx_mod_base_def)
  have no: "fst (test_hook env (ah_sn h) s) \<or> length buf \<le> ah_packed_size h \<or> \<not> inside_rx_window ?s (ah_sn h) \<or> sdu_received (am_window s) (ah_sn h)"
    using assms(1) Some unfolding win pdu_accepted_def by (auto simp: not_less)
  have "\<exists>requested. am_data_pdu_body env buf s = Inr ([], False, requested, ?s)"
  proof (cases "fst (test_hook env (ah_sn h) s) \<or> length buf \<le> ah_packed_size h")
    case True
    then show ?thesis using Some by (auto simp: am_data_pdu_body_def split: prod.split)
  next
    case False
    then show ?thesis using no Some test_hook_fields(2) [of env "ah_sn h" s]
      by (intro exI [of _ "ah_p h \<noteq> 0"]) (auto simp: am_data_pdu_body_def Let_def simp del: test_hook_fields split: prod.split)
  qed
  then obtain requested where "am_data_pdu_body env buf s = Inr ([], False, requested, ?s)" by blast
  then show ?thesis using that [of requested ?s] i by simp
qed

lemma rx_only_fields:
  assumes "rx_only s s'"
  shows "am_cfg s' = am_cfg s" "do_status s' = do_status s" "status_writer s' = status_writer s" "status_exchange s' = status_exchange s"
    "status_reader s' = status_reader s" "status_report_size s' = status_report_size s"
    "max_nof_sn_per_status_report s' = max_nof_sn_per_status_report s"
  using assms by (cases s; cases s'; simp add: rx_only_def)+

text \<open>An accepted PDU.\<close>

lemma am_data_pdu_body_accepted:
  fixes h buf s
  defines "payload \<equiv> drop (ah_packed_size h) buf"
  defines "info \<equiv> snd (new_info h payload (info_at (am_window s) (ah_sn h)))"
    and "changed \<equiv> fst (new_info h payload (info_at (am_window s) (ah_sn h)))"
  assumes "pdu_accepted env buf s h" and "am_inv s" and "buf_fits (am_size s) buf"
  obtains s' where "am_data_pdu_body env buf s =
      Inr (if fully_received info then delivered_sdu (env_chain_ok env) info else [], changed, ah_p h \<noteq> 0, s')"
    and "rx_ok s'" and "do_status s' = do_status s" and "\<not> changed \<Longrightarrow> do_status s \<Longrightarrow> report_current s'"
    and "am_cfg s' = am_cfg s" and "window_step (ah_sn h) info s s'"
proof -
  have rd: "rlc_am_read_data_pdu_header buf (am_size s) = Some h" and nh: "\<not> fst (test_hook env (ah_sn h) s)"
    and len: "ah_packed_size h < length buf" and ins: "inside_rx_window s (ah_sn h)" and new: "\<not> sdu_received (am_window s) (ah_sn h)"
    using assms(4) by (simp_all add: pdu_accepted_def)
  have hook: "test_hook env (ah_sn h) s = (False, s)" using nh by (auto simp: test_hook_def split: if_splits)
  have ok: "rx_ok s" using assms(5) by (simp add: am_inv_def)
  have rx: "settled s" "infos_ok (am_window s)" "timer_ok s" "0 < rac_t_reassembly (am_cfg s)" using ok by (simp_all add: rx_ok_def)
  have sn: "is_sn (am_size s) (ah_sn h)" "dist s (ah_sn h) < unat (am_window_size s)"
    using read_header_sn(1) [OF rd] ins by (simp_all add: inside_rx_window_iff)
  have fits: "pdu_fits h payload" using assms(6) rd len by (auto simp: buf_fits_def pdu_fits_def payload_def)
  obtain s' where p: "place_pdu env h payload s = Inr (if fully_received info then delivered_sdu (env_chain_ok env) info else [], changed, s')"
    and s': "settled s'" "infos_ok (am_window s')" "timer_ok s'" "rx_only s s'"
      "am_metrics_ok (am_metrics s') = am_metrics_ok (am_metrics s)" "window_step (ah_sn h) info s s'"
      "fully_received info \<or> highest_status_of s' = highest_status_of s"
    unfolding info_def changed_def by (rule place_pdu_ok [OF rx sn new fits])
  note same = rx_only_fields [OF s'(4)]
  have ok': "rx_ok s'"
    using s' same ok limits_ok_cong [OF same(1,7)] by (simp add: rx_ok_def)
  have "report_current s'" if "\<not> changed" "do_status s"
  proof -
    have i: "win_find (am_window s) (ah_sn h) = Some info"
      using new_info_unchanged [OF rx(2) fits new] that(1) by (simp add: info_def changed_def)
    then have nf: "released info = info" using new by (simp add: released_def sdu_received_def)
    have "dist s (ah_sn h) < dist s (next_highest_at s)" using frame_key [OF _ i] rx(1) by (simp add: settled_def)
    then have nh: "next_highest_at s' = next_highest_at s" using s'(6) by (simp add: window_step_def next_highest_of_def)
    have nfull: "\<not> fully_received info" using i new by (simp add: sdu_received_def)
    obtain d where d: "rx_next_of s' = at_dist (am_size s) (rx_next_of s) d"
      and past: "\<forall>n < d. let k = at_dist (am_size s) (rx_next_of s) n in
           if k = ah_sn h then fully_received info else sdu_received (am_window s) k"
      and find: "\<And>k. is_sn (am_size s) k \<Longrightarrow> win_find (am_window s') k =
           (if dist s k < d then None else if k = ah_sn h then Some (released info) else win_find (am_window s) k)"
      using s'(6) by (auto simp: window_step_def)
    have b: "is_sn (am_size s) (rx_next_of s)" using settled_sn [OF rx(1)] by simp
    have d0: "d = 0"
    proof (rule ccontr)
      assume "d \<noteq> 0"
      then show False using past [rule_format, of 0] b nfull rx(1) by (auto simp: Let_def settled_def split: if_splits)
    qed
    have "win_find (am_window s') k = win_find (am_window s) k" for k
    proof (cases "is_sn (am_size s) k")
      case True
      then show ?thesis using find [OF True] d0 i nf by simp
    next
      case False
      then have "win_find (am_window s) k = None" "win_find (am_window s') k = None"
        using frame_not_sn [of s k] frame_not_sn [of s' k] rx(1) s'(1) same(1) by (simp_all add: settled_def)
      then show ?thesis by simp
    qed
    then have "report_for s' = report_for s"
      using same s'(7) nfull d d0 b by (intro report_for_cong) (simp_all add: fun_eq_iff)
    moreover have "report_current s" using assms(5) that(2) by (simp add: am_inv_def)
    ultimately show ?thesis using report_current_cong [of s s'] same by simp
  qed
  then show ?thesis using p rd hook len ins new same s'(6) ok'
    by (intro that [of s']) (simp_all add: am_data_pdu_body_def payload_def [symmetric] Let_def)
qed

lemma am_handle_data_pdu_ok:
  assumes "am_inv s" and "buf_fits (am_size s) buf"
  obtains ev s' where "am_handle_data_pdu env buf s = Inr (ev, s')" and "am_inv s'" and "am_cfg s' = am_cfg s"
proof (cases "\<exists>h. pdu_accepted env buf s h")
  case False
  obtain requested s1 where b: "am_data_pdu_body env buf s = Inr ([], False, requested, s1)" "am_inv s1" "am_cfg s1 = am_cfg s"
    by (rule am_data_pdu_body_dropped [OF False assms(1)]) (rule that)
  then have ok: "rx_ok s1" and cur: "do_status s1 \<and> \<not> False \<longrightarrow> report_current s1" by (simp_all add: am_inv_def)
  obtain ev s' where "am_on_exit False requested s1 = Inr (ev, s')" "am_inv s'" "am_cfg s' = am_cfg s1"
    by (rule am_on_exit_ok [OF ok cur]) (rule that)
  then show ?thesis using that [of ev s'] b by (simp add: am_handle_data_pdu_def)
next
  case True
  then obtain h where acc: "pdu_accepted env buf s h" by blast
  obtain ev1 changed req s1 where b: "am_data_pdu_body env buf s = Inr (ev1, changed, req, s1)" "rx_ok s1"
      "do_status s1 = do_status s" "\<not> changed \<Longrightarrow> do_status s \<Longrightarrow> report_current s1" "am_cfg s1 = am_cfg s"
    by (rule am_data_pdu_body_accepted [OF acc assms]) (rule that)
  then have cur: "do_status s1 \<and> \<not> changed \<longrightarrow> report_current s1" by simp
  obtain ev2 s' where "am_on_exit changed req s1 = Inr (ev2, s')" "am_inv s'" "am_cfg s' = am_cfg s1"
    by (rule am_on_exit_ok [OF b(2) cur]) (rule that)
  then show ?thesis using that [of "ev1 @ ev2" s'] b by (simp add: am_handle_data_pdu_def)
qed

lemma am_inv_metrics:
  assumes "am_inv s" and "am_metrics_ok met"
  shows "am_inv (s\<lparr>am_metrics := met\<rparr>)"
proof -
  have "rx_ok s" using assms(1) by (simp add: am_inv_def)
  then have ok: "rx_ok (s\<lparr>am_metrics := met\<rparr>)"
    by (rule rx_ok_cong) (use rx_ok_sized [of s] \<open>rx_ok s\<close> assms(2) in simp_all)
  show ?thesis by (rule am_inv_keep [OF assms(1) ok]; (rule report_for_same)?; simp)
qed

lemma am_inv_ok: "am_inv s \<Longrightarrow> rx_ok s"
  by (simp add: am_inv_def)

lemma am_handle_pdu_ok:
  assumes "am_inv s" and "buf_fits (am_size s) buf"
  obtains ev s' where "am_handle_pdu env buf s = Inr (ev, s')" and "am_inv s'" and "am_cfg s' = am_cfg s"
proof -
  let ?s = "s\<lparr>am_metrics := rrm_add_pdus 1 (length buf) (am_metrics s)\<rparr>"
  have met: "am_metrics_ok (am_metrics s)" using rx_ok_sized [OF am_inv_ok [OF assms(1)]] by simp
  have i: "am_inv ?s" using am_inv_metrics [OF assms(1)] met by simp
  consider "buf = []" | "buf \<noteq> []" "is_control_pdu buf" | "buf \<noteq> []" "\<not> is_control_pdu buf" by blast
  then show ?thesis
  proof cases
    case 1
    then show ?thesis using that [of "[]" ?s] i by (simp add: am_handle_pdu_def)
  next
    case 2
    obtain m where "rrm_add_ctrl_pdus 1 (length buf) (am_metrics ?s) = Inr m" "am_metrics_ok m"
      using rrm_add_ctrl_pdus_ok [of "am_metrics ?s"] met by auto
    then show ?thesis
      using that [of "am_handle_control_pdu buf (?s\<lparr>am_metrics := m\<rparr>)" "?s\<lparr>am_metrics := m\<rparr>"] am_inv_metrics [OF i] 2
      by (simp add: am_handle_pdu_def Let_def)
  next
    case 3
    have "buf_fits (am_size ?s) buf" using assms(2) by simp
    from am_handle_data_pdu_ok [OF i this, of env]
    obtain ev s' where "am_handle_data_pdu env buf ?s = Inr (ev, s')" "am_inv s'" "am_cfg s' = am_cfg ?s" .
    then show ?thesis using that [of ev s'] 3 by (simp add: am_handle_pdu_def)
  qed
qed

section \<open>Expiry of t-Reassembly\<close>

text \<open>
  The handler runs before the window has moved past the trigger by half the ring, in particular when
  it runs right after the expiry.
\<close>

definition expiry_fresh :: "rlc_rx_am_entity \<Rightarrow> bool" where
  "expiry_fresh s \<longleftrightarrow> dist s (trigger_of s) \<le> dist s (next_highest_at s) \<or> unat (am_window_size s) < dist s (trigger_of s)"

lemma running_is_fresh: "am_inv s \<Longrightarrow> reassembly_timer s \<Longrightarrow> expiry_fresh (s\<lparr>reassembly_timer := False\<rparr>)"
  by (simp add: am_inv_def rx_ok_def timer_ok_def trigger_ok_def expiry_fresh_def)

definition with_highest_status :: "u32 \<Rightarrow> rlc_rx_am_entity \<Rightarrow> rlc_rx_am_entity" where
  "with_highest_status hs s = s\<lparr>am_st := (am_st s)\<lparr>st_highest_status := hs\<rparr>\<rparr>"

lemma with_highest_status_fields [simp]:
  "am_cfg (with_highest_status hs s) = am_cfg s" "am_window (with_highest_status hs s) = am_window s"
  "rx_next_of (with_highest_status hs s) = rx_next_of s" "next_highest_at (with_highest_status hs s) = next_highest_at s"
  "highest_status_of (with_highest_status hs s) = hs"
  by (simp_all add: with_highest_status_def)

lemma restart_reassembly_ok:
  assumes "settled s" and "\<not> reassembly_timer s" and "is_sn (am_size s) (trigger_of s)" and "0 < rac_t_reassembly (am_cfg s)"
  obtains x t where "restart_reassembly s = Inr (with_timer x t s)" and "timer_ok (with_timer x t s)"
proof -
  let ?nh = "next_highest_at s" and ?hs = "highest_status_of s"
  let ?look = "rx_mod_base s ?nh = rx_mod_base s (?hs + 1) \<and> has_sn (am_window s) ?hs"
  define g where "g \<longleftrightarrow> ?look \<and> has_gap (the (win_find (am_window s) ?hs))"
  have g: "(if ?look then seq_run (win_at (am_window s) ?hs) (\<lambda>info. Inr (has_gap info)) else Inr False) = Inr g"
    by (auto simp: win_at_find has_sn_find g_def)
  have fr: "frame s" and le: "dist s ?hs \<le> dist s ?nh" using assms(1) by (simp_all add: settled_def status_ok_def)
  have "dist s ?nh \<le> unat (am_window_size s)" using fr by (simp add: win_frame_def)
  then have one: "dist s (?hs + 1) = dist s ?hs + 1"
    using le am_mod_window [of "am_size s"] by (simp add: away_plus_1 away_Suc)
  let ?go = "rx_mod_base s (?hs + 1) < rx_mod_base s ?nh \<or> g"
  show ?thesis
  proof (cases ?go)
    case True
    then have "0 < dist s ?nh" using one by (auto simp: rx_mod_base_iffs g_def)
    then have "timer_ok (with_timer True ?nh s)"
      using settled_sn [OF assms(1)] next_highest_pred_present [OF fr] by (simp add: timer_ok_def trigger_ok_def)
    moreover have "restart_reassembly s = Inr (with_timer True ?nh s)"
      using True assms(4) by (simp add: restart_reassembly_def g Let_def run_reassembly_timer_def with_timer_def)
    ultimately show ?thesis using that by blast
  next
    case False
    have "restart_reassembly s = Inr (with_timer False (trigger_of s) s)"
      using False assms(2) with_timer_same [of s] by (simp add: restart_reassembly_def g Let_def)
    moreover have "timer_ok (with_timer False (trigger_of s) s)" using assms(3) by (simp add: timer_ok_def)
    ultimately show ?thesis using that by blast
  qed
qed

text \<open>\<open>RX_Highest_Status\<close> moves to the first SDU from the trigger on that is not received.\<close>

lemma on_expired_reassembly_ok:
  assumes "am_inv s" and "expiry_fresh s"
  obtains ev s' where "on_expired_reassembly_timer s = Inr (ev, s')" and "am_inv s'" and "am_cfg s' = am_cfg s"
    and "set ev \<subseteq> {Status_report_changed}"
    and "am_window s' = am_window s" "rx_next_of s' = rx_next_of s" "next_highest_at s' = next_highest_at s"
    and "\<not> reassembly_timer s \<and> valid_ack_sn s (trigger_of s) \<longrightarrow> do_status s' \<and>
      highest_status_of s' = first_incomplete (am_size s) (am_window s) (rx_next_of s) (next_highest_at s) (trigger_of s)"
proof (cases "reassembly_timer s \<or> \<not> valid_ack_sn s (trigger_of s)")
  case True
  then show ?thesis using that [of "[]" s] assms(1) by (auto simp: on_expired_reassembly_timer_def Let_def)
next
  case False
  let ?z = "am_size s" and ?nh = "next_highest_at s" and ?t = "trigger_of s"
  have ok: "rx_ok s" using am_inv_ok [OF assms(1)] .
  then have set: "settled s" and t: "is_sn ?z ?t" by (simp_all add: rx_ok_def timer_ok_def)
  have fr: "frame s" using set by (simp add: settled_def)
  have le: "dist s ?t \<le> dist s ?nh" and pos: "0 < dist s ?t" using False assms(2) by (auto simp: valid_ack_sn_iff expiry_fresh_def)
  let ?r = "first_incomplete ?z (am_window s) (rx_next_of s) ?nh ?t"
  note f = first_incomplete_spec [OF t le, where w = "am_window s"]
  have W: "dist s ?nh \<le> unat (am_window_size s)" using fr by (simp add: win_frame_def)
  have va: "valid_ack_sn s ?r" using pos f(2,3) W by (simp add: valid_ack_sn_iff)
  have nr: "\<not> sdu_received (am_window s) ?r" using f(4) next_highest_absent [OF fr, of ?r] by fastforce
  let ?s1 = "with_highest_status ?r s"
  have set1: "settled ?s1" using set f nr by (simp add: settled_def status_ok_def with_highest_status_def)
  have p1: "\<not> reassembly_timer ?s1" "is_sn (am_size ?s1) (trigger_of ?s1)" "0 < rac_t_reassembly (am_cfg ?s1)"
    using False t ok by (simp_all add: with_highest_status_def rx_ok_def)
  obtain x y where rs: "restart_reassembly ?s1 = Inr (with_timer x y ?s1)" and tim: "timer_ok (with_timer x y ?s1)"
    using restart_reassembly_ok [OF set1 p1] .
  let ?s2 = "with_timer x y ?s1"
  have same: "am_cfg ?s2 = am_cfg s" "am_window ?s2 = am_window s" "max_nof_sn_per_status_report ?s2 = max_nof_sn_per_status_report s"
    "am_metrics ?s2 = am_metrics s" "status_writer ?s2 = status_writer s" "status_exchange ?s2 = status_exchange s"
    "status_reader ?s2 = status_reader s" "rx_next_of ?s2 = rx_next_of s" "next_highest_at ?s2 = next_highest_at s"
    "highest_status_of ?s2 = ?r"
    by (simp_all add: with_timer_def with_highest_status_def)
  have set2: "settled ?s2" using set1 by simp
  have ok2: "rx_ok ?s2"
    using set2 tim ok limits_ok_cong [OF same(1,3)] unfolding rx_ok_def same by simp
  obtain p where r: "refresh_status_report ?s2 = Inr (?s2\<lparr>status_writer := status_exchange ?s2, status_exchange := p, status_report_size := sp_packed_size p\<rparr>)"
    and p: "report_for ?s2 = Inr p" "status_sized (am_size ?s2) p" using refresh_ok [OF ok2] .
  let ?s3 = "?s2\<lparr>status_writer := status_exchange ?s2, status_exchange := p, status_report_size := sp_packed_size p, do_status := True\<rparr>"
  have ok3: "rx_ok ?s3"
    by (rule rx_ok_cong [OF ok2]) (use p(2) rx_ok_sized [OF ok2] in simp_all)
  have "report_for ?s3 = report_for ?s2" by (rule report_for_same) simp_all
  then have inv3: "am_inv ?s3" using ok3 p(1) by (simp add: am_inv_def report_current_def)
  have e: "on_expired_reassembly_timer s = Inr (notify_status_report_changed ?s3, ?s3)"
    using False va rs r by (simp add: on_expired_reassembly_timer_def Let_def with_highest_status_def [symmetric])
  show ?thesis
    by (rule that [OF e inv3]) (auto simp: same notify_status_report_changed_def)
qed

section \<open>Reachable states\<close>

text \<open>
  The operations other than the reception of PDUs: the TX entity taking a report (and trimming what it took), the
  deferred start of the prohibit timer, the timers and their handlers, stopping, and the collection
  of metrics.
\<close>

inductive am_op :: "rlc_rx_am_entity \<Rightarrow> rlc_am_event list \<Rightarrow> rlc_rx_am_entity \<Rightarrow> bool" where
  step_get_status: "get_status_pdu defer_ok s = (report, s') \<Longrightarrow> am_op s [] s'"
| step_trim: "am_op s [] (s\<lparr>status_reader := snd (status_trim n (status_reader s))\<rparr>)"
| step_deferred: "0 < prohibit_deferred s \<Longrightarrow> am_op s [] (run_prohibit_timer s)"
| step_prohibit: "status_prohibit_timer s \<Longrightarrow>
    on_expired_status_prohibit_timer (s\<lparr>status_prohibit_timer := False\<rparr>) = (ev, s') \<Longrightarrow> am_op s ev s'"
| step_expiry: "reassembly_timer s \<Longrightarrow> am_op s [] (s\<lparr>reassembly_timer := False\<rparr>)"
| step_expired: "expiry_fresh s \<Longrightarrow> on_expired_reassembly_timer s = Inr (ev, s') \<Longrightarrow> am_op s ev s'"
| step_stop: "am_op s [] (am_stop s)"
| step_metrics: "rrm_get_and_reset_metrics (am_metrics s) = Inr (m, m') \<Longrightarrow> am_op s [] (s\<lparr>am_metrics := m'\<rparr>)"

inductive am_reachable :: "rlc_rx_am_config \<Rightarrow> rlc_rx_am_entity \<Rightarrow> bool" for cfg where
  reach_create: "rlc_rx_am_create cfg is_drb en = Inr s \<Longrightarrow> am_reachable cfg s"
| reach_pdu: "am_reachable cfg s \<Longrightarrow> buf_fits (am_size s) buf \<Longrightarrow> am_handle_pdu env buf s = Inr (ev, s') \<Longrightarrow> am_reachable cfg s'"
| reach_op: "am_reachable cfg s \<Longrightarrow> am_op s ev s' \<Longrightarrow> am_reachable cfg s'"

lemma trim_nacks_sized: "sp_sn_size (trim_nacks n p) = sp_sn_size p \<and> sp_mod_nr (trim_nacks n p) = sp_mod_nr p"
proof (induction n p rule: trim_nacks.induct)
  case (1 n p)
  then show ?case by (subst (1 2) trim_nacks.simps) simp
qed

lemma status_trim_sized: "status_sized z p \<Longrightarrow> status_sized z (snd (status_trim n p))"
  using trim_nacks_sized [of n p] by (simp add: status_trim_def status_sized_def)

lemma am_inv_get_status:
  assumes "am_inv s" and "get_status_pdu ok s = (report, s')"
  shows "am_inv s'" and "am_cfg s' = am_cfg s" and "report = status_exchange s" and "\<not> do_status s'"
proof -
  have s': "am_cfg s' = am_cfg s" "am_window s' = am_window s" "am_st s' = am_st s" "reassembly_timer s' = reassembly_timer s"
    "max_nof_sn_per_status_report s' = max_nof_sn_per_status_report s" "am_metrics s' = am_metrics s"
    "status_writer s' = status_writer s" "status_exchange s' = status_reader s" "status_reader s' = status_exchange s" "\<not> do_status s'"
    "report = status_exchange s"
    using assms(2) by (auto simp: get_status_pdu_def Let_def split: if_splits)
  have "rx_ok s'"
    by (rule rx_ok_cong [OF am_inv_ok [OF assms(1)]]) (use s' rx_ok_sized [OF am_inv_ok [OF assms(1)]] in simp_all)
  then show "am_inv s'" "am_cfg s' = am_cfg s" "report = status_exchange s" "\<not> do_status s'" using s' by (simp_all add: am_inv_def)
qed

text \<open>Operations that leave window, state variables and the exchanged report alone.\<close>

lemma am_inv_other:
  assumes "am_inv s" and "am_cfg s' = am_cfg s" "am_window s' = am_window s" "am_st s' = am_st s"
    "max_nof_sn_per_status_report s' = max_nof_sn_per_status_report s" "am_metrics_ok (am_metrics s')"
    "status_writer s' = status_writer s" "status_exchange s' = status_exchange s" "status_sized (am_size s) (status_reader s')"
    "status_report_size s' = status_report_size s" "do_status s' = do_status s" "reassembly_timer s' \<longrightarrow> reassembly_timer s"
  shows "am_inv s'"
proof -
  have "rx_ok s'"
    by (rule rx_ok_cong [OF am_inv_ok [OF assms(1)]]) (use assms rx_ok_sized [OF am_inv_ok [OF assms(1)]] in simp_all)
  moreover have "report_for s' = report_for s" using assms by (intro report_for_same)
  ultimately show ?thesis using am_inv_keep [OF assms(1)] assms by simp
qed

lemma am_op_inv:
  assumes "am_op s ev s'" and "am_inv s"
  shows "am_inv s' \<and> am_cfg s' = am_cfg s"
  using assms
proof (induction rule: am_op.induct)
  case (step_get_status defer_ok s report s')
  then show ?case using am_inv_get_status by metis
next
  case (step_expired s ev s')
  then obtain ev2 s2 where "on_expired_reassembly_timer s = Inr (ev2, s2)" "am_inv s2" "am_cfg s2 = am_cfg s"
    using on_expired_reassembly_ok by metis
  then show ?case using step_expired by simp
next
  case (step_metrics s m m')
  have "rrm_enabled (am_metrics s)"
    using step_metrics(1) by (auto simp: rrm_get_and_reset_metrics_def rrm_get_metrics_def split: if_splits)
  then have "am_metrics_ok m'"
    using step_metrics rrm_get_and_reset_ok [of "am_metrics s"] rx_ok_sized [OF am_inv_ok [OF step_metrics(2)]] by auto
  then show ?case using am_inv_metrics step_metrics by simp
next
  case (step_trim s n)
  show ?case
    by (intro conjI; (rule am_inv_other [of s])?) (use step_trim rx_ok_sized [OF am_inv_ok [OF step_trim]] status_trim_sized in \<open>simp_all\<close>)
next
  case (step_deferred s)
  show ?case
    by (intro conjI; (rule am_inv_other [of s])?) (use step_deferred rx_ok_sized [OF am_inv_ok [OF step_deferred(2)]] in \<open>simp_all add: run_prohibit_timer_def\<close>)
next
  case (step_prohibit s ev s')
  then have "s' = s\<lparr>status_prohibit_timer := False, status_prohibit_flag := False\<rparr>"
    by (simp add: on_expired_status_prohibit_timer_def Let_def)
  note e = this
  show ?case
    by (intro conjI; (rule am_inv_other [of s])?) (use step_prohibit rx_ok_sized [OF am_inv_ok [OF step_prohibit(3)]] step_prohibit(3) e in \<open>simp_all\<close>)
next
  case (step_expiry s)
  show ?case
    by (intro conjI; (rule am_inv_other [of s])?) (use step_expiry rx_ok_sized [OF am_inv_ok [OF step_expiry(2)]] in \<open>simp_all\<close>)
next
  case (step_stop s)
  show ?case
    by (intro conjI; (rule am_inv_other [of s])?) (use step_stop rx_ok_sized [OF am_inv_ok [OF step_stop]] in \<open>simp_all add: am_stop_def\<close>)
qed

lemma am_create_inv:
  assumes "rlc_rx_am_create cfg is_drb en = Inr s" and "0 < rac_t_reassembly cfg"
  shows "am_inv s" and "am_cfg s = cfg"
proof -
  let ?z = "rac_sn_field_length cfg"
  have w: "unat (am_window_size_of ?z) = 2 ^ (am_bits ?z - 1)" by (cases ?z) (simp_all add: am_window_size_of_def)
  let ?w = "\<lparr>win_map = \<lparr>cm_max_size = 2 ^ (am_bits ?z - 1), cm_data = Map.empty, cm_count = 0\<rparr>\<rparr> :: rlc_rx_am_sdu_info sdu_window"
  have cr: "win_create (unat (am_window_size_of ?z)) = Inr ?w" by (simp only: w win_create_pow2)
  have s: "am_cfg s = cfg" "am_window s = ?w" "am_st s = \<lparr>st_next = 0, st_next_status_trigger = 0, st_highest_status = 0, st_next_highest = 0\<rparr>"
    "\<not> do_status s" "\<not> reassembly_timer s" "status_writer s = status_create ?z" "status_reader s = status_create ?z"
    "status_exchange s = (status_create ?z)\<lparr>sp_ack_sn := 0\<rparr>" "am_metrics s = rrm_set_mode Mode_am (rrm_create en)"
    and lim: "limits_ok s"
    using assms(1) am_mod_window [of ?z]
    by (auto simp: rlc_rx_am_create_def cr Let_def seq_run_def limits_ok_def word_less_nat_alt word_le_nat_alt unat_gt_0 [symmetric]
        split: option.splits if_splits simp del: unat_gt_0)
  have z0: "is_sn ?z 0" by (cases ?z) (simp_all add: is_sn_def am_mod_of_def)
  have nf: "win_find ?w k = None" for k by simp
  have "settled s"
    using z0 w by (simp add: settled_def status_ok_def win_frame_def s nf sdu_received_def win_wf_fresh win_width_def)
  then show "am_inv s"
    using z0 assms(2) lim am_metrics_ok_create
    by (simp add: am_inv_def rx_ok_def timer_ok_def infos_ok_def s nf)
      (simp add: status_sized_def status_create_def am_mod_of_def)
  show "am_cfg s = cfg" by (rule s)
qed

lemma am_reachable_inv:
  assumes "am_reachable cfg s" and "0 < rac_t_reassembly cfg"
  shows "am_inv s \<and> am_cfg s = cfg"
  using assms(1)
proof (induction rule: am_reachable.induct)
  case (reach_create is_drb en s)
  then show ?case using am_create_inv assms(2) by blast
next
  case (reach_pdu s buf env ev s')
  then obtain ev2 s2 where "am_handle_pdu env buf s = Inr (ev2, s2)" "am_inv s2" "am_cfg s2 = am_cfg s"
    using am_handle_pdu_ok by metis
  then show ?case using reach_pdu by simp
next
  case (reach_op s ev s')
  then show ?case using am_op_inv by fastforce
qed

end
