(* ===== verification/Rlc_Rx_Am_Delivery.thy ===== *)
theory Rlc_Rx_Am_Delivery
  imports Rlc_Rx_Am_Steps
begin

text \<open>
  What the receiving entity of the acknowledged mode delivers. The peer numbers its SDUs
  0, 1, 2, \<dots>; the SN of a PDU is the number of its SDU modulo the number of SNs. Against any
  loss, duplication, reordering and re-segmentation of the PDUs of SDUs inside the window, every
  SDU below the lower edge of the window was delivered, none was delivered twice, and what was
  delivered is what the peer sent.
\<close>

section \<open>One SDU\<close>

text \<open>A PDU that carries an SDU, or a segment of it.\<close>

definition pdu_of :: "bytes \<Rightarrow> rlc_am_pdu_header \<Rightarrow> bytes \<Rightarrow> bool" where
  "pdu_of sdu h payload \<longleftrightarrow> length sdu \<le> 2 ^ 16 \<and>
     (if ah_si h = Full_sdu then payload = sdu else segment_of sdu (segment_of_header h payload))"

text \<open>The offsets that are held once the PDU is placed.\<close>

definition held :: "rlc_rx_am_sdu_info \<Rightarrow> nat set" where
  "held info = segs_offsets (segments_of info)"

definition held_after :: "rlc_am_pdu_header \<Rightarrow> bytes \<Rightarrow> rlc_rx_am_sdu_info \<Rightarrow> nat set" where
  "held_after h payload info =
     (if ah_si h = Full_sdu then {0..<length payload} else held info \<union> seg_offsets (segment_of_header h payload))"

definition carries :: "bytes \<Rightarrow> rlc_rx_am_sdu_info \<Rightarrow> bool" where
  "carries sdu info \<longleftrightarrow> fully_received info \<or> (\<forall>s \<in> set (segments_of info). segment_of sdu s)"

lemma carries_init: "carries sdu sdu_info_init"
  by (simp add: carries_def segments_of_def sdu_info_init_def)

lemma segments_of_segs_info [simp]: "segments_of (segs_info segs) = segs"
  by (simp add: segments_of_def segs_info_def)

lemma new_info_of:
  assumes "infos_ok w" and "\<not> sdu_received w sn" and "carries sdu (info_at w sn)"
    and "pdu_of sdu h payload" and "payload \<noteq> []"
  defines "info \<equiv> snd (new_info h payload (info_at w sn))"
  shows "fully_received info \<longleftrightarrow> held_after h payload (info_at w sn) = {0..<length sdu}"
    and "fully_received info \<longrightarrow> info_bytes info = sdu"
    and "carries sdu (released info)"
    and "\<not> fully_received info \<longrightarrow> held info = held_after h payload (info_at w sn) \<and>
      (has_gap info \<longleftrightarrow> (\<exists>n k. n \<in> held info \<and> k < n \<and> k \<notin> held info))"
proof -
  let ?i = "info_at w sn"
  have segs: "\<forall>s \<in> set (segments_of ?i). segment_of sdu s"
    using assms(2,3) by (auto simp: carries_def info_at_def sdu_received_def sdu_info_init_def segments_of_def split: option.splits)
  have "(fully_received info \<longleftrightarrow> held_after h payload ?i = {0..<length sdu}) \<and>
    (fully_received info \<longrightarrow> info_bytes info = sdu) \<and> carries sdu (released info) \<and>
    (\<not> fully_received info \<longrightarrow> held info = held_after h payload ?i \<and>
      (has_gap info \<longleftrightarrow> (\<exists>n k. n \<in> held info \<and> k < n \<and> k \<notin> held info)))"
  proof (cases "ah_si h = Full_sdu")
    case True
    then show ?thesis
      using assms(4) by (simp add: info_def new_info_def full_info_def held_after_def pdu_of_def info_bytes_def carries_def released_def)
  next
    case False
    let ?seg = "segment_of_header h payload"
    have seg: "segment_of sdu ?seg" and len: "length sdu \<le> 2 ^ 16" using assms(4) False by (simp_all add: pdu_of_def)
    obtain stored ss where e: "store_loop [] (segments_of ?i) ?seg = (stored, ss)" by fastforce
    have st: "stores (segments_of ?i) ?seg (stored, ss)" and of: "\<forall>s \<in> set ss. segment_of sdu s"
      using store_segments_of [OF segments_of_ok [OF assms(1)] segs seg len] e by simp_all
    have ok: "segs_ok ss" and off: "segs_offsets ss = held_after h payload ?i"
      using st False by (simp_all add: stores_def held_after_def held_def)
    have info: "info = segs_info ss" using False e by (simp add: info_def new_info_def with_segment_def)
    have pos: "unat (0 :: u32) < length sdu" using seg seg_wf_so [OF segment_of_wf [OF seg len]] by (auto simp: segment_of_def)
    note inv = inventory_spec [OF ok of len _ pos, simplified]
    show ?thesis
      using inv off of by (auto simp: info segs_info_def info_bytes_def carries_def released_def held_def segments_of_def)
  qed
  then show "fully_received info \<longleftrightarrow> held_after h payload ?i = {0..<length sdu}"
    and "fully_received info \<longrightarrow> info_bytes info = sdu" and "carries sdu (released info)"
    and "\<not> fully_received info \<longrightarrow> held info = held_after h payload ?i \<and>
      (has_gap info \<longleftrightarrow> (\<exists>n k. n \<in> held info \<and> k < n \<and> k \<notin> held info))"
    by blast+
qed

section \<open>One PDU\<close>

definition sdus_in :: "rlc_am_event list \<Rightarrow> bytes list" where
  "sdus_in ev = concat (map (\<lambda>e. case e of New_sdu x \<Rightarrow> [x] | _ \<Rightarrow> []) ev)"

lemma sdus_in_append [simp]: "sdus_in (xs @ ys) = sdus_in xs @ sdus_in ys"
  by (simp add: sdus_in_def)

lemma sdus_in_notify: "set ev \<subseteq> {Status_report_changed} \<Longrightarrow> sdus_in ev = []"
  by (induction ev) (auto simp: sdus_in_def)

lemma sdus_in_delivered: "sdus_in (if b then delivered_sdu ok info else []) = (if b \<and> ok then [info_bytes info] else [])"
  by (simp add: sdus_in_def delivered_sdu_def)

lemma am_handle_data_accepted:
  fixes h buf s
  defines "payload \<equiv> drop (ah_packed_size h) buf"
  defines "info \<equiv> snd (new_info h payload (info_at (am_window s) (ah_sn h)))"
  assumes "pdu_accepted env buf s h" and "am_inv s" and "buf_fits (am_size s) buf"
  obtains ev s' where "am_handle_data_pdu env buf s = Inr (ev, s')" and "am_inv s'" and "am_cfg s' = am_cfg s"
    and "window_step (ah_sn h) info s s'" and "sdus_in ev = (if fully_received info \<and> env_chain_ok env then [info_bytes info] else [])"
    and "do_status s' \<longleftrightarrow> do_status s \<or> ah_p h \<noteq> 0"
proof -
  obtain changed s1 where b: "am_data_pdu_body env buf s = Inr (if fully_received info then delivered_sdu (env_chain_ok env) info else [], changed, ah_p h \<noteq> 0, s1)"
      "rx_ok s1" "do_status s1 = do_status s" "\<not> changed \<Longrightarrow> do_status s \<Longrightarrow> report_current s1" "am_cfg s1 = am_cfg s" "window_step (ah_sn h) info s s1"
    unfolding info_def payload_def
    by (rule am_data_pdu_body_accepted [OF assms(3-5)]) (rule that [unfolded info_def payload_def])
  have cur: "do_status s1 \<and> \<not> changed \<longrightarrow> report_current s1" using b(3,4) by simp
  obtain ev2 s' where e: "am_on_exit changed (ah_p h \<noteq> 0) s1 = Inr (ev2, s')" "am_inv s'" "set ev2 \<subseteq> {Status_report_changed}"
      "am_cfg s' = am_cfg s1" "am_window s' = am_window s1" "am_st s' = am_st s1" "do_status s' \<longleftrightarrow> do_status s1 \<or> ah_p h \<noteq> 0"
    by (rule am_on_exit_ok [OF b(2) cur]) (rule that)
  have "window_step (ah_sn h) info s s'" using b(6) unfolding window_step_def e(5,6) .
  then show ?thesis
    using that [of "(if fully_received info then delivered_sdu (env_chain_ok env) info else []) @ ev2" s'] b e sdus_in_notify [OF e(3)]
    by (simp add: am_handle_data_pdu_def sdus_in_delivered del: if_split)
qed

lemma am_handle_data_dropped:
  assumes "\<nexists>h. pdu_accepted env buf s h" and "am_inv s"
  obtains ev s' where "am_handle_data_pdu env buf s = Inr (ev, s')" and "am_inv s'" and "am_cfg s' = am_cfg s"
    and "am_window s' = am_window s" "am_st s' = am_st s" and "sdus_in ev = []"
proof -
  obtain requested s1 where b: "am_data_pdu_body env buf s = Inr ([], False, requested, s1)" "am_inv s1" "am_cfg s1 = am_cfg s"
      "am_window s1 = am_window s" "am_st s1 = am_st s"
    by (rule am_data_pdu_body_dropped [OF assms]) (rule that)
  then have ok: "rx_ok s1" and cur: "do_status s1 \<and> \<not> False \<longrightarrow> report_current s1" by (simp_all add: am_inv_def)
  obtain ev s' where e: "am_on_exit False requested s1 = Inr (ev, s')" "am_inv s'" "set ev \<subseteq> {Status_report_changed}"
      "am_cfg s' = am_cfg s1" "am_window s' = am_window s1" "am_st s' = am_st s1"
    by (rule am_on_exit_ok [OF ok cur]) (rule that)
  show ?thesis using that [of ev s'] b e sdus_in_notify [OF e(3)] by (simp add: am_handle_data_pdu_def)
qed

lemma am_op_same:
  assumes "am_op s ev s'" and "am_inv s"
  shows "win_find (am_window s') = win_find (am_window s) \<and> rx_next_of s' = rx_next_of s \<and> sdus_in ev = []"
  using assms
proof (induction rule: am_op.induct)
  case (step_get_status defer_ok s report s')
  then show ?case by (auto simp: get_status_pdu_def Let_def sdus_in_def split: if_splits)
next
  case (step_prohibit s ev s')
  then show ?case by (auto simp: on_expired_status_prohibit_timer_def notify_status_report_changed_def Let_def sdus_in_def)
next
  case (step_expired s ev s')
  obtain ev2 s2 where "on_expired_reassembly_timer s = Inr (ev2, s2)" "set ev2 \<subseteq> {Status_report_changed}"
    "am_window s2 = am_window s" "rx_next_of s2 = rx_next_of s"
    by (rule on_expired_reassembly_ok [OF step_expired(3,1)]) (rule that)
  then show ?case using step_expired(2) sdus_in_notify [of ev2] by simp
qed (simp_all add: sdus_in_def run_prohibit_timer_def am_stop_def)

section \<open>Exactly once\<close>

text \<open>
  A run: the numbers of the SDUs, the log of what was delivered, and the number of the SDU at
  \<open>RX_Next\<close>. Data PDUs are of SDUs from one window below to one window above \<open>RX_Next\<close>, which the
  peer's transmitting window guarantees; buffers are available.
\<close>

inductive am_run :: "rlc_rx_am_config \<Rightarrow> (nat \<Rightarrow> bytes) \<Rightarrow> rlc_rx_am_entity \<Rightarrow> nat \<Rightarrow> bytes list \<Rightarrow> bool" for cfg sdus where
  run_create: "rlc_rx_am_create cfg is_drb en = Inr s \<Longrightarrow> am_run cfg sdus s 0 []"
| run_data: "am_run cfg sdus s B log \<Longrightarrow> env_chain_ok env \<Longrightarrow>
    rlc_am_read_data_pdu_header buf (am_size s) = Some h \<Longrightarrow> ah_sn h = at_dist (am_size s) 0 n \<Longrightarrow>
    B \<le> n + unat (am_window_size s) \<Longrightarrow> n < B + unat (am_window_size s) \<Longrightarrow>
    pdu_of (sdus n) h (drop (ah_packed_size h) buf) \<Longrightarrow>
    am_handle_data_pdu env buf s = Inr (ev, s') \<Longrightarrow> am_run cfg sdus s' (B + dist s (rx_next_of s')) (log @ sdus_in ev)"
| run_bad_pdu: "am_run cfg sdus s B log \<Longrightarrow> rlc_am_read_data_pdu_header buf (am_size s) = None \<Longrightarrow>
    am_handle_data_pdu env buf s = Inr (ev, s') \<Longrightarrow> am_run cfg sdus s' B (log @ sdus_in ev)"
| run_op: "am_run cfg sdus s B log \<Longrightarrow> am_op s ev s' \<Longrightarrow> am_run cfg sdus s' B (log @ sdus_in ev)"

text \<open>What holds of a state, the number at its lower edge, and the numbers of what was delivered.\<close>

definition run_inv :: "(nat \<Rightarrow> bytes) \<Rightarrow> rlc_rx_am_entity \<Rightarrow> nat \<Rightarrow> nat list \<Rightarrow> bool" where
  "run_inv sdus s B D \<longleftrightarrow> rx_next_of s = at_dist (am_size s) 0 B \<and> distinct D \<and>
     (\<forall>n. n \<in> set D \<longleftrightarrow> n < B \<or> (n < B + unat (am_window_size s) \<and> sdu_received (am_window s) (at_dist (am_size s) 0 n))) \<and>
     (\<forall>n. B \<le> n \<and> n < B + unat (am_window_size s) \<longrightarrow> carries (sdus n) (info_at (am_window s) (at_dist (am_size s) 0 n)))"

lemma run_inv_same:
  assumes "run_inv sdus s B D" and "win_find (am_window s') = win_find (am_window s)" "rx_next_of s' = rx_next_of s" "am_cfg s' = am_cfg s"
  shows "run_inv sdus s' B D"
proof -
  have "sdu_received (am_window s') = sdu_received (am_window s)" "info_at (am_window s') = info_at (am_window s)"
    using assms(2) by (simp_all add: sdu_received_def info_at_def fun_eq_iff)
  then show ?thesis using assms unfolding run_inv_def by simp
qed

text \<open>Numbers and distances.\<close>

lemma number_dist:
  assumes "rx_next_of s = at_dist (am_size s) 0 B" and "B \<le> n" and "n < B + unat (am_mod s)"
  shows "dist s (at_dist (am_size s) 0 n) = n - B"
proof -
  have "at_dist (am_size s) 0 n = at_dist (am_size s) (rx_next_of s) (n - B)" using assms(1,2) by (simp add: at_at)
  moreover have "n - B < unat (am_mod s)" using assms(2,3) by linarith
  ultimately show ?thesis by simp
qed

lemma number_dist_below:
  assumes "rx_next_of s = at_dist (am_size s) 0 B" and "n < B" and "B \<le> n + unat (am_window_size s)"
  shows "unat (am_window_size s) \<le> dist s (at_dist (am_size s) 0 n)"
proof -
  let ?m = "unat (am_mod s)"
  have "at_dist (am_size s) 0 n = at_dist (am_size s) 0 (n + ?m)"
    by (simp add: at_dist_def word_unat_eq_iff unat_ring_add)
  also have "dist s \<dots> = n + ?m - B"
    using assms am_mod_window [of "am_size s"] by (intro number_dist) simp_all
  finally show ?thesis using assms am_mod_window [of "am_size s"] by simp
qed

text \<open>An accepted PDU of SDU number \<open>B + i\<close>.\<close>

lemma run_inv_accepted:
  assumes inv: "run_inv sdus s B D" and am: "am_inv s" "am_inv s'" and cfg: "am_cfg s' = am_cfg s"
    and sn: "sn = at_dist (am_size s) 0 n" "B \<le> n" "n < B + unat (am_window_size s)" and new: "\<not> sdu_received (am_window s) sn"
    and step: "window_step sn info s s'" and car: "carries (sdus n) (released info)"
  shows "run_inv sdus s' (B + dist s (rx_next_of s')) (if fully_received info then D @ [n] else D)"
proof -
  let ?z = "am_size s" and ?b = "rx_next_of s" and ?W = "unat (am_window_size s)" and ?m = "unat (am_mod s)"
  have W: "?m = 2 * ?W" using am_mod_window by simp
  have b: "?b = at_dist ?z 0 B" using inv by (simp add: run_inv_def)
  have set: "settled s" "settled s'" using am by (simp_all add: am_inv_def rx_ok_def)
  obtain d where d: "rx_next_of s' = at_dist ?z ?b d" "d \<le> dist s (next_highest_at s')"
    and past: "\<And>i. i < d \<Longrightarrow> (if at_dist ?z ?b i = sn then fully_received info else sdu_received (am_window s) (at_dist ?z ?b i))"
    and find: "\<And>k. is_sn ?z k \<Longrightarrow> win_find (am_window s') k =
           (if dist s k < d then None else if k = sn then Some (released info) else win_find (am_window s) k)"
    and nh: "next_highest_at s' = next_highest_of ?z ?b (next_highest_at s) sn"
    using step by (auto simp: window_step_def Let_def)
  have num: "dist s (at_dist ?z 0 k) = k - B" if "B \<le> k" "k < B + ?m" for k by (rule number_dist [OF b that])
  have at: "at_dist ?z ?b i = at_dist ?z 0 (B + i)" for i by (simp add: b at_at)
  have dn: "dist s sn = n - B" "dist s sn < ?W" using num [of n] sn W by auto
  have "dist s (next_highest_at s) \<le> ?W" using set(1) by (simp add: settled_def win_frame_def)
  then have "dist s (next_highest_at s') \<le> ?W" using away_next_highest [OF dn(2), of "next_highest_at s"] dn nh by simp
  then have dW: "d \<le> ?W" using d(2) by simp
  then have dd: "dist s (rx_next_of s') = d" using d(1) W am_mod_window [of ?z] by simp
  have near: "win_find (am_window s) k \<noteq> None \<Longrightarrow> dist s k < ?W" for k
    using frame_key [of s k] set(1) by (auto simp: settled_def)
  have find': "win_find (am_window s') (at_dist ?z 0 k) =
      (if k < B + d then None else if k = n then Some (released info) else win_find (am_window s) (at_dist ?z 0 k))"
    if "B \<le> k" "k < B + ?m" for k
  proof -
    have "at_dist ?z 0 k = sn \<longleftrightarrow> k = n"
      using num [OF that] num [of n] sn W away_inj [of ?z "at_dist ?z 0 k" sn ?b] that by auto
    moreover have "k - B < d \<longleftrightarrow> k < B + d" using that(1) by linarith
    ultimately show ?thesis using find [of "at_dist ?z 0 k"] num [OF that] by simp
  qed
  have far: "win_find (am_window s) (at_dist ?z 0 k) = None" if "B + ?W \<le> k" "k < B + ?m" for k
    using near [of "at_dist ?z 0 k"] num [of k] that by (cases "win_find (am_window s) (at_dist ?z 0 k)") auto
  have D: "k \<in> set D \<longleftrightarrow> k < B \<or> (k < B + ?W \<and> sdu_received (am_window s) (at_dist ?z 0 k))" for k
    using inv by (simp add: run_inv_def)
  let ?D = "if fully_received info then D @ [n] else D"
  have nD: "n \<notin> set D" using D [of n] sn new by simp
  have "k \<in> set ?D \<longleftrightarrow> k < B + d \<or> (k < B + d + ?W \<and> sdu_received (am_window s') (at_dist ?z 0 k))" for k
  proof -
    consider "k < B" | "B \<le> k" "k < B + d" | "B + d \<le> k" "k < B + d + ?W" | "B + d + ?W \<le> k" by linarith
    then show ?thesis
    proof cases
      case 1
      then show ?thesis using D [of k] by auto
    next
      case 2
      then have "at_dist ?z ?b (k - B) = at_dist ?z 0 k" by (simp add: at)
      moreover have "k < B + ?W" using 2 dW by simp
      moreover have "at_dist ?z 0 k = sn \<longleftrightarrow> k = n"
        using num [of k] num [of n] 2 dW W sn by auto
      moreover have "k - B < d" using 2 by linarith
      ultimately show ?thesis using past [of "k - B"] 2 D [of k] by (auto split: if_splits)
    next
      case 3
      then have k: "B \<le> k" "k < B + ?m" using dW W by simp_all
      have rec: "sdu_received (am_window s') (at_dist ?z 0 k) \<longleftrightarrow> (if k = n then fully_received info else sdu_received (am_window s) (at_dist ?z 0 k))"
        using find' [OF k] 3 by (simp add: sdu_received_def released_def)
      show ?thesis
      proof (cases "k < B + ?W")
        case True
        then show ?thesis using rec D [of k] 3 nD by auto
      next
        case False
        then have "\<not> sdu_received (am_window s) (at_dist ?z 0 k)" "k \<noteq> n" using far [of k] k sn by (auto simp: sdu_received_def)
        then show ?thesis using rec D [of k] 3 False by auto
      qed
    next
      case 4
      then show ?thesis using D [of k] sn by auto
    qed
  qed
  moreover have "carries (sdus k) (info_at (am_window s') (at_dist ?z 0 k))" if "B + d \<le> k" "k < B + d + ?W" for k
  proof -
    have k: "B \<le> k" "k < B + ?m" using that dW W by simp_all
    consider "k = n" | "k \<noteq> n" "k < B + ?W" | "k \<noteq> n" "B + ?W \<le> k" by linarith
    then show ?thesis
    proof cases
      case 1
      then show ?thesis using find' [OF k] that car by (simp add: info_at_def)
    next
      case 2
      then show ?thesis using find' [OF k] that inv k by (simp add: info_at_def run_inv_def)
    next
      case 3
      then show ?thesis using find' [OF k] that far [OF _ k(2)] carries_init by (simp add: info_at_def)
    qed
  qed
  moreover have "rx_next_of s' = at_dist ?z 0 (B + d)" using d(1) at by simp
  moreover have "distinct ?D" using inv nD by (simp add: run_inv_def)
  ultimately show ?thesis using cfg unfolding run_inv_def dd by simp
qed

lemma pdu_of_fits: "rlc_am_read_data_pdu_header buf z = Some h \<Longrightarrow> pdu_of sdu h (drop (ah_packed_size h) buf) \<Longrightarrow> buf_fits z buf"
  by (auto simp: buf_fits_def pdu_of_def segment_of_def segment_of_header_def seg_end_def split: if_splits)

lemma run_inv_data:
  assumes inv: "run_inv sdus s B D" and am: "am_inv s" and ok: "env_chain_ok env"
    and rd: "rlc_am_read_data_pdu_header buf (am_size s) = Some h" and sn: "ah_sn h = at_dist (am_size s) 0 n"
    and near: "B \<le> n + unat (am_window_size s)" "n < B + unat (am_window_size s)"
    and pdu: "pdu_of (sdus n) h (drop (ah_packed_size h) buf)" and step: "am_handle_data_pdu env buf s = Inr (ev, s')"
  shows "am_inv s' \<and> am_cfg s' = am_cfg s \<and> (\<exists>D'. run_inv sdus s' (B + dist s (rx_next_of s')) (D @ D') \<and> sdus_in ev = map sdus D')"
proof (cases "pdu_accepted env buf s h")
  case False
  then have no: "\<nexists>h. pdu_accepted env buf s h" using rd by (auto simp: pdu_accepted_def)
  obtain ev1 s1 where e: "am_handle_data_pdu env buf s = Inr (ev1, s1)" "am_inv s1" "am_cfg s1 = am_cfg s"
      "am_window s1 = am_window s" "am_st s1 = am_st s" "sdus_in ev1 = []"
    by (rule am_handle_data_dropped [OF no am]) (rule that)
  have "run_inv sdus s1 (B + dist s (rx_next_of s1)) D" using run_inv_same [OF inv, of s1] e by simp
  then show ?thesis using e step by (intro conjI exI [of _ "[]"]) auto
next
  case True
  let ?p = "drop (ah_packed_size h) buf"
  let ?i = "info_at (am_window s) (ah_sn h)"
  let ?info = "snd (new_info h ?p ?i)"
  have ins: "dist s (ah_sn h) < unat (am_window_size s)" and new: "\<not> sdu_received (am_window s) (ah_sn h)" and ne: "?p \<noteq> []"
    using True by (auto simp: pdu_accepted_def inside_rx_window_iff)
  have b: "rx_next_of s = at_dist (am_size s) 0 B" using inv by (simp add: run_inv_def)
  have Bn: "B \<le> n" using number_dist_below [OF b, of n] near ins sn by (cases "n < B") auto
  have car: "carries (sdus n) ?i" using inv Bn near sn by (simp add: run_inv_def)
  have io: "infos_ok (am_window s)" using am by (simp add: am_inv_def rx_ok_def)
  note ni = new_info_of [OF io new car pdu ne]
  obtain ev1 s1 where e: "am_handle_data_pdu env buf s = Inr (ev1, s1)" "am_inv s1" "am_cfg s1 = am_cfg s"
      "window_step (ah_sn h) ?info s s1" "sdus_in ev1 = (if fully_received ?info \<and> env_chain_ok env then [info_bytes ?info] else [])"
    by (rule am_handle_data_accepted [OF True am pdu_of_fits [OF rd pdu]]) (rule that)
  have "run_inv sdus s1 (B + dist s (rx_next_of s1)) (if fully_received ?info then D @ [n] else D)"
    by (rule run_inv_accepted [OF inv am e(2,3) sn Bn near(2) new e(4) ni(3)])
  then show ?thesis
    using e step ni(2) ok by (intro conjI exI [of _ "if fully_received ?info then [n] else []"]) auto
qed

lemma am_run_inv:
  assumes "am_run cfg sdus s B log" and "0 < rac_t_reassembly cfg"
  shows "am_inv s \<and> am_cfg s = cfg \<and> (\<exists>D. run_inv sdus s B D \<and> log = map sdus D)"
  using assms(1)
proof (induction rule: am_run.induct)
  case (run_create is_drb en s)
  have i: "am_inv s" "am_cfg s = cfg" using am_create_inv [OF run_create assms(2)] by simp_all
  have s: "am_st s = \<lparr>st_next = 0, st_next_status_trigger = 0, st_highest_status = 0, st_next_highest = 0\<rparr>"
    using run_create by (auto simp: rlc_rx_am_create_def Let_def seq_run_Inr)
  have "is_sn (am_size s) 0" using settled_sn [of s] i(1) s by (simp add: am_inv_def rx_ok_def)
  moreover have "win_find (am_window s) k = None" for k
    using frame_key [of s k] i(1) s by (cases "win_find (am_window s) k") (auto simp: am_inv_def rx_ok_def settled_def)
  ultimately have "run_inv sdus s 0 []"
    using s carries_init by (simp add: run_inv_def sdu_received_def info_at_def)
  then show ?case using i by auto
next
  case (run_data s B log env buf h n ev s')
  then obtain D where am: "am_inv s" "am_cfg s = cfg" and D: "run_inv sdus s B D" "log = map sdus D" by blast
  from run_inv_data [OF D(1) am(1) run_data(2-8)] obtain D' where "am_inv s'" "am_cfg s' = am_cfg s"
    "run_inv sdus s' (B + dist s (rx_next_of s')) (D @ D')" "sdus_in ev = map sdus D'" by blast
  then show ?case using am D(2) by (intro conjI exI [of _ "D @ D'"]) simp_all
next
  case (run_bad_pdu s B log buf env ev s')
  then obtain D where am: "am_inv s" "am_cfg s = cfg" and D: "run_inv sdus s B D" "log = map sdus D" by blast
  have no: "\<nexists>h. pdu_accepted env buf s h" using run_bad_pdu(2) by (auto simp: pdu_accepted_def)
  obtain ev1 s1 where "am_handle_data_pdu env buf s = Inr (ev1, s1)" "am_inv s1" "am_cfg s1 = am_cfg s"
      "am_window s1 = am_window s" "am_st s1 = am_st s" "sdus_in ev1 = []"
    by (rule am_handle_data_dropped [OF no am(1)]) (rule that)
  then show ?case using run_bad_pdu(3) am D run_inv_same [OF D(1), of s1] by auto
next
  case (run_op s B log ev s')
  then obtain D where am: "am_inv s" "am_cfg s = cfg" and D: "run_inv sdus s B D" "log = map sdus D" by blast
  show ?case
    using am_op_inv [OF run_op(2) am(1)] am_op_same [OF run_op(2) am(1)] am D run_inv_same [OF D(1), of s'] by auto
qed

end
