(* ===== verification/Rlc_Rx_Am_Properties.thy ===== *)
theory Rlc_Rx_Am_Properties
  imports Rlc_Rx_Am_Delivery
begin

text \<open>
  Properties of the receiving side of the acknowledged mode, each with a concrete instance: what
  runs deliver, the invariant of the reachable states, what a status report says and how it
  travels, reassembly from segments, and the two inputs on which the entity fails.
\<close>

section \<open>A concrete entity\<close>

definition demo_am_cfg :: "int \<Rightarrow> rlc_rx_am_config" where
  "demo_am_cfg t = \<lparr>rac_sn_field_length = Am12, rac_t_reassembly = t, rac_t_status_prohibit = 0, rac_max_sn_per_status = None\<rparr>"

definition demo_am :: "int \<Rightarrow> rlc_rx_am_entity" where
  "demo_am t = \<lparr>am_cfg = demo_am_cfg t,
     am_st = \<lparr>st_next = 0, st_next_status_trigger = 0, st_highest_status = 0, st_next_highest = 0\<rparr>,
     max_nof_sn_per_status_report = 2048, do_status = False,
     am_window = \<lparr>win_map = \<lparr>cm_max_size = 2 ^ 11, cm_data = Map.empty, cm_count = 0\<rparr>\<rparr>,
     status_writer = status_create Am12, status_exchange = (status_create Am12)\<lparr>sp_ack_sn := 0\<rparr>,
     status_reader = status_create Am12, status_report_size = sp_packed_size (status_create Am12),
     status_prohibit_flag = False, status_prohibit_timer = False, prohibit_deferred = 0,
     reassembly_timer = False, am_is_drb = False, dropped_sns = [],
     am_metrics = rrm_set_mode Mode_am (rrm_create False), am_stopped = False\<rparr>"

lemma demo_am_created: "rlc_rx_am_create (demo_am_cfg t) False False = Inr (demo_am t)"
proof -
  have "unat (am_window_size_of Am12) = 2 ^ 11" by (simp add: am_window_size_of_def)
  then show ?thesis
    by (simp only: rlc_rx_am_create_def demo_am_cfg_def rlc_rx_am_config.simps Let_def win_create_pow2 seq_run_simps option.case)
      (simp add: demo_am_def demo_am_cfg_def am_window_size_of_def)
qed

lemma demo_am_inv: "am_inv (demo_am 35)"
  by (rule am_create_inv [OF demo_am_created]) (simp add: demo_am_cfg_def)

lemma demo_am_simps [simp]:
  "am_cfg (demo_am t) = demo_am_cfg t" "rac_sn_field_length (demo_am_cfg t) = Am12" "rac_t_reassembly (demo_am_cfg t) = t"
  "am_st (demo_am t) = \<lparr>st_next = 0, st_next_status_trigger = 0, st_highest_status = 0, st_next_highest = 0\<rparr>"
  "win_find (am_window (demo_am t)) = (\<lambda>k. None)" "do_status (demo_am t) = False" "reassembly_timer (demo_am t) = False"
  by (simp_all add: demo_am_def demo_am_cfg_def win_find_def fun_eq_iff)

text \<open>A PDU that polls, with the whole SDU of SN 1.\<close>

definition demo_am_pdu :: bytes where
  "demo_am_pdu = [0xc0, 0x01, 0xaa, 0xbb]"

definition demo_am_header :: rlc_am_pdu_header where
  "demo_am_header = \<lparr>ah_dc = Rlc_data, ah_p = 1, ah_si = Full_sdu, ah_sn_size = Am12, ah_sn = 1, ah_so = 0\<rparr>"

lemma demo_am_read: "rlc_am_read_data_pdu_header demo_am_pdu Am12 = Some demo_am_header"
  unfolding demo_am_pdu_def demo_am_header_def by code_simp

lemma demo_am_header_simps [simp]: "ah_packed_size demo_am_header = 2" "ah_sn demo_am_header = 1" "ah_p demo_am_header = 1"
    "ah_si demo_am_header = Full_sdu"
  by (simp_all add: ah_packed_size_def demo_am_header_def rlc_am_pdu_header_min_size_def)

lemma demo_am_accepted: "pdu_accepted am_env_init demo_am_pdu (demo_am t) demo_am_header"
  using demo_am_read
  by (simp add: pdu_accepted_def am_env_init_def inside_rx_window_def rx_mod_base_def mod_base_def sdu_received_def
      am_mod_of_def am_window_size_of_def demo_am_pdu_def)

lemma demo_am_step:
  obtains ev s' where "am_handle_data_pdu am_env_init demo_am_pdu (demo_am 35) = Inr (ev, s')" and "am_inv s'"
    and "am_cfg s' = demo_am_cfg 35" and "sdus_in ev = [[0xaa, 0xbb]]" and "do_status s'"
    and "window_step 1 (full_info [0xaa, 0xbb]) (demo_am 35) s'"
proof -
  have fits: "buf_fits (am_size (demo_am 35)) demo_am_pdu" by (simp add: buf_fits_def demo_am_read)
  have new: "new_info demo_am_header (drop 2 demo_am_pdu) i = (True, full_info [0xaa, 0xbb])" for i
    by (simp add: new_info_def demo_am_pdu_def)
  obtain ev s' where e: "am_handle_data_pdu am_env_init demo_am_pdu (demo_am 35) = Inr (ev, s')" "am_inv s'" "am_cfg s' = am_cfg (demo_am 35)"
      "window_step 1 (full_info [0xaa, 0xbb]) (demo_am 35) s'"
      "sdus_in ev = (if fully_received (full_info [0xaa, 0xbb]) \<and> env_chain_ok am_env_init then [info_bytes (full_info [0xaa, 0xbb])] else [])"
      "do_status s' \<longleftrightarrow> do_status (demo_am 35) \<or> ah_p demo_am_header \<noteq> 0"
    by (rule am_handle_data_accepted [OF demo_am_accepted demo_am_inv fits, unfolded demo_am_header_simps(1,2) new snd_conv]) (rule that)
  show ?thesis
    by (rule that [OF e(1,2)]) (use e in \<open>simp_all add: full_info_def info_bytes_def am_env_init_def\<close>)
qed

section \<open>Runs\<close>

text \<open>C4: Against any loss, duplication, reordering and re-segmentation of the PDUs of SDUs near the
  window, with status reports, timers and garbage in between, the entity delivers the content of
  the peer's SDUs, each of them at most once, all of those below the lower edge of the window, none
  beyond the window; the lower edge is the first SDU that was not delivered, and RX\_Next is its SN.\<close>

theorem am_exactly_once:
  assumes "am_run cfg sdus s B log" and "0 < rac_t_reassembly cfg"
  shows "rx_next_of s = at_dist (rac_sn_field_length cfg) 0 B \<and>
    (\<exists>D. log = map sdus D \<and> distinct D \<and> {..<B} \<subseteq> set D \<and> B \<notin> set D \<and>
      set D \<subseteq> {..<B + unat (am_window_size_of (rac_sn_field_length cfg))})"
proof -
  obtain D where am: "am_inv s" "am_cfg s = cfg" and D: "run_inv sdus s B D" "log = map sdus D"
    using am_run_inv [OF assms] by blast
  have "\<not> sdu_received (am_window s) (rx_next_of s)" using am(1) by (simp add: am_inv_def rx_ok_def settled_def)
  then show ?thesis using D am(2) unfolding run_inv_def by (intro conjI exI [of _ D]) auto
qed

theorem am_exactly_once_witness:
  "\<exists>s B log D. am_run (demo_am_cfg 35) (\<lambda>n. [0xaa, 0xbb]) s B log \<and> log = [[0xaa, 0xbb]] \<and>
    log = map (\<lambda>n. [0xaa, 0xbb]) D \<and> distinct D \<and> {..<B} \<subseteq> set D \<and> B \<notin> set D"
proof -
  let ?sdus = "\<lambda>n :: nat. [0xaa, 0xbb] :: bytes"
  obtain ev s' where e: "am_handle_data_pdu am_env_init demo_am_pdu (demo_am 35) = Inr (ev, s')" "sdus_in ev = [[0xaa, 0xbb]]"
    by (rule demo_am_step) (rule that)
  have r0: "am_run (demo_am_cfg 35) ?sdus (demo_am 35) 0 []" by (rule run_create [OF demo_am_created])
  have sn: "ah_sn demo_am_header = at_dist (am_size (demo_am 35)) 0 1"
    by (simp add: at_dist_def ring_add_def am_mod_of_def)
  have pdu: "pdu_of (?sdus 1) demo_am_header (drop (ah_packed_size demo_am_header) demo_am_pdu)"
    by (simp add: pdu_of_def demo_am_pdu_def)
  have "am_run (demo_am_cfg 35) ?sdus s' (0 + dist (demo_am 35) (rx_next_of s')) ([] @ sdus_in ev)"
    by (rule run_data [OF r0 _ _ sn _ _ pdu e(1)]) (simp_all add: am_env_init_def demo_am_read am_window_size_of_def)
  then have r: "am_run (demo_am_cfg 35) ?sdus s' (dist (demo_am 35) (rx_next_of s')) [[0xaa, 0xbb]]" using e(2) by simp
  have t: "0 < rac_t_reassembly (demo_am_cfg 35)" by simp
  from conjunct2 [OF am_exactly_once [OF r t]] obtain D where D: "[[0xaa, 0xbb]] = map ?sdus D" "distinct D"
    "{..<dist (demo_am 35) (rx_next_of s')} \<subseteq> set D" "dist (demo_am 35) (rx_next_of s') \<notin> set D"
    by (elim exE conjE) (rule that)
  show ?thesis by (intro exI conjI) (rule r refl D)+
qed



section \<open>Status reports\<close>

lemma status_report_exact_parts:
  assumes "am_reachable cfg s" and "0 < rac_t_reassembly cfg" and "do_status s" and "get_status_pdu defer_ok s = (report, s')"
    and "is_sn (am_size s) sn" and "k < 2 ^ 16"
    and "\<forall>info. win_find (am_window s) sn = Some info \<longrightarrow> segs_end 0 (segments_of info) < 2 ^ 16"
  shows "of_nat (length (status_pack report)) = get_status_pdu_length s"
    and "status_unpack (status_pack report) (status_create (am_size s)) = (True, report)"
    and "dist s (sp_ack_sn report) = min (dist s (highest_status_of s)) (unat (max_nof_sn_per_status_report s))"
    and "asks_for (report_missing report) sn k \<longleftrightarrow> dist s sn < dist s (sp_ack_sn report) \<and> byte_missing (am_window s) sn k"
proof -
  have am: "am_inv s" using am_reachable_inv [OF assms(1,2)] by simp
  then have set: "settled s" and inf: "infos_ok (am_window s)" and lim: "limits_ok s" by (simp_all add: am_inv_def rx_ok_def)
  have cur: "report_for s = Inr report" "get_status_pdu_length s = sp_packed_size report"
    using am assms(3) am_inv_get_status(3) [OF am assms(4)] by (simp_all add: am_inv_def report_current_def get_status_pdu_length_def)
  from report_for_ok [OF set inf lim] cur(1) obtain ok: "report_ok (am_size s) report" and ack: "sp_ack_sn report = report_stop_sn s"
    and mis: "report_missing report = missing_between (am_size s) (am_window s) (rx_next_of s) 0 (dist s (report_stop_sn s))" by auto
  have wf: "status_wf report" "sp_sn_size report = am_size s" using ok by (simp_all add: report_ok_def)
  then have mod: "sp_mod_nr report = am_mod s" by (simp add: status_wf_def am_mod_of_def)
  show "of_nat (length (status_pack report)) = get_status_pdu_length s" using status_pack_length [OF wf(1)] cur(2) by simp
  have "unat (sp_ack_sn report) < 2 ^ am_bits (am_size s)"
    using report_stop(2) [OF set lim] ack by (simp add: is_sn_bits [symmetric])
  then show "status_unpack (status_pack report) (status_create (am_size s)) = (True, report)"
    using wf mod by (intro status_unpack_pack) (simp_all add: status_create_def am_mod_of_def)
  show "dist s (sp_ack_sn report) = min (dist s (highest_status_of s)) (unat (max_nof_sn_per_status_report s))"
    unfolding ack by (rule report_stop(1) [OF set lim])
  show "asks_for (report_missing report) sn k \<longleftrightarrow> dist s sn < dist s (sp_ack_sn report) \<and> byte_missing (am_window s) sn k"
    unfolding mis ack
    using asks_for_between [OF assms(5)] missing_of_bytes [OF inf assms(6,7)] less_imp_le [OF away_less] by simp
qed

text \<open>C6: In a reachable state that owes a status report, the report that the TX side gets has the
  announced size, is decoded by the peer as it was built, acknowledges up to RX\_Highest\_Status or the
  configured number of SNs, and asks for exactly the bytes of the SDUs before its ACK\_SN that were not
  received.\<close>

theorem status_report_exact:
  assumes "am_reachable cfg s" and "0 < rac_t_reassembly cfg" and "do_status s" and "get_status_pdu defer_ok s = (report, s')"
    and "is_sn (am_size s) sn" and "k < 2 ^ 16"
    and "\<forall>info. win_find (am_window s) sn = Some info \<longrightarrow> segs_end 0 (segments_of info) < 2 ^ 16"
  shows "(of_nat (length (status_pack report)) = get_status_pdu_length s) \<and>
    (status_unpack (status_pack report) (status_create (am_size s)) = (True, report)) \<and>
    (dist s (sp_ack_sn report) = min (dist s (highest_status_of s)) (unat (max_nof_sn_per_status_report s))) \<and>
    (asks_for (report_missing report) sn k \<longleftrightarrow> dist s sn < dist s (sp_ack_sn report) \<and> byte_missing (am_window s) sn k)"
  by (intro conjI status_report_exact_parts [OF assms])

theorem status_report_exact_witness:
  "\<exists>s report s'. am_reachable (demo_am_cfg 35) s \<and> do_status s \<and> get_status_pdu True s = (report, s') \<and>
    status_unpack (status_pack report) (status_create (am_size s)) = (True, report) \<and>
    (asks_for (report_missing report) 0 7 \<longleftrightarrow> dist s 0 < dist s (sp_ack_sn report) \<and> byte_missing (am_window s) 0 7)"
proof -
  have dc: "demo_am_pdu \<noteq> []" "\<not> is_control_pdu demo_am_pdu" by (simp_all add: demo_am_pdu_def) code_simp
  have met: "(demo_am 35)\<lparr>am_metrics := rrm_add_pdus 1 (length demo_am_pdu) (am_metrics (demo_am 35))\<rparr> = demo_am 35"
    by (simp add: demo_am_def rrm_add_pdus_def rrm_create_def rrm_set_mode_def)
  obtain ev s where e: "am_handle_data_pdu am_env_init demo_am_pdu (demo_am 35) = Inr (ev, s)" "do_status s" "am_cfg s = demo_am_cfg 35"
      "window_step 1 (full_info [0xaa, 0xbb]) (demo_am 35) s"
    by (rule demo_am_step) (rule that)
  have h: "am_handle_pdu am_env_init demo_am_pdu (demo_am 35) = Inr (ev, s)"
    unfolding am_handle_pdu_def met Let_def using dc e(1) by simp
  have fits: "buf_fits (am_size (demo_am 35)) demo_am_pdu" by (simp add: buf_fits_def demo_am_read)
  have r: "am_reachable (demo_am_cfg 35) s" by (rule reach_pdu [OF reach_create [OF demo_am_created] fits h])
  obtain report s' where g: "get_status_pdu True s = (report, s')" by fastforce
  have z: "is_sn Am12 0" by (simp add: is_sn_def am_mod_of_def)
  have "dist (demo_am 35) 0 = 0" by (simp add: away_def mod_base_def)
  then have "win_find (am_window s) 0 = None" using e(4) z by (auto simp: window_step_def)
  then have f: "\<forall>info. win_find (am_window s) 0 = Some info \<longrightarrow> segs_end 0 (segments_of info) < 2 ^ 16" by simp
  have z': "is_sn (am_size s) 0" using z e(3) by simp
  show ?thesis
    using status_report_exact [OF r _ e(2) g z' _ f, of 7] r e(2) g by auto
qed

lemma push_nack_refines_parts:
  assumes "status_wf p" and "nack_ok (sp_sn_size p) n" and "sn_nack_ok (sp_mod_nr p) n"
    and "\<forall>x \<in> set (sp_nacks p). sn_nack_ok (sp_mod_nr p) x"
  shows "report_missing (push_nack n p) = report_missing p @ nack_missing (sp_mod_nr p) n"
    and "status_wf (push_nack n p)" and "of_nat (length (status_pack (push_nack n p))) = sp_packed_size (push_nack n p)"
proof -
  have "ring_size (sp_mod_nr p)" using assms(1) by (simp add: status_wf_def ring_size_am)
  from push_nack_missing(1) [OF this assms(4,3)]
  show "report_missing (push_nack n p) = report_missing p @ nack_missing (sp_mod_nr p) n" by (simp add: report_missing_def)
  show "status_wf (push_nack n p)" by (rule status_wf_push [OF assms(1,2)])
  then show "of_nat (length (status_pack (push_nack n p))) = sp_packed_size (push_nack n p)" by (rule status_pack_length)
qed

text \<open>C26: Adding a NACK to a status PDU adds exactly the missing ranges it denotes, also when it is merged
  into the range of the NACK before it; the status PDU stays well formed, with the packed size that its
  encoding has, and no two neighbouring NACKs can be merged.\<close>

theorem push_nack_refines:
  assumes "status_wf p" and "nack_ok (sp_sn_size p) n" and "sn_nack_ok (sp_mod_nr p) n"
    and "\<forall>x \<in> set (sp_nacks p). sn_nack_ok (sp_mod_nr p) x"
  shows "(report_missing (push_nack n p) = report_missing p @ nack_missing (sp_mod_nr p) n) \<and>
    status_wf (push_nack n p) \<and> of_nat (length (status_pack (push_nack n p))) = sp_packed_size (push_nack n p)"
  by (intro conjI push_nack_refines_parts [OF assms])

theorem push_nack_refines_witness:
  "report_missing (push_nack (nack_init\<lparr>nack_sn := 4095\<rparr>) (status_create Am12)) = [(4095, 0, 0xffff)] \<and>
   report_missing (push_nack (nack_init\<lparr>nack_sn := 0, has_so := True, so_end := 9\<rparr>)
     (push_nack (nack_init\<lparr>nack_sn := 4095\<rparr>) (status_create Am12))) = [(4095, 0, 0xffff), (0, 0, 9)]"
proof -
  let ?n1 = "nack_init\<lparr>nack_sn := 4095\<rparr>" and ?n2 = "nack_init\<lparr>nack_sn := 0, has_so := True, so_end := 9\<rparr>"
  let ?p0 = "status_create Am12"
  have p0: "sp_sn_size ?p0 = Am12" "sp_mod_nr ?p0 = 4096" "sp_nacks ?p0 = []" by (simp_all add: status_create_def)
  have n: "nack_ok Am12 ?n1" "nack_ok Am12 ?n2" "sn_nack_ok 4096 ?n1" "sn_nack_ok 4096 ?n2"
    by (simp_all add: nack_ok_def nack_init_def sn_nack_ok_def nack_count_def so_end_of_sdu_def)
  have m: "nack_missing 4096 ?n1 = [(4095, 0, 0xffff)]" "nack_missing 4096 ?n2 = [(0, 0, 9)]"
    by (simp_all add: nack_missing_def nack_init_def nack_count_def ring_add_def so_end_of_sdu_def)
  have 1: "report_missing (push_nack ?n1 ?p0) = [(4095, 0, 0xffff)]" "status_wf (push_nack ?n1 ?p0)"
    using push_nack_refines [of ?p0 ?n1] status_wf_create n m p0 by simp_all
  have ok: "\<forall>x \<in> set (sp_nacks (push_nack ?n1 ?p0)). sn_nack_ok 4096 x"
    using p0 n by (simp add: push_nack_def)
  show ?thesis using push_nack_refines [of "push_nack ?n1 ?p0" ?n2] 1 ok n m p0 by simp
qed

lemma trim_fits_parts:
  assumes "status_wf p" and "3 \<le> limit"
  shows "fst (status_trim limit p)" and "sp_packed_size (snd (status_trim limit p)) \<le> limit"
    and "of_nat (length (status_pack (snd (status_trim limit p)))) = sp_packed_size (snd (status_trim limit p))"
    and "\<exists>ns dropped. sp_nacks p = ns @ dropped \<and> sp_nacks (snd (status_trim limit p)) = ns \<and>
      sp_ack_sn (snd (status_trim limit p)) = (case dropped of [] \<Rightarrow> sp_ack_sn p | d # _ \<Rightarrow> nack_sn d) \<and>
      (dropped \<noteq> [] \<and> ns \<noteq> [] \<longrightarrow> nack_sn (last ns) \<noteq> sp_ack_sn (snd (status_trim limit p)))"
proof -
  have lim: "status_header_size \<le> limit" using assms(2) by (simp add: status_header_size_def)
  have e: "snd (status_trim limit p) = (if sp_packed_size p \<le> limit then p else trim_nacks limit p)"
    using lim by (auto simp: status_trim_def)
  show "fst (status_trim limit p)" using lim by (auto simp: status_trim_def)
  have size: "sp_packed_size p = nacks_size (sp_sn_size p) (sp_nacks p)" using assms(1) by (simp add: status_wf_def)
  from trim_nacks_spec [OF size lim] obtain ns dropped where d: "sp_nacks p = ns @ dropped"
    "trim_nacks limit p = p\<lparr>sp_nacks := ns, sp_packed_size := nacks_size (sp_sn_size p) ns,
        sp_ack_sn := (case dropped of [] \<Rightarrow> sp_ack_sn p | d # _ \<Rightarrow> nack_sn d)\<rparr>"
    "nacks_size (sp_sn_size p) ns \<le> limit" "ns \<noteq> [] \<longrightarrow> nack_sn (last ns) \<noteq> sp_ack_sn (trim_nacks limit p)" by blast
  show "sp_packed_size (snd (status_trim limit p)) \<le> limit" using e d by auto
  have "unmergeable (sp_mod_nr p) ns" "\<forall>n \<in> set ns. nack_ok (sp_sn_size p) n"
    using assms(1) d(1) by (auto simp: status_wf_def unmergeable_def successively_append_iff)
  then have "status_wf (trim_nacks limit p)" using assms(1) unfolding d(2) by (simp add: status_wf_def)
  then show "of_nat (length (status_pack (snd (status_trim limit p)))) = sp_packed_size (snd (status_trim limit p))"
    unfolding e using status_pack_length assms(1) by simp
  show "\<exists>ns dropped. sp_nacks p = ns @ dropped \<and> sp_nacks (snd (status_trim limit p)) = ns \<and>
      sp_ack_sn (snd (status_trim limit p)) = (case dropped of [] \<Rightarrow> sp_ack_sn p | d # _ \<Rightarrow> nack_sn d) \<and>
      (dropped \<noteq> [] \<and> ns \<noteq> [] \<longrightarrow> nack_sn (last ns) \<noteq> sp_ack_sn (snd (status_trim limit p)))"
  proof (cases "sp_packed_size p \<le> limit")
    case True
    then show ?thesis unfolding e by (intro exI [of _ "sp_nacks p"] exI [of _ "[]"]) simp
  next
    case False
    then show ?thesis unfolding e using d by (intro exI [of _ ns] exI [of _ dropped]) simp
  qed
qed

text \<open>C32: Trimming a status PDU to a size that holds the header leaves a prefix of its NACKs that fits, with
  the matching packed size; ACK\_SN becomes the SN of the first NACK that was dropped, and the last NACK
  that is left has another SN.\<close>

theorem trim_fits:
  assumes "status_wf p" and "3 \<le> limit"
  shows "fst (status_trim limit p) \<and> sp_packed_size (snd (status_trim limit p)) \<le> limit \<and>
    (of_nat (length (status_pack (snd (status_trim limit p)))) = sp_packed_size (snd (status_trim limit p))) \<and>
    (\<exists>ns dropped. sp_nacks p = ns @ dropped \<and> sp_nacks (snd (status_trim limit p)) = ns \<and>
      sp_ack_sn (snd (status_trim limit p)) = (case dropped of [] \<Rightarrow> sp_ack_sn p | d # _ \<Rightarrow> nack_sn d) \<and>
      (dropped \<noteq> [] \<and> ns \<noteq> [] \<longrightarrow> nack_sn (last ns) \<noteq> sp_ack_sn (snd (status_trim limit p))))"
  by (intro conjI trim_fits_parts [OF assms])

theorem trim_fits_witness:
  "let p = push_nack (nack_init\<lparr>nack_sn := 9\<rparr>) ((status_create Am12)\<lparr>sp_ack_sn := 20\<rparr>) in
   fst (status_trim 4 p) \<and> sp_packed_size (snd (status_trim 4 p)) \<le> 4"
proof -
  have "status_wf ((status_create Am12)\<lparr>sp_ack_sn := 20\<rparr>)" by (intro status_wf_ack status_wf_create)
  then have "status_wf (push_nack (nack_init\<lparr>nack_sn := 9\<rparr>) ((status_create Am12)\<lparr>sp_ack_sn := 20\<rparr>))"
    by (rule status_wf_push) (simp add: status_create_def nack_ok_def nack_init_def)
  then show ?thesis using trim_fits [of _ 4] unfolding Let_def by simp
qed

section \<open>Reassembly\<close>

text \<open>Storing segments one by one, as \<open>handle_segment_data_sdu\<close> does with the SDU of one SN.\<close>

fun receive_segments :: "rlc_rx_am_sdu_segment list \<Rightarrow> rlc_rx_am_sdu_info \<Rightarrow> rlc_rx_am_sdu_info run" where
  "receive_segments [] info = Inr info"
| "receive_segments (s # ss) info =
     seq_run (update_segment_inventory (snd (store_segment info s))) (receive_segments ss)"

definition segs_of_sdu :: "bytes \<Rightarrow> rlc_rx_am_sdu_segment list \<Rightarrow> bool" where
  "segs_of_sdu sdu ss \<longleftrightarrow> segs_ok ss \<and> (\<forall>s \<in> set ss. segment_of sdu s)"

lemma receive_segments_ok:
  assumes "segs_of_sdu sdu (segments_of info)" and "\<forall>s \<in> set ss. segment_of sdu s" and "length sdu \<le> 2 ^ 16" and "ss \<noteq> []"
  shows "\<exists>segs. receive_segments ss info = Inr (segs_info segs) \<and> segs_of_sdu sdu segs \<and>
    segs_offsets segs = segs_offsets (segments_of info) \<union> segs_offsets ss"
  using assms
proof (induction ss arbitrary: info)
  case (Cons s ss)
  obtain stored segs where e: "store_loop [] (segments_of info) s = (stored, segs)" by fastforce
  have s: "segment_of sdu s" using Cons.prems(2) by simp
  have ok: "segs_ok (segments_of info)" "\<forall>s \<in> set (segments_of info). segment_of sdu s"
    using Cons.prems(1) by (simp_all add: segs_of_sdu_def)
  have segs: "segs_of_sdu sdu segs" "segs_offsets segs = segs_offsets (segments_of info) \<union> seg_offsets s"
    using store_segments_of [OF ok s Cons.prems(3)] unfolding e by (simp_all add: segs_of_sdu_def stores_def)
  have u: "update_segment_inventory (snd (store_segment info s)) = Inr (segs_info segs)"
    using store_then_inventory [of info s "fst (store_segment info s)" "snd (store_segment info s)"] e
    by (simp add: with_segment_def)
  show ?case
  proof (cases "ss = []")
    case True
    then show ?thesis using u segs by auto
  next
    case False
    have "segs_of_sdu sdu (segments_of (segs_info segs))" using segs(1) by simp
    from Cons.IH [OF this _ Cons.prems(3) False] show ?thesis using Cons.prems(2) u segs(2) by (auto simp: Un_assoc)
  qed
qed simp

text \<open>C25: Segments of one SDU that arrive in any order, with any overlaps and repetitions, never fail; the SDU
  counts as received exactly when the segments cover all its bytes, then it is reassembled to what was
  sent, and otherwise the entity knows whether a byte before a received one is missing.\<close>

theorem segments_reassemble:
  assumes "\<forall>s \<in> set ss. segment_of sdu s" and "ss \<noteq> []" and "length sdu \<le> 2 ^ 16"
  shows "\<exists>info. receive_segments ss sdu_info_init = Inr info \<and>
    (fully_received info \<longleftrightarrow> segs_offsets ss = {0..<length sdu}) \<and>
    reassemble_sdu True info = (if segs_offsets ss = {0..<length sdu} then Some sdu else None) \<and>
    (has_gap info \<longleftrightarrow> (\<exists>n k. n \<in> segs_offsets ss \<and> k < n \<and> k \<notin> segs_offsets ss))"
proof -
  have i: "segs_of_sdu sdu (segments_of sdu_info_init)" by (simp add: segs_of_sdu_def segments_of_def sdu_info_init_def)
  from receive_segments_ok [OF i assms(1,3,2)]
  obtain segs where r: "receive_segments ss sdu_info_init = Inr (segs_info segs)" "segs_ok segs" "\<forall>s \<in> set segs. segment_of sdu s"
    and off: "segs_offsets segs = segs_offsets ss"
    by (auto simp: segs_of_sdu_def segments_of_def sdu_info_init_def)
  have "0 < length sdu" using assms(1,2) by (cases ss) (auto simp: segment_of_def)
  then have "fst (inventory 0 segs) \<longleftrightarrow> segs_offsets ss = {0..<length sdu}"
    "snd (inventory 0 segs) \<longleftrightarrow> (\<exists>n k. n \<in> segs_offsets ss \<and> k < n \<and> k \<notin> segs_offsets ss)"
    "fst (inventory 0 segs) \<longrightarrow> concat (map seg_payload segs) = sdu"
    using inventory_spec [OF r(2,3) assms(3), of 0] off by auto
  then show ?thesis using r(1) by (auto simp: segs_info_def reassemble_sdu_def)
qed

theorem segments_reassemble_witness:
  "\<exists>info. receive_segments [\<lparr>seg_si = Last_segment, seg_so = 1, seg_payload = [2, 3]\<rparr>,
     \<lparr>seg_si = First_segment, seg_so = 0, seg_payload = [1, 2]\<rparr>] sdu_info_init = Inr info \<and> reassemble_sdu True info = Some [1, 2, 3]"
proof -
  let ?ss = "[\<lparr>seg_si = Last_segment, seg_so = 1, seg_payload = [2, 3]\<rparr>, \<lparr>seg_si = First_segment, seg_so = 0, seg_payload = [1, 2]\<rparr>]"
  have s: "\<forall>s \<in> set ?ss. segment_of [1, 2, 3] s" by (simp add: segment_of_def seg_end_def)
  have o: "segs_offsets ?ss = {0..<length [1 :: u8, 2, 3]}" by (auto simp: seg_offsets_def seg_end_def)
  show ?thesis using segments_reassemble [OF s] unfolding o by auto
qed

section \<open>Faults\<close>

text \<open>Three segments of which the last reaches beyond offset 65535.\<close>

definition wrap_segments :: "rlc_rx_am_sdu_segment list" where
  "wrap_segments =
     [\<lparr>seg_si = Middle_segment, seg_so = 3, seg_payload = [0]\<rparr>,
      \<lparr>seg_si = Middle_segment, seg_so = 65530, seg_payload = replicate 6 0\<rparr>,
      \<lparr>seg_si = Middle_segment, seg_so = 65531, seg_payload = replicate 10 0\<rparr>]"

definition wrapped_info :: rlc_rx_am_sdu_info where
  "wrapped_info = \<lparr>fully_received = False, has_gap = True, sdu_data = Sdu_segment_set
     [\<lparr>seg_si = Middle_segment, seg_so = 0, seg_payload = replicate 5 0\<rparr>,
      \<lparr>seg_si = Middle_segment, seg_so = 3, seg_payload = [0]\<rparr>,
      \<lparr>seg_si = Middle_segment, seg_so = 65530, seg_payload = replicate 6 0\<rparr>]\<rparr>"

lemma wrap_segments_stored: "receive_segments wrap_segments sdu_info_init = Inr wrapped_info"
  by (simp add: wrap_segments_def wrapped_info_def sdu_info_init_def store_segment_def update_segment_inventory_def
      last_byte_def advance_to_def segment_less_def)

lemma wrapped_report_sn: "win_find w sn = Some wrapped_info \<Longrightarrow> report_sn w sn p = Inl Bad_argument"
  by (simp add: report_sn_def wrapped_info_def nack_init_def)

text \<open>A segment whose end lies beyond offset 65535 is not rejected, and trimming an overlap wraps its offset
  around: after the three segments the stored ones overlap, and the next status report that covers their
  SN fails the assertion on the offsets of its NACK.\<close>

theorem so_wrap_faults:
  assumes "receive_segments wrap_segments sdu_info_init = Inr info" and "win_find (am_window s) (rx_next_of s) = Some info"
    and "rx_mod_base s (rx_next_of s) < rx_mod_base s (report_stop_sn s)"
  shows "\<not> fully_received info \<and> refresh_status_report s = Inl Bad_argument"
proof -
  have info: "info = wrapped_info" using assms(1) wrap_segments_stored by simp
  then have "report_sn (am_window s) (rx_next_of s) p = Inl Bad_argument" for p
    using wrapped_report_sn assms(2) by simp
  then show ?thesis
    using assms(3) unfolding refresh_status_report_def Let_def
    by (subst report_loop.simps) (simp add: rx_mod_base_def info wrapped_info_def)
qed

definition wrapped_am :: rlc_rx_am_entity where
  "wrapped_am = (demo_am 35)\<lparr>am_window := win_put 0 wrapped_info (am_window (demo_am 35)),
     am_st := \<lparr>st_next = 0, st_next_status_trigger = 1, st_highest_status = 1, st_next_highest = 1\<rparr>\<rparr>"

theorem so_wrap_faults_witness: "refresh_status_report wrapped_am = Inl Bad_argument"
proof -
  have "win_find (am_window wrapped_am) (rx_next_of wrapped_am) = Some wrapped_info"
    by (simp add: wrapped_am_def demo_am_def win_find_def win_put_def cm_find_def cm_overwrite_def
      cm_insert_def cm_contains_def get_circular_idx_def)
  moreover have "rx_mod_base wrapped_am (rx_next_of wrapped_am) < rx_mod_base wrapped_am (report_stop_sn wrapped_am)"
    by (simp add: wrapped_am_def rx_mod_base_def report_stop_sn_def mod_base_def am_mod_of_def demo_am_def demo_am_cfg_def)
  ultimately show ?thesis using so_wrap_faults [OF wrap_segments_stored] by blast
qed

text \<open>A t-Reassembly of zero, which the configuration may have.\<close>

lemma start_without_timer:
  assumes "settled s" and "\<not> reassembly_timer s" and "rac_t_reassembly (am_cfg s) \<le> 0" and "1 < dist s (next_highest_at s)"
  shows "start_reassembly s = Inl Bad_argument"
proof -
  have one: "dist s (rx_next_of s + 1) = 1" using dist_plus_1 [of s] settled_sn [OF assms(1)] by simp
  have "rx_mod_base s (rx_next_of s + 1) < rx_mod_base s (next_highest_at s)"
    "rx_mod_base s (next_highest_at s) \<noteq> rx_mod_base s (rx_next_of s + 1)"
    using one assms(4) by (simp_all add: rx_mod_base_iffs)
  then show ?thesis using assms(2,3) by (simp add: start_reassembly_def run_reassembly_timer_def Let_def)
qed

text \<open>With a t-Reassembly of zero milliseconds the timer is never set but still run: while the timer is
  not running, the first accepted PDU whose SN is not RX\_Next fails an assertion.\<close>

theorem zero_reassembly_faults:
  assumes "settled s" and "infos_ok (am_window s)" and "timer_ok s" and "\<not> reassembly_timer s"
    and "rac_t_reassembly (am_cfg s) \<le> 0" and "pdu_accepted env buf s h" and "buf_fits (am_size s) buf" and "ah_sn h \<noteq> rx_next_of s"
  shows "am_handle_data_pdu env buf s = Inl Bad_argument"
proof -
  let ?p = "drop (ah_packed_size h) buf" and ?b = "rx_next_of s"
  have rd: "rlc_am_read_data_pdu_header buf (am_size s) = Some h" and nh: "\<not> fst (test_hook env (ah_sn h) s)"
    and len: "ah_packed_size h < length buf" and ins: "inside_rx_window s (ah_sn h)" and new: "\<not> sdu_received (am_window s) (ah_sn h)"
    using assms(6) by (simp_all add: pdu_accepted_def)
  have hook: "test_hook env (ah_sn h) s = (False, s)" using nh by (auto simp: test_hook_def split: if_splits)
  have sn: "is_sn (am_size s) (ah_sn h)" "dist s (ah_sn h) < unat (am_window_size s)"
    using read_header_sn(1) [OF rd] ins by (simp_all add: inside_rx_window_iff)
  have b: "is_sn (am_size s) ?b" using settled_sn [OF assms(1)] by simp
  have fits: "pdu_fits h ?p" using assms(7) rd len by (auto simp: buf_fits_def pdu_fits_def)
  obtain s1 s2 changed ev where h1: "(if ah_si h = Full_sdu then handle_full_data_sdu h ?p s else handle_segment_data_sdu h ?p s) = Inr (changed, s1)"
    and c: "complete_sdu (env_chain_ok env) (ah_sn h) (update_next_highest (ah_sn h) s1) = Inr (ev, s2)"
    and s2: "settled s2" "rx_only s s2" "window_step (ah_sn h) (snd (new_info h ?p (info_at (am_window s) (ah_sn h)))) s s2"
      "reassembly_timer s2 = reassembly_timer s"
    by (rule placed_and_completed [OF assms(1,2,3) sn new fits]) (rule that)
  have cfg: "am_cfg s2 = am_cfg s" using s2(2) by (rule rx_only_fields)
  obtain d where d: "rx_next_of s2 = at_dist (am_size s) ?b d"
    and past: "\<forall>n < d. let k = at_dist (am_size s) ?b n in
        if k = ah_sn h then fully_received (snd (new_info h ?p (info_at (am_window s) (ah_sn h)))) else sdu_received (am_window s) k"
    using s2(3) by (auto simp: window_step_def)
  have "d = 0"
  proof (rule ccontr)
    assume "d \<noteq> 0"
    then show False using past [rule_format, of 0] b assms(1,8) by (auto simp: Let_def settled_def)
  qed
  then have next2: "rx_next_of s2 = ?b" using d b by simp
  have "at_dist (am_size s) ?b (dist s (ah_sn h)) \<noteq> at_dist (am_size s) ?b 0" using assms(8) sn(1) b by simp
  then have "dist s (ah_sn h) \<noteq> 0" by metis
  then have "1 < dist s2 (next_highest_at s2)"
    using s2(3) away_next_highest [OF sn(2), of "next_highest_at s"] next2 cfg by (simp add: window_step_def)
  from start_without_timer [OF s2(1) _ _ this] have st: "start_reassembly s2 = Inl Bad_argument"
    using s2(4) assms(4,5) cfg by simp
  have "stop_reassembly s2 = Inr s2" using s2(4) assms(4) by (simp add: stop_reassembly_def)
  then have "place_pdu env h ?p s = Inl Bad_argument" using h1 c st by (simp add: place_pdu_def)
  then show ?thesis using rd hook len ins new by (simp add: am_handle_data_pdu_def am_data_pdu_body_def Let_def)
qed

lemma demo_am_zero: "settled (demo_am 0)" "infos_ok (am_window (demo_am 0))" "timer_ok (demo_am 0)"
proof -
  have same: "am_window (demo_am 0) = am_window (demo_am 35)" "am_st (demo_am 0) = am_st (demo_am 35)" "am_size (demo_am 0) = am_size (demo_am 35)"
    by (simp_all add: demo_am_def demo_am_cfg_def)
  have "settled (demo_am 35)" "infos_ok (am_window (demo_am 35))" "timer_ok (demo_am 35)"
    using demo_am_inv by (simp_all add: am_inv_def rx_ok_def)
  then show "settled (demo_am 0)" "infos_ok (am_window (demo_am 0))" "timer_ok (demo_am 0)"
    using same by (simp_all add: settled_def status_ok_def timer_ok_def)
qed

theorem zero_reassembly_faults_witness: "am_handle_data_pdu am_env_init demo_am_pdu (demo_am 0) = Inl Bad_argument"
  by (rule zero_reassembly_faults [OF demo_am_zero _ _ demo_am_accepted]) (simp_all add: buf_fits_def demo_am_read)

end
