(* ===== verification/Rlc_Sdu_Queue.thy ===== *)
theory Rlc_Sdu_Queue
  imports Prelude "HOL-Library.Multiset"
begin

text \<open>
  The queue of SDUs of an RLC TX entity, \<open>lib/rlc/rlc_sdu_queue_lockfree.h\<close>. The underlying bounded
  single-producer single-consumer queue is a list; the atomics are the sequential operations. Per
  PDCP SN modulo the capacity there is a slot with the SN of the SDU in the queue, or a mark that the
  SDU was discarded; a discarded SDU stays in the underlying queue until it is read. The locale
  \<open>sdu_fifo\<close> is what the TX entities rely on: a first-in first-out queue of the SDUs that were not
  discarded, with their number and size.
\<close>

record rlc_sdu =
  sdu_buf :: bytes
  sdu_is_retx :: bool
  sdu_pdcp_sn :: "u32 option"
  sdu_toa :: nat   \<comment> \<open>\<open>time_of_arrival\<close>\<close>

section \<open>The interface\<close>

locale sdu_fifo =
  fixes sdus :: "'q \<Rightarrow> rlc_sdu list"
    and offer :: "rlc_sdu \<Rightarrow> 'q \<Rightarrow> bool \<times> 'q"
    and forget :: "u32 \<Rightarrow> 'q \<Rightarrow> bool \<times> 'q"
    and take_next :: "'q \<Rightarrow> rlc_sdu option \<times> 'q"
    and look :: "'q \<Rightarrow> rlc_sdu option \<times> 'q"
    and totals :: "'q \<Rightarrow> u32 \<times> u32"
    and sane :: "u32 \<Rightarrow> bool"
    and qok :: "'q \<Rightarrow> bool"
  assumes offer_sdus: "qok q \<Longrightarrow> (\<And>sn. sdu_pdcp_sn s = Some sn \<Longrightarrow> sane sn) \<Longrightarrow>
      qok (snd (offer s q)) \<and> sdus (snd (offer s q)) = (if fst (offer s q) then sdus q @ [s] else sdus q)"
    and forget_sdus: "qok q \<Longrightarrow> sane sn \<Longrightarrow> qok (snd (forget sn q)) \<and>
      sdus (snd (forget sn q)) = filter (\<lambda>s. sdu_pdcp_sn s \<noteq> Some sn) (sdus q) \<and>
      (fst (forget sn q) \<longleftrightarrow> (\<exists>s \<in> set (sdus q). sdu_pdcp_sn s = Some sn))"
    and take_sdus: "qok q \<Longrightarrow> qok (snd (take_next q)) \<and>
      (case sdus q of [] \<Rightarrow> fst (take_next q) = None \<and> sdus (snd (take_next q)) = []
       | s # ss \<Rightarrow> fst (take_next q) = Some s \<and> sdus (snd (take_next q)) = ss)"
    and look_sdus: "qok q \<Longrightarrow> qok (snd (look q)) \<and> sdus (snd (look q)) = sdus q \<and>
      fst (look q) = (case sdus q of [] \<Rightarrow> None | s # _ \<Rightarrow> Some s)"
    and totals_sdus: "qok q \<Longrightarrow> totals q = (of_nat (length (sdus q)), of_nat (sum_list (map (\<lambda>s. length (sdu_buf s)) (sdus q))))"
begin

lemma take_after_look: "qok q \<Longrightarrow> fst (look q) = fst (take_next q)"
  using look_sdus [of q] take_sdus [of q] by (cases "sdus q") auto

lemma forget_twice: "qok q \<Longrightarrow> sane sn \<Longrightarrow> \<not> fst (forget sn (snd (forget sn q)))"
  using forget_sdus [of q sn] forget_sdus [of "snd (forget sn q)" sn] by auto

lemma forgotten_not_taken:
  "qok q \<Longrightarrow> sane sn \<Longrightarrow> fst (take_next (snd (forget sn q))) = Some s \<Longrightarrow> sdu_pdcp_sn s \<noteq> Some sn"
  using forget_sdus [of q sn] take_sdus [of "snd (forget sn q)"]
  by (cases "sdus (snd (forget sn q))") (auto dest: Cons_eq_filterD)

end

section \<open>The implementation\<close>

record rlc_sdu_queue =
  sq_capacity :: u32
  sq_byte_limit :: u32
  sq_state :: "64 word"
  sq_queue :: "rlc_sdu list"
  sq_states :: "u32 list"
  sq_sizes :: "nat list"

definition state_free :: u32 where
  "state_free = 0xffffffff"

definition state_discarded :: u32 where
  "state_discarded = 0xfffffffe"

definition sq_create :: "u32 \<Rightarrow> u32 \<Rightarrow> rlc_sdu_queue" where
  "sq_create capacity byte_limit =
     \<lparr>sq_capacity = capacity, sq_byte_limit = byte_limit, sq_state = 0, sq_queue = [],
      sq_states = replicate (unat capacity) state_free, sq_sizes = replicate (unat capacity) 0\<rparr>"

text \<open>The number of SDUs and of bytes that are not discarded, packed into one word.\<close>

definition sq_get_state :: "rlc_sdu_queue \<Rightarrow> u32 \<times> u32" where
  "sq_get_state q = (ucast (drop_bit 32 (sq_state q)), ucast (sq_state q AND 0xffffffff))"

definition state_change :: "u32 \<Rightarrow> 64 word" where
  "state_change sdu_size = push_bit 32 1 OR ucast sdu_size"

definition state_add :: "u32 \<Rightarrow> rlc_sdu_queue \<Rightarrow> rlc_sdu_queue" where
  "state_add sdu_size q = q\<lparr>sq_state := sq_state q + state_change sdu_size\<rparr>"

definition state_sub :: "u32 \<Rightarrow> rlc_sdu_queue \<Rightarrow> rlc_sdu_queue" where
  "state_sub sdu_size q = q\<lparr>sq_state := sq_state q - state_change sdu_size\<rparr>"

definition slot :: "rlc_sdu_queue \<Rightarrow> u32 \<Rightarrow> nat" where
  "slot q pdcp_sn = unat (pdcp_sn mod sq_capacity q)"

definition sq_push :: "rlc_sdu \<Rightarrow> rlc_sdu_queue \<Rightarrow> bool \<times> rlc_sdu_queue" where
  "sq_push sdu q =
     (if length (sq_queue q) < unat (sq_capacity q) then (True, q\<lparr>sq_queue := sq_queue q @ [sdu]\<rparr>) else (False, q))"

definition sq_write :: "rlc_sdu \<Rightarrow> rlc_sdu_queue \<Rightarrow> bool \<times> rlc_sdu_queue" where
  "sq_write sdu q =
     (if unat (sq_byte_limit q) \<le> length (sdu_buf sdu) + unat (snd (sq_get_state q)) then (False, q)
      else
        let size = length (sdu_buf sdu) in
        case sdu_pdcp_sn sdu of
          None \<Rightarrow>
            (let (pushed, q) = sq_push sdu q in
             if pushed then (True, state_add (of_nat size) q) else (False, q))
        | Some sn \<Rightarrow>
            if sq_states q ! slot q sn \<noteq> state_free then (False, q)
            else
              let q = q\<lparr>sq_sizes := (sq_sizes q)[slot q sn := size], sq_states := (sq_states q)[slot q sn := sn]\<rparr>;
                  (pushed, q) = sq_push sdu q in
              if pushed then (True, state_add (of_nat size) q)
              else (False, q\<lparr>sq_states := (sq_states q)[slot q sn := state_free]\<rparr>))"

definition sq_try_discard :: "u32 \<Rightarrow> rlc_sdu_queue \<Rightarrow> bool \<times> rlc_sdu_queue" where
  "sq_try_discard pdcp_sn q =
     (if sq_states q ! slot q pdcp_sn = pdcp_sn
      then (True, state_sub (of_nat (sq_sizes q ! slot q pdcp_sn))
             (q\<lparr>sq_states := (sq_states q)[slot q pdcp_sn := state_discarded]\<rparr>))
      else (False, q))"

definition check_and_release :: "u32 \<Rightarrow> rlc_sdu_queue \<Rightarrow> bool \<times> rlc_sdu_queue" where
  "check_and_release pdcp_sn q =
     (let sdu_size = of_nat (sq_sizes q ! slot q pdcp_sn);
          old_state = sq_states q ! slot q pdcp_sn;
          q = q\<lparr>sq_states := (sq_states q)[slot q pdcp_sn := state_free]\<rparr> in
      if old_state \<noteq> pdcp_sn \<and> old_state = state_discarded then (False, q)
      else (old_state = pdcp_sn, state_sub sdu_size q))"

definition sq_check :: "u32 \<Rightarrow> rlc_sdu_queue \<Rightarrow> bool" where
  "sq_check pdcp_sn q \<longleftrightarrow> sq_states q ! slot q pdcp_sn = pdcp_sn"

text \<open>The loop of \<open>read\<close> over the elements that are left, and the loop of \<open>front\<close>.\<close>

fun read_from :: "rlc_sdu list \<Rightarrow> rlc_sdu_queue \<Rightarrow> rlc_sdu option \<times> rlc_sdu_queue" where
  "read_from [] q = (None, q\<lparr>sq_queue := []\<rparr>)"
| "read_from (sdu # rest) q =
     (let q = q\<lparr>sq_queue := rest\<rparr> in
      case sdu_pdcp_sn sdu of
        None \<Rightarrow> (Some sdu, state_sub (of_nat (length (sdu_buf sdu))) q)
      | Some sn \<Rightarrow>
          (let (sdu_is_valid, q) = check_and_release sn q in
           if sdu_is_valid then (Some sdu, q) else read_from rest q))"

definition sq_read :: "rlc_sdu_queue \<Rightarrow> rlc_sdu option \<times> rlc_sdu_queue" where
  "sq_read q = read_from (sq_queue q) q"

fun front_from :: "rlc_sdu list \<Rightarrow> rlc_sdu_queue \<Rightarrow> rlc_sdu option \<times> rlc_sdu_queue" where
  "front_from [] q = (None, q)"
| "front_from (sdu # rest) q =
     (case sdu_pdcp_sn sdu of
        None \<Rightarrow> (Some sdu, q)
      | Some sn \<Rightarrow>
          if sq_check sn q then (Some sdu, q)
          else
            let (sdu_is_valid, q) = check_and_release sn (q\<lparr>sq_queue := rest\<rparr>) in
            if sdu_is_valid then (None, q) else front_from rest q)"

definition sq_front :: "rlc_sdu_queue \<Rightarrow> rlc_sdu option \<times> rlc_sdu_queue" where
  "sq_front q = front_from (sq_queue q) q"

definition sq_is_empty :: "rlc_sdu_queue \<Rightarrow> bool" where
  "sq_is_empty q \<longleftrightarrow> sq_queue q = []"

definition sq_is_full :: "rlc_sdu_queue \<Rightarrow> bool" where
  "sq_is_full q \<longleftrightarrow> unat (sq_capacity q) \<le> length (sq_queue q)"

section \<open>The SDUs that are not discarded\<close>

definition sdu_valid :: "rlc_sdu_queue \<Rightarrow> rlc_sdu \<Rightarrow> bool" where
  "sdu_valid q s \<longleftrightarrow> (case sdu_pdcp_sn s of None \<Rightarrow> True | Some sn \<Rightarrow> sq_check sn q)"

definition sq_sdus :: "rlc_sdu_queue \<Rightarrow> rlc_sdu list" where
  "sq_sdus q = filter (sdu_valid q) (sq_queue q)"

definition sdu_bytes :: "rlc_sdu list \<Rightarrow> nat" where
  "sdu_bytes ss = sum_list (map (\<lambda>s. length (sdu_buf s)) ss)"

definition sn_sane :: "u32 \<Rightarrow> bool" where
  "sn_sane sn \<longleftrightarrow> sn \<noteq> state_free \<and> sn \<noteq> state_discarded"

text \<open>An element with an SN owns its slot.\<close>

definition slot_owner :: "rlc_sdu_queue \<Rightarrow> rlc_sdu \<Rightarrow> nat option" where
  "slot_owner q s = map_option (slot q) (sdu_pdcp_sn s)"

definition owns :: "rlc_sdu_queue \<Rightarrow> rlc_sdu \<Rightarrow> bool" where
  "owns q s \<longleftrightarrow> (\<forall>sn. sdu_pdcp_sn s = Some sn \<longrightarrow> sn_sane sn \<and>
     sq_states q ! slot q sn \<in> {sn, state_discarded} \<and> sq_sizes q ! slot q sn = length (sdu_buf s))"

definition slots_apart :: "rlc_sdu_queue \<Rightarrow> rlc_sdu list \<Rightarrow> bool" where
  "slots_apart q = sorted_wrt (\<lambda>s t. slot_owner q s = None \<or> slot_owner q s \<noteq> slot_owner q t)"

definition sq_ok :: "rlc_sdu_queue \<Rightarrow> bool" where
  "sq_ok q \<longleftrightarrow> 0 < sq_capacity q \<and> length (sq_states q) = unat (sq_capacity q) \<and> length (sq_sizes q) = unat (sq_capacity q) \<and>
     length (sq_queue q) \<le> unat (sq_capacity q) \<and> (\<forall>s \<in> set (sq_queue q). owns q s) \<and> slots_apart q (sq_queue q) \<and>
     (\<forall>i < unat (sq_capacity q). sq_states q ! i \<noteq> state_free \<longrightarrow> Some i \<in> slot_owner q ` set (sq_queue q)) \<and>
     sdu_bytes (sq_sdus q) \<le> unat (sq_byte_limit q) \<and>
     sq_state q = of_nat (length (sq_sdus q) * 2 ^ 32 + sdu_bytes (sq_sdus q))"

lemma slot_less: "0 < sq_capacity q \<Longrightarrow> slot q sn < unat (sq_capacity q)"
  unfolding slot_def by (metis unat_mono word_mod_less_divisor)

lemma slot_cong [simp]:
  "slot (q\<lparr>sq_states := x\<rparr>) = slot q" "slot (q\<lparr>sq_sizes := y\<rparr>) = slot q" "slot (q\<lparr>sq_queue := z\<rparr>) = slot q"
  "slot (q\<lparr>sq_state := v\<rparr>) = slot q" "slot (state_add n q) = slot q" "slot (state_sub n q) = slot q"
  by (simp_all add: slot_def state_add_def state_sub_def fun_eq_iff)

lemma state_change_nat: "state_change n = of_nat (2 ^ 32 + unat n)"
proof -
  have "push_bit 32 1 AND (ucast n :: 64 word) = 0"
    by (rule bit_word_eqI) (use bit_imp_le_length [of n] in \<open>unfold bit_and_iff bit_push_bit_iff bit_unsigned_iff; fastforce\<close>)
  then have "state_change n = push_bit 32 1 + ucast n"
    unfolding state_change_def by (simp add: disjunctive_add_eq_or)
  then show ?thesis by (simp add: push_bit_eq_mult)
qed

lemma sq_get_state_nat:
  assumes "sq_state q = of_nat (n * 2 ^ 32 + b)" and "n < 2 ^ 32" and "b < 2 ^ 32"
  shows "sq_get_state q = (of_nat n, of_nat b)"
proof -
  have "n * 2 ^ 32 + b < 2 ^ LENGTH(64)" using assms(2,3) by simp
  then have u: "unat (sq_state q) = n * 2 ^ 32 + b" unfolding assms(1) unsigned_of_nat by (simp only: take_bit_nat_eq_self of_nat_id)
  have "ucast (drop_bit 32 (sq_state q)) = (of_nat n :: u32)"
    by (rule word_unat_eq_iff [THEN iffD2])
      (use assms(2,3) u in \<open>simp add: unsigned_ucast_eq unat_drop_bit_eq drop_bit_eq_div unsigned_of_nat take_bit_eq_mod unat_div\<close>)
  moreover have "ucast (sq_state q AND mask 32) = (of_nat b :: u32)"
    by (rule word_unat_eq_iff [THEN iffD2])
      (use assms(3) u in \<open>simp add: take_bit_eq_mask [symmetric] unsigned_ucast_eq unsigned_take_bit_eq take_bit_eq_mod unsigned_of_nat unat_mod\<close>)
  moreover have "(0xffffffff :: 64 word) = mask 32" by (simp add: mask_eq_exp_minus_1)
  ultimately show ?thesis unfolding sq_get_state_def by simp
qed

section \<open>Changes of one slot\<close>

lemma slot_owner_cong:
  assumes "sq_capacity q' = sq_capacity q"
  shows "slot q' = slot q" and "slot_owner q' = slot_owner q"
proof -
  from assms have "slot q' = slot q" by (intro ext) (simp add: slot_def)
  then show "slot q' = slot q" "slot_owner q' = slot_owner q" by (intro ext; simp add: slot_owner_def)+
qed

text \<open>\<open>q'\<close> agrees with \<open>q\<close> outside of slot \<open>i\<close>.\<close>

definition same_but :: "nat \<Rightarrow> rlc_sdu_queue \<Rightarrow> rlc_sdu_queue \<Rightarrow> bool" where
  "same_but i q q' \<longleftrightarrow> sq_capacity q' = sq_capacity q \<and> sq_byte_limit q' = sq_byte_limit q \<and>
     length (sq_states q') = length (sq_states q) \<and> length (sq_sizes q') = length (sq_sizes q) \<and>
     (\<forall>j. j \<noteq> i \<longrightarrow> sq_states q' ! j = sq_states q ! j \<and> sq_sizes q' ! j = sq_sizes q ! j)"

lemma same_but_element:
  assumes "same_but i q q'" and "slot_owner q s \<noteq> Some i"
  shows "owns q' s = owns q s" and "sdu_valid q' s = sdu_valid q s"
proof -
  have c: "slot q' = slot q" using assms(1) by (intro slot_owner_cong) (simp add: same_but_def)
  have "sdu_pdcp_sn s = Some sn \<Longrightarrow> slot q sn \<noteq> i" for sn using assms(2) by (simp add: slot_owner_def)
  then show "owns q' s = owns q s" "sdu_valid q' s = sdu_valid q s"
    using assms(1) c by (auto simp: owns_def sdu_valid_def sq_check_def same_but_def split: option.splits)
qed

lemma same_but_filter:
  assumes "same_but i q q'" and "Some i \<notin> slot_owner q ` set ss"
  shows "filter (sdu_valid q') ss = filter (sdu_valid q) ss"
proof (rule filter_cong [OF refl])
  fix s assume "s \<in> set ss"
  then have "slot_owner q s \<noteq> Some i" using assms(2) by (metis image_eqI)
  then show "sdu_valid q' s = sdu_valid q s" by (rule same_but_element(2) [OF assms(1)])
qed

lemma sdu_bytes_simps [simp]:
  "sdu_bytes [] = 0" "sdu_bytes (s # ss) = length (sdu_buf s) + sdu_bytes ss" "sdu_bytes (ss @ ts) = sdu_bytes ss + sdu_bytes ts"
  by (simp_all add: sdu_bytes_def)

lemma sq_ok_totals:
  assumes "sq_ok q"
  shows "length (sq_sdus q) < 2 ^ 32" and "sdu_bytes (sq_sdus q) < 2 ^ 32"
    and "sq_get_state q = (of_nat (length (sq_sdus q)), of_nat (sdu_bytes (sq_sdus q)))"
proof -
  have u: "unat (x :: u32) < 2 ^ 32" for x using unsigned_less [where 'a = nat, of x] by simp
  have "length (sq_sdus q) \<le> length (sq_queue q)" unfolding sq_sdus_def by (rule length_filter_le)
  also have "\<dots> \<le> unat (sq_capacity q)" using assms by (simp add: sq_ok_def)
  finally show n: "length (sq_sdus q) < 2 ^ 32" using u by (rule order.strict_trans1)
  have "sdu_bytes (sq_sdus q) \<le> unat (sq_byte_limit q)" using assms by (simp add: sq_ok_def)
  then show b: "sdu_bytes (sq_sdus q) < 2 ^ 32" using u by (rule order.strict_trans1)
  show "sq_get_state q = (of_nat (length (sq_sdus q)), of_nat (sdu_bytes (sq_sdus q)))"
    by (rule sq_get_state_nat [OF _ n b]) (use assms in \<open>simp add: sq_ok_def\<close>)
qed

lemma sq_create_ok: "0 < capacity \<Longrightarrow> sq_ok (sq_create capacity limit)" "sq_sdus (sq_create capacity limit) = []"
  by (simp_all add: sq_ok_def sq_create_def sq_sdus_def slots_apart_def)

section \<open>Writing\<close>

lemma state_change_of_nat:
  assumes "len < 2 ^ 32"
  shows "state_change (of_nat len) = of_nat (2 ^ 32 + len)"
proof -
  have "unat (of_nat len :: u32) = len" using assms by (simp add: unsigned_of_nat take_bit_eq_mod)
  then show ?thesis unfolding state_change_nat by (simp only:)
qed

lemma state_add_word:
  assumes "sq_state q = of_nat (n * 2 ^ 32 + b)" and "len < 2 ^ 32"
  shows "sq_state (state_add (of_nat len) q) = of_nat ((n + 1) * 2 ^ 32 + (b + len))"
proof -
  have "(n + 1) * 2 ^ 32 + (b + len) = (n * 2 ^ 32 + b) + (2 ^ 32 + len)" by simp
  moreover have "sq_state (state_add (of_nat len) q) = sq_state q + of_nat (2 ^ 32 + len)"
    unfolding state_add_def state_change_of_nat [OF assms(2)] by simp
  ultimately show ?thesis by (simp only: assms(1) of_nat_add)
qed

lemma state_sub_word:
  assumes "sq_state q = of_nat ((n + 1) * 2 ^ 32 + (b + len))" and "len < 2 ^ 32"
  shows "sq_state (state_sub (of_nat len) q) = of_nat (n * 2 ^ 32 + b)"
proof -
  have "(n + 1) * 2 ^ 32 + (b + len) = (n * 2 ^ 32 + b) + (2 ^ 32 + len)" by simp
  then have "sq_state q = of_nat (n * 2 ^ 32 + b) + of_nat (2 ^ 32 + len)" using assms(1) by (simp only: of_nat_add)
  moreover have "sq_state (state_sub (of_nat len) q) = sq_state q - of_nat (2 ^ 32 + len)"
    unfolding state_sub_def state_change_of_nat [OF assms(2)] by simp
  ultimately show ?thesis by (simp only: add_diff_cancel_right')
qed

lemma state_fields [simp]:
  "sq_capacity (state_add n q) = sq_capacity q" "sq_byte_limit (state_add n q) = sq_byte_limit q"
  "sq_queue (state_add n q) = sq_queue q" "sq_states (state_add n q) = sq_states q" "sq_sizes (state_add n q) = sq_sizes q"
  "sq_capacity (state_sub n q) = sq_capacity q" "sq_byte_limit (state_sub n q) = sq_byte_limit q"
  "sq_queue (state_sub n q) = sq_queue q" "sq_states (state_sub n q) = sq_states q" "sq_sizes (state_sub n q) = sq_sizes q"
  by (simp_all add: state_add_def state_sub_def)

lemma no_owner_of_free:
  assumes "sq_ok q" and "sq_states q ! i = state_free"
  shows "Some i \<notin> slot_owner q ` set (sq_queue q)"
proof
  assume "Some i \<in> slot_owner q ` set (sq_queue q)"
  then obtain s where s: "s \<in> set (sq_queue q)" "slot_owner q s = Some i" by force
  then obtain sn where sn: "sdu_pdcp_sn s = Some sn" "slot q sn = i" by (auto simp: slot_owner_def)
  have "owns q s" using assms(1) s(1) by (simp add: sq_ok_def)
  then show False using sn assms(2) by (auto simp: owns_def sn_sane_def state_free_def state_discarded_def)
qed

text \<open>Everything but the totals, for a queue to which an element is added.\<close>

lemma sq_ok_push:
  assumes ok: "sq_ok q" and i: "same_but i q q'" and no: "Some i \<notin> slot_owner q ` set (sq_queue q)"
    and queue: "sq_queue q' = sq_queue q @ [s]" "length (sq_queue q) < unat (sq_capacity q)"
    and own: "owns q' s" "sdu_valid q' s" "slot_owner q s \<in> {None, Some i}"
    and slot_i: "i < unat (sq_capacity q) \<longrightarrow> sq_states q' ! i \<noteq> state_free \<longrightarrow> slot_owner q s = Some i"
    and total: "sdu_bytes (sq_sdus q) + length (sdu_buf s) \<le> unat (sq_byte_limit q)"
      "sq_state q' = of_nat ((length (sq_sdus q) + 1) * 2 ^ 32 + (sdu_bytes (sq_sdus q) + length (sdu_buf s)))"
  shows "sq_ok q' \<and> sq_sdus q' = sq_sdus q @ [s]"
proof -
  have c: "sq_capacity q' = sq_capacity q" "sq_byte_limit q' = sq_byte_limit q" "length (sq_states q') = length (sq_states q)"
    "length (sq_sizes q') = length (sq_sizes q)" using i by (simp_all add: same_but_def)
  have o: "slot_owner q' = slot_owner q" by (rule slot_owner_cong(2) [OF c(1)])
  have sd: "sq_sdus q' = sq_sdus q @ [s]"
    using same_but_filter [OF i no] own(2) by (simp add: sq_sdus_def queue)
  have "\<forall>t \<in> set (sq_queue q). owns q' t" using ok same_but_element(1) [OF i] no by (auto simp: sq_ok_def image_iff)
  moreover have "slots_apart q' (sq_queue q')"
    using ok own(3) no by (auto simp: slots_apart_def o queue sorted_wrt_append sq_ok_def image_iff)
  moreover have "\<forall>j < unat (sq_capacity q). sq_states q' ! j \<noteq> state_free \<longrightarrow> Some j \<in> slot_owner q ` set (sq_queue q')"
  proof (intro allI impI)
    fix j assume j: "j < unat (sq_capacity q)" "sq_states q' ! j \<noteq> state_free"
    show "Some j \<in> slot_owner q ` set (sq_queue q')"
    proof (cases "j = i")
      case True
      then show ?thesis using j slot_i queue by simp
    next
      case False
      then have "sq_states q ! j \<noteq> state_free" using i j by (simp add: same_but_def)
      then show ?thesis using ok j queue by (simp add: sq_ok_def)
    qed
  qed
  ultimately have "sq_ok q'" using ok own(1) queue total unfolding sq_ok_def sd o c by simp
  then show ?thesis using sd by simp
qed

lemma sq_ok_same:
  assumes ok: "sq_ok q" and i: "same_but i q q'" and free: "sq_states q ! i = state_free" "sq_states q' ! i = state_free"
    and "sq_queue q' = sq_queue q" "sq_state q' = sq_state q"
  shows "sq_ok q' \<and> sq_sdus q' = sq_sdus q"
proof -
  have no: "Some i \<notin> slot_owner q ` set (sq_queue q)" by (rule no_owner_of_free [OF ok free(1)])
  have c: "sq_capacity q' = sq_capacity q" "sq_byte_limit q' = sq_byte_limit q" "length (sq_states q') = length (sq_states q)"
    "length (sq_sizes q') = length (sq_sizes q)" using i by (simp_all add: same_but_def)
  have o: "slot_owner q' = slot_owner q" by (rule slot_owner_cong(2) [OF c(1)])
  have sd: "sq_sdus q' = sq_sdus q" using same_but_filter [OF i no] assms(5) by (simp add: sq_sdus_def)
  have "\<forall>t \<in> set (sq_queue q). owns q' t" using ok same_but_element(1) [OF i] no by (auto simp: sq_ok_def image_iff)
  moreover have "slots_apart q' (sq_queue q)" using ok by (simp add: slots_apart_def o sq_ok_def)
  moreover have "\<forall>j < unat (sq_capacity q). sq_states q' ! j \<noteq> state_free \<longrightarrow> Some j \<in> slot_owner q ` set (sq_queue q)"
    using ok i free by (auto simp: sq_ok_def same_but_def)
  ultimately have "sq_ok q'" using ok assms(5,6) unfolding sq_ok_def sd o c by simp
  then show ?thesis using sd by simp
qed

lemma no_owner_outside:
  assumes "0 < sq_capacity q"
  shows "Some (unat (sq_capacity q)) \<notin> slot_owner q ` ss"
  using slot_less [OF assms] by (auto simp: slot_owner_def eq_commute [of "Some _"] map_option_eq_Some) (metis nat_less_le)

lemma same_but_fields:
  "sq_capacity q' = sq_capacity q \<Longrightarrow> sq_byte_limit q' = sq_byte_limit q \<Longrightarrow> sq_states q' = sq_states q \<Longrightarrow>
   sq_sizes q' = sq_sizes q \<Longrightarrow> same_but i q q'"
  by (simp add: same_but_def)

lemma write_spec:
  assumes ok: "sq_ok q" and sane: "\<And>sn. sdu_pdcp_sn s = Some sn \<Longrightarrow> sn_sane sn"
  shows "sq_ok (snd (sq_write s q)) \<and> sq_sdus (snd (sq_write s q)) = (if fst (sq_write s q) then sq_sdus q @ [s] else sq_sdus q)"
proof (cases "unat (sq_byte_limit q) \<le> length (sdu_buf s) + unat (snd (sq_get_state q))")
  case True
  then show ?thesis using ok by (simp add: sq_write_def)
next
  case False
  have cap: "0 < sq_capacity q" using ok by (simp add: sq_ok_def)
  have "unat (snd (sq_get_state q)) = sdu_bytes (sq_sdus q)"
    using sq_ok_totals(2,3) [OF ok] by (simp add: unsigned_of_nat take_bit_eq_mod)
  then have total: "sdu_bytes (sq_sdus q) + length (sdu_buf s) \<le> unat (sq_byte_limit q)" using False by simp
  have "unat (sq_byte_limit q) < 2 ^ 32" using unsigned_less [where 'a = nat, of "sq_byte_limit q"] by simp
  then have len: "length (sdu_buf s) < 2 ^ 32" using total by (rule order.strict_trans1 [rotated, OF _ order_trans [OF le_add2]])
  have st: "sq_state q = of_nat (length (sq_sdus q) * 2 ^ 32 + sdu_bytes (sq_sdus q))" using ok by (simp add: sq_ok_def)
  show ?thesis
  proof (cases "sdu_pdcp_sn s")
    case None
    let ?q = "q\<lparr>sq_queue := sq_queue q @ [s]\<rparr>"
    have w: "sq_write s q = (if length (sq_queue q) < unat (sq_capacity q) then (True, state_add (of_nat (length (sdu_buf s))) ?q) else (False, q))"
      using False None by (simp add: sq_write_def sq_push_def)
    show ?thesis
    proof (cases "length (sq_queue q) < unat (sq_capacity q)")
      case True
      have "sq_ok (state_add (of_nat (length (sdu_buf s))) ?q) \<and>
          sq_sdus (state_add (of_nat (length (sdu_buf s))) ?q) = sq_sdus q @ [s]"
        by (rule sq_ok_push [OF ok same_but_fields no_owner_outside [OF cap] _ True _ _ _ _ total])
          (use None state_add_word [of ?q, OF _ len] st in \<open>simp_all add: owns_def sdu_valid_def slot_owner_def\<close>)
      then show ?thesis using w True by simp
    next
      case False
      then show ?thesis using w ok by simp
    qed
  next
    case (Some sn)
    have sn: "sn_sane sn" using sane Some by simp
    let ?i = "slot q sn" and ?n = "length (sdu_buf s)"
    let ?q1 = "q\<lparr>sq_sizes := (sq_sizes q)[?i := ?n], sq_states := (sq_states q)[?i := sn]\<rparr>"
    have bounds: "?i < length (sq_states q)" "?i < length (sq_sizes q)" using ok slot_less [OF cap] by (simp_all add: sq_ok_def)
    show ?thesis
    proof (cases "sq_states q ! ?i = state_free")
      case free: True
      show ?thesis
      proof (cases "length (sq_queue q) < unat (sq_capacity q)")
        case True
        let ?q2 = "?q1\<lparr>sq_queue := sq_queue q @ [s]\<rparr>"
        have w: "sq_write s q = (True, state_add (of_nat ?n) ?q2)" using False Some True free by (simp add: sq_write_def sq_push_def Let_def)
        have "sq_ok (state_add (of_nat ?n) ?q2) \<and> sq_sdus (state_add (of_nat ?n) ?q2) = sq_sdus q @ [s]"
          by (rule sq_ok_push [OF ok _ no_owner_of_free [OF ok free] _ True _ _ _ _ total])
            (use Some sn bounds state_add_word [of ?q2, OF _ len] st
             in \<open>simp_all add: same_but_def owns_def sdu_valid_def slot_owner_def sq_check_def\<close>)
        then show ?thesis using w by simp
      next
        case no: False
        let ?q2 = "?q1\<lparr>sq_states := (sq_states ?q1)[?i := state_free]\<rparr>"
        have w: "sq_write s q = (False, ?q2)" using False Some no free by (simp add: sq_write_def sq_push_def Let_def)
        have "sq_ok ?q2 \<and> sq_sdus ?q2 = sq_sdus q"
          by (rule sq_ok_same [OF ok _ free]) (use bounds in \<open>simp_all add: same_but_def\<close>)
        then show ?thesis using w by simp
      qed
    next
      case taken: False
      then show ?thesis using False Some ok by (simp add: sq_write_def Let_def)
    qed
  qed
qed

section \<open>Discarding\<close>

lemma not_owner_rest:
  assumes "slots_apart q (xs @ s # ys)" and "slot_owner q s = Some i"
  shows "Some i \<notin> slot_owner q ` set (xs @ ys)"
  using assms by (auto simp: slots_apart_def sorted_wrt_append)

lemma state_nat_split:
  assumes "sq_state q = of_nat (length ss * 2 ^ 32 + sdu_bytes ss)" and "mset ss = add_mset s (mset ts)"
    and "length (sdu_buf s) < 2 ^ 32"
  shows "sq_state (state_sub (of_nat (length (sdu_buf s))) q) = of_nat (length ts * 2 ^ 32 + sdu_bytes ts)"
proof (rule state_sub_word [OF _ assms(3)])
  have "length ss = length ts + 1" using mset_eq_length [of ss "s # ts"] assms(2) by simp
  moreover have "sdu_bytes ss = sdu_bytes ts + length (sdu_buf s)"
  proof -
    have "sdu_bytes us = sum_mset (image_mset (\<lambda>s. length (sdu_buf s)) (mset us))" for us
      by (simp add: sdu_bytes_def flip: sum_mset_sum_list)
    then show ?thesis using assms(2) by simp
  qed
  ultimately show "sq_state q = of_nat ((length ts + 1) * 2 ^ 32 + (sdu_bytes ts + length (sdu_buf s)))"
    using assms(1) by (simp only:)
qed

lemma valid_size:
  assumes "sq_ok q" and "s \<in> set (sq_sdus q)"
  shows "length (sdu_buf s) < 2 ^ 32"
proof -
  have "length (sdu_buf s) \<le> sdu_bytes (sq_sdus q)" using assms(2) unfolding sdu_bytes_def by (intro member_le_sum_list) auto
  then show ?thesis using sq_ok_totals(2) [OF assms(1)] by (rule order.strict_trans1)
qed

lemma discard_spec:
  assumes ok: "sq_ok q" and sane: "sn_sane sn"
  shows "sq_ok (snd (sq_try_discard sn q)) \<and> sq_sdus (snd (sq_try_discard sn q)) = filter (\<lambda>s. sdu_pdcp_sn s \<noteq> Some sn) (sq_sdus q) \<and>
    (fst (sq_try_discard sn q) \<longleftrightarrow> (\<exists>s \<in> set (sq_sdus q). sdu_pdcp_sn s = Some sn))"
proof (cases "sq_states q ! slot q sn = sn")
  case False
  then have "\<forall>s \<in> set (sq_sdus q). sdu_pdcp_sn s \<noteq> Some sn" by (auto simp: sq_sdus_def sdu_valid_def sq_check_def)
  moreover have "sq_try_discard sn q = (False, q)" using False by (simp add: sq_try_discard_def)
  ultimately show ?thesis using ok by (simp add: filter_id_conv)
next
  case True
  let ?i = "slot q sn"
  have cap: "0 < sq_capacity q" using ok by (simp add: sq_ok_def)
  have bounds: "?i < unat (sq_capacity q)" "?i < length (sq_states q)" using ok slot_less [OF cap] by (simp_all add: sq_ok_def)
  have "sq_states q ! ?i \<noteq> state_free" using True sane by (simp add: sn_sane_def)
  then have "Some ?i \<in> slot_owner q ` set (sq_queue q)" using ok bounds(1) by (simp add: sq_ok_def)
  then obtain s0 where s0: "s0 \<in> set (sq_queue q)" "slot_owner q s0 = Some ?i" by force
  then obtain sn0 where sn0: "sdu_pdcp_sn s0 = Some sn0" "slot q sn0 = ?i" by (auto simp: slot_owner_def)
  have own: "owns q s0" using ok s0(1) by (simp add: sq_ok_def)
  then have eq: "sn0 = sn" and size: "sq_sizes q ! ?i = length (sdu_buf s0)"
    using sn0 True sane by (auto simp: owns_def sn_sane_def)
  obtain xs ys where xy: "sq_queue q = xs @ s0 # ys" using s0(1) by (meson split_list)
  have rest: "Some ?i \<notin> slot_owner q ` set (xs @ ys)"
    using ok s0(2) unfolding xy sq_ok_def by (intro not_owner_rest) auto
  have v0: "sdu_valid q s0" using sn0 eq True by (simp add: sdu_valid_def sq_check_def)
  let ?q1 = "q\<lparr>sq_states := (sq_states q)[?i := state_discarded]\<rparr>"
  let ?q' = "state_sub (of_nat (length (sdu_buf s0))) ?q1"
  have d: "sq_try_discard sn q = (True, ?q')" using True by (simp add: sq_try_discard_def size)
  have same: "same_but ?i q ?q'" by (simp add: same_but_def)
  have no_v0: "\<not> sdu_valid ?q' s0"
    using sn0 eq bounds sane by (auto simp: sdu_valid_def sq_check_def sn_sane_def)
  have old: "sq_sdus q = filter (sdu_valid q) xs @ s0 # filter (sdu_valid q) ys" using v0 by (simp add: sq_sdus_def xy)
  have new: "sq_sdus ?q' = filter (sdu_valid q) xs @ filter (sdu_valid q) ys"
  proof -
    have "Some ?i \<notin> slot_owner q ` set xs" "Some ?i \<notin> slot_owner q ` set ys" using rest by auto
    then show ?thesis using no_v0 same_but_filter [OF same] by (simp add: sq_sdus_def xy)
  qed
  have "\<forall>t \<in> set (xs @ ys). sdu_pdcp_sn t \<noteq> Some sn"
  proof (rule ballI notI)+
    fix t assume "t \<in> set (xs @ ys)" "sdu_pdcp_sn t = Some sn"
    then have "slot_owner q t = Some ?i" "t \<in> set (xs @ ys)" by (simp_all add: slot_owner_def)
    then show False using rest by (metis image_eqI)
  qed
  then have filt: "filter (\<lambda>s. sdu_pdcp_sn s \<noteq> Some sn) (sq_sdus q) = sq_sdus ?q'"
    unfolding old new using sn0 eq by (simp add: filter_cong [OF refl, of _ "\<lambda>x. sdu_valid q x \<and> sdu_pdcp_sn x \<noteq> Some sn" "sdu_valid q"])
  have o: "slot_owner ?q' = slot_owner q" by (rule slot_owner_cong(2)) simp
  have "owns ?q' t" if "t \<in> set (sq_queue q)" for t
  proof (cases "t = s0")
    case True
    then show ?thesis using own sn0 eq bounds size by (auto simp: owns_def)
  next
    case False
    then have "t \<in> set (xs @ ys)" using that xy by auto
    then have "slot_owner q t \<noteq> Some ?i" using rest by (metis image_eqI)
    then show ?thesis using same_but_element(1) [OF same] ok that by (simp add: sq_ok_def)
  qed
  moreover have "slots_apart ?q' (sq_queue q)" using ok by (simp add: slots_apart_def o sq_ok_def)
  moreover have "\<forall>j < unat (sq_capacity q). sq_states ?q' ! j \<noteq> state_free \<longrightarrow> Some j \<in> slot_owner q ` set (sq_queue q)"
  proof (intro allI impI)
    fix j assume j: "j < unat (sq_capacity q)" "sq_states ?q' ! j \<noteq> state_free"
    show "Some j \<in> slot_owner q ` set (sq_queue q)"
      using j ok s0 by (cases "j = ?i") (auto simp: sq_ok_def image_iff intro: bexI [of _ s0])
  qed
  moreover have "sdu_bytes (sq_sdus ?q') \<le> unat (sq_byte_limit q)" using ok unfolding sq_ok_def old new by simp
  moreover have "sq_state ?q' = of_nat (length (sq_sdus ?q') * 2 ^ 32 + sdu_bytes (sq_sdus ?q'))"
  proof (rule state_nat_split)
    show "sq_state ?q1 = of_nat (length (sq_sdus q) * 2 ^ 32 + sdu_bytes (sq_sdus q))" using ok by (simp add: sq_ok_def)
    show "mset (sq_sdus q) = add_mset s0 (mset (sq_sdus ?q'))" unfolding old new by simp
    show "length (sdu_buf s0) < 2 ^ 32" by (rule valid_size [OF ok]) (simp add: old)
  qed
  ultimately have "sq_ok ?q'" using ok unfolding sq_ok_def o by simp
  moreover have "\<exists>s \<in> set (sq_sdus q). sdu_pdcp_sn s = Some sn" unfolding old using sn0 eq by simp
  ultimately show ?thesis unfolding d using filt by simp
qed

section \<open>Reading\<close>

lemma sq_ok_pop:
  assumes ok: "sq_ok q" and queue: "sq_queue q = s # rest" "sq_queue q' = rest"
    and same: "same_but i q q'" and i: "slot_owner q s = Some i \<or> slot_owner q s = None \<and> i = unat (sq_capacity q)"
    and free: "slot_owner q s = Some i \<longrightarrow> sq_states q' ! i = state_free"
    and state: "sq_state q' = (if sdu_valid q s then sq_state (state_sub (of_nat (length (sdu_buf s))) q) else sq_state q)"
  shows "sq_ok q' \<and> sq_sdus q = (if sdu_valid q s then s # sq_sdus q' else sq_sdus q')"
proof -
  have cap: "0 < sq_capacity q" using ok by (simp add: sq_ok_def)
  have no: "Some i \<notin> slot_owner q ` set rest"
    using i not_owner_rest [of q "[]" s rest i] no_owner_outside [OF cap] ok queue by (auto simp: sq_ok_def)
  have c: "sq_capacity q' = sq_capacity q" "sq_byte_limit q' = sq_byte_limit q" "length (sq_states q') = length (sq_states q)"
    "length (sq_sizes q') = length (sq_sizes q)" using same by (simp_all add: same_but_def)
  have o: "slot_owner q' = slot_owner q" by (rule slot_owner_cong(2) [OF c(1)])
  have sd: "sq_sdus q = (if sdu_valid q s then s # sq_sdus q' else sq_sdus q')"
    using same_but_filter [OF same no] queue by (simp add: sq_sdus_def)
  have "owns q' t" if "t \<in> set rest" for t
  proof -
    have "slot_owner q t \<noteq> Some i" using that no by (metis image_eqI)
    then show ?thesis using same_but_element(1) [OF same] ok that queue by (simp add: sq_ok_def)
  qed
  moreover have "slots_apart q' rest" using ok queue by (simp add: slots_apart_def o sq_ok_def)
  moreover have "\<forall>j < unat (sq_capacity q). sq_states q' ! j \<noteq> state_free \<longrightarrow> Some j \<in> slot_owner q ` set rest"
  proof (intro allI impI)
    fix j assume j: "j < unat (sq_capacity q)" "sq_states q' ! j \<noteq> state_free"
    then have "j \<noteq> i" using i free by auto
    then have "sq_states q ! j \<noteq> state_free" using j same by (simp add: same_but_def)
    then have "Some j \<in> slot_owner q ` set (s # rest)" using ok j unfolding sq_ok_def queue by simp
    then show "Some j \<in> slot_owner q ` set rest" using i \<open>j \<noteq> i\<close> by auto
  qed
  moreover have "sdu_bytes (sq_sdus q') \<le> unat (sq_byte_limit q)" using ok sd unfolding sq_ok_def by (auto split: if_splits)
  moreover have "sq_state q' = of_nat (length (sq_sdus q') * 2 ^ 32 + sdu_bytes (sq_sdus q'))"
  proof (cases "sdu_valid q s")
    case True
    have "sq_state (state_sub (of_nat (length (sdu_buf s))) q) = of_nat (length (sq_sdus q') * 2 ^ 32 + sdu_bytes (sq_sdus q'))"
      by (rule state_nat_split [of q "sq_sdus q"]) (use ok sd True valid_size [OF ok] in \<open>auto simp: sq_ok_def\<close>)
    then show ?thesis using state True by simp
  next
    case False
    then show ?thesis using state sd ok by (simp add: sq_ok_def)
  qed
  ultimately have "sq_ok q'" using ok unfolding sq_ok_def o c queue by simp
  then show ?thesis using sd by simp
qed

lemma pop_plain:
  assumes "sq_ok q" and "sq_queue q = s # rest" and "sdu_pdcp_sn s = None"
  shows "sq_ok (state_sub (of_nat (length (sdu_buf s))) (q\<lparr>sq_queue := rest\<rparr>)) \<and>
    sq_sdus q = s # sq_sdus (state_sub (of_nat (length (sdu_buf s))) (q\<lparr>sq_queue := rest\<rparr>))"
proof -
  have v: "sdu_valid q s" "slot_owner q s = None" using assms(3) by (simp_all add: sdu_valid_def slot_owner_def)
  show ?thesis
    by (rule sq_ok_pop [OF assms(1,2) _ same_but_fields, where i = "unat (sq_capacity q)", THEN conjE, unfolded if_P [OF v(1)]])
      (use v in \<open>simp_all add: state_sub_def\<close>)
qed

lemma pop_slot:
  assumes ok: "sq_ok q" and "sq_queue q = s # rest" and "sdu_pdcp_sn s = Some sn"
    and cr: "check_and_release sn (q\<lparr>sq_queue := rest\<rparr>) = (valid, q')"
  shows "sq_ok q' \<and> valid = sq_check sn q \<and> sq_queue q' = rest \<and> sq_sdus q = (if valid then s # sq_sdus q' else sq_sdus q')"
proof -
  have cap: "0 < sq_capacity q" using ok by (simp add: sq_ok_def)
  have own: "owns q s" using ok assms(2) by (simp add: sq_ok_def)
  have v: "sdu_valid q s = sq_check sn q" "slot_owner q s = Some (slot q sn)" using assms(3) by (simp_all add: sdu_valid_def slot_owner_def)
  have size: "sq_sizes q ! slot q sn = length (sdu_buf s)" "sn \<noteq> state_discarded"
    "sq_states q ! slot q sn = sn \<or> sq_states q ! slot q sn = state_discarded"
    using own assms(3) by (auto simp: owns_def sn_sane_def)
  have bounds: "slot q sn < length (sq_states q)" using ok slot_less [OF cap] by (simp add: sq_ok_def)
  let ?q1 = "q\<lparr>sq_queue := rest, sq_states := (sq_states q)[slot q sn := state_free]\<rparr>"
  have q': "valid = sq_check sn q" "q' = (if sq_check sn q then state_sub (of_nat (length (sdu_buf s))) ?q1 else ?q1)"
    using cr size by (auto simp: check_and_release_def Let_def sq_check_def)
  have "sq_ok q' \<and> sq_sdus q = (if sdu_valid q s then s # sq_sdus q' else sq_sdus q')"
    by (rule sq_ok_pop [OF ok assms(2), where i = "slot q sn"])
      (use q' v bounds in \<open>auto simp: same_but_def state_sub_def\<close>)
  then show ?thesis using q' v by simp
qed

lemma read_from_spec:
  "sq_ok q \<Longrightarrow> sq_queue q = ss \<Longrightarrow> sq_ok (snd (read_from ss q)) \<and>
    (case sq_sdus q of [] \<Rightarrow> fst (read_from ss q) = None \<and> sq_sdus (snd (read_from ss q)) = []
     | s # ss' \<Rightarrow> fst (read_from ss q) = Some s \<and> sq_sdus (snd (read_from ss q)) = ss')"
proof (induction ss arbitrary: q)
  case Nil
  then have "q\<lparr>sq_queue := []\<rparr> = q" by (cases q) simp
  then have "sq_ok (q\<lparr>sq_queue := []\<rparr>)" using Nil(1) by (rule ssubst)
  then show ?case using Nil(2) by (simp add: sq_sdus_def)
next
  case (Cons s rest)
  show ?case
  proof (cases "sdu_pdcp_sn s")
    case None
    then show ?thesis using pop_plain [OF Cons.prems None] by simp
  next
    case (Some sn)
    obtain valid q' where cr: "check_and_release sn (q\<lparr>sq_queue := rest\<rparr>) = (valid, q')" by force
    note p = pop_slot [OF Cons.prems Some cr]
    have "read_from (s # rest) q = (if valid then (Some s, q') else read_from rest q')" using Some cr by simp
    then show ?thesis using p Cons.IH [of q'] by (cases valid) (simp_all del: read_from.simps split: list.splits)
  qed
qed

lemma front_from_spec:
  "sq_ok q \<Longrightarrow> sq_queue q = ss \<Longrightarrow> sq_ok (snd (front_from ss q)) \<and> sq_sdus (snd (front_from ss q)) = sq_sdus q \<and>
    fst (front_from ss q) = (case sq_sdus q of [] \<Rightarrow> None | s # _ \<Rightarrow> Some s)"
proof (induction ss arbitrary: q)
  case Nil
  then show ?case by (simp add: sq_sdus_def)
next
  case (Cons s rest)
  show ?case
  proof (cases "sdu_valid q s")
    case True
    then show ?thesis using Cons.prems by (auto simp: sq_sdus_def sdu_valid_def split: option.splits)
  next
    case False
    then obtain sn where sn: "sdu_pdcp_sn s = Some sn" "\<not> sq_check sn q" by (auto simp: sdu_valid_def split: option.splits)
    obtain valid q' where cr: "check_and_release sn (q\<lparr>sq_queue := rest\<rparr>) = (valid, q')" by force
    show ?thesis using pop_slot [OF Cons.prems sn(1) cr] Cons.IH [of q'] sn cr by simp
  qed
qed

interpretation sq: sdu_fifo sq_sdus sq_write sq_try_discard sq_read sq_front sq_get_state sn_sane sq_ok
proof
  fix s :: rlc_sdu and q assume "sq_ok q" and "\<And>sn. sdu_pdcp_sn s = Some sn \<Longrightarrow> sn_sane sn"
  then show "sq_ok (snd (sq_write s q)) \<and>
      sq_sdus (snd (sq_write s q)) = (if fst (sq_write s q) then sq_sdus q @ [s] else sq_sdus q)" by (rule write_spec)
next
  fix q sn assume "sq_ok q" and "sn_sane sn"
  then show "sq_ok (snd (sq_try_discard sn q)) \<and>
      sq_sdus (snd (sq_try_discard sn q)) = filter (\<lambda>s. sdu_pdcp_sn s \<noteq> Some sn) (sq_sdus q) \<and>
      (fst (sq_try_discard sn q) \<longleftrightarrow> (\<exists>s \<in> set (sq_sdus q). sdu_pdcp_sn s = Some sn))" by (rule discard_spec)
next
  fix q assume ok: "sq_ok q"
  show "sq_ok (snd (sq_read q)) \<and> (case sq_sdus q of [] \<Rightarrow> fst (sq_read q) = None \<and> sq_sdus (snd (sq_read q)) = []
       | s # ss \<Rightarrow> fst (sq_read q) = Some s \<and> sq_sdus (snd (sq_read q)) = ss)"
    unfolding sq_read_def by (rule read_from_spec [OF ok refl])
  show "sq_ok (snd (sq_front q)) \<and> sq_sdus (snd (sq_front q)) = sq_sdus q \<and>
      fst (sq_front q) = (case sq_sdus q of [] \<Rightarrow> None | s # _ \<Rightarrow> Some s)"
    unfolding sq_front_def by (rule front_from_spec [OF ok refl])
  show "sq_get_state q = (of_nat (length (sq_sdus q)), of_nat (sum_list (map (\<lambda>s. length (sdu_buf s)) (sq_sdus q))))"
    using sq_ok_totals(3) [OF ok] by (simp add: sdu_bytes_def)
qed

end
