(* ===== verification/Rlc_Retx_Queue.thy ===== *)
theory Rlc_Retx_Queue
  imports Ring_Buffer
begin

text \<open>
  The queue of retransmissions of the acknowledged mode, \<open>lib/rlc/rlc_retx_queue.h\<close>: a ring buffer of
  items that can be marked as invalid, and counters of what its valid items need. The lemmas show that
  it is a queue of its valid items, that the front of a non-empty queue is valid, and that the
  counters are sums over the valid items as long as these fit into 32 bits.
\<close>

section \<open>Elements and counters\<close>

record rlc_tx_amd_retx =
  rt_sn :: u32
  rt_so :: u32
  rt_length :: u32

definition retx_includes :: "rlc_tx_amd_retx \<Rightarrow> u32 \<Rightarrow> u32 \<Rightarrow> bool" where
  "retx_includes r segment_offset segment_length \<longleftrightarrow>
     rt_so r \<le> segment_offset \<and> segment_offset + segment_length \<le> rt_so r + rt_length r"

record rlc_retx_queue_state =
  rqs_bytes :: u32
  rqs_so_zero :: u32
  rqs_so_nonzero :: u32

definition rqs_init :: rlc_retx_queue_state where
  "rqs_init = \<lparr>rqs_bytes = 0, rqs_so_zero = 0, rqs_so_nonzero = 0\<rparr>"

definition rqs_add :: "rlc_tx_amd_retx \<Rightarrow> rlc_retx_queue_state \<Rightarrow> rlc_retx_queue_state" where
  "rqs_add elem st =
     (let st = st\<lparr>rqs_bytes := rqs_bytes st + rt_length elem\<rparr> in
      if rt_so elem = 0 then st\<lparr>rqs_so_zero := rqs_so_zero st + 1\<rparr>
      else st\<lparr>rqs_so_nonzero := rqs_so_nonzero st + 1\<rparr>)"

definition rqs_subtract :: "rlc_tx_amd_retx \<Rightarrow> rlc_retx_queue_state \<Rightarrow> rlc_retx_queue_state" where
  "rqs_subtract elem st =
     (let st = st\<lparr>rqs_bytes := if rt_length elem \<le> rqs_bytes st then rqs_bytes st - rt_length elem else 0\<rparr> in
      if rt_so elem = 0 then (if 0 < rqs_so_zero st then st\<lparr>rqs_so_zero := rqs_so_zero st - 1\<rparr> else st)
      else (if 0 < rqs_so_nonzero st then st\<lparr>rqs_so_nonzero := rqs_so_nonzero st - 1\<rparr> else st))"

section \<open>The queue\<close>

record rlc_retx_queue_item =
  item_invalid :: bool
  item_retx :: rlc_tx_amd_retx

record rlc_retx_queue =
  rq_queue :: "rlc_retx_queue_item ring_buffer"
  rq_st :: rlc_retx_queue_state

definition rq_create :: "nat \<Rightarrow> rlc_retx_queue" where
  "rq_create capacity = \<lparr>rq_queue = rb_create capacity, rq_st = rqs_init\<rparr>"

definition rq_try_push :: "rlc_tx_amd_retx \<Rightarrow> rlc_retx_queue \<Rightarrow> bool \<times> rlc_retx_queue" where
  "rq_try_push retx q =
     (let (success, b) = try_push \<lparr>item_invalid = False, item_retx = retx\<rparr> (rq_queue q) in
      if success then (True, q\<lparr>rq_queue := b, rq_st := rqs_add retx (rq_st q)\<rparr>) else (False, q))"

function clean_invalid_front :: "rlc_retx_queue_item ring_buffer \<Rightarrow> rlc_retx_queue_item ring_buffer run" where
  "clean_invalid_front b =
     (if rb_empty b then Inr b
      else case rb_top b of
        Inl e \<Rightarrow> Inl e
      | Inr item \<Rightarrow>
          if item_invalid item
          then (case rb_pop b of Inl e \<Rightarrow> Inl e | Inr b' \<Rightarrow> clean_invalid_front b')
          else Inr b)"
  by auto
termination
  by (relation "measure rb_count") (auto dest: rb_pop_count)

declare clean_invalid_front.simps [simp del]

definition rq_pop :: "rlc_retx_queue \<Rightarrow> rlc_retx_queue run" where
  "rq_pop q =
     (if rb_empty (rq_queue q) then Inr q
      else
        seq_run (rb_top (rq_queue q)) (\<lambda>item.
        seq_run (rb_pop (rq_queue q)) (\<lambda>b.
        seq_run (clean_invalid_front b) (\<lambda>b.
        Inr (q\<lparr>rq_queue := b, rq_st := rqs_subtract (item_retx item) (rq_st q)\<rparr>)))))"

definition rq_front :: "rlc_retx_queue \<Rightarrow> rlc_tx_amd_retx run" where
  "rq_front q =
     (if rb_empty (rq_queue q) then Inl Bad_argument
      else seq_run (rb_top (rq_queue q)) (\<lambda>item.
        if item_invalid item then Inl Bad_argument else Inr (item_retx item)))"

text \<open>\<open>queue.top() = elem\<close>\<close>

definition rb_set_top :: "'a \<Rightarrow> 'a ring_buffer \<Rightarrow> 'a ring_buffer" where
  "rb_set_top u b = b\<lparr>rb_data := (rb_data b)(rb_rpos b \<mapsto> u)\<rparr>"

definition rq_replace_front :: "rlc_tx_amd_retx \<Rightarrow> rlc_retx_queue \<Rightarrow> rlc_retx_queue run" where
  "rq_replace_front retx q =
     seq_run (rq_front q) (\<lambda>old.
       Inr (q\<lparr>rq_st := rqs_add retx (rqs_subtract old (rq_st q)),
              rq_queue := rb_set_top \<lparr>item_invalid = False, item_retx = retx\<rparr> (rq_queue q)\<rparr>))"

definition rq_clear :: "rlc_retx_queue \<Rightarrow> rlc_retx_queue" where
  "rq_clear q = q\<lparr>rq_st := rqs_init, rq_queue := rb_clear (rq_queue q)\<rparr>"

definition rq_size :: "rlc_retx_queue \<Rightarrow> nat" where
  "rq_size q = rb_count (rq_queue q)"

definition rq_empty :: "rlc_retx_queue \<Rightarrow> bool" where
  "rq_empty q = rb_empty (rq_queue q)"

definition rq_has_sn :: "u32 \<Rightarrow> rlc_retx_queue \<Rightarrow> bool" where
  "rq_has_sn sn q \<longleftrightarrow> (\<exists>elem \<in> set (rb_items (rq_queue q)). \<not> item_invalid elem \<and> rt_sn (item_retx elem) = sn)"

definition rq_has_segment :: "u32 \<Rightarrow> u32 \<Rightarrow> u32 \<Rightarrow> rlc_retx_queue \<Rightarrow> bool" where
  "rq_has_segment sn so len q \<longleftrightarrow> (\<exists>elem \<in> set (rb_items (rq_queue q)).
     \<not> item_invalid elem \<and> rt_sn (item_retx elem) = sn \<and> retx_includes (item_retx elem) so len)"

text \<open>Removing an SN marks its elements as invalid, except that the front is always valid; the entity does not use it.\<close>

definition mark_removed :: "u32 \<Rightarrow> nat \<Rightarrow> rlc_retx_queue \<times> bool \<Rightarrow> rlc_retx_queue \<times> bool" where
  "mark_removed sn i = (\<lambda>(q, result).
     (let b = rq_queue q; pos = advance_pos b (rb_rpos b) i in
      case rb_data b pos of
        None \<Rightarrow> (q, result)
      | Some item \<Rightarrow>
          if \<not> item_invalid item \<and> rt_sn (item_retx item) = sn
          then (q\<lparr>rq_queue := b\<lparr>rb_data := (rb_data b)(pos \<mapsto> item\<lparr>item_invalid := True\<rparr>)\<rparr>,
                  rq_st := rqs_subtract (item_retx item) (rq_st q)\<rparr>, True)
          else (q, result)))"

definition rq_remove_sn :: "u32 \<Rightarrow> rlc_retx_queue \<Rightarrow> (bool \<times> rlc_retx_queue) run" where
  "rq_remove_sn sn q =
     (if rb_empty (rq_queue q) then Inr (False, q)
      else
        let (q, result) = fold (mark_removed sn) [0..<rb_count (rq_queue q)] (q, False) in
        seq_run (clean_invalid_front (rq_queue q)) (\<lambda>b. Inr (result, q\<lparr>rq_queue := b\<rparr>)))"

lemma clean_invalid_front_count: "clean_invalid_front b = Inr b' \<Longrightarrow> rb_count b' \<le> rb_count b"
proof (induction b rule: clean_invalid_front.induct)
  case (1 b)
  show ?case
  proof (cases "rb_empty b \<or> (\<exists>e. rb_top b = Inl e) \<or> (\<exists>item. rb_top b = Inr item \<and> \<not> item_invalid item)")
    case True
    then show ?thesis using "1.prems" by (subst (asm) clean_invalid_front.simps) (auto split: if_splits)
  next
    case False
    then obtain item where item: "\<not> rb_empty b" "rb_top b = Inr item" "item_invalid item" by (cases "rb_top b") auto
    then have "clean_invalid_front b = (case rb_pop b of Inl e \<Rightarrow> Inl e | Inr b' \<Rightarrow> clean_invalid_front b')"
      by (subst clean_invalid_front.simps) simp
    then obtain b1 where b1: "rb_pop b = Inr b1" "clean_invalid_front b1 = Inr b'"
      using "1.prems" by (cases "rb_pop b") auto
    have "rb_count b' \<le> rb_count b1" using "1.IH" item b1 by blast
    moreover have "rb_count b1 < rb_count b" using rb_pop_count [OF b1(1)] item(1) by simp
    ultimately show ?thesis by simp
  qed
qed

lemma rq_pop_size: "rq_pop q = Inr q' \<Longrightarrow> \<not> rq_empty q \<Longrightarrow> rq_size q' < rq_size q"
  by (auto simp: rq_pop_def rq_empty_def rq_size_def seq_run_Inr dest!: clean_invalid_front_count rb_pop_count)

section \<open>The counters\<close>

definition retx_total :: "rlc_tx_amd_retx list \<Rightarrow> nat" where
  "retx_total rs = sum_list (map (\<lambda>r. unat (rt_length r)) rs)"

definition rqs_exact :: "rlc_tx_amd_retx list \<Rightarrow> rlc_retx_queue_state \<Rightarrow> bool" where
  "rqs_exact rs st \<longleftrightarrow> unat (rqs_bytes st) = retx_total rs \<and>
     unat (rqs_so_zero st) = length (filter (\<lambda>r. rt_so r = 0) rs) \<and>
     unat (rqs_so_nonzero st) = length (filter (\<lambda>r. rt_so r \<noteq> 0) rs)"

lemma rqs_exact_init: "rqs_exact [] rqs_init"
  by (simp add: rqs_exact_def rqs_init_def retx_total_def)

lemma rqs_exact_add:
  assumes "rqs_exact rs st" and "retx_total rs + unat (rt_length r) < 2 ^ 32" and "length rs + 1 < 2 ^ 32"
  shows "rqs_exact (rs @ [r]) (rqs_add r st)"
proof -
  have "length (filter P rs) + 1 < 2 ^ 32" for P using length_filter_le [of P rs] assms(3) by linarith
  then show ?thesis
    using assms by (auto simp: rqs_exact_def rqs_add_def Let_def retx_total_def unat_word_ariths)
qed

lemma rqs_exact_subtract: "rqs_exact (r # rs) st \<Longrightarrow> rqs_exact rs (rqs_subtract r st)"
  by (auto simp: rqs_exact_def rqs_subtract_def Let_def retx_total_def word_le_nat_alt word_less_nat_alt unat_sub unat_minus_one
      split: if_splits)

section \<open>The abstract queue\<close>

definition rq_items :: "rlc_retx_queue \<Rightarrow> rlc_tx_amd_retx list" where
  "rq_items q = map item_retx (filter (\<lambda>i. \<not> item_invalid i) (rb_items (rq_queue q)))"

text \<open>
  The counters are exact as long as their sums stay below \<open>2 ^ 32\<close>, which a queue of at most 2048
  retransmissions of SDUs of at most 65535 bytes guarantees (the one of 12 bit SNs).
\<close>

definition rq_exact :: "rlc_retx_queue \<Rightarrow> bool" where
  "rq_exact q \<longleftrightarrow> (rb_max_size (rq_queue q) \<le> 2048 \<longrightarrow>
     rqs_exact (rq_items q) (rq_st q) \<and> (\<forall>r \<in> set (rq_items q). unat (rt_length r) \<le> 65535))"

text \<open>The queue as the entity uses it: elements are removed at the front only, so all of them are valid.\<close>

definition rq_ok :: "rlc_retx_queue \<Rightarrow> bool" where
  "rq_ok q \<longleftrightarrow> rb_wf (rq_queue q) \<and> (\<forall>i \<in> set (rb_items (rq_queue q)). \<not> item_invalid i) \<and> rq_exact q"

lemma rq_ok_items: "rq_ok q \<Longrightarrow> rb_items (rq_queue q) = map (\<lambda>r. \<lparr>item_invalid = False, item_retx = r\<rparr>) (rq_items q)"
  unfolding rq_ok_def rq_items_def by (induction "rb_items (rq_queue q)") (auto intro!: map_idI [symmetric] simp: comp_def)

lemma rq_empty_items: "rq_ok q \<Longrightarrow> rq_empty q \<longleftrightarrow> rq_items q = []"
  by (simp add: rq_empty_def rb_empty_items rq_ok_items)

lemma rq_size_items: "rq_ok q \<Longrightarrow> rq_size q = length (rq_items q)"
  using rb_length_items [of "rq_queue q"] by (simp add: rq_size_def rq_ok_items del: rb_length_items)

lemma rq_create_ok: "rq_ok (rq_create (2 ^ k))" "rq_items (rq_create n) = []" "rq_st (rq_create n) = rqs_init"
  by (simp_all add: rq_ok_def rq_create_def rq_items_def rb_wf_create rq_exact_def rqs_exact_init)

lemma retx_total_le: "\<forall>r \<in> set rs. unat (rt_length r) \<le> n \<Longrightarrow> retx_total rs \<le> length rs * n"
  by (induction rs) (auto simp: retx_total_def)

lemma rq_exact_push:
  assumes "rq_exact q" and "unat (rt_length r) \<le> 65535" and "length (rq_items q) < rb_max_size (rq_queue q)"
    and "rb_max_size (rq_queue q') = rb_max_size (rq_queue q)" and "rq_items q' = rq_items q @ [r]" and "rq_st q' = rqs_add r (rq_st q)"
  shows "rq_exact q'"
  unfolding rq_exact_def
proof
  assume "rb_max_size (rq_queue q') \<le> 2048"
  then have m: "rb_max_size (rq_queue q) \<le> 2048" using assms(4) by simp
  then have e: "rqs_exact (rq_items q) (rq_st q)" "\<forall>r \<in> set (rq_items q). unat (rt_length r) \<le> 65535"
    using assms(1) by (simp_all add: rq_exact_def)
  have "retx_total (rq_items q) \<le> length (rq_items q) * 65535" by (rule retx_total_le [OF e(2)])
  also have "\<dots> \<le> 2048 * 65535" using m assms(3) by simp
  finally have "retx_total (rq_items q) + unat (rt_length r) < 2 ^ 32" "length (rq_items q) + 1 < 2 ^ 32" using m assms(2,3) by simp_all
  then show "rqs_exact (rq_items q') (rq_st q') \<and> (\<forall>r \<in> set (rq_items q'). unat (rt_length r) \<le> 65535)"
    using rqs_exact_add [OF e(1)] e(2) assms(2,5,6) by auto
qed

lemma rq_exact_pop:
  assumes "rq_exact q" and "rb_max_size (rq_queue q') = rb_max_size (rq_queue q)" and "rq_items q = r # rq_items q'"
    and "rq_st q' = rqs_subtract r (rq_st q)"
  shows "rq_exact q'"
  using assms rqs_exact_subtract [of r "rq_items q'" "rq_st q"] by (auto simp: rq_exact_def)

lemma rqs_exact_rotate: "rqs_exact (rs @ [r]) st = rqs_exact (r # rs) st"
  by (simp add: rqs_exact_def retx_total_def add.commute)

lemma rq_exact_replace:
  assumes "rq_exact q" and "rb_max_size (rq_queue q') = rb_max_size (rq_queue q)" and "rq_items q = r # rs" and "rq_items q' = r' # rs"
    and "rq_st q' = rqs_add r' (rqs_subtract r (rq_st q))" and "unat (rt_length r') \<le> unat (rt_length r)"
    and "length (rq_items q) \<le> rb_max_size (rq_queue q)"
  shows "rq_exact q'"
  unfolding rq_exact_def
proof
  assume "rb_max_size (rq_queue q') \<le> 2048"
  then have m: "length rs < 2048" and e: "rqs_exact (r # rs) (rq_st q)" "\<forall>x \<in> set (r # rs). unat (rt_length x) \<le> 65535"
    using assms(1,2,3,7) by (simp_all add: rq_exact_def)
  have "retx_total rs \<le> length rs * 65535" using e(2) by (intro retx_total_le) simp
  also have "\<dots> \<le> 2048 * 65535" using m by simp
  finally have "retx_total rs + unat (rt_length r') < 2 ^ 32" "length rs + 1 < 2 ^ 32" using m assms(6) e(2) by simp_all
  from rqs_exact_add [OF rqs_exact_subtract [OF e(1)] this] have "rqs_exact (rq_items q') (rq_st q')"
    using assms(4,5) by (simp add: rqs_exact_rotate)
  then show "rqs_exact (rq_items q') (rq_st q') \<and> (\<forall>r \<in> set (rq_items q'). unat (rt_length r) \<le> 65535)"
    using assms(4,6) e(2) by auto
qed

lemma rq_try_push_ok:
  assumes "rq_ok q" and "unat (rt_length r) \<le> 65535"
  shows "rq_ok (snd (rq_try_push r q))"
    and "rq_items (snd (rq_try_push r q)) = (if fst (rq_try_push r q) then rq_items q @ [r] else rq_items q)"
    and "fst (rq_try_push r q) \<longleftrightarrow> length (rq_items q) < rb_max_size (rq_queue q)"
    and "rb_max_size (rq_queue (snd (rq_try_push r q))) = rb_max_size (rq_queue q)"
    and "rq_st (snd (rq_try_push r q)) = (if fst (rq_try_push r q) then rqs_add r (rq_st q) else rq_st q)"
proof -
  let ?i = "\<lparr>item_invalid = False, item_retx = r\<rparr>"
  obtain ok b where e: "try_push ?i (rq_queue q) = (ok, b)" by fastforce
  have wf: "rb_wf (rq_queue q)" using assms(1) by (simp add: rq_ok_def)
  have it: "rb_items b = (if ok then rb_items (rq_queue q) @ [?i] else rb_items (rq_queue q))"
    using rb.offer_items [OF wf, of ?i] e by simp
  have b: "rb_wf b" "rb_max_size b = rb_max_size (rq_queue q)" using rb.offer_wf [OF wf, of ?i] e by simp_all
  have "ok \<longleftrightarrow> length (rb_items (rq_queue q)) < rb_max_size (rq_queue q)" using rb.offer_accepts_iff [OF wf, of ?i] e by simp
  moreover have "length (rb_items (rq_queue q)) = length (rq_items q)" using rq_ok_items [OF assms(1)] by simp
  ultimately show room: "fst (rq_try_push r q) \<longleftrightarrow> length (rq_items q) < rb_max_size (rq_queue q)"
    by (simp add: rq_try_push_def e)
  show f: "rq_items (snd (rq_try_push r q)) = (if fst (rq_try_push r q) then rq_items q @ [r] else rq_items q)"
    "rb_max_size (rq_queue (snd (rq_try_push r q))) = rb_max_size (rq_queue q)"
    "rq_st (snd (rq_try_push r q)) = (if fst (rq_try_push r q) then rqs_add r (rq_st q) else rq_st q)"
    using it b by (auto simp: rq_try_push_def e rq_items_def)
  show "rq_ok (snd (rq_try_push r q))"
  proof (cases ok)
    case True
    have "rq_exact (snd (rq_try_push r q))"
      by (rule rq_exact_push [of q r]) (use assms f room True e in \<open>simp_all add: rq_ok_def rq_try_push_def\<close>)
    then show ?thesis using assms(1) it b True by (auto simp: rq_try_push_def e rq_ok_def)
  next
    case False
    then show ?thesis using assms(1) by (simp add: rq_try_push_def e)
  qed
qed

lemma rq_front_Cons: "rq_ok q \<Longrightarrow> rq_items q = r # rs \<Longrightarrow> rq_front q = Inr r"
proof -
  assume q: "rq_ok q" "rq_items q = r # rs"
  have "rb_wf (rq_queue q)" using q(1) by (simp add: rq_ok_def)
  then have "rb_top (rq_queue q) = Inr \<lparr>item_invalid = False, item_retx = r\<rparr>"
    using rb.front_Cons rq_ok_items [OF q(1)] q(2) by simp
  then show ?thesis using rq_ok_items [OF q(1)] q(2) by (simp add: rq_front_def rb_empty_items)
qed

lemma clean_invalid_front_valid:
  assumes "rb_wf b" and "\<forall>i \<in> set (rb_items b). \<not> item_invalid i"
  shows "clean_invalid_front b = Inr b"
proof (cases "rb_items b")
  case Nil
  then show ?thesis by (simp add: clean_invalid_front.simps rb_empty_items)
next
  case (Cons i items)
  then have "\<not> rb_empty b" by (simp add: rb_empty_items)
  then show ?thesis using rb.front_Cons [OF assms(1) Cons] assms(2) Cons by (simp add: clean_invalid_front.simps)
qed

lemma rq_pop_Cons:
  assumes "rq_ok q" and "rq_items q = r # rs"
  obtains q' where "rq_pop q = Inr q'" and "rq_ok q'" and "rq_items q' = rs"
    and "rb_max_size (rq_queue q') = rb_max_size (rq_queue q)" and "rq_st q' = rqs_subtract r (rq_st q)"
proof -
  let ?i = "\<lambda>r. \<lparr>item_invalid = False, item_retx = r\<rparr>"
  have wf: "rb_wf (rq_queue q)" using assms(1) by (simp add: rq_ok_def)
  have it: "rb_items (rq_queue q) = ?i r # map ?i rs" using rq_ok_items [OF assms(1)] assms(2) by simp
  obtain b where b: "rb_pop (rq_queue q) = Inr b" "rb_items b = map ?i rs" "rb_wf b" "rb_max_size b = rb_max_size (rq_queue q)"
    using rb.drop_Cons [OF wf it] by blast
  have c: "clean_invalid_front b = Inr b" by (rule clean_invalid_front_valid [OF b(3)]) (simp add: b(2))
  have ne: "\<not> rb_empty (rq_queue q)" using it by (simp add: rb_empty_items)
  let ?q = "q\<lparr>rq_queue := b, rq_st := rqs_subtract r (rq_st q)\<rparr>"
  have items: "rq_items ?q = rs" using b by (simp add: rq_items_def filter_map comp_def)
  have "rq_exact ?q" by (rule rq_exact_pop [of q _ r]) (use assms b items in \<open>simp_all add: rq_ok_def\<close>)
  then have "rq_ok ?q" using b by (simp add: rq_ok_def)
  then show ?thesis
    by (rule that [of ?q, rotated]) (use items b c ne rb.front_Cons [OF wf it] in \<open>simp_all add: rq_pop_def\<close>)
qed

lemma rb_set_top_items:
  assumes "rb_wf b" and "rb_items b = a # as"
  shows "rb_items (rb_set_top u b) = u # as" and "rb_wf (rb_set_top u b)" and "rb_max_size (rb_set_top u b) = rb_max_size b"
proof -
  have cnt: "rb_count b = Suc (length as)" using assms(2) rb_length_items [of b] by simp
  have lt: "rb_count b \<le> rb_max_size b" "rb_rpos b < rb_max_size b" using assms(1) by (auto simp: rb_wf_def)
  have adv: "advance_pos (rb_set_top u b) = advance_pos b" by (simp add: rb_set_top_def)
  have r0: "advance_pos b (rb_rpos b) 0 = rb_rpos b" using lt by (simp add: advance_pos_mod [OF assms(1)])
  have ne: "advance_pos b (rb_rpos b) (Suc i) \<noteq> rb_rpos b" if "i < length as" for i
    using advance_pos_inj [OF assms(1), of "Suc i" 0 "rb_rpos b"] that cnt lt r0 by fastforce
  show "rb_items (rb_set_top u b) = u # as"
  proof (rule nth_equalityI)
    show "length (rb_items (rb_set_top u b)) = length (u # as)" by (simp add: rb_set_top_def cnt)
    fix i assume i: "i < length (rb_items (rb_set_top u b))"
    show "rb_items (rb_set_top u b) ! i = (u # as) ! i"
    proof (cases i)
      case 0
      then show ?thesis using i r0 by (simp add: rb_items_nth adv) (simp add: rb_set_top_def)
    next
      case (Suc j)
      then have j: "j < length as" using i by (simp add: rb_set_top_def cnt)
      have "rb_items (rb_set_top u b) ! i = rb_items b ! i"
        using i Suc ne [OF j] by (simp add: rb_items_nth adv) (simp add: rb_set_top_def rb_items_nth cnt)
      then show ?thesis using assms(2) Suc by simp
    qed
  qed
  show "rb_wf (rb_set_top u b)" using assms(1) by (simp add: rb_wf_def adv) (simp add: rb_set_top_def)
  show "rb_max_size (rb_set_top u b) = rb_max_size b" by (simp add: rb_set_top_def)
qed

lemma rq_replace_front_Cons:
  assumes "rq_ok q" and "rq_items q = r # rs" and "unat (rt_length r') \<le> unat (rt_length r)"
  obtains q' where "rq_replace_front r' q = Inr q'" and "rq_ok q'" and "rq_items q' = r' # rs"
    and "rb_max_size (rq_queue q') = rb_max_size (rq_queue q)" and "rq_st q' = rqs_add r' (rqs_subtract r (rq_st q))"
proof -
  let ?i = "\<lambda>r. \<lparr>item_invalid = False, item_retx = r\<rparr>"
  have wf: "rb_wf (rq_queue q)" using assms(1) by (simp add: rq_ok_def)
  have it: "rb_items (rq_queue q) = ?i r # map ?i rs" using rq_ok_items [OF assms(1)] assms(2) by simp
  note s = rb_set_top_items [OF wf it, of "?i r'"]
  let ?q = "q\<lparr>rq_st := rqs_add r' (rqs_subtract r (rq_st q)), rq_queue := rb_set_top (?i r') (rq_queue q)\<rparr>"
  have items: "rq_items ?q = r' # rs" using s by (simp add: rq_items_def filter_map comp_def)
  have len: "length (rq_items q) \<le> rb_max_size (rq_queue q)"
    using rq_size_items [OF assms(1)] wf by (simp add: rq_size_def rb_wf_def)
  have ex: "rq_exact q" and max: "rb_max_size (rq_queue ?q) = rb_max_size (rq_queue q)"
    and st: "rq_st ?q = rqs_add r' (rqs_subtract r (rq_st q))"
    using assms(1) s(3) by (simp_all add: rq_ok_def)
  have "rq_exact ?q" by (rule rq_exact_replace [OF ex max assms(2) items st assms(3) len])
  then have "rq_ok ?q" using s by (simp add: rq_ok_def)
  then show ?thesis
    by (rule that [of ?q, rotated]) (use items s(3) rq_front_Cons [OF assms(1,2)] in \<open>simp_all add: rq_replace_front_def\<close>)
qed

end
