(* ===== verification/Rlc_Tx_Metrics.thy ===== *)
theory Rlc_Tx_Metrics
  imports Rlc_Rx_Metrics
begin

text \<open>
  The counters of RLC TX entities, \<open>lib/rlc/rlc_tx_metrics_container.h\<close> and
  \<open>include/ocudu/rlc/rlc_tx_metrics.h\<close>: one container for the executor of the upper layers and one for
  that of the lower layers, which count only while metrics are enabled. A latency that the entities
  read from the clock is an argument. Byte counts of type \<open>size_t\<close> are naturals.
\<close>

section \<open>The upper part\<close>

record rlc_tx_metrics_high =
  rth_enabled :: bool
  rth_num_sdus :: u32
  rth_num_sdu_bytes :: nat
  rth_num_dropped_sdus :: u32
  rth_num_discarded_sdus :: u32
  rth_num_discard_failures :: u32
  rth_counter :: u32

definition rth_create :: "bool \<Rightarrow> rlc_tx_metrics_high" where
  "rth_create enabled = \<lparr>rth_enabled = enabled, rth_num_sdus = 0, rth_num_sdu_bytes = 0, rth_num_dropped_sdus = 0,
     rth_num_discarded_sdus = 0, rth_num_discard_failures = 0, rth_counter = 0\<rparr>"

definition rth_add_sdus :: "u32 \<Rightarrow> nat \<Rightarrow> rlc_tx_metrics_high \<Rightarrow> rlc_tx_metrics_high" where
  "rth_add_sdus n len m =
     (if \<not> rth_enabled m then m
      else m\<lparr>rth_num_sdus := rth_num_sdus m + n, rth_num_sdu_bytes := rth_num_sdu_bytes m + len\<rparr>)"

definition rth_add_lost_sdus :: "u32 \<Rightarrow> rlc_tx_metrics_high \<Rightarrow> rlc_tx_metrics_high" where
  "rth_add_lost_sdus n m =
     (if \<not> rth_enabled m then m else m\<lparr>rth_num_dropped_sdus := rth_num_dropped_sdus m + n\<rparr>)"

definition rth_add_discard :: "u32 \<Rightarrow> rlc_tx_metrics_high \<Rightarrow> rlc_tx_metrics_high" where
  "rth_add_discard n m =
     (if \<not> rth_enabled m then m else m\<lparr>rth_num_discarded_sdus := rth_num_discarded_sdus m + n\<rparr>)"

definition rth_add_discard_failure :: "u32 \<Rightarrow> rlc_tx_metrics_high \<Rightarrow> rlc_tx_metrics_high" where
  "rth_add_discard_failure n m =
     (if \<not> rth_enabled m then m else m\<lparr>rth_num_discard_failures := rth_num_discard_failures m + n\<rparr>)"

definition rth_get_metrics :: "rlc_tx_metrics_high \<Rightarrow> (rlc_tx_metrics_high \<times> rlc_tx_metrics_high) run" where
  "rth_get_metrics m =
     (if \<not> rth_enabled m then Inl Bad_argument else Inr (m, m\<lparr>rth_counter := rth_counter m + 1\<rparr>))"

definition rth_reset_metrics :: "rlc_tx_metrics_high \<Rightarrow> rlc_tx_metrics_high run" where
  "rth_reset_metrics m =
     (if \<not> rth_enabled m then Inl Bad_argument
      else Inr (m\<lparr>rth_num_sdus := 0, rth_num_sdu_bytes := 0, rth_num_dropped_sdus := 0, rth_num_discarded_sdus := 0,
             rth_num_discard_failures := 0\<rparr>))"

definition rth_get_and_reset_metrics :: "rlc_tx_metrics_high \<Rightarrow> (rlc_tx_metrics_high \<times> rlc_tx_metrics_high) run" where
  "rth_get_and_reset_metrics m =
     seq_run (rth_get_metrics m) (\<lambda>(ret, m). seq_run (rth_reset_metrics m) (\<lambda>m. Inr (ret, m)))"

section \<open>The lower part\<close>

record rlc_am_tx_metrics_poll_latency =
  tpl_num_latency_meas :: u32
  tpl_sum_latency_us :: u32
  tpl_min_latency_us :: "u32 option"
  tpl_max_latency_us :: "u32 option"

record rlc_am_tx_metrics_lower =
  tam_num_pdus_with_segmentation :: u32
  tam_num_pdu_bytes_with_segmentation :: u32
  tam_num_retx_pdus :: u32
  tam_num_retx_pdu_bytes :: u32
  tam_num_ctrl_pdus :: u32
  tam_num_ctrl_pdu_bytes :: u32
  tam_num_ack_latency_meas :: u32
  tam_sum_ack_latency_ms :: u32
  tam_min_ack_latency_ms :: "u32 option"
  tam_max_ack_latency_ms :: "u32 option"
  tam_num_handle_status_latency_meas :: u32
  tam_sum_handle_status_latency_us :: u32
  tam_min_handle_status_latency_us :: "u32 option"
  tam_max_handle_status_latency_us :: "u32 option"
  tam_max_processed_acks :: "u32 option"
  tam_max_processed_nacks :: "u32 option"
  tam_poll_latency :: rlc_am_tx_metrics_poll_latency

definition tam_init :: rlc_am_tx_metrics_lower where
  "tam_init = \<lparr>tam_num_pdus_with_segmentation = 0, tam_num_pdu_bytes_with_segmentation = 0, tam_num_retx_pdus = 0,
     tam_num_retx_pdu_bytes = 0, tam_num_ctrl_pdus = 0, tam_num_ctrl_pdu_bytes = 0, tam_num_ack_latency_meas = 0,
     tam_sum_ack_latency_ms = 0, tam_min_ack_latency_ms = None, tam_max_ack_latency_ms = None,
     tam_num_handle_status_latency_meas = 0, tam_sum_handle_status_latency_us = 0, tam_min_handle_status_latency_us = None,
     tam_max_handle_status_latency_us = None, tam_max_processed_acks = None, tam_max_processed_nacks = None,
     tam_poll_latency = \<lparr>tpl_num_latency_meas = 0, tpl_sum_latency_us = 0, tpl_min_latency_us = None, tpl_max_latency_us = None\<rparr>\<rparr>"

text \<open>\<open>rlc_am_tx_metrics_lower::reset\<close>; it does not reset the last three members.\<close>

definition tam_reset :: "rlc_am_tx_metrics_lower \<Rightarrow> rlc_am_tx_metrics_lower" where
  "tam_reset m = m\<lparr>tam_num_pdus_with_segmentation := 0, tam_num_pdu_bytes_with_segmentation := 0, tam_num_retx_pdus := 0,
     tam_num_retx_pdu_bytes := 0, tam_num_ctrl_pdus := 0, tam_num_ctrl_pdu_bytes := 0, tam_num_ack_latency_meas := 0,
     tam_sum_ack_latency_ms := 0, tam_min_ack_latency_ms := None, tam_max_ack_latency_ms := None,
     tam_num_handle_status_latency_meas := 0, tam_sum_handle_status_latency_us := 0, tam_min_handle_status_latency_us := None,
     tam_max_handle_status_latency_us := None\<rparr>"

datatype rlc_tx_mode_metrics =
    Tm_tx_metrics u32
  | Um_tx_metrics u32 u32
  | Am_tx_metrics rlc_am_tx_metrics_lower

record rlc_tx_metrics_low =
  rtl_enabled :: bool
  rtl_num_pdus_no_segmentation :: u32
  rtl_num_pdu_bytes_no_segmentation :: nat
  rtl_num_of_pulled_sdus :: u32
  rtl_sum_sdu_latency_us :: u32
  rtl_sum_pdu_latency_ns :: u32
  rtl_pdu_latency_hist_ns :: "u32 list"
  rtl_max_pdu_latency_ns :: u32
  rtl_mode_specific :: rlc_tx_mode_metrics
  rtl_counter :: u32

definition pdu_latency_hist_bins :: nat where
  "pdu_latency_hist_bins = 8"

definition nof_usec_per_bin :: u32 where
  "nof_usec_per_bin = 1"

definition rtl_create :: "bool \<Rightarrow> rlc_tx_metrics_low" where
  "rtl_create enabled = \<lparr>rtl_enabled = enabled, rtl_num_pdus_no_segmentation = 0, rtl_num_pdu_bytes_no_segmentation = 0,
     rtl_num_of_pulled_sdus = 0, rtl_sum_sdu_latency_us = 0, rtl_sum_pdu_latency_ns = 0,
     rtl_pdu_latency_hist_ns = replicate pdu_latency_hist_bins 0, rtl_max_pdu_latency_ns = 0,
     rtl_mode_specific = Tm_tx_metrics 0, rtl_counter = 0\<rparr>"

definition rtl_set_mode :: "rlc_mode \<Rightarrow> rlc_tx_metrics_low \<Rightarrow> rlc_tx_metrics_low" where
  "rtl_set_mode mode m =
     (if \<not> rtl_enabled m then m
      else m\<lparr>rtl_mode_specific :=
        (case mode of Mode_tm \<Rightarrow> Tm_tx_metrics 0 | Mode_am \<Rightarrow> Am_tx_metrics tam_init | _ \<Rightarrow> Um_tx_metrics 0 0)\<rparr>)"

definition rtl_add_pdus_no_segmentation :: "u32 \<Rightarrow> nat \<Rightarrow> rlc_tx_metrics_low \<Rightarrow> rlc_tx_metrics_low" where
  "rtl_add_pdus_no_segmentation n len m =
     (if \<not> rtl_enabled m then m
      else m\<lparr>rtl_num_pdus_no_segmentation := rtl_num_pdus_no_segmentation m + n,
             rtl_num_pdu_bytes_no_segmentation := rtl_num_pdu_bytes_no_segmentation m + len\<rparr>)"

definition rtl_add_pulled_sdus :: "u32 \<Rightarrow> rlc_tx_metrics_low \<Rightarrow> rlc_tx_metrics_low" where
  "rtl_add_pulled_sdus n m = (if \<not> rtl_enabled m then m else m\<lparr>rtl_num_of_pulled_sdus := rtl_num_of_pulled_sdus m + n\<rparr>)"

definition rtl_add_sdu_latency_us :: "u32 \<Rightarrow> rlc_tx_metrics_low \<Rightarrow> rlc_tx_metrics_low" where
  "rtl_add_sdu_latency_us n m = (if \<not> rtl_enabled m then m else m\<lparr>rtl_sum_sdu_latency_us := rtl_sum_sdu_latency_us m + n\<rparr>)"

definition rtl_add_pdu_latency_ns :: "u32 \<Rightarrow> rlc_tx_metrics_low \<Rightarrow> rlc_tx_metrics_low" where
  "rtl_add_pdu_latency_ns pdu_latency m =
     (if \<not> rtl_enabled m then m
      else
        let bin_idx = min (unat (pdu_latency div (1000 * nof_usec_per_bin))) (pdu_latency_hist_bins - 1) in
        m\<lparr>rtl_sum_pdu_latency_ns := rtl_sum_pdu_latency_ns m + pdu_latency,
          rtl_pdu_latency_hist_ns := (rtl_pdu_latency_hist_ns m)[bin_idx := rtl_pdu_latency_hist_ns m ! bin_idx + 1],
          rtl_max_pdu_latency_ns := max pdu_latency (rtl_max_pdu_latency_ns m)\<rparr>)"

text \<open>The mode-specific counters assert that the mode is the right one.\<close>

definition rtl_add_small_alloc :: "u32 \<Rightarrow> rlc_tx_metrics_low \<Rightarrow> rlc_tx_metrics_low run" where
  "rtl_add_small_alloc n m =
     (if \<not> rtl_enabled m then Inr m
      else case rtl_mode_specific m of
        Tm_tx_metrics allocs \<Rightarrow> Inr (m\<lparr>rtl_mode_specific := Tm_tx_metrics (allocs + n)\<rparr>)
      | _ \<Rightarrow> Inl Bad_argument)"

definition rtl_add_pdus_with_segmentation_um :: "u32 \<Rightarrow> nat \<Rightarrow> rlc_tx_metrics_low \<Rightarrow> rlc_tx_metrics_low run" where
  "rtl_add_pdus_with_segmentation_um n len m =
     (if \<not> rtl_enabled m then Inr m
      else case rtl_mode_specific m of
        Um_tx_metrics pdus pdu_bytes \<Rightarrow> Inr (m\<lparr>rtl_mode_specific := Um_tx_metrics (pdus + n) (pdu_bytes + of_nat len)\<rparr>)
      | _ \<Rightarrow> Inl Bad_argument)"

definition rtl_update_am :: "(rlc_am_tx_metrics_lower \<Rightarrow> rlc_am_tx_metrics_lower) \<Rightarrow> rlc_tx_metrics_low \<Rightarrow> rlc_tx_metrics_low run" where
  "rtl_update_am f m =
     (if \<not> rtl_enabled m then Inr m
      else case rtl_mode_specific m of
        Am_tx_metrics am \<Rightarrow> Inr (m\<lparr>rtl_mode_specific := Am_tx_metrics (f am)\<rparr>)
      | _ \<Rightarrow> Inl Bad_argument)"

definition rtl_add_pdus_with_segmentation_am :: "u32 \<Rightarrow> nat \<Rightarrow> rlc_tx_metrics_low \<Rightarrow> rlc_tx_metrics_low run" where
  "rtl_add_pdus_with_segmentation_am n len = rtl_update_am (\<lambda>am.
     am\<lparr>tam_num_pdus_with_segmentation := tam_num_pdus_with_segmentation am + n,
        tam_num_pdu_bytes_with_segmentation := tam_num_pdu_bytes_with_segmentation am + of_nat len\<rparr>)"

definition rtl_add_retx_pdus :: "u32 \<Rightarrow> nat \<Rightarrow> rlc_tx_metrics_low \<Rightarrow> rlc_tx_metrics_low run" where
  "rtl_add_retx_pdus n len = rtl_update_am (\<lambda>am.
     am\<lparr>tam_num_retx_pdus := tam_num_retx_pdus am + n, tam_num_retx_pdu_bytes := tam_num_retx_pdu_bytes am + of_nat len\<rparr>)"

definition rtl_add_ctrl_pdus :: "u32 \<Rightarrow> nat \<Rightarrow> rlc_tx_metrics_low \<Rightarrow> rlc_tx_metrics_low run" where
  "rtl_add_ctrl_pdus n len = rtl_update_am (\<lambda>am.
     am\<lparr>tam_num_ctrl_pdus := tam_num_ctrl_pdus am + n, tam_num_ctrl_pdu_bytes := tam_num_ctrl_pdu_bytes am + of_nat len\<rparr>)"

text \<open>\<open>x ? min(*x, y) : y\<close>, and \<open>std::max\<close> of an optional value and a value.\<close>

definition opt_min :: "u32 option \<Rightarrow> u32 \<Rightarrow> u32 option" where
  "opt_min x y = Some (case x of None \<Rightarrow> y | Some v \<Rightarrow> min v y)"

definition opt_max :: "u32 option \<Rightarrow> u32 \<Rightarrow> u32 option" where
  "opt_max x y = Some (case x of None \<Rightarrow> y | Some v \<Rightarrow> max v y)"

definition opt_less :: "u32 option \<Rightarrow> u32 \<Rightarrow> bool" where
  "opt_less x y \<longleftrightarrow> (case x of None \<Rightarrow> True | Some v \<Rightarrow> v < y)"

definition rtl_add_ack_latency_ms :: "u32 \<Rightarrow> rlc_tx_metrics_low \<Rightarrow> rlc_tx_metrics_low run" where
  "rtl_add_ack_latency_ms latency = rtl_update_am (\<lambda>am.
     am\<lparr>tam_sum_ack_latency_ms := tam_sum_ack_latency_ms am + latency,
        tam_num_ack_latency_meas := tam_num_ack_latency_meas am + 1,
        tam_min_ack_latency_ms := opt_min (tam_min_ack_latency_ms am) latency,
        tam_max_ack_latency_ms := opt_max (tam_max_ack_latency_ms am) latency\<rparr>)"

definition rtl_add_handle_status_latency_us :: "u32 \<Rightarrow> u32 \<Rightarrow> u32 \<Rightarrow> rlc_tx_metrics_low \<Rightarrow> rlc_tx_metrics_low run" where
  "rtl_add_handle_status_latency_us processed_acks processed_nacks latency = rtl_update_am (\<lambda>am.
     (let am = am\<lparr>tam_sum_handle_status_latency_us := tam_sum_handle_status_latency_us am + latency,
                  tam_num_handle_status_latency_meas := tam_num_handle_status_latency_meas am + 1,
                  tam_min_handle_status_latency_us := opt_min (tam_min_handle_status_latency_us am) latency\<rparr> in
      if opt_less (tam_max_handle_status_latency_us am) latency
      then am\<lparr>tam_max_handle_status_latency_us := Some latency, tam_max_processed_acks := Some processed_acks,
              tam_max_processed_nacks := Some processed_nacks\<rparr>
      else am))"

definition rtl_add_poll_latency_us :: "u32 \<Rightarrow> rlc_tx_metrics_low \<Rightarrow> rlc_tx_metrics_low run" where
  "rtl_add_poll_latency_us latency = rtl_update_am (\<lambda>am.
     (let p = tam_poll_latency am;
          p = p\<lparr>tpl_sum_latency_us := tpl_sum_latency_us p + latency, tpl_num_latency_meas := tpl_num_latency_meas p + 1,
                tpl_min_latency_us := opt_min (tpl_min_latency_us p) latency\<rparr> in
      am\<lparr>tam_poll_latency := (if opt_less (tpl_max_latency_us p) latency then p\<lparr>tpl_max_latency_us := Some latency\<rparr> else p)\<rparr>))"

definition rtl_get_metrics :: "rlc_tx_metrics_low \<Rightarrow> (rlc_tx_metrics_low \<times> rlc_tx_metrics_low) run" where
  "rtl_get_metrics m =
     (if \<not> rtl_enabled m then Inl Bad_argument else Inr (m, m\<lparr>rtl_counter := rtl_counter m + 1\<rparr>))"

definition rtl_reset_metrics :: "rlc_tx_metrics_low \<Rightarrow> rlc_tx_metrics_low run" where
  "rtl_reset_metrics m =
     (if \<not> rtl_enabled m then Inl Bad_argument
      else Inr (m\<lparr>rtl_num_pdus_no_segmentation := 0, rtl_num_pdu_bytes_no_segmentation := 0, rtl_num_of_pulled_sdus := 0,
             rtl_sum_sdu_latency_us := 0, rtl_sum_pdu_latency_ns := 0,
             rtl_pdu_latency_hist_ns := replicate pdu_latency_hist_bins 0, rtl_max_pdu_latency_ns := 0,
             rtl_mode_specific :=
               (case rtl_mode_specific m of
                  Tm_tx_metrics _ \<Rightarrow> Tm_tx_metrics 0
                | Um_tx_metrics _ _ \<Rightarrow> Um_tx_metrics 0 0
                | Am_tx_metrics am \<Rightarrow> Am_tx_metrics (tam_reset am))\<rparr>))"

definition rtl_get_and_reset_metrics :: "rlc_tx_metrics_low \<Rightarrow> (rlc_tx_metrics_low \<times> rlc_tx_metrics_low) run" where
  "rtl_get_and_reset_metrics m =
     seq_run (rtl_get_metrics m) (\<lambda>(ret, m). seq_run (rtl_reset_metrics m) (\<lambda>m. Inr (ret, m)))"

text \<open>While metrics are enabled, the mode of an AM entity is AM, and no counter of it fails.\<close>

definition tx_am_metrics_ok :: "rlc_tx_metrics_low \<Rightarrow> bool" where
  "tx_am_metrics_ok m \<longleftrightarrow> (rtl_enabled m \<longrightarrow> (\<exists>am. rtl_mode_specific m = Am_tx_metrics am))"

lemma rtl_update_am_ok:
  assumes "tx_am_metrics_ok m"
  obtains m' where "rtl_update_am f m = Inr m'" and "tx_am_metrics_ok m'"
proof -
  have "\<exists>m'. rtl_update_am f m = Inr m' \<and> tx_am_metrics_ok m'"
    using assms by (auto simp: tx_am_metrics_ok_def rtl_update_am_def)
  then show ?thesis using that by blast
qed

lemma tx_am_metrics_ok_add [simp]:
  "tx_am_metrics_ok (rtl_add_pdus_no_segmentation n len m) = tx_am_metrics_ok m"
  "tx_am_metrics_ok (rtl_add_pulled_sdus n m) = tx_am_metrics_ok m"
  "tx_am_metrics_ok (rtl_add_sdu_latency_us n m) = tx_am_metrics_ok m"
  "tx_am_metrics_ok (rtl_add_pdu_latency_ns n m) = tx_am_metrics_ok m"
  by (simp_all add: tx_am_metrics_ok_def rtl_add_pdus_no_segmentation_def rtl_add_pulled_sdus_def
      rtl_add_sdu_latency_us_def rtl_add_pdu_latency_ns_def Let_def)

lemma tx_am_metrics_ok_create: "tx_am_metrics_ok (rtl_set_mode Mode_am (rtl_create en))"
  by (simp add: tx_am_metrics_ok_def rtl_set_mode_def rtl_create_def)

end
