(* ===== verification/Rlc_Tx_Am.thy ===== *)
theory Rlc_Tx_Am
  imports Rlc_Rx_Am Rlc_Sdu_Queue Rlc_Retx_Queue Rlc_Tx_Metrics Pdcp_Header
begin

text \<open>
  The transmitting entity of the acknowledged mode, \<open>lib/rlc/rlc_tx_am_entity.h\<close> and
  \<open>rlc_tx_am_entity.cpp\<close>: the state with its window, building PDUs from new and retransmitted SDUs, the
  handling of status reports, polling, and the buffer state.

  The receiving entity of the same bearer, the status provider, is an argument of the operations that
  use it. What the entity calls in other layers is appended to a list of events, the tasks it hands to
  the two executors to lists of tasks; an executor that does not accept a task drops it. A timer is the
  fact that it is running. Latencies that the code reads from the clock are given by the environment.
  Logging and packet capture are left out.
\<close>

section \<open>State\<close>

record rlc_tx_am_config =
  tac_sn_field_length :: rlc_am_sn_size
  tac_pdcp_sn_len :: pdcp_sn_size
  tac_t_poll_retx :: int
  tac_max_retx_thresh :: u32
  tac_poll_pdu :: int
  tac_poll_byte :: int
  tac_queue_size :: u32
  tac_queue_size_bytes :: u32
  tac_max_window :: u32

record rlc_tx_am_sdu_info =
  ti_sdu :: bytes
  ti_is_retx :: bool
  ti_pdcp_sn :: "u32 option"
  ti_toa :: nat      \<comment> \<open>\<open>time_of_arrival\<close>\<close>
  ti_tod :: nat      \<comment> \<open>\<open>time_of_departure\<close>\<close>
  ti_next_so :: u32
  ti_retx_count :: u32

definition retx_count_not_started :: u32 where
  "retx_count_not_started = 0xffffffff"

record rlc_tx_am_state =
  tx_next_ack :: u32
  tx_next :: u32
  poll_sn :: u32
  pdu_without_poll :: u32
  byte_without_poll :: u32

record rlc_buffer_state =
  bs_pending_bytes :: u32
  bs_hol_toa :: "nat option"

definition bs_init :: rlc_buffer_state where
  "bs_init = \<lparr>bs_pending_bytes = 0, bs_hol_toa = None\<rparr>"

text \<open>\<open>MAX_DL_PDU_LENGTH\<close>\<close>

definition max_dl_pdu_length :: nat where
  "max_dl_pdu_length = 171600"

datatype rlc_tx_event =
    Rlc_transmitted u32 u32
  | Rlc_retransmitted u32
  | Rlc_delivered u32
  | Rlc_delivered_retx u32
  | Rlc_max_retx
  | Rlc_protocol_failure
  | Rlc_buffer_state rlc_buffer_state

datatype pcell_task =
    Handle_status_task rlc_am_status_pdu
  | Update_buffer_state_task
  | Stop_lower_task

datatype ue_task =
    Protocol_failure_task
  | Clear_recycler_task

record rlc_tx_am_entity =
  ta_cfg :: rlc_tx_am_config
  ta_is_srb :: bool
  ta_st :: rlc_tx_am_state
  ta_sdu_queue :: rlc_sdu_queue
  sn_under_segmentation :: u32
  ta_retx_queue :: rlc_retx_queue
  ta_retx_sn :: u32
  ta_window :: "rlc_tx_am_sdu_info sdu_window"
  recycle_bin :: "bytes list"
  poll_retransmit_timer :: bool
  prev_buffer_state :: rlc_buffer_state
  suspend_bs_notif_barring :: bool
  pending_buffer_state :: bool
  ta_stopped_upper :: bool
  ta_stopped_lower :: bool
  max_retx_reached :: bool
  ta_metrics_high :: rlc_tx_metrics_high
  ta_metrics_low :: rlc_tx_metrics_low
  ta_events :: "rlc_tx_event list"
  pcell_tasks :: "pcell_task list"
  ue_tasks :: "ue_task list"

text \<open>What one call takes from its environment.\<close>

record tx_am_env =
  te_ue_ok :: bool      \<comment> \<open>the UE executor accepts tasks\<close>
  te_pcell_ok :: bool   \<comment> \<open>the cell executor accepts tasks\<close>
  te_now :: nat
  te_sdu_latency :: u32
  te_pdu_latency :: u32
  te_ack_latency :: "u32 \<Rightarrow> u32"
  te_status_latency :: u32
  te_poll_latency :: u32

definition tx_am_env_init :: tx_am_env where
  "tx_am_env_init = \<lparr>te_ue_ok = True, te_pcell_ok = True, te_now = 0, te_sdu_latency = 0, te_pdu_latency = 0,
     te_ack_latency = (\<lambda>_. 0), te_status_latency = 0, te_poll_latency = 0\<rparr>"

abbreviation ta_size :: "rlc_tx_am_entity \<Rightarrow> rlc_am_sn_size" where
  "ta_size s \<equiv> tac_sn_field_length (ta_cfg s)"

abbreviation ta_mod :: "rlc_tx_am_entity \<Rightarrow> u32" where
  "ta_mod s \<equiv> am_mod_of (ta_size s)"

abbreviation head_min_size :: "rlc_tx_am_entity \<Rightarrow> nat" where
  "head_min_size s \<equiv> rlc_am_pdu_header_min_size (ta_size s)"

abbreviation head_max_size :: "rlc_tx_am_entity \<Rightarrow> nat" where
  "head_max_size s \<equiv> rlc_am_pdu_header_max_size (ta_size s)"

definition rlc_tx_am_create :: "rlc_tx_am_config \<Rightarrow> bool \<Rightarrow> bool \<Rightarrow> rlc_tx_am_entity run" where
  "rlc_tx_am_create cfg is_srb metrics_enabled =
     (let w = unat (am_window_size_of (tac_sn_field_length cfg)) in
      seq_run (win_create w) (\<lambda>window.
      if tac_pdcp_sn_len cfg \<noteq> Size12bits \<and> tac_pdcp_sn_len cfg \<noteq> Size18bits then Inl Bad_argument
      else Inr \<lparr>ta_cfg = cfg, ta_is_srb = is_srb,
        ta_st = \<lparr>tx_next_ack = 0, tx_next = 0, poll_sn = 0, pdu_without_poll = 0, byte_without_poll = 0\<rparr>,
        ta_sdu_queue = sq_create (tac_queue_size cfg) (tac_queue_size_bytes cfg),
        sn_under_segmentation = invalid_rlc_sn, ta_retx_queue = rq_create w, ta_retx_sn = invalid_rlc_sn,
        ta_window = window, recycle_bin = [], poll_retransmit_timer = False, prev_buffer_state = bs_init,
        suspend_bs_notif_barring = True, pending_buffer_state = False, ta_stopped_upper = False, ta_stopped_lower = False,
        max_retx_reached = False, ta_metrics_high = rth_create metrics_enabled,
        ta_metrics_low = rtl_set_mode Mode_am (rtl_create metrics_enabled),
        ta_events = [], pcell_tasks = [], ue_tasks = []\<rparr>))"

definition emit :: "rlc_tx_event \<Rightarrow> rlc_tx_am_entity \<Rightarrow> rlc_tx_am_entity" where
  "emit ev s = s\<lparr>ta_events := ta_events s @ [ev]\<rparr>"

definition ue_defer :: "tx_am_env \<Rightarrow> ue_task \<Rightarrow> rlc_tx_am_entity \<Rightarrow> rlc_tx_am_entity" where
  "ue_defer env t s = (if te_ue_ok env then s\<lparr>ue_tasks := ue_tasks s @ [t]\<rparr> else s)"

definition pcell_defer :: "tx_am_env \<Rightarrow> pcell_task \<Rightarrow> rlc_tx_am_entity \<Rightarrow> rlc_tx_am_entity" where
  "pcell_defer env t s = (if te_pcell_ok env then s\<lparr>pcell_tasks := pcell_tasks s @ [t]\<rparr> else s)"

definition tx_am_stop :: "tx_am_env \<Rightarrow> rlc_tx_am_entity \<Rightarrow> rlc_tx_am_entity" where
  "tx_am_stop env s =
     (if ta_stopped_upper s then s else pcell_defer env Stop_lower_task (s\<lparr>ta_stopped_upper := True\<rparr>))"

section \<open>Window helpers\<close>

definition tx_mod_base :: "rlc_tx_am_entity \<Rightarrow> u32 \<Rightarrow> u32" where
  "tx_mod_base s x = mod_base (ta_mod s) (tx_next_ack (ta_st s)) x"

definition inside_tx_window :: "rlc_tx_am_entity \<Rightarrow> u32 \<Rightarrow> bool" where
  "inside_tx_window s sn \<longleftrightarrow> tx_mod_base s sn < am_window_size_of (ta_size s)"

definition is_tx_window_full :: "rlc_tx_am_entity \<Rightarrow> bool" where
  "is_tx_window_full s \<longleftrightarrow> win_full (ta_window s) \<or>
     (tac_max_window (ta_cfg s) \<noteq> 0 \<and> tac_max_window (ta_cfg s) < tx_mod_base s (tx_next (ta_st s)))"

definition tx_valid_ack_sn :: "rlc_tx_am_entity \<Rightarrow> u32 \<Rightarrow> bool" where
  "tx_valid_ack_sn s sn \<longleftrightarrow> 0 < tx_mod_base s sn \<and> tx_mod_base s sn \<le> am_window_size_of (ta_size s)"

text \<open>
  The condition \<open>if (ue_executor.defer(...)) log_error\<close> is as the code has it: whether the task was
  accepted only decides on a log line.
\<close>

definition valid_nack :: "tx_am_env \<Rightarrow> u32 \<Rightarrow> rlc_am_status_nack \<Rightarrow> rlc_tx_am_entity \<Rightarrow> bool \<times> rlc_tx_am_entity" where
  "valid_nack env ack_sn nack s =
     (let range_end = nack_sn nack + ucast (nack_range nack) - 1 in
      if tx_mod_base s ack_sn \<le> tx_mod_base s (nack_sn nack) then (False, s)
      else if has_nack_range nack \<and> tx_mod_base s ack_sn \<le> tx_mod_base s range_end then (False, s)
      else if \<not> inside_tx_window s (nack_sn nack) then (False, s)
      else if has_nack_range nack \<and> \<not> inside_tx_window s range_end then (False, s)
      else if tx_mod_base s (tx_next (ta_st s)) < tx_mod_base s (nack_sn nack) then (False, ue_defer env Protocol_failure_task s)
      else if has_nack_range nack \<and> tx_mod_base s (tx_next (ta_st s)) < tx_mod_base s range_end
      then (False, ue_defer env Protocol_failure_task s)
      else (True, s))"

section \<open>The buffer state\<close>

text \<open>The loop that drops the retransmissions of SNs that are not in the window.\<close>

function drop_absent :: "rlc_tx_am_sdu_info sdu_window \<Rightarrow> rlc_retx_queue \<Rightarrow> rlc_retx_queue run" where
  "drop_absent w q =
     (if rq_empty q then Inr q
      else case rq_front q of
        Inl e \<Rightarrow> Inl e
      | Inr retx \<Rightarrow>
          if has_sn w (rt_sn retx) then Inr q
          else (case rq_pop q of Inl e \<Rightarrow> Inl e | Inr q' \<Rightarrow> drop_absent w q'))"
  by auto
termination
  by (relation "measure (\<lambda>(w, q). rq_size q)") (auto dest: rq_pop_size)

declare drop_absent.simps [simp del]

text \<open>The time of arrival of the SDU that is retransmitted first, if there is one.\<close>

definition retx_hol_toa :: "rlc_tx_am_sdu_info sdu_window \<Rightarrow> rlc_retx_queue \<Rightarrow> nat option \<Rightarrow> nat option run" where
  "retx_hol_toa w q hol_toa =
     (if rq_empty q then Inr hol_toa
      else seq_run (rq_front q) (\<lambda>retx. seq_run (win_at w (rt_sn retx)) (\<lambda>info. Inr (Some (ti_toa info)))))"

definition get_buffer_state :: "rlc_rx_am_entity \<Rightarrow> rlc_tx_am_entity \<Rightarrow> (rlc_buffer_state \<times> rlc_tx_am_entity) run" where
  "get_buffer_state rx s =
     (let (n_sdus, n_bytes) = sq_get_state (ta_sdu_queue s);
          queue_bytes = n_bytes + n_sdus * of_nat (head_min_size s) in
      seq_run
        (if sn_under_segmentation s \<noteq> invalid_rlc_sn
         then if has_sn (ta_window s) (sn_under_segmentation s)
              then seq_run (win_at (ta_window s) (sn_under_segmentation s)) (\<lambda>info.
                   Inr (of_nat (length (ti_sdu info)) - ti_next_so info + of_nat (head_max_size s), Some (ti_toa info), s))
              else Inr (0, None, s)
         else (case sq_front (ta_sdu_queue s) of
                 (None, q) \<Rightarrow> Inr (0, None, s\<lparr>ta_sdu_queue := q\<rparr>)
               | (Some sdu, q) \<Rightarrow> Inr (0, Some (sdu_toa sdu), s\<lparr>ta_sdu_queue := q\<rparr>)))
        (\<lambda>(segment_bytes, hol_toa, s).
      (let st = rq_st (ta_retx_queue s);
           retx_bytes = rqs_bytes st + rqs_so_zero st * of_nat (head_min_size s) + rqs_so_nonzero st * of_nat (head_max_size s) in
      seq_run (drop_absent (ta_window s) (ta_retx_queue s)) (\<lambda>q.
      seq_run (retx_hol_toa (ta_window s) q hol_toa) (\<lambda>hol_toa.
      (let s = s\<lparr>ta_retx_queue := q\<rparr>;
           status_bytes = (if status_report_required rx then get_status_pdu_length rx else 0);
           pending = queue_bytes + segment_bytes + retx_bytes + status_bytes in
       Inr (\<lparr>bs_pending_bytes = pending, bs_hol_toa = hol_toa\<rparr>,
            if unat pending \<le> max_dl_pdu_length then s\<lparr>suspend_bs_notif_barring := True\<rparr> else s)))))))"

text \<open>\<open>operator<\<close> on optional time points.\<close>

definition toa_less :: "nat option \<Rightarrow> nat option \<Rightarrow> bool" where
  "toa_less a b \<longleftrightarrow> (case b of None \<Rightarrow> False | Some y \<Rightarrow> (case a of None \<Rightarrow> True | Some x \<Rightarrow> x < y))"

definition update_mac_buffer_state :: "bool \<Rightarrow> rlc_rx_am_entity \<Rightarrow> rlc_tx_am_entity \<Rightarrow> rlc_tx_am_entity run" where
  "update_mac_buffer_state force_notify rx s =
     seq_run (get_buffer_state rx (s\<lparr>pending_buffer_state := False\<rparr>)) (\<lambda>(bs, s).
       (let prev = prev_buffer_state s;
            notify = (force_notify \<or> unat (bs_pending_bytes bs) \<le> max_dl_pdu_length \<or>
              unat (bs_pending_bytes prev) \<le> max_dl_pdu_length \<or> suspend_bs_notif_barring s \<or>
              toa_less (bs_hol_toa bs) (bs_hol_toa prev));
            s = (if notify then emit (Rlc_buffer_state bs) (s\<lparr>suspend_bs_notif_barring := False\<rparr>) else s) in
        Inr (s\<lparr>prev_buffer_state := bs\<rparr>)))"

definition handle_changed_buffer_state :: "tx_am_env \<Rightarrow> rlc_tx_am_entity \<Rightarrow> rlc_tx_am_entity" where
  "handle_changed_buffer_state env s =
     (if pending_buffer_state s then s
      else pcell_defer env Update_buffer_state_task (s\<lparr>pending_buffer_state := True\<rparr>))"

definition on_status_report_changed :: "tx_am_env \<Rightarrow> rlc_tx_am_entity \<Rightarrow> rlc_tx_am_entity" where
  "on_status_report_changed env s = handle_changed_buffer_state env s"

section \<open>SDUs from the upper layer\<close>

definition tx_handle_sdu :: "tx_am_env \<Rightarrow> bytes \<Rightarrow> bool \<Rightarrow> rlc_tx_am_entity \<Rightarrow> rlc_tx_am_entity" where
  "tx_handle_sdu env buf is_retx s =
     (let sdu = \<lparr>sdu_buf = buf, sdu_is_retx = is_retx,
                 sdu_pdcp_sn = get_pdcp_sn buf (tac_pdcp_sn_len (ta_cfg s)) (ta_is_srb s), sdu_toa = te_now env\<rparr>;
          sdu = (if ta_is_srb s \<and> sdu_is_retx sdu then sdu\<lparr>sdu_is_retx := False\<rparr> else sdu);
          (ok, q) = sq_write sdu (ta_sdu_queue s);
          s = s\<lparr>ta_sdu_queue := q\<rparr> in
      if ok then handle_changed_buffer_state env (s\<lparr>ta_metrics_high := rth_add_sdus 1 (length buf) (ta_metrics_high s)\<rparr>)
      else s\<lparr>ta_metrics_high := rth_add_lost_sdus 1 (ta_metrics_high s)\<rparr>)"

definition tx_discard_sdu :: "tx_am_env \<Rightarrow> u32 \<Rightarrow> rlc_tx_am_entity \<Rightarrow> rlc_tx_am_entity" where
  "tx_discard_sdu env pdcp_sn s =
     (let (ok, q) = sq_try_discard pdcp_sn (ta_sdu_queue s);
          s = s\<lparr>ta_sdu_queue := q\<rparr> in
      if ok then handle_changed_buffer_state env (s\<lparr>ta_metrics_high := rth_add_discard 1 (ta_metrics_high s)\<rparr>)
      else s\<lparr>ta_metrics_high := rth_add_discard_failure 1 (ta_metrics_high s)\<rparr>)"

section \<open>Polling\<close>

text \<open>The condition under which nothing more can be sent after a PDU.\<close>

definition nothing_to_send :: "rlc_tx_am_entity \<Rightarrow> bool" where
  "nothing_to_send s \<longleftrightarrow> sq_is_empty (ta_sdu_queue s) \<and> rq_empty (ta_retx_queue s) \<and> sn_under_segmentation s = invalid_rlc_sn
     \<or> is_tx_window_full s"

definition get_polling_bit :: "u32 \<Rightarrow> bool \<Rightarrow> u32 \<Rightarrow> rlc_tx_am_entity \<Rightarrow> u8 \<times> rlc_tx_am_entity" where
  "get_polling_bit sn is_retx payload_size s =
     (let cfg = ta_cfg s;
          s = (if is_retx then s
               else s\<lparr>ta_st := (ta_st s)\<lparr>pdu_without_poll := pdu_without_poll (ta_st s) + 1,
                                        byte_without_poll := byte_without_poll (ta_st s) + payload_size\<rparr>\<rparr>);
          st = ta_st s;
          poll = (\<not> is_retx \<and> (0 < tac_poll_pdu cfg \<and> of_int (tac_poll_pdu cfg) \<le> pdu_without_poll st \<or>
                               0 < tac_poll_byte cfg \<and> of_int (tac_poll_byte cfg) \<le> byte_without_poll st)
                  \<or> nothing_to_send s) in
      if poll
      then (1, s\<lparr>ta_st := st\<lparr>pdu_without_poll := 0, byte_without_poll := 0, poll_sn := if is_retx then poll_sn st else sn\<rparr>,
                poll_retransmit_timer := poll_retransmit_timer s \<or> (0 < tac_t_poll_retx cfg \<and> \<not> ta_stopped_lower s)\<rparr>)
      else (0, s))"

section \<open>Building PDUs\<close>

definition tx_header :: "rlc_tx_am_entity \<Rightarrow> u8 \<Rightarrow> rlc_si_field \<Rightarrow> u32 \<Rightarrow> u16 \<Rightarrow> rlc_am_pdu_header" where
  "tx_header s p si sn so = \<lparr>ah_dc = Rlc_data, ah_p = p, ah_si = si, ah_sn_size = ta_size s, ah_sn = sn, ah_so = so\<rparr>"

text \<open>\<open>copy_segments\<close> into what is left of the grant behind the header.\<close>

definition copy_payload :: "nat \<Rightarrow> bytes \<Rightarrow> bytes \<Rightarrow> bytes" where
  "copy_payload grant_len header src = take (grant_len - length header) src"

definition build_first_sdu_segment :: "nat \<Rightarrow> u32 \<Rightarrow> rlc_tx_am_entity \<Rightarrow> (bytes \<times> rlc_tx_am_entity) run" where
  "build_first_sdu_segment grant_len sn s =
     seq_run (win_at (ta_window s) sn) (\<lambda>info.
       if length (ti_sdu info) + head_min_size s \<le> grant_len then Inr ([], s)
       else if grant_len \<le> head_min_size s then Inr ([], s)
       else
         let segment_payload_len = (of_nat (grant_len - head_min_size s) :: u32);
             s = s\<lparr>sn_under_segmentation := tx_next (ta_st s)\<rparr>;
             (p, s) = get_polling_bit (tx_next (ta_st s)) False segment_payload_len s;
             so = ucast (ti_next_so info) :: u16;
             header = rlc_am_write_data_pdu_header (tx_header s p First_segment (tx_next (ta_st s)) so);
             payload = copy_payload grant_len header (take (unat segment_payload_len) (drop (unat so) (ti_sdu info))) in
         if payload = [] \<or> length payload \<noteq> unat segment_payload_len then Inr ([], s)
         else
           seq_run (win_update sn (\<lambda>info. info\<lparr>ti_next_so := ti_next_so info + segment_payload_len\<rparr>) (ta_window s)) (\<lambda>w.
           seq_run (rtl_add_pdus_with_segmentation_am 1 (length header + length payload) (ta_metrics_low s)) (\<lambda>m.
           Inr (header @ payload, s\<lparr>ta_window := w, ta_metrics_low := m\<rparr>))))"

text \<open>
  \<open>add_sn\<close> of the SDU that was read, and the notification of the upper layer. The poll bit of a full
  SDU is computed with the length of the buffer that was moved into the window, which is 0.
\<close>

definition new_sdu_info :: "tx_am_env \<Rightarrow> rlc_sdu \<Rightarrow> rlc_tx_am_sdu_info" where
  "new_sdu_info env sdu = \<lparr>ti_sdu = sdu_buf sdu, ti_is_retx = sdu_is_retx sdu, ti_pdcp_sn = sdu_pdcp_sn sdu,
     ti_toa = sdu_toa sdu, ti_tod = te_now env, ti_next_so = 0, ti_retx_count = retx_count_not_started\<rparr>"

definition notify_transfer :: "rlc_sdu \<Rightarrow> rlc_tx_am_entity \<Rightarrow> rlc_tx_am_entity" where
  "notify_transfer sdu s =
     (case sdu_pdcp_sn sdu of
        None \<Rightarrow> s
      | Some pdcp_sn \<Rightarrow>
          emit (if sdu_is_retx sdu then Rlc_retransmitted pdcp_sn
                else Rlc_transmitted pdcp_sn (tac_queue_size_bytes (ta_cfg s))) s)"

definition build_full_sdu :: "tx_am_env \<Rightarrow> nat \<Rightarrow> rlc_tx_am_entity \<Rightarrow> (bytes \<times> rlc_tx_am_entity) run" where
  "build_full_sdu env grant_len s =
     seq_run (win_at (ta_window s) (tx_next (ta_st s))) (\<lambda>info.
       let moved_len = 0;
           (p, s) = get_polling_bit (tx_next (ta_st s)) False moved_len s;
           header = rlc_am_write_data_pdu_header (tx_header s p Full_sdu (tx_next (ta_st s)) 0);
           payload = copy_payload grant_len header (ti_sdu info) in
       if payload = [] then Inr ([], s)
       else
         let m = rtl_add_pulled_sdus 1 (rtl_add_sdu_latency_us (te_sdu_latency env) (ta_metrics_low s)) in
         Inr (header @ payload,
              s\<lparr>ta_st := (ta_st s)\<lparr>tx_next := (tx_next (ta_st s) + 1) mod ta_mod s\<rparr>,
                ta_metrics_low := rtl_add_pdus_no_segmentation 1 (length header + length payload) m\<rparr>))"

definition build_new_pdu :: "tx_am_env \<Rightarrow> nat \<Rightarrow> rlc_tx_am_entity \<Rightarrow> (bytes \<times> rlc_tx_am_entity) run" where
  "build_new_pdu env grant_len s =
     (if grant_len \<le> head_min_size s then Inr ([], s)
      else if is_tx_window_full s then Inr ([], s)
      else case sq_read (ta_sdu_queue s) of
        (None, q) \<Rightarrow> Inr ([], s\<lparr>ta_sdu_queue := q\<rparr>)
      | (Some sdu, q) \<Rightarrow>
          seq_run (add_sn (tx_next (ta_st s)) (new_sdu_info env sdu) (ta_window s)) (\<lambda>w.
          (let s = notify_transfer sdu (s\<lparr>ta_sdu_queue := q, ta_window := w\<rparr>) in
           if grant_len < length (sdu_buf sdu) + head_min_size s
           then build_first_sdu_segment grant_len (tx_next (ta_st s)) s
           else build_full_sdu env grant_len s)))"

definition build_continued_sdu_segment :: "tx_am_env \<Rightarrow> nat \<Rightarrow> u32 \<Rightarrow> rlc_tx_am_entity \<Rightarrow> (bytes \<times> rlc_tx_am_entity) run" where
  "build_continued_sdu_segment env grant_len sn s =
     seq_run (win_at (ta_window s) sn) (\<lambda>info.
       if ti_next_so info = 0 then Inr ([], s\<lparr>sn_under_segmentation := invalid_rlc_sn\<rparr>)
       else if length (ti_sdu info) \<le> unat (ti_next_so info) then Inr ([], s\<lparr>sn_under_segmentation := invalid_rlc_sn\<rparr>)
       else if grant_len \<le> head_max_size s then Inr ([], s)
       else
         let rest = (of_nat (length (ti_sdu info) - unat (ti_next_so info)) :: u32);
             is_last = (\<not> grant_len < unat rest + head_max_size s);
             segment_payload_len = (if is_last then rest else of_nat (grant_len - head_max_size s));
             si = (if is_last then Last_segment else Middle_segment);
             s = (if is_last then s\<lparr>sn_under_segmentation := invalid_rlc_sn\<rparr> else s);
             (p, s) = get_polling_bit (tx_next (ta_st s)) False segment_payload_len s;
             so = ucast (ti_next_so info) :: u16;
             header = rlc_am_write_data_pdu_header (tx_header s p si (tx_next (ta_st s)) so);
             payload = copy_payload grant_len header (take (unat segment_payload_len) (drop (unat so) (ti_sdu info))) in
         if payload = [] \<or> length payload \<noteq> unat segment_payload_len then Inr ([], s)
         else
           seq_run (win_update sn (\<lambda>info. info\<lparr>ti_next_so := ti_next_so info + segment_payload_len\<rparr>) (ta_window s)) (\<lambda>w.
           (let s = s\<lparr>ta_window := w\<rparr>;
                s = (if is_last
                     then s\<lparr>ta_metrics_low := rtl_add_pulled_sdus 1 (rtl_add_sdu_latency_us (te_sdu_latency env) (ta_metrics_low s)),
                            ta_st := (ta_st s)\<lparr>tx_next := (tx_next (ta_st s) + 1) mod ta_mod s\<rparr>\<rparr>
                     else s) in
            seq_run (rtl_add_pdus_with_segmentation_am 1 (length header + length payload) (ta_metrics_low s)) (\<lambda>m.
            Inr (header @ payload, s\<lparr>ta_metrics_low := m\<rparr>)))))"

definition get_retx_expected_hdr_len :: "rlc_tx_amd_retx \<Rightarrow> rlc_tx_am_entity \<Rightarrow> nat" where
  "get_retx_expected_hdr_len retx s = (if rt_so retx = 0 then head_min_size s else head_max_size s)"

definition retx_si :: "u32 \<Rightarrow> bool \<Rightarrow> rlc_si_field" where
  "retx_si so sdu_complete =
     (if so = 0 then (if sdu_complete then Full_sdu else First_segment)
      else (if sdu_complete then Last_segment else Middle_segment))"

text \<open>The front of the queue once \<open>len\<close> bytes of it are sent.\<close>

definition advance_retx_queue :: "rlc_tx_amd_retx \<Rightarrow> nat \<Rightarrow> rlc_tx_am_sdu_info \<Rightarrow> rlc_tx_am_entity \<Rightarrow> rlc_tx_am_entity run" where
  "advance_retx_queue retx len info s =
     (if len = unat (rt_length retx)
      then
        let s = (if ti_retx_count info = tac_max_retx_thresh (ta_cfg s) then s\<lparr>max_retx_reached := True\<rparr> else s) in
        seq_run (rq_pop (ta_retx_queue s)) (\<lambda>q. Inr (s\<lparr>ta_retx_queue := q\<rparr>))
      else
        seq_run (rq_front (ta_retx_queue s)) (\<lambda>rest.
        seq_run (rq_replace_front (rest\<lparr>rt_so := rt_so rest + of_nat len, rt_length := rt_length rest - of_nat len\<rparr>) (ta_retx_queue s)) (\<lambda>q.
        Inr (s\<lparr>ta_retx_queue := q\<rparr>))))"

definition build_retx_pdu :: "nat \<Rightarrow> rlc_tx_am_entity \<Rightarrow> (bytes \<times> rlc_tx_am_entity) run" where
  "build_retx_pdu grant_len s =
     seq_run (drop_absent (ta_window s) (ta_retx_queue s)) (\<lambda>q.
     (let s = s\<lparr>ta_retx_queue := q\<rparr> in
      if rq_empty q then Inr ([], s)
      else
        seq_run (rq_front q) (\<lambda>retx.
        (let s = s\<lparr>ta_retx_sn := rt_sn retx\<rparr> in
         seq_run (win_at (ta_window s) (rt_sn retx)) (\<lambda>info.
           if length (ti_sdu info) < unat (rt_so retx + rt_length retx)
           then seq_run (rq_pop q) (\<lambda>q. Inr ([], s\<lparr>ta_retx_queue := q\<rparr>))
           else
             let expected_hdr_len = get_retx_expected_hdr_len retx s in
             if grant_len \<le> expected_hdr_len then Inr ([], s)
             else
               let retx_payload_len = min (unat (rt_length retx)) (grant_len - expected_hdr_len);
                   sdu_complete = (length (ti_sdu info) \<le> unat (rt_so retx) + retx_payload_len) in
               seq_run (advance_retx_queue retx retx_payload_len info s) (\<lambda>s.
               (let (p, s) = get_polling_bit (rt_sn retx) True 0 s;
                    so = ucast (rt_so retx) :: u16;
                    header = rlc_am_write_data_pdu_header (tx_header s p (retx_si (rt_so retx) sdu_complete) (rt_sn retx) so) in
                if length header \<noteq> expected_hdr_len then Inl Bad_argument
                else
                  let payload = copy_payload grant_len header (take retx_payload_len (drop (unat so) (ti_sdu info))) in
                  if payload = [] \<or> length payload \<noteq> retx_payload_len then Inr ([], s)
                  else
                    seq_run (rtl_add_retx_pdus 1 (length header + length payload) (ta_metrics_low s)) (\<lambda>m.
                    Inr (header @ payload, s\<lparr>ta_metrics_low := m\<rparr>)))))))))"

section \<open>Pulling PDUs\<close>

definition add_pdu_latency :: "tx_am_env \<Rightarrow> rlc_tx_am_entity \<Rightarrow> rlc_tx_am_entity" where
  "add_pdu_latency env s = s\<lparr>ta_metrics_low := rtl_add_pdu_latency_ns (te_pdu_latency env) (ta_metrics_low s)\<rparr>"

text \<open>A status PDU. It is trimmed in place, in the buffer of the status provider.\<close>

definition pull_status_pdu :: "tx_am_env \<Rightarrow> nat \<Rightarrow> rlc_rx_am_entity \<Rightarrow> rlc_tx_am_entity \<Rightarrow>
    (bytes \<times> rlc_rx_am_entity \<times> rlc_tx_am_entity) run" where
  "pull_status_pdu env grant_len rx s =
     (if grant_len < unat status_header_size then Inr ([], rx, s)
      else
        let (status, rx) = get_status_pdu (te_ue_ok env) rx;
            (ok, status) = (if grant_len < unat (sp_packed_size status) then status_trim (of_nat grant_len) status else (True, status));
            rx = rx\<lparr>status_reader := status\<rparr> in
        if \<not> ok then Inr ([], rx, s)
        else
          let pdu = status_pack status in
          if pdu = [] then Inr ([], rx, s)
          else seq_run (rtl_add_ctrl_pdus 1 (length pdu) (ta_metrics_low s)) (\<lambda>m.
               Inr (pdu, rx, add_pdu_latency env (s\<lparr>ta_metrics_low := m\<rparr>))))"

definition pull_pdu :: "tx_am_env \<Rightarrow> nat \<Rightarrow> rlc_rx_am_entity \<Rightarrow> rlc_tx_am_entity \<Rightarrow>
    (bytes \<times> rlc_rx_am_entity \<times> rlc_tx_am_entity) run" where
  "pull_pdu env grant_len rx s =
     (if max_retx_reached s then Inr ([], rx, s)
      else if status_report_required rx then pull_status_pdu env grant_len rx s
      else if \<not> rq_empty (ta_retx_queue s)
      then seq_run (build_retx_pdu grant_len s) (\<lambda>(pdu, s). Inr (pdu, rx, add_pdu_latency env s))
      else if sn_under_segmentation s \<noteq> invalid_rlc_sn \<and> has_sn (ta_window s) (sn_under_segmentation s)
      then seq_run (build_continued_sdu_segment env grant_len (sn_under_segmentation s) s) (\<lambda>(pdu, s). Inr (pdu, rx, s))
      else
        let s = s\<lparr>sn_under_segmentation := invalid_rlc_sn\<rparr> in
        if sq_is_empty (ta_sdu_queue s) then Inr ([], rx, s)
        else seq_run (build_new_pdu env grant_len s) (\<lambda>(pdu, s). Inr (pdu, rx, add_pdu_latency env s)))"

section \<open>Status reports\<close>

text \<open>
  The SN that moves towards another one. The loops over ACKs and over a range of NACKs are recursions
  on this distance.
\<close>

lemma towards_measure:
  assumes "mod_base (am_mod_of z) sn stop \<noteq> 0"
  shows "unat (mod_base (am_mod_of z) ((sn + 1) mod am_mod_of z) stop) < unat (mod_base (am_mod_of z) sn stop)"
proof -
  let ?m = "am_mod_of z"
  have m: "ring_size ?m" by (simp add: am_mod_of_def ring_size_am)
  have pos: "1 \<le> unat (mod_base ?m sn stop)" using assms by (simp add: unat_gt_0 Suc_leI)
  have "unat (mod_base ?m (ring_add ?m sn 1) stop) = unat (mod_base ?m sn stop) - 1" by (rule mod_base_shift [OF m pos])
  moreover have "ring_add ?m sn 1 = (sn + 1) mod ?m" by (simp add: ring_add_def)
  ultimately show ?thesis using pos by simp
qed

lemma same_base_towards:
  assumes "mod_base (am_mod_of z) sn stop = 0"
  shows "mod_base (am_mod_of z) b sn = mod_base (am_mod_of z) b stop"
proof -
  let ?m = "am_mod_of z"
  have m: "ring_size ?m" by (simp add: am_mod_of_def ring_size_am)
  have "(uint stop - uint sn) mod uint ?m = 0" using uint_mod_base [OF m, of sn stop] assms by simp
  then have "uint stop mod uint ?m = uint sn mod uint ?m" by (metis mod_eq_dvd_iff dvd_eq_mod_eq_0)
  then have "(uint sn - uint b) mod uint ?m = (uint stop - uint b) mod uint ?m" by (metis mod_diff_left_eq)
  then show ?thesis by (simp add: word_uint_eq_iff uint_mod_base [OF m])
qed

subsection \<open>ACKs\<close>

text \<open>What the loop keeps: the number of processed ACKs, and the SNs to report as delivered.\<close>

record ack_log =
  al_processed :: u32
  al_delivered :: "u32 option"
  al_delivered_retx :: "u32 option"

text \<open>
  One acknowledged SDU of the window: its buffer is moved to the recycle bin, which drops it when it
  is full.
\<close>

definition add_discarded_pdu :: "bytes \<Rightarrow> rlc_tx_am_entity \<Rightarrow> rlc_tx_am_entity" where
  "add_discarded_pdu pdu s =
     (if length (recycle_bin s) < unat (am_window_size_of (ta_size s)) then s\<lparr>recycle_bin := recycle_bin s @ [pdu]\<rparr> else s)"

definition ack_sdu :: "tx_am_env \<Rightarrow> u32 \<Rightarrow> ack_log \<Rightarrow> rlc_tx_am_entity \<Rightarrow> (ack_log \<times> rlc_tx_am_entity) run" where
  "ack_sdu env sn acks s =
     seq_run (win_at (ta_window s) sn) (\<lambda>info.
     (let acks = (case ti_pdcp_sn info of
                    None \<Rightarrow> acks
                  | Some pdcp_sn \<Rightarrow> if ti_is_retx info then acks\<lparr>al_delivered_retx := Some pdcp_sn\<rparr>
                                    else acks\<lparr>al_delivered := Some pdcp_sn\<rparr>) in
      seq_run (rtl_add_ack_latency_ms (te_ack_latency env sn) (ta_metrics_low s)) (\<lambda>m.
      seq_run (remove_sn sn (ta_window s)) (\<lambda>w.
      Inr (acks, add_discarded_pdu (ti_sdu info)
        (s\<lparr>ta_metrics_low := m, ta_window := w,
           ta_st := (ta_st s)\<lparr>tx_next_ack := (sn + 1) mod ta_mod s\<rparr>\<rparr>))))))"

function ack_loop :: "rlc_am_sn_size \<Rightarrow> tx_am_env \<Rightarrow> u32 \<Rightarrow> u32 \<Rightarrow> ack_log \<Rightarrow> rlc_tx_am_entity \<Rightarrow> (ack_log \<times> rlc_tx_am_entity) run" where
  "ack_loop z env stop_sn sn acks s =
     (if mod_base (am_mod_of z) (tx_next_ack (ta_st s)) sn < mod_base (am_mod_of z) (tx_next_ack (ta_st s)) stop_sn
      then
        let acks = acks\<lparr>al_processed := al_processed acks + 1\<rparr> in
        if has_sn (ta_window s) sn
        then (case ack_sdu env sn acks s of
                Inl e \<Rightarrow> Inl e
              | Inr (acks, s) \<Rightarrow> ack_loop z env stop_sn ((sn + 1) mod am_mod_of z) acks s)
        else Inr (acks, s)
      else Inr (acks, s))"
  by auto
termination
proof (relation "measure (\<lambda>(z, env, stop_sn, sn, acks, s). unat (mod_base (am_mod_of z) sn stop_sn))", goal_cases)
  case (2 z env stop_sn sn acks s)
  then have "mod_base (am_mod_of z) sn stop_sn \<noteq> 0" using same_base_towards [of z sn stop_sn "tx_next_ack (ta_st s)"] by auto
  then show ?case by (simp add: towards_measure)
qed simp

declare ack_loop.simps [simp del]

subsection \<open>Retransmission counts\<close>

definition decrement_retx_count :: "u32 \<Rightarrow> rlc_tx_am_entity \<Rightarrow> rlc_tx_am_entity run" where
  "decrement_retx_count sn s =
     seq_run (win_update sn (\<lambda>info.
         if ti_retx_count info = retx_count_not_started then info
         else if ti_retx_count info = 0 then info\<lparr>ti_retx_count := retx_count_not_started\<rparr>
         else info\<lparr>ti_retx_count := ti_retx_count info - 1\<rparr>) (ta_window s)) (\<lambda>w.
     Inr (s\<lparr>ta_window := w\<rparr>))"

definition check_sn_reached_max_retx :: "u32 \<Rightarrow> rlc_tx_am_entity \<Rightarrow> rlc_tx_am_entity run" where
  "check_sn_reached_max_retx sn s =
     seq_run (win_at (ta_window s) sn) (\<lambda>info.
       Inr (if ti_retx_count info = tac_max_retx_thresh (ta_cfg s) then emit Rlc_max_retx s else s))"

definition increment_retx_count :: "u32 \<Rightarrow> rlc_tx_am_entity \<Rightarrow> rlc_tx_am_entity run" where
  "increment_retx_count sn s =
     seq_run (win_update sn (\<lambda>info.
         if ti_retx_count info = retx_count_not_started then info\<lparr>ti_retx_count := 0\<rparr>
         else info\<lparr>ti_retx_count := ti_retx_count info + 1\<rparr>) (ta_window s)) (\<lambda>w.
     check_sn_reached_max_retx sn (s\<lparr>ta_window := w\<rparr>))"

text \<open>Clearing the queue of retransmissions, which rewinds the count of each SN that was not sent again yet.\<close>

function clear_retx_queue :: "rlc_retx_queue \<Rightarrow> rlc_tx_am_entity \<Rightarrow> rlc_tx_am_entity run" where
  "clear_retx_queue q s =
     (if rq_empty q then Inr (s\<lparr>ta_retx_queue := q\<rparr>)
      else case rq_front q of
        Inl e \<Rightarrow> Inl e
      | Inr retx \<Rightarrow>
          (case (if ta_retx_sn s \<noteq> rt_sn retx
                 then seq_run (if has_sn (ta_window s) (rt_sn retx) then decrement_retx_count (rt_sn retx) s else Inr s)
                        (\<lambda>s. Inr (s\<lparr>ta_retx_sn := rt_sn retx\<rparr>))
                 else Inr s) of
             Inl e \<Rightarrow> Inl e
           | Inr s' \<Rightarrow> (case rq_pop q of Inl e \<Rightarrow> Inl e | Inr q' \<Rightarrow> clear_retx_queue q' s')))"
  by auto
termination
  by (relation "measure (\<lambda>(q, s). rq_size q)") (auto dest: rq_pop_size)

declare clear_retx_queue.simps [simp del]

subsection \<open>NACKs\<close>

text \<open>The end of a NACK whose end mark means what was sent of its SDU; \<open>None\<close> when the NACK is ignored.\<close>

definition nack_limits :: "rlc_am_status_nack \<Rightarrow> rlc_tx_am_sdu_info \<Rightarrow> rlc_tx_am_entity \<Rightarrow> rlc_am_status_nack option" where
  "nack_limits nack info s =
     (let sdu_length = of_nat (length (ti_sdu info)) :: u32;
          nack = (if \<not> has_so nack then nack\<lparr>so_start := 0, so_end := ucast (sdu_length - 1)\<rparr> else nack) in
      if so_end nack \<noteq> so_end_of_sdu then Some nack
      else if nack_sn nack \<noteq> sn_under_segmentation s then Some (nack\<lparr>so_end := ucast (sdu_length - 1)\<rparr>)
      else if ti_next_so info = 0 then None
      else if ti_next_so info < ucast (so_start nack) then None
      else if ucast (so_start nack) = ti_next_so info then None
      else Some (nack\<lparr>so_end := ucast (ti_next_so info - 1)\<rparr>))"

text \<open>
  The sanity checks. The last one calls the upper layer at once, and defers the same call to the UE
  executor.
\<close>

definition nack_checks :: "tx_am_env \<Rightarrow> u32 \<Rightarrow> rlc_am_status_nack \<Rightarrow> rlc_tx_am_entity \<Rightarrow> rlc_am_status_nack \<times> rlc_tx_am_entity" where
  "nack_checks env sdu_length nack s =
     (let (nack, s) = (if so_end nack < so_start nack then (nack\<lparr>so_start := 0\<rparr>, ue_defer env Protocol_failure_task s) else (nack, s));
          (nack, s) = (if sdu_length \<le> ucast (so_start nack) then (nack\<lparr>so_start := 0\<rparr>, ue_defer env Protocol_failure_task s) else (nack, s)) in
      if sdu_length \<le> ucast (so_end nack)
      then (nack\<lparr>so_end := ucast (sdu_length - 1)\<rparr>, ue_defer env Protocol_failure_task (emit Rlc_protocol_failure s))
      else (nack, s))"

definition handle_nack :: "tx_am_env \<Rightarrow> rlc_am_status_nack \<Rightarrow> rlc_tx_am_entity \<Rightarrow> (bool \<times> rlc_tx_am_entity) run" where
  "handle_nack env nack s =
     (if has_nack_range nack then Inr (False, s)
      else if \<not> (tx_mod_base s (tx_next_ack (ta_st s)) \<le> tx_mod_base s (nack_sn nack) \<and>
                 tx_mod_base s (nack_sn nack) \<le> tx_mod_base s (tx_next (ta_st s))) then Inr (False, s)
      else
        seq_run (win_at (ta_window s) (nack_sn nack)) (\<lambda>info.
          case nack_limits nack info s of
            None \<Rightarrow> Inr (False, s)
          | Some nack \<Rightarrow>
              (let (nack, s) = nack_checks env (of_nat (length (ti_sdu info))) nack s;
                   retx = \<lparr>rt_sn = nack_sn nack, rt_so = ucast (so_start nack),
                           rt_length = ucast (so_end nack) - ucast (so_start nack) + 1\<rparr>;
                   (ok, q) = rq_try_push retx (ta_retx_queue s) in
               Inr (ok, s\<lparr>ta_retx_queue := q\<rparr>))))"

text \<open>One NACK without a range, and the SN whose count was incremented last.\<close>

definition process_nack :: "tx_am_env \<Rightarrow> rlc_am_status_nack \<Rightarrow> u32 \<Rightarrow> rlc_tx_am_entity \<Rightarrow> (u32 \<times> rlc_tx_am_entity) run" where
  "process_nack env nack prev_retx_sn s =
     seq_run (handle_nack env nack s) (\<lambda>(ok, s).
       if ok \<and> prev_retx_sn \<noteq> nack_sn nack
       then seq_run (increment_retx_count (nack_sn nack) s) (\<lambda>s. Inr (nack_sn nack, s))
       else Inr (prev_retx_sn, s))"

text \<open>The NACK of one SN of a range.\<close>

definition range_nack :: "u32 \<Rightarrow> rlc_am_status_nack \<Rightarrow> u32 \<Rightarrow> rlc_am_status_nack" where
  "range_nack m nack range_sn =
     (let n = nack_init\<lparr>nack_sn := range_sn\<rparr> in
      if \<not> has_so nack then n
      else
        let n = (if range_sn = nack_sn nack then n\<lparr>so_start := so_start nack\<rparr> else n);
            n = (if range_sn = (nack_sn nack + ucast (nack_range nack) - 1) mod m then n\<lparr>so_end := so_end nack\<rparr> else n) in
        n\<lparr>has_so := (so_start n \<noteq> 0 \<or> so_end n \<noteq> so_end_of_sdu)\<rparr>)"

function range_loop :: "rlc_am_sn_size \<Rightarrow> tx_am_env \<Rightarrow> u32 \<Rightarrow> rlc_am_status_nack \<Rightarrow> u32 \<Rightarrow> u32 \<times> u32 \<Rightarrow> rlc_tx_am_entity \<Rightarrow>
    ((u32 \<times> u32) \<times> rlc_tx_am_entity) run" where
  "range_loop z env ack_sn nack range_sn (processed, prev) s =
     (if range_sn = (nack_sn nack + ucast (nack_range nack)) mod am_mod_of z \<or> range_sn = ack_sn then Inr ((processed, prev), s)
      else case process_nack env (range_nack (am_mod_of z) nack range_sn) prev s of
        Inl e \<Rightarrow> Inl e
      | Inr (prev, s) \<Rightarrow> range_loop z env ack_sn nack ((range_sn + 1) mod am_mod_of z) (processed + 1, prev) s)"
  by pat_completeness auto
termination
proof (relation "measure (\<lambda>(z, env, ack_sn, nack, range_sn, acc, s).
    if range_sn < am_mod_of z then unat (mod_base (am_mod_of z) range_sn ((nack_sn nack + ucast (nack_range nack)) mod am_mod_of z))
    else unat (am_mod_of z))", goal_cases)
  case (2 z env ack_sn nack range_sn processed prev s)
  let ?m = "am_mod_of z" and ?e = "(nack_sn nack + ucast (nack_range nack)) mod am_mod_of z"
  have m: "ring_size ?m" by (simp add: am_mod_of_def ring_size_am)
  have pos: "0 < ?m" using ring_size_pos [OF m] by (simp add: word_less_nat_alt)
  have next_lt: "(range_sn + 1) mod ?m < ?m" "?e < ?m" using pos by (simp_all add: word_mod_less_divisor)
  show ?case
  proof (cases "range_sn < ?m")
    case True
    have "mod_base ?m range_sn ?e \<noteq> 0"
    proof
      assume "mod_base ?m range_sn ?e = 0"
      then have "mod_base ?m range_sn ?e = mod_base ?m range_sn range_sn" by simp
      moreover have "unat ?e < unat ?m" "unat range_sn < unat ?m" using True next_lt(2) by (simp_all add: word_less_nat_alt)
      ultimately have "?e = range_sn" using mod_base_eq_iff [OF m, of ?e range_sn range_sn] by blast
      then show False using 2(1) by simp
    qed
    then show ?thesis using True next_lt(1) by (simp add: towards_measure)
  next
    case False
    then show ?thesis using next_lt(1) mod_base_less [OF m] by simp
  qed
qed simp

declare range_loop.simps [simp del]

fun nack_loop :: "tx_am_env \<Rightarrow> u32 \<Rightarrow> rlc_am_status_nack list \<Rightarrow> u32 \<times> u32 \<Rightarrow> rlc_tx_am_entity \<Rightarrow> ((u32 \<times> u32) \<times> rlc_tx_am_entity) run" where
  "nack_loop env ack_sn [] acc s = Inr (acc, s)"
| "nack_loop env ack_sn (nack # nacks) (processed, prev) s =
     seq_run (if has_nack_range nack then range_loop (ta_size s) env ack_sn nack (nack_sn nack) (processed, prev) s
              else seq_run (process_nack env nack prev s) (\<lambda>(prev, s). Inr ((processed, prev), s)))
       (\<lambda>(acc, s). nack_loop env ack_sn nacks acc s)"

text \<open>The checks of all NACKs, which stop at the first one that is not valid.\<close>

fun valid_nacks :: "tx_am_env \<Rightarrow> u32 \<Rightarrow> rlc_am_status_nack list \<Rightarrow> rlc_tx_am_entity \<Rightarrow> bool \<times> rlc_tx_am_entity" where
  "valid_nacks env ack_sn [] s = (True, s)"
| "valid_nacks env ack_sn (nack # nacks) s =
     (case valid_nack env ack_sn nack s of
        (False, s) \<Rightarrow> (False, s)
      | (True, s) \<Rightarrow> valid_nacks env ack_sn nacks s)"

subsection \<open>The handler\<close>

definition notify_delivered :: "ack_log \<Rightarrow> rlc_tx_am_entity \<Rightarrow> rlc_tx_am_entity" where
  "notify_delivered acks s =
     (let s = (case al_delivered acks of None \<Rightarrow> s | Some pdcp_sn \<Rightarrow> emit (Rlc_delivered pdcp_sn) s) in
      case al_delivered_retx acks of None \<Rightarrow> s | Some pdcp_sn \<Rightarrow> emit (Rlc_delivered_retx pdcp_sn) s)"

text \<open>The actions on exit: the latency of the handler with the number of ACKs and NACKs it processed.\<close>

definition status_on_exit :: "tx_am_env \<Rightarrow> u32 \<Rightarrow> u32 \<Rightarrow> rlc_tx_am_entity \<Rightarrow> rlc_tx_am_entity run" where
  "status_on_exit env acks nacks s =
     seq_run (rtl_add_handle_status_latency_us acks nacks (te_status_latency env) (ta_metrics_low s)) (\<lambda>m.
     Inr (s\<lparr>ta_metrics_low := m\<rparr>))"

text \<open>The body after the checks.\<close>

definition accept_status_pdu :: "tx_am_env \<Rightarrow> rlc_rx_am_entity \<Rightarrow> rlc_am_status_pdu \<Rightarrow> rlc_tx_am_entity \<Rightarrow> rlc_tx_am_entity run" where
  "accept_status_pdu env rx status s =
     (let s = (if tx_mod_base s (poll_sn (ta_st s)) < tx_mod_base s (sp_ack_sn status)
               then s\<lparr>poll_retransmit_timer := False\<rparr> else s);
          stop_sn = (case sp_nacks status of [] \<Rightarrow> sp_ack_sn status | nack # _ \<Rightarrow> nack_sn nack) in
      seq_run (ack_loop (ta_size s) env stop_sn (tx_next_ack (ta_st s))
          \<lparr>al_processed = 0, al_delivered = None, al_delivered_retx = None\<rparr> s) (\<lambda>(acks, s).
      seq_run (clear_retx_queue (ta_retx_queue s) (notify_delivered acks s)) (\<lambda>s.
      seq_run (nack_loop env (sp_ack_sn status) (sp_nacks status) (0, invalid_rlc_sn) (s\<lparr>ta_retx_sn := invalid_rlc_sn\<rparr>))
        (\<lambda>((nacks, _), s).
      seq_run (update_mac_buffer_state True rx s) (\<lambda>s.
      status_on_exit env (al_processed acks) nacks (ue_defer env Clear_recycler_task s))))))"

definition handle_status_pdu :: "tx_am_env \<Rightarrow> rlc_rx_am_entity \<Rightarrow> rlc_am_status_pdu \<Rightarrow> rlc_tx_am_entity \<Rightarrow> rlc_tx_am_entity run" where
  "handle_status_pdu env rx status s =
     (if \<not> tx_valid_ack_sn s (sp_ack_sn status) then status_on_exit env 0 0 s
      else if tx_mod_base s (tx_next (ta_st s) + 1) < tx_mod_base s (sp_ack_sn status)
      then status_on_exit env 0 0 (ue_defer env Protocol_failure_task s)
      else case valid_nacks env (sp_ack_sn status) (sp_nacks status) s of
        (False, s) \<Rightarrow> status_on_exit env 0 0 s
      | (True, s) \<Rightarrow> accept_status_pdu env rx status s)"

definition on_status_pdu :: "tx_am_env \<Rightarrow> rlc_am_status_pdu \<Rightarrow> rlc_tx_am_entity \<Rightarrow> rlc_tx_am_entity" where
  "on_status_pdu env status s = pcell_defer env (Handle_status_task status) s"

section \<open>Timers and tasks\<close>

definition poll_expiry_on_exit :: "tx_am_env \<Rightarrow> rlc_tx_am_entity \<Rightarrow> rlc_tx_am_entity run" where
  "poll_expiry_on_exit env s =
     seq_run (rtl_add_poll_latency_us (te_poll_latency env) (ta_metrics_low s)) (\<lambda>m. Inr (s\<lparr>ta_metrics_low := m\<rparr>))"

definition on_expired_poll_retransmit_timer :: "tx_am_env \<Rightarrow> rlc_rx_am_entity \<Rightarrow> rlc_tx_am_entity \<Rightarrow> rlc_tx_am_entity run" where
  "on_expired_poll_retransmit_timer env rx s =
     seq_run
       (if nothing_to_send s \<and> \<not> win_empty (ta_window s) \<and> has_sn (ta_window s) (tx_next_ack (ta_st s))
        then
          seq_run (win_at (ta_window s) (tx_next_ack (ta_st s))) (\<lambda>info.
          (let retx = \<lparr>rt_sn = tx_next_ack (ta_st s), rt_so = 0, rt_length = of_nat (length (ti_sdu info))\<rparr>;
               (retx_enqueued, q) = rq_try_push retx (ta_retx_queue s);
               s = s\<lparr>ta_retx_queue := q\<rparr> in
           seq_run (if retx_enqueued then increment_retx_count (tx_next_ack (ta_st s)) s else Inr s) (update_mac_buffer_state True rx)))
        else Inr s)
       (poll_expiry_on_exit env)"

definition stop_lower :: "rlc_tx_am_entity \<Rightarrow> rlc_tx_am_entity" where
  "stop_lower s = s\<lparr>ta_stopped_lower := True, poll_retransmit_timer := False\<rparr>"

text \<open>The two executors run the first of their tasks.\<close>

definition run_pcell_task :: "tx_am_env \<Rightarrow> rlc_rx_am_entity \<Rightarrow> rlc_tx_am_entity \<Rightarrow> rlc_tx_am_entity run" where
  "run_pcell_task env rx s =
     (case pcell_tasks s of
        [] \<Rightarrow> Inr s
      | t # ts \<Rightarrow>
          (let s = s\<lparr>pcell_tasks := ts\<rparr> in
           case t of
             Handle_status_task status \<Rightarrow> handle_status_pdu env rx status s
           | Update_buffer_state_task \<Rightarrow> update_mac_buffer_state False rx s
           | Stop_lower_task \<Rightarrow> Inr (stop_lower s)))"

definition run_ue_tx_task :: "rlc_tx_am_entity \<Rightarrow> rlc_tx_am_entity" where
  "run_ue_tx_task s =
     (case ue_tasks s of
        [] \<Rightarrow> s
      | t # ts \<Rightarrow>
          (let s = s\<lparr>ue_tasks := ts\<rparr> in
           case t of
             Protocol_failure_task \<Rightarrow> emit Rlc_protocol_failure s
           | Clear_recycler_task \<Rightarrow> s\<lparr>recycle_bin := []\<rparr>))"

end
