(* ===== verification/Rlc_Tx_Am_Window.thy ===== *)
theory Rlc_Tx_Am_Window
  imports Rlc_Tx_Am Rlc_Rx_Am_Window Rlc_Am_Codec
begin

text \<open>
  The transmitting window of the acknowledged mode: which SNs it holds between two operations, and
  what adding, acknowledging and updating an SDU makes of it; the PDUs that the headers of the entity
  and a part of an SDU make; and the bounds of the PDCP SNs.
\<close>

section \<open>The SNs of the window\<close>

text \<open>
  From the lower edge \<open>b\<close> to before TX\_Next \<open>e\<close>, and TX\_Next itself while its SDU is being segmented.
\<close>

definition tx_keys :: "rlc_am_sn_size \<Rightarrow> u32 \<Rightarrow> u32 \<Rightarrow> bool \<Rightarrow> 'v sdu_window \<Rightarrow> bool" where
  "tx_keys z b e seg w \<longleftrightarrow> is_sn z b \<and> is_sn z e \<and> win_wf w \<and> win.on_ring (am_mod_of z) b w \<and>
     away z b e + of_bool seg \<le> unat (am_window_size_of z) \<and>
     (\<forall>k. win_find w k \<noteq> None \<longleftrightarrow> is_sn z k \<and> (away z b k < away z b e \<or> seg \<and> k = e))"

lemma tx_keys_width: "tx_keys z b e seg w \<Longrightarrow> win_width w = unat (am_window_size_of z)"
  using am_mod_window(1) [of z] by (simp add: tx_keys_def win.on_ring_def)

lemma tx_keys_fresh:
  assumes "win_width w = unat (am_window_size_of z)" and "win_wf w" and "win_find w = Map.empty"
  shows "tx_keys z 0 0 False w"
  using assms am_mod_window [of z] by (simp add: tx_keys_def win.on_ring_def is_sn_def)

lemma tx_keys_put:
  assumes "tx_keys z b e seg w" and "is_sn z k" and "away z b k < unat (am_window_size_of z)"
  shows "win_find (win_put k v w) = (win_find w)(k \<mapsto> v)" and "win.on_ring (am_mod_of z) b (win_put k v w)"
proof -
  have k: "unat k < unat (am_mod_of z)" "unat (mod_base (am_mod_of z) b k) < win_width w"
    using assms tx_keys_width [OF assms(1)] by (simp_all add: is_sn_def away_def)
  have w: "win_wf w" "win.on_ring (am_mod_of z) b w" using assms(1) by (simp_all add: tx_keys_def)
  show "win_find (win_put k v w) = (win_find w)(k \<mapsto> v)" by (rule win.look_ring_put [OF w k])
  show "win.on_ring (am_mod_of z) b (win_put k v w)" by (rule win.on_ring_put [OF w k])
qed

lemma tx_keys_add:
  assumes "tx_keys z b e False w" and "away z b e < unat (am_window_size_of z)"
  shows "tx_keys z b e True (win_put e v w)" and "win_find (win_put e v w) = (win_find w)(e \<mapsto> v)" and "win_find w e = None"
proof -
  have e: "is_sn z e" using assms(1) by (simp add: tx_keys_def)
  note p = tx_keys_put [OF assms(1) e assms(2), of v]
  show "win_find (win_put e v w) = (win_find w)(e \<mapsto> v)" by (rule p(1))
  show "win_find w e = None" using assms(1) by (auto simp: tx_keys_def)
  show "tx_keys z b e True (win_put e v w)"
    using assms p e win.wf_put by (auto simp: tx_keys_def)
qed

lemma tx_keys_update:
  assumes "tx_keys z b e seg w" and "win_find w k = Some v"
  shows "tx_keys z b e seg (win_put k v' w)" and "win_find (win_put k v' w) = (win_find w)(k \<mapsto> v')"
proof -
  have k: "is_sn z k" "away z b k < unat (am_window_size_of z)"
    using assms by (auto simp: tx_keys_def dest: spec [of _ k])
  note p = tx_keys_put [OF assms(1) k, of v']
  show "win_find (win_put k v' w) = (win_find w)(k \<mapsto> v')" by (rule p(1))
  show "tx_keys z b e seg (win_put k v' w)" using assms p win.wf_put by (auto simp: tx_keys_def)
qed

text \<open>The SDU at TX\_Next is complete.\<close>

lemma tx_keys_done:
  assumes "tx_keys z b e True w"
  shows "tx_keys z b ((e + 1) mod am_mod_of z) False w" and "away z b ((e + 1) mod am_mod_of z) = away z b e + 1"
proof -
  have "away z b e + 1 \<le> unat (am_window_size_of z)" using assms by (simp add: tx_keys_def)
  then have lt: "away z b e + 1 < unat (am_mod_of z)" using am_mod_window [of z] by linarith
  show s: "away z b ((e + 1) mod am_mod_of z) = away z b e + 1" by (rule away_Suc [OF lt])
  have eq: "away z b k < away z b e + 1 \<longleftrightarrow> away z b k < away z b e \<or> k = e" if "is_sn z k" for k
    using away_inj [OF that, of e b] assms by (auto simp: tx_keys_def less_Suc_eq)
  show "tx_keys z b ((e + 1) mod am_mod_of z) False w" using assms eq by (auto simp: tx_keys_def s)
qed

text \<open>The SDU at the lower edge is acknowledged.\<close>

lemma tx_keys_ack:
  assumes "tx_keys z b e seg w" and "0 < away z b e"
  shows "tx_keys z (at_dist z b 1) e seg (win_del b w)" and "win_find (win_del b w) = (win_find w)(b := None)"
    and "away z (at_dist z b 1) e = away z b e - 1"
proof -
  have wf: "win_wf w" and ring: "win.on_ring (am_mod_of z) b w" and b: "is_sn z b" "is_sn z e"
    using assms(1) by (simp_all add: tx_keys_def)
  show f: "win_find (win_del b w) = (win_find w)(b := None)" by (rule win.look_del [OF wf])
  show a: "away z (at_dist z b 1) e = away z b e - 1" using assms(2) by (intro away_shift) simp
  have pos: "0 < away z b k" if "is_sn z k" "k \<noteq> b" for k using away_inj [OF that(1) b(1), of b] that(2) by simp
  have sh: "away z (at_dist z b 1) k = away z b k - 1" if "is_sn z k" "k \<noteq> b" for k
    using pos [OF that] by (intro away_shift) simp
  have keys: "win_find w k \<noteq> None \<longleftrightarrow> is_sn z k \<and> (away z b k < away z b e \<or> seg \<and> k = e)" for k
    using assms(1) by (simp add: tx_keys_def)
  have ring': "win.on_ring (am_mod_of z) (at_dist z b 1) (win_del b w)"
    unfolding at_dist_def
  proof (rule win.on_ring_advance)
    show "win.on_ring (am_mod_of z) b (win_del b w)" by (rule win.on_ring_del [OF wf ring])
    fix k assume "win_find (win_del b w) k \<noteq> None"
    then have "k \<noteq> b" "is_sn z k" using f keys [of k] by (auto split: if_splits)
    then show "1 \<le> unat (mod_base (am_mod_of z) b k)" using pos [of k] by (simp add: away_def)
  qed
  have "win_find (win_del b w) k \<noteq> None \<longleftrightarrow> is_sn z k \<and> (away z (at_dist z b 1) k < away z (at_dist z b 1) e \<or> seg \<and> k = e)" for k
  proof (cases "k = b")
    case True
    have "away z (at_dist z b 1) b = unat (am_mod_of z) - 1"
      using away_shift_past [of z b b 1] am_mod_window [of z] by simp
    moreover have "away z b e \<le> unat (am_mod_of z) - 1" using away_less [of z b e] by simp
    ultimately show ?thesis using True assms(2) a f by auto
  next
    case False
    show ?thesis
    proof (cases "is_sn z k")
      case True
      then show ?thesis using False f keys [of k] sh [OF True False] a pos [OF True False] assms(2) by auto
    qed (use f keys [of k] False in auto)
  qed
  then show "tx_keys z (at_dist z b 1) e seg (win_del b w)"
    using assms ring' b win.wf_del [OF wf] a by (auto simp: tx_keys_def)
qed

text \<open>A window that holds one window size of SNs is full.\<close>

lemma tx_keys_full:
  assumes "tx_keys z b e False w" and "away z b e = unat (am_window_size_of z)"
  shows "win_full w"
proof -
  let ?W = "unat (am_window_size_of z)"
  have W: "cm_max_size (win_map w) = ?W" "0 < ?W"
    using tx_keys_width [OF assms(1)] am_mod_window [of z] by (simp_all add: win_width_def)
  have wf: "cm_wf (win_map w)" using assms(1) by (simp add: tx_keys_def win_wf_def)
  have ring: "ring_size (am_mod_of z)" "unat (am_mod_of z) = 2 * ?W" "is_sn z b"
    using am_mod_window [of z] assms(1) by (simp_all add: tx_keys_def)
  have "{..<?W} \<subseteq> dom (cm_data (win_map w))"
  proof
    fix i assume "i \<in> {..<?W}"
    then have i: "i < ?W" by simp
    define n where "n = (i + ?W - unat b mod ?W) mod ?W"
    have n: "n < ?W" using W by (simp add: n_def)
    have "(unat b + n) mod ?W = (unat b mod ?W + (i + ?W - unat b mod ?W)) mod ?W" by (simp add: n_def mod_simps)
    also have "\<dots> = (i + ?W) mod ?W"
      using mod_less_divisor [OF W(2), of "unat b"] by (simp add: less_imp_le)
    finally have slot: "(unat b + n) mod ?W = i" using i by simp
    let ?k = "at_dist z b n"
    have "away z b ?k = n" using n ring by (intro away_at) simp
    then have "win_find w ?k \<noteq> None" using assms n by (simp add: tx_keys_def)
    then obtain v where v: "cm_data (win_map w) (get_circular_idx (win_map w) ?k) = Some (?k, v)"
      by (auto simp: win_find_def cm_find_data)
    have "unat ?k mod ?W = (unat b + unat (mod_base (am_mod_of z) b ?k)) mod ?W"
      using W ring is_sn_at [of z b n] by (intro ring_slot) (simp_all add: is_sn_def)
    then have "unat ?k mod ?W = i" using \<open>away z b ?k = n\<close> slot by (simp add: away_def)
    then show "i \<in> dom (cm_data (win_map w))" using v wf W by (auto simp: get_circular_idx_mod)
  qed
  then have ge: "?W \<le> card (dom (cm_data (win_map w)))"
    using wf card_mono [of "dom (cm_data (win_map w))" "{..<?W}"] by (simp add: cm_wf_def)
  have "dom (cm_data (win_map w)) \<subseteq> {..<?W}"
  proof
    fix i assume "i \<in> dom (cm_data (win_map w))"
    then obtain k v where "cm_data (win_map w) i = Some (k, v)" by auto
    then have "i = get_circular_idx (win_map w) k" using wf by (simp add: cm_wf_def)
    then show "i \<in> {..<?W}" using wf W by (simp add: get_circular_idx_mod)
  qed
  then have "card (dom (cm_data (win_map w))) \<le> ?W" using card_mono [of "{..<?W}"] by fastforce
  then show ?thesis using ge wf W by (simp add: win_full_def cm_full_def cm_size_def cm_wf_def)
qed

section \<open>PDUs\<close>

text \<open>What the reader of the peer makes of a header and a payload.\<close>

lemma built_pdu:
  assumes "header_ok h" and "payload \<noteq> []"
  shows "rlc_am_read_data_pdu_header (rlc_am_write_data_pdu_header h @ payload) (ah_sn_size h) = Some h"
    and "drop (ah_packed_size h) (rlc_am_write_data_pdu_header h @ payload) = payload"
    and "length (rlc_am_write_data_pdu_header h @ payload) = ah_packed_size h + length payload"
  using am_header_roundtrip [OF assms] write_header_length [OF assms(1)] by simp_all

lemma tx_header_ok:
  assumes "is_sn (ta_size s) sn" and "p = 0 \<or> p = 1" and "so \<noteq> 0 \<longleftrightarrow> si = Last_segment \<or> si = Middle_segment"
  shows "header_ok (tx_header s p si sn so)"
proof -
  have "unat (am_mod_of (ta_size s)) = 2 ^ am_bits (ta_size s)"
    by (cases "ta_size s") (simp_all add: am_mod_of_def)
  then show ?thesis using assms by (auto simp: header_ok_def tx_header_def is_sn_def)
qed

lemma tx_header_simps [simp]:
  "ah_sn_size (tx_header s p si sn so) = ta_size s" "ah_sn (tx_header s p si sn so) = sn" "ah_si (tx_header s p si sn so) = si"
  "ah_so (tx_header s p si sn so) = so" "ah_p (tx_header s p si sn so) = p" "ah_dc (tx_header s p si sn so) = Rlc_data"
  by (simp_all add: tx_header_def)

section \<open>PDCP SNs\<close>

lemma unpack_less:
  assumes "dec_wf d" and "n \<le> 32" and "unpack d n = (True, v, d')"
  shows "unat v < 2 ^ n" and "dec_wf d'"
proof -
  have len: "n \<le> length (dec_bits d)" using unpack_short [OF assms(1), of n] assms(3) by (cases "length (dec_bits d) < n") auto
  from unpack_bits [OF assms(1) len assms(2)] assms(3) have "unat v = bits_val (take n (dec_bits d))" "dec_wf d'" by auto
  then show "unat v < 2 ^ n" "dec_wf d'" using bits_val_take_less [of n n "dec_bits d"] by simp_all
qed

lemma get_pdcp_sn_sane:
  assumes "get_pdcp_sn buf len srb = Some sn"
  shows "sn_sane sn"
proof -
  obtain ok0 dc d0 where u0: "unpack (decoder_init buf) 1 = (ok0, dc, d0)" by (metis prod_cases3)
  let ?r = "if len = Size12bits then 3 else 5 :: nat" and ?n = "if len = Size12bits then 12 else 18 :: nat"
  obtain ok1 r d1 where u1: "unpack d0 ?r = (ok1, r, d1)" by (metis prod_cases3)
  obtain ok2 v d2 where u2: "unpack d1 ?n = (ok2, v, d2)" by (metis prod_cases3)
  have g: "ok0" "ok1" "ok2" "sn = v"
    using assms unfolding get_pdcp_sn_def u0 Let_def prod.case u1 u2 by (auto split: if_splits)
  have "dec_wf d0" using unpack_less(2) [OF dec_wf_init, of 1 buf dc d0] u0 g by simp
  then have "dec_wf d1" using unpack_less(2) [of d0 ?r r d1] u1 g by simp
  then have "unat v < 2 ^ ?n" using unpack_less(1) [of d1 ?n v d2] u2 g by simp
  also have "(2 :: nat) ^ ?n \<le> 2 ^ 18" by (rule power_increasing) auto
  finally have "unat sn < 2 ^ 18" using g by simp
  then show ?thesis by (auto simp: sn_sane_def state_free_def state_discarded_def)
qed

section \<open>Counters\<close>

lemma tx_metrics_add_ok:
  assumes "tx_am_metrics_ok m"
  shows "\<exists>m'. rtl_add_pdus_with_segmentation_am n len m = Inr m' \<and> tx_am_metrics_ok m'"
    and "\<exists>m'. rtl_add_retx_pdus n len m = Inr m' \<and> tx_am_metrics_ok m'"
    and "\<exists>m'. rtl_add_ctrl_pdus n len m = Inr m' \<and> tx_am_metrics_ok m'"
    and "\<exists>m'. rtl_add_ack_latency_ms latency m = Inr m' \<and> tx_am_metrics_ok m'"
    and "\<exists>m'. rtl_add_handle_status_latency_us a b latency m = Inr m' \<and> tx_am_metrics_ok m'"
    and "\<exists>m'. rtl_add_poll_latency_us latency m = Inr m' \<and> tx_am_metrics_ok m'"
proof -
  have "\<exists>m'. rtl_update_am f m = Inr m' \<and> tx_am_metrics_ok m'" for f
    using rtl_update_am_ok [OF assms] by blast
  then show "\<exists>m'. rtl_add_pdus_with_segmentation_am n len m = Inr m' \<and> tx_am_metrics_ok m'"
    "\<exists>m'. rtl_add_retx_pdus n len m = Inr m' \<and> tx_am_metrics_ok m'"
    "\<exists>m'. rtl_add_ctrl_pdus n len m = Inr m' \<and> tx_am_metrics_ok m'"
    "\<exists>m'. rtl_add_ack_latency_ms latency m = Inr m' \<and> tx_am_metrics_ok m'"
    "\<exists>m'. rtl_add_handle_status_latency_us a b latency m = Inr m' \<and> tx_am_metrics_ok m'"
    "\<exists>m'. rtl_add_poll_latency_us latency m = Inr m' \<and> tx_am_metrics_ok m'"
    unfolding rtl_add_pdus_with_segmentation_am_def rtl_add_retx_pdus_def rtl_add_ctrl_pdus_def
      rtl_add_ack_latency_ms_def rtl_add_handle_status_latency_us_def rtl_add_poll_latency_us_def by blast+
qed

end
