(* ===== verification/Rlc_Tx_Am_Inv.thy ===== *)
theory Rlc_Tx_Am_Inv
  imports Rlc_Tx_Am_Window Rlc_Rx_Am_Delivery
begin

text \<open>
  The invariant of the transmitting entity of the acknowledged mode, its abstract state (the SDUs that
  wait in the queue, and the SDUs that are sent, at least in part, and not acknowledged), and what
  pulling a PDU makes of both.
\<close>

section \<open>The invariant\<close>

abbreviation tx_ack_of :: "rlc_tx_am_entity \<Rightarrow> u32" where
  "tx_ack_of s \<equiv> tx_next_ack (ta_st s)"

abbreviation tx_next_of :: "rlc_tx_am_entity \<Rightarrow> u32" where
  "tx_next_of s \<equiv> tx_next (ta_st s)"

definition segmenting :: "rlc_tx_am_entity \<Rightarrow> bool" where
  "segmenting s \<longleftrightarrow> sn_under_segmentation s \<noteq> invalid_rlc_sn"

definition sdu_sized :: "bytes \<Rightarrow> bool" where
  "sdu_sized sdu \<longleftrightarrow> sdu \<noteq> [] \<and> length sdu \<le> 65535"

text \<open>\<open>seg\<close>: the SDU is being segmented.\<close>

definition info_sized :: "bool \<Rightarrow> rlc_tx_am_sdu_info \<Rightarrow> bool" where
  "info_sized seg info \<longleftrightarrow> sdu_sized (ti_sdu info) \<and>
     (seg \<longrightarrow> 0 < unat (ti_next_so info) \<and> unat (ti_next_so info) < length (ti_sdu info))"

definition retx_in :: "rlc_tx_am_sdu_info sdu_window \<Rightarrow> rlc_tx_amd_retx \<Rightarrow> bool" where
  "retx_in w r \<longleftrightarrow> (\<exists>info. win_find w (rt_sn r) = Some info \<and> 0 < unat (rt_length r) \<and>
     unat (rt_so r) + unat (rt_length r) \<le> length (ti_sdu info))"

definition tx_window_ok :: "rlc_tx_am_entity \<Rightarrow> bool" where
  "tx_window_ok s \<longleftrightarrow> tx_keys (ta_size s) (tx_ack_of s) (tx_next_of s) (segmenting s) (ta_window s) \<and>
     (segmenting s \<longrightarrow> sn_under_segmentation s = tx_next_of s) \<and>
     (\<forall>k info. win_find (ta_window s) k = Some info \<longrightarrow> info_sized (k = sn_under_segmentation s) info)"

definition retx_queue_ok :: "rlc_am_sn_size \<Rightarrow> rlc_tx_am_sdu_info sdu_window \<Rightarrow> rlc_retx_queue \<Rightarrow> bool" where
  "retx_queue_ok z w q \<longleftrightarrow> rq_ok q \<and> rb_max_size (rq_queue q) = unat (am_window_size_of z) \<and> (\<forall>r \<in> set (rq_items q). retx_in w r)"

definition waiting :: "rlc_tx_am_entity \<Rightarrow> rlc_sdu list" where
  "waiting s = sq_sdus (ta_sdu_queue s)"

definition tx_queue_ok :: "rlc_sdu_queue \<Rightarrow> bool" where
  "tx_queue_ok q \<longleftrightarrow> sq_ok q \<and> (\<forall>sdu \<in> set (sq_sdus q). sdu_sized (sdu_buf sdu))"

definition txam_inv :: "rlc_tx_am_entity \<Rightarrow> bool" where
  "txam_inv s \<longleftrightarrow> tx_window_ok s \<and> retx_queue_ok (ta_size s) (ta_window s) (ta_retx_queue s) \<and>
     tx_queue_ok (ta_sdu_queue s) \<and> tx_am_metrics_ok (ta_metrics_low s)"

lemma invalid_no_sn: "is_sn z sn \<Longrightarrow> sn \<noteq> invalid_rlc_sn"
  by (cases z) (auto simp: is_sn_def am_mod_of_def invalid_rlc_sn_def)

text \<open>The invariant depends on some members only.\<close>

lemma txam_inv_cong:
  assumes "ta_cfg s' = ta_cfg s" and "tx_ack_of s' = tx_ack_of s" and "tx_next_of s' = tx_next_of s"
    and "sn_under_segmentation s' = sn_under_segmentation s" and "ta_window s' = ta_window s"
    and "ta_retx_queue s' = ta_retx_queue s" and "ta_sdu_queue s' = ta_sdu_queue s"
    and "tx_am_metrics_ok (ta_metrics_low s) \<Longrightarrow> tx_am_metrics_ok (ta_metrics_low s')" and "txam_inv s"
  shows "txam_inv s'"
  using assms by (simp add: txam_inv_def tx_window_ok_def segmenting_def)

section \<open>The abstract state\<close>

definition sdu_at :: "rlc_tx_am_entity \<Rightarrow> u32 \<Rightarrow> bytes option" where
  "sdu_at s k = map_option ti_sdu (win_find (ta_window s) k)"

definition in_flight :: "rlc_tx_am_entity \<Rightarrow> nat" where
  "in_flight s = away (ta_size s) (tx_ack_of s) (tx_next_of s) + of_bool (segmenting s)"

definition unacked :: "rlc_tx_am_entity \<Rightarrow> bytes list" where
  "unacked s = map (\<lambda>n. the (sdu_at s (at_dist (ta_size s) (tx_ack_of s) n))) [0..<in_flight s]"

text \<open>A data PDU with an SN and bytes of an SDU, as the peer reads it.\<close>

definition pdu_carries :: "rlc_am_sn_size \<Rightarrow> bytes \<Rightarrow> u32 \<Rightarrow> bytes \<Rightarrow> bool" where
  "pdu_carries z pdu sn sdu \<longleftrightarrow> (\<exists>h. rlc_am_read_data_pdu_header pdu z = Some h \<and> ah_dc h = Rlc_data \<and> ah_sn h = sn \<and>
     pdu_of sdu h (drop (ah_packed_size h) pdu))"

lemma length_unacked [simp]: "length (unacked s) = in_flight s"
  by (simp add: unacked_def)

lemma unacked_nth: "n < in_flight s \<Longrightarrow> unacked s ! n = the (sdu_at s (at_dist (ta_size s) (tx_ack_of s) n))"
  by (simp add: unacked_def)

lemma unacked_cong:
  assumes "ta_cfg s' = ta_cfg s" and "tx_ack_of s' = tx_ack_of s" and "in_flight s' = in_flight s"
    and "\<And>k. sdu_at s' k = sdu_at s k"
  shows "unacked s' = unacked s"
  using assms by (simp add: unacked_def)

text \<open>The SDUs of the window are those of the numbers below \<open>in_flight\<close>.\<close>

lemma in_flight_le: "tx_window_ok s \<Longrightarrow> in_flight s \<le> unat (am_window_size_of (ta_size s))"
  by (simp add: tx_window_ok_def tx_keys_def in_flight_def)

lemma tx_next_at: "tx_window_ok s \<Longrightarrow> at_dist (ta_size s) (tx_ack_of s) (away (ta_size s) (tx_ack_of s) (tx_next_of s)) = tx_next_of s"
  by (simp add: tx_window_ok_def tx_keys_def)

lemma window_numbers:
  assumes "tx_window_ok s" and "is_sn (ta_size s) k"
  shows "win_find (ta_window s) k \<noteq> None \<longleftrightarrow> away (ta_size s) (tx_ack_of s) k < in_flight s"
proof -
  have "is_sn (ta_size s) (tx_next_of s)" using assms(1) by (simp add: tx_window_ok_def tx_keys_def)
  then have "k = tx_next_of s \<longleftrightarrow> away (ta_size s) (tx_ack_of s) k = away (ta_size s) (tx_ack_of s) (tx_next_of s)"
    using away_inj [OF assms(2)] by simp
  then show ?thesis using assms unfolding tx_window_ok_def tx_keys_def in_flight_def by (auto simp: less_Suc_eq)
qed

lemma window_key: "tx_window_ok s \<Longrightarrow> win_find (ta_window s) k = Some info \<Longrightarrow> is_sn (ta_size s) k"
  by (auto simp: tx_window_ok_def tx_keys_def)

lemma window_at:
  assumes "tx_window_ok s" and "n < in_flight s"
  obtains info where "win_find (ta_window s) (at_dist (ta_size s) (tx_ack_of s) n) = Some info" and "unacked s ! n = ti_sdu info"
proof -
  have "n < unat (am_mod_of (ta_size s))" using in_flight_le [OF assms(1)] assms(2) am_mod_window [of "ta_size s"] by linarith
  then have "win_find (ta_window s) (at_dist (ta_size s) (tx_ack_of s) n) \<noteq> None"
    using window_numbers [OF assms(1), of "at_dist (ta_size s) (tx_ack_of s) n"] assms(2) by simp
  then obtain info where "win_find (ta_window s) (at_dist (ta_size s) (tx_ack_of s) n) = Some info" by auto
  then show ?thesis using that assms(2) by (simp add: unacked_nth sdu_at_def)
qed

section \<open>Polling\<close>

lemma get_polling_bit_ok:
  obtains p a b c t where "get_polling_bit sn is_retx n s =
      (p, s\<lparr>ta_st := (ta_st s)\<lparr>pdu_without_poll := a, byte_without_poll := b, poll_sn := c\<rparr>, poll_retransmit_timer := t\<rparr>)"
    and "p = 0 \<or> p = 1"
proof -
  have "\<exists>p a b c t. get_polling_bit sn is_retx n s =
      (p, s\<lparr>ta_st := (ta_st s)\<lparr>pdu_without_poll := a, byte_without_poll := b, poll_sn := c\<rparr>, poll_retransmit_timer := t\<rparr>) \<and>
      (p = 0 \<or> p = 1)"
  proof (cases "fst (get_polling_bit sn is_retx n s) = 1")
    case True
    show ?thesis
      by (rule exI [of _ 1], rule exI [of _ 0], rule exI [of _ 0],
          rule exI [of _ "if is_retx then poll_sn (ta_st s) else sn"],
          rule exI [of _ "poll_retransmit_timer s \<or> (0 < tac_t_poll_retx (ta_cfg s) \<and> \<not> ta_stopped_lower s)"])
        (use True in \<open>auto simp: get_polling_bit_def Let_def split: if_splits\<close>)
  next
    case False
    show ?thesis
      by (rule exI [of _ 0],
          rule exI [of _ "if is_retx then pdu_without_poll (ta_st s) else pdu_without_poll (ta_st s) + 1"],
          rule exI [of _ "if is_retx then byte_without_poll (ta_st s) else byte_without_poll (ta_st s) + n"],
          rule exI [of _ "poll_sn (ta_st s)"], rule exI [of _ "poll_retransmit_timer s"])
        (use False in \<open>auto simp: get_polling_bit_def Let_def split: if_splits\<close>)
  qed
  then show ?thesis using that by blast
qed

section \<open>Segments\<close>

lemma pdu_carries_full:
  assumes "is_sn (ta_size s) sn" and "p = 0 \<or> p = 1" and "sdu_sized sdu"
  shows "pdu_carries (ta_size s) (rlc_am_write_data_pdu_header (tx_header s p Full_sdu sn 0) @ sdu) sn sdu"
    and "length (rlc_am_write_data_pdu_header (tx_header s p Full_sdu sn 0)) = head_min_size s"
proof -
  let ?h = "tx_header s p Full_sdu sn 0"
  have h: "header_ok ?h" by (rule tx_header_ok [OF assms(1,2)]) simp
  have ne: "sdu \<noteq> []" using assms(3) by (simp add: sdu_sized_def)
  note b = built_pdu [OF h ne]
  show "pdu_carries (ta_size s) (rlc_am_write_data_pdu_header ?h @ sdu) sn sdu"
    unfolding pdu_carries_def
    by (rule exI [of _ ?h]) (use b assms(3) in \<open>simp add: pdu_of_def sdu_sized_def\<close>)
  show "length (rlc_am_write_data_pdu_header ?h) = head_min_size s"
    using write_header_length [OF h] by (simp add: ah_packed_size_def)
qed

lemma pdu_carries_segment:
  assumes "is_sn (ta_size s) sn" and "p = 0 \<or> p = 1" and "sdu_sized sdu"
    and "0 < len" and "unat so + len \<le> length sdu" and "si = Last_segment \<longleftrightarrow> unat so + len = length sdu"
    and "so \<noteq> 0 \<longleftrightarrow> si = Last_segment \<or> si = Middle_segment" and "si \<noteq> Full_sdu"
  shows "pdu_carries (ta_size s) (rlc_am_write_data_pdu_header (tx_header s p si sn so) @ take len (drop (unat so) sdu)) sn sdu"
    and "length (rlc_am_write_data_pdu_header (tx_header s p si sn so)) = (if so = 0 then head_min_size s else head_max_size s)"
proof -
  let ?h = "tx_header s p si sn so" and ?p = "take len (drop (unat so) sdu)"
  have h: "header_ok ?h" by (rule tx_header_ok [OF assms(1,2,7)])
  have ne: "?p \<noteq> []" "length ?p = len" using assms(4,5) by auto
  note b = built_pdu [OF h ne(1)]
  have "segment_of sdu (segment_of_header ?h ?p)"
    using ne assms(5,6) by (simp add: segment_of_def segment_of_header_def seg_end_def)
  then have "pdu_of sdu ?h ?p" using assms(3,8) by (simp add: pdu_of_def sdu_sized_def)
  then show "pdu_carries (ta_size s) (rlc_am_write_data_pdu_header ?h @ ?p) sn sdu"
    unfolding pdu_carries_def by (intro exI [of _ ?h]) (use b in simp)
  show "length (rlc_am_write_data_pdu_header ?h) = (if so = 0 then head_min_size s else head_max_size s)"
    using write_header_length [OF h] assms(7) by (auto simp: ah_packed_size_def)
qed

lemma unat_of_nat_u32: "n \<le> 65535 \<Longrightarrow> unat (of_nat n :: u32) = n"
  by (simp add: unsigned_of_nat take_bit_eq_mod)

lemma unat_ucast_u16: "unat (x :: u32) \<le> 65535 \<Longrightarrow> unat (ucast x :: u16) = unat x"
  by (simp add: unsigned_ucast_eq take_bit_eq_mod)

lemma head_sizes: "head_min_size s \<le> 3" "head_max_size s = head_min_size s + 2"
  by (simp_all add: rlc_am_pdu_header_min_size_def rlc_am_pdu_header_max_size_def split: rlc_am_sn_size.split)

text \<open>What building a PDU leaves alone.\<close>

definition tx_keeps :: "rlc_tx_am_entity \<Rightarrow> rlc_tx_am_entity \<Rightarrow> bool" where
  "tx_keeps s s' \<longleftrightarrow> ta_cfg s' = ta_cfg s \<and> ta_is_srb s' = ta_is_srb s \<and> tx_ack_of s' = tx_ack_of s \<and>
     pcell_tasks s' = pcell_tasks s \<and> ue_tasks s' = ue_tasks s \<and> recycle_bin s' = recycle_bin s \<and>
     (tx_am_metrics_ok (ta_metrics_low s) \<longrightarrow> tx_am_metrics_ok (ta_metrics_low s'))"

lemma first_segment_ok:
  assumes "win_wf (ta_window s)" and find: "win_find (ta_window s) (tx_next_of s) = Some info" and "ti_next_so info = 0"
    and sized: "sdu_sized (ti_sdu info)" and sn: "is_sn (ta_size s) (tx_next_of s)" and m: "tx_am_metrics_ok (ta_metrics_low s)"
    and g: "head_min_size s < g" "g < length (ti_sdu info) + head_min_size s"
  obtains pdu s' where "build_first_sdu_segment g (tx_next_of s) s = Inr (pdu, s')"
    and "pdu_carries (ta_size s) pdu (tx_next_of s) (ti_sdu info)" and "length pdu = g"
    and "tx_keeps s s'" and "tx_next_of s' = tx_next_of s" and "sn_under_segmentation s' = tx_next_of s"
    and "ta_window s' = win_put (tx_next_of s) (info\<lparr>ti_next_so := of_nat (g - head_min_size s)\<rparr>) (ta_window s)"
    and "ta_retx_queue s' = ta_retx_queue s" and "ta_sdu_queue s' = ta_sdu_queue s"
proof -
  let ?n = "g - head_min_size s"
  let ?l = "of_nat ?n :: u32"
  have len: "length (ti_sdu info) \<le> 65535" using sized by (simp add: sdu_sized_def)
  have n: "0 < ?n" "?n < length (ti_sdu info)" using g by auto
  have l: "unat ?l = ?n" by (rule unat_of_nat_u32) (use n len in linarith)
  note n = l n
  obtain p a b c t where pb: "get_polling_bit (tx_next_of s) False ?l (s\<lparr>sn_under_segmentation := tx_next_of s\<rparr>) =
      (p, s\<lparr>sn_under_segmentation := tx_next_of s, ta_st := (ta_st s)\<lparr>pdu_without_poll := a, byte_without_poll := b, poll_sn := c\<rparr>,
        poll_retransmit_timer := t\<rparr>)" and p: "p = 0 \<or> p = 1"
    by (rule get_polling_bit_ok [of "tx_next_of s" False ?l "s\<lparr>sn_under_segmentation := tx_next_of s\<rparr>"]) simp
  define s1 where "s1 = s\<lparr>sn_under_segmentation := tx_next_of s, ta_st := (ta_st s)\<lparr>pdu_without_poll := a, byte_without_poll := b, poll_sn := c\<rparr>,
        poll_retransmit_timer := t\<rparr>"
  have s1: "ta_cfg s1 = ta_cfg s" "ta_window s1 = ta_window s" "ta_metrics_low s1 = ta_metrics_low s" "tx_next_of s1 = tx_next_of s"
    by (simp_all add: s1_def)
  let ?hd = "rlc_am_write_data_pdu_header (tx_header s1 p First_segment (tx_next_of s) 0)"
  let ?pay = "take ?n (ti_sdu info)"
  note seg = pdu_carries_segment [of s1 "tx_next_of s" p "ti_sdu info" ?n 0 First_segment, unfolded s1, OF sn p sized n(2)]
  have pdu: "pdu_carries (ta_size s) (?hd @ ?pay) (tx_next_of s) (ti_sdu info)" "length ?hd = head_min_size s"
    using seg n by simp_all
  have pay: "copy_payload g ?hd (take (unat ?l) (drop (unat (0 :: u16)) (ti_sdu info))) = ?pay" "length ?pay = unat ?l" "?pay \<noteq> []"
    using pdu(2) n by (auto simp: copy_payload_def)
  obtain m' where m': "rtl_add_pdus_with_segmentation_am 1 (length ?hd + length ?pay) (ta_metrics_low s1) = Inr m'" "tx_am_metrics_ok m'"
    using tx_metrics_add_ok(1) [OF m] s1 by metis
  let ?s' = "s1\<lparr>ta_window := win_put (tx_next_of s) (info\<lparr>ti_next_so := ?l\<rparr>) (ta_window s), ta_metrics_low := m'\<rparr>"
  have "build_first_sdu_segment g (tx_next_of s) s = Inr (?hd @ ?pay, ?s')"
    unfolding build_first_sdu_segment_def win_at_find find option.case seq_run_simps Let_def
    using g pb assms(3) pay m' s1 find
    by (simp add: s1_def [symmetric] win_update_find [OF assms(1)] del: of_nat_diff)
  then show ?thesis
    by (rule that) (use pdu pay n g m' in \<open>simp_all add: tx_keeps_def s1_def del: of_nat_diff\<close>)
qed

lemma full_sdu_ok:
  assumes find: "win_find (ta_window s) (tx_next_of s) = Some info" and sized: "sdu_sized (ti_sdu info)"
    and sn: "is_sn (ta_size s) (tx_next_of s)" and g: "length (ti_sdu info) + head_min_size s \<le> g"
  obtains pdu s' where "build_full_sdu env g s = Inr (pdu, s')"
    and "pdu_carries (ta_size s) pdu (tx_next_of s) (ti_sdu info)" and "length pdu = head_min_size s + length (ti_sdu info)"
    and "tx_keeps s s'" and "tx_next_of s' = (tx_next_of s + 1) mod ta_mod s" and "sn_under_segmentation s' = sn_under_segmentation s"
    and "ta_window s' = ta_window s" and "ta_retx_queue s' = ta_retx_queue s" and "ta_sdu_queue s' = ta_sdu_queue s"
proof -
  obtain p a b c t where pb: "get_polling_bit (tx_next_of s) False 0 s =
      (p, s\<lparr>ta_st := (ta_st s)\<lparr>pdu_without_poll := a, byte_without_poll := b, poll_sn := c\<rparr>, poll_retransmit_timer := t\<rparr>)"
    and p: "p = 0 \<or> p = 1"
    by (rule get_polling_bit_ok [of "tx_next_of s" False 0 s])
  define s1 where "s1 = s\<lparr>ta_st := (ta_st s)\<lparr>pdu_without_poll := a, byte_without_poll := b, poll_sn := c\<rparr>, poll_retransmit_timer := t\<rparr>"
  have s1: "ta_cfg s1 = ta_cfg s" "tx_next_of s1 = tx_next_of s" by (simp_all add: s1_def)
  let ?hd = "rlc_am_write_data_pdu_header (tx_header s1 p Full_sdu (tx_next_of s) 0)"
  note full = pdu_carries_full [of s1 "tx_next_of s" p "ti_sdu info", unfolded s1, OF sn p sized]
  have pay: "copy_payload g ?hd (ti_sdu info) = ti_sdu info" "ti_sdu info \<noteq> []"
    using full(2) g sized by (simp_all add: copy_payload_def sdu_sized_def)
  let ?m = "rtl_add_pdus_no_segmentation 1 (length ?hd + length (ti_sdu info))
    (rtl_add_pulled_sdus 1 (rtl_add_sdu_latency_us (te_sdu_latency env) (ta_metrics_low s1)))"
  let ?s' = "s1\<lparr>ta_st := (ta_st s1)\<lparr>tx_next := (tx_next_of s1 + 1) mod ta_mod s1\<rparr>, ta_metrics_low := ?m\<rparr>"
  have "build_full_sdu env g s = Inr (?hd @ ti_sdu info, ?s')"
    unfolding build_full_sdu_def win_at_find find option.case seq_run_simps Let_def pb s1_def [symmetric] prod.case s1(2)
    using pay by simp
  then show ?thesis
    by (rule that) (use full in \<open>simp_all add: tx_keeps_def s1_def\<close>)
qed

lemma continued_segment_ok:
  assumes "win_wf (ta_window s)" and find: "win_find (ta_window s) (tx_next_of s) = Some info"
    and sized: "info_sized True info" and sn: "is_sn (ta_size s) (tx_next_of s)" and m: "tx_am_metrics_ok (ta_metrics_low s)"
    and g: "head_max_size s < g"
  obtains pdu s' n where "build_continued_sdu_segment env g (tx_next_of s) s = Inr (pdu, s')"
    and "pdu_carries (ta_size s) pdu (tx_next_of s) (ti_sdu info)" and "length pdu \<le> g" and "tx_keeps s s'"
    and "ta_window s' = win_put (tx_next_of s) (info\<lparr>ti_next_so := ti_next_so info + of_nat n\<rparr>) (ta_window s)"
    and "unat (ti_next_so info + of_nat n) = unat (ti_next_so info) + n"
    and "unat (ti_next_so info) + n = length (ti_sdu info) \<and> sn_under_segmentation s' = invalid_rlc_sn \<and>
           tx_next_of s' = (tx_next_of s + 1) mod ta_mod s \<or>
         unat (ti_next_so info) + n < length (ti_sdu info) \<and> sn_under_segmentation s' = sn_under_segmentation s \<and> tx_next_of s' = tx_next_of s"
    and "ta_retx_queue s' = ta_retx_queue s" and "ta_sdu_queue s' = ta_sdu_queue s"
proof -
  let ?so = "ti_next_so info" and ?sdu = "ti_sdu info"
  have so: "0 < unat ?so" "unat ?so < length ?sdu" and len: "length ?sdu \<le> 65535" and sz: "sdu_sized ?sdu"
    using sized by (simp_all add: info_sized_def sdu_sized_def)
  define is_last where "is_last \<longleftrightarrow> length ?sdu - unat ?so + head_max_size s \<le> g"
  define n where "n = (if is_last then length ?sdu - unat ?so else g - head_max_size s)"
  define si where "si = (if is_last then Last_segment else Middle_segment)"
  have n: "0 < n" "unat ?so + n \<le> length ?sdu" "n + head_max_size s \<le> g" "is_last \<longleftrightarrow> unat ?so + n = length ?sdu"
    using so g by (auto simp: n_def is_last_def)
  have l: "unat (of_nat n :: u32) = n" and r: "unat (of_nat (length ?sdu - unat ?so) :: u32) = length ?sdu - unat ?so"
    using n len by (intro unat_of_nat_u32; linarith)+
  have last: "(\<not> g < unat (of_nat (length ?sdu - unat ?so) :: u32) + head_max_size s) = is_last" unfolding r is_last_def by auto
  have seg_len: "(if is_last then of_nat (length ?sdu - unat ?so) else of_nat (g - head_max_size s)) = (of_nat n :: u32)"
    by (simp add: n_def)
  have so16: "unat (ucast ?so :: u16) = unat ?so" using so len by (intro unat_ucast_u16) linarith
  then have so16_pos: "(ucast ?so :: u16) \<noteq> 0" using so by auto
  define s0 where "s0 = (if is_last then s\<lparr>sn_under_segmentation := invalid_rlc_sn\<rparr> else s)"
  have s0: "ta_cfg s0 = ta_cfg s" "ta_window s0 = ta_window s" "tx_next_of s0 = tx_next_of s" "ta_metrics_low s0 = ta_metrics_low s"
    by (simp_all add: s0_def)
  obtain p a b c t where pb: "get_polling_bit (tx_next_of s) False (of_nat n) s0 =
      (p, s0\<lparr>ta_st := (ta_st s0)\<lparr>pdu_without_poll := a, byte_without_poll := b, poll_sn := c\<rparr>, poll_retransmit_timer := t\<rparr>)"
    and p: "p = 0 \<or> p = 1"
    by (rule get_polling_bit_ok [of "tx_next_of s" False "of_nat n" s0])
  define s1 where "s1 = s0\<lparr>ta_st := (ta_st s0)\<lparr>pdu_without_poll := a, byte_without_poll := b, poll_sn := c\<rparr>, poll_retransmit_timer := t\<rparr>"
  have s1: "ta_cfg s1 = ta_cfg s" "ta_window s1 = ta_window s" "tx_next_of s1 = tx_next_of s" "ta_metrics_low s1 = ta_metrics_low s"
    by (simp_all add: s1_def s0)
  let ?hd = "rlc_am_write_data_pdu_header (tx_header s1 p si (tx_next_of s) (ucast ?so))"
  let ?pay = "take n (drop (unat ?so) ?sdu)"
  note seg = pdu_carries_segment [of s1 "tx_next_of s" p ?sdu n "ucast ?so" si, unfolded s1 so16, OF sn p sz n(1,2)]
  have pdu: "pdu_carries (ta_size s) (?hd @ ?pay) (tx_next_of s) ?sdu" "length ?hd = head_max_size s"
    using seg so16_pos n(4) by (simp_all add: si_def)
  have pay: "copy_payload g ?hd (take (unat (of_nat n :: u32)) (drop (unat (ucast ?so :: u16)) ?sdu)) = ?pay" "length ?pay = n" "?pay \<noteq> []"
    using pdu(2) n unfolding so16 l by (auto simp: copy_payload_def)
  define w' where "w' = win_put (tx_next_of s) (info\<lparr>ti_next_so := ?so + of_nat n\<rparr>) (ta_window s)"
  have w': "win_update (tx_next_of s) (\<lambda>info. info\<lparr>ti_next_so := ti_next_so info + of_nat n\<rparr>) (ta_window s) = Inr w'"
    by (simp add: win_update_find [OF assms(1)] find w'_def)
  define s2 where "s2 = (if is_last then s1\<lparr>ta_window := w',
      ta_metrics_low := rtl_add_pulled_sdus 1 (rtl_add_sdu_latency_us (te_sdu_latency env) (ta_metrics_low s)),
      ta_st := (ta_st s1)\<lparr>tx_next := (tx_next_of s + 1) mod ta_mod s\<rparr>\<rparr> else s1\<lparr>ta_window := w'\<rparr>)"
  have "tx_am_metrics_ok (ta_metrics_low s2)" using m by (simp add: s2_def s1)
  then obtain m' where m': "rtl_add_pdus_with_segmentation_am 1 (length ?hd + length ?pay) (ta_metrics_low s2) = Inr m'" "tx_am_metrics_ok m'"
    using tx_metrics_add_ok(1) by blast
  have e: "build_continued_sdu_segment env g (tx_next_of s) s = Inr (?hd @ ?pay, s2\<lparr>ta_metrics_low := m'\<rparr>)"
  proof -
    have ne: "?so \<noteq> 0" "\<not> length ?sdu \<le> unat ?so" "\<not> g \<le> head_max_size s" using so g by auto
    show ?thesis
      unfolding build_continued_sdu_segment_def win_at_find find option.case seq_run_simps if_not_P [OF ne(1)] if_not_P [OF ne(2)]
        if_not_P [OF ne(3)] Let_def last seg_len s0_def [symmetric] si_def [symmetric] s0 pb prod.case s1_def [symmetric] s1 pay w'
      using pay m' by (cases is_last) (simp_all add: s2_def s1 l)
  qed
  have sum: "unat (?so + of_nat n) = unat ?so + n" using l n len by (subst unat_plus_simple [THEN iffD1]) (simp_all add: no_olen_add_nat)
  show ?thesis
    by (rule that [OF e pdu(1) _ _ _ sum])
      (use pdu pay n m' in \<open>auto simp: tx_keeps_def s2_def s1_def s0_def w'_def\<close>)
qed

section \<open>Retransmissions\<close>

lemma drop_absent_ok: "retx_queue_ok z w q \<Longrightarrow> drop_absent w q = Inr q"
proof (cases "rq_items q")
  case Nil
  assume "retx_queue_ok z w q"
  then show ?thesis using Nil by (subst drop_absent.simps) (simp add: retx_queue_ok_def rq_empty_items)
next
  case (Cons r rs)
  assume q: "retx_queue_ok z w q"
  then have "\<not> rq_empty q" "rq_front q = Inr r" "has_sn w (rt_sn r)"
    using Cons by (auto simp: retx_queue_ok_def rq_empty_items rq_front_Cons retx_in_def has_sn_find)
  then show ?thesis by (subst drop_absent.simps) simp
qed

text \<open>The PDU that carries \<open>n\<close> bytes of a retransmission.\<close>

lemma pdu_carries_retx:
  assumes sn: "is_sn (ta_size s) sn" and p: "p = 0 \<or> p = 1" and sized: "sdu_sized sdu"
    and n: "0 < n" "unat so + n \<le> length sdu"
  defines "si \<equiv> retx_si so (length sdu \<le> unat so + n)"
  shows "pdu_carries (ta_size s) (rlc_am_write_data_pdu_header (tx_header s p si sn (ucast so)) @ take n (drop (unat so) sdu)) sn sdu"
    and "length (rlc_am_write_data_pdu_header (tx_header s p si sn (ucast so))) = (if so = 0 then head_min_size s else head_max_size s)"
proof -
  let ?so = "ucast so :: u16"
  have "unat so \<le> 65535" using n sized by (simp add: sdu_sized_def)
  then have so16: "unat ?so = unat so" by (rule unat_ucast_u16)
  have z: "?so = 0 \<longleftrightarrow> so = 0" using so16 by (metis unat_eq_zero)
  have "pdu_carries (ta_size s) (rlc_am_write_data_pdu_header (tx_header s p si sn ?so) @ take n (drop (unat so) sdu)) sn sdu \<and>
    length (rlc_am_write_data_pdu_header (tx_header s p si sn ?so)) = (if so = 0 then head_min_size s else head_max_size s)"
  proof (cases "so = 0 \<and> length sdu \<le> n")
    case True
    then show ?thesis using pdu_carries_full [OF sn p sized] by (simp add: si_def retx_si_def)
  next
    case False
    have "si = Last_segment \<longleftrightarrow> unat ?so + n = length sdu" "?so \<noteq> 0 \<longleftrightarrow> si = Last_segment \<or> si = Middle_segment" "si \<noteq> Full_sdu"
      using False n so16 z by (auto simp: si_def retx_si_def)
    note seg = pdu_carries_segment [OF sn p sized n(1) _ this, unfolded so16, OF n(2)]
    show ?thesis using seg z by simp
  qed
  then show "pdu_carries (ta_size s) (rlc_am_write_data_pdu_header (tx_header s p si sn ?so) @ take n (drop (unat so) sdu)) sn sdu"
    "length (rlc_am_write_data_pdu_header (tx_header s p si sn ?so)) = (if so = 0 then head_min_size s else head_max_size s)" by simp_all
qed

lemma advance_retx_queue_ok:
  assumes q: "retx_queue_ok z (ta_window s) (ta_retx_queue s)" and items: "rq_items (ta_retx_queue s) = r # rs"
    and find: "win_find (ta_window s) (rt_sn r) = Some info" and n: "0 < n" "n \<le> unat (rt_length r)"
    and len: "length (ti_sdu info) \<le> 65535"
  obtains q' b where "advance_retx_queue r n info s = Inr (s\<lparr>ta_retx_queue := q', max_retx_reached := b\<rparr>)"
    and "retx_queue_ok z (ta_window s) q'"
    and "rq_items q' = (if n = unat (rt_length r) then rs
           else r\<lparr>rt_so := rt_so r + of_nat n, rt_length := rt_length r - of_nat n\<rparr> # rs)"
    and "b = (max_retx_reached s \<or> n = unat (rt_length r) \<and> ti_retx_count info = tac_max_retx_thresh (ta_cfg s))"
proof (cases "n = unat (rt_length r)")
  case True
  have ok: "rq_ok (ta_retx_queue s)" using q by (simp add: retx_queue_ok_def)
  obtain q' where q': "rq_pop (ta_retx_queue s) = Inr q'" "rq_ok q'" "rq_items q' = rs"
    "rb_max_size (rq_queue q') = rb_max_size (rq_queue (ta_retx_queue s))"
    by (rule rq_pop_Cons [OF ok items]) (rule that)
  show ?thesis
    by (rule that [where q' = q' and b = "max_retx_reached s \<or> ti_retx_count info = tac_max_retx_thresh (ta_cfg s)"])
      (use True q q' items in \<open>auto simp: advance_retx_queue_def Let_def retx_queue_ok_def\<close>)
next
  case False
  let ?r = "r\<lparr>rt_so := rt_so r + of_nat n, rt_length := rt_length r - of_nat n\<rparr>"
  have ok: "rq_ok (ta_retx_queue s)" using q by (simp add: retx_queue_ok_def)
  have r: "unat (rt_so r) + unat (rt_length r) \<le> length (ti_sdu info)"
    using q items find by (auto simp: retx_queue_ok_def retx_in_def)
  have u: "unat (of_nat n :: u32) = n" using n r len by (intro unat_of_nat_u32) linarith
  have so: "unat (rt_so r + of_nat n) = unat (rt_so r) + n"
    using u n r len by (subst unat_plus_simple [THEN iffD1]) (simp_all add: no_olen_add_nat)
  have less: "unat (rt_length r - of_nat n) = unat (rt_length r) - n"
    using u n by (subst unat_sub) (simp_all add: word_le_nat_alt)
  then have shorter: "unat (rt_length ?r) \<le> unat (rt_length r)" by simp
  obtain q' where q': "rq_replace_front ?r (ta_retx_queue s) = Inr q'" "rq_ok q'" "rq_items q' = ?r # rs"
    "rb_max_size (rq_queue q') = rb_max_size (rq_queue (ta_retx_queue s))"
    by (rule rq_replace_front_Cons [OF ok items shorter]) (rule that)
  from less have "retx_in (ta_window s) ?r" using so r find n False by (simp add: retx_in_def)
  then show ?thesis
    by (intro that [where q' = q' and b = "max_retx_reached s"])
      (use False q q' items rq_front_Cons [OF ok items] in \<open>auto simp: advance_retx_queue_def retx_queue_ok_def\<close>)
qed

lemma retx_pdu_ok:
  assumes w: "tx_window_ok s" and q: "retx_queue_ok (ta_size s) (ta_window s) (ta_retx_queue s)" and m: "tx_am_metrics_ok (ta_metrics_low s)"
  obtains pdu s' where "build_retx_pdu g s = Inr (pdu, s')" and "length pdu \<le> g" and "tx_keeps s s'"
    and "tx_next_of s' = tx_next_of s" and "sn_under_segmentation s' = sn_under_segmentation s" and "ta_window s' = ta_window s"
    and "ta_sdu_queue s' = ta_sdu_queue s" and "retx_queue_ok (ta_size s) (ta_window s) (ta_retx_queue s')"
    and "pdu \<noteq> [] \<longrightarrow> (\<exists>sn info. win_find (ta_window s) sn = Some info \<and> pdu_carries (ta_size s) pdu sn (ti_sdu info))"
proof (cases "rq_items (ta_retx_queue s)")
  case Nil
  have "rq_ok (ta_retx_queue s)" using q by (simp add: retx_queue_ok_def)
  then have "build_retx_pdu g s = Inr ([], s)" using Nil by (simp add: build_retx_pdu_def drop_absent_ok [OF q] rq_empty_items)
  then show ?thesis by (rule that) (use q in \<open>simp_all add: tx_keeps_def\<close>)
next
  case (Cons r rs)
  have ok: "rq_ok (ta_retx_queue s)" using q by (simp add: retx_queue_ok_def)
  have ne: "\<not> rq_empty (ta_retx_queue s)" using Cons ok by (simp add: rq_empty_items)
  have front: "rq_front (ta_retx_queue s) = Inr r" by (rule rq_front_Cons [OF ok Cons])
  obtain info where find: "win_find (ta_window s) (rt_sn r) = Some info" and r: "0 < unat (rt_length r)"
      "unat (rt_so r) + unat (rt_length r) \<le> length (ti_sdu info)"
    using q Cons by (auto simp: retx_queue_ok_def retx_in_def)
  have sized: "sdu_sized (ti_sdu info)" and sn: "is_sn (ta_size s) (rt_sn r)"
    using w find window_key [OF w find] by (auto simp: tx_window_ok_def info_sized_def)
  have len: "length (ti_sdu info) \<le> 65535" using sized by (simp add: sdu_sized_def)
  have sum: "unat (rt_so r + rt_length r) = unat (rt_so r) + unat (rt_length r)"
    using r len by (subst unat_plus_simple [THEN iffD1]) (simp_all add: no_olen_add_nat)
  let ?e = "if rt_so r = 0 then head_min_size s else head_max_size s"
  show ?thesis
  proof (cases "g \<le> ?e")
    case True
    have "build_retx_pdu g s = Inr ([], s\<lparr>ta_retx_sn := rt_sn r\<rparr>)"
      using True ne front find r sum
      by (cases "rt_so r = 0") (simp_all add: build_retx_pdu_def drop_absent_ok [OF q] win_at_find get_retx_expected_hdr_len_def Let_def)
    then show ?thesis by (rule that) (use q in \<open>simp_all add: tx_keeps_def\<close>)
  next
    case False
    define n where "n = min (unat (rt_length r)) (g - ?e)"
    have n: "0 < n" "n \<le> unat (rt_length r)" "n + ?e \<le> g" using r(1) False by (auto simp: n_def)
    have nsum: "unat (rt_so r) + n \<le> length (ti_sdu info)" using n r by linarith
    define s0 where "s0 = s\<lparr>ta_retx_sn := rt_sn r\<rparr>"
    have s0: "ta_cfg s0 = ta_cfg s" "ta_window s0 = ta_window s" "ta_retx_queue s0 = ta_retx_queue s" "ta_metrics_low s0 = ta_metrics_low s"
      by (simp_all add: s0_def)
    obtain q' b where adv: "advance_retx_queue r n info s0 = Inr (s0\<lparr>ta_retx_queue := q', max_retx_reached := b\<rparr>)"
      and q': "retx_queue_ok (ta_size s) (ta_window s) q'"
      by (rule advance_retx_queue_ok [of "ta_size s" s0 r rs info n, unfolded s0, OF q Cons find n(1,2) len]) (rule that)
    define s1 where "s1 = s0\<lparr>ta_retx_queue := q', max_retx_reached := b\<rparr>"
    obtain p a b' c t where pb: "get_polling_bit (rt_sn r) True 0 s1 =
        (p, s1\<lparr>ta_st := (ta_st s1)\<lparr>pdu_without_poll := a, byte_without_poll := b', poll_sn := c\<rparr>, poll_retransmit_timer := t\<rparr>)"
      and p: "p = 0 \<or> p = 1"
      by (rule get_polling_bit_ok [of "rt_sn r" True 0 s1])
    define s2 where "s2 = s1\<lparr>ta_st := (ta_st s1)\<lparr>pdu_without_poll := a, byte_without_poll := b', poll_sn := c\<rparr>, poll_retransmit_timer := t\<rparr>"
    have s2: "ta_cfg s2 = ta_cfg s" "ta_metrics_low s2 = ta_metrics_low s" by (simp_all add: s2_def s1_def s0)
    define si where "si = retx_si (rt_so r) (length (ti_sdu info) \<le> unat (rt_so r) + n)"
    let ?hd = "rlc_am_write_data_pdu_header (tx_header s2 p si (rt_sn r) (ucast (rt_so r)))"
    let ?pay = "take n (drop (unat (rt_so r)) (ti_sdu info))"
    note pdu = pdu_carries_retx [of s2 "rt_sn r" p "ti_sdu info" n "rt_so r", unfolded s2, OF sn p sized n(1) nsum, folded si_def]
    have so16: "unat (ucast (rt_so r) :: u16) = unat (rt_so r)" using nsum len by (intro unat_ucast_u16) linarith
    have pay: "copy_payload g ?hd (take n (drop (unat (ucast (rt_so r) :: u16)) (ti_sdu info))) = ?pay" "length ?pay = n" "?pay \<noteq> []"
      using pdu(2) n nsum unfolding so16 copy_payload_def by auto
    obtain m' where m': "rtl_add_retx_pdus 1 (length ?hd + length ?pay) (ta_metrics_low s2) = Inr m'" "tx_am_metrics_ok m'"
      using tx_metrics_add_ok(2) [OF m] s2(2) by metis
    have nt: "\<not> length (ti_sdu info) < unat (rt_so r + rt_length r)" "\<not> g \<le> ?e" using sum r(2) False by auto
    have e: "get_retx_expected_hdr_len r s0 = ?e" by (simp add: get_retx_expected_hdr_len_def s0)
    have "build_retx_pdu g s = Inr (?hd @ ?pay, s2\<lparr>ta_metrics_low := m'\<rparr>)"
      unfolding build_retx_pdu_def drop_absent_ok [OF q] seq_run_simps Let_def if_not_P [OF ne] front
      using find nt pay pdu(2) m' ne
      by (simp add: win_at_find s0_def [symmetric] e s0 n_def [symmetric] adv s1_def [symmetric] pb s2_def [symmetric] si_def [symmetric])
    then show ?thesis
      by (rule that) (use pdu pay n q' m' find in \<open>auto simp: tx_keeps_def s2_def s1_def s0_def\<close>)
  qed
qed

end
