(* ===== verification/Rlc_Tx_Am_Pull.thy ===== *)
theory Rlc_Tx_Am_Pull
  imports Rlc_Tx_Am_Inv Rlc_Rx_Am_Properties
begin

text \<open>
  Pulling a PDU from the transmitting entity of the acknowledged mode: it keeps the invariant, moves at
  most one SDU from the queue to the SDUs that wait for an acknowledgement, and what it returns fits the
  grant and carries bytes of one of these with its SN.
\<close>

section \<open>What a pull does to the abstract state\<close>

definition pulled :: "rlc_tx_am_entity \<Rightarrow> nat \<Rightarrow> bytes \<Rightarrow> rlc_tx_am_entity \<Rightarrow> bool" where
  "pulled s g pdu s' \<longleftrightarrow> txam_inv s' \<and> tx_keeps s s' \<and> length pdu \<le> g \<and>
     (\<exists>taken. length taken \<le> 1 \<and> waiting s = taken @ waiting s' \<and> unacked s' = unacked s @ map sdu_buf taken)"

definition carries_unacked :: "rlc_tx_am_entity \<Rightarrow> bytes \<Rightarrow> bool" where
  "carries_unacked s pdu \<longleftrightarrow>
     (\<exists>n < in_flight s. pdu_carries (ta_size s) pdu (at_dist (ta_size s) (tx_ack_of s) n) (unacked s ! n))"

lemma carries_unackedI:
  assumes "tx_window_ok s" and "win_find (ta_window s) sn = Some info" and "pdu_carries (ta_size s) pdu sn (ti_sdu info)"
  shows "carries_unacked s pdu"
proof -
  let ?n = "away (ta_size s) (tx_ack_of s) sn"
  have sn: "is_sn (ta_size s) sn" by (rule window_key [OF assms(1,2)])
  then have n: "?n < in_flight s" using window_numbers [OF assms(1) sn] assms(2) by simp
  have "unacked s ! ?n = ti_sdu info" using n sn assms(2) by (simp add: unacked_nth sdu_at_def)
  then show ?thesis using n sn assms(3) unfolding carries_unacked_def by (intro exI [of _ ?n]) simp
qed

lemma tx_keeps_refl [simp]: "tx_keeps s s"
  by (simp add: tx_keeps_def)

lemma pulled_nothing: "txam_inv s \<Longrightarrow> pulled s g [] s"
  by (auto simp: pulled_def intro: exI [of _ "[]"])

text \<open>A window that keeps its SDUs.\<close>

lemma retx_queue_ok_mono:
  assumes "retx_queue_ok z w q"
    and "\<And>k info. win_find w k = Some info \<Longrightarrow> \<exists>info'. win_find w' k = Some info' \<and> ti_sdu info' = ti_sdu info"
  shows "retx_queue_ok z w' q"
  using assms unfolding retx_queue_ok_def retx_in_def by fastforce

lemma retx_queue_ok_put:
  assumes "retx_queue_ok z w q" and "win_find w' = (win_find w)(k \<mapsto> v)"
    and "\<And>info. win_find w k = Some info \<Longrightarrow> ti_sdu v = ti_sdu info"
  shows "retx_queue_ok z w' q"
  by (rule retx_queue_ok_mono [OF assms(1)]) (use assms(2,3) in auto)

lemma pulled_same:
  assumes inv: "txam_inv s'" and "tx_keeps s s'" and "length pdu \<le> g" and "waiting s' = waiting s"
    and "in_flight s' = in_flight s" and "\<And>k. sdu_at s' k = sdu_at s k"
  shows "pulled s g pdu s'"
proof -
  have "unacked s' = unacked s" by (rule unacked_cong) (use assms in \<open>simp_all add: tx_keeps_def\<close>)
  then show ?thesis using assms by (auto simp: pulled_def intro: exI [of _ "[]"])
qed

section \<open>New SDUs\<close>

lemma window_not_full:
  assumes "tx_window_ok s" and "\<not> segmenting s" and "\<not> is_tx_window_full s"
  shows "away (ta_size s) (tx_ack_of s) (tx_next_of s) < unat (am_window_size_of (ta_size s))"
  using assms tx_keys_full [of "ta_size s" "tx_ack_of s" "tx_next_of s" "ta_window s"]
  by (force simp: tx_window_ok_def is_tx_window_full_def tx_keys_def)

lemma take_waiting:
  assumes "tx_queue_ok q"
  shows "tx_queue_ok (snd (sq_read q)) \<and>
    (case sq_sdus q of [] \<Rightarrow> fst (sq_read q) = None \<and> sq_sdus (snd (sq_read q)) = []
     | sdu # rest \<Rightarrow> fst (sq_read q) = Some sdu \<and> sq_sdus (snd (sq_read q)) = rest)"
  using sq.take_sdus [of q] assms by (cases "sq_sdus q") (auto simp: tx_queue_ok_def)

text \<open>An SDU that was added to the window at TX\_Next.\<close>

lemma unacked_extend:
  assumes w: "tx_window_ok s" and same: "ta_cfg s' = ta_cfg s" "tx_ack_of s' = tx_ack_of s" and cnt: "in_flight s' = in_flight s + 1"
    and "\<not> segmenting s" and sdus: "\<And>k. sdu_at s' k = (if k = tx_next_of s then Some x else sdu_at s k)"
  shows "unacked s' = unacked s @ [x]"
proof -
  let ?z = "ta_size s" and ?b = "tx_ack_of s"
  have c: "in_flight s = away ?z ?b (tx_next_of s)" using assms(5) by (simp add: in_flight_def)
  have lt: "in_flight s < unat (am_mod_of ?z)" using in_flight_le [OF w] am_mod_window [of ?z] by linarith
  have "at_dist ?z ?b n \<noteq> tx_next_of s" if "n < in_flight s" for n
  proof
    assume "at_dist ?z ?b n = tx_next_of s"
    then have "away ?z ?b (at_dist ?z ?b n) = in_flight s" using c by simp
    then show False using that lt by simp
  qed
  moreover have "at_dist ?z ?b (in_flight s) = tx_next_of s" using tx_next_at [OF w] c by simp
  ultimately show ?thesis using same sdus by (simp add: unacked_def cnt)
qed

lemma build_new_pdu_ok:
  assumes inv: "txam_inv s" and seg: "\<not> segmenting s"
  obtains pdu s' where "build_new_pdu env g s = Inr (pdu, s')" and "pulled s g pdu s'" and "pdu \<noteq> [] \<longrightarrow> carries_unacked s' pdu"
proof (cases "g \<le> head_min_size s \<or> is_tx_window_full s")
  case True
  then have "build_new_pdu env g s = Inr ([], s)" by (auto simp: build_new_pdu_def)
  then show ?thesis by (rule that) (use pulled_nothing [OF inv] in simp_all)
next
  case False
  let ?z = "ta_size s" and ?b = "tx_ack_of s" and ?e = "tx_next_of s" and ?w = "ta_window s"
  have w: "tx_window_ok s" and q: "tx_queue_ok (ta_sdu_queue s)" and m: "tx_am_metrics_ok (ta_metrics_low s)"
    and rq: "retx_queue_ok ?z ?w (ta_retx_queue s)" using inv by (simp_all add: txam_inv_def)
  have under: "sn_under_segmentation s = invalid_rlc_sn" using seg by (simp add: segmenting_def)
  have keys: "tx_keys ?z ?b ?e False ?w" using w seg by (simp add: tx_window_ok_def)
  have e: "is_sn ?z ?e" and wf: "win_wf ?w" using keys by (simp_all add: tx_keys_def)
  have lt: "away ?z ?b ?e < unat (am_window_size_of ?z)" by (rule window_not_full [OF w seg]) (use False in simp)
  note rd = take_waiting [OF q]
  obtain first q' where r: "sq_read (ta_sdu_queue s) = (first, q')" by force
  have q': "tx_queue_ok q'" using rd r by simp
  show ?thesis
  proof (cases "waiting s")
    case Nil
    then have f: "first = None" "sq_sdus q' = []" using rd r by (simp_all add: waiting_def)
    have e1: "build_new_pdu env g s = Inr ([], s\<lparr>ta_sdu_queue := q'\<rparr>)" using False r f by (simp add: build_new_pdu_def)
    have "txam_inv (s\<lparr>ta_sdu_queue := q'\<rparr>)" using inv q' by (simp add: txam_inv_def tx_window_ok_def segmenting_def)
    then have "pulled s g [] (s\<lparr>ta_sdu_queue := q'\<rparr>)"
      by (rule pulled_same) (use Nil f in \<open>simp_all add: tx_keeps_def waiting_def in_flight_def segmenting_def sdu_at_def\<close>)
    then show ?thesis by (rule that [OF e1]) simp
  next
    case (Cons sdu rest)
    then have f: "first = Some sdu" "sq_sdus q' = rest" using rd r by (simp_all add: waiting_def)
    have sized: "sdu_sized (sdu_buf sdu)" using q Cons by (simp add: tx_queue_ok_def waiting_def)
    let ?info = "new_sdu_info env sdu"
    note add = tx_keys_add(1,2) [OF keys lt, of ?info] tx_keys_add(3) [OF keys lt]
    define s1 where "s1 = notify_transfer sdu (s\<lparr>ta_sdu_queue := q', ta_window := win_put ?e ?info ?w\<rparr>)"
    have s1: "ta_cfg s1 = ta_cfg s" "ta_st s1 = ta_st s" "ta_sdu_queue s1 = q'" "ta_window s1 = win_put ?e ?info ?w"
      "ta_metrics_low s1 = ta_metrics_low s" "ta_retx_queue s1 = ta_retx_queue s" "sn_under_segmentation s1 = invalid_rlc_sn"
      "tx_keeps s s1"
      by (simp_all add: s1_def notify_transfer_def emit_def tx_keeps_def under split: option.split)
    have "add_sn ?e ?info ?w = Inr (win_put ?e ?info ?w)" using add(3) by (simp add: add_sn_put has_sn_find)
    then have e1: "build_new_pdu env g s = (if g < length (sdu_buf sdu) + head_min_size s
        then build_first_sdu_segment g ?e s1 else build_full_sdu env g s1)"
      using False r f s1(1,2) by (simp add: build_new_pdu_def s1_def [symmetric])
    have find1: "win_find (ta_window s1) (tx_next_of s1) = Some ?info" using add(2) by (simp add: s1)
    have info: "ti_sdu ?info = sdu_buf sdu" "ti_next_so ?info = 0" by (simp_all add: new_sdu_info_def)
    have old: "win_find ?w k = Some i \<Longrightarrow> info_sized False i" for k i
      using w by (auto simp: tx_window_ok_def info_sized_def)
    show ?thesis
    proof (cases "g < length (sdu_buf sdu) + head_min_size s")
      case True
      have wf1: "win_wf (ta_window s1)" using add(1) by (simp add: s1 tx_keys_def)
      obtain pdu s' where b: "build_first_sdu_segment g (tx_next_of s1) s1 = Inr (pdu, s')"
        "pdu_carries (ta_size s1) pdu (tx_next_of s1) (ti_sdu ?info)" "length pdu = g" "tx_keeps s1 s'"
        "tx_next_of s' = tx_next_of s1" "sn_under_segmentation s' = tx_next_of s1"
        "ta_window s' = win_put (tx_next_of s1) (?info\<lparr>ti_next_so := of_nat (g - head_min_size s1)\<rparr>) (ta_window s1)"
        "ta_retx_queue s' = ta_retx_queue s1" "ta_sdu_queue s' = ta_sdu_queue s1"
        by (rule first_segment_ok [OF wf1 find1 info(2), of g]) (use sized e m False True in \<open>simp_all add: s1 info\<close>)
      have same: "ta_cfg s' = ta_cfg s" "tx_ack_of s' = ?b" "tx_next_of s' = ?e" "tx_keeps s s'"
        using b(4,5) s1 by (simp_all add: tx_keeps_def)
      have seg': "segmenting s'" using b(6) s1 invalid_no_sn [OF e] by (simp add: segmenting_def)
      let ?info' = "?info\<lparr>ti_next_so := of_nat (g - head_min_size s)\<rparr>"
      have find': "win_find (ta_window s') = (win_find ?w)(?e \<mapsto> ?info')" and keys': "tx_keys ?z ?b ?e True (ta_window s')"
        using tx_keys_update [OF add(1), of ?e ?info ?info'] add(2) b(7) s1 by simp_all
      have n: "unat (of_nat (g - head_min_size s) :: u32) = g - head_min_size s"
      proof (rule unat_of_nat_u32)
        have "length (sdu_buf sdu) \<le> 65535" using sized by (simp add: sdu_sized_def)
        then show "g - head_min_size s \<le> 65535" using True by linarith
      qed
      have "0 < g - head_min_size s" "g - head_min_size s < length (sdu_buf sdu)" using True False by auto
      then have "info_sized True ?info'" using n sized info(1) by (simp add: info_sized_def del: of_nat_diff)
      then have w': "tx_window_ok s'"
        using keys' same seg' b(6) s1 find' old
        by (auto simp: tx_window_ok_def info_sized_def split: if_splits)
      have rq': "retx_queue_ok ?z (ta_window s') (ta_retx_queue s')"
        using retx_queue_ok_put [OF rq find'] add(3) b(8) s1 by simp
      have inv': "txam_inv s'" using w' rq' same b(4,9) s1 q' m by (simp add: txam_inv_def tx_keeps_def)
      have "unacked s' = unacked s @ [sdu_buf sdu]"
        by (rule unacked_extend [OF w]) (use same seg seg' find' info in \<open>auto simp: in_flight_def sdu_at_def\<close>)
      then have "pulled s g pdu s'"
        using inv' same b(3,9) s1 f Cons by (auto simp: pulled_def waiting_def intro!: exI [of _ "[sdu]"])
      moreover have "carries_unacked s' pdu"
        by (rule carries_unackedI [OF w', of ?e ?info']) (use find' b(2) s1 same info in simp_all)
      moreover have "build_new_pdu env g s = Inr (pdu, s')" using e1 b(1) True s1(2) by simp
      ultimately show ?thesis using that by blast
    next
      case full: False
      obtain pdu s' where b: "build_full_sdu env g s1 = Inr (pdu, s')"
        "pdu_carries (ta_size s1) pdu (tx_next_of s1) (ti_sdu ?info)" "length pdu = head_min_size s1 + length (ti_sdu ?info)"
        "tx_keeps s1 s'" "tx_next_of s' = (tx_next_of s1 + 1) mod ta_mod s1" "sn_under_segmentation s' = sn_under_segmentation s1"
        "ta_window s' = ta_window s1" "ta_retx_queue s' = ta_retx_queue s1" "ta_sdu_queue s' = ta_sdu_queue s1"
        by (rule full_sdu_ok [OF find1, where env = env and g = g]) (use sized e full in \<open>simp_all add: s1 info\<close>)
      have same: "ta_cfg s' = ta_cfg s" "tx_ack_of s' = ?b" "tx_next_of s' = (?e + 1) mod am_mod_of ?z" "tx_keeps s s'"
        using b(4,5) s1 by (simp_all add: tx_keeps_def)
      have seg': "\<not> segmenting s'" using b(6) s1 by (simp add: segmenting_def)
      have find': "win_find (ta_window s') = (win_find ?w)(?e \<mapsto> ?info)" using add(2) b(7) s1 by simp
      note compl = tx_keys_done [OF add(1)]
      have inv_no: "k \<noteq> invalid_rlc_sn" if "win_find (ta_window s') k = Some i" for k i
        using that compl(1) invalid_no_sn [of ?z k] b(7) s1 by (auto simp: tx_keys_def)
      have w': "tx_window_ok s'"
        using compl(1) same seg' b(6,7) s1 find' old sized info inv_no
        by (auto simp: tx_window_ok_def info_sized_def split: if_splits)
      have rq': "retx_queue_ok ?z (ta_window s') (ta_retx_queue s')"
        using retx_queue_ok_put [OF rq find'] add(3) b(8) s1 by simp
      have inv': "txam_inv s'" using w' rq' same b(4,9) s1 q' m by (simp add: txam_inv_def tx_keeps_def)
      have "unacked s' = unacked s @ [sdu_buf sdu]"
        by (rule unacked_extend [OF w]) (use same seg seg' find' info compl(2) in \<open>auto simp: in_flight_def sdu_at_def\<close>)
      then have "pulled s g pdu s'"
        using inv' same b(3,9) s1 f Cons info full by (auto simp: pulled_def waiting_def intro!: exI [of _ "[sdu]"])
      moreover have "carries_unacked s' pdu"
        by (rule carries_unackedI [OF w', of ?e ?info]) (use find' b(2) s1 same info in simp_all)
      moreover have "build_new_pdu env g s = Inr (pdu, s')" using e1 b(1) full by simp
      ultimately show ?thesis using that by blast
    qed
  qed
qed

section \<open>Segments that follow\<close>

lemma continued_pulled:
  assumes inv: "txam_inv s" and seg: "segmenting s"
  obtains pdu s' where "build_continued_sdu_segment env g (sn_under_segmentation s) s = Inr (pdu, s')"
    and "pulled s g pdu s'" and "pdu \<noteq> [] \<longrightarrow> carries_unacked s' pdu"
proof -
  let ?z = "ta_size s" and ?b = "tx_ack_of s" and ?e = "tx_next_of s" and ?w = "ta_window s"
  have w: "tx_window_ok s" and q: "tx_queue_ok (ta_sdu_queue s)" and m: "tx_am_metrics_ok (ta_metrics_low s)"
    and rq: "retx_queue_ok ?z ?w (ta_retx_queue s)" using inv by (simp_all add: txam_inv_def)
  have under: "sn_under_segmentation s = ?e" using w seg by (simp add: tx_window_ok_def)
  have keys: "tx_keys ?z ?b ?e True ?w" using w seg by (simp add: tx_window_ok_def)
  have e: "is_sn ?z ?e" and wf: "win_wf ?w" using keys by (simp_all add: tx_keys_def)
  have "win_find ?w ?e \<noteq> None" using keys e by (simp add: tx_keys_def)
  then obtain info where find: "win_find ?w ?e = Some info" by auto
  have sized: "info_sized True info" using w find under unfolding tx_window_ok_def by metis
  have old: "win_find ?w k = Some i \<Longrightarrow> info_sized False i" for k i
    using w by (auto simp: tx_window_ok_def info_sized_def)
  show ?thesis
  proof (cases "g \<le> head_max_size s")
    case True
    have "ti_next_so info \<noteq> 0" "\<not> length (ti_sdu info) \<le> unat (ti_next_so info)" using sized by (auto simp: info_sized_def)
    then have "build_continued_sdu_segment env g (sn_under_segmentation s) s = Inr ([], s)"
      using True find under by (simp add: build_continued_sdu_segment_def win_at_find)
    then show ?thesis by (rule that) (use pulled_nothing [OF inv] in simp_all)
  next
    case False
    then have g: "head_max_size s < g" by simp
    obtain pdu s' n where b: "build_continued_sdu_segment env g ?e s = Inr (pdu, s')"
      "pdu_carries ?z pdu ?e (ti_sdu info)" "length pdu \<le> g" "tx_keeps s s'"
      "ta_window s' = win_put ?e (info\<lparr>ti_next_so := ti_next_so info + of_nat n\<rparr>) ?w"
      "unat (ti_next_so info + of_nat n) = unat (ti_next_so info) + n"
      "unat (ti_next_so info) + n = length (ti_sdu info) \<and> sn_under_segmentation s' = invalid_rlc_sn \<and>
           tx_next_of s' = (?e + 1) mod am_mod_of ?z \<or>
         unat (ti_next_so info) + n < length (ti_sdu info) \<and> sn_under_segmentation s' = sn_under_segmentation s \<and> tx_next_of s' = ?e"
      "ta_retx_queue s' = ta_retx_queue s" "ta_sdu_queue s' = ta_sdu_queue s"
      by (rule continued_segment_ok [OF wf find sized e m g]) (rule that)
    let ?info' = "info\<lparr>ti_next_so := ti_next_so info + of_nat n\<rparr>"
    have same: "ta_cfg s' = ta_cfg s" "tx_ack_of s' = ?b" using b(4) by (simp_all add: tx_keeps_def)
    have find': "win_find (ta_window s') = (win_find ?w)(?e \<mapsto> ?info')" and keys': "tx_keys ?z ?b ?e True (ta_window s')"
      using tx_keys_update [OF keys find, of ?info'] b(5) by simp_all
    have sized': "unat (ti_next_so info) + n < length (ti_sdu info) \<Longrightarrow> info_sized True ?info'" "info_sized False ?info'"
      using sized b(6) by (simp_all add: info_sized_def)
    have inv_no: "k \<noteq> invalid_rlc_sn" if "win_find (ta_window s') k = Some i" for k i
      using that keys' invalid_no_sn [of ?z k] by (auto simp: tx_keys_def)
    have w': "tx_window_ok s' \<and> in_flight s' = in_flight s"
    proof (cases "sn_under_segmentation s' = invalid_rlc_sn")
      case True
      then have nx: "tx_next_of s' = (?e + 1) mod am_mod_of ?z" using b(7) seg by (auto simp: segmenting_def)
      note fin = tx_keys_done [OF keys']
      show ?thesis
        using True nx fin same find' old sized' seg inv_no
        by (auto simp: tx_window_ok_def in_flight_def segmenting_def info_sized_def split: if_splits)
    next
      case False
      then have nx: "tx_next_of s' = ?e" "sn_under_segmentation s' = ?e" "unat (ti_next_so info) + n < length (ti_sdu info)"
        using b(7) under by auto
      show ?thesis
        using False nx keys' same find' old sized' seg
        by (auto simp: tx_window_ok_def in_flight_def segmenting_def info_sized_def split: if_splits)
    qed
    have rq': "retx_queue_ok ?z (ta_window s') (ta_retx_queue s')"
      using retx_queue_ok_put [OF rq find'] find b(8) by simp
    have inv': "txam_inv s'" using w' rq' same b(4,9) q m by (simp add: txam_inv_def tx_keeps_def)
    have "pulled s g pdu s'"
      by (rule pulled_same [OF inv' b(4,3)]) (use w' b(9) find find' in \<open>auto simp: waiting_def sdu_at_def\<close>)
    moreover have "carries_unacked s' pdu"
      by (rule carries_unackedI [of _ ?e ?info']) (use w' find' b(2) same in simp_all)
    ultimately show ?thesis using that b(1) under by simp
  qed
qed

section \<open>Pulling a PDU\<close>

lemma retx_pulled:
  assumes inv: "txam_inv s"
  obtains pdu s' where "build_retx_pdu g s = Inr (pdu, s')" and "pulled s g pdu s'" and "pdu \<noteq> [] \<longrightarrow> carries_unacked s' pdu"
proof -
  have w: "tx_window_ok s" and m: "tx_am_metrics_ok (ta_metrics_low s)" and q: "tx_queue_ok (ta_sdu_queue s)"
    and rq: "retx_queue_ok (ta_size s) (ta_window s) (ta_retx_queue s)" using inv by (simp_all add: txam_inv_def)
  obtain pdu s' where b: "build_retx_pdu g s = Inr (pdu, s')" "length pdu \<le> g" "tx_keeps s s'" "tx_next_of s' = tx_next_of s"
    "sn_under_segmentation s' = sn_under_segmentation s" "ta_window s' = ta_window s" "ta_sdu_queue s' = ta_sdu_queue s"
    "retx_queue_ok (ta_size s) (ta_window s) (ta_retx_queue s')"
    "pdu \<noteq> [] \<longrightarrow> (\<exists>sn info. win_find (ta_window s) sn = Some info \<and> pdu_carries (ta_size s) pdu sn (ti_sdu info))"
    by (rule retx_pdu_ok [OF w rq m]) (rule that)
  have same: "ta_cfg s' = ta_cfg s" "tx_ack_of s' = tx_ack_of s" using b(3) by (simp_all add: tx_keeps_def)
  have w': "tx_window_ok s'" using w same b(4-6) by (simp add: tx_window_ok_def segmenting_def)
  have inv': "txam_inv s'" using w' q m b(3,6,7,8) same by (simp add: txam_inv_def tx_keeps_def)
  have "pulled s g pdu s'"
    by (rule pulled_same [OF inv' b(3,2)]) (use b same in \<open>simp_all add: waiting_def sdu_at_def in_flight_def segmenting_def\<close>)
  moreover have "pdu \<noteq> [] \<longrightarrow> carries_unacked s' pdu"
    using carries_unackedI [OF w'] b(6,9) same by fastforce
  ultimately show ?thesis using that b(1) by blast
qed

text \<open>Changes of the counters do not matter.\<close>

lemma pulled_latency:
  assumes "pulled s g pdu s'"
  shows "pulled s g pdu (add_pdu_latency env s')" and "carries_unacked (add_pdu_latency env s') pdu = carries_unacked s' pdu"
proof -
  let ?s = "add_pdu_latency env s'"
  have f: "ta_cfg ?s = ta_cfg s'" "ta_st ?s = ta_st s'" "sn_under_segmentation ?s = sn_under_segmentation s'" "ta_window ?s = ta_window s'"
    "ta_retx_queue ?s = ta_retx_queue s'" "ta_sdu_queue ?s = ta_sdu_queue s'" "tx_am_metrics_ok (ta_metrics_low ?s) = tx_am_metrics_ok (ta_metrics_low s')"
    "ta_is_srb ?s = ta_is_srb s'" "pcell_tasks ?s = pcell_tasks s'" "ue_tasks ?s = ue_tasks s'" "recycle_bin ?s = recycle_bin s'"
    by (simp_all add: add_pdu_latency_def)
  have c: "in_flight ?s = in_flight s'" "unacked ?s = unacked s'" "waiting ?s = waiting s'"
    using f by (simp_all add: in_flight_def unacked_def sdu_at_def waiting_def segmenting_def)
  have "txam_inv ?s" using assms f by (intro txam_inv_cong [of ?s s']) (simp_all add: pulled_def)
  then show "pulled s g pdu ?s" using assms c f by (simp add: pulled_def tx_keeps_def)
  show "carries_unacked ?s pdu = carries_unacked s' pdu" using c f by (simp add: carries_unacked_def)
qed

lemma owed_report_wf:
  assumes "am_inv rx" and "do_status rx"
  shows "status_wf (status_exchange rx)"
proof -
  have "settled rx" "infos_ok (am_window rx)" "limits_ok rx" "report_for rx = Inr (status_exchange rx)"
    using assms by (simp_all add: am_inv_def rx_ok_def report_current_def)
  then show ?thesis using report_for_ok [of rx] by (auto simp: report_ok_def)
qed

text \<open>A status PDU leaves the abstract state alone; its packed size fits the grant.\<close>

lemma pull_status_ok:
  assumes inv: "txam_inv s" and rx: "am_reachable cfg rx" "0 < rac_t_reassembly cfg" and req: "status_report_required rx"
  obtains pdu rx' s' where "pull_status_pdu env g rx s = Inr (pdu, rx', s')" and "am_reachable cfg rx'" and "pulled s 0 [] s'"
    and "pdu = [] \<and> g < 3 \<or> (\<exists>p. pdu = status_pack p \<and> unat (sp_packed_size p) \<le> g \<and> of_nat (length pdu) = sp_packed_size p)"
proof (cases "g < 3")
  case True
  then have "pull_status_pdu env g rx s = Inr ([], rx, s)" by (simp add: pull_status_pdu_def status_header_size_def)
  then show ?thesis by (rule that) (use True rx pulled_nothing [OF inv] in simp_all)
next
  case False
  have am: "am_inv rx" using am_reachable_inv [OF rx] by simp
  obtain p rx1 where get: "get_status_pdu (te_ue_ok env) rx = (p, rx1)" by force
  have wf: "status_wf p"
    using owed_report_wf [OF am] am_inv_get_status(3) [OF am get] req by (simp add: status_report_required_def)
  have reader: "status_reader rx1 = p" using get by (auto simp: get_status_pdu_def Let_def)
  have r1: "am_reachable cfg rx1" by (rule reach_op [OF rx(1) step_get_status [OF get]])
  define p' where "p' = (if g < unat (sp_packed_size p) then snd (status_trim (of_nat g) p) else p)"
  define rx' where "rx' = rx1\<lparr>status_reader := p'\<rparr>"
  have r': "am_reachable cfg rx'"
  proof (cases "g < unat (sp_packed_size p)")
    case True
    have "am_reachable cfg (rx1\<lparr>status_reader := snd (status_trim (of_nat g) (status_reader rx1))\<rparr>)"
      by (rule reach_op [OF r1 step_trim])
    then show ?thesis using True reader by (simp add: rx'_def p'_def)
  next
    case False
    have "rx' = rx1" using False reader by (simp add: rx'_def p'_def)
    then show ?thesis using r1 by simp
  qed
  have fits: "unat (sp_packed_size p') \<le> g \<and> of_nat (length (status_pack p')) = sp_packed_size p' \<and>
      (if g < unat (sp_packed_size p) then status_trim (of_nat g) p else (True, p)) = (True, p')"
  proof (cases "g < unat (sp_packed_size p)")
    case True
    then have "g < 4294967296" using unat_u32_less [of "sp_packed_size p"] by linarith
    then have u: "unat (of_nat g :: u32) = g" by (simp add: unsigned_of_nat take_bit_eq_mod)
    then have "3 \<le> (of_nat g :: u32)" using False by (simp add: word_le_nat_alt)
    note t = trim_fits_parts(1-3) [OF wf this]
    show ?thesis using t u True by (auto simp: p'_def word_le_nat_alt prod_eq_iff)
  next
    case False
    then show ?thesis using status_pack_length [OF wf] by (simp add: p'_def)
  qed
  have ne: "status_pack p' \<noteq> []" by (simp add: status_pack_def pack_12bit_def pack_18bit_def split: rlc_am_sn_size.split)
  have m: "tx_am_metrics_ok (ta_metrics_low s)" using inv by (simp add: txam_inv_def)
  obtain m' where m': "rtl_add_ctrl_pdus 1 (length (status_pack p')) (ta_metrics_low s) = Inr m'" "tx_am_metrics_ok m'"
    using tx_metrics_add_ok(3) [OF m] by metis
  let ?s1 = "s\<lparr>ta_metrics_low := m'\<rparr>"
  have "\<not> g < unat status_header_size" using False by (simp add: status_header_size_def)
  then have e: "pull_status_pdu env g rx s = Inr (status_pack p', rx', add_pdu_latency env ?s1)"
    using fits ne m'(1) by (simp add: pull_status_pdu_def get rx'_def [symmetric] Let_def)
  have "pulled s 0 [] ?s1"
    by (rule pulled_same)
      (use inv m' in \<open>simp_all add: txam_inv_def tx_window_ok_def segmenting_def tx_keeps_def waiting_def in_flight_def sdu_at_def\<close>)
  from pulled_latency(1) [OF this] have "pulled s 0 [] (add_pdu_latency env ?s1)" .
  then show ?thesis using that e r' fits by blast
qed

lemma pull_pdu_ok:
  assumes inv: "txam_inv s" and rx: "am_reachable cfg rx" "0 < rac_t_reassembly cfg"
  obtains pdu rx' s' where "pull_pdu env g rx s = Inr (pdu, rx', s')" and "am_reachable cfg rx'"
    and "if status_report_required rx \<and> \<not> max_retx_reached s
         then pulled s 0 [] s' \<and> (pdu = [] \<and> g < 3 \<or> (\<exists>p. pdu = status_pack p \<and> unat (sp_packed_size p) \<le> g))
         else rx' = rx \<and> pulled s g pdu s' \<and> (pdu \<noteq> [] \<longrightarrow> carries_unacked s' pdu)"
proof (cases "max_retx_reached s")
  case True
  then have "pull_pdu env g rx s = Inr ([], rx, s)" by (simp add: pull_pdu_def)
  then show ?thesis by (rule that) (use True rx pulled_nothing [OF inv] in simp_all)
next
  case max: False
  show ?thesis
  proof (cases "status_report_required rx")
    case True
    obtain pdu rx' s' where "pull_status_pdu env g rx s = Inr (pdu, rx', s')" "am_reachable cfg rx'" "pulled s 0 [] s'"
      "pdu = [] \<and> g < 3 \<or> (\<exists>p. pdu = status_pack p \<and> unat (sp_packed_size p) \<le> g \<and> of_nat (length pdu) = sp_packed_size p)"
      by (rule pull_status_ok [OF inv rx True]) (rule that)
    then show ?thesis using True max by (intro that [of pdu rx' s']) (auto simp: pull_pdu_def)
  next
    case req: False
    show ?thesis
    proof (cases "rq_empty (ta_retx_queue s)")
      case False
      obtain pdu s' where b: "build_retx_pdu g s = Inr (pdu, s')" "pulled s g pdu s'" "pdu \<noteq> [] \<longrightarrow> carries_unacked s' pdu"
        by (rule retx_pulled [OF inv]) (rule that)
      have "pull_pdu env g rx s = Inr (pdu, rx, add_pdu_latency env s')" using max req False b(1) by (simp add: pull_pdu_def)
      then show ?thesis by (rule that) (use req rx pulled_latency [OF b(2)] b(3) in simp_all)
    next
      case rq: True
      have w: "tx_window_ok s" using inv by (simp add: txam_inv_def)
      show ?thesis
      proof (cases "segmenting s")
        case True
        have "win_find (ta_window s) (sn_under_segmentation s) \<noteq> None"
          using w True by (auto simp: tx_window_ok_def tx_keys_def)
        then have has: "has_sn (ta_window s) (sn_under_segmentation s)" by (simp add: has_sn_find)
        obtain pdu s' where b: "build_continued_sdu_segment env g (sn_under_segmentation s) s = Inr (pdu, s')" "pulled s g pdu s'"
          "pdu \<noteq> [] \<longrightarrow> carries_unacked s' pdu"
          by (rule continued_pulled [OF inv True]) (rule that)
        have "pull_pdu env g rx s = Inr (pdu, rx, s')" using max req rq True has b(1) by (simp add: pull_pdu_def segmenting_def)
        then show ?thesis by (rule that) (use req rx b in simp_all)
      next
        case False
        then have u: "s\<lparr>sn_under_segmentation := invalid_rlc_sn\<rparr> = s" "sn_under_segmentation s = invalid_rlc_sn"
          by (simp_all add: segmenting_def)
        show ?thesis
        proof (cases "sq_is_empty (ta_sdu_queue s)")
          case True
          then have "pull_pdu env g rx s = Inr ([], rx, s)" using max req rq u by (simp add: pull_pdu_def)
          then show ?thesis by (rule that) (use req rx pulled_nothing [OF inv] in simp_all)
        next
          case ne: False
          obtain pdu s' where b: "build_new_pdu env g s = Inr (pdu, s')" "pulled s g pdu s'" "pdu \<noteq> [] \<longrightarrow> carries_unacked s' pdu"
            by (rule build_new_pdu_ok [OF inv False]) (rule that)
          have "pull_pdu env g rx s = Inr (pdu, rx, add_pdu_latency env s')"
            unfolding pull_pdu_def Let_def u(1) using max req rq u(2) ne b(1) by simp
          then show ?thesis by (rule that) (use req rx pulled_latency [OF b(2)] b(3) in simp_all)
        qed
      qed
    qed
  qed
qed

end
