(* ===== verification/Rlc_Tx_Am_Status.thy ===== *)
theory Rlc_Tx_Am_Status
  imports Rlc_Tx_Am_Pull
begin

text \<open>
  The handling of status reports by the transmitting entity of the acknowledged mode: the ACKs drop
  SDUs at the front of those that wait for an acknowledgement, the NACKs rebuild the queue of
  retransmissions within the bounds of their SDUs, and the invariant is kept for every report that does
  not acknowledge what was not sent.
\<close>

section \<open>Operations that leave the abstract state alone\<close>

definition same_abs :: "rlc_tx_am_entity \<Rightarrow> rlc_tx_am_entity \<Rightarrow> bool" where
  "same_abs s s' \<longleftrightarrow> ta_cfg s' = ta_cfg s \<and> ta_is_srb s' = ta_is_srb s \<and> tx_ack_of s' = tx_ack_of s \<and> tx_next_of s' = tx_next_of s \<and>
     sn_under_segmentation s' = sn_under_segmentation s \<and> waiting s' = waiting s \<and> (\<forall>k. sdu_at s' k = sdu_at s k)"

lemma same_abs_refl [simp]: "same_abs s s"
  by (simp add: same_abs_def)

lemma same_abs_trans: "same_abs s t \<Longrightarrow> same_abs t u \<Longrightarrow> same_abs s u"
  by (simp add: same_abs_def)

lemma same_abs_unacked: "same_abs s s' \<Longrightarrow> unacked s' = unacked s \<and> in_flight s' = in_flight s"
  by (simp add: same_abs_def unacked_def in_flight_def segmenting_def)

lemma same_abs_segmenting: "same_abs s s' \<Longrightarrow> segmenting s' = segmenting s"
  by (simp add: same_abs_def segmenting_def)

lemma emit_simps [simp]:
  "ta_cfg (emit ev s) = ta_cfg s" "ta_is_srb (emit ev s) = ta_is_srb s" "ta_st (emit ev s) = ta_st s"
  "ta_sdu_queue (emit ev s) = ta_sdu_queue s" "sn_under_segmentation (emit ev s) = sn_under_segmentation s"
  "ta_retx_queue (emit ev s) = ta_retx_queue s" "ta_window (emit ev s) = ta_window s" "ta_metrics_low (emit ev s) = ta_metrics_low s"
  "ta_retx_sn (emit ev s) = ta_retx_sn s" "ue_tasks (emit ev s) = ue_tasks s" "pcell_tasks (emit ev s) = pcell_tasks s"
  "max_retx_reached (emit ev s) = max_retx_reached s"
  by (simp_all add: emit_def)

lemma ue_defer_simps [simp]:
  "ta_cfg (ue_defer env t s) = ta_cfg s" "ta_is_srb (ue_defer env t s) = ta_is_srb s" "ta_st (ue_defer env t s) = ta_st s"
  "ta_sdu_queue (ue_defer env t s) = ta_sdu_queue s" "sn_under_segmentation (ue_defer env t s) = sn_under_segmentation s"
  "ta_retx_queue (ue_defer env t s) = ta_retx_queue s" "ta_window (ue_defer env t s) = ta_window s"
  "ta_metrics_low (ue_defer env t s) = ta_metrics_low s" "ta_retx_sn (ue_defer env t s) = ta_retx_sn s"
  "pcell_tasks (ue_defer env t s) = pcell_tasks s" "max_retx_reached (ue_defer env t s) = max_retx_reached s"
  by (simp_all add: ue_defer_def)

lemma pcell_defer_simps [simp]:
  "ta_cfg (pcell_defer env t s) = ta_cfg s" "ta_is_srb (pcell_defer env t s) = ta_is_srb s" "ta_st (pcell_defer env t s) = ta_st s"
  "ta_sdu_queue (pcell_defer env t s) = ta_sdu_queue s" "sn_under_segmentation (pcell_defer env t s) = sn_under_segmentation s"
  "ta_retx_queue (pcell_defer env t s) = ta_retx_queue s" "ta_window (pcell_defer env t s) = ta_window s"
  "ta_metrics_low (pcell_defer env t s) = ta_metrics_low s"
  by (simp_all add: pcell_defer_def)

lemma txam_inv_ue_defer [simp]: "txam_inv (ue_defer env t s) = txam_inv s" "same_abs s (ue_defer env t s)"
  by (simp_all add: txam_inv_def tx_window_ok_def segmenting_def same_abs_def waiting_def sdu_at_def)

lemma txam_inv_emit [simp]: "txam_inv (emit ev s) = txam_inv s" "same_abs s (emit ev s)"
  by (simp_all add: txam_inv_def tx_window_ok_def segmenting_def same_abs_def waiting_def sdu_at_def)

section \<open>The buffer state\<close>

lemma look_waiting:
  assumes "tx_queue_ok q"
  shows "tx_queue_ok (snd (sq_front q)) \<and> sq_sdus (snd (sq_front q)) = sq_sdus q \<and>
    fst (sq_front q) = (case sq_sdus q of [] \<Rightarrow> None | sdu # _ \<Rightarrow> Some sdu)"
  using sq.look_sdus [of q] assms by (simp add: tx_queue_ok_def)

text \<open>The bytes of the SDU under segmentation that were not sent, with a header.\<close>

definition segment_rest :: "rlc_tx_am_entity \<Rightarrow> u32" where
  "segment_rest s =
     (case win_find (ta_window s) (sn_under_segmentation s) of
        None \<Rightarrow> 0
      | Some info \<Rightarrow> of_nat (length (ti_sdu info)) - ti_next_so info + of_nat (head_max_size s))"

definition retx_bytes :: "rlc_tx_am_entity \<Rightarrow> u32" where
  "retx_bytes s = (let st = rq_st (ta_retx_queue s) in
     rqs_bytes st + rqs_so_zero st * of_nat (head_min_size s) + rqs_so_nonzero st * of_nat (head_max_size s))"

definition pending_total :: "rlc_rx_am_entity \<Rightarrow> rlc_tx_am_entity \<Rightarrow> u32" where
  "pending_total rx s =
     of_nat (sdu_bytes (waiting s)) + of_nat (length (waiting s)) * of_nat (head_min_size s) + segment_rest s + retx_bytes s +
     (if status_report_required rx then get_status_pdu_length rx else 0)"

lemma get_buffer_state_ok:
  assumes inv: "txam_inv s"
  obtains bs q b where "get_buffer_state rx s = Inr (bs, s\<lparr>ta_sdu_queue := q, suspend_bs_notif_barring := b\<rparr>)"
    and "tx_queue_ok q" and "sq_sdus q = waiting s" and "bs_pending_bytes bs = pending_total rx s"
proof -
  have w: "tx_window_ok s" and q: "tx_queue_ok (ta_sdu_queue s)" and rq: "retx_queue_ok (ta_size s) (ta_window s) (ta_retx_queue s)"
    using inv by (simp_all add: txam_inv_def)
  have tot: "sq_get_state (ta_sdu_queue s) = (of_nat (length (waiting s)), of_nat (sdu_bytes (waiting s)))"
    using sq.totals_sdus [of "ta_sdu_queue s"] q by (simp add: waiting_def tx_queue_ok_def sdu_bytes_def)
  obtain first q' where f: "sq_front (ta_sdu_queue s) = (first, q')" by force
  have q': "tx_queue_ok q'" "sq_sdus q' = waiting s" using look_waiting [OF q] f by (simp_all add: waiting_def)
  have ok: "rq_ok (ta_retx_queue s)" using rq by (simp add: retx_queue_ok_def)
  obtain toa' where toa': "\<And>toa. retx_hol_toa (ta_window s) (ta_retx_queue s) toa = Inr (toa' toa)"
  proof (cases "rq_items (ta_retx_queue s)")
    case Nil
    then show ?thesis using ok that [of "\<lambda>toa. toa"] by (simp add: rq_empty_items retx_hol_toa_def)
  next
    case (Cons r rs)
    then obtain info where "win_find (ta_window s) (rt_sn r) = Some info" using rq by (auto simp: retx_queue_ok_def retx_in_def)
    then show ?thesis using ok Cons rq_front_Cons [OF ok Cons] that [of "\<lambda>_. Some (ti_toa info)"]
      by (simp add: rq_empty_items win_at_find retx_hol_toa_def)
  qed
  let ?pend = "pending_total rx s"
  let ?b = "unat ?pend \<le> max_dl_pdu_length \<or> suspend_bs_notif_barring s"
  show ?thesis
  proof (cases "segmenting s")
    case True
    have "win_find (ta_window s) (sn_under_segmentation s) \<noteq> None" using w True by (auto simp: tx_window_ok_def tx_keys_def)
    then obtain info where find: "win_find (ta_window s) (sn_under_segmentation s) = Some info" by auto
    have "get_buffer_state rx s = Inr (\<lparr>bs_pending_bytes = ?pend, bs_hol_toa = toa' (Some (ti_toa info))\<rparr>,
        s\<lparr>ta_sdu_queue := ta_sdu_queue s, suspend_bs_notif_barring := ?b\<rparr>)"
      using True find tot toa'
      by (simp add: get_buffer_state_def Let_def win_at_find has_sn_find segmenting_def drop_absent_ok [OF rq] pending_total_def
          segment_rest_def retx_bytes_def)
    then show ?thesis by (rule that) (use q in \<open>simp_all add: waiting_def\<close>)
  next
    case False
    then have "sn_under_segmentation s = invalid_rlc_sn" by (simp add: segmenting_def)
    moreover have "win_find (ta_window s) invalid_rlc_sn = None"
      using window_key [OF w, of invalid_rlc_sn] invalid_no_sn [of "ta_size s" invalid_rlc_sn] by fastforce
    ultimately have "get_buffer_state rx s = Inr (\<lparr>bs_pending_bytes = ?pend, bs_hol_toa = toa' (map_option sdu_toa first)\<rparr>,
        s\<lparr>ta_sdu_queue := q', suspend_bs_notif_barring := ?b\<rparr>)"
      using tot f toa' drop_absent_ok [OF rq]
      by (cases first) (simp_all add: get_buffer_state_def Let_def pending_total_def segment_rest_def retx_bytes_def)
    then show ?thesis by (rule that) (use q' in simp_all)
  qed
qed

lemma update_mac_buffer_state_ok:
  assumes inv: "txam_inv s"
  obtains s' where "update_mac_buffer_state force rx s = Inr s'" and "txam_inv s'" and "same_abs s s'" and "\<not> pending_buffer_state s'"
    and "ta_window s' = ta_window s" and "ta_retx_queue s' = ta_retx_queue s"
proof -
  let ?s0 = "s\<lparr>pending_buffer_state := False\<rparr>"
  have inv0: "txam_inv ?s0" using inv by (simp add: txam_inv_def tx_window_ok_def segmenting_def)
  obtain bs q b where g: "get_buffer_state rx ?s0 = Inr (bs, ?s0\<lparr>ta_sdu_queue := q, suspend_bs_notif_barring := b\<rparr>)"
    "tx_queue_ok q" "sq_sdus q = waiting ?s0" by (rule get_buffer_state_ok [OF inv0]) (rule that)
  then obtain s' where s': "update_mac_buffer_state force rx s = Inr s'" by (simp add: update_mac_buffer_state_def Let_def)
  have f: "ta_cfg s' = ta_cfg s" "ta_is_srb s' = ta_is_srb s" "ta_st s' = ta_st s" "sn_under_segmentation s' = sn_under_segmentation s"
    "ta_window s' = ta_window s" "ta_retx_queue s' = ta_retx_queue s" "ta_metrics_low s' = ta_metrics_low s" "ta_sdu_queue s' = q"
    "\<not> pending_buffer_state s'"
    using s' g by (auto simp: update_mac_buffer_state_def Let_def emit_def split: if_splits)
  have "waiting ?s0 = waiting s" by (simp add: waiting_def)
  then have "same_abs s s'" using f g(3) by (simp add: same_abs_def waiting_def sdu_at_def)
  moreover have "txam_inv s'" using inv f g(2) by (simp add: txam_inv_def tx_window_ok_def segmenting_def)
  ultimately show ?thesis using that s' f by blast
qed

section \<open>ACKs\<close>

text \<open>The first \<open>d\<close> SDUs of the window are acknowledged.\<close>

definition acked :: "rlc_tx_am_entity \<Rightarrow> nat \<Rightarrow> rlc_tx_am_entity \<Rightarrow> bool" where
  "acked s d s' \<longleftrightarrow> tx_window_ok s' \<and> tx_am_metrics_ok (ta_metrics_low s') \<and> ta_cfg s' = ta_cfg s \<and> ta_is_srb s' = ta_is_srb s \<and>
     ta_retx_queue s' = ta_retx_queue s \<and> ta_sdu_queue s' = ta_sdu_queue s \<and> tx_next_of s' = tx_next_of s \<and>
     sn_under_segmentation s' = sn_under_segmentation s \<and> tx_ack_of s' = at_dist (ta_size s) (tx_ack_of s) d \<and>
     (\<forall>k. win_find (ta_window s') k = (if away (ta_size s) (tx_ack_of s) k < d then None else win_find (ta_window s) k))"

lemma ack_sdu_ok:
  assumes w: "tx_window_ok s" and m: "tx_am_metrics_ok (ta_metrics_low s)"
    and pos: "0 < away (ta_size s) (tx_ack_of s) (tx_next_of s)"
  obtains acks' s' where "ack_sdu env (tx_ack_of s) acks s = Inr (acks', s')" and "acked s 1 s'" and "has_sn (ta_window s) (tx_ack_of s)"
proof -
  let ?z = "ta_size s" and ?b = "tx_ack_of s" and ?w = "ta_window s"
  have keys: "tx_keys ?z ?b (tx_next_of s) (segmenting s) ?w" using w by (simp add: tx_window_ok_def)
  then have "win_find ?w ?b \<noteq> None" using pos by (simp add: tx_keys_def)
  then obtain info where find: "win_find ?w ?b = Some info" by auto
  obtain m' where m': "rtl_add_ack_latency_ms (te_ack_latency env ?b) (ta_metrics_low s) = Inr m'" "tx_am_metrics_ok m'"
    using tx_metrics_add_ok(4) [OF m] by metis
  note ack = tx_keys_ack [OF keys pos]
  have b1: "(?b + 1) mod am_mod_of ?z = at_dist ?z ?b 1" by (simp add: at_dist_def ring_add_def)
  define s' where "s' = add_discarded_pdu (ti_sdu info)
      (s\<lparr>ta_metrics_low := m', ta_window := win_del ?b ?w, ta_st := (ta_st s)\<lparr>tx_next_ack := (?b + 1) mod am_mod_of ?z\<rparr>\<rparr>)"
  have f: "ta_cfg s' = ta_cfg s" "ta_is_srb s' = ta_is_srb s" "ta_retx_queue s' = ta_retx_queue s" "ta_sdu_queue s' = ta_sdu_queue s"
    "tx_next_of s' = tx_next_of s" "sn_under_segmentation s' = sn_under_segmentation s" "tx_ack_of s' = at_dist ?z ?b 1"
    "ta_window s' = win_del ?b ?w" "ta_metrics_low s' = m'"
    by (simp_all add: s'_def add_discarded_pdu_def b1)
  have "\<exists>acks'. ack_sdu env ?b acks s = Inr (acks', s')"
    by (simp add: ack_sdu_def win_at_find find m' remove_sn_del has_sn_find s'_def)
  then obtain acks' where e: "ack_sdu env ?b acks s = Inr (acks', s')" by blast
  have "tx_window_ok s'"
    using w ack(1,2) f by (auto simp: tx_window_ok_def segmenting_def split: if_splits)
  moreover have "win_find (ta_window s') k = (if away ?z ?b k < 1 then None else win_find ?w k)" for k
  proof (cases "is_sn ?z k")
    case True
    have "away ?z ?b k = 0 \<longleftrightarrow> k = ?b" using away_inj [OF True, of ?b ?b] keys by (auto simp: tx_keys_def)
    then show ?thesis using f(8) ack(2) by auto
  next
    case False
    then have "win_find ?w k = None" using window_key [OF w, of k] by fastforce
    then show ?thesis using f(8) ack(2) by auto
  qed
  ultimately have "acked s 1 s'" using f m'(2) by (simp add: acked_def)
  then show ?thesis using that e find by (simp add: has_sn_find)
qed

lemma acked_trans:
  assumes "tx_window_ok s" and "acked s 1 t" and "acked t d u"
  shows "acked s (Suc d) u"
proof -
  let ?z = "ta_size s" and ?b = "tx_ack_of s"
  have z: "ta_size t = ?z" "tx_ack_of t = at_dist ?z ?b 1" using assms(2) by (simp_all add: acked_def)
  have "win_find (ta_window u) k = (if away ?z ?b k < Suc d then None else win_find (ta_window s) k)" for k
  proof (cases "away ?z ?b k = 0")
    case True
    then have "win_find (ta_window t) k = None" using assms(2) by (simp add: acked_def)
    then show ?thesis using assms(3) True by (auto simp: acked_def)
  next
    case False
    then have "away ?z (at_dist ?z ?b 1) k = away ?z ?b k - 1" by (intro away_shift) simp
    then have "(away ?z (at_dist ?z ?b 1) k < d) = (away ?z ?b k < Suc d)" using False by auto
    then show ?thesis using assms(2,3) False z by (simp add: acked_def)
  qed
  then show ?thesis using assms z by (simp add: acked_def at_at)
qed

lemma acked_none: "tx_window_ok s \<Longrightarrow> tx_am_metrics_ok (ta_metrics_low s) \<Longrightarrow> acked s 0 s"
  by (simp add: acked_def) (simp add: tx_window_ok_def tx_keys_def)

lemma ack_loop_ok:
  assumes "tx_window_ok s" and "tx_am_metrics_ok (ta_metrics_low s)" and "away (ta_size s) (tx_ack_of s) stop = D"
    and "D \<le> away (ta_size s) (tx_ack_of s) (tx_next_of s) \<or> \<not> segmenting s"
  shows "\<exists>acks' s'. ack_loop (ta_size s) env stop (tx_ack_of s) acks s = Inr (acks', s') \<and>
    acked s (min D (away (ta_size s) (tx_ack_of s) (tx_next_of s))) s'"
  using assms
proof (induction D arbitrary: s acks)
  case 0
  have "\<not> mod_base (am_mod_of (ta_size s)) (tx_ack_of s) (tx_ack_of s) < mod_base (am_mod_of (ta_size s)) (tx_ack_of s) stop"
    unfolding away_less_iff using 0 by simp
  then have "ack_loop (ta_size s) env stop (tx_ack_of s) acks s = Inr (acks, s)"
    by (subst ack_loop.simps) (rule if_not_P)
  then show ?case using acked_none 0 by auto
next
  case (Suc D)
  let ?z = "ta_size s" and ?b = "tx_ack_of s" and ?e = "tx_next_of s"
  let ?acks = "acks\<lparr>al_processed := al_processed acks + 1\<rparr>"
  have go: "mod_base (am_mod_of ?z) ?b ?b < mod_base (am_mod_of ?z) ?b stop"
    unfolding away_less_iff using Suc.prems(3) by simp
  show ?case
  proof (cases "away ?z ?b ?e")
    case 0
    have no: "\<not> segmenting s" using 0 Suc.prems(4) by simp
    have "win_find (ta_window s) ?b = None"
      using Suc.prems(1) 0 no by (auto simp: tx_window_ok_def tx_keys_def)
    then have "ack_loop ?z env stop ?b acks s = Inr (?acks, s)" using go by (subst ack_loop.simps) (simp add: has_sn_find)
    then show ?thesis using acked_none [OF Suc.prems(1,2)] 0 by auto
  next
    case (Suc L)
    have pos: "0 < away ?z ?b ?e" using Suc by simp
    obtain acks1 t where t: "ack_sdu env ?b ?acks s = Inr (acks1, t)" "acked s 1 t" "has_sn (ta_window s) ?b"
      by (rule ack_sdu_ok [OF Suc.prems(1,2) pos]) (rule that)
    have b1: "(?b + 1) mod am_mod_of ?z = tx_ack_of t" using t(2) by (simp add: acked_def at_dist_def ring_add_def)
    have f: "tx_window_ok t" "tx_am_metrics_ok (ta_metrics_low t)" "ta_size t = ?z" "tx_next_of t = ?e" "tx_ack_of t = at_dist ?z ?b 1"
      "segmenting t = segmenting s"
      using t(2) by (simp_all add: acked_def segmenting_def)
    have stop: "away (ta_size t) (tx_ack_of t) stop = D"
      using away_shift [of 1 ?z ?b stop] Suc.prems(3) f by simp
    have e: "away (ta_size t) (tx_ack_of t) (tx_next_of t) = L" using away_shift [of 1 ?z ?b ?e] Suc f by simp
    have cond: "D \<le> away (ta_size t) (tx_ack_of t) (tx_next_of t) \<or> \<not> segmenting t" using Suc.prems(4) Suc e f by auto
    from Suc.IH [OF f(1,2) stop cond, of acks1] obtain acks' s' where r: "ack_loop (ta_size t) env stop (tx_ack_of t) acks1 t = Inr (acks', s')"
      "acked t (min D L) s'" unfolding e by blast
    have "ack_loop ?z env stop ?b acks s = Inr (acks', s')"
      using go t r(1) f b1 by (subst ack_loop.simps) simp
    moreover have "acked s (min (Suc D) (Suc L)) s'" using acked_trans [OF Suc.prems(1) t(2) r(2)] by simp
    ultimately show ?thesis using Suc by auto
  qed
qed

lemma acked_unacked:
  assumes w: "tx_window_ok s" and a: "acked s d s'" and d: "d \<le> away (ta_size s) (tx_ack_of s) (tx_next_of s)"
  shows "unacked s' = drop d (unacked s)" and "in_flight s' = in_flight s - d" and "waiting s' = waiting s"
proof -
  let ?z = "ta_size s" and ?b = "tx_ack_of s"
  have f: "ta_size s' = ?z" "tx_ack_of s' = at_dist ?z ?b d" "tx_next_of s' = tx_next_of s" "segmenting s' = segmenting s"
    using a by (simp_all add: acked_def segmenting_def)
  have "away ?z (at_dist ?z ?b d) (tx_next_of s) = away ?z ?b (tx_next_of s) - d" by (rule away_shift [OF d])
  then show c: "in_flight s' = in_flight s - d" using f d by (auto simp: in_flight_def)
  show "waiting s' = waiting s" using a by (simp add: acked_def waiting_def)
  show "unacked s' = drop d (unacked s)"
  proof (rule nth_equalityI)
    show "length (unacked s') = length (drop d (unacked s))" using c by simp
    fix n assume "n < length (unacked s')"
    then have n: "n < in_flight s'" "d + n < in_flight s" using c by simp_all
    then have lt: "d + n < unat (am_mod_of ?z)" using in_flight_le [OF w] am_mod_window [of ?z] by linarith
    have "sdu_at s' (at_dist ?z ?b (d + n)) = sdu_at s (at_dist ?z ?b (d + n))"
      using a lt by (simp add: acked_def sdu_at_def)
    then show "unacked s' ! n = drop d (unacked s) ! n" using n f by (simp add: unacked_nth at_at)
  qed
qed

section \<open>Retransmission counts\<close>

text \<open>The same SDUs, with other counts of retransmissions.\<close>

definition counts_only :: "rlc_tx_am_sdu_info sdu_window \<Rightarrow> rlc_tx_am_sdu_info sdu_window \<Rightarrow> bool" where
  "counts_only w w' \<longleftrightarrow> (\<forall>k. \<exists>c. win_find w' k = map_option (\<lambda>info. info\<lparr>ti_retx_count := c\<rparr>) (win_find w k))"

lemma same_count: "\<exists>c. x = map_option (\<lambda>info. info\<lparr>ti_retx_count := c\<rparr>) x"
  by (rule exI [of _ "ti_retx_count (the x)"]) (cases x; simp)

lemma counts_only_refl [simp]: "counts_only w w"
  unfolding counts_only_def using same_count by blast

lemma counts_only_find:
  assumes "counts_only w w'" and "win_find w k = Some info"
  obtains c where "win_find w' k = Some (info\<lparr>ti_retx_count := c\<rparr>)"
  using assms unfolding counts_only_def by (metis option.simps(9))

lemma counts_only_none: "counts_only w w' \<Longrightarrow> win_find w' k = None \<longleftrightarrow> win_find w k = None"
  unfolding counts_only_def by (metis map_option_is_None)

lemma counts_only_trans:
  assumes "counts_only w w1" and "counts_only w1 w2"
  shows "counts_only w w2"
  unfolding counts_only_def
proof
  fix k
  show "\<exists>c. win_find w2 k = map_option (\<lambda>info. info\<lparr>ti_retx_count := c\<rparr>) (win_find w k)"
  proof (cases "win_find w k")
    case None
    then show ?thesis using counts_only_none [OF assms(1)] counts_only_none [OF assms(2)] by simp
  next
    case (Some info)
    obtain c where "win_find w1 k = Some (info\<lparr>ti_retx_count := c\<rparr>)" by (rule counts_only_find [OF assms(1) Some])
    from counts_only_find [OF assms(2) this] obtain c' where "win_find w2 k = Some (info\<lparr>ti_retx_count := c, ti_retx_count := c'\<rparr>)" .
    then show ?thesis using Some by auto
  qed
qed

lemma counts_only_sdu: "counts_only w w' \<Longrightarrow> map_option ti_sdu (win_find w' k) = map_option ti_sdu (win_find w k)"
  by (cases "win_find w k") (auto simp: counts_only_none elim: counts_only_find)

lemma counts_only_retx: "counts_only w w' \<Longrightarrow> retx_queue_ok z w q \<Longrightarrow> retx_queue_ok z w' q"
  by (rule retx_queue_ok_mono) (auto elim!: counts_only_find)

text \<open>An operation that only changes counts, and the queue of retransmissions.\<close>

definition counted :: "rlc_tx_am_entity \<Rightarrow> rlc_tx_am_entity \<Rightarrow> bool" where
  "counted s s' \<longleftrightarrow> tx_window_ok s' \<and> same_abs s s' \<and> counts_only (ta_window s) (ta_window s') \<and>
     ta_sdu_queue s' = ta_sdu_queue s \<and> ta_metrics_low s' = ta_metrics_low s"

lemma counted_refl: "tx_window_ok s \<Longrightarrow> counted s s"
  by (simp add: counted_def)

lemma counted_trans: "counted s t \<Longrightarrow> counted t u \<Longrightarrow> counted s u"
  using same_abs_trans counts_only_trans by (auto simp: counted_def)

lemma counted_retx:
  "tx_window_ok s \<Longrightarrow> counted s (s\<lparr>ta_retx_sn := sn\<rparr>)" "tx_window_ok s \<Longrightarrow> counted s (s\<lparr>ta_retx_queue := q\<rparr>)"
  by (simp_all add: counted_def tx_window_ok_def segmenting_def same_abs_def waiting_def sdu_at_def)

lemma update_count_ok:
  assumes w: "tx_window_ok s" and find: "win_find (ta_window s) sn = Some info" and f: "\<exists>c. f info = info\<lparr>ti_retx_count := c\<rparr>"
  shows "win_update sn f (ta_window s) = Inr (win_put sn (f info) (ta_window s))"
    and "counted s (s\<lparr>ta_window := win_put sn (f info) (ta_window s)\<rparr>)"
    and "win_find (win_put sn (f info) (ta_window s)) = (win_find (ta_window s))(sn \<mapsto> f info)"
proof -
  let ?w = "ta_window s"
  have keys: "tx_keys (ta_size s) (tx_ack_of s) (tx_next_of s) (segmenting s) ?w" using w by (simp add: tx_window_ok_def)
  then have "win_wf ?w" by (simp add: tx_keys_def)
  then show "win_update sn f ?w = Inr (win_put sn (f info) ?w)" by (simp add: win_update_find find)
  note u = tx_keys_update [OF keys find, of "f info"]
  show look: "win_find (win_put sn (f info) ?w) = (win_find ?w)(sn \<mapsto> f info)" by (rule u(2))
  obtain c where c: "f info = info\<lparr>ti_retx_count := c\<rparr>" using f by blast
  let ?s = "s\<lparr>ta_window := win_put sn (f info) ?w\<rparr>"
  have "tx_window_ok ?s"
    using w u look find c by (auto simp: tx_window_ok_def segmenting_def info_sized_def split: if_splits)
  moreover have "counts_only ?w (win_put sn (f info) ?w)"
    unfolding counts_only_def
  proof
    fix k
    show "\<exists>c. win_find (win_put sn (f info) ?w) k = map_option (\<lambda>info. info\<lparr>ti_retx_count := c\<rparr>) (win_find ?w k)"
    proof (cases "k = sn")
      case True
      then show ?thesis using look find c by auto
    next
      case False
      then have "win_find (win_put sn (f info) ?w) k = win_find ?w k" using look by simp
      then show ?thesis using same_count [of "win_find ?w k"] by simp
    qed
  qed
  moreover have "same_abs s ?s" using look find c by (auto simp: same_abs_def waiting_def sdu_at_def)
  ultimately show "counted s ?s" by (simp add: counted_def)
qed

lemma decrement_ok:
  assumes "tx_window_ok s" and "win_find (ta_window s) sn = Some info"
  obtains s' where "decrement_retx_count sn s = Inr s'" and "counted s s'" and "ta_retx_queue s' = ta_retx_queue s"
proof -
  let ?f = "\<lambda>info. if ti_retx_count info = retx_count_not_started then info
         else if ti_retx_count info = 0 then info\<lparr>ti_retx_count := retx_count_not_started\<rparr>
         else info\<lparr>ti_retx_count := ti_retx_count info - 1\<rparr>"
  have "\<exists>c. ?f info = info\<lparr>ti_retx_count := c\<rparr>"
    by (rule exI [of _ "ti_retx_count (?f info)"]) simp
  note u = update_count_ok [where f = ?f, OF assms this]
  define s' where "s' = s\<lparr>ta_window := win_put sn (?f info) (ta_window s)\<rparr>"
  have "decrement_retx_count sn s = Inr s'" unfolding decrement_retx_count_def u(1) seq_run_simps s'_def ..
  moreover have "counted s s'" unfolding s'_def by (rule u(2))
  moreover have "ta_retx_queue s' = ta_retx_queue s" by (simp add: s'_def)
  ultimately show ?thesis using that by blast
qed

lemma increment_ok:
  assumes "tx_window_ok s" and "win_find (ta_window s) sn = Some info"
  obtains s' where "increment_retx_count sn s = Inr s'" and "counted s s'" and "ta_retx_queue s' = ta_retx_queue s"
proof -
  let ?f = "\<lambda>info. if ti_retx_count info = retx_count_not_started then info\<lparr>ti_retx_count := 0\<rparr>
         else info\<lparr>ti_retx_count := ti_retx_count info + 1\<rparr>"
  have "\<exists>c. ?f info = info\<lparr>ti_retx_count := c\<rparr>"
    by (rule exI [of _ "ti_retx_count (?f info)"]) simp
  note u = update_count_ok [where f = ?f, OF assms this]
  define s1 where "s1 = s\<lparr>ta_window := win_put sn (?f info) (ta_window s)\<rparr>"
  define s' where "s' = (if ti_retx_count (?f info) = tac_max_retx_thresh (ta_cfg s) then emit Rlc_max_retx s1 else s1)"
  have "win_find (ta_window s1) sn = Some (?f info)" using u(3) by (simp add: s1_def)
  then have "check_sn_reached_max_retx sn s1 = Inr s'"
    unfolding check_sn_reached_max_retx_def win_at_find by (simp add: s'_def s1_def)
  then have e: "increment_retx_count sn s = Inr s'" unfolding increment_retx_count_def u(1) seq_run_simps s1_def .
  have c1: "counted s s1" using u(2) by (simp add: s1_def)
  have "counted s1 (emit Rlc_max_retx s1)" using c1 by (simp add: counted_def tx_window_ok_def segmenting_def)
  then have "counted s s'" using c1 counted_trans by (auto simp: s'_def)
  moreover have "ta_retx_queue s' = ta_retx_queue s" by (simp add: s'_def s1_def)
  ultimately show ?thesis using that e by blast
qed

lemma clear_retx_queue_ok:
  assumes "rq_ok q" and "tx_window_ok s"
  shows "\<exists>s'. clear_retx_queue q s = Inr s' \<and> counted s s' \<and> rq_ok (ta_retx_queue s') \<and> rq_items (ta_retx_queue s') = [] \<and>
    rb_max_size (rq_queue (ta_retx_queue s')) = rb_max_size (rq_queue q)"
  using assms
proof (induction "rq_items q" arbitrary: q s)
  case Nil
  have "clear_retx_queue q s = Inr (s\<lparr>ta_retx_queue := q\<rparr>)"
    using Nil by (subst clear_retx_queue.simps) (simp add: rq_empty_items)
  moreover have "counted s (s\<lparr>ta_retx_queue := q\<rparr>)" by (rule counted_retx(2) [OF Nil(3)])
  ultimately show ?case using Nil by auto
next
  case (Cons r rs)
  have items: "rq_items q = r # rs" using Cons(2) by simp
  obtain q' where q': "rq_pop q = Inr q'" "rq_ok q'" "rq_items q' = rs" "rb_max_size (rq_queue q') = rb_max_size (rq_queue q)"
    by (rule rq_pop_Cons [OF Cons(3) items]) (rule that)
  have ne: "\<not> rq_empty q" and front: "rq_front q = Inr r"
    using Cons(3) items by (simp_all add: rq_empty_items rq_front_Cons)
  obtain s1 where s1: "(if ta_retx_sn s \<noteq> rt_sn r
      then seq_run (if has_sn (ta_window s) (rt_sn r) then decrement_retx_count (rt_sn r) s else Inr s)
             (\<lambda>s. Inr (s\<lparr>ta_retx_sn := rt_sn r\<rparr>))
      else Inr s) = Inr s1" and c1: "counted s s1"
  proof (cases "ta_retx_sn s \<noteq> rt_sn r")
    case True
    obtain t where t: "(if has_sn (ta_window s) (rt_sn r) then decrement_retx_count (rt_sn r) s else Inr s) = Inr t" "counted s t"
    proof (cases "win_find (ta_window s) (rt_sn r)")
      case None
      then show ?thesis using that [of s] counted_refl [OF Cons(4)] by (simp add: has_sn_find)
    next
      case (Some info)
      then show ?thesis using decrement_ok [OF Cons(4) Some] that by (metis has_sn_find option.distinct(1))
    qed
    have "counted t (t\<lparr>ta_retx_sn := rt_sn r\<rparr>)" by (rule counted_retx(1)) (use t(2) in \<open>simp add: counted_def\<close>)
    then have "counted s (t\<lparr>ta_retx_sn := rt_sn r\<rparr>)" by (rule counted_trans [OF t(2)])
    then show ?thesis using that [of "t\<lparr>ta_retx_sn := rt_sn r\<rparr>"] True t(1) by simp
  next
    case False
    then show ?thesis using that [of s] counted_refl [OF Cons(4)] by simp
  qed
  have w1: "tx_window_ok s1" using c1 by (simp add: counted_def)
  from Cons(1) [OF q'(3) [symmetric] q'(2) w1] obtain s' where s': "clear_retx_queue q' s1 = Inr s'" "counted s1 s'"
    "rq_ok (ta_retx_queue s')" "rq_items (ta_retx_queue s') = []" "rb_max_size (rq_queue (ta_retx_queue s')) = rb_max_size (rq_queue q')"
    by blast
  have "clear_retx_queue q s = Inr s'"
    using ne front s1 q'(1) s'(1) by (subst clear_retx_queue.simps) simp
  then show ?case using s' q' counted_trans [OF c1 s'(2)] by auto
qed

section \<open>NACKs\<close>

lemma unat_ucast_u32: "unat (ucast (x :: u16) :: u32) = unat x"
proof -
  have "unat x < 2 ^ 16" using unsigned_less [where 'a = nat, of x] by simp
  then show ?thesis by (simp add: unsigned_ucast_eq take_bit_eq_mod)
qed

lemma ucast_le_u16: "(L :: u32) \<le> ucast (x :: u16) \<longleftrightarrow> unat L \<le> unat x"
  by (simp add: word_le_nat_alt unat_ucast_u32)

lemma unat_pred_u16:
  assumes "0 < unat (L :: u32)" and "unat L \<le> 65536"
  shows "unat (ucast (L - 1) :: u16) = unat L - 1"
proof -
  have "unat (L - 1) = unat L - 1" using assms(1) by (simp add: unat_minus_one unat_gt_0)
  then show ?thesis using assms(2) unat_ucast_u16 [of "L - 1"] by simp
qed

text \<open>The checks leave a part of the SDU.\<close>

lemma nack_checks_ok:
  assumes L: "0 < unat L" "unat L \<le> 65535" and e: "nack_checks env L n s = (n', s')"
  shows "nack_sn n' = nack_sn n" and "unat (so_start n') \<le> unat (so_end n')" and "unat (so_end n') < unat L"
    and "txam_inv s' = txam_inv s" and "same_abs s s'" and "ta_window s' = ta_window s" and "ta_retx_queue s' = ta_retx_queue s"
    and "\<lbrakk>so_start n \<le> so_end n; unat (so_end n) < unat L\<rbrakk> \<Longrightarrow> n' = n"
proof -
  have p: "unat (ucast (L - 1) :: u16) = unat L - 1" by (rule unat_pred_u16) (use L in simp_all)
  have st: "so_start n' = (if so_end n < so_start n \<or> L \<le> ucast (so_start n) then 0 else so_start n)"
    and en: "so_end n' = (if L \<le> ucast (so_end n) then ucast (L - 1) else so_end n)" and sn: "nack_sn n' = nack_sn n"
    and same: "\<lbrakk>\<not> so_end n < so_start n; \<not> L \<le> ucast (so_start n); \<not> L \<le> ucast (so_end n)\<rbrakk> \<Longrightarrow> n' = n"
    using e by (auto simp: nack_checks_def Let_def split: if_splits)
  have us: "unat (so_start n') = (if unat (so_end n) < unat (so_start n) \<or> unat L \<le> unat (so_start n) then 0 else unat (so_start n))"
    unfolding st by (simp add: ucast_le_u16 word_less_nat_alt)
  have ue: "unat (so_end n') = (if unat L \<le> unat (so_end n) then unat L - 1 else unat (so_end n))"
    unfolding en by (simp add: ucast_le_u16 p)
  have n: "nack_sn n' = nack_sn n \<and> unat (so_start n') \<le> unat (so_end n') \<and> unat (so_end n') < unat L \<and>
      (so_start n \<le> so_end n \<and> unat (so_end n) < unat L \<longrightarrow> n' = n)"
    using sn us ue same [unfolded ucast_le_u16] L(1) by (auto simp: word_less_nat_alt word_le_nat_alt)
  then show "nack_sn n' = nack_sn n" "unat (so_start n') \<le> unat (so_end n')" "unat (so_end n') < unat L"
    "\<lbrakk>so_start n \<le> so_end n; unat (so_end n) < unat L\<rbrakk> \<Longrightarrow> n' = n" by simp_all
  show "txam_inv s' = txam_inv s" "same_abs s s'" "ta_window s' = ta_window s" "ta_retx_queue s' = ta_retx_queue s"
    using e by (auto simp: nack_checks_def Let_def same_abs_def waiting_def sdu_at_def split: if_splits)
qed

text \<open>The SNs that a NACK may name: those the window holds whenever they are in range.\<close>

definition nackable :: "rlc_tx_am_entity \<Rightarrow> u32 \<Rightarrow> bool" where
  "nackable s sn \<longleftrightarrow> is_sn (ta_size s) sn \<and> (sn = tx_next_of s \<longrightarrow> segmenting s)"

lemma nackable_find:
  assumes w: "tx_window_ok s" and n: "nackable s sn" and le: "away (ta_size s) (tx_ack_of s) sn \<le> away (ta_size s) (tx_ack_of s) (tx_next_of s)"
  obtains info where "win_find (ta_window s) sn = Some info" and "info_sized (sn = sn_under_segmentation s) info"
proof -
  have sn: "is_sn (ta_size s) sn" "is_sn (ta_size s) (tx_next_of s)"
    using n w by (simp_all add: nackable_def tx_window_ok_def tx_keys_def)
  have "away (ta_size s) (tx_ack_of s) sn < away (ta_size s) (tx_ack_of s) (tx_next_of s) \<or> segmenting s \<and> sn = tx_next_of s"
    using le n away_inj [OF sn, of "tx_ack_of s"] by (auto simp: nackable_def)
  then have "win_find (ta_window s) sn \<noteq> None" using w sn by (auto simp: tx_window_ok_def tx_keys_def)
  then obtain info where "win_find (ta_window s) sn = Some info" by auto
  then show ?thesis using that w by (auto simp: tx_window_ok_def)
qed

text \<open>
  Handling one NACK: it is ignored, or it adds one retransmission at the end of the queue, within the
  SDU; for a NACK within the part of the SDU that was sent, exactly what it asks for.
\<close>

lemma handle_nack_ok:
  assumes inv: "txam_inv s" and n: "nackable s (nack_sn nack)"
  obtains ok s' where "handle_nack env nack s = Inr (ok, s')" and "txam_inv s'" and "same_abs s s'" and "ta_window s' = ta_window s"
    and "ok \<Longrightarrow> \<exists>r. rq_items (ta_retx_queue s') = rq_items (ta_retx_queue s) @ [r] \<and> rt_sn r = nack_sn nack"
    and "\<not> ok \<Longrightarrow> rq_items (ta_retx_queue s') = rq_items (ta_retx_queue s)"
    and "ok \<Longrightarrow> win_find (ta_window s) (nack_sn nack) \<noteq> None"
proof -
  have w: "tx_window_ok s" and rq: "retx_queue_ok (ta_size s) (ta_window s) (ta_retx_queue s)" using inv by (simp_all add: txam_inv_def)
  show ?thesis
  proof (cases "has_nack_range nack \<or> \<not> away (ta_size s) (tx_ack_of s) (nack_sn nack) \<le> away (ta_size s) (tx_ack_of s) (tx_next_of s)")
    case True
    then have "handle_nack env nack s = Inr (False, s)"
      unfolding handle_nack_def tx_mod_base_def away_le_iff by auto
    then show ?thesis by (rule that) (use inv in simp_all)
  next
    case False
    then have nr: "\<not> has_nack_range nack"
      and le: "away (ta_size s) (tx_ack_of s) (nack_sn nack) \<le> away (ta_size s) (tx_ack_of s) (tx_next_of s)" by simp_all
    obtain info where find: "win_find (ta_window s) (nack_sn nack) = Some info" and sized: "info_sized (nack_sn nack = sn_under_segmentation s) info"
      by (rule nackable_find [OF w n le])
    let ?L = "of_nat (length (ti_sdu info)) :: u32"
    have len: "0 < length (ti_sdu info)" "length (ti_sdu info) \<le> 65535" using sized by (auto simp: info_sized_def sdu_sized_def)
    have L: "unat ?L = length (ti_sdu info)" by (rule unat_of_nat_u32 [OF len(2)])
    have h: "handle_nack env nack s =
        (case nack_limits nack info s of
            None \<Rightarrow> Inr (False, s)
          | Some nack \<Rightarrow>
              (let (nack, s) = nack_checks env ?L nack s;
                   retx = \<lparr>rt_sn = nack_sn nack, rt_so = ucast (so_start nack),
                           rt_length = ucast (so_end nack) - ucast (so_start nack) + 1\<rparr>;
                   (ok, q) = rq_try_push retx (ta_retx_queue s) in
               Inr (ok, s\<lparr>ta_retx_queue := q\<rparr>)))"
      using nr le find unfolding handle_nack_def tx_mod_base_def away_le_iff by (simp add: win_at_find)
    show ?thesis
    proof (cases "nack_limits nack info s")
      case None
      then have "handle_nack env nack s = Inr (False, s)" using h by simp
      then show ?thesis by (rule that) (use inv in simp_all)
    next
      case (Some n1)
      have sn1: "nack_sn n1 = nack_sn nack" using Some by (auto simp: nack_limits_def Let_def split: if_splits)
      obtain n2 s2 where c: "nack_checks env ?L n1 s = (n2, s2)" by force
      have Lp: "0 < unat ?L" "unat ?L \<le> 65535" using len L by simp_all
      note ck = nack_checks_ok [OF Lp c]
      define r where "r = \<lparr>rt_sn = nack_sn n2, rt_so = ucast (so_start n2), rt_length = ucast (so_end n2) - ucast (so_start n2) + 1\<rparr>"
      obtain ok q where p: "rq_try_push r (ta_retx_queue s2) = (ok, q)" by force
      have rl: "unat (rt_length r) = unat (so_end n2) - unat (so_start n2) + 1"
      proof -
        have "unat (ucast (so_end n2) - ucast (so_start n2) :: u32) = unat (so_end n2) - unat (so_start n2)"
          using ck(2) by (subst unat_sub) (simp_all add: word_le_nat_alt unat_ucast_u32)
        moreover have "unat (so_end n2) - unat (so_start n2) + 1 < 2 ^ 32" using ck(3) Lp by simp
        ultimately show ?thesis by (simp add: r_def unat_word_ariths)
      qed
      then have rlen: "unat (rt_length r) \<le> 65535" using ck(3) Lp by simp
      have "retx_in (ta_window s) r"
        using find ck(1-3) sn1 L rl by (simp add: retx_in_def r_def unat_ucast_u32)
      moreover have ok2: "rq_ok (ta_retx_queue s2)" "rb_max_size (rq_queue (ta_retx_queue s2)) = unat (am_window_size_of (ta_size s))"
        "\<forall>r \<in> set (rq_items (ta_retx_queue s2)). retx_in (ta_window s) r"
        using rq ck(7) by (simp_all add: retx_queue_ok_def)
      ultimately have q: "retx_queue_ok (ta_size s) (ta_window s) q" "rq_items q = (if ok then rq_items (ta_retx_queue s) @ [r] else rq_items (ta_retx_queue s))"
        using rq_try_push_ok(1,2,4) [OF ok2(1), of r] rlen p ck(7) by (auto simp: retx_queue_ok_def)
      let ?s' = "s2\<lparr>ta_retx_queue := q\<rparr>"
      have e: "handle_nack env nack s = Inr (ok, ?s')" using h Some c p by (simp add: r_def)
      have cfg: "ta_size s2 = ta_size s" using ck(5) by (simp add: same_abs_def)
      have "txam_inv s2" using inv ck(4) by simp
      then have inv': "txam_inv ?s'" using q(1) ck(6) cfg by (simp add: txam_inv_def tx_window_ok_def segmenting_def)
      have "same_abs s ?s'" using ck(5) by (simp add: same_abs_def waiting_def sdu_at_def)
      then show ?thesis
        by (rule that [OF e inv']) (use q(2) ck(1,6) sn1 find in \<open>auto simp: r_def\<close>)
    qed
  qed
qed

end
