(* ===== verification/Rlc_Tx_Am_Report.thy ===== *)
theory Rlc_Tx_Am_Report
  imports Rlc_Tx_Am_Status
begin

text \<open>
  What a whole status report does to the transmitting entity of the acknowledged mode: the NACKs, one by
  one and in ranges, and the handler, for the reports that only cover what was sent.
\<close>

section \<open>The NACKs of a report\<close>

text \<open>Retransmissions are added at the end of the queue, for SNs with a property.\<close>

definition queued :: "(u32 \<Rightarrow> bool) \<Rightarrow> rlc_tx_am_entity \<Rightarrow> rlc_tx_am_entity \<Rightarrow> bool" where
  "queued P s s' \<longleftrightarrow> (\<exists>rs. rq_items (ta_retx_queue s') = rq_items (ta_retx_queue s) @ rs \<and> (\<forall>r \<in> set rs. P (rt_sn r)))"

definition nacks_handled :: "(u32 \<Rightarrow> bool) \<Rightarrow> rlc_tx_am_entity \<Rightarrow> rlc_tx_am_entity \<Rightarrow> bool" where
  "nacks_handled P s s' \<longleftrightarrow> txam_inv s' \<and> same_abs s s' \<and> queued P s s'"

lemma queued_refl [simp]: "queued P s s"
  by (simp add: queued_def)

lemma queued_same: "rq_items (ta_retx_queue s') = rq_items (ta_retx_queue s) \<Longrightarrow> queued P s s'"
  by (simp add: queued_def)

lemma queued_trans:
  assumes "queued P s t" and "queued P t u"
  shows "queued P s u"
proof -
  obtain rs where rs: "rq_items (ta_retx_queue t) = rq_items (ta_retx_queue s) @ rs" "\<forall>r \<in> set rs. P (rt_sn r)"
    using assms(1) by (auto simp: queued_def)
  obtain us where us: "rq_items (ta_retx_queue u) = rq_items (ta_retx_queue t) @ us" "\<forall>r \<in> set us. P (rt_sn r)"
    using assms(2) by (auto simp: queued_def)
  show ?thesis unfolding queued_def by (rule exI [of _ "rs @ us"]) (use rs us in auto)
qed

lemma queued_mono: "queued P s s' \<Longrightarrow> (\<And>sn. P sn \<Longrightarrow> Q sn) \<Longrightarrow> queued Q s s'"
  unfolding queued_def by blast

lemma nacks_handled_refl: "txam_inv s \<Longrightarrow> nacks_handled P s s"
  by (simp add: nacks_handled_def)

lemma nacks_handled_trans: "nacks_handled P s t \<Longrightarrow> nacks_handled P t u \<Longrightarrow> nacks_handled P s u"
  unfolding nacks_handled_def using same_abs_trans queued_trans by blast

lemma nacks_handled_mono: "nacks_handled P s s' \<Longrightarrow> (\<And>sn. P sn \<Longrightarrow> Q sn) \<Longrightarrow> nacks_handled Q s s'"
  unfolding nacks_handled_def using queued_mono by blast

lemma counted_inv:
  assumes "txam_inv s" and "counted s s'" and "ta_retx_queue s' = ta_retx_queue s"
  shows "txam_inv s'"
proof -
  have "ta_cfg s' = ta_cfg s" using assms(2) by (simp add: counted_def same_abs_def)
  moreover have "retx_queue_ok (ta_size s) (ta_window s') (ta_retx_queue s)"
    by (rule counts_only_retx [of "ta_window s"]) (use assms in \<open>simp_all add: counted_def txam_inv_def\<close>)
  ultimately show ?thesis using assms by (simp add: counted_def txam_inv_def)
qed

lemma process_nack_ok:
  assumes inv: "txam_inv s" and n: "nackable s (nack_sn nack)"
  obtains prev' s' where "process_nack env nack prev s = Inr (prev', s')" and "nacks_handled (\<lambda>sn. sn = nack_sn nack) s s'"
proof -
  obtain ok t where h: "handle_nack env nack s = Inr (ok, t)" and t: "txam_inv t" "same_abs s t" "ta_window t = ta_window s"
    and yes: "ok \<Longrightarrow> \<exists>r. rq_items (ta_retx_queue t) = rq_items (ta_retx_queue s) @ [r] \<and> rt_sn r = nack_sn nack"
    and no: "\<not> ok \<Longrightarrow> rq_items (ta_retx_queue t) = rq_items (ta_retx_queue s)"
    and find: "ok \<Longrightarrow> win_find (ta_window s) (nack_sn nack) \<noteq> None"
    by (rule handle_nack_ok [OF inv n, of env]) (rule that)
  have "queued (\<lambda>sn. sn = nack_sn nack) s t"
  proof (cases ok)
    case True
    then obtain r where "rq_items (ta_retx_queue t) = rq_items (ta_retx_queue s) @ [r]" "rt_sn r = nack_sn nack" using yes by blast
    then show ?thesis unfolding queued_def by (intro exI [of _ "[r]"]) simp
  next
    case False
    then show ?thesis using no by (intro queued_same) simp
  qed
  then have st: "nacks_handled (\<lambda>sn. sn = nack_sn nack) s t" using t by (simp add: nacks_handled_def)
  show ?thesis
  proof (cases "ok \<and> prev \<noteq> nack_sn nack")
    case True
    then obtain info where info: "win_find (ta_window t) (nack_sn nack) = Some info" using find t(3) by auto
    have w: "tx_window_ok t" using t(1) by (simp add: txam_inv_def)
    obtain u where u: "increment_retx_count (nack_sn nack) t = Inr u" "counted t u" "ta_retx_queue u = ta_retx_queue t"
      by (rule increment_ok [OF w info]) (rule that)
    have "nacks_handled (\<lambda>sn. sn = nack_sn nack) t u"
      using counted_inv [OF t(1) u(2,3)] u by (simp add: nacks_handled_def counted_def queued_same)
    then have "nacks_handled (\<lambda>sn. sn = nack_sn nack) s u" by (rule nacks_handled_trans [OF st])
    then show ?thesis using that [of "nack_sn nack" u] h u True by (simp add: process_nack_def)
  next
    case False
    then show ?thesis using that [of prev t] h st by (auto simp: process_nack_def)
  qed
qed

text \<open>The SNs that come before the ACK, seen from the lower end of the window when the report came in.\<close>

definition before_ack :: "rlc_am_sn_size \<Rightarrow> u32 \<Rightarrow> u32 \<Rightarrow> u32 \<Rightarrow> bool" where
  "before_ack z b ack sn \<longleftrightarrow> is_sn z sn \<and> away z b sn < away z b ack"

definition all_nackable :: "u32 \<Rightarrow> u32 \<Rightarrow> rlc_tx_am_entity \<Rightarrow> bool" where
  "all_nackable b ack s \<longleftrightarrow> (\<forall>sn. before_ack (ta_size s) b ack sn \<longrightarrow> nackable s sn)"

lemma all_nackable_same: "same_abs s s' \<Longrightarrow> all_nackable b ack s \<Longrightarrow> all_nackable b ack s'"
  by (simp add: all_nackable_def nackable_def same_abs_def segmenting_def)

text \<open>The SNs that a NACK names: one, or those of its range.\<close>

definition nack_names :: "rlc_am_sn_size \<Rightarrow> rlc_am_status_nack \<Rightarrow> u32 \<Rightarrow> bool" where
  "nack_names z nack sn \<longleftrightarrow>
     (if has_nack_range nack then sn \<in> at_dist z (nack_sn nack) ` {..<unat (nack_range nack)} else sn = nack_sn nack)"

lemma range_end_at: "(nack_sn nack + ucast (nack_range nack)) mod am_mod_of z = at_dist z (nack_sn nack) (unat (nack_range nack))"
  by (simp add: at_dist_def ring_add_def)

lemma Suc_at: "(at_dist z b i + 1) mod am_mod_of z = at_dist z b (Suc i)"
proof -
  have "(at_dist z b i + 1) mod am_mod_of z = at_dist z (at_dist z b i) 1" by (simp add: at_dist_def ring_add_def)
  then show ?thesis by (simp add: at_at)
qed

text \<open>A range stays before the ACK.\<close>

lemma range_step:
  assumes "before_ack z b ack sn"
  shows "before_ack z b ack ((sn + 1) mod am_mod_of z) \<or> (is_sn z ack \<longrightarrow> (sn + 1) mod am_mod_of z = ack)"
proof -
  have "away z b ack < unat (am_mod_of z)" by (rule away_less)
  then have e: "away z b ((sn + 1) mod am_mod_of z) = away z b sn + 1"
    using assms by (intro away_Suc) (simp add: before_ack_def)
  show ?thesis
  proof (cases "away z b sn + 1 = away z b ack")
    case True
    then have "is_sn z ack \<Longrightarrow> (sn + 1) mod am_mod_of z = ack" using e away_inj [OF is_sn_Suc, of z ack b sn] by simp
    then show ?thesis by blast
  next
    case False
    then show ?thesis using assms e by (simp add: before_ack_def)
  qed
qed

lemma range_nack_sn [simp]: "nack_sn (range_nack m nack sn) = sn"
  by (simp add: range_nack_def Let_def nack_init_def)

lemma range_loop_ok:
  assumes "ta_size s = z" and "txam_inv s" and "all_nackable b ack s" and "is_sn z ack" and "before_ack z b ack sn \<or> sn = ack"
    and "i \<le> unat (nack_range nack)" and "sn = at_dist z (nack_sn nack) i" and "has_nack_range nack"
  shows "\<exists>acc' s'. range_loop z env ack nack sn acc s = Inr (acc', s') \<and> nacks_handled (nack_names z nack) s s'"
  using assms
proof (induction z env ack nack sn acc s arbitrary: i rule: range_loop.induct)
  case (1 z env ack nack sn processed prev s)
  show ?case
  proof (cases "sn = (nack_sn nack + ucast (nack_range nack)) mod am_mod_of z \<or> sn = ack")
    case True
    then show ?thesis using nacks_handled_refl [OF 1(3)] by (subst range_loop.simps) auto
  next
    case False
    then have b: "before_ack z b ack sn" using 1(6) by simp
    have i: "i < unat (nack_range nack)" using False 1(7,8) by (auto simp: range_end_at le_less)
    then have name: "nack_names z nack sn" using 1(8,9) by (auto simp: nack_names_def)
    have n: "nackable s (nack_sn (range_nack (am_mod_of z) nack sn))" using b 1(2,4) by (simp add: all_nackable_def)
    obtain prev' t where t: "process_nack env (range_nack (am_mod_of z) nack sn) prev s = Inr (prev', t)"
      "nacks_handled (\<lambda>x. x = nack_sn (range_nack (am_mod_of z) nack sn)) s t"
      by (rule process_nack_ok [OF 1(3) n]) (rule that)
    have st: "nacks_handled (nack_names z nack) s t" by (rule nacks_handled_mono [OF t(2)]) (use name in simp)
    have f: "ta_size t = z" "txam_inv t" "all_nackable b ack t"
      using st 1(2,4) all_nackable_same by (auto simp: nacks_handled_def same_abs_def)
    have nxt: "before_ack z b ack ((sn + 1) mod am_mod_of z) \<or> (sn + 1) mod am_mod_of z = ack" using range_step [OF b] 1(5) by blast
    have Suc: "Suc i \<le> unat (nack_range nack)" "(sn + 1) mod am_mod_of z = at_dist z (nack_sn nack) (Suc i)"
      using i 1(8) by (simp_all add: Suc_at)
    from 1(1) [OF False t(1) refl f 1(5) nxt Suc 1(9)] obtain acc' s' where
      r: "range_loop z env ack nack ((sn + 1) mod am_mod_of z) (processed + 1, prev') t = Inr (acc', s')"
      "nacks_handled (nack_names z nack) t s'" by blast
    have "range_loop z env ack nack sn (processed, prev) s = Inr (acc', s')"
      using False t(1) r(1) by (subst range_loop.simps) simp
    then show ?thesis using nacks_handled_trans [OF st r(2)] by blast
  qed
qed

definition nacks_name :: "rlc_am_sn_size \<Rightarrow> rlc_am_status_nack list \<Rightarrow> u32 \<Rightarrow> bool" where
  "nacks_name z nacks sn \<longleftrightarrow> list_ex (\<lambda>nack. nack_names z nack sn) nacks"

lemma nack_loop_ok:
  assumes "txam_inv s" and "all_nackable b ack s" and "is_sn (ta_size s) ack"
    and "\<forall>nack \<in> set nacks. before_ack (ta_size s) b ack (nack_sn nack)"
  shows "\<exists>acc' s'. nack_loop env ack nacks acc s = Inr (acc', s') \<and> nacks_handled (nacks_name (ta_size s) nacks) s s'"
  using assms
proof (induction nacks arbitrary: acc s)
  case Nil
  then show ?case using nacks_handled_refl by simp
next
  case (Cons nack nacks)
  let ?z = "ta_size s" and ?P = "nack_names (ta_size s) nack"
  obtain processed prev where acc: "acc = (processed, prev)" by force
  have b: "before_ack ?z b ack (nack_sn nack)" using Cons.prems(4) by simp
  then have at: "nack_sn nack = at_dist ?z (nack_sn nack) 0" by (simp add: before_ack_def)
  have "\<exists>acc1 t. (if has_nack_range nack then range_loop ?z env ack nack (nack_sn nack) (processed, prev) s
      else seq_run (process_nack env nack prev s) (\<lambda>(prev, s). Inr ((processed, prev), s))) = Inr (acc1, t) \<and> nacks_handled ?P s t"
  proof (cases "has_nack_range nack")
    case True
    then show ?thesis using range_loop_ok [OF refl Cons.prems(1-3) _ _ at True] b by simp
  next
    case False
    have n: "nackable s (nack_sn nack)" using b Cons.prems(2) by (simp add: all_nackable_def)
    obtain prev' t where "process_nack env nack prev s = Inr (prev', t)" "nacks_handled (\<lambda>x. x = nack_sn nack) s t"
      by (rule process_nack_ok [OF Cons.prems(1) n]) (rule that)
    then show ?thesis using False nacks_handled_mono [of "\<lambda>x. x = nack_sn nack" s t ?P] by (auto simp: nack_names_def)
  qed
  then obtain acc1 t where t: "(if has_nack_range nack then range_loop ?z env ack nack (nack_sn nack) (processed, prev) s
      else seq_run (process_nack env nack prev s) (\<lambda>(prev, s). Inr ((processed, prev), s))) = Inr (acc1, t)" "nacks_handled ?P s t"
    by blast
  have f: "txam_inv t" "same_abs s t" "ta_size t = ?z" using t(2) by (simp_all add: nacks_handled_def same_abs_def)
  have "all_nackable b ack t" by (rule all_nackable_same [OF f(2) Cons.prems(2)])
  with Cons.IH [of t acc1] f Cons.prems(3,4) obtain acc' s' where r: "nack_loop env ack nacks acc1 t = Inr (acc', s')"
    "nacks_handled (nacks_name ?z nacks) t s'" by auto
  have "nack_loop env ack (nack # nacks) acc s = Inr (acc', s')" using t(1) r(1) acc by simp
  moreover have "nacks_handled (nacks_name ?z (nack # nacks)) s t" "nacks_handled (nacks_name ?z (nack # nacks)) t s'"
    by (rule nacks_handled_mono, rule t(2) r(2), simp add: nacks_name_def)+
  ultimately show ?case using nacks_handled_trans by blast
qed

section \<open>The checks\<close>

lemma valid_nacks_true:
  "valid_nacks env ack nacks s = (True, s') \<Longrightarrow>
    s' = s \<and> (\<forall>nack \<in> set nacks. away (ta_size s) (tx_ack_of s) (nack_sn nack) < away (ta_size s) (tx_ack_of s) ack)"
proof (induction nacks arbitrary: s')
  case (Cons nack nacks)
  obtain ok t where v: "valid_nack env ack nack s = (ok, t)" by force
  then have ok: "ok" using Cons(2) by (cases ok) simp_all
  then have t: "t = s" "\<not> tx_mod_base s ack \<le> tx_mod_base s (nack_sn nack)"
    using v by (auto simp: valid_nack_def Let_def split: if_splits)
  then have "away (ta_size s) (tx_ack_of s) (nack_sn nack) < away (ta_size s) (tx_ack_of s) ack"
    unfolding tx_mod_base_def away_le_iff by simp
  then show ?case using Cons v ok t(1) by simp
qed simp

lemma valid_nacks_false:
  "valid_nacks env ack nacks s = (False, s') \<Longrightarrow> s' = s \<or> s' = ue_defer env Protocol_failure_task s"
proof (induction nacks arbitrary: s')
  case (Cons nack nacks)
  obtain ok t where v: "valid_nack env ack nack s = (ok, t)" by force
  show ?case
  proof (cases ok)
    case True
    then have "t = s" using v by (auto simp: valid_nack_def Let_def split: if_splits)
    then show ?thesis using Cons v True by simp
  next
    case False
    then show ?thesis using Cons(2) v by (auto simp: valid_nack_def Let_def split: if_splits)
  qed
qed simp

section \<open>The handler\<close>

text \<open>Where the ACKs of a report stop, and the first SDU that stays unacknowledged.\<close>

definition ack_stop :: "rlc_am_status_pdu \<Rightarrow> u32" where
  "ack_stop status = (case sp_nacks status of [] \<Rightarrow> sp_ack_sn status | nack # _ \<Rightarrow> nack_sn nack)"

definition report_sns :: "rlc_am_sn_size \<Rightarrow> rlc_am_status_pdu \<Rightarrow> bool" where
  "report_sns z status \<longleftrightarrow> is_sn z (sp_ack_sn status) \<and> list_all (\<lambda>nack. is_sn z (nack_sn nack)) (sp_nacks status)"

text \<open>
  A report that acknowledges an SDU that was not sent in full: it passes the checks of the handler when
  its ACK is right behind \<open>TX_Next\<close>. While an SDU is segmented, the ACK may be there if the report
  contains a NACK.
\<close>

definition acks_unsent :: "rlc_tx_am_entity \<Rightarrow> rlc_am_status_pdu \<Rightarrow> bool" where
  "acks_unsent s status \<longleftrightarrow> sp_ack_sn status = (tx_next_of s + 1) mod ta_mod s \<and> (segmenting s \<longrightarrow> sp_nacks status = [])"

lemma same_abs_exit:
  assumes "txam_inv s"
  obtains s' where "status_on_exit env a n s = Inr s'" and "txam_inv s'" and "same_abs s s'" and "ta_retx_queue s' = ta_retx_queue s"
    and "ta_window s' = ta_window s"
proof -
  obtain m where m: "rtl_add_handle_status_latency_us a n (te_status_latency env) (ta_metrics_low s) = Inr m" "tx_am_metrics_ok m"
    using tx_metrics_add_ok(5) assms by (metis txam_inv_def)
  let ?s = "s\<lparr>ta_metrics_low := m\<rparr>"
  have "txam_inv ?s" using assms m(2) by (simp add: txam_inv_def tx_window_ok_def segmenting_def)
  moreover have "same_abs s ?s" by (simp add: same_abs_def waiting_def sdu_at_def)
  ultimately show ?thesis using that [of ?s] m(1) by (simp add: status_on_exit_def)
qed

text \<open>The part of the handler up to the NACKs, and what is left to do.\<close>

definition nack_part :: "tx_am_env \<Rightarrow> rlc_rx_am_entity \<Rightarrow> rlc_am_status_pdu \<Rightarrow> u32 \<Rightarrow> rlc_tx_am_entity \<Rightarrow> rlc_tx_am_entity run" where
  "nack_part env rx status acks s =
     seq_run (nack_loop env (sp_ack_sn status) (sp_nacks status) (0, invalid_rlc_sn) s) (\<lambda>((nacks, _), s).
     seq_run (update_mac_buffer_state True rx s) (\<lambda>s. status_on_exit env acks nacks (ue_defer env Clear_recycler_task s)))"

definition acks_applied :: "rlc_tx_am_entity \<Rightarrow> nat \<Rightarrow> rlc_tx_am_entity \<Rightarrow> bool" where
  "acks_applied s d s' \<longleftrightarrow> txam_inv s' \<and> unacked s' = drop d (unacked s) \<and> waiting s' = waiting s \<and>
     tx_ack_of s' = at_dist (ta_size s) (tx_ack_of s) d \<and> tx_next_of s' = tx_next_of s \<and> ta_cfg s' = ta_cfg s \<and>
     segmenting s' = segmenting s"

lemma acks_applied_same: "acks_applied s d t \<Longrightarrow> txam_inv u \<Longrightarrow> same_abs t u \<Longrightarrow> acks_applied s d u"
  using same_abs_unacked [of t u] same_abs_segmenting [of t u] by (simp add: acks_applied_def same_abs_def)

lemma accept_acks:
  fixes s :: rlc_tx_am_entity and status :: rlc_am_status_pdu
  defines "d \<equiv> away (ta_size s) (tx_ack_of s) (ack_stop status)"
  assumes inv: "txam_inv s" and d: "d \<le> away (ta_size s) (tx_ack_of s) (tx_next_of s)"
  shows "\<exists>acks s'. accept_status_pdu env rx status s = nack_part env rx status acks s' \<and> acks_applied s d s' \<and>
    rq_items (ta_retx_queue s') = []"
proof -
  let ?z = "ta_size s" and ?b = "tx_ack_of s" and ?ack = "sp_ack_sn status"
  let ?acks = "\<lparr>al_processed = 0, al_delivered = None, al_delivered_retx = None\<rparr>"
  define s0 where "s0 = (if tx_mod_base s (poll_sn (ta_st s)) < tx_mod_base s ?ack then s\<lparr>poll_retransmit_timer := False\<rparr> else s)"
  have s0: "txam_inv s0" "same_abs s s0" "ta_cfg s0 = ta_cfg s" "ta_st s0 = ta_st s" "segmenting s0 = segmenting s"
    using inv by (simp_all add: s0_def txam_inv_def tx_window_ok_def segmenting_def same_abs_def waiting_def sdu_at_def)
  have parts: "tx_window_ok s0" "tx_am_metrics_ok (ta_metrics_low s0)" "retx_queue_ok ?z (ta_window s0) (ta_retx_queue s0)"
    "tx_queue_ok (ta_sdu_queue s0)" using s0 by (simp_all add: txam_inv_def)
  have D: "away (ta_size s0) (tx_ack_of s0) (ack_stop status) = d" using s0 by (simp add: d_def)
  obtain acks1 s1 where a: "ack_loop ?z env (ack_stop status) ?b ?acks s0 = Inr (acks1, s1)" and s1: "acked s0 d s1"
    using ack_loop_ok [OF parts(1,2) D, where env = env and acks = ?acks] d s0 by (auto simp: min_absorb1)
  let ?s1 = "notify_delivered acks1 s1"
  have n: "ta_cfg ?s1 = ta_cfg s1" "ta_is_srb ?s1 = ta_is_srb s1" "ta_st ?s1 = ta_st s1" "ta_sdu_queue ?s1 = ta_sdu_queue s1"
    "sn_under_segmentation ?s1 = sn_under_segmentation s1" "ta_retx_queue ?s1 = ta_retx_queue s1" "ta_window ?s1 = ta_window s1"
    "ta_metrics_low ?s1 = ta_metrics_low s1"
    by (simp_all add: notify_delivered_def split: option.splits)
  have "tx_window_ok s1" using s1 by (simp add: acked_def)
  then have w1: "tx_window_ok ?s1" by (simp add: tx_window_ok_def segmenting_def n)
  have rq: "ta_retx_queue ?s1 = ta_retx_queue s0" "rq_ok (ta_retx_queue s0)"
    "rb_max_size (rq_queue (ta_retx_queue s0)) = unat (am_window_size_of ?z)"
    using s1 n parts(3) by (simp_all add: acked_def retx_queue_ok_def)
  obtain s2 where c: "clear_retx_queue (ta_retx_queue ?s1) ?s1 = Inr s2" and s2: "counted ?s1 s2" "rq_ok (ta_retx_queue s2)"
    "rq_items (ta_retx_queue s2) = []" "rb_max_size (rq_queue (ta_retx_queue s2)) = unat (am_window_size_of ?z)"
    using clear_retx_queue_ok [of "ta_retx_queue ?s1" ?s1] w1 rq by auto
  have same1: "same_abs s1 s2" using s2(1) n by (simp add: counted_def same_abs_def waiting_def sdu_at_def)
  define s3 where "s3 = s2\<lparr>ta_retx_sn := invalid_rlc_sn\<rparr>"
  have cfg: "ta_cfg s2 = ta_cfg s" "ta_cfg s1 = ta_cfg s" using same1 s1 s0 by (simp_all add: acked_def same_abs_def)
  have "tx_window_ok s2" using s2(1) by (simp add: counted_def)
  then have w3: "tx_window_ok s3" by (simp add: s3_def tx_window_ok_def segmenting_def)
  have "ta_sdu_queue s3 = ta_sdu_queue s0" "tx_am_metrics_ok (ta_metrics_low s3)" "ta_retx_queue s3 = ta_retx_queue s2"
    using s2(1) s1 n by (simp_all add: s3_def counted_def acked_def)
  moreover have "ta_size s3 = ?z" using cfg by (simp add: s3_def)
  ultimately have inv3: "txam_inv s3" using w3 s2(2-4) parts(4) by (simp add: txam_inv_def retx_queue_ok_def)
  have same3: "same_abs s1 s3" using same1 by (simp add: s3_def same_abs_def waiting_def sdu_at_def)
  have "unacked s1 = drop d (unacked s)" "waiting s1 = waiting s"
    using acked_unacked [OF parts(1) s1] d s0 same_abs_unacked [OF s0(2)] by (simp_all add: same_abs_def)
  then have "acks_applied s d s3"
    using same_abs_unacked [OF same3] same3 s1 s0 inv3 by (simp add: acks_applied_def acked_def same_abs_def segmenting_def)
  moreover have "accept_status_pdu env rx status s = nack_part env rx status (al_processed acks1) s3"
    using a c [unfolded n(6)] s0 unfolding accept_status_pdu_def s0_def [symmetric] ack_stop_def [symmetric] s3_def nack_part_def
    by (simp add: Let_def)
  moreover have "rq_items (ta_retx_queue s3) = []" using s2(3) by (simp add: s3_def)
  ultimately show ?thesis by blast
qed

lemma accept_status_ok:
  fixes s :: rlc_tx_am_entity and status :: rlc_am_status_pdu
  defines "d \<equiv> away (ta_size s) (tx_ack_of s) (ack_stop status)"
  assumes inv: "txam_inv s" and sns: "report_sns (ta_size s) status"
    and len: "away (ta_size s) (tx_ack_of s) (sp_ack_sn status) \<le> in_flight s"
    and seg: "\<lbrakk>segmenting s; sp_nacks status = []\<rbrakk> \<Longrightarrow> away (ta_size s) (tx_ack_of s) (sp_ack_sn status) < in_flight s"
    and below: "\<forall>nack \<in> set (sp_nacks status).
      away (ta_size s) (tx_ack_of s) (nack_sn nack) < away (ta_size s) (tx_ack_of s) (sp_ack_sn status)"
  shows "\<exists>s'. accept_status_pdu env rx status s = Inr s' \<and> acks_applied s d s' \<and> d \<le> away (ta_size s) (tx_ack_of s) (tx_next_of s) \<and>
    (\<forall>r \<in> set (rq_items (ta_retx_queue s')). nacks_name (ta_size s) (sp_nacks status) (rt_sn r))"
proof -
  let ?z = "ta_size s" and ?b = "tx_ack_of s" and ?ack = "sp_ack_sn status"
  have d: "d \<le> away ?z ?b (tx_next_of s)"
    using len seg below by (cases "segmenting s"; cases "sp_nacks status") (auto simp: d_def ack_stop_def in_flight_def)
  obtain acks s3 where a: "accept_status_pdu env rx status s = nack_part env rx status acks s3" and s3: "acks_applied s d s3"
    "rq_items (ta_retx_queue s3) = []"
    using accept_acks [OF inv d [unfolded d_def]] unfolding d_def by blast
  have f3: "txam_inv s3" "ta_size s3 = ?z" "tx_next_of s3 = tx_next_of s" "segmenting s3 = segmenting s"
    using s3 by (simp_all add: acks_applied_def)
  have able: "all_nackable ?b ?ack s3"
    using len f3 by (auto simp: all_nackable_def nackable_def before_ack_def in_flight_def split: if_splits)
  have bel: "\<forall>nack \<in> set (sp_nacks status). before_ack (ta_size s3) ?b ?ack (nack_sn nack)"
    using below sns f3 by (auto simp: before_ack_def report_sns_def list_all_iff)
  have snack: "is_sn (ta_size s3) ?ack" using sns f3 by (simp add: report_sns_def)
  obtain nproc nprev s4 where l: "nack_loop env ?ack (sp_nacks status) (0, invalid_rlc_sn) s3 = Inr ((nproc, nprev), s4)"
    and s4: "nacks_handled (nacks_name (ta_size s3) (sp_nacks status)) s3 s4"
    using nack_loop_ok [OF f3(1) able snack bel, of env "(0, invalid_rlc_sn)"] by (metis prod.exhaust)
  have inv4: "txam_inv s4" using s4 by (simp add: nacks_handled_def)
  obtain s5 where u: "update_mac_buffer_state True rx s4 = Inr s5" and s5: "txam_inv s5" "same_abs s4 s5" "ta_retx_queue s5 = ta_retx_queue s4"
    by (rule update_mac_buffer_state_ok [OF inv4]) (rule that)
  let ?s6 = "ue_defer env Clear_recycler_task s5"
  have inv6: "txam_inv ?s6" using s5 by simp
  obtain s7 where x: "status_on_exit env acks nproc ?s6 = Inr s7" and s7: "txam_inv s7" "same_abs ?s6 s7"
    "ta_retx_queue s7 = ta_retx_queue ?s6"
    by (rule same_abs_exit [OF inv6]) (rule that)
  have same: "same_abs s3 s7"
    using s4 s5 s7 same_abs_trans txam_inv_ue_defer(2) unfolding nacks_handled_def by meson
  have "\<forall>r \<in> set (rq_items (ta_retx_queue s7)). nacks_name ?z (sp_nacks status) (rt_sn r)"
    using s4 s5(3) s7(3) s3(2) f3 by (auto simp: nacks_handled_def queued_def)
  moreover have "accept_status_pdu env rx status s = Inr s7" using a l u x by (simp add: nack_part_def)
  ultimately show ?thesis using acks_applied_same [OF s3(1) s7(1) same] d by blast
qed

text \<open>The handler as a whole: it ignores the report, or it accepts it.\<close>

definition report_accepted :: "tx_am_env \<Rightarrow> rlc_tx_am_entity \<Rightarrow> rlc_am_status_pdu \<Rightarrow> bool" where
  "report_accepted env s status \<longleftrightarrow> tx_valid_ack_sn s (sp_ack_sn status) \<and>
     away (ta_size s) (tx_ack_of s) (sp_ack_sn status) \<le> away (ta_size s) (tx_ack_of s) (tx_next_of s + 1) \<and>
     fst (valid_nacks env (sp_ack_sn status) (sp_nacks status) s)"

lemma ignored_report:
  assumes "txam_inv s" and "\<not> report_accepted env s status"
  obtains s' where "handle_status_pdu env rx status s = Inr s'" and "txam_inv s'" and "same_abs s s'"
    and "ta_retx_queue s' = ta_retx_queue s"
proof -
  have ex: "\<exists>t. handle_status_pdu env rx status s = status_on_exit env 0 0 t \<and> (t = s \<or> t = ue_defer env Protocol_failure_task s)"
  proof (cases "tx_valid_ack_sn s (sp_ack_sn status) \<and>
      away (ta_size s) (tx_ack_of s) (sp_ack_sn status) \<le> away (ta_size s) (tx_ack_of s) (tx_next_of s + 1)")
    case True
    then have "\<not> fst (valid_nacks env (sp_ack_sn status) (sp_nacks status) s)" using assms(2) by (simp add: report_accepted_def)
    then obtain t where t: "valid_nacks env (sp_ack_sn status) (sp_nacks status) s = (False, t)"
      by (cases "valid_nacks env (sp_ack_sn status) (sp_nacks status) s") simp
    have "handle_status_pdu env rx status s = status_on_exit env 0 0 t"
      unfolding handle_status_pdu_def tx_mod_base_def away_less_iff using True t by simp
    then show ?thesis using valid_nacks_false [OF t] by blast
  next
    case False
    then show ?thesis unfolding handle_status_pdu_def tx_mod_base_def away_less_iff by auto
  qed
  then obtain t where t: "handle_status_pdu env rx status s = status_on_exit env 0 0 t" "t = s \<or> t = ue_defer env Protocol_failure_task s"
    by blast
  have inv: "txam_inv t" and same: "same_abs s t" and rq: "ta_retx_queue t = ta_retx_queue s" using t(2) assms(1) by auto
  obtain s' where s': "status_on_exit env 0 0 t = Inr s'" "txam_inv s'" "same_abs t s'" "ta_retx_queue s' = ta_retx_queue t"
    by (rule same_abs_exit [OF inv]) (rule that)
  then show ?thesis using that t(1) same rq same_abs_trans by metis
qed

lemma accepted_tx_report:
  fixes s :: rlc_tx_am_entity and status :: rlc_am_status_pdu
  defines "d \<equiv> away (ta_size s) (tx_ack_of s) (ack_stop status)"
  assumes inv: "txam_inv s" and sns: "report_sns (ta_size s) status" and bad: "\<not> acks_unsent s status"
    and acc: "report_accepted env s status"
  shows "\<exists>s'. handle_status_pdu env rx status s = Inr s' \<and> acks_applied s d s' \<and> d \<le> away (ta_size s) (tx_ack_of s) (tx_next_of s) \<and>
    (\<forall>r \<in> set (rq_items (ta_retx_queue s')). nacks_name (ta_size s) (sp_nacks status) (rt_sn r))"
proof -
  let ?z = "ta_size s" and ?b = "tx_ack_of s" and ?ack = "sp_ack_sn status"
  let ?n = "away ?z ?b (tx_next_of s)"
  have w: "tx_window_ok s" using inv by (simp add: txam_inv_def)
  have "?n + 1 < unat (am_mod_of ?z)"
    using in_flight_le [OF w] am_mod_window [of ?z] by (simp add: in_flight_def)
  then have nx: "away ?z ?b ((tx_next_of s + 1) mod am_mod_of ?z) = ?n + 1" by (rule away_Suc)
  have "away ?z ?b ?ack \<le> ?n + 1" using acc nx by (simp add: report_accepted_def away_plus_1)
  moreover have "away ?z ?b ?ack = ?n + 1 \<longleftrightarrow> ?ack = (tx_next_of s + 1) mod am_mod_of ?z"
    using away_inj [of ?z ?ack "(tx_next_of s + 1) mod am_mod_of ?z" ?b] sns nx by (simp add: report_sns_def)
  ultimately have len: "away ?z ?b ?ack \<le> in_flight s"
    and seg: "\<lbrakk>segmenting s; sp_nacks status = []\<rbrakk> \<Longrightarrow> away ?z ?b ?ack < in_flight s"
    using bad by (cases "segmenting s"; auto simp: acks_unsent_def in_flight_def)+
  obtain t where t: "valid_nacks env ?ack (sp_nacks status) s = (True, t)"
    using acc by (cases "valid_nacks env ?ack (sp_nacks status) s") (simp add: report_accepted_def)
  note v = valid_nacks_true [OF t]
  have "handle_status_pdu env rx status s = accept_status_pdu env rx status s"
    using acc t v unfolding handle_status_pdu_def tx_mod_base_def away_less_iff report_accepted_def by simp
  then show ?thesis using accept_status_ok [OF inv sns len seg, where env = env and rx = rx] v unfolding d_def by simp
qed

lemma handle_status_ok:
  assumes "txam_inv s" and "report_sns (ta_size s) status" and "\<not> acks_unsent s status"
  obtains s' where "handle_status_pdu env rx status s = Inr s'" and "txam_inv s'" and "ta_cfg s' = ta_cfg s" and "waiting s' = waiting s"
proof (cases "report_accepted env s status")
  case True
  then show ?thesis using accepted_tx_report [OF assms True, of rx] that by (auto simp: acks_applied_def)
next
  case False
  obtain s' where "handle_status_pdu env rx status s = Inr s'" "txam_inv s'" "same_abs s s'"
    by (rule ignored_report [OF assms(1) False]) (rule that)
  then show ?thesis using that by (simp add: same_abs_def)
qed

end
