(* ===== verification/Rlc_Tx_Am_Steps.thy ===== *)
theory Rlc_Tx_Am_Steps
  imports Rlc_Tx_Am_Report "HOL-Library.Sublist" "HOL-Library.Multiset"
begin

text \<open>
  The transmitting entity of the acknowledged mode as a transition system: the operations that the other
  layers, the timer and the two executors call, the calls that the entity is made for, what each does to
  the abstract state, and the reachable states.
\<close>

section \<open>The remaining operations\<close>

lemma same_abs_pcell_defer [simp]: "txam_inv (pcell_defer env t s) = txam_inv s" "same_abs s (pcell_defer env t s)"
  by (simp_all add: txam_inv_def tx_window_ok_def segmenting_def same_abs_def waiting_def sdu_at_def)

lemma changed_buffer_state_ok [simp]:
  "txam_inv (handle_changed_buffer_state env s) = txam_inv s" "same_abs s (handle_changed_buffer_state env s)"
  by (auto simp: handle_changed_buffer_state_def pcell_defer_def txam_inv_def tx_window_ok_def segmenting_def same_abs_def
      waiting_def sdu_at_def)

text \<open>Changing the queue of SDUs.\<close>

lemma queue_changed:
  assumes "txam_inv s" and "tx_queue_ok q"
  shows "txam_inv (s\<lparr>ta_sdu_queue := q, ta_metrics_high := m\<rparr>)"
    and "unacked (s\<lparr>ta_sdu_queue := q, ta_metrics_high := m\<rparr>) = unacked s"
    and "waiting (s\<lparr>ta_sdu_queue := q, ta_metrics_high := m\<rparr>) = sq_sdus q"
  using assms
  by (simp_all add: txam_inv_def tx_window_ok_def segmenting_def waiting_def unacked_def in_flight_def sdu_at_def)

text \<open>The SDU that an upper layer call makes.\<close>

definition queued_sdu :: "tx_am_env \<Rightarrow> bytes \<Rightarrow> bool \<Rightarrow> rlc_tx_am_entity \<Rightarrow> rlc_sdu" where
  "queued_sdu env buf is_retx s = \<lparr>sdu_buf = buf, sdu_is_retx = (is_retx \<and> \<not> ta_is_srb s),
     sdu_pdcp_sn = get_pdcp_sn buf (tac_pdcp_sn_len (ta_cfg s)) (ta_is_srb s), sdu_toa = te_now env\<rparr>"

lemma handle_sdu_ok:
  assumes inv: "txam_inv s" and sized: "sdu_sized buf"
  shows "txam_inv (tx_handle_sdu env buf is_retx s)" and "unacked (tx_handle_sdu env buf is_retx s) = unacked s"
    and "waiting (tx_handle_sdu env buf is_retx s) =
      (if fst (sq_write (queued_sdu env buf is_retx s) (ta_sdu_queue s)) then waiting s @ [queued_sdu env buf is_retx s] else waiting s)"
    and "ta_cfg (tx_handle_sdu env buf is_retx s) = ta_cfg s"
proof -
  let ?sdu = "queued_sdu env buf is_retx s"
  obtain ok q where w: "sq_write ?sdu (ta_sdu_queue s) = (ok, q)" by force
  have qok: "tx_queue_ok (ta_sdu_queue s)" using inv by (simp add: txam_inv_def)
  have sane: "sn_sane sn" if "sdu_pdcp_sn ?sdu = Some sn" for sn
    using that get_pdcp_sn_sane by (simp add: queued_sdu_def)
  have q: "sq_ok q" "sq_sdus q = (if ok then waiting s @ [?sdu] else waiting s)"
    using sq.offer_sdus [of "ta_sdu_queue s" ?sdu] sane qok w by (simp_all add: tx_queue_ok_def waiting_def)
  then have q': "tx_queue_ok q" using qok sized by (auto simp: tx_queue_ok_def waiting_def queued_sdu_def split: if_splits)
  define m where "m = (if ok then rth_add_sdus 1 (length buf) (ta_metrics_high s) else rth_add_lost_sdus 1 (ta_metrics_high s))"
  let ?s = "s\<lparr>ta_sdu_queue := q, ta_metrics_high := m\<rparr>"
  have "?sdu = (let sdu = \<lparr>sdu_buf = buf, sdu_is_retx = is_retx,
                 sdu_pdcp_sn = get_pdcp_sn buf (tac_pdcp_sn_len (ta_cfg s)) (ta_is_srb s), sdu_toa = te_now env\<rparr> in
          if ta_is_srb s \<and> sdu_is_retx sdu then sdu\<lparr>sdu_is_retx := False\<rparr> else sdu)"
    by (auto simp: queued_sdu_def Let_def)
  then have e: "tx_handle_sdu env buf is_retx s = (if ok then handle_changed_buffer_state env ?s else ?s)"
    unfolding tx_handle_sdu_def Let_def using w by (simp add: m_def)
  note c = queue_changed [OF inv q', of m]
  have same: "same_abs ?s (tx_handle_sdu env buf is_retx s)" using e by auto
  then show "unacked (tx_handle_sdu env buf is_retx s) = unacked s" using same_abs_unacked c(2) by simp
  show "waiting (tx_handle_sdu env buf is_retx s) = (if fst (sq_write ?sdu (ta_sdu_queue s)) then waiting s @ [?sdu] else waiting s)"
    using same c(3) q(2) w by (simp add: same_abs_def)
  show "txam_inv (tx_handle_sdu env buf is_retx s)" using e c(1) by auto
  show "ta_cfg (tx_handle_sdu env buf is_retx s) = ta_cfg s" using same by (simp add: same_abs_def)
qed

lemma discard_sdu_ok:
  assumes inv: "txam_inv s" and sane: "sn_sane sn"
  shows "txam_inv (tx_discard_sdu env sn s)" and "unacked (tx_discard_sdu env sn s) = unacked s"
    and "waiting (tx_discard_sdu env sn s) = filter (\<lambda>sdu. sdu_pdcp_sn sdu \<noteq> Some sn) (waiting s)"
    and "ta_cfg (tx_discard_sdu env sn s) = ta_cfg s"
proof -
  obtain ok q where w: "sq_try_discard sn (ta_sdu_queue s) = (ok, q)" by force
  have qok: "tx_queue_ok (ta_sdu_queue s)" using inv by (simp add: txam_inv_def)
  have q: "sq_ok q" "sq_sdus q = filter (\<lambda>sdu. sdu_pdcp_sn sdu \<noteq> Some sn) (waiting s)"
    using sq.forget_sdus [of "ta_sdu_queue s" sn] sane qok w by (simp_all add: tx_queue_ok_def waiting_def)
  then have q': "tx_queue_ok q" using qok by (auto simp: tx_queue_ok_def waiting_def)
  define m where "m = (if ok then rth_add_discard 1 (ta_metrics_high s) else rth_add_discard_failure 1 (ta_metrics_high s))"
  let ?s = "s\<lparr>ta_sdu_queue := q, ta_metrics_high := m\<rparr>"
  have e: "tx_discard_sdu env sn s = (if ok then handle_changed_buffer_state env ?s else ?s)"
    unfolding tx_discard_sdu_def Let_def using w by (simp add: m_def)
  note c = queue_changed [OF inv q', of m]
  have same: "same_abs ?s (tx_discard_sdu env sn s)" using e by auto
  then show "unacked (tx_discard_sdu env sn s) = unacked s" using same_abs_unacked c(2) by simp
  show "waiting (tx_discard_sdu env sn s) = filter (\<lambda>sdu. sdu_pdcp_sn sdu \<noteq> Some sn) (waiting s)"
    using same c(3) q(2) by (simp add: same_abs_def)
  show "txam_inv (tx_discard_sdu env sn s)" using e c(1) by auto
  show "ta_cfg (tx_discard_sdu env sn s) = ta_cfg s" using same by (simp add: same_abs_def)
qed

section \<open>The poll retransmission timer\<close>

text \<open>Only the queue of retransmissions may grow, by the whole SDU at the lower edge of the window.\<close>

definition poll_retx :: "rlc_tx_am_entity \<Rightarrow> rlc_tx_amd_retx list" where
  "poll_retx s =
     (case win_find (ta_window s) (tx_ack_of s) of
        None \<Rightarrow> []
      | Some info \<Rightarrow>
          if nothing_to_send s \<and> length (rq_items (ta_retx_queue s)) < rb_max_size (rq_queue (ta_retx_queue s))
          then [\<lparr>rt_sn = tx_ack_of s, rt_so = 0, rt_length = of_nat (length (ti_sdu info))\<rparr>] else [])"

lemma poll_expiry_exit_ok:
  assumes "txam_inv s"
  obtains s' where "poll_expiry_on_exit env s = Inr s'" and "txam_inv s'" and "same_abs s s'" and "ta_retx_queue s' = ta_retx_queue s"
proof -
  obtain m where m: "rtl_add_poll_latency_us (te_poll_latency env) (ta_metrics_low s) = Inr m" "tx_am_metrics_ok m"
    using tx_metrics_add_ok(6) assms by (metis txam_inv_def)
  let ?s = "s\<lparr>ta_metrics_low := m\<rparr>"
  have "txam_inv ?s" using assms m(2) by (simp add: txam_inv_def tx_window_ok_def segmenting_def)
  moreover have "same_abs s ?s" by (simp add: same_abs_def waiting_def sdu_at_def)
  ultimately show ?thesis using that [of ?s] m(1) by (simp add: poll_expiry_on_exit_def)
qed

lemma win_empty_find:
  assumes "win_wf w" and "win_find w k \<noteq> None"
  shows "\<not> win_empty w"
proof -
  obtain v where "cm_data (win_map w) (get_circular_idx (win_map w) k) = Some (k, v)"
    using assms(2) by (auto simp: win_find_def cm_find_data)
  then have "dom (cm_data (win_map w)) \<noteq> {}" by auto
  then show ?thesis using assms(1) by (simp add: win_empty_def cm_empty_def cm_size_def win_wf_def cm_wf_def)
qed

lemma poll_expiry_ok:
  assumes inv: "txam_inv s"
  obtains s' where "on_expired_poll_retransmit_timer env rx s = Inr s'" and "txam_inv s'" and "same_abs s s'"
    and "rq_items (ta_retx_queue s') = rq_items (ta_retx_queue s) @ poll_retx s"
proof -
  have w: "tx_window_ok s" and rq: "retx_queue_ok (ta_size s) (ta_window s) (ta_retx_queue s)" using inv by (simp_all add: txam_inv_def)
  then have wf: "win_wf (ta_window s)" by (simp add: tx_window_ok_def tx_keys_def)
  have rqok: "rq_ok (ta_retx_queue s)" using rq by (simp add: retx_queue_ok_def)
  let ?body = "if nothing_to_send s \<and> \<not> win_empty (ta_window s) \<and> has_sn (ta_window s) (tx_ack_of s)
        then
          seq_run (win_at (ta_window s) (tx_ack_of s)) (\<lambda>info.
          (let retx = \<lparr>rt_sn = tx_ack_of s, rt_so = 0, rt_length = of_nat (length (ti_sdu info))\<rparr>;
               (retx_enqueued, q) = rq_try_push retx (ta_retx_queue s);
               s = s\<lparr>ta_retx_queue := q\<rparr> in
           seq_run (if retx_enqueued then increment_retx_count (tx_next_ack (ta_st s)) s else Inr s) (update_mac_buffer_state True rx)))
        else Inr s"
  have "\<exists>t. ?body = Inr t \<and> txam_inv t \<and> same_abs s t \<and> rq_items (ta_retx_queue t) = rq_items (ta_retx_queue s) @ poll_retx s"
  proof (cases "nothing_to_send s \<and> win_find (ta_window s) (tx_ack_of s) \<noteq> None")
    case False
    then have "poll_retx s = []" by (auto simp: poll_retx_def split: option.splits)
    then show ?thesis using False inv by (auto simp: has_sn_find)
  next
    case True
    then obtain info where find: "win_find (ta_window s) (tx_ack_of s) = Some info" by auto
    have ne: "\<not> win_empty (ta_window s)" using win_empty_find [OF wf] True by blast
    have len: "0 < length (ti_sdu info)" "length (ti_sdu info) \<le> 65535"
      using w find by (auto simp: tx_window_ok_def info_sized_def sdu_sized_def)
    define r where "r = \<lparr>rt_sn = tx_ack_of s, rt_so = 0, rt_length = of_nat (length (ti_sdu info))\<rparr>"
    obtain ok q where p: "rq_try_push r (ta_retx_queue s) = (ok, q)" by force
    have rlen: "unat (rt_length r) \<le> 65535" using len by (simp add: r_def unat_of_nat_u32)
    note push = rq_try_push_ok [OF rqok rlen, unfolded p, simplified]
    have items: "rq_items q = rq_items (ta_retx_queue s) @ poll_retx s"
      using True find push by (simp add: poll_retx_def r_def)
    have rin: "retx_in (ta_window s) r" using find len by (simp add: retx_in_def r_def unat_of_nat_u32)
    let ?t = "s\<lparr>ta_retx_queue := q\<rparr>"
    have "retx_queue_ok (ta_size s) (ta_window s) q" using push rq rin by (auto simp: retx_queue_ok_def)
    then have inv1: "txam_inv ?t" using inv by (simp add: txam_inv_def tx_window_ok_def segmenting_def)
    have same1: "same_abs s ?t" by (simp add: same_abs_def waiting_def sdu_at_def)
    obtain u where u: "(if ok then increment_retx_count (tx_ack_of s) ?t else Inr ?t) = Inr u" "txam_inv u" "same_abs ?t u" "ta_retx_queue u = q"
    proof (cases ok)
      case True
      have wt: "tx_window_ok ?t" using inv1 by (simp add: txam_inv_def)
      have ft: "win_find (ta_window ?t) (tx_ack_of s) = Some info" using find by simp
      obtain u where "increment_retx_count (tx_ack_of s) ?t = Inr u" "counted ?t u" "ta_retx_queue u = ta_retx_queue ?t"
        by (rule increment_ok [OF wt ft]) (rule that)
      then show ?thesis using that [of u] True counted_inv [OF inv1] by (simp add: counted_def)
    qed (use that [of ?t] inv1 in simp)
    obtain v where v: "update_mac_buffer_state True rx u = Inr v" "txam_inv v" "same_abs u v" "ta_retx_queue v = ta_retx_queue u"
      by (rule update_mac_buffer_state_ok [OF u(2)]) (rule that)
    have "?body = Inr v" using True find ne p u(1) v(1) by (cases ok) (simp_all add: has_sn_find win_at_find r_def Let_def)
    moreover have "same_abs s v" using same1 u(3) v(3) same_abs_trans by blast
    ultimately show ?thesis using v u(4) items by auto
  qed
  then obtain t where t: "?body = Inr t" "txam_inv t" "same_abs s t" "rq_items (ta_retx_queue t) = rq_items (ta_retx_queue s) @ poll_retx s"
    by blast
  obtain s' where s': "poll_expiry_on_exit env t = Inr s'" "txam_inv s'" "same_abs t s'" "ta_retx_queue s' = ta_retx_queue t"
    by (rule poll_expiry_exit_ok [OF t(2)]) (rule that)
  have "on_expired_poll_retransmit_timer env rx s = Inr s'"
    unfolding on_expired_poll_retransmit_timer_def t(1) seq_run_simps by (rule s'(1))
  then show ?thesis using that s' t same_abs_trans by metis
qed

section \<open>The transition system\<close>

text \<open>
  What the other layers call, the poll retransmission timer, and the two executors that run the first of
  their tasks. The receiving entity is given where the operation asks the status provider.
\<close>

datatype tx_op =
    Op_sdu bytes bool
  | Op_discard u32
  | Op_pull nat rlc_rx_am_entity
  | Op_status rlc_am_status_pdu
  | Op_status_changed
  | Op_poll_expiry rlc_rx_am_entity
  | Op_stop
  | Op_pcell rlc_rx_am_entity
  | Op_ue

definition tx_apply :: "tx_am_env \<Rightarrow> tx_op \<Rightarrow> rlc_tx_am_entity \<Rightarrow> (bytes \<times> rlc_tx_am_entity) run" where
  "tx_apply env op s =
     (case op of
        Op_sdu buf is_retx \<Rightarrow> Inr ([], tx_handle_sdu env buf is_retx s)
      | Op_discard sn \<Rightarrow> Inr ([], tx_discard_sdu env sn s)
      | Op_pull g rx \<Rightarrow> seq_run (pull_pdu env g rx s) (\<lambda>(pdu, rx, s). Inr (pdu, s))
      | Op_status status \<Rightarrow> Inr ([], on_status_pdu env status s)
      | Op_status_changed \<Rightarrow> Inr ([], on_status_report_changed env s)
      | Op_poll_expiry rx \<Rightarrow>
          seq_run (on_expired_poll_retransmit_timer env rx (s\<lparr>poll_retransmit_timer := False\<rparr>)) (\<lambda>s. Inr ([], s))
      | Op_stop \<Rightarrow> Inr ([], tx_am_stop env s)
      | Op_pcell rx \<Rightarrow> seq_run (run_pcell_task env rx s) (\<lambda>s. Inr ([], s))
      | Op_ue \<Rightarrow> Inr ([], run_ue_tx_task s))"

text \<open>
  The calls the entity is made for. The SDUs are not empty and of at most 65535 bytes, the SN of a discard
  is none of the marks of the queue, the receiving entity is one that its operations can reach, and a
  report that is handled has SNs of the configured size and does not acknowledge what was not sent.
\<close>

definition rx_ready :: "rlc_rx_am_entity \<Rightarrow> bool" where
  "rx_ready rx \<longleftrightarrow> (\<exists>cfg. am_reachable cfg rx \<and> 0 < rac_t_reassembly cfg)"

definition report_fits :: "rlc_tx_am_entity \<Rightarrow> rlc_am_status_pdu \<Rightarrow> bool" where
  "report_fits s status \<longleftrightarrow> report_sns (ta_size s) status \<and> \<not> acks_unsent s status"

definition tx_admissible :: "tx_op \<Rightarrow> rlc_tx_am_entity \<Rightarrow> bool" where
  "tx_admissible op s \<longleftrightarrow>
     (case op of
        Op_sdu buf is_retx \<Rightarrow> sdu_sized buf
      | Op_discard sn \<Rightarrow> sn_sane sn
      | Op_pull g rx \<Rightarrow> rx_ready rx
      | Op_poll_expiry rx \<Rightarrow> poll_retransmit_timer s
      | Op_pcell rx \<Rightarrow> (case pcell_tasks s of Handle_status_task status # _ \<Rightarrow> report_fits s status | _ \<Rightarrow> True)
      | _ \<Rightarrow> True)"

text \<open>
  What an operation may make of the SDUs in flight and of those that wait: a FIFO whose front part is
  acknowledged.
\<close>

definition tx_accepts :: "tx_am_env \<Rightarrow> tx_op \<Rightarrow> rlc_tx_am_entity \<Rightarrow> bytes list" where
  "tx_accepts env op s =
     (case op of
        Op_sdu buf is_retx \<Rightarrow> if fst (sq_write (queued_sdu env buf is_retx s) (ta_sdu_queue s)) then [buf] else []
      | _ \<Rightarrow> [])"

definition tx_spec :: "tx_am_env \<Rightarrow> tx_op \<Rightarrow> rlc_tx_am_entity \<Rightarrow> bytes list \<times> rlc_sdu list \<Rightarrow> bytes list \<times> rlc_sdu list \<Rightarrow> bool" where
  "tx_spec env op s = (\<lambda>(un, wait) (un', wait').
     (case op of
        Op_sdu buf is_retx \<Rightarrow> un' = un \<and> wait' = (if tx_accepts env op s = [] then wait else wait @ [queued_sdu env buf is_retx s])
      | Op_discard sn \<Rightarrow> un' = un \<and> wait' = filter (\<lambda>sdu. sdu_pdcp_sn sdu \<noteq> Some sn) wait
      | Op_pull g rx \<Rightarrow> un' = un \<and> wait' = wait \<or> (\<exists>sdu. wait = sdu # wait' \<and> un' = un @ [sdu_buf sdu])
      | Op_pcell rx \<Rightarrow>
          (case pcell_tasks s of Handle_status_task status # _ \<Rightarrow> (\<exists>d. un' = drop d un) | _ \<Rightarrow> un' = un) \<and> wait' = wait
      | _ \<Rightarrow> un' = un \<and> wait' = wait))"

abbreviation tx_abs :: "rlc_tx_am_entity \<Rightarrow> bytes list \<times> rlc_sdu list" where
  "tx_abs s \<equiv> (unacked s, waiting s)"

lemma same_abs_tx_abs: "same_abs s s' \<Longrightarrow> tx_abs s' = tx_abs s \<and> ta_cfg s' = ta_cfg s"
  using same_abs_unacked by (simp add: same_abs_def)

lemma with_tasks [simp]:
  "txam_inv (s\<lparr>pcell_tasks := ts\<rparr>) = txam_inv s" "same_abs s (s\<lparr>pcell_tasks := ts\<rparr>)" "txam_inv (s\<lparr>ue_tasks := us\<rparr>) = txam_inv s"
  "same_abs s (s\<lparr>ue_tasks := us\<rparr>)" "txam_inv (s\<lparr>poll_retransmit_timer := b\<rparr>) = txam_inv s" "same_abs s (s\<lparr>poll_retransmit_timer := b\<rparr>)"
  "txam_inv (s\<lparr>recycle_bin := bin\<rparr>) = txam_inv s" "same_abs s (s\<lparr>recycle_bin := bin\<rparr>)"
  "txam_inv (s\<lparr>ta_stopped_upper := c\<rparr>) = txam_inv s" "same_abs s (s\<lparr>ta_stopped_upper := c\<rparr>)"
  "txam_inv (s\<lparr>ta_stopped_lower := c\<rparr>) = txam_inv s" "same_abs s (s\<lparr>ta_stopped_lower := c\<rparr>)"
  by (simp_all add: txam_inv_def tx_window_ok_def segmenting_def same_abs_def waiting_def sdu_at_def)

lemma stop_lower_ok: "txam_inv (stop_lower s) = txam_inv s" "same_abs s (stop_lower s)"
  by (simp_all add: stop_lower_def txam_inv_def tx_window_ok_def segmenting_def same_abs_def waiting_def sdu_at_def)

lemma run_ue_tx_task_ok: "txam_inv (run_ue_tx_task s) = txam_inv s" "same_abs s (run_ue_tx_task s)"
  by (auto simp: run_ue_tx_task_def Let_def emit_def txam_inv_def tx_window_ok_def segmenting_def same_abs_def waiting_def sdu_at_def
      split: list.splits ue_task.splits)

lemma tx_am_stop_ok: "txam_inv (tx_am_stop env s) = txam_inv s" "same_abs s (tx_am_stop env s)"
  by (auto simp: tx_am_stop_def pcell_defer_def txam_inv_def tx_window_ok_def segmenting_def same_abs_def waiting_def sdu_at_def)

lemma run_pcell_task_ok:
  assumes inv: "txam_inv s" and adm: "tx_admissible (Op_pcell rx) s"
  obtains s' where "run_pcell_task env rx s = Inr s'" and "txam_inv s'" and "tx_spec env (Op_pcell rx') s (tx_abs s) (tx_abs s')"
    and "ta_cfg s' = ta_cfg s"
proof (cases "pcell_tasks s")
  case Nil
  then show ?thesis using that [of s] inv by (simp add: run_pcell_task_def tx_spec_def)
next
  case (Cons t ts)
  let ?s = "s\<lparr>pcell_tasks := ts\<rparr>"
  have inv1: "txam_inv ?s" and same1: "same_abs s ?s" using inv by simp_all
  have abs1: "tx_abs ?s = tx_abs s" "ta_cfg ?s = ta_cfg s" using same_abs_tx_abs [OF same1] by simp_all
  show ?thesis
  proof (cases t)
    case (Handle_status_task status)
    then have e: "run_pcell_task env rx s = handle_status_pdu env rx status ?s" using Cons by (simp add: run_pcell_task_def Let_def)
    have fits: "report_sns (ta_size ?s) status" "\<not> acks_unsent ?s status"
      using adm Cons Handle_status_task by (simp_all add: tx_admissible_def report_fits_def acks_unsent_def segmenting_def)
    have "\<exists>s'. handle_status_pdu env rx status ?s = Inr s' \<and> txam_inv s' \<and> ta_cfg s' = ta_cfg ?s \<and> waiting s' = waiting ?s \<and>
        (\<exists>d. unacked s' = drop d (unacked ?s))"
    proof (cases "report_accepted env ?s status")
      case True
      show ?thesis using accepted_tx_report [OF inv1 fits True, of rx] by (auto simp: acks_applied_def)
    next
      case False
      obtain s' where "handle_status_pdu env rx status ?s = Inr s'" "txam_inv s'" "same_abs ?s s'"
        by (rule ignored_report [OF inv1 False]) (rule that)
      then show ?thesis using same_abs_tx_abs [of ?s s'] by (metis drop0 fst_conv snd_conv)
    qed
    then obtain s' d where s': "handle_status_pdu env rx status ?s = Inr s'" "txam_inv s'" "ta_cfg s' = ta_cfg ?s" "waiting s' = waiting ?s"
      "unacked s' = drop d (unacked ?s)" by blast
    have "tx_spec env (Op_pcell rx') s (tx_abs s) (tx_abs s')"
      using s' abs1 Cons Handle_status_task by (auto simp: tx_spec_def)
    then show ?thesis using that [of s'] e s' abs1 by simp
  next
    case Update_buffer_state_task
    then have e: "run_pcell_task env rx s = update_mac_buffer_state False rx ?s" using Cons by (simp add: run_pcell_task_def Let_def)
    obtain s' where s': "update_mac_buffer_state False rx ?s = Inr s'" "txam_inv s'" "same_abs ?s s'"
      by (rule update_mac_buffer_state_ok [OF inv1]) (rule that)
    then have "tx_abs s' = tx_abs s" "ta_cfg s' = ta_cfg s" using same_abs_tx_abs [of ?s s'] abs1 by simp_all
    then show ?thesis using that [of s'] e s' Cons Update_buffer_state_task by (simp add: tx_spec_def)
  next
    case Stop_lower_task
    then have e: "run_pcell_task env rx s = Inr (stop_lower ?s)" using Cons by (simp add: run_pcell_task_def Let_def)
    have "txam_inv (stop_lower ?s)" using inv1 stop_lower_ok(1) by blast
    moreover have "tx_abs (stop_lower ?s) = tx_abs s" "ta_cfg (stop_lower ?s) = ta_cfg s"
      using same_abs_tx_abs [OF stop_lower_ok(2) [of ?s]] abs1 by simp_all
    ultimately show ?thesis using that [of "stop_lower ?s"] e Cons Stop_lower_task by (simp add: tx_spec_def)
  qed
qed

lemma pull_spec:
  assumes inv: "txam_inv s" and rx: "rx_ready rx"
  obtains pdu rx' s' where "pull_pdu env g rx s = Inr (pdu, rx', s')" and "txam_inv s'" and "tx_spec env (Op_pull g rx) s (tx_abs s) (tx_abs s')"
    and "ta_cfg s' = ta_cfg s"
proof -
  obtain cfg where cfg: "am_reachable cfg rx" "0 < rac_t_reassembly cfg" using rx by (auto simp: rx_ready_def)
  obtain pdu rx' s' where p: "pull_pdu env g rx s = Inr (pdu, rx', s')"
    and f: "if status_report_required rx \<and> \<not> max_retx_reached s
         then pulled s 0 [] s' \<and> (pdu = [] \<and> g < 3 \<or> (\<exists>p. pdu = status_pack p \<and> unat (sp_packed_size p) \<le> g))
         else rx' = rx \<and> pulled s g pdu s' \<and> (pdu \<noteq> [] \<longrightarrow> carries_unacked s' pdu)"
    by (rule pull_pdu_ok [OF inv cfg]) (rule that)
  then obtain taken where t: "txam_inv s'" "tx_keeps s s'" "length taken \<le> 1" "waiting s = taken @ waiting s'"
    "unacked s' = unacked s @ map sdu_buf taken"
    by (auto simp: pulled_def split: if_splits)
  have "tx_spec env (Op_pull g rx) s (tx_abs s) (tx_abs s')" using t(3-5) by (cases taken) (auto simp: tx_spec_def)
  then show ?thesis using that p t by (simp add: tx_keeps_def)
qed

lemma tx_step_ok:
  assumes inv: "txam_inv s" and adm: "tx_admissible op s"
  shows "\<exists>pdu s'. tx_apply env op s = Inr (pdu, s') \<and> txam_inv s' \<and> tx_spec env op s (tx_abs s) (tx_abs s') \<and> ta_cfg s' = ta_cfg s"
proof (cases op)
  case (Op_sdu buf is_retx)
  note h = handle_sdu_ok [OF inv, of buf env is_retx]
  show ?thesis using adm h by (simp add: Op_sdu tx_apply_def tx_admissible_def tx_spec_def tx_accepts_def)
next
  case (Op_discard sn)
  show ?thesis using adm discard_sdu_ok [OF inv, of sn env] by (simp add: Op_discard tx_apply_def tx_admissible_def tx_spec_def)
next
  case (Op_pull g rx)
  have rx: "rx_ready rx" using adm by (simp add: Op_pull tx_admissible_def)
  obtain pdu rx' s' where "pull_pdu env g rx s = Inr (pdu, rx', s')" "txam_inv s'" "tx_spec env (Op_pull g rx) s (tx_abs s) (tx_abs s')"
    "ta_cfg s' = ta_cfg s"
    by (rule pull_spec [OF inv rx]) (rule that)
  then show ?thesis by (simp add: Op_pull tx_apply_def)
next
  case (Op_status status)
  show ?thesis using inv same_abs_tx_abs [of s "on_status_pdu env status s"]
    by (simp add: Op_status tx_apply_def tx_spec_def on_status_pdu_def)
next
  case Op_status_changed
  show ?thesis using inv same_abs_tx_abs [of s "on_status_report_changed env s"]
    by (simp add: Op_status_changed tx_apply_def tx_spec_def on_status_report_changed_def)
next
  case (Op_poll_expiry rx)
  have inv1: "txam_inv (s\<lparr>poll_retransmit_timer := False\<rparr>)" using inv by simp
  obtain s' where s': "on_expired_poll_retransmit_timer env rx (s\<lparr>poll_retransmit_timer := False\<rparr>) = Inr s'" "txam_inv s'"
    "same_abs (s\<lparr>poll_retransmit_timer := False\<rparr>) s'"
    by (rule poll_expiry_ok [OF inv1]) (rule that)
  have "same_abs s s'" by (rule same_abs_trans [OF _ s'(3)]) simp
  then show ?thesis using s' same_abs_tx_abs [of s s'] by (simp add: Op_poll_expiry tx_apply_def tx_spec_def)
next
  case Op_stop
  show ?thesis using inv same_abs_tx_abs [of s "tx_am_stop env s"]
    by (simp add: tx_am_stop_ok Op_stop tx_apply_def tx_spec_def)
next
  case (Op_pcell rx)
  obtain s' where "run_pcell_task env rx s = Inr s'" "txam_inv s'" "tx_spec env (Op_pcell rx) s (tx_abs s) (tx_abs s')" "ta_cfg s' = ta_cfg s"
    by (rule run_pcell_task_ok [OF inv adm [unfolded Op_pcell]]) (rule that)
  then show ?thesis by (simp add: Op_pcell tx_apply_def)
next
  case Op_ue
  show ?thesis using inv same_abs_tx_abs [of s "run_ue_tx_task s"]
    by (simp add: run_ue_tx_task_ok Op_ue tx_apply_def tx_spec_def)
qed

section \<open>Reachable states\<close>

lemma tx_create_ok:
  assumes "rlc_tx_am_create cfg srb en = Inr s" and "0 < tac_queue_size cfg"
  shows "txam_inv s" and "unacked s = []" and "waiting s = []" and "ta_cfg s = cfg"
proof -
  let ?z = "tac_sn_field_length cfg"
  obtain k where k: "unat (am_window_size_of ?z) = 2 ^ k"
  proof (cases ?z)
    case Am12
    then show ?thesis using that [of 11] by (simp add: am_window_size_of_def)
  next
    case Am18
    then show ?thesis using that [of 17] by (simp add: am_window_size_of_def)
  qed
  define w :: "rlc_tx_am_sdu_info sdu_window" where "w = \<lparr>win_map = \<lparr>cm_max_size = 2 ^ k, cm_data = Map.empty, cm_count = 0\<rparr>\<rparr>"
  have w: "win_create (2 ^ k) = Inr w" by (simp add: w_def win_create_pow2)
  have wf: "win_wf w" "win_find w = Map.empty" "win_width w = unat (am_window_size_of ?z)"
    using k by (auto simp: w_def win_wf_def cm_wf_def win_find_def win_width_def fun_eq_iff)
  have f: "ta_cfg s = cfg" "ta_window s = w" "ta_sdu_queue s = sq_create (tac_queue_size cfg) (tac_queue_size_bytes cfg)"
    "ta_retx_queue s = rq_create (2 ^ k)" "ta_metrics_low s = rtl_set_mode Mode_am (rtl_create en)" "tx_ack_of s = 0" "tx_next_of s = 0"
    "sn_under_segmentation s = invalid_rlc_sn"
    using assms(1) w k by (auto simp: rlc_tx_am_create_def Let_def split: if_splits)
  have keys: "tx_keys ?z 0 0 False w" by (rule tx_keys_fresh [OF wf(3,1,2)])
  have seg: "\<not> segmenting s" using f by (simp add: segmenting_def)
  have "tx_window_ok s" using keys wf(2) f seg by (simp add: tx_window_ok_def)
  moreover have "retx_queue_ok ?z w (rq_create (2 ^ k))"
    using rq_create_ok(1) [of k] rq_create_ok(2) [of "2 ^ k"] k by (simp add: retx_queue_ok_def) (simp add: rq_create_def rb_create_def)
  moreover have "tx_queue_ok (ta_sdu_queue s)" using sq_create_ok assms(2) f by (simp add: tx_queue_ok_def)
  ultimately show "txam_inv s" using f by (simp add: txam_inv_def tx_am_metrics_ok_create)
  show "unacked s = []" using f seg by (simp add: unacked_def in_flight_def)
  show "waiting s = []" using f sq_create_ok by (simp add: waiting_def)
  show "ta_cfg s = cfg" by (rule f(1))
qed

text \<open>
  The reachable states, with the SDUs that the queue accepted, those that were discarded while they
  waited, and those that left the window as acknowledged, in order.
\<close>

definition tx_discards :: "tx_op \<Rightarrow> rlc_tx_am_entity \<Rightarrow> bytes list" where
  "tx_discards op s =
     (case op of Op_discard sn \<Rightarrow> map sdu_buf (filter (\<lambda>sdu. sdu_pdcp_sn sdu = Some sn) (waiting s)) | _ \<Rightarrow> [])"

definition tx_acknowledges :: "tx_op \<Rightarrow> rlc_tx_am_entity \<Rightarrow> rlc_tx_am_entity \<Rightarrow> bytes list" where
  "tx_acknowledges op s s' = (case op of Op_pcell rx \<Rightarrow> take (length (unacked s) - length (unacked s')) (unacked s) | _ \<Rightarrow> [])"

inductive tx_reachable :: "rlc_tx_am_config \<Rightarrow> bytes list \<Rightarrow> bytes list \<Rightarrow> bytes list \<Rightarrow> rlc_tx_am_entity \<Rightarrow> bool" for cfg where
  tx_created: "\<lbrakk>rlc_tx_am_create cfg srb en = Inr s; 0 < tac_queue_size cfg\<rbrakk> \<Longrightarrow> tx_reachable cfg [] [] [] s"
| tx_stepped: "\<lbrakk>tx_reachable cfg accepted discarded acknowledged s; tx_admissible op s; tx_apply env op s = Inr (pdu, s')\<rbrakk> \<Longrightarrow>
    tx_reachable cfg (accepted @ tx_accepts env op s) (discarded @ tx_discards op s) (acknowledged @ tx_acknowledges op s s') s'"

inductive_cases tx_reachableE: "tx_reachable cfg accepted discarded acknowledged s"

lemma tx_reachable_inv: "tx_reachable cfg accepted discarded acknowledged s \<Longrightarrow> txam_inv s \<and> ta_cfg s = cfg"
proof (induction rule: tx_reachable.induct)
  case (tx_created srb en s)
  then show ?case using tx_create_ok by blast
next
  case (tx_stepped accepted discarded acknowledged s op env pdu s')
  then show ?case using tx_step_ok [of s op env] by auto
qed

text \<open>One step of the abstract FIFO, with what it takes in and gives out.\<close>

lemma take_drop_lengths: "take (length xs - length (drop d xs)) xs @ drop d xs = xs"
  by (cases "d \<le> length xs") simp_all

lemma tx_spec_pcell:
  assumes "tx_spec env (Op_pcell rx) s (unacked s, wait) (unacked s', wait')"
  shows "tx_acknowledges (Op_pcell rx) s s' @ unacked s' = unacked s" and "wait' = wait"
proof -
  have "\<exists>d. unacked s' = drop d (unacked s)"
  proof (cases "\<exists>status ts. pcell_tasks s = Handle_status_task status # ts")
    case True
    then show ?thesis using assms by (auto simp: tx_spec_def)
  next
    case False
    then have "unacked s' = unacked s" using assms by (auto simp: tx_spec_def split: list.splits pcell_task.splits)
    then show ?thesis by (intro exI [of _ 0]) simp
  qed
  then obtain d where "unacked s' = drop d (unacked s)" by blast
  then show "tx_acknowledges (Op_pcell rx) s s' @ unacked s' = unacked s"
    using take_drop_lengths [of "unacked s" d] by (simp add: tx_acknowledges_def del: length_unacked)
  show "wait' = wait" using assms by (auto simp: tx_spec_def split: list.splits pcell_task.splits)
qed

lemma tx_spec_order:
  assumes "tx_spec env op s (un, wait) (un', wait')" and "un = unacked s" and "wait = waiting s" and "un' = unacked s'"
  shows "subseq (tx_acknowledges op s s' @ un' @ map sdu_buf wait') (un @ map sdu_buf wait @ tx_accepts env op s)"
proof (cases op)
  case (Op_discard sn)
  have "subseq (map sdu_buf (filter P wait)) (map sdu_buf wait)" for P by (intro subseq_map subseq_filter_left)
  then have "subseq (un @ map sdu_buf (filter P wait)) (un @ map sdu_buf wait)" for P by (intro list_emb_append_mono) simp_all
  then show ?thesis using assms by (simp add: Op_discard tx_spec_def tx_acknowledges_def tx_accepts_def)
next
  case (Op_pcell rx)
  have p: "tx_spec env (Op_pcell rx) s (unacked s, wait) (unacked s', wait')" using assms Op_pcell by simp
  have "tx_acknowledges (Op_pcell rx) s s' @ un' @ map sdu_buf wait' = un @ map sdu_buf wait"
    using assms tx_spec_pcell [OF p] by (metis append_assoc)
  then show ?thesis by (simp add: Op_pcell tx_accepts_def)
qed (use assms in \<open>auto simp: tx_spec_def tx_acknowledges_def tx_accepts_def queued_sdu_def split: if_splits\<close>)

lemma mset_map_parts: "mset (map f xs) = mset (map f (filter P xs)) + mset (map f (filter (\<lambda>x. \<not> P x) xs))"
  by (induction xs) simp_all

lemma tx_spec_conserves:
  assumes "tx_spec env op s (un, wait) (un', wait')" and "un = unacked s" and "wait = waiting s" and "un' = unacked s'"
  shows "mset (tx_acknowledges op s s') + mset un' + mset (map sdu_buf wait') + mset (tx_discards op s) =
    mset un + mset (map sdu_buf wait) + mset (tx_accepts env op s)"
proof (cases op)
  case (Op_discard sn)
  have "mset (map sdu_buf wait) = mset (map sdu_buf (filter (\<lambda>sdu. sdu_pdcp_sn sdu = Some sn) wait)) +
      mset (map sdu_buf (filter (\<lambda>sdu. sdu_pdcp_sn sdu \<noteq> Some sn) wait))"
    by (rule mset_map_parts)
  then show ?thesis
    using assms by (simp add: Op_discard tx_spec_def tx_acknowledges_def tx_accepts_def tx_discards_def)
next
  case (Op_pcell rx)
  have p: "tx_spec env (Op_pcell rx) s (unacked s, wait) (unacked s', wait')" using assms Op_pcell by simp
  have "mset (tx_acknowledges (Op_pcell rx) s s') + mset un' = mset un" "wait' = wait"
    using assms tx_spec_pcell [OF p] by (metis mset_append)+
  then show ?thesis by (simp add: Op_pcell tx_accepts_def tx_discards_def)
qed (use assms in \<open>auto simp: tx_spec_def tx_acknowledges_def tx_accepts_def tx_discards_def queued_sdu_def split: if_splits\<close>)

lemma tx_reachable_order:
  "tx_reachable cfg accepted discarded acknowledged s \<Longrightarrow> subseq (acknowledged @ unacked s @ map sdu_buf (waiting s)) accepted"
proof (induction rule: tx_reachable.induct)
  case (tx_created srb en s)
  then show ?case using tx_create_ok by simp
next
  case (tx_stepped accepted discarded acknowledged s op env pdu s')
  have inv: "txam_inv s" using tx_reachable_inv [OF tx_stepped(1)] by simp
  have spec: "tx_spec env op s (tx_abs s) (tx_abs s')" using tx_step_ok [OF inv tx_stepped(2), of env] tx_stepped(3) by auto
  have "subseq (acknowledged @ tx_acknowledges op s s' @ unacked s' @ map sdu_buf (waiting s'))
      (acknowledged @ unacked s @ map sdu_buf (waiting s) @ tx_accepts env op s)"
    by (rule list_emb_append_mono) (use tx_spec_order [OF spec refl refl refl] in simp_all)
  moreover have "subseq ((acknowledged @ unacked s @ map sdu_buf (waiting s)) @ tx_accepts env op s) (accepted @ tx_accepts env op s)"
    by (rule list_emb_append_mono) (use tx_stepped(4) in simp_all)
  ultimately have "subseq (acknowledged @ tx_acknowledges op s s' @ unacked s' @ map sdu_buf (waiting s')) (accepted @ tx_accepts env op s)"
    using subseq_order.order_trans by simp
  then show ?case by simp
qed

lemma tx_reachable_conserves:
  "tx_reachable cfg accepted discarded acknowledged s \<Longrightarrow>
    mset accepted = mset acknowledged + mset (unacked s) + mset (map sdu_buf (waiting s)) + mset discarded"
proof (induction rule: tx_reachable.induct)
  case (tx_created srb en s)
  then show ?case using tx_create_ok by simp
next
  case (tx_stepped accepted discarded acknowledged s op env pdu s')
  have inv: "txam_inv s" using tx_reachable_inv [OF tx_stepped(1)] by simp
  have spec: "tx_spec env op s (tx_abs s) (tx_abs s')" using tx_step_ok [OF inv tx_stepped(2), of env] tx_stepped(3) by auto
  show ?case using tx_spec_conserves [OF spec refl refl refl] tx_stepped(4) by (simp add: ac_simps)
qed

end
