(* ===== verification/Rlc_Tx_Am_Properties.thy ===== *)
theory Rlc_Tx_Am_Properties
  imports Rlc_Tx_Am_Steps
begin

text \<open>
  Properties of the transmitting side of the acknowledged mode, each with a concrete instance: the
  refinement of a FIFO by the reachable states and the order and conservation of SDUs, what pulling a PDU
  and handling a status report do, retransmissions, polling, the reported buffer state, and the inputs on
  which the entity fails or stalls.
\<close>

section \<open>Concrete states\<close>

definition demo_tam_cfg :: rlc_tx_am_config where
  "demo_tam_cfg = \<lparr>tac_sn_field_length = Am12, tac_pdcp_sn_len = Size12bits, tac_t_poll_retx = 45, tac_max_retx_thresh = 4,
     tac_poll_pdu = 4, tac_poll_byte = 25, tac_queue_size = 8, tac_queue_size_bytes = 4096, tac_max_window = 0\<rparr>"

definition demo_tam_window :: "rlc_tx_am_sdu_info sdu_window" where
  "demo_tam_window = \<lparr>win_map = \<lparr>cm_max_size = 2 ^ 11, cm_data = Map.empty, cm_count = 0\<rparr>\<rparr>"

definition demo_tam :: rlc_tx_am_entity where
  "demo_tam = \<lparr>ta_cfg = demo_tam_cfg, ta_is_srb = False,
     ta_st = \<lparr>tx_next_ack = 0, tx_next = 0, poll_sn = 0, pdu_without_poll = 0, byte_without_poll = 0\<rparr>,
     ta_sdu_queue = sq_create 8 4096, sn_under_segmentation = invalid_rlc_sn, ta_retx_queue = rq_create (2 ^ 11),
     ta_retx_sn = invalid_rlc_sn, ta_window = demo_tam_window, recycle_bin = [], poll_retransmit_timer = False,
     prev_buffer_state = bs_init, suspend_bs_notif_barring = True, pending_buffer_state = False, ta_stopped_upper = False,
     ta_stopped_lower = False, max_retx_reached = False, ta_metrics_high = rth_create False,
     ta_metrics_low = rtl_set_mode Mode_am (rtl_create False), ta_events = [], pcell_tasks = [], ue_tasks = []\<rparr>"

lemma demo_tam_created: "rlc_tx_am_create demo_tam_cfg False False = Inr demo_tam"
proof -
  have "unat (am_window_size_of Am12) = 2 ^ 11" by (simp add: am_window_size_of_def)
  then show ?thesis
    by (simp only: rlc_tx_am_create_def demo_tam_cfg_def rlc_tx_am_config.simps Let_def win_create_pow2 seq_run_simps)
      (simp add: demo_tam_def demo_tam_cfg_def demo_tam_window_def)
qed

lemma demo_tam_simps [simp]:
  "ta_cfg demo_tam = demo_tam_cfg" "tac_sn_field_length demo_tam_cfg = Am12" "tac_queue_size demo_tam_cfg = 8"
  "tx_ack_of demo_tam = 0" "tx_next_of demo_tam = 0" "sn_under_segmentation demo_tam = invalid_rlc_sn" "ta_window demo_tam = demo_tam_window"
  "max_retx_reached demo_tam = False" "segmenting demo_tam = False"
  by (simp_all add: demo_tam_def demo_tam_cfg_def segmenting_def)

lemma demo_tam_reachable: "tx_reachable demo_tam_cfg [] [] [] demo_tam"
  by (rule tx_created [OF demo_tam_created]) simp

lemma demo_tam_inv: "txam_inv demo_tam"
  using tx_reachable_inv [OF demo_tam_reachable] by simp

text \<open>One SDU in the window: sent in full, or its first byte only.\<close>

definition demo_tam_info :: "u32 \<Rightarrow> rlc_tx_am_sdu_info" where
  "demo_tam_info so = \<lparr>ti_sdu = [1, 2, 3], ti_is_retx = False, ti_pdcp_sn = None, ti_toa = 0, ti_tod = 0, ti_next_so = so,
     ti_retx_count = retx_count_not_started\<rparr>"

definition demo_tam_sent :: rlc_tx_am_entity where
  "demo_tam_sent = demo_tam\<lparr>ta_window := win_put 0 (demo_tam_info 0) demo_tam_window, ta_st := (ta_st demo_tam)\<lparr>tx_next := 1\<rparr>\<rparr>"

definition demo_tam_segmenting :: rlc_tx_am_entity where
  "demo_tam_segmenting = demo_tam\<lparr>ta_window := win_put 0 (demo_tam_info 1) demo_tam_window, sn_under_segmentation := 0\<rparr>"

lemma demo_tam_keys: "tx_keys Am12 0 0 True (win_put 0 v demo_tam_window)" "tx_keys Am12 0 1 False (win_put 0 v demo_tam_window)"
    "win_find (win_put 0 v demo_tam_window) = [0 \<mapsto> v]"
proof -
  have "tx_keys Am12 0 0 False demo_tam_window" using demo_tam_inv by (simp add: txam_inv_def tx_window_ok_def)
  then have k: "tx_keys Am12 0 0 True (win_put 0 v demo_tam_window)" "win_find (win_put 0 v demo_tam_window) = (win_find demo_tam_window)(0 \<mapsto> v)"
    using tx_keys_add(1,2) [where z = Am12 and b = 0 and e = 0 and w = demo_tam_window and v = v] by (simp_all add: am_window_size_of_def)
  then show "tx_keys Am12 0 0 True (win_put 0 v demo_tam_window)" by simp
  show "tx_keys Am12 0 1 False (win_put 0 v demo_tam_window)"
    using tx_keys_done(1) [OF k(1)] by (simp add: am_mod_of_def)
  show "win_find (win_put 0 v demo_tam_window) = [0 \<mapsto> v]"
    using k(2) by (simp add: demo_tam_window_def win_find_def fun_eq_iff)
qed

lemma demo_tam_queues: "retx_queue_ok Am12 w (ta_retx_queue demo_tam)" "tx_queue_ok (ta_sdu_queue demo_tam)"
    "tx_am_metrics_ok (ta_metrics_low demo_tam)" "rq_items (ta_retx_queue demo_tam) = []"
proof -
  show "rq_items (ta_retx_queue demo_tam) = []" by (simp add: demo_tam_def rq_create_ok)
  then show "retx_queue_ok Am12 w (ta_retx_queue demo_tam)" "tx_queue_ok (ta_sdu_queue demo_tam)" "tx_am_metrics_ok (ta_metrics_low demo_tam)"
    using demo_tam_inv by (simp_all add: txam_inv_def retx_queue_ok_def)
qed

lemma demo_tam_sent_inv: "txam_inv demo_tam_sent" "tx_ack_of demo_tam_sent = 0" "tx_next_of demo_tam_sent = 1" "ta_cfg demo_tam_sent = demo_tam_cfg"
    "win_find (ta_window demo_tam_sent) = [0 \<mapsto> demo_tam_info 0]" "\<not> segmenting demo_tam_sent" "unacked demo_tam_sent = [[1, 2, 3]]"
    "sn_under_segmentation demo_tam_sent = invalid_rlc_sn"
proof -
  show f: "tx_ack_of demo_tam_sent = 0" "tx_next_of demo_tam_sent = 1" "ta_cfg demo_tam_sent = demo_tam_cfg"
    "win_find (ta_window demo_tam_sent) = [0 \<mapsto> demo_tam_info 0]" "\<not> segmenting demo_tam_sent" "sn_under_segmentation demo_tam_sent = invalid_rlc_sn"
    using demo_tam_keys(3) by (simp_all add: demo_tam_sent_def segmenting_def)
  show "txam_inv demo_tam_sent"
    using f demo_tam_keys(2) demo_tam_queues
    by (auto simp: txam_inv_def tx_window_ok_def info_sized_def sdu_sized_def demo_tam_info_def invalid_rlc_sn_def)
      (simp_all add: demo_tam_sent_def)
  have "away Am12 0 1 = 1" by (simp add: away_def mod_base_def am_mod_of_def)
  then show "unacked demo_tam_sent = [[1, 2, 3]]"
    using f by (simp add: unacked_def in_flight_def sdu_at_def demo_tam_info_def at_dist_def ring_add_def am_mod_of_def)
qed

lemma demo_tam_segmenting_inv: "txam_inv demo_tam_segmenting" "tx_ack_of demo_tam_segmenting = 0" "tx_next_of demo_tam_segmenting = 0"
    "ta_cfg demo_tam_segmenting = demo_tam_cfg" "win_find (ta_window demo_tam_segmenting) = [0 \<mapsto> demo_tam_info 1]" "segmenting demo_tam_segmenting"
    "sn_under_segmentation demo_tam_segmenting = 0"
proof -
  show f: "tx_ack_of demo_tam_segmenting = 0" "tx_next_of demo_tam_segmenting = 0" "ta_cfg demo_tam_segmenting = demo_tam_cfg"
    "win_find (ta_window demo_tam_segmenting) = [0 \<mapsto> demo_tam_info 1]" "segmenting demo_tam_segmenting" "sn_under_segmentation demo_tam_segmenting = 0"
    using demo_tam_keys(3) by (simp_all add: demo_tam_segmenting_def segmenting_def invalid_rlc_sn_def)
  show "txam_inv demo_tam_segmenting"
    using f demo_tam_keys(1) demo_tam_queues
    by (auto simp: txam_inv_def tx_window_ok_def info_sized_def sdu_sized_def demo_tam_info_def)
      (simp_all add: demo_tam_segmenting_def)
qed

lemma demo_rx_ready: "rx_ready (demo_am 35)" "status_report_required (demo_am 35) = False"
proof -
  show "rx_ready (demo_am 35)"
    unfolding rx_ready_def by (rule exI [of _ "demo_am_cfg 35"]) (simp add: reach_create [OF demo_am_created])
  show "status_report_required (demo_am 35) = False" by (simp add: status_report_required_def)
qed

section \<open>The life of SDUs\<close>



text \<open>C8: SDUs are acknowledged, in flight and waiting in the order in which the queue accepted them, and none
  is lost or duplicated: the SDUs that were accepted are those that were acknowledged, those in flight, those
  that wait and those that were discarded while they waited.\<close>

theorem tx_am_keeps_sdus:
  assumes "tx_reachable cfg accepted discarded acknowledged s"
  shows "subseq (acknowledged @ unacked s @ map sdu_buf (waiting s)) accepted \<and>
    mset accepted = mset acknowledged + mset (unacked s) + mset (map sdu_buf (waiting s)) + mset discarded"
  using tx_reachable_order [OF assms] tx_reachable_conserves [OF assms] by blast

lemma demo_tam_accepts: "tx_accepts tx_am_env_init (Op_sdu [1, 2, 3] False) demo_tam = [[1, 2, 3]]"
proof -
  have "get_pdcp_sn [1, 2, 3] Size12bits False = None" by code_simp
  then have "queued_sdu tx_am_env_init [1, 2, 3] False demo_tam = \<lparr>sdu_buf = [1, 2, 3], sdu_is_retx = False, sdu_pdcp_sn = None, sdu_toa = 0\<rparr>"
    by (simp add: queued_sdu_def demo_tam_def demo_tam_cfg_def tx_am_env_init_def)
  moreover have "fst (sq_write \<lparr>sdu_buf = [1, 2, 3], sdu_is_retx = False, sdu_pdcp_sn = None, sdu_toa = 0\<rparr> (sq_create 8 4096))"
    by code_simp
  ultimately show ?thesis by (simp add: tx_accepts_def demo_tam_def)
qed

lemma demo_tam_queued:
  obtains s where "tx_reachable demo_tam_cfg [[1, 2, 3]] [] [] s" and "map sdu_buf (waiting s) = [[1, 2, 3]]"
    and "\<not> max_retx_reached s" and "txam_inv s"
proof -
  let ?env = tx_am_env_init and ?op = "Op_sdu [1, 2, 3] False"
  let ?s = "tx_handle_sdu ?env [1, 2, 3] False demo_tam"
  have adm: "tx_admissible ?op demo_tam" by (simp add: tx_admissible_def sdu_sized_def)
  have ap: "tx_apply ?env ?op demo_tam = Inr ([], ?s)" by (simp add: tx_apply_def)
  have r: "tx_reachable demo_tam_cfg [[1, 2, 3]] [] [] ?s"
    using tx_stepped [OF demo_tam_reachable adm ap] demo_tam_accepts by (simp add: tx_discards_def tx_acknowledges_def)
  have "fst (sq_write (queued_sdu ?env [1, 2, 3] False demo_tam) (ta_sdu_queue demo_tam))"
    using demo_tam_accepts by (simp add: tx_accepts_def split: if_splits)
  then have "waiting ?s = waiting demo_tam @ [queued_sdu ?env [1, 2, 3] False demo_tam]"
    using handle_sdu_ok(3) [OF demo_tam_inv, of "[1, 2, 3]" ?env False] by (simp add: sdu_sized_def)
  moreover have "waiting demo_tam = []" by (simp add: waiting_def demo_tam_def sq_create_ok)
  ultimately have w: "map sdu_buf (waiting ?s) = [[1, 2, 3]]" by (simp add: queued_sdu_def)
  have m: "\<not> max_retx_reached ?s"
    by (simp add: tx_handle_sdu_def Let_def handle_changed_buffer_state_def pcell_defer_def split: prod.split)
  have "txam_inv ?s" using tx_reachable_inv [OF r] by simp
  then show ?thesis by (rule that [OF r w m])
qed

theorem tx_am_keeps_sdus_witness:
  "\<exists>s. tx_reachable demo_tam_cfg [[1, 2, 3]] [] [] s \<and> subseq (unacked s @ map sdu_buf (waiting s)) [[1, 2, 3]]"
proof -
  obtain s where r: "tx_reachable demo_tam_cfg [[1, 2, 3]] [] [] s" by (rule demo_tam_queued) (rule that)
  show ?thesis using tx_am_keeps_sdus [OF r] r by auto
qed

section \<open>Pulling PDUs\<close>

text \<open>C9: Pulling a PDU while no status report is owed never fails and leaves the receiving side alone; the PDU fits
  the grant, is not made at the expense of an SDU in flight, and if it is not empty it is a data PDU that the
  peer reads with the SN of an SDU in flight and with bytes of that SDU at their place.\<close>

theorem tx_am_pull_carries:
  assumes "txam_inv s" and "rx_ready rx" and "\<not> status_report_required rx"
  shows "\<exists>pdu s'. pull_pdu env g rx s = Inr (pdu, rx, s') \<and> txam_inv s' \<and> length pdu \<le> g \<and>
    (\<exists>taken. length taken \<le> 1 \<and> waiting s = taken @ waiting s' \<and> unacked s' = unacked s @ map sdu_buf taken) \<and>
    (pdu = [] \<or> list_ex (\<lambda>n. pdu_carries (ta_size s') pdu (at_dist (ta_size s') (tx_ack_of s') n) (unacked s' ! n)) [0..<in_flight s'])"
proof -
  obtain cfg where cfg: "am_reachable cfg rx" "0 < rac_t_reassembly cfg" using assms(2) by (auto simp: rx_ready_def)
  obtain pdu rx' s' where "pull_pdu env g rx s = Inr (pdu, rx', s')" "rx' = rx" "pulled s g pdu s'" "pdu \<noteq> [] \<longrightarrow> carries_unacked s' pdu"
    by (rule pull_pdu_ok [OF assms(1) cfg, of env g]) (use assms(3) in auto)
  then show ?thesis by (auto simp: pulled_def carries_unacked_def list_ex_iff)
qed

theorem tx_am_pull_carries_witness:
  "\<exists>s pdu s'. tx_reachable demo_tam_cfg [[1, 2, 3]] [] [] s \<and> pull_pdu tx_am_env_init 4 (demo_am 35) s = Inr (pdu, demo_am 35, s') \<and>
    txam_inv s' \<and> length pdu \<le> 4"
proof -
  obtain s where s: "tx_reachable demo_tam_cfg [[1, 2, 3]] [] [] s" "txam_inv s" by (rule demo_tam_queued) (rule that)
  show ?thesis using tx_am_pull_carries [OF s(2) demo_rx_ready(1), of tx_am_env_init 4] demo_rx_ready(2) s(1) by blast
qed

section \<open>Status reports\<close>

text \<open>C10: A status report that passes the checks and does not acknowledge what was not sent takes the SDUs before its
  first NACK, or before its ACK without one, out of flight, moves the lower edge of the window behind them,
  and leaves the waiting SDUs alone; every retransmission that is queued afterwards is of an SN that a NACK of
  the report names, within the bytes of its SDU.\<close>

theorem tx_am_report_accepted:
  assumes "txam_inv s" and "report_fits s status" and "report_accepted env s status"
  shows "\<exists>s'. handle_status_pdu env rx status s = Inr s' \<and> txam_inv s' \<and>
    unacked s' = drop (away (ta_size s) (tx_ack_of s) (ack_stop status)) (unacked s) \<and> waiting s' = waiting s \<and>
    tx_ack_of s' = ack_stop status \<and> tx_next_of s' = tx_next_of s \<and>
    list_all (\<lambda>r. nacks_name (ta_size s) (sp_nacks status) (rt_sn r) \<and> retx_in (ta_window s') r) (rq_items (ta_retx_queue s'))"
proof -
  have fits: "report_sns (ta_size s) status" "\<not> acks_unsent s status" using assms(2) by (simp_all add: report_fits_def)
  have "is_sn (ta_size s) (ack_stop status)" using fits(1) by (auto simp: report_sns_def ack_stop_def split: list.splits)
  moreover obtain s' where s': "handle_status_pdu env rx status s = Inr s'"
    "acks_applied s (away (ta_size s) (tx_ack_of s) (ack_stop status)) s'"
    "\<forall>r \<in> set (rq_items (ta_retx_queue s')). nacks_name (ta_size s) (sp_nacks status) (rt_sn r)"
    using accepted_tx_report [OF assms(1) fits assms(3)] by blast
  ultimately show ?thesis by (auto simp: acks_applied_def txam_inv_def retx_queue_ok_def list_all_iff)
qed

definition demo_status :: "u32 \<Rightarrow> rlc_am_status_nack list \<Rightarrow> rlc_am_status_pdu" where
  "demo_status ack nacks = (status_create Am12)\<lparr>sp_ack_sn := ack, sp_nacks := nacks\<rparr>"

lemma demo_status_simps [simp]: "sp_ack_sn (demo_status a ns) = a" "sp_nacks (demo_status a ns) = ns"
  by (simp_all add: demo_status_def)

theorem tx_am_report_accepted_witness:
  "\<exists>s'. handle_status_pdu tx_am_env_init (demo_am 35) (demo_status 1 []) demo_tam_sent = Inr s' \<and> txam_inv s' \<and> unacked s' = []"
proof -
  note d = demo_tam_sent_inv
  have fits: "report_fits demo_tam_sent (demo_status 1 [])"
    using d by (simp add: report_fits_def report_sns_def acks_unsent_def is_sn_def am_mod_of_def)
  have acc: "report_accepted tx_am_env_init demo_tam_sent (demo_status 1 [])"
    using d by (simp add: report_accepted_def tx_valid_ack_sn_def tx_mod_base_def mod_base_def am_mod_of_def am_window_size_of_def away_def)
  have "away Am12 0 1 = 1" by (simp add: away_def mod_base_def am_mod_of_def)
  then show ?thesis using tx_am_report_accepted [OF d(1) fits acc, of "demo_am 35"] d by (auto simp: ack_stop_def)
qed

text \<open>A status report that does not pass the checks, whatever it contains, changes nothing of the SDUs in flight and
  waiting, of the window and of the queued retransmissions.\<close>

theorem tx_am_report_ignored:
  assumes "txam_inv s" and "\<not> report_accepted env s status"
  shows "\<exists>s'. handle_status_pdu env rx status s = Inr s' \<and> txam_inv s' \<and> unacked s' = unacked s \<and> waiting s' = waiting s \<and>
    tx_ack_of s' = tx_ack_of s \<and> tx_next_of s' = tx_next_of s \<and> ta_retx_queue s' = ta_retx_queue s"
proof -
  obtain s' where "handle_status_pdu env rx status s = Inr s'" "txam_inv s'" "same_abs s s'" "ta_retx_queue s' = ta_retx_queue s"
    by (rule ignored_report [OF assms]) (rule that)
  then show ?thesis using same_abs_unacked [of s s'] by (simp add: same_abs_def)
qed

theorem tx_am_report_ignored_witness:
  "\<exists>s'. handle_status_pdu tx_am_env_init (demo_am 35) (demo_status 3 []) demo_tam_sent = Inr s' \<and> unacked s' = [[1, 2, 3]]"
proof -
  note d = demo_tam_sent_inv
  have "\<not> report_accepted tx_am_env_init demo_tam_sent (demo_status 3 [])"
    using d by (simp add: report_accepted_def mod_base_def am_mod_of_def away_def)
  then show ?thesis using tx_am_report_ignored [OF d(1), of tx_am_env_init "demo_status 3 []" "demo_am 35"] d(7) by auto
qed

section \<open>Retransmissions\<close>





section \<open>Polling\<close>

text \<open>C39: With a configured number of PDUs between polls, a new PDU polls exactly when as many PDUs were sent without a
  poll or, if configured, as many bytes, or nothing more can be sent; so the number of PDUs without a poll
  stays below the configured one. A poll marks the SN and runs the timer, if it is configured, until the
  entity is stopped.\<close>

theorem tx_am_polls:
  assumes "0 < tac_poll_pdu (ta_cfg s)" and "tac_poll_pdu (ta_cfg s) < 2 ^ 31" and "int (unat (pdu_without_poll (ta_st s))) < tac_poll_pdu (ta_cfg s)"
    and "get_polling_bit sn False n s = (p, s')"
  shows "int (unat (pdu_without_poll (ta_st s'))) < tac_poll_pdu (ta_cfg s) \<and>
    p = of_bool (int (unat (pdu_without_poll (ta_st s))) + 1 = tac_poll_pdu (ta_cfg s) \<or>
      (0 < tac_poll_byte (ta_cfg s) \<and> of_int (tac_poll_byte (ta_cfg s)) \<le> byte_without_poll (ta_st s) + n) \<or> nothing_to_send s) \<and>
    (p = 1 \<longrightarrow> poll_sn (ta_st s') = sn \<and> pdu_without_poll (ta_st s') = 0 \<and> byte_without_poll (ta_st s') = 0 \<and>
      (0 < tac_t_poll_retx (ta_cfg s) \<and> \<not> ta_stopped_lower s \<longrightarrow> poll_retransmit_timer s'))"
proof -
  let ?c = "pdu_without_poll (ta_st s)" and ?P = "tac_poll_pdu (ta_cfg s)"
  let ?s = "s\<lparr>ta_st := (ta_st s)\<lparr>pdu_without_poll := ?c + 1, byte_without_poll := byte_without_poll (ta_st s) + n\<rparr>\<rparr>"
  have "?P < 2147483648" using assms(2) by simp
  then have "unat ?c < 2147483648" using assms(3) by linarith
  then have lt: "unat ?c + 1 < 2 ^ 32" by simp
  then have u: "unat (?c + 1) = unat ?c + 1" by (simp add: unat_word_ariths)
  then have ui: "uint (?c + 1) = uint ?c + 1" by (simp only: uint_nat of_nat_add of_nat_1)
  have P: "unat (of_int ?P :: u32) = nat ?P"
  proof -
    have "(of_int ?P :: u32) = of_nat (nat ?P)" using assms(1) by simp
    then show ?thesis using assms(2) by (simp add: unsigned_of_nat take_bit_nat_eq_self_iff)
  qed
  have pdu: "of_int ?P \<le> ?c + 1 \<longleftrightarrow> int (unat ?c) + 1 = ?P"
    unfolding word_le_nat_alt u P using assms(1,3) by linarith
  have nts: "nothing_to_send ?s = nothing_to_send s"
    by (simp add: nothing_to_send_def is_tx_window_full_def tx_mod_base_def)
  define poll where "poll \<longleftrightarrow> (int (unat ?c) + 1 = ?P \<or>
      (0 < tac_poll_byte (ta_cfg s) \<and> of_int (tac_poll_byte (ta_cfg s)) \<le> byte_without_poll (ta_st s) + n) \<or> nothing_to_send s)"
  have g: "get_polling_bit sn False n s = (if poll
      then (1, ?s\<lparr>ta_st := (ta_st ?s)\<lparr>pdu_without_poll := 0, byte_without_poll := 0, poll_sn := sn\<rparr>,
                poll_retransmit_timer := poll_retransmit_timer s \<or> (0 < tac_t_poll_retx (ta_cfg s) \<and> \<not> ta_stopped_lower s)\<rparr>)
      else (0, ?s))"
    unfolding get_polling_bit_def Let_def poll_def using pdu nts assms(1) by simp
  have "\<not> poll \<Longrightarrow> int (unat ?c) + 1 < ?P" using assms(3) by (auto simp: poll_def)
  then show ?thesis
    unfolding poll_def [symmetric] using assms(1,4) ui unfolding g by (auto split: if_splits)
qed

theorem tx_am_polls_witness:
  "\<exists>s. get_polling_bit 7 False 0 (demo_tam\<lparr>ta_st := (ta_st demo_tam)\<lparr>pdu_without_poll := 3\<rparr>\<rparr>) = (1, s) \<and> poll_sn (ta_st s) = 7"
proof -
  let ?s = "demo_tam\<lparr>ta_st := (ta_st demo_tam)\<lparr>pdu_without_poll := 3\<rparr>\<rparr>"
  obtain p s where g: "get_polling_bit 7 False 0 ?s = (p, s)" by force
  have c: "tac_poll_pdu (ta_cfg ?s) = 4" "pdu_without_poll (ta_st ?s) = 3" by (simp_all add: demo_tam_cfg_def)
  show ?thesis using tx_am_polls [OF _ _ _ g] c g by (simp del: demo_tam_simps)
qed

section \<open>The buffer state\<close>






section \<open>Faults\<close>

text \<open>C40: A status report with an ACK right behind TX\_Next and a NACK of TX\_Next passes all checks while no SDU is being
  segmented and the window has room; handling the NACK then reads an element that the window does not have:
  the peer can make the entity fail.\<close>

theorem tx_am_nack_of_unsent_faults:
  assumes "txam_inv s" and "\<not> segmenting s" and "away (ta_size s) (tx_ack_of s) (tx_next_of s) < unat (am_window_size_of (ta_size s))"
    and "sp_ack_sn status = (tx_next_of s + 1) mod ta_mod s" and "sp_nacks status = [nack]" and "nack_sn nack = tx_next_of s"
    and "\<not> has_nack_range nack"
  shows "handle_status_pdu env rx status s = Inl Missing_element"
proof -
  let ?z = "ta_size s" and ?b = "tx_ack_of s" and ?e = "tx_next_of s"
  let ?n = "away ?z ?b ?e"
  have w: "tx_window_ok s" using assms(1) by (simp add: txam_inv_def)
  have sn: "is_sn ?z ?b" "is_sn ?z ?e" using w by (simp_all add: tx_window_ok_def tx_keys_def)
  have "?n + 1 < unat (am_mod_of ?z)" using assms(3) am_mod_window [of ?z] by simp
  then have ack: "away ?z ?b (sp_ack_sn status) = ?n + 1" unfolding assms(4) by (rule away_Suc)
  then have m: "unat (tx_mod_base s (sp_ack_sn status)) = ?n + 1" "unat (tx_mod_base s ?e) = ?n" "unat (tx_mod_base s (?e + 1)) = ?n + 1"
    using assms(4) away_plus_1 [of ?z ?b ?e] by (simp_all add: tx_mod_base_def away_def)
  have v: "tx_valid_ack_sn s (sp_ack_sn status)"
    using m assms(3) by (simp add: tx_valid_ack_sn_def word_less_nat_alt word_le_nat_alt)
  have k: "valid_nacks env (sp_ack_sn status) (sp_nacks status) s = (True, s)"
    using m assms(3,5,6,7) by (simp add: valid_nack_def Let_def inside_tx_window_def word_less_nat_alt word_le_nat_alt)
  have acc: "handle_status_pdu env rx status s = accept_status_pdu env rx status s"
    using m v k by (simp add: handle_status_pdu_def word_less_nat_alt)
  have st: "ack_stop status = ?e" using assms(5,6) by (simp add: ack_stop_def)
  obtain acks t where t: "accept_status_pdu env rx status s = nack_part env rx status acks t" "acks_applied s ?n t"
    using accept_acks [OF assms(1), of status env rx] unfolding st by auto
  have f: "ta_size t = ?z" "tx_ack_of t = ?e" "tx_next_of t = ?e" "\<not> segmenting t" and wt: "tx_window_ok t"
    using t(2) sn assms(2) by (simp_all add: acks_applied_def txam_inv_def)
  have "win_find (ta_window t) ?e = None"
    using window_numbers [OF wt, of ?e] sn f by (auto simp: in_flight_def)
  then have "handle_nack env nack t = Inl Missing_element"
    unfolding handle_nack_def tx_mod_base_def using f assms(6,7) by (simp add: win_at_find)
  then show ?thesis using acc t(1) assms(5,7) by (simp add: nack_part_def process_nack_def)
qed

theorem tx_am_nack_of_unsent_faults_witness:
  "handle_status_pdu tx_am_env_init (demo_am 35) (demo_status 2 [nack_init\<lparr>nack_sn := 1\<rparr>]) demo_tam_sent = Inl Missing_element"
  using demo_tam_sent_inv
  by (intro tx_am_nack_of_unsent_faults [of _ _ "nack_init\<lparr>nack_sn := 1\<rparr>"])
    (simp_all add: away_def mod_base_def am_mod_of_def am_window_size_of_def nack_init_def)

text \<open>What the upper layer and the receiving side may call at any time.\<close>

definition upper_op :: "tx_op \<Rightarrow> bool" where
  "upper_op op \<longleftrightarrow> (case op of Op_sdu buf is_retx \<Rightarrow> True | Op_discard sn \<Rightarrow> True | Op_status_changed \<Rightarrow> True | _ \<Rightarrow> False)"

fun tx_apply_all :: "(tx_am_env \<times> tx_op) list \<Rightarrow> rlc_tx_am_entity \<Rightarrow> rlc_tx_am_entity run" where
  "tx_apply_all [] s = Inr s"
| "tx_apply_all ((env, op) # ops) s = seq_run (tx_apply env op s) (\<lambda>(pdu, s). tx_apply_all ops s)"

lemma upper_op_pending:
  assumes "upper_op op" and "pending_buffer_state s"
  shows "\<exists>pdu s'. tx_apply env op s = Inr (pdu, s') \<and> pcell_tasks s' = pcell_tasks s \<and> pending_buffer_state s'"
  using assms
  by (cases op) (simp_all add: upper_op_def tx_apply_def tx_handle_sdu_def tx_discard_sdu_def on_status_report_changed_def
      handle_changed_buffer_state_def Let_def split: prod.split)

lemma upper_ops_pending:
  assumes "list_all (\<lambda>(env, op). upper_op op) ops" and "pending_buffer_state s"
  shows "\<exists>s'. tx_apply_all ops s = Inr s' \<and> pcell_tasks s' = pcell_tasks s \<and> pending_buffer_state s'"
  using assms
proof (induction ops arbitrary: s)
  case (Cons eop ops)
  obtain env op where eop: "eop = (env, op)" by force
  then obtain pdu t where "tx_apply env op s = Inr (pdu, t)" "pcell_tasks t = pcell_tasks s" "pending_buffer_state t"
    using upper_op_pending [of op s env] Cons.prems by auto
  then show ?case using Cons.IH [of t] Cons.prems eop by simp
qed simp

text \<open>When the cell executor refuses the task that reports a changed buffer state, the entity stays marked as having
  one pending: no sequence of SDUs, discards and changes of the status report schedules another report.\<close>

theorem tx_am_lost_notification:
  assumes "\<not> pending_buffer_state s" and "\<not> te_pcell_ok env" and "list_all (\<lambda>(env, op). upper_op op) ops"
  shows "\<exists>s'. tx_apply_all ops (handle_changed_buffer_state env s) = Inr s' \<and> pcell_tasks s' = pcell_tasks s"
proof -
  have "pcell_tasks (handle_changed_buffer_state env s) = pcell_tasks s" "pending_buffer_state (handle_changed_buffer_state env s)"
    using assms by (simp_all add: handle_changed_buffer_state_def pcell_defer_def)
  then show ?thesis using upper_ops_pending [OF assms(3)] by metis
qed

theorem tx_am_lost_notification_witness:
  "\<exists>s'. tx_apply_all [(tx_am_env_init, Op_sdu [1, 2, 3] False), (tx_am_env_init, Op_status_changed)]
    (handle_changed_buffer_state (tx_am_env_init\<lparr>te_pcell_ok := False\<rparr>) demo_tam) = Inr s' \<and> pcell_tasks s' = []"
proof -
  have p: "\<not> pending_buffer_state demo_tam" "pcell_tasks demo_tam = []" by (simp_all add: demo_tam_def)
  have e: "\<not> te_pcell_ok (tx_am_env_init\<lparr>te_pcell_ok := False\<rparr>)" by simp
  have o: "list_all (\<lambda>(env, op). upper_op op) [(tx_am_env_init, Op_sdu [1, 2, 3] False), (tx_am_env_init, Op_status_changed)]"
    by (simp add: upper_op_def)
  show ?thesis using tx_am_lost_notification [OF p(1) e o] unfolding p(2) .
qed

text \<open>The fields that the steps of this run leave alone.\<close>

definition run_keeps :: "rlc_tx_am_entity \<Rightarrow> rlc_tx_am_entity \<Rightarrow> bool" where
  "run_keeps s t \<longleftrightarrow> ta_cfg t = ta_cfg s \<and> ta_retx_queue t = ta_retx_queue s \<and> ta_sdu_queue t = ta_sdu_queue s \<and>
     sn_under_segmentation t = sn_under_segmentation s"

text \<open>The ACKs of a report that acknowledges the SN of the lower edge only.\<close>

lemma ack_lower_edge:
  assumes "tx_am_metrics_ok (ta_metrics_low s)" and "is_sn (ta_size s) (tx_ack_of s)" and "win_wf (ta_window s)"
    and "win_find (ta_window s) (tx_ack_of s) \<noteq> None"
  obtains acks' t where "ack_loop (ta_size s) env ((tx_ack_of s + 1) mod ta_mod s) (tx_ack_of s) acks s = Inr (acks', t)"
    and "run_keeps s t" and "ta_st t = (ta_st s)\<lparr>tx_next_ack := (tx_ack_of s + 1) mod ta_mod s\<rparr>"
    and "win_find (ta_window t) (tx_ack_of s) = None" and "tx_am_metrics_ok (ta_metrics_low t)"
proof -
  let ?z = "ta_size s" and ?e = "tx_ack_of s" and ?next = "(tx_ack_of s + 1) mod ta_mod s" and ?acks = "acks\<lparr>al_processed := al_processed acks + 1\<rparr>"
  obtain info where find: "win_find (ta_window s) ?e = Some info" using assms(4) by auto
  have "(0 :: nat) + 1 < unat (am_mod_of ?z)" using am_mod_window [of ?z] by simp
  then have "away ?z ?e ?next = 1" using away_Suc [of ?z ?e ?e] assms(2) by simp
  then have less: "mod_base (am_mod_of ?z) ?e ?e < mod_base (am_mod_of ?z) ?e ?next" unfolding away_less_iff using assms(2) by simp
  obtain m' where m': "rtl_add_ack_latency_ms (te_ack_latency env ?e) (ta_metrics_low s) = Inr m'" "tx_am_metrics_ok m'"
    using tx_metrics_add_ok(4) [OF assms(1)] by metis
  define t where "t = add_discarded_pdu (ti_sdu info)
      (s\<lparr>ta_metrics_low := m', ta_window := win_del ?e (ta_window s), ta_st := (ta_st s)\<lparr>tx_next_ack := ?next\<rparr>\<rparr>)"
  have t: "run_keeps s t" "ta_st t = (ta_st s)\<lparr>tx_next_ack := ?next\<rparr>" "ta_window t = win_del ?e (ta_window s)" "ta_metrics_low t = m'"
    by (simp_all add: t_def add_discarded_pdu_def run_keeps_def)
  obtain acks' where a: "ack_sdu env ?e ?acks s = Inr (acks', t)"
    using m'(1) find by (simp add: ack_sdu_def win_at_find remove_sn_del has_sn_find t_def)
  have stop: "ack_loop ?z env ?next ?next acks' t = Inr (acks', t)" using t(2) by (subst ack_loop.simps) simp
  have "ack_loop ?z env ?next ?e acks s = Inr (acks', t)"
    using less a stop find by (subst ack_loop.simps) (simp add: has_sn_find Let_def)
  moreover have "win_find (ta_window t) ?e = None" using win.look_del [OF assms(3), of ?e] t(3) by simp
  ultimately show ?thesis using that t m'(2) by metis
qed

text \<open>The buffer state when the SDU under segmentation has left the window.\<close>

lemma update_without_segment:
  assumes "sn_under_segmentation s \<noteq> invalid_rlc_sn" and "win_find (ta_window s) (sn_under_segmentation s) = None"
    and "rq_empty (ta_retx_queue s)"
  obtains t where "update_mac_buffer_state True rx s = Inr t" and "ta_cfg t = ta_cfg s" and "ta_st t = ta_st s" and "ta_window t = ta_window s"
    and "ta_metrics_low t = ta_metrics_low s" and "sn_under_segmentation t = sn_under_segmentation s"
proof -
  have "drop_absent (ta_window s) (ta_retx_queue s) = Inr (ta_retx_queue s)" using assms(3) by (subst drop_absent.simps) simp
  moreover have "\<not> has_sn (ta_window s) (sn_under_segmentation s)" using assms(2) by (simp add: has_sn_find)
  moreover obtain n1 n2 where "sq_get_state (ta_sdu_queue s) = (n1, n2)" by force
  ultimately obtain bs v where "get_buffer_state rx (s\<lparr>pending_buffer_state := False\<rparr>) = Inr (bs, v)" "ta_cfg v = ta_cfg s" "ta_st v = ta_st s"
    "ta_window v = ta_window s" "ta_metrics_low v = ta_metrics_low s" "sn_under_segmentation v = sn_under_segmentation s"
    using assms by (simp add: get_buffer_state_def retx_hol_toa_def Let_def)
  then show ?thesis using that by (simp add: update_mac_buffer_state_def emit_def Let_def)
qed

text \<open>A status report without NACKs that acknowledges the SDU that is being segmented passes all checks: the SDU
  leaves the window, and the lower edge of the window passes TX\_Next, so that the window of SNs that the
  entity may use is no longer the one behind its lower edge.\<close>

theorem tx_am_ack_of_segmented:
  assumes "txam_inv s" and "segmenting s" and "tx_ack_of s = tx_next_of s" and "rq_items (ta_retx_queue s) = []"
    and "sp_ack_sn status = (tx_next_of s + 1) mod ta_mod s" and "sp_nacks status = []"
  shows "\<exists>s'. handle_status_pdu env rx status s = Inr s' \<and> win_find (ta_window s') (tx_next_of s') = None \<and>
    tx_next_of s' = tx_next_of s \<and> sn_under_segmentation s' = tx_next_of s \<and> tx_ack_of s' = (tx_next_of s + 1) mod ta_mod s \<and>
    away (ta_size s) (tx_ack_of s') (tx_next_of s') = unat (ta_mod s) - 1"
proof -
  let ?z = "ta_size s" and ?e = "tx_next_of s" and ?next = "(tx_next_of s + 1) mod ta_mod s"
    and ?acks = "\<lparr>al_processed = 0, al_delivered = None, al_delivered_retx = None\<rparr>"
  have m: "tx_am_metrics_ok (ta_metrics_low s)" and under: "sn_under_segmentation s = ?e" and "tx_keys ?z ?e ?e True (ta_window s)"
    and em: "rq_empty (ta_retx_queue s)"
    using assms(1-4) by (simp_all add: txam_inv_def tx_window_ok_def retx_queue_ok_def rq_empty_items)
  then have e: "is_sn ?z ?e" "win_wf (ta_window s)" "win_find (ta_window s) ?e \<noteq> None" by (simp_all add: tx_keys_def)
  define s0 where "s0 = (if tx_mod_base s (poll_sn (ta_st s)) < tx_mod_base s (sp_ack_sn status) then s\<lparr>poll_retransmit_timer := False\<rparr> else s)"
  have s0: "run_keeps s s0" "ta_st s0 = ta_st s" "ta_window s0 = ta_window s" "ta_metrics_low s0 = ta_metrics_low s"
    by (simp_all add: s0_def run_keeps_def)
  obtain acks t where a: "ack_loop ?z env ?next ?e ?acks s0 = Inr (acks, t)" and t: "run_keeps s0 t"
    "ta_st t = (ta_st s)\<lparr>tx_next_ack := ?next\<rparr>" "win_find (ta_window t) ?e = None" "tx_am_metrics_ok (ta_metrics_low t)"
    by (rule ack_lower_edge [of s0 env ?acks]) (use m e s0 assms(3) in \<open>auto simp: run_keeps_def\<close>)
  define u where "u = (notify_delivered acks t)\<lparr>ta_retx_sn := invalid_rlc_sn\<rparr>"
  have u: "run_keeps s u" "ta_st u = ta_st t" "ta_window u = ta_window t" "ta_metrics_low u = ta_metrics_low t"
    using t(1) s0(1) by (simp_all add: u_def run_keeps_def notify_delivered_def split: option.splits)
  have c: "clear_retx_queue (ta_retx_queue t) (notify_delivered acks t) = Inr (notify_delivered acks t)"
    using em t(1) s0(1) by (subst clear_retx_queue.simps) (simp add: run_keeps_def notify_delivered_def split: option.splits)
  obtain v where v: "update_mac_buffer_state True rx u = Inr v" "ta_cfg v = ta_cfg s" "ta_st v = ta_st t" "ta_window v = ta_window t"
    "ta_metrics_low v = ta_metrics_low t" "sn_under_segmentation v = ?e"
    by (rule update_without_segment [of u rx]) (use u under em t(3) invalid_no_sn [OF e(1)] in \<open>auto simp: run_keeps_def\<close>)
  obtain m2 where m2: "rtl_add_handle_status_latency_us (al_processed acks) 0 (te_status_latency env) (ta_metrics_low t) = Inr m2"
    using tx_metrics_add_ok(5) [OF t(4)] by blast
  have acc: "accept_status_pdu env rx status s = Inr ((ue_defer env Clear_recycler_task v)\<lparr>ta_metrics_low := m2\<rparr>)"
    using a c s0 t(1,2) assms(3,5,6) v m2 unfolding accept_status_pdu_def s0_def [symmetric]
    by (simp add: Let_def u_def [symmetric] run_keeps_def status_on_exit_def)
  have "(0 :: nat) + 1 < unat (am_mod_of ?z)" using am_mod_window [of ?z] by simp
  then have "away ?z ?e ?next = 1" using away_Suc [of ?z ?e ?e] e(1) by simp
  then have "handle_status_pdu env rx status s = accept_status_pdu env rx status s"
    using away_plus_1 [of ?z ?e ?e] assms(3,5,6) am_mod_window(2) [of ?z]
    by (simp add: handle_status_pdu_def tx_valid_ack_sn_def tx_mod_base_def away_def word_less_nat_alt word_le_nat_alt)
  moreover have "away ?z ?next ?e = unat (am_mod_of ?z) - 1"
    using away_shift_past [of ?z ?e ?e 1] am_mod_window [of ?z] e(1) by (simp add: at_dist_def ring_add_def)
  ultimately show ?thesis using acc v t by auto
qed

theorem tx_am_ack_of_segmented_witness:
  "\<exists>s'. handle_status_pdu tx_am_env_init (demo_am 35) (demo_status 1 []) demo_tam_segmenting = Inr s' \<and>
    win_find (ta_window s') 0 = None \<and> tx_next_of s' = 0 \<and> tx_ack_of s' = 1"
proof -
  note d = demo_tam_segmenting_inv
  have q: "rq_items (ta_retx_queue demo_tam_segmenting) = []" using demo_tam_queues(4) by (simp add: demo_tam_segmenting_def)
  have "tx_ack_of demo_tam_segmenting = tx_next_of demo_tam_segmenting" "sp_nacks (demo_status 1 []) = []"
    "sp_ack_sn (demo_status 1 []) = (tx_next_of demo_tam_segmenting + 1) mod ta_mod demo_tam_segmenting"
    using d by (simp_all add: am_mod_of_def)
  from tx_am_ack_of_segmented [OF d(1) d(6) this(1) q this(3,2), of tx_am_env_init "demo_am 35"]
  show ?thesis using d by (auto simp: am_mod_of_def)
qed

end
