(* ===== verification/Rlc_Um_Pdu.thy ===== *)
theory Rlc_Um_Pdu
  imports Rlc_Am_Codec
begin

text \<open>
  The PDUs of the unacknowledged mode, \<open>lib/rlc/rlc_um_pdu.h\<close>: header sizes, reading and writing of
  headers, and what reading makes of a written header.
\<close>

section \<open>Header sizes\<close>

definition rlc_um_pdu_header_size_complete_sdu :: nat where
  "rlc_um_pdu_header_size_complete_sdu = 1"

definition rlc_um_pdu_header_size_no_so :: "rlc_um_sn_size \<Rightarrow> nat" where
  "rlc_um_pdu_header_size_no_so z = (case z of Um6 \<Rightarrow> 1 | Um12 \<Rightarrow> 2)"

definition rlc_um_pdu_header_size_with_so :: "rlc_um_sn_size \<Rightarrow> nat" where
  "rlc_um_pdu_header_size_with_so z = (case z of Um6 \<Rightarrow> 3 | Um12 \<Rightarrow> 4)"

record rlc_um_pdu_header =
  uh_si :: rlc_si_field
  uh_sn_size :: rlc_um_sn_size
  uh_sn :: u16
  uh_so :: u16

section \<open>Reading and writing\<close>

text \<open>The fixed part: the SN, and the position behind it. The PDU is not empty.\<close>

definition read_um_sn :: "rlc_um_sn_size \<Rightarrow> rlc_si_field \<Rightarrow> bytes \<Rightarrow> (u16 \<times> bytes) option" where
  "read_um_sn z si pdu =
     (case z of
        Um6 \<Rightarrow>
          (let sn = ucast (hd pdu AND 0x3f) in
           if si = Full_sdu \<and> sn \<noteq> 0 then None else Some (sn, tl pdu))
      | Um12 \<Rightarrow>
          (let sn = push_bit 8 (ucast (hd pdu AND 0x0f)) in
           if si = Full_sdu \<and> sn \<noteq> 0 then None
           else if si = First_segment \<and> drop_bit 4 (hd pdu) AND 0x03 \<noteq> 0 then None
           else if si \<noteq> Full_sdu then
             (case tl pdu of [] \<Rightarrow> None | b # rd \<Rightarrow> Some (sn OR (ucast b AND 0xff), rd))
           else Some (sn, tl pdu)))"

definition rlc_um_read_data_pdu_header :: "bytes \<Rightarrow> rlc_um_sn_size \<Rightarrow> rlc_um_pdu_header option" where
  "rlc_um_read_data_pdu_header pdu z =
     (if pdu = [] then None
      else
        let si = si_of_number (drop_bit 6 (hd pdu) AND 0x03) in
        case read_um_sn z si pdu of
          None \<Rightarrow> None
        | Some (sn, rd) \<Rightarrow>
            if si = Last_segment \<or> si = Middle_segment then
              (case read_so rd of
                 None \<Rightarrow> None
               | Some so \<Rightarrow> Some \<lparr>uh_si = si, uh_sn_size = z, uh_sn = sn, uh_so = so\<rparr>)
            else Some \<lparr>uh_si = si, uh_sn_size = z, uh_sn = sn, uh_so = 0\<rparr>)"

definition rlc_um_nr_packed_length :: "rlc_um_pdu_header \<Rightarrow> nat" where
  "rlc_um_nr_packed_length h =
     (if uh_si h = Full_sdu then 1
      else (if uh_sn_size h = Um6 then 1 else 2) + (if uh_so h \<noteq> 0 then 2 else 0))"

definition rlc_um_write_data_pdu_header :: "rlc_um_pdu_header \<Rightarrow> bytes" where
  "rlc_um_write_data_pdu_header h =
     (let b0 = push_bit 6 (si_to_number (uh_si h) AND 0x03) in
      if uh_si h = Full_sdu then [b0]
      else
        (if uh_sn_size h = Um6 then [b0 OR ucast (uh_sn h AND 0x3f)]
         else [b0 OR ucast (drop_bit 8 (uh_sn h) AND 0xf), ucast (uh_sn h AND 0xff)]) @
        (if uh_so h \<noteq> 0 then [ucast (drop_bit 8 (uh_so h)), ucast (uh_so h AND 0xff)] else []))"

section \<open>What is written is read\<close>

abbreviation um_bits :: "rlc_um_sn_size \<Rightarrow> nat" where
  "um_bits \<equiv> um_sn_size_to_number"

lemma um_bits_values [simp]: "um_bits Um6 = 6" "um_bits Um12 = 12"
  by (simp_all add: um_sn_size_to_number_def)

text \<open>A header as the transmitting side fills it: an offset exactly when the segment is not the first.\<close>

definition um_header_ok :: "rlc_um_pdu_header \<Rightarrow> bool" where
  "um_header_ok h \<longleftrightarrow> unat (uh_sn h) < 2 ^ um_bits (uh_sn_size h) \<and>
     (uh_so h \<noteq> 0 \<longleftrightarrow> uh_si h = Last_segment \<or> uh_si h = Middle_segment)"

lemma um_write_length: "length (rlc_um_write_data_pdu_header h) = rlc_um_nr_packed_length h"
  by (simp add: rlc_um_write_data_pdu_header_def rlc_um_nr_packed_length_def Let_def)

lemma um_packed_length:
  assumes "um_header_ok h"
  shows "rlc_um_nr_packed_length h =
    (case uh_si h of
       Full_sdu \<Rightarrow> rlc_um_pdu_header_size_complete_sdu
     | First_segment \<Rightarrow> rlc_um_pdu_header_size_no_so (uh_sn_size h)
     | _ \<Rightarrow> rlc_um_pdu_header_size_with_so (uh_sn_size h))"
  using assms
  by (auto simp: um_header_ok_def rlc_um_nr_packed_length_def rlc_um_pdu_header_size_complete_sdu_def
      rlc_um_pdu_header_size_no_so_def rlc_um_pdu_header_size_with_so_def split: rlc_si_field.splits rlc_um_sn_size.splits)

lemma um_first_byte:
  fixes f :: u8
  assumes "\<forall>n \<ge> 6. \<not> bit f n"
  shows "si_of_number (drop_bit 6 (push_bit 6 (si_to_number si AND mask 2) OR f) AND mask 2) = si"
    and "k \<le> 6 \<Longrightarrow> (push_bit 6 v OR f) AND mask k = f AND mask k"
    and "\<forall>n \<ge> 4. \<not> bit f n \<Longrightarrow> drop_bit 4 (push_bit 6 v OR f) AND mask 2 = 0"
proof -
  have "drop_bit 6 (push_bit 6 (si_to_number si AND mask 2) OR f) AND mask 2 = si_to_number si AND mask 2"
    using assms by (auto intro!: bit_word_eqI simp: bit_simps)
  also have "\<dots> = si_to_number si" by (cases si) (simp_all add: si_to_number_def mask_eq_exp_minus_1)
  finally show "si_of_number (drop_bit 6 (push_bit 6 (si_to_number si AND mask 2) OR f) AND mask 2) = si" by simp
  show "(push_bit 6 v OR f) AND mask k = f AND mask k" if "k \<le> 6"
    using that by (auto intro!: bit_word_eqI simp: bit_simps)
  show "drop_bit 4 (push_bit 6 v OR f) AND mask 2 = 0" if "\<forall>n \<ge> 4. \<not> bit f n"
    using that by (auto intro!: bit_word_eqI simp: bit_simps)
qed

lemma um_sn_6:
  fixes sn :: u16
  assumes "unat sn < 2 ^ 6"
  shows "ucast ((ucast (sn AND mask 6) :: u8) AND mask 6) = sn"
  using sn_bit_bound [OF assms] by (auto intro!: bit_word_eqI simp: bit_simps) (fastforce dest: sn_bit_bound [OF assms])

lemma um_sn_12:
  fixes sn :: u16
  assumes "unat sn < 2 ^ 12"
  shows "push_bit 8 (ucast ((ucast (drop_bit 8 sn AND mask 4) :: u8) AND mask 4)) OR (ucast (ucast (sn AND mask 8) :: u8) AND mask 8) = sn"
    (is "?a OR ?b = sn")
proof (rule bit_word_eqI)
  fix n assume "n < LENGTH(16)"
  then have a: "bit ?a n \<longleftrightarrow> 8 \<le> n \<and> n < 12 \<and> bit sn n" by (auto simp: bit_simps)
  have b: "bit ?b n \<longleftrightarrow> n < 8 \<and> bit sn n" by (auto simp: bit_simps)
  show "bit (?a OR ?b) n \<longleftrightarrow> bit sn n"
    unfolding bit_or_iff a b using sn_bit_bound [OF assms, of n] by auto
qed

lemma um_header_roundtrip_parts:
  assumes "um_header_ok h"
  shows "rlc_um_read_data_pdu_header (rlc_um_write_data_pdu_header h @ payload) (uh_sn_size h) =
    Some (if uh_si h = Full_sdu then h\<lparr>uh_sn := 0\<rparr> else h)"
proof -
  define so where "so = (if uh_so h \<noteq> 0 then [ucast (drop_bit 8 (uh_so h)), ucast (uh_so h AND mask 8)] else [] :: bytes)"
  have so_ok: "uh_si h = Last_segment \<or> uh_si h = Middle_segment \<longleftrightarrow> uh_so h \<noteq> 0" using assms by (auto simp: um_header_ok_def)
  have read_so: "uh_so h \<noteq> 0 \<Longrightarrow> read_so (so @ payload) = Some (uh_so h)"
    unfolding so_def read_so_def byte_masks by (simp only: if_True append.simps list.case read_so_bytes not_False_eq_True)
  have six: "(0x3f :: 'a::len word) = mask 6" by (simp add: mask_eq_exp_minus_1)
  have eq: "\<lparr>uh_si = uh_si h, uh_sn_size = uh_sn_size h, uh_sn = uh_sn h, uh_so = x\<rparr> = h" if "x = uh_so h" for x
    using that by simp
  let ?b = "\<lambda>f. push_bit 6 (si_to_number (uh_si h) AND mask 2) OR f"
  consider "uh_si h = Full_sdu" | (seg6) "uh_si h \<noteq> Full_sdu" "uh_sn_size h = Um6" | (seg12) "uh_si h \<noteq> Full_sdu" "uh_sn_size h = Um12"
    by (cases "uh_sn_size h") auto
  then show ?thesis
  proof cases
    case 1
    then have w: "rlc_um_write_data_pdu_header h = [0]" by (simp add: rlc_um_write_data_pdu_header_def si_to_number_def)
    have "uh_so h = 0" using 1 so_ok by simp
    then have "h\<lparr>uh_sn := 0\<rparr> = \<lparr>uh_si = Full_sdu, uh_sn_size = uh_sn_size h, uh_sn = 0, uh_so = 0\<rparr>" using 1 by (cases h) simp
    then show ?thesis
      unfolding w using 1 by (cases "uh_sn_size h") (simp_all add: rlc_um_read_data_pdu_header_def read_um_sn_def si_of_number_def)
  next
    case seg6
    define f :: u8 where "f = ucast (uh_sn h AND mask 6)"
    have f: "\<forall>n \<ge> 6. \<not> bit f n" by (simp add: f_def bit_simps)
    have b: "unat (uh_sn h) < 2 ^ 6" using assms seg6 by (simp add: um_header_ok_def)
    have w: "rlc_um_write_data_pdu_header h = [?b f] @ so"
      using seg6 by (simp add: rlc_um_write_data_pdu_header_def so_def f_def byte_masks six)
    have sn: "ucast (?b f AND mask 6) = uh_sn h"
      unfolding um_first_byte(2) [OF f order.refl] unfolding f_def by (rule um_sn_6 [OF b])
    have "read_um_sn Um6 (uh_si h) (rlc_um_write_data_pdu_header h @ payload) = Some (uh_sn h, so @ payload)"
      unfolding w read_um_sn_def six append.simps list.sel
      by (simp only: Let_def rlc_um_sn_size.case seg6 simp_thms if_False sn append.simps)
    then show ?thesis
      using read_so so_ok seg6 unfolding rlc_um_read_data_pdu_header_def seg6 byte_masks w append.simps list.sel um_first_byte(1) [OF f]
      by (auto simp: Let_def seg6(2) [symmetric] eq)
  next
    case seg12
    define f :: u8 where "f = ucast (drop_bit 8 (uh_sn h) AND mask 4)"
    have f: "\<forall>n \<ge> 6. \<not> bit f n" "\<forall>n \<ge> 4. \<not> bit f n" by (simp_all add: f_def bit_simps)
    have b: "unat (uh_sn h) < 2 ^ 12" using assms seg12 by (simp add: um_header_ok_def)
    have w: "rlc_um_write_data_pdu_header h = [?b f, ucast (uh_sn h AND mask 8)] @ so"
      using seg12 by (simp add: rlc_um_write_data_pdu_header_def so_def f_def byte_masks)
    have "?b f AND mask 4 = f AND mask 4" by (rule um_first_byte(2) [OF f(1)]) simp
    then have sn: "push_bit 8 (ucast (?b f AND mask 4)) OR (ucast (ucast (uh_sn h AND mask 8) :: u8) AND mask 8) = uh_sn h"
      using um_sn_12 [OF b] by (simp only: f_def)
    have "read_um_sn Um12 (uh_si h) (rlc_um_write_data_pdu_header h @ payload) = Some (uh_sn h, so @ payload)"
      unfolding w read_um_sn_def byte_masks append.simps list.sel um_first_byte(3) [OF f]
      by (simp only: Let_def rlc_um_sn_size.case seg12 simp_thms if_False if_True list.case sn)
    then show ?thesis
      using read_so so_ok seg12 unfolding rlc_um_read_data_pdu_header_def seg12 byte_masks w append.simps list.sel um_first_byte(1) [OF f(1)]
      by (auto simp: Let_def seg12(2) [symmetric] eq)
  qed
qed

end
