(* ===== verification/Rlc_Tx_Um.thy ===== *)
theory Rlc_Tx_Um
  imports Rlc_Um_Pdu Rlc_Tx_Am
begin

text \<open>
  The transmitting entity of the unacknowledged mode, \<open>lib/rlc/rlc_tx_um_entity.h\<close> and
  \<open>rlc_tx_um_entity.cpp\<close>. The environment, the events and the tasks of the cell executor are those of
  the acknowledged mode (\<open>Rlc_Tx_Am\<close>). Releasing the buffer of a sent SDU, on whichever executor, leaves
  the entity with an empty buffer. Logging and packet capture are left out.
\<close>

section \<open>State\<close>

record rlc_tx_um_config =
  tuc_sn_field_length :: rlc_um_sn_size
  tuc_pdcp_sn_len :: pdcp_sn_size
  tuc_queue_size :: u32
  tuc_queue_size_bytes :: u32

record rlc_tx_um_entity =
  tu_cfg :: rlc_tx_um_config
  tu_tx_next :: u32
  tu_sdu_queue :: rlc_sdu_queue
  tu_sdu :: rlc_sdu
  tu_next_so :: u32
  tu_prev_buffer_state :: rlc_buffer_state
  tu_suspend_barring :: bool
  tu_pending_buffer_state :: bool
  tu_stopped :: bool
  tu_metrics_high :: rlc_tx_metrics_high
  tu_metrics_low :: rlc_tx_metrics_low
  tu_events :: "rlc_tx_event list"
  tu_pcell_tasks :: "pcell_task list"

definition rlc_sdu_init :: rlc_sdu where
  "rlc_sdu_init = \<lparr>sdu_buf = [], sdu_is_retx = False, sdu_pdcp_sn = None, sdu_toa = 0\<rparr>"

abbreviation tu_size :: "rlc_tx_um_entity \<Rightarrow> rlc_um_sn_size" where
  "tu_size s \<equiv> tuc_sn_field_length (tu_cfg s)"

definition tu_mod_of :: "rlc_um_sn_size \<Rightarrow> u32" where
  "tu_mod_of z = cardinality (um_sn_size_to_number z)"

definition rlc_tx_um_create :: "rlc_tx_um_config \<Rightarrow> bool \<Rightarrow> rlc_tx_um_entity run" where
  "rlc_tx_um_create cfg metrics_enabled =
     (if tuc_pdcp_sn_len cfg \<noteq> Size12bits \<and> tuc_pdcp_sn_len cfg \<noteq> Size18bits then Inl Bad_argument
      else Inr \<lparr>tu_cfg = cfg, tu_tx_next = 0, tu_sdu_queue = sq_create (tuc_queue_size cfg) (tuc_queue_size_bytes cfg),
        tu_sdu = rlc_sdu_init, tu_next_so = 0, tu_prev_buffer_state = bs_init, tu_suspend_barring = True,
        tu_pending_buffer_state = False, tu_stopped = False, tu_metrics_high = rth_create metrics_enabled,
        tu_metrics_low = rtl_set_mode Mode_um_bidir (rtl_create metrics_enabled), tu_events = [], tu_pcell_tasks = []\<rparr>)"

definition tu_emit :: "rlc_tx_event \<Rightarrow> rlc_tx_um_entity \<Rightarrow> rlc_tx_um_entity" where
  "tu_emit ev s = s\<lparr>tu_events := tu_events s @ [ev]\<rparr>"

definition tu_pcell_defer :: "tx_am_env \<Rightarrow> pcell_task \<Rightarrow> rlc_tx_um_entity \<Rightarrow> rlc_tx_um_entity" where
  "tu_pcell_defer env t s = (if te_pcell_ok env then s\<lparr>tu_pcell_tasks := tu_pcell_tasks s @ [t]\<rparr> else s)"

definition tx_um_stop :: "tx_am_env \<Rightarrow> rlc_tx_um_entity \<Rightarrow> rlc_tx_um_entity" where
  "tx_um_stop env s =
     (if tu_stopped s then s else (tu_pcell_defer env Stop_lower_task s)\<lparr>tu_stopped := True\<rparr>)"

section \<open>The buffer state\<close>

definition tu_get_buffer_state :: "rlc_tx_um_entity \<Rightarrow> rlc_buffer_state \<times> rlc_tx_um_entity" where
  "tu_get_buffer_state s =
     (let (n_sdus, n_bytes) = sq_get_state (tu_sdu_queue s);
          queue_bytes = n_bytes + n_sdus * of_nat rlc_um_pdu_header_size_complete_sdu;
          (segment_bytes, hol_toa, s) =
            (if sdu_buf (tu_sdu s) \<noteq> []
             then (of_nat (length (sdu_buf (tu_sdu s))) - tu_next_so s + of_nat (rlc_um_pdu_header_size_with_so (tu_size s)),
                   Some (sdu_toa (tu_sdu s)), s)
             else
               let (next_sdu, q) = sq_front (tu_sdu_queue s) in
               (0, map_option sdu_toa next_sdu, s\<lparr>tu_sdu_queue := q\<rparr>));
          pending = queue_bytes + segment_bytes in
      (\<lparr>bs_pending_bytes = pending, bs_hol_toa = hol_toa\<rparr>,
       if unat pending \<le> max_dl_pdu_length then s\<lparr>tu_suspend_barring := True\<rparr> else s))"

definition tu_update_mac_buffer_state :: "rlc_tx_um_entity \<Rightarrow> rlc_tx_um_entity" where
  "tu_update_mac_buffer_state s =
     (let (bs, s) = tu_get_buffer_state (s\<lparr>tu_pending_buffer_state := False\<rparr>);
          s = (if unat (bs_pending_bytes bs) \<le> max_dl_pdu_length \<or>
                  unat (bs_pending_bytes (tu_prev_buffer_state s)) \<le> max_dl_pdu_length \<or> tu_suspend_barring s
               then tu_emit (Rlc_buffer_state bs) (s\<lparr>tu_suspend_barring := False\<rparr>) else s) in
      s\<lparr>tu_prev_buffer_state := bs\<rparr>)"

definition tu_handle_changed_buffer_state :: "tx_am_env \<Rightarrow> rlc_tx_um_entity \<Rightarrow> rlc_tx_um_entity" where
  "tu_handle_changed_buffer_state env s =
     (if tu_pending_buffer_state s then s
      else tu_pcell_defer env Update_buffer_state_task (s\<lparr>tu_pending_buffer_state := True\<rparr>))"

section \<open>SDUs from the upper layer\<close>

definition tx_um_handle_sdu :: "tx_am_env \<Rightarrow> bytes \<Rightarrow> bool \<Rightarrow> rlc_tx_um_entity \<Rightarrow> rlc_tx_um_entity" where
  "tx_um_handle_sdu env buf is_retx s =
     (let sdu = \<lparr>sdu_buf = buf, sdu_is_retx = False,
                 sdu_pdcp_sn = get_pdcp_sn buf (tuc_pdcp_sn_len (tu_cfg s)) False, sdu_toa = te_now env\<rparr>;
          (ok, q) = sq_write sdu (tu_sdu_queue s);
          s = s\<lparr>tu_sdu_queue := q\<rparr> in
      if ok then tu_handle_changed_buffer_state env (s\<lparr>tu_metrics_high := rth_add_sdus 1 (length buf) (tu_metrics_high s)\<rparr>)
      else s\<lparr>tu_metrics_high := rth_add_lost_sdus 1 (tu_metrics_high s)\<rparr>)"

definition tx_um_discard_sdu :: "tx_am_env \<Rightarrow> u32 \<Rightarrow> rlc_tx_um_entity \<Rightarrow> rlc_tx_um_entity" where
  "tx_um_discard_sdu env pdcp_sn s =
     (let (ok, q) = sq_try_discard pdcp_sn (tu_sdu_queue s);
          s = s\<lparr>tu_sdu_queue := q\<rparr> in
      if ok then tu_handle_changed_buffer_state env (s\<lparr>tu_metrics_high := rth_add_discard 1 (tu_metrics_high s)\<rparr>)
      else s\<lparr>tu_metrics_high := rth_add_discard_failure 1 (tu_metrics_high s)\<rparr>)"

section \<open>Pulling PDUs\<close>

text \<open>
  \<open>sdu_queue.read(sdu)\<close>, where \<open>sdu\<close> is the entity's current SDU: every element that is popped is
  written to it, also one that then turns out to be discarded.
\<close>

fun read_into :: "rlc_sdu list \<Rightarrow> rlc_sdu \<Rightarrow> rlc_sdu_queue \<Rightarrow> bool \<times> rlc_sdu \<times> rlc_sdu_queue" where
  "read_into [] sdu q = (False, sdu, q\<lparr>sq_queue := []\<rparr>)"
| "read_into (front # rest) sdu q =
     (let q = q\<lparr>sq_queue := rest\<rparr> in
      case sdu_pdcp_sn front of
        None \<Rightarrow> (True, front, state_sub (of_nat (length (sdu_buf front))) q)
      | Some sn \<Rightarrow>
          (let (sdu_is_valid, q) = check_and_release sn q in
           if sdu_is_valid then (True, front, q) else read_into rest front q))"

definition get_si_and_expected_header_size :: "rlc_um_sn_size \<Rightarrow> u32 \<Rightarrow> u32 \<Rightarrow> u32 \<Rightarrow> (rlc_si_field \<times> nat) option" where
  "get_si_and_expected_header_size z so sdu_len grant_len =
     (let head_len_full = rlc_um_pdu_header_size_complete_sdu;
          head_len_first = rlc_um_pdu_header_size_no_so z;
          head_len_not_first = rlc_um_pdu_header_size_with_so z in
      if so = 0 then
        if sdu_len \<le> grant_len - of_nat head_len_full then Some (Full_sdu, head_len_full)
        else if grant_len \<le> of_nat head_len_first then None
        else Some (First_segment, head_len_first)
      else if grant_len \<le> of_nat head_len_not_first then None
      else if sdu_len - so \<le> grant_len - of_nat head_len_not_first then Some (Last_segment, head_len_not_first)
      else Some (Middle_segment, head_len_not_first))"

text \<open>What follows once a PDU of \<open>pdu_size\<close> bytes, \<open>payload_len\<close> of them from the SDU, is assembled.\<close>

definition tu_sent :: "tx_am_env \<Rightarrow> rlc_si_field \<Rightarrow> u32 \<Rightarrow> nat \<Rightarrow> rlc_tx_um_entity \<Rightarrow> rlc_tx_um_entity run" where
  "tu_sent env si payload_len pdu_size s =
     (let s = (if si = Full_sdu \<or> si = Last_segment
               then s\<lparr>tu_sdu := (tu_sdu s)\<lparr>sdu_buf := []\<rparr>, tu_next_so := 0,
                      tu_metrics_low := rtl_add_pulled_sdus 1 (rtl_add_sdu_latency_us (te_sdu_latency env) (tu_metrics_low s))\<rparr>
               else s\<lparr>tu_next_so := tu_next_so s + payload_len\<rparr>);
          s = (if si = Last_segment then s\<lparr>tu_tx_next := (tu_tx_next s + 1) mod tu_mod_of (tu_size s)\<rparr> else s) in
      seq_run (if si = Full_sdu then Inr (rtl_add_pdus_no_segmentation 1 pdu_size (tu_metrics_low s))
               else rtl_add_pdus_with_segmentation_um 1 pdu_size (tu_metrics_low s)) (\<lambda>m.
      Inr (s\<lparr>tu_metrics_low := rtl_add_pdu_latency_ns (te_pdu_latency env) m\<rparr>)))"

definition tu_build_pdu :: "tx_am_env \<Rightarrow> u32 \<Rightarrow> rlc_tx_um_entity \<Rightarrow> (bytes \<times> rlc_tx_um_entity) run" where
  "tu_build_pdu env grant_len s =
     (let sdu_len = of_nat (length (sdu_buf (tu_sdu s))) in
      case get_si_and_expected_header_size (tu_size s) (tu_next_so s) sdu_len grant_len of
        None \<Rightarrow> Inr ([], s)
      | Some (si, expected_hdr_len) \<Rightarrow>
          (let header = rlc_um_write_data_pdu_header
                          \<lparr>uh_si = si, uh_sn_size = tu_size s, uh_sn = ucast (tu_tx_next s), uh_so = ucast (tu_next_so s)\<rparr>;
               space = grant_len - of_nat (length header);
               payload_len = (if sdu_len - tu_next_so s \<le> space then sdu_len - tu_next_so s else space);
               payload = take (unat grant_len - length header) (take (unat payload_len) (drop (unat (tu_next_so s)) (sdu_buf (tu_sdu s)))) in
           if payload = [] \<or> length payload \<noteq> unat payload_len then Inr ([], s)
           else seq_run (tu_sent env si payload_len (length header + length payload) s) (\<lambda>s. Inr (header @ payload, s))))"

definition tu_notify_transfer :: "rlc_tx_um_entity \<Rightarrow> rlc_tx_um_entity" where
  "tu_notify_transfer s =
     (case sdu_pdcp_sn (tu_sdu s) of
        None \<Rightarrow> s
      | Some pdcp_sn \<Rightarrow> tu_emit (Rlc_transmitted pdcp_sn (tuc_queue_size_bytes (tu_cfg s))) s)"

definition tx_um_pull_pdu :: "tx_am_env \<Rightarrow> u32 \<Rightarrow> rlc_tx_um_entity \<Rightarrow> (bytes \<times> rlc_tx_um_entity) run" where
  "tx_um_pull_pdu env grant_len s =
     (if grant_len \<le> of_nat rlc_um_pdu_header_size_complete_sdu then Inr ([], s)
      else if sdu_buf (tu_sdu s) = [] then
        if tu_next_so s \<noteq> 0 then Inl Bad_argument
        else
          let (ok, sdu, q) = read_into (sq_queue (tu_sdu_queue s)) (tu_sdu s) (tu_sdu_queue s);
              s = s\<lparr>tu_sdu := sdu, tu_sdu_queue := q\<rparr> in
          if \<not> ok then Inr ([], s) else tu_build_pdu env grant_len (tu_notify_transfer s)
      else tu_build_pdu env grant_len s)"

text \<open>A task of the cell executor. Stopping the lower timers only concerns the metrics timer.\<close>

fun tu_run_pcell_task :: "pcell_task \<Rightarrow> rlc_tx_um_entity \<Rightarrow> rlc_tx_um_entity" where
  "tu_run_pcell_task Update_buffer_state_task s = tu_update_mac_buffer_state s"
| "tu_run_pcell_task _ s = s"

end
