(* ===== verification/Rlc_Tx_Um_Inv.thy ===== *)
theory Rlc_Tx_Um_Inv
  imports Rlc_Tx_Um
begin

text \<open>
  What the operations of the unacknowledged transmitter do: the invariant of its state, and a pull in
  terms of the bytes of the current SDU.
\<close>

section \<open>Reading into the current SDU\<close>

lemma check_and_release_queue: "check_and_release sn q = (valid, q') \<Longrightarrow> sq_queue q' = sq_queue q"
  by (auto simp: check_and_release_def state_sub_def Let_def split: if_splits)

lemma read_into_spec:
  assumes "read_into xs sdu q = (ok, sdu', q')"
  shows "read_from xs q = (if ok then Some sdu' else None, q')"
    and "\<not> ok \<Longrightarrow> sq_queue q' = [] \<and> sdu' = last (sdu # xs)"
  using assms
proof (induction xs sdu q arbitrary: ok sdu' q' rule: read_into.induct)
  case (1 sdu q)
  { case 1 then show ?case by auto next case 2 then show ?case by auto }
next
  case (2 front rest sdu q)
  let ?q = "q\<lparr>sq_queue := rest\<rparr>"
  show goals: "read_from (front # rest) q = (if ok then Some sdu' else None, q')"
    if r: "read_into (front # rest) sdu q = (ok, sdu', q')" for ok sdu' q'
  proof (cases "sdu_pdcp_sn front")
    case None
    then show ?thesis using r by auto
  next
    case (Some sn)
    obtain valid q1 where c: "check_and_release sn ?q = (valid, q1)" by force
    then show ?thesis using r Some 2(1) [OF refl Some c [symmetric] refl] by (cases valid) auto
  qed
  show "sq_queue q' = [] \<and> sdu' = last (sdu # front # rest)" if r: "\<not> ok" "read_into (front # rest) sdu q = (ok, sdu', q')" for ok sdu' q'
  proof (cases "sdu_pdcp_sn front")
    case None
    then show ?thesis using r by auto
  next
    case (Some sn)
    obtain valid q1 where c: "check_and_release sn ?q = (valid, q1)" by force
    then show ?thesis using r Some 2(2) [OF refl Some c [symmetric] refl] by (cases valid) auto
  qed
qed

section \<open>The segment that fits\<close>

lemma um_header_sizes [simp]:
  "rlc_um_pdu_header_size_complete_sdu = 1"
  "rlc_um_pdu_header_size_no_so Um6 = 1" "rlc_um_pdu_header_size_no_so Um12 = 2"
  "rlc_um_pdu_header_size_with_so Um6 = 3" "rlc_um_pdu_header_size_with_so Um12 = 4"
  by (simp_all add: rlc_um_pdu_header_size_complete_sdu_def rlc_um_pdu_header_size_no_so_def rlc_um_pdu_header_size_with_so_def)

lemma unat_len32: "len \<le> 2 ^ 16 \<Longrightarrow> unat (of_nat len :: u32) = len"
  by (simp add: unsigned_of_nat take_bit_eq_mod)

lemma get_si_nat:
  assumes "len \<le> 2 ^ 16" and "unat so = 0 \<or> unat so < len" and "1 < unat grant"
  shows "get_si_and_expected_header_size z so (of_nat len) grant =
    (if unat so = 0 then
       if len + 1 \<le> unat grant then Some (Full_sdu, 1)
       else if unat grant \<le> rlc_um_pdu_header_size_no_so z then None else Some (First_segment, rlc_um_pdu_header_size_no_so z)
     else if unat grant \<le> rlc_um_pdu_header_size_with_so z then None
     else if len - unat so + rlc_um_pdu_header_size_with_so z \<le> unat grant then Some (Last_segment, rlc_um_pdu_header_size_with_so z)
     else Some (Middle_segment, rlc_um_pdu_header_size_with_so z))"
proof -
  note len = unat_len32 [OF assms(1)]
  have so: "so = 0 \<longleftrightarrow> unat so = 0" by (simp add: unsigned_eq_0_iff)
  have sub: "unat (grant - k) = unat grant - unat k" if "unat k \<le> unat grant" for k
    using that by (simp add: unat_sub word_le_nat_alt)
  have rest: "unat (of_nat len - so) = len - unat so" if "unat so < len"
    using that len by (simp add: unat_sub word_le_nat_alt)
  show ?thesis
  proof (cases "unat so = 0")
    case True
    then show ?thesis
      using assms(3) by (cases z) (auto simp: get_si_and_expected_header_size_def so word_le_nat_alt len sub)
  next
    case False
    then show ?thesis
      using assms(2) rest by (cases z) (auto simp: get_si_and_expected_header_size_def so word_le_nat_alt sub)
  qed
qed

section \<open>The invariant\<close>

definition um_tx_metrics_ok :: "rlc_tx_metrics_low \<Rightarrow> bool" where
  "um_tx_metrics_ok m \<longleftrightarrow> (rtl_enabled m \<longrightarrow> (\<exists>a b. rtl_mode_specific m = Um_tx_metrics a b))"

lemma um_tx_metrics_ok_add [simp]:
  "um_tx_metrics_ok (rtl_add_pdus_no_segmentation n len m) = um_tx_metrics_ok m"
  "um_tx_metrics_ok (rtl_add_pulled_sdus n m) = um_tx_metrics_ok m"
  "um_tx_metrics_ok (rtl_add_sdu_latency_us n m) = um_tx_metrics_ok m"
  "um_tx_metrics_ok (rtl_add_pdu_latency_ns n m) = um_tx_metrics_ok m"
  by (simp_all add: um_tx_metrics_ok_def rtl_add_pdus_no_segmentation_def rtl_add_pulled_sdus_def
      rtl_add_sdu_latency_us_def rtl_add_pdu_latency_ns_def Let_def)

text \<open>
  The current SDU, if it was started, has bytes left; offsets fit the SO field.
\<close>

definition txum_inv :: "rlc_tx_um_entity \<Rightarrow> bool" where
  "txum_inv s \<longleftrightarrow> sq_ok (tu_sdu_queue s) \<and> (\<forall>x \<in> set (sq_queue (tu_sdu_queue s)). length (sdu_buf x) \<le> 2 ^ 16) \<and>
     length (sdu_buf (tu_sdu s)) \<le> 2 ^ 16 \<and> (unat (tu_next_so s) = 0 \<or> unat (tu_next_so s) < length (sdu_buf (tu_sdu s))) \<and>
     unat (tu_tx_next s) < unat (tu_mod_of (tu_size s)) \<and> um_tx_metrics_ok (tu_metrics_low s)"

text \<open>
  A PDU is built from state \<open>s\<close>, in a grant, with a header and payload: the next bytes of the current SDU, as
  many as fit.
\<close>

definition tu_builds :: "rlc_tx_um_entity \<Rightarrow> nat \<Rightarrow> rlc_um_pdu_header \<Rightarrow> bytes \<Rightarrow> rlc_tx_um_entity \<Rightarrow> bool" where
  "tu_builds s grant h payload s' \<longleftrightarrow>
     (let buf = sdu_buf (tu_sdu s); so = unat (tu_next_so s); complete = (so + length payload = length buf) in
      um_header_ok h \<and> uh_sn_size h = tu_size s \<and> uh_sn h = ucast (tu_tx_next s) \<and> unat (uh_so h) = so \<and>
      (uh_si h = Full_sdu \<or> uh_si h = Last_segment \<longleftrightarrow> complete) \<and> (uh_si h = Full_sdu \<or> uh_si h = First_segment \<longleftrightarrow> so = 0) \<and>
      payload \<noteq> [] \<and> payload = take (length payload) (drop so buf) \<and> so + length payload \<le> length buf \<and>
      rlc_um_nr_packed_length h + length payload \<le> grant \<and> (complete \<or> rlc_um_nr_packed_length h + length payload = grant) \<and>
      tu_cfg s' = tu_cfg s \<and> tu_sdu_queue s' = tu_sdu_queue s \<and> tu_events s' = tu_events s \<and> tu_pcell_tasks s' = tu_pcell_tasks s \<and>
      tu_sdu s' = (if complete then (tu_sdu s)\<lparr>sdu_buf := []\<rparr> else tu_sdu s) \<and>
      unat (tu_next_so s') = (if complete then 0 else so + length payload) \<and>
      tu_tx_next s' = (if uh_si h = Last_segment then (tu_tx_next s + 1) mod tu_mod_of (tu_size s) else tu_tx_next s) \<and>
      um_tx_metrics_ok (tu_metrics_low s'))"

lemma tu_sent_ok:
  assumes "um_tx_metrics_ok (tu_metrics_low s)"
  obtains m where "um_tx_metrics_ok m" and "tu_sent env si payload_len n s =
    Inr (s\<lparr>tu_sdu := (if si = Full_sdu \<or> si = Last_segment then (tu_sdu s)\<lparr>sdu_buf := []\<rparr> else tu_sdu s),
      tu_next_so := (if si = Full_sdu \<or> si = Last_segment then 0 else tu_next_so s + payload_len),
      tu_tx_next := (if si = Last_segment then (tu_tx_next s + 1) mod tu_mod_of (tu_size s) else tu_tx_next s), tu_metrics_low := m\<rparr>)"
proof -
  have seg: "\<exists>m'. rtl_add_pdus_with_segmentation_um 1 n m = Inr m' \<and> um_tx_metrics_ok m'" if "um_tx_metrics_ok m" for m
    using that by (auto simp: um_tx_metrics_ok_def rtl_add_pdus_with_segmentation_um_def)
  define m1 where "m1 = (if si = Full_sdu \<or> si = Last_segment
    then rtl_add_pulled_sdus 1 (rtl_add_sdu_latency_us (te_sdu_latency env) (tu_metrics_low s)) else tu_metrics_low s)"
  have m1: "um_tx_metrics_ok m1" using assms by (simp add: m1_def)
  obtain m2 where m2: "(if si = Full_sdu then Inr (rtl_add_pdus_no_segmentation 1 n m1) else rtl_add_pdus_with_segmentation_um 1 n m1) = Inr m2"
    "um_tx_metrics_ok m2"
    using seg [OF m1] m1 by (cases "si = Full_sdu") auto
  show ?thesis
    by (rule that [of "rtl_add_pdu_latency_ns (te_pdu_latency env) m2"])
      (use m2 in \<open>cases si; simp add: tu_sent_def m1_def Let_def\<close>)+
qed

lemma tu_build_fits:
  assumes inv: "txum_inv s" and buf: "sdu_buf (tu_sdu s) \<noteq> []"
    and si: "get_si_and_expected_header_size (tu_size s) (tu_next_so s) (of_nat (length (sdu_buf (tu_sdu s)))) grant = Some (si, hl)"
    and hl: "hl < unat grant" "rlc_um_nr_packed_length h = hl"
    and h: "h = \<lparr>uh_si = si, uh_sn_size = tu_size s, uh_sn = ucast (tu_tx_next s), uh_so = ucast (tu_next_so s)\<rparr>" "um_header_ok h"
    and fit: "si = Full_sdu \<or> si = Last_segment \<longleftrightarrow> length (sdu_buf (tu_sdu s)) - unat (tu_next_so s) + hl \<le> unat grant"
      "si = Full_sdu \<or> si = First_segment \<longleftrightarrow> unat (tu_next_so s) = 0"
  shows "\<exists>payload s'. tu_build_pdu env grant s = Inr (rlc_um_write_data_pdu_header h @ payload, s') \<and> tu_builds s (unat grant) h payload s'"
proof -
  let ?buf = "sdu_buf (tu_sdu s)" and ?so = "unat (tu_next_so s)"
  let ?len = "length ?buf"
  define n where "n = min (?len - ?so) (unat grant - hl)"
  have so: "?so < ?len" and len: "?len \<le> 2 ^ 16" using inv buf by (auto simp: txum_inv_def)
  have n: "0 < n" "?so + n \<le> ?len" "n \<le> unat grant - hl" using so hl(1) by (auto simp: n_def)
  have complete: "?so + n = ?len \<longleftrightarrow> si = Full_sdu \<or> si = Last_segment" using fit(1) so hl(1) by (auto simp: n_def)
  have full: "si = Full_sdu \<or> si = Last_segment \<or> n = unat grant - hl" using fit(1) so hl(1) by (auto simp: n_def)
  have wl: "length (rlc_um_write_data_pdu_header h) = hl" using hl(2) by (simp add: um_write_length)
  have hl32: "unat (of_nat hl :: u32) = hl"
  proof -
    have "hl < 2 ^ 32" by (rule less_le_trans [OF less_trans [OF hl(1) unsigned_less]]) simp
    then show ?thesis by (simp add: unsigned_of_nat take_bit_eq_mod)
  qed
  have space: "unat (grant - of_nat hl) = unat grant - hl" using hl(1) hl32 by (simp add: unat_sub word_le_nat_alt)
  have rest: "unat (of_nat ?len - tu_next_so s) = ?len - ?so" using so unat_len32 [OF len] by (simp add: unat_sub word_le_nat_alt)
  define k :: u32 where "k = (if of_nat ?len - tu_next_so s \<le> grant - of_nat hl then of_nat ?len - tu_next_so s else grant - of_nat hl)"
  have k: "unat k = n" using space rest by (auto simp: k_def n_def word_le_nat_alt)
  let ?p = "take n (drop ?so ?buf)"
  have p: "length ?p = n" "take (unat grant - hl) ?p = ?p" "?p \<noteq> []" using n by auto
  obtain m where m: "um_tx_metrics_ok m" and sent: "tu_sent env si k (hl + n) s =
    Inr (s\<lparr>tu_sdu := (if si = Full_sdu \<or> si = Last_segment then (tu_sdu s)\<lparr>sdu_buf := []\<rparr> else tu_sdu s),
      tu_next_so := (if si = Full_sdu \<or> si = Last_segment then 0 else tu_next_so s + k),
      tu_tx_next := (if si = Last_segment then (tu_tx_next s + 1) mod tu_mod_of (tu_size s) else tu_tx_next s), tu_metrics_low := m\<rparr>)"
    (is "_ = Inr ?s'")
    by (rule tu_sent_ok [of s env si k "hl + n"]) (use inv in \<open>simp add: txum_inv_def\<close>, rule that)
  have b: "tu_build_pdu env grant s = Inr (rlc_um_write_data_pdu_header h @ ?p, ?s')"
    unfolding tu_build_pdu_def Let_def si option.case prod.case h(1) [symmetric] wl k_def [symmetric] k p(2)
    using p sent by (simp add: wl)
  have so16: "unat (uh_so h) = ?so"
  proof -
    have "?so < 2 ^ 16" using so len by linarith
    then show ?thesis by (simp add: h unsigned_ucast_eq take_bit_eq_mod)
  qed
  have add: "unat (tu_next_so s + k) = ?so + n"
    using n(2) len k by (simp add: unat_word_ariths)
  have "tu_builds s (unat grant) h ?p ?s'"
    unfolding tu_builds_def Let_def p(1)
    using h so16 fit(2) complete n full hl p(3) m add complete by (auto simp del: length_take length_drop)
  then show ?thesis using b by blast
qed

lemma tu_build_pdu_ok:
  assumes inv: "txum_inv s" and buf: "sdu_buf (tu_sdu s) \<noteq> []" and grant: "1 < unat grant"
  shows "tu_build_pdu env grant s = Inr ([], s) \<and> unat grant \<le> rlc_um_pdu_header_size_with_so (tu_size s) \<or>
    (\<exists>h payload s'. tu_build_pdu env grant s = Inr (rlc_um_write_data_pdu_header h @ payload, s') \<and> tu_builds s (unat grant) h payload s')"
proof (cases "get_si_and_expected_header_size (tu_size s) (tu_next_so s) (of_nat (length (sdu_buf (tu_sdu s)))) grant")
  let ?z = "tu_size s" and ?len = "length (sdu_buf (tu_sdu s))" and ?so = "unat (tu_next_so s)"
  have so: "?so < ?len" and len: "?len \<le> 2 ^ 16" and sn: "unat (tu_tx_next s) < unat (tu_mod_of ?z)" using inv buf by (auto simp: txum_inv_def)
  then have so_or: "?so = 0 \<or> ?so < ?len" by simp
  note si = get_si_nat [OF len so_or grant, of ?z]
  {
    case None
    then have "unat grant \<le> rlc_um_pdu_header_size_with_so ?z"
      unfolding si by (cases ?z) (auto split: if_splits)
    then show ?thesis using None by (simp add: tu_build_pdu_def Let_def)
  next
    case (Some x)
    obtain f hl where x: "x = (f, hl)" by force
    let ?h = "\<lparr>uh_si = f, uh_sn_size = ?z, uh_sn = ucast (tu_tx_next s), uh_so = ucast (tu_next_so s)\<rparr>"
    have sn16: "unat (ucast (tu_tx_next s) :: u16) < 2 ^ um_bits ?z"
      using sn by (cases ?z) (simp_all add: unsigned_ucast_eq take_bit_eq_mod tu_mod_of_def)
    have "?so < 2 ^ 16" using so len by linarith
    then have so16: "(ucast (tu_next_so s) :: u16) = 0 \<longleftrightarrow> ?so = 0"
      by (simp add: word_unat_eq_iff unsigned_ucast_eq take_bit_eq_mod)
    have e: "Some (f, hl) = (if ?so = 0 then
         if ?len + 1 \<le> unat grant then Some (Full_sdu, 1)
         else if unat grant \<le> rlc_um_pdu_header_size_no_so ?z then None else Some (First_segment, rlc_um_pdu_header_size_no_so ?z)
       else if unat grant \<le> rlc_um_pdu_header_size_with_so ?z then None
       else if ?len - ?so + rlc_um_pdu_header_size_with_so ?z \<le> unat grant then Some (Last_segment, rlc_um_pdu_header_size_with_so ?z)
       else Some (Middle_segment, rlc_um_pdu_header_size_with_so ?z))"
      using Some unfolding si x by simp
    have c: "(f = Full_sdu \<or> f = First_segment \<longleftrightarrow> ?so = 0) \<and> hl < unat grant \<and> (f = Full_sdu \<or> f = Last_segment \<longleftrightarrow> ?len - ?so + hl \<le> unat grant) \<and>
       hl = (case f of Full_sdu \<Rightarrow> 1 | First_segment \<Rightarrow> rlc_um_pdu_header_size_no_so ?z | _ \<Rightarrow> rlc_um_pdu_header_size_with_so ?z)"
      using e grant by (cases ?z) (auto split: if_splits)
    have ok: "um_header_ok ?h"
      using c sn16 so16 by (cases f) (simp_all add: um_header_ok_def)
    have pl: "rlc_um_nr_packed_length ?h = hl" using um_packed_length [OF ok] c by (cases f) simp_all
    have "\<exists>payload s'. tu_build_pdu env grant s = Inr (rlc_um_write_data_pdu_header ?h @ payload, s') \<and> tu_builds s (unat grant) ?h payload s'"
      by (rule tu_build_fits [OF inv buf Some [unfolded x] _ pl refl ok]) (use c in blast)+
    then show ?thesis by blast
  }
qed

end
