(* ===== verification/Rlc_Tx_Um_Steps.thy ===== *)
theory Rlc_Tx_Um_Steps
  imports Rlc_Tx_Um_Inv Rlc_Tx_Am_Window "HOL-Library.Sublist"
begin

text \<open>
  All operations of the unacknowledged transmitter: they keep the invariant, and they neither invent
  nor copy SDUs.
\<close>

section \<open>What the queue holds\<close>

text \<open>The buffers of the current SDU and in the queue, those of discarded SDUs included, in the order in which they go out.\<close>

definition tu_line :: "rlc_tx_um_entity \<Rightarrow> bytes list" where
  "tu_line s = (if sdu_buf (tu_sdu s) = [] then [] else [sdu_buf (tu_sdu s)]) @ map sdu_buf (sq_queue (tu_sdu_queue s))"

lemma front_from_order:
  "sq_queue q = xs \<Longrightarrow> subseq (sq_queue (snd (front_from xs q))) xs"
proof (induction xs q rule: front_from.induct)
  case (1 q)
  then show ?case by simp
next
  case (2 sdu rest q)
  show ?case
  proof (cases "\<exists>sn. sdu_pdcp_sn sdu = Some sn \<and> \<not> sq_check sn q")
    case False
    then show ?thesis using 2(2) by (auto split: option.splits)
  next
    case True
    then obtain sn where sn: "sdu_pdcp_sn sdu = Some sn" "\<not> sq_check sn q" by blast
    obtain valid q1 where c: "check_and_release sn (q\<lparr>sq_queue := rest\<rparr>) = (valid, q1)" by force
    have q1: "sq_queue q1 = rest" using check_and_release_queue [OF c] by simp
    have "subseq (sq_queue (snd (front_from rest q1))) rest" if "\<not> valid"
      using 2(1) [OF sn c [symmetric] refl that q1] .
    then show ?thesis using sn c q1 by (cases valid) auto
  qed
qed

lemma read_into_order:
  assumes "read_into xs sdu q = (ok, sdu', q')"
  shows "subseq (sdu' # sq_queue q') (if xs = [] then [sdu] else xs)"
  using assms
proof (induction xs sdu q rule: read_into.induct)
  case (1 sdu q)
  then show ?case by auto
next
  case (2 front rest sdu q)
  show ?case
  proof (cases "sdu_pdcp_sn front")
    case None
    then show ?thesis using 2(2) by (auto simp: state_sub_def)
  next
    case (Some sn)
    obtain valid q1 where c: "check_and_release sn (q\<lparr>sq_queue := rest\<rparr>) = (valid, q1)" by force
    have q1: "sq_queue q1 = rest" using check_and_release_queue [OF c] by simp
    show ?thesis
    proof (cases valid)
      case True
      then show ?thesis using 2(2) Some c q1 by auto
    next
      case False
      then have rr: "read_into rest front q1 = (ok, sdu', q')" using 2(2) Some c by simp
      have "subseq (sdu' # sq_queue q') (if rest = [] then [front] else rest)"
        using 2(1) [OF refl Some c [symmetric] refl] False rr by simp
      then show ?thesis by (cases "rest = []") (auto intro: subseq_Cons')
    qed
  qed
qed

lemma write_queue: "sq_queue (snd (sq_write sdu q)) = sq_queue q \<or> sq_queue (snd (sq_write sdu q)) = sq_queue q @ [sdu]"
  by (auto simp: sq_write_def sq_push_def state_add_def Let_def split: option.splits)

lemma discard_queue: "sq_queue (snd (sq_try_discard sn q)) = sq_queue q"
  by (simp add: sq_try_discard_def state_sub_def)

section \<open>Operations other than pulling\<close>

inductive txum_op :: "rlc_tx_um_entity \<Rightarrow> bytes list \<Rightarrow> rlc_tx_um_entity \<Rightarrow> bool" where
  txum_sdu: "length buf \<le> 2 ^ 16 \<Longrightarrow> txum_op s [buf] (tx_um_handle_sdu env buf is_retx s)"
| txum_discard: "sn_sane sn \<Longrightarrow> txum_op s [] (tx_um_discard_sdu env sn s)"
| txum_query: "txum_op s [] (snd (tu_get_buffer_state s))"
| txum_task: "tu_pcell_tasks s = t # ts \<Longrightarrow> txum_op s [] (tu_run_pcell_task t (s\<lparr>tu_pcell_tasks := ts\<rparr>))"
| txum_stop: "txum_op s [] (tx_um_stop env s)"
| txum_metrics_high: "rth_get_and_reset_metrics (tu_metrics_high s) = Inr (m, m') \<Longrightarrow> txum_op s [] (s\<lparr>tu_metrics_high := m'\<rparr>)"
| txum_metrics_low: "rtl_get_and_reset_metrics (tu_metrics_low s) = Inr (m, m') \<Longrightarrow> txum_op s [] (s\<lparr>tu_metrics_low := m'\<rparr>)"

definition tu_idle :: "rlc_tx_um_entity \<Rightarrow> bytes list \<Rightarrow> rlc_tx_um_entity \<Rightarrow> bool" where
  "tu_idle s given s' \<longleftrightarrow> tu_cfg s' = tu_cfg s \<and> tu_tx_next s' = tu_tx_next s \<and> tu_next_so s' = tu_next_so s \<and> tu_sdu s' = tu_sdu s \<and>
     subseq (tu_line s') (tu_line s @ given)"

lemma tu_queue_step:
  assumes inv: "txum_inv s" and q: "sq_ok q" "subseq (sq_queue q) (sq_queue (tu_sdu_queue s) @ new)"
    and new: "\<forall>x \<in> set new. length (sdu_buf x) \<le> 2 ^ 16"
    and s': "tu_cfg s' = tu_cfg s" "tu_tx_next s' = tu_tx_next s" "tu_next_so s' = tu_next_so s" "tu_sdu s' = tu_sdu s"
      "um_tx_metrics_ok (tu_metrics_low s')" "tu_sdu_queue s' = q"
  shows "txum_inv s'" and "tu_idle s (map sdu_buf new) s'"
proof -
  have "set (sq_queue q) \<subseteq> set (sq_queue (tu_sdu_queue s)) \<union> set new"
    using list_emb_set [OF q(2)] by auto
  then show "txum_inv s'" using inv q(1) new s' by (auto simp: txum_inv_def)
  have "subseq (map sdu_buf (sq_queue q)) (map sdu_buf (sq_queue (tu_sdu_queue s)) @ map sdu_buf new)"
    using subseq_map [OF q(2)] by (simp only: map_append)
  then show "tu_idle s (map sdu_buf new) s'" using s' by (simp add: tu_idle_def tu_line_def)
qed

lemma tu_changed_fields [simp]:
  "tu_cfg (tu_handle_changed_buffer_state env s) = tu_cfg s" "tu_tx_next (tu_handle_changed_buffer_state env s) = tu_tx_next s"
  "tu_next_so (tu_handle_changed_buffer_state env s) = tu_next_so s" "tu_sdu (tu_handle_changed_buffer_state env s) = tu_sdu s"
  "tu_metrics_low (tu_handle_changed_buffer_state env s) = tu_metrics_low s" "tu_sdu_queue (tu_handle_changed_buffer_state env s) = tu_sdu_queue s"
  by (simp_all add: tu_handle_changed_buffer_state_def tu_pcell_defer_def)

lemma tu_get_buffer_state_fields:
  obtains bs q b where "tu_get_buffer_state s = (bs, s\<lparr>tu_sdu_queue := q, tu_suspend_barring := b\<rparr>)"
    and "q = tu_sdu_queue s \<or> q = snd (sq_front (tu_sdu_queue s))"
proof -
  obtain n m where nm: "sq_get_state (tu_sdu_queue s) = (n, m)" by force
  obtain x q where f: "sq_front (tu_sdu_queue s) = (x, q)" by force
  let ?q = "if sdu_buf (tu_sdu s) \<noteq> [] then tu_sdu_queue s else q"
  have "\<exists>bs b. tu_get_buffer_state s = (bs, s\<lparr>tu_sdu_queue := ?q, tu_suspend_barring := b\<rparr>)"
    using nm f by (cases "sdu_buf (tu_sdu s) = []")
      (auto simp: tu_get_buffer_state_def Let_def intro: exI [of _ True] exI [of _ "tu_suspend_barring s"])
  then show ?thesis using that f by auto
qed

lemma tu_front_ok:
  assumes "txum_inv s" and "q = tu_sdu_queue s \<or> q = snd (sq_front (tu_sdu_queue s))"
  shows "sq_ok q" and "subseq (sq_queue q) (sq_queue (tu_sdu_queue s) @ [])"
  using assms sq.look_sdus [of "tu_sdu_queue s"] front_from_order [of "tu_sdu_queue s", OF refl]
  by (auto simp: txum_inv_def sq_front_def)

lemma tu_update_fields:
  obtains q b p ev where "tu_update_mac_buffer_state s = s\<lparr>tu_sdu_queue := q, tu_suspend_barring := b, tu_pending_buffer_state := False,
      tu_prev_buffer_state := p, tu_events := ev\<rparr>"
    and "q = tu_sdu_queue s \<or> q = snd (sq_front (tu_sdu_queue s))"
proof -
  obtain bs q b where g: "tu_get_buffer_state (s\<lparr>tu_pending_buffer_state := False\<rparr>) =
      (bs, (s\<lparr>tu_pending_buffer_state := False\<rparr>)\<lparr>tu_sdu_queue := q, tu_suspend_barring := b\<rparr>)"
    "q = tu_sdu_queue (s\<lparr>tu_pending_buffer_state := False\<rparr>) \<or> q = snd (sq_front (tu_sdu_queue (s\<lparr>tu_pending_buffer_state := False\<rparr>)))"
    by (rule tu_get_buffer_state_fields) (rule that)
  have "\<exists>b p ev. tu_update_mac_buffer_state s = s\<lparr>tu_sdu_queue := q, tu_suspend_barring := b, tu_pending_buffer_state := False,
      tu_prev_buffer_state := p, tu_events := ev\<rparr>"
    unfolding tu_update_mac_buffer_state_def g(1) Let_def tu_emit_def prod.case
    by (cases s) auto
  then show ?thesis using that g(2) by auto
qed

lemma txum_op_ok:
  assumes "txum_op s given s'" and inv: "txum_inv s"
  shows "txum_inv s' \<and> tu_idle s given s'"
  using assms(1)
proof cases
  case (txum_sdu buf env is_retx)
  let ?x = "\<lparr>sdu_buf = buf, sdu_is_retx = False, sdu_pdcp_sn = get_pdcp_sn buf (tuc_pdcp_sn_len (tu_cfg s)) False, sdu_toa = te_now env\<rparr>"
  obtain ok q where w: "sq_write ?x (tu_sdu_queue s) = (ok, q)" by force
  have "\<And>sn. sdu_pdcp_sn ?x = Some sn \<Longrightarrow> sn_sane sn" using get_pdcp_sn_sane by simp
  then have q: "sq_ok q" using sq.offer_sdus [of "tu_sdu_queue s" ?x] inv w by (simp add: txum_inv_def)
  have m: "subseq (sq_queue q) (sq_queue (tu_sdu_queue s) @ [?x])" using write_queue [of ?x "tu_sdu_queue s"] w by auto
  let ?s' = "tx_um_handle_sdu env buf is_retx s"
  have f: "tu_cfg ?s' = tu_cfg s" "tu_tx_next ?s' = tu_tx_next s" "tu_next_so ?s' = tu_next_so s" "tu_sdu ?s' = tu_sdu s"
    "um_tx_metrics_ok (tu_metrics_low ?s')" "tu_sdu_queue ?s' = q"
    using w inv by (cases ok; simp add: tx_um_handle_sdu_def Let_def txum_inv_def)+
  have l: "\<forall>x \<in> set [?x]. length (sdu_buf x) \<le> 2 ^ 16" using txum_sdu by simp
  have "txum_inv ?s' \<and> tu_idle s (map sdu_buf [?x]) ?s'" using tu_queue_step [OF inv q m l f] by blast
  then show ?thesis using txum_sdu by simp
next
  case (txum_discard sn env)
  obtain ok q where w: "sq_try_discard sn (tu_sdu_queue s) = (ok, q)" by force
  have q: "sq_ok q" using sq.forget_sdus [of "tu_sdu_queue s" sn] inv w txum_discard by (simp add: txum_inv_def)
  have m: "subseq (sq_queue q) (sq_queue (tu_sdu_queue s) @ [])" using discard_queue [of sn "tu_sdu_queue s"] w by simp
  let ?s' = "tx_um_discard_sdu env sn s"
  have f: "tu_cfg ?s' = tu_cfg s" "tu_tx_next ?s' = tu_tx_next s" "tu_next_so ?s' = tu_next_so s" "tu_sdu ?s' = tu_sdu s"
    "um_tx_metrics_ok (tu_metrics_low ?s')" "tu_sdu_queue ?s' = q"
    using w inv by (cases ok; simp add: tx_um_discard_sdu_def Let_def txum_inv_def)+
  have "txum_inv ?s' \<and> tu_idle s (map sdu_buf []) ?s'" using tu_queue_step [OF inv q m _ f] by simp
  then show ?thesis using txum_discard by simp
next
  case txum_query
  obtain bs q b where g: "tu_get_buffer_state s = (bs, s\<lparr>tu_sdu_queue := q, tu_suspend_barring := b\<rparr>)"
    "q = tu_sdu_queue s \<or> q = snd (sq_front (tu_sdu_queue s))" by (rule tu_get_buffer_state_fields) (rule that)
  note step = tu_queue_step [OF inv tu_front_ok [OF inv g(2)]]
  show ?thesis unfolding txum_query(1,2) g(1) snd_conv
    using step [of "s\<lparr>tu_sdu_queue := q, tu_suspend_barring := b\<rparr>"] inv by (simp add: txum_inv_def)
next
  case (txum_task t ts)
  let ?s = "s\<lparr>tu_pcell_tasks := ts\<rparr>"
  have i: "txum_inv ?s" using inv by (simp add: txum_inv_def)
  show ?thesis
  proof (cases "t = Update_buffer_state_task")
    case True
    obtain q b p ev where g: "tu_update_mac_buffer_state ?s = ?s\<lparr>tu_sdu_queue := q, tu_suspend_barring := b, tu_pending_buffer_state := False,
      tu_prev_buffer_state := p, tu_events := ev\<rparr>" "q = tu_sdu_queue ?s \<or> q = snd (sq_front (tu_sdu_queue ?s))"
      by (rule tu_update_fields [of ?s]) (rule that)
    note step = tu_queue_step [OF i tu_front_ok [OF i g(2)], of "tu_update_mac_buffer_state ?s"]
    have "txum_inv (tu_update_mac_buffer_state ?s)" "tu_idle ?s [] (tu_update_mac_buffer_state ?s)"
      using step i by (simp_all add: g(1) txum_inv_def)
    moreover have "tu_idle ?s [] x = tu_idle s [] x" for x by (simp add: tu_idle_def tu_line_def)
    ultimately show ?thesis using txum_task True by simp
  next
    case False
    then have "s' = ?s" using txum_task by (cases t) simp_all
    then show ?thesis using i txum_task by (simp add: tu_idle_def tu_line_def)
  qed
next
  case (txum_metrics_low m m')
  have "um_tx_metrics_ok m'"
    using txum_metrics_low(3) inv
    by (auto simp: txum_inv_def um_tx_metrics_ok_def rtl_get_and_reset_metrics_def rtl_get_metrics_def rtl_reset_metrics_def seq_run_def split: if_splits)
  then show ?thesis using txum_metrics_low inv by (simp add: txum_inv_def tu_idle_def tu_line_def)
qed (use inv in \<open>auto simp: txum_inv_def tu_idle_def tu_line_def tx_um_stop_def tu_pcell_defer_def\<close>)

section \<open>Pulling\<close>

text \<open>
  The state once the current SDU is there: the one that was there, or, if there was none, the next of
  the queue, whose transfer is announced. \<open>x\<close> is what the queue gave.
\<close>

definition tu_loaded :: "rlc_tx_um_entity \<Rightarrow> rlc_tx_um_entity \<Rightarrow> bool" where
  "tu_loaded s s1 \<longleftrightarrow> tu_cfg s1 = tu_cfg s \<and> tu_tx_next s1 = tu_tx_next s \<and> tu_next_so s1 = tu_next_so s \<and> subseq (tu_line s1) (tu_line s) \<and>
     (sdu_buf (tu_sdu s) \<noteq> [] \<longrightarrow> s1 = s)"

lemma tu_notify_fields [simp]:
  "tu_cfg (tu_notify_transfer s) = tu_cfg s" "tu_tx_next (tu_notify_transfer s) = tu_tx_next s" "tu_next_so (tu_notify_transfer s) = tu_next_so s"
  "tu_sdu (tu_notify_transfer s) = tu_sdu s" "tu_sdu_queue (tu_notify_transfer s) = tu_sdu_queue s" "tu_metrics_low (tu_notify_transfer s) = tu_metrics_low s"
  "txum_inv (tu_notify_transfer s) = txum_inv s" "tu_line (tu_notify_transfer s) = tu_line s"
  by (simp_all add: tu_notify_transfer_def tu_emit_def txum_inv_def tu_line_def split: option.splits)

lemma tu_mod_less: "unat (x mod tu_mod_of z) < unat (tu_mod_of z)"
proof -
  have "0 < unat (tu_mod_of z)" by (cases z) (simp_all add: tu_mod_of_def)
  then show ?thesis by (simp add: unat_mod)
qed

lemma tu_builds_inv:
  assumes "txum_inv s" and "tu_builds s grant h payload s'"
  shows "txum_inv s'"
proof -
  note b = assms(2) [unfolded tu_builds_def Let_def]
  have "sdu_buf (tu_sdu s') = (if unat (tu_next_so s) + length payload = length (sdu_buf (tu_sdu s)) then [] else sdu_buf (tu_sdu s))"
    using b by simp
  moreover have "unat (tu_tx_next s') < unat (tu_mod_of (tu_size s))" using b assms(1) tu_mod_less by (auto simp: txum_inv_def)
  ultimately show ?thesis using b assms(1) by (auto simp: txum_inv_def)
qed

lemma tu_build_empty: "sdu_buf (tu_sdu s) = [] \<Longrightarrow> tu_build_pdu env grant s = Inr ([], s)"
  by (simp add: tu_build_pdu_def Let_def split: option.splits)

text \<open>Loading the next SDU of the queue, when there is no current one.\<close>

lemma tu_load_ok:
  assumes inv: "txum_inv s" and empty: "sdu_buf (tu_sdu s) = []"
    and r: "read_into (sq_queue (tu_sdu_queue s)) (tu_sdu s) (tu_sdu_queue s) = (ok, sdu, q)"
  shows "txum_inv (s\<lparr>tu_sdu := sdu, tu_sdu_queue := q\<rparr>)" and "subseq (tu_line (s\<lparr>tu_sdu := sdu, tu_sdu_queue := q\<rparr>)) (tu_line s)"
    and "ok \<longleftrightarrow> sq_sdus (tu_sdu_queue s) \<noteq> []" and "ok \<Longrightarrow> sdu = hd (sq_sdus (tu_sdu_queue s))"
proof -
  let ?q = "tu_sdu_queue s" and ?s = "s\<lparr>tu_sdu := sdu, tu_sdu_queue := q\<rparr>"
  have so: "tu_next_so s = 0" using inv empty by (auto simp: txum_inv_def unsigned_eq_0_iff)
  have rf: "sq_read ?q = (if ok then Some sdu else None, q)" using read_into_spec(1) [OF r] by (simp add: sq_read_def)
  then have q: "sq_ok q" and "ok \<longleftrightarrow> sq_sdus ?q \<noteq> []" "ok \<Longrightarrow> sdu = hd (sq_sdus ?q)"
    using sq.take_sdus [of ?q] inv by (auto simp: txum_inv_def split: list.splits if_splits)
  then show "ok \<longleftrightarrow> sq_sdus ?q \<noteq> []" "ok \<Longrightarrow> sdu = hd (sq_sdus ?q)" by blast+
  have sub: "subseq (sdu # sq_queue q) (if sq_queue ?q = [] then [tu_sdu s] else sq_queue ?q)" by (rule read_into_order [OF r])
  then have len: "\<forall>x \<in> insert sdu (set (sq_queue q)). length (sdu_buf x) \<le> 2 ^ 16"
    using inv list_emb_set [OF sub] by (auto simp: txum_inv_def split: if_splits)
  then show "txum_inv ?s" using inv q so by (simp add: txum_inv_def)
  have "subseq (sdu_buf sdu # map sdu_buf (sq_queue q)) (if sq_queue ?q = [] then [[]] else map sdu_buf (sq_queue ?q))"
    using subseq_map [OF sub, of sdu_buf] empty by (auto split: if_splits)
  then show "subseq (tu_line ?s) (tu_line s)" using empty by (auto simp: tu_line_def intro: subseq_Cons' split: if_splits)
qed

lemma tx_um_pull_ok:
  assumes inv: "txum_inv s"
  obtains pdu s1 s' where "tx_um_pull_pdu env grant s = Inr (pdu, s')" and "tu_loaded s s1" and "txum_inv s1" and "txum_inv s'"
    and "pdu = [] \<and> s' = s1 \<or> (\<exists>h payload. pdu = rlc_um_write_data_pdu_header h @ payload \<and> tu_builds s1 (unat grant) h payload s')"
proof (cases "1 < unat grant")
  case False
  then show ?thesis using that [of "[]" s s] inv by (simp add: tx_um_pull_pdu_def word_le_nat_alt tu_loaded_def)
next
  case True
  then have g: "\<not> grant \<le> of_nat rlc_um_pdu_header_size_complete_sdu" by (simp add: word_le_nat_alt)
  note finish = that
  have build: thesis if s1: "tx_um_pull_pdu env grant s = tu_build_pdu env grant s1" "tu_loaded s s1" "txum_inv s1" "sdu_buf (tu_sdu s1) \<noteq> []" for s1
    using tu_build_pdu_ok [OF s1(3,4) True, of env]
  proof (elim disjE conjE exE)
    assume "tu_build_pdu env grant s1 = Inr ([], s1)"
    then show thesis using finish [of "[]" s1 s1] s1 by simp
  next
    fix h payload s' assume b: "tu_build_pdu env grant s1 = Inr (rlc_um_write_data_pdu_header h @ payload, s')" "tu_builds s1 (unat grant) h payload s'"
    then show thesis using finish [of "rlc_um_write_data_pdu_header h @ payload" s' s1] s1 tu_builds_inv [OF s1(3) b(2)] by auto
  qed
  show ?thesis
  proof (cases "sdu_buf (tu_sdu s) = []")
    case False
    then show ?thesis using g inv by (intro build [of s]) (simp_all add: tx_um_pull_pdu_def tu_loaded_def)
  next
    case empty: True
    then have so: "tu_next_so s = 0" using inv by (auto simp: txum_inv_def unsigned_eq_0_iff)
    let ?q = "tu_sdu_queue s"
    obtain ok sdu q where r: "read_into (sq_queue ?q) (tu_sdu s) ?q = (ok, sdu, q)" by (metis prod_cases3)
    let ?s = "s\<lparr>tu_sdu := sdu, tu_sdu_queue := q\<rparr>"
    note load = tu_load_ok [OF inv empty r]
    note inv' = load(1) and held = load(2)
    show ?thesis
    proof (cases ok)
      case False
      then have "tx_um_pull_pdu env grant s = Inr ([], ?s)" using g empty so r by (simp add: tx_um_pull_pdu_def)
      then show ?thesis using that [of "[]" ?s ?s] inv' held empty by (simp add: tu_loaded_def)
    next
      case True
      have e: "tx_um_pull_pdu env grant s = tu_build_pdu env grant (tu_notify_transfer ?s)"
        using g empty so r True by (simp add: tx_um_pull_pdu_def)
      have l: "tu_loaded s (tu_notify_transfer ?s)" using held empty by (simp add: tu_loaded_def)
      show ?thesis
      proof (cases "sdu_buf sdu = []")
        case False
        then show ?thesis using inv' by (intro build [OF e l]) simp_all
      next
        case True
        then have "sdu_buf (tu_sdu (tu_notify_transfer ?s)) = []" by simp
        then have "tu_build_pdu env grant (tu_notify_transfer ?s) = Inr ([], tu_notify_transfer ?s)" by (rule tu_build_empty)
        then show ?thesis using that [of "[]" "tu_notify_transfer ?s" "tu_notify_transfer ?s"] e l inv' by simp
      qed
    qed
  qed
qed

section \<open>Reachable states\<close>

inductive txum_reachable :: "rlc_tx_um_config \<Rightarrow> rlc_tx_um_entity \<Rightarrow> bool" for cfg where
  txum_created: "rlc_tx_um_create cfg en = Inr s \<Longrightarrow> txum_reachable cfg s"
| txum_stepped: "txum_reachable cfg s \<Longrightarrow> txum_op s given s' \<Longrightarrow> txum_reachable cfg s'"
| txum_pulled: "txum_reachable cfg s \<Longrightarrow> tx_um_pull_pdu env grant s = Inr (pdu, s') \<Longrightarrow> txum_reachable cfg s'"

lemma txum_create_inv:
  assumes "rlc_tx_um_create txc en = Inr tx" and "0 < tuc_queue_size txc"
  shows "txum_inv tx" and "tu_cfg tx = txc" and "tu_tx_next tx = 0" and "tu_next_so tx = 0" and "tu_line tx = []"
proof -
  have m: "um_tx_metrics_ok (rtl_set_mode Mode_um_bidir (rtl_create en))" by (simp add: um_tx_metrics_ok_def rtl_set_mode_def rtl_create_def)
  have "0 < unat (tu_mod_of z)" for z using tu_mod_less [of 0 z] by simp
  then show "txum_inv tx" "tu_cfg tx = txc" "tu_tx_next tx = 0" "tu_next_so tx = 0" "tu_line tx = []"
    using assms m sq_create_ok [of "tuc_queue_size txc" "tuc_queue_size_bytes txc"]
    by (auto simp: rlc_tx_um_create_def txum_inv_def tu_line_def rlc_sdu_init_def sq_create_def split: if_splits)
qed

lemma txum_reachable_inv:
  assumes "txum_reachable cfg s" and "0 < tuc_queue_size cfg"
  shows "txum_inv s"
  using assms(1)
proof induction
  case (txum_created en s)
  then show ?case using txum_create_inv(1) assms(2) by blast
next
  case (txum_stepped s given s')
  then show ?case using txum_op_ok by blast
next
  case (txum_pulled s env grant pdu s')
  then show ?case using tx_um_pull_ok [of s env grant] by (metis Pair_inject sum.inject(2))
qed

end
