(* ===== verification/Rlc_Rx_Um.thy ===== *)
theory Rlc_Rx_Um
  imports Rlc_Um_Pdu Rlc_Am_Segments Rlc_Rx_Metrics
begin

text \<open>
  The receiving entity of the unacknowledged mode, \<open>lib/rlc/rlc_rx_um_entity.h\<close> and
  \<open>rlc_rx_um_entity.cpp\<close>. The struct of a segment and the loop that stores it are the same as in the
  acknowledged mode (\<open>Rlc_Am_Segments\<close>). The timer is the fact that it is running; running a timer that
  was never set is a failed assertion. The SDUs that are given to the upper layer are returned.
  Clocks, logging and packet capture are left out.
\<close>

section \<open>State\<close>

record rlc_rx_um_config =
  ruc_sn_field_length :: rlc_um_sn_size
  ruc_t_reassembly :: int

type_synonym rlc_rx_um_sdu_segment = rlc_rx_am_sdu_segment

record rlc_rx_um_sdu_info =
  um_fully_received :: bool
  um_has_gap :: bool
  um_segments :: "rlc_rx_um_sdu_segment list"

definition um_info_init :: rlc_rx_um_sdu_info where
  "um_info_init = \<lparr>um_fully_received = False, um_has_gap = False, um_segments = []\<rparr>"

record rlc_rx_um_state =
  um_next_reassembly :: u32
  um_timer_trigger :: u32
  um_next_highest :: u32

record rlc_rx_um_entity =
  um_cfg :: rlc_rx_um_config
  um_st :: rlc_rx_um_state
  um_window :: "rlc_rx_um_sdu_info sdu_window"
  um_reassembly_timer :: bool
  um_metrics :: rlc_rx_metrics

definition um_mod_of :: "rlc_um_sn_size \<Rightarrow> u32" where
  "um_mod_of z = cardinality (um_sn_size_to_number z)"

definition um_window_size_of :: "rlc_um_sn_size \<Rightarrow> u32" where
  "um_window_size_of z = window_size (um_sn_size_to_number z)"

abbreviation um_size :: "rlc_rx_um_entity \<Rightarrow> rlc_um_sn_size" where
  "um_size s \<equiv> ruc_sn_field_length (um_cfg s)"

definition rlc_rx_um_create :: "rlc_rx_um_config \<Rightarrow> bool \<Rightarrow> rlc_rx_um_entity run" where
  "rlc_rx_um_create cfg metrics_enabled =
     seq_run (win_create (unat (um_window_size_of (ruc_sn_field_length cfg)))) (\<lambda>w.
     Inr \<lparr>um_cfg = cfg, um_st = \<lparr>um_next_reassembly = 0, um_timer_trigger = 0, um_next_highest = 0\<rparr>,
          um_window = w, um_reassembly_timer = False, um_metrics = rrm_set_mode Mode_um_bidir (rrm_create metrics_enabled)\<rparr>)"

definition um_rx_stop :: "rlc_rx_um_entity \<Rightarrow> rlc_rx_um_entity" where
  "um_rx_stop s = s\<lparr>um_reassembly_timer := False\<rparr>"

section \<open>The reassembly window\<close>

definition um_rx_mod_base :: "rlc_um_sn_size \<Rightarrow> u32 \<Rightarrow> u32 \<Rightarrow> u32" where
  "um_rx_mod_base z highest x = (x - highest - um_window_size_of z) mod um_mod_of z"

definition sn_in_reassembly_window :: "rlc_um_sn_size \<Rightarrow> u32 \<Rightarrow> u32 \<Rightarrow> bool" where
  "sn_in_reassembly_window z highest sn \<longleftrightarrow>
     um_rx_mod_base z highest (highest - um_window_size_of z) \<le> um_rx_mod_base z highest sn \<and>
     um_rx_mod_base z highest sn < um_rx_mod_base z highest highest"

definition sn_invalid_for_rx_buffer :: "rlc_um_sn_size \<Rightarrow> rlc_rx_um_state \<Rightarrow> u32 \<Rightarrow> bool" where
  "sn_invalid_for_rx_buffer z st sn \<longleftrightarrow>
     um_rx_mod_base z (um_next_highest st) (um_next_highest st - um_window_size_of z) \<le> um_rx_mod_base z (um_next_highest st) sn \<and>
     um_rx_mod_base z (um_next_highest st) sn < um_rx_mod_base z (um_next_highest st) (um_next_reassembly st)"

text \<open>\<open>rx_window.has_sn(sn) && rx_window[sn].fully_received\<close>, and the gap of an SN in the window.\<close>

definition um_received :: "rlc_rx_um_sdu_info sdu_window \<Rightarrow> u32 \<Rightarrow> bool" where
  "um_received w sn = (case win_find w sn of None \<Rightarrow> False | Some info \<Rightarrow> um_fully_received info)"

definition um_gap_at :: "rlc_rx_um_sdu_info sdu_window \<Rightarrow> u32 \<Rightarrow> bool option" where
  "um_gap_at w sn = map_option um_has_gap (win_find w sn)"

lemma ring_size_um: "ring_size (um_mod_of z)"
proof (cases z)
  case Um6
  then show ?thesis unfolding ring_size_def um_mod_of_def by (intro exI [of _ 6]) simp
next
  case Um12
  then show ?thesis unfolding ring_size_def um_mod_of_def by (intro exI [of _ 12]) simp
qed

lemma um_mod_window: "unat (um_mod_of z) = 2 * unat (um_window_size_of z)" "0 < unat (um_window_size_of z)"
  by (cases z; simp add: um_mod_of_def um_window_size_of_def)+

lemma um_rx_mod_base_ring: "um_rx_mod_base z h x = mod_base (um_mod_of z) (h + um_window_size_of z) x"
  by (simp add: um_rx_mod_base_def mod_base_def diff_diff_eq)

lemma um_base_edges [simp]:
  "um_rx_mod_base z h (h - um_window_size_of z) = 0" "um_rx_mod_base z h h = um_window_size_of z"
  unfolding um_rx_mod_base_def um_mod_of_def um_window_size_of_def by (cases z; simp; code_simp)+

lemma in_reassembly_window_iff: "sn_in_reassembly_window z h sn \<longleftrightarrow> um_rx_mod_base z h sn < um_window_size_of z"
  by (simp add: sn_in_reassembly_window_def)

lemma sn_invalid_iff: "sn_invalid_for_rx_buffer z st sn \<longleftrightarrow>
    um_rx_mod_base z (um_next_highest st) sn < um_rx_mod_base z (um_next_highest st) (um_next_reassembly st)"
  by (simp add: sn_invalid_for_rx_buffer_def)

text \<open>One step further on the ring.\<close>

lemma um_base_Suc:
  assumes "unat (um_rx_mod_base z h sn) + 1 < unat (um_mod_of z)"
  shows "unat (um_rx_mod_base z h ((sn + 1) mod um_mod_of z)) = unat (um_rx_mod_base z h sn) + 1"
  using mod_base_Suc [OF ring_size_um, of z "h + um_window_size_of z" sn] assms by (simp add: um_rx_mod_base_ring)

lemma um_base_less: "unat (um_rx_mod_base z h sn) < unat (um_mod_of z)"
  using mod_base_less [OF ring_size_um] by (simp add: um_rx_mod_base_ring)

lemma um_scan_measure:
  assumes "um_rx_mod_base z h sn < um_rx_mod_base z h h"
  shows "unat (um_window_size_of z) - unat (um_rx_mod_base z h ((sn + 1) mod um_mod_of z)) <
    unat (um_window_size_of z) - unat (um_rx_mod_base z h sn)"
  using assms um_base_Suc [of z h sn] um_mod_window [of z] by (simp add: word_less_nat_alt)

section \<open>The loops over the window\<close>

text \<open>Fully received SDUs are removed up to the first one that is not, or to the upper edge.\<close>

function um_drop_received :: "rlc_um_sn_size \<Rightarrow> u32 \<Rightarrow> u32 \<Rightarrow> rlc_rx_um_sdu_info sdu_window \<Rightarrow> u32 \<times> rlc_rx_um_sdu_info sdu_window" where
  "um_drop_received z h sn w =
     (if um_rx_mod_base z h sn < um_rx_mod_base z h h \<and> um_received w sn
      then um_drop_received z h ((sn + 1) mod um_mod_of z) (win_del sn w) else (sn, w))"
  by auto
termination
  by (relation "measure (\<lambda>(z, h, sn, w). unat (um_window_size_of z) - unat (um_rx_mod_base z h sn))")
    (auto intro: um_scan_measure [simplified])

text \<open>One SN is given up: what was not fully received counts as lost.\<close>

definition um_discard_sn :: "u32 \<Rightarrow> rlc_rx_um_sdu_info sdu_window \<times> rlc_rx_metrics \<Rightarrow> rlc_rx_um_sdu_info sdu_window \<times> rlc_rx_metrics" where
  "um_discard_sn sn wm =
     (case wm of (w, m) \<Rightarrow>
        (if has_sn w sn then win_del sn w else w, if um_received w sn then m else rrm_add_lost_pdus 1 m))"

function um_discard_outside :: "rlc_um_sn_size \<Rightarrow> u32 \<Rightarrow> u32 \<Rightarrow> rlc_rx_um_sdu_info sdu_window \<times> rlc_rx_metrics \<Rightarrow>
    u32 \<times> rlc_rx_um_sdu_info sdu_window \<times> rlc_rx_metrics" where
  "um_discard_outside z h sn wm =
     (if sn_in_reassembly_window z h sn then (sn, wm)
      else um_discard_outside z h ((sn + 1) mod um_mod_of z) (um_discard_sn sn wm))"
  by auto
termination
proof (relation "measure (\<lambda>(z, h, sn, wm). if sn_in_reassembly_window z h sn then 0 else unat (um_mod_of z) - unat (um_rx_mod_base z h sn))", goal_cases)
  case (2 z h sn wm)
  have "sn_in_reassembly_window z h ((sn + 1) mod um_mod_of z) \<or>
      unat (um_rx_mod_base z h sn) < unat (um_rx_mod_base z h ((sn + 1) mod um_mod_of z))"
  proof (cases "unat (um_rx_mod_base z h sn) + 1 < unat (um_mod_of z)")
    case True
    then show ?thesis using um_base_Suc by simp
  next
    case False
    then have "unat (um_rx_mod_base z h sn) + 1 = unat (um_mod_of z)" using um_base_less [of z h sn] by simp
    then have "um_rx_mod_base z h ((sn + 1) mod um_mod_of z) = 0"
      using mod_base_wrap [OF ring_size_um, of z "h + um_window_size_of z" sn] by (simp add: um_rx_mod_base_ring)
    then show ?thesis using um_mod_window [of z] by (simp add: in_reassembly_window_iff word_less_nat_alt)
  qed
  then show ?case using 2 um_base_less [of z h sn] by auto
qed simp

text \<open>The loop of the expired timer: everything below the trigger is given up, then as above.\<close>

function um_expire :: "rlc_um_sn_size \<Rightarrow> u32 \<Rightarrow> u32 \<Rightarrow> u32 \<Rightarrow> rlc_rx_um_sdu_info sdu_window \<times> rlc_rx_metrics \<Rightarrow>
    u32 \<times> rlc_rx_um_sdu_info sdu_window \<times> rlc_rx_metrics" where
  "um_expire z h trigger sn wm =
     (if um_rx_mod_base z h sn < um_rx_mod_base z h h then
        if um_rx_mod_base z h sn < um_rx_mod_base z h trigger
        then um_expire z h trigger ((sn + 1) mod um_mod_of z) (um_discard_sn sn wm)
        else if um_received (fst wm) sn then um_expire z h trigger ((sn + 1) mod um_mod_of z) (win_del sn (fst wm), snd wm)
        else (sn, wm)
      else (sn, wm))"
  by auto
termination
  by (relation "measure (\<lambda>(z, h, t, sn, wm). unat (um_window_size_of z) - unat (um_rx_mod_base z h sn))")
    (auto intro: um_scan_measure [simplified])

declare um_drop_received.simps [simp del] um_discard_outside.simps [simp del] um_expire.simps [simp del]

section \<open>Segments\<close>

definition um_store_segment :: "rlc_rx_um_sdu_info \<Rightarrow> rlc_rx_um_sdu_segment \<Rightarrow> bool \<times> rlc_rx_um_sdu_info" where
  "um_store_segment info new =
     (let (stored, segs) = store_loop [] (um_segments info) new in (stored, info\<lparr>um_segments := segs\<rparr>))"

definition um_update_segment_inventory :: "rlc_rx_um_sdu_info \<Rightarrow> rlc_rx_um_sdu_info" where
  "um_update_segment_inventory info =
     (let (full, gap) = inventory 0 (um_segments info) in info\<lparr>um_fully_received := full, um_has_gap := gap\<rparr>)"

definition um_reassemble_sdu :: "bool \<Rightarrow> rlc_rx_um_sdu_info \<Rightarrow> bytes option" where
  "um_reassemble_sdu chain_ok info =
     (if \<not> um_fully_received info then None
      else if \<not> chain_ok then None
      else Some (concat (map seg_payload (um_segments info))))"

definition um_handle_segment_data_sdu :: "rlc_um_pdu_header \<Rightarrow> bytes \<Rightarrow> rlc_rx_um_entity \<Rightarrow> (bool \<times> rlc_rx_um_entity) run" where
  "um_handle_segment_data_sdu h payload s =
     (let sn = ucast (uh_sn h); segment = \<lparr>seg_si = uh_si h, seg_so = uh_so h, seg_payload = payload\<rparr> in
      if uh_si h = Full_sdu then Inr (False, s)
      else
        seq_run (if has_sn (um_window s) sn then Inr (um_window s) else add_sn sn um_info_init (um_window s)) (\<lambda>w.
        seq_run (win_at w sn) (\<lambda>info.
        (let (stored, info) = um_store_segment info segment in
         seq_run (win_update sn (\<lambda>_. um_update_segment_inventory info) w) (\<lambda>w.
         Inr (stored, s\<lparr>um_window := w\<rparr>))))))"

section \<open>A PDU in the reception buffer\<close>

definition um_placed :: "bool \<Rightarrow> u32 \<Rightarrow> rlc_rx_um_entity \<Rightarrow> (bytes list \<times> rlc_rx_um_entity) run" where
  "um_placed chain_ok sn s =
     (let z = um_size s; st = um_st s in
      if um_received (um_window s) sn then
        seq_run (win_at (um_window s) sn) (\<lambda>info.
        (let (sdus, m) = (case um_reassemble_sdu chain_ok info of
                            None \<Rightarrow> ([], rrm_add_lost_pdus 1 (um_metrics s))
                          | Some sdu \<Rightarrow> ([sdu], rrm_add_sdus 1 (length sdu) (um_metrics s))) in
         seq_run (win_update sn (\<lambda>i. i\<lparr>um_segments := []\<rparr>) (um_window s)) (\<lambda>w.
         if sn = um_next_reassembly st then
           (let (sn_upd, w) = um_drop_received z (um_next_highest st) (um_next_reassembly st mod um_mod_of z) w in
            Inr (sdus, s\<lparr>um_window := w, um_metrics := m, um_st := st\<lparr>um_next_reassembly := sn_upd\<rparr>\<rparr>))
         else Inr (sdus, s\<lparr>um_window := w, um_metrics := m\<rparr>))))
      else if \<not> sn_in_reassembly_window z (um_next_highest st) sn then
        (let highest = (sn + 1) mod um_mod_of z;
             (sn_upd, w, m) = um_discard_outside z highest (um_next_reassembly st mod um_mod_of z) (um_window s, um_metrics s);
             (sn_upd, w) = um_drop_received z highest sn_upd w in
         Inr ([], s\<lparr>um_window := w, um_metrics := m, um_st := st\<lparr>um_next_highest := highest, um_next_reassembly := sn_upd\<rparr>\<rparr>))
      else Inr ([], s))"

section \<open>t-Reassembly\<close>

definition um_run_timer :: "rlc_rx_um_entity \<Rightarrow> rlc_rx_um_entity run" where
  "um_run_timer s =
     (if ruc_t_reassembly (um_cfg s) \<le> 0 then Inl Bad_argument
      else Inr (s\<lparr>um_reassembly_timer := True, um_st := (um_st s)\<lparr>um_timer_trigger := um_next_highest (um_st s)\<rparr>\<rparr>))"

definition um_stop_reassembly :: "rlc_rx_um_entity \<Rightarrow> rlc_rx_um_entity" where
  "um_stop_reassembly s =
     (let z = um_size s; st = um_st s in
      if \<not> um_reassembly_timer s then s
      else if um_timer_trigger st \<le> um_next_reassembly st \<or>
           (\<not> sn_in_reassembly_window z (um_next_highest st) (um_timer_trigger st) \<and> um_timer_trigger st \<noteq> um_next_highest st) \<or>
           (um_next_highest st = um_next_reassembly st + 1 \<and> um_gap_at (um_window s) (um_next_highest st) = Some False)
      then s\<lparr>um_reassembly_timer := False\<rparr> else s)"

definition um_restart_condition :: "rlc_rx_um_entity \<Rightarrow> bool" where
  "um_restart_condition s \<longleftrightarrow>
     (let z = um_size s; st = um_st s; h = um_next_highest st in
      um_rx_mod_base z h (um_next_reassembly st + 1) < um_rx_mod_base z h h \<or>
      (um_rx_mod_base z h h = um_rx_mod_base z h (um_next_reassembly st + 1) \<and> um_gap_at (um_window s) h = Some True))"

definition um_start_reassembly :: "rlc_rx_um_entity \<Rightarrow> rlc_rx_um_entity run" where
  "um_start_reassembly s =
     (if \<not> um_reassembly_timer s \<and> um_restart_condition s then um_run_timer s else Inr s)"

definition um_on_expired_reassembly_timer :: "rlc_rx_um_entity \<Rightarrow> rlc_rx_um_entity run" where
  "um_on_expired_reassembly_timer s =
     (let z = um_size s; st = um_st s;
          (sn_upd, w, m) = um_expire z (um_next_highest st) (um_timer_trigger st) (um_next_reassembly st) (um_window s, um_metrics s);
          s = s\<lparr>um_window := w, um_metrics := m, um_st := st\<lparr>um_next_reassembly := sn_upd\<rparr>\<rparr> in
      if um_restart_condition s then um_run_timer s else Inr s)"

section \<open>Handling PDUs\<close>

definition um_handle_segment :: "bool \<Rightarrow> rlc_um_pdu_header \<Rightarrow> bytes \<Rightarrow> rlc_rx_um_entity \<Rightarrow> (bytes list \<times> rlc_rx_um_entity) run" where
  "um_handle_segment chain_ok h payload s =
     (if sn_invalid_for_rx_buffer (um_size s) (um_st s) (ucast (uh_sn h)) then Inr ([], s)
      else
        seq_run (um_handle_segment_data_sdu h payload s) (\<lambda>(stored, s).
        seq_run (um_placed chain_ok (ucast (uh_sn h)) s) (\<lambda>(sdus, s).
        seq_run (um_start_reassembly (um_stop_reassembly s)) (\<lambda>s. Inr (sdus, s)))))"

text \<open>\<open>chain_ok\<close>: the buffer pool has the chunks for the chain and for what is appended to it.\<close>

definition um_handle_pdu :: "bool \<Rightarrow> bytes \<Rightarrow> rlc_rx_um_entity \<Rightarrow> (bytes list \<times> rlc_rx_um_entity) run" where
  "um_handle_pdu chain_ok buf s =
     (let s = s\<lparr>um_metrics := rrm_add_pdus 1 (length buf) (um_metrics s)\<rparr> in
      case rlc_um_read_data_pdu_header buf (um_size s) of
        None \<Rightarrow> Inr ([], s\<lparr>um_metrics := rrm_add_malformed_pdus 1 (um_metrics s)\<rparr>)
      | Some h \<Rightarrow>
          (let payload = drop (rlc_um_nr_packed_length h) buf in
           if length buf \<le> rlc_um_nr_packed_length h then Inr ([], s)
           else if uh_si h = Full_sdu then
             if \<not> chain_ok then Inr ([], s\<lparr>um_metrics := rrm_add_lost_pdus 1 (um_metrics s)\<rparr>)
             else Inr ([payload], s\<lparr>um_metrics := rrm_add_sdus 1 (length payload) (um_metrics s)\<rparr>)
           else um_handle_segment chain_ok h payload s))"

end
