(* ===== verification/Rlc_Rx_Um_Window.thy ===== *)
theory Rlc_Rx_Um_Window
  imports Rlc_Rx_Um
begin

text \<open>
  The reassembly window in terms of the numbers of SDUs. SDUs that are segmented are numbered
  0, 1, 2, \<dots>, and the SN of number \<open>n\<close> is \<open>um_sn z n\<close>. Relative to an upper edge with number \<open>H\<close>, a number
  within one window length of \<open>H\<close> has the position \<open>n + W - H\<close>; the loops over the window are loops
  over numbers.
\<close>

section \<open>Numbers and positions\<close>

abbreviation um_width :: "rlc_um_sn_size \<Rightarrow> nat" where
  "um_width z \<equiv> unat (um_window_size_of z)"

definition um_sn :: "rlc_um_sn_size \<Rightarrow> nat \<Rightarrow> u32" where
  "um_sn z n = ring_add (um_mod_of z) 0 n"

lemma unat_um_sn: "unat (um_sn z n) = n mod unat (um_mod_of z)"
  by (simp add: um_sn_def unat_ring_add [OF ring_size_um])

lemma um_sn_less: "unat (um_sn z n) < unat (um_mod_of z)"
  using ring_add_less [OF ring_size_um] by (simp add: um_sn_def)

lemma um_sn_Suc: "(um_sn z n + 1) mod um_mod_of z = um_sn z (Suc n)"
  by (simp add: um_sn_def ring_add_Suc [OF ring_size_um])

lemma um_sn_cycle: "um_sn z (n + unat (um_mod_of z)) = um_sn z n"
  by (simp add: word_unat_eq_iff unat_um_sn)

lemma um_sn_mod [simp]: "um_sn z n mod um_mod_of z = um_sn z n"
  using um_sn_less [of z n] by (simp add: word_unat_eq_iff unat_mod)

lemma um_sn_of:
  assumes "unat k < unat (um_mod_of z)"
  shows "um_sn z (unat k) = k"
  using assms by (simp add: word_unat_eq_iff unat_um_sn)

definition um_pos :: "rlc_um_sn_size \<Rightarrow> nat \<Rightarrow> u32 \<Rightarrow> nat" where
  "um_pos z H sn = unat (um_rx_mod_base z (um_sn z H) sn)"

lemma um_pos_number:
  assumes "H \<le> n + um_width z" and "n < H + um_width z"
  shows "um_pos z H (um_sn z n) = n + um_width z - H"
proof -
  let ?m = "um_mod_of z" and ?W = "um_width z"
  let ?d = "n + ?W - H"
  have d: "?d < unat ?m" using assms um_mod_window [of z] by simp
  have base: "um_rx_mod_base z (um_sn z H) x = mod_base ?m (um_sn z H + um_window_size_of z) x" for x
    by (simp add: um_rx_mod_base_ring)
  have "unat (ring_add ?m (um_sn z H + um_window_size_of z) ?d) = (unat (um_sn z H + um_window_size_of z) + ?d) mod unat ?m"
    by (rule unat_ring_add [OF ring_size_um])
  also have "unat (um_sn z H + um_window_size_of z) = unat (um_sn z H) + ?W"
    using um_sn_less [of z H] um_mod_window [of z] by (cases z) (simp_all add: unat_word_ariths um_mod_of_def um_window_size_of_def)
  also have "(unat (um_sn z H) + ?W + ?d) mod unat ?m = (H + ?W + ?d) mod unat ?m"
    by (simp add: unat_um_sn mod_simps add.assoc)
  also have "H + ?W + ?d = n + unat ?m" using assms um_mod_window [of z] by simp
  finally have "ring_add ?m (um_sn z H + um_window_size_of z) ?d = um_sn z n"
    by (simp add: word_unat_eq_iff unat_um_sn)
  then show ?thesis
    using mod_base_ring_add [OF ring_size_um d, of "um_sn z H + um_window_size_of z"] by (simp add: um_pos_def base)
qed

lemma um_pos_less: "um_pos z H sn < 2 * um_width z"
  using um_base_less [of z "um_sn z H" sn] um_mod_window [of z] by (simp add: um_pos_def)

lemma um_sn_inj:
  assumes "um_sn z a = um_sn z b" and "a < b + 2 * um_width z" and "b < a + 2 * um_width z"
  shows "a = b"
proof -
  let ?m = "unat (um_mod_of z)"
  have e: "a mod ?m = b mod ?m" using assms(1) by (simp add: unat_um_sn [symmetric])
  have "x = y" if "x \<le> y" "y mod ?m = x mod ?m" "y < x + ?m" for x y
    using that mod_eq_dvd_iff_nat [of x y ?m] by (auto dest: dvd_imp_le)
  then show ?thesis using e assms(2,3) um_mod_window [of z] by (metis nat_le_linear)
qed

text \<open>The conditions of the code, over numbers.\<close>

lemma in_window_number:
  assumes "H \<le> n + um_width z" and "n < H + um_width z"
  shows "sn_in_reassembly_window z (um_sn z H) (um_sn z n) \<longleftrightarrow> n < H"
  using um_pos_number [OF assms] assms by (auto simp: in_reassembly_window_iff um_pos_def word_less_nat_alt)

lemma below_highest_number:
  assumes "H \<le> n + um_width z" and "n < H + um_width z"
  shows "um_rx_mod_base z (um_sn z H) (um_sn z n) < um_rx_mod_base z (um_sn z H) (um_sn z H) \<longleftrightarrow> n < H"
  using in_window_number [OF assms] by (simp add: in_reassembly_window_iff)

section \<open>Putting into the window\<close>

lemma win_find_put_any:
  assumes "win_wf w"
  shows "win_find (win_put key v w) k =
    (if k = key then Some v else if unat k mod win_width w = unat key mod win_width w then None else win_find w k)"
proof -
  have wf: "cm_wf (win_map w)" using assms by (simp add: win_wf_def)
  have i: "get_circular_idx (win_map w) x = unat x mod win_width w" for x
    using get_circular_idx_mod [OF wf] by (simp add: win_width_def)
  have j: "get_circular_idx (cm_overwrite key v (win_map w)) x = unat x mod win_width w" for x
    using i by (simp add: get_circular_idx_def)
  show ?thesis
    by (auto simp: win_find_def win_put_def cm_find_def cm_contains_def cm_overwrite_data [OF wf] i j)
qed

lemma um_slots:
  assumes "n < k + um_width z" and "k < n + um_width z" and "n \<noteq> k"
  shows "unat (um_sn z k) mod um_width z \<noteq> unat (um_sn z n) mod um_width z"
proof
  assume e: "unat (um_sn z k) mod um_width z = unat (um_sn z n) mod um_width z"
  have "unat (um_sn z x) mod um_width z = x mod um_width z" for x
    by (simp add: unat_um_sn um_mod_window(1) mod_mod_cancel)
  then have "k mod um_width z = n mod um_width z" using e by simp
  moreover have "x = y" if "x \<le> y" "y mod um_width z = x mod um_width z" "y < x + um_width z" for x y
    using that mod_eq_dvd_iff_nat [of x y "um_width z"] by (auto dest: dvd_imp_le)
  ultimately show False using assms by (metis nat_le_linear)
qed

section \<open>The loops\<close>

text \<open>The numbers from \<open>a\<close> to before \<open>b\<close> are removed from a window.\<close>

definition um_cleared :: "rlc_um_sn_size \<Rightarrow> nat \<Rightarrow> nat \<Rightarrow> rlc_rx_um_sdu_info sdu_window \<Rightarrow> rlc_rx_um_sdu_info sdu_window \<Rightarrow> bool" where
  "um_cleared z a b w w' \<longleftrightarrow> win_wf w' \<and> win_width w' = win_width w \<and>
     (\<forall>k. win_find w' k = (if \<exists>n. a \<le> n \<and> n < b \<and> k = um_sn z n then None else win_find w k))"

lemma um_cleared_refl: "win_wf w \<Longrightarrow> um_cleared z a a w w"
  by (auto simp: um_cleared_def)

lemma um_cleared_step:
  assumes "um_cleared z (Suc a) b w1 w2" and "a < b" and "win_wf w1" and "win_width w1 = win_width w"
    and "\<And>k. win_find w1 k = (if k = um_sn z a then None else win_find w k)"
  shows "um_cleared z a b w w2"
proof -
  have "(\<exists>n. a \<le> n \<and> n < b \<and> k = um_sn z n) \<longleftrightarrow> k = um_sn z a \<or> (\<exists>n. Suc a \<le> n \<and> n < b \<and> k = um_sn z n)" for k
    using assms(2) by (metis Suc_leD Suc_leI le_neq_implies_less order_refl)
  then show ?thesis using assms unfolding um_cleared_def by auto
qed

lemma um_cleared_trans: "um_cleared z a b w w1 \<Longrightarrow> um_cleared z b c w1 w2 \<Longrightarrow> a \<le> b \<Longrightarrow> b \<le> c \<Longrightarrow> um_cleared z a c w w2"
  unfolding um_cleared_def by (auto, (metis le_less_linear less_le_trans order_trans)+)

lemma um_received_del: "win_wf w \<Longrightarrow> um_received (win_del k w) x \<longleftrightarrow> x \<noteq> k \<and> um_received w x"
  by (simp add: um_received_def win.look_del)

lemma drop_received_number:
  assumes "win_wf w" and "a \<le> H" and "H \<le> a + um_width z"
  obtains a' w' where "um_drop_received z (um_sn z H) (um_sn z a) w = (um_sn z a', w')"
    and "a \<le> a'" and "a' \<le> H" and "um_cleared z a a' w w'" and "\<And>n. a \<le> n \<Longrightarrow> n < a' \<Longrightarrow> um_received w (um_sn z n)"
    and "a' < H \<Longrightarrow> \<not> um_received w (um_sn z a')"
proof -
  have "\<exists>a' w'. um_drop_received z (um_sn z H) (um_sn z a) w = (um_sn z a', w') \<and> a \<le> a' \<and> a' \<le> H \<and> um_cleared z a a' w w' \<and>
    (\<forall>n. a \<le> n \<and> n < a' \<longrightarrow> um_received w (um_sn z n)) \<and> (a' < H \<longrightarrow> \<not> um_received w (um_sn z a'))"
    using assms
  proof (induction "H - a" arbitrary: a w)
    case 0
    then have "\<not> um_rx_mod_base z (um_sn z H) (um_sn z a) < um_rx_mod_base z (um_sn z H) (um_sn z H)"
      using um_mod_window(2) [of z] by (subst below_highest_number) simp_all
    then show ?case using 0 by (subst um_drop_received.simps) (auto simp: um_cleared_refl)
  next
    case (Suc d)
    have W: "0 < um_width z" by (rule um_mod_window)
    have lt: "a < H" using Suc(2) by simp
    then have less: "um_rx_mod_base z (um_sn z H) (um_sn z a) < um_rx_mod_base z (um_sn z H) (um_sn z H)"
      using Suc(5) by (subst below_highest_number) simp_all
    show ?case
    proof (cases "um_received w (um_sn z a)")
      case False
      then show ?thesis using Suc(3) lt by (subst um_drop_received.simps) (auto simp: um_cleared_refl)
    next
      case True
      let ?w = "win_del (um_sn z a) w"
      have wf: "win_wf ?w" "win_width ?w = win_width w" using Suc(3) by (simp_all add: win.keeps)
      have d: "d = H - Suc a" and d2: "Suc a \<le> H" "H \<le> Suc a + um_width z" using Suc(2,5) lt by simp_all
      obtain a' w' where r: "um_drop_received z (um_sn z H) (um_sn z (Suc a)) ?w = (um_sn z a', w')" "Suc a \<le> a'" "a' \<le> H"
        "um_cleared z (Suc a) a' ?w w'" "\<forall>n. Suc a \<le> n \<and> n < a' \<longrightarrow> um_received ?w (um_sn z n)" "a' < H \<longrightarrow> \<not> um_received ?w (um_sn z a')"
        using Suc(1) [OF d wf(1) d2] by blast
      have "um_cleared z a a' w w'"
        by (rule um_cleared_step [OF r(4) _ wf]) (use r(2) Suc(3) in \<open>auto simp: win.look_del\<close>)
      moreover have "um_received w (um_sn z n)" if "a \<le> n" "n < a'" for n
        using that True r(5) um_received_del [OF Suc(3)] by (cases "n = a") auto
      moreover have "\<not> um_received w (um_sn z a')" if "a' < H"
      proof -
        have "um_sn z a' \<noteq> um_sn z a" using um_sn_inj [of z a' a] that r(2) Suc(5) W by auto
        then show ?thesis using r(6) that um_received_del [OF Suc(3)] by simp
      qed
      ultimately show ?thesis
        using less True r by (subst um_drop_received.simps) (auto simp: um_sn_Suc intro!: exI [of _ a'])
    qed
  qed
  then show ?thesis using that by blast
qed

lemma discard_sn_ok:
  assumes "win_wf w"
  obtains w' mt' where "um_discard_sn k (w, mt) = (w', mt')" and "win_wf w'" and "win_width w' = win_width w"
    and "\<And>x. win_find w' x = (if x = k then None else win_find w x)"
proof (cases "has_sn w k")
  case True
  then show ?thesis
    using assms by (intro that [of "win_del k w" "if um_received w k then mt else rrm_add_lost_pdus 1 mt"])
      (simp_all add: um_discard_sn_def win.keeps win.look_del)
next
  case False
  then show ?thesis
    using assms by (intro that [of w "if um_received w k then mt else rrm_add_lost_pdus 1 mt"])
      (auto simp: um_discard_sn_def has_sn_find)
qed

lemma outside_number:
  assumes "n < H" and "H \<le> n + 2 * um_width z"
  shows "sn_in_reassembly_window z (um_sn z H) (um_sn z n) \<longleftrightarrow> H \<le> n + um_width z"
proof (cases "H \<le> n + um_width z")
  case True
  then show ?thesis using in_window_number [of H n z] assms by simp
next
  case False
  have "sn_in_reassembly_window z (um_sn z H) (um_sn z (n + 2 * um_width z)) \<longleftrightarrow> n + 2 * um_width z < H"
    using assms False by (intro in_window_number) simp_all
  then show ?thesis using um_sn_cycle [of z n] um_mod_window [of z] assms(2) False by simp
qed

lemma discard_outside_number:
  assumes "win_wf w" and "a < H" and "H \<le> a + 2 * um_width z"
  obtains w' mt' where "um_discard_outside z (um_sn z H) (um_sn z a) (w, mt) = (um_sn z (max a (H - um_width z)), w', mt')"
    and "um_cleared z a (max a (H - um_width z)) w w'"
proof -
  have "\<exists>w' mt'. um_discard_outside z (um_sn z H) (um_sn z a) (w, mt) = (um_sn z (max a (H - um_width z)), w', mt') \<and>
      um_cleared z a (max a (H - um_width z)) w w'"
    using assms
  proof (induction "H - um_width z - a" arbitrary: a w mt)
    case 0
    then have m: "max a (H - um_width z) = a" and "sn_in_reassembly_window z (um_sn z H) (um_sn z a)"
      using outside_number [of a H z] by simp_all
    then show ?case unfolding m using 0(2) by (subst um_discard_outside.simps) (simp add: um_cleared_refl)
  next
    case (Suc d)
    have lt: "a < H - um_width z" using Suc(2) by simp
    then have n: "\<not> sn_in_reassembly_window z (um_sn z H) (um_sn z a)" using outside_number [OF Suc(4,5)] by simp
    obtain w1 mt1 where d: "um_discard_sn (um_sn z a) (w, mt) = (w1, mt1)" "win_wf w1" "win_width w1 = win_width w"
      "\<And>x. win_find w1 x = (if x = um_sn z a then None else win_find w x)"
      by (rule discard_sn_ok [OF Suc(3)]) (rule that)
    have m: "max (Suc a) (H - um_width z) = max a (H - um_width z)" using lt by simp
    have e: "d = H - um_width z - Suc a" and e2: "Suc a < H" "H \<le> Suc a + 2 * um_width z"
      using Suc(2,5) lt um_mod_window(2) [of z] by simp_all
    obtain w' mt' where r: "um_discard_outside z (um_sn z H) (um_sn z (Suc a)) (w1, mt1) = (um_sn z (max a (H - um_width z)), w', mt')"
      "um_cleared z (Suc a) (max a (H - um_width z)) w1 w'"
      using Suc(1) [OF e d(2) e2] unfolding m by blast
    have "um_cleared z a (max a (H - um_width z)) w w'"
      by (rule um_cleared_step [OF r(2) _ d(2,3,4)]) (use lt in simp)
    then show ?case using n r(1) d(1) by (subst um_discard_outside.simps) (simp add: um_sn_Suc)
  qed
  then show ?thesis using that by blast
qed

lemma expire_number:
  assumes "win_wf w" and "a \<le> H" and "H \<le> a + um_width z"
  obtains a' w' mt' where "um_expire z (um_sn z H) t (um_sn z a) (w, mt) = (um_sn z a', w', mt')"
    and "a \<le> a'" and "a' \<le> H" and "um_cleared z a a' w w'"
    and "\<And>n. a \<le> n \<Longrightarrow> n < a' \<Longrightarrow> um_received w (um_sn z n) \<or> n + um_width z - H < um_pos z H t"
    and "a' < H \<Longrightarrow> \<not> um_received w (um_sn z a') \<and> um_pos z H t \<le> a' + um_width z - H"
proof -
  have "\<exists>a' w' mt'. um_expire z (um_sn z H) t (um_sn z a) (w, mt) = (um_sn z a', w', mt') \<and> a \<le> a' \<and> a' \<le> H \<and> um_cleared z a a' w w' \<and>
    (\<forall>n. a \<le> n \<and> n < a' \<longrightarrow> um_received w (um_sn z n) \<or> n + um_width z - H < um_pos z H t) \<and>
    (a' < H \<longrightarrow> \<not> um_received w (um_sn z a') \<and> um_pos z H t \<le> a' + um_width z - H)"
    using assms
  proof (induction "H - a" arbitrary: a w mt)
    case 0
    then have "\<not> um_rx_mod_base z (um_sn z H) (um_sn z a) < um_rx_mod_base z (um_sn z H) (um_sn z H)"
      using um_mod_window(2) [of z] by (subst below_highest_number) simp_all
    then show ?case using 0 by (subst um_expire.simps) (auto simp: um_cleared_refl)
  next
    case (Suc d)
    have W: "0 < um_width z" by (rule um_mod_window)
    have lt: "a < H" using Suc(2) by simp
    then have less: "um_rx_mod_base z (um_sn z H) (um_sn z a) < um_rx_mod_base z (um_sn z H) (um_sn z H)"
      using Suc(5) by (subst below_highest_number) simp_all
    have pos: "um_rx_mod_base z (um_sn z H) (um_sn z a) < um_rx_mod_base z (um_sn z H) t \<longleftrightarrow> a + um_width z - H < um_pos z H t"
      using um_pos_number [of H a z] lt Suc(5) by (simp add: um_pos_def word_less_nat_alt)
    show ?case
    proof (cases "a + um_width z - H < um_pos z H t \<or> um_received w (um_sn z a)")
      case False
      then show ?thesis using Suc(3) lt pos less by (subst um_expire.simps) (auto simp: um_cleared_refl intro!: exI [of _ a])
    next
      case True
      obtain w1 mt1 where e: "um_expire z (um_sn z H) t (um_sn z a) (w, mt) = um_expire z (um_sn z H) t (um_sn z (Suc a)) (w1, mt1)"
        and w1: "win_wf w1" "win_width w1 = win_width w" "\<And>x. win_find w1 x = (if x = um_sn z a then None else win_find w x)"
      proof (cases "a + um_width z - H < um_pos z H t")
        case True
        obtain w1 mt1 where d: "um_discard_sn (um_sn z a) (w, mt) = (w1, mt1)" "win_wf w1" "win_width w1 = win_width w"
          "\<And>x. win_find w1 x = (if x = um_sn z a then None else win_find w x)"
          by (rule discard_sn_ok [OF Suc(3)]) (rule that)
        show ?thesis using True pos less d by (intro that [of w1 mt1]) (subst um_expire.simps, simp add: um_sn_Suc)
      next
        case False
        then have r: "um_received w (um_sn z a)" using True by blast
        show ?thesis
          using False pos less r Suc(3)
          by (intro that [of "win_del (um_sn z a) w" mt]) (subst um_expire.simps, auto simp: um_sn_Suc win.keeps win.look_del)
      qed
      have d: "d = H - Suc a" and d2: "Suc a \<le> H" "H \<le> Suc a + um_width z" using Suc(2,5) lt by simp_all
      have rec: "um_received w1 x \<longleftrightarrow> x \<noteq> um_sn z a \<and> um_received w x" for x by (simp add: um_received_def w1(3))
      obtain a' w' mt' where r: "um_expire z (um_sn z H) t (um_sn z (Suc a)) (w1, mt1) = (um_sn z a', w', mt')" "Suc a \<le> a'" "a' \<le> H"
        "um_cleared z (Suc a) a' w1 w'"
        "\<forall>n. Suc a \<le> n \<and> n < a' \<longrightarrow> um_received w1 (um_sn z n) \<or> n + um_width z - H < um_pos z H t"
        "a' < H \<longrightarrow> \<not> um_received w1 (um_sn z a') \<and> um_pos z H t \<le> a' + um_width z - H"
        using Suc(1) [OF d w1(1) d2] by blast
      have "um_cleared z a a' w w'"
        by (rule um_cleared_step [OF r(4) _ w1]) (use r(2) in simp)
      moreover have "um_received w (um_sn z n) \<or> n + um_width z - H < um_pos z H t" if "a \<le> n" "n < a'" for n
      proof (cases "n = a")
        case False
        then have "Suc a \<le> n" using that(1) by simp
        then show ?thesis using that(2) r(5) rec by blast
      qed (use True in blast)
      moreover have "\<not> um_received w (um_sn z a') \<and> um_pos z H t \<le> a' + um_width z - H" if "a' < H"
      proof -
        have "um_sn z a' \<noteq> um_sn z a" using um_sn_inj [of z a' a] that r(2) Suc(5) W by auto
        then show ?thesis using r(6) that rec by simp
      qed
      ultimately show ?thesis using e r by (intro exI [of _ a']) auto
    qed
  qed
  then show ?thesis using that by blast
qed

end
