(* ===== verification/Rlc_Rx_Um_Inv.thy ===== *)
theory Rlc_Rx_Um_Inv
  imports Rlc_Rx_Um_Window
begin

text \<open>
  The handling of one PDU by the receiving entity of the unacknowledged mode: it never fails, whatever
  the bytes, and, for PDUs whose SN has a number near the window, what it does to the window is said
  in terms of the numbers of SDUs.
\<close>

section \<open>No input makes it fail\<close>

lemma um_drop_received_wf: "win_wf w \<Longrightarrow> win_wf (snd (um_drop_received z h sn w))"
  by (induction z h sn w rule: um_drop_received.induct) (subst um_drop_received.simps, simp add: win.keeps)

lemma um_discard_sn_wf: "win_wf (fst wm) \<Longrightarrow> win_wf (fst (um_discard_sn sn wm))"
  by (cases wm) (simp add: um_discard_sn_def win.keeps)

lemma um_discard_outside_wf: "win_wf (fst wm) \<Longrightarrow> win_wf (fst (snd (um_discard_outside z h sn wm)))"
  by (induction z h sn wm rule: um_discard_outside.induct) (subst um_discard_outside.simps, simp add: um_discard_sn_wf)

lemma um_expire_wf: "win_wf (fst wm) \<Longrightarrow> win_wf (fst (snd (um_expire z h t sn wm)))"
  by (induction z h t sn wm rule: um_expire.induct) (subst um_expire.simps, simp add: um_discard_sn_wf win.keeps)

text \<open>The segment of a PDU, and the information of its SDU once it is stored.\<close>

definition um_segment_of :: "rlc_um_pdu_header \<Rightarrow> bytes \<Rightarrow> rlc_rx_um_sdu_segment" where
  "um_segment_of h payload = \<lparr>seg_si = uh_si h, seg_so = uh_so h, seg_payload = payload\<rparr>"

definition um_info_at :: "rlc_rx_um_sdu_info sdu_window \<Rightarrow> u32 \<Rightarrow> rlc_rx_um_sdu_info" where
  "um_info_at w sn = (case win_find w sn of None \<Rightarrow> um_info_init | Some info \<Rightarrow> info)"

definition um_new_info :: "rlc_um_pdu_header \<Rightarrow> bytes \<Rightarrow> rlc_rx_um_sdu_info \<Rightarrow> rlc_rx_um_sdu_info" where
  "um_new_info h payload info = um_update_segment_inventory (snd (um_store_segment info (um_segment_of h payload)))"

text \<open>A window in which the entry of an SN is replaced; whatever shares its slot is gone.\<close>

definition um_entered :: "u32 \<Rightarrow> rlc_rx_um_sdu_info \<Rightarrow> rlc_rx_um_sdu_info sdu_window \<Rightarrow> rlc_rx_um_sdu_info sdu_window \<Rightarrow> bool" where
  "um_entered sn info w w' \<longleftrightarrow> win_wf w' \<and> win_width w' = win_width w \<and>
     (\<forall>k. win_find w' k = (if k = sn then Some info
            else if unat k mod win_width w = unat sn mod win_width w then None else win_find w k))"

lemma um_entered_put: "win_wf w \<Longrightarrow> um_entered sn info w (win_put sn info w)"
  by (simp add: um_entered_def win.keeps win_find_put_any)

lemma um_entered_again: "um_entered sn i w w1 \<Longrightarrow> um_entered sn j w1 w2 \<Longrightarrow> um_entered sn j w w2"
  by (auto simp: um_entered_def)

lemma segment_data_ok:
  assumes "win_wf (um_window s)" and "uh_si h \<noteq> Full_sdu"
  obtains stored w where "um_handle_segment_data_sdu h payload s = Inr (stored, s\<lparr>um_window := w\<rparr>)"
    and "um_entered (ucast (uh_sn h)) (um_new_info h payload (um_info_at (um_window s) (ucast (uh_sn h)))) (um_window s) w"
proof -
  let ?sn = "ucast (uh_sn h) :: u32" and ?w = "um_window s"
  define w1 where "w1 = (if has_sn ?w ?sn then ?w else win_put ?sn um_info_init ?w)"
  have w1: "win_wf w1" "win_width w1 = win_width ?w" "win_find w1 ?sn = Some (um_info_at ?w ?sn)"
    using assms(1) by (auto simp: w1_def win.keeps win_find_put_any um_info_at_def has_sn_find)
  have a: "(if has_sn ?w ?sn then Inr ?w else add_sn ?sn um_info_init ?w) = Inr w1" by (simp add: w1_def add_sn_put)
  let ?i = "um_new_info h payload (um_info_at ?w ?sn)"
  obtain stored i where st: "um_store_segment (um_info_at ?w ?sn) (um_segment_of h payload) = (stored, i)" by force
  have "um_handle_segment_data_sdu h payload s = Inr (stored, s\<lparr>um_window := win_put ?sn ?i w1\<rparr>)"
    using a assms(2) w1 st by (simp add: um_handle_segment_data_sdu_def win_at_find win_update_find um_new_info_def um_segment_of_def)
  moreover have "um_entered ?sn ?i ?w (win_put ?sn ?i w1)"
    using um_entered_put [OF w1(1), of ?sn ?i] um_entered_put [OF assms(1), of ?sn um_info_init] um_entered_again
    by (cases "has_sn ?w ?sn") (auto simp: w1_def)
  ultimately show ?thesis by (rule that)
qed

definition um_rx_total :: "rlc_rx_um_entity \<Rightarrow> bool" where
  "um_rx_total s \<longleftrightarrow> win_wf (um_window s) \<and> 0 < ruc_t_reassembly (um_cfg s)"

lemma um_placed_total:
  assumes "win_wf (um_window s)"
  obtains sdus s' where "um_placed chain_ok sn s = Inr (sdus, s')" and "win_wf (um_window s')" and "um_cfg s' = um_cfg s" and "length sdus \<le> 1"
proof -
  let ?z = "um_size s" and ?st = "um_st s"
  consider (full) "um_received (um_window s) sn" | (out) "\<not> um_received (um_window s) sn" "\<not> sn_in_reassembly_window ?z (um_next_highest ?st) sn"
    | (other) "\<not> um_received (um_window s) sn" "sn_in_reassembly_window ?z (um_next_highest ?st) sn" by blast
  then show ?thesis
  proof cases
    case full
    then obtain info where f: "win_find (um_window s) sn = Some info" by (auto simp: um_received_def split: option.splits)
    let ?w = "win_put sn (info\<lparr>um_segments := []\<rparr>) (um_window s)"
    have w: "win_wf ?w" using assms by (simp add: win.keeps)
    obtain sn2 w2 where d: "um_drop_received ?z (um_next_highest ?st) (um_next_reassembly ?st mod um_mod_of ?z) ?w = (sn2, w2)" by force
    then have w2: "win_wf w2" using um_drop_received_wf [OF w, of ?z "um_next_highest ?st" "um_next_reassembly ?st mod um_mod_of ?z"] by simp
    obtain sdus m where r: "(case um_reassemble_sdu chain_ok info of
        None \<Rightarrow> ([], rrm_add_lost_pdus 1 (um_metrics s))
      | Some sdu \<Rightarrow> ([sdu], rrm_add_sdus 1 (length sdu) (um_metrics s))) = (sdus, m)" "length sdus \<le> 1"
      by (cases "um_reassemble_sdu chain_ok info") auto
    let ?s' = "if sn = um_next_reassembly ?st then s\<lparr>um_window := w2, um_metrics := m, um_st := ?st\<lparr>um_next_reassembly := sn2\<rparr>\<rparr>
      else s\<lparr>um_window := ?w, um_metrics := m\<rparr>"
    have "um_placed chain_ok sn s = Inr (sdus, ?s')"
      using full f d assms r(1) by (cases "sn = um_next_reassembly ?st") (simp_all add: um_placed_def Let_def win_at_find win_update_find)
    moreover have "win_wf (um_window ?s')" "um_cfg ?s' = um_cfg s" using w w2 by simp_all
    ultimately show ?thesis using r(2) by (rule that)
  next
    case out
    let ?h = "(sn + 1) mod um_mod_of ?z"
    obtain sn1 w1 m1 where d: "um_discard_outside ?z ?h (um_next_reassembly ?st mod um_mod_of ?z) (um_window s, um_metrics s) = (sn1, w1, m1)"
      by (metis prod_cases3)
    obtain sn2 w2 where e: "um_drop_received ?z ?h sn1 w1 = (sn2, w2)" by force
    have "win_wf w1" using um_discard_outside_wf [of "(um_window s, um_metrics s)" ?z ?h "um_next_reassembly ?st mod um_mod_of ?z"] assms d by simp
    then have "win_wf w2" using um_drop_received_wf [of w1 ?z ?h sn1] e by simp
    then show ?thesis using out d e that by (simp add: um_placed_def Let_def)
  next
    case other
    then show ?thesis using assms that by (simp add: um_placed_def Let_def)
  qed
qed

lemma um_timer_total:
  assumes "0 < ruc_t_reassembly (um_cfg s)"
  obtains b t where "um_start_reassembly (um_stop_reassembly s) =
      Inr (s\<lparr>um_reassembly_timer := b, um_st := (um_st s)\<lparr>um_timer_trigger := t\<rparr>\<rparr>)"
    and "t = um_timer_trigger (um_st s) \<or> t = um_next_highest (um_st s)"
proof -
  obtain b where b: "um_stop_reassembly s = s\<lparr>um_reassembly_timer := b\<rparr>"
    unfolding um_stop_reassembly_def Let_def by (metis rlc_rx_um_entity.surjective rlc_rx_um_entity.update_convs(4))
  have id: "s\<lparr>um_reassembly_timer := b\<rparr> = s\<lparr>um_reassembly_timer := b, um_st := (um_st s)\<lparr>um_timer_trigger := um_timer_trigger (um_st s)\<rparr>\<rparr>" by simp
  show ?thesis
  proof (cases "\<not> b \<and> um_restart_condition (um_stop_reassembly s)")
    case True
    then have "um_restart_condition (s\<lparr>um_reassembly_timer := False\<rparr>)" "um_stop_reassembly s = s\<lparr>um_reassembly_timer := False\<rparr>"
      using b by (cases b; simp)+
    then show ?thesis using assms that [where b = True and t = "um_next_highest (um_st s)"] by (simp add: um_start_reassembly_def um_run_timer_def)
  next
    case False
    then show ?thesis using b id that [where b = b and t = "um_timer_trigger (um_st s)"] by (auto simp: um_start_reassembly_def)
  qed
qed

lemma um_handle_pdu_ok:
  assumes "um_rx_total s"
  obtains sdus s' where "um_handle_pdu chain_ok buf s = Inr (sdus, s')" and "um_rx_total s'" and "um_cfg s' = um_cfg s" and "length sdus \<le> 1"
proof -
  let ?s = "s\<lparr>um_metrics := rrm_add_pdus 1 (length buf) (um_metrics s)\<rparr>"
  have s: "win_wf (um_window ?s)" "0 < ruc_t_reassembly (um_cfg ?s)" using assms by (simp_all add: um_rx_total_def)
  have seg: "\<exists>sdus s'. um_handle_segment chain_ok h payload ?s = Inr (sdus, s') \<and> um_rx_total s' \<and> um_cfg s' = um_cfg s \<and> length sdus \<le> 1"
    if si: "uh_si h \<noteq> Full_sdu" for h payload
  proof (cases "sn_invalid_for_rx_buffer (um_size ?s) (um_st ?s) (ucast (uh_sn h))")
    case True
    then show ?thesis using s by (simp add: um_handle_segment_def um_rx_total_def)
  next
    case False
    obtain stored w where a: "um_handle_segment_data_sdu h payload ?s = Inr (stored, ?s\<lparr>um_window := w\<rparr>)"
      "um_entered (ucast (uh_sn h)) (um_new_info h payload (um_info_at (um_window ?s) (ucast (uh_sn h)))) (um_window ?s) w"
      by (rule segment_data_ok [OF s(1) si]) (rule that)
    have w: "win_wf (um_window (?s\<lparr>um_window := w\<rparr>))" using a(2) by (simp add: um_entered_def)
    obtain sdus s2 where p: "um_placed chain_ok (ucast (uh_sn h)) (?s\<lparr>um_window := w\<rparr>) = Inr (sdus, s2)" "win_wf (um_window s2)"
      "um_cfg s2 = um_cfg (?s\<lparr>um_window := w\<rparr>)" "length sdus \<le> 1"
      by (rule um_placed_total [OF w]) (rule that)
    obtain b t where "um_start_reassembly (um_stop_reassembly s2) = Inr (s2\<lparr>um_reassembly_timer := b, um_st := (um_st s2)\<lparr>um_timer_trigger := t\<rparr>\<rparr>)"
      by (rule um_timer_total [of s2]) (use p(3) s(2) in auto)
    then show ?thesis using False a(1) p s by (simp add: um_handle_segment_def um_rx_total_def)
  qed
  have "\<exists>sdus s'. um_handle_pdu chain_ok buf s = Inr (sdus, s') \<and> um_rx_total s' \<and> um_cfg s' = um_cfg s \<and> length sdus \<le> 1"
  proof (cases "rlc_um_read_data_pdu_header buf (um_size ?s)")
    case None
    then show ?thesis using s by (simp add: um_handle_pdu_def um_rx_total_def)
  next
    case (Some h)
    then show ?thesis using s seg [of h] by (simp add: um_handle_pdu_def um_rx_total_def Let_def)
  qed
  then show ?thesis using that by blast
qed

lemma um_expired_total:
  assumes "um_rx_total s"
  obtains s' where "um_on_expired_reassembly_timer s = Inr s'" and "um_rx_total s'" and "um_cfg s' = um_cfg s"
proof -
  let ?st = "um_st s"
  obtain sn w m where e: "um_expire (um_size s) (um_next_highest ?st) (um_timer_trigger ?st) (um_next_reassembly ?st) (um_window s, um_metrics s) = (sn, w, m)"
    by (metis prod_cases3)
  have "win_wf w" using um_expire_wf [of "(um_window s, um_metrics s)"] assms e by (metis fst_conv snd_conv um_rx_total_def)
  let ?s = "s\<lparr>um_window := w, um_metrics := m, um_st := ?st\<lparr>um_next_reassembly := sn\<rparr>\<rparr>"
  obtain s' where "(if um_restart_condition ?s then um_run_timer ?s else Inr ?s) = Inr s'" "um_window s' = w" "um_cfg s' = um_cfg s"
    using assms by (cases "um_restart_condition ?s") (simp_all add: um_run_timer_def um_rx_total_def)
  then show ?thesis using that [of s'] e assms \<open>win_wf w\<close> by (simp add: um_on_expired_reassembly_timer_def Let_def um_rx_total_def)
qed

section \<open>The invariant\<close>

definition um_info_ok :: "rlc_rx_um_sdu_info \<Rightarrow> bool" where
  "um_info_ok info \<longleftrightarrow> segs_ok (um_segments info) \<and>
     (if um_fully_received info then um_segments info = [] else inventory 0 (um_segments info) = (False, um_has_gap info))"

text \<open>
  The state when the SDU at \<open>RX_Next_Reassembly\<close> has number \<open>A\<close> and the one at \<open>RX_Next_Highest\<close> number \<open>H\<close>:
  the window holds SDUs of numbers from \<open>A\<close> to before \<open>H\<close>, and the one of number \<open>A\<close> is not complete.
\<close>

definition um_rx_at :: "rlc_rx_um_entity \<Rightarrow> nat \<Rightarrow> nat \<Rightarrow> bool" where
  "um_rx_at s A H \<longleftrightarrow> um_rx_total s \<and> um_next_reassembly (um_st s) = um_sn (um_size s) A \<and> um_next_highest (um_st s) = um_sn (um_size s) H \<and>
     A \<le> H \<and> H \<le> A + um_width (um_size s) \<and> win_width (um_window s) = um_width (um_size s) \<and>
     (\<forall>k. win_find (um_window s) k \<noteq> None \<longrightarrow> (\<exists>n. A \<le> n \<and> n < H \<and> k = um_sn (um_size s) n)) \<and>
     (\<forall>k info. win_find (um_window s) k = Some info \<longrightarrow> um_info_ok info) \<and>
     \<not> um_received (um_window s) (um_sn (um_size s) A) \<and>
     unat (um_timer_trigger (um_st s)) < unat (um_mod_of (um_size s))"

definition um_released :: "rlc_rx_um_sdu_info \<Rightarrow> rlc_rx_um_sdu_info" where
  "um_released info = (if um_fully_received info then info\<lparr>um_segments := []\<rparr> else info)"

lemma um_info_at_ok: "um_rx_at s A H \<Longrightarrow> um_info_ok (um_info_at (um_window s) k)"
  by (auto simp: um_rx_at_def um_info_at_def um_info_ok_def um_info_init_def segs_ok_def split: option.splits)

lemma um_released_ok:
  assumes "um_info_ok info" and "seg_wf (um_segment_of h payload)"
  shows "um_info_ok (um_released (um_new_info h payload info))" and "segs_ok (um_segments (um_new_info h payload info))"
proof -
  obtain stored ss where e: "store_loop [] (um_segments info) (um_segment_of h payload) = (stored, ss)" by force
  have "segs_ok (um_segments info)" using assms(1) by (simp add: um_info_ok_def)
  then have ss: "segs_ok ss" using store_loop_stores [of "[]" "um_segments info" "um_segment_of h payload"] assms(2) e by (simp add: stores_def)
  obtain full gap where i: "inventory 0 ss = (full, gap)" by force
  have n: "um_segments (um_new_info h payload info) = ss" "um_fully_received (um_new_info h payload info) = full"
    "um_has_gap (um_new_info h payload info) = gap"
    using e i by (simp_all add: um_new_info_def um_store_segment_def um_update_segment_inventory_def)
  show "segs_ok (um_segments (um_new_info h payload info))" using ss n by simp
  show "um_info_ok (um_released (um_new_info h payload info))"
    using ss i n by (simp add: um_info_ok_def um_released_def segs_ok_def)
qed

lemma um_cleared_number:
  assumes "um_cleared z a b w w'" and "a \<le> b" and "b \<le> n" and "n < a + 2 * um_width z"
  shows "win_find w' (um_sn z n) = win_find w (um_sn z n)"
  using assms um_sn_inj [of z n] unfolding um_cleared_def by (auto, fastforce)

text \<open>The lower edge moves to the first SDU that is not complete; the rest of the window is as before.\<close>

lemma um_rx_at_moved:
  assumes at: "um_rx_at s A H" and A': "A \<le> A'" "A' \<le> H'" "H' \<le> A' + um_width (um_size s)" "H \<le> H'" "H' \<le> A + 2 * um_width (um_size s)"
    and s': "um_next_reassembly (um_st s') = um_sn (um_size s) A'" "um_next_highest (um_st s') = um_sn (um_size s) H'" "um_cfg s' = um_cfg s"
      "unat (um_timer_trigger (um_st s')) < unat (um_mod_of (um_size s))"
    and cl: "um_cleared (um_size s) A A' w (um_window s')" and w: "win_width w = um_width (um_size s)"
      "\<And>k i. win_find w k = Some i \<Longrightarrow> um_info_ok i \<and> (\<exists>n. A \<le> n \<and> n < H' \<and> k = um_sn (um_size s) n)"
      "\<not> um_received w (um_sn (um_size s) A') \<or> A' = H'"
  shows "um_rx_at s' A' H'"
proof -
  let ?z = "um_size s"
  have W: "0 < um_width ?z" by (rule um_mod_window)
  have find: "win_find (um_window s') k = (if \<exists>n. A \<le> n \<and> n < A' \<and> k = um_sn ?z n then None else win_find w k)" for k
    using cl by (simp add: um_cleared_def)
  have key: "\<exists>n. A' \<le> n \<and> n < H' \<and> k = um_sn ?z n" if "win_find (um_window s') k \<noteq> None" for k
  proof -
    have nf: "\<not> (\<exists>n. A \<le> n \<and> n < A' \<and> k = um_sn ?z n)" "win_find w k \<noteq> None" using that find [of k] by (auto split: if_splits)
    then obtain n where n: "A \<le> n" "n < H'" "k = um_sn ?z n" using w(2) by blast
    then have "A' \<le> n" using nf(1) by (metis not_le)
    then show ?thesis using n by blast
  qed
  have "um_info_ok i" if "win_find (um_window s') k = Some i" for k i
    using that find [of k] w(2) by (auto split: if_splits)
  moreover have "\<not> um_received (um_window s') (um_sn ?z A')"
  proof (cases "A' = H'")
    case True
    have "win_find (um_window s') (um_sn ?z A') = None"
    proof (rule ccontr)
      assume "win_find (um_window s') (um_sn ?z A') \<noteq> None"
      then obtain n where "A' \<le> n" "n < H'" using key by blast
      then show False using True by simp
    qed
    then show ?thesis by (simp add: um_received_def)
  next
    case False
    then have "\<not> um_received w (um_sn ?z A')" using w(3) by blast
    then show ?thesis using find [of "um_sn ?z A'"] by (simp add: um_received_def)
  qed
  ultimately show ?thesis
    using at s' A' cl w(1) key unfolding um_rx_at_def um_rx_total_def um_cleared_def by simp
qed

lemma um_rx_at_timer:
  assumes "um_rx_at s A H" and "t = um_timer_trigger (um_st s) \<or> t = um_next_highest (um_st s)"
  shows "um_rx_at (s\<lparr>um_reassembly_timer := b, um_st := (um_st s)\<lparr>um_timer_trigger := t\<rparr>\<rparr>) A H"
  using assms um_sn_less [of "um_size s" H] by (auto simp: um_rx_at_def um_rx_total_def)

text \<open>An SN below the lower edge, by at most one window, is not placed.\<close>

lemma um_below_number:
  assumes "um_rx_at s A H" and "H \<le> n + um_width (um_size s)" and "n < H + um_width (um_size s)"
  shows "sn_invalid_for_rx_buffer (um_size s) (um_st s) (um_sn (um_size s) n) \<longleftrightarrow> n < A"
proof -
  let ?z = "um_size s"
  have A: "A \<le> H" "H \<le> A + um_width ?z" "0 < um_width ?z" using assms(1) um_mod_window(2) by (simp_all add: um_rx_at_def)
  have "um_pos ?z H (um_sn ?z n) = n + um_width ?z - H" "um_pos ?z H (um_sn ?z A) = A + um_width ?z - H"
    using assms(2,3) A by (simp_all add: um_pos_number)
  then show ?thesis
    using assms A by (auto simp: sn_invalid_iff um_rx_at_def um_pos_def word_less_nat_alt)
qed

text \<open>
  What placing a segment of number \<open>n\<close> does to the numbers of the edges and to the window.
\<close>

definition um_window_step :: "rlc_rx_um_entity \<Rightarrow> nat \<Rightarrow> nat \<Rightarrow> nat \<Rightarrow> rlc_rx_um_sdu_info \<Rightarrow> rlc_rx_um_entity \<Rightarrow> nat \<Rightarrow> bool" where
  "um_window_step s A H n info s' A' \<longleftrightarrow> um_rx_at s' A' (max H (Suc n)) \<and> um_cfg s' = um_cfg s \<and> A \<le> A' \<and>
     (\<forall>k. A' \<le> k \<and> k < max H (Suc n) \<longrightarrow>
        win_find (um_window s') (um_sn (um_size s) k) = (if k = n then Some (um_released info) else win_find (um_window s) (um_sn (um_size s) k)))"

lemma um_entered_number:
  assumes "um_entered (um_sn z n) info w w'" and "win_width w = um_width z" and "n < k + um_width z" and "k < n + um_width z"
  shows "win_find w' (um_sn z k) = (if k = n then Some info else win_find w (um_sn z k))"
  using assms um_slots [of n k z] um_sn_inj [of z k n] by (auto simp: um_entered_def)

lemma um_entered_keys:
  assumes "um_entered (um_sn z n) info w w'" and "um_info_ok info" and "A \<le> n" and "n < H'" and "H \<le> H'"
    and "\<And>k i. win_find w k = Some i \<Longrightarrow> um_info_ok i \<and> (\<exists>n. A \<le> n \<and> n < H \<and> k = um_sn z n)"
  shows "win_find w' k = Some i \<Longrightarrow> um_info_ok i \<and> (\<exists>n. A \<le> n \<and> n < H' \<and> k = um_sn z n)"
  using assms unfolding um_entered_def by (auto split: if_splits) (meson less_le_trans)

end
