(* ===== verification/Rlc_Rx_Um_Delivery.thy ===== *)
theory Rlc_Rx_Um_Delivery
  imports Rlc_Rx_Um_Inv
begin

text \<open>
  The unacknowledged receiver over whole runs. First the handling of one segment with a number near
  the window, and of the expired timer, in terms of the numbers of SDUs; then the runs in which the
  PDUs of a transmitter arrive lost, late or out of order, but not twice, and what they deliver.
\<close>

section \<open>One segment\<close>

lemma um_entered_received:
  assumes "um_entered (um_sn z n) info w w'" and "um_received w' k"
  shows "k = um_sn z n \<and> um_fully_received info \<or> k \<noteq> um_sn z n \<and> um_received w k"
  using assms by (auto simp: um_entered_def um_received_def split: if_splits option.splits)

text \<open>
  The position of a segment relative to the window, and what is then true after it was placed:
  numbers below the new lower edge were complete or fell out of the window.
\<close>

definition um_left :: "rlc_rx_um_entity \<Rightarrow> nat \<Rightarrow> nat \<Rightarrow> rlc_rx_um_sdu_info \<Rightarrow> nat \<Rightarrow> nat \<Rightarrow> bool" where
  "um_left s A n info H' A' \<longleftrightarrow> (\<forall>k. A \<le> k \<and> k < A' \<longrightarrow>
     k + um_width (um_size s) < H' \<or> (if k = n then um_fully_received info else um_received (um_window s) (um_sn (um_size s) k)))"

lemma um_placed_full:
  assumes at: "um_rx_at s A H" and n: "A \<le> n" "n < H" and info: "um_fully_received info" "um_info_ok (um_released info)"
    and w: "um_entered (um_sn (um_size s) n) info (um_window s) w"
  obtains A' s' where "um_placed chain_ok (um_sn (um_size s) n) (s\<lparr>um_window := w\<rparr>) =
      Inr (if chain_ok then [concat (map seg_payload (um_segments info))] else [], s')"
    and "um_window_step s A H n info s' A'" and "um_left s A n info (max H (Suc n)) A'"
proof -
  let ?z = "um_size s" and ?st = "um_st s"
  let ?W = "um_width ?z" and ?sn = "um_sn ?z n" and ?s = "s\<lparr>um_window := w\<rparr>"
  let ?out = "if chain_ok then [concat (map seg_payload (um_segments info))] else []"
  have W: "0 < ?W" by (rule um_mod_window)
  have A: "A \<le> H" "H \<le> A + ?W" "win_width (um_window s) = ?W" "win_wf (um_window s)"
    "um_next_reassembly ?st = um_sn ?z A" "um_next_highest ?st = um_sn ?z H" "\<not> um_received (um_window s) (um_sn ?z A)"
    using at by (simp_all add: um_rx_at_def um_rx_total_def)
  have keys: "\<And>k i. win_find (um_window s) k = Some i \<Longrightarrow> um_info_ok i \<and> (\<exists>n. A \<le> n \<and> n < H \<and> k = um_sn ?z n)"
    using at unfolding um_rx_at_def by blast
  have wf: "win_wf w" "win_width w = ?W" and f: "win_find w ?sn = Some info" using w A by (auto simp: um_entered_def)
  let ?w = "win_put ?sn (um_released info) w"
  have w': "um_entered ?sn (um_released info) (um_window s) ?w"
    using um_entered_again [OF w um_entered_put [OF wf(1)]] .
  have wf': "win_wf ?w" "win_width ?w = ?W" using w' A by (simp_all add: um_entered_def)
  have full: "um_received w ?sn" using f info by (simp add: um_received_def)
  have rel: "um_released info = info\<lparr>um_segments := []\<rparr>" using info by (simp add: um_released_def)
  define m where "m = (if chain_ok then rrm_add_sdus 1 (length (concat (map seg_payload (um_segments info)))) (um_metrics s)
    else rrm_add_lost_pdus 1 (um_metrics s))"
  have r: "um_reassemble_sdu chain_ok info = (if chain_ok then Some (concat (map seg_payload (um_segments info))) else None)"
    using info by (simp add: um_reassemble_sdu_def)
  have H: "max H (Suc n) = H" using n by simp
  have num: "win_find ?w (um_sn ?z k) = (if k = n then Some (um_released info) else win_find (um_window s) (um_sn ?z k))"
    if "A \<le> k" "k < H" for k
    using um_entered_number [OF w' A(3), of k] that n A by simp
  have keys': "um_info_ok i \<and> (\<exists>n. A \<le> n \<and> n < H \<and> k = um_sn ?z n)" if "win_find ?w k = Some i" for k i
    using um_entered_keys [OF w' info(2) n(1) n(2) order.refl keys that] by blast
  show ?thesis
  proof (cases "n = A")
    case True
    obtain A' w2 where d: "um_drop_received ?z (um_sn ?z H) (um_sn ?z A) ?w = (um_sn ?z A', w2)" "A \<le> A'" "A' \<le> H" "um_cleared ?z A A' ?w w2"
      "\<And>n. A \<le> n \<Longrightarrow> n < A' \<Longrightarrow> um_received ?w (um_sn ?z n)" "A' < H \<Longrightarrow> \<not> um_received ?w (um_sn ?z A')"
      by (rule drop_received_number [OF wf'(1) A(1,2)]) (rule that)
    let ?s' = "s\<lparr>um_window := w2, um_metrics := m, um_st := ?st\<lparr>um_next_reassembly := um_sn ?z A'\<rparr>\<rparr>"
    have "um_placed chain_ok ?sn ?s = Inr (?out, ?s')"
      using full f wf r d(1) A True rel by (cases chain_ok) (simp_all add: m_def um_placed_def Let_def win_at_find win_update_find)
    moreover have "\<not> um_received ?w (um_sn ?z A') \<or> A' = H" using d(3,6) by (cases "A' = H") simp_all
    then have "um_rx_at ?s' A' H"
      by (intro um_rx_at_moved [OF at d(2,3) _ _ _ _ _ _ _ _ wf'(2) keys'])
        (use d(2,3,4) A at in \<open>auto simp: um_rx_at_def\<close>)
    moreover have "win_find w2 (um_sn ?z k) = (if k = n then Some (um_released info) else win_find (um_window s) (um_sn ?z k))"
      if "A' \<le> k" "k < H" for k
      using um_cleared_number [OF d(4) d(2) that(1)] num [of k] that d(2) A W by simp
    moreover have "um_left s A n info H A'"
      using d(3,5) num A n info unfolding um_left_def um_received_def by (metis (no_types, lifting) less_le_trans option.simps(5))
    ultimately show ?thesis using that [where A' = A' and s' = "?s'"] d(2) H by (simp add: um_window_step_def)
  next
    case False
    let ?s' = "s\<lparr>um_window := ?w, um_metrics := m\<rparr>"
    have ne: "?sn \<noteq> um_sn ?z A" using um_sn_inj [of ?z n A] False n A W by auto
    have "um_placed chain_ok ?sn ?s = Inr (?out, ?s')"
      using full f wf r A ne rel by (cases chain_ok) (simp_all add: m_def um_placed_def Let_def win_at_find win_update_find)
    moreover have "\<not> um_received ?w (um_sn ?z A)"
      using num [of A] A(7) False n by (simp add: um_received_def)
    then have "um_rx_at ?s' A H"
      by (intro um_rx_at_moved [OF at order.refl _ _ _ _ _ _ _ _ _ wf'(2) keys'])
        (use A at in \<open>auto simp: um_rx_at_def wf' um_cleared_refl\<close>)
    ultimately show ?thesis
      using that [where A' = A and s' = "?s'"] num H by (simp add: um_window_step_def um_left_def)
  qed
qed

lemma um_placed_rest:
  assumes at: "um_rx_at s A H" and n: "A \<le> n" "n < H + um_width (um_size s)" "H \<le> n + um_width (um_size s)"
    and info: "\<not> um_fully_received info" "um_info_ok info"
    and w: "um_entered (um_sn (um_size s) n) info (um_window s) w"
  obtains A' s' where "um_placed chain_ok (um_sn (um_size s) n) (s\<lparr>um_window := w\<rparr>) = Inr ([], s')"
    and "um_window_step s A H n info s' A'" and "um_left s A n info (max H (Suc n)) A'"
proof -
  let ?z = "um_size s" and ?st = "um_st s"
  let ?W = "um_width ?z" and ?sn = "um_sn ?z n" and ?s = "s\<lparr>um_window := w\<rparr>"
  have W: "0 < ?W" by (rule um_mod_window)
  have A: "A \<le> H" "H \<le> A + ?W" "win_width (um_window s) = ?W" "win_wf (um_window s)"
    "um_next_reassembly ?st = um_sn ?z A" "um_next_highest ?st = um_sn ?z H" "\<not> um_received (um_window s) (um_sn ?z A)"
    using at by (simp_all add: um_rx_at_def um_rx_total_def)
  have keys: "\<And>k i. win_find (um_window s) k = Some i \<Longrightarrow> um_info_ok i \<and> (\<exists>n. A \<le> n \<and> n < H \<and> k = um_sn ?z n)"
    using at unfolding um_rx_at_def by blast
  have wf: "win_wf w" "win_width w = ?W" and f: "win_find w ?sn = Some info" using w A by (auto simp: um_entered_def)
  have not_full: "\<not> um_received w ?sn" using f info by (simp add: um_received_def)
  have rel: "um_released info = info" using info by (simp add: um_released_def)
  define H' where "H' = max H (Suc n)"
  have H': "H \<le> H'" "n < H'" by (simp_all add: H'_def)
  have num: "win_find w (um_sn ?z k) = (if k = n then Some (um_released info) else win_find (um_window s) (um_sn ?z k))"
    if "A \<le> k" "k < H'" "H' \<le> k + ?W" for k
    using um_entered_number [OF w A(3), of k] that n A W H' unfolding rel by (simp add: H'_def max_def split: if_splits)
  have keys': "um_info_ok i \<and> (\<exists>n. A \<le> n \<and> n < H' \<and> k = um_sn ?z n)" if "win_find w k = Some i" for k i
    using um_entered_keys [OF w info(2) n(1) H'(2) H'(1) keys that] by blast
  have inw: "sn_in_reassembly_window ?z (um_next_highest ?st) ?sn \<longleftrightarrow> n < H" using in_window_number [OF n(3,2)] A(6) by simp
  show ?thesis
  proof (cases "n < H")
    case True
    then have e: "H' = H" by (simp add: H'_def)
    have "um_placed chain_ok ?sn ?s = Inr ([], ?s)"
      using not_full inw True by (simp add: um_placed_def Let_def)
    moreover have "\<not> um_received w (um_sn ?z A)"
    proof (cases "A < H")
      case True
      then show ?thesis using num [of A] A e info by (auto simp: um_received_def rel)
    next
      case False
      then show ?thesis using True n by simp
    qed
    then have "um_rx_at ?s A H"
      by (intro um_rx_at_moved [OF at order.refl _ _ _ _ _ _ _ _ _ wf(2) keys' [unfolded e]])
        (use A at in \<open>auto simp: um_rx_at_def wf um_cleared_refl\<close>)
    ultimately show ?thesis
      using that [where A' = A and s' = ?s] num A e by (simp add: um_window_step_def um_left_def H'_def [symmetric])
  next
    case False
    then have e: "H' = Suc n" by (simp add: H'_def)
    have up: "(?sn + 1) mod um_mod_of ?z = um_sn ?z H'" by (simp add: um_sn_Suc e)
    have b: "A < H'" "H' \<le> A + 2 * ?W" using A n e False by simp_all
    obtain w1 m1 where d: "um_discard_outside ?z (um_sn ?z H') (um_sn ?z A) (w, um_metrics s) = (um_sn ?z (max A (H' - ?W)), w1, m1)"
      "um_cleared ?z A (max A (H' - ?W)) w w1"
      by (rule discard_outside_number [OF wf(1) b]) (rule that)
    let ?a = "max A (H' - ?W)"
    have w1: "win_wf w1" and a: "?a \<le> H'" "H' \<le> ?a + ?W" using d(2) b by (auto simp: um_cleared_def)
    obtain A' w2 where r: "um_drop_received ?z (um_sn ?z H') (um_sn ?z ?a) w1 = (um_sn ?z A', w2)" "?a \<le> A'" "A' \<le> H'" "um_cleared ?z ?a A' w1 w2"
      "\<And>n. ?a \<le> n \<Longrightarrow> n < A' \<Longrightarrow> um_received w1 (um_sn ?z n)" "A' < H' \<Longrightarrow> \<not> um_received w1 (um_sn ?z A')"
      by (rule drop_received_number [OF w1 a]) (rule that)
    let ?s' = "s\<lparr>um_window := w2, um_metrics := m1, um_st := ?st\<lparr>um_next_highest := um_sn ?z H', um_next_reassembly := um_sn ?z A'\<rparr>\<rparr>"
    have cl: "um_cleared ?z A A' w w2" using um_cleared_trans [OF d(2) r(4)] r(2) by simp
    have w1_num: "win_find w1 (um_sn ?z k) = win_find w (um_sn ?z k)" if "?a \<le> k" "k < H'" for k
      using um_cleared_number [OF d(2) _ that(1)] that b by simp
    have "um_placed chain_ok ?sn ?s = Inr ([], ?s')"
      using not_full inw False up d(1) r(1) A by (simp add: um_placed_def Let_def)
    moreover have "\<not> um_received w (um_sn ?z A') \<or> A' = H'"
      using r(2,3,6) w1_num [of A'] by (cases "A' = H'") (auto simp: um_received_def)
    then have "um_rx_at ?s' A' H'"
      by (intro um_rx_at_moved [OF at _ r(3) _ H'(1) b(2) _ _ _ _ _ wf(2) keys'])
        (use A at a r(2) cl in \<open>auto simp: um_rx_at_def\<close>)
    moreover have "win_find w2 (um_sn ?z k) = (if k = n then Some (um_released info) else win_find (um_window s) (um_sn ?z k))"
      if "A' \<le> k" "k < H'" for k
      using um_cleared_number [OF cl _ that(1)] num [of k] that r(2) a b by simp
    moreover have "um_left s A n info H' A'"
      unfolding um_left_def
    proof (intro allI impI, elim conjE)
      fix k assume k: "A \<le> k" "k < A'"
      show "k + ?W < H' \<or> (if k = n then um_fully_received info else um_received (um_window s) (um_sn ?z k))"
      proof (cases "?a \<le> k")
        case True
        then have "um_received w (um_sn ?z k)" using r(3) r(5) [of k] k w1_num [of k] by (auto simp: um_received_def)
        then show ?thesis using num [of k] k True r(3) a info by (auto simp: um_received_def rel split: if_splits)
      next
        case False
        then show ?thesis using k by auto
      qed
    qed
    ultimately show ?thesis using that [where A' = A' and s' = ?s'] r(2) by (simp add: um_window_step_def H'_def [symmetric])
  qed
qed

abbreviation um_next_info :: "rlc_rx_um_entity \<Rightarrow> rlc_um_pdu_header \<Rightarrow> bytes \<Rightarrow> rlc_rx_um_sdu_info" where
  "um_next_info s h payload \<equiv> um_new_info h payload (um_info_at (um_window s) (ucast (uh_sn h)))"

lemma um_window_step_timer:
  assumes "um_window_step s A H n info s' A'" and "t = um_timer_trigger (um_st s') \<or> t = um_next_highest (um_st s')"
  shows "um_window_step s A H n info (s'\<lparr>um_reassembly_timer := b, um_st := (um_st s')\<lparr>um_timer_trigger := t\<rparr>\<rparr>) A'"
  using assms um_rx_at_timer [of s' A' "max H (Suc n)" t b] by (auto simp: um_window_step_def)

lemma um_accept_number:
  assumes at: "um_rx_at s A H" and num: "ucast (uh_sn h) = um_sn (um_size s) n" "n < H + um_width (um_size s)" "H \<le> n + um_width (um_size s)"
    and si: "uh_si h \<noteq> Full_sdu" and wf: "seg_wf (um_segment_of h payload)"
    and late: "H \<le> n \<Longrightarrow> \<not> um_fully_received (um_next_info s h payload)"
  obtains (below) "n < A" "um_handle_segment chain_ok h payload s = Inr ([], s)"
    | (placed) A' s' where "A \<le> n" "um_handle_segment chain_ok h payload s =
        Inr (if um_fully_received (um_next_info s h payload) \<and> chain_ok
             then [concat (map seg_payload (um_segments (um_next_info s h payload)))] else [], s')"
      "um_window_step s A H n (um_next_info s h payload) s' A'" "um_left s A n (um_next_info s h payload) (max H (Suc n)) A'"
proof (cases "n < A")
  case True
  then show ?thesis using below um_below_number [OF at num(3,2)] num(1) by (simp add: um_handle_segment_def)
next
  case False
  then have n: "A \<le> n" by simp
  let ?info = "um_next_info s h payload" and ?sn = "um_sn (um_size s) n"
  let ?out = "if um_fully_received ?info \<and> chain_ok then [concat (map seg_payload (um_segments ?info))] else []"
  have total: "um_rx_total s" using at by (simp add: um_rx_at_def)
  have win: "win_wf (um_window s)" and t: "0 < ruc_t_reassembly (um_cfg s)" using total by (simp_all add: um_rx_total_def)
  obtain stored w where seg: "um_handle_segment_data_sdu h payload s = Inr (stored, s\<lparr>um_window := w\<rparr>)"
    "um_entered (ucast (uh_sn h)) ?info (um_window s) w"
    by (rule segment_data_ok [OF win si]) (rule that)
  have e: "um_entered ?sn ?info (um_window s) w" using seg(2) unfolding num(1) .
  have ok: "um_info_ok (um_released ?info)" by (rule um_released_ok [OF um_info_at_ok [OF at] wf])
  obtain A' s2 where p: "um_placed chain_ok ?sn (s\<lparr>um_window := w\<rparr>) = Inr (?out, s2)"
    "um_window_step s A H n ?info s2 A'" "um_left s A n ?info (max H (Suc n)) A'"
  proof (cases "um_fully_received ?info")
    case True
    then have lt: "n < H" using late by (cases "n < H") simp_all
    obtain A' s2 where "um_placed chain_ok ?sn (s\<lparr>um_window := w\<rparr>) = Inr (if chain_ok then [concat (map seg_payload (um_segments ?info))] else [], s2)"
      "um_window_step s A H n ?info s2 A'" "um_left s A n ?info (max H (Suc n)) A'"
      by (rule um_placed_full [OF at n lt True ok e, of chain_ok]) (rule that)
    then show ?thesis using that [of s2 A'] True by (simp only: simp_thms)
  next
    case False
    then have ok': "um_info_ok ?info" using ok by (simp add: um_released_def)
    obtain A' s2 where "um_placed chain_ok ?sn (s\<lparr>um_window := w\<rparr>) = Inr ([], s2)"
      "um_window_step s A H n ?info s2 A'" "um_left s A n ?info (max H (Suc n)) A'"
      by (rule um_placed_rest [OF at n num(2,3) False ok' e, of chain_ok]) (rule that)
    then show ?thesis using that [of s2 A'] False by (simp only: simp_thms if_False)
  qed
  have cfg: "um_cfg s2 = um_cfg s" using p(2) by (simp add: um_window_step_def)
  obtain b t where tm: "um_start_reassembly (um_stop_reassembly s2) = Inr (s2\<lparr>um_reassembly_timer := b, um_st := (um_st s2)\<lparr>um_timer_trigger := t\<rparr>\<rparr>)"
    "t = um_timer_trigger (um_st s2) \<or> t = um_next_highest (um_st s2)"
    by (rule um_timer_total [of s2, unfolded cfg, OF t]) (rule that)
  have "\<not> sn_invalid_for_rx_buffer (um_size s) (um_st s) (ucast (uh_sn h))"
    using um_below_number [OF at num(3,2)] num(1) False by simp
  then have "um_handle_segment chain_ok h payload s = Inr (?out, s2\<lparr>um_reassembly_timer := b, um_st := (um_st s2)\<lparr>um_timer_trigger := t\<rparr>\<rparr>)"
    using seg(1) p(1) tm(1) by (simp add: um_handle_segment_def num(1))
  then show ?thesis using placed [OF n _ um_window_step_timer [OF p(2) tm(2)] p(3)] by blast
qed

section \<open>The expired timer\<close>

lemma um_expired_number:
  assumes at: "um_rx_at s A H"
  obtains A' s' where "um_on_expired_reassembly_timer s = Inr s'" and "um_rx_at s' A' H" and "um_cfg s' = um_cfg s" and "A \<le> A'" and "A' \<le> H"
    and "\<And>k. A' \<le> k \<Longrightarrow> k < H \<Longrightarrow> win_find (um_window s') (um_sn (um_size s) k) = win_find (um_window s) (um_sn (um_size s) k)"
proof -
  let ?z = "um_size s" and ?st = "um_st s"
  have A: "A \<le> H" "H \<le> A + um_width ?z" "win_width (um_window s) = um_width ?z" "win_wf (um_window s)" "0 < ruc_t_reassembly (um_cfg s)"
    "um_next_reassembly ?st = um_sn ?z A" "um_next_highest ?st = um_sn ?z H"
    using at by (simp_all add: um_rx_at_def um_rx_total_def)
  have keys: "\<And>k i. win_find (um_window s) k = Some i \<Longrightarrow> um_info_ok i \<and> (\<exists>n. A \<le> n \<and> n < H \<and> k = um_sn ?z n)"
    using at unfolding um_rx_at_def by blast
  obtain A' w m where e: "um_expire ?z (um_sn ?z H) (um_timer_trigger ?st) (um_sn ?z A) (um_window s, um_metrics s) = (um_sn ?z A', w, m)"
    "A \<le> A'" "A' \<le> H" "um_cleared ?z A A' (um_window s) w"
    "A' < H \<Longrightarrow> \<not> um_received (um_window s) (um_sn ?z A') \<and> um_pos ?z H (um_timer_trigger ?st) \<le> A' + um_width ?z - H"
    by (rule expire_number [OF A(4,1,2)]) (rule that)
  have stop: "\<not> um_received (um_window s) (um_sn ?z A') \<or> A' = H" using e(3,5) by (cases "A' = H") simp_all
  let ?s = "s\<lparr>um_window := w, um_metrics := m, um_st := ?st\<lparr>um_next_reassembly := um_sn ?z A'\<rparr>\<rparr>"
  have s1: "um_rx_at ?s A' H"
    by (intro um_rx_at_moved [OF at e(2,3) _ _ _ _ _ _ _ _ A(3) keys stop]) (use e(2,3,4) A at in \<open>auto simp: um_rx_at_def\<close>)
  have find: "win_find w (um_sn ?z k) = win_find (um_window s) (um_sn ?z k)" if "A' \<le> k" "k < H" for k
    using um_cleared_number [OF e(4,2) that(1)] that(2) A(2) by simp
  let ?t = "?s\<lparr>um_reassembly_timer := True, um_st := (um_st ?s)\<lparr>um_timer_trigger := um_next_highest (um_st ?s)\<rparr>\<rparr>"
  have ex: "um_on_expired_reassembly_timer s = (if um_restart_condition ?s then um_run_timer ?s else Inr ?s)"
    using e(1) A(6,7) by (simp add: um_on_expired_reassembly_timer_def Let_def)
  show ?thesis
  proof (cases "um_restart_condition ?s")
    case True
    have "um_on_expired_reassembly_timer s = Inr ?t" unfolding ex using True A(5) by (simp add: um_run_timer_def)
    moreover have "um_rx_at ?t A' H" by (rule um_rx_at_timer [OF s1]) simp
    ultimately show ?thesis by (rule that) (use e find in simp_all)
  next
    case False
    have "um_on_expired_reassembly_timer s = Inr ?s" unfolding ex using False by simp
    then show ?thesis by (rule that) (use s1 e find in simp_all)
  qed
qed

end
