(* ===== verification/Rlc_Rx_Um_Runs.thy ===== *)
theory Rlc_Rx_Um_Runs
  imports Rlc_Rx_Um_Delivery
begin

text \<open>
  Runs of the unacknowledged receiver: PDUs with any bytes, expiries of t-Reassembly, stops and metrics
  reports; and the runs in which the PDUs of a transmitter arrive lost, late or out of order, but not
  twice, with what they deliver.
\<close>

section \<open>All runs\<close>

inductive um_op :: "rlc_rx_um_entity \<Rightarrow> rlc_rx_um_entity \<Rightarrow> bool" where
  um_op_expiry: "um_reassembly_timer s \<Longrightarrow> um_op s (s\<lparr>um_reassembly_timer := False\<rparr>)"
| um_op_stop: "um_op s (um_rx_stop s)"
| um_op_metrics: "rrm_get_and_reset_metrics (um_metrics s) = Inr (m, m') \<Longrightarrow> um_op s (s\<lparr>um_metrics := m'\<rparr>)"

inductive um_reachable :: "rlc_rx_um_config \<Rightarrow> rlc_rx_um_entity \<Rightarrow> bool" for cfg where
  um_reach_create: "rlc_rx_um_create cfg en = Inr s \<Longrightarrow> um_reachable cfg s"
| um_reach_pdu: "um_reachable cfg s \<Longrightarrow> um_handle_pdu chain_ok buf s = Inr (sdus, s') \<Longrightarrow> um_reachable cfg s'"
| um_reach_expired: "um_reachable cfg s \<Longrightarrow> um_on_expired_reassembly_timer s = Inr s' \<Longrightarrow> um_reachable cfg s'"
| um_reach_op: "um_reachable cfg s \<Longrightarrow> um_op s s' \<Longrightarrow> um_reachable cfg s'"

lemma um_create_at:
  assumes "rlc_rx_um_create cfg en = Inr s" and "0 < ruc_t_reassembly cfg"
  shows "um_rx_at s 0 0" and "um_cfg s = cfg" and "\<And>k. win_find (um_window s) k = None"
proof -
  let ?z = "ruc_sn_field_length cfg"
  have w: "um_width ?z = 2 ^ (um_bits ?z - 1)" by (cases ?z) (simp_all add: um_window_size_of_def)
  let ?w = "\<lparr>win_map = \<lparr>cm_max_size = 2 ^ (um_bits ?z - 1), cm_data = Map.empty, cm_count = 0\<rparr>\<rparr> :: rlc_rx_um_sdu_info sdu_window"
  have s: "s = \<lparr>um_cfg = cfg, um_st = \<lparr>um_next_reassembly = 0, um_timer_trigger = 0, um_next_highest = 0\<rparr>,
      um_window = ?w, um_reassembly_timer = False, um_metrics = rrm_set_mode Mode_um_bidir (rrm_create en)\<rparr>"
    using assms(1) unfolding rlc_rx_um_create_def w by (simp add: win_create_pow2)
  show "um_cfg s = cfg" "\<And>k. win_find (um_window s) k = None" by (simp_all add: s)
  have "um_sn ?z 0 = 0" by (simp add: word_unat_eq_iff unat_um_sn)
  then show "um_rx_at s 0 0"
    using assms(2) um_mod_window [of ?z] by (simp add: s um_rx_at_def um_rx_total_def win_wf_fresh win_width_def w um_received_def)
qed

lemma um_op_same:
  assumes "um_op s s'"
  shows "um_cfg s' = um_cfg s" and "um_window s' = um_window s" and "um_st s' = um_st s"
  using assms by (cases; simp add: um_rx_stop_def)+

lemma um_reachable_total:
  assumes "um_reachable cfg s" and "0 < ruc_t_reassembly cfg"
  shows "um_rx_total s \<and> um_cfg s = cfg"
  using assms(1)
proof induction
  case (um_reach_create en s)
  then show ?case using um_create_at [OF um_reach_create assms(2)] by (simp add: um_rx_at_def)
next
  case (um_reach_pdu s chain_ok buf sdus s')
  then show ?case using um_handle_pdu_ok [of s chain_ok buf] by (metis Pair_inject sum.inject(2))
next
  case (um_reach_expired s s')
  then show ?case using um_expired_total [of s] by (metis sum.inject(2))
next
  case (um_reach_op s s')
  then show ?case using um_op_same [OF um_reach_op(2)] assms(2) by (simp add: um_rx_total_def)
qed

section \<open>The segments of one SDU\<close>

text \<open>
  What the information of an SDU says when \<open>B\<close> are the offsets of the bytes that arrived.
\<close>

definition um_carries :: "bytes \<Rightarrow> nat set \<Rightarrow> rlc_rx_um_sdu_info \<Rightarrow> bool" where
  "um_carries sdu B info \<longleftrightarrow>
     (if um_fully_received info then B = {0 ..< length sdu}
      else (\<forall>t \<in> set (um_segments info). segment_of sdu t) \<and> segs_offsets (um_segments info) = B \<and> B \<noteq> {0 ..< length sdu})"

lemma segment_of_offsets:
  assumes "segment_of sdu t"
  shows "seg_offsets t \<noteq> {}" and "seg_offsets t \<subseteq> {0 ..< length sdu}" and "sdu \<noteq> []"
proof -
  have p: "seg_payload t \<noteq> []" "seg_end t \<le> length sdu" using assms by (simp_all add: segment_of_def)
  then have lt: "unat (seg_so t) < seg_end t" by (simp add: seg_end_def)
  then show "seg_offsets t \<noteq> {}" "seg_offsets t \<subseteq> {0 ..< length sdu}" using p by (auto simp: seg_offsets_def)
  show "sdu \<noteq> []" using p lt by auto
qed

lemma um_next_carries:
  assumes info: "um_info_ok info" "um_carries sdu B info" and seg: "segment_of sdu (um_segment_of h payload)" and len: "length sdu \<le> 2 ^ 16"
    and fresh: "seg_offsets (um_segment_of h payload) \<inter> B = {}"
  defines "new \<equiv> um_new_info h payload info" and "B' \<equiv> B \<union> seg_offsets (um_segment_of h payload)"
  shows "um_fully_received new \<longleftrightarrow> B' = {0 ..< length sdu}"
    and "um_fully_received new \<Longrightarrow> concat (map seg_payload (um_segments new)) = sdu"
    and "um_carries sdu B' (um_released new)"
proof -
  note off = segment_of_offsets [OF seg]
  have nf: "\<not> um_fully_received info" using info(2) fresh off(1,2) unfolding um_carries_def by (metis inf.absorb1)
  then have old: "segs_ok (um_segments info)" "\<forall>t \<in> set (um_segments info). segment_of sdu t" "segs_offsets (um_segments info) = B"
    using info by (simp_all add: um_info_ok_def um_carries_def)
  obtain stored ss where st: "store_loop [] (um_segments info) (um_segment_of h payload) = (stored, ss)" by force
  have ss: "segs_ok ss" "segs_offsets ss = B'" "\<forall>t \<in> set ss. segment_of sdu t"
    using store_segments_of [OF old(1,2) seg len] st old(3) by (simp_all add: stores_def B'_def)
  obtain full gap where i: "inventory 0 ss = (full, gap)" by force
  have n: "um_segments new = ss" "um_fully_received new = full"
    using st i by (simp_all add: new_def um_new_info_def um_store_segment_def um_update_segment_inventory_def)
  have inv: "full \<longleftrightarrow> B' = {0 ..< length sdu}" "full \<longrightarrow> concat (map seg_payload ss) = sdu"
    using inventory_spec [OF ss(1,3) len, of 0] ss(2) off(3) i by simp_all
  then show "um_fully_received new \<longleftrightarrow> B' = {0 ..< length sdu}"
    and "um_fully_received new \<Longrightarrow> concat (map seg_payload (um_segments new)) = sdu" by (simp_all add: n)
  show "um_carries sdu B' (um_released new)"
    using inv ss by (auto simp: um_carries_def um_released_def n)
qed

section \<open>Runs with the PDUs of a transmitter\<close>

text \<open>
  \<open>um_receives cfg sdus ok quiet s H got log\<close>: segments of the SDUs \<open>sdus 0, sdus 1, \<dots>\<close>, and PDUs with
  complete SDUs, came in. One past the highest number that came in is \<open>H\<close>, the bytes of SDU \<open>n\<close> at the offsets
  \<open>got n\<close> came in, and \<open>log\<close> lists what was delivered, with the number of the SDU if it was segmented. \<open>ok\<close>: no
  chain of buffers failed; \<open>quiet\<close>: t-Reassembly did not expire.
\<close>

inductive um_receives :: "rlc_rx_um_config \<Rightarrow> (nat \<Rightarrow> bytes) \<Rightarrow> bool \<Rightarrow> bool \<Rightarrow> rlc_rx_um_entity \<Rightarrow> nat \<Rightarrow> (nat \<Rightarrow> nat set) \<Rightarrow>
    (nat option \<times> bytes) list \<Rightarrow> bool" for cfg sdus where
  um_start: "rlc_rx_um_create cfg en = Inr s \<Longrightarrow> um_receives cfg sdus True True s 0 (\<lambda>_. {}) []"
| um_segment: "um_receives cfg sdus ok quiet s H got log \<Longrightarrow>
    um_header_ok h \<Longrightarrow> uh_sn_size h = um_size s \<Longrightarrow> uh_si h \<noteq> Full_sdu \<Longrightarrow> ucast (uh_sn h) = um_sn (um_size s) n \<Longrightarrow>
    H \<le> n + um_width (um_size s) \<Longrightarrow> n < H + um_width (um_size s) \<Longrightarrow>
    segment_of (sdus n) (um_segment_of h payload) \<Longrightarrow> seg_offsets (um_segment_of h payload) \<inter> got n = {} \<Longrightarrow>
    um_handle_pdu chain_ok (rlc_um_write_data_pdu_header h @ payload) s = Inr (outs, s') \<Longrightarrow>
    um_receives cfg sdus (ok \<and> chain_ok) quiet s' (max H (Suc n)) (got(n := got n \<union> seg_offsets (um_segment_of h payload)))
      (log @ List.map (Pair (Some n)) outs)"
| um_full: "um_receives cfg sdus ok quiet s H got log \<Longrightarrow>
    um_header_ok h \<Longrightarrow> uh_sn_size h = um_size s \<Longrightarrow> uh_si h = Full_sdu \<Longrightarrow>
    um_handle_pdu chain_ok (rlc_um_write_data_pdu_header h @ payload) s = Inr (outs, s') \<Longrightarrow>
    um_receives cfg sdus (ok \<and> chain_ok) quiet s' H got (log @ List.map (Pair None) outs)"
| um_expired: "um_receives cfg sdus ok quiet s H got log \<Longrightarrow> um_on_expired_reassembly_timer s = Inr s' \<Longrightarrow>
    um_receives cfg sdus ok False s' H got log"
| um_other: "um_receives cfg sdus ok quiet s H got log \<Longrightarrow> um_op s s' \<Longrightarrow> um_receives cfg sdus ok quiet s' H got log"

definition um_numbers :: "(nat option \<times> bytes) list \<Rightarrow> nat list" where
  "um_numbers log = List.map_filter fst log"

lemma um_numbers_append [simp]: "um_numbers (log @ log') = um_numbers log @ um_numbers log'"
  by (simp add: um_numbers_def map_filter_def)

lemma um_numbers_map [simp]: "um_numbers (List.map (Pair None) outs) = []" "um_numbers (List.map (Pair (Some n)) outs) = replicate (length outs) n"
  by (induction outs) (simp_all add: um_numbers_def map_filter_def)

lemma um_numbers_set: "n \<in> set (um_numbers log) \<longleftrightarrow> (\<exists>b. (Some n, b) \<in> set log)"
  by (force simp: um_numbers_def map_filter_def)

definition um_run_at :: "(nat \<Rightarrow> bytes) \<Rightarrow> bool \<Rightarrow> bool \<Rightarrow> rlc_rx_um_entity \<Rightarrow> nat \<Rightarrow> (nat \<Rightarrow> nat set) \<Rightarrow> (nat option \<times> bytes) list \<Rightarrow> nat \<Rightarrow> bool" where
  "um_run_at sdus ok quiet s H got log A \<longleftrightarrow> um_rx_at s A H \<and>
     (\<forall>k. A \<le> k \<and> k < H \<longrightarrow> (case win_find (um_window s) (um_sn (um_size s) k) of None \<Rightarrow> got k = {} | Some i \<Rightarrow> um_carries (sdus k) (got k) i)) \<and>
     (\<forall>k \<ge> H. got k = {}) \<and>
     (\<forall>k b. (Some k, b) \<in> set log \<longrightarrow> b = sdus k \<and> sdus k \<noteq> [] \<and> got k = {0 ..< length (sdus k)}) \<and> distinct (um_numbers log) \<and>
     (\<forall>k. ok \<and> A \<le> k \<and> um_received (um_window s) (um_sn (um_size s) k) \<and> k < H \<longrightarrow> k \<in> set (um_numbers log)) \<and>
     (\<forall>k. ok \<and> quiet \<and> k < A \<and> H \<le> k + um_width (um_size s) \<longrightarrow> k \<in> set (um_numbers log))"

lemma um_run_atI:
  assumes "um_rx_at s A H"
    and "\<And>k. A \<le> k \<Longrightarrow> k < H \<Longrightarrow> (case win_find (um_window s) (um_sn (um_size s) k) of None \<Rightarrow> got k = {} | Some i \<Rightarrow> um_carries (sdus k) (got k) i)"
    and "\<And>k. H \<le> k \<Longrightarrow> got k = {}"
    and "\<And>k b. (Some k, b) \<in> set log \<Longrightarrow> b = sdus k \<and> sdus k \<noteq> [] \<and> got k = {0 ..< length (sdus k)}" and "distinct (um_numbers log)"
    and "\<And>k. ok \<Longrightarrow> A \<le> k \<Longrightarrow> um_received (um_window s) (um_sn (um_size s) k) \<Longrightarrow> k < H \<Longrightarrow> k \<in> set (um_numbers log)"
    and "\<And>k. ok \<Longrightarrow> quiet \<Longrightarrow> k < A \<Longrightarrow> H \<le> k + um_width (um_size s) \<Longrightarrow> k \<in> set (um_numbers log)"
  shows "um_run_at sdus ok quiet s H got log A"
  using assms unfolding um_run_at_def by blast

lemma um_run_atD:
  assumes "um_run_at sdus ok quiet s H got log A"
  shows "um_rx_at s A H"
    and "\<And>k. A \<le> k \<Longrightarrow> k < H \<Longrightarrow> (case win_find (um_window s) (um_sn (um_size s) k) of None \<Rightarrow> got k = {} | Some i \<Rightarrow> um_carries (sdus k) (got k) i)"
    and "\<And>k. H \<le> k \<Longrightarrow> got k = {}"
    and "\<And>k b. (Some k, b) \<in> set log \<Longrightarrow> b = sdus k \<and> sdus k \<noteq> [] \<and> got k = {0 ..< length (sdus k)}" and "distinct (um_numbers log)"
    and "\<And>k. ok \<Longrightarrow> A \<le> k \<Longrightarrow> um_received (um_window s) (um_sn (um_size s) k) \<Longrightarrow> k < H \<Longrightarrow> k \<in> set (um_numbers log)"
    and "\<And>k. ok \<Longrightarrow> quiet \<Longrightarrow> k < A \<Longrightarrow> H \<le> k + um_width (um_size s) \<Longrightarrow> k \<in> set (um_numbers log)"
  using assms unfolding um_run_at_def by blast+

lemma um_run_at_same:
  assumes "um_run_at sdus ok quiet s H got log A"
    and "um_cfg s' = um_cfg s" and "um_window s' = um_window s" and "um_st s' = um_st s" and "um_numbers log' = um_numbers log"
    and "ok' \<Longrightarrow> ok" and "\<And>k b. (Some k, b) \<in> set log' \<Longrightarrow> (Some k, b) \<in> set log"
  shows "um_run_at sdus ok' quiet s' H got log' A"
proof -
  have "um_rx_at s' A H" using assms by (simp add: um_run_at_def um_rx_at_def um_rx_total_def)
  then show ?thesis using assms unfolding um_run_at_def by (elim conjE) (intro conjI; (simp; fail)?; blast)
qed

lemma um_above_none:
  assumes "um_rx_at s A H" and "H \<le> n" and "n < H + um_width (um_size s)"
  shows "win_find (um_window s) (um_sn (um_size s) n) = None"
proof (rule ccontr)
  assume "win_find (um_window s) (um_sn (um_size s) n) \<noteq> None"
  then obtain k where "A \<le> k" "k < H" "um_sn (um_size s) n = um_sn (um_size s) k" using assms(1) unfolding um_rx_at_def by blast
  then show False using um_sn_inj [of "um_size s" n k] assms by (simp add: um_rx_at_def)
qed

lemma um_info_carries:
  assumes run: "um_run_at sdus ok quiet s H got log A" and n: "A \<le> n" "n < H + um_width (um_size s)" and ne: "sdus n \<noteq> []"
  shows "um_carries (sdus n) (got n) (um_info_at (um_window s) (um_sn (um_size s) n))"
proof -
  have at: "um_rx_at s A H" and high: "n < H \<or> got n = {}" using run by (auto simp: um_run_at_def)
  have init: "um_carries (sdus n) {} um_info_init" using ne by (simp add: um_carries_def um_info_init_def)
  show "um_carries (sdus n) (got n) (um_info_at (um_window s) (um_sn (um_size s) n))"
  proof (cases "n < H")
    case True
    then show ?thesis using run n(1) init unfolding um_run_at_def um_info_at_def by (cases "win_find (um_window s) (um_sn (um_size s) n)") force+
  next
    case False
    then show ?thesis using um_above_none [OF at _ n(2)] high init by (simp add: um_info_at_def)
  qed
qed

lemma um_not_whole:
  assumes "um_header_ok h" and "segment_of sdu (um_segment_of h payload)"
  shows "seg_offsets (um_segment_of h payload) \<noteq> {0 ..< length sdu}"
proof
  let ?t = "um_segment_of h payload"
  assume e: "seg_offsets ?t = {0 ..< length sdu}"
  have "unat (seg_so ?t) < seg_end ?t" using assms(2) by (simp add: segment_of_def seg_end_def)
  moreover have "0 < length sdu" using segment_of_offsets(3) [OF assms(2)] by simp
  ultimately have "unat (seg_so ?t) = 0 \<and> seg_end ?t = length sdu"
    using e atLeastLessThan_eq_iff [of "unat (seg_so ?t)" "seg_end ?t" 0 "length sdu"] by (simp add: seg_offsets_def)
  then have "uh_so h = 0" "uh_si h = Last_segment" using assms(2) by (auto simp: segment_of_def um_segment_of_def unsigned_eq_0_iff)
  then show False using assms(1) by (simp add: um_header_ok_def)
qed

lemma um_run_segment:
  assumes run: "um_run_at sdus ok quiet s H got log A"
    and h: "um_header_ok h" "uh_si h \<noteq> Full_sdu" "ucast (uh_sn h) = um_sn (um_size s) n"
    and n: "H \<le> n + um_width (um_size s)" "n < H + um_width (um_size s)"
    and seg: "segment_of (sdus n) (um_segment_of h payload)" "seg_offsets (um_segment_of h payload) \<inter> got n = {}" and len: "length (sdus n) \<le> 2 ^ 16"
    and handled: "um_handle_segment chain_ok h payload s = Inr (outs, s')"
  shows "\<exists>A'. um_run_at sdus (ok \<and> chain_ok) quiet s' (max H (Suc n)) (got(n := got n \<union> seg_offsets (um_segment_of h payload)))
    (log @ List.map (Pair (Some n)) outs) A'"
proof -
  let ?z = "um_size s" and ?B = "got n \<union> seg_offsets (um_segment_of h payload)" and ?H = "max H (Suc n)" and ?i = "um_next_info s h payload"
  note off = segment_of_offsets [OF seg(1)]
  have at: "um_rx_at s A H" using run by (simp add: um_run_at_def)
  have A: "A \<le> H" "H \<le> A + um_width ?z" "0 < um_width ?z" using at um_mod_window(2) by (simp_all add: um_rx_at_def)
  have old: "got n \<noteq> {0 ..< length (sdus n)}" using seg(2) off(1,2) by (metis inf.absorb1)
  then have new_log: "n \<notin> set (um_numbers log)" using run by (auto simp: um_run_at_def um_numbers_set)
  have wf: "seg_wf (um_segment_of h payload)" using segment_of_wf [OF seg(1) len] .
  have info: "um_info_ok (um_info_at (um_window s) (um_sn ?z n))" by (rule um_info_at_ok [OF at])
  have carry: "um_fully_received ?i \<longleftrightarrow> ?B = {0 ..< length (sdus n)}" "um_fully_received ?i \<Longrightarrow> concat (map seg_payload (um_segments ?i)) = sdus n"
    "um_carries (sdus n) ?B (um_released ?i)" if "A \<le> n"
    using um_next_carries [OF info um_info_carries [OF run that n(2) off(3)] seg(1) len seg(2)] by (simp_all only: h(3))
  have late: "\<not> um_fully_received ?i" if "H \<le> n"
  proof -
    have "got n = {}" using run that by (simp add: um_run_at_def)
    then show ?thesis using carry(1) A(1) that um_not_whole [OF h(1) seg(1)] by simp
  qed
  show ?thesis
  proof (rule um_accept_number [OF at h(3) n(2,1) h(2) wf late, of chain_ok])
    assume below: "n < A" and "um_handle_segment chain_ok h payload s = Inr ([], s)"
    then have e: "outs = []" "s' = s" "?H = H" using handled A by simp_all
    note R = um_run_atD [OF run]
    have same: "(got(n := ?B)) k = got k" if "A \<le> k \<or> k \<in> set (um_numbers log)" for k
      using that below new_log by auto
    have "um_run_at sdus (ok \<and> chain_ok) quiet s H (got(n := ?B)) log A"
    proof (rule um_run_atI)
      show "case win_find (um_window s) (um_sn ?z k) of None \<Rightarrow> (got(n := ?B)) k = {} | Some i \<Rightarrow> um_carries (sdus k) ((got(n := ?B)) k) i"
        if "A \<le> k" "k < H" for k
        using R(2) [OF that] by (simp only: same that simp_thms)
      show "(got(n := ?B)) k = {}" if "H \<le> k" for k using R(3) that A below by (simp add: same)
      show "b = sdus k \<and> sdus k \<noteq> [] \<and> (got(n := ?B)) k = {0 ..< length (sdus k)}" if "(Some k, b) \<in> set log" for k b
        using R(4) [OF that] that same [of k] um_numbers_set by metis
    qed (use R same in simp_all)
    then show ?thesis unfolding e by auto
  next
    fix A' s2
    assume above: "A \<le> n" and r: "um_handle_segment chain_ok h payload s =
        Inr (if um_fully_received ?i \<and> chain_ok then [concat (map seg_payload (um_segments ?i))] else [], s2)"
      and step: "um_window_step s A H n ?i s2 A'" and left: "um_left s A n ?i ?H A'"
    have s2: "s' = s2" and outs: "outs = (if um_fully_received ?i \<and> chain_ok then [sdus n] else [])"
      using r handled carry(2) [OF above] by (auto split: if_splits)
    note carry = carry [OF above]
    have at': "um_rx_at s' A' ?H" and cfg: "um_cfg s' = um_cfg s" and le: "A \<le> A'"
      and find: "\<And>k. A' \<le> k \<Longrightarrow> k < ?H \<Longrightarrow>
        win_find (um_window s') (um_sn ?z k) = (if k = n then Some (um_released ?i) else win_find (um_window s) (um_sn ?z k))"
      using step unfolding um_window_step_def s2 by blast+
    have full: "um_fully_received (um_released ?i) = um_fully_received ?i" by (simp add: um_released_def)
    note R = um_run_atD [OF run]
    have log: "um_numbers (log @ List.map (Pair (Some n)) outs) = um_numbers log @ (if um_fully_received ?i \<and> chain_ok then [n] else [])"
      by (simp add: outs)
    have before: "win_find (um_window s) (um_sn ?z k) = None" if "H \<le> k" "k < n" for k
      using um_above_none [OF at] that n by simp
    have "um_run_at sdus (ok \<and> chain_ok) quiet s' ?H (got(n := ?B)) (log @ List.map (Pair (Some n)) outs) A'"
    proof (rule um_run_atI [OF at'], unfold cfg)
      fix k assume k: "A' \<le> k" "k < ?H"
      show "case win_find (um_window s') (um_sn ?z k) of None \<Rightarrow> (got(n := ?B)) k = {} | Some i \<Rightarrow> um_carries (sdus k) ((got(n := ?B)) k) i"
      proof (cases "k = n")
        case True
        then show ?thesis using find [OF k] carry(3) by simp
      next
        case False
        then have e: "(got(n := ?B)) k = got k" "win_find (um_window s') (um_sn ?z k) = win_find (um_window s) (um_sn ?z k)"
          using find [OF k] by simp_all
        show ?thesis unfolding e using R(2,3) [of k] before [of k] k le False by (cases "k < H") simp_all
      qed
    next
      fix k assume "?H \<le> k"
      then show "(got(n := ?B)) k = {}" using R(3) by simp
    next
      fix k b assume "(Some k, b) \<in> set (log @ List.map (Pair (Some n)) outs)"
      then consider "(Some k, b) \<in> set log" "k \<noteq> n" | "k = n" "b = sdus n" "um_fully_received ?i"
        using new_log by (auto simp: outs um_numbers_set split: if_splits)
      then show "b = sdus k \<and> sdus k \<noteq> [] \<and> (got(n := ?B)) k = {0 ..< length (sdus k)}"
      proof cases
        case 1
        then show ?thesis using R(4) [of k b] by simp
      next
        case 2
        then show ?thesis using carry(1) off(3) by simp
      qed
    next
      show "distinct (um_numbers (log @ List.map (Pair (Some n)) outs))" unfolding log using R(5) new_log by auto
    next
      fix k assume k: "ok \<and> chain_ok" "A' \<le> k" "um_received (um_window s') (um_sn ?z k)" "k < ?H"
      then have f: "if k = n then um_fully_received ?i else um_received (um_window s) (um_sn ?z k)"
        using find [OF k(2,4)] full by (cases "k = n") (simp_all add: um_received_def)
      moreover have "k = n \<or> k < H \<or> H \<le> k \<and> k < n" using k(4) by auto
      ultimately have "k = n \<or> k < H" using before [of k] by (auto simp: um_received_def)
      then show "k \<in> set (um_numbers (log @ List.map (Pair (Some n)) outs))"
        unfolding log using f R(6) [of k] k le by (auto split: if_splits)
    next
      fix k assume k: "ok \<and> chain_ok" quiet "k < A'" "?H \<le> k + um_width ?z"
      show "k \<in> set (um_numbers (log @ List.map (Pair (Some n)) outs))"
      proof (cases "k < A")
        case True
        then show ?thesis using R(7) [of k] k by simp
      next
        case False
        then have f: "if k = n then um_fully_received ?i else um_received (um_window s) (um_sn ?z k)"
          using left k unfolding um_left_def by (metis not_le)
        have "k < ?H" using k(3) at' by (simp add: um_rx_at_def)
        then have "k = n \<or> k < H \<or> H \<le> k \<and> k < n" by auto
        then have "k = n \<or> k < H" using f before [of k] by (auto simp: um_received_def)
        then show ?thesis unfolding log using f R(6) [of k] k False by (auto split: if_splits)
      qed
    qed
    then show ?thesis ..
  qed
qed

text \<open>The induction over a run.\<close>

lemma um_run_expired:
  assumes run: "um_run_at sdus ok quiet s H got log A" and e: "um_on_expired_reassembly_timer s = Inr s'"
  shows "um_cfg s' = um_cfg s" and "\<exists>A'. um_run_at sdus ok False s' H got log A'"
proof -
  note R = um_run_atD [OF run]
  obtain A' s2 where x: "um_on_expired_reassembly_timer s = Inr s2" "um_rx_at s2 A' H" "um_cfg s2 = um_cfg s" "A \<le> A'" "A' \<le> H"
    "\<And>k. A' \<le> k \<Longrightarrow> k < H \<Longrightarrow> win_find (um_window s2) (um_sn (um_size s) k) = win_find (um_window s) (um_sn (um_size s) k)"
    by (rule um_expired_number [OF R(1)]) (rule that)
  have s': "s2 = s'" using x(1) e by simp
  note x = x [unfolded s']
  show "um_cfg s' = um_cfg s" by (rule x)
  have "um_run_at sdus ok False s' H got log A'"
  proof (rule um_run_atI [OF x(2)], unfold x(3))
    show "case win_find (um_window s') (um_sn (um_size s) k) of None \<Rightarrow> got k = {} | Some i \<Rightarrow> um_carries (sdus k) (got k) i"
      if "A' \<le> k" "k < H" for k unfolding x(6) [OF that] using R(2) that x(4) by simp
    show "k \<in> set (um_numbers log)" if "ok" "A' \<le> k" "um_received (um_window s') (um_sn (um_size s) k)" "k < H" for k
      using R(6) [of k] that x(4) by (simp add: um_received_def x(6))
    show "b = sdus k \<and> sdus k \<noteq> [] \<and> got k = {0 ..< length (sdus k)}" if "(Some k, b) \<in> set log" for k b by (rule R(4) [OF that])
  qed (use R(3,5) in simp_all)
  then show "\<exists>A'. um_run_at sdus ok False s' H got log A'" ..
qed

lemma um_handle_pdu_written:
  assumes "um_header_ok h" and "uh_sn_size h = um_size s" and "payload \<noteq> []"
  shows "um_handle_pdu chain_ok (rlc_um_write_data_pdu_header h @ payload) s =
    (let s = s\<lparr>um_metrics := rrm_add_pdus 1 (rlc_um_nr_packed_length h + length payload) (um_metrics s)\<rparr> in
     if uh_si h = Full_sdu then
       Inr (if chain_ok then ([payload], s\<lparr>um_metrics := rrm_add_sdus 1 (length payload) (um_metrics s)\<rparr>)
            else ([], s\<lparr>um_metrics := rrm_add_lost_pdus 1 (um_metrics s)\<rparr>))
     else um_handle_segment chain_ok h payload s)"
proof -
  have "rlc_um_read_data_pdu_header (rlc_um_write_data_pdu_header h @ payload) (um_size s) =
      Some (if uh_si h = Full_sdu then h\<lparr>uh_sn := 0\<rparr> else h)"
    using um_header_roundtrip_parts [OF assms(1), of payload] assms(2) by simp
  moreover have "rlc_um_nr_packed_length (h\<lparr>uh_sn := 0\<rparr>) = rlc_um_nr_packed_length h" by (simp add: rlc_um_nr_packed_length_def)
  moreover have "drop (rlc_um_nr_packed_length h) (rlc_um_write_data_pdu_header h @ payload) = payload" by (simp add: um_write_length [symmetric])
  ultimately show ?thesis using assms(3) by (simp add: um_handle_pdu_def um_write_length Let_def)
qed

lemma um_full_empty:
  assumes "um_header_ok h" and "uh_sn_size h = um_size s" and "uh_si h = Full_sdu"
    and "um_handle_pdu chain_ok (rlc_um_write_data_pdu_header h @ payload) s = Inr (outs, s')"
  shows "um_cfg s' = um_cfg s" and "um_window s' = um_window s" and "um_st s' = um_st s"
    and "outs = (if payload \<noteq> [] \<and> chain_ok then [payload] else [])"
proof -
  consider "payload \<noteq> []" | (empty) "payload = []" by blast
  then have "um_cfg s' = um_cfg s \<and> um_window s' = um_window s \<and> um_st s' = um_st s \<and> outs = (if payload \<noteq> [] \<and> chain_ok then [payload] else [])"
  proof cases
    case 1
    then show ?thesis using um_handle_pdu_written [OF assms(1,2), of payload chain_ok] assms(3,4) by (auto simp: Let_def split: if_splits)
  next
    case empty
    have "rlc_um_nr_packed_length (h\<lparr>uh_sn := 0\<rparr>) = rlc_um_nr_packed_length h" by (simp add: rlc_um_nr_packed_length_def)
    then show ?thesis
      using empty um_header_roundtrip_parts [OF assms(1), of "[]"] assms(2-4) by (auto simp: um_handle_pdu_def um_write_length Let_def)
  qed
  then show "um_cfg s' = um_cfg s" and "um_window s' = um_window s" and "um_st s' = um_st s"
    and "outs = (if payload \<noteq> [] \<and> chain_ok then [payload] else [])" by blast+
qed

lemma um_receives_run:
  assumes "um_receives cfg sdus ok quiet s H got log" and "0 < ruc_t_reassembly cfg" and "\<And>n. length (sdus n) \<le> 2 ^ 16"
  shows "um_cfg s = cfg \<and> (\<exists>A. um_run_at sdus ok quiet s H got log A)"
  using assms(1)
proof induction
  case (um_start en s)
  note c = um_create_at [OF um_start assms(2)]
  have "um_run_at sdus True True s 0 (\<lambda>_. {}) [] 0"
    by (rule um_run_atI) (simp_all add: c um_numbers_def)
  then show ?case using c(2) by blast
next
  case (um_segment ok quiet s H got log h n payload chain_ok outs s')
  let ?s = "s\<lparr>um_metrics := rrm_add_pdus 1 (rlc_um_nr_packed_length h + length payload) (um_metrics s)\<rparr>"
  obtain A where run: "um_run_at sdus ok quiet s H got log A" using um_segment.IH by blast
  have run1: "um_run_at sdus ok quiet ?s H got log A" by (rule um_run_at_same [OF run]) simp_all
  have "payload \<noteq> []" using um_segment(8) by (simp add: segment_of_def um_segment_of_def)
  then have hs: "um_handle_segment chain_ok h payload ?s = Inr (outs, s')"
    using um_handle_pdu_written [OF um_segment(2,3)] um_segment(4,10) by (simp add: Let_def)
  obtain A' where run2: "um_run_at sdus (ok \<and> chain_ok) quiet s' (max H (Suc n)) (got(n := got n \<union> seg_offsets (um_segment_of h payload)))
      (log @ List.map (Pair (Some n)) outs) A'"
    using um_run_segment [OF run1 um_segment(2,4) _ _ _ um_segment(8,9) assms(3) hs] um_segment(5-7) by auto
  have "um_cfg s' = um_cfg s" using um_handle_pdu_ok [of s chain_ok] um_segment(10) um_run_atD(1) [OF run]
    by (metis Pair_inject sum.inject(2) um_rx_at_def)
  then show ?case using run2 um_segment.IH by metis
next
  case (um_full ok quiet s H got log h chain_ok payload outs s')
  note e = um_full_empty [OF um_full(2-5)]
  obtain A where run: "um_run_at sdus ok quiet s H got log A" using um_full.IH by blast
  have "um_run_at sdus (ok \<and> chain_ok) quiet s' H got (log @ List.map (Pair None) outs) A"
    by (rule um_run_at_same [OF run e(1-3)]) auto
  then show ?case using e(1) um_full.IH by auto
next
  case (um_expired ok quiet s H got log s')
  then show ?case using um_run_expired by metis
next
  case (um_other ok quiet s H got log s')
  then obtain A where run: "um_run_at sdus ok quiet s H got log A" by blast
  have "um_run_at sdus ok quiet s' H got log A"
    by (rule um_run_at_same [OF run um_op_same [OF um_other(2)]]) simp_all
  then show ?case using um_op_same [OF um_other(2)] um_other.IH by auto
qed

text \<open>An SDU of which all bytes arrived, and that was not given up, is delivered.\<close>

lemma um_not_given_up:
  assumes run: "um_run_at sdus ok quiet s H got log A" and ok and n: "A \<le> n" "n < H"
    and full: "got n = {0 ..< length (sdus n)}" "sdus n \<noteq> []"
  shows "n \<in> set (um_numbers log)"
proof -
  let ?f = "win_find (um_window s) (um_sn (um_size s) n)"
  have c: "case ?f of None \<Rightarrow> got n = {} | Some i \<Rightarrow> um_carries (sdus n) (got n) i"
    using um_run_atD(2) [OF run n] .
  then obtain i where i: "?f = Some i" "um_carries (sdus n) (got n) i" using full by (cases ?f) auto
  then have "um_fully_received i" using full by (auto simp: um_carries_def split: if_splits)
  then have "um_received (um_window s) (um_sn (um_size s) n)" using i by (simp add: um_received_def)
  then show ?thesis using um_run_atD(6) [OF run] n \<open>ok\<close> by simp
qed

lemma um_complete_delivered:
  assumes run: "um_run_at sdus True True s H got log A" and n: "n < H" "H \<le> n + um_width (um_size s)"
    and full: "got n = {0 ..< length (sdus n)}" "sdus n \<noteq> []"
  shows "n \<in> set (um_numbers log)"
proof (cases "n < A")
  case True
  then show ?thesis using um_run_atD(7) [OF run] n by simp
next
  case False
  then show ?thesis using um_not_given_up [OF run TrueI _ n(1) full] by simp
qed

end
