(* ===== verification/Rlc_Um_Link.thy ===== *)
theory Rlc_Um_Link
  imports Rlc_Tx_Um_Steps Rlc_Rx_Um_Runs
begin

text \<open>
  A transmitter and a receiver of the unacknowledged mode, and a channel between them that loses and
  reorders PDUs, within a window, but does not duplicate them.
\<close>

section \<open>The link\<close>

text \<open>
  PDUs in the channel carry the number of their SDU among the segmented ones, if it is segmented. \<open>N\<close> is the
  number of the SDU at the transmitter, \<open>H\<close> one past the highest number the receiver saw. \<open>submitted\<close>
  lists the SDUs given to the transmitter, \<open>log\<close> what the receiver delivered.
\<close>

definition um_label :: "rlc_um_sn_size \<Rightarrow> nat \<Rightarrow> bytes \<Rightarrow> nat option" where
  "um_label z N pdu = (case rlc_um_read_data_pdu_header pdu z of None \<Rightarrow> None | Some h \<Rightarrow> if uh_si h = Full_sdu then None else Some N)"

definition um_near :: "rlc_um_sn_size \<Rightarrow> nat \<Rightarrow> nat option \<Rightarrow> bool" where
  "um_near z H l \<longleftrightarrow> (case l of None \<Rightarrow> True | Some n \<Rightarrow> H \<le> n + um_width z \<and> n < H + um_width z)"

definition um_next_H :: "nat \<Rightarrow> nat option \<Rightarrow> nat" where
  "um_next_H H l = (case l of None \<Rightarrow> H | Some n \<Rightarrow> max H (Suc n))"

inductive um_link :: "rlc_tx_um_config \<Rightarrow> rlc_rx_um_config \<Rightarrow> bytes list \<Rightarrow> nat \<Rightarrow> rlc_tx_um_entity \<Rightarrow> (nat option \<times> bytes) list \<Rightarrow>
    rlc_rx_um_entity \<Rightarrow> nat \<Rightarrow> (nat option \<times> bytes) list \<Rightarrow> bool" for txc rxc where
  link_start: "rlc_tx_um_create txc en = Inr tx \<Longrightarrow> rlc_rx_um_create rxc en' = Inr rx \<Longrightarrow> um_link txc rxc [] 0 tx [] rx 0 []"
| link_tx: "um_link txc rxc submitted N tx chan rx H log \<Longrightarrow> txum_op tx given tx' \<Longrightarrow>
    um_link txc rxc (submitted @ given) N tx' chan rx H log"
| link_pull: "um_link txc rxc submitted N tx chan rx H log \<Longrightarrow> tx_um_pull_pdu env grant tx = Inr (pdu, tx') \<Longrightarrow>
    um_link txc rxc submitted (if tu_tx_next tx' = tu_tx_next tx then N else Suc N) tx'
      (if pdu = [] then chan else chan @ [(um_label (tu_size tx) N pdu, pdu)]) rx H log"
| link_lose: "um_link txc rxc submitted N tx (xs @ x # ys) rx H log \<Longrightarrow> um_link txc rxc submitted N tx (xs @ ys) rx H log"
| link_deliver: "um_link txc rxc submitted N tx (xs @ (l, pdu) # ys) rx H log \<Longrightarrow> um_near (um_size rx) H l \<Longrightarrow>
    um_handle_pdu chain_ok pdu rx = Inr (outs, rx') \<Longrightarrow>
    um_link txc rxc submitted N tx (xs @ ys) rx' (um_next_H H l) (log @ List.map (Pair l) outs)"
| link_expired: "um_link txc rxc submitted N tx chan rx H log \<Longrightarrow> um_on_expired_reassembly_timer rx = Inr rx' \<Longrightarrow>
    um_link txc rxc submitted N tx chan rx' H log"
| link_rx: "um_link txc rxc submitted N tx chan rx H log \<Longrightarrow> um_op rx rx' \<Longrightarrow> um_link txc rxc submitted N tx chan rx' H log"

section \<open>Changing what was not used\<close>

lemma um_receives_cong:
  assumes "um_receives cfg sdus ok quiet s H got log" and "\<And>k. got k \<noteq> {} \<Longrightarrow> sdus' k = sdus k"
  shows "um_receives cfg sdus' ok quiet s H got log"
  using assms
proof induction
  case (um_start en s)
  then show ?case by (auto intro: um_receives.um_start)
next
  case (um_segment ok quiet s H got log h n payload chain_ok outs s')
  let ?got = "got(n := got n \<union> seg_offsets (um_segment_of h payload))"
  have "?got n \<noteq> {}" using segment_of_offsets(1) [OF um_segment(8)] by simp
  then have n: "sdus' n = sdus n" using um_segment.prems by blast
  have ih: "um_receives cfg sdus' ok quiet s H got log"
  proof (rule um_segment.IH)
    fix k assume "got k \<noteq> {}"
    then have "?got k \<noteq> {}" by (cases "k = n") auto
    then show "sdus' k = sdus k" by (rule um_segment.prems)
  qed
  show ?case by (rule um_receives.um_segment [OF ih um_segment(2-7) _ um_segment(9,10)]) (use um_segment(8) n in simp)
next
  case (um_full ok quiet s H got log h chain_ok payload outs s')
  then show ?case using um_receives.um_full by blast
next
  case (um_expired ok quiet s H got log s')
  then show ?case using um_receives.um_expired by blast
next
  case (um_other ok quiet s H got log s')
  then show ?case using um_receives.um_other by blast
qed

section \<open>The PDUs in the channel\<close>

definition um_bytes_of :: "rlc_um_sn_size \<Rightarrow> nat option \<times> bytes \<Rightarrow> (nat \<times> nat) set" where
  "um_bytes_of z x = (case x of (None, pdu) \<Rightarrow> {} | (Some n, pdu) \<Rightarrow>
     (case rlc_um_read_data_pdu_header pdu z of None \<Rightarrow> {}
      | Some h \<Rightarrow> {n} \<times> seg_offsets (um_segment_of h (drop (rlc_um_nr_packed_length h) pdu))))"

definition um_written :: "rlc_um_sn_size \<Rightarrow> (nat \<Rightarrow> bytes) \<Rightarrow> nat option \<times> bytes \<Rightarrow> bool" where
  "um_written z sdus x \<longleftrightarrow> (\<exists>h p. snd x = rlc_um_write_data_pdu_header h @ p \<and> um_header_ok h \<and> uh_sn_size h = z \<and>
     (case fst x of None \<Rightarrow> uh_si h = Full_sdu
      | Some n \<Rightarrow> uh_si h \<noteq> Full_sdu \<and> ucast (uh_sn h) = um_sn z n \<and> segment_of (sdus n) (um_segment_of h p)))"

definition um_fulls :: "(nat option \<times> bytes) list \<Rightarrow> bytes list" where
  "um_fulls chan = List.map (\<lambda>x. drop 1 (snd x)) (filter (\<lambda>x. fst x = None) chan)"

lemma um_bytes_written:
  assumes "um_header_ok h" and "uh_si h \<noteq> Full_sdu" and "uh_sn_size h = z"
  shows "um_bytes_of z (Some n, rlc_um_write_data_pdu_header h @ p) = {n} \<times> seg_offsets (um_segment_of h p)"
  using um_header_roundtrip_parts [OF assms(1), of p] assms(2,3)
  by (simp add: um_bytes_of_def um_write_length [symmetric])

lemma um_label_written:
  assumes "um_header_ok h" and "uh_sn_size h = z"
  shows "um_label z N (rlc_um_write_data_pdu_header h @ p) = (if uh_si h = Full_sdu then None else Some N)"
  using um_header_roundtrip_parts [OF assms(1), of p] assms(2) by (simp add: um_label_def)

section \<open>The invariant of the link\<close>

text \<open>What the transmitter holds, as a multiset.\<close>

definition tu_held :: "rlc_tx_um_entity \<Rightarrow> bytes multiset" where
  "tu_held s = mset (tu_line s)"

lemma subseq_mset: "subseq xs ys \<Longrightarrow> mset xs \<subseteq># mset ys"
  by (induction xs ys rule: list_emb.induct) (auto intro: subset_mset.order_trans)

text \<open>The bytes that the transmitter has sent.\<close>

definition um_sent_bytes :: "nat \<Rightarrow> nat \<Rightarrow> (nat \<times> nat) set" where
  "um_sent_bytes N so = {(n, i). n < N \<or> n = N \<and> i < so}"

definition um_chan_ok :: "rlc_um_sn_size \<Rightarrow> (nat \<Rightarrow> bytes) \<Rightarrow> (nat \<Rightarrow> nat set) \<Rightarrow> nat \<Rightarrow> nat \<Rightarrow> (nat option \<times> bytes) list \<Rightarrow> bool" where
  "um_chan_ok z sdus got N so chan \<longleftrightarrow> (\<forall>x \<in> set chan. um_written z sdus x) \<and>
     sorted_wrt (\<lambda>x y. um_bytes_of z x \<inter> um_bytes_of z y = {}) chan \<and>
     (\<forall>x \<in> set chan. um_bytes_of z x \<inter> {(n, i). i \<in> got n} = {}) \<and>
     (\<forall>x \<in> set chan. um_bytes_of z x \<subseteq> um_sent_bytes N so) \<and> {(n, i). i \<in> got n} \<subseteq> um_sent_bytes N so"

definition um_tx_at :: "rlc_tx_um_config \<Rightarrow> (nat \<Rightarrow> bytes) \<Rightarrow> nat \<Rightarrow> rlc_tx_um_entity \<Rightarrow> bool" where
  "um_tx_at txc sdus N tx \<longleftrightarrow> txum_inv tx \<and> tu_cfg tx = txc \<and> tu_tx_next tx = um_sn (tuc_sn_field_length txc) N \<and>
     (unat (tu_next_so tx) \<noteq> 0 \<longrightarrow> sdus N = sdu_buf (tu_sdu tx))"

definition um_accounts :: "bytes list \<Rightarrow> (nat \<Rightarrow> bytes) \<Rightarrow> nat \<Rightarrow> rlc_tx_um_entity \<Rightarrow> (nat option \<times> bytes) list \<Rightarrow> (nat option \<times> bytes) list \<Rightarrow> bool" where
  "um_accounts submitted sdus N tx chan log \<longleftrightarrow>
     mset (map snd (filter (\<lambda>x. fst x = None) log)) + mset (um_fulls chan) + mset (map sdus [0 ..< N]) + tu_held tx \<subseteq># mset submitted"

definition um_link_at :: "rlc_tx_um_config \<Rightarrow> rlc_rx_um_config \<Rightarrow> bytes list \<Rightarrow> nat \<Rightarrow> rlc_tx_um_entity \<Rightarrow> (nat option \<times> bytes) list \<Rightarrow>
    rlc_rx_um_entity \<Rightarrow> nat \<Rightarrow> (nat option \<times> bytes) list \<Rightarrow> (nat \<Rightarrow> bytes) \<Rightarrow> (nat \<Rightarrow> nat set) \<Rightarrow> bool \<Rightarrow> bool \<Rightarrow> bool" where
  "um_link_at txc rxc submitted N tx chan rx H log sdus got ok quiet \<longleftrightarrow>
     um_receives rxc sdus ok quiet rx H got log \<and> um_cfg rx = rxc \<and> (\<forall>k. length (sdus k) \<le> 2 ^ 16) \<and> um_tx_at txc sdus N tx \<and>
     um_chan_ok (tuc_sn_field_length txc) sdus got N (unat (tu_next_so tx)) chan \<and> um_accounts submitted sdus N tx chan log"

lemma um_chan_ok_remove:
  assumes "um_chan_ok z sdus got N so (xs @ x # ys)"
  shows "um_chan_ok z sdus got N so (xs @ ys)" and "\<forall>y \<in> set (xs @ ys). um_bytes_of z x \<inter> um_bytes_of z y = {}"
  using assms by (auto simp: um_chan_ok_def sorted_wrt_append)

lemma um_fulls_remove: "mset (um_fulls (xs @ x # ys)) = mset (um_fulls (xs @ ys)) + (if fst x = None then {#drop 1 (snd x)#} else {#})"
  by (simp add: um_fulls_def)

lemma um_link_lose:
  assumes "um_link_at txc rxc submitted N tx (xs @ x # ys) rx H log sdus got ok quiet"
  shows "um_link_at txc rxc submitted N tx (xs @ ys) rx H log sdus got ok quiet"
proof -
  have "um_accounts submitted sdus N tx (xs @ ys) log"
    using assms unfolding um_link_at_def um_accounts_def um_fulls_remove
    by (auto intro: subset_mset.order_trans [rotated] simp: ac_simps split: if_splits)
  then show ?thesis using assms um_chan_ok_remove(1) unfolding um_link_at_def by blast
qed

lemma um_accounts_held:
  assumes acc: "um_accounts submitted sdus N tx chan log" and h: "tu_held tx' \<subseteq># tu_held tx + mset given"
  shows "um_accounts (submitted @ given) sdus N tx' chan log"
proof -
  let ?L = "mset (map snd (filter (\<lambda>x. fst x = None) log)) + mset (um_fulls chan) + mset (map sdus [0 ..< N])"
  have "?L + tu_held tx' \<subseteq># ?L + (tu_held tx + mset given)" by (rule subset_mset.add_left_mono [OF h])
  also have "\<dots> = (?L + tu_held tx) + mset given" by (simp only: add.assoc)
  also have "\<dots> \<subseteq># mset submitted + mset given" by (rule subset_mset.add_right_mono [OF acc [unfolded um_accounts_def]])
  finally show ?thesis by (simp only: um_accounts_def mset_append)
qed

lemma um_link_idle:
  assumes at: "um_link_at txc rxc submitted N tx chan rx H log sdus got ok quiet" and "txum_inv tx'" and idle: "tu_idle tx given tx'"
  shows "um_link_at txc rxc (submitted @ given) N tx' chan rx H log sdus got ok quiet"
proof -
  have "tu_held tx' \<subseteq># tu_held tx + mset given"
    using subseq_mset [of "tu_line tx'" "tu_line tx @ given"] idle by (simp add: tu_idle_def tu_held_def)
  then have "um_accounts (submitted @ given) sdus N tx' chan log"
    using at um_accounts_held [of submitted sdus N tx chan log tx' given] by (simp add: um_link_at_def)
  moreover have "um_tx_at txc sdus N tx'" using at assms(2) idle by (simp add: um_link_at_def um_tx_at_def tu_idle_def)
  ultimately show ?thesis using at idle by (simp add: um_link_at_def tu_idle_def)
qed

lemma um_link_loaded:
  assumes at: "um_link_at txc rxc submitted N tx chan rx H log sdus got ok quiet" and "txum_inv tx'" and l: "tu_loaded tx tx'"
  shows "um_link_at txc rxc submitted N tx' chan rx H log sdus got ok quiet"
proof -
  have "tu_held tx' \<subseteq># tu_held tx + mset []"
    using subseq_mset [of "tu_line tx'" "tu_line tx"] l by (simp add: tu_loaded_def tu_held_def)
  then have "um_accounts submitted sdus N tx' chan log"
    using at um_accounts_held [of submitted sdus N tx chan log tx' "[]"] by (simp add: um_link_at_def)
  moreover have "tu_next_so tx \<noteq> 0 \<Longrightarrow> tx' = tx" using l at
    by (auto simp: tu_loaded_def um_link_at_def um_tx_at_def txum_inv_def unsigned_eq_0_iff)
  then have "um_tx_at txc sdus N tx'" using at assms(2) l by (auto simp: um_link_at_def um_tx_at_def tu_loaded_def unsigned_eq_0_iff)
  ultimately show ?thesis using at l by (simp add: um_link_at_def tu_loaded_def)
qed

section \<open>A PDU enters the channel\<close>

lemma um_chan_ok_add:
  assumes "um_chan_ok z sdus got N so chan" and "um_written z sdus x" and "um_bytes_of z x \<inter> um_sent_bytes N so = {}"
    and "um_bytes_of z x \<subseteq> um_sent_bytes N' so'" and "um_sent_bytes N so \<subseteq> um_sent_bytes N' so'"
  shows "um_chan_ok z sdus got N' so' (chan @ [x])"
proof -
  have "\<forall>y \<in> set chan. um_bytes_of z y \<subseteq> um_sent_bytes N so" "{(n, i). i \<in> got n} \<subseteq> um_sent_bytes N so"
    using assms(1) by (simp_all add: um_chan_ok_def)
  then show ?thesis using assms unfolding um_chan_ok_def sorted_wrt_append by (auto, blast+)
qed

lemma um_chan_ok_sdus:
  assumes "um_chan_ok z sdus got N 0 chan" and "\<And>n. n < N \<Longrightarrow> sdus' n = sdus n"
  shows "um_chan_ok z sdus' got N 0 chan"
proof -
  have "um_written z sdus' x" if x: "x \<in> set chan" for x
  proof -
    have w: "um_written z sdus x" and b: "um_bytes_of z x \<subseteq> um_sent_bytes N 0" using assms(1) x by (simp_all add: um_chan_ok_def)
    show ?thesis
    proof (cases "fst x")
      case None
      then show ?thesis using w by (simp add: um_written_def)
    next
      case (Some n)
      obtain h p where h: "snd x = rlc_um_write_data_pdu_header h @ p" "um_header_ok h" "uh_sn_size h = z" "uh_si h \<noteq> Full_sdu"
        "ucast (uh_sn h) = um_sn z n" "segment_of (sdus n) (um_segment_of h p)"
        using w Some by (auto simp: um_written_def)
      have "um_bytes_of z x = {n} \<times> seg_offsets (um_segment_of h p)"
        using um_bytes_written [OF h(2,4,3), of n p] h(1) Some by (cases x) simp
      then have "n < N" using b segment_of_offsets(1) [OF h(6)] by (auto simp: um_sent_bytes_def)
      then have "segment_of (sdus' n) (um_segment_of h p)" using h(6) assms(2) by simp
      then show ?thesis using h Some unfolding um_written_def by auto
    qed
  qed
  then show ?thesis using assms(1) by (simp add: um_chan_ok_def)
qed

lemma um_sn_16:
  assumes "unat (x :: u32) < unat (um_mod_of z)"
  shows "ucast (ucast x :: u16) = x"
proof -
  have "unat x < 2 ^ 16" using assms by (cases z) (simp_all add: um_mod_of_def)
  then show ?thesis by (simp add: word_unat_eq_iff unsigned_ucast_eq take_bit_eq_mod unat_mod)
qed

lemma um_link_built:
  assumes at: "um_link_at txc rxc submitted N tx chan rx H log sdus got ok quiet" and b: "tu_builds tx grant h p tx'" and inv: "txum_inv tx'"
  defines "pdu \<equiv> rlc_um_write_data_pdu_header h @ p"
  shows "\<exists>sdus'. (\<forall>n < N. sdus' n = sdus n) \<and> (uh_si h \<noteq> Full_sdu \<longrightarrow> sdus' N = sdu_buf (tu_sdu tx)) \<and>
    um_link_at txc rxc submitted (if tu_tx_next tx' = tu_tx_next tx then N else Suc N) tx'
      (chan @ [(um_label (tu_size tx) N pdu, pdu)]) rx H log sdus' got ok quiet"
proof -
  let ?z = "tuc_sn_field_length txc" and ?buf = "sdu_buf (tu_sdu tx)" and ?so = "unat (tu_next_so tx)"
  note b = b [unfolded tu_builds_def Let_def]
  have cfg: "tu_cfg tx = txc" and txinv: "txum_inv tx" and sn: "tu_tx_next tx = um_sn ?z N" and cur: "?so \<noteq> 0 \<Longrightarrow> sdus N = ?buf"
    and recv: "um_receives rxc sdus ok quiet rx H got log" and len: "\<And>k. length (sdus k) \<le> 2 ^ 16" and chan: "um_chan_ok ?z sdus got N ?so chan"
    and acc: "um_accounts submitted sdus N tx chan log"
    using at by (auto simp: um_link_at_def um_tx_at_def)
  have h: "um_header_ok h" "uh_sn_size h = ?z" "uh_sn h = ucast (tu_tx_next tx)" "unat (uh_so h) = ?so" and p: "p \<noteq> []" "p = take (length p) (drop ?so ?buf)"
    "?so + length p \<le> length ?buf" using b cfg by simp_all
  have cfg': "tu_cfg tx' = txc" using b cfg by simp
  have lab: "um_label ?z N pdu = (if uh_si h = Full_sdu then None else Some N)" unfolding pdu_def by (rule um_label_written [OF h(1,2)])
  have next_sn: "(tu_tx_next tx + 1) mod tu_mod_of ?z = um_sn ?z (Suc N)"
    using um_sn_Suc [of ?z N] sn by (simp add: tu_mod_of_def um_mod_of_def)
  have "tu_tx_next tx' = tu_tx_next tx \<longleftrightarrow> uh_si h \<noteq> Last_segment"
    using b cfg next_sn sn um_sn_inj [of ?z "Suc N" N] um_mod_window(2) [of ?z] by auto
  then have N': "(if tu_tx_next tx' = tu_tx_next tx then N else Suc N) = (if uh_si h = Last_segment then Suc N else N)" by simp
  define sdus' where "sdus' = (if uh_si h = First_segment then sdus(N := ?buf) else sdus)"
  show ?thesis
  proof (cases "uh_si h = Full_sdu")
    case True
    then have e: "?so = 0" "p = ?buf" "tu_tx_next tx' = tu_tx_next tx" "unat (tu_next_so tx') = 0" "sdu_buf (tu_sdu tx') = []" "tu_sdu_queue tx' = tu_sdu_queue tx"
      using b by auto
    have d: "drop 1 pdu = ?buf"
    proof -
      have "length (rlc_um_write_data_pdu_header h) = 1" using True by (simp add: um_write_length rlc_um_nr_packed_length_def)
      then show ?thesis unfolding pdu_def e(2) by simp
    qed
    have "um_written ?z sdus (None, pdu)" using h(1,2) True by (auto simp: um_written_def pdu_def)
    then have "um_chan_ok ?z sdus got N 0 (chan @ [(None, pdu)])"
      using um_chan_ok_add [OF chan, of "(None, pdu)" N 0] e(1) by (simp add: um_bytes_of_def)
    moreover have "tu_held tx = tu_held tx' + {#?buf#}" using e p(1) by (simp add: tu_held_def tu_line_def)
    then have "um_accounts submitted sdus N tx' (chan @ [(None, pdu)]) log"
      using acc d by (simp add: um_accounts_def um_fulls_def ac_simps)
    moreover have "um_tx_at txc sdus N tx'" using inv cfg' sn e by (simp add: um_tx_at_def)
    ultimately have "um_link_at txc rxc submitted N tx' (chan @ [(None, pdu)]) rx H log sdus got ok quiet"
      using at e(4) by (simp add: um_link_at_def)
    then show ?thesis unfolding N' cfg lab using True by auto
  next
    case seg: False
    have seg_len: "length ?buf \<le> 2 ^ 16" using txinv by (simp add: txum_inv_def)
    have si: "uh_si h = Last_segment \<longleftrightarrow> ?so + length p = length ?buf" "uh_si h = First_segment \<longleftrightarrow> ?so = 0" using b seg by auto
    have cur': "sdus' N = ?buf" using si cur by (auto simp: sdus'_def)
    have recv': "um_receives rxc sdus' ok quiet rx H got log"
    proof (cases "uh_si h = First_segment")
      case True
      have "got N = {}" using chan si True by (auto simp: um_chan_ok_def um_sent_bytes_def)
      then show ?thesis by (intro um_receives_cong [OF recv]) (auto simp: sdus'_def)
    next
      case False
      then show ?thesis using recv by (simp add: sdus'_def)
    qed
    have chan': "um_chan_ok ?z sdus' got N ?so chan"
    proof (cases "uh_si h = First_segment")
      case True
      then show ?thesis using um_chan_ok_sdus [of ?z sdus got N chan sdus'] chan si by (simp add: sdus'_def)
    next
      case False
      then show ?thesis using chan by (simp add: sdus'_def)
    qed
    have s: "segment_of (sdus' N) (um_segment_of h p)"
      using p si h(4) by (simp add: segment_of_def um_segment_of_def seg_end_def cur')
    have "ucast (uh_sn h) = um_sn ?z N" unfolding h(3) sn by (rule um_sn_16 [OF um_sn_less])
    then have w: "um_written ?z sdus' (Some N, pdu)" using h(1,2) seg s by (auto simp: um_written_def pdu_def)
    have sent: "um_bytes_of ?z (Some N, pdu) = {N} \<times> {?so ..< ?so + length p}"
      unfolding pdu_def um_bytes_written [OF h(1) seg h(2)] by (simp add: seg_offsets_def seg_end_def um_segment_of_def h(4))
    let ?N = "if uh_si h = Last_segment then Suc N else N" and ?so' = "unat (tu_next_so tx')"
    have so': "?so' = (if uh_si h = Last_segment then 0 else ?so + length p)" using b si by simp
    have c: "um_chan_ok ?z sdus' got ?N ?so' (chan @ [(Some N, pdu)])"
      by (rule um_chan_ok_add [OF chan' w]) (auto simp: sent so' um_sent_bytes_def)
    have held: "tu_held tx = tu_held tx' + (if uh_si h = Last_segment then {#?buf#} else {#})"
      using b si p by (auto simp: tu_held_def tu_line_def)
    have pre: "map sdus' [0 ..< N] = map sdus [0 ..< N]" by (simp add: sdus'_def)
    have fl: "um_fulls (chan @ [(Some N, pdu)]) = um_fulls chan" by (simp add: um_fulls_def)
    have sd: "mset (map sdus' [0 ..< ?N]) = mset (map sdus [0 ..< N]) + (if uh_si h = Last_segment then {#?buf#} else {#})"
      unfolding pre [symmetric] by (cases "uh_si h = Last_segment") (simp_all add: cur')
    have "um_accounts submitted sdus' ?N tx' (chan @ [(Some N, pdu)]) log"
      using acc unfolding um_accounts_def fl sd held by (simp only: ac_simps)
    moreover have "um_tx_at txc sdus' ?N tx'"
      using inv cfg cfg' sn next_sn so' b si cur' by (auto simp: um_tx_at_def)
    moreover have "\<forall>k. length (sdus' k) \<le> 2 ^ 16" using len seg_len by (simp add: sdus'_def)
    ultimately have "um_link_at txc rxc submitted ?N tx' (chan @ [(Some N, pdu)]) rx H log sdus' got ok quiet"
      using at c recv' by (simp add: um_link_at_def)
    moreover have "\<forall>n < N. sdus' n = sdus n" by (simp add: sdus'_def)
    ultimately show ?thesis unfolding N' cfg lab using seg cur' by auto
  qed
qed

section \<open>A PDU leaves the channel\<close>

lemma um_full_byte: "um_header_ok h \<Longrightarrow> uh_si h = Full_sdu \<Longrightarrow> drop 1 (rlc_um_write_data_pdu_header h @ p) = p"
  using um_write_length [of h] by (simp add: rlc_um_nr_packed_length_def)

lemma um_link_delivered:
  assumes at: "um_link_at txc rxc submitted N tx (xs @ (l, pdu) # ys) rx H log sdus got ok quiet"
    and z: "ruc_sn_field_length rxc = tuc_sn_field_length txc" and near: "um_near (um_size rx) H l"
    and handled: "um_handle_pdu chain_ok pdu rx = Inr (outs, rx')" and t: "0 < ruc_t_reassembly rxc"
  shows "\<exists>got'. {(n, i). i \<in> got' n} = {(n, i). i \<in> got n} \<union> um_bytes_of (tuc_sn_field_length txc) (l, pdu) \<and>
    um_link_at txc rxc submitted N tx (xs @ ys) rx' (um_next_H H l) (log @ List.map (Pair l) outs) sdus got' (ok \<and> chain_ok) quiet"
proof -
  let ?z = "tuc_sn_field_length txc" and ?so = "unat (tu_next_so tx)"
  have recv: "um_receives rxc sdus ok quiet rx H got log" and cfg: "um_cfg rx = rxc" and chan: "um_chan_ok ?z sdus got N ?so (xs @ (l, pdu) # ys)"
    and acc: "um_accounts submitted sdus N tx (xs @ (l, pdu) # ys) log" and len: "\<And>k. length (sdus k) \<le> 2 ^ 16"
    using at by (simp_all add: um_link_at_def)
  note rest = um_chan_ok_remove [OF chan]
  have size: "um_size rx = ?z" using cfg z by simp
  obtain h p where h: "pdu = rlc_um_write_data_pdu_header h @ p" "um_header_ok h" "uh_sn_size h = um_size rx"
    "case l of None \<Rightarrow> uh_si h = Full_sdu
     | Some n \<Rightarrow> uh_si h \<noteq> Full_sdu \<and> ucast (uh_sn h) = um_sn ?z n \<and> segment_of (sdus n) (um_segment_of h p)"
    using chan size by (auto simp: um_chan_ok_def um_written_def)
  show ?thesis
  proof (cases l)
    case None
    then have si: "uh_si h = Full_sdu" using h(4) by simp
    note e = um_full_empty [OF h(2,3) si handled [unfolded h(1)]]
    have recv': "um_receives rxc sdus (ok \<and> chain_ok) quiet rx' H got (log @ List.map (Pair None) outs)"
      by (rule um_receives.um_full [OF recv h(2,3) si handled [unfolded h(1)]])
    have d: "drop 1 pdu = p" unfolding h(1) by (rule um_full_byte [OF h(2) si])
    have o: "mset (map snd (filter (\<lambda>x. fst x = None) (List.map (Pair (None :: nat option)) outs))) \<subseteq># {#p#}"
      using e(4) by (auto simp: None)
    let ?A = "mset (map snd (filter (\<lambda>x. fst x = None) log))" and ?B = "mset (um_fulls (xs @ ys))" and ?C = "mset (map sdus [0 ..< N]) + tu_held tx"
    let ?D = "mset (map snd (filter (\<lambda>x. fst x = None) (List.map (Pair (None :: nat option)) outs)))"
    have le: "?A + (?B + {#p#}) + ?C \<subseteq># mset submitted"
      using acc unfolding um_accounts_def um_fulls_remove None by (simp only: fst_conv snd_conv d refl if_True add.assoc)
    have "?A + ?D + ?B + mset (map sdus [0 ..< N]) + tu_held tx \<subseteq># ?A + (?B + {#p#}) + ?C"
      using subset_mset.add_left_mono [OF o, of "?A + ?B + ?C"] by (simp only: ac_simps)
    then have "um_accounts submitted sdus N tx (xs @ ys) (log @ List.map (Pair None) outs)"
      unfolding um_accounts_def filter_append map_append mset_append by (rule subset_mset.order_trans [OF _ le])
    then have "um_link_at txc rxc submitted N tx (xs @ ys) rx' (um_next_H H l) (log @ List.map (Pair l) outs) sdus got (ok \<and> chain_ok) quiet"
      using at recv' rest(1) e(1) None by (auto simp: um_link_at_def um_next_H_def)
    then show ?thesis by (intro exI [of _ got]) (simp add: None um_bytes_of_def)
  next
    case (Some n)
    have seg: "uh_si h \<noteq> Full_sdu" "ucast (uh_sn h) = um_sn (um_size rx) n" "segment_of (sdus n) (um_segment_of h p)"
      using h(4) Some size by simp_all
    let ?off = "seg_offsets (um_segment_of h p)" and ?got = "got(n := got n \<union> seg_offsets (um_segment_of h p))"
    have bytes: "um_bytes_of ?z (l, pdu) = {n} \<times> ?off"
      unfolding h(1) Some by (rule um_bytes_written [OF h(2) seg(1)]) (use h(3) size in simp)
    have fresh: "?off \<inter> got n = {}" using chan bytes by (auto simp: um_chan_ok_def)
    have nr: "H \<le> n + um_width (um_size rx)" "n < H + um_width (um_size rx)" using near Some by (simp_all add: um_near_def)
    have recv': "um_receives rxc sdus (ok \<and> chain_ok) quiet rx' (max H (Suc n)) ?got (log @ List.map (Pair (Some n)) outs)"
      by (rule um_receives.um_segment [OF recv h(2,3) seg(1,2) nr seg(3) fresh handled [unfolded h(1)]])
    have got: "{(k, i). i \<in> ?got k} = {(k, i). i \<in> got k} \<union> um_bytes_of ?z (l, pdu)" unfolding bytes by (auto split: if_splits)
    have c: "um_chan_ok ?z sdus ?got N ?so (xs @ ys)"
      using got rest chan unfolding um_chan_ok_def by (auto simp: Int_Un_distrib)
    have "um_fulls (xs @ (l, pdu) # ys) = um_fulls (xs @ ys)" by (simp add: um_fulls_def Some)
    moreover have "filter (\<lambda>x. fst x = None) (List.map (Pair (Some n)) outs) = []" by (simp add: filter_empty_conv)
    ultimately have "um_accounts submitted sdus N tx (xs @ ys) (log @ List.map (Pair (Some n)) outs)"
      using acc by (simp add: um_accounts_def)
    moreover have "um_cfg rx' = rxc" using um_receives_run [OF recv' t len] by blast
    ultimately have "um_link_at txc rxc submitted N tx (xs @ ys) rx' (um_next_H H l) (log @ List.map (Pair l) outs) sdus ?got (ok \<and> chain_ok) quiet"
      using at recv' c Some by (simp add: um_link_at_def um_next_H_def)
    then show ?thesis using got by blast
  qed
qed

section \<open>All runs of the link\<close>

lemma um_link_inv:
  assumes "um_link txc rxc submitted N tx chan rx H log" and "0 < tuc_queue_size txc" and "0 < ruc_t_reassembly rxc"
    and z: "ruc_sn_field_length rxc = tuc_sn_field_length txc"
  shows "\<exists>sdus got ok quiet. um_link_at txc rxc submitted N tx chan rx H log sdus got ok quiet"
  using assms(1)
proof induction
  case (link_start en tx en' rx)
  note c = txum_create_inv [OF link_start(1) assms(2)]
  have "um_sn (tuc_sn_field_length txc) 0 = 0" by (simp add: word_unat_eq_iff unat_um_sn)
  then have "um_link_at txc rxc [] 0 tx [] rx 0 [] (\<lambda>_. []) (\<lambda>_. {}) True True"
    using c um_create_at(2) [OF link_start(2) assms(3)] um_receives.um_start [OF link_start(2), of "\<lambda>_. []"]
    by (simp add: um_link_at_def um_tx_at_def um_chan_ok_def um_accounts_def um_fulls_def tu_held_def)
  then show ?case by blast
next
  case (link_tx submitted N tx chan rx H log given tx')
  then obtain sdus got ok quiet where at: "um_link_at txc rxc submitted N tx chan rx H log sdus got ok quiet" by blast
  then have "txum_inv tx" by (simp add: um_link_at_def um_tx_at_def)
  then show ?case using um_link_idle [OF at] txum_op_ok [OF link_tx(2)] by blast
next
  case (link_pull submitted N tx chan rx H log env grant pdu tx')
  then obtain sdus got ok quiet where at: "um_link_at txc rxc submitted N tx chan rx H log sdus got ok quiet" by blast
  then have inv: "txum_inv tx" by (simp add: um_link_at_def um_tx_at_def)
  obtain tx1 where p: "tu_loaded tx tx1" "txum_inv tx1" "txum_inv tx'"
    "pdu = [] \<and> tx' = tx1 \<or> (\<exists>h payload. pdu = rlc_um_write_data_pdu_header h @ payload \<and> tu_builds tx1 (unat grant) h payload tx')"
    by (rule tx_um_pull_ok [OF inv, of env grant]) (use link_pull(2) in \<open>auto intro: that\<close>)
  have at1: "um_link_at txc rxc submitted N tx1 chan rx H log sdus got ok quiet" by (rule um_link_loaded [OF at p(2,1)])
  have same: "tu_tx_next tx1 = tu_tx_next tx" "tu_size tx1 = tu_size tx" using p(1) by (simp_all add: tu_loaded_def)
  show ?case
  proof (cases "pdu = []")
    case True
    then have "tx' = tx1" using p(4) by (auto simp: tu_builds_def Let_def)
    then show ?thesis using True at1 same by auto
  next
    case False
    then obtain h payload where b: "pdu = rlc_um_write_data_pdu_header h @ payload" "tu_builds tx1 (unat grant) h payload tx'" using p(4) by blast
    have "\<exists>sdus'. um_link_at txc rxc submitted (if tu_tx_next tx' = tu_tx_next tx then N else Suc N) tx'
        (chan @ [(um_label (tu_size tx) N pdu, pdu)]) rx H log sdus' got ok quiet"
      using um_link_built [OF at1 b(2) p(3)] unfolding b(1) [symmetric] same by blast
    then show ?thesis unfolding if_not_P [OF False] by blast
  qed
next
  case (link_lose submitted N tx xs x ys rx H log)
  then show ?case using um_link_lose by blast
next
  case (link_deliver submitted N tx xs l pdu ys rx H log chain_ok outs rx')
  then show ?case using um_link_delivered [OF _ z link_deliver(2,3) assms(3)] by blast
next
  case (link_expired submitted N tx chan rx H log rx')
  then obtain sdus got ok quiet where at: "um_link_at txc rxc submitted N tx chan rx H log sdus got ok quiet" by blast
  then have r: "um_receives rxc sdus ok False rx' H got log" by (auto simp: um_link_at_def intro: um_receives.um_expired [OF _ link_expired(2)])
  then have "um_cfg rx' = rxc" using um_receives_run [OF r assms(3)] at by (simp add: um_link_at_def)
  then have "um_link_at txc rxc submitted N tx chan rx' H log sdus got ok False" using at r by (simp add: um_link_at_def)
  then show ?case by blast
next
  case (link_rx submitted N tx chan rx H log rx')
  then obtain sdus got ok quiet where at: "um_link_at txc rxc submitted N tx chan rx H log sdus got ok quiet" by blast
  then have "um_link_at txc rxc submitted N tx chan rx' H log sdus got ok quiet"
    using um_op_same(1) [OF link_rx(2)] by (auto simp: um_link_at_def intro: um_receives.um_other [OF _ link_rx(2)])
  then show ?case by blast
qed

lemma um_log_split:
  assumes "\<And>n b. (Some n, b) \<in> set log \<Longrightarrow> b = sdus n"
  shows "mset (map snd log) = mset (map snd (filter (\<lambda>x. fst x = None) log)) + mset (map sdus (um_numbers log))"
  using assms
proof (induction log)
  case (Cons x log)
  then have ih: "mset (map snd log) = mset (map snd (filter (\<lambda>x. fst x = None) log)) + mset (map sdus (um_numbers log))" by auto
  obtain l b where x: "x = (l, b)" by force
  show ?case
  proof (cases l)
    case None
    then show ?thesis using ih x by (simp add: um_numbers_def map_filter_def)
  next
    case (Some n)
    then have "b = sdus n" using Cons.prems [of n b] x by simp
    then show ?thesis using ih x Some by (simp add: um_numbers_def map_filter_def)
  qed
qed (simp add: um_numbers_def map_filter_def)

lemma um_link_at_safe:
  assumes at: "um_link_at txc rxc submitted N tx chan rx H log sdus got ok quiet" and "0 < ruc_t_reassembly rxc"
  shows "mset (map snd log) \<subseteq># mset submitted" and "\<And>n. n \<in> set (um_numbers log) \<Longrightarrow> n < N" and "distinct (um_numbers log)"
proof -
  have recv: "um_receives rxc sdus ok quiet rx H got log" and len: "\<And>k. length (sdus k) \<le> 2 ^ 16"
    and acc: "um_accounts submitted sdus N tx chan log" and txat: "um_tx_at txc sdus N tx"
    and sent: "{(n, i). i \<in> got n} \<subseteq> um_sent_bytes N (unat (tu_next_so tx))"
    using at by (simp_all add: um_link_at_def um_chan_ok_def)
  obtain A where run: "um_run_at sdus ok quiet rx H got log A" using um_receives_run [OF recv assms(2) len] by blast
  note R = um_run_atD [OF run]
  show "distinct (um_numbers log)" by (rule R(5))
  show lt: "n < N" if n: "n \<in> set (um_numbers log)" for n
  proof (rule ccontr)
    assume "\<not> n < N"
    obtain b where "(Some n, b) \<in> set log" using n by (auto simp: um_numbers_set)
    then have g: "sdus n \<noteq> []" "got n = {0 ..< length (sdus n)}" using R(4) by blast+
    then have "length (sdus n) - 1 \<in> got n" by simp
    then have "n = N" "length (sdus n) - 1 < unat (tu_next_so tx)" using sent \<open>\<not> n < N\<close> by (auto simp: um_sent_bytes_def)
    moreover from this have "sdus N = sdu_buf (tu_sdu tx)" "unat (tu_next_so tx) < length (sdu_buf (tu_sdu tx))"
      using txat by (auto simp: um_tx_at_def txum_inv_def)
    ultimately show False by simp
  qed
  have "mset (um_numbers log) \<subseteq># mset [0 ..< N]"
    using subset_imp_msubset_mset_set [of "set (um_numbers log)" "{0 ..< N}"] lt mset_set_set [OF R(5)] by (simp add: subset_eq)
  then have nums: "mset (map sdus (um_numbers log)) \<subseteq># mset (map sdus [0 ..< N])"
    unfolding mset_map by (rule image_mset_subseteq_mono)
  have "mset (map snd log) = mset (map snd (filter (\<lambda>x. fst x = None) log)) + mset (map sdus (um_numbers log))"
    by (rule um_log_split) (use R(4) in blast)
  also have "\<dots> \<subseteq># mset (map snd (filter (\<lambda>x. fst x = None) log)) + mset (map sdus [0 ..< N])"
    by (rule subset_mset.add_left_mono [OF nums])
  also have "\<dots> \<subseteq># (mset (map snd (filter (\<lambda>x. fst x = None) log)) + mset (map sdus [0 ..< N])) + (mset (um_fulls chan) + tu_held tx)"
    by (rule mset_subset_eq_add_left)
  also have "\<dots> \<subseteq># mset submitted" using acc unfolding um_accounts_def by (simp only: ac_simps)
  finally show "mset (map snd log) \<subseteq># mset submitted" .
qed

end
