(* ===== verification/Rlc_Um_Direct.thy ===== *)
theory Rlc_Um_Direct
  imports Rlc_Um_Link
begin

text \<open>
  The unacknowledged link when every PDU arrives at once: each SDU is delivered as soon as its last
  byte is sent, unchanged and in order.
\<close>

section \<open>The link without loss\<close>

text \<open>The SDU that a PDU completes.\<close>

definition um_completed :: "rlc_tx_um_entity \<Rightarrow> bytes \<Rightarrow> bytes list" where
  "um_completed tx pdu =
     (case rlc_um_read_data_pdu_header pdu (tu_size tx) of
        None \<Rightarrow> []
      | Some h \<Rightarrow> if uh_si h = Full_sdu then [drop 1 pdu] else if uh_si h = Last_segment then [sdu_buf (tu_sdu tx)] else [])"

inductive um_direct :: "rlc_tx_um_config \<Rightarrow> rlc_rx_um_config \<Rightarrow> bytes list \<Rightarrow> bytes list \<Rightarrow> rlc_tx_um_entity \<Rightarrow> rlc_rx_um_entity \<Rightarrow> bytes list \<Rightarrow> bool"
  for txc rxc where
  direct_start: "rlc_tx_um_create txc en = Inr tx \<Longrightarrow> rlc_rx_um_create rxc en' = Inr rx \<Longrightarrow> um_direct txc rxc [] [] tx rx []"
| direct_tx: "um_direct txc rxc submitted sent tx rx log \<Longrightarrow> txum_op tx given tx' \<Longrightarrow> um_direct txc rxc (submitted @ given) sent tx' rx log"
| direct_rx: "um_direct txc rxc submitted sent tx rx log \<Longrightarrow> um_op rx rx' \<Longrightarrow> um_direct txc rxc submitted sent tx rx' log"
| direct_no_pdu: "um_direct txc rxc submitted sent tx rx log \<Longrightarrow> tx_um_pull_pdu env grant tx = Inr ([], tx') \<Longrightarrow>
    um_direct txc rxc submitted sent tx' rx log"
| direct_pdu: "um_direct txc rxc submitted sent tx rx log \<Longrightarrow> tx_um_pull_pdu env grant tx = Inr (pdu, tx') \<Longrightarrow> pdu \<noteq> [] \<Longrightarrow>
    um_handle_pdu True pdu rx = Inr (outs, rx') \<Longrightarrow> um_direct txc rxc submitted (sent @ um_completed tx pdu) tx' rx' (log @ outs)"

text \<open>
  All bytes that were sent arrived, those of the SDU that is being sent included.
\<close>

definition um_direct_at :: "rlc_tx_um_config \<Rightarrow> rlc_rx_um_config \<Rightarrow> bytes list \<Rightarrow> bytes list \<Rightarrow> rlc_tx_um_entity \<Rightarrow> rlc_rx_um_entity \<Rightarrow> bytes list \<Rightarrow>
    (nat option \<times> bytes) list \<Rightarrow> nat \<Rightarrow> (nat \<Rightarrow> bytes) \<Rightarrow> (nat \<Rightarrow> nat set) \<Rightarrow> bool" where
  "um_direct_at txc rxc submitted sent tx rx log llog N sdus got \<longleftrightarrow>
     um_link_at txc rxc submitted N tx [] rx (if unat (tu_next_so tx) = 0 then N else Suc N) llog sdus got True True \<and>
     (\<forall>n i. i \<in> got n \<longleftrightarrow> (n, i) \<in> um_sent_bytes N (unat (tu_next_so tx)) \<and> i < length (sdus n)) \<and>
     map snd llog = log \<and> log = sent \<and> subseq (sent @ tu_line tx) submitted"

lemma um_direct_pdu:
  assumes at: "um_direct_at txc rxc submitted sent tx rx log llog N sdus got"
    and b: "tu_builds tx grant h p tx'" and inv: "txum_inv tx'" and t: "0 < ruc_t_reassembly rxc"
    and z: "ruc_sn_field_length rxc = tuc_sn_field_length txc"
    and handled: "um_handle_pdu True (rlc_um_write_data_pdu_header h @ p) rx = Inr (outs, rx')"
  shows "\<exists>llog' N' sdus' got'. um_direct_at txc rxc submitted (sent @ um_completed tx (rlc_um_write_data_pdu_header h @ p)) tx' rx' (log @ outs) llog' N' sdus' got'"
proof -
  let ?z = "tuc_sn_field_length txc" and ?buf = "sdu_buf (tu_sdu tx)" and ?so = "unat (tu_next_so tx)" and ?so' = "unat (tu_next_so tx')"
  let ?pdu = "rlc_um_write_data_pdu_header h @ p" and ?H = "if unat (tu_next_so tx) = 0 then N else Suc N"
  note b' = b [unfolded tu_builds_def Let_def]
  have l: "um_link_at txc rxc submitted N tx [] rx ?H llog sdus got True True" using at by (simp add: um_direct_at_def)
  have cfg: "tu_cfg tx = txc" "um_size rx = ?z" and txinv: "txum_inv tx" using l z by (simp_all add: um_link_at_def um_tx_at_def)
  have h: "um_header_ok h" "uh_sn_size h = ?z" "unat (uh_so h) = ?so" and p: "p \<noteq> []" "?so + length p \<le> length ?buf"
    "p = take (length p) (drop ?so ?buf)" and cfg': "tu_cfg tx' = txc" using b' cfg by simp_all
  let ?N = "if tu_tx_next tx' = tu_tx_next tx then N else Suc N"
  obtain sdus' where s: "\<forall>n < N. sdus' n = sdus n" "uh_si h \<noteq> Full_sdu \<longrightarrow> sdus' N = ?buf"
    "um_link_at txc rxc submitted ?N tx' [(um_label ?z N ?pdu, ?pdu)] rx ?H llog sdus' got True True"
    using um_link_built [OF l b inv] cfg by auto
  have lab: "um_label ?z N ?pdu = (if uh_si h = Full_sdu then None else Some N)" by (rule um_label_written [OF h(1,2)])
  have near: "um_near (um_size rx) ?H (um_label ?z N ?pdu)" using um_mod_window(2) [of ?z] cfg by (auto simp: um_near_def lab)
  have s3: "um_link_at txc rxc submitted ?N tx' ([] @ (um_label ?z N ?pdu, ?pdu) # []) rx ?H llog sdus' got True True" using s(3) by simp
  let ?llog = "llog @ List.map (Pair (um_label ?z N ?pdu)) outs"
  obtain got' where g: "{(n, i). i \<in> got' n} = {(n, i). i \<in> got n} \<union> um_bytes_of ?z (um_label ?z N ?pdu, ?pdu)"
    "um_link_at txc rxc submitted ?N tx' [] rx' (um_next_H ?H (um_label ?z N ?pdu)) ?llog sdus' got' True True"
    using um_link_delivered [OF s3 z near handled t] by auto
  have g': "i \<in> got' n \<longleftrightarrow> i \<in> got n \<or> (n, i) \<in> um_bytes_of ?z (um_label ?z N ?pdu, ?pdu)" for n i
    using g(1) by (auto simp: set_eq_iff)
  have old: "i \<in> got n \<longleftrightarrow> (n < N \<or> n = N \<and> i < ?so) \<and> i < length (sdus n)" for n i
    using at by (auto simp: um_direct_at_def um_sent_bytes_def)
  have logs: "map snd ?llog = log @ outs" using at by (simp add: um_direct_at_def comp_def)
  have sub: "subseq (sent @ tu_line tx) submitted" and ls: "log = sent" using at by (simp_all add: um_direct_at_def)
  have cfgz: "tu_size tx = ?z" using cfg by simp
  have read: "rlc_um_read_data_pdu_header ?pdu ?z = Some (if uh_si h = Full_sdu then h\<lparr>uh_sn := 0\<rparr> else h)"
    using um_header_roundtrip_parts [OF h(1), of p] h(2) by simp
  have sn: "tu_tx_next tx = um_sn ?z N" using l by (simp add: um_link_at_def um_tx_at_def)
  have N: "?N = (if uh_si h = Last_segment then Suc N else N)"
  proof -
    have "(tu_tx_next tx + 1) mod tu_mod_of ?z = um_sn ?z (Suc N)" using um_sn_Suc [of ?z N] sn by (simp add: tu_mod_of_def um_mod_of_def)
    then show ?thesis using b' cfg sn um_sn_inj [of ?z "Suc N" N] um_mod_window(2) [of ?z] by auto
  qed
  show ?thesis
  proof (cases "uh_si h = Full_sdu")
    case True
    then have e: "?so = 0" "?so' = 0" "p = ?buf" "sdu_buf (tu_sdu tx') = []" "tu_sdu_queue tx' = tu_sdu_queue tx" using b' by auto
    have o: "outs = [p]" using um_full_empty(4) [OF h(1) _ True handled] h(2) cfg p(1) by simp
    have c: "um_completed tx ?pdu = [p]" using read True um_full_byte [OF h(1) True, of p] by (simp add: um_completed_def cfgz)
    have "tu_line tx = p # tu_line tx'" using e p(1) by (simp add: tu_line_def)
    then have "um_direct_at txc rxc submitted (sent @ [p]) tx' rx' (log @ [p]) ?llog ?N sdus' got'"
      using g(2) logs sub ls s(1) True e old g' lab o N
      by (auto simp: um_direct_at_def um_sent_bytes_def um_next_H_def um_bytes_of_def)
    then show ?thesis using o c by auto
  next
    case seg: False
    have si: "uh_si h = Last_segment \<longleftrightarrow> ?so + length p = length ?buf" using b' seg by auto
    have so': "?so' = (if uh_si h = Last_segment then 0 else ?so + length p)" using b' si by simp
    have curr: "sdus' N = ?buf" using s(2) seg by simp
    have lb: "um_label ?z N ?pdu = Some N" using lab seg by simp
    have bytes: "um_bytes_of ?z (Some N, ?pdu) = {N} \<times> {?so ..< ?so + length p}"
      unfolding um_bytes_written [OF h(1) seg h(2)] by (simp add: seg_offsets_def seg_end_def um_segment_of_def h(3))
    have H: "um_next_H ?H (Some N) = Suc N" by (simp add: um_next_H_def)
    have cur_old: "?so \<noteq> 0 \<Longrightarrow> sdus N = ?buf" using l by (simp add: um_link_at_def um_tx_at_def)
    have got': "i \<in> got' n \<longleftrightarrow> (n < N \<or> n = N \<and> i < ?so + length p) \<and> i < length (sdus' n)" for n i
      unfolding g' lb bytes old using s(1) curr cur_old p(2) by (cases "n = N") auto
    have g2: "um_link_at txc rxc submitted ?N tx' [] rx' (Suc N) ?llog sdus' got' True True" using g(2) unfolding lb H .
    obtain A where run: "um_run_at sdus' True True rx' (Suc N) got' ?llog A" and cfg2: "um_size rx' = ?z"
    proof -
      have r: "um_receives rxc sdus' True True rx' (Suc N) got' ?llog" "\<And>k. length (sdus' k) \<le> 2 ^ 16" using g2 by (simp_all add: um_link_at_def)
      show thesis using um_receives_run [OF r(1) t r(2)] z that by auto
    qed
    have nums: "um_numbers ?llog = um_numbers llog @ replicate (length outs) N" unfolding lb by simp
    have "\<forall>n \<in> set (um_numbers llog). n < N" using um_link_at_safe(2) [OF l t] by blast
    then have fresh: "N \<notin> set (um_numbers llog)" by blast
    have "got' N = {0 ..< length (sdus' N)} \<longleftrightarrow> uh_si h = Last_segment"
    proof -
      have "got' N = {0 ..< ?so + length p}"
      proof (rule set_eqI)
        show "i \<in> got' N \<longleftrightarrow> i \<in> {0 ..< ?so + length p}" for i unfolding got' curr using p(2) by auto
      qed
      moreover have "{0 ..< a} = {0 ..< b} \<longleftrightarrow> a = b" for a b :: nat by (metis card_atLeastLessThan diff_zero)
      ultimately show ?thesis using si curr by simp
    qed
    note whole = this
    have dn: "N \<in> set (um_numbers ?llog) \<longleftrightarrow> uh_si h = Last_segment"
    proof
      assume "N \<in> set (um_numbers ?llog)"
      then obtain x where "(Some N, x) \<in> set ?llog" unfolding um_numbers_set by blast
      then show "uh_si h = Last_segment" using um_run_atD(4) [OF run] whole by blast
    next
      assume "uh_si h = Last_segment"
      then have full: "got' N = {0 ..< length (sdus' N)}" using whole by blast
      have near: "Suc N \<le> N + um_width (um_size rx')" using um_mod_window(2) [of ?z] cfg2 by simp
      have "sdus' N \<noteq> []" using curr p by auto
      then show "N \<in> set (um_numbers ?llog)" using um_complete_delivered [OF run lessI near full] by blast
    qed
    have len: "length outs \<le> 1" 
    proof (rule ccontr)
      assume "\<not> length outs \<le> 1"
      then obtain k where "length outs = Suc (Suc k)" by (metis One_nat_def Suc_le_eq not_less_eq_eq old.nat.exhaust le0 not_less)
      then show False using um_run_atD(5) [OF run] unfolding nums by simp
    qed
    have "\<forall>x \<in> set outs. x = ?buf"
    proof
      fix x assume "x \<in> set outs"
      then have "(Some N, x) \<in> set ?llog" by (simp add: lb)
      then show "x = ?buf" using um_run_atD(4) [OF run] curr by blast
    qed
    then have o: "outs = (if uh_si h = Last_segment then [?buf] else [])"
      using dn fresh len unfolding nums by (cases outs) auto
    have c: "um_completed tx ?pdu = (if uh_si h = Last_segment then [?buf] else [])" using read seg by (simp add: um_completed_def cfgz)
    have line: "tu_line tx = (if uh_si h = Last_segment then [?buf] else []) @ tu_line tx'"
      using b' si p by (auto simp: tu_line_def)
    have H': "(if ?so' = 0 then ?N else Suc ?N) = Suc N" using so' N p(1) by auto
    have sent': "i \<in> got' n \<longleftrightarrow> (n, i) \<in> um_sent_bytes ?N ?so' \<and> i < length (sdus' n)" for n i
      unfolding got' N so' um_sent_bytes_def using si curr by (auto simp: less_Suc_eq)
    have "um_direct_at txc rxc submitted (sent @ um_completed tx ?pdu) tx' rx' (log @ outs) ?llog ?N sdus' got'"
      unfolding um_direct_at_def H' using g2 sent' logs sub ls line c o by simp
    then show ?thesis by blast
  qed
qed

lemma um_direct_loaded:
  assumes at: "um_direct_at txc rxc submitted sent tx rx log llog N sdus got" and "txum_inv tx'" and l: "tu_loaded tx tx'"
  shows "um_direct_at txc rxc submitted sent tx' rx log llog N sdus got"
proof -
  have "subseq (tu_line tx') (tu_line tx)" using l by (simp add: tu_loaded_def)
  then have "subseq (sent @ tu_line tx') (sent @ tu_line tx)" by (rule list_emb_append_mono [OF subseq_order.order_refl])
  then have "subseq (sent @ tu_line tx') submitted" using at subseq_order.order_trans unfolding um_direct_at_def by blast
  then show ?thesis using at um_link_loaded [OF _ assms(2) l] l by (simp add: um_direct_at_def tu_loaded_def)
qed

lemma um_direct_inv:
  assumes "um_direct txc rxc submitted sent tx rx log" and "0 < tuc_queue_size txc" and "0 < ruc_t_reassembly rxc"
    and z: "ruc_sn_field_length rxc = tuc_sn_field_length txc"
  shows "\<exists>llog N sdus got. um_direct_at txc rxc submitted sent tx rx log llog N sdus got"
  using assms(1)
proof induction
  case (direct_start en tx en' rx)
  note c = txum_create_inv [OF direct_start(1) assms(2)]
  have "um_sn (tuc_sn_field_length txc) 0 = 0" by (simp add: word_unat_eq_iff unat_um_sn)
  then have "um_direct_at txc rxc [] [] tx rx [] [] 0 (\<lambda>_. []) (\<lambda>_. {})"
    using c um_create_at(2) [OF direct_start(2) assms(3)] um_receives.um_start [OF direct_start(2), of "\<lambda>_. []"]
    by (simp add: um_direct_at_def um_link_at_def um_tx_at_def um_chan_ok_def um_accounts_def um_fulls_def um_sent_bytes_def tu_held_def)
  then show ?case by blast
next
  case (direct_tx submitted sent tx rx log given tx')
  then obtain llog N sdus got where at: "um_direct_at txc rxc submitted sent tx rx log llog N sdus got" by blast
  then have "txum_inv tx" by (simp add: um_direct_at_def um_link_at_def um_tx_at_def)
  then have op: "txum_inv tx'" "tu_idle tx given tx'" using txum_op_ok [OF direct_tx(2)] by blast+
  have "subseq (sent @ tu_line tx') (sent @ (tu_line tx @ given))"
    by (rule list_emb_append_mono [OF subseq_order.order_refl]) (use op(2) in \<open>simp add: tu_idle_def\<close>)
  also have "sent @ (tu_line tx @ given) = (sent @ tu_line tx) @ given" by simp
  also have "subseq \<dots> (submitted @ given)"
    by (rule list_emb_append_mono [OF _ subseq_order.order_refl]) (use at in \<open>simp add: um_direct_at_def\<close>)
  finally have "subseq (sent @ tu_line tx') (submitted @ given)" .
  then have "um_direct_at txc rxc (submitted @ given) sent tx' rx log llog N sdus got"
    using at um_link_idle [OF _ op] op(2) by (simp add: um_direct_at_def tu_idle_def)
  then show ?case by blast
next
  case (direct_rx submitted sent tx rx log rx')
  then obtain llog N sdus got where at: "um_direct_at txc rxc submitted sent tx rx log llog N sdus got" by blast
  then have "um_direct_at txc rxc submitted sent tx rx' log llog N sdus got"
    using um_op_same(1) [OF direct_rx(2)] by (auto simp: um_direct_at_def um_link_at_def intro: um_receives.um_other [OF _ direct_rx(2)])
  then show ?case by blast
next
  case (direct_no_pdu submitted sent tx rx log env grant tx')
  then obtain llog N sdus got where at: "um_direct_at txc rxc submitted sent tx rx log llog N sdus got" by blast
  then have inv: "txum_inv tx" by (simp add: um_direct_at_def um_link_at_def um_tx_at_def)
  obtain tx1 where p: "tu_loaded tx tx1" "txum_inv tx1"
    "tx' = tx1 \<or> (\<exists>h payload. [] = rlc_um_write_data_pdu_header h @ payload \<and> tu_builds tx1 (unat grant) h payload tx')"
    by (rule tx_um_pull_ok [OF inv, of env grant]) (use direct_no_pdu(2) in \<open>auto intro: that\<close>)
  then have "tx' = tx1" by (auto simp: tu_builds_def Let_def)
  then show ?case using um_direct_loaded [OF at p(2,1)] by blast
next
  case (direct_pdu submitted sent tx rx log env grant pdu tx' outs rx')
  then obtain llog N sdus got where at: "um_direct_at txc rxc submitted sent tx rx log llog N sdus got" by blast
  then have inv: "txum_inv tx" by (simp add: um_direct_at_def um_link_at_def um_tx_at_def)
  obtain tx1 h payload where p: "tu_loaded tx tx1" "txum_inv tx1" "txum_inv tx'" "pdu = rlc_um_write_data_pdu_header h @ payload"
      "tu_builds tx1 (unat grant) h payload tx'"
    by (rule tx_um_pull_ok [OF inv, of env grant]) (use direct_pdu(2,3) in \<open>auto intro: that\<close>)
  have "um_completed tx pdu = um_completed tx1 pdu"
  proof (cases "sdu_buf (tu_sdu tx) = []")
    case True
    then have "unat (tu_next_so tx1) = 0" using inv p(1) by (auto simp: txum_inv_def tu_loaded_def)
    then have "uh_si h \<noteq> Last_segment" "um_header_ok h" "uh_sn_size h = tu_size tx1" using p(5) by (auto simp: tu_builds_def Let_def)
    then have "rlc_um_read_data_pdu_header pdu (tu_size tx1) = Some (if uh_si h = Full_sdu then h\<lparr>uh_sn := 0\<rparr> else h)"
      using um_header_roundtrip_parts [of h payload] p(4) by simp
    then show ?thesis using p(1) \<open>uh_si h \<noteq> Last_segment\<close> by (simp add: um_completed_def tu_loaded_def)
  next
    case False
    then show ?thesis using p(1) by (simp add: tu_loaded_def)
  qed
  then show ?case using um_direct_pdu [OF um_direct_loaded [OF at p(2,1)] p(5,3) assms(3) z] direct_pdu(4) unfolding p(4) by metis
qed

end
