(* ===== verification/Rlc_Um_Properties.thy ===== *)
theory Rlc_Um_Properties
  imports Rlc_Um_Direct
begin

text \<open>
  Properties of the unacknowledged mode, each with a concrete instance: its PDUs, what runs of the
  receiver deliver, what the transmitter sends, the two of them over a channel, and two inputs on which the
  code does not do what it should.
\<close>

section \<open>Concrete entities\<close>

definition demo_utx_cfg :: rlc_tx_um_config where
  "demo_utx_cfg = \<lparr>tuc_sn_field_length = Um6, tuc_pdcp_sn_len = Size12bits, tuc_queue_size = 4, tuc_queue_size_bytes = 100\<rparr>"

definition demo_urx_cfg :: rlc_rx_um_config where
  "demo_urx_cfg = \<lparr>ruc_sn_field_length = Um6, ruc_t_reassembly = 50\<rparr>"

definition demo_utx :: rlc_tx_um_entity where
  "demo_utx = projr (rlc_tx_um_create demo_utx_cfg False)"

definition demo_urx :: rlc_rx_um_entity where
  "demo_urx = projr (rlc_rx_um_create demo_urx_cfg False)"

lemma demo_utx_created: "rlc_tx_um_create demo_utx_cfg False = Inr demo_utx"
  by (simp add: demo_utx_def rlc_tx_um_create_def demo_utx_cfg_def)

lemma demo_urx_created: "rlc_rx_um_create demo_urx_cfg False = Inr demo_urx"
proof -
  have "unat (um_window_size_of Um6) = 2 ^ 5" by (simp add: um_window_size_of_def)
  then show ?thesis
    by (simp only: demo_urx_def rlc_rx_um_create_def demo_urx_cfg_def rlc_rx_um_config.simps win_create_pow2 seq_run_simps sum.sel)
qed

text \<open>An SDU of three bytes, sent in two PDUs, and received.\<close>

definition demo_utx1 :: rlc_tx_um_entity where
  "demo_utx1 = tx_um_handle_sdu tx_am_env_init [1, 2, 3] False demo_utx"

definition demo_utx2 :: rlc_tx_um_entity where
  "demo_utx2 = snd (projr (tx_um_pull_pdu tx_am_env_init 3 demo_utx1))"

definition demo_utx3 :: rlc_tx_um_entity where
  "demo_utx3 = snd (projr (tx_um_pull_pdu tx_am_env_init 4 demo_utx2))"

definition demo_urx1 :: rlc_rx_um_entity where
  "demo_urx1 = snd (projr (um_handle_pdu True [0x40, 1, 2] demo_urx))"

definition demo_urx2 :: rlc_rx_um_entity where
  "demo_urx2 = snd (projr (um_handle_pdu True [0x80, 0, 2, 3] demo_urx1))"

lemma demo_run_from:
  assumes "map_sum (\<lambda>x. x) fst r = Inr y"
  shows "r = Inr (y, snd (projr r))"
  using assms by (cases r) auto

lemma demo_first: "tx_um_pull_pdu tx_am_env_init 3 demo_utx1 = Inr ([0x40, 1, 2], demo_utx2)"
proof -
  have "map_sum (\<lambda>x. x) fst (tx_um_pull_pdu tx_am_env_init 3 demo_utx1) = Inr [0x40, 1, 2]" by code_simp
  then show ?thesis unfolding demo_utx2_def by (rule demo_run_from)
qed

lemma demo_last: "tx_um_pull_pdu tx_am_env_init 4 demo_utx2 = Inr ([0x80, 0, 2, 3], demo_utx3)"
proof -
  have "map_sum (\<lambda>x. x) fst (tx_um_pull_pdu tx_am_env_init 4 demo_utx2) = Inr [0x80, 0, 2, 3]" by code_simp
  then show ?thesis unfolding demo_utx3_def by (rule demo_run_from)
qed

lemma demo_first_in: "um_handle_pdu True [0x40, 1, 2] demo_urx = Inr ([], demo_urx1)"
proof -
  have "map_sum (\<lambda>x. x) fst (um_handle_pdu True [0x40, 1, 2] demo_urx) = Inr []" by code_simp
  then show ?thesis unfolding demo_urx1_def by (rule demo_run_from)
qed

lemma demo_last_in: "um_handle_pdu True [0x80, 0, 2, 3] demo_urx1 = Inr ([[1, 2, 3]], demo_urx2)"
proof -
  have "map_sum (\<lambda>x. x) fst (um_handle_pdu True [0x80, 0, 2, 3] demo_urx1) = Inr [[1, 2, 3]]" by code_simp
  then show ?thesis unfolding demo_urx2_def by (rule demo_run_from)
qed

lemma demo_submitted: "txum_op demo_utx [[1, 2, 3]] demo_utx1"
  unfolding demo_utx1_def by (rule txum_sdu) simp

lemma demo_um_cfgs [simp]: "tuc_queue_size demo_utx_cfg = 4" "ruc_t_reassembly demo_urx_cfg = 50" "ruc_sn_field_length demo_urx_cfg = Um6"
    "tuc_sn_field_length demo_utx_cfg = Um6" "tu_size demo_utx = Um6" "um_size demo_urx = Um6"
  using txum_create_inv(2) [OF demo_utx_created] um_create_at(2) [OF demo_urx_created]
  by (simp_all add: demo_utx_cfg_def demo_urx_cfg_def)

section \<open>PDUs\<close>

text \<open>C34: Round trip of the headers of the unacknowledged mode (\<open>rlc_um_pdu.h\<close>): what
  \<open>rlc_um_write_data_pdu_header\<close> writes is read back by \<open>rlc_um_read_data_pdu_header\<close>, whatever follows, for both SN
  lengths; only a PDU with a complete SDU loses its SN, which it does not carry. What the reader skips,
  \<open>get_packed_length\<close>, is the header, whose length is the one of its kind.\<close>

theorem um_header_roundtrip:
  assumes "um_header_ok h"
  shows "rlc_um_read_data_pdu_header (rlc_um_write_data_pdu_header h @ payload) (uh_sn_size h) =
      Some (if uh_si h = Full_sdu then h\<lparr>uh_sn := 0\<rparr> else h) \<and>
    drop (rlc_um_nr_packed_length h) (rlc_um_write_data_pdu_header h @ payload) = payload \<and>
    rlc_um_nr_packed_length h =
      (case uh_si h of Full_sdu \<Rightarrow> 1 | First_segment \<Rightarrow> (if uh_sn_size h = Um6 then 1 else 2)
       | _ \<Rightarrow> (if uh_sn_size h = Um6 then 3 else 4))"
proof -
  have "rlc_um_nr_packed_length h =
      (case uh_si h of Full_sdu \<Rightarrow> 1 | First_segment \<Rightarrow> (if uh_sn_size h = Um6 then 1 else 2)
       | _ \<Rightarrow> (if uh_sn_size h = Um6 then 3 else 4))"
    unfolding um_packed_length [OF assms] by (cases "uh_si h"; cases "uh_sn_size h"; simp)
  then show ?thesis using um_header_roundtrip_parts [OF assms, of payload] by (simp add: um_write_length [symmetric])
qed

theorem um_header_roundtrip_witness:
  "rlc_um_read_data_pdu_header (rlc_um_write_data_pdu_header \<lparr>uh_si = Last_segment, uh_sn_size = Um12, uh_sn = 0xabc, uh_so = 300\<rparr> @ [7]) Um12 =
    Some \<lparr>uh_si = Last_segment, uh_sn_size = Um12, uh_sn = 0xabc, uh_so = 300\<rparr>"
  using um_header_roundtrip [of "\<lparr>uh_si = Last_segment, uh_sn_size = Um12, uh_sn = 0xabc, uh_so = 300\<rparr>" "[7]"]
  by (simp add: um_header_ok_def)

section \<open>The receiver\<close>



text \<open>C12: What the unacknowledged receiver delivers, when segments of the SDUs 0, 1, 2, \<dots> arrive in any order within
  a window, possibly incompletely but not twice, mixed with PDUs of complete SDUs and timer expiries
  (\<open>got n\<close>: the offsets of SDU \<open>n\<close> that arrived). Every SDU is delivered at most once, with exactly its bytes, and
  only when all of them arrived. All of whose bytes arrived is delivered, unless the pool failed, or t-Reassembly
  expired and the SDU was already given up, or it fell out of the window.\<close>

theorem um_delivery:
  assumes "um_receives cfg sdus ok quiet s H got log" and "0 < ruc_t_reassembly cfg" and "\<And>n. length (sdus n) \<le> 2 ^ 16"
  shows "distinct (um_numbers log) \<and>
    (\<forall>n b. (Some n, b) \<in> set log \<longrightarrow> b = sdus n \<and> got n = {0 ..< length b}) \<and>
    (\<forall>n. ok \<and> n < H \<and> H \<le> n + um_width (um_size s) \<and> sdus n \<noteq> [] \<and> got n = {0 ..< length (sdus n)} \<and>
       (quiet \<or> \<not> sn_invalid_for_rx_buffer (um_size s) (um_st s) (um_sn (um_size s) n)) \<longrightarrow> n \<in> set (um_numbers log))"
proof -
  obtain A where run: "um_run_at sdus ok quiet s H got log A" using um_receives_run [OF assms] by blast
  note R = um_run_atD [OF run]
  have "n \<in> set (um_numbers log)"
    if n: "ok" "n < H" "H \<le> n + um_width (um_size s)" "sdus n \<noteq> []" "got n = {0 ..< length (sdus n)}"
      "quiet \<or> \<not> sn_invalid_for_rx_buffer (um_size s) (um_st s) (um_sn (um_size s) n)" for n
  proof (cases "n < A")
    case True
    then have quiet using n(6) um_below_number [OF R(1) n(3)] n(2) by simp
    then show ?thesis using R(7) n True by simp
  next
    case False
    then show ?thesis using um_not_given_up [OF run] n by simp
  qed
  then show ?thesis using R(4,5) by blast
qed

lemma demo_um_headers:
  "rlc_um_write_data_pdu_header \<lparr>uh_si = First_segment, uh_sn_size = Um6, uh_sn = 0, uh_so = 0\<rparr> @ [1, 2] = [0x40, 1, 2]"
  "rlc_um_write_data_pdu_header \<lparr>uh_si = Last_segment, uh_sn_size = Um6, uh_sn = 0, uh_so = 2\<rparr> @ [3] = [0x80, 0, 2, 3]"
  by code_simp+

lemma demo_um_receives:
  "um_receives demo_urx_cfg (\<lambda>_. [1, 2, 3]) True True demo_urx2 1 ((\<lambda>_. {})(0 := {0 ..< 2} \<union> {2 ..< 3})) [(Some 0, [1, 2, 3])]"
proof -
  let ?h1 = "\<lparr>uh_si = First_segment, uh_sn_size = Um6, uh_sn = 0, uh_so = 0\<rparr>" and ?h2 = "\<lparr>uh_si = Last_segment, uh_sn_size = Um6, uh_sn = 0, uh_so = 2\<rparr>"
  have sn: "um_sn Um6 0 = 0" by (simp add: word_unat_eq_iff unat_um_sn)
  have t: "um_rx_total demo_urx" using um_create_at(1) [OF demo_urx_created] by (simp add: um_rx_at_def)
  have size1: "um_size demo_urx1 = Um6"
    using um_handle_pdu_ok [OF t, of True "[0x40, 1, 2]"] demo_first_in by (metis Pair_inject sum.inject(2) demo_um_cfgs(6))
  have o1: "seg_offsets (um_segment_of ?h1 [1, 2]) = {0 ..< 2}" "seg_offsets (um_segment_of ?h2 [3]) = {2 ..< 3}"
    by (auto simp: seg_offsets_def seg_end_def um_segment_of_def)
  have r1: "um_receives demo_urx_cfg (\<lambda>_. [1, 2, 3]) True True demo_urx1 1 ((\<lambda>_. {})(0 := {0 ..< 2})) []"
    using um_segment [OF um_start [OF demo_urx_created, of "\<lambda>_. [1, 2, 3]"], of ?h1 0 "[1, 2]" True "[]" demo_urx1] demo_first_in um_mod_window(2) [of Um6]
    unfolding demo_um_headers o1
    by (simp add: um_header_ok_def sn segment_of_def um_segment_of_def seg_end_def)
  show ?thesis
    using um_segment [OF r1, of ?h2 0 "[3]" True "[[1, 2, 3]]" demo_urx2] demo_last_in um_mod_window(2) [of Um6]
    unfolding demo_um_headers o1
    by (simp add: um_header_ok_def sn size1 segment_of_def um_segment_of_def seg_end_def)
qed

theorem um_delivery_witness:
  "distinct (um_numbers [(Some 0, [1, 2, 3 :: u8])]) \<and> (0 :: nat) \<in> set (um_numbers [(Some 0, [1, 2, 3 :: u8])])"
proof -
  have "{0 ..< 2} \<union> {2 ..< 3} = {0 ..< length [1, 2, 3 :: u8]}" by auto
  then show ?thesis using um_delivery [OF demo_um_receives] um_mod_window(2) [of "um_size demo_urx2"] by simp
qed

text \<open>C36: A gap in an incomplete SDU does not start t-Reassembly. TS 38.322, quoted in the code, starts the timer when
  RX_Next_Highest is RX_Next_Reassembly + 1 and a byte segment of the SDU at RX_Next_Reassembly is missing; the code
  looks the gap up at RX_Next_Highest, which is never in the window. In no state that a run with the
  PDUs of a transmitter reaches does the condition hold for a single incomplete SDU, whatever its gaps.\<close>

theorem um_single_gap_ignored:
  assumes "um_receives cfg sdus ok quiet s H got log" and "0 < ruc_t_reassembly cfg" and "\<And>n. length (sdus n) \<le> 2 ^ 16"
    and "um_next_highest (um_st s) = (um_next_reassembly (um_st s) + 1) mod um_mod_of (um_size s)"
  shows "\<not> um_restart_condition s"
proof -
  obtain A where run: "um_run_at sdus ok quiet s H got log A" using um_receives_run [OF assms(1-3)] by blast
  note at = um_run_atD(1) [OF run]
  let ?z = "um_size s"
  have A: "A \<le> H" "H \<le> A + um_width ?z" "um_next_reassembly (um_st s) = um_sn ?z A" "um_next_highest (um_st s) = um_sn ?z H"
    using at by (simp_all add: um_rx_at_def)
  have W: "0 < um_width ?z" by (rule um_mod_window)
  have "um_sn ?z H = um_sn ?z (Suc A)" using assms(4) A um_sn_Suc by simp
  then have H: "H = Suc A" using um_sn_inj [of ?z H "Suc A"] A W by simp
  have base: "um_rx_mod_base ?z h x = um_rx_mod_base ?z h (x mod um_mod_of ?z)" for h x
    by (simp add: um_rx_mod_base_ring word_uint_eq_iff uint_mod_base [OF ring_size_um] uint_mod mod_simps)
  have "um_rx_mod_base ?z (um_sn ?z H) (um_sn ?z A + 1) = um_rx_mod_base ?z (um_sn ?z H) (um_sn ?z H)"
    unfolding base [of _ "um_sn ?z A + 1"] um_sn_Suc H ..
  moreover have "um_gap_at (um_window s) (um_sn ?z H) = None"
    using um_above_none [OF at order.refl] W by (simp add: um_gap_at_def)
  ultimately show ?thesis using A by (simp add: um_restart_condition_def Let_def)
qed

definition demo_urx_gap :: rlc_rx_um_entity where
  "demo_urx_gap = snd (projr (um_handle_pdu True [0x80, 0, 2, 3] demo_urx))"

lemma demo_gap_in: "um_handle_pdu True [0x80, 0, 2, 3] demo_urx = Inr ([], demo_urx_gap)"
proof -
  have "map_sum (\<lambda>x. x) fst (um_handle_pdu True [0x80, 0, 2, 3] demo_urx) = Inr []" by code_simp
  then show ?thesis unfolding demo_urx_gap_def by (rule demo_run_from)
qed

lemma demo_gap_state: "um_next_highest (um_st demo_urx_gap) = 1" "um_next_reassembly (um_st demo_urx_gap) = 0" "um_size demo_urx_gap = Um6"
    "um_gap_at (um_window demo_urx_gap) 0 = Some True"
  by code_simp+

theorem um_single_gap_ignored_witness:
  "um_gap_at (um_window demo_urx_gap) 0 = Some True \<and> \<not> um_restart_condition demo_urx_gap"
proof -
  let ?h = "\<lparr>uh_si = Last_segment, uh_sn_size = Um6, uh_sn = 0, uh_so = 2\<rparr>"
  have sn: "um_sn Um6 0 = 0" by (simp add: word_unat_eq_iff unat_um_sn)
  have r: "um_receives demo_urx_cfg (\<lambda>_. [1, 2, 3]) True True demo_urx_gap 1 ((\<lambda>_. {})(0 := seg_offsets (um_segment_of ?h [3]))) []"
    using um_segment [OF um_start [OF demo_urx_created, of "\<lambda>_. [1, 2, 3]"], of ?h 0 "[3]" True "[]" demo_urx_gap] demo_gap_in um_mod_window(2) [of Um6]
    unfolding demo_um_headers
    by (simp add: um_header_ok_def sn segment_of_def um_segment_of_def seg_end_def)
  then show ?thesis using um_single_gap_ignored [OF r] by (simp add: demo_gap_state um_mod_of_def)
qed

section \<open>The transmitter\<close>

text \<open>C13: What the unacknowledged transmitter sends. In every state it reaches, \<open>pull_pdu\<close> returns, without a failed
  assertion. The SDU that is being sent, or else the first that is neither sent nor discarded, is cut: a PDU that it
  returns fits the grant, reads back with the SN and the offset of the entity, and carries the next bytes of the SDU,
  all that are left or as many as fit; the SI says whether it starts and ends the SDU. It returns one
  whenever the grant has room for the largest header and a byte, and there is a byte to send.\<close>

theorem um_pull_next_bytes:
  assumes "txum_reachable cfg s" and "0 < tuc_queue_size cfg"
  defines "sdu \<equiv> if sdu_buf (tu_sdu s) = [] then sdu_buf (hd (sq_sdus (tu_sdu_queue s))) else sdu_buf (tu_sdu s)"
    and "so \<equiv> unat (tu_next_so s)"
  shows "\<exists>pdu s'. tx_um_pull_pdu env grant s = Inr (pdu, s') \<and>
    (pdu \<noteq> [] \<longrightarrow> (\<exists>h payload. pdu = rlc_um_write_data_pdu_header h @ payload \<and> length pdu \<le> unat grant \<and>
       rlc_um_read_data_pdu_header pdu (tu_size s) = Some (if uh_si h = Full_sdu then h\<lparr>uh_sn := 0\<rparr> else h) \<and>
       uh_sn h = ucast (tu_tx_next s) \<and> unat (uh_so h) = so \<and>
       payload \<noteq> [] \<and> payload = take (length payload) (drop so sdu) \<and> so + length payload \<le> length sdu \<and>
       (so + length payload = length sdu \<or> length pdu = unat grant) \<and>
       (uh_si h = Full_sdu \<or> uh_si h = First_segment \<longleftrightarrow> so = 0) \<and>
       (uh_si h = Full_sdu \<or> uh_si h = Last_segment \<longleftrightarrow> so + length payload = length sdu) \<and>
       unat (tu_next_so s') = (if so + length payload = length sdu then 0 else so + length payload))) \<and>
    (rlc_um_pdu_header_size_with_so (tu_size s) < unat grant \<and> sdu \<noteq> [] \<and> (sdu_buf (tu_sdu s) \<noteq> [] \<or> sq_sdus (tu_sdu_queue s) \<noteq> []) \<longrightarrow> pdu \<noteq> [])"
proof (cases "1 < unat grant")
  case False
  have "1 \<le> rlc_um_pdu_header_size_with_so (tu_size s)" by (cases "tu_size s") simp_all
  then show ?thesis using False by (simp add: tx_um_pull_pdu_def word_le_nat_alt)
next
  case True
  have inv: "txum_inv s" by (rule txum_reachable_inv [OF assms(1,2)])
  have g: "\<not> grant \<le> of_nat rlc_um_pdu_header_size_complete_sdu" using True by (simp add: word_le_nat_alt)
  obtain s1 where s1: "txum_inv s1" "tu_size s1 = tu_size s" "tu_tx_next s1 = tu_tx_next s" "unat (tu_next_so s1) = so"
    and pull: "tx_um_pull_pdu env grant s = tu_build_pdu env grant s1 \<and> sdu_buf (tu_sdu s1) = sdu \<or>
      tx_um_pull_pdu env grant s = Inr ([], s1) \<and> sdu_buf (tu_sdu s) = [] \<and> sq_sdus (tu_sdu_queue s) = []"
  proof (cases "sdu_buf (tu_sdu s) = []")
    case False
    then show ?thesis using that [of s] inv g by (simp add: tx_um_pull_pdu_def sdu_def so_def)
  next
    case empty: True
    then have so: "tu_next_so s = 0" using inv by (auto simp: txum_inv_def unsigned_eq_0_iff)
    obtain ok x q where r: "read_into (sq_queue (tu_sdu_queue s)) (tu_sdu s) (tu_sdu_queue s) = (ok, x, q)" by (metis prod_cases3)
    note l = tu_load_ok [OF inv empty r]
    let ?s = "s\<lparr>tu_sdu := x, tu_sdu_queue := q\<rparr>"
    show ?thesis
    proof (cases ok)
      case True
      then show ?thesis using that [of "tu_notify_transfer ?s"] l g empty so r by (simp add: tx_um_pull_pdu_def sdu_def so_def)
    next
      case False
      then show ?thesis using that [of ?s] l g empty so r by (simp add: tx_um_pull_pdu_def so_def)
    qed
  qed
  show ?thesis
  proof (cases "tx_um_pull_pdu env grant s = Inr ([], s1) \<and> sdu_buf (tu_sdu s) = [] \<and> sq_sdus (tu_sdu_queue s) = []")
    case True
    then show ?thesis by simp
  next
    case False
    then have b: "tx_um_pull_pdu env grant s = tu_build_pdu env grant s1" "sdu_buf (tu_sdu s1) = sdu" using pull by blast+
    show ?thesis
    proof (cases "sdu = []")
      case True
      then show ?thesis using tu_build_empty [of s1 env grant] b by simp
    next
      case False
      then have ne: "sdu_buf (tu_sdu s1) \<noteq> []" using b by simp
      from tu_build_pdu_ok [OF s1(1) ne True, of env] show ?thesis
      proof (elim disjE conjE exE)
        assume "tu_build_pdu env grant s1 = Inr ([], s1)" "unat grant \<le> rlc_um_pdu_header_size_with_so (tu_size s1)"
        then show ?thesis using b s1 by auto
      next
        fix h payload s' assume p: "tu_build_pdu env grant s1 = Inr (rlc_um_write_data_pdu_header h @ payload, s')" "tu_builds s1 (unat grant) h payload s'"
        let ?pdu = "rlc_um_write_data_pdu_header h @ payload"
        have d: "um_header_ok h" "uh_sn_size h = tu_size s" "uh_sn h = ucast (tu_tx_next s)" "unat (uh_so h) = so"
          "uh_si h = Full_sdu \<or> uh_si h = Last_segment \<longleftrightarrow> so + length payload = length sdu" "uh_si h = Full_sdu \<or> uh_si h = First_segment \<longleftrightarrow> so = 0"
          "payload \<noteq> []" "payload = take (length payload) (drop so sdu)" "so + length payload \<le> length sdu"
          "rlc_um_nr_packed_length h + length payload \<le> unat grant"
          "so + length payload = length sdu \<or> rlc_um_nr_packed_length h + length payload = unat grant"
          "unat (tu_next_so s') = (if so + length payload = length sdu then 0 else so + length payload)"
          by (insert p(2) [unfolded tu_builds_def Let_def b(2) s1], elim conjE, assumption)+
        have rd: "rlc_um_read_data_pdu_header ?pdu (tu_size s) = Some (if uh_si h = Full_sdu then h\<lparr>uh_sn := 0\<rparr> else h)"
          using um_header_roundtrip_parts [OF d(1), of payload] d(2) by simp
        have len: "length ?pdu = rlc_um_nr_packed_length h + length payload" by (simp add: um_write_length)
        have ne: "?pdu \<noteq> []" using d(7) by simp
        show ?thesis
          unfolding b(1) p(1) by (rule exI [of _ ?pdu], rule exI [of _ s'], intro conjI impI refl ne, rule exI [of _ h], rule exI [of _ payload],
            unfold len, intro conjI refl rd d)
      qed
    qed
  qed
qed

lemma demo_utx1_reachable: "txum_reachable demo_utx_cfg demo_utx1"
  by (rule txum_stepped [OF txum_created [OF demo_utx_created] demo_submitted])

theorem um_pull_next_bytes_witness:
  "txum_reachable demo_utx_cfg demo_utx2 \<and> (\<exists>pdu s'. tx_um_pull_pdu tx_am_env_init 4 demo_utx2 = Inr (pdu, s') \<and> pdu \<noteq> [] \<and> length pdu \<le> 4)"
proof -
  have r: "txum_reachable demo_utx_cfg demo_utx2" by (rule txum_pulled [OF demo_utx1_reachable demo_first])
  have st: "tu_size demo_utx2 = Um6" "sdu_buf (tu_sdu demo_utx2) = [1, 2, 3]" by code_simp+
  show ?thesis using um_pull_next_bytes [OF r, of tx_am_env_init 4] r by (auto simp: st)
qed

text \<open>C16: A discarded SDU is sent. When all SDUs in the queue were discarded by the PDCP, \<open>sdu_queue.read(sdu)\<close> pops them
  into the member \<open>sdu\<close> and returns false; \<open>pull_pdu\<close> returns without clearing it, and the next pull sends the last of
  them, as a complete SDU if it fits, without telling the upper layer that its transfer began.\<close>

theorem um_discarded_sdu_sent:
  assumes "txum_reachable cfg s" and "0 < tuc_queue_size cfg"
    and "sdu_buf (tu_sdu s) = []" and "sq_sdus (tu_sdu_queue s) = []" and "sq_queue (tu_sdu_queue s) \<noteq> []"
    and "sdu_buf (last (sq_queue (tu_sdu_queue s))) \<noteq> []" and "length (sdu_buf (last (sq_queue (tu_sdu_queue s)))) < unat grant"
  shows "\<exists>s1 s2. tx_um_pull_pdu env grant s = Inr ([], s1) \<and>
    tx_um_pull_pdu env' grant s1 = Inr (0 # sdu_buf (last (sq_queue (tu_sdu_queue s))), s2) \<and> tu_events s2 = tu_events s"
proof -
  have inv: "txum_inv s" by (rule txum_reachable_inv [OF assms(1,2)])
  let ?x = "last (sq_queue (tu_sdu_queue s))"
  have so: "tu_next_so s = 0" using inv assms(3) by (auto simp: txum_inv_def unsigned_eq_0_iff)
  have "0 < length (sdu_buf ?x)" using assms(6) by simp
  then have g1: "1 < unat grant" using assms(7) by linarith
  then have g: "\<not> grant \<le> of_nat rlc_um_pdu_header_size_complete_sdu" by (simp add: word_le_nat_alt)
  obtain ok x q where r: "read_into (sq_queue (tu_sdu_queue s)) (tu_sdu s) (tu_sdu_queue s) = (ok, x, q)" by (metis prod_cases3)
  note l = tu_load_ok [OF inv assms(3) r]
  have "\<not> ok" using l(3) assms(4) by simp
  then have x: "x = ?x" using read_into_spec(2) [OF r] assms(5) by simp
  let ?s = "s\<lparr>tu_sdu := x, tu_sdu_queue := q\<rparr>"
  have first: "tx_um_pull_pdu env grant s = Inr ([], ?s)" using g assms(3) so r \<open>\<not> ok\<close> by (simp add: tx_um_pull_pdu_def)
  have ne: "sdu_buf (tu_sdu ?s) \<noteq> []" using x assms(6) by simp
  have second: "tx_um_pull_pdu env' grant ?s = tu_build_pdu env' grant ?s" using g ne by (simp add: tx_um_pull_pdu_def)
  have len: "length (sdu_buf x) \<le> 2 ^ 16" using l(1) by (simp add: txum_inv_def)
  have full: "get_si_and_expected_header_size (tu_size ?s) (tu_next_so ?s) (of_nat (length (sdu_buf (tu_sdu ?s)))) grant = Some (Full_sdu, 1)"
    using get_si_nat [OF len _ g1, of 0 "tu_size ?s"] so assms(7) x by simp
  let ?h = "\<lparr>uh_si = Full_sdu, uh_sn_size = tu_size ?s, uh_sn = ucast (tu_tx_next ?s), uh_so = ucast (tu_next_so ?s)\<rparr>"
  have w: "rlc_um_write_data_pdu_header ?h = [0]" by (simp add: rlc_um_write_data_pdu_header_def si_to_number_def)
  have packed: "rlc_um_nr_packed_length ?h = 1" by (simp add: rlc_um_nr_packed_length_def)
  have ok: "um_header_ok ?h"
  proof -
    have "unat (tu_tx_next s) < unat (tu_mod_of (tu_size s))" using inv by (simp add: txum_inv_def)
    then have "unat (ucast (tu_tx_next s) :: u16) < 2 ^ um_bits (tu_size s)"
      by (cases "tu_size s") (simp_all add: unsigned_ucast_eq take_bit_eq_mod tu_mod_of_def)
    then show ?thesis using so by (simp add: um_header_ok_def)
  qed
  have "\<exists>payload s2. tu_build_pdu env' grant ?s = Inr (rlc_um_write_data_pdu_header ?h @ payload, s2) \<and> tu_builds ?s (unat grant) ?h payload s2"
    by (rule tu_build_fits [OF l(1) ne full g1 packed refl ok]) (use so assms(7) x in simp_all)
  then obtain payload s2 where b: "tu_build_pdu env' grant ?s = Inr (rlc_um_write_data_pdu_header ?h @ payload, s2)" "tu_builds ?s (unat grant) ?h payload s2"
    by blast
  have "payload = sdu_buf x" "tu_events s2 = tu_events s" using b(2) so by (auto simp: tu_builds_def Let_def)
  then show ?thesis using first second b(1) w x by auto
qed

text \<open>An SDU with PDCP SN 5, submitted and discarded.\<close>

definition demo_discarded :: rlc_tx_um_entity where
  "demo_discarded = tx_um_discard_sdu tx_am_env_init 5 (tx_um_handle_sdu tx_am_env_init [0x80, 5, 0xaa] False demo_utx)"

theorem um_discarded_sdu_sent_witness:
  "\<exists>s1 s2. tx_um_pull_pdu tx_am_env_init 10 demo_discarded = Inr ([], s1) \<and>
    tx_um_pull_pdu tx_am_env_init 10 s1 = Inr ([0, 0x80, 5, 0xaa], s2)"
proof -
  have "txum_op demo_utx [[0x80, 5, 0xaa]] (tx_um_handle_sdu tx_am_env_init [0x80, 5, 0xaa] False demo_utx)" by (rule txum_sdu) simp
  then have r1: "txum_reachable demo_utx_cfg (tx_um_handle_sdu tx_am_env_init [0x80, 5, 0xaa] False demo_utx)"
    by (rule txum_stepped [OF txum_created [OF demo_utx_created]])
  have "sn_sane 5" by (simp add: sn_sane_def state_free_def state_discarded_def)
  then have r: "txum_reachable demo_utx_cfg demo_discarded"
    unfolding demo_discarded_def by (intro txum_stepped [OF r1 txum_discard])
  have st: "sdu_buf (tu_sdu demo_discarded) = []" "sq_sdus (tu_sdu_queue demo_discarded) = []"
    "map sdu_buf (sq_queue (tu_sdu_queue demo_discarded)) = [[0x80, 5, 0xaa]]" by code_simp+
  then obtain x where x: "sq_queue (tu_sdu_queue demo_discarded) = [x]" "sdu_buf x = [0x80, 5, 0xaa]" by auto
  show ?thesis using um_discarded_sdu_sent [OF r _ st(1,2), of 10 tx_am_env_init tx_am_env_init] x by auto
qed

section \<open>Transmitter, channel and receiver\<close>

text \<open>C14: End to end over a bad channel. A transmitter and a receiver of the unacknowledged mode, over a channel that
  loses and reorders PDUs, by less than a window, and does not duplicate them, with SDUs submitted and discarded,
  pulls with any grants, timer expiries, pool failures, in any order: the receiver delivers only SDUs that were
  submitted, unchanged, and none more often than it was submitted.\<close>

theorem um_link_delivers_submitted:
  assumes "um_link txc rxc submitted N tx chan rx H log" and "0 < tuc_queue_size txc" and "0 < ruc_t_reassembly rxc"
    and "ruc_sn_field_length rxc = tuc_sn_field_length txc"
  shows "mset (map snd log) \<subseteq># mset submitted"
  using um_link_inv [OF assms] um_link_at_safe(1) assms(3) by blast

lemma demo_um_link: "um_link demo_utx_cfg demo_urx_cfg [[1, 2, 3]] 0 demo_utx2 [(Some 0, [0x40, 1, 2])] demo_urx 0 []"
proof -
  have a: "um_link demo_utx_cfg demo_urx_cfg [[1, 2, 3]] 0 demo_utx1 [] demo_urx 0 []"
    using link_tx [OF link_start [OF demo_utx_created demo_urx_created] demo_submitted] by simp
  have st: "tu_tx_next demo_utx2 = tu_tx_next demo_utx1" "um_label (tu_size demo_utx1) 0 [0x40, 1, 2] = Some 0" by code_simp+
  show ?thesis using link_pull [OF a demo_first] by (simp add: st)
qed

theorem um_link_delivers_submitted_witness:
  "\<exists>rx H. um_link demo_utx_cfg demo_urx_cfg [[1, 2, 3]] 1 demo_utx3 [] rx H [(Some 0, [1, 2, 3])] \<and> {#[1, 2, 3]#} \<subseteq># mset [[1, 2, 3 :: u8]]"
proof -
  have st: "tu_tx_next demo_utx3 \<noteq> tu_tx_next demo_utx2" "um_label (tu_size demo_utx2) 0 [0x80, 0, 2, 3] = Some 0" by code_simp+
  have t: "um_rx_total demo_urx" using um_create_at(1) [OF demo_urx_created] by (simp add: um_rx_at_def)
  have size1: "um_size demo_urx1 = Um6"
    using um_handle_pdu_ok [OF t, of True "[0x40, 1, 2]"] demo_first_in by (metis Pair_inject sum.inject(2) demo_um_cfgs(6))
  have a: "um_link demo_utx_cfg demo_urx_cfg [[1, 2, 3]] 1 demo_utx3 ([] @ (Some 0, [0x40, 1, 2]) # [(Some 0, [0x80, 0, 2, 3])]) demo_urx 0 []"
    using link_pull [OF demo_um_link demo_last] st by simp
  have "um_near (um_size demo_urx) 0 (Some 0)" using um_mod_window(2) [of Um6] by (simp add: um_near_def)
  from link_deliver [OF a this demo_first_in]
  have b: "um_link demo_utx_cfg demo_urx_cfg [[1, 2, 3]] 1 demo_utx3 ([] @ (Some 0, [0x80, 0, 2, 3]) # []) demo_urx1 1 []"
    by (simp add: um_next_H_def)
  have "um_near (um_size demo_urx1) 1 (Some 0)" using um_mod_window(2) [of Um6] by (simp add: um_near_def size1)
  from link_deliver [OF b this demo_last_in]
  have c: "um_link demo_utx_cfg demo_urx_cfg [[1, 2, 3]] 1 demo_utx3 [] demo_urx2 1 [(Some 0, [1, 2, 3])]"
    by (simp add: um_next_H_def)
  then show ?thesis using um_link_delivers_submitted [OF c] by auto
qed

text \<open>C15: End to end over a good channel, a refinement of a FIFO. When every PDU that is pulled arrives at once, each SDU is
  delivered with the PDU that carries its last byte: what was delivered is, in order and unchanged, what was
  sent completely, and this is, in order, a part of what was submitted.\<close>

theorem um_direct_delivers_in_order:
  assumes "um_direct txc rxc submitted sent tx rx log" and "0 < tuc_queue_size txc" and "0 < ruc_t_reassembly rxc"
    and "ruc_sn_field_length rxc = tuc_sn_field_length txc"
  shows "log = sent \<and> subseq log submitted"
proof -
  obtain llog N sdus got where "um_direct_at txc rxc submitted sent tx rx log llog N sdus got" using um_direct_inv [OF assms] by blast
  then have "log = sent" "subseq (sent @ tu_line tx) submitted" by (simp_all add: um_direct_at_def)
  moreover have "subseq (sent @ []) (sent @ tu_line tx)" by (rule list_emb_append_mono [OF subseq_order.order_refl list_emb_Nil])
  ultimately show ?thesis using subseq_order.order_trans by auto
qed

theorem um_direct_delivers_in_order_witness:
  "\<exists>tx rx. um_direct demo_utx_cfg demo_urx_cfg [[1, 2, 3]] [[1, 2, 3]] tx rx [[1, 2, 3]] \<and> subseq [[1, 2, 3]] [[1, 2, 3 :: u8]]"
proof -
  have a: "um_direct demo_utx_cfg demo_urx_cfg [[1, 2, 3]] [] demo_utx1 demo_urx []"
    using direct_tx [OF direct_start [OF demo_utx_created demo_urx_created] demo_submitted] by simp
  have st: "um_completed demo_utx1 [0x40, 1, 2] = []" "um_completed demo_utx2 [0x80, 0, 2, 3] = [[1, 2, 3]]" by code_simp+
  have b: "um_direct demo_utx_cfg demo_urx_cfg [[1, 2, 3]] [] demo_utx2 demo_urx1 []"
    using direct_pdu [OF a demo_first _ demo_first_in] by (simp add: st)
  have c: "um_direct demo_utx_cfg demo_urx_cfg [[1, 2, 3]] [[1, 2, 3]] demo_utx3 demo_urx2 [[1, 2, 3]]"
    using direct_pdu [OF b demo_last _ demo_last_in] by (simp add: st)
  then show ?thesis using um_direct_delivers_in_order [OF c] by auto
qed

end
