(* ===== verification/Rlc_Tm.thy ===== *)
theory Rlc_Tm
  imports Rlc_Tx_Um Rlc_Rx_Metrics
begin

text \<open>
  The transparent mode, \<open>lib/rlc/rlc_tx_tm_entity.h\<close>, \<open>rlc_tx_tm_entity.cpp\<close>, \<open>rlc_rx_tm_entity.h\<close> and
  \<open>rlc_rx_tm_entity.cpp\<close>: PDUs are SDUs. Environment, events and tasks are those of the other modes.
  Logging, packet capture and the clock are left out.
\<close>

section \<open>The transmitting entity\<close>

record rlc_tx_tm_config =
  ttc_queue_size :: u32
  ttc_queue_size_bytes :: u32

record rlc_tx_tm_entity =
  tt_cfg :: rlc_tx_tm_config
  tt_sdu_queue :: rlc_sdu_queue
  tt_sdu :: rlc_sdu
  tt_pending_buffer_state :: bool
  tt_stopped :: bool
  tt_metrics_high :: rlc_tx_metrics_high
  tt_metrics_low :: rlc_tx_metrics_low
  tt_events :: "rlc_tx_event list"
  tt_pcell_tasks :: "pcell_task list"

definition rlc_tx_tm_create :: "rlc_tx_tm_config \<Rightarrow> bool \<Rightarrow> rlc_tx_tm_entity" where
  "rlc_tx_tm_create cfg metrics_enabled =
     \<lparr>tt_cfg = cfg, tt_sdu_queue = sq_create (ttc_queue_size cfg) (ttc_queue_size_bytes cfg), tt_sdu = rlc_sdu_init,
      tt_pending_buffer_state = False, tt_stopped = False, tt_metrics_high = rth_create metrics_enabled,
      tt_metrics_low = rtl_set_mode Mode_tm (rtl_create metrics_enabled), tt_events = [], tt_pcell_tasks = []\<rparr>"

definition tt_emit :: "rlc_tx_event \<Rightarrow> rlc_tx_tm_entity \<Rightarrow> rlc_tx_tm_entity" where
  "tt_emit ev s = s\<lparr>tt_events := tt_events s @ [ev]\<rparr>"

definition tt_pcell_defer :: "tx_am_env \<Rightarrow> pcell_task \<Rightarrow> rlc_tx_tm_entity \<Rightarrow> rlc_tx_tm_entity" where
  "tt_pcell_defer env t s = (if te_pcell_ok env then s\<lparr>tt_pcell_tasks := tt_pcell_tasks s @ [t]\<rparr> else s)"

definition tx_tm_stop :: "tx_am_env \<Rightarrow> rlc_tx_tm_entity \<Rightarrow> rlc_tx_tm_entity" where
  "tx_tm_stop env s =
     (if tt_stopped s then s else (tt_pcell_defer env Stop_lower_task s)\<lparr>tt_stopped := True\<rparr>)"

definition tt_get_buffer_state :: "rlc_tx_tm_entity \<Rightarrow> rlc_buffer_state \<times> rlc_tx_tm_entity" where
  "tt_get_buffer_state s =
     (let (hol_toa, s) =
        (if sdu_buf (tt_sdu s) \<noteq> [] then (Some (sdu_toa (tt_sdu s)), s)
         else
           let (next_sdu, q) = sq_front (tt_sdu_queue s) in
           (map_option sdu_toa next_sdu, s\<lparr>tt_sdu_queue := q\<rparr>)) in
      (\<lparr>bs_pending_bytes = snd (sq_get_state (tt_sdu_queue s)) + of_nat (length (sdu_buf (tt_sdu s))), bs_hol_toa = hol_toa\<rparr>, s))"

definition tt_update_mac_buffer_state :: "rlc_tx_tm_entity \<Rightarrow> rlc_tx_tm_entity" where
  "tt_update_mac_buffer_state s =
     (let (bs, s) = tt_get_buffer_state (s\<lparr>tt_pending_buffer_state := False\<rparr>) in tt_emit (Rlc_buffer_state bs) s)"

definition tt_handle_changed_buffer_state :: "tx_am_env \<Rightarrow> rlc_tx_tm_entity \<Rightarrow> rlc_tx_tm_entity" where
  "tt_handle_changed_buffer_state env s =
     (if tt_pending_buffer_state s then s
      else tt_pcell_defer env Update_buffer_state_task (s\<lparr>tt_pending_buffer_state := True\<rparr>))"

definition tx_tm_handle_sdu :: "tx_am_env \<Rightarrow> bytes \<Rightarrow> bool \<Rightarrow> rlc_tx_tm_entity \<Rightarrow> rlc_tx_tm_entity" where
  "tx_tm_handle_sdu env buf is_retx s =
     (let (ok, q) = sq_write (rlc_sdu_init\<lparr>sdu_buf := buf, sdu_toa := te_now env\<rparr>) (tt_sdu_queue s);
          s = s\<lparr>tt_sdu_queue := q\<rparr> in
      if ok then tt_handle_changed_buffer_state env (s\<lparr>tt_metrics_high := rth_add_sdus 1 (length buf) (tt_metrics_high s)\<rparr>)
      else s\<lparr>tt_metrics_high := rth_add_lost_sdus 1 (tt_metrics_high s)\<rparr>)"

definition tx_tm_discard_sdu :: "u32 \<Rightarrow> rlc_tx_tm_entity \<Rightarrow> rlc_tx_tm_entity" where
  "tx_tm_discard_sdu pdcp_sn s = s\<lparr>tt_metrics_high := rth_add_discard_failure 1 (tt_metrics_high s)\<rparr>"

text \<open>What \<open>pull_pdu\<close> does with the current SDU.\<close>

definition tt_send :: "tx_am_env \<Rightarrow> nat \<Rightarrow> rlc_tx_tm_entity \<Rightarrow> (bytes \<times> rlc_tx_tm_entity) run" where
  "tt_send env grant_len s =
     (let pdu = sdu_buf (tt_sdu s) in
      if grant_len < length pdu
      then seq_run (rtl_add_small_alloc 1 (tt_metrics_low s)) (\<lambda>m. Inr ([], s\<lparr>tt_metrics_low := m\<rparr>))
      else
        let s = (case sdu_pdcp_sn (tt_sdu s) of
                   None \<Rightarrow> s
                 | Some pdcp_sn \<Rightarrow> tt_emit (Rlc_transmitted pdcp_sn (ttc_queue_size_bytes (tt_cfg s))) s);
            s = s\<lparr>tt_sdu := (tt_sdu s)\<lparr>sdu_buf := []\<rparr>\<rparr> in
        Inr (pdu, s\<lparr>tt_metrics_low := rtl_add_pdu_latency_ns (te_pdu_latency env)
                     (rtl_add_pdus_no_segmentation 1 (length pdu) (tt_metrics_low s))\<rparr>))"

definition tx_tm_pull_pdu :: "tx_am_env \<Rightarrow> nat \<Rightarrow> rlc_tx_tm_entity \<Rightarrow> (bytes \<times> rlc_tx_tm_entity) run" where
  "tx_tm_pull_pdu env grant_len s =
     (if sdu_buf (tt_sdu s) \<noteq> [] then tt_send env grant_len s
      else
        let (ok, sdu, q) = read_into (sq_queue (tt_sdu_queue s)) (tt_sdu s) (tt_sdu_queue s);
            s = s\<lparr>tt_sdu := sdu, tt_sdu_queue := q\<rparr> in
        if \<not> ok then Inr ([], s) else tt_send env grant_len s)"

fun tt_run_pcell_task :: "pcell_task \<Rightarrow> rlc_tx_tm_entity \<Rightarrow> rlc_tx_tm_entity" where
  "tt_run_pcell_task Update_buffer_state_task s = tt_update_mac_buffer_state s"
| "tt_run_pcell_task _ s = s"

section \<open>The receiving entity\<close>

text \<open>\<open>chain_ok\<close>: the buffer pool has a chunk for the chain. The SDUs that are given to the upper layer are returned.\<close>

record rlc_rx_tm_entity =
  tm_metrics :: rlc_rx_metrics

definition rlc_rx_tm_create :: "bool \<Rightarrow> rlc_rx_tm_entity" where
  "rlc_rx_tm_create metrics_enabled = \<lparr>tm_metrics = rrm_set_mode Mode_tm (rrm_create metrics_enabled)\<rparr>"

definition tm_handle_pdu :: "bool \<Rightarrow> bytes \<Rightarrow> rlc_rx_tm_entity \<Rightarrow> bytes list \<times> rlc_rx_tm_entity" where
  "tm_handle_pdu chain_ok buf s =
     (let m = rrm_add_pdus 1 (length buf) (tm_metrics s) in
      if \<not> chain_ok then ([], s\<lparr>tm_metrics := rrm_add_lost_pdus 1 m\<rparr>)
      else ([buf], s\<lparr>tm_metrics := rrm_add_sdus 1 (length buf) m\<rparr>))"

end
