(* ===== verification/Rlc_Tm_Runs.thy ===== *)
theory Rlc_Tm_Runs
  imports Rlc_Tm Rlc_Tx_Um_Inv
begin

text \<open>
  Runs of the transparent mode: the accepted SDUs go out whole, once and in order, and the receiving
  entity passes them on.
\<close>

section \<open>The SDUs that wait\<close>

definition tt_line :: "rlc_tx_tm_entity \<Rightarrow> bytes list" where
  "tt_line s = (if sdu_buf (tt_sdu s) = [] then [] else [sdu_buf (tt_sdu s)]) @ map sdu_buf (sq_queue (tt_sdu_queue s))"

definition tm_metrics_ok :: "rlc_tx_metrics_low \<Rightarrow> bool" where
  "tm_metrics_ok m \<longleftrightarrow> (rtl_enabled m \<longrightarrow> (\<exists>n. rtl_mode_specific m = Tm_tx_metrics n))"

lemma tm_metrics_ok_add [simp]:
  "tm_metrics_ok (rtl_add_pdus_no_segmentation n len m) = tm_metrics_ok m"
  "tm_metrics_ok (rtl_add_pdu_latency_ns k m) = tm_metrics_ok m"
  by (simp_all add: tm_metrics_ok_def rtl_add_pdus_no_segmentation_def rtl_add_pdu_latency_ns_def Let_def)

text \<open>No SDU has a PDCP SN, so none is discarded.\<close>

definition tt_inv :: "rlc_tx_tm_entity \<Rightarrow> bool" where
  "tt_inv s \<longleftrightarrow> sq_ok (tt_sdu_queue s) \<and> (\<forall>x \<in> set (sq_queue (tt_sdu_queue s)). sdu_pdcp_sn x = None) \<and>
     sdu_pdcp_sn (tt_sdu s) = None \<and> tm_metrics_ok (tt_metrics_low s)"

lemma tt_all_valid: "\<forall>x \<in> set (sq_queue q). sdu_pdcp_sn x = None \<Longrightarrow> sq_sdus q = sq_queue q"
  by (simp add: sq_sdus_def sdu_valid_def)

lemma tt_front_same: "\<forall>x \<in> set (sq_queue q). sdu_pdcp_sn x = None \<Longrightarrow> snd (sq_front q) = q"
  unfolding sq_front_def by (cases "sq_queue q") auto

lemma tt_get_buffer_state_same:
  "tt_inv s \<Longrightarrow> snd (tt_get_buffer_state s) = s"
  using tt_front_same [of "tt_sdu_queue s"]
  by (auto simp: tt_get_buffer_state_def tt_inv_def Let_def split: prod.splits)

lemma tt_pending_bytes:
  assumes "tt_inv s"
  shows "bs_pending_bytes (fst (tt_get_buffer_state s)) = of_nat (sum_list (map length (tt_line s)))"
proof -
  have "\<forall>x \<in> set (sq_queue (tt_sdu_queue s)). sdu_pdcp_sn x = None" and ok: "sq_ok (tt_sdu_queue s)" using assms by (auto simp: tt_inv_def)
  note same = tt_front_same [OF this(1)] and valid = tt_all_valid [OF this(1)]
  have "snd (sq_get_state (tt_sdu_queue s)) = of_nat (sum_list (map (length \<circ> sdu_buf) (sq_queue (tt_sdu_queue s))))"
    using sq_ok_totals(3) [OF ok] by (simp add: valid sdu_bytes_def comp_def)
  then show ?thesis using same by (auto simp: tt_get_buffer_state_def tt_line_def Let_def split: prod.splits)
qed

text \<open>A pull: the first SDU that waits, as a whole, or nothing.\<close>

definition tt_first :: "nat \<Rightarrow> bytes list \<Rightarrow> bytes \<times> bytes list" where
  "tt_first grant xs =
     (case xs of [] \<Rightarrow> ([], []) | x # rest \<Rightarrow> if length x \<le> grant then (x, rest) else ([], xs))"

lemma tt_send_ok:
  assumes "tt_inv s" and "sdu_buf (tt_sdu s) = x"
  shows "\<exists>s'. tt_send env grant s = Inr (if length x \<le> grant then x else [], s') \<and> tt_inv s' \<and> tt_cfg s' = tt_cfg s \<and>
    tt_sdu_queue s' = tt_sdu_queue s \<and> sdu_buf (tt_sdu s') = (if length x \<le> grant then [] else x)"
proof (cases "length x \<le> grant")
  case True
  define m where "m = rtl_add_pdu_latency_ns (te_pdu_latency env) (rtl_add_pdus_no_segmentation 1 (length x) (tt_metrics_low s))"
  have none: "sdu_pdcp_sn (tt_sdu s) = None" and m: "tm_metrics_ok m" using assms by (simp_all add: tt_inv_def m_def)
  let ?s = "s\<lparr>tt_sdu := (tt_sdu s)\<lparr>sdu_buf := []\<rparr>, tt_metrics_low := m\<rparr>"
  have "tt_send env grant s = Inr (x, ?s)"
    unfolding tt_send_def Let_def m_def assms(2) none option.case using True by simp
  moreover have "tt_inv ?s" using assms m by (simp add: tt_inv_def)
  ultimately show ?thesis using True by simp
next
  case False
  obtain m where "rtl_add_small_alloc 1 (tt_metrics_low s) = Inr m" "tm_metrics_ok m"
    using assms by (cases "rtl_enabled (tt_metrics_low s)") (auto simp: tt_inv_def tm_metrics_ok_def rtl_add_small_alloc_def)
  then show ?thesis using False assms by (simp add: tt_send_def tt_inv_def)
qed

lemma tx_tm_pull_ok:
  assumes "tt_inv s"
  shows "\<exists>pdu s'. tx_tm_pull_pdu env grant s = Inr (pdu, s') \<and> tt_inv s' \<and> tt_cfg s' = tt_cfg s \<and> tt_first grant (tt_line s) = (pdu, tt_line s')"
proof (cases "sdu_buf (tt_sdu s) = []")
  case False
  obtain s' where s': "tt_send env grant s = Inr (if length (sdu_buf (tt_sdu s)) \<le> grant then sdu_buf (tt_sdu s) else [], s')" "tt_inv s'"
    "tt_cfg s' = tt_cfg s" "tt_sdu_queue s' = tt_sdu_queue s" "sdu_buf (tt_sdu s') = (if length (sdu_buf (tt_sdu s)) \<le> grant then [] else sdu_buf (tt_sdu s))"
    using tt_send_ok [OF assms refl, of env grant] by blast
  have "tt_first grant (tt_line s) = (if length (sdu_buf (tt_sdu s)) \<le> grant then sdu_buf (tt_sdu s) else [], tt_line s')"
    using False s'(4,5) by (simp add: tt_first_def tt_line_def)
  then show ?thesis using False s'(1-3) by (simp add: tx_tm_pull_pdu_def)
next
  case True
  let ?q = "tt_sdu_queue s"
  show ?thesis
  proof (cases "sq_queue ?q")
    case Nil
    have "sq_ok (?q\<lparr>sq_queue := []\<rparr>)" using assms by (simp add: tt_inv_def flip: Nil)
    then show ?thesis using Nil True assms by (simp add: tx_tm_pull_pdu_def tt_first_def tt_line_def tt_inv_def)
  next
    case (Cons x rest)
    have x: "sdu_pdcp_sn x = None" "\<forall>y \<in> set rest. sdu_pdcp_sn y = None" using assms Cons by (auto simp: tt_inv_def)
    let ?q1 = "state_sub (of_nat (length (sdu_buf x))) (?q\<lparr>sq_queue := rest\<rparr>)"
    let ?s = "s\<lparr>tt_sdu := x, tt_sdu_queue := ?q1\<rparr>"
    have "sq_ok ?q1" using pop_plain [of ?q, OF _ Cons x(1)] assms by (simp add: tt_inv_def)
    then have inv: "tt_inv ?s" using assms x by (simp add: tt_inv_def state_sub_def)
    have q1: "sq_queue ?q1 = rest" by (simp add: state_sub_def)
    have "tx_tm_pull_pdu env grant s = tt_send env grant ?s" using True Cons x by (simp add: tx_tm_pull_pdu_def)
    moreover obtain s' where s': "tt_send env grant ?s = Inr (if length (sdu_buf x) \<le> grant then sdu_buf x else [], s')" "tt_inv s'"
      "tt_cfg s' = tt_cfg s" "tt_sdu_queue s' = ?q1" "sdu_buf (tt_sdu s') = (if length (sdu_buf x) \<le> grant then [] else sdu_buf x)"
      using tt_send_ok [OF inv refl, of env grant] by auto
    moreover have "tt_first grant (tt_line s) = (if length (sdu_buf x) \<le> grant then sdu_buf x else [], tt_line s')"
      using True Cons q1 s'(4,5) by (auto simp: tt_first_def tt_line_def)
    ultimately show ?thesis by simp
  qed
qed

section \<open>Runs\<close>

text \<open>\<open>accepted\<close>: the SDUs that the queue took; \<open>sent\<close>: the PDUs that were pulled.\<close>

inductive tm_run :: "rlc_tx_tm_config \<Rightarrow> bytes list \<Rightarrow> bytes list \<Rightarrow> rlc_tx_tm_entity \<Rightarrow> bool" where
  tm_created: "tm_run cfg [] [] (rlc_tx_tm_create cfg metrics_enabled)"
| tm_sdu: "tm_run cfg accepted sent s \<Longrightarrow>
    tm_run cfg (accepted @ (if fst (sq_write (rlc_sdu_init\<lparr>sdu_buf := buf, sdu_toa := te_now env\<rparr>) (tt_sdu_queue s)) then [buf] else [])) sent
      (tx_tm_handle_sdu env buf is_retx s)"
| tm_discard: "tm_run cfg accepted sent s \<Longrightarrow> tm_run cfg accepted sent (tx_tm_discard_sdu sn s)"
| tm_query: "tm_run cfg accepted sent s \<Longrightarrow> tm_run cfg accepted sent (snd (tt_get_buffer_state s))"
| tm_task: "tm_run cfg accepted sent s \<Longrightarrow> tt_pcell_tasks s = t # ts \<Longrightarrow>
    tm_run cfg accepted sent (tt_run_pcell_task t (s\<lparr>tt_pcell_tasks := ts\<rparr>))"
| tm_stop: "tm_run cfg accepted sent s \<Longrightarrow> tm_run cfg accepted sent (tx_tm_stop env s)"
| tm_pull: "tm_run cfg accepted sent s \<Longrightarrow> tx_tm_pull_pdu env grant s = Inr (pdu, s') \<Longrightarrow>
    tm_run cfg accepted (sent @ (if pdu = [] then [] else [pdu])) s'"
| tm_metrics_high: "tm_run cfg accepted sent s \<Longrightarrow> rth_get_and_reset_metrics (tt_metrics_high s) = Inr (m, m') \<Longrightarrow>
    tm_run cfg accepted sent (s\<lparr>tt_metrics_high := m'\<rparr>)"
| tm_metrics_low: "tm_run cfg accepted sent s \<Longrightarrow> rtl_get_and_reset_metrics (tt_metrics_low s) = Inr (m, m') \<Longrightarrow>
    tm_run cfg accepted sent (s\<lparr>tt_metrics_low := m'\<rparr>)"

lemma tt_same_line:
  assumes "tt_inv s" and "tt_sdu_queue s' = tt_sdu_queue s" and "tt_sdu s' = tt_sdu s" and "tm_metrics_ok (tt_metrics_low s')"
  shows "tt_inv s' \<and> tt_line s' = tt_line s"
  using assms by (simp add: tt_inv_def tt_line_def)

lemma tt_changed_fields [simp]:
  "tt_sdu_queue (tt_handle_changed_buffer_state env s) = tt_sdu_queue s" "tt_sdu (tt_handle_changed_buffer_state env s) = tt_sdu s"
  "tt_metrics_low (tt_handle_changed_buffer_state env s) = tt_metrics_low s"
  by (simp_all add: tt_handle_changed_buffer_state_def tt_pcell_defer_def)

lemma tt_update_fields:
  assumes "tt_inv s"
  shows "tt_sdu_queue (tt_update_mac_buffer_state s) = tt_sdu_queue s" "tt_sdu (tt_update_mac_buffer_state s) = tt_sdu s"
    "tt_metrics_low (tt_update_mac_buffer_state s) = tt_metrics_low s"
proof -
  have "tt_inv (s\<lparr>tt_pending_buffer_state := False\<rparr>)" using assms by (simp add: tt_inv_def)
  from tt_get_buffer_state_same [OF this]
  show "tt_sdu_queue (tt_update_mac_buffer_state s) = tt_sdu_queue s" "tt_sdu (tt_update_mac_buffer_state s) = tt_sdu s"
    "tt_metrics_low (tt_update_mac_buffer_state s) = tt_metrics_low s"
    by (auto simp: tt_update_mac_buffer_state_def tt_emit_def split: prod.splits)
qed

lemma tt_write:
  assumes "tt_inv s" and "x = rlc_sdu_init\<lparr>sdu_buf := buf, sdu_toa := now\<rparr>" and "sq_write x (tt_sdu_queue s) = (ok, q)"
  shows "sq_ok q" and "sq_queue q = sq_queue (tt_sdu_queue s) @ (if ok then [x] else [])"
proof -
  have none: "sdu_pdcp_sn x = None" using assms(2) by (simp add: rlc_sdu_init_def)
  have "sq_ok (snd (sq_write x (tt_sdu_queue s)))"
    using sq.offer_sdus [of "tt_sdu_queue s" x] assms(1) none by (simp add: tt_inv_def)
  then show "sq_ok q" using assms(3) by simp
  show "sq_queue q = sq_queue (tt_sdu_queue s) @ (if ok then [x] else [])"
    using assms(3) none by (auto simp: sq_write_def sq_push_def state_add_def Let_def split: if_splits)
qed

abbreviation nonempty :: "bytes list \<Rightarrow> bytes list" where
  "nonempty xs \<equiv> filter (\<lambda>x. x \<noteq> []) xs"

lemma tm_run_inv:
  assumes "tm_run cfg accepted sent s" and "0 < ttc_queue_size cfg"
  shows "tt_inv s \<and> nonempty accepted = sent @ nonempty (tt_line s)"
  using assms
proof (induction rule: tm_run.induct)
  case (tm_created cfg metrics_enabled)
  then show ?case
    by (simp add: tt_inv_def tt_line_def rlc_tx_tm_create_def sq_create_ok rlc_sdu_init_def tm_metrics_ok_def rtl_set_mode_def rtl_create_def sq_create_def [of 0])
      (simp add: sq_create_def)
next
  case (tm_sdu cfg accepted sent s env buf is_retx)
  let ?x = "rlc_sdu_init\<lparr>sdu_buf := buf, sdu_toa := te_now env\<rparr>"
  have inv: "tt_inv s" using tm_sdu by simp
  obtain ok q where w: "sq_write ?x (tt_sdu_queue s) = (ok, q)" by force
  note q = tt_write [OF inv refl w]
  have "tt_sdu_queue (tx_tm_handle_sdu env buf is_retx s) = q" "tt_sdu (tx_tm_handle_sdu env buf is_retx s) = tt_sdu s"
    "tt_metrics_low (tx_tm_handle_sdu env buf is_retx s) = tt_metrics_low s"
    using w by (auto simp: tx_tm_handle_sdu_def Let_def)
  moreover have "tt_inv s" using inv .
  ultimately show ?case using q w tm_sdu by (auto simp: tt_inv_def tt_line_def rlc_sdu_init_def)
next
  case (tm_discard cfg accepted sent s sn)
  then show ?case using tt_same_line [of s "tx_tm_discard_sdu sn s"] by (simp add: tx_tm_discard_sdu_def tt_inv_def)
next
  case (tm_query cfg accepted sent s)
  then show ?case by (simp add: tt_get_buffer_state_same)
next
  case (tm_task cfg accepted sent s t ts)
  let ?s = "s\<lparr>tt_pcell_tasks := ts\<rparr>"
  have inv: "tt_inv ?s" "tt_line ?s = tt_line s" using tm_task tt_same_line [of s ?s] by (simp_all add: tt_inv_def)
  then show ?case using tt_same_line [of ?s "tt_update_mac_buffer_state ?s"] tt_update_fields [OF inv(1)] tm_task
    by (cases t) (simp_all add: tt_inv_def)
next
  case (tm_stop cfg accepted sent s env)
  then show ?case using tt_same_line [of s "tx_tm_stop env s"] by (simp add: tx_tm_stop_def tt_pcell_defer_def tt_inv_def)
next
  case (tm_pull cfg accepted sent s env grant pdu s')
  then have inv: "tt_inv s" by simp
  have "tt_inv s'" "tt_first grant (tt_line s) = (pdu, tt_line s')" using tx_tm_pull_ok [OF inv, of env grant] tm_pull(2) by auto
  then show ?case using tm_pull by (cases "tt_line s") (auto simp: tt_first_def dest: arg_cong [of _ _ nonempty] split: if_splits)
next
  case (tm_metrics_high cfg accepted sent s m m')
  then show ?case using tt_same_line [of s "s\<lparr>tt_metrics_high := m'\<rparr>"] by (simp add: tt_inv_def)
next
  case (tm_metrics_low cfg accepted sent s m m')
  then have "tm_metrics_ok m'"
    by (auto simp: tt_inv_def tm_metrics_ok_def rtl_get_and_reset_metrics_def rtl_get_metrics_def rtl_reset_metrics_def seq_run_def split: if_splits)
  then show ?case using tt_same_line [of s "s\<lparr>tt_metrics_low := m'\<rparr>"] tm_metrics_low by simp
qed

section \<open>Whole SDUs in order\<close>

text \<open>C35: The transparent mode is a FIFO of whole SDUs. In every run of the transmitting entity, of SDUs, discards, pulls,
  tasks of the cell executor, stops and reports, what was sent, and then what waits, is what was accepted, in order,
  nothing lost or doubled. A pull returns the first SDU that waits, or nothing when it does not fit the grant, and
  then keeps it; the buffer state is the number of bytes that wait. The receiving entity delivers it unchanged.\<close>

theorem tm_fifo:
  assumes "tm_run cfg accepted sent s" and "0 < ttc_queue_size cfg"
  shows "nonempty accepted = sent @ nonempty (tt_line s) \<and>
    bs_pending_bytes (fst (tt_get_buffer_state s)) = of_nat (sum_list (map length (tt_line s))) \<and>
    (\<exists>pdu s'. tx_tm_pull_pdu env grant s = Inr (pdu, s') \<and> (pdu, tt_line s') = tt_first grant (tt_line s) \<and>
       fst (tm_handle_pdu True pdu r) = [pdu])"
proof -
  have inv: "tt_inv s" "nonempty accepted = sent @ nonempty (tt_line s)" using tm_run_inv [OF assms] by auto
  then show ?thesis using tt_pending_bytes [OF inv(1)] tx_tm_pull_ok [OF inv(1), of env grant]
    by (auto simp: tm_handle_pdu_def)
qed

definition demo_ttx :: rlc_tx_tm_entity where
  "demo_ttx = tx_tm_handle_sdu tx_am_env_init [1, 2, 3] False (rlc_tx_tm_create \<lparr>ttc_queue_size = 4, ttc_queue_size_bytes = 100\<rparr> False)"

theorem tm_fifo_witness:
  "tt_line demo_ttx = [[1, 2, 3]] \<and> (\<exists>s'. tx_tm_pull_pdu tx_am_env_init 3 demo_ttx = Inr ([1, 2, 3], s') \<and> tt_line s' = []) \<and>
    (\<exists>s'. tx_tm_pull_pdu tx_am_env_init 2 demo_ttx = Inr ([], s') \<and> tt_line s' = [[1, 2, 3]])"
proof -
  let ?cfg = "\<lparr>ttc_queue_size = 4, ttc_queue_size_bytes = 100\<rparr>"
  obtain acc where r: "tm_run ?cfg acc [] demo_ttx" unfolding demo_ttx_def using tm_sdu [OF tm_created] by blast
  have l: "tt_line demo_ttx = [[1, 2, 3]]" by code_simp
  show ?thesis
    using tm_fifo [OF r, of tx_am_env_init 3 undefined] tm_fifo [OF r, of tx_am_env_init 2 undefined] by (auto simp: l tt_first_def)
qed

end
