(* ===== verification/Spec2Isabelle.thy ===== *)
theory Spec2Isabelle
  imports Pdcp_Rx_Properties Pdcp_Tx_Properties Pdcp_Status_Report Pdcp_Link Rlc_Rx_Am_Properties Rlc_Tx_Am_Properties
    Rlc_Um_Properties Rlc_Tm_Runs
begin

text \<open>
  The user-plane layers of the ocudu gNB (\<open>src/project/ocudu\<close>), modelled from the C++ sources.

  The program. An SDU from the upper layers gets a COUNT from the transmitting PDCP entity
  (\<open>lib/pdcp/pdcp_entity_tx.cpp\<close>), is kept in a window, gets a header with the lowest bits of the
  COUNT, is protected by a worker of the crypto executor (\<open>lib/security\<close>), and, back in COUNT
  order, goes to the RLC. On the other side the receiving PDCP entity (\<open>lib/pdcp/pdcp_entity_rx.cpp\<close>)
  recovers the COUNT from the SN, has the PDU deciphered and verified by a worker, and reorders:
  SDUs go up in COUNT order, gaps are waited for until a timer expires. Status reports of the
  receiving entity and delivery notifications of the RLC let the transmitting entity forget SDUs.
  Below, the RLC (\<open>lib/rlc\<close>) numbers the PDCP PDUs with SNs of its own, segments them to the sizes
  that the MAC asks for, and, in the acknowledged mode, gets them through with status reports and
  retransmissions; its receiving entity reassembles segments and delivers each PDU once, its
  transmitting entity keeps PDUs until they are acknowledged.

  Conventions (theory \<open>Prelude\<close>). A class is a record, its member functions are definitions over
  the record, in the order of the source. Counters of 32 bits are words. An operation that can
  fail an assertion or throw returns \<open>Inl\<close> with the fault; \<open>seq_run\<close> sequences. Notifiers are an
  outbox, a list of events that grows at its end; executors are lists of tasks, of which any one
  (crypto) or the first (UE) is run as a step of its own; timers are flags, with the clock as a
  state component where durations matter. What the environment answers (memory found, task
  accepted) is an argument. Loops are functions with a measure; loops over a decoder have fuel,
  which is the number of bits that can be left, and the lemmas show that it is enough.

  Theories and the code they model:
  \<^item> \<open>Circular_Map\<close>, \<open>Sdu_Window\<close>, \<open>Ring_Buffer\<close>: \<open>include/ocudu/adt/circular_map.h\<close>,
    \<open>ring_buffer.h\<close> and \<open>support/sdu_window.h\<close>, with the locales \<open>sn_window\<close> and \<open>bounded_queue\<close> as
    the interfaces on which the entities rely, interpreted on them.
  \<^item> \<open>Bit_Coding\<close>: \<open>lib/support/bit_encoding.cpp\<close>; packing and unpacking as lists of bits.
  \<^item> \<open>Pdcp_Sn\<close>, \<open>Pdcp_Header\<close>: COUNT, HFN and SN arithmetic, the COUNT estimate, header formats.
  \<^item> \<open>Security_Engine\<close>: \<open>lib/security\<close>: the engine and its integrity and ciphering engines. The
    ciphering and MAC algorithms are parameters (\<open>sec_prims\<close>) of which only lengths, and that
    ciphering twice is the identity, are assumed (\<open>prims_ok\<close>, shown to hold for an instance).
  \<^item> \<open>Pdcp_Crypto_Token\<close>: the token counter that tells when no crypto task is left.
  \<^item> \<open>Pdcp_Rx\<close>, \<open>Pdcp_Rx_Metrics\<close>: the receiving entity. \<open>Pdcp_Rx_Delivery\<close> shows what the delivery
    loops do, \<open>Pdcp_Rx_Inv\<close> the invariant and the refinement of the abstract reordering buffer,
    \<open>Pdcp_Rx_Steps\<close> the step relation, re-establishment and status reports, \<open>Pdcp_Rx_Limits\<close> the
    states in which the code faults, \<open>Pdcp_Rx_Examples\<close> concrete entities, and
    \<open>Pdcp_Rx_Properties\<close> the properties.
  \<^item> \<open>Pdcp_Tx_Window\<close>, \<open>Pdcp_Tx_Metrics\<close>, \<open>Pdcp_Tx\<close>, \<open>Pdcp_Tx_Entity\<close>: the transmitting entity.
    \<open>Pdcp_Tx_Inv\<close> has its invariant and the operations that move the lower edge of the window,
    \<open>Pdcp_Tx_Submit\<close> the submission in order, \<open>Pdcp_Tx_Steps\<close> the step relation, \<open>Pdcp_Tx_Props\<close>
    and \<open>Pdcp_Tx_Sdu\<close> single operations, \<open>Pdcp_Tx_Limits\<close> the faults, \<open>Pdcp_Tx_Examples\<close> and
    \<open>Pdcp_Tx_Properties\<close> concrete entities and the properties.
  \<^item> \<open>Pdcp_Status_Report\<close>, \<open>Pdcp_Link\<close>: what the two entities do with each other's reports and PDUs.
  \<^item> \<open>Rlc_Config\<close>, \<open>Rlc_Ring_Window\<close>: sizes and field codes of \<open>include/ocudu/rlc/rlc_config.h\<close>, SNs
    modulo their number, and windows whose keys are such SNs.
  \<^item> \<open>Rlc_Am_Pdu\<close>: \<open>lib/rlc/rlc_am_pdu.cpp\<close>; \<open>Rlc_Am_Codec\<close> has the round trip of headers and of single
    NACKs, \<open>Rlc_Am_Status\<close> the locale \<open>nack_format\<close> of the two formats, what NACKs denote, merging
    and trimming.
  \<^item> \<open>Rlc_Am_Segments\<close>, \<open>Rlc_Rx_Metrics\<close>, \<open>Rlc_Rx_Am\<close>: the receiving entity of the acknowledged mode,
    \<open>lib/rlc/rlc_rx_am_entity.cpp\<close>. \<open>Rlc_Rx_Am_Window\<close> shows what its loops do, \<open>Rlc_Rx_Am_Inv\<close> the
    handling of one PDU, \<open>Rlc_Rx_Am_Report\<close> what status reports ask for, \<open>Rlc_Rx_Am_Steps\<close> the step
    relation and its invariant, \<open>Rlc_Rx_Am_Delivery\<close> the delivery over whole runs, and
    \<open>Rlc_Rx_Am_Properties\<close> the properties.
  \<^item> \<open>Rlc_Sdu_Queue\<close>, \<open>Rlc_Retx_Queue\<close>, \<open>Rlc_Tx_Metrics\<close>: the queue of SDUs
    (\<open>lib/rlc/rlc_sdu_queue_lockfree.h\<close>), with its slots for discarding, and that of retransmissions
    (\<open>lib/rlc/rlc_retx_queue.h\<close>), each with the agreement of its counters with its contents, and the metrics.
  \<^item> \<open>Rlc_Tx_Am\<close>: the transmitting entity of the acknowledged mode, \<open>lib/rlc/rlc_tx_am_entity.cpp\<close>.
    \<open>Rlc_Tx_Am_Window\<close> has the window of SNs in flight, \<open>Rlc_Tx_Am_Inv\<close> the invariant and the PDUs with new
    bytes, \<open>Rlc_Tx_Am_Pull\<close> retransmissions and whole pulls, \<open>Rlc_Tx_Am_Status\<close> the buffer state, ACKs and single
    NACKs, \<open>Rlc_Tx_Am_Report\<close> whole status reports, \<open>Rlc_Tx_Am_Steps\<close> the operations as a step relation
    (\<open>tx_reachable\<close>, with the SDUs that were accepted, discarded and acknowledged as a history), and
    \<open>Rlc_Tx_Am_Properties\<close> the properties. SDUs have 1 to 65535 bytes (\<open>sdu_sized\<close>): an empty one and one beyond
    the 16 bits of a segment offset are not handled by the code. Tasks that the entity gives to the cell
    executor wait in \<open>pcell_tasks\<close>, also those that \<open>execute\<close> may run at once.
  \<^item> \<open>Rlc_Um_Pdu\<close>, \<open>Rlc_Rx_Um\<close>, \<open>Rlc_Tx_Um\<close>: the unacknowledged mode, \<open>lib/rlc/rlc_um_pdu.h\<close>,
    \<open>rlc_rx_um_entity.cpp\<close> and \<open>rlc_tx_um_entity.cpp\<close>. \<open>Rlc_Rx_Um_Window\<close>, \<open>Rlc_Rx_Um_Inv\<close> and \<open>Rlc_Rx_Um_Delivery\<close>
    show what the receiver does with its window and with one PDU, \<open>Rlc_Rx_Um_Runs\<close> what runs deliver, when SDUs are
    numbered beyond the 6 or 12 bits of the SN (\<open>um_receives\<close>). \<open>Rlc_Tx_Um_Inv\<close> and \<open>Rlc_Tx_Um_Steps\<close> have the
    transmitter, \<open>Rlc_Um_Link\<close> both over a channel that loses and reorders by less than a window, \<open>Rlc_Um_Direct\<close> both over
    one that does not, and \<open>Rlc_Um_Properties\<close> the properties. SDUs have at most 65536 bytes.
  \<^item> \<open>Rlc_Tm\<close>, \<open>Rlc_Tm_Runs\<close>: the transparent mode, \<open>lib/rlc/rlc_tx_tm_entity.cpp\<close> and \<open>rlc_rx_tm_entity.cpp\<close>, as a FIFO.
  This theory holds the properties of the COUNT, of the runs of the receiving entity, and those
  that span entities.

  Bounds. A COUNT has 32 bits and the configured hard limit is at least one SN cycle below
  \<open>2 ^ 32\<close> (\<open>rx_cfg_ok\<close>), so COUNTs do not wrap; the window has half as many COUNTs as there are
  SNs. A status report covers at most 71960 COUNTs, the code's bound of 9000 bytes. The properties
  of the transmitting entity over whole runs assume that memory for headers is found and that
  there is no header compression; the faults without these assumptions are properties of their own.

  Not modelled: logging, tracing, metrics timers and durations; thread safety of the executors and
  of lock-free queues (operations are atomic steps); the ROHC library (a parameter);
  and the rest of the repository, which
  \<open>PROJECT.json\<close> lists with the reasons: the control plane, generated ASN.1 code, MAC, scheduler, PHY and radio code, and the vendored UE (\<open>srsRAN_4G\<close>).
\<close>

section \<open>COUNT\<close>

text \<open>
  C1: a COUNT that lies less than one window ahead of, and at most one window behind, the lower
  edge of the window is recovered from its SN alone.
\<close>

theorem count_recovered:
  assumes "sn_size_ok z" and "unat lower \<le> unat c + window_nat z" and "unat c < unat lower + window_nat z"
  shows "estimate_count z lower (pdcp_compute_sn c z) = c"
  using assms by (rule estimate_count_recovers)

theorem count_recovered_witness:
  "estimate_count Size12bits 4000 (pdcp_compute_sn 4100 Size12bits) = 4100 \<and>
   estimate_count Size12bits 4100 (pdcp_compute_sn 4000 Size12bits) = 4000"
  using count_recovered [of Size12bits 4000 4100] count_recovered [of Size12bits 4100 4000]
  by (simp add: sn_size_ok_def window_nat_values)

section \<open>The receiving PDCP entity\<close>



text \<open>
  C3: along any run of the receiving entity, whatever the order in which the PDUs arrive and the
  crypto workers finish, the SDUs go to the upper layers with strictly ascending COUNTs (no SDU
  twice), each from RX\_DELIV before the run to RX\_DELIV after it.
\<close>

theorem rx_delivers_in_order:
  assumes "rx_inv s" and "(rx_step env)\<^sup>*\<^sup>* s u"
  shows "\<exists>evs. rx_outbox u = rx_outbox s @ evs \<and> sorted_wrt (<) (delivered evs) \<and>
    (\<forall>n \<in> set (delivered evs). unat (rx_deliv (rx_st s)) \<le> n \<and> n < unat (rx_deliv (rx_st u)))"
  using rx_steps_correct [OF assms(2,1)] by (auto simp: rx_effect_def)

theorem rx_delivers_in_order_witness:
  "\<exists>u evs. run_ue_task demo_env demo_two_tasks = Inr u \<and> rx_outbox u = evs \<and> sorted_wrt (<) (delivered evs)"
proof -
  obtain u where u: "run_ue_task demo_env demo_two_tasks = Inr u"
    using run_ue_task_no_fault [OF demo_two_tasks_ok(1,2), of demo_env] by blast
  then have "(rx_step demo_env)\<^sup>*\<^sup>* demo_two_tasks u" by (blast intro: Step_ue)
  then show ?thesis using rx_delivers_in_order [OF demo_two_tasks_ok(1)] u demo_two_tasks_ok(3) by fastforce
qed

text \<open>
  C17: without header compression and for a PDU that passed the COUNT checks,
  \<open>apply_reordering\<close> implements the specification \<open>sp_step\<close>: late and duplicate PDUs change
  nothing; otherwise the SDU is buffered and, when it is the first missing one, the longest run
  of consecutive SDUs goes up, in order and unchanged.
\<close>

theorem apply_reordering_refines:
  assumes "rx_inv s" and "count_ok s (pdu_count i)" and "rx_rohc s = None"
  shows "\<exists>u. apply_reordering env i s = Inr u \<and>
    rx_abs u = snd (sp_step (rxc_t_reordering (rx_cfg s)) (unat (pdu_count i)) (sdu_of i) (rx_abs s)) \<and>
    rx_outbox u = rx_outbox s @
      map sdu_event (fst (sp_step (rxc_t_reordering (rx_cfg s)) (unat (pdu_count i)) (sdu_of i) (rx_abs s)))"
  using apply_reordering_correct [OF assms(1,2), of env] assms(3) by auto

theorem apply_reordering_refines_witness:
  "\<exists>u. apply_reordering demo_env (demo_pdu 1) (demo_rx Drb Am) = Inr u \<and>
    rx_abs u = snd (sp_step (Ms 10) 1 (sdu_of (demo_pdu 1)) (rx_abs (demo_rx Drb Am)))"
  using apply_reordering_refines [OF demo_rx_ok(1) demo_pdu_ok [of 1], where env = demo_env]
  by (auto simp: demo_cfg_def demo_pdu_def)

text \<open>
  C18: when t-Reordering expires, everything stored below its target goes up in ascending order,
  then the run that starts at the target; if a later SDU is still missing the timer runs again
  with RX\_NEXT as its target.
\<close>

theorem expiry_refines:
  assumes "rx_inv s" and "rx_timer_running s" and "\<not> rx_stopped s" and "rx_rohc s = None"
  shows "\<exists>u. reordering_callback env (rx_stop_timer s) = Inr u \<and> rx_inv u \<and>
    rx_abs u = snd (sp_expire (unat (rx_reord (rx_st s))) (rx_abs s)) \<and>
    rx_outbox u = rx_outbox s @ map sdu_event (fst (sp_expire (unat (rx_reord (rx_st s))) (rx_abs s))) \<and>
    unat (rx_reord (rx_st s)) \<le> unat (rx_deliv (rx_st u)) \<and>
    (rx_deliv (rx_st u) < rx_next (rx_st u) \<longrightarrow> rx_timer_running u \<and> rx_reord (rx_st u) = rx_next (rx_st u))"
  using reordering_callback_correct [OF assms(1-3), of env] assms(4)
  by (auto simp: word_less_nat_alt word_unat_eq_iff)

theorem expiry_refines_witness:
  "\<exists>u. reordering_callback demo_env (rx_stop_timer demo_gap) = Inr u \<and>
    rx_abs u = snd (sp_expire 2 (rx_abs demo_gap)) \<and> 2 \<le> unat (rx_deliv (rx_st u))"
  using expiry_refines [OF demo_gap_ok(1), where env = demo_env] by auto

section \<open>The two PDCP entities together\<close>

text \<open>
  C20: a PDU that one side secures and frames for COUNT c is recovered by the other side, if c is
  near its window: the receiving entity estimates the same COUNT, deciphers and verifies the PDU
  with it, and hands the unchanged SDU to its reordering.
\<close>

theorem end_to_end:
  assumes "linked P te re w v t r" and "rx_inv r"
    and "tbi_buf i = sn_bytes (txc_sn_size (tx_cfg t)) (tx_is_srb t) (tx_sn t (tbi_count i)) @ sdu" and "sdu \<noteq> []"
    and "tx_apply_security te w room True i t = Inr t'" and "tx_ue_tasks t' = tx_ue_tasks t @ [Tx_reorder (i\<lparr>tbi_buf := pdu\<rparr>)]"
    and "dlv r \<le> unat (tbi_count i) + rx_win_nat r" and "unat (tbi_count i) < dlv r + rx_win_nat r"
    and "unat (tbi_count i) < rx_hard r"
  shows "\<exists>r1 r2. handle_data_pdu True pdu r = Inr r1 \<and>
    rx_crypto_tasks r1 = rx_crypto_tasks r @ [\<lparr>pdu_buf = pdu, pdu_count = tbi_count i, pdu_integrity_verified = False\<rparr>] \<and>
    apply_security re v True \<lparr>pdu_buf = pdu, pdu_count = tbi_count i, pdu_integrity_verified = False\<rparr> r1 = Inr r2 \<and>
    rx_ue_tasks r2 = rx_ue_tasks r1 @ [Reorder \<lparr>pdu_buf = sdu, pdu_count = tbi_count i,
      pdu_integrity_verified = verified_by (tx_sec_engines t ! w)\<rparr>]"
  using link_delivers [OF assms(1-6) assms(7-9)] .

definition demo_link_tx :: "pdcp_tx_window \<Rightarrow> unit pdcp_tx" where
  "demo_link_tx w = (demo_tx Srb None w 2)\<lparr>tx_sec_engines := [Some demo_engine]\<rparr>"

definition demo_link_rx :: "unit pdcp_rx" where
  "demo_link_rx = (demo_rx Srb Am)\<lparr>rx_sec_engines := [Some demo_engine]\<rparr>"

lemma demo_linked: "linked demo_prims demo_tx_env demo_env 0 0 (demo_link_tx w) demo_link_rx"
  by (simp add: linked_def demo_prims_ok demo_tx_env_def demo_env_def demo_link_tx_def demo_link_rx_def tx_is_srb_def
      rx_is_srb_def demo_cfg_def tx_cfg_ok_def sn_size_ok_def)

lemma demo_secured:
  "\<exists>pdu. encrypt_and_protect_integrity demo_prims demo_engine True [0, 1, 7] 2 1 = (Success, pdu)"
  by (simp add: encrypt_and_protect_integrity_def demo_engine_def protect_integrity_cases mac_of_def demo_prims_def
      apply_ciphering_def is_success_def)

theorem end_to_end_witness:
  "\<exists>pdu r1. encrypt_and_protect_integrity demo_prims demo_engine True [0, 1, 7] 2 1 = (Success, pdu) \<and>
     handle_data_pdu True pdu demo_link_rx = Inr r1 \<and>
     (\<exists>r2. apply_security demo_env 0 True \<lparr>pdu_buf = pdu, pdu_count = 1, pdu_integrity_verified = False\<rparr> r1 = Inr r2 \<and>
       rx_ue_tasks r2 = rx_ue_tasks r1 @ [Reorder \<lparr>pdu_buf = [7], pdu_count = 1, pdu_integrity_verified = True\<rparr>])"
proof -
  obtain w where "tx_inv (demo_tx Srb None w 2)" using demo_filled [of 2 Srb None] by auto
  obtain pdu where p: "encrypt_and_protect_integrity demo_prims demo_engine True [0, 1, 7] 2 1 = (Success, pdu)"
    using demo_secured by blast
  let ?t = "demo_link_tx w" and ?i = "\<lparr>tbi_is_retx = False, tbi_retx_id = 0, tbi_count = 1, tbi_buf = [0, 1, 7]\<rparr>"
  have sec: "tx_apply_security demo_tx_env 0 True True ?i ?t =
      Inr (?t\<lparr>tx_ue_tasks := tx_ue_tasks ?t @ [Tx_reorder (?i\<lparr>tbi_buf := pdu\<rparr>)]\<rparr>)"
    using p by (simp add: tx_apply_security_def apply_ciphering_and_integrity_protection_def demo_link_tx_def demo_tx_env_def
        is_success_def tx_post_ue_task_def)
  have sn: "sn_bytes Size12bits True (pdcp_compute_sn 1 Size12bits) = [0, 1]" by code_simp
  have inv: "rx_inv demo_link_rx"
    by (rule rx_inv_transfer [OF demo_rx_ok(1) [of Srb Am]]) (simp_all add: demo_link_rx_def pending_counts_def)
  have frame: "tbi_buf ?i = sn_bytes (txc_sn_size (tx_cfg ?t)) (tx_is_srb ?t) (tx_sn ?t (tbi_count ?i)) @ [7]"
    using sn by (simp add: demo_link_tx_def tx_is_srb_def tx_sn_def)
  have "rx_st demo_link_rx = zero_st" "rx_cfg demo_link_rx = demo_cfg Srb Am" by (simp_all add: demo_link_rx_def)
  then have near: "dlv demo_link_rx \<le> unat (tbi_count ?i) + rx_win_nat demo_link_rx"
    "unat (tbi_count ?i) < dlv demo_link_rx + rx_win_nat demo_link_rx" "unat (tbi_count ?i) < rx_hard demo_link_rx"
    by (simp_all add: zero_st_def demo_cfg_def window_nat_values)
  have v: "verified_by (tx_sec_engines ?t ! 0)" by (simp add: verified_by_def demo_link_tx_def demo_engine_def)
  have "\<exists>r1 r2. handle_data_pdu True pdu demo_link_rx = Inr r1 \<and>
    apply_security demo_env 0 True \<lparr>pdu_buf = pdu, pdu_count = 1, pdu_integrity_verified = False\<rparr> r1 = Inr r2 \<and>
    rx_ue_tasks r2 = rx_ue_tasks r1 @ [Reorder \<lparr>pdu_buf = [7], pdu_count = 1, pdu_integrity_verified = True\<rparr>]"
    using end_to_end [OF demo_linked inv frame _ sec _ near] v by auto
  then show ?thesis using p by blast
qed

text \<open>
  C23: a status report that the receiving entity compiles and the transmitting entity's checks let
  pass removes from the transmit window exactly the SDUs that the peer has.
\<close>

theorem status_report_roundtrip:
  assumes "rx_inv r" and "tx_inv s" and "txc_discard_timer (tx_cfg s) \<noteq> None"
    and "check_status_report (rx_deliv (rx_st r)) (compile_status_report r) s = (True, s)"
  shows "\<exists>u. handle_status_report True (compile_status_report r) s = Inr u \<and> tx_inv u \<and> txnext u = txnext s \<and>
    wmap u = (\<lambda>k. if reports_received r k then None else wmap s k)"
  using report_roundtrip [OF assms] .

lemma demo_report_passes: "check_status_report 0 (compile_status_report demo_gap) (demo_tx Drb dt w 3) = (True, demo_tx Drb dt w 3)"
proof -
  have "\<not> bitmap_tail_bad 3 0 (last (compile_status_report demo_gap))"
    using report_tail_check [OF demo_gap_ok(1)] demo_gap_stored by (simp add: report_len_def report_end_def)
  then show ?thesis
    using demo_report_length by (simp add: check_status_report_def tx_zero_st_def bitmap_limit_def)
qed

theorem status_report_roundtrip_witness:
  "\<exists>w u. handle_status_report True (compile_status_report demo_gap) (demo_tx Drb (Some Discard_infinity) w 3) = Inr u \<and>
     wmap u 0 \<noteq> None \<and> wmap u 1 = None \<and> wmap u 2 \<noteq> None"
proof -
  let ?dt = "Some Discard_infinity"
  obtain w where w: "tx_inv (demo_tx Drb ?dt w 3)" "txw_map w = demo_map ?dt 3" using demo_filled [of 3 Drb ?dt] by auto
  have r: "reports_received demo_gap 1" "\<not> reports_received demo_gap 0" "\<not> reports_received demo_gap 2"
    using demo_gap_stored by (simp_all add: reports_received_def report_end_def)
  obtain u where u: "handle_status_report True (compile_status_report demo_gap) (demo_tx Drb ?dt w 3) = Inr u"
    "wmap u = (\<lambda>k. if reports_received demo_gap k then None else wmap (demo_tx Drb ?dt w 3) k)"
    using status_report_roundtrip [OF demo_gap_ok(1) w(1)] demo_report_passes by auto
  have "wmap u 0 \<noteq> None" "wmap u 1 = None" "wmap u 2 \<noteq> None" using u(2) r w(2) by (simp_all add: demo_map_def)
  then show ?thesis using u(1) by blast
qed

text \<open>
  The check of the last byte of the bitmap: a report of the receiving entity whose bitmap ends
  with a received SDU is refused exactly when the number of COUNTs up to TX\_NEXT, modulo 8, is
  less than the number of bits used in its last byte. In particular a report with a full last
  byte, or one compiled a little before TX\_NEXT, is refused although it is correct.
\<close>

theorem tail_check_exact:
  assumes "rx_inv r" and "0 < report_len r" and "stored r (of_nat (report_end r - 1)) \<noteq> None"
  shows "bitmap_tail_bad n (rx_deliv (rx_st r)) (last (compile_status_report r)) \<longleftrightarrow>
    unat ((n - rx_deliv (rx_st r) - 1) mod 8) < (report_len r - 1) mod 8 + 1"
  using report_tail_check [OF assms] .

theorem tail_check_exact_witness:
  "bitmap_tail_bad 9 0 (last (compile_status_report demo_gap)) \<and> \<not> bitmap_tail_bad 3 0 (last (compile_status_report demo_gap))"
  using tail_check_exact [OF demo_gap_ok(1), of 9] tail_check_exact [OF demo_gap_ok(1), of 3] demo_gap_stored
  by (simp add: report_len_def report_end_def)

end
